(* ===== verification/Prelude.thy ===== *)
theory Prelude
  imports Main "HOL-Library.Word" "HOL-Library.Monad_Syntax"
begin

text \<open>
  Shared vocabulary of the development: the C types of \<^verbatim>\<open>include/tayhuang/types.h\<close>,
  the arithmetic macros of \<^verbatim>\<open>include/tayhuang/defs.h\<close>, little-endian byte
  encodings, linked lists in an object store, and the queue and lookup-table interfaces that
  several components implement.

  Conventions used everywhere.  A pointer is a natural number, \<open>0\<close> is \<open>NULL\<close>.  An object
  store is a partial map from pointers to records; reading through a pointer that is not in the
  store (in particular through \<open>NULL\<close>) makes the whole operation \<open>None\<close>, so
  \<^emph>\<open>an operation returns \<open>Some\<close>\<close> means that it neither faulted nor ran forever.
\<close>

unbundle bit_operations_syntax

section \<open>C types and constants\<close>

type_synonym u8 = "8 word"
type_synonym u16 = "16 word"
type_synonym u32 = "32 word"
type_synonym u64 = "64 word"
type_synonym ptr = nat

abbreviation (input) NULL :: ptr where
  "NULL \<equiv> 0"

text \<open>\<^verbatim>\<open>#define MEMUNIT_SZ (4096)\<close> of \<^verbatim>\<open>include/tayhuang/paging.h\<close>.\<close>

abbreviation (input) MEMUNIT_SZ :: nat where
  "MEMUNIT_SZ \<equiv> 4096"

section \<open>Rewrite collections\<close>

named_theorems bind_iff \<open>when a computation that may fault returns a value\<close>

lemma bind_eq_Some_iff [bind_iff]:
  "Option.bind m f = Some y \<longleftrightarrow> (\<exists>x. m = Some x \<and> f x = Some y)"
  by (cases m) auto

lemma if_eq_Some_iff [bind_iff]:
  "(if b then Some x else None) = Some y \<longleftrightarrow> b \<and> x = y"
  by auto

section \<open>Signed C arithmetic\<close>

text \<open>The value of a 32-bit \<^verbatim>\<open>int\<close> after wrap-around, and of a 64-bit one.\<close>

definition wrap32 :: "int \<Rightarrow> int" where
  "wrap32 i = signed_take_bit 31 i"

definition wrap64 :: "int \<Rightarrow> int" where
  "wrap64 i = signed_take_bit 63 i"

lemma wrap32_id: "- (2 ^ 31) \<le> i \<Longrightarrow> i < 2 ^ 31 \<Longrightarrow> wrap32 i = i"
  by (simp add: wrap32_def signed_take_bit_int_eq_self)

lemma wrap64_id: "- (2 ^ 63) \<le> i \<Longrightarrow> i < 2 ^ 63 \<Longrightarrow> wrap64 i = i"
  by (simp add: wrap64_def signed_take_bit_int_eq_self)

section \<open>Rounding up to a power of two\<close>

text \<open>
  \<^verbatim>\<open>#define TO2POW(num, x) (((num) + (x)-1) & (~((x)-1)))\<close>: the idiom
  \<^verbatim>\<open>(n + (U - 1)) & ~(U - 1)\<close> that the heap, the page allocator, the module loader and
  the libraries spell out.
\<close>

definition TO2POW :: "u64 \<Rightarrow> u64 \<Rightarrow> u64" where
  "TO2POW num x = (num + x - 1) AND NOT (x - 1)"

lemma unat_and_not_mask:
  fixes w :: "'a::len word"
  shows "unat (w AND NOT (mask n)) = unat w div 2 ^ n * 2 ^ n"
proof -
  have "unat (w AND NOT (mask n)) = push_bit n (drop_bit n (unat w))"
    by (rule bit_eqI) (auto simp: bit_unsigned_iff bit_simps dest: bit_imp_le_length)
  then show ?thesis
    by (simp add: push_bit_eq_mult drop_bit_eq_div)
qed

lemma mask_eq_minus_one: "(2 ^ n :: 'a::len word) - 1 = mask n"
  by (simp add: mask_eq_decr_exp)

lemma unat_TO2POW:
  assumes "unat num + 2 ^ n - 1 < 2 ^ 64"
  shows "unat (TO2POW num (2 ^ n)) = (unat num + 2 ^ n - 1) div 2 ^ n * 2 ^ n"
proof -
  have one: "1 \<le> (2::nat) ^ n" by simp
  then obtain m where m: "unat num + 2 ^ n = Suc m"
    by (metis add_is_0 not0_implies_Suc not_one_le_zero)
  have "num + 2 ^ n = of_nat (unat num + 2 ^ n)" by simp
  then have "num + 2 ^ n - 1 = of_nat (unat num + 2 ^ n - 1)"
    unfolding m by simp
  then have "unat (num + 2 ^ n - 1) = (unat num + 2 ^ n - 1) mod 2 ^ 64"
    by (simp add: unat_of_nat)
  then have "unat (num + 2 ^ n - 1) = unat num + 2 ^ n - 1"
    using assms by simp
  then show ?thesis
    by (simp add: TO2POW_def mask_eq_minus_one unat_and_not_mask)
qed

lemma div_mult_le_self: "(m::nat) div n * n \<le> m"
  by (rule div_times_less_eq_dividend)

lemma round_up_bounds:
  fixes m :: nat
  assumes "0 < k"
  shows "m \<le> (m + k - 1) div k * k" and "(m + k - 1) div k * k < m + k"
    and "k dvd (m + k - 1) div k * k"
proof -
  have d: "(m + k - 1) div k * k = (m + k - 1) - (m + k - 1) mod k"
    by (simp add: minus_mod_eq_div_mult)
  have "(m + k - 1) mod k \<le> k - 1"
    using assms by (metis Suc_pred' less_Suc_eq_le mod_less_divisor)
  then show "m \<le> (m + k - 1) div k * k" and "(m + k - 1) div k * k < m + k"
    unfolding d using assms by linarith+
  show "k dvd (m + k - 1) div k * k" by simp
qed

section \<open>Little-endian bytes\<close>

text \<open>
  How the machine lays an integer of \<open>n\<close> bytes out in memory, and how it reads it back: what
  the \<^verbatim>\<open>ARG_READ\<close>/\<^verbatim>\<open>ARG_WRITE\<close> macros and the packed structs of messages rely on.
\<close>

fun le_bytes :: "nat \<Rightarrow> nat \<Rightarrow> u8 list" where
  "le_bytes 0 v = []"
| "le_bytes (Suc n) v = of_nat (v mod 256) # le_bytes n (v div 256)"

fun le_val :: "u8 list \<Rightarrow> nat" where
  "le_val [] = 0"
| "le_val (b # bs) = unat b + 256 * le_val bs"

lemma length_le_bytes [simp]: "length (le_bytes n v) = n"
  by (induction n arbitrary: v) auto

lemma le_val_le_bytes: "le_val (le_bytes n v) = v mod 256 ^ n"
proof (induction n arbitrary: v)
  case 0
  then show ?case by simp
next
  case (Suc n)
  have "unat (of_nat (v mod 256) :: u8) = v mod 256"
    by (simp add: unat_of_nat)
  then show ?case
    using Suc by (simp add: mod_mult2_eq add.commute)
qed

lemma le_val_le_bytes_id [simp]: "v < 256 ^ n \<Longrightarrow> le_val (le_bytes n v) = v"
  by (simp add: le_val_le_bytes)

lemma le_val_bound: "le_val bs < 256 ^ length bs"
proof (induction bs)
  case Nil
  then show ?case by simp
next
  case (Cons b bs)
  have "unat b < 256" using unsigned_less [of b] by simp
  with Cons show ?case by simp
qed

lemma le_bytes_le_val [simp]: "length bs = n \<Longrightarrow> le_bytes n (le_val bs) = bs"
proof (induction bs arbitrary: n)
  case Nil
  then show ?case by simp
next
  case (Cons b bs)
  have "unat b < 256" using unsigned_less [of b] by simp
  with Cons show ?case by auto
qed

section \<open>Linked lists in a store\<close>

text \<open>
  \<open>chain nx p xs\<close>: following the next-pointers \<open>nx\<close> from \<open>p\<close> visits exactly the objects \<open>xs\<close>,
  in this order, and ends in \<open>NULL\<close>.
\<close>

fun chain :: "(ptr \<rightharpoonup> ptr) \<Rightarrow> ptr \<Rightarrow> ptr list \<Rightarrow> bool" where
  "chain nx p [] \<longleftrightarrow> p = NULL"
| "chain nx p (a # as) \<longleftrightarrow>
     p = a \<and> a \<noteq> NULL \<and> (case nx a of None \<Rightarrow> False | Some q \<Rightarrow> chain nx q as)"

lemma chain_NULL [simp]: "chain nx NULL as \<longleftrightarrow> as = []"
  by (cases as) auto

lemma chain_nonNULL:
  "p \<noteq> NULL \<Longrightarrow> chain nx p as \<longleftrightarrow> (\<exists>q bs. as = p # bs \<and> nx p = Some q \<and> chain nx q bs)"
  by (cases as) (auto split: option.splits)

lemma chain_unique: "chain nx p as \<Longrightarrow> chain nx p bs \<Longrightarrow> as = bs"
proof (induction as arbitrary: p bs)
  case Nil
  then show ?case by simp
next
  case (Cons a as)
  then show ?case by (cases bs) (auto split: option.splits)
qed

lemma chain_suffix: "chain nx p (as @ bs) \<Longrightarrow> \<exists>q. chain nx q bs"
  by (induction as arbitrary: p) (auto split: option.splits)

lemma chain_hd_notin_tl: "chain nx p (a # as) \<Longrightarrow> a \<notin> set as"
proof
  assume c: "chain nx p (a # as)" and "a \<in> set as"
  then obtain ys zs where as: "as = ys @ a # zs" by (meson split_list)
  with c have "chain nx p ((a # ys) @ a # zs)" by simp
  then obtain q where "chain nx q (a # zs)" by (meson chain_suffix)
  then have "q = a" and "chain nx a (a # zs)" by (auto split: option.splits)
  moreover have "chain nx a (a # as)" using c by (auto split: option.splits)
  ultimately have "a # zs = a # as" by (metis chain_unique)
  with as show False by simp
qed

lemma chain_distinct: "chain nx p as \<Longrightarrow> distinct as"
proof (induction as arbitrary: p)
  case Nil
  then show ?case by simp
next
  case (Cons a as)
  from Cons.prems have "a \<notin> set as" by (rule chain_hd_notin_tl)
  with Cons show ?case by (auto split: option.splits)
qed

lemma chain_in_dom: "chain nx p as \<Longrightarrow> a \<in> set as \<Longrightarrow> a \<noteq> NULL \<and> nx a \<noteq> None"
  by (induction as arbitrary: p) (auto split: option.splits)

lemma chain_cong: "(\<And>a. a \<in> set as \<Longrightarrow> nx a = nx' a) \<Longrightarrow> chain nx p as = chain nx' p as"
  by (induction as arbitrary: p) (auto split: option.splits)

lemma chain_upd [simp]: "a \<notin> set as \<Longrightarrow> chain (nx(a := v)) p as = chain nx p as"
  by (rule chain_cong) auto

text \<open>Appending a node: the old last node is redirected to the new one, which ends the list.\<close>

lemma chain_append_node:
  assumes "chain nx p (as @ [t])" and "n \<notin> set (as @ [t])" and "n \<noteq> NULL"
  shows "chain (nx(n \<mapsto> NULL, t \<mapsto> n)) p (as @ [t, n])"
  using assms
proof (induction as arbitrary: p)
  case Nil
  then show ?case by (auto split: option.splits)
next
  case (Cons a as)
  from Cons.prems(1) have "distinct ((a # as) @ [t])" by (rule chain_distinct)
  with Cons show ?case by (auto split: option.splits)
qed

section \<open>Doubly linked lists in a store\<close>

text \<open>
  \<open>dseg nx lt prv p xs q\<close>: from \<open>p\<close>, whose back pointer is \<open>prv\<close>, the next-pointers visit \<open>xs\<close>, each
  object pointing back to the one before, and continue to \<open>q\<close>.
\<close>

fun dseg :: "(ptr \<rightharpoonup> ptr) \<Rightarrow> (ptr \<rightharpoonup> ptr) \<Rightarrow> ptr \<Rightarrow> ptr \<Rightarrow> ptr list \<Rightarrow> ptr \<Rightarrow> bool" where
  "dseg nx lt prv p [] q \<longleftrightarrow> p = q"
| "dseg nx lt prv p (a # as) q \<longleftrightarrow> p = a \<and> a \<noteq> NULL \<and> lt a = Some prv \<and>
     (case nx a of None \<Rightarrow> False | Some r \<Rightarrow> dseg nx lt a r as q)"

definition last_or :: "ptr \<Rightarrow> ptr list \<Rightarrow> ptr" where
  "last_or prv xs = (if xs = [] then prv else last xs)"

lemma last_or_simps [simp]:
  "last_or prv [] = prv" "last_or prv (a # as) = last_or a as" "last_or prv (as @ [a]) = a"
  by (auto simp: last_or_def)

lemma last_or_mem: "xs \<noteq> [] \<Longrightarrow> last_or prv xs \<in> set xs"
  by (simp add: last_or_def)

lemma dseg_append:
  "dseg nx lt prv p (xs @ ys) q \<longleftrightarrow> (\<exists>r. dseg nx lt prv p xs r \<and> dseg nx lt (last_or prv xs) r ys q)"
  by (induction xs arbitrary: prv p) (auto split: option.splits)

lemma dseg_cong:
  "(\<And>a. a \<in> set xs \<Longrightarrow> nx a = nx' a \<and> lt a = lt' a) \<Longrightarrow> dseg nx lt prv p xs q = dseg nx' lt' prv p xs q"
  by (induction xs arbitrary: prv p) (auto split: option.splits)

lemma dseg_frame [simp]:
  "a \<notin> set xs \<Longrightarrow> dseg (nx(a := v)) lt prv p xs q = dseg nx lt prv p xs q"
  "a \<notin> set xs \<Longrightarrow> dseg nx (lt(a := v)) prv p xs q = dseg nx lt prv p xs q"
  by (rule dseg_cong; auto)+

lemma dseg_chain: "dseg nx lt prv p xs NULL \<Longrightarrow> chain nx p xs"
  by (induction xs arbitrary: prv p) (auto split: option.splits)

lemma dseg_distinct: "dseg nx lt prv p xs NULL \<Longrightarrow> distinct xs"
  by (rule chain_distinct [OF dseg_chain])

lemma dseg_Nil_NULL: "dseg nx lt prv p xs NULL \<Longrightarrow> p = NULL \<longleftrightarrow> xs = []"
  by (cases xs) auto

text \<open>Unlinking an element.\<close>

lemma dseg_unlink:
  assumes d: "dseg nx lt NULL p (xs @ b # ys) NULL" and "nx b = Some n" and "lt b = Some l"
  shows "dseg (if l \<noteq> NULL then nx(l \<mapsto> n) else nx) (if n \<noteq> NULL then lt(n \<mapsto> l) else lt)
    NULL (if l \<noteq> NULL then p else n) (xs @ ys) NULL"
proof -
  from d have x: "dseg nx lt NULL p xs b" "l = last_or NULL xs" "dseg nx lt b n ys NULL" "b \<noteq> NULL"
    using assms by (auto simp: dseg_append)
  have dist: "distinct (xs @ b # ys)" by (rule dseg_distinct [OF d])
  let ?lt = "if n \<noteq> NULL then lt(n \<mapsto> l) else lt"
  have ys: "dseg nx ?lt l n ys NULL"
  proof (cases ys)
    case Nil
    with x show ?thesis by simp
  next
    case (Cons c cs)
    with x dist show ?thesis by (auto split: option.splits)
  qed
  have "n \<notin> set xs" if "n \<noteq> NULL"
    using x(3) that dist by (cases ys) auto
  then have xs: "dseg nx ?lt NULL p xs b" using x(1) by auto
  show ?thesis
  proof (cases xs rule: rev_cases)
    case Nil
    with x ys show ?thesis by auto
  next
    case (snoc zs c)
    with xs have z: "dseg nx ?lt NULL p zs c" "?lt c = Some (last_or NULL zs)" "c \<noteq> NULL"
      by (auto simp: dseg_append split: option.splits)
    have "l = c" using x(2) snoc by simp
    with snoc z ys dist x show ?thesis by (auto simp: dseg_append)
  qed
qed

lemma dseg_neighbours:
  assumes "dseg nx lt NULL p (xs @ b # ys) NULL" and "nx b = Some n" and "lt b = Some l"
  shows "n = NULL \<or> n \<in> set ys" and "l = NULL \<or> l \<in> set xs"
proof -
  from assms have x: "dseg nx lt NULL p xs b" "l = last_or NULL xs" "dseg nx lt b n ys NULL"
    by (auto simp: dseg_append)
  show "n = NULL \<or> n \<in> set ys" using x(3) by (cases ys) auto
  show "l = NULL \<or> l \<in> set xs" using x(2) last_or_mem [of xs NULL] by (cases "xs = []") auto
qed

lemma dseg_push:
  assumes "dseg nx lt NULL p xs NULL" and "b \<notin> set xs" and "b \<noteq> NULL"
  shows "dseg (nx(b \<mapsto> p)) ((if p \<noteq> NULL then lt(p \<mapsto> b) else lt)(b \<mapsto> NULL)) NULL b (b # xs) NULL"
  using assms dseg_distinct [OF assms(1)] by (cases xs) (auto split: option.splits)

end
