(* ===== verification/Defs.thy ===== *)
theory Defs
  imports Prelude
begin

text \<open>
  The helper macros and inline functions of \<^verbatim>\<open>include/tayhuang/defs.h\<close> and the message counter
  of \<^verbatim>\<open>kernel/global.h\<close>.
\<close>

section \<open>Byte and word macros\<close>

definition HIGHBYTE :: "u32 \<Rightarrow> u32" where
  "HIGHBYTE x = drop_bit 8 x AND 0xFF"

definition LOWBYTE :: "u32 \<Rightarrow> u32" where
  "LOWBYTE x = x AND 0xFF"

definition HIGHHEX :: "u32 \<Rightarrow> u32" where
  "HIGHHEX x = drop_bit 4 x AND 0xF"

definition LOWHEX :: "u32 \<Rightarrow> u32" where
  "LOWHEX x = x AND 0xF"

definition HIGHWORD :: "u32 \<Rightarrow> u32" where
  "HIGHWORD x = ucast (ucast (drop_bit 16 x) :: u16) AND 0xFFFF"

definition LOWWORD :: "u32 \<Rightarrow> u32" where
  "LOWWORD x = ucast (ucast x :: u16) AND 0xFFFF"

text \<open>\<^verbatim>\<open>((h) << 4 + (l))\<close> parses as \<^verbatim>\<open>h << (4 + l)\<close>.\<close>

definition MKBYTE :: "u32 \<Rightarrow> u32 \<Rightarrow> u32" where
  "MKBYTE h l = push_bit (unat (4 + l)) h"

definition MKWORD :: "u32 \<Rightarrow> u32 \<Rightarrow> u32" where
  "MKWORD h l = push_bit 8 (ucast (ucast h :: u16)) + l"

definition MKDWORD :: "u32 \<Rightarrow> u32 \<Rightarrow> u32" where
  "MKDWORD h l = push_bit 16 h + l"

section \<open>Leading zeros\<close>

text \<open>One \<^verbatim>\<open>if (x >> (32 - k) == 0) { n += k; x <<= k; }\<close> of the function.\<close>

definition lz_step :: "nat \<Rightarrow> u32 \<times> u32 \<Rightarrow> u32 \<times> u32" where
  "lz_step k nx = (case nx of (n, x) \<Rightarrow>
     if drop_bit (32 - k) x = 0 then (n + of_nat k, push_bit k x) else (n, x))"

definition leading_zeros :: "u32 \<Rightarrow> u32" where
  "leading_zeros x =
     (if x = 0 then 32
      else (case lz_step 2 (lz_step 4 (lz_step 8 (lz_step 16 (1, x)))) of
              (n, x) \<Rightarrow> n - drop_bit 31 x))"

text \<open>
  What the steps keep: \<open>x\<close> is the input shifted by \<open>n - 1\<close> places without losing a bit, and it
  has reached the bit \<open>m\<close>.
\<close>

definition lz_inv :: "nat \<Rightarrow> nat \<Rightarrow> nat \<Rightarrow> u32 \<times> u32 \<Rightarrow> bool" where
  "lz_inv x0 c m nx \<longleftrightarrow> (case nx of (n, x) \<Rightarrow>
     1 \<le> unat n \<and> unat n \<le> c \<and> unat x = x0 * 2 ^ (unat n - 1) \<and> 2 ^ m \<le> unat x)"

lemma drop_bit_eq_0_iff: "drop_bit k (x :: 'a::len word) = 0 \<longleftrightarrow> unat x < 2 ^ k"
proof -
  have "drop_bit k x = 0 \<longleftrightarrow> unat (drop_bit k x) = 0" by (simp add: unsigned_eq_0_iff)
  also have "\<dots> \<longleftrightarrow> unat x div 2 ^ k = 0"
    by (simp only: unat_drop_bit_eq flip: drop_bit_eq_div)
  also have "\<dots> \<longleftrightarrow> unat x < 2 ^ k" by (simp add: div_eq_0_iff)
  finally show ?thesis .
qed

lemma unat_push_bit_small:
  assumes "unat x * 2 ^ k < 2 ^ 32"
  shows "unat (push_bit k x :: u32) = unat x * 2 ^ k"
proof -
  have "push_bit k x = of_nat (unat x * 2 ^ k)" by (simp add: push_bit_eq_mult)
  then have "unat (push_bit k x) = unat x * 2 ^ k mod 2 ^ 32"
    by (simp only: unat_of_nat len_num1 flip: take_bit_eq_mod) simp
  then show ?thesis using assms by simp
qed

lemma lz_step_inv:
  assumes inv: "lz_inv x0 c m nx" and k: "k < 32"
    and c: "c + k < 32" and mk: "m' = 32 - k" "m' \<le> m + k"
  shows "lz_inv x0 (c + k) m' (lz_step k nx)"
proof -
  obtain n x where nx: "nx = (n, x)" by fastforce
  with inv have n: "1 \<le> unat n" "unat n \<le> c" and x: "unat x = x0 * 2 ^ (unat n - 1)"
    and ge: "2 ^ m \<le> unat x"
    by (auto simp: lz_inv_def)
  show ?thesis
  proof (cases "unat x < 2 ^ (32 - k)")
    case True
    have "unat x * 2 ^ k < 2 ^ (32 - k) * 2 ^ k" using True by simp
    also have "\<dots> = 2 ^ 32" using k by (simp flip: power_add)
    finally have px: "unat (push_bit k x) = unat x * 2 ^ k" by (rule unat_push_bit_small)
    have "unat (n + of_nat k) = (unat n + k) mod 2 ^ 32"
      using k by (simp add: unat_word_ariths unat_of_nat)
    then have nk: "unat (n + of_nat k) = unat n + k" using n c by simp
    have "(2::nat) ^ m' \<le> 2 ^ (m + k)" using mk by simp
    also have "\<dots> \<le> unat x * 2 ^ k" using ge by (simp add: power_add)
    finally have "2 ^ m' \<le> unat x * 2 ^ k" .
    moreover have "unat n + k - 1 = (unat n - 1) + k" using n by simp
    then have "unat x * 2 ^ k = x0 * 2 ^ (unat n + k - 1)" using x by (simp only: power_add mult.assoc)
    ultimately show ?thesis
      using True n px nk by (simp add: nx lz_inv_def lz_step_def drop_bit_eq_0_iff)
  next
    case False
    then show ?thesis using n x mk
      by (simp add: nx lz_inv_def lz_step_def drop_bit_eq_0_iff)
  qed
qed

lemma lz_steps_inv:
  assumes "x \<noteq> 0"
  shows "lz_inv (unat x) 31 30 (lz_step 2 (lz_step 4 (lz_step 8 (lz_step 16 (1, x)))))"
proof -
  have "unat x \<noteq> 0" using assms by (simp add: unsigned_eq_0_iff)
  then have "lz_inv (unat x) 1 0 (1, x)" by (simp add: lz_inv_def Suc_le_eq)
  then have "lz_inv (unat x) (1 + 16) 16 (lz_step 16 (1, x))"
    by (rule lz_step_inv) simp_all
  then have "lz_inv (unat x) (1 + 16 + 8) 24 (lz_step 8 (lz_step 16 (1, x)))"
    by (rule lz_step_inv) simp_all
  then have "lz_inv (unat x) (1 + 16 + 8 + 4) 28 (lz_step 4 (lz_step 8 (lz_step 16 (1, x))))"
    by (rule lz_step_inv) simp_all
  then have "lz_inv (unat x) (1 + 16 + 8 + 4 + 2) 30
      (lz_step 2 (lz_step 4 (lz_step 8 (lz_step 16 (1, x)))))"
    by (rule lz_step_inv) simp_all
  then show ?thesis by simp
qed

lemma pow2_cancel:
  fixes y :: nat
  assumes "a = b + k"
  shows "2 ^ a \<le> y * 2 ^ k \<longleftrightarrow> 2 ^ b \<le> y" and "y * 2 ^ k < 2 ^ a \<longleftrightarrow> y < 2 ^ b"
  by (simp_all add: assms power_add)

lemma leading_zeros_bounds:
  assumes "x \<noteq> 0"
  shows "unat (leading_zeros x) \<le> 31 \<and> 2 ^ (31 - unat (leading_zeros x)) \<le> unat x
       \<and> unat x < 2 ^ (32 - unat (leading_zeros x))"
proof -
  obtain n y where ny: "lz_step 2 (lz_step 4 (lz_step 8 (lz_step 16 (1, x)))) = (n, y)"
    by fastforce
  with lz_steps_inv [OF assms] have n: "1 \<le> unat n" "unat n \<le> 31"
    and y: "unat y = unat x * 2 ^ (unat n - 1)" and ge: "2 ^ 30 \<le> unat y"
    by (auto simp: lz_inv_def)
  have lt: "unat y < 2 ^ 32" using unsigned_less [of y] by simp
  let ?b = "drop_bit 31 y"
  have b: "unat ?b = unat y div 2 ^ 31"
    by (simp only: unat_drop_bit_eq flip: drop_bit_eq_div)
  have b1: "unat ?b \<le> 1" using lt by (simp add: b)
  have "leading_zeros x = n - ?b" using assms ny by (simp add: leading_zeros_def)
  moreover have "unat (n - ?b) = unat n - unat ?b"
    using n b1 by (simp add: unat_sub word_le_nat_alt)
  ultimately have lz: "unat (leading_zeros x) = unat n - unat ?b" by simp
  show ?thesis
  proof (cases "unat y < 2 ^ 31")
    case True
    then have l: "unat (leading_zeros x) = unat n" by (simp add: lz b)
    have "30 = (31 - unat n) + (unat n - 1)" "31 = (32 - unat n) + (unat n - 1)"
      using n by simp_all
    with n ge True show ?thesis unfolding l y by (simp only: pow2_cancel)
  next
    case False
    then have l: "unat (leading_zeros x) = unat n - 1" using lt by (simp add: lz b)
    have "31 = (31 - (unat n - 1)) + (unat n - 1)" "32 = (32 - (unat n - 1)) + (unat n - 1)"
      using n by simp_all
    moreover have "2 ^ 31 \<le> unat y" using False by simp
    ultimately show ?thesis using n lt unfolding l y by (simp only: pow2_cancel) simp
  qed
qed

text \<open>The reference: the number of zero bits from bit 31 downwards to the first one.\<close>

definition zeros_from_top :: "u32 \<Rightarrow> nat" where
  "zeros_from_top x = length (takeWhile (\<lambda>i. \<not> bit x i) (rev [0..<32]))"

lemma bit_unat: "bit (x :: u32) i \<longleftrightarrow> odd (unat x div 2 ^ i)"
  using bit_unsigned_iff [of x i, where ?'a = nat] by (simp add: bit_iff_odd [of "unat x"])

text \<open>
  \<^verbatim>\<open>leading_zeros\<close>, which halves the range with shifts and comparisons, counts the zero bits above the highest
  one bit, and 32 of them for 0.
\<close>

theorem leading_zeros_eq_scan: "unat (leading_zeros x) = zeros_from_top x"
proof (cases "x = 0")
  case True
  then show ?thesis
    by (simp add: leading_zeros_def zeros_from_top_def takeWhile_eq_all_conv [THEN iffD2])
next
  case False
  define z where "z = unat (leading_zeros x)"
  have z: "z \<le> 31" "2 ^ (31 - z) \<le> unat x" "unat x < 2 ^ (32 - z)"
    using leading_zeros_bounds [OF False] by (simp_all add: z_def)
  have "takeWhile (\<lambda>i. \<not> bit x i) (rev [0..<32]) = take z (rev [0..<32])"
  proof (rule takeWhile_eq_take_P_nth)
    fix i
    assume i: "i < z" "i < length (rev [0..<32])"
    then have "unat x < 2 ^ (31 - i)"
      using z by (intro less_le_trans [OF z(3)] power_increasing) auto
    then show "\<not> bit x (rev [0..<32] ! i)"
      using i by (simp add: rev_nth bit_unat)
  next
    have "32 - z = Suc (31 - z)"
      using z(1) by simp
    then have "unat x < 2 * 2 ^ (31 - z)"
      using z(3) by simp
    then have "unat x div 2 ^ (31 - z) = 1"
      using z(2) by (simp add: div_nat_eqI)
    then show "\<not> \<not> bit x (rev [0..<32] ! z)" if "z < length (rev [0..<32])"
      using that by (simp add: rev_nth bit_unat)
  qed
  then show ?thesis
    using z(1) by (simp add: zeros_from_top_def z_def [symmetric])
qed

section \<open>The message counter\<close>

text \<open>\<^verbatim>\<open>get_msgid\<close>: returns the counter and increments it, wrapping at 65535.\<close>

definition get_msgid :: "u16 \<Rightarrow> u16 \<times> u16" where
  "get_msgid msgid_counter =
     (if msgid_counter = 65535 then (65535, 0) else (msgid_counter, msgid_counter + 1))"

text \<open>Any number of calls from a given counter value.\<close>

fun msgids :: "nat \<Rightarrow> u16 \<Rightarrow> u16 list" where
  "msgids 0 c = []"
| "msgids (Suc n) c = (case get_msgid c of (i, c') \<Rightarrow> i # msgids n c')"

lemma get_msgid_eq: "get_msgid c = (c, c + 1)"
  by (simp add: get_msgid_def)

lemma msgids_eq: "msgids n c = map (\<lambda>i. c + of_nat i) [0..<n]"
proof (induction n arbitrary: c)
  case 0
  then show ?case by simp
next
  case (Suc n)
  have "map (\<lambda>i. c + of_nat i) [0..<Suc n] = c # map (\<lambda>i. c + 1 + of_nat i) [0..<n]"
    by (simp add: upt_conv_Cons map_Suc_upt [symmetric] comp_def add.assoc del: upt_Suc)
  then show ?case by (simp add: get_msgid_eq Suc)
qed

text \<open>No message number repeats within 65536 consecutive calls.\<close>

lemma msgids_distinct: "n \<le> 65536 \<Longrightarrow> distinct (msgids n c)"
proof -
  assume n: "n \<le> 65536"
  have "inj_on (\<lambda>i. c + (of_nat i :: u16)) {0..<n}"
  proof (rule inj_onI)
    fix i j assume ij: "i \<in> {0..<n}" "j \<in> {0..<n}" "c + (of_nat i :: u16) = c + of_nat j"
    then have "unat (of_nat i :: u16) = unat (of_nat j :: u16)" by simp
    then have "i mod 2 ^ 16 = j mod 2 ^ 16" unfolding unat_of_nat by simp
    with ij(1,2) n show "i = j" by simp
  qed
  then show ?thesis by (simp add: msgids_eq distinct_map)
qed

end
