(* ===== verification/CString.thy ===== *)
theory CString
  imports Prelude
begin

text \<open>
  The character classes of \<^verbatim>\<open>include/std/ctype.h\<close> and \<^verbatim>\<open>kernel/libs/ctype.c\<close> and the
  string routines of \<^verbatim>\<open>kernel/libs/string.c\<close>.  Characters are the C \<^verbatim>\<open>int\<close> the routines
  receive; memory is a function from addresses to bytes.
\<close>

section \<open>Character classes\<close>

definition isspace :: "int \<Rightarrow> bool" where
  "isspace ch \<longleftrightarrow> ch = 32 \<or> ch = 9 \<or> ch = 13 \<or> ch = 10 \<or> ch = 11 \<or> ch = 12"

definition isupper :: "int \<Rightarrow> bool" where
  "isupper ch \<longleftrightarrow> ch \<ge> 65 \<and> ch \<le> 90"

definition islower :: "int \<Rightarrow> bool" where
  "islower ch \<longleftrightarrow> ch \<ge> 97 \<and> ch \<le> 122"

definition isalpha :: "int \<Rightarrow> bool" where
  "isalpha ch \<longleftrightarrow> isupper ch \<or> islower ch"

definition isdigit :: "int \<Rightarrow> bool" where
  "isdigit ch \<longleftrightarrow> ch \<ge> 48 \<and> ch \<le> 57"

definition isalnum :: "int \<Rightarrow> bool" where
  "isalnum ch \<longleftrightarrow> isalpha ch \<or> isdigit ch"

definition isblank :: "int \<Rightarrow> bool" where
  "isblank ch \<longleftrightarrow> ch = 32 \<or> ch = 9"

definition iscntrl :: "int \<Rightarrow> bool" where
  "iscntrl ch \<longleftrightarrow> (ch \<ge> 0 \<and> ch \<le> 31) \<or> ch = 127"

definition isprint :: "int \<Rightarrow> bool" where
  "isprint ch \<longleftrightarrow> \<not> iscntrl ch"

definition isgraph :: "int \<Rightarrow> bool" where
  "isgraph ch \<longleftrightarrow> isprint ch"

definition ispunct :: "int \<Rightarrow> bool" where
  "ispunct ch \<longleftrightarrow> isprint ch \<and> \<not> isalnum ch"

text \<open>The lower-case range of the macro is \<^verbatim>\<open>ch >= 'a' && ch <= 'F'\<close>, which is empty.\<close>

definition isxdigit :: "int \<Rightarrow> bool" where
  "isxdigit ch \<longleftrightarrow> isalnum ch \<or> ((ch \<ge> 97 \<and> ch \<le> 70) \<or> (ch \<ge> 65 \<and> ch \<le> 70))"

definition isodigit :: "int \<Rightarrow> bool" where
  "isodigit ch \<longleftrightarrow> ch \<ge> 48 \<and> ch \<le> 55"

definition tolower :: "int \<Rightarrow> int" where
  "tolower ch = (if isupper ch then ch - 65 + 97 else ch)"

definition toupper :: "int \<Rightarrow> int" where
  "toupper ch = (if islower ch then ch - 97 + 65 else ch)"

lemmas ctype_defs = isspace_def isupper_def islower_def isalpha_def isdigit_def isalnum_def
  isblank_def iscntrl_def isprint_def isgraph_def ispunct_def isxdigit_def isodigit_def
  tolower_def toupper_def

lemma ctype_partition:
  "isprint ch \<longleftrightarrow> \<not> iscntrl ch" "isalnum ch \<Longrightarrow> isprint ch \<and> \<not> ispunct ch"
  "isprint ch \<longleftrightarrow> isalnum ch \<or> ispunct ch"
  by (auto simp: ctype_defs)

lemma case_round_trip:
  "isupper ch \<Longrightarrow> islower (tolower ch) \<and> toupper (tolower ch) = ch"
  "islower ch \<Longrightarrow> isupper (toupper ch) \<and> tolower (toupper ch) = ch"
  by (auto simp: ctype_defs)

text \<open>The hexadecimal class is the alphanumeric one: it accepts \<open>g\<close> to \<open>z\<close> as well.\<close>

lemma isxdigit_eq_isalnum: "isxdigit ch \<longleftrightarrow> isalnum ch"
  by (auto simp: ctype_defs)

section \<open>Strings in memory\<close>

type_synonym memory = "nat \<Rightarrow> u8"

text \<open>The value of a \<^verbatim>\<open>char\<close>, which is signed.\<close>

abbreviation char_at :: "memory \<Rightarrow> nat \<Rightarrow> int" where
  "char_at m p \<equiv> sint (m p)"

definition cstring :: "memory \<Rightarrow> nat \<Rightarrow> u8 list \<Rightarrow> bool" where
  "cstring m p xs \<longleftrightarrow> (\<forall>i<length xs. m (p + i) = xs ! i \<and> xs ! i \<noteq> 0) \<and> m (p + length xs) = 0"

lemma cstring_Nil [simp]: "cstring m p [] \<longleftrightarrow> m p = 0"
  by (simp add: cstring_def)

lemma cstring_Cons [simp]: "cstring m p (x # xs) \<longleftrightarrow> m p = x \<and> x \<noteq> 0 \<and> cstring m (Suc p) xs"
  by (auto simp: cstring_def less_Suc_eq_0_disj)

text \<open>\<^verbatim>\<open>repnz scasb\<close> for the byte 0: what is left of the count \<open>cnt\<close> when it stops.\<close>

function scasb0 :: "memory \<Rightarrow> nat \<Rightarrow> nat \<Rightarrow> nat" where
  "scasb0 m p cnt =
     (if cnt = 0 then 0 else if m p = 0 then cnt - 1 else scasb0 m (Suc p) (cnt - 1))"
  by pat_completeness auto
termination
  by (relation "measure (\<lambda>(m, p, cnt). cnt)") auto

declare scasb0.simps [simp del]

definition strlen :: "memory \<Rightarrow> nat \<Rightarrow> int" where
  "strlen m str = 0x7FFFFFFF - int (scasb0 m str 0x7FFFFFFF) - 1"

lemma scasb0_cstring: "cstring m p xs \<Longrightarrow> length xs < cnt \<Longrightarrow> scasb0 m p cnt = cnt - length xs - 1"
proof (induction xs arbitrary: p cnt)
  case Nil
  then show ?case by (simp add: scasb0.simps [of m p cnt])
next
  case (Cons x xs)
  then show ?case by (auto simp: scasb0.simps [of m p cnt])
qed

lemma strlen_cstring:
  "cstring m p xs \<Longrightarrow> length xs < 0x7FFFFFFF \<Longrightarrow> strlen m p = int (length xs)"
  by (simp add: strlen_def scasb0_cstring of_nat_diff)

text \<open>The comparison loop of \<^verbatim>\<open>strcmp\<close>: the difference at which it stops, 0 if it reaches the end.\<close>

partial_function (option) strcmp_loop :: "memory \<Rightarrow> nat \<Rightarrow> nat \<Rightarrow> int \<Rightarrow> int option" where
  "strcmp_loop m str1 str2 res =
     (if m str1 \<noteq> 0 then
        (let res = char_at m str1 - char_at m str2
         in if res \<noteq> 0 then Some res else strcmp_loop m (Suc str1) (Suc str2) res)
      else Some res)"

definition strcmp :: "memory \<Rightarrow> nat \<Rightarrow> nat \<Rightarrow> int option" where
  "strcmp m str1 str2 =
     (let len1 = strlen m str1; len2 = strlen m str2
      in if len1 \<noteq> len2 then (if len1 < len2 then Some (-1) else Some 1)
         else do {
           res \<leftarrow> strcmp_loop m str1 str2 0;
           Some (if res < 0 then -1 else if res > 0 then 1 else 0)
         })"

text \<open>
  The order the routine decides: shorter strings first, strings of one length
  lexicographically by signed characters.
\<close>

fun signed_lex :: "u8 list \<Rightarrow> u8 list \<Rightarrow> int" where
  "signed_lex (x # xs) (y # ys) = (if x = y then signed_lex xs ys else sint x - sint y)"
| "signed_lex _ _ = 0"

lemma sint_eq_iff [simp]: "sint x = sint y \<longleftrightarrow> x = (y :: u8)"
proof
  assume "sint x = sint y"
  then have "(of_int (sint x) :: u8) = of_int (sint y)" by simp
  then show "x = y" by simp
qed simp

lemma strcmp_loop_cstring:
  "cstring m p xs \<Longrightarrow> cstring m q ys \<Longrightarrow> length xs = length ys \<Longrightarrow>
   strcmp_loop m p q 0 = Some (signed_lex xs ys)"
proof (induction xs ys arbitrary: p q rule: list_induct2')
  case 1
  then show ?case by (simp add: strcmp_loop.simps)
next
  case (4 x xs y ys)
  then show ?case
    by (subst strcmp_loop.simps) (auto simp: Let_def)
qed auto

lemma signed_lex_0: "length xs = length ys \<Longrightarrow> signed_lex xs ys = 0 \<longleftrightarrow> xs = ys"
  by (induction xs ys rule: list_induct2) auto

lemma strcmp_cstring:
  assumes "cstring m p xs" and "cstring m q ys"
    and "length xs < 0x7FFFFFFF" and "length ys < 0x7FFFFFFF"
  shows "strcmp m p q = Some
    (if length xs < length ys then -1 else if length ys < length xs then 1
     else sgn (signed_lex xs ys))"
  using assms by (auto simp: strcmp_def strlen_cstring strcmp_loop_cstring sgn_if)

text \<open>Copying: the loop tests the next source byte only after it has copied one.\<close>

partial_function (option) strcpy_loop :: "memory \<Rightarrow> nat \<Rightarrow> nat \<Rightarrow> memory option" where
  "strcpy_loop m r src =
     (let m = m(r := m src); r = Suc r; src = Suc src
      in if m src \<noteq> 0 then strcpy_loop m r src else Some m)"

definition strcpy :: "memory \<Rightarrow> nat \<Rightarrow> nat \<Rightarrow> (nat \<times> memory) option" where
  "strcpy m dst src = do { m' \<leftarrow> strcpy_loop m dst src; Some (dst, m') }"

text \<open>Memory with the bytes \<open>xs\<close> stored from \<open>p\<close> on.\<close>

fun store_bytes :: "memory \<Rightarrow> nat \<Rightarrow> u8 list \<Rightarrow> memory" where
  "store_bytes m p [] = m"
| "store_bytes m p (x # xs) = store_bytes (m(p := x)) (Suc p) xs"

lemma store_bytes_append: "store_bytes m p (xs @ ys) = store_bytes (store_bytes m p xs) (p + length xs) ys"
  by (induction xs arbitrary: m p) auto

lemma store_bytes_outside: "a < p \<or> p + length xs \<le> a \<Longrightarrow> store_bytes m p xs a = m a"
  by (induction xs arbitrary: m p) auto

lemma store_bytes_inside: "i < length xs \<Longrightarrow> store_bytes m p xs (p + i) = xs ! i"
proof (induction xs arbitrary: m p i)
  case Nil
  then show ?case by simp
next
  case (Cons x xs)
  show ?case
  proof (cases i)
    case 0
    then show ?thesis by (simp add: store_bytes_outside)
  next
    case (Suc j)
    with Cons.IH [of j "m(p := x)" "Suc p"] Cons.prems show ?thesis
      by (simp del: fun_upd_apply)
  qed
qed

lemma cstring_upd_outside:
  "a < p \<or> p + length xs < a \<Longrightarrow> cstring (m(a := v)) p xs \<longleftrightarrow> cstring m p xs"
proof -
  assume "a < p \<or> p + length xs < a"
  then have "p + length xs \<noteq> a" and "\<And>i. i < length xs \<Longrightarrow> p + i \<noteq> a" by linarith+
  then show ?thesis by (simp add: cstring_def)
qed

lemma strcpy_loop_cstring:
  "cstring m src (x # xs) \<Longrightarrow> r + length (x # xs) \<le> src \<or> src + length (x # xs) < r \<Longrightarrow>
   strcpy_loop m r src = Some (store_bytes m r (x # xs))"
proof (induction xs arbitrary: m r src x)
  case Nil
  then show ?case by (subst strcpy_loop.simps) (auto simp: Let_def)
next
  case (Cons y ys)
  let ?m = "m(r := m src)"
  have out: "r < Suc src \<or> Suc src + length (y # ys) < r" using Cons.prems(2) by auto
  have c: "cstring ?m (Suc src) (y # ys)"
    using Cons.prems(1) cstring_upd_outside [OF out] by simp
  have "strcpy_loop ?m (Suc r) (Suc src) = Some (store_bytes ?m (Suc r) (y # ys))"
    by (rule Cons.IH [OF c]) (use Cons.prems(2) in auto)
  moreover have "?m (Suc src) \<noteq> 0" using c by auto
  ultimately show ?case using Cons.prems(1)
    by (subst strcpy_loop.simps) (simp add: Let_def)
qed

text \<open>
  Copying a non-empty string stores its characters and nothing else: the terminating zero is not
  copied.
\<close>

lemma strcpy_nonempty:
  assumes "cstring m src xs" and "xs \<noteq> []"
    and "dst + length xs \<le> src \<or> src + length xs < dst"
  shows "strcpy m dst src = Some (dst, store_bytes m dst xs)"
  using assms by (cases xs) (auto simp: strcpy_def strcpy_loop_cstring simp del: cstring_Cons store_bytes.simps)

end
