(* ===== verification/ToString.thy ===== *)
theory ToString
  imports CString
begin

text \<open>
  The number-to-string routines of \<^verbatim>\<open>kernel/libs/tostring.c\<close> (the module library carries the
  same file).  A routine fills a scratch array with digits, least significant first, and copies
  it reversed to the caller's buffer.
\<close>

section \<open>Digits\<close>

definition char_byte :: "char \<Rightarrow> u8" where
  "char_byte c = of_char c"

definition digits :: "u8 list" where
  "digits = map char_byte ''0123456789abcdefghijklmnopqrstuvwxyz''"

text \<open>C division truncates towards zero.\<close>

definition c_div :: "int \<Rightarrow> int \<Rightarrow> int" where
  "c_div a b = sgn a * sgn b * (\<bar>a\<bar> div \<bar>b\<bar>)"

definition c_mod :: "int \<Rightarrow> int \<Rightarrow> int" where
  "c_mod a b = a - b * c_div a b"

text \<open>
  \<^verbatim>\<open>while (val > 0) { _buffer[cnt] = digits[val % base]; cnt ++; val /= base; }\<close>: the
  contents of the scratch array of \<open>room\<close> more bytes.  Writing past the array, reading past the
  digit table and dividing by zero are \<open>None\<close>.
\<close>

fun digit_loop :: "nat \<Rightarrow> int \<Rightarrow> int \<Rightarrow> u8 list option" where
  "digit_loop 0 val base = (if val > 0 then None else Some [])"
| "digit_loop (Suc room) val base =
     (if val > 0 then
        if base = 0 \<or> c_mod val base \<ge> 36 then None
        else do {
          ds \<leftarrow> digit_loop room (c_div val base) base;
          Some (digits ! nat (c_mod val base) # ds)
        }
      else Some [])"

text \<open>The value 0 is written as the string \<open>0\<close>, with its terminator.\<close>

definition put_zero :: "memory \<Rightarrow> nat \<Rightarrow> memory" where
  "put_zero m buffer = m(buffer := 48, Suc buffer := 0)"

definition itoa :: "memory \<Rightarrow> int \<Rightarrow> nat \<Rightarrow> int \<Rightarrow> (nat \<times> memory) option" where
  "itoa m val buffer base =
     (if val = 0 then Some (buffer, put_zero m buffer)
      else
        let (m, pos, val) =
          (if val < 0 then (m(buffer := 45), Suc buffer, wrap32 (- val)) else (m, buffer, val))
        in do {
          ds \<leftarrow> digit_loop 12 val base;
          Some (buffer, store_bytes m pos (rev ds))
        })"

definition uitoa :: "memory \<Rightarrow> u32 \<Rightarrow> nat \<Rightarrow> int \<Rightarrow> (nat \<times> memory) option" where
  "uitoa m val buffer base =
     (if val = 0 then Some (buffer, put_zero m buffer)
      else do {
        ds \<leftarrow> digit_loop 12 (uint val) (take_bit 32 base);
        Some (buffer, store_bytes m buffer (rev ds))
      })"

definition lltoa :: "memory \<Rightarrow> int \<Rightarrow> nat \<Rightarrow> int \<Rightarrow> (nat \<times> memory) option" where
  "lltoa m val buffer base =
     (if val = 0 then Some (buffer, put_zero m buffer)
      else
        let (m, pos, val) =
          (if val < 0 then (m(buffer := 45), Suc buffer, wrap64 (- val)) else (m, buffer, val))
        in do {
          ds \<leftarrow> digit_loop 23 val base;
          Some (buffer, store_bytes m pos (rev ds))
        })"

definition ulltoa :: "memory \<Rightarrow> u64 \<Rightarrow> nat \<Rightarrow> int \<Rightarrow> (nat \<times> memory) option" where
  "ulltoa m val buffer base =
     (if val = 0 then Some (buffer, put_zero m buffer)
      else do {
        ds \<leftarrow> digit_loop 23 (uint val) (take_bit 64 base);
        Some (buffer, store_bytes m buffer (rev ds))
      })"

text \<open>The floating-point routines are empty: they return the buffer and write nothing.\<close>

definition dtoa :: "memory \<Rightarrow> nat \<Rightarrow> (nat \<times> memory) option" where
  "dtoa m buffer = Some (buffer, m)"

definition dtoea :: "memory \<Rightarrow> nat \<Rightarrow> (nat \<times> memory) option" where
  "dtoea m buffer = Some (buffer, m)"

section \<open>What the digits mean\<close>

definition digit_value :: "u8 \<Rightarrow> int" where
  "digit_value c = (if c \<le> 57 then uint c - 48 else uint c - 87)"

text \<open>The value of a numeral, least significant digit first.\<close>

fun numeral_value :: "int \<Rightarrow> u8 list \<Rightarrow> int" where
  "numeral_value base [] = 0"
| "numeral_value base (d # ds) = digit_value d + base * numeral_value base ds"

lemma digits_table: "digits = [48, 49, 50, 51, 52, 53, 54, 55, 56, 57,
    97, 98, 99, 100, 101, 102, 103, 104, 105, 106, 107, 108, 109, 110, 111, 112, 113, 114, 115,
    116, 117, 118, 119, 120, 121, 122]"
  by (simp add: digits_def char_byte_def of_char_def)

lemma digits_all: "\<forall>n\<in>set [0..<36]. digit_value (digits ! n) = int n \<and> digits ! n \<noteq> 0"
  unfolding digits_table by code_simp

lemma digit_value_digits: "n < 36 \<Longrightarrow> digit_value (digits ! n) = int n"
  using digits_all by simp

lemma length_digits: "length digits = 36"
  by (simp add: digits_table)

lemma digits_nonzero: "d \<in> set digits \<Longrightarrow> d \<noteq> 0"
  by (auto simp: digits_table)

lemma c_div_pos: "0 \<le> a \<Longrightarrow> 0 < b \<Longrightarrow> c_div a b = a div b"
  by (cases "a = 0") (auto simp: c_div_def)

lemma c_mod_pos: "0 \<le> a \<Longrightarrow> 0 < b \<Longrightarrow> c_mod a b = a mod b"
  by (simp add: c_mod_def c_div_pos minus_mult_div_eq_mod)

text \<open>
  With enough room the loop writes the digits of the value: each a character of the digit table
  below the base, the last written one (the leading one) not the digit \<open>0\<close>.
\<close>

lemma digit_loop_correct:
  assumes "2 \<le> base" and "base \<le> 36"
  shows "0 \<le> val \<Longrightarrow> val < base ^ room \<Longrightarrow> \<exists>ds. digit_loop room val base = Some ds \<and>
    numeral_value base ds = val \<and> (\<forall>d\<in>set ds. d \<in> set digits \<and> digit_value d < base)
    \<and> length ds \<le> room \<and> (0 < val \<longrightarrow> ds \<noteq> [] \<and> digit_value (last ds) \<noteq> 0)"
proof (induction room arbitrary: val)
  case 0
  then show ?case by auto
next
  case (Suc room)
  show ?case
  proof (cases "val = 0")
    case True
    then show ?thesis by simp
  next
    case False
    let ?d = "val mod base" and ?q = "val div base"
    have d: "0 \<le> ?d" "?d < base" and q: "0 \<le> ?q"
      using assms Suc.prems by (simp_all add: pos_imp_zdiv_nonneg_iff)
    have "?q < base ^ room"
    proof (rule ccontr)
      assume "\<not> ?q < base ^ room"
      then have "base ^ room * base \<le> ?q * base" using assms by simp
      also have "\<dots> \<le> val" using d by (simp add: minus_mod_eq_div_mult [symmetric])
      finally show False using Suc.prems by (simp add: mult.commute)
    qed
    with Suc.IH [OF q] obtain ds where ds: "digit_loop room ?q base = Some ds"
      "numeral_value base ds = ?q" "\<forall>d\<in>set ds. d \<in> set digits \<and> digit_value d < base"
      "length ds \<le> room" "0 < ?q \<longrightarrow> ds \<noteq> [] \<and> digit_value (last ds) \<noteq> 0" by auto
    have "nat ?d < 36" using d assms by linarith
    then have v: "digit_value (digits ! nat ?d) = ?d" and nz: "digits ! nat ?d \<in> set digits"
      using d by (simp_all add: digit_value_digits length_digits)
    have last: "digit_value (last (digits ! nat ?d # ds)) \<noteq> 0"
    proof (cases "?q = 0")
      case True
      with ds(1) have "ds = []" by (cases room) auto
      moreover from True have "?d \<noteq> 0" using False by (metis mult_zero_right add_0 mult_div_mod_eq)
      ultimately show ?thesis using v by simp
    next
      case False
      with q ds show ?thesis by auto
    qed
    have "digit_loop (Suc room) val base = Some (digits ! nat ?d # ds)"
      using False Suc.prems assms \<open>nat ?d < 36\<close> ds(1) by (simp add: c_div_pos c_mod_pos)
    moreover have "numeral_value base (digits ! nat ?d # ds) = val"
      using v ds(2) by (simp add: add.commute)
    ultimately show ?thesis using ds(3,4) v d nz last by auto
  qed
qed

text \<open>Numerals of 32-bit and 64-bit values fit the scratch arrays from base 8 on.\<close>

lemma fits_12: "8 \<le> base \<Longrightarrow> val < 2 ^ 32 \<Longrightarrow> val < (base::int) ^ 12"
proof -
  assume "8 \<le> base" "val < 2 ^ 32"
  moreover from this have "(8::int) ^ 12 \<le> base ^ 12" by (intro power_mono) auto
  ultimately show ?thesis by simp
qed

lemma fits_23: "8 \<le> base \<Longrightarrow> val < 2 ^ 64 \<Longrightarrow> val < (base::int) ^ 23"
proof -
  assume "8 \<le> base" "val < 2 ^ 64"
  moreover from this have "(8::int) ^ 23 \<le> base ^ 23" by (intro power_mono) auto
  ultimately show ?thesis by simp
qed

text \<open>
  \<open>numeral_of base v ds\<close>: the string \<open>ds\<close> is the numeral of the value \<open>v\<close>, without leading
  zeros.
\<close>

definition numeral_of :: "int \<Rightarrow> int \<Rightarrow> u8 list \<Rightarrow> bool" where
  "numeral_of base v ds \<longleftrightarrow> ds \<noteq> [] \<and> numeral_value base (rev ds) = v
     \<and> (\<forall>d\<in>set ds. d \<in> set digits \<and> digit_value d < base)
     \<and> (v \<noteq> 0 \<longrightarrow> digit_value (hd ds) \<noteq> 0)"

lemma numeral_of_zero: "2 \<le> base \<Longrightarrow> numeral_of base 0 [48]"
  by (simp add: numeral_of_def digits_table digit_value_def)

lemma numeral_of_no_zero_byte: "numeral_of base v ds \<Longrightarrow> 0 \<notin> set ds"
  using digits_nonzero by (auto simp: numeral_of_def)

lemma digit_loop_nonpos: "val \<le> 0 \<Longrightarrow> digit_loop room val base = Some []"
  by (cases room) auto

lemma digit_loop_numeral:
  assumes "2 \<le> base" "base \<le> 36" "0 < val" "val < base ^ room"
  shows "\<exists>ds. digit_loop room val base = Some ds \<and> numeral_of base val (rev ds) \<and> length ds \<le> room"
  using digit_loop_correct [OF assms(1,2), of val room] assms(3,4)
  by (auto simp: numeral_of_def hd_rev)

lemma uitoa_correct:
  assumes "8 \<le> base" "base \<le> 36" "val \<noteq> 0"
  shows "\<exists>s. uitoa m val buffer base = Some (buffer, store_bytes m buffer s)
    \<and> numeral_of base (uint val) s \<and> length s \<le> 12"
proof -
  have "0 < uint val" using assms(3) by (simp add: order_less_le unsigned_eq_0_iff)
  moreover have "uint val < base ^ 12"
    using uint_lt2p [of val] assms by (intro fits_12) auto
  ultimately obtain ds where "digit_loop 12 (uint val) base = Some ds"
      "numeral_of base (uint val) (rev ds)" "length ds \<le> 12"
    using digit_loop_numeral [of base "uint val" 12] assms by auto
  moreover have "take_bit 32 base = base"
    using assms by (simp add: take_bit_int_eq_self)
  ultimately show ?thesis using assms(3)
    by (intro exI [of _ "rev ds"]) (simp add: uitoa_def)
qed

lemma ulltoa_correct:
  assumes "8 \<le> base" "base \<le> 36" "val \<noteq> 0"
  shows "\<exists>s. ulltoa m val buffer base = Some (buffer, store_bytes m buffer s)
    \<and> numeral_of base (uint val) s \<and> length s \<le> 23"
proof -
  have "0 < uint val" using assms(3) by (simp add: order_less_le unsigned_eq_0_iff)
  moreover have "uint val < base ^ 23"
    using uint_lt2p [of val] assms by (intro fits_23) auto
  ultimately obtain ds where "digit_loop 23 (uint val) base = Some ds"
      "numeral_of base (uint val) (rev ds)" "length ds \<le> 23"
    using digit_loop_numeral [of base "uint val" 23] assms by auto
  moreover have "take_bit 64 base = base"
    using assms by (simp add: take_bit_int_eq_self)
  ultimately show ?thesis using assms(3)
    by (intro exI [of _ "rev ds"]) (simp add: ulltoa_def)
qed

text \<open>
  A signed value is written as its sign and the numeral of its absolute value.  The least value
  has no absolute value of its width, and the routine writes the sign alone.
\<close>

lemma itoa_correct:
  assumes "8 \<le> base" "base \<le> 36" "val \<noteq> 0" "- (2 ^ 31) < val" "val < 2 ^ 31"
  shows "\<exists>s. itoa m val buffer base =
      Some (buffer, store_bytes m buffer ((if val < 0 then [45] else []) @ s))
    \<and> numeral_of base \<bar>val\<bar> s \<and> length s \<le> 12"
proof -
  have "\<bar>val\<bar> < base ^ 12" using assms by (intro fits_12) auto
  then obtain ds where ds: "digit_loop 12 \<bar>val\<bar> base = Some ds"
      "numeral_of base \<bar>val\<bar> (rev ds)" "length ds \<le> 12"
    using digit_loop_numeral [of base "\<bar>val\<bar>" 12] assms by auto
  have "val < 0 \<Longrightarrow> wrap32 (- val) = \<bar>val\<bar>" using assms by (simp add: wrap32_id)
  with ds assms show ?thesis
    by (intro exI [of _ "rev ds"]) (auto simp: itoa_def)
qed

lemma lltoa_correct:
  assumes "8 \<le> base" "base \<le> 36" "val \<noteq> 0" "- (2 ^ 63) < val" "val < 2 ^ 63"
  shows "\<exists>s. lltoa m val buffer base =
      Some (buffer, store_bytes m buffer ((if val < 0 then [45] else []) @ s))
    \<and> numeral_of base \<bar>val\<bar> s \<and> length s \<le> 23"
proof -
  have "\<bar>val\<bar> < base ^ 23" using assms by (intro fits_23) auto
  then obtain ds where ds: "digit_loop 23 \<bar>val\<bar> base = Some ds"
      "numeral_of base \<bar>val\<bar> (rev ds)" "length ds \<le> 23"
    using digit_loop_numeral [of base "\<bar>val\<bar>" 23] assms by auto
  have "val < 0 \<Longrightarrow> wrap64 (- val) = \<bar>val\<bar>" using assms by (simp add: wrap64_id)
  with ds assms show ?thesis
    by (intro exI [of _ "rev ds"]) (auto simp: lltoa_def)
qed

lemma itoa_least: "itoa m (- (2 ^ 31)) buffer 10 = Some (buffer, m(buffer := 45))"
  by (simp add: itoa_def wrap32_def digit_loop_nonpos)

end
