(* ===== verification/Printk.thy ===== *)
theory Printk
  imports ToString
begin

text \<open>
  The formatted output of \<^verbatim>\<open>kernel/printk.c\<close>: \<^verbatim>\<open>vsprintk\<close> (the module library's
  \<^verbatim>\<open>vsprintf\<close> is the same routine; the loader's differs and is in \<open>LPrint\<close>).

  The format is the list of its characters before the terminator, and the result the list of
  characters stored before the terminator the routine appends; the buffer does not overlap the
  format or the arguments.  Reading the format past its terminator, or an argument that was not
  passed, is \<open>None\<close>.
\<close>

section \<open>Arguments and format items\<close>

text \<open>
  An argument is a 64-bit slot of the argument area, a string, or a floating-point number, of
  which only whether it is negative matters (the conversion routines for them are empty).
\<close>

datatype varg = IntArg u64 | StrArg "u8 list" | DoubleArg bool

definition FLAG_SIGN :: u8 where "FLAG_SIGN = 1"
definition FLAG_LEFT_ALIGN :: u8 where "FLAG_LEFT_ALIGN = 2"
definition FLAG_FILL_ZERO :: u8 where "FLAG_FILL_ZERO = 4"
definition FLAG_PREFIX :: u8 where "FLAG_PREFIX = 8"
definition FLAG_UPPER :: u8 where "FLAG_UPPER = 16"

lemmas flag_defs = FLAG_SIGN_def FLAG_LEFT_ALIGN_def FLAG_FILL_ZERO_def FLAG_PREFIX_def
  FLAG_UPPER_def

datatype qualifier = QUAL_SHORT | QUAL_NORMAL | QUAL_LONG | QUAL_LONGLONG

text \<open>\<^verbatim>\<open>print_type\<close> is a \<^verbatim>\<open>byte\<close>: the value \<^verbatim>\<open>-1\<close> is stored as 255.\<close>

definition PRINT_TY_INT :: u8 where "PRINT_TY_INT = 0"
definition PRINT_TY_UNSIGNED :: u8 where "PRINT_TY_UNSIGNED = 1"
definition PRINT_TY_FLOAT :: u8 where "PRINT_TY_FLOAT = 2"
definition PRINT_TY_EXPONENT :: u8 where "PRINT_TY_EXPONENT = 3"
definition PRINT_TY_OCT :: u8 where "PRINT_TY_OCT = 4"
definition PRINT_TY_HEX :: u8 where "PRINT_TY_HEX = 5"
definition PRINT_TY_CHAR :: u8 where "PRINT_TY_CHAR = 6"
definition PRINT_TY_STRING :: u8 where "PRINT_TY_STRING = 7"
definition PRINT_TY_NONE :: u8 where "PRINT_TY_NONE = of_int (-1)"

lemmas type_defs = PRINT_TY_INT_def PRINT_TY_UNSIGNED_def PRINT_TY_FLOAT_def
  PRINT_TY_EXPONENT_def PRINT_TY_OCT_def PRINT_TY_HEX_def PRINT_TY_CHAR_def PRINT_TY_STRING_def
  PRINT_TY_NONE_def

text \<open>The character \<^verbatim>\<open>*format\<close>: the terminator at the end of the list.\<close>

definition cur :: "u8 list \<Rightarrow> u8" where
  "cur format = (case format of [] \<Rightarrow> 0 | c # _ \<Rightarrow> c)"

fun va_int :: "varg list \<Rightarrow> (int \<times> varg list) option" where
  "va_int (IntArg w # args) = Some (sint (ucast w :: u32), args)"
| "va_int _ = None"

fun va_slot :: "varg list \<Rightarrow> (u64 \<times> varg list) option" where
  "va_slot (IntArg w # args) = Some (w, args)"
| "va_slot _ = None"

fun va_str :: "varg list \<Rightarrow> (u8 list \<times> varg list) option" where
  "va_str (StrArg s # args) = Some (s, args)"
| "va_str _ = None"

fun va_neg :: "varg list \<Rightarrow> (bool \<times> varg list) option" where
  "va_neg (DoubleArg n # args) = Some (n, args)"
| "va_neg _ = None"

section \<open>Parsing a conversion\<close>

fun parse_flags :: "u8 \<Rightarrow> u8 list \<Rightarrow> u8 \<times> u8 list" where
  "parse_flags flag [] = (flag, [])"
| "parse_flags flag (c # format) =
     (if c = 43 then parse_flags (flag OR FLAG_SIGN) format
      else if c = 45 then parse_flags (flag OR FLAG_LEFT_ALIGN) format
      else if c = 32 then parse_flags flag format
      else if c = 48 then parse_flags (flag OR FLAG_FILL_ZERO) format
      else if c = 35 then parse_flags (flag OR FLAG_PREFIX) format
      else (flag, c # format))"

text \<open>\<^verbatim>\<open>while (isdigit(*format)) { n = n * 10 + *format - '0'; format ++; }\<close>\<close>

fun parse_digits :: "int \<Rightarrow> u8 list \<Rightarrow> int \<times> u8 list" where
  "parse_digits n [] = (n, [])"
| "parse_digits n (c # format) =
     (if isdigit (sint c) then parse_digits (wrap32 (n * 10 + sint c - 48)) format else (n, c # format))"

definition parse_width ::
  "u8 \<Rightarrow> u8 list \<Rightarrow> varg list \<Rightarrow> (u8 \<times> int \<times> u8 list \<times> varg list) option" where
  "parse_width flag format args =
     (if cur format = 42 then do {
        (width, args) \<leftarrow> va_int args;
        let (flag, width) =
          (if width < 0 then (flag OR FLAG_LEFT_ALIGN, wrap32 (- width)) else (flag, width));
        Some (flag, width, tl format, args)
      }
      else (case parse_digits 0 format of (width, format) \<Rightarrow> Some (flag, width, format, args)))"

definition parse_precision :: "u8 list \<Rightarrow> varg list \<Rightarrow> (int \<times> u8 list \<times> varg list) option" where
  "parse_precision format args =
     (if cur format = 46 then
        (if cur (tl format) = 42 then do {
           (precision, args) \<leftarrow> va_int args;
           Some (precision, tl (tl format), args)
         }
         else (case parse_digits 0 (tl format) of (precision, format) \<Rightarrow>
           Some (precision, format, args)))
      else Some (0, format, args))"

definition parse_qualifier :: "u8 list \<Rightarrow> qualifier \<times> u8 list" where
  "parse_qualifier format =
     (let (q, format) =
        (if cur format = 108 \<or> cur format = 76 then (QUAL_LONG, tl format)
         else if cur format = 104 then (QUAL_SHORT, tl format)
         else (QUAL_NORMAL, format))
      in if cur format = 108 \<or> cur format = 76 then (QUAL_LONGLONG, tl format)
         else (q, format))"

definition parse_type :: "u8 \<Rightarrow> int \<Rightarrow> u8 \<Rightarrow> u8 \<times> int \<times> u8" where
  "parse_type flag width c =
     (if c = 100 then (flag, width, PRINT_TY_INT)
      else if c = 117 then (flag, width, PRINT_TY_UNSIGNED)
      else if c = 111 then (flag, width, PRINT_TY_OCT)
      else if c = 88 then (flag OR FLAG_UPPER, width, PRINT_TY_HEX)
      else if c = 120 then (flag, width, PRINT_TY_HEX)
      else if c = 102 then (flag, width, PRINT_TY_FLOAT)
      else if c = 99 then (flag, width, PRINT_TY_CHAR)
      else if c = 115 then (flag, width, PRINT_TY_STRING)
      else if c = 69 then (flag OR FLAG_UPPER, width, PRINT_TY_EXPONENT)
      else if c = 101 then (flag, width, PRINT_TY_EXPONENT)
      else if c = 80 then (flag OR FLAG_UPPER OR FLAG_FILL_ZERO OR FLAG_PREFIX, 16, PRINT_TY_HEX)
      else if c = 112 then (flag OR FLAG_FILL_ZERO OR FLAG_PREFIX, 16, PRINT_TY_HEX)
      else (flag, width, PRINT_TY_NONE))"

section \<open>Converting and emitting\<close>

text \<open>
  The scratch array \<^verbatim>\<open>_buffer\<close> starts as zeros; the string it holds ends at the first zero.
\<close>

definition scratch_string :: "memory \<Rightarrow> u8 list" where
  "scratch_string m = takeWhile (\<lambda>b. b \<noteq> 0) (map m [0..<120])"

definition upper_byte :: "u8 \<Rightarrow> u8" where
  "upper_byte b = (if islower (sint b) then of_int (toupper (sint b)) else b)"

text \<open>
  The \<^verbatim>\<open>switch (print_type)\<close>: scratch array, characters stored directly, sign, offset and
  remaining arguments.  The octal case has no \<^verbatim>\<open>break\<close> and runs on into the hexadecimal one.
\<close>

definition convert_hex ::
  "memory \<Rightarrow> u8 \<Rightarrow> varg list \<Rightarrow> (u8 list \<times> u8 list \<times> bool \<times> int \<times> varg list) option" where
  "convert_hex buf flag args = do {
     (val, args) \<leftarrow> va_slot args;
     (_, buf) \<leftarrow> ulltoa buf val 0 16;
     let s = scratch_string buf;
     Some (if flag AND FLAG_UPPER \<noteq> 0 then map upper_byte s else s, [], False, 0, args)
   }"

definition convert :: "u8 \<Rightarrow> qualifier \<Rightarrow> u8 \<Rightarrow> varg list \<Rightarrow>
    (u8 list \<times> u8 list \<times> bool \<times> int \<times> varg list) option" where
  "convert print_type qual flag args =
     (let buf = (\<lambda>_. 0) in
      if print_type = PRINT_TY_INT then
        (if qual \<noteq> QUAL_LONGLONG then do {
           (val, args) \<leftarrow> va_int args;
           let (has_sign, val) = (if val < 0 then (True, wrap32 (- val)) else (False, val));
           (_, buf) \<leftarrow> itoa buf val 0 10;
           Some (scratch_string buf, [], has_sign, 0, args)
         }
         else do {
           (w, args) \<leftarrow> va_slot args;
           let val = sint w;
           let (has_sign, val) = (if val < 0 then (True, wrap64 (- val)) else (False, val));
           (_, buf) \<leftarrow> lltoa buf val 0 10;
           Some (scratch_string buf, [], has_sign, 0, args)
         })
      else if print_type = PRINT_TY_UNSIGNED then do {
        (w, args) \<leftarrow> va_slot args;
        (_, buf) \<leftarrow>
          (if qual \<noteq> QUAL_LONGLONG then uitoa buf (ucast w) 0 10 else ulltoa buf w 0 10);
        Some (scratch_string buf, [], False, 0, args)
      }
      else if print_type = PRINT_TY_FLOAT then do {
        (neg, args) \<leftarrow> va_neg args;
        (_, buf) \<leftarrow> dtoa buf 0;
        Some (scratch_string buf, [], neg, 0, args)
      }
      else if print_type = PRINT_TY_EXPONENT then do {
        (neg, args) \<leftarrow> va_neg args;
        (_, buf) \<leftarrow> dtoea buf 0;
        Some (scratch_string buf, [], neg, 0, args)
      }
      else if print_type = PRINT_TY_OCT then do {
        (w, args) \<leftarrow> va_slot args;
        (_, buf) \<leftarrow> uitoa buf (ucast w) 0 8;
        convert_hex buf flag args
      }
      else if print_type = PRINT_TY_HEX then convert_hex buf flag args
      else if print_type = PRINT_TY_CHAR then do {
        (w, args) \<leftarrow> va_slot args;
        Some ([], [ucast w], False, 1, args)
      }
      else if print_type = PRINT_TY_STRING then do {
        (s, args) \<leftarrow> va_str args;
        Some ([], s, False, int (length s), args)
      }
      else Some ([], [], False, 0, args))"

text \<open>Sign, prefix, padding and digits, in the order the routine stores them.\<close>

definition emit :: "u8 \<Rightarrow> int \<Rightarrow> u8 \<Rightarrow> u8 list \<Rightarrow> bool \<Rightarrow> int \<Rightarrow> u8 list" where
  "emit flag width print_type body has_sign offset =
     (let plus = (if flag AND FLAG_SIGN \<noteq> 0 \<and> \<not> has_sign then [43] else []);
          minus = (if has_sign then [45] else []);
          offset = offset + int (length plus) + int (length minus);
          prefix = (if flag AND FLAG_PREFIX \<noteq> 0 then
                      (if print_type = PRINT_TY_OCT then [48]
                       else if print_type = PRINT_TY_HEX then
                         [48, if flag AND FLAG_UPPER \<noteq> 0 then 88 else 120]
                       else [])
                    else []);
          pad = replicate (nat (width - (int (length body) + offset)))
                  (if flag AND FLAG_FILL_ZERO \<noteq> 0 then 48 else 32)
      in plus @ minus @ prefix @ pad @ body)"

section \<open>The routine\<close>

text \<open>One conversion after its \<^verbatim>\<open>%\<close>: flags, width, type, qualifier, arguments and the format from
  the type character on.\<close>

definition parse_conversion :: "u8 list \<Rightarrow> varg list \<Rightarrow>
    (u8 \<times> int \<times> u8 \<times> qualifier \<times> varg list \<times> u8 list) option" where
  "parse_conversion format args =
     (case parse_flags 0 format of (flag, format) \<Rightarrow> do {
        (flag, width, format, args) \<leftarrow> parse_width flag format args;
        (precision, format, args) \<leftarrow> parse_precision format args;
        let (qual, format) = parse_qualifier format;
        let (flag, width, print_type) = parse_type flag width (cur format);
        Some (flag, width, print_type, qual, args, format)
      })"

lemma length_parse_flags: "length (snd (parse_flags flag format)) \<le> length format"
  by (induction flag format rule: parse_flags.induct) (auto simp: le_SucI)

lemma length_parse_digits: "length (snd (parse_digits n format)) \<le> length format"
  by (induction n format rule: parse_digits.induct) (auto simp: le_SucI)

lemma length_tl_le: "length f \<le> n \<Longrightarrow> length (tl f) \<le> n"
  by (simp add: le_diff_conv)

lemma length_parse_width:
  "parse_width flag format args = Some (flag', w, format', args') \<Longrightarrow> length format' \<le> length format"
  using length_parse_digits [of 0 format]
  by (auto simp: parse_width_def bind_iff Let_def split: if_splits prod.splits)

lemma length_parse_precision:
  "parse_precision format args = Some (w, format', args') \<Longrightarrow> length format' \<le> length format"
  using length_parse_digits [of 0 "tl format"]
  by (auto simp: parse_precision_def bind_iff split: if_splits prod.splits)

lemma length_parse_qualifier: "length (snd (parse_qualifier format)) \<le> length format"
  by (auto simp: parse_qualifier_def Let_def)

lemma length_parse_conversion:
  assumes "parse_conversion format args = Some (flag, w, ty, q, args', format')"
  shows "length format' \<le> length format"
proof -
  obtain fl f1 where 1: "parse_flags 0 format = (fl, f1)" by fastforce
  with assms obtain fl2 w2 f2 a2 where 2: "parse_width fl f1 args = Some (fl2, w2, f2, a2)"
    by (cases "parse_width fl f1 args") (auto simp: parse_conversion_def)
  with assms 1 obtain p3 f3 a3 where 3: "parse_precision f2 a2 = Some (p3, f3, a3)"
    by (cases "parse_precision f2 a2") (auto simp: parse_conversion_def)
  obtain q4 f4 where 4: "parse_qualifier f3 = (q4, f4)" by fastforce
  with assms 1 2 3 have "format' = f4"
    by (auto simp: parse_conversion_def split: prod.splits)
  with 4 have 4: "format' = snd (parse_qualifier f3)" by simp
  have "length format' \<le> length f3" using length_parse_qualifier by (simp add: 4)
  also have "\<dots> \<le> length f2" using 3 by (rule length_parse_precision)
  also have "\<dots> \<le> length f1" using 2 by (rule length_parse_width)
  also have "\<dots> \<le> length format" using length_parse_flags [of 0 format] by (simp add: 1)
  finally show ?thesis .
qed

function vsprintk_loop :: "u8 list \<Rightarrow> varg list \<Rightarrow> u8 list \<Rightarrow> (u8 list \<times> int) option" where
  "vsprintk_loop [] args out = Some (out, int (length out) - 1)"
| "vsprintk_loop (c # format) args out =
     (if c \<noteq> 37 then vsprintk_loop format args (out @ [c])
      else if cur format = 37 then vsprintk_loop (tl format) args (out @ [37])
      else do {
        (flag, width, print_type, qual, args, format) \<leftarrow> parse_conversion format args;
        if uint print_type = -1 then Some (out, -1)
        else if format = [] then None
        else do {
          (body, direct, has_sign, offset, args) \<leftarrow> convert print_type qual flag args;
          vsprintk_loop (tl format) args
            (out @ direct @ emit flag width print_type body has_sign offset)
        }
      })"
  by pat_completeness auto
termination
  by (relation "measure (\<lambda>(f, _). length f)")
     (auto simp: length_tl_le less_Suc_eq_le dest: length_parse_conversion)

definition vsprintk :: "u8 list \<Rightarrow> varg list \<Rightarrow> (u8 list \<times> int) option" where
  "vsprintk format args = vsprintk_loop format args []"

declare vsprintk_loop.simps(2) [simp del]

text \<open>The test for a missing conversion compares a byte with \<open>-1\<close> and never succeeds.\<close>

lemma no_missing_type: "uint (ty :: u8) \<noteq> -1"
  using uint_ge_0 [of ty] by linarith

text \<open>What is stored before a position of the format does not change what is stored after it.\<close>

lemma vsprintk_loop_out:
  "vsprintk_loop format args out =
     (case vsprintk_loop format args [] of None \<Rightarrow> None
      | Some (o', _) \<Rightarrow> Some (out @ o', int (length out + length o') - 1))"
proof (induction "length format" arbitrary: format args out rule: less_induct)
  case less
  show ?case
  proof (cases format)
    case Nil
    then show ?thesis by simp
  next
    case (Cons c f)
    note step = vsprintk_loop.simps(2)
    consider (lit) "c \<noteq> 37" | (pct) "c = 37" "cur f = 37" | (conv) "c = 37" "cur f \<noteq> 37"
      by blast
    then show ?thesis
    proof cases
      case lit
      with less [of f "args" "out @ [c]"] less [of f args "[c]"] Cons show ?thesis
        by (simp add: step add.commute split: option.splits)
    next
      case pct
      then have "length (tl f) < length format" using Cons by simp
      with less [of "tl f" "args" "out @ [37]"] less [of "tl f" args "[37]"] Cons pct show ?thesis
        by (simp add: step add.commute split: option.splits)
    next
      case conv
      show ?thesis
      proof (cases "parse_conversion f args")
        case None
        with conv Cons show ?thesis by (simp add: step)
      next
        case (Some r)
        obtain flag w ty q a f' where r: "r = (flag, w, ty, q, a, f')" by (cases r)
        show ?thesis
        proof (cases "f' = [] \<or> convert ty q flag a = None")
          case True
          with conv Cons Some r show ?thesis by (auto simp: step no_missing_type)
        next
          case False
          then obtain b d h o1 a' where cv: "convert ty q flag a = Some (b, d, h, o1, a')"
            by (cases "convert ty q flag a") auto
          have "length (tl f') < length format"
            using length_parse_conversion [of f args flag w ty q a f'] Some r Cons
            by (simp add: length_tl_le less_Suc_eq_le)
          note ih = less [OF this]
          show ?thesis
            using conv Cons Some r False cv
            by (simp add: step no_missing_type
                ih [of a' "out @ d @ emit flag w ty b h o1"] ih [of a' "d @ emit flag w ty b h o1"]
                split: option.splits)
        qed
      qed
    qed
  qed
qed

lemma vsprintk_loop_literal:
  "37 \<notin> set s \<Longrightarrow> vsprintk_loop (s @ format) args out = vsprintk_loop format args (out @ s)"
  by (induction s arbitrary: out) (auto simp: vsprintk_loop.simps(2))

section \<open>What a conversion prints\<close>

lemma scratch_string_store:
  assumes "0 \<notin> set s" and "length s < 120"
  shows "scratch_string (store_bytes (\<lambda>_. 0) 0 s) = s"
proof -
  have "map (store_bytes (\<lambda>_. 0) 0 s) [0..<120] = s @ replicate (120 - length s) 0"
  proof (rule nth_equalityI)
    show "length (map (store_bytes (\<lambda>_. 0) 0 s) [0..<120]) = length (s @ replicate (120 - length s) 0)"
      using assms by simp
    fix i assume "i < length (map (store_bytes (\<lambda>_. 0) 0 s) [0..<120])"
    then show "map (store_bytes (\<lambda>_. 0) 0 s) [0..<120] ! i = (s @ replicate (120 - length s) 0) ! i"
      using store_bytes_inside [of i s "\<lambda>_. 0" 0] store_bytes_outside [of i 0 s "\<lambda>_. 0"]
      by (auto simp: nth_append)
  qed
  moreover have "takeWhile (\<lambda>b. b \<noteq> 0) (s @ replicate (120 - length s) 0) = s"
  proof -
    have "\<And>b. b \<in> set s \<Longrightarrow> b \<noteq> 0" using assms(1) by metis
    moreover have "takeWhile (\<lambda>b. b \<noteq> 0) (replicate n (0 :: u8)) = []" for n
      by (cases n) auto
    ultimately show ?thesis by (subst takeWhile_append2) auto
  qed
  ultimately show ?thesis by (simp add: scratch_string_def)
qed

text \<open>The decimal string of a signed value: a minus sign if it is negative, then its numeral.\<close>

definition decimal_of :: "int \<Rightarrow> u8 list \<Rightarrow> bool" where
  "decimal_of v s \<longleftrightarrow> (\<exists>n. s = (if v < 0 then [45] else []) @ n \<and> numeral_of 10 \<bar>v\<bar> n)"

lemma scratch_put_zero: "scratch_string (put_zero (\<lambda>_. 0) 0) = [48]"
  using scratch_string_store [of "[48]"] by (simp add: put_zero_def fun_upd_idem)

lemma convert_int:
  fixes w :: u64
  defines "v \<equiv> sint (ucast w :: u32)"
  assumes "qual \<noteq> QUAL_LONGLONG" and "v \<noteq> - (2 ^ 31)"
  shows "\<exists>n. convert PRINT_TY_INT qual flag (IntArg w # args) = Some (n, [], v < 0, 0, args)
    \<and> numeral_of 10 \<bar>v\<bar> n \<and> length n \<le> 12"
proof (cases "v = 0")
  case True
  then show ?thesis
    using assms(2) by (auto simp: convert_def v_def itoa_def scratch_put_zero numeral_of_zero)
next
  case False
  have bounds: "- (2 ^ 31) < v" "v < 2 ^ 31"
    using sint_ge [of "ucast w :: u32"] sint_lt [of "ucast w :: u32"] assms(3) by (auto simp: v_def)
  then have "- (2 ^ 31) < \<bar>v\<bar>" "\<bar>v\<bar> < 2 ^ 31" "\<bar>v\<bar> \<noteq> 0" using False by auto
  with itoa_correct [of 10 "\<bar>v\<bar>" "\<lambda>_. 0" 0] obtain n
    where n: "itoa (\<lambda>_. 0) \<bar>v\<bar> 0 10 = Some (0, store_bytes (\<lambda>_. 0) 0 n)"
      "numeral_of 10 \<bar>v\<bar> n" "length n \<le> 12" by auto
  have wr: "v < 0 \<Longrightarrow> wrap32 (- v) = \<bar>v\<bar>" and nn: "\<not> v < 0 \<Longrightarrow> \<bar>v\<bar> = v"
    using bounds by (auto simp: wrap32_id)
  have "scratch_string (store_bytes (\<lambda>_. 0) 0 n) = n"
    using n by (intro scratch_string_store numeral_of_no_zero_byte) auto
  with n wr nn assms(2) show ?thesis
    by (intro exI [of _ n]) (cases "v < 0"; simp add: convert_def flip: v_def)
qed

lemma parse_conversion_plain:
  assumes "c \<notin> {43, 45, 32, 48, 35, 42, 46, 108, 76, 104}" and "\<not> isdigit (sint c)"
  shows "parse_conversion (c # format) args =
    (case parse_type 0 0 c of (flag, width, ty) \<Rightarrow> Some (flag, width, ty, QUAL_NORMAL, args, c # format))"
  using assms by (simp add: parse_conversion_def parse_width_def parse_precision_def
      parse_qualifier_def cur_def Let_def split: prod.splits)

text \<open>\<^verbatim>\<open>%d\<close>, between any text and any further format.\<close>

lemma vsprintk_decimal:
  fixes w :: u64
  assumes "37 \<notin> set pre" and "sint (ucast w :: u32) \<noteq> - (2 ^ 31)"
    and "vsprintk post args = Some (out, r)"
  shows "\<exists>s. vsprintk (pre @ [37, 100] @ post) (IntArg w # args)
      = Some (pre @ s @ out, int (length (pre @ s @ out)) - 1)
    \<and> decimal_of (sint (ucast w :: u32)) s"
proof -
  let ?v = "sint (ucast w :: u32)"
  obtain n where n: "convert PRINT_TY_INT QUAL_NORMAL 0 (IntArg w # args) = Some (n, [], ?v < 0, 0, args)"
      "numeral_of 10 \<bar>?v\<bar> n"
    using convert_int [of QUAL_NORMAL w 0 args] assms(2) by auto
  let ?s = "(if ?v < 0 then [45] else []) @ n"
  have em: "emit 0 0 PRINT_TY_INT n (?v < 0) 0 = ?s"
    by (simp add: emit_def)
  have pc: "parse_conversion (100 # post) (IntArg w # args)
      = Some (0, 0, PRINT_TY_INT, QUAL_NORMAL, IntArg w # args, 100 # post)"
    by (subst parse_conversion_plain) (auto simp: isdigit_def parse_type_def)
  have "vsprintk (pre @ [37, 100] @ post) (IntArg w # args) = vsprintk_loop post args (pre @ ?s)"
    using assms(1) n(1) em pc
    by (simp add: vsprintk_def vsprintk_loop_literal vsprintk_loop.simps(2) cur_def no_missing_type)
  also have "\<dots> = Some (pre @ ?s @ out, int (length (pre @ ?s @ out)) - 1)"
    using assms(3) by (subst vsprintk_loop_out) (simp add: vsprintk_def)
  finally show ?thesis using n(2) by (intro exI [of _ ?s]) (auto simp: decimal_of_def)
qed

text \<open>\<^verbatim>\<open>%s\<close>.\<close>

lemma vsprintk_string:
  assumes "37 \<notin> set pre" and "vsprintk post args = Some (out, r)"
  shows "vsprintk (pre @ [37, 115] @ post) (StrArg s # args)
    = Some (pre @ s @ out, int (length (pre @ s @ out)) - 1)"
proof -
  have pc: "parse_conversion (115 # post) (StrArg s # args)
      = Some (0, 0, PRINT_TY_STRING, QUAL_NORMAL, StrArg s # args, 115 # post)"
    by (subst parse_conversion_plain) (auto simp: isdigit_def parse_type_def)
  have cv: "convert PRINT_TY_STRING QUAL_NORMAL 0 (StrArg s # args) = Some ([], s, False, int (length s), args)"
    by (simp add: convert_def type_defs)
  have "vsprintk (pre @ [37, 115] @ post) (StrArg s # args) = vsprintk_loop post args (pre @ s)"
    using assms(1) pc cv
    by (simp add: vsprintk_def vsprintk_loop_literal vsprintk_loop.simps(2) cur_def no_missing_type
        emit_def)
  also have "\<dots> = Some (pre @ s @ out, int (length (pre @ s @ out)) - 1)"
    using assms(2) by (subst vsprintk_loop_out) (simp add: vsprintk_def)
  finally show ?thesis .
qed

text \<open>A field is at least as wide as its width asks for.\<close>

lemma length_emit: "width \<le> int (length (emit flag width ty body h offset)) + offset"
  by (auto simp: emit_def Let_def)

text \<open>Text without conversions is copied, and the result is its length less one.\<close>

lemma vsprintk_plain: "37 \<notin> set s \<Longrightarrow> vsprintk s args = Some (s, int (length s) - 1)"
  using vsprintk_loop_literal [of s "[]" args "[]"] by (simp add: vsprintk_def)

lemma vsprintk_result:
  assumes "vsprintk format args = Some (out, r)"
  shows "r = int (length out) - 1"
  using assms vsprintk_loop_out [of format args "[]"]
  by (auto simp: vsprintk_def split: option.splits)

end
