(* ===== verification/Kheap.thy ===== *)
theory Kheap
  imports Prelude
begin

text \<open>
  The kernel heap of \<^verbatim>\<open>kernel/memory/kheap.c\<close>: a doubly linked list of segments, each with a
  24-byte header in front of its data.  This theory holds the list itself: the header record, the
  first-fit search, splitting, freeing and combining, at the level of pointers, and the lemmas
  that relate them to the list of segments \<open>(address, size, used)\<close> in list order.  The allocator
  \<^verbatim>\<open>kmalloc\<close>, which grows the heap from the page allocator, is in the theory of the page
  allocator.
\<close>

section \<open>Segments\<close>

text \<open>
  \<^verbatim>\<open>struct __seg_info\<close>.  A header is identified by its address; \<^verbatim>\<open>sizeof(seg_info_struct)\<close> is 24.
\<close>

record seg_info =
  seg_size :: nat
  seg_used :: bool
  seg_next :: ptr
  seg_last :: ptr

type_synonym seg_store = "ptr \<rightharpoonup> seg_info"

definition SEG_INFO_SZ :: nat where
  "SEG_INFO_SZ = 24"

definition MIN_SEG_SIZE :: nat where
  "MIN_SEG_SIZE = 64"

text \<open>The rounded size of a request: \<^verbatim>\<open>(size + (MIN_SEG_SIZE - 1)) & ~(MIN_SEG_SIZE - 1)\<close>.\<close>

definition fixed_size :: "u64 \<Rightarrow> u64" where
  "fixed_size sz = (sz + (64 - 1)) AND NOT (64 - 1)"

text \<open>The search loop of \<^verbatim>\<open>kmalloc\<close>: it stops at a fitting segment or at the last one.\<close>

partial_function (option) find_seg :: "seg_store \<Rightarrow> nat \<Rightarrow> ptr \<Rightarrow> ptr option" where
  "find_seg h fixed cur_seg = do {
     s \<leftarrow> h cur_seg;
     if (seg_size s < fixed \<or> seg_used s) \<and> seg_next s \<noteq> NULL
     then find_seg h fixed (seg_next s)
     else Some cur_seg
   }"

text \<open>The end of \<^verbatim>\<open>kmalloc\<close>: split the segment when enough remains, and mark it used.\<close>

definition take_seg :: "seg_store \<Rightarrow> nat \<Rightarrow> ptr \<Rightarrow> seg_store option" where
  "take_seg h fixed cur_seg = do {
     s \<leftarrow> h cur_seg;
     if seg_size s - fixed \<ge> MIN_SEG_SIZE then do {
       let new_seg = cur_seg + fixed;
       let n = \<lparr>seg_size = seg_size s - fixed, seg_used = False,
                seg_next = seg_next s, seg_last = cur_seg\<rparr>;
       h \<leftarrow> (if seg_next s \<noteq> NULL then do {
               x \<leftarrow> h (seg_next s);
               Some (h(seg_next s \<mapsto> x\<lparr>seg_last := new_seg\<rparr>))
             } else Some h);
       Some (h(new_seg \<mapsto> n,
               cur_seg \<mapsto> s\<lparr>seg_size := fixed, seg_next := new_seg, seg_used := True\<rparr>))
     }
     else Some (h(cur_seg \<mapsto> s\<lparr>seg_used := True\<rparr>))
   }"

text \<open>\<^verbatim>\<open>do_combine\<close>: with the next segment, then with the previous one.\<close>

definition combine_next :: "seg_store \<Rightarrow> ptr \<Rightarrow> seg_store option" where
  "combine_next h seg = do {
     s \<leftarrow> h seg;
     if seg_next s \<noteq> NULL then do {
       n \<leftarrow> h (seg_next s);
       if \<not> seg_used n \<and> seg + seg_size s = seg_next s then do {
         let h = h(seg \<mapsto> s\<lparr>seg_size := seg_size s + seg_size n, seg_next := seg_next n\<rparr>);
         if seg_next n \<noteq> NULL then do {
           x \<leftarrow> h (seg_next n);
           Some (h(seg_next n \<mapsto> x\<lparr>seg_last := seg\<rparr>))
         } else Some h
       } else Some h
     } else Some h
   }"

definition combine_last :: "seg_store \<Rightarrow> ptr \<Rightarrow> (ptr \<times> seg_store) option" where
  "combine_last h seg = do {
     s \<leftarrow> h seg;
     if seg_last s \<noteq> NULL then do {
       l \<leftarrow> h (seg_last s);
       if \<not> seg_used l \<and> seg_last s + seg_size l = seg then do {
         let h = h(seg_last s \<mapsto> l\<lparr>seg_size := seg_size l + seg_size s, seg_next := seg_next s\<rparr>);
         h \<leftarrow> (if seg_next s \<noteq> NULL then do {
                 x \<leftarrow> h (seg_next s);
                 Some (h(seg_next s \<mapsto> x\<lparr>seg_last := seg_last s\<rparr>))
               } else Some h);
         Some (seg_last s, h)
       } else Some (seg, h)
     } else Some (seg, h)
   }"

definition do_combine :: "seg_store \<Rightarrow> ptr \<Rightarrow> (ptr \<times> seg_store) option" where
  "do_combine h seg = do { h \<leftarrow> combine_next h seg; combine_last h seg }"

text \<open>\<^verbatim>\<open>kfree\<close>: the header is right below the data.\<close>

definition kfree_seg :: "seg_store \<Rightarrow> ptr \<Rightarrow> seg_store option" where
  "kfree_seg h p = do {
     let seg = p - SEG_INFO_SZ;
     s \<leftarrow> h seg;
     (_, h) \<leftarrow> do_combine (h(seg \<mapsto> s\<lparr>seg_used := False\<rparr>)) seg;
     Some h
   }"

section \<open>The list of segments\<close>

type_synonym seg = "ptr \<times> nat \<times> bool"

text \<open>
  \<open>segs_from h prv p xs q\<close>: from \<open>p\<close>, whose back pointer is \<open>prv\<close>, the next-pointers visit the
  segments \<open>xs\<close>, each pointing back to the one before, and continue to \<open>q\<close>.
\<close>

fun segs_from :: "seg_store \<Rightarrow> ptr \<Rightarrow> ptr \<Rightarrow> seg list \<Rightarrow> ptr \<Rightarrow> bool" where
  "segs_from h prv p [] q \<longleftrightarrow> p = q"
| "segs_from h prv p ((a, sz, u) # xs) q \<longleftrightarrow> p = a \<and> a \<noteq> NULL \<and>
     (case h a of None \<Rightarrow> False
      | Some s \<Rightarrow> seg_size s = sz \<and> seg_used s = u \<and> seg_last s = prv
          \<and> segs_from h a (seg_next s) xs q)"

definition addrs :: "seg list \<Rightarrow> ptr set" where
  "addrs xs = fst ` set xs"

definition last_addr :: "ptr \<Rightarrow> seg list \<Rightarrow> ptr" where
  "last_addr prv xs = (if xs = [] then prv else fst (last xs))"

lemma addrs_simps [simp]:
  "addrs [] = {}" "addrs ((a, b) # xs) = insert a (addrs xs)" "addrs (xs @ ys) = addrs xs \<union> addrs ys"
  by (auto simp: addrs_def)

lemma last_addr_simps [simp]:
  "last_addr prv [] = prv" "last_addr prv ((a, b) # xs) = last_addr a xs"
  "last_addr prv (xs @ [(a, b)]) = a"
  by (auto simp: last_addr_def)

lemma segs_from_append:
  "segs_from h prv p (xs @ ys) q \<longleftrightarrow>
     (\<exists>r. segs_from h prv p xs r \<and> segs_from h (last_addr prv xs) r ys q)"
  by (induction xs arbitrary: prv p) (auto split: option.splits)

lemma segs_from_cong:
  "(\<And>a. a \<in> addrs xs \<Longrightarrow> h a = h' a) \<Longrightarrow> segs_from h prv p xs q = segs_from h' prv p xs q"
  by (induction xs arbitrary: prv p) (auto split: option.splits)

lemma segs_from_frame [simp]:
  "a \<notin> addrs xs \<Longrightarrow> segs_from (h(a := v)) prv p xs q = segs_from h prv p xs q"
  by (rule segs_from_cong) auto

lemma segs_from_dom: "segs_from h prv p xs q \<Longrightarrow> a \<in> addrs xs \<Longrightarrow> a \<noteq> NULL \<and> h a \<noteq> None"
  by (induction xs arbitrary: prv p) (auto split: option.splits)

lemma segs_from_hd: "segs_from h prv p xs q \<Longrightarrow> xs \<noteq> [] \<Longrightarrow> p = fst (hd xs)"
  by (cases xs) auto

section \<open>Layout\<close>

text \<open>Two segments that do not overlap, and a list of segments that are pairwise apart.\<close>

definition apart :: "seg \<Rightarrow> seg \<Rightarrow> bool" where
  "apart x y \<longleftrightarrow> (case (x, y) of ((a, sa, _), (b, sb, _)) \<Rightarrow> a + sa \<le> b \<or> b + sb \<le> a)"

definition layout :: "seg list \<Rightarrow> bool" where
  "layout xs \<longleftrightarrow> list_all (\<lambda>(a, sz, u). 0 < sz) xs \<and> sorted_wrt apart xs"

lemma apart_sym: "apart x y \<Longrightarrow> apart y x"
  by (auto simp: apart_def split: prod.splits)

lemma layout_Cons: "layout ((a, sz, u) # xs) \<longleftrightarrow>
    0 < sz \<and> (\<forall>y\<in>set xs. apart (a, sz, u) y) \<and> layout xs"
  by (auto simp: layout_def)

lemma layout_Nil [simp]: "layout []"
  by (simp add: layout_def)

lemma layout_append:
  "layout (xs @ ys) \<longleftrightarrow> layout xs \<and> layout ys \<and> (\<forall>x\<in>set xs. \<forall>y\<in>set ys. apart x y)"
  by (auto simp: layout_def sorted_wrt_append)

lemma layout_notin: "layout ((a, sz, u) # xs) \<Longrightarrow> 0 < k \<Longrightarrow> k \<le> sz \<Longrightarrow> a + (sz - k) \<notin> addrs xs"
  by (force simp: layout_Cons layout_def list_all_iff apart_def addrs_def)

lemma layout_distinct: "layout xs \<Longrightarrow> distinct (map fst xs)"
proof (induction xs)
  case Nil
  then show ?case by simp
next
  case (Cons x xs)
  obtain a sz u where x: "x = (a, sz, u)" by (cases x)
  have "a + (sz - sz) \<notin> addrs xs"
    using Cons.prems by (intro layout_notin [of a sz u]) (auto simp: x layout_Cons)
  with Cons show ?case by (simp add: x layout_Cons addrs_def)
qed


lemma addrs_layout_disjoint: "layout (xs @ ys) \<Longrightarrow> addrs xs \<inter> addrs ys = {}"
proof -
  assume "layout (xs @ ys)"
  then have "distinct (map fst (xs @ ys))" by (rule layout_distinct)
  then show ?thesis by (auto simp: addrs_def)
qed

section \<open>The list-level specification\<close>

text \<open>First fit: the first free segment of at least \<open>n\<close> bytes, split if 64 bytes remain.\<close>

definition carve :: "nat \<Rightarrow> ptr \<Rightarrow> nat \<Rightarrow> seg list" where
  "carve n a sz = (if MIN_SEG_SIZE \<le> sz - n then [(a, n, True), (a + n, sz - n, False)]
                   else [(a, sz, True)])"

fun fit :: "nat \<Rightarrow> seg list \<Rightarrow> (ptr \<times> seg list) option" where
  "fit n [] = None"
| "fit n ((a, sz, u) # xs) =
     (if u \<or> sz < n then map_option (\<lambda>(p, ys). (p, (a, sz, u) # ys)) (fit n xs)
      else Some (a, carve n a sz @ xs))"

definition unfit :: "nat \<Rightarrow> seg list \<Rightarrow> bool" where
  "unfit n xs \<longleftrightarrow> list_all (\<lambda>(a, sz, u). u \<or> sz < n) xs"

lemma unfit_simps [simp]:
  "unfit n []" "unfit n ((a, sz, u) # xs) \<longleftrightarrow> (u \<or> sz < n) \<and> unfit n xs"
  "unfit n (xs @ ys) \<longleftrightarrow> unfit n xs \<and> unfit n ys"
  by (auto simp: unfit_def)

lemma fit_None: "fit n xs = None \<longleftrightarrow> unfit n xs"
  by (induction xs) (auto split: if_splits)

lemma fit_append: "unfit n xs \<Longrightarrow> fit n (xs @ ys) = map_option (\<lambda>(p, zs). (p, xs @ zs)) (fit n ys)"
  by (induction xs) (cases "fit n ys"; auto)+

lemma fit_SomeD:
  "fit n xs = Some (a, ys) \<Longrightarrow>
   \<exists>pre sz post. xs = pre @ (a, sz, False) # post \<and> unfit n pre \<and> n \<le> sz \<and> ys = pre @ carve n a sz @ post"
proof (induction xs arbitrary: ys)
  case Nil
  then show ?case by simp
next
  case (Cons x xs)
  obtain b s u where x: "x = (b, s, u)" by (cases x)
  show ?case
  proof (cases "u \<or> s < n")
    case False
    with Cons.prems x show ?thesis by (intro exI [of _ "[]"]) auto
  next
    case True
    with Cons.prems x obtain zs where zs: "fit n xs = Some (a, zs)" "ys = x # zs" by auto
    with Cons.IH obtain pre sz post where
      "xs = pre @ (a, sz, False) # post" "unfit n pre" "n \<le> sz" "zs = pre @ carve n a sz @ post"
      by blast
    with True x zs show ?thesis by (intro exI [of _ "x # pre"]) auto
  qed
qed

text \<open>What the two combining steps do to a list \<open>pre @ (a, sz, u) # post\<close>.\<close>

fun join_next :: "seg \<Rightarrow> seg list \<Rightarrow> seg list" where
  "join_next (a, sz, u) ((b, sb, v) # post) =
     (if \<not> v \<and> a + sz = b then (a, sz + sb, u) # post else (a, sz, u) # (b, sb, v) # post)"
| "join_next x [] = [x]"

definition join_last :: "seg list \<Rightarrow> seg list \<Rightarrow> seg list" where
  "join_last pre xs =
     (if pre = [] \<or> xs = [] then pre @ xs
      else case (last pre, xs) of
        ((l, sl, v), (a, sz, u) # post) \<Rightarrow>
          if \<not> v \<and> l + sl = a then butlast pre @ (l, sl + sz, v) # post else pre @ xs
      | (_, []) \<Rightarrow> pre @ xs)"

definition release :: "seg list \<Rightarrow> ptr \<Rightarrow> nat \<Rightarrow> seg list \<Rightarrow> seg list" where
  "release pre a sz post = join_last pre (join_next (a, sz, False) post)"

section \<open>The pointer code refines the list\<close>

lemma segs_from_Nil_NULL: "segs_from h prv p xs NULL \<Longrightarrow> p = NULL \<longleftrightarrow> xs = []"
  by (cases xs) auto

lemma find_seg_step:
  "h c = Some s \<Longrightarrow> find_seg h n c =
     (if (seg_size s < n \<or> seg_used s) \<and> seg_next s \<noteq> NULL then find_seg h n (seg_next s) else Some c)"
  by (subst find_seg.simps) simp

text \<open>The search stops at the segment first fit picks, or at the last segment when none fits.\<close>

lemma find_seg_fit:
  "segs_from h prv p xs NULL \<Longrightarrow> xs \<noteq> [] \<Longrightarrow>
   find_seg h n p = Some (case fit n xs of Some (a, _) \<Rightarrow> a | None \<Rightarrow> last_addr prv xs)"
proof (induction xs arbitrary: prv p)
  case Nil
  then show ?case by simp
next
  case (Cons x xs)
  obtain a sz u where x: "x = (a, sz, u)" by (cases x)
  with Cons.prems obtain s where s: "p = a" "h a = Some s" "seg_size s = sz" "seg_used s = u"
    and t: "segs_from h a (seg_next s) xs NULL"
    by (auto split: option.splits)
  have nx: "seg_next s = NULL \<longleftrightarrow> xs = []" using t by (rule segs_from_Nil_NULL)
  show ?case
  proof (cases "xs = []")
    case True
    with x s nx show ?thesis by (auto simp: find_seg_step)
  next
    case False
    with Cons.IH [OF t] x s nx show ?thesis
      by (auto simp: find_seg_step split: option.splits)
  qed
qed

text \<open>Redirecting the back pointer of the first segment of a list.\<close>

lemma segs_from_set_last:
  assumes "segs_from h prv p ((b, sb, v) # xs) q" and "b \<notin> addrs xs" and "h b = Some s"
  shows "segs_from (h(b \<mapsto> s\<lparr>seg_last := prv'\<rparr>)) prv' p ((b, sb, v) # xs) q"
  using assms by (auto split: option.splits)

lemma segs_from_set_next:
  assumes "segs_from h prv p (xs @ [(l, sl, v)]) q" and "l \<notin> addrs xs" and "h l = Some s"
  shows "segs_from (h(l \<mapsto> s\<lparr>seg_next := q', seg_size := sl'\<rparr>)) prv p (xs @ [(l, sl', v)]) q'"
  using assms by (auto simp: segs_from_append split: option.splits)


lemma take_seg_fit:
  assumes g: "segs_from h NULL p (pre @ (a, sz, False) # post) NULL"
    and lay: "layout (pre @ (a, sz, False) # post)" and n: "0 < n" "n \<le> sz"
  shows "\<exists>h'. take_seg h n a = Some h' \<and> segs_from h' NULL p (pre @ carve n a sz @ post) NULL
    \<and> (\<forall>b. b \<notin> addrs (pre @ carve n a sz @ post) \<longrightarrow> h' b = h b)"
proof -
  have nota: "a \<notin> addrs pre" "a \<notin> addrs post" "addrs pre \<inter> addrs post = {}"
    using addrs_layout_disjoint [of pre "(a, sz, False) # post"] lay
      layout_notin [of a sz False post sz] n
    by (auto simp: layout_append)
  obtain s where s: "h a = Some s" "seg_size s = sz" "\<not> seg_used s" "seg_last s = last_addr NULL pre"
    and gp: "segs_from h NULL p pre a" and gq: "segs_from h a (seg_next s) post NULL" and a0: "a \<noteq> NULL"
    using g by (auto simp: segs_from_append split: option.splits)
  show ?thesis
  proof (cases "MIN_SEG_SIZE \<le> sz - n")
    case False
    with s gp gq nota a0 show ?thesis
      by (auto simp: take_seg_def carve_def segs_from_append)
  next
    case split: True
    then have lt: "n < sz" by (simp add: MIN_SEG_SIZE_def)
    have new: "a + n \<notin> addrs post" "a + n \<notin> addrs pre" "a + n \<noteq> a"
      using layout_notin [of a sz False post "sz - n"] lay lt n
        layout_notin [of a sz False pre "sz - n"]
      by (auto simp: layout_append layout_Cons dest: apart_sym)
    show ?thesis
    proof (cases post)
      case Nil
      with gq have "seg_next s = NULL" by simp
      with split s gp nota a0 new Nil show ?thesis
        by (auto simp: take_seg_def carve_def segs_from_append MIN_SEG_SIZE_def Let_def)
    next
      case (Cons x post')
      obtain b sb v where x: "x = (b, sb, v)" by (cases x)
      with gq Cons obtain t where t: "seg_next s = b" "h b = Some t" "b \<noteq> NULL"
          "seg_size t = sb" "seg_used t = v" "segs_from h b (seg_next t) post' NULL"
        by (auto split: option.splits)
      have b: "b \<notin> addrs post'" "b \<noteq> a" "b \<noteq> a + n" "b \<notin> addrs pre"
        using layout_distinct [OF lay] Cons x new nota by (auto simp: addrs_def)
      from split s gp nota a0 new b t Cons x show ?thesis
        by (auto simp: take_seg_def carve_def segs_from_append MIN_SEG_SIZE_def Let_def)
    qed
  qed
qed

lemma combine_next_join:
  assumes g: "segs_from h NULL p (pre @ (a, sz, u) # post) NULL"
    and d: "distinct (map fst (pre @ (a, sz, u) # post))"
  shows "\<exists>h'. combine_next h a = Some h' \<and> segs_from h' NULL p (pre @ join_next (a, sz, u) post) NULL
    \<and> (\<forall>b. b \<notin> addrs (pre @ (a, sz, u) # post) \<longrightarrow> h' b = h b)"
proof -
  have nota: "a \<notin> addrs pre" "a \<notin> addrs post" "addrs pre \<inter> addrs post = {}"
    using d by (auto simp: addrs_def)
  obtain s where s: "h a = Some s" "seg_size s = sz" "seg_used s = u" "seg_last s = last_addr NULL pre"
    and gp: "segs_from h NULL p pre a" and gq: "segs_from h a (seg_next s) post NULL" and a0: "a \<noteq> NULL"
    using g by (auto simp: segs_from_append split: option.splits)
  show ?thesis
  proof (cases post)
    case Nil
    with gq have "seg_next s = NULL" by simp
    with s g Nil show ?thesis by (auto simp: combine_next_def)
  next
    case (Cons x post')
    obtain b sb v where x: "x = (b, sb, v)" by (cases x)
    with gq Cons obtain t where t: "seg_next s = b" "h b = Some t" "b \<noteq> NULL"
        "seg_size t = sb" "seg_used t = v" "segs_from h b (seg_next t) post' NULL"
      by (auto split: option.splits)
    have b: "b \<notin> addrs post'" "b \<noteq> a" "b \<notin> addrs pre" "a \<notin> addrs post'"
      using d Cons x by (auto simp: addrs_def)
    show ?thesis
    proof (cases "\<not> v \<and> a + sz = b")
      case False
      with s t g Cons x show ?thesis by (auto simp: combine_next_def)
    next
      case join: True
      show ?thesis
      proof (cases post')
        case Nil
        with t have "seg_next t = NULL" by simp
        with join s t gp nota a0 b Cons x Nil show ?thesis
          by (auto simp: combine_next_def segs_from_append Let_def)
      next
        case (Cons y post'')
        obtain c sc w where y: "y = (c, sc, w)" by (cases y)
        with t Cons obtain r where r: "seg_next t = c" "h c = Some r" "c \<noteq> NULL"
            "seg_size r = sc" "seg_used r = w" "segs_from h c (seg_next r) post'' NULL"
          by (auto split: option.splits)
        have c: "c \<notin> addrs post''" "c \<noteq> a" "c \<noteq> b" "c \<notin> addrs pre" "a \<notin> addrs post''"
          using d Cons \<open>post = x # post'\<close> x y by (auto simp: addrs_def)
        from join s t r c gp nota a0 b Cons \<open>post = x # post'\<close> x y show ?thesis
          by (auto simp: combine_next_def segs_from_append Let_def)
      qed
    qed
  qed
qed

lemma combine_last_join:
  assumes g: "segs_from h NULL p (pre @ (a, sz, u) # post) NULL"
    and d: "distinct (map fst (pre @ (a, sz, u) # post))"
  shows "\<exists>c h'. combine_last h a = Some (c, h')
    \<and> segs_from h' NULL p (join_last pre ((a, sz, u) # post)) NULL
    \<and> (\<forall>b. b \<notin> addrs (pre @ (a, sz, u) # post) \<longrightarrow> h' b = h b)"
proof -
  obtain s where s: "h a = Some s" "seg_size s = sz" "seg_used s = u" "seg_last s = last_addr NULL pre"
    and gp: "segs_from h NULL p pre a" and gq: "segs_from h a (seg_next s) post NULL" and a0: "a \<noteq> NULL"
    using g by (auto simp: segs_from_append split: option.splits)
  show ?thesis
  proof (cases pre rule: rev_cases)
    case Nil
    with s g show ?thesis by (auto simp: combine_last_def join_last_def)
  next
    case (snoc pre' x)
    obtain l sl v where x: "x = (l, sl, v)" by (cases x)
    with gp snoc obtain t where t: "h l = Some t" "l \<noteq> NULL" "seg_size t = sl" "seg_used t = v"
        "seg_next t = a" "segs_from h NULL p pre' l" "seg_last t = last_addr NULL pre'"
      by (auto simp: segs_from_append split: option.splits)
    have nota: "a \<notin> addrs pre'" "a \<notin> addrs post" "l \<notin> addrs pre'" "l \<notin> addrs post" "l \<noteq> a"
        "addrs pre' \<inter> addrs post = {}"
      using d snoc x by (auto simp: addrs_def)
    show ?thesis
    proof (cases "\<not> v \<and> l + sl = a")
      case False
      with s t g snoc x show ?thesis by (auto simp: combine_last_def join_last_def)
    next
      case join: True
      show ?thesis
      proof (cases post)
        case Nil
        with gq have "seg_next s = NULL" by simp
        with join s t gp nota a0 snoc x Nil show ?thesis
          by (auto simp: combine_last_def join_last_def segs_from_append Let_def)
      next
        case (Cons y post')
        obtain c sc w where y: "y = (c, sc, w)" by (cases y)
        with gq Cons obtain r where r: "seg_next s = c" "h c = Some r" "c \<noteq> NULL"
            "seg_size r = sc" "seg_used r = w" "segs_from h c (seg_next r) post' NULL"
          by (auto split: option.splits)
        have c: "c \<notin> addrs post'" "c \<noteq> a" "c \<noteq> l" "c \<notin> addrs pre'"
          using d Cons snoc x y by (auto simp: addrs_def)
        from join s t r c gp nota a0 snoc x y Cons show ?thesis
          by (auto simp: combine_last_def join_last_def segs_from_append Let_def)
      qed
    qed
  qed
qed


lemma join_next_head: "\<exists>sz' post'. join_next (a, sz, u) post = (a, sz', u) # post'"
  by (cases post) auto

lemma join_next_addrs: "addrs (join_next (a, sz, u) post) \<subseteq> insert a (addrs post)"
  by (cases post) (auto split: if_splits)

lemma join_next_distinct:
  "distinct (map fst (pre @ (a, sz, u) # post)) \<Longrightarrow> distinct (map fst (pre @ join_next (a, sz, u) post))"
  by (cases "((a, sz, u), post)" rule: join_next.cases) simp_all

lemma do_combine_release:
  assumes g: "segs_from h NULL p (pre @ (a, sz, u) # post) NULL"
    and d: "distinct (map fst (pre @ (a, sz, u) # post))"
  shows "\<exists>c h'. do_combine h a = Some (c, h')
    \<and> segs_from h' NULL p (join_last pre (join_next (a, sz, u) post)) NULL
    \<and> (\<forall>b. b \<notin> addrs (pre @ (a, sz, u) # post) \<longrightarrow> h' b = h b)"
proof -
  obtain h1 where h1: "combine_next h a = Some h1"
      "segs_from h1 NULL p (pre @ join_next (a, sz, u) post) NULL"
      "\<forall>b. b \<notin> addrs (pre @ (a, sz, u) # post) \<longrightarrow> h1 b = h b"
    using combine_next_join [OF g d] by blast
  obtain sz' post' where j: "join_next (a, sz, u) post = (a, sz', u) # post'"
    using join_next_head by blast
  have d1: "distinct (map fst (pre @ (a, sz', u) # post'))"
    using join_next_distinct [OF d] j by simp
  have sub: "addrs (pre @ (a, sz', u) # post') \<subseteq> addrs (pre @ (a, sz, u) # post)"
    using join_next_addrs [of a sz u post] j by auto
  from combine_last_join [of h1 p pre a sz' u post'] h1(2) d1 j obtain c h2 where
    h2: "combine_last h1 a = Some (c, h2)"
      "segs_from h2 NULL p (join_last pre (join_next (a, sz, u) post)) NULL"
      "\<forall>b. b \<notin> addrs (pre @ (a, sz', u) # post') \<longrightarrow> h2 b = h1 b"
    by auto
  show ?thesis
    using h1 h2 sub by (auto simp: do_combine_def simp del: addrs_simps)
qed

text \<open>\<^verbatim>\<open>kfree\<close> of a segment of the list releases that segment and combines it.\<close>

lemma kfree_seg_release:
  assumes g: "segs_from h NULL p (pre @ (a, sz, u) # post) NULL"
    and d: "distinct (map fst (pre @ (a, sz, u) # post))"
  shows "\<exists>h'. kfree_seg h (a + SEG_INFO_SZ) = Some h'
    \<and> segs_from h' NULL p (release pre a sz post) NULL
    \<and> (\<forall>b. b \<notin> addrs (pre @ (a, sz, u) # post) \<longrightarrow> h' b = h b)"
proof -
  obtain s where s: "h a = Some s"
    using g by (auto simp: segs_from_append split: option.splits)
  have a: "a \<notin> addrs pre" "a \<notin> addrs post" using d by (auto simp: addrs_def)
  have g1: "segs_from (h(a \<mapsto> s\<lparr>seg_used := False\<rparr>)) NULL p (pre @ (a, sz, False) # post) NULL"
    using g s a by (auto simp: segs_from_append)
  have d1: "distinct (map fst (pre @ (a, sz, False) # post))" using d by simp
  from do_combine_release [OF g1 d1] s show ?thesis
    by (fastforce simp: kfree_seg_def release_def)
qed

section \<open>What the list operations keep\<close>

definition used_blocks :: "seg list \<Rightarrow> (ptr \<times> nat) set" where
  "used_blocks xs = {(a, sz). (a, sz, True) \<in> set xs}"

definition total_size :: "seg list \<Rightarrow> nat" where
  "total_size xs = sum_list (map (\<lambda>(a, sz, u). sz) xs)"

lemma used_blocks_simps [simp]:
  "used_blocks [] = {}"
  "used_blocks ((a, sz, u) # xs) = (if u then insert (a, sz) (used_blocks xs) else used_blocks xs)"
  "used_blocks (xs @ ys) = used_blocks xs \<union> used_blocks ys"
  by (auto simp: used_blocks_def)

lemma total_size_simps [simp]:
  "total_size [] = 0" "total_size ((a, sz, u) # xs) = sz + total_size xs"
  "total_size (xs @ ys) = total_size xs + total_size ys"
  by (auto simp: total_size_def)

lemma apart_used_irrelevant: "apart (a, sz, u) y = apart (a, sz, True) y"
  by (simp add: apart_def)

lemma apart_merge:
  "apart (a, sa, u) y \<Longrightarrow> apart (a + sa, sb, v) y \<Longrightarrow> 0 < fst (snd y) \<Longrightarrow> apart (a, sa + sb, w) y"
  by (auto simp: apart_def split: prod.splits)

lemma apart_part: "apart (a, sz, u) y \<Longrightarrow> k + n \<le> sz \<Longrightarrow> apart (a + k, n, v) y"
  by (auto simp: apart_def split: prod.splits)

lemma layout_sizes: "layout xs \<Longrightarrow> y \<in> set xs \<Longrightarrow> 0 < fst (snd y)"
  by (cases y) (auto simp: layout_def list_all_iff)

lemma layout_mid:
  "layout (pre @ (a, sz, u) # post) \<longleftrightarrow>
   layout (pre @ post) \<and> 0 < sz \<and> (\<forall>y\<in>set (pre @ post). apart (a, sz, u) y)"
  by (auto simp: layout_append layout_Cons intro: apart_sym)

lemma layout_merge:
  assumes "layout (pre @ (a, sa, u) # (a + sa, sb, v) # post)"
  shows "layout (pre @ (a, sa + sb, w) # post)"
proof -
  have "layout ((pre @ [(a, sa, u)]) @ (a + sa, sb, v) # post)" using assms by simp
  then have b: "0 < sb" "\<forall>y\<in>set (pre @ post). apart (a + sa, sb, v) y"
      "layout (pre @ (a, sa, u) # post)"
    unfolding layout_mid [of "pre @ [(a, sa, u)]"] by auto
  then have a: "0 < sa" "\<forall>y\<in>set (pre @ post). apart (a, sa, u) y" "layout (pre @ post)"
    by (auto simp: layout_mid [of pre a sa])
  show ?thesis
    unfolding layout_mid using a b by (auto intro!: apart_merge dest: layout_sizes)
qed

lemma layout_split:
  assumes "layout (pre @ (a, sz, u) # post)" and "0 < n" and "n < sz"
  shows "layout (pre @ (a, n, v) # (a + n, sz - n, w) # post)"
proof -
  have a: "\<forall>y\<in>set (pre @ post). apart (a, sz, u) y" "layout (pre @ post)"
    using assms by (auto simp: layout_mid)
  have "layout (pre @ (a, n, v) # post)"
    unfolding layout_mid using a assms by (auto intro: apart_part [of a sz u _ 0 n v, simplified])
  moreover have "\<forall>y\<in>set (pre @ post). apart (a + n, sz - n, w) y"
    using a(1) assms by (auto intro: apart_part [of a sz u])
  moreover have "apart (a + n, sz - n, w) (a, n, v)" by (simp add: apart_def)
  ultimately have "layout ((pre @ [(a, n, v)]) @ (a + n, sz - n, w) # post)"
    unfolding layout_mid [of "pre @ [(a, n, v)]"] using assms by auto
  then show ?thesis by simp
qed

lemma layout_used_irrelevant: "layout (pre @ (a, sz, u) # post) \<Longrightarrow> layout (pre @ (a, sz, v) # post)"
  unfolding layout_mid by (auto simp: apart_def)

text \<open>Releasing a segment keeps the layout and the size, and removes exactly that used block.\<close>

lemma join_next_keeps:
  assumes "layout (pre @ (a, sz, False) # post)"
  shows "layout (pre @ join_next (a, sz, False) post)"
    and "total_size (join_next (a, sz, False) post) = sz + total_size post"
    and "used_blocks (join_next (a, sz, False) post) = used_blocks post"
proof -
  show "layout (pre @ join_next (a, sz, False) post)"
    using assms layout_merge [of pre a sz False _ False] by (cases post) auto
  show "total_size (join_next (a, sz, False) post) = sz + total_size post"
    by (cases post) auto
  show "used_blocks (join_next (a, sz, False) post) = used_blocks post"
    by (cases post) (auto split: if_splits)
qed

lemma join_last_keeps:
  assumes "layout (pre @ (a, sz, False) # post)"
  shows "layout (join_last pre ((a, sz, False) # post))"
    and "total_size (join_last pre ((a, sz, False) # post)) = total_size pre + sz + total_size post"
    and "used_blocks (join_last pre ((a, sz, False) # post)) = used_blocks pre \<union> used_blocks post"
proof -
  show "layout (join_last pre ((a, sz, False) # post))"
    using assms layout_merge [of _ _ _ False sz False post False]
    by (cases pre rule: rev_cases) (auto simp: join_last_def)
  show "total_size (join_last pre ((a, sz, False) # post)) = total_size pre + sz + total_size post"
    by (cases pre rule: rev_cases) (auto simp: join_last_def)
  show "used_blocks (join_last pre ((a, sz, False) # post)) = used_blocks pre \<union> used_blocks post"
    by (cases pre rule: rev_cases) (auto simp: join_last_def split: if_splits)
qed

lemma release_keeps:
  assumes "layout (pre @ (a, sz, u) # post)"
  shows "layout (release pre a sz post)"
    and "total_size (release pre a sz post) = total_size (pre @ (a, sz, u) # post)"
    and "used_blocks (release pre a sz post) = used_blocks (pre @ post)"
proof -
  obtain sz' post' where j: "join_next (a, sz, False) post = (a, sz', False) # post'"
    using join_next_head by blast
  have l: "layout (pre @ (a, sz, False) # post)" using assms by (rule layout_used_irrelevant)
  note k = join_next_keeps [OF l, unfolded j]
  show "layout (release pre a sz post)"
    unfolding release_def j by (rule join_last_keeps(1) [OF k(1)])
  show "total_size (release pre a sz post) = total_size (pre @ (a, sz, u) # post)"
    unfolding release_def j using join_last_keeps(2) [OF k(1)] k(2) by simp
  show "used_blocks (release pre a sz post) = used_blocks (pre @ post)"
    unfolding release_def j using join_last_keeps(3) [OF k(1)] k(3) by simp
qed

text \<open>First fit keeps the layout and the size, and adds one block that was free.\<close>

lemma fit_keeps:
  assumes "fit n xs = Some (a, ys)" and "layout xs" and "0 < n"
  shows "layout ys" and "total_size ys = total_size xs"
    and "\<exists>sz. n \<le> sz \<and> sz < n + MIN_SEG_SIZE \<and> used_blocks ys = insert (a, sz) (used_blocks xs)"
proof -
  obtain pre sz post where x: "xs = pre @ (a, sz, False) # post" "n \<le> sz"
      "ys = pre @ carve n a sz @ post"
    using fit_SomeD [OF assms(1)] by blast
  show "layout ys"
    using x assms(2,3) layout_split [of pre a sz False post n True False]
      layout_used_irrelevant [of pre a sz False post True]
    by (auto simp: carve_def MIN_SEG_SIZE_def)
  show "total_size ys = total_size xs" using x by (auto simp: carve_def)
  show "\<exists>sz. n \<le> sz \<and> sz < n + MIN_SEG_SIZE \<and> used_blocks ys = insert (a, sz) (used_blocks xs)"
    using x by (cases "MIN_SEG_SIZE \<le> sz - n") (auto simp: carve_def MIN_SEG_SIZE_def)
qed

lemma fit_new_disjoint:
  assumes "fit n xs = Some (a, ys)" and "layout xs" and "0 < n"
    and "(b, sb) \<in> used_blocks xs"
  shows "b + sb \<le> a \<or> a + n \<le> b"
proof -
  obtain pre sz post where x: "xs = pre @ (a, sz, False) # post" "n \<le> sz"
    using fit_SomeD [OF assms(1)] by blast
  from assms(4) x have "(b, sb, True) \<in> set (pre @ post)" by (auto simp: used_blocks_def)
  with assms(2) x have "apart (a, sz, False) (b, sb, True)" by (auto simp: layout_mid)
  with x show ?thesis by (auto simp: apart_def)
qed


end
