(* ===== verification/Pmm.thy ===== *)
theory Pmm
  imports Kheap
begin

text \<open>
  The physical page allocator of \<^verbatim>\<open>kernel/memory/pmm.c\<close> together with \<^verbatim>\<open>kmalloc\<close> of
  \<^verbatim>\<open>kernel/memory/kheap.c\<close>: the two call each other.  The allocator keeps, for each order
  \<open>i \<le> 9\<close>, a linked list of free areas of \<open>2 ^ i\<close> pages whose nodes come from \<^verbatim>\<open>kmalloc\<close>, and
  \<^verbatim>\<open>kmalloc\<close> takes an area of 64 pages when no segment of the heap fits.  The first part models the
  code on the pointer structures.  The second part relates it to an abstract allocator, a list of
  block addresses per order, and shows when the two return.
\<close>

section \<open>State\<close>

record free_area =
  fa_address :: ptr
  fa_next :: ptr

text \<open>
  The globals of both files: the heap segments and \<^verbatim>\<open>start_addr\<close>, and the nodes, heads and tails of
  the free lists.
\<close>

record kmem =
  segs :: seg_store
  start_addr :: ptr
  areas :: "ptr \<rightharpoonup> free_area"
  list_head :: "nat \<Rightarrow> ptr"
  list_tail :: "nat \<Rightarrow> ptr"

definition MAX_ORDER :: nat where
  "MAX_ORDER = 9"

definition ALLOC_PAGE_ORDER :: nat where
  "ALLOC_PAGE_ORDER = 6"

definition PAGES :: "nat \<Rightarrow> nat" where
  "PAGES order = MEMUNIT_SZ * 2 ^ order"

type_synonym allocator = "u64 \<Rightarrow> kmem \<Rightarrow> (ptr \<times> kmem) option"

section \<open>Operations\<close>

text \<open>
  \<^verbatim>\<open>init_kheap\<close>: one free segment.  \<open>None\<close> is a write through a null pointer.
\<close>

definition init_kheap :: "ptr \<Rightarrow> nat \<Rightarrow> kmem \<Rightarrow> kmem option" where
  "init_kheap prepare_base prepare_size km =
     (if prepare_base = NULL then None
      else Some (km\<lparr>start_addr := prepare_base,
        segs := (segs km)(prepare_base \<mapsto>
          \<lparr>seg_size = prepare_size, seg_used = False, seg_next = NULL, seg_last = NULL\<rparr>)\<rparr>))"

text \<open>
  \<^verbatim>\<open>add_free_area\<close>, with the node allocator as an argument because \<^verbatim>\<open>kmalloc\<close> is defined from it.
  \<^verbatim>\<open>head\<close> and \<^verbatim>\<open>tail\<close> are read before the allocation, as in the code.
\<close>

definition add_free_area :: "allocator \<Rightarrow> nat \<Rightarrow> ptr \<Rightarrow> kmem \<Rightarrow> kmem option" where
  "add_free_area alloc order address km = do {
     let head = list_head km order;
     if head = NULL then do {
       (head, km) \<leftarrow> alloc 16 km;
       Some (km\<lparr>areas := (areas km)(head \<mapsto> \<lparr>fa_address = address, fa_next = NULL\<rparr>),
                list_head := (list_head km)(order := head),
                list_tail := (list_tail km)(order := head)\<rparr>)
     } else do {
       let tail = list_tail km order;
       (node, km) \<leftarrow> alloc 16 km;
       t \<leftarrow> areas km tail;
       Some (km\<lparr>areas := (areas km)(tail \<mapsto> t\<lparr>fa_next := node\<rparr>,
                                    node \<mapsto> \<lparr>fa_address = address, fa_next = NULL\<rparr>),
                list_tail := (list_tail km)(order := node)\<rparr>)
     }
   }"

text \<open>
  \<^verbatim>\<open>return_pages\<close>: one area for each set bit of \<open>pages\<close> below \<^verbatim>\<open>MAX_ORDER\<close>, then areas of
  \<^verbatim>\<open>MAX_ORDER\<close>.  \<open>pages\<close> is a signed \<^verbatim>\<open>int\<close>, so \<open>div\<close> is its arithmetic shift.
\<close>

primrec return_bits ::
    "allocator \<Rightarrow> nat list \<Rightarrow> ptr \<Rightarrow> int \<Rightarrow> kmem \<Rightarrow> (ptr \<times> int \<times> kmem) option" where
  "return_bits alloc [] start pages km = Some (start, pages, km)"
| "return_bits alloc (i # is) start pages km =
     (if odd pages then do {
        km \<leftarrow> add_free_area alloc i start km;
        return_bits alloc is (start + PAGES i) (pages div 2) km
      } else return_bits alloc is start (pages div 2) km)"

primrec return_max :: "allocator \<Rightarrow> nat \<Rightarrow> ptr \<Rightarrow> kmem \<Rightarrow> kmem option" where
  "return_max alloc 0 start km = Some km"
| "return_max alloc (Suc n) start km = do {
     km \<leftarrow> add_free_area alloc MAX_ORDER start km;
     return_max alloc n (start + PAGES MAX_ORDER) km
   }"

definition return_pages_with :: "allocator \<Rightarrow> ptr \<Rightarrow> int \<Rightarrow> kmem \<Rightarrow> kmem option" where
  "return_pages_with alloc addr pages km = do {
     (start, pages, km) \<leftarrow> return_bits alloc [0..<MAX_ORDER] addr pages km;
     return_max alloc (nat pages) start km
   }"

text \<open>
  \<^verbatim>\<open>__alloc_free_pages\<close>: the first area of the first non-empty list from \<open>order\<close> on.  The second
  component is the value of \<^verbatim>\<open>order_give\<close>, which the callers initialise to 0.
\<close>

primrec alloc_from :: "nat list \<Rightarrow> kmem \<Rightarrow> (ptr \<times> nat \<times> kmem) option" where
  "alloc_from [] km = Some (NULL, 0, km)"
| "alloc_from (i # is) km =
     (let head = list_head km i in
      if head \<noteq> NULL then do {
        n \<leftarrow> areas km head;
        let km = km\<lparr>list_head := (list_head km)(i := fa_next n)\<rparr>;
        let km = (if fa_next n = NULL then km\<lparr>list_tail := (list_tail km)(i := NULL)\<rparr> else km);
        Some (fa_address n, i, km)
      } else alloc_from is km)"

definition alloc_free_pages :: "nat \<Rightarrow> kmem \<Rightarrow> (ptr \<times> nat \<times> kmem) option" where
  "alloc_free_pages order km = alloc_from [order..<Suc MAX_ORDER] km"

text \<open>
  \<^verbatim>\<open>kmalloc\<close>.  The fuel bounds the recursion: \<^verbatim>\<open>kmalloc\<close> calls itself for the retry, whose request
  has the header size added once more, and through \<^verbatim>\<open>return_pages\<close> for the list nodes.
\<close>

primrec kmalloc :: "nat \<Rightarrow> allocator" where
  "kmalloc 0 = (\<lambda>sz km. None)"
| "kmalloc (Suc n) = (\<lambda>sz km. do {
     let sz = sz + of_nat SEG_INFO_SZ;
     let fixed = unat (fixed_size sz);
     cur \<leftarrow> find_seg (segs km) fixed (start_addr km);
     s \<leftarrow> segs km cur;
     if seg_size s < fixed \<or> seg_used s then do {
       (addr, order_give, km) \<leftarrow> alloc_free_pages ALLOC_PAGE_ORDER km;
       if addr = NULL then None
       else do {
         let h = (segs km)(addr \<mapsto> \<lparr>seg_size = PAGES ALLOC_PAGE_ORDER, seg_used = False,
                                    seg_next = NULL, seg_last = cur\<rparr>);
         c \<leftarrow> h cur;
         (_, h) \<leftarrow> do_combine (h(cur \<mapsto> c\<lparr>seg_next := addr\<rparr>)) addr;
         km \<leftarrow> return_pages_with (kmalloc n) (addr + PAGES ALLOC_PAGE_ORDER)
                 (2 ^ order_give - 2 ^ ALLOC_PAGE_ORDER) (km\<lparr>segs := h\<rparr>);
         kmalloc n sz km
       }
     }
     else do {
       h \<leftarrow> take_seg (segs km) fixed cur;
       Some (cur + SEG_INFO_SZ, km\<lparr>segs := h\<rparr>)
     }
   })"

declare kmalloc.simps(2) [simp del]

definition kfree :: "ptr \<Rightarrow> kmem \<Rightarrow> kmem option" where
  "kfree p km = do { h \<leftarrow> kfree_seg (segs km) p; Some (km\<lparr>segs := h\<rparr>) }"

definition return_pages :: "nat \<Rightarrow> ptr \<Rightarrow> int \<Rightarrow> kmem \<Rightarrow> kmem option" where
  "return_pages fuel = return_pages_with (kmalloc fuel)"

text \<open>
  \<^verbatim>\<open>alloc_pages\<close>: the rest of the area found goes back to the free lists, also when none was
  found.
\<close>

definition alloc_pages :: "nat \<Rightarrow> nat \<Rightarrow> kmem \<Rightarrow> (ptr \<times> kmem) option" where
  "alloc_pages fuel order km = do {
     (addr, order_give, km) \<leftarrow> alloc_free_pages order km;
     km \<leftarrow> return_pages fuel (addr + PAGES order) (2 ^ order_give - 2 ^ order) km;
     Some (addr, km)
   }"

text \<open>
  \<^verbatim>\<open>init_pmm\<close>.  The address advances by \<^verbatim>\<open>MEMUNIT_SZ << 1\<close> after every area of the first loop,
  whatever its order.
\<close>

primrec init_bits ::
    "allocator \<Rightarrow> nat list \<Rightarrow> ptr \<Rightarrow> nat \<Rightarrow> kmem \<Rightarrow> (ptr \<times> nat \<times> kmem) option" where
  "init_bits alloc [] start pages km = Some (start, pages, km)"
| "init_bits alloc (i # is) start pages km =
     (if odd pages then do {
        km \<leftarrow> add_free_area alloc i start km;
        init_bits alloc is (start + PAGES 1) (pages div 2) km
      } else init_bits alloc is start (pages div 2) km)"

definition init_pmm :: "nat \<Rightarrow> u64 \<Rightarrow> u64 \<Rightarrow> kmem \<Rightarrow> kmem option" where
  "init_pmm fuel memsize reserved_limit km = do {
     let pages = TO2POW memsize 4096 div 4096;
     let reserved_pages = TO2POW reserved_limit 4096 div 4096;
     let pages = pages - reserved_pages;
     (start, pages, km) \<leftarrow>
       init_bits (kmalloc fuel) [0..<MAX_ORDER] (unat reserved_limit) (unat pages) km;
     return_max (kmalloc fuel) pages start km
   }"

section \<open>The heap under kmalloc\<close>

definition heap_ok :: "kmem \<Rightarrow> seg list \<Rightarrow> bool" where
  "heap_ok km xs \<longleftrightarrow> segs_from (segs km) NULL (start_addr km) xs NULL \<and> layout xs \<and> xs \<noteq> []"

text \<open>The bytes a request takes, header included.\<close>

definition request :: "u64 \<Rightarrow> nat" where
  "request sz = unat (fixed_size (sz + 24))"

lemma fixed_size_TO2POW: "fixed_size sz = TO2POW sz (2 ^ 6)"
  by (simp add: fixed_size_def TO2POW_def add.commute)

lemma request_eq:
  assumes "unat sz + 24 + 63 < 2 ^ 64"
  shows "request sz = (unat sz + 87) div 64 * 64"
proof -
  have "unat (sz + 24) = (unat sz + 24) mod 2 ^ 64" by (simp add: unat_word_ariths)
  then have u: "unat (sz + 24) = unat sz + 24" using assms by simp
  show ?thesis
    using unat_TO2POW [of "sz + 24" 6] assms u by (simp add: request_def fixed_size_TO2POW)
qed

lemma request_bounds:
  assumes "unat sz + 24 + 63 < 2 ^ 64"
  shows "unat sz + 24 \<le> request sz" and "request sz < unat sz + 88" and "0 < request sz"
    and "64 dvd request sz"
  using round_up_bounds [of 64 "unat sz + 24"] request_eq [OF assms] by auto

lemma request_16 [simp]: "request 16 = 64"
  by (simp add: request_eq)

lemma heap_ok_frame [simp]:
  "heap_ok (km\<lparr>areas := A\<rparr>) xs = heap_ok km xs" "heap_ok (km\<lparr>list_head := H\<rparr>) xs = heap_ok km xs"
  "heap_ok (km\<lparr>list_tail := H\<rparr>) xs = heap_ok km xs"
  by (auto simp: heap_ok_def)

text \<open>When a segment fits, \<^verbatim>\<open>kmalloc\<close> takes the one first fit picks and touches nothing else.\<close>

lemma kmalloc_fast:
  assumes "heap_ok km xs" and "fit (request sz) xs = Some (a, ys)" and "0 < request sz"
  shows "\<exists>h. kmalloc (Suc n) sz km = Some (a + SEG_INFO_SZ, km\<lparr>segs := h\<rparr>) \<and> heap_ok (km\<lparr>segs := h\<rparr>) ys"
proof -
  obtain pre s post where x: "xs = pre @ (a, s, False) # post" "unfit (request sz) pre" "request sz \<le> s"
      "ys = pre @ carve (request sz) a s @ post"
    using fit_SomeD [OF assms(2)] by blast
  have g: "segs_from (segs km) NULL (start_addr km) xs NULL" and lay: "layout xs" "xs \<noteq> []"
    using assms(1) by (auto simp: heap_ok_def)
  have f: "find_seg (segs km) (request sz) (start_addr km) = Some a"
    using find_seg_fit [OF g lay(2), of "request sz"] assms(2) by simp
  obtain r where r: "segs km a = Some r" "seg_size r = s" "\<not> seg_used r"
    using g x by (auto simp: segs_from_append split: option.splits)
  obtain h where h: "take_seg (segs km) (request sz) a = Some h"
      "segs_from h NULL (start_addr km) ys NULL"
    using take_seg_fit [of "segs km" "start_addr km" pre a s post "request sz"] g lay assms(3) x
    by auto
  have "layout ys" by (rule fit_keeps(1) [OF assms(2) lay(1) assms(3)])
  moreover have "ys \<noteq> []" using x by (auto simp: carve_def)
  ultimately have "heap_ok (km\<lparr>segs := h\<rparr>) ys" using h by (simp add: heap_ok_def)
  moreover have "kmalloc (Suc n) sz km = Some (a + SEG_INFO_SZ, km\<lparr>segs := h\<rparr>)"
    using f r h x by (simp add: kmalloc.simps(2) request_def [symmetric] SEG_INFO_SZ_def)
  ultimately show ?thesis by blast
qed

text \<open>How many list nodes the heap has room for.\<close>

definition slots :: "seg list \<Rightarrow> nat" where
  "slots xs = sum_list (map (\<lambda>(a, sz, u). if u then 0 else sz div 64) xs)"

lemma slots_simps [simp]:
  "slots [] = 0" "slots ((a, sz, u) # xs) = (if u then 0 else sz div 64) + slots xs"
  "slots (xs @ ys) = slots xs + slots ys"
  by (auto simp: slots_def)

lemma slots_carve: "64 \<le> sz \<Longrightarrow> slots (carve 64 a sz) = sz div 64 - 1"
  by (auto simp: carve_def MIN_SEG_SIZE_def le_div_geq)

lemma slots_unfit: "unfit 64 xs \<Longrightarrow> slots xs = 0"
  by (induction xs) auto

lemma slots_fit:
  assumes "0 < slots xs"
  shows "\<exists>a ys. fit 64 xs = Some (a, ys) \<and> Suc (slots ys) = slots xs"
proof -
  have "fit 64 xs \<noteq> None" using assms slots_unfit by (auto simp: fit_None)
  then obtain a ys where f: "fit 64 xs = Some (a, ys)" by auto
  then obtain pre sz post where x: "xs = pre @ (a, sz, False) # post" "64 \<le> sz"
      "ys = pre @ carve 64 a sz @ post"
    using fit_SomeD by blast
  have "0 < sz div 64" using x by (simp add: div_greater_zero_iff)
  with x f show ?thesis by (simp add: slots_carve)
qed

section \<open>The free lists\<close>

abbreviation anext :: "kmem \<Rightarrow> ptr \<rightharpoonup> ptr" where
  "anext km \<equiv> (\<lambda>p. map_option fa_next (areas km p))"

definition aaddr :: "kmem \<Rightarrow> ptr \<Rightarrow> ptr" where
  "aaddr km p = (case areas km p of None \<Rightarrow> NULL | Some n \<Rightarrow> fa_address n)"

lemma map_aaddr_cong:
  "(\<And>p. p \<in> set ps \<Longrightarrow> map_option fa_address (areas km' p) = map_option fa_address (areas km p)) \<Longrightarrow>
   map (aaddr km') ps = map (aaddr km) ps"
proof (rule map_cong [OF refl])
  fix p
  assume a: "p \<in> set ps" "\<And>p. p \<in> set ps \<Longrightarrow>
    map_option fa_address (areas km' p) = map_option fa_address (areas km p)"
  have "map_option fa_address (areas km' p) = map_option fa_address (areas km p)"
    by (rule a(2) [OF a(1)])
  then show "aaddr km' p = aaddr km p"
    by (cases "areas km' p"; cases "areas km p") (auto simp: aaddr_def)
qed

text \<open>
  \<open>nodes km ns\<close>: \<open>ns i\<close> are the nodes of list \<open>i\<close>; no node is in two lists, and each is the data of a
  used segment of the heap.
\<close>

definition nodes_ok :: "kmem \<Rightarrow> (nat \<Rightarrow> ptr list) \<Rightarrow> bool" where
  "nodes_ok km ns \<longleftrightarrow>
     (\<forall>i. chain (anext km) (list_head km i) (ns i)) \<and>
     (\<forall>i. list_tail km i = (if ns i = [] then NULL else last (ns i))) \<and>
     (\<forall>i j. i \<noteq> j \<longrightarrow> set (ns i) \<inter> set (ns j) = {})"

definition nodes_in :: "(nat \<Rightarrow> ptr list) \<Rightarrow> seg list \<Rightarrow> bool" where
  "nodes_in ns xs \<longleftrightarrow> (\<forall>i. \<forall>p\<in>set (ns i). \<exists>a sz. p = a + SEG_INFO_SZ \<and> (a, sz) \<in> used_blocks xs)"

type_synonym free_lists = "nat \<Rightarrow> ptr list"

text \<open>
  The invariant: the heap is the list of segments \<open>xs\<close>, and list \<open>i\<close> holds the block addresses
  \<open>A i\<close>, in order.
\<close>

definition pmm_inv :: "kmem \<Rightarrow> seg list \<Rightarrow> free_lists \<Rightarrow> bool" where
  "pmm_inv km xs A \<longleftrightarrow> heap_ok km xs \<and>
     (\<exists>ns. nodes_ok km ns \<and> nodes_in ns xs \<and> (\<forall>i. map (aaddr km) (ns i) = A i))"

definition spec_add :: "nat \<times> ptr \<Rightarrow> free_lists \<Rightarrow> free_lists" where
  "spec_add = (\<lambda>(i, a) A. A(i := A i @ [a]))"

lemma nodes_ok_notin:
  "nodes_ok km ns \<Longrightarrow> i \<noteq> j \<Longrightarrow> p \<in> set (ns i) \<Longrightarrow> p \<notin> set (ns j)"
  unfolding nodes_ok_def by blast

lemma nodes_ok_add_empty:
  assumes ok: "nodes_ok km ns" and i: "ns i = []" and fresh: "\<forall>j. p \<notin> set (ns j)" "p \<noteq> NULL"
  shows "nodes_ok (km\<lparr>areas := (areas km)(p \<mapsto> \<lparr>fa_address = a, fa_next = NULL\<rparr>),
      list_head := (list_head km)(i := p), list_tail := (list_tail km)(i := p)\<rparr>) (ns(i := [p]))"
    (is "nodes_ok ?km _")
proof -
  have "chain (anext ?km) (list_head km j) (ns j) = chain (anext km) (list_head km j) (ns j)" for j
    by (rule chain_cong) (use fresh in auto)
  with ok fresh i show ?thesis by (auto simp: nodes_ok_def)
qed

lemma nodes_ok_add_tail:
  assumes ok: "nodes_ok km ns" and i: "ns i \<noteq> []" and fresh: "\<forall>j. p \<notin> set (ns j)" "p \<noteq> NULL"
    and t: "areas km (last (ns i)) = Some t"
  shows "nodes_ok (km\<lparr>areas := (areas km)(last (ns i) \<mapsto> t\<lparr>fa_next := p\<rparr>,
                                   p \<mapsto> \<lparr>fa_address = a, fa_next = NULL\<rparr>),
      list_tail := (list_tail km)(i := p)\<rparr>) (ns(i := ns i @ [p]))"
    (is "nodes_ok ?km _")
proof -
  have last: "last (ns i) \<in> set (ns i)" using i by simp
  have oth: "chain (anext ?km) (list_head km j) (ns j)" if "j \<noteq> i" for j
  proof -
    have "last (ns i) \<notin> set (ns j)"
      using nodes_ok_notin [OF ok, of i j] that last by blast
    then have "chain (anext ?km) (list_head km j) (ns j) = chain (anext km) (list_head km j) (ns j)"
      by (intro chain_cong) (use fresh in auto)
    with ok show ?thesis by (simp add: nodes_ok_def)
  qed
  obtain as where as: "ns i = as @ [last (ns i)]" using i by (metis append_butlast_last_id)
  have c: "chain (anext km) (list_head km i) (as @ [last (ns i)])"
    using ok as unfolding nodes_ok_def by metis
  have eq: "anext ?km = (anext km)(p \<mapsto> NULL, last (ns i) \<mapsto> p)"
    using fresh last by (auto simp: fun_eq_iff)
  have "chain (anext ?km) (list_head km i) (as @ [last (ns i), p])"
    unfolding eq by (rule chain_append_node [OF c]) (use fresh as in metis)+
  then have "chain (anext ?km) (list_head km i) (ns i @ [p])" using as by (metis append_assoc append_Cons append_Nil)
  with ok oth fresh show ?thesis by (auto simp: nodes_ok_def)
qed


text \<open>Adding an area appends its address to the list of its order, when the node is fresh.\<close>

lemma add_free_area_with:
  assumes inv: "pmm_inv km xs A"
    and al: "alloc 16 km = Some (a + SEG_INFO_SZ, km\<lparr>segs := h\<rparr>)" "heap_ok (km\<lparr>segs := h\<rparr>) ys"
    and ub: "used_blocks ys = insert (a, sz) (used_blocks xs)" "\<And>s. (a, s) \<notin> used_blocks xs"
  shows "\<exists>km'. add_free_area alloc i ad km = Some km' \<and> pmm_inv km' ys (spec_add (i, ad) A)
    \<and> start_addr km' = start_addr km"
proof -
  obtain ns where ns: "nodes_ok km ns" "nodes_in ns xs" "\<forall>j. map (aaddr km) (ns j) = A j"
    using inv by (auto simp: pmm_inv_def)
  define p where "p = a + SEG_INFO_SZ"
  have p: "p \<noteq> NULL" "\<forall>j. p \<notin> set (ns j)"
    using ns(2) ub(2) unfolding p_def SEG_INFO_SZ_def nodes_in_def by (auto, metis add_right_imp_eq)
  have in': "nodes_in (ns(i := ns i @ [p])) ys"
    using ns(2) ub(1) unfolding nodes_in_def p_def by (auto; blast)
  have ok: "nodes_ok (km\<lparr>segs := h\<rparr>) ns" using ns(1) by (simp add: nodes_ok_def)
  show ?thesis
  proof (cases "ns i = []")
    case True
    then have hd: "list_head km i = NULL" using ns(1) unfolding nodes_ok_def by (metis chain.simps(1))
    let ?km = "km\<lparr>segs := h, areas := (areas km)(p \<mapsto> \<lparr>fa_address = ad, fa_next = NULL\<rparr>),
      list_head := (list_head km)(i := p), list_tail := (list_tail km)(i := p)\<rparr>"
    have "nodes_ok ?km (ns(i := [p]))"
      using nodes_ok_add_empty [OF ok True p(2,1), of ad] by simp
    moreover have "map (aaddr ?km) ((ns(i := [p])) j) = (spec_add (i, ad) A) j" for j
    proof (cases "j = i")
      case eq: True
      have "A i = []" using ns(3) True by (metis list.simps(8))
      with eq show ?thesis by (simp add: spec_add_def aaddr_def)
    next
      case False
      have "map (aaddr ?km) (ns j) = map (aaddr km) (ns j)"
        by (rule map_aaddr_cong) (use p(2) in auto)
      with False ns(3) show ?thesis by (simp add: spec_add_def)
    qed
    ultimately have "pmm_inv ?km ys (spec_add (i, ad) A)"
      using al(2) in' True unfolding pmm_inv_def by (intro conjI exI [of _ "ns(i := [p])"]) auto
    with hd al(1) show ?thesis by (simp add: add_free_area_def p_def)
  next
    case False
    then have hd: "list_head km i \<noteq> NULL" using ns(1) unfolding nodes_ok_def by (metis chain_NULL)
    have tl: "list_tail km i = last (ns i)" using ns(1) False by (simp add: nodes_ok_def)
    have last: "last (ns i) \<in> set (ns i)" using False by simp
    have "anext km (last (ns i)) \<noteq> None"
      using chain_in_dom [OF _ last, of "anext km" "list_head km i"] ns(1) by (simp add: nodes_ok_def)
    then obtain t where t: "areas km (last (ns i)) = Some t" by auto
    let ?km = "km\<lparr>segs := h, areas := (areas km)(last (ns i) \<mapsto> t\<lparr>fa_next := p\<rparr>,
                                   p \<mapsto> \<lparr>fa_address = ad, fa_next = NULL\<rparr>),
      list_tail := (list_tail km)(i := p)\<rparr>"
    have "nodes_ok ?km (ns(i := ns i @ [p]))"
      using nodes_ok_add_tail [OF ok False p(2,1), of t ad] t by simp
    moreover have "map (aaddr ?km) ((ns(i := ns i @ [p])) j) = (spec_add (i, ad) A) j" for j
    proof -
      have "map (aaddr ?km) (ns j) = map (aaddr km) (ns j)"
        by (rule map_aaddr_cong) (use p(2) t in auto)
      moreover have "aaddr ?km p = ad" by (simp add: aaddr_def)
      ultimately show ?thesis using ns(3) by (auto simp: spec_add_def)
    qed
    ultimately have "pmm_inv ?km ys (spec_add (i, ad) A)"
      using al(2) in' unfolding pmm_inv_def by (intro conjI exI [of _ "ns(i := ns i @ [p])"]) auto
    with hd tl t al(1) show ?thesis by (simp add: add_free_area_def p_def)
  qed
qed

lemma fit_fresh:
  assumes "fit n xs = Some (a, ys)" and "layout xs"
  shows "(a, s) \<notin> used_blocks xs"
proof -
  obtain pre sz post where x: "xs = pre @ (a, sz, False) # post"
    using fit_SomeD [OF assms(1)] by blast
  have "distinct (map fst xs)" by (rule layout_distinct [OF assms(2)])
  with x show ?thesis by (force simp: used_blocks_def)
qed

text \<open>
  With room for a node, adding an area succeeds and uses up one slot.  The heap before and after
  is related by \<open>fit 64\<close>, which is how larger free segments are tracked.
\<close>

lemma add_free_area_slot:
  assumes inv: "pmm_inv km xs A" and "0 < slots xs"
  shows "\<exists>km' a ys. add_free_area (kmalloc (Suc n)) i ad km = Some km' \<and> pmm_inv km' ys (spec_add (i, ad) A)
    \<and> fit 64 xs = Some (a, ys) \<and> Suc (slots ys) = slots xs \<and> start_addr km' = start_addr km"
proof -
  obtain a ys where f: "fit 64 xs = Some (a, ys)" "Suc (slots ys) = slots xs"
    using slots_fit [OF assms(2)] by blast
  have hk: "heap_ok km xs" "layout xs" using inv by (auto simp: pmm_inv_def heap_ok_def)
  obtain h where h: "kmalloc (Suc n) 16 km = Some (a + SEG_INFO_SZ, km\<lparr>segs := h\<rparr>)"
      "heap_ok (km\<lparr>segs := h\<rparr>) ys"
    using kmalloc_fast [of km xs 16 a ys n] hk f by auto
  obtain sz where sz: "used_blocks ys = insert (a, sz) (used_blocks xs)"
    using fit_keeps(3) [OF f(1) hk(2)] by auto
  show ?thesis
    using add_free_area_with [of km xs A "kmalloc (Suc n)" a h ys sz i ad] inv h sz
      fit_fresh [OF f(1) hk(2)] f by metis
qed

section \<open>Returning pages\<close>

text \<open>The areas a return of \<open>pages\<close> pages at \<open>start\<close> adds, in order.\<close>

fun bit_areas :: "nat list \<Rightarrow> ptr \<Rightarrow> int \<Rightarrow> (nat \<times> ptr) list" where
  "bit_areas [] start pages = []"
| "bit_areas (i # is) start pages =
     (if odd pages then (i, start) # bit_areas is (start + PAGES i) (pages div 2)
      else bit_areas is start (pages div 2))"

definition add_areas :: "(nat \<times> ptr) list \<Rightarrow> free_lists \<Rightarrow> free_lists" where
  "add_areas bs A = fold spec_add bs A"

lemma add_areas_simps [simp]:
  "add_areas [] A = A" "add_areas (b # bs) A = add_areas bs (spec_add b A)"
  "add_areas (bs @ cs) A = add_areas cs (add_areas bs A)"
  by (simp_all add: add_areas_def)

text \<open>\<open>fits k xs ys\<close>: \<open>ys\<close> is the heap after \<open>k\<close> nodes were allocated in \<open>xs\<close>.\<close>

inductive fits :: "nat \<Rightarrow> seg list \<Rightarrow> seg list \<Rightarrow> bool" where
  fits_0: "fits 0 xs xs"
| fits_Suc: "fit 64 xs = Some (a, ys) \<Longrightarrow> fits k ys zs \<Longrightarrow> fits (Suc k) xs zs"

lemma return_bits_slots:
  assumes "pmm_inv km xs A" and "length (bit_areas is start pages) \<le> slots xs"
  shows "\<exists>start' pages' km' ys. return_bits (kmalloc (Suc n)) is start pages km = Some (start', pages', km')
    \<and> pages' = pages div 2 ^ length is
    \<and> pmm_inv km' ys (add_areas (bit_areas is start pages) A)
    \<and> fits (length (bit_areas is start pages)) xs ys \<and> start_addr km' = start_addr km"
  using assms
proof (induction "is" arbitrary: start pages km xs A)
  case Nil
  then show ?case by (auto intro: fits_0)
next
  case (Cons i "is")
  have dd: "pages div 2 div 2 ^ length is = pages div (2 * 2 ^ length is)"
    by (simp add: zdiv_zmult2_eq)
  show ?case
  proof (cases "odd pages")
    case False
    with Cons.IH [OF Cons.prems(1), of start "pages div 2"] Cons.prems(2) dd show ?thesis by simp
  next
    case True
    with Cons.prems(2) have "0 < slots xs" by simp
    then obtain km1 a ys where s: "add_free_area (kmalloc (Suc n)) i start km = Some km1"
        "pmm_inv km1 ys (spec_add (i, start) A)" "fit 64 xs = Some (a, ys)" "Suc (slots ys) = slots xs"
        "start_addr km1 = start_addr km"
      using add_free_area_slot [OF Cons.prems(1)] by metis
    have l: "length (bit_areas is (start + PAGES i) (pages div 2)) \<le> slots ys"
      using Cons.prems(2) s(4) True by simp
    from Cons.IH [OF s(2) l] True s(1,3,5) dd show ?thesis
      by (auto intro: fits_Suc)
  qed
qed


section \<open>The abstract allocator\<close>

text \<open>First list from \<open>order\<close> on that is not empty; its oldest block.\<close>

primrec spec_from :: "nat list \<Rightarrow> free_lists \<Rightarrow> (ptr \<times> nat \<times> free_lists) option" where
  "spec_from [] A = None"
| "spec_from (i # is) A = (case A i of [] \<Rightarrow> spec_from is A | a # as \<Rightarrow> Some (a, i, A(i := as)))"

definition spec_alloc :: "nat \<Rightarrow> free_lists \<Rightarrow> (ptr \<times> free_lists) option" where
  "spec_alloc order A = map_option (\<lambda>(a, give, A').
     (a, add_areas (bit_areas [0..<9] (a + PAGES order) (2 ^ give - 2 ^ order)) A'))
     (spec_from [order..<10] A)"

lemma spec_from_SomeD:
  "spec_from is A = Some (a, i, A') \<Longrightarrow> i \<in> set is \<and> (\<exists>as. A i = a # as \<and> A' = A(i := as))"
  by (induction "is") (auto split: list.splits)

lemma spec_from_None: "spec_from is A = None \<longleftrightarrow> (\<forall>i\<in>set is. A i = [])"
  by (induction "is") (auto split: list.splits)

lemma alloc_from_None:
  assumes "pmm_inv km xs A"
  shows "spec_from is A = None \<Longrightarrow> alloc_from is km = Some (NULL, 0, km)"
proof (induction "is")
  case Nil
  then show ?case by simp
next
  case (Cons i "is")
  from Cons.prems have "A i = []" by (cases "A i") auto
  moreover from Cons.prems this have "spec_from is A = None" by simp
  moreover obtain ns where "nodes_ok km ns" "\<forall>i. map (aaddr km) (ns i) = A i"
    using assms by (auto simp: pmm_inv_def)
  ultimately have "list_head km i = NULL"
    unfolding nodes_ok_def by (metis Nil_is_map_conv chain.simps(1))
  with Cons.IH \<open>spec_from is A = None\<close> show ?case by simp
qed

text \<open>Taking the first node off list \<open>i\<close>.\<close>

lemma nodes_ok_pop:
  assumes ok: "nodes_ok km ns" and i: "ns i = p # ps" and n: "areas km p = Some n"
  shows "nodes_ok ((if fa_next n = NULL
      then km\<lparr>list_head := (list_head km)(i := fa_next n), list_tail := (list_tail km)(i := NULL)\<rparr>
      else km\<lparr>list_head := (list_head km)(i := fa_next n)\<rparr>)) (ns(i := ps))"
proof -
  have c: "chain (anext km) (list_head km i) (p # ps)" using ok i unfolding nodes_ok_def by metis
  then have ps: "chain (anext km) (fa_next n) ps" using n by simp
  then have nl: "fa_next n = NULL \<longleftrightarrow> ps = []"
    by (cases ps) auto
  have d: "p \<notin> set ps" using chain_hd_notin_tl [OF c] .
  have tl: "list_tail km i = last (p # ps)" using ok i by (simp add: nodes_ok_def)
  have oth: "\<forall>j k. j \<noteq> k \<longrightarrow> set ((ns(i := ps)) j) \<inter> set ((ns(i := ps)) k) = {}"
    using ok i unfolding nodes_ok_def by (auto simp: disjoint_iff) (metis list.set_intros(2))+
  show ?thesis
  proof (cases "fa_next n = NULL")
    case True
    with ok ps nl show ?thesis by (auto simp: nodes_ok_def disjoint_iff)
  next
    case False
    have "chain (anext km) (((list_head km)(i := fa_next n)) j) ((ns(i := ps)) j)" for j
      using ok ps by (cases "j = i") (auto simp: nodes_ok_def)
    moreover have "list_tail km j = (if (ns(i := ps)) j = [] then NULL else last ((ns(i := ps)) j))" for j
      using ok nl False tl by (cases "j = i") (auto simp: nodes_ok_def)
    ultimately show ?thesis using oth False unfolding nodes_ok_def by simp
  qed
qed

lemma alloc_from_Some:
  assumes inv: "pmm_inv km xs A"
  shows "spec_from is A = Some (a, i, A') \<Longrightarrow>
    \<exists>km'. alloc_from is km = Some (a, i, km') \<and> pmm_inv km' xs A' \<and> start_addr km' = start_addr km
      \<and> segs km' = segs km"
proof (induction "is")
  case Nil
  then show ?case by simp
next
  case (Cons j "is")
  obtain ns where ns: "nodes_ok km ns" "nodes_in ns xs" "\<forall>i. map (aaddr km) (ns i) = A i"
    using inv by (auto simp: pmm_inv_def)
  show ?case
  proof (cases "A j")
    case Nil
    then have "ns j = []" using ns(3) by (metis Nil_is_map_conv)
    then have "list_head km j = NULL" using ns(1) unfolding nodes_ok_def by (metis chain.simps(1))
    with Cons Nil show ?thesis by simp
  next
    case (Cons b as)
    with Cons.prems have [simp]: "j = i" "b = a" "A' = A(i := as)" by auto
    obtain p ps where p: "ns i = p # ps" "aaddr km p = a" "map (aaddr km) ps = as"
      using ns(3) Cons by (metis \<open>b = a\<close> \<open>j = i\<close> map_eq_Cons_D)
    have c: "chain (anext km) (list_head km i) (p # ps)" using ns(1) p(1) unfolding nodes_ok_def by metis
    then obtain n where n: "areas km p = Some n" "list_head km i = p" "p \<noteq> NULL"
      by (auto split: option.splits)
    then have a: "fa_address n = a" using p(2) by (simp add: aaddr_def)
    let ?km = "if fa_next n = NULL
      then km\<lparr>list_head := (list_head km)(i := fa_next n), list_tail := (list_tail km)(i := NULL)\<rparr>
      else km\<lparr>list_head := (list_head km)(i := fa_next n)\<rparr>"
    have "nodes_ok ?km (ns(i := ps))" by (rule nodes_ok_pop [OF ns(1) p(1) n(1)])
    moreover have "set ((ns(i := ps)) k) \<subseteq> set (ns k)" for k using p(1) by auto
    then have "nodes_in (ns(i := ps)) xs" using ns(2) unfolding nodes_in_def by blast
    moreover have "map (aaddr ?km) ((ns(i := ps)) k) = A' k" for k
    proof -
      have "map (aaddr ?km) qs = map (aaddr km) qs" for qs
        by (rule map_aaddr_cong) auto
      then have "map (aaddr ?km) ((ns(i := ps)) k) = map (aaddr km) ((ns(i := ps)) k)" .
      also have "\<dots> = A' k" using ns(3) p(3) by (cases "k = i") simp_all
      finally show ?thesis .
    qed
    ultimately have "pmm_inv ?km xs A'"
      using inv unfolding pmm_inv_def by (intro conjI exI [of _ "ns(i := ps)"]) auto
    moreover have "alloc_from (j # is) km = Some (a, i, ?km)" using n a by (simp add: Let_def)
    moreover have "start_addr ?km = start_addr km" "segs ?km = segs km" by simp_all
    ultimately show ?thesis by blast
  qed
qed

section \<open>Pages\<close>

definition block :: "nat \<times> ptr \<Rightarrow> ptr set" where
  "block = (\<lambda>(i, a). {a ..< a + PAGES i})"

text \<open>The memory in the free lists, and what it means that no two blocks in them overlap.\<close>

definition free_blocks :: "free_lists \<Rightarrow> (nat \<times> ptr) set" where
  "free_blocks A = {(i, a). a \<in> set (A i)}"

definition free_mem :: "free_lists \<Rightarrow> ptr set" where
  "free_mem A = \<Union> (block ` free_blocks A)"

definition no_overlap :: "free_lists \<Rightarrow> bool" where
  "no_overlap A \<longleftrightarrow> (\<forall>i. distinct (A i)) \<and>
     (\<forall>x\<in>free_blocks A. \<forall>y\<in>free_blocks A. x \<noteq> y \<longrightarrow> block x \<inter> block y = {})"

lemma PAGES_pos [simp]: "0 < PAGES i"
  by (simp add: PAGES_def)

lemma block_nonempty [simp]: "block x \<noteq> {}"
  by (auto simp: block_def split: prod.splits)

lemma free_blocks_add [simp]: "free_blocks (spec_add x A) = insert x (free_blocks A)"
  by (auto simp: free_blocks_def spec_add_def split: prod.splits if_splits)

lemma free_mem_add [simp]: "free_mem (spec_add x A) = block x \<union> free_mem A"
  by (simp add: free_mem_def)

lemma free_mem_add_areas: "free_mem (add_areas bs A) = \<Union> (block ` set bs) \<union> free_mem A"
  by (induction bs arbitrary: A) auto

lemma no_overlap_add:
  assumes "no_overlap A" and "block x \<inter> free_mem A = {}"
  shows "no_overlap (spec_add x A)"
proof -
  obtain i a where x: "x = (i, a)" by (cases x)
  have "x \<notin> free_blocks A"
    using assms(2) block_nonempty [of x] unfolding free_mem_def by blast
  then have "a \<notin> set (A i)" by (simp add: x free_blocks_def)
  then have "\<forall>j. distinct ((spec_add x A) j)"
    using assms(1) by (auto simp: no_overlap_def spec_add_def x)
  moreover have "\<forall>y\<in>free_blocks A. block x \<inter> block y = {}"
    using assms(2) by (auto simp: free_mem_def)
  ultimately show ?thesis
    using assms(1) unfolding no_overlap_def free_blocks_add by (metis inf_commute insert_iff)
qed

text \<open>The areas of a return are consecutive and cover exactly the pages returned.\<close>

definition region :: "ptr \<Rightarrow> nat \<Rightarrow> ptr set" where
  "region start len = {start ..< start + len}"

lemma region_split: "region s (k + l) = region s k \<union> region (s + k) l"
  by (auto simp: region_def)

lemma region_disjoint: "region s k \<inter> region (s + k) l = {}"
  by (auto simp: region_def)

lemma block_region: "block (i, a) = region a (PAGES i)"
  by (simp add: block_def region_def)

lemma add_bit_areas:
  assumes "0 \<le> pages" and "no_overlap A"
    and "region start (PAGES i * (nat pages mod 2 ^ n)) \<inter> free_mem A = {}"
  shows "no_overlap (add_areas (bit_areas [i..<i + n] start pages) A)
    \<and> free_mem (add_areas (bit_areas [i..<i + n] start pages) A) =
        region start (PAGES i * (nat pages mod 2 ^ n)) \<union> free_mem A"
  using assms
proof (induction n arbitrary: i start pages A)
  case 0
  then show ?case by (simp add: region_def)
next
  case (Suc n)
  define m where "m = PAGES (Suc i) * (nat (pages div 2) mod 2 ^ n)"
  have up: "[i..<i + Suc n] = i # [Suc i..<Suc i + n]" by (simp add: upt_conv_Cons)
  have half: "nat (pages div 2) = nat pages div 2" using Suc.prems(1) by (simp add: nat_div_distrib)
  have "nat pages mod 2 ^ Suc n = 2 * (nat pages div 2 mod 2 ^ n) + nat pages mod 2"
    by (simp add: mod_mult2_eq)
  then have len: "PAGES i * (nat pages mod 2 ^ Suc n) = PAGES i * (nat pages mod 2) + m"
    by (simp add: m_def half PAGES_def algebra_simps)
  show ?case
  proof (cases "odd pages")
    case False
    then have "nat pages mod 2 = 0" using Suc.prems(1) by presburger
    with Suc.IH [of "pages div 2" A start "Suc i"] Suc.prems len False show ?thesis
      unfolding up by (simp add: m_def)
  next
    case True
    then have len': "PAGES i * (nat pages mod 2 ^ Suc n) = PAGES i + m"
      using Suc.prems(1) len by (simp add: nat_mod_distrib) presburger
    let ?A = "spec_add (i, start) A"
    have free: "free_mem ?A = region start (PAGES i) \<union> free_mem A" by (simp add: block_region)
    have "block (i, start) \<inter> free_mem A = {}"
      using Suc.prems(3) unfolding len' region_split block_region by blast
    then have "no_overlap ?A" using Suc.prems(2) by (rule no_overlap_add [rotated])
    moreover have "region (start + PAGES i) m \<inter> free_mem ?A = {}"
      using Suc.prems(3) region_disjoint [of start "PAGES i" m]
      unfolding free len' region_split by blast
    ultimately show ?thesis
      using Suc.IH [of "pages div 2" ?A "start + PAGES i" "Suc i"] Suc.prems True
      unfolding up len' region_split free by (simp add: m_def Un_ac free)
  qed
qed


lemma no_overlap_pop:
  assumes "no_overlap A" and "A i = a # as"
  shows "no_overlap (A(i := as))" and "block (i, a) \<inter> free_mem (A(i := as)) = {}"
    and "free_mem A = block (i, a) \<union> free_mem (A(i := as))"
proof -
  have d: "distinct (a # as)" using assms unfolding no_overlap_def by metis
  have sub: "free_blocks (A(i := as)) = free_blocks A - {(i, a)}"
    using assms(2) d by (auto simp: free_blocks_def split: if_splits)
  have "(i, a) \<in> free_blocks A" using assms(2) by (simp add: free_blocks_def)
  then have "block (i, a) \<inter> block y = {}" if "y \<in> free_blocks A - {(i, a)}" for y
    using assms(1) that unfolding no_overlap_def by blast
  then show "block (i, a) \<inter> free_mem (A(i := as)) = {}"
    unfolding free_mem_def sub by blast
  show "free_mem A = block (i, a) \<union> free_mem (A(i := as))"
    using \<open>(i, a) \<in> free_blocks A\<close> unfolding free_mem_def sub by blast
  have "\<forall>j. distinct ((A(i := as)) j)" using assms(1) d by (simp add: no_overlap_def)
  then show "no_overlap (A(i := as))"
    using assms(1) sub unfolding no_overlap_def by blast
qed

lemma pow_le_512: "n \<le> 9 \<Longrightarrow> (2::'a::linordered_semidom) ^ n \<le> 512"
  using power_increasing [of n 9 "2::'a"] by simp

text \<open>What the abstract allocator does to the memory: it splits off the block it returns.\<close>

lemma return_rest:
  assumes "no_overlap A" and "order \<le> give" and "give \<le> 9"
    and "block (give, a) \<inter> free_mem A = {}"
  defines "A' \<equiv> add_areas (bit_areas [0..<9] (a + PAGES order) (2 ^ give - 2 ^ order)) A"
  shows "no_overlap A'" and "free_mem A' = region (a + PAGES order) (PAGES give - PAGES order) \<union> free_mem A"
    and "block (order, a) \<inter> free_mem A' = {}"
    and "block (give, a) \<union> free_mem A = block (order, a) \<union> free_mem A'"
proof -
  have le: "(2::nat) ^ order \<le> 2 ^ give" "(2::nat) ^ give \<le> 2 ^ 9"
    using assms(2,3) pow_le_512 by (auto intro: power_increasing)
  have n: "nat (2 ^ give - 2 ^ order) = 2 ^ give - 2 ^ order"
    using le by (simp add: nat_diff_distrib nat_power_eq)
  have "(2::nat) ^ give - 2 ^ order < 2 ^ 9"
    using le zero_less_power [of "2::nat" order] by linarith
  then have r: "PAGES 0 * (nat (2 ^ give - 2 ^ order) mod 2 ^ 9) = PAGES give - PAGES order"
    unfolding n by (simp add: PAGES_def diff_mult_distrib2)
  have len: "PAGES give = PAGES order + (PAGES give - PAGES order)"
    using le by (simp add: PAGES_def)
  have b: "block (give, a) = block (order, a) \<union> region (a + PAGES order) (PAGES give - PAGES order)"
    unfolding block_region by (subst len) (rule region_split)
  have nn: "(0::int) \<le> 2 ^ give - 2 ^ order"
    using assms(2) by (simp add: power_increasing)
  have "no_overlap A' \<and> free_mem A' = region (a + PAGES order) (PAGES give - PAGES order) \<union> free_mem A"
    using add_bit_areas [OF nn assms(1), of "a + PAGES order" 0 9] assms(4)
    unfolding A'_def r b by auto
  then show "no_overlap A'" and
    f: "free_mem A' = region (a + PAGES order) (PAGES give - PAGES order) \<union> free_mem A" by auto
  show "block (order, a) \<inter> free_mem A' = {}"
  proof -
    have "block (order, a) \<inter> free_mem A = {}" using assms(4) b by auto
    then show ?thesis
      using region_disjoint [of a "PAGES order" "PAGES give - PAGES order"]
      unfolding f block_region by auto
  qed
  show "block (give, a) \<union> free_mem A = block (order, a) \<union> free_mem A'"
    unfolding f b by auto
qed

lemma spec_alloc_memory:
  assumes "spec_alloc order A = Some (a, A')" and "no_overlap A"
  shows "no_overlap A'" and "block (order, a) \<inter> free_mem A' = {}"
    and "free_mem A = block (order, a) \<union> free_mem A'"
proof -
  obtain give A1 where s: "spec_from [order..<10] A = Some (a, give, A1)"
      "A' = add_areas (bit_areas [0..<9] (a + PAGES order) (2 ^ give - 2 ^ order)) A1"
    using assms(1) by (auto simp: spec_alloc_def)
  from spec_from_SomeD [OF s(1)] obtain as where g: "give \<in> {order..<10}" "A give = a # as"
      "A1 = A(give := as)" by auto
  note p = no_overlap_pop [OF assms(2) g(2), folded g(3)]
  from g have "order \<le> give" "give \<le> 9" by auto
  note r = return_rest [OF p(1) this p(2), folded s(2)]
  show "no_overlap A'" "block (order, a) \<inter> free_mem A' = {}" by (fact r)+
  show "free_mem A = block (order, a) \<union> free_mem A'" using p(3) r(4) by simp
qed

lemma length_bit_areas: "length (bit_areas is start pages) \<le> length is"
  by (induction "is" arbitrary: start pages) (auto intro: le_SucI)

text \<open>Returning the rest of a block of at most \<open>2 ^ 9\<close> pages, with nine slots in the heap.\<close>

lemma return_pages_slots:
  assumes "pmm_inv km xs A" and "9 \<le> slots xs" and "order \<le> give" and "give \<le> 9"
  shows "\<exists>km' ys k. return_pages_with (kmalloc (Suc n)) a (2 ^ give - 2 ^ order) km = Some km'
    \<and> pmm_inv km' ys (add_areas (bit_areas [0..<9] a (2 ^ give - 2 ^ order)) A)
    \<and> k \<le> 9 \<and> fits k xs ys"
proof -
  let ?p = "(2::int) ^ give - 2 ^ order"
  have le: "(2::int) ^ order \<le> 2 ^ give" "(2::int) ^ give \<le> 2 ^ 9" "(0::int) < 2 ^ order"
    using assms(3,4) pow_le_512 by (auto intro: power_increasing)
  then have "?p < 2 ^ 9" "0 \<le> ?p" by linarith+
  then have "?p div 2 ^ 9 = 0" by simp
  moreover have l: "length (bit_areas [0..<9] a ?p) \<le> 9" using length_bit_areas [of "[0..<9]"] by simp
  ultimately show ?thesis
    using return_bits_slots [OF assms(1), of "[0..<9]" a ?p n] assms(2)
    by (fastforce simp: return_pages_with_def MAX_ORDER_def)
qed

lemma fits_slots: "fits k xs ys \<Longrightarrow> slots xs = slots ys + k"
proof (induction rule: fits.induct)
  case (fits_0 xs)
  then show ?case by simp
next
  case (fits_Suc xs a ys k zs)
  have "0 < slots xs"
  proof (rule ccontr)
    assume "\<not> 0 < slots xs"
    moreover obtain pre sz post where "xs = pre @ (a, sz, False) # post" "64 \<le> sz"
      using fit_SomeD [OF fits_Suc.hyps(1)] by blast
    ultimately show False by (auto simp: div_eq_0_iff)
  qed
  with slots_fit [of xs] fits_Suc show ?case by auto
qed

lemma alloc_pages_spec:
  assumes "pmm_inv km xs A" and "9 \<le> slots xs" and "spec_alloc order A = Some (a, A')"
  shows "\<exists>km' ys. alloc_pages (Suc n) order km = Some (a, km') \<and> pmm_inv km' ys A'
    \<and> slots xs \<le> slots ys + 9"
proof -
  obtain give A1 where s: "spec_from [order..<10] A = Some (a, give, A1)"
      "A' = add_areas (bit_areas [0..<9] (a + PAGES order) (2 ^ give - 2 ^ order)) A1"
    using assms(3) by (auto simp: spec_alloc_def)
  obtain km1 where k: "alloc_free_pages order km = Some (a, give, km1)" "pmm_inv km1 xs A1"
    using alloc_from_Some [OF assms(1) s(1)] by (auto simp: alloc_free_pages_def MAX_ORDER_def)
  have "order \<le> give" "give \<le> 9" using spec_from_SomeD [OF s(1)] by auto
  then obtain km' ys k where r: "return_pages_with (kmalloc (Suc n)) (a + PAGES order)
      (2 ^ give - 2 ^ order) km1 = Some km'" "pmm_inv km' ys A'" "k \<le> 9" "fits k xs ys"
    using return_pages_slots [OF k(2) assms(2), of order give n "a + PAGES order"] s(2) by auto
  moreover have "slots xs \<le> slots ys + 9" using fits_slots [OF r(4)] r(3) by simp
  ultimately show ?thesis using k(1) by (auto simp: alloc_pages_def return_pages_def)
qed

section \<open>Counting and aligning free pages\<close>

definition npages :: "free_lists \<Rightarrow> nat" where
  "npages A = (\<Sum>i<10. length (A i) * 2 ^ i)"

definition aligned :: "free_lists \<Rightarrow> bool" where
  "aligned A \<longleftrightarrow> (\<forall>(i, a)\<in>free_blocks A. MEMUNIT_SZ dvd a)"

lemma npages_upd:
  assumes "i < 10"
  shows "npages (A(i := as)) + length (A i) * 2 ^ i = npages A + length as * 2 ^ i"
proof -
  have "npages B = (\<Sum>j\<in>{..<10} - {i}. length (B j) * 2 ^ j) + length (B i) * 2 ^ i" for B
    unfolding npages_def using sum.remove [of "{..<10}" i] assms by (simp add: add.commute)
  note n = this
  have "(\<Sum>j\<in>{..<10} - {i}. length ((A(i := as)) j) * 2 ^ j) = (\<Sum>j\<in>{..<10} - {i}. length (A j) * 2 ^ j)"
    by (rule sum.cong) auto
  then show ?thesis using n [of "A(i := as)"] n [of A] by simp
qed

lemma npages_add: "i < 10 \<Longrightarrow> npages (spec_add (i, a) A) = npages A + 2 ^ i"
  using npages_upd [of i A "A i @ [a]"] by (simp add: spec_add_def)

lemma npages_bit_areas:
  "0 \<le> pages \<Longrightarrow> i + n \<le> 10 \<Longrightarrow> npages (add_areas (bit_areas [i..<i + n] s pages) A) =
     npages A + 2 ^ i * (nat pages mod 2 ^ n)"
proof (induction n arbitrary: i s pages A)
  case 0
  then show ?case by simp
next
  case (Suc n)
  have up: "[i..<i + Suc n] = i # [Suc i..<Suc i + n]" by (simp add: upt_conv_Cons)
  have half: "nat (pages div 2) = nat pages div 2" using Suc.prems(1) by (simp add: nat_div_distrib)
  have m: "nat pages mod 2 ^ Suc n = 2 * (nat pages div 2 mod 2 ^ n) + nat pages mod 2"
    by (simp add: mod_mult2_eq)
  have ev: "nat pages mod 2 = (if odd pages then 1 else 0)"
    using Suc.prems(1) by (auto simp: even_nat_iff mod_2_eq_odd)
  show ?case
    using Suc.IH [of "pages div 2" "Suc i"] Suc.prems
    unfolding up m ev half by (auto simp: npages_add algebra_simps)
qed

lemma bit_areas_aligned: "MEMUNIT_SZ dvd s \<Longrightarrow> (j, b) \<in> set (bit_areas is s p) \<Longrightarrow> MEMUNIT_SZ dvd b"
proof (induction "is" arbitrary: s p)
  case Nil
  then show ?case by simp
next
  case (Cons i "is")
  have "MEMUNIT_SZ dvd s + PAGES i" using Cons.prems(1) by (simp add: PAGES_def)
  with Cons show ?case by (auto split: if_splits)
qed

lemma free_blocks_add_areas: "free_blocks (add_areas bs A) = set bs \<union> free_blocks A"
  by (induction bs arbitrary: A) auto

text \<open>A block of order 0 exists as long as a page is free, and taking it leaves one page less.\<close>

lemma spec_alloc_page:
  assumes "0 < npages A" and "aligned A"
  shows "\<exists>a A'. spec_alloc 0 A = Some (a, A') \<and> npages A = Suc (npages A') \<and> aligned A' \<and> MEMUNIT_SZ dvd a"
proof -
  have "spec_from [0..<10] A \<noteq> None"
  proof
    assume "spec_from [0..<10] A = None"
    then have "\<forall>i<10. A i = []" unfolding spec_from_None by simp
    then have "npages A = 0" by (simp add: npages_def)
    with assms(1) show False by simp
  qed
  then obtain a give A1 where s: "spec_from [0..<10] A = Some (a, give, A1)" by (metis not_None_eq prod_cases3)
  from spec_from_SomeD [OF s] obtain as where g: "give < 10" "A give = a # as" "A1 = A(give := as)" by auto
  let ?A = "add_areas (bit_areas [0..<9] (a + PAGES 0) (2 ^ give - 2 ^ 0)) A1"
  have "(give, a) \<in> free_blocks A" using g(2) by (simp add: free_blocks_def)
  then have a: "MEMUNIT_SZ dvd a" using assms(2) unfolding aligned_def by blast
  have "npages A1 + 2 ^ give = npages A" using npages_upd [of give A as] g by simp
  moreover have "(2::nat) ^ give \<le> 512" using g(1) by (intro pow_le_512) simp
  then have "nat (2 ^ give - 1) mod 2 ^ 9 = 2 ^ give - 1"
    by (simp add: nat_diff_distrib nat_power_eq)
  then have "npages ?A = npages A1 + (2 ^ give - 1)"
    using npages_bit_areas [of "2 ^ give - 1" 0 9 "a + PAGES 0" A1] by simp
  ultimately have "npages A = Suc (npages ?A)" using assms(1) by simp
  moreover have "MEMUNIT_SZ dvd a + PAGES 0" using a by (simp add: PAGES_def)
  then have "aligned ?A"
  proof -
    have "free_blocks A1 \<subseteq> free_blocks A"
      unfolding g(3) by (auto simp: free_blocks_def g(2) split: if_splits)
    then show ?thesis
      using assms(2) bit_areas_aligned [OF \<open>MEMUNIT_SZ dvd a + PAGES 0\<close>]
      unfolding aligned_def free_blocks_add_areas by blast
  qed
  ultimately show ?thesis using s a by (auto simp: spec_alloc_def)
qed

section \<open>Growing the heap\<close>

lemma heap_grow:
  assumes g: "segs_from h NULL p xs NULL" and "xs \<noteq> []" and d: "distinct (map fst (xs @ [(b, z, False)]))"
    and "b \<noteq> NULL"
  shows "\<exists>c. h (last_addr NULL xs) = Some c \<and> last_addr NULL xs \<noteq> b \<and>
    segs_from (h(b \<mapsto> \<lparr>seg_size = z, seg_used = False, seg_next = NULL, seg_last = last_addr NULL xs\<rparr>,
      last_addr NULL xs \<mapsto> c\<lparr>seg_next := b\<rparr>)) NULL p (xs @ [(b, z, False)]) NULL"
proof -
  obtain ys l sl v where x: "xs = ys @ [(l, sl, v)]"
    using assms(2) by (metis rev_exhaust prod_cases3)
  from g x obtain c where c: "h l = Some c" "l \<noteq> NULL" "seg_size c = sl" "seg_used c = v"
      "seg_last c = last_addr NULL ys" "segs_from h NULL p ys l"
    by (auto simp: segs_from_append split: option.splits)
  have "l \<notin> addrs ys" "b \<notin> addrs ys" "l \<noteq> b"
    using d x by (auto simp: addrs_def)
  with c x assms(4) show ?thesis by (auto simp: segs_from_append)
qed

definition has_free :: "nat \<Rightarrow> seg list \<Rightarrow> bool" where
  "has_free m xs \<longleftrightarrow> (\<exists>a sz. (a, sz, False) \<in> set xs \<and> m \<le> sz)"

lemma has_free_fit: "fit m xs \<noteq> None \<longleftrightarrow> has_free m xs"
  unfolding fit_None unfit_def has_free_def list_all_iff by (fastforce simp: not_less)

lemma fit_has_free:
  assumes "fit 64 xs = Some (a, ys)" and "has_free (m + 64) xs" and "64 \<le> m"
  shows "has_free m ys"
proof -
  obtain pre sz post where x: "xs = pre @ (a, sz, False) # post" "64 \<le> sz"
      "ys = pre @ carve 64 a sz @ post"
    using fit_SomeD [OF assms(1)] by blast
  from assms(2) x obtain b s where b: "(b, s, False) \<in> set pre \<union> {(a, sz, False)} \<union> set post"
      "m + 64 \<le> s"
    by (auto simp: has_free_def)
  show ?thesis
  proof (cases "(b, s, False) = (a, sz, False)")
    case False
    with b have "(b, s, False) \<in> set ys" using x by auto
    with b show ?thesis unfolding has_free_def by (intro exI [of _ b] exI [of _ s]) simp
  next
    case True
    with b assms(3) have "(a + 64, sz - 64, False) \<in> set ys" "m \<le> sz - 64"
      by (auto simp: x(3) carve_def MIN_SEG_SIZE_def)
    then show ?thesis unfolding has_free_def by blast
  qed
qed


lemma fits_keeps:
  assumes "fits k xs ys" and "layout xs"
  shows "layout ys \<and> total_size ys = total_size xs \<and> used_blocks xs \<subseteq> used_blocks ys
    \<and> (64 \<le> m \<longrightarrow> has_free (m + 64 * k) xs \<longrightarrow> has_free m ys)"
  using assms
proof (induction arbitrary: m)
  case (fits_0 xs)
  then show ?case by simp
next
  case (fits_Suc xs a ys k zs)
  note f = fit_keeps [OF fits_Suc.hyps(1) fits_Suc.prems]
  have "64 \<le> m \<Longrightarrow> has_free (m + 64 * Suc k) xs \<Longrightarrow> has_free (m + 64 * k) ys"
    using fit_has_free [OF fits_Suc.hyps(1), of "m + 64 * k"] by (simp add: algebra_simps)
  with fits_Suc.IH [of m] f show ?case by auto
qed

lemma join_last_new:
  assumes "layout (xs @ [(b, z, False)])" and "xs \<noteq> []"
  shows "layout (join_last xs [(b, z, False)])" and "join_last xs [(b, z, False)] \<noteq> []"
    and "used_blocks (join_last xs [(b, z, False)]) = used_blocks xs"
    and "total_size (join_last xs [(b, z, False)]) = total_size xs + z"
    and "z div 64 \<le> slots (join_last xs [(b, z, False)])"
    and "has_free z (join_last xs [(b, z, False)])"
proof -
  obtain ys l sl v where x: "xs = ys @ [(l, sl, v)]"
    using assms(2) by (metis rev_exhaust prod_cases3)
  show "layout (join_last xs [(b, z, False)])" by (rule join_last_keeps(1) [OF assms(1)])
  show "used_blocks (join_last xs [(b, z, False)]) = used_blocks xs"
    "total_size (join_last xs [(b, z, False)]) = total_size xs + z"
    using join_last_keeps(2,3) [OF assms(1)] by simp_all
  show "join_last xs [(b, z, False)] \<noteq> []" using x by (simp add: join_last_def)
  show "z div 64 \<le> slots (join_last xs [(b, z, False)])"
    using x by (auto simp: join_last_def div_le_mono trans_le_add2)
  show "has_free z (join_last xs [(b, z, False)])"
    using x by (auto simp: join_last_def has_free_def intro: exI [of _ l] exI [of _ "sl + z"])
      (auto intro: le_add2)
qed

lemma pmm_inv_segs:
  assumes "pmm_inv km xs A" and "heap_ok (km\<lparr>segs := h\<rparr>) ys" and "used_blocks xs \<subseteq> used_blocks ys"
  shows "pmm_inv (km\<lparr>segs := h\<rparr>) ys A"
proof -
  obtain ns where ns: "nodes_ok km ns" "nodes_in ns xs" "\<forall>i. map (aaddr km) (ns i) = A i"
    using assms(1) by (auto simp: pmm_inv_def)
  have "aaddr (km\<lparr>segs := h\<rparr>) = aaddr km" by (auto simp: aaddr_def)
  moreover have "nodes_in ns ys" using ns(2) assms(3) unfolding nodes_in_def by blast
  ultimately show ?thesis
    using ns assms(2) by (auto simp: pmm_inv_def nodes_ok_def)
qed

text \<open>The first part of the slow path: the new segment is linked at the end and combined.\<close>

lemma grow_heap:
  assumes inv: "pmm_inv km xs A" and nofit: "fit n xs = None"
    and s: "spec_from [6..<10] A = Some (b, give, A1)" and b: "b \<noteq> NULL"
    and lay: "layout (xs @ [(b, PAGES 6, False)])"
  shows "\<exists>cur c km1 e h. find_seg (segs km) n (start_addr km) = Some cur \<and> segs km cur = Some c
    \<and> cur \<noteq> b \<and> (seg_size c < n \<or> seg_used c)
    \<and> alloc_free_pages 6 km = Some (b, give, km1) \<and> segs km1 = segs km
    \<and> do_combine ((segs km)(b \<mapsto> \<lparr>seg_size = PAGES 6, seg_used = False, seg_next = NULL, seg_last = cur\<rparr>,
         cur \<mapsto> c\<lparr>seg_next := b\<rparr>)) b = Some (e, h)
    \<and> pmm_inv (km1\<lparr>segs := h\<rparr>) (join_last xs [(b, PAGES 6, False)]) A1"
proof -
  have g: "segs_from (segs km) NULL (start_addr km) xs NULL" and xs: "xs \<noteq> []"
    using inv by (auto simp: pmm_inv_def heap_ok_def)
  define cur where "cur = last_addr NULL xs"
  have f: "find_seg (segs km) n (start_addr km) = Some cur"
    using find_seg_fit [OF g xs, of n] nofit by (simp add: cur_def)
  obtain km1 where k1: "alloc_free_pages 6 km = Some (b, give, km1)"
      "pmm_inv km1 xs A1" "start_addr km1 = start_addr km" "segs km1 = segs km"
    using alloc_from_Some [OF inv s] by (auto simp: alloc_free_pages_def MAX_ORDER_def)
  note d = layout_distinct [OF lay]
  obtain c where c: "segs km cur = Some c" "cur \<noteq> b" and
    g1: "segs_from ((segs km)(b \<mapsto> \<lparr>seg_size = PAGES 6, seg_used = False, seg_next = NULL,
        seg_last = cur\<rparr>, cur \<mapsto> c\<lparr>seg_next := b\<rparr>)) NULL (start_addr km) (xs @ [(b, PAGES 6, False)]) NULL"
    using heap_grow [OF g xs d b] unfolding cur_def by blast
  have bad: "seg_size c < n \<or> seg_used c"
  proof -
    obtain ys l sl v where x: "xs = ys @ [(l, sl, v)]" using xs by (metis rev_exhaust prod_cases3)
    then have "cur = l" by (simp add: cur_def)
    with g x c have "seg_size c = sl" "seg_used c = v" by (auto simp: segs_from_append)
    with nofit x show ?thesis by (auto simp: fit_None)
  qed
  note new = join_last_new [OF lay xs]
  from do_combine_release [OF g1 d] obtain e h where
    h: "do_combine ((segs km)(b \<mapsto> \<lparr>seg_size = PAGES 6, seg_used = False, seg_next = NULL,
        seg_last = cur\<rparr>, cur \<mapsto> c\<lparr>seg_next := b\<rparr>)) b = Some (e, h)"
      "segs_from h NULL (start_addr km) (join_last xs [(b, PAGES 6, False)]) NULL"
    unfolding join_next.simps by blast
  have "pmm_inv (km1\<lparr>segs := h\<rparr>) (join_last xs [(b, PAGES 6, False)]) A1"
    by (rule pmm_inv_segs [OF k1(2)]) (use h new k1 in \<open>auto simp: heap_ok_def\<close>)
  with f c bad k1 h show ?thesis by blast
qed

text \<open>The retry, after at most nine nodes were taken from a heap with a large free segment.\<close>

lemma kmalloc_retry:
  assumes inv: "pmm_inv km zs A" and fits: "fits k ys zs" "k \<le> 9" and ly: "layout ys" "has_free (PAGES 6) ys"
    and small: "unat sz + 24 \<le> 261504"
  shows "\<exists>a ws h size. kmalloc (Suc n) sz km = Some (a + SEG_INFO_SZ, km\<lparr>segs := h\<rparr>)
    \<and> pmm_inv (km\<lparr>segs := h\<rparr>) ws A \<and> total_size ws = total_size ys
    \<and> insert (a, size) (used_blocks ys) \<subseteq> used_blocks ws \<and> (\<forall>t. (a, t) \<notin> used_blocks ys)
    \<and> unat sz + SEG_INFO_SZ \<le> size"
proof -
  have rb: "unat sz + 24 \<le> request sz" "request sz < unat sz + 88" "0 < request sz" "64 dvd request sz"
    using request_bounds [of sz] small by auto
  note k = fits_keeps [OF fits(1) ly(1)]
  have "64 \<le> request sz" using rb(3,4) by (auto dest: dvd_imp_le)
  moreover have "has_free (request sz + 64 * k) ys"
    using ly(2) rb(2) small fits(2) unfolding has_free_def PAGES_def
    by (elim exE conjE) (intro exI conjI, assumption, simp)
  ultimately have "has_free (request sz) zs" using k by blast
  then obtain a ws where w: "fit (request sz) zs = Some (a, ws)"
    using has_free_fit by fastforce
  have hz: "heap_ok km zs" "layout zs" using inv by (auto simp: pmm_inv_def heap_ok_def)
  obtain h where h: "kmalloc (Suc n) sz km = Some (a + SEG_INFO_SZ, km\<lparr>segs := h\<rparr>)"
      "heap_ok (km\<lparr>segs := h\<rparr>) ws"
    using kmalloc_fast [OF hz(1) w rb(3)] by blast
  note fw = fit_keeps [OF w hz(2) rb(3)]
  then obtain size where size: "request sz \<le> size" "used_blocks ws = insert (a, size) (used_blocks zs)"
    by blast
  have "pmm_inv (km\<lparr>segs := h\<rparr>) ws A"
    by (rule pmm_inv_segs [OF inv h(2)]) (use size in auto)
  moreover have "(a, t) \<notin> used_blocks ys" for t
    using fit_fresh [OF w hz(2)] k by blast
  moreover have "insert (a, size) (used_blocks ys) \<subseteq> used_blocks ws"
    using k size(2) by blast
  moreover have "total_size ws = total_size ys" using fw(2) k by simp
  moreover have "unat sz + SEG_INFO_SZ \<le> size" using rb(1) size(1) by (simp add: SEG_INFO_SZ_def)
  ultimately show ?thesis using h(1) by blast
qed

text \<open>
  When no segment fits, the heap grows by the 256 KB of a free area, the rest of the area goes
  back, and the retry succeeds: for a request that leaves room for the nodes this needs.
\<close>

lemma kmalloc_grow:
  assumes inv: "pmm_inv km xs A" and nofit: "fit (request sz) xs = None"
    and s: "spec_from [6..<10] A = Some (b, give, A1)" and b: "b \<noteq> NULL"
    and lay: "layout (xs @ [(b, PAGES 6, False)])"
    and small: "unat sz + 48 \<le> 261504"
  defines "A' \<equiv> add_areas (bit_areas [0..<9] (b + PAGES 6) (2 ^ give - 2 ^ 6)) A1"
  shows "\<exists>a km' ys size. kmalloc (Suc (Suc n)) sz km = Some (a + SEG_INFO_SZ, km') \<and> pmm_inv km' ys A'
    \<and> total_size ys = total_size xs + PAGES 6
    \<and> insert (a, size) (used_blocks xs) \<subseteq> used_blocks ys \<and> (\<forall>t. (a, t) \<notin> used_blocks xs)
    \<and> unat sz + SEG_INFO_SZ \<le> size"
proof -
  obtain cur c km1 e h where gr: "find_seg (segs km) (request sz) (start_addr km) = Some cur"
      "segs km cur = Some c" "cur \<noteq> b" "seg_size c < request sz \<or> seg_used c"
      "alloc_free_pages 6 km = Some (b, give, km1)" "segs km1 = segs km"
      "do_combine ((segs km)(b \<mapsto> \<lparr>seg_size = PAGES 6, seg_used = False, seg_next = NULL, seg_last = cur\<rparr>,
         cur \<mapsto> c\<lparr>seg_next := b\<rparr>)) b = Some (e, h)"
    and inv2: "pmm_inv (km1\<lparr>segs := h\<rparr>) (join_last xs [(b, PAGES 6, False)]) A1"
    using grow_heap [OF inv nofit s b lay] by blast
  have xs: "xs \<noteq> []" using inv by (auto simp: pmm_inv_def heap_ok_def)
  note new = join_last_new [OF lay xs]
  have slots: "9 \<le> slots (join_last xs [(b, PAGES 6, False)])" using new(5) by (simp add: PAGES_def)
  have "6 \<le> give" "give \<le> 9" using spec_from_SomeD [OF s] by auto
  then obtain km2 zs k where r: "return_pages_with (kmalloc (Suc n)) (b + PAGES 6)
      (2 ^ give - 2 ^ 6) (km1\<lparr>segs := h\<rparr>) = Some km2" "pmm_inv km2 zs A'" "k \<le> 9"
      "fits k (join_last xs [(b, PAGES 6, False)]) zs"
    using return_pages_slots [OF inv2 slots, of 6 give n "b + PAGES 6"] unfolding A'_def by blast
  have u: "unat (sz + 24) = unat sz + 24"
    using small by (simp add: unat_word_ariths)
  then have "unat (sz + 24) + 24 \<le> 261504" using small by simp
  from kmalloc_retry [OF r(2) r(4) r(3) new(1) new(6) this, of n] obtain a ws h3 size where
    w: "kmalloc (Suc n) (sz + 24) km2 = Some (a + SEG_INFO_SZ, km2\<lparr>segs := h3\<rparr>)"
      "pmm_inv (km2\<lparr>segs := h3\<rparr>) ws A'" "total_size ws = total_size xs + PAGES 6"
      "insert (a, size) (used_blocks xs) \<subseteq> used_blocks ws" "\<forall>t. (a, t) \<notin> used_blocks xs"
      "unat (sz + 24) + SEG_INFO_SZ \<le> size"
    unfolding new(3,4) by blast
  have "kmalloc (Suc (Suc n)) sz km = Some (a + SEG_INFO_SZ, km2\<lparr>segs := h3\<rparr>)"
    using gr b r(1) w(1) by (simp add: kmalloc.simps(2) [of "Suc n"] request_def [symmetric] ALLOC_PAGE_ORDER_def SEG_INFO_SZ_def)
  with w u show ?thesis
    by (intro exI [of _ a] exI [of _ "km2\<lparr>segs := h3\<rparr>"] exI [of _ ws] exI [of _ size]) simp
qed

section \<open>Without a free block\<close>

lemma alloc_pages_exhausted_spec:
  assumes inv: "pmm_inv km xs A" and "9 \<le> slots xs" and none: "spec_from [order..<10] A = None"
    and "0 < order" "order \<le> 9"
  shows "\<exists>km' ys. alloc_pages (Suc n) order km = Some (NULL, km') \<and>
    pmm_inv km' ys (add_areas (bit_areas [0..<9] (PAGES order) (1 - 2 ^ order)) A)"
proof -
  have k: "alloc_free_pages order km = Some (NULL, 0, km)"
    using alloc_from_None [OF inv none] by (simp add: alloc_free_pages_def MAX_ORDER_def)
  have "(2::int) ^ order \<le> 512" "(2::int) ^ 1 \<le> 2 ^ order"
    using assms(4,5) pow_le_512 [of order, where 'a = int] power_increasing [of 1 order "2::int"] by auto
  then have d: "(1 - 2 ^ order) div 2 ^ 9 = (-1::int)"
    by (intro int_div_pos_eq [of _ _ _ "513 - 2 ^ order"]) auto
  have "length (bit_areas [0..<9] (PAGES order) (1 - 2 ^ order)) \<le> slots xs"
    using length_bit_areas [of "[0..<9]" "PAGES order" "1 - 2 ^ order"] assms(2) by simp
  from return_bits_slots [OF inv this, of n] obtain s p km' ys where
    r: "return_bits (kmalloc (Suc n)) [0..<9] (PAGES order) (1 - 2 ^ order) km = Some (s, p, km')"
      "p = (1 - 2 ^ order) div 2 ^ length [0..<9]"
      "pmm_inv km' ys (add_areas (bit_areas [0..<9] (PAGES order) (1 - 2 ^ order)) A)"
    by blast
  have "p = -1" using r(2) d by simp
  then have "alloc_pages (Suc n) order km = Some (NULL, km')"
    using k r(1) by (simp add: alloc_pages_def return_pages_def return_pages_with_def MAX_ORDER_def)
  with r(3) show ?thesis by blast
qed

lemma add_areas_mono: "a \<in> set (A i) \<Longrightarrow> a \<in> set (add_areas bs A i)"
  by (induction bs arbitrary: A) (auto simp: spec_add_def split: prod.splits)

lemma add_areas_mem: "(i, a) \<in> set bs \<Longrightarrow> a \<in> set (add_areas bs A i)"
  by (induction bs arbitrary: A) (auto simp: spec_add_def add_areas_mono split: prod.splits)

section \<open>The areas of init_pmm\<close>

fun init_areas :: "nat list \<Rightarrow> ptr \<Rightarrow> nat \<Rightarrow> (nat \<times> ptr) list" where
  "init_areas [] start pages = []"
| "init_areas (i # is) start pages =
     (if odd pages then (i, start) # init_areas is (start + PAGES 1) (pages div 2)
      else init_areas is start (pages div 2))"

lemma init_bits_slots:
  assumes "pmm_inv km xs A" and "length (init_areas is start pages) \<le> slots xs"
  shows "\<exists>start' km' ys. init_bits (kmalloc (Suc n)) is start pages km = Some (start', pages div 2 ^ length is, km')
    \<and> pmm_inv km' ys (add_areas (init_areas is start pages) A)
    \<and> slots ys + length (init_areas is start pages) = slots xs"
  using assms
proof (induction "is" arbitrary: start pages km xs A)
  case Nil
  then show ?case by auto
next
  case (Cons i "is")
  have dd: "pages div 2 div 2 ^ length is = pages div (2 * 2 ^ length is)"
    by (simp add: div_mult2_eq)
  show ?case
  proof (cases "odd pages")
    case False
    with Cons.IH [OF Cons.prems(1), of start "pages div 2"] Cons.prems(2) dd show ?thesis by simp
  next
    case True
    with Cons.prems(2) have "0 < slots xs" by simp
    then obtain km1 a ys where s: "add_free_area (kmalloc (Suc n)) i start km = Some km1"
        "pmm_inv km1 ys (spec_add (i, start) A)" "Suc (slots ys) = slots xs"
      using add_free_area_slot [OF Cons.prems(1)] by metis
    have l: "length (init_areas is (start + PAGES 1) (pages div 2)) \<le> slots ys"
      using Cons.prems(2) s(3) True by simp
    from Cons.IH [OF s(2) l] True s(1,3) dd show ?thesis by fastforce
  qed
qed

lemma length_init_areas: "length (init_areas is start pages) \<le> length is"
  by (induction "is" arbitrary: start pages) (auto intro: le_SucI)

lemma return_max_slots:
  assumes "pmm_inv km xs A" and "k \<le> slots xs"
  shows "\<exists>km' ys B. return_max (kmalloc (Suc n)) k start km = Some km' \<and> pmm_inv km' ys (add_areas B A)"
  using assms
proof (induction k arbitrary: start km xs A)
  case 0
  then show ?case by (intro exI [of _ km] exI [of _ xs] exI [of _ "[]"], simp)
next
  case (Suc k)
  then have "0 < slots xs" by simp
  then obtain km1 a ys where s: "add_free_area (kmalloc (Suc n)) MAX_ORDER start km = Some km1"
      "pmm_inv km1 ys (spec_add (MAX_ORDER, start) A)" "Suc (slots ys) = slots xs"
    using add_free_area_slot [OF Suc.prems(1)] by metis
  have "k \<le> slots ys" using Suc.prems(2) s(3) by simp
  from Suc.IH [OF s(2) this, of "start + PAGES MAX_ORDER"] obtain km' zs B where
    "return_max (kmalloc (Suc n)) k (start + PAGES MAX_ORDER) km1 = Some km'"
    "pmm_inv km' zs (add_areas ((MAX_ORDER, start) # B) A)" by auto
  with s(1) show ?case by (simp del: add_areas_simps) blast
qed

lemma init_areas_hd: "init_areas is s p = (j, b) # bs \<Longrightarrow> b = s \<and> j \<in> set is"
  by (induction "is" arbitrary: p) (auto split: if_splits)

lemma init_areas_nonempty: "k < length is \<Longrightarrow> odd (p div 2 ^ k) \<Longrightarrow> init_areas is s p \<noteq> []"
proof (induction "is" arbitrary: p k s)
  case Nil
  then show ?case by simp
next
  case (Cons i "is")
  then show ?case by (cases k) (auto simp: div_mult2_eq)
qed

text \<open>The area after that of order \<open>i\<close> starts 8192 bytes above it.\<close>

lemma init_areas_next:
  assumes "m \<le> i" "i < j" "j < m + n" and "odd (p div 2 ^ (i - m))" "odd (p div 2 ^ (j - m))"
  shows "\<exists>a j'. (i, a) \<in> set (init_areas [m..<m + n] s p) \<and> (j', a + PAGES 1) \<in> set (init_areas [m..<m + n] s p)
    \<and> i < j'"
  using assms
proof (induction n arbitrary: m s p)
  case 0
  then show ?case by simp
next
  case (Suc n)
  have up: "[m..<m + Suc n] = m # [Suc m..<Suc m + n]" by (simp add: upt_conv_Cons)
  have half: "odd (p div 2 div 2 ^ (k - Suc m)) = odd (p div 2 ^ (k - m))" if "m < k" for k
    using that by (metis Suc_diff_Suc div_mult2_eq power_Suc)
  show ?case
  proof (cases "i = m")
    case True
    with Suc.prems(4) have "odd p" by simp
    let ?rest = "init_areas [Suc m..<Suc m + n] (s + PAGES 1) (p div 2)"
    have "?rest \<noteq> []"
      using Suc.prems half [of j] True by (intro init_areas_nonempty [of "j - Suc m"]) auto
    then obtain j' b bs where r: "?rest = (j', b) # bs" by (metis list.exhaust surj_pair)
    then have "b = s + PAGES 1" "j' \<in> set [Suc m..<Suc m + n]" using init_areas_hd by blast+
    moreover have "init_areas [m..<m + Suc n] s p = (m, s) # (j', b) # bs"
      unfolding up using r \<open>odd p\<close> by simp
    ultimately show ?thesis using True by (simp del: upt_Suc add_Suc_right) force
  next
    case False
    with Suc.prems half [of i] half [of j] Suc.IH [of "Suc m" "p div 2"] show ?thesis
      unfolding up by fastforce
  qed
qed

lemma used_blocks_apart:
  assumes "layout ys" and "(b, t) \<in> used_blocks ys" and "(a, s) \<in> used_blocks ys" and "a \<noteq> b"
  shows "b + t \<le> a \<or> a + s \<le> b"
proof -
  have "(a, s, True) \<in> set ys" using assms(3) by (simp add: used_blocks_def)
  then obtain pre post where y: "ys = pre @ (a, s, True) # post" by (auto dest: split_list)
  then have "(b, t, True) \<in> set (pre @ post)" using assms(2,4) by (auto simp: used_blocks_def)
  then have "apart (a, s, True) (b, t, True)" using assms(1) by (simp add: y layout_mid)
  then show ?thesis by (auto simp: apart_def)
qed

section \<open>Properties\<close>

text \<open>A heap of 64 KB, and one that also holds a free block of order 9, for the instances below.\<close>

definition example_kmem :: kmem where
  "example_kmem = \<lparr>segs = [4096 \<mapsto> \<lparr>seg_size = 65536, seg_used = False, seg_next = NULL, seg_last = NULL\<rparr>],
     start_addr = 4096, areas = Map.empty, list_head = (\<lambda>_. NULL), list_tail = (\<lambda>_. NULL)\<rparr>"

definition example_pmm :: kmem where
  "example_pmm = \<lparr>segs = [4096 \<mapsto> \<lparr>seg_size = 64, seg_used = True, seg_next = 4160, seg_last = NULL\<rparr>,
       4160 \<mapsto> \<lparr>seg_size = 65472, seg_used = False, seg_next = NULL, seg_last = 4096\<rparr>],
     start_addr = 4096, areas = [4120 \<mapsto> \<lparr>fa_address = 2097152, fa_next = NULL\<rparr>],
     list_head = (\<lambda>i. if i = 9 then 4120 else NULL), list_tail = (\<lambda>i. if i = 9 then 4120 else NULL)\<rparr>"

lemma example_kmem_inv: "pmm_inv example_kmem [(4096, 65536, False)] (\<lambda>_. [])"
  by (auto simp: pmm_inv_def heap_ok_def nodes_ok_def nodes_in_def example_kmem_def layout_Cons
      intro!: exI [of _ "\<lambda>_. []"])


lemma example_pmm_inv:
  "pmm_inv example_pmm [(4096, 64, True), (4160, 65472, False)] (\<lambda>i. if i = 9 then [2097152] else [])"
  unfolding pmm_inv_def
  by (intro conjI exI [of _ "\<lambda>i. if i = 9 then [4120] else []"])
    (auto simp: heap_ok_def nodes_ok_def nodes_in_def example_pmm_def layout_Cons apart_def aaddr_def
      SEG_INFO_SZ_def)

lemma kmalloc_ok:
  assumes "heap_ok km xs" and "unat sz + 87 < 2 ^ 64" and "has_free (request sz) xs"
  shows "\<exists>a h ys size. kmalloc (Suc n) sz km = Some (a + SEG_INFO_SZ, km\<lparr>segs := h\<rparr>)
    \<and> heap_ok (km\<lparr>segs := h\<rparr>) ys
    \<and> used_blocks ys = insert (a, size) (used_blocks xs) \<and> unat sz + SEG_INFO_SZ \<le> size
    \<and> (\<forall>(b, t)\<in>used_blocks xs. b + t \<le> a \<or> a + size \<le> b)
    \<and> total_size ys = total_size xs"
proof -
  have rb: "unat sz + 24 \<le> request sz" "0 < request sz" using request_bounds [of sz] assms(2) by auto
  obtain a ys where f: "fit (request sz) xs = Some (a, ys)" using assms(3) has_free_fit by fastforce
  obtain h where h: "kmalloc (Suc n) sz km = Some (a + SEG_INFO_SZ, km\<lparr>segs := h\<rparr>)"
      "heap_ok (km\<lparr>segs := h\<rparr>) ys"
    using kmalloc_fast [OF assms(1) f rb(2)] by blast
  have lx: "layout xs" using assms(1) by (simp add: heap_ok_def)
  note fk = fit_keeps [OF f lx rb(2)]
  then obtain size where size: "request sz \<le> size" "used_blocks ys = insert (a, size) (used_blocks xs)"
    by blast
  have "b + t \<le> a \<or> a + size \<le> b" if "(b, t) \<in> used_blocks xs" for b t
    using used_blocks_apart [OF fk(1), of b t a size] fit_fresh [OF f lx] that size(2) by auto
  then have "\<forall>(b, t)\<in>used_blocks xs. b + t \<le> a \<or> a + size \<le> b" by blast
  moreover have "unat sz + SEG_INFO_SZ \<le> size" using rb(1) size(1) by (simp add: SEG_INFO_SZ_def)
  ultimately show ?thesis using h size(2) fk(2) by blast
qed

text \<open>
  C1. \<^verbatim>\<open>kmalloc\<close>, when a free segment of the rounded size exists: it returns the data address of a
  block that is large enough, was not in use, and does not overlap any block in use (headers
  included); every other block in use is kept, and no byte of the heap is lost.
\<close>

theorem kmalloc_safe:
  assumes "heap_ok km xs" and "unat sz + 87 < 2 ^ 64" and "has_free (request sz) xs"
  shows "\<exists>a h ys size. kmalloc (Suc n) sz km = Some (a + SEG_INFO_SZ, km\<lparr>segs := h\<rparr>)
    \<and> heap_ok (km\<lparr>segs := h\<rparr>) ys
    \<and> used_blocks ys = insert (a, size) (used_blocks xs) \<and> unat sz + SEG_INFO_SZ \<le> size
    \<and> (\<forall>(b, t)\<in>used_blocks xs. b + t \<le> a \<or> a + size \<le> b)
    \<and> total_size ys = total_size xs"
  using kmalloc_ok [OF assms] .

theorem kmalloc_safe_witness:
  "\<exists>a h ys size. kmalloc 1 100 example_kmem = Some (a + SEG_INFO_SZ, example_kmem\<lparr>segs := h\<rparr>)
    \<and> used_blocks ys = {(a, size)} \<and> 124 \<le> size \<and> total_size ys = 65536"
proof -
  have hk: "heap_ok example_kmem [(4096, 65536, False)]"
    using example_kmem_inv by (simp add: pmm_inv_def)
  have "has_free (request 100) [(4096, 65536, False)]" by (simp add: has_free_def request_eq)
  from kmalloc_safe [OF hk _ this, of 0] show ?thesis by (fastforce simp: SEG_INFO_SZ_def)
qed

lemma kfree_ok:
  assumes "heap_ok km xs" and "(a, sz) \<in> used_blocks xs"
  shows "\<exists>h ys. kfree (a + SEG_INFO_SZ) km = Some (km\<lparr>segs := h\<rparr>) \<and> heap_ok (km\<lparr>segs := h\<rparr>) ys
    \<and> used_blocks ys = used_blocks xs - {(a, sz)} \<and> total_size ys = total_size xs"
proof -
  obtain pre post where x: "xs = pre @ (a, sz, True) # post"
    using assms(2) unfolding used_blocks_def by (auto dest: split_list)
  have g: "segs_from (segs km) NULL (start_addr km) (pre @ (a, sz, True) # post) NULL"
    and lx: "layout (pre @ (a, sz, True) # post)" using assms(1) x by (auto simp: heap_ok_def)
  note d = layout_distinct [OF lx]
  obtain h where h: "kfree_seg (segs km) (a + SEG_INFO_SZ) = Some h"
      "segs_from h NULL (start_addr km) (release pre a sz post) NULL"
    using kfree_seg_release [OF g d] by blast
  note k = release_keeps [OF lx]
  have "total_size (release pre a sz post) \<noteq> 0"
    using k(2) lx by (simp add: layout_mid)
  then have "heap_ok (km\<lparr>segs := h\<rparr>) (release pre a sz post)"
    using h(2) k(1) by (auto simp: heap_ok_def)
  moreover have "used_blocks (release pre a sz post) = used_blocks xs - {(a, sz)}"
  proof -
    have "(a, sz) \<notin> used_blocks (pre @ post)"
      using d by (force simp: used_blocks_def)
    then show ?thesis using k(3) x by auto
  qed
  ultimately show ?thesis using h(1) k(2) x by (auto simp: kfree_def)
qed

text \<open>
  C2. \<^verbatim>\<open>kfree\<close> of a block in use: it returns, the block is no longer in use, every other block in
  use is kept, the free lists are not touched and no byte of the heap is lost, whether or not
  the segment is combined with its neighbours.
\<close>

theorem kfree_releases:
  assumes "heap_ok km xs" and "(a, sz) \<in> used_blocks xs"
  shows "\<exists>h ys. kfree (a + SEG_INFO_SZ) km = Some (km\<lparr>segs := h\<rparr>) \<and> heap_ok (km\<lparr>segs := h\<rparr>) ys
    \<and> used_blocks ys = used_blocks xs - {(a, sz)} \<and> total_size ys = total_size xs"
  using kfree_ok [OF assms] .

theorem kfree_releases_witness:
  "\<exists>km a. kmalloc 1 100 example_kmem = Some (a + SEG_INFO_SZ, km) \<and>
     (\<exists>h ys. kfree (a + SEG_INFO_SZ) km = Some (km\<lparr>segs := h\<rparr>) \<and> used_blocks ys = {} \<and> total_size ys = 65536)"
proof -
  have "heap_ok example_kmem [(4096, 65536, False)]"
    using example_kmem_inv by (simp add: pmm_inv_def)
  moreover have "fit (request 100) [(4096, 65536, False)] =
      Some (4096, [(4096, 128, True), (4224, 65408, False)])"
    by (simp add: request_eq carve_def MIN_SEG_SIZE_def)
  ultimately obtain h where h: "kmalloc 1 100 example_kmem = Some (4096 + SEG_INFO_SZ, example_kmem\<lparr>segs := h\<rparr>)"
      "heap_ok (example_kmem\<lparr>segs := h\<rparr>) [(4096, 128, True), (4224, 65408, False)]"
    using kmalloc_fast [of example_kmem "[(4096, 65536, False)]" 100 4096 _ 0] by (auto simp: request_eq)
  from kfree_releases [OF h(2), of 4096 128] h(1) show ?thesis by fastforce
qed

text \<open>
  C3. \<^verbatim>\<open>kmalloc\<close> when no segment fits: it takes a free area of at least 64 pages that lies outside
  the heap, adds its first 256 KB to the heap, gives the other pages back to the free lists and
  returns a block of sufficient size that was not in use, and no block in use is lost.  It
  returns whenever such an area exists, for requests up to 261456 bytes.
\<close>

theorem kmalloc_grows_heap:
  assumes "pmm_inv km xs A" and "\<not> has_free (request sz) xs"
    and "spec_from [6..<10] A = Some (b, give, A1)" and "b \<noteq> NULL"
    and "layout (xs @ [(b, PAGES 6, False)])" and "unat sz + 48 \<le> 261504"
  shows "\<exists>a km' ys size. kmalloc (Suc (Suc n)) sz km = Some (a + SEG_INFO_SZ, km')
    \<and> pmm_inv km' ys (add_areas (bit_areas [0..<9] (b + PAGES 6) (2 ^ give - 2 ^ 6)) A1)
    \<and> total_size ys = total_size xs + 262144
    \<and> insert (a, size) (used_blocks xs) \<subseteq> used_blocks ys \<and> (\<forall>t. (a, t) \<notin> used_blocks xs)
    \<and> unat sz + SEG_INFO_SZ \<le> size"
proof -
  have "fit (request sz) xs = None" using assms(2) has_free_fit by blast
  from kmalloc_grow [OF assms(1) this assms(3-6), of n] show ?thesis by (simp add: PAGES_def)
qed

theorem kmalloc_grows_heap_witness:
  "\<exists>a km' ys size. kmalloc 2 100000 example_pmm = Some (a + SEG_INFO_SZ, km')
    \<and> total_size ys = 327680 \<and> {(4096, 64), (a, size)} \<subseteq> used_blocks ys \<and> 100024 \<le> size"
proof -
  let ?xs = "[(4096, 64, True), (4160, 65472, False)]"
  have nf: "\<not> has_free (request 100000) ?xs" by (simp add: has_free_def request_eq)
  have s: "spec_from [6..<10] (\<lambda>i. if i = 9 then [2097152] else []) =
      Some (2097152, 9, (\<lambda>i. if i = 9 then [2097152] else [])(9 := []))"
    by (simp add: upt_conv_Cons)
  have lay: "layout (?xs @ [(2097152, PAGES 6, False)])"
    by (simp add: layout_Cons apart_def PAGES_def)
  from kmalloc_grows_heap [OF example_pmm_inv nf s _ lay, of 0] obtain a km' ys sz where
    k: "kmalloc (Suc (Suc 0)) 100000 example_pmm = Some (a + SEG_INFO_SZ, km')"
      "total_size ys = total_size ?xs + 262144"
      "insert (a, sz) (used_blocks ?xs) \<subseteq> used_blocks ys" "unat (100000::u64) + SEG_INFO_SZ \<le> sz"
    by auto
  have "Suc (Suc 0) = 2" by simp
  with k have "kmalloc 2 100000 example_pmm = Some (a + SEG_INFO_SZ, km') \<and> total_size ys = 327680
      \<and> {(4096, 64), (a, sz)} \<subseteq> used_blocks ys \<and> 100024 \<le> sz"
    by (simp add: SEG_INFO_SZ_def)
  then show ?thesis by blast
qed

text \<open>
  C4. \<^verbatim>\<open>alloc_pages\<close> refines the abstract allocator, which takes the oldest block of the smallest
  sufficient order and returns the rest in blocks of smaller orders; no two free blocks overlap
  afterwards, the block returned is disjoint from them, and block and free memory together are
  the free memory before.
\<close>

theorem alloc_pages_correct:
  assumes "pmm_inv km xs A" and "9 \<le> slots xs" and "no_overlap A"
    and "spec_alloc order A = Some (a, A')"
  shows "\<exists>km' ys. alloc_pages (Suc n) order km = Some (a, km') \<and> pmm_inv km' ys A'
    \<and> no_overlap A' \<and> block (order, a) \<inter> free_mem A' = {}
    \<and> free_mem A = block (order, a) \<union> free_mem A'"
  using alloc_pages_spec [OF assms(1,2,4), of n] spec_alloc_memory [OF assms(4,3)] by blast

theorem alloc_pages_correct_witness:
  "\<exists>km' ys A'. alloc_pages 1 7 example_pmm = Some (2097152, km') \<and> pmm_inv km' ys A' \<and> no_overlap A'
    \<and> A' 7 = [2621440] \<and> A' 8 = [3145728]"
proof -
  let ?A = "\<lambda>i. if i = 9 then [2097152] else []"
  have s: "spec_alloc 7 ?A = Some (2097152, (\<lambda>_. [])(7 := [2621440], 8 := [3145728]))"
    by (simp add: spec_alloc_def upt_conv_Cons PAGES_def spec_add_def fun_eq_iff)
  have "no_overlap ?A" by (auto simp: no_overlap_def free_blocks_def split: if_splits)
  from alloc_pages_correct [OF example_pmm_inv _ this s, of 0] show ?thesis by fastforce
qed

text \<open>
  \<^verbatim>\<open>alloc_pages\<close> with no free block of the order or above: it returns the null pointer, but
  still gives back \<open>1 - 2 ^ order\<close> pages from address \<open>4096 * 2 ^ order\<close> on, so that the low
  memory from there on enters the free lists although it was never free.
\<close>

theorem alloc_pages_exhausted:
  assumes "pmm_inv km xs A" and "9 \<le> slots xs" and "0 < order" and "order \<le> 9"
    and "\<forall>i\<in>{order..9}. A i = []"
  shows "\<exists>km' ys A'. alloc_pages (Suc n) order km = Some (NULL, km') \<and> pmm_inv km' ys A'
    \<and> PAGES order \<in> set (A' 0)"
proof -
  have "spec_from [order..<10] A = None" using assms(5) by (auto simp: spec_from_None)
  from alloc_pages_exhausted_spec [OF assms(1,2) this assms(3,4), of n] obtain km' ys where
    k: "alloc_pages (Suc n) order km = Some (NULL, km')"
      "pmm_inv km' ys (add_areas (bit_areas [0..<9] (PAGES order) (1 - 2 ^ order)) A)" by blast
  have "(0, PAGES order) \<in> set (bit_areas [0..<9] (PAGES order) (1 - 2 ^ order))"
    using assms(3) by (simp add: upt_conv_Cons)
  with k show ?thesis by (meson add_areas_mem)
qed

theorem alloc_pages_exhausted_witness:
  "\<exists>km' ys A'. alloc_pages 1 3 example_kmem = Some (NULL, km') \<and> pmm_inv km' ys A' \<and> 32768 \<in> set (A' 0)"
  using alloc_pages_exhausted [OF example_kmem_inv, of 3 0] by (simp add: PAGES_def)

text \<open>
  \<^verbatim>\<open>init_pmm\<close> puts overlapping areas into the free lists: when bits \<open>i\<close> and \<open>j\<close> of the number of
  pages are set, \<open>2 \<le> i < j < 9\<close>, the area after that of order \<open>i\<close> starts only 8192 bytes above
  it, inside it.
\<close>

theorem init_pmm_overlap:
  assumes "pmm_inv km xs A"
    and pages: "pages = unat (TO2POW memsize 4096 div 4096 - TO2POW limit 4096 div 4096)"
    and "9 + pages div 512 \<le> slots xs"
    and "2 \<le> i" "i < j" "j < 9" "odd (pages div 2 ^ i)" "odd (pages div 2 ^ j)"
  shows "\<exists>km' ys A'. init_pmm (Suc n) memsize limit km = Some km' \<and> pmm_inv km' ys A' \<and> \<not> no_overlap A'"
proof -
  let ?bs = "init_areas [0..<9] (unat limit) pages"
  have l: "length ?bs \<le> 9" for s p using length_init_areas [of "[0..<9]"] by simp
  with assms(3) have "length ?bs \<le> slots xs" by simp
  from init_bits_slots [OF assms(1) this, of n] obtain s km1 ys where
    r: "init_bits (kmalloc (Suc n)) [0..<9] (unat limit) pages km = Some (s, pages div 512, km1)"
      "pmm_inv km1 ys (add_areas ?bs A)" "slots ys + length ?bs = slots xs" by auto
  have "pages div 512 \<le> slots ys" using r(3) l assms(3) by linarith
  from return_max_slots [OF r(2) this, of n s] obtain km' zs B where
    m: "return_max (kmalloc (Suc n)) (pages div 512) s km1 = Some km'"
      "pmm_inv km' zs (add_areas (?bs @ B) A)" by auto
  obtain a k where a: "(i, a) \<in> set ?bs" "(k, a + PAGES 1) \<in> set ?bs" "i < k"
    using init_areas_next [of 0 i j 9 pages "unat limit"] assms(4-8) by auto
  then have fb: "(i, a) \<in> free_blocks (add_areas (?bs @ B) A)"
      "(k, a + PAGES 1) \<in> free_blocks (add_areas (?bs @ B) A)"
    by (auto simp: free_blocks_def add_areas_mem simp del: add_areas_simps)
  have "(2::nat) ^ 2 \<le> 2 ^ i" using assms(4) by (intro power_increasing) auto
  then have "a + PAGES 1 \<in> block (i, a) \<inter> block (k, a + PAGES 1)"
    by (simp add: block_def) (simp add: PAGES_def)
  with fb a(3) have "\<not> no_overlap (add_areas (?bs @ B) A)"
    unfolding no_overlap_def by (metis empty_iff less_irrefl prod.inject)
  moreover have "init_pmm (Suc n) memsize limit km = Some km'"
    using r(1) m(1) by (simp add: init_pmm_def MAX_ORDER_def pages [symmetric])
  ultimately show ?thesis using m(2) by blast
qed

theorem init_pmm_overlap_witness:
  "\<exists>km' ys A'. init_pmm 1 57344 8192 example_kmem = Some km' \<and> pmm_inv km' ys A' \<and> \<not> no_overlap A'"
proof -
  have "unat (TO2POW 57344 4096 div 4096 - TO2POW 8192 4096 div 4096) = 12" by (simp add: TO2POW_def)
  then show ?thesis
    using init_pmm_overlap [OF example_kmem_inv refl, of 57344 8192 2 3 0] by simp
qed


end
