(* ===== verification/Paging.thy ===== *)
theory Paging
  imports Pmm
begin

text \<open>
  The page tables of \<^verbatim>\<open>kernel/memory/paging.c\<close> and the operations on virtual memory of
  \<^verbatim>\<open>kernel/memory/pmm.c\<close> that use them.  A page table is a page of 512 entries, found by its
  address; new tables come from the page allocator.  The lemmas relate the tables under a page
  directory to the function from virtual to physical addresses that they describe: mapping a
  page changes this function at that page and nowhere else.
\<close>

section \<open>State\<close>

text \<open>
  The entry structs of \<^verbatim>\<open>include/tayhuang/paging.h\<close>.  The four levels have the same layout, up
  to the bits \<open>d\<close>, \<open>pat\<close> and \<open>g\<close>, which the upper levels leave free.
\<close>

record page_entry =
  pe_p :: bool
  pe_rw :: bool
  pe_us :: bool
  pe_pwt :: bool
  pe_pcd :: bool
  pe_a :: bool
  pe_d :: bool
  pe_pat :: bool
  pe_g :: bool
  pe_address :: nat

definition zero_entry :: page_entry where
  "zero_entry = \<lparr>pe_p = False, pe_rw = False, pe_us = False, pe_pwt = False, pe_pcd = False,
     pe_a = False, pe_d = False, pe_pat = False, pe_g = False, pe_address = 0\<rparr>"

type_synonym page_tables = "ptr \<Rightarrow> nat \<Rightarrow> page_entry"

record vmem =
  vm_km :: kmem
  vm_tables :: page_tables
  vm_bytes :: "ptr \<Rightarrow> u8"

text \<open>
  The bit-field \<^verbatim>\<open>address\<close> has 39 bits, and shifting it left by 12 is done in its own width.
\<close>

definition to_address :: "ptr \<Rightarrow> nat" where
  "to_address p = p div MEMUNIT_SZ mod 2 ^ 39"

definition entry_base :: "page_entry \<Rightarrow> ptr" where
  "entry_base e = pe_address e * MEMUNIT_SZ mod 2 ^ 39"

section \<open>Operations\<close>

text \<open>
  \<^verbatim>\<open>__get_free_page\<close> and \<^verbatim>\<open>create_pgd\<close>: a page that is cleared, its bytes as well as the entries they are as a
  table.  Clearing through the null pointer of a failed allocation is \<open>None\<close>.
\<close>

definition zero_page :: "ptr \<Rightarrow> (ptr \<Rightarrow> u8) \<Rightarrow> ptr \<Rightarrow> u8" where
  "zero_page page m = (\<lambda>p. if page \<le> p \<and> p < page + MEMUNIT_SZ then 0 else m p)"

definition get_free_page :: "nat \<Rightarrow> vmem \<Rightarrow> (ptr \<times> vmem) option" where
  "get_free_page fuel st = do {
     (page, km) \<leftarrow> alloc_pages fuel 0 (vm_km st);
     if page = NULL then None
     else Some (page, st\<lparr>vm_km := km, vm_tables := (vm_tables st)(page := \<lambda>_. zero_entry),
                          vm_bytes := zero_page page (vm_bytes st)\<rparr>)
   }"

definition create_pgd :: "nat \<Rightarrow> vmem \<Rightarrow> (ptr \<times> vmem) option" where
  "create_pgd fuel st = get_free_page fuel st"

definition set_entry :: "ptr \<Rightarrow> nat \<Rightarrow> page_entry \<Rightarrow> vmem \<Rightarrow> vmem" where
  "set_entry t i e st = st\<lparr>vm_tables := (vm_tables st)(t := (vm_tables st t)(i := e))\<rparr>"

text \<open>
  The block that \<^verbatim>\<open>__set_mapping\<close> repeats for the three upper levels: an absent entry gets the
  flags and a fresh table; a present entry is left alone, its flags included.
\<close>

definition fill_entry :: "nat \<Rightarrow> ptr \<Rightarrow> nat \<Rightarrow> bool \<Rightarrow> bool \<Rightarrow> vmem \<Rightarrow> vmem option" where
  "fill_entry fuel t i rw us st =
     (let e = vm_tables st t i in
      if pe_p e then Some st
      else do {
        let e = e\<lparr>pe_p := True, pe_rw := rw, pe_us := us, pe_pcd := False, pe_pwt := False, pe_a := False\<rparr>;
        (page, st) \<leftarrow> get_free_page fuel (set_entry t i e st);
        Some (set_entry t i ((vm_tables st t i)\<lparr>pe_address := to_address page\<rparr>) st)
      })"

definition fill_pte :: "ptr \<Rightarrow> nat \<Rightarrow> ptr \<Rightarrow> bool \<Rightarrow> bool \<Rightarrow> vmem \<Rightarrow> vmem" where
  "fill_pte t i paddr rw us st =
     (let e = vm_tables st t i;
          e = (if pe_p e then e
               else e\<lparr>pe_p := True, pe_rw := rw, pe_us := us, pe_pcd := False, pe_pwt := False,
                      pe_a := False, pe_d := False, pe_pat := False, pe_g := False\<rparr>)
      in set_entry t i (e\<lparr>pe_address := to_address paddr\<rparr>) st)"

definition vidx :: "nat \<Rightarrow> nat \<Rightarrow> nat" where
  "vidx shift vaddr = vaddr div 2 ^ shift mod 512"

definition set_mapping1 :: "nat \<Rightarrow> ptr \<Rightarrow> nat \<Rightarrow> ptr \<Rightarrow> bool \<Rightarrow> bool \<Rightarrow> vmem \<Rightarrow> (bool \<times> vmem) option" where
  "set_mapping1 fuel pgd vaddr paddr rw us st = do {
     let pml4e_idx = vidx 39 vaddr;
     let pdpte_idx = vidx 30 vaddr;
     let pde_idx = vidx 21 vaddr;
     let pte_idx = vidx 12 vaddr;
     st \<leftarrow> fill_entry fuel pgd pml4e_idx rw us st;
     let pdpt = entry_base (vm_tables st pgd pml4e_idx);
     if pdpt = NULL then Some (False, st) else do {
       st \<leftarrow> fill_entry fuel pdpt pdpte_idx rw us st;
       let pd = entry_base (vm_tables st pdpt pdpte_idx);
       if pd = NULL then Some (False, st) else do {
         st \<leftarrow> fill_entry fuel pd pde_idx rw us st;
         let pt = entry_base (vm_tables st pd pde_idx);
         if pt = NULL then Some (False, st)
         else Some (True, fill_pte pt pte_idx paddr rw us st)
       }
     }
   }"

text \<open>\<^verbatim>\<open>get_physical_address\<close>: a null pointer when a level is absent.\<close>

definition get_physical_address :: "page_tables \<Rightarrow> ptr \<Rightarrow> nat \<Rightarrow> ptr" where
  "get_physical_address T pgd vaddr =
     (let offset = vaddr mod 4096;
          pte_idx = vaddr div 4096 mod 512;
          pde_idx = vaddr div 4096 div 512 mod 512;
          pdpte_idx = vaddr div 4096 div 512 div 512 mod 512;
          pml4e_idx = vaddr div 4096 div 512 div 512 div 512 mod 512
      in if \<not> pe_p (T pgd pml4e_idx) then NULL
         else let pdpt = entry_base (T pgd pml4e_idx) in
           if \<not> pe_p (T pdpt pdpte_idx) then NULL
           else let pd = entry_base (T pdpt pdpte_idx) in
             if \<not> pe_p (T pd pde_idx) then NULL
             else let pt = entry_base (T pd pde_idx) in
               if \<not> pe_p (T pt pte_idx) then NULL
               else entry_base (T pt pte_idx) + offset)"

text \<open>
  \<^verbatim>\<open>set_mapping\<close> and \<^verbatim>\<open>set_mappingvv\<close>: the loops over the pages.  The distance \<^verbatim>\<open>i * MEMUNIT_SZ\<close> is an \<^verbatim>\<open>int\<close>.  The second
  translates each source page with the tables as they are at that moment.
\<close>

definition page_at :: "ptr \<Rightarrow> nat \<Rightarrow> ptr" where
  "page_at p i = nat ((int p + wrap32 (int i * int MEMUNIT_SZ)) mod 2 ^ 64)"

primrec set_mapping_loop ::
    "nat \<Rightarrow> ptr \<Rightarrow> nat \<Rightarrow> ptr \<Rightarrow> bool \<Rightarrow> bool \<Rightarrow> nat list \<Rightarrow> vmem \<Rightarrow> (bool \<times> vmem) option" where
  "set_mapping_loop fuel pgd vaddr paddr rw us [] st = Some (True, st)"
| "set_mapping_loop fuel pgd vaddr paddr rw us (i # is) st = do {
     (ok, st) \<leftarrow> set_mapping1 fuel pgd (page_at vaddr i) (page_at paddr i) rw us st;
     if \<not> ok then Some (False, st) else set_mapping_loop fuel pgd vaddr paddr rw us is st
   }"

definition set_mapping ::
    "nat \<Rightarrow> ptr \<Rightarrow> nat \<Rightarrow> ptr \<Rightarrow> nat \<Rightarrow> bool \<Rightarrow> bool \<Rightarrow> vmem \<Rightarrow> (bool \<times> vmem) option" where
  "set_mapping fuel pgd vaddr paddr pages rw us st =
     set_mapping_loop fuel pgd (vaddr div MEMUNIT_SZ * MEMUNIT_SZ) paddr rw us [0..<pages] st"

primrec set_mappingvv_loop ::
    "nat \<Rightarrow> ptr \<Rightarrow> nat \<Rightarrow> ptr \<Rightarrow> nat \<Rightarrow> bool \<Rightarrow> bool \<Rightarrow> nat list \<Rightarrow> vmem \<Rightarrow> (bool \<times> vmem) option" where
  "set_mappingvv_loop fuel src_pgd src_addr dst_pgd dst_addr rw us [] st = Some (True, st)"
| "set_mappingvv_loop fuel src_pgd src_addr dst_pgd dst_addr rw us (i # is) st = do {
     let pa = get_physical_address (vm_tables st) src_pgd (page_at src_addr i);
     (ok, st) \<leftarrow> set_mapping1 fuel dst_pgd (page_at dst_addr i) pa rw us st;
     if \<not> ok then Some (False, st)
     else set_mappingvv_loop fuel src_pgd src_addr dst_pgd dst_addr rw us is st
   }"

definition set_mappingvv ::
    "nat \<Rightarrow> ptr \<Rightarrow> nat \<Rightarrow> ptr \<Rightarrow> nat \<Rightarrow> nat \<Rightarrow> bool \<Rightarrow> bool \<Rightarrow> vmem \<Rightarrow> (bool \<times> vmem) option" where
  "set_mappingvv fuel src_pgd src_addr dst_pgd dst_addr pages rw us st =
     set_mappingvv_loop fuel src_pgd (src_addr div MEMUNIT_SZ * MEMUNIT_SZ)
       dst_pgd (dst_addr div MEMUNIT_SZ * MEMUNIT_SZ) rw us [0..<pages] st"

text \<open>
  \<^verbatim>\<open>shm_mapping\<close> of \<^verbatim>\<open>kernel/memory/shared_memory.c\<close>, with the page directories of the two tasks
  as arguments.
\<close>

definition shm_mapping :: "nat \<Rightarrow> nat \<Rightarrow> nat \<Rightarrow> ptr \<Rightarrow> ptr \<Rightarrow> vmem \<Rightarrow> (bool \<times> vmem) option" where
  "shm_mapping fuel mem pages source_pgd target_pgd st =
     set_mappingvv fuel source_pgd mem target_pgd mem pages True True st"

text \<open>\<^verbatim>\<open>alloc_vpages\<close> of \<^verbatim>\<open>pmm.c\<close>; the results of \<^verbatim>\<open>set_mapping\<close> are ignored.\<close>

definition alloc_map :: "nat \<Rightarrow> ptr \<Rightarrow> nat \<Rightarrow> nat \<Rightarrow> vmem \<Rightarrow> vmem option" where
  "alloc_map fuel pgd vaddr order st = do {
     (paddr, km) \<leftarrow> alloc_pages fuel order (vm_km st);
     (_, st) \<leftarrow> set_mapping fuel pgd vaddr paddr (2 ^ order) True True (st\<lparr>vm_km := km\<rparr>);
     Some st
   }"

primrec alloc_bits :: "nat \<Rightarrow> ptr \<Rightarrow> nat list \<Rightarrow> nat \<Rightarrow> int \<Rightarrow> vmem \<Rightarrow> (nat \<times> int \<times> vmem) option" where
  "alloc_bits fuel pgd [] vaddr pages st = Some (vaddr, pages, st)"
| "alloc_bits fuel pgd (i # is) vaddr pages st =
     (if odd pages then do {
        st \<leftarrow> alloc_map fuel pgd vaddr i st;
        alloc_bits fuel pgd is (vaddr + PAGES i) (pages div 2) st
      } else alloc_bits fuel pgd is vaddr (pages div 2) st)"

primrec alloc_max :: "nat \<Rightarrow> ptr \<Rightarrow> nat \<Rightarrow> nat \<Rightarrow> vmem \<Rightarrow> vmem option" where
  "alloc_max fuel pgd 0 vaddr st = Some st"
| "alloc_max fuel pgd (Suc n) vaddr st = do {
     st \<leftarrow> alloc_map fuel pgd vaddr MAX_ORDER st;
     alloc_max fuel pgd n (vaddr + PAGES MAX_ORDER) st
   }"

definition alloc_vpages :: "nat \<Rightarrow> ptr \<Rightarrow> nat \<Rightarrow> int \<Rightarrow> vmem \<Rightarrow> vmem option" where
  "alloc_vpages fuel pgd addr pages st = do {
     (vaddr, pages, st) \<leftarrow> alloc_bits fuel pgd [0..<MAX_ORDER] addr pages st;
     alloc_max fuel pgd (nat pages) vaddr st
   }"

text \<open>
  \<^verbatim>\<open>vmemset\<close>, \<^verbatim>\<open>vpmemcpy\<close>, \<^verbatim>\<open>pvmemcpy\<close> and \<^verbatim>\<open>vvmemcpy\<close>: byte by byte, each byte translated anew.
  \<open>None\<close> is an access through the null pointer of an absent page.
\<close>

definition v_write :: "ptr \<Rightarrow> nat \<Rightarrow> u8 \<Rightarrow> vmem \<Rightarrow> vmem option" where
  "v_write pgd addr b st =
     (let pa = get_physical_address (vm_tables st) pgd addr in
      if pa = NULL then None else Some (st\<lparr>vm_bytes := (vm_bytes st)(pa := b)\<rparr>))"

definition v_read :: "ptr \<Rightarrow> nat \<Rightarrow> vmem \<Rightarrow> u8 option" where
  "v_read pgd addr st =
     (let pa = get_physical_address (vm_tables st) pgd addr in
      if pa = NULL then None else Some (vm_bytes st pa))"

primrec vmemset :: "ptr \<Rightarrow> nat \<Rightarrow> u8 \<Rightarrow> nat \<Rightarrow> vmem \<Rightarrow> vmem option" where
  "vmemset pgd addr val 0 st = Some st"
| "vmemset pgd addr val (Suc n) st = do {
     st \<leftarrow> v_write pgd addr val st;
     vmemset pgd (addr + 1) val n st
   }"

primrec vpmemcpy :: "ptr \<Rightarrow> ptr \<Rightarrow> nat \<Rightarrow> nat \<Rightarrow> vmem \<Rightarrow> vmem option" where
  "vpmemcpy dst src_pgd src 0 st = Some st"
| "vpmemcpy dst src_pgd src (Suc n) st = do {
     b \<leftarrow> v_read src_pgd src st;
     vpmemcpy (dst + 1) src_pgd (src + 1) n (st\<lparr>vm_bytes := (vm_bytes st)(dst := b)\<rparr>)
   }"

primrec pvmemcpy :: "ptr \<Rightarrow> nat \<Rightarrow> ptr \<Rightarrow> nat \<Rightarrow> vmem \<Rightarrow> vmem option" where
  "pvmemcpy dst_pgd dst src 0 st = Some st"
| "pvmemcpy dst_pgd dst src (Suc n) st = do {
     st \<leftarrow> v_write dst_pgd dst (vm_bytes st src) st;
     pvmemcpy dst_pgd (dst + 1) (src + 1) n st
   }"

primrec vvmemcpy :: "ptr \<Rightarrow> nat \<Rightarrow> ptr \<Rightarrow> nat \<Rightarrow> nat \<Rightarrow> vmem \<Rightarrow> vmem option" where
  "vvmemcpy dst_pgd dst src_pgd src 0 st = Some st"
| "vvmemcpy dst_pgd dst src_pgd src (Suc n) st = do {
     b \<leftarrow> v_read src_pgd src st;
     st \<leftarrow> v_write dst_pgd dst b st;
     vvmemcpy dst_pgd (dst + 1) src_pgd (src + 1) n st
   }"

section \<open>The tree of tables\<close>

text \<open>Following entries from a table along a list of indices.\<close>

primrec descend :: "page_tables \<Rightarrow> ptr \<Rightarrow> nat list \<Rightarrow> ptr option" where
  "descend T t [] = Some t"
| "descend T t (i # is) = (if pe_p (T t i) then descend T (entry_base (T t i)) is else None)"

definition path :: "nat \<Rightarrow> nat list" where
  "path vaddr = [vidx 39 vaddr, vidx 30 vaddr, vidx 21 vaddr]"

text \<open>The translation the tables describe: the address of the page of \<open>vaddr\<close>, if it is mapped.\<close>

definition page_of :: "page_tables \<Rightarrow> ptr \<Rightarrow> nat list \<Rightarrow> nat \<Rightarrow> ptr option" where
  "page_of T pgd p i = do {
     pt \<leftarrow> descend T pgd p;
     if pe_p (T pt i) then Some (entry_base (T pt i)) else None
   }"

definition translate :: "page_tables \<Rightarrow> ptr \<Rightarrow> nat \<Rightarrow> ptr option" where
  "translate T pgd vaddr =
     map_option (\<lambda>b. b + vaddr mod MEMUNIT_SZ) (page_of T pgd (path vaddr) (vidx 12 vaddr))"

definition idx_ok :: "nat list \<Rightarrow> bool" where
  "idx_ok p \<longleftrightarrow> (\<forall>i\<in>set p. i < 512)"

lemma vidx_less [simp]: "vidx s v < 512"
  by (simp add: vidx_def)

lemma idx_ok_path [simp]: "idx_ok (path v)"
  by (simp add: idx_ok_def path_def)

lemma idx_ok_simps [simp]:
  "idx_ok []" "idx_ok (i # p) \<longleftrightarrow> i < 512 \<and> idx_ok p" "idx_ok (p @ q) \<longleftrightarrow> idx_ok p \<and> idx_ok q"
  by (auto simp: idx_ok_def)

lemma length_path [simp]: "length (path v) = 3"
  by (simp add: path_def)

lemma get_physical_address_translate:
  "get_physical_address T pgd vaddr = (case translate T pgd vaddr of None \<Rightarrow> NULL | Some p \<Rightarrow> p)"
  by (simp add: get_physical_address_def translate_def page_of_def path_def vidx_def Let_def
      div_mult2_eq [symmetric])

lemma descend_append: "descend T t (p @ q) = Option.bind (descend T t p) (\<lambda>u. descend T u q)"
  by (induction p arbitrary: t) auto

text \<open>
  \<open>tree_ok T pgd\<close>: two different paths lead to two different tables, and no table is at the null
  address.
\<close>

definition tree_ok :: "page_tables \<Rightarrow> ptr \<Rightarrow> bool" where
  "tree_ok T pgd \<longleftrightarrow>
     (\<forall>p q t. length p \<le> 3 \<longrightarrow> length q \<le> 3 \<longrightarrow> idx_ok p \<longrightarrow> idx_ok q \<longrightarrow>
        descend T pgd p = Some t \<longrightarrow> descend T pgd q = Some t \<longrightarrow> p = q) \<and>
     (\<forall>p t. length p \<le> 3 \<longrightarrow> idx_ok p \<longrightarrow> descend T pgd p = Some t \<longrightarrow> t \<noteq> NULL)"

definition table_set :: "page_tables \<Rightarrow> ptr \<Rightarrow> ptr set" where
  "table_set T pgd = {t. \<exists>p. length p \<le> 3 \<and> idx_ok p \<and> descend T pgd p = Some t}"

lemma tree_ok_D:
  "tree_ok T pgd \<Longrightarrow> length p \<le> 3 \<Longrightarrow> length q \<le> 3 \<Longrightarrow> idx_ok p \<Longrightarrow> idx_ok q \<Longrightarrow>
   descend T pgd p = Some t \<Longrightarrow> descend T pgd q = Some t \<Longrightarrow> p = q"
  unfolding tree_ok_def by blast

text \<open>Changing entries in tables that a path does not visit does not change where it leads.\<close>

lemma descend_cong:
  "(\<And>q i r u. p = q @ i # r \<Longrightarrow> descend T t q = Some u \<Longrightarrow>
      pe_p (T' u i) = pe_p (T u i) \<and> (pe_p (T u i) \<longrightarrow> entry_base (T' u i) = entry_base (T u i))) \<Longrightarrow>
   descend T' t p = descend T t p"
proof (induction p arbitrary: t)
  case Nil
  then show ?case by simp
next
  case (Cons i p)
  have e: "pe_p (T' t i) = pe_p (T t i) \<and> (pe_p (T t i) \<longrightarrow> entry_base (T' t i) = entry_base (T t i))"
    using Cons.prems [of "[]" i p t] by simp
  show ?case
  proof (cases "pe_p (T t i)")
    case True
    have "descend T' (entry_base (T t i)) p = descend T (entry_base (T t i)) p"
      by (rule Cons.IH) (use True Cons.prems [of "i # _"] in auto)
    with True e show ?thesis by simp
  qed (use e in simp)
qed

text \<open>
  A new table: entry \<open>i\<close> of the table at the end of path \<open>p\<close> was absent and now leads to the page
  \<open>a\<close>, which is not a table yet and is empty.
\<close>

definition link :: "page_tables \<Rightarrow> ptr \<Rightarrow> nat \<Rightarrow> page_entry \<Rightarrow> ptr \<Rightarrow> page_tables" where
  "link T t i e a = (T(a := \<lambda>_. zero_entry))(t := (T t)(i := e))"

definition new_table :: "page_tables \<Rightarrow> ptr \<Rightarrow> ptr \<Rightarrow> ptr \<Rightarrow> nat list \<Rightarrow> nat \<Rightarrow> page_entry \<Rightarrow> bool" where
  "new_table T pgd t a p i e \<longleftrightarrow> tree_ok T pgd \<and> length p < 3 \<and> idx_ok p \<and> i < 512 \<and>
     descend T pgd p = Some t \<and> \<not> pe_p (T t i) \<and> a \<notin> table_set T pgd \<and> a \<noteq> NULL \<and>
     pe_p e \<and> entry_base e = a"

lemma new_tableD:
  assumes "new_table T pgd t a p i e"
  shows "tree_ok T pgd" "length p < 3" "idx_ok p" "i < 512" "descend T pgd p = Some t"
    "\<not> pe_p (T t i)" "a \<notin> table_set T pgd" "a \<noteq> NULL" "pe_p e" "entry_base e = a"
  using assms by (auto simp: new_table_def)

lemma new_table_neq: "new_table T pgd t a p i e \<Longrightarrow> t \<noteq> a"
  by (auto simp: new_table_def table_set_def)

lemma descend_link_old:
  assumes n: "new_table T pgd t a p i e"
    and q: "length q \<le> 3" "idx_ok q" "\<not> (\<exists>r. q = p @ i # r)"
  shows "descend (link T t i e a) pgd q = descend T pgd q"
proof (rule descend_cong)
  note N = new_tableD [OF n]
  fix q1 j r u
  assume q1: "q = q1 @ j # r" and u: "descend T pgd q1 = Some u"
  have l: "length q1 \<le> 3" "idx_ok q1" using q q1 by auto
  then have "u \<noteq> a" using N(7) u unfolding table_set_def by blast
  moreover have "(u, j) \<noteq> (t, i)"
  proof
    assume eq: "(u, j) = (t, i)"
    then have "q1 = p" using tree_ok_D [OF N(1) l(1) _ l(2)] N(2,3,5) u by auto
    with q(3) q1 eq show False by simp
  qed
  ultimately have "(link T t i e a) u j = T u j" by (auto simp: link_def)
  then show "pe_p (link T t i e a u j) = pe_p (T u j) \<and>
      (pe_p (T u j) \<longrightarrow> entry_base (link T t i e a u j) = entry_base (T u j))"
    by simp
qed

lemma descend_link_new:
  assumes n: "new_table T pgd t a p i e"
  shows "descend (link T t i e a) pgd (p @ i # r) = (if r = [] then Some a else None)"
proof -
  note N = new_tableD [OF n]
  have "descend (link T t i e a) pgd p = Some t"
    using descend_link_old [OF n _ N(3)] N(2,5) by simp
  moreover have "link T t i e a t i = e" by (simp add: link_def)
  moreover have "link T t i e a a j = zero_entry" for j using new_table_neq [OF n] by (simp add: link_def)
  ultimately show ?thesis
    using N(9,10) by (cases r) (auto simp: descend_append zero_entry_def)
qed

lemma descend_link:
  assumes n: "new_table T pgd t a p i e" and q: "length q \<le> 3" "idx_ok q"
  shows "descend (link T t i e a) pgd q = Some u \<longleftrightarrow> descend T pgd q = Some u \<or> (q = p @ [i] \<and> u = a)"
proof (cases "\<exists>r. q = p @ i # r")
  case True
  then obtain r where r: "q = p @ i # r" by blast
  then have "descend T pgd q = None" using new_tableD(5,6) [OF n] by (simp add: descend_append)
  with r descend_link_new [OF n, of r] show ?thesis by auto
next
  case False
  with descend_link_old [OF n q False] show ?thesis by auto
qed

lemma tree_ok_link:
  assumes n: "new_table T pgd t a p i e"
  shows "tree_ok (link T t i e a) pgd"
  unfolding tree_ok_def
proof (intro conjI allI impI)
  note N = new_tableD [OF n]
  fix q r u
  assume a: "length q \<le> 3" "length r \<le> 3" "idx_ok q" "idx_ok r"
    "descend (link T t i e a) pgd q = Some u" "descend (link T t i e a) pgd r = Some u"
  have "descend T pgd s \<noteq> Some a" if "length s \<le> 3" "idx_ok s" for s
    using N(7) that unfolding table_set_def by blast
  with a descend_link [OF n a(1,3), of u] descend_link [OF n a(2,4), of u] tree_ok_D [OF N(1) a(1-4)]
  show "q = r" by auto
next
  note N = new_tableD [OF n]
  fix q u
  assume a: "length q \<le> 3" "idx_ok q" "descend (link T t i e a) pgd q = Some u"
  with descend_link [OF n a(1,2), of u] N(1,8) show "u \<noteq> NULL" unfolding tree_ok_def by blast
qed

lemma table_set_link:
  assumes n: "new_table T pgd t a p i e"
  shows "table_set (link T t i e a) pgd = insert a (table_set T pgd)"
proof -
  have "length (p @ [i]) \<le> 3" "idx_ok (p @ [i])" using new_tableD [OF n] by auto
  then show ?thesis
    unfolding table_set_def using descend_link [OF n] by (auto; blast)
qed

lemma page_of_link:
  assumes n: "new_table T pgd t a p i e" and q: "length q = 3" "idx_ok q" "j < 512"
  shows "page_of (link T t i e a) pgd q j = page_of T pgd q j"
proof (cases "\<exists>r. q = p @ i # r")
  case True
  then obtain r where r: "q = p @ i # r" by blast
  then have "descend T pgd q = None" using new_tableD(5,6) [OF n] by (simp add: descend_append)
  moreover have "link T t i e a a j = zero_entry" using new_table_neq [OF n] by (simp add: link_def)
  ultimately show ?thesis
    using descend_link_new [OF n, of r] r by (simp add: page_of_def zero_entry_def)
next
  case False
  note N = new_tableD [OF n]
  have d: "descend (link T t i e a) pgd q = descend T pgd q"
    by (rule descend_link_old [OF n]) (use q False in auto)
  show ?thesis
  proof (cases "descend T pgd q")
    case (Some u)
    then have "u \<noteq> a" using N(7) q unfolding table_set_def by auto
    moreover have "u \<noteq> t" using tree_ok_D [OF N(1), of q p] Some N(2,3,5) q by auto
    ultimately show ?thesis using d Some by (simp add: page_of_def link_def)
  qed (simp add: page_of_def d)
qed

section \<open>The invariant\<close>

text \<open>
  The page allocator is consistent, its free memory is below \<open>2 ^ 39\<close> and aligned, the tables
  under \<open>pgd\<close> form a tree, and none of them is free memory.
\<close>

definition vm_inv :: "vmem \<Rightarrow> seg list \<Rightarrow> free_lists \<Rightarrow> ptr \<Rightarrow> bool" where
  "vm_inv st xs A pgd \<longleftrightarrow> pmm_inv (vm_km st) xs A \<and> no_overlap A \<and> aligned A \<and>
     free_mem A \<subseteq> {MEMUNIT_SZ ..< 2 ^ 39} \<and> tree_ok (vm_tables st) pgd \<and>
     table_set (vm_tables st) pgd \<inter> free_mem A = {}"

lemma get_free_page_ok:
  assumes "pmm_inv (vm_km st) xs A" "no_overlap A" "aligned A" "free_mem A \<subseteq> {MEMUNIT_SZ ..< 2 ^ 39}"
    and "9 \<le> slots xs" "0 < npages A"
  shows "\<exists>a km ys A'. get_free_page (Suc n) st =
       Some (a, st\<lparr>vm_km := km, vm_tables := (vm_tables st)(a := \<lambda>_. zero_entry), vm_bytes := zero_page a (vm_bytes st)\<rparr>)
    \<and> pmm_inv km ys A' \<and> no_overlap A' \<and> aligned A' \<and> a \<in> free_mem A \<and> a \<notin> free_mem A'
    \<and> free_mem A' \<subseteq> free_mem A \<and> slots xs \<le> slots ys + 9 \<and> npages A = Suc (npages A') \<and> MEMUNIT_SZ dvd a
    \<and> spec_alloc 0 A = Some (a, A') \<and> (\<forall>m p. p \<notin> free_mem A \<longrightarrow> zero_page a m p = m p)"
proof -
  obtain a A' where a: "spec_alloc 0 A = Some (a, A')" "npages A = Suc (npages A')" "aligned A'" "MEMUNIT_SZ dvd a"
    using spec_alloc_page [OF assms(6,3)] by blast
  obtain km ys where k: "alloc_pages (Suc n) 0 (vm_km st) = Some (a, km)" "pmm_inv km ys A'"
      "slots xs \<le> slots ys + 9"
    using alloc_pages_spec [OF assms(1,5) a(1)] by blast
  note m = spec_alloc_memory [OF a(1) assms(2)]
  have "a \<in> block (0, a)" by (simp add: block_def)
  with m(2,3) have f: "a \<in> free_mem A" "a \<notin> free_mem A'" "free_mem A' \<subseteq> free_mem A" by auto
  then have "a \<noteq> NULL" using assms(4) by auto
  moreover have "zero_page a mem p = mem p" if "p \<notin> free_mem A" for mem p
    using that m(3) by (auto simp: zero_page_def block_def PAGES_def)
  ultimately show ?thesis using k a m f by (auto simp: get_free_page_def)
qed

lemma entry_base_to_address:
  "MEMUNIT_SZ dvd a \<Longrightarrow> a < 2 ^ 39 \<Longrightarrow> entry_base (e\<lparr>pe_address := to_address a\<rparr>) = a"
  by (auto simp: entry_base_def to_address_def elim!: dvdE)

text \<open>
  What a change of the tables under \<open>pgd\<close> leaves alone: only these tables and free pages are written, the
  tables grow by free pages only, and these are taken one by one.
\<close>

definition page_taken :: "free_lists \<Rightarrow> free_lists \<Rightarrow> bool" where
  "page_taken A A' \<longleftrightarrow> (\<exists>a. spec_alloc 0 A = Some (a, A'))"

definition tables_frame :: "vmem \<Rightarrow> vmem \<Rightarrow> ptr \<Rightarrow> free_lists \<Rightarrow> free_lists \<Rightarrow> bool" where
  "tables_frame st st' pgd A A' \<longleftrightarrow> free_mem A' \<subseteq> free_mem A
     \<and> table_set (vm_tables st') pgd \<subseteq> table_set (vm_tables st) pgd \<union> free_mem A
     \<and> (\<forall>u. u \<notin> table_set (vm_tables st) pgd \<union> free_mem A \<longrightarrow> vm_tables st' u = vm_tables st u)
     \<and> (\<forall>p. p \<notin> free_mem A \<longrightarrow> vm_bytes st' p = vm_bytes st p)
     \<and> page_taken\<^sup>*\<^sup>* A A'"

lemma tables_frame_refl [simp]: "tables_frame st st pgd A A"
  by (simp add: tables_frame_def)

lemma tables_frame_trans [trans]:
  assumes a: "tables_frame st1 st2 pgd A1 A2" and b: "tables_frame st2 st3 pgd A2 A3"
  shows "tables_frame st1 st3 pgd A1 A3"
proof -
  let ?S = "\<lambda>st A. table_set (vm_tables st) pgd \<union> free_mem A"
  have sub: "?S st2 A2 \<subseteq> ?S st1 A1" "?S st3 A3 \<subseteq> ?S st2 A2" and free: "free_mem A3 \<subseteq> free_mem A1"
    using a b unfolding tables_frame_def by blast+
  have "vm_tables st3 u = vm_tables st1 u" if u: "u \<notin> ?S st1 A1" for u
  proof -
    have "u \<notin> ?S st2 A2" using u sub(1) by blast
    then show ?thesis using a b u unfolding tables_frame_def by simp
  qed
  moreover have "vm_bytes st3 p = vm_bytes st1 p" if "p \<notin> free_mem A1" for p
    using a b that unfolding tables_frame_def by (metis subset_iff)
  moreover have "page_taken\<^sup>*\<^sup>* A1 A3"
    using a b unfolding tables_frame_def by (blast intro: rtranclp_trans)
  ultimately show ?thesis using sub free unfolding tables_frame_def by blast
qed

lemma fill_entry_ok:
  assumes inv: "vm_inv st xs A pgd" and p: "length p < 3" "idx_ok p" "i < 512"
    and t: "descend (vm_tables st) pgd p = Some t" and room: "9 \<le> slots xs" "0 < npages A"
  shows "\<exists>st' ys A' u. fill_entry (Suc n) t i rw us st = Some st' \<and> vm_inv st' ys A' pgd
    \<and> slots xs \<le> slots ys + 9 \<and> npages A \<le> Suc (npages A')
    \<and> u \<noteq> NULL \<and> entry_base (vm_tables st' t i) = u \<and> descend (vm_tables st') pgd (p @ [i]) = Some u
    \<and> (\<forall>q j. length q = 3 \<longrightarrow> idx_ok q \<longrightarrow> j < 512 \<longrightarrow>
          page_of (vm_tables st') pgd q j = page_of (vm_tables st) pgd q j)
    \<and> tables_frame st st' pgd A A'"
proof (cases "pe_p (vm_tables st t i)")
  case True
  then have "descend (vm_tables st) pgd (p @ [i]) = Some (entry_base (vm_tables st t i))"
    using t by (simp add: descend_append)
  moreover have "entry_base (vm_tables st t i) \<noteq> NULL"
  proof -
    have "length (p @ [i]) \<le> 3" "idx_ok (p @ [i])" using p by auto
    then show ?thesis using inv calculation unfolding vm_inv_def tree_ok_def by blast
  qed
  ultimately show ?thesis
    using True inv by (intro exI [of _ st] exI [of _ xs] exI [of _ A]) (auto simp: fill_entry_def)
next
  case False
  let ?e = "(vm_tables st t i)\<lparr>pe_p := True, pe_rw := rw, pe_us := us, pe_pcd := False, pe_pwt := False,
    pe_a := False\<rparr>"
  let ?st = "set_entry t i ?e st"
  have I: "pmm_inv (vm_km ?st) xs A" "no_overlap A" "aligned A" "free_mem A \<subseteq> {MEMUNIT_SZ ..< 2 ^ 39}"
      "tree_ok (vm_tables st) pgd" "table_set (vm_tables st) pgd \<inter> free_mem A = {}"
    using inv by (auto simp: vm_inv_def set_entry_def)
  obtain a km ys A' where g: "get_free_page (Suc n) ?st =
       Some (a, ?st\<lparr>vm_km := km, vm_tables := (vm_tables ?st)(a := \<lambda>_. zero_entry), vm_bytes := zero_page a (vm_bytes ?st)\<rparr>)"
      "pmm_inv km ys A'" "no_overlap A'" "aligned A'" "a \<in> free_mem A" "a \<notin> free_mem A'"
      "free_mem A' \<subseteq> free_mem A" "slots xs \<le> slots ys + 9" "npages A = Suc (npages A')" "MEMUNIT_SZ dvd a"
      "spec_alloc 0 A = Some (a, A')" "\<forall>p. p \<notin> free_mem A \<longrightarrow> zero_page a (vm_bytes st) p = vm_bytes st p"
    using get_free_page_ok [OF I(1-4) room] by blast
  have taken: "page_taken\<^sup>*\<^sup>* A A'" using g(11) by (auto simp: page_taken_def)
  have a: "a \<notin> table_set (vm_tables st) pgd" "a \<noteq> NULL" "a < 2 ^ 39" using g(5) I(4,6) by auto
  let ?e2 = "?e\<lparr>pe_address := to_address a\<rparr>"
  have nt: "new_table (vm_tables st) pgd t a p i ?e2"
    using I(5) p t False a entry_base_to_address [OF g(10) a(3)] by (auto simp: new_table_def)
  let ?st' = "st\<lparr>vm_km := km, vm_tables := link (vm_tables st) t i ?e2 a, vm_bytes := zero_page a (vm_bytes st)\<rparr>"
  have "fill_entry (Suc n) t i rw us st = Some ?st'"
    using False g(1) new_table_neq [OF nt]
    by (simp add: fill_entry_def Let_def) (simp add: set_entry_def link_def fun_upd_twist)
  moreover have "vm_inv ?st' ys A' pgd"
    using g I a tree_ok_link [OF nt] table_set_link [OF nt] by (auto simp: vm_inv_def)
  moreover have "descend (vm_tables ?st') pgd (p @ [i]) = Some a"
    using descend_link_new [OF nt, of "[]"] by simp
  moreover have "entry_base (vm_tables ?st' t i) = a"
    using new_tableD(10) [OF nt] by (simp add: link_def)
  moreover have "\<forall>q j. length q = 3 \<longrightarrow> idx_ok q \<longrightarrow> j < 512 \<longrightarrow>
      page_of (vm_tables ?st') pgd q j = page_of (vm_tables st) pgd q j"
    using page_of_link [OF nt] by simp
  moreover have "tables_frame st ?st' pgd A A'"
  proof -
    have "length p \<le> 3" using p by simp
    then have "t \<in> table_set (vm_tables st) pgd" using p t unfolding table_set_def by blast
    then show ?thesis using g(5,7,12) table_set_link [OF nt] taken by (auto simp: tables_frame_def link_def)
  qed
  ultimately show ?thesis
    using g(8,9) a(2) by (intro exI [of _ ?st'] exI [of _ ys] exI [of _ A'] exI [of _ a]) auto
qed


lemma fill_pte_ok:
  fixes rw us :: bool
  assumes inv: "vm_inv st xs A pgd" and p: "length p = 3" "idx_ok p" "i < 512"
    and t: "descend (vm_tables st) pgd p = Some t"
    and pa: "MEMUNIT_SZ dvd b" "b < 2 ^ 39" "to_address paddr = to_address b"
  defines "st' \<equiv> fill_pte t i paddr rw us st"
  shows "vm_inv st' xs A pgd"
    and "length q = 3 \<Longrightarrow> idx_ok q \<Longrightarrow> j < 512 \<Longrightarrow> page_of (vm_tables st') pgd q j =
      (if q = p \<and> j = i then Some b else page_of (vm_tables st) pgd q j)"
    and "tables_frame st st' pgd A A"
    and "length q \<le> 3 \<Longrightarrow> idx_ok q \<Longrightarrow> descend (vm_tables st') pgd q = descend (vm_tables st) pgd q"
proof -
  let ?T = "vm_tables st" and ?T' = "vm_tables st'"
  have I: "tree_ok ?T pgd" using inv by (simp add: vm_inv_def)
  obtain e where T': "?T' = ?T(t := (?T t)(i := e))" "pe_p e" "entry_base e = b"
    using entry_base_to_address [OF pa(1,2)] pa(3)
    by (auto simp: st'_def fill_pte_def set_entry_def Let_def)
  have d: "descend ?T' pgd q = descend ?T pgd q" if q: "length q \<le> 3" "idx_ok q" for q
  proof (rule descend_cong)
    fix q1 j r u
    assume q1: "q = q1 @ j # r" and u: "descend ?T pgd q1 = Some u"
    have "u \<noteq> t"
    proof
      assume "u = t"
      then have "q1 = p" using tree_ok_D [OF I _ _ _ p(2), of q1] q q1 u t p by auto
      with q q1 p show False by simp
    qed
    then show "pe_p (?T' u j) = pe_p (?T u j) \<and> (pe_p (?T u j) \<longrightarrow> entry_base (?T' u j) = entry_base (?T u j))"
      by (simp add: T'(1))
  qed
  show "length q \<le> 3 \<Longrightarrow> idx_ok q \<Longrightarrow> descend ?T' pgd q = descend ?T pgd q" by (rule d)
  have ts: "table_set ?T' pgd = table_set ?T pgd"
    unfolding table_set_def by (rule Collect_cong, rule ex_cong1) (use d in auto)
  moreover have "tree_ok ?T' pgd" using I d unfolding tree_ok_def by simp
  moreover have "vm_km st' = vm_km st" by (simp add: st'_def fill_pte_def set_entry_def Let_def)
  ultimately show "vm_inv st' xs A pgd" using inv by (simp add: vm_inv_def)
  have "t \<in> table_set ?T pgd" using p(1,2) t unfolding table_set_def by (metis (mono_tags, lifting) le_refl mem_Collect_eq)
  moreover have "vm_bytes st' = vm_bytes st" by (simp add: st'_def fill_pte_def set_entry_def Let_def)
  ultimately show "tables_frame st st' pgd A A" using ts by (auto simp: tables_frame_def T'(1))
  assume q: "length q = 3" "idx_ok q" "j < 512"
  then have dq: "descend ?T' pgd q = descend ?T pgd q" by (intro d) auto
  show "page_of ?T' pgd q j = (if q = p \<and> j = i then Some b else page_of ?T pgd q j)"
  proof (cases "q = p")
    case True
    then show ?thesis using dq t T' by (simp add: page_of_def)
  next
    case False
    then have "descend ?T pgd q \<noteq> Some t" using tree_ok_D [OF I, of q p t] q p t by auto
    with False dq show ?thesis by (cases "descend ?T pgd q") (auto simp: page_of_def T'(1))
  qed
qed

text \<open>Two virtual addresses that the tables cannot tell apart but for the offset.\<close>

definition same_page :: "nat \<Rightarrow> nat \<Rightarrow> bool" where
  "same_page v w \<longleftrightarrow> path v = path w \<and> vidx 12 v = vidx 12 w"

lemma digits_512:
  "n mod 512 ^ 4 = 512 * (512 * (512 * (n div 512 div 512 div 512 mod 512) + n div 512 div 512 mod 512)
     + n div 512 mod 512) + n mod 512" for n :: nat
proof -
  have "(512::nat) ^ 4 = 512 * (512 * (512 * 512))" by simp
  then show ?thesis by (simp only: mod_mult2_eq)
qed

lemma vidx_digits:
  "vidx 12 v = v div 4096 mod 512" "vidx 21 v = v div 4096 div 512 mod 512"
  "vidx 30 v = v div 4096 div 512 div 512 mod 512" "vidx 39 v = v div 4096 div 512 div 512 div 512 mod 512"
  by (simp_all add: vidx_def div_mult2_eq [symmetric])

lemma same_page_iff:
  assumes "v < 2 ^ 48" and "w < 2 ^ 48"
  shows "same_page v w \<longleftrightarrow> v div MEMUNIT_SZ = w div MEMUNIT_SZ"
proof
  assume "same_page v w"
  then have "v div 4096 mod 512 ^ 4 = w div 4096 mod 512 ^ 4"
    unfolding digits_512 same_page_def path_def vidx_digits by simp
  moreover have "u div 4096 < 512 ^ 4" if "u < 2 ^ 48" for u :: nat
    using that by (simp add: less_mult_imp_div_less)
  ultimately show "v div MEMUNIT_SZ = w div MEMUNIT_SZ" using assms by (metis mod_less)
next
  assume "v div MEMUNIT_SZ = w div MEMUNIT_SZ"
  then show "same_page v w" unfolding same_page_def path_def vidx_digits by simp
qed

text \<open>The effect of mapping one page on the translation.\<close>

definition maps_page :: "page_tables \<Rightarrow> page_tables \<Rightarrow> ptr \<Rightarrow> nat \<Rightarrow> ptr \<Rightarrow> bool" where
  "maps_page T T' pgd vaddr b \<longleftrightarrow> (\<forall>v. translate T' pgd v =
     (if same_page v vaddr then Some (b + v mod MEMUNIT_SZ) else translate T pgd v))"

lemma set_mapping1_ok:
  assumes inv: "vm_inv st xs A pgd" and room: "27 \<le> slots xs" "3 \<le> npages A" and pa: "paddr < 2 ^ 39"
  shows "\<exists>st' ys A'. set_mapping1 (Suc n) pgd vaddr paddr rw us st = Some (True, st')
    \<and> vm_inv st' ys A' pgd \<and> slots xs \<le> slots ys + 27 \<and> npages A \<le> npages A' + 3
    \<and> maps_page (vm_tables st) (vm_tables st') pgd vaddr (paddr div MEMUNIT_SZ * MEMUNIT_SZ)
    \<and> tables_frame st st' pgd A A'
    \<and> descend (vm_tables st') pgd (path vaddr) \<noteq> None"
proof -
  let ?i4 = "vidx 39 vaddr" and ?i3 = "vidx 30 vaddr" and ?i2 = "vidx 21 vaddr" and ?i1 = "vidx 12 vaddr"
  define b where "b = paddr div MEMUNIT_SZ * MEMUNIT_SZ"
  have b: "MEMUNIT_SZ dvd b" "b < 2 ^ 39" "to_address paddr = to_address b"
    using pa by (auto simp: b_def to_address_def)
  have "9 \<le> slots xs" "0 < npages A" using room by auto
  from fill_entry_ok [OF inv _ _ _ _ this, of "[]" ?i4 pgd n rw us] obtain s1 x1 A1 t1 where
    f1: "fill_entry (Suc n) pgd ?i4 rw us st = Some s1" "vm_inv s1 x1 A1 pgd" "slots xs \<le> slots x1 + 9"
      "npages A \<le> Suc (npages A1)" "t1 \<noteq> NULL" "entry_base (vm_tables s1 pgd ?i4) = t1"
      "descend (vm_tables s1) pgd [?i4] = Some t1"
      "\<forall>q j. length q = 3 \<longrightarrow> idx_ok q \<longrightarrow> j < 512 \<longrightarrow>
          page_of (vm_tables s1) pgd q j = page_of (vm_tables st) pgd q j"
      "tables_frame st s1 pgd A A1"
    by auto
  have "9 \<le> slots x1" "0 < npages A1" using room f1(3,4) by linarith+
  from fill_entry_ok [OF f1(2) _ _ _ _ this, of "[?i4]" ?i3 t1 n rw us] f1(7) obtain s2 x2 A2 t2 where
    f2: "fill_entry (Suc n) t1 ?i3 rw us s1 = Some s2" "vm_inv s2 x2 A2 pgd" "slots x1 \<le> slots x2 + 9"
      "npages A1 \<le> Suc (npages A2)" "t2 \<noteq> NULL" "entry_base (vm_tables s2 t1 ?i3) = t2"
      "descend (vm_tables s2) pgd [?i4, ?i3] = Some t2"
      "\<forall>q j. length q = 3 \<longrightarrow> idx_ok q \<longrightarrow> j < 512 \<longrightarrow>
          page_of (vm_tables s2) pgd q j = page_of (vm_tables s1) pgd q j"
      "tables_frame s1 s2 pgd A1 A2"
    by (auto simp del: descend.simps)
  have "9 \<le> slots x2" "0 < npages A2" using room f1(3,4) f2(3,4) by linarith+
  from fill_entry_ok [OF f2(2) _ _ _ _ this, of "[?i4, ?i3]" ?i2 t2 n rw us] f2(7) obtain s3 x3 A3 t3 where
    f3: "fill_entry (Suc n) t2 ?i2 rw us s2 = Some s3" "vm_inv s3 x3 A3 pgd" "slots x2 \<le> slots x3 + 9"
      "npages A2 \<le> Suc (npages A3)" "t3 \<noteq> NULL" "entry_base (vm_tables s3 t2 ?i2) = t3"
      "descend (vm_tables s3) pgd (path vaddr) = Some t3"
      "\<forall>q j. length q = 3 \<longrightarrow> idx_ok q \<longrightarrow> j < 512 \<longrightarrow>
          page_of (vm_tables s3) pgd q j = page_of (vm_tables s2) pgd q j"
      "tables_frame s2 s3 pgd A2 A3"
    unfolding path_def by (auto simp del: descend.simps)
  let ?s = "fill_pte t3 ?i1 paddr rw us s3"
  note fp = fill_pte_ok [where rw = rw and us = us, OF f3(2) length_path idx_ok_path vidx_less f3(7) b]
  have "set_mapping1 (Suc n) pgd vaddr paddr rw us st = Some (True, ?s)"
    using f1(1,5,6) f2(1,5,6) f3(1,5,6) by (simp add: set_mapping1_def)
  moreover have "maps_page (vm_tables st) (vm_tables ?s) pgd vaddr b"
    using fp(2) f1(8) f2(8) f3(8)
    by (auto simp: maps_page_def translate_def same_page_def)
  moreover have "slots xs \<le> slots x3 + 27" "npages A \<le> npages A3 + 3"
    using f1(3,4) f2(3,4) f3(3,4) by linarith+
  moreover have "tables_frame st ?s pgd A A3"
    using f1(9) f2(9) f3(9) fp(3) by (blast intro: tables_frame_trans)
  moreover have "descend (vm_tables ?s) pgd (path vaddr) \<noteq> None"
    using fp(4) [of "path vaddr"] f3(7) by simp
  ultimately show ?thesis using fp(1) by (auto simp: b_def)
qed

lemma descend_not_null:
  "tree_ok T pgd \<Longrightarrow> length p \<le> 3 \<Longrightarrow> idx_ok p \<Longrightarrow> descend T pgd p = Some t \<Longrightarrow> t \<noteq> NULL"
  unfolding tree_ok_def by blast

text \<open>Nothing is allocated when the tables for the page are there already.\<close>

lemma set_mapping1_present:
  assumes inv: "vm_inv st xs A pgd" and t: "descend (vm_tables st) pgd (path vaddr) = Some t3" and pa: "paddr < 2 ^ 39"
  shows "\<exists>st'. set_mapping1 (Suc n) pgd vaddr paddr rw us st = Some (True, st') \<and> vm_inv st' xs A pgd
    \<and> maps_page (vm_tables st) (vm_tables st') pgd vaddr (paddr div MEMUNIT_SZ * MEMUNIT_SZ)
    \<and> tables_frame st st' pgd A A
    \<and> descend (vm_tables st') pgd (path vaddr) \<noteq> None"
proof -
  let ?i4 = "vidx 39 vaddr" and ?i3 = "vidx 30 vaddr" and ?i2 = "vidx 21 vaddr" and ?i1 = "vidx 12 vaddr"
  let ?T = "vm_tables st"
  define b where "b = paddr div MEMUNIT_SZ * MEMUNIT_SZ"
  have b: "MEMUNIT_SZ dvd b" "b < 2 ^ 39" "to_address paddr = to_address b"
    using pa by (auto simp: b_def to_address_def)
  define t1 where "t1 = entry_base (?T pgd ?i4)"
  define t2 where "t2 = entry_base (?T t1 ?i3)"
  have p: "pe_p (?T pgd ?i4)" "pe_p (?T t1 ?i3)" "pe_p (?T t2 ?i2)" "entry_base (?T t2 ?i2) = t3"
    using t by (auto simp: path_def t1_def t2_def split: if_splits)
  have "descend ?T pgd [?i4] = Some t1" "descend ?T pgd [?i4, ?i3] = Some t2"
    using p by (simp_all add: t1_def t2_def)
  then have nn: "t1 \<noteq> NULL" "t2 \<noteq> NULL" "t3 \<noteq> NULL"
    using inv t descend_not_null [of ?T pgd "[?i4]"] descend_not_null [of ?T pgd "[?i4, ?i3]"]
      descend_not_null [of ?T pgd "path vaddr"]
    by (simp_all add: vm_inv_def del: descend.simps)
  let ?s = "fill_pte t3 ?i1 paddr rw us st"
  note fp = fill_pte_ok [where rw = rw and us = us, OF inv length_path idx_ok_path vidx_less t b]
  have "set_mapping1 (Suc n) pgd vaddr paddr rw us st = Some (True, ?s)"
    using p nn by (simp add: set_mapping1_def fill_entry_def t1_def [symmetric] t2_def [symmetric])
  moreover have "maps_page ?T (vm_tables ?s) pgd vaddr b"
    using fp(2) by (auto simp: maps_page_def translate_def same_page_def)
  moreover have "descend (vm_tables ?s) pgd (path vaddr) \<noteq> None" using fp(4) [of "path vaddr"] t by simp
  ultimately show ?thesis using fp(1,3) unfolding b_def by blast
qed


section \<open>Mapping ranges\<close>

lemma maps_page_physical:
  assumes "maps_page T T' pgd vaddr b" and "v < 2 ^ 48" and "vaddr < 2 ^ 48"
  shows "translate T' pgd v = (if v div MEMUNIT_SZ = vaddr div MEMUNIT_SZ then Some (b + v mod MEMUNIT_SZ)
    else translate T pgd v)"
  using assms same_page_iff [OF assms(2,3)] unfolding maps_page_def by simp

text \<open>
  The number of lowest tables that \<open>m\<close> consecutive pages from page number \<open>p\<close> on need, and what is missing of them
  when the tables of the first page may be there already.
\<close>

definition leaf_tables :: "nat \<Rightarrow> nat \<Rightarrow> nat" where
  "leaf_tables p m = (if m = 0 then 0 else (p + m - 1) div 512 - p div 512 + 1)"

definition missing :: "vmem \<Rightarrow> ptr \<Rightarrow> nat \<Rightarrow> nat \<Rightarrow> nat" where
  "missing st pgd p m = leaf_tables p m - (if descend (vm_tables st) pgd (path (p * MEMUNIT_SZ)) = None then 0 else 1)"

lemma leaf_tables_Suc:
  "leaf_tables p (Suc m) = leaf_tables (Suc p) m + (if m = 0 \<or> Suc p mod 512 = 0 then 1 else 0)"
proof (cases "m = 0")
  case False
  then obtain j where m: "m = Suc j" by (cases m) auto
  have "Suc p div 512 = (if Suc p mod 512 = 0 then Suc (p div 512) else p div 512)" by (rule div_Suc)
  moreover have "Suc p div 512 \<le> (Suc p + j) div 512" by (rule div_le_mono) simp
  ultimately show ?thesis by (simp add: leaf_tables_def m)
qed (simp add: leaf_tables_def)

lemma leaf_tables_le: "leaf_tables p m \<le> m" "leaf_tables p m \<le> m div 512 + 2"
proof -
  show "leaf_tables p m \<le> m" by (induction m arbitrary: p) (auto simp: leaf_tables_Suc leaf_tables_def [of _ 0] intro: le_SucI)
  have "(p + m - 1) div 512 \<le> (p + m) div 512" by (rule div_le_mono) simp
  then show "leaf_tables p m \<le> m div 512 + 2"
    using div_add1_eq [of p m 512] by (simp add: leaf_tables_def) linarith
qed

lemma missing_le: "missing st pgd p m \<le> leaf_tables p m"
  by (simp add: missing_def)

lemma missing_step:
  assumes "descend (vm_tables st') pgd (path (p * MEMUNIT_SZ)) \<noteq> None"
  shows "missing st' pgd (Suc p) m + (if descend (vm_tables st) pgd (path (p * MEMUNIT_SZ)) = None then 1 else 0)
    \<le> missing st pgd p (Suc m)"
proof (cases "m = 0 \<or> Suc p mod 512 = 0")
  case True
  then show ?thesis
    using missing_le [of st' pgd "Suc p" m] by (auto simp: missing_def [of st] leaf_tables_Suc)
next
  case False
  then have "Suc p div 512 = p div 512" by (simp add: div_Suc)
  then have "path (Suc p * MEMUNIT_SZ) = path (p * MEMUNIT_SZ)"
    unfolding path_def vidx_digits by simp
  moreover have "0 < leaf_tables (Suc p) m" using False by (simp add: leaf_tables_def)
  ultimately show ?thesis
    using False assms by (auto simp: missing_def leaf_tables_Suc)
qed

text \<open>The pages within 2 GiB follow each other; the next one lies 2 GiB below the first.\<close>

lemma page_at_mod: "i < 2 ^ 19 \<Longrightarrow> page_at p i = (p + i * MEMUNIT_SZ) mod 2 ^ 64"
proof -
  assume "i < 2 ^ 19"
  then have "wrap32 (int i * int MEMUNIT_SZ) = int (i * MEMUNIT_SZ)"
    by (subst wrap32_id) auto
  then have "page_at p i = nat (int (p + i * MEMUNIT_SZ) mod int (2 ^ 64))" by (simp add: page_at_def)
  then show ?thesis by (simp only: zmod_int [symmetric] nat_int)
qed

lemma page_at_less: "i < 2 ^ 19 \<Longrightarrow> p + i * MEMUNIT_SZ < 2 ^ 64 \<Longrightarrow> page_at p i = p + i * MEMUNIT_SZ"
  by (simp add: page_at_mod)

lemma page_at_wraps: "2 ^ 31 \<le> p \<Longrightarrow> p < 2 ^ 64 \<Longrightarrow> page_at p (2 ^ 19) = p - 2 ^ 31"
proof -
  assume "2 ^ 31 \<le> p" and "p < 2 ^ 64"
  moreover have "wrap32 (int (2 ^ 19) * int MEMUNIT_SZ) = - (2 ^ 31)"
    by (simp add: wrap32_def signed_take_bit_eq_take_bit_shift take_bit_eq_mod)
  ultimately show ?thesis unfolding page_at_def by (simp add: nat_eq_iff)
qed

lemma get_physical_address_mod: "get_physical_address T pgd (v mod 2 ^ 64) = get_physical_address T pgd v"
proof -
  have d: "v mod 2 ^ 64 div 2 ^ k mod 2 ^ n = v div 2 ^ k mod 2 ^ n" if "k + n \<le> 64" for k n
  proof -
    have "take_bit n (drop_bit k (take_bit 64 v)) = take_bit n (drop_bit k v)"
      using le_diff_conv2 [of k 64 n] that by (simp add: drop_bit_take_bit min_absorb1 add.commute)
    then show ?thesis by (simp only: take_bit_eq_mod drop_bit_eq_div)
  qed
  show ?thesis
    using d [of 0 12] d [of 12 9] d [of 21 9] d [of 30 9] d [of 39 9]
    by (simp add: get_physical_address_def Let_def div_mult2_eq [symmetric])
qed

lemma set_mapping_loop_ok:
  assumes "vm_inv st xs A pgd" and "27 * missing st pgd (vaddr div MEMUNIT_SZ + k) m \<le> slots xs"
    and "3 * missing st pgd (vaddr div MEMUNIT_SZ + k) m \<le> npages A"
    and "paddr + (k + m) * MEMUNIT_SZ \<le> 2 ^ 39" and "MEMUNIT_SZ dvd vaddr" and "vaddr + (k + m) * MEMUNIT_SZ \<le> 2 ^ 48"
    and "k + m \<le> 2 ^ 19"
  shows "\<exists>st' ys A'. set_mapping_loop (Suc n) pgd vaddr paddr rw us [k..<k + m] st = Some (True, st')
    \<and> vm_inv st' ys A' pgd
    \<and> (\<forall>v < 2 ^ 48. translate (vm_tables st') pgd v =
        (if vaddr div MEMUNIT_SZ + k \<le> v div MEMUNIT_SZ \<and> v div MEMUNIT_SZ < vaddr div MEMUNIT_SZ + k + m
         then Some ((paddr div MEMUNIT_SZ + (v div MEMUNIT_SZ - vaddr div MEMUNIT_SZ)) * MEMUNIT_SZ + v mod MEMUNIT_SZ)
         else translate (vm_tables st) pgd v))
    \<and> tables_frame st st' pgd A A'
    \<and> slots xs \<le> slots ys + 27 * missing st pgd (vaddr div MEMUNIT_SZ + k) m
    \<and> npages A \<le> npages A' + 3 * missing st pgd (vaddr div MEMUNIT_SZ + k) m"
  using assms
proof (induction m arbitrary: k st xs A)
  case 0
  then show ?case by (intro exI [of _ st] exI [of _ xs] exI [of _ A]) auto
next
  case (Suc m)
  have up: "[k..<k + Suc m] = k # [Suc k..<Suc k + m]" by (simp add: upt_conv_Cons)
  define w where "w = vaddr + k * MEMUNIT_SZ"
  define p where "p = paddr + k * MEMUNIT_SZ"
  have p: "p < 2 ^ 39" "p div MEMUNIT_SZ = paddr div MEMUNIT_SZ + k"
    using Suc.prems(4) by (auto simp: p_def)
  have w: "w < 2 ^ 48" "w div MEMUNIT_SZ = vaddr div MEMUNIT_SZ + k"
    using Suc.prems(6) by (auto simp: w_def)
  let ?q = "vaddr div MEMUNIT_SZ + k"
  have q: "?q * MEMUNIT_SZ = w" using Suc.prems(5) by (simp add: w_def)
  define new where "new = (if descend (vm_tables st) pgd (path w) = None then 1 else 0 :: nat)"
  have need: "missing s1 pgd (Suc ?q) m + new \<le> missing st pgd ?q (Suc m)"
    if "descend (vm_tables s1) pgd (path w) \<noteq> None" for s1
    using missing_step [of s1 pgd ?q m st] that unfolding q new_def by simp
  have "\<exists>s1 ys A1. set_mapping1 (Suc n) pgd w p rw us st = Some (True, s1) \<and> vm_inv s1 ys A1 pgd
      \<and> slots xs \<le> slots ys + 27 * new \<and> npages A \<le> npages A1 + 3 * new
      \<and> maps_page (vm_tables st) (vm_tables s1) pgd w (p div MEMUNIT_SZ * MEMUNIT_SZ) \<and> tables_frame st s1 pgd A A1
      \<and> descend (vm_tables s1) pgd (path w) \<noteq> None"
  proof (cases "descend (vm_tables st) pgd (path w)")
    case None
    then have "1 \<le> missing st pgd ?q (Suc m)" unfolding missing_def q by (simp add: leaf_tables_def)
    then have "27 \<le> slots xs" "3 \<le> npages A" using Suc.prems(2,3) by linarith+
    from set_mapping1_ok [OF Suc.prems(1) this p(1), of n w rw us] None show ?thesis
      by (simp add: new_def)
  next
    case (Some t3)
    from set_mapping1_present [OF Suc.prems(1) Some p(1), of n rw us] Some show ?thesis by (auto simp: new_def)
  qed
  then obtain s1 ys A1 where
    s1: "set_mapping1 (Suc n) pgd w p rw us st = Some (True, s1)" "vm_inv s1 ys A1 pgd"
      "slots xs \<le> slots ys + 27 * new" "npages A \<le> npages A1 + 3 * new"
      "maps_page (vm_tables st) (vm_tables s1) pgd w (p div MEMUNIT_SZ * MEMUNIT_SZ)" "tables_frame st s1 pgd A A1"
      "descend (vm_tables s1) pgd (path w) \<noteq> None" by blast
  note need = need [OF s1(7)]
  have Sq: "vaddr div MEMUNIT_SZ + Suc k = Suc ?q" by simp
  have "27 * missing s1 pgd (vaddr div MEMUNIT_SZ + Suc k) m \<le> slots ys"
      "3 * missing s1 pgd (vaddr div MEMUNIT_SZ + Suc k) m \<le> npages A1"
      "paddr + (Suc k + m) * MEMUNIT_SZ \<le> 2 ^ 39" "vaddr + (Suc k + m) * MEMUNIT_SZ \<le> 2 ^ 48"
    unfolding Sq using Suc.prems(2-4,6) s1(3,4) need by simp_all
  note room = this
  have "Suc k + m \<le> 2 ^ 19" using Suc.prems(7) by simp
  from Suc.IH [OF s1(2) room(1-3) Suc.prems(5) room(4) this] obtain s2 zs A2 where
    s2: "set_mapping_loop (Suc n) pgd vaddr paddr rw us [Suc k..<Suc k + m] s1 = Some (True, s2)"
      "vm_inv s2 zs A2 pgd"
      "\<forall>v < 2 ^ 48. translate (vm_tables s2) pgd v =
        (if vaddr div MEMUNIT_SZ + Suc k \<le> v div MEMUNIT_SZ \<and> v div MEMUNIT_SZ < vaddr div MEMUNIT_SZ + Suc k + m
         then Some ((paddr div MEMUNIT_SZ + (v div MEMUNIT_SZ - vaddr div MEMUNIT_SZ)) * MEMUNIT_SZ + v mod MEMUNIT_SZ)
         else translate (vm_tables s1) pgd v)"
      "tables_frame s1 s2 pgd A1 A2" "slots ys \<le> slots zs + 27 * missing s1 pgd (vaddr div MEMUNIT_SZ + Suc k) m"
      "npages A1 \<le> npages A2 + 3 * missing s1 pgd (vaddr div MEMUNIT_SZ + Suc k) m" by blast
  have "page_at vaddr k = w" "page_at paddr k = p"
    unfolding w_def p_def by (rule page_at_less; use Suc.prems(4,6,7) in simp)+
  then have "set_mapping_loop (Suc n) pgd vaddr paddr rw us [k..<k + Suc m] st = Some (True, s2)"
    unfolding up using s1(1) s2(1) by (simp del: upt_Suc)
  moreover have "translate (vm_tables s2) pgd v =
        (if vaddr div MEMUNIT_SZ + k \<le> v div MEMUNIT_SZ \<and> v div MEMUNIT_SZ < vaddr div MEMUNIT_SZ + k + Suc m
         then Some ((paddr div MEMUNIT_SZ + (v div MEMUNIT_SZ - vaddr div MEMUNIT_SZ)) * MEMUNIT_SZ + v mod MEMUNIT_SZ)
         else translate (vm_tables st) pgd v)" if v: "v < 2 ^ 48" for v
    using maps_page_physical [OF s1(5) v w(1)] s2(3) v unfolding w(2) p(2) by auto
  moreover have "slots xs \<le> slots zs + 27 * missing st pgd ?q (Suc m)" "npages A \<le> npages A2 + 3 * missing st pgd ?q (Suc m)"
    using s1(3,4) s2(5,6) need unfolding Sq by simp_all
  ultimately show ?case
    using s2(2) tables_frame_trans [OF s1(6) s2(4)] by (intro exI [of _ s2] exI [of _ zs] exI [of _ A2]) auto
qed

section \<open>Sharing pages between address spaces\<close>

text \<open>The tables under \<open>src\<close> are neither tables under \<open>pgd\<close> nor free memory.\<close>

definition other_space :: "page_tables \<Rightarrow> free_lists \<Rightarrow> ptr \<Rightarrow> ptr \<Rightarrow> bool" where
  "other_space T A pgd src \<longleftrightarrow> table_set T src \<inter> (table_set T pgd \<union> free_mem A) = {}"

lemma translate_unchanged:
  assumes "\<And>u. u \<in> table_set T src \<Longrightarrow> T' u = T u"
  shows "translate T' src v = translate T src v" and "table_set T' src = table_set T src"
proof -
  have d: "descend T' src q = descend T src q" if q: "length q \<le> 3" "idx_ok q" for q
  proof (rule descend_cong)
    fix q1 i r u
    assume "q = q1 @ i # r" and "descend T src q1 = Some u"
    then have "u \<in> table_set T src" using q unfolding table_set_def by (intro CollectI exI [of _ q1]) auto
    then show "pe_p (T' u i) = pe_p (T u i) \<and> (pe_p (T u i) \<longrightarrow> entry_base (T' u i) = entry_base (T u i))"
      using assms by simp
  qed
  have "u \<in> table_set T src" if "descend T src (path v) = Some u" for u
    using that unfolding table_set_def by (intro CollectI exI [of _ "path v"]) auto
  then show "translate T' src v = translate T src v"
    using d [of "path v"] assms by (cases "descend T src (path v)") (simp_all add: translate_def page_of_def)
  show "table_set T' src = table_set T src"
    unfolding table_set_def by (rule Collect_cong, rule ex_cong1) (use d in auto)
qed

lemma other_space_frame:
  assumes "tables_frame st st' pgd A A'" and "other_space (vm_tables st) A pgd src"
  shows "other_space (vm_tables st') A' pgd src"
    and "get_physical_address (vm_tables st') src v = get_physical_address (vm_tables st) src v"
proof -
  have same: "vm_tables st' u = vm_tables st u" if "u \<in> table_set (vm_tables st) src" for u
    using assms that unfolding tables_frame_def other_space_def by blast
  show "get_physical_address (vm_tables st') src v = get_physical_address (vm_tables st) src v"
    by (simp add: get_physical_address_translate translate_unchanged(1) [OF same])
  have "table_set (vm_tables st') src = table_set (vm_tables st) src"
    by (rule translate_unchanged(2)) (rule same)
  then show "other_space (vm_tables st') A' pgd src"
    using assms unfolding other_space_def tables_frame_def by (simp only:) blast
qed

lemma get_physical_address_page:
  assumes "MEMUNIT_SZ dvd v"
  shows "MEMUNIT_SZ dvd get_physical_address T pgd v" and "get_physical_address T pgd v < 2 ^ 39"
proof -
  have e: "MEMUNIT_SZ dvd entry_base e" "entry_base e < 2 ^ 39" for e
    by (simp_all add: entry_base_def dvd_mod)
  have "get_physical_address T pgd v = NULL \<or> (\<exists>e. get_physical_address T pgd v = entry_base e)"
    using assms by (cases "translate T pgd v")
      (auto simp: get_physical_address_translate translate_def page_of_def bind_iff mod_0_imp_dvd)
  then show "MEMUNIT_SZ dvd get_physical_address T pgd v" "get_physical_address T pgd v < 2 ^ 39"
    using e by auto
qed

lemma set_mappingvv_loop_ok:
  assumes "vm_inv st xs A pgd" and "other_space (vm_tables st) A pgd src"
    and "27 * m \<le> slots xs" and "3 * m \<le> npages A"
    and "MEMUNIT_SZ dvd src_addr" and "MEMUNIT_SZ dvd vaddr" and "vaddr + (k + m) * MEMUNIT_SZ \<le> 2 ^ 48"
    and "k + m \<le> 2 ^ 19"
  shows "\<exists>st' ys A'. set_mappingvv_loop (Suc n) src src_addr pgd vaddr rw us [k..<k + m] st = Some (True, st')
    \<and> vm_inv st' ys A' pgd \<and> tables_frame st st' pgd A A'
    \<and> (\<forall>v < 2 ^ 48. translate (vm_tables st') pgd v =
        (if vaddr div MEMUNIT_SZ + k \<le> v div MEMUNIT_SZ \<and> v div MEMUNIT_SZ < vaddr div MEMUNIT_SZ + k + m
         then Some (get_physical_address (vm_tables st) src (src_addr + (v div MEMUNIT_SZ - vaddr div MEMUNIT_SZ) * MEMUNIT_SZ)
           + v mod MEMUNIT_SZ)
         else translate (vm_tables st) pgd v))"
  using assms
proof (induction m arbitrary: k st xs A)
  case 0
  then show ?case by (intro exI [of _ st] exI [of _ xs] exI [of _ A]) auto
next
  case (Suc m)
  have up: "[k..<k + Suc m] = k # [Suc k..<Suc k + m]" by (simp add: upt_conv_Cons)
  define w where "w = vaddr + k * MEMUNIT_SZ"
  define p where "p = get_physical_address (vm_tables st) src (src_addr + k * MEMUNIT_SZ)"
  have p: "p < 2 ^ 39" "p div MEMUNIT_SZ * MEMUNIT_SZ = p"
    using get_physical_address_page [of "src_addr + k * MEMUNIT_SZ" "vm_tables st" src] Suc.prems(5) by (simp_all add: p_def)
  have w: "w < 2 ^ 48" "w div MEMUNIT_SZ = vaddr div MEMUNIT_SZ + k"
    using Suc.prems(7) by (auto simp: w_def)
  have "27 \<le> slots xs" "3 \<le> npages A" using Suc.prems(3,4) by auto
  from set_mapping1_ok [OF Suc.prems(1) this p(1), of n w rw us] obtain s1 ys A1 where
    s1: "set_mapping1 (Suc n) pgd w p rw us st = Some (True, s1)" "vm_inv s1 ys A1 pgd"
      "slots xs \<le> slots ys + 27" "npages A \<le> npages A1 + 3"
      "maps_page (vm_tables st) (vm_tables s1) pgd w p" "tables_frame st s1 pgd A A1"
    unfolding p(2) by blast
  note o1 = other_space_frame [OF s1(6) Suc.prems(2)]
  have "27 * m \<le> slots ys" "3 * m \<le> npages A1" "vaddr + (Suc k + m) * MEMUNIT_SZ \<le> 2 ^ 48"
    using Suc.prems s1(3,4) by auto
  note room = this
  have "Suc k + m \<le> 2 ^ 19" using Suc.prems(8) by simp
  from Suc.IH [OF s1(2) o1(1) room(1,2) Suc.prems(5,6) room(3) this] obtain s2 zs A2 where
    s2: "set_mappingvv_loop (Suc n) src src_addr pgd vaddr rw us [Suc k..<Suc k + m] s1 = Some (True, s2)"
      "vm_inv s2 zs A2 pgd" "tables_frame s1 s2 pgd A1 A2"
      "\<forall>v < 2 ^ 48. translate (vm_tables s2) pgd v =
        (if vaddr div MEMUNIT_SZ + Suc k \<le> v div MEMUNIT_SZ \<and> v div MEMUNIT_SZ < vaddr div MEMUNIT_SZ + Suc k + m
         then Some (get_physical_address (vm_tables s1) src (src_addr + (v div MEMUNIT_SZ - vaddr div MEMUNIT_SZ) * MEMUNIT_SZ)
           + v mod MEMUNIT_SZ)
         else translate (vm_tables s1) pgd v)" by blast
  have "page_at vaddr k = w"
    unfolding w_def by (rule page_at_less; use Suc.prems(7,8) in simp)
  moreover have "get_physical_address (vm_tables st) src (page_at src_addr k) = p"
    using Suc.prems(8) by (simp only: page_at_mod p_def get_physical_address_mod)
  ultimately have "set_mappingvv_loop (Suc n) src src_addr pgd vaddr rw us [k..<k + Suc m] st = Some (True, s2)"
    unfolding up using s1(1) s2(1) by (simp del: upt_Suc)
  moreover have "translate (vm_tables s2) pgd v =
        (if vaddr div MEMUNIT_SZ + k \<le> v div MEMUNIT_SZ \<and> v div MEMUNIT_SZ < vaddr div MEMUNIT_SZ + k + Suc m
         then Some (get_physical_address (vm_tables st) src (src_addr + (v div MEMUNIT_SZ - vaddr div MEMUNIT_SZ) * MEMUNIT_SZ)
           + v mod MEMUNIT_SZ)
         else translate (vm_tables st) pgd v)" if v: "v < 2 ^ 48" for v
    using maps_page_physical [OF s1(5) v w(1)] s2(4) v o1(2) unfolding w(2) by (auto simp: p_def)
  ultimately show ?case using s2(2) tables_frame_trans [OF s1(6) s2(3)] by auto
qed

lemma create_pgd_ok:
  assumes "pmm_inv (vm_km st) xs A" "no_overlap A" "aligned A" "free_mem A \<subseteq> {MEMUNIT_SZ ..< 2 ^ 39}"
    and "9 \<le> slots xs" "0 < npages A"
  shows "\<exists>pgd st' ys A'. create_pgd (Suc n) st = Some (pgd, st') \<and> vm_inv st' ys A' pgd
    \<and> slots xs \<le> slots ys + 9 \<and> npages A = Suc (npages A')
    \<and> (\<forall>p. p \<notin> free_mem A \<longrightarrow> vm_bytes st' p = vm_bytes st p)
    \<and> page_taken A A' \<and> free_mem A' \<subseteq> free_mem A
    \<and> (\<forall>v. get_physical_address (vm_tables st') pgd v = NULL)"
proof -
  obtain a km ys A' where g: "get_free_page (Suc n) st =
       Some (a, st\<lparr>vm_km := km, vm_tables := (vm_tables st)(a := \<lambda>_. zero_entry), vm_bytes := zero_page a (vm_bytes st)\<rparr>)"
      "pmm_inv km ys A'" "no_overlap A'" "aligned A'" "a \<in> free_mem A" "a \<notin> free_mem A'"
      "free_mem A' \<subseteq> free_mem A" "slots xs \<le> slots ys + 9" "npages A = Suc (npages A')" "spec_alloc 0 A = Some (a, A')"
      "\<forall>p. p \<notin> free_mem A \<longrightarrow> zero_page a (vm_bytes st) p = vm_bytes st p"
    using get_free_page_ok [OF assms] by blast
  let ?T = "(vm_tables st)(a := \<lambda>_. zero_entry)"
  have d: "descend ?T a p = Some t \<longleftrightarrow> p = [] \<and> t = a" for p t
    by (cases p) (auto simp: zero_entry_def)
  have "a \<noteq> NULL" using g(5) assms(4) by auto
  then have "tree_ok ?T a" "table_set ?T a = {a}"
    unfolding tree_ok_def table_set_def by (auto simp: d)
  moreover have "translate ?T a v = None" for v
    by (simp add: translate_def page_of_def path_def zero_entry_def)
  ultimately show ?thesis
    using g assms(4)
    by (intro exI [of _ a] exI [of _ "st\<lparr>vm_km := km, vm_tables := ?T, vm_bytes := zero_page a (vm_bytes st)\<rparr>"] exI [of _ ys] exI [of _ A'])
      (auto simp: create_pgd_def vm_inv_def get_physical_address_translate page_taken_def)
qed

section \<open>Copying through the tables\<close>

lemma pvmemcpy_bytes:
  assumes "\<forall>k<n. get_physical_address (vm_tables st) pgd (v + k) \<noteq> NULL"
    and "inj_on (\<lambda>k. get_physical_address (vm_tables st) pgd (v + k)) {..<n}"
    and "\<forall>k<n. \<forall>l<n. get_physical_address (vm_tables st) pgd (v + k) \<noteq> src + l"
  shows "\<exists>st'. pvmemcpy pgd v src n st = Some st' \<and> vm_tables st' = vm_tables st \<and> vm_km st' = vm_km st
    \<and> (\<forall>k<n. vm_bytes st' (get_physical_address (vm_tables st) pgd (v + k)) = vm_bytes st (src + k))
    \<and> (\<forall>p. (\<forall>k<n. p \<noteq> get_physical_address (vm_tables st) pgd (v + k)) \<longrightarrow> vm_bytes st' p = vm_bytes st p)"
  using assms
proof (induction n arbitrary: v src st)
  case 0
  then show ?case by simp
next
  case (Suc n)
  let ?pa = "\<lambda>k. get_physical_address (vm_tables st) pgd (v + k)"
  let ?s = "st\<lparr>vm_bytes := (vm_bytes st)(?pa 0 := vm_bytes st src)\<rparr>"
  have w: "v_write pgd v (vm_bytes st src) st = Some ?s"
    using Suc.prems(1) [rule_format, of 0] by (simp add: v_write_def Let_def)
  have shift: "?pa (Suc k) = get_physical_address (vm_tables ?s) pgd (v + 1 + k)" for k by simp
  have "\<exists>st'. pvmemcpy pgd (v + 1) (src + 1) n ?s = Some st' \<and> vm_tables st' = vm_tables ?s \<and> vm_km st' = vm_km ?s
    \<and> (\<forall>k<n. vm_bytes st' (get_physical_address (vm_tables ?s) pgd (v + 1 + k)) = vm_bytes ?s (src + 1 + k))
    \<and> (\<forall>p. (\<forall>k<n. p \<noteq> get_physical_address (vm_tables ?s) pgd (v + 1 + k)) \<longrightarrow> vm_bytes st' p = vm_bytes ?s p)"
  proof (rule Suc.IH)
    show "\<forall>k<n. get_physical_address (vm_tables ?s) pgd (v + 1 + k) \<noteq> NULL"
    proof (intro allI impI)
      fix k
      assume "k < n"
      then show "get_physical_address (vm_tables ?s) pgd (v + 1 + k) \<noteq> NULL"
        using Suc.prems(1) [rule_format, of "Suc k"] by simp
    qed
    show "inj_on (\<lambda>k. get_physical_address (vm_tables ?s) pgd (v + 1 + k)) {..<n}"
    proof (rule inj_onI)
      fix k l
      assume "k \<in> {..<n}" "l \<in> {..<n}" "get_physical_address (vm_tables ?s) pgd (v + 1 + k) =
        get_physical_address (vm_tables ?s) pgd (v + 1 + l)"
      then show "k = l" using inj_onD [OF Suc.prems(2), of "Suc k" "Suc l"] by simp
    qed
    show "\<forall>k<n. \<forall>l<n. get_physical_address (vm_tables ?s) pgd (v + 1 + k) \<noteq> src + 1 + l"
    proof (intro allI impI)
      fix k l
      assume "k < n" "l < n"
      then show "get_physical_address (vm_tables ?s) pgd (v + 1 + k) \<noteq> src + 1 + l"
        using Suc.prems(3) [rule_format, of "Suc k" "Suc l"] by simp
    qed
  qed
  then obtain s' where s': "pvmemcpy pgd (v + 1) (src + 1) n ?s = Some s'" "vm_tables s' = vm_tables st"
      "vm_km s' = vm_km st" "\<forall>k<n. vm_bytes s' (?pa (Suc k)) = vm_bytes ?s (src + Suc k)"
      "\<forall>p. (\<forall>k<n. p \<noteq> ?pa (Suc k)) \<longrightarrow> vm_bytes s' p = vm_bytes ?s p"
    by auto
  have inj: "?pa 0 \<noteq> ?pa (Suc k)" if "k < n" for k
    using inj_onD [OF Suc.prems(2), of 0 "Suc k"] that by auto
  have far: "?pa 0 \<noteq> src + Suc k" if "k < n" for k
    using Suc.prems(3) [rule_format, of 0 "Suc k"] that by simp
  have "vm_bytes s' (?pa k) = vm_bytes st (src + k)" if k: "k < Suc n" for k
  proof (cases k)
    case 0
    then show ?thesis using s'(5) inj by (auto dest!: spec [of _ "?pa 0"])
  next
    case (Suc j)
    then show ?thesis using s'(4) far [of j] k by auto
  qed
  moreover have "vm_bytes s' p = vm_bytes st p" if "\<forall>k<Suc n. p \<noteq> ?pa k" for p
  proof -
    have "p \<noteq> ?pa 0" "\<forall>k<n. p \<noteq> ?pa (Suc k)" using that by blast+
    then show ?thesis using s'(5) by simp
  qed
  ultimately show ?case using w s'(1-3) by auto
qed

lemma vpmemcpy_bytes:
  assumes "\<forall>k<n. get_physical_address (vm_tables st) pgd (v + k) \<noteq> NULL"
    and "\<forall>k<n. \<forall>l<n. get_physical_address (vm_tables st) pgd (v + k) \<noteq> dst + l"
  shows "\<exists>st'. vpmemcpy dst pgd v n st = Some st' \<and> vm_tables st' = vm_tables st \<and> vm_km st' = vm_km st
    \<and> (\<forall>k<n. vm_bytes st' (dst + k) = vm_bytes st (get_physical_address (vm_tables st) pgd (v + k)))
    \<and> (\<forall>p. p \<notin> {dst..<dst + n} \<longrightarrow> vm_bytes st' p = vm_bytes st p)"
  using assms
proof (induction n arbitrary: v dst st)
  case 0
  then show ?case by simp
next
  case (Suc n)
  let ?pa = "\<lambda>k. get_physical_address (vm_tables st) pgd (v + k)"
  let ?s = "st\<lparr>vm_bytes := (vm_bytes st)(dst := vm_bytes st (?pa 0))\<rparr>"
  have r: "v_read pgd v st = Some (vm_bytes st (?pa 0))"
    using Suc.prems(1) [rule_format, of 0] by (simp add: v_read_def Let_def)
  have shift: "?pa (Suc k) = get_physical_address (vm_tables ?s) pgd (v + 1 + k)" for k by simp
  have "\<exists>st'. vpmemcpy (dst + 1) pgd (v + 1) n ?s = Some st' \<and> vm_tables st' = vm_tables ?s \<and> vm_km st' = vm_km ?s
    \<and> (\<forall>k<n. vm_bytes st' (dst + 1 + k) = vm_bytes ?s (get_physical_address (vm_tables ?s) pgd (v + 1 + k)))
    \<and> (\<forall>p. p \<notin> {dst + 1..<dst + 1 + n} \<longrightarrow> vm_bytes st' p = vm_bytes ?s p)"
  proof (rule Suc.IH)
    show "\<forall>k<n. get_physical_address (vm_tables ?s) pgd (v + 1 + k) \<noteq> NULL"
    proof (intro allI impI)
      fix k
      assume "k < n"
      then show "get_physical_address (vm_tables ?s) pgd (v + 1 + k) \<noteq> NULL"
        using Suc.prems(1) [rule_format, of "Suc k"] by simp
    qed
    show "\<forall>k<n. \<forall>l<n. get_physical_address (vm_tables ?s) pgd (v + 1 + k) \<noteq> dst + 1 + l"
    proof (intro allI impI)
      fix k l
      assume "k < n" "l < n"
      then show "get_physical_address (vm_tables ?s) pgd (v + 1 + k) \<noteq> dst + 1 + l"
        using Suc.prems(2) [rule_format, of "Suc k" "Suc l"] by simp
    qed
  qed
  then obtain s' where s': "vpmemcpy (dst + 1) pgd (v + 1) n ?s = Some s'" "vm_tables s' = vm_tables st"
      "vm_km s' = vm_km st" "\<forall>k<n. vm_bytes s' (dst + Suc k) = vm_bytes ?s (?pa (Suc k))"
      "\<forall>p. p \<notin> {dst + 1..<dst + 1 + n} \<longrightarrow> vm_bytes s' p = vm_bytes ?s p"
    by auto
  have far: "?pa (Suc k) \<noteq> dst" if "k < n" for k
    using Suc.prems(2) [rule_format, of "Suc k" 0] that by simp
  have "vm_bytes s' (dst + k) = vm_bytes st (?pa k)" if k: "k < Suc n" for k
  proof (cases k)
    case 0
    then show ?thesis using s'(5) by auto
  next
    case (Suc j)
    then show ?thesis using s'(4) far [of j] k by auto
  qed
  moreover have "vm_bytes s' p = vm_bytes st p" if "p \<notin> {dst..<dst + Suc n}" for p
    using s'(5) that by auto
  ultimately show ?case using r s'(1-3) by auto
qed


section \<open>Properties\<close>

lemma set_mapping_ok:
  assumes "vm_inv st xs A pgd"
    and "27 * leaf_tables (vaddr div 4096) pages \<le> slots xs" and "3 * leaf_tables (vaddr div 4096) pages \<le> npages A"
    and "paddr + pages * 4096 \<le> 2 ^ 39" and "vaddr + pages * 4096 \<le> 2 ^ 48"
    and "pages \<le> 2 ^ 19"
  shows "\<exists>st' ys A'. set_mapping (Suc n) pgd vaddr paddr pages rw us st = Some (True, st')
    \<and> vm_inv st' ys A' pgd
    \<and> (\<forall>v < 2 ^ 48. get_physical_address (vm_tables st') pgd v =
        (if vaddr div 4096 \<le> v div 4096 \<and> v div 4096 < vaddr div 4096 + pages
         then (paddr div 4096 + (v div 4096 - vaddr div 4096)) * 4096 + v mod 4096
         else get_physical_address (vm_tables st) pgd v))"
proof -
  define w where "w = vaddr div 4096 * 4096"
  have w: "4096 dvd w" "w div 4096 = vaddr div 4096" "w + (0 + pages) * 4096 \<le> 2 ^ 48"
    using assms(5) by (auto simp: w_def div_mult_le_self intro: order_trans)
  have "paddr + (0 + pages) * 4096 \<le> 2 ^ 39" using assms(4) by simp
  moreover have "27 * missing st pgd (w div 4096 + 0) pages \<le> slots xs" "3 * missing st pgd (w div 4096 + 0) pages \<le> npages A"
    using assms(2,3) missing_le [of st pgd "vaddr div 4096" pages] unfolding w(2) by simp_all
  ultimately have "27 * missing st pgd (w div 4096 + 0) pages \<le> slots xs" "3 * missing st pgd (w div 4096 + 0) pages \<le> npages A"
      "paddr + (0 + pages) * 4096 \<le> 2 ^ 39" by blast+
  note room = this
  have "0 + pages \<le> 2 ^ 19" using assms(6) by simp
  from set_mapping_loop_ok [OF assms(1) room w(1,3) this, of n rw us] obtain st' ys A' where
    s: "set_mapping_loop (Suc n) pgd w paddr rw us [0..<pages] st = Some (True, st')"
      "vm_inv st' ys A' pgd"
      "\<forall>v < 2 ^ 48. translate (vm_tables st') pgd v =
        (if w div 4096 \<le> v div 4096 \<and> v div 4096 < w div 4096 + pages
         then Some ((paddr div 4096 + (v div 4096 - w div 4096)) * 4096 + v mod 4096)
         else translate (vm_tables st) pgd v)" by auto
  then have "set_mapping (Suc n) pgd vaddr paddr pages rw us st = Some (True, st')"
    by (simp add: set_mapping_def w_def)
  with s(2,3) show ?thesis
    unfolding get_physical_address_translate w(2) by (intro exI conjI) auto
qed

text \<open>
  C5. \<^verbatim>\<open>set_mapping\<close> returns true when the allocator has three pages for every 512 pages that need a table of their
  own and the heap room for its nodes, for at most 2 GiB; afterwards every address of the \<open>pages\<close> pages from \<open>vaddr\<close> on translates to the
  same offset in the corresponding page from \<open>paddr\<close> on, every other address translates as
  before, and the tables still form a tree apart from the free memory.
\<close>

theorem set_mapping_translates:
  assumes "vm_inv st xs A pgd"
    and "27 * leaf_tables (vaddr div 4096) pages \<le> slots xs" and "3 * leaf_tables (vaddr div 4096) pages \<le> npages A"
    and "paddr + pages * 4096 \<le> 2 ^ 39" and "vaddr + pages * 4096 \<le> 2 ^ 48"
    and "pages \<le> 2 ^ 19"
  shows "\<exists>st' ys A'. set_mapping (Suc n) pgd vaddr paddr pages rw us st = Some (True, st')
    \<and> vm_inv st' ys A' pgd
    \<and> (\<forall>v < 2 ^ 48. get_physical_address (vm_tables st') pgd v =
        (if vaddr div 4096 \<le> v div 4096 \<and> v div 4096 < vaddr div 4096 + pages
         then (paddr div 4096 + (v div 4096 - vaddr div 4096)) * 4096 + v mod 4096
         else get_physical_address (vm_tables st) pgd v))"
  using set_mapping_ok [OF assms] .

text \<open>An address space with an empty directory at address 4194304, on the example allocator.\<close>

definition example_vmem :: vmem where
  "example_vmem = \<lparr>vm_km = example_pmm, vm_tables = (\<lambda>_ _. zero_entry), vm_bytes = (\<lambda>_. 0)\<rparr>"

lemma example_vmem_inv:
  "vm_inv example_vmem [(4096, 64, True), (4160, 65472, False)] (\<lambda>i. if i = 9 then [2097152] else []) 4194304"
proof -
  have d: "descend (\<lambda>_ _. zero_entry) a p = Some t \<longleftrightarrow> p = [] \<and> t = a" for a p t
    by (cases p) (auto simp: zero_entry_def)
  have fm: "free_mem (\<lambda>i. if i = 9 then [2097152] else []) = {2097152..<4194304}"
    by (auto simp: free_mem_def free_blocks_def block_def PAGES_def split: if_splits)
  have ts: "table_set (\<lambda>_ _. zero_entry) 4194304 = {4194304}"
    unfolding table_set_def d by auto
  show ?thesis
    unfolding vm_inv_def fm example_vmem_def
    using example_pmm_inv ts
    by (auto simp: no_overlap_def aligned_def free_blocks_def tree_ok_def d split: if_splits)
qed

lemma npages_example: "npages (\<lambda>i. if i = 9 then [2097152] else []) = 512"
proof -
  have "(\<lambda>i. if i = 9 then [2097152] else []) = spec_add (9, 2097152) (\<lambda>_. [])"
    by (auto simp: spec_add_def)
  moreover have "npages (\<lambda>_. []) = 0" by (simp add: npages_def)
  ultimately show ?thesis using npages_add [of 9 2097152 "\<lambda>_. []"] by simp
qed

theorem set_mapping_translates_witness:
  "\<exists>st'. set_mapping 1 4194304 1234567890 77777 2 True True example_vmem = Some (True, st')
    \<and> get_physical_address (vm_tables st') 4194304 1234567890 = 73728 + 722"
proof -
  have "27 * leaf_tables (1234567890 div 4096) 2 \<le> slots [(4096, 64, True), (4160, 65472, False)]"
      "3 * leaf_tables (1234567890 div 4096) 2 \<le> npages (\<lambda>i. if i = 9 then [2097152] else [])"
    by (simp_all add: npages_example leaf_tables_def)
  from set_mapping_translates [OF example_vmem_inv this, of 77777 0 True True, simplified]
  obtain st' where "set_mapping (Suc 0) 4194304 1234567890 77777 2 True True example_vmem = Some (True, st')"
    "\<forall>v < 2 ^ 48. get_physical_address (vm_tables st') 4194304 v =
      (if 1234567890 div 4096 \<le> v div 4096 \<and> v div 4096 < 1234567890 div 4096 + 2
       then (77777 div 4096 + (v div 4096 - 1234567890 div 4096)) * 4096 + v mod 4096
       else get_physical_address (vm_tables example_vmem) 4194304 v)"
    by auto
  from this(1) this(2) [rule_format, of 1234567890] show ?thesis by simp
qed

text \<open>
  \<^verbatim>\<open>create_pgd\<close> returns a directory in which no address is mapped, outside the free memory,
  so that mappings can be added to it.
\<close>

theorem create_pgd_empty:
  assumes "pmm_inv (vm_km st) xs A" "no_overlap A" "aligned A" "free_mem A \<subseteq> {4096 ..< 2 ^ 39}"
    and "9 \<le> slots xs" "0 < npages A"
  shows "\<exists>pgd st' ys A'. create_pgd (Suc n) st = Some (pgd, st') \<and> vm_inv st' ys A' pgd
    \<and> slots xs \<le> slots ys + 9 \<and> npages A = Suc (npages A')
    \<and> (\<forall>v. get_physical_address (vm_tables st') pgd v = NULL)"
  using create_pgd_ok [OF assms, of n] by blast

theorem create_pgd_empty_witness:
  "\<exists>pgd st' ys A'. create_pgd 1 example_vmem = Some (pgd, st') \<and> vm_inv st' ys A' pgd \<and> npages A' = 511"
proof -
  let ?A = "\<lambda>i::nat. if i = 9 then [2097152::nat] else []"
  have I: "pmm_inv (vm_km example_vmem) [(4096, 64, True), (4160, 65472, False)] ?A"
      "no_overlap ?A" "aligned ?A" "free_mem ?A \<subseteq> {4096 ..< 2 ^ 39}"
    using example_vmem_inv by (auto simp: vm_inv_def)
  from create_pgd_empty [OF I, of 0] show ?thesis unfolding npages_example by auto
qed

text \<open>
  Copying \<open>n\<close> bytes into another address space with \<^verbatim>\<open>pvmemcpy\<close> and back with \<^verbatim>\<open>vpmemcpy\<close>
  gives the bytes copied, when the virtual range is mapped to distinct physical bytes and neither
  buffer lies in them; the tables and all bytes outside stay as they are.
\<close>

theorem vmemcpy_round_trip:
  fixes pgd v src dst n st
  defines "pa \<equiv> \<lambda>k. get_physical_address (vm_tables st) pgd (v + k)"
  assumes "\<forall>k<n. pa k \<noteq> NULL" and "inj_on pa {..<n}"
    and "\<forall>k<n. \<forall>l<n. pa k \<noteq> src + l" and "\<forall>k<n. \<forall>l<n. pa k \<noteq> dst + l"
  shows "\<exists>s1 s2. pvmemcpy pgd v src n st = Some s1 \<and> vpmemcpy dst pgd v n s1 = Some s2
    \<and> (\<forall>k<n. vm_bytes s2 (dst + k) = vm_bytes st (src + k))
    \<and> (\<forall>p. p \<notin> {dst..<dst + n} \<longrightarrow> (\<forall>k<n. p \<noteq> pa k) \<longrightarrow> vm_bytes s2 p = vm_bytes st p)
    \<and> vm_tables s2 = vm_tables st"
proof -
  obtain s1 where s1: "pvmemcpy pgd v src n st = Some s1" "vm_tables s1 = vm_tables st"
      "\<forall>k<n. vm_bytes s1 (pa k) = vm_bytes st (src + k)"
      "\<forall>p. (\<forall>k<n. p \<noteq> pa k) \<longrightarrow> vm_bytes s1 p = vm_bytes st p"
    using pvmemcpy_bytes [of n st pgd v src] assms by (auto simp: pa_def)
  obtain s2 where s2: "vpmemcpy dst pgd v n s1 = Some s2" "vm_tables s2 = vm_tables s1"
      "\<forall>k<n. vm_bytes s2 (dst + k) = vm_bytes s1 (pa k)"
      "\<forall>p. p \<notin> {dst..<dst + n} \<longrightarrow> vm_bytes s2 p = vm_bytes s1 p"
    using vpmemcpy_bytes [of n s1 pgd v dst] assms s1(2) by (auto simp: pa_def)
  show ?thesis using s1 s2 by auto
qed


text \<open>Four tables that map the first virtual page to physical page 5, for the instance below.\<close>

definition example_mapped :: vmem where
  "example_mapped = \<lparr>vm_km = example_pmm,
     vm_tables = (\<lambda>t i. if i = 0 \<and> t \<in> {4096, 8192, 12288, 16384}
       then zero_entry\<lparr>pe_p := True, pe_address := t div 4096 + 1\<rparr> else zero_entry),
     vm_bytes = (\<lambda>p. of_nat p)\<rparr>"

theorem vmemcpy_round_trip_witness:
  "\<exists>s1 s2. pvmemcpy 4096 100 1000 2 example_mapped = Some s1 \<and> vpmemcpy 2000 4096 100 2 s1 = Some s2
    \<and> vm_bytes s2 2000 = 232 \<and> vm_bytes s2 2001 = 233"
proof -
  have pa: "get_physical_address (vm_tables example_mapped) 4096 (100 + k) = 20580 + k" if "k < 2" for k
    using that by (simp add: get_physical_address_def example_mapped_def entry_base_def zero_entry_def Let_def)
  have inj: "inj_on (\<lambda>k. get_physical_address (vm_tables example_mapped) 4096 (100 + k)) {..<2}"
    by (rule inj_onI) (simp add: pa)
  from vmemcpy_round_trip [of 2 example_mapped 4096 100 1000 2000] pa inj obtain s1 s2 where
    "pvmemcpy 4096 100 1000 2 example_mapped = Some s1" "vpmemcpy 2000 4096 100 2 s1 = Some s2"
    "\<forall>k<2. vm_bytes s2 (2000 + k) = vm_bytes example_mapped (1000 + k)" by auto
  from this(1,2) this(3) [rule_format, of 0] this(3) [rule_format, of 1] show ?thesis
    by (simp add: example_mapped_def)
qed


end
