(* ===== verification/KState.thy ===== *)
theory KState
  imports Paging Defs
begin

text \<open>
  The data of the kernel: threads, tasks, semaphores, and the global variables of
  \<^verbatim>\<open>kernel/task\<close>, \<^verbatim>\<open>kernel/syscall\<close> and \<^verbatim>\<open>kernel/kernel.c\<close> as one state record.  Objects that the
  code takes from \<^verbatim>\<open>kmalloc\<close> are kept in one store per type, indexed by their address; freeing an
  object removes it from its store.
\<close>

section \<open>Registers and threads\<close>

text \<open>The 18 registers that \<^verbatim>\<open>struct intterup_args\<close> and \<^verbatim>\<open>register_info_struct\<close> share.\<close>

record basic_regs =
  r15 :: u64
  r14 :: u64
  r13 :: u64
  r12 :: u64
  r11 :: u64
  r10 :: u64
  r9 :: u64
  r8 :: u64
  rdi :: u64
  rsi :: u64
  rdx :: u64
  rcx :: u64
  rbx :: u64
  rax :: u64
  gs :: u64
  fs :: u64
  es :: u64
  ds :: u64

record intterup_args =
  ia_basic :: basic_regs
  ia_pgd :: ptr
  ia_rbp :: u64
  ia_ist :: u64
  ia_rip :: u64
  ia_cs :: u64
  ia_rflags :: u64
  ia_rsp :: u64
  ia_ss :: u64

record register_info =
  ri_basic :: basic_regs
  ri_rbp :: u64
  ri_rsp :: u64
  ri_ss :: u64
  ri_rip :: u64
  ri_cs :: u64
  ri_rflags :: u64

datatype thread_state = READY | RUNNING | SUBBMITED | WAITING | WAITING_IPC | TERMINATED | EXCEPTION
  | SUSPEND | WAITING_SUSPEND | WAITING_IPC_SUSPEND

record thread_info =
  registers :: register_info
  th_state :: thread_state
  th_next :: ptr
  th_last :: ptr
  free_next :: ptr
  th_task :: ptr
  th_count :: int
  th_priority :: int
  tid :: int

section \<open>Tasks\<close>

record mm_info =
  pgd :: ptr
  code_start :: nat
  code_end :: nat
  data_start :: nat
  data_end :: nat
  stack_top :: nat
  stack_bottom :: nat
  heap_start :: nat
  heap_end :: nat
  rodata_start :: nat
  rodata_end :: nat
  shm_start :: nat
  shm_end :: nat
  shm_ptr :: nat

record ipc_info =
  mail :: nat
  lastest_msg :: ptr
  write_ptr :: nat
  read_ptr :: nat
  mail_size :: u64
  used_size :: u64
  allow_pid :: int
  msg_handler_thread :: ptr

definition NULL_TASK :: int where
  "NULL_TASK = 0"

definition ANY_TASK :: int where
  "ANY_TASK = -1"

definition DUMMY_TASK :: int where
  "DUMMY_TASK = -2"

record task_struct =
  tk_threads :: ptr
  tk_mm_info :: mm_info
  tk_ipc_info :: ipc_info
  tk_last :: ptr
  tk_next :: ptr
  tk_parent :: ptr
  tk_children :: ptr
  tk_bro :: ptr
  pid :: int
  level :: int
  cur_tid :: int
  tk_cs :: u16
  tk_ds :: u16
  tk_rflags :: u64
  tk_priority :: int
  kernel_task :: bool

section \<open>Semaphores\<close>

text \<open>\<^verbatim>\<open>signal_t\<close> is embedded in \<^verbatim>\<open>signal_node\<close>; \<^verbatim>\<open>wtnode_t\<close> is a waiting thread.\<close>

record signal_node =
  sg_id :: u32
  signals :: int
  max_signals :: int
  soft :: bool
  wthead :: ptr
  wttail :: ptr
  sg_left :: ptr
  sg_right :: ptr
  sg_parent :: ptr
  factor :: int

record wtnode =
  wt_thread :: ptr
  wt_next :: ptr

section \<open>The kernel state\<close>

record kstate =
  vm :: vmem
  threads :: "ptr \<rightharpoonup> thread_info"
  tasks :: "ptr \<rightharpoonup> task_struct"
  signal_nodes :: "ptr \<rightharpoonup> signal_node"
  wtnodes :: "ptr \<rightharpoonup> wtnode"
  empty_task :: ptr
  task_list :: ptr
  level0_head :: ptr
  level0_tail :: ptr
  level1_head :: ptr
  level1_tail :: ptr
  current_thread :: ptr
  do_schedule :: bool
  ticks :: int
  entered_handler :: bool
  signal_root :: ptr
  cur_id :: u32
  kernel_pml4 :: ptr
  irq_handle_tasks :: "nat \<Rightarrow> int"
  msgid_counter :: u16

abbreviation km :: "kstate \<Rightarrow> kmem" where
  "km st \<equiv> vm_km (vm st)"

definition set_km :: "kmem \<Rightarrow> kstate \<Rightarrow> kstate" where
  "set_km k st = st\<lparr>vm := (vm st)\<lparr>vm_km := k\<rparr>\<rparr>"

text \<open>Reading and writing the fields of a thread or a task through its pointer.\<close>

definition upd_thread :: "ptr \<Rightarrow> (thread_info \<Rightarrow> thread_info) \<Rightarrow> kstate \<Rightarrow> kstate option" where
  "upd_thread p f st = do { t \<leftarrow> threads st p; Some (st\<lparr>threads := (threads st)(p \<mapsto> f t)\<rparr>) }"

definition upd_task :: "ptr \<Rightarrow> (task_struct \<Rightarrow> task_struct) \<Rightarrow> kstate \<Rightarrow> kstate option" where
  "upd_task p f st = do { t \<leftarrow> tasks st p; Some (st\<lparr>tasks := (tasks st)(p \<mapsto> f t)\<rparr>) }"

text \<open>\<^verbatim>\<open>current_thread->task\<close>.\<close>

definition current_task :: "kstate \<Rightarrow> ptr option" where
  "current_task st = map_option th_task (threads st (current_thread st))"

text \<open>Allocating and freeing on the heap of the state.\<close>

definition k_alloc :: "nat \<Rightarrow> u64 \<Rightarrow> kstate \<Rightarrow> (ptr \<times> kstate) option" where
  "k_alloc fuel sz st = map_option (\<lambda>(p, k). (p, set_km k st)) (kmalloc fuel sz (km st))"

definition k_free :: "ptr \<Rightarrow> kstate \<Rightarrow> kstate option" where
  "k_free p st = map_option (\<lambda>k. set_km k st) (kfree p (km st))"

lemma set_km_simps [simp]:
  "threads (set_km k st) = threads st" "tasks (set_km k st) = tasks st"
  "signal_nodes (set_km k st) = signal_nodes st" "wtnodes (set_km k st) = wtnodes st"
  "empty_task (set_km k st) = empty_task st" "task_list (set_km k st) = task_list st"
  "level0_head (set_km k st) = level0_head st" "level0_tail (set_km k st) = level0_tail st"
  "level1_head (set_km k st) = level1_head st" "level1_tail (set_km k st) = level1_tail st"
  "current_thread (set_km k st) = current_thread st" "do_schedule (set_km k st) = do_schedule st"
  "signal_root (set_km k st) = signal_root st" "cur_id (set_km k st) = cur_id st"
  "vm_km (vm (set_km k st)) = k"
  by (simp_all add: set_km_def)

lemma k_alloc_Some:
  "k_alloc fuel sz st = Some (p, st') \<longleftrightarrow> (\<exists>k. kmalloc fuel sz (km st) = Some (p, k) \<and> st' = set_km k st)"
  by (auto simp: k_alloc_def)

lemma k_free_Some:
  "k_free p st = Some st' \<longleftrightarrow> (\<exists>k. kfree p (km st) = Some k \<and> st' = set_km k st)"
  by (auto simp: k_free_def)

end
