(* ===== verification/Interfaces.thy ===== *)
theory Interfaces
  imports Prelude
begin

text \<open>
  The interfaces between the components, as locales.  \<open>fifo_queue\<close> is what the scheduler expects
  of its ready queues (the waiting queues of the semaphores allocate a cell for every thread, so
  their order is proved with the heap, in \<^verbatim>\<open>Signal\<close>); \<open>lookup_table\<close> is the contract of the tables
  that are searched by a number: tasks, framebuffers, remote procedures.  Each provider
  interprets the locale on the definitions of its own theory.
\<close>

section \<open>First-in first-out queues\<close>

text \<open>Enqueueing a list of items, and dequeueing a number of items, with any two operations.\<close>

fun enq_all :: "('x \<Rightarrow> 's \<Rightarrow> 's option) \<Rightarrow> 'x list \<Rightarrow> 's \<Rightarrow> 's option" where
  "enq_all enq [] s = Some s"
| "enq_all enq (x # xs) s = do { s' \<leftarrow> enq x s; enq_all enq xs s' }"

fun deq_n :: "('s \<Rightarrow> ('x \<times> 's) option) \<Rightarrow> nat \<Rightarrow> 's \<Rightarrow> ('x list \<times> 's) option" where
  "deq_n deq 0 s = Some ([], s)"
| "deq_n deq (Suc n) s =
     do { (x, s') \<leftarrow> deq s; (xs, s'') \<leftarrow> deq_n deq n s'; Some (x # xs, s'') }"

locale fifo_queue =
  fixes enq :: "'x \<Rightarrow> 's \<Rightarrow> 's option"
    and deq :: "'s \<Rightarrow> ('x \<times> 's) option"
    and view :: "'s \<Rightarrow> 'x list \<Rightarrow> bool"
    and item_ok :: "'s \<Rightarrow> 'x \<Rightarrow> bool"
  assumes enq_view: "view s xs \<Longrightarrow> item_ok s x \<Longrightarrow> x \<notin> set xs \<Longrightarrow>
      \<exists>s'. enq x s = Some s' \<and> view s' (xs @ [x]) \<and> (\<forall>y. item_ok s' y = item_ok s y)"
    and deq_view: "view s (x # xs) \<Longrightarrow>
      \<exists>s'. deq s = Some (x, s') \<and> view s' xs \<and> (\<forall>y. item_ok s' y = item_ok s y)"
begin

lemma enq_all_view:
  "view s xs \<Longrightarrow> distinct (xs @ ys) \<Longrightarrow> \<forall>y\<in>set ys. item_ok s y \<Longrightarrow>
   \<exists>s'. enq_all enq ys s = Some s' \<and> view s' (xs @ ys)"
proof (induction ys arbitrary: s xs)
  case Nil
  then show ?case by simp
next
  case (Cons y ys)
  then obtain s1 where s1: "enq y s = Some s1" "view s1 (xs @ [y])"
      "\<forall>z. item_ok s1 z = item_ok s z"
    using enq_view [of s xs y] by auto
  with Cons.prems Cons.IH [of s1 "xs @ [y]"] show ?case by auto
qed

lemma deq_n_view:
  "view s (xs @ ys) \<Longrightarrow> \<exists>s'. deq_n deq (length xs) s = Some (xs, s') \<and> view s' ys"
proof (induction xs arbitrary: s)
  case Nil
  then show ?case by simp
next
  case (Cons x xs)
  then obtain s1 where "deq s = Some (x, s1)" "view s1 (xs @ ys)"
    using deq_view [of s x "xs @ ys"] by auto
  with Cons.IH [of s1] show ?case by auto
qed

text \<open>Items leave in the order in which they entered.\<close>

lemma first_in_first_out:
  assumes "view s []" and "distinct xs" and "\<forall>x\<in>set xs. item_ok s x"
  shows "\<exists>s1 s2. enq_all enq xs s = Some s1 \<and> deq_n deq (length xs) s1 = Some (xs, s2) \<and> view s2 []"
  using enq_all_view [of s "[]" xs] deq_n_view [of _ xs "[]"] assms by fastforce

end

section \<open>Lookup tables\<close>

locale lookup_table =
  fixes ins :: "'k \<Rightarrow> 'v \<Rightarrow> 's \<Rightarrow> 's option"
    and lkp :: "'k \<Rightarrow> 's \<Rightarrow> 'v option option"
    and inv :: "'s \<Rightarrow> bool"
    and fresh :: "'k \<Rightarrow> 's \<Rightarrow> bool"
  assumes ins_inv: "inv s \<Longrightarrow> fresh k s \<Longrightarrow> ins k v s = Some s' \<Longrightarrow> inv s'"
    and lkp_total: "inv s \<Longrightarrow> lkp k s \<noteq> None"
    and lkp_ins: "inv s \<Longrightarrow> fresh k s \<Longrightarrow> ins k v s = Some s' \<Longrightarrow>
      lkp k' s' = (if k' = k then Some (Some v) else lkp k' s)"
begin

lemma lkp_ins_same: "inv s \<Longrightarrow> fresh k s \<Longrightarrow> ins k v s = Some s' \<Longrightarrow> lkp k s' = Some (Some v)"
  by (simp add: lkp_ins)

lemma lkp_ins_other:
  "inv s \<Longrightarrow> fresh k s \<Longrightarrow> ins k v s = Some s' \<Longrightarrow> k' \<noteq> k \<Longrightarrow> lkp k' s' = lkp k' s"
  by (simp add: lkp_ins)

end

end
