(* ===== verification/Task.thy ===== *)
theory Task
  imports KState Interfaces
begin

text \<open>
  Tasks and threads: \<^verbatim>\<open>kernel/task/task_manager.c\<close> and \<^verbatim>\<open>kernel/task/thread.c\<close>.  The list of all
  tasks, the ready queues of the two levels, the creation of tasks and threads and their removal.
  The ready queue is shown to be a first-in first-out queue and the task list a lookup table,
  by interpretations of the two interfaces.
\<close>

section \<open>The task list\<close>

text \<open>\<^verbatim>\<open>get_task_by_pid\<close>: the loop may run forever on a corrupted list, so it is partial.\<close>

partial_function (option) find_task :: "(ptr \<rightharpoonup> task_struct) \<Rightarrow> ptr \<Rightarrow> int \<Rightarrow> ptr option" where
  "find_task ts task p =
     (if task = NULL then Some NULL
      else do {
        t \<leftarrow> ts task;
        if pid t = p then Some task else find_task ts (tk_next t) p
      })"

definition get_task_by_pid :: "int \<Rightarrow> kstate \<Rightarrow> ptr option" where
  "get_task_by_pid p st = find_task (tasks st) (task_list st) p"

definition add_task :: "ptr \<Rightarrow> kstate \<Rightarrow> kstate option" where
  "add_task task st = do {
     st \<leftarrow> upd_task task (\<lambda>t. t\<lparr>tk_next := task_list st, tk_last := NULL\<rparr>) st;
     st \<leftarrow> (if task_list st \<noteq> NULL then upd_task (task_list st) (\<lambda>t. t\<lparr>tk_last := task\<rparr>) st else Some st);
     Some (st\<lparr>task_list := task\<rparr>)
   }"

definition remove_task :: "ptr \<Rightarrow> kstate \<Rightarrow> kstate option" where
  "remove_task task st = do {
     t \<leftarrow> tasks st task;
     st \<leftarrow> (if tk_next t \<noteq> NULL then upd_task (tk_next t) (\<lambda>n. n\<lparr>tk_last := tk_last t\<rparr>) st else Some st);
     st \<leftarrow> (if tk_last t \<noteq> NULL then upd_task (tk_last t) (\<lambda>l. l\<lparr>tk_next := tk_next t\<rparr>) st
            else Some (st\<lparr>task_list := tk_next t\<rparr>));
     st \<leftarrow> k_free task st;
     Some (st\<lparr>tasks := (tasks st)(task := None)\<rparr>)
   }"

section \<open>The ready queues\<close>

definition dequeue_level0_thread :: "kstate \<Rightarrow> (ptr \<times> kstate) option" where
  "dequeue_level0_thread st = do {
     let thread = level0_head st;
     t \<leftarrow> threads st thread;
     let st = st\<lparr>level0_head := free_next t\<rparr>;
     let st = (if level0_head st = NULL then st\<lparr>level0_tail := NULL\<rparr> else st);
     st \<leftarrow> upd_thread thread (\<lambda>t. t\<lparr>free_next := NULL\<rparr>) st;
     Some (thread, st)
   }"

definition dequeue_level1_thread :: "kstate \<Rightarrow> (ptr \<times> kstate) option" where
  "dequeue_level1_thread st = do {
     let thread = level1_head st;
     t \<leftarrow> threads st thread;
     let st = st\<lparr>level1_head := free_next t\<rparr>;
     let st = (if level1_head st = NULL then st\<lparr>level1_tail := NULL\<rparr> else st);
     st \<leftarrow> upd_thread thread (\<lambda>t. t\<lparr>free_next := NULL\<rparr>) st;
     Some (thread, st)
   }"

definition has_level0_thread :: "kstate \<Rightarrow> bool" where
  "has_level0_thread st \<longleftrightarrow> level0_head st \<noteq> NULL"

definition has_level1_thread :: "kstate \<Rightarrow> bool" where
  "has_level1_thread st \<longleftrightarrow> level1_head st \<noteq> NULL"

definition enqueue_level0_thread :: "ptr \<Rightarrow> kstate \<Rightarrow> kstate option" where
  "enqueue_level0_thread thread st = do {
     st \<leftarrow> upd_thread thread (\<lambda>t. t\<lparr>free_next := NULL\<rparr>) st;
     if level0_tail st = NULL then Some (st\<lparr>level0_tail := thread, level0_head := thread\<rparr>)
     else do {
       st \<leftarrow> upd_thread (level0_tail st) (\<lambda>t. t\<lparr>free_next := thread\<rparr>) st;
       Some (st\<lparr>level0_tail := thread\<rparr>)
     }
   }"

definition enqueue_level1_thread :: "ptr \<Rightarrow> kstate \<Rightarrow> kstate option" where
  "enqueue_level1_thread thread st = do {
     st \<leftarrow> upd_thread thread (\<lambda>t. t\<lparr>free_next := NULL\<rparr>) st;
     if level1_tail st = NULL then Some (st\<lparr>level1_tail := thread, level1_head := thread\<rparr>)
     else do {
       st \<leftarrow> upd_thread (level1_tail st) (\<lambda>t. t\<lparr>free_next := thread\<rparr>) st;
       Some (st\<lparr>level1_tail := thread\<rparr>)
     }
   }"

text \<open>\<^verbatim>\<open>enqueue_thread\<close>: both levels go to the queue of level 0.\<close>

definition enqueue_thread :: "ptr \<Rightarrow> kstate \<Rightarrow> kstate option" where
  "enqueue_thread thread st = do {
     th \<leftarrow> threads st thread;
     t \<leftarrow> tasks st (th_task th);
     if level t = 0 then enqueue_level0_thread thread st
     else if level t = 1 then enqueue_level0_thread thread st
     else Some st
   }"

section \<open>Creating threads\<close>

definition SIZEOF_THREAD_INFO :: u64 where
  "SIZEOF_THREAD_INFO = 248"

definition SIZEOF_TASK_STRUCT :: u64 where
  "SIZEOF_TASK_STRUCT = 256"

definition zero_basic :: basic_regs where
  "zero_basic = \<lparr>r15 = 0, r14 = 0, r13 = 0, r12 = 0, r11 = 0, r10 = 0, r9 = 0, r8 = 0, rdi = 0, rsi = 0,
     rdx = 0, rcx = 0, rbx = 0, rax = 0, gs = 0, fs = 0, es = 0, ds = 0\<rparr>"

text \<open>\<^verbatim>\<open>create_thread_info\<close>: the object is cleared first, so every field has a value.\<close>

definition create_thread_info ::
    "nat \<Rightarrow> u16 \<Rightarrow> nat \<Rightarrow> nat \<Rightarrow> u64 \<Rightarrow> u16 \<Rightarrow> u64 \<Rightarrow> int \<Rightarrow> ptr \<Rightarrow> kstate \<Rightarrow> (ptr \<times> kstate) option" where
  "create_thread_info fuel dsel stk_top stk_bottom entry csel rflags priority task st = do {
     (p, st) \<leftarrow> k_alloc fuel SIZEOF_THREAD_INFO st;
     t \<leftarrow> tasks st task;
     let th = \<lparr>registers = \<lparr>ri_basic = zero_basic\<lparr>gs := ucast dsel, fs := ucast dsel, es := ucast dsel, ds := ucast dsel\<rparr>,
                  ri_rbp = of_nat stk_bottom, ri_rsp = of_nat stk_top, ri_ss = ucast dsel,
                  ri_rip = entry, ri_cs = ucast csel, ri_rflags = rflags\<rparr>,
               th_state = SUBBMITED, th_next = NULL, th_last = NULL, free_next = NULL, th_task = task,
               th_count = priority * 3, th_priority = priority, tid = cur_tid t\<rparr>;
     st \<leftarrow> upd_task task (\<lambda>t. t\<lparr>cur_tid := cur_tid t + 1\<rparr>) st;
     Some (p, st\<lparr>threads := (threads st)(p \<mapsto> th)\<rparr>)
   }"

definition KERNEL_TASK_STACK_SIZE :: nat where
  "KERNEL_TASK_STACK_SIZE = 0x8000"

definition THREAD_STACK_SIZE :: nat where
  "THREAD_STACK_SIZE = 0x800000"

definition THREAD_INIT_STACK_SIZE :: nat where
  "THREAD_INIT_STACK_SIZE = 0x10000"

definition TASK_INIT_HEAP_SIZE :: nat where
  "TASK_INIT_HEAP_SIZE = 0x10000"

text \<open>The last thread of a list: the loop over \<^verbatim>\<open>parent->next\<close>.\<close>

partial_function (option) last_thread :: "(ptr \<rightharpoonup> thread_info) \<Rightarrow> ptr \<Rightarrow> ptr option" where
  "last_thread ths parent = do {
     t \<leftarrow> ths parent;
     if th_next t \<noteq> NULL then last_thread ths (th_next t) else Some parent
   }"

definition map_pages :: "nat \<Rightarrow> ptr \<Rightarrow> nat \<Rightarrow> nat \<Rightarrow> kstate \<Rightarrow> kstate option" where
  "map_pages fuel dir addr pages st =
     map_option (\<lambda>v. st\<lparr>vm := v\<rparr>) (alloc_vpages fuel dir addr (int pages) (vm st))"

definition create_thread_in :: "nat \<Rightarrow> u64 \<Rightarrow> ptr \<Rightarrow> kstate \<Rightarrow> (ptr \<times> kstate) option" where
  "create_thread_in fuel entry task st = do {
     t \<leftarrow> tasks st task;
     let stk_top = stack_bottom (tk_mm_info t);
     let stack_size = (if kernel_task t then KERNEL_TASK_STACK_SIZE else THREAD_STACK_SIZE);
     let stk_bottom = stk_top - stack_size;
     st \<leftarrow> upd_task task (\<lambda>t. t\<lparr>tk_mm_info := (tk_mm_info t)\<lparr>stack_bottom := stk_bottom\<rparr>\<rparr>) st;
     (thread, st) \<leftarrow> create_thread_info fuel (tk_ds t) stk_top stk_bottom entry (tk_cs t) (tk_rflags t)
                       (tk_priority t) task st;
     st \<leftarrow> (if \<not> kernel_task t
            then map_pages fuel (pgd (tk_mm_info t)) (stk_top - THREAD_INIT_STACK_SIZE)
                   (THREAD_INIT_STACK_SIZE div MEMUNIT_SZ) st
            else Some st);
     parent \<leftarrow> last_thread (threads st) (tk_threads t);
     st \<leftarrow> upd_thread parent (\<lambda>p. p\<lparr>th_next := thread\<rparr>) st;
     st \<leftarrow> upd_thread thread (\<lambda>p. p\<lparr>th_last := parent\<rparr>) st;
     st \<leftarrow> enqueue_thread thread st;
     Some (thread, st)
   }"

text \<open>
  \<^verbatim>\<open>remove_thread\<close>: the pointer \<^verbatim>\<open>task->threads\<close> to the first thread is not adjusted.
\<close>

definition remove_thread :: "ptr \<Rightarrow> kstate \<Rightarrow> kstate option" where
  "remove_thread thread st = do {
     t \<leftarrow> threads st thread;
     st \<leftarrow> (if th_last t \<noteq> NULL then upd_thread (th_last t) (\<lambda>l. l\<lparr>th_next := th_next t\<rparr>) st else Some st);
     t \<leftarrow> threads st thread;
     st \<leftarrow> (if th_next t \<noteq> NULL then upd_thread (th_next t) (\<lambda>n. n\<lparr>th_last := th_last t\<rparr>) st else Some st);
     st \<leftarrow> k_free thread st;
     Some (st\<lparr>threads := (threads st)(thread := None)\<rparr>)
   }"

partial_function (option) find_thread :: "(ptr \<rightharpoonup> thread_info) \<Rightarrow> ptr \<Rightarrow> int \<Rightarrow> ptr option" where
  "find_thread ths thread i =
     (if thread = NULL then Some NULL
      else do {
        t \<leftarrow> ths thread;
        if tid t = i then Some thread else find_thread ths (th_next t) i
      })"

definition get_thread_by_tid :: "int \<Rightarrow> ptr \<Rightarrow> kstate \<Rightarrow> ptr option" where
  "get_thread_by_tid i task st = do {
     t \<leftarrow> tasks st task;
     find_thread (threads st) (tk_threads t) i
   }"

section \<open>Creating tasks\<close>

text \<open>The arguments of \<^verbatim>\<open>__create_task\<close> and \<^verbatim>\<open>create_task\<close>, in their order.\<close>

record task_args =
  ta_ds :: u16
  ta_stack_top :: nat
  ta_stack_bottom :: nat
  ta_entry :: u64
  ta_cs :: u16
  ta_rflags :: u64
  ta_pgd :: ptr
  ta_code_start :: nat
  ta_code_end :: nat
  ta_data_start :: nat
  ta_data_end :: nat
  ta_heap_start :: nat
  ta_heap_end :: nat
  ta_rodata_start :: nat
  ta_rodata_end :: nat
  ta_shm_start :: nat
  ta_shm_end :: nat
  ta_pid :: int
  ta_priority :: int
  ta_level :: int
  ta_parent :: ptr
  ta_kernel_task :: bool

definition init_mm_info :: "task_args \<Rightarrow> mm_info" where
  "init_mm_info a = \<lparr>pgd = ta_pgd a, code_start = ta_code_start a, code_end = ta_code_end a,
     data_start = ta_data_start a, data_end = ta_data_end a,
     stack_top = ta_stack_top a, stack_bottom = ta_stack_bottom a,
     heap_start = ta_heap_start a, heap_end = ta_heap_end a,
     rodata_start = ta_rodata_start a, rodata_end = ta_rodata_end a,
     shm_start = ta_shm_start a, shm_end = ta_shm_end a, shm_ptr = ta_shm_start a\<rparr>"

definition init_ipc_info :: ipc_info where
  "init_ipc_info = \<lparr>mail = NULL, lastest_msg = NULL, write_ptr = NULL, read_ptr = NULL,
     mail_size = 0, used_size = 0, allow_pid = NULL_TASK, msg_handler_thread = NULL\<rparr>"

text \<open>
  \<^verbatim>\<open>__create_task\<close>.  The block is not cleared: \<open>junk\<close> is what it held, and \<^verbatim>\<open>bro\<close> keeps it.
\<close>

definition create_task_low :: "nat \<Rightarrow> task_struct \<Rightarrow> task_args \<Rightarrow> kstate \<Rightarrow> (ptr \<times> kstate) option" where
  "create_task_low fuel junk a st = do {
     (task, st) \<leftarrow> k_alloc fuel SIZEOF_TASK_STRUCT st;
     let st = st\<lparr>tasks := (tasks st)(task \<mapsto> junk\<lparr>cur_tid := 0\<rparr>)\<rparr>;
     (thread, st) \<leftarrow> create_thread_info fuel (ta_ds a) (ta_stack_top a) (ta_stack_bottom a) (ta_entry a)
                       (ta_cs a) (ta_rflags a) (ta_priority a) task st;
     st \<leftarrow> upd_task task (\<lambda>t. t\<lparr>tk_threads := thread, tk_mm_info := init_mm_info a,
                                tk_ipc_info := init_ipc_info\<rparr>) st;
     st \<leftarrow> (if \<not> ta_kernel_task a then do {
              st \<leftarrow> map_pages fuel (ta_pgd a) (ta_stack_top a - THREAD_INIT_STACK_SIZE)
                      (THREAD_INIT_STACK_SIZE div MEMUNIT_SZ) st;
              map_pages fuel (ta_pgd a) (ta_heap_start a) (TASK_INIT_HEAP_SIZE div MEMUNIT_SZ) st
            } else Some st);
     st \<leftarrow> upd_task task (\<lambda>t. t\<lparr>tk_last := NULL, tk_next := NULL, pid := ta_pid a, level := ta_level a,
              tk_parent := ta_parent a, tk_children := NULL, tk_ds := ta_ds a, tk_cs := ta_cs a,
              tk_rflags := ta_rflags a, tk_priority := ta_priority a, kernel_task := ta_kernel_task a\<rparr>) st;
     Some (task, st)
   }"

definition create_task :: "nat \<Rightarrow> task_struct \<Rightarrow> task_args \<Rightarrow> kstate \<Rightarrow> (ptr \<times> kstate) option" where
  "create_task fuel junk a st = do {
     (task, st) \<leftarrow> create_task_low fuel junk a st;
     st \<leftarrow> add_task task st;
     st \<leftarrow> (if ta_parent a \<noteq> NULL then do {
              par \<leftarrow> tasks st (ta_parent a);
              st \<leftarrow> upd_task task (\<lambda>t. t\<lparr>tk_bro := tk_children par\<rparr>) st;
              upd_task (ta_parent a) (\<lambda>p. p\<lparr>tk_children := task\<rparr>) st
            } else Some st);
     t \<leftarrow> tasks st task;
     st \<leftarrow> enqueue_thread (tk_threads t) st;
     Some (task, st)
   }"

text \<open>\<^verbatim>\<open>create_empty_task\<close>, with the address of the function \<^verbatim>\<open>empty\<close> as an argument.\<close>

definition empty_task_args :: "u64 \<Rightarrow> ptr \<Rightarrow> task_args" where
  "empty_task_args entry pml4 = \<lparr>ta_ds = 64, ta_stack_top = 0x1200000, ta_stack_bottom = 0x1100000,
     ta_entry = entry, ta_cs = 56, ta_rflags = 512, ta_pgd = pml4, ta_code_start = 0, ta_code_end = 0,
     ta_data_start = 0, ta_data_end = 0, ta_heap_start = 0, ta_heap_end = 0, ta_rodata_start = 0,
     ta_rodata_end = 0, ta_shm_start = 0, ta_shm_end = 0, ta_pid = -1, ta_priority = -1, ta_level = -1,
     ta_parent = NULL, ta_kernel_task = True\<rparr>"

definition create_empty_task :: "nat \<Rightarrow> task_struct \<Rightarrow> u64 \<Rightarrow> kstate \<Rightarrow> kstate option" where
  "create_empty_task fuel junk entry st = do {
     (task, st) \<leftarrow> create_task_low fuel junk (empty_task_args entry (kernel_pml4 st)) st;
     Some (st\<lparr>empty_task := task\<rparr>)
   }"

section \<open>The ready queues are first-in first-out\<close>

abbreviation fnext :: "kstate \<Rightarrow> ptr \<rightharpoonup> ptr" where
  "fnext st \<equiv> (\<lambda>p. map_option free_next (threads st p))"

definition ready0 :: "kstate \<Rightarrow> ptr list \<Rightarrow> bool" where
  "ready0 st xs \<longleftrightarrow> chain (fnext st) (level0_head st) xs \<and> level0_tail st = last_or NULL xs"

definition ready1 :: "kstate \<Rightarrow> ptr list \<Rightarrow> bool" where
  "ready1 st xs \<longleftrightarrow> chain (fnext st) (level1_head st) xs \<and> level1_tail st = last_or NULL xs"

definition is_thread :: "kstate \<Rightarrow> ptr \<Rightarrow> bool" where
  "is_thread st p \<longleftrightarrow> p \<noteq> NULL \<and> threads st p \<noteq> None"

lemma upd_thread_Some:
  "upd_thread p f st = Some st' \<longleftrightarrow> (\<exists>t. threads st p = Some t \<and> st' = st\<lparr>threads := (threads st)(p \<mapsto> f t)\<rparr>)"
  by (auto simp: upd_thread_def bind_eq_Some_iff)

lemma upd_task_Some:
  "upd_task p f st = Some st' \<longleftrightarrow> (\<exists>t. tasks st p = Some t \<and> st' = st\<lparr>tasks := (tasks st)(p \<mapsto> f t)\<rparr>)"
  by (auto simp: upd_task_def bind_eq_Some_iff)

text \<open>
  Appending to a chain the way both queues do it: the new object's pointer is cleared, then the
  last object is redirected to it.
\<close>

lemma chain_enqueue:
  assumes "chain nx p xs" and "a \<notin> set xs" and "a \<noteq> NULL"
  shows "chain (if xs = [] then nx(a \<mapsto> NULL) else nx(a \<mapsto> NULL, last xs \<mapsto> a)) (if xs = [] then a else p) (xs @ [a])"
proof (cases xs rule: rev_cases)
  case Nil
  with assms show ?thesis by simp
next
  case (snoc ys t)
  with assms chain_append_node [of nx p ys t a] show ?thesis by simp
qed

text \<open>What a queue operation leaves alone.\<close>

definition strip_ready :: "kstate \<Rightarrow> kstate" where
  "strip_ready st = st\<lparr>threads := Map.empty, level0_head := NULL, level0_tail := NULL,
     level1_head := NULL, level1_tail := NULL\<rparr>"

definition same_but_ready :: "kstate \<Rightarrow> kstate \<Rightarrow> bool" where
  "same_but_ready st st' \<longleftrightarrow>
     strip_ready st' = strip_ready st \<and>
     (\<forall>p. map_option (\<lambda>t. t\<lparr>free_next := NULL\<rparr>) (threads st' p) =
          map_option (\<lambda>t. t\<lparr>free_next := NULL\<rparr>) (threads st p))"

lemma same_but_ready_threads:
  assumes "same_but_ready st st'"
  shows "threads st' p = None \<longleftrightarrow> threads st p = None"
    and "threads st p = Some t \<Longrightarrow> \<exists>q. threads st' p = Some (t\<lparr>free_next := q\<rparr>)"
proof -
  have e: "map_option (\<lambda>t. t\<lparr>free_next := NULL\<rparr>) (threads st' p) =
      map_option (\<lambda>t. t\<lparr>free_next := NULL\<rparr>) (threads st p)"
    using assms by (simp add: same_but_ready_def)
  then show "threads st' p = None \<longleftrightarrow> threads st p = None"
    by (cases "threads st' p"; cases "threads st p") auto
  assume t: "threads st p = Some t"
  with e obtain t' where t': "threads st' p = Some t'" "t'\<lparr>free_next := NULL\<rparr> = t\<lparr>free_next := NULL\<rparr>"
    by (cases "threads st' p") auto
  then have "t' = t\<lparr>free_next := free_next t'\<rparr>"
    by (cases t; cases t') simp
  with t'(1) show "\<exists>q. threads st' p = Some (t\<lparr>free_next := q\<rparr>)" by metis
qed

lemma same_but_ready_fields:
  "same_but_ready st st' \<Longrightarrow> tasks st' = tasks st \<and> vm st' = vm st \<and> current_thread st' = current_thread st
     \<and> empty_task st' = empty_task st \<and> do_schedule st' = do_schedule st \<and> signal_nodes st' = signal_nodes st
     \<and> wtnodes st' = wtnodes st \<and> signal_root st' = signal_root st \<and> task_list st' = task_list st"
  by (cases st; cases st') (simp add: same_but_ready_def strip_ready_def)

lemma fnext_upd [simp]:
  "threads st p = Some t \<Longrightarrow> (\<lambda>q. map_option free_next (((threads st)(p \<mapsto> t\<lparr>free_next := v\<rparr>)) q)) = (fnext st)(p \<mapsto> v)"
  by auto

lemma enqueue_level0_ready:
  assumes r: "ready0 st xs" and a: "is_thread st a" "a \<notin> set xs"
  shows "\<exists>st'. enqueue_level0_thread a st = Some st' \<and> ready0 st' (xs @ [a]) \<and> same_but_ready st st'
    \<and> level1_head st' = level1_head st \<and> level1_tail st' = level1_tail st"
proof -
  obtain t where t: "threads st a = Some t" and a0: "a \<noteq> NULL" using a(1) by (auto simp: is_thread_def)
  have c: "chain (fnext st) (level0_head st) xs" "level0_tail st = last_or NULL xs"
    using r by (auto simp: ready0_def)
  show ?thesis
  proof (cases "xs = []")
    case True
    with c t a0 show ?thesis
      by (auto simp: enqueue_level0_thread_def upd_thread_def ready0_def same_but_ready_def strip_ready_def)
  next
    case False
    then have l: "last xs \<in> set xs" by simp
    from chain_in_dom [OF c(1) l] obtain u where u: "threads st (last xs) = Some u" "last xs \<noteq> NULL" by auto
    have ne: "last xs \<noteq> a" using l a by auto
    have "chain ((fnext st)(a \<mapsto> NULL, last xs \<mapsto> a)) (level0_head st) (xs @ [a])"
      using chain_enqueue [OF c(1) a(2) a0] False by simp
    moreover have "(\<lambda>q. map_option free_next (((threads st)(a \<mapsto> t\<lparr>free_next := NULL\<rparr>,
        last xs \<mapsto> u\<lparr>free_next := a\<rparr>)) q)) = (fnext st)(a \<mapsto> NULL, last xs \<mapsto> a)" by auto
    ultimately show ?thesis
      using False c(2) t u ne
      by (simp add: enqueue_level0_thread_def upd_thread_def ready0_def same_but_ready_def strip_ready_def last_or_def)
  qed
qed

lemma dequeue_level0_ready:
  assumes "ready0 st (a # xs)"
  shows "\<exists>st'. dequeue_level0_thread st = Some (a, st') \<and> ready0 st' xs \<and> same_but_ready st st'
    \<and> level1_head st' = level1_head st \<and> level1_tail st' = level1_tail st"
proof -
  have c: "chain (fnext st) (level0_head st) (a # xs)" "level0_tail st = last_or NULL (a # xs)"
    using assms by (auto simp: ready0_def)
  then obtain t where t: "level0_head st = a" "threads st a = Some t" "chain (fnext st) (free_next t) xs" "a \<noteq> NULL"
    by (auto split: option.splits)
  have n: "free_next t = NULL \<longleftrightarrow> xs = []"
    using t(3) by (cases xs) auto
  have "a \<notin> set xs" by (rule chain_hd_notin_tl [OF c(1)])
  then have x: "chain ((fnext st)(a \<mapsto> NULL)) (free_next t) xs" using t(3) by simp
  moreover have "(\<lambda>q. map_option free_next (((threads st)(a \<mapsto> t\<lparr>free_next := NULL\<rparr>)) q)) = (fnext st)(a \<mapsto> NULL)"
    by auto
  ultimately show ?thesis
    using t(1,2,4) n c(2)
    by (simp add: dequeue_level0_thread_def upd_thread_def ready0_def same_but_ready_def strip_ready_def
        Let_def last_or_def)
qed

lemma enqueue_level1_ready:
  assumes r: "ready1 st xs" and a: "is_thread st a" "a \<notin> set xs"
  shows "\<exists>st'. enqueue_level1_thread a st = Some st' \<and> ready1 st' (xs @ [a]) \<and> same_but_ready st st'"
proof -
  obtain t where t: "threads st a = Some t" and a0: "a \<noteq> NULL" using a(1) by (auto simp: is_thread_def)
  have c: "chain (fnext st) (level1_head st) xs" "level1_tail st = last_or NULL xs"
    using r by (auto simp: ready1_def)
  show ?thesis
  proof (cases "xs = []")
    case True
    with c t a0 show ?thesis
      by (auto simp: enqueue_level1_thread_def upd_thread_def ready1_def same_but_ready_def strip_ready_def)
  next
    case False
    then have l: "last xs \<in> set xs" by simp
    from chain_in_dom [OF c(1) l] obtain u where u: "threads st (last xs) = Some u" "last xs \<noteq> NULL" by auto
    have ne: "last xs \<noteq> a" using l a by auto
    have "chain ((fnext st)(a \<mapsto> NULL, last xs \<mapsto> a)) (level1_head st) (xs @ [a])"
      using chain_enqueue [OF c(1) a(2) a0] False by simp
    moreover have "(\<lambda>q. map_option free_next (((threads st)(a \<mapsto> t\<lparr>free_next := NULL\<rparr>,
        last xs \<mapsto> u\<lparr>free_next := a\<rparr>)) q)) = (fnext st)(a \<mapsto> NULL, last xs \<mapsto> a)" by auto
    ultimately show ?thesis
      using False c(2) t u ne
      by (simp add: enqueue_level1_thread_def upd_thread_def ready1_def same_but_ready_def strip_ready_def last_or_def)
  qed
qed

lemma dequeue_level1_ready:
  assumes "ready1 st (a # xs)"
  shows "\<exists>st'. dequeue_level1_thread st = Some (a, st') \<and> ready1 st' xs \<and> same_but_ready st st'"
proof -
  have c: "chain (fnext st) (level1_head st) (a # xs)" "level1_tail st = last_or NULL (a # xs)"
    using assms by (auto simp: ready1_def)
  then obtain t where t: "level1_head st = a" "threads st a = Some t" "chain (fnext st) (free_next t) xs" "a \<noteq> NULL"
    by (auto split: option.splits)
  have n: "free_next t = NULL \<longleftrightarrow> xs = []"
    using t(3) by (cases xs) auto
  have "a \<notin> set xs" by (rule chain_hd_notin_tl [OF c(1)])
  then have x: "chain ((fnext st)(a \<mapsto> NULL)) (free_next t) xs" using t(3) by simp
  moreover have "(\<lambda>q. map_option free_next (((threads st)(a \<mapsto> t\<lparr>free_next := NULL\<rparr>)) q)) = (fnext st)(a \<mapsto> NULL)"
    by auto
  ultimately show ?thesis
    using t(1,2,4) n c(2)
    by (simp add: dequeue_level1_thread_def upd_thread_def ready1_def same_but_ready_def strip_ready_def
        Let_def last_or_def)
qed

lemma same_but_ready_is_thread: "same_but_ready st st' \<Longrightarrow> is_thread st' p = is_thread st p"
  using same_but_ready_threads(1) [of st st' p] by (simp add: is_thread_def)

interpretation ready0: fifo_queue enqueue_level0_thread dequeue_level0_thread ready0 is_thread
proof unfold_locales
  fix s xs x
  assume "ready0 s xs" "is_thread s x" "x \<notin> set xs"
  from enqueue_level0_ready [OF this] show
    "\<exists>s'. enqueue_level0_thread x s = Some s' \<and> ready0 s' (xs @ [x]) \<and> (\<forall>y. is_thread s' y = is_thread s y)"
    using same_but_ready_is_thread by blast
next
  fix s x xs
  assume "ready0 s (x # xs)"
  from dequeue_level0_ready [OF this] show
    "\<exists>s'. dequeue_level0_thread s = Some (x, s') \<and> ready0 s' xs \<and> (\<forall>y. is_thread s' y = is_thread s y)"
    using same_but_ready_is_thread by blast
qed

interpretation ready1: fifo_queue enqueue_level1_thread dequeue_level1_thread ready1 is_thread
proof unfold_locales
  fix s xs x
  assume "ready1 s xs" "is_thread s x" "x \<notin> set xs"
  from enqueue_level1_ready [OF this] show
    "\<exists>s'. enqueue_level1_thread x s = Some s' \<and> ready1 s' (xs @ [x]) \<and> (\<forall>y. is_thread s' y = is_thread s y)"
    using same_but_ready_is_thread by blast
next
  fix s x xs
  assume "ready1 s (x # xs)"
  from dequeue_level1_ready [OF this] show
    "\<exists>s'. dequeue_level1_thread s = Some (x, s') \<and> ready1 s' xs \<and> (\<forall>y. is_thread s' y = is_thread s y)"
    using same_but_ready_is_thread by blast
qed


section \<open>The task list is a lookup table\<close>

abbreviation tnext :: "kstate \<Rightarrow> ptr \<rightharpoonup> ptr" where
  "tnext st \<equiv> (\<lambda>p. map_option tk_next (tasks st p))"

abbreviation tlast :: "kstate \<Rightarrow> ptr \<rightharpoonup> ptr" where
  "tlast st \<equiv> (\<lambda>p. map_option tk_last (tasks st p))"

definition task_chain :: "kstate \<Rightarrow> ptr list \<Rightarrow> bool" where
  "task_chain st xs \<longleftrightarrow> dseg (tnext st) (tlast st) NULL (task_list st) xs NULL"

definition tasks_ok :: "kstate \<Rightarrow> bool" where
  "tasks_ok st \<longleftrightarrow> (\<exists>xs. task_chain st xs)"

definition has_pid :: "kstate \<Rightarrow> int \<Rightarrow> ptr \<Rightarrow> bool" where
  "has_pid st p a \<longleftrightarrow> map_option pid (tasks st a) = Some p"

definition first_with :: "(ptr \<Rightarrow> bool) \<Rightarrow> ptr list \<Rightarrow> ptr" where
  "first_with P xs = (case List.find P xs of None \<Rightarrow> NULL | Some a \<Rightarrow> a)"

lemma first_with_simps [simp]:
  "first_with P [] = NULL" "first_with P (a # as) = (if P a then a else first_with P as)"
  by (simp_all add: first_with_def)

lemma first_with_cong: "(\<And>a. a \<in> set xs \<Longrightarrow> P a = Q a) \<Longrightarrow> first_with P xs = first_with Q xs"
  by (induction xs) auto

lemma first_with_remove: "\<not> P b \<Longrightarrow> first_with P (xs @ b # ys) = first_with P (xs @ ys)"
  by (induction xs) auto

lemma first_with_NULL: "NULL \<notin> set xs \<Longrightarrow> first_with P xs = NULL \<longleftrightarrow> (\<forall>a\<in>set xs. \<not> P a)"
  by (induction xs) auto

lemma find_task_chain:
  "chain (\<lambda>p. map_option tk_next (ts p)) a xs \<Longrightarrow>
   find_task ts a p = Some (first_with (\<lambda>b. map_option pid (ts b) = Some p) xs)"
proof (induction xs arbitrary: a)
  case Nil
  then show ?case by (simp add: find_task.simps)
next
  case (Cons b xs)
  then obtain t where t: "a = b" "b \<noteq> NULL" "ts b = Some t"
      "chain (\<lambda>p. map_option tk_next (ts p)) (tk_next t) xs"
    by (auto split: option.splits)
  then show ?case using Cons.IH [OF t(4)] by (subst find_task.simps) simp
qed

lemma get_task_by_pid_first:
  "task_chain st xs \<Longrightarrow> get_task_by_pid p st = Some (first_with (has_pid st p) xs)"
  using find_task_chain [OF dseg_chain, of "tasks st" "tlast st" NULL "task_list st" xs p]
  by (simp add: task_chain_def get_task_by_pid_def has_pid_def [abs_def])

lemma task_chain_dom: "task_chain st xs \<Longrightarrow> a \<in> set xs \<Longrightarrow> a \<noteq> NULL \<and> tasks st a \<noteq> None"
  using chain_in_dom [OF dseg_chain] unfolding task_chain_def by fastforce

lemma add_task_chain:
  assumes c: "task_chain st xs" and t: "tasks st a = Some t" "a \<noteq> NULL" "a \<notin> set xs"
  shows "\<exists>st'. add_task a st = Some st' \<and> task_chain st' (a # xs) \<and> (\<forall>p b. has_pid st' p b = has_pid st p b)
    \<and> (\<forall>b. tasks st' b = None \<longleftrightarrow> tasks st b = None)"
proof -
  have d: "dseg (tnext st) (tlast st) NULL (task_list st) xs NULL" using c by (simp add: task_chain_def)
  let ?t = "t\<lparr>tk_next := task_list st, tk_last := NULL\<rparr>"
  show ?thesis
  proof (cases xs)
    case Nil
    with d have "task_list st = NULL" by simp
    with t Nil show ?thesis
      by (auto simp: add_task_def upd_task_def task_chain_def has_pid_def)
  next
    case (Cons b bs)
    with d obtain u where u: "task_list st = b" "b \<noteq> NULL" "tasks st b = Some u" by (auto split: option.splits)
    have ab: "a \<noteq> b" using t(3) Cons by auto
    let ?T = "(tasks st)(a \<mapsto> ?t, b \<mapsto> u\<lparr>tk_last := a\<rparr>)"
    have "(\<lambda>p. map_option tk_next (?T p)) = (tnext st)(a \<mapsto> b)" using u ab by auto
    moreover have "(\<lambda>p. map_option tk_last (?T p)) = (tlast st)(b \<mapsto> a, a \<mapsto> NULL)" using u ab by auto
    ultimately have "task_chain (st\<lparr>tasks := ?T, task_list := a\<rparr>) (a # xs)"
      using dseg_push [OF d t(3,2)] u by (simp add: task_chain_def)
    moreover have "add_task a st = Some (st\<lparr>tasks := ?T, task_list := a\<rparr>)"
      using t u ab by (simp add: add_task_def upd_task_def)
    ultimately show ?thesis using t u by (auto simp: has_pid_def)
  qed
qed

text \<open>Registering a task under its pid, as the interface has it.\<close>

definition register_task :: "int \<Rightarrow> ptr \<Rightarrow> kstate \<Rightarrow> kstate option" where
  "register_task p a st = (if a \<noteq> NULL \<and> has_pid st p a then add_task a st else None)"

definition lookup_task :: "int \<Rightarrow> kstate \<Rightarrow> ptr option option" where
  "lookup_task p st = map_option (\<lambda>a. if a = NULL then None else Some a) (get_task_by_pid p st)"

definition pid_free :: "int \<Rightarrow> kstate \<Rightarrow> bool" where
  "pid_free p st \<longleftrightarrow> get_task_by_pid p st = Some NULL"

lemma register_task_chain:
  assumes "task_chain st xs" and "pid_free p st" and "register_task p a st = Some st'"
  shows "task_chain st' (a # xs)" and "has_pid st' q b = has_pid st q b" and "a \<noteq> NULL" and "has_pid st p a"
proof -
  have a: "a \<noteq> NULL" "has_pid st p a" "add_task a st = Some st'"
    using assms(3) by (auto simp: register_task_def split: if_splits)
  have "NULL \<notin> set xs" using task_chain_dom [OF assms(1)] by blast
  then have "a \<notin> set xs"
    using assms(2) a(2) first_with_NULL [of xs "has_pid st p"] get_task_by_pid_first [OF assms(1), of p]
    by (auto simp: pid_free_def)
  moreover obtain t where "tasks st a = Some t" using a(2) by (auto simp: has_pid_def)
  ultimately show "task_chain st' (a # xs)" "has_pid st' q b = has_pid st q b"
    using add_task_chain [OF assms(1) _ a(1)] a(3) by auto
  show "a \<noteq> NULL" "has_pid st p a" using a by auto
qed

interpretation task_table: lookup_table register_task lookup_task tasks_ok pid_free
proof unfold_locales
  fix s k v s'
  assume "tasks_ok s" "pid_free k s" "register_task k v s = Some s'"
  then show "tasks_ok s'" using register_task_chain(1) unfolding tasks_ok_def by blast
next
  fix s k
  assume "tasks_ok s"
  then show "lookup_task k s \<noteq> None"
    using get_task_by_pid_first by (auto simp: tasks_ok_def lookup_task_def)
next
  fix s k v s' k'
  assume a: "tasks_ok s" "pid_free k s" "register_task k v s = Some s'"
  then obtain xs where c: "task_chain s xs" by (auto simp: tasks_ok_def)
  note r = register_task_chain [OF c a(2,3)]
  have "first_with (has_pid s' k') xs = first_with (has_pid s k') xs"
    by (rule first_with_cong) (simp add: r(2))
  moreover have "has_pid s k' v \<longleftrightarrow> k' = k" using r(4) by (auto simp: has_pid_def)
  ultimately show "lookup_task k' s' = (if k' = k then Some (Some v) else lookup_task k' s)"
    using get_task_by_pid_first [OF r(1), of k'] get_task_by_pid_first [OF c, of k'] r(2,3)
    by (simp add: lookup_task_def)
qed

text \<open>Removing a task.\<close>

lemma remove_task_chain:
  assumes c: "task_chain st (xs @ b # ys)" and k: "kfree b (km st) = Some k"
  shows "\<exists>st'. remove_task b st = Some st' \<and> task_chain st' (xs @ ys) \<and> km st' = k \<and> tasks st' b = None
    \<and> (\<forall>p a. a \<noteq> b \<longrightarrow> has_pid st' p a = has_pid st p a)"
proof -
  have d: "dseg (tnext st) (tlast st) NULL (task_list st) (xs @ b # ys) NULL"
    using c by (simp add: task_chain_def)
  have "b \<in> set (xs @ b # ys)" by simp
  from task_chain_dom [OF c this] obtain t where t: "tasks st b = Some t" "b \<noteq> NULL" by auto
  let ?n = "tk_next t" and ?l = "tk_last t"
  have u: "dseg (if ?l \<noteq> NULL then (tnext st)(?l \<mapsto> ?n) else tnext st)
      (if ?n \<noteq> NULL then (tlast st)(?n \<mapsto> ?l) else tlast st)
      NULL (if ?l \<noteq> NULL then task_list st else ?n) (xs @ ys) NULL"
    by (rule dseg_unlink [OF d]) (use t in auto)
  have dist: "distinct (xs @ b # ys)" by (rule dseg_distinct [OF d])
  have nl: "?n = NULL \<or> ?n \<in> set ys" "?l = NULL \<or> ?l \<in> set xs"
    using dseg_neighbours [OF d, of ?n ?l] t by auto
  then have ne: "?n \<noteq> b" "?l \<noteq> b" "?n = NULL \<or> ?n \<noteq> ?l" using dist t(2) by auto
  obtain tn where tn: "?n \<noteq> NULL \<Longrightarrow> tasks st ?n = Some tn"
    using nl(1) task_chain_dom [OF c, of ?n] by auto
  obtain tl where tl: "?l \<noteq> NULL \<Longrightarrow> tasks st ?l = Some tl"
    using nl(2) task_chain_dom [OF c, of ?l] by auto
  define T where "T = (let T1 = (if ?n \<noteq> NULL then (tasks st)(?n \<mapsto> tn\<lparr>tk_last := ?l\<rparr>) else tasks st)
    in (if ?l \<noteq> NULL then T1(?l \<mapsto> tl\<lparr>tk_next := ?n\<rparr>) else T1)(b := None))"
  let ?st = "set_km k (st\<lparr>tasks := T, task_list := if ?l \<noteq> NULL then task_list st else ?n\<rparr>)"
  have "remove_task b st = Some ?st"
    using t tn tl ne k
    by (cases "?n = NULL"; cases "?l = NULL")
      (simp_all add: remove_task_def upd_task_def k_free_def T_def set_km_def)
  moreover have "task_chain ?st (xs @ ys)"
  proof -
    have "dseg (\<lambda>p. map_option tk_next (T p)) (\<lambda>p. map_option tk_last (T p)) NULL
        (if ?l \<noteq> NULL then task_list st else ?n) (xs @ ys) NULL"
      using u
    proof (rule dseg_cong [THEN iffD1, rotated])
      fix a
      assume "a \<in> set (xs @ ys)"
      then have "a \<noteq> b" using dist by auto
      then show "(if ?l \<noteq> NULL then (tnext st)(?l \<mapsto> ?n) else tnext st) a = map_option tk_next (T a) \<and>
          (if ?n \<noteq> NULL then (tlast st)(?n \<mapsto> ?l) else tlast st) a = map_option tk_last (T a)"
        using tn tl ne by (auto simp: T_def)
    qed
    then show ?thesis by (simp add: task_chain_def)
  qed
  moreover have "has_pid ?st p a = has_pid st p a" if "a \<noteq> b" for p a
    using that tn tl ne by (auto simp: has_pid_def T_def Let_def split: if_splits)
  moreover have "tasks ?st b = None" by (simp add: T_def Let_def)
  ultimately show ?thesis by (intro exI [of _ ?st]) simp
qed


section \<open>The threads of a task\<close>

text \<open>
  \<open>threads_from st a ps\<close>: the threads of a task from pointer \<open>a\<close> on, as \<^verbatim>\<open>get_thread_by_tid\<close> and
  \<^verbatim>\<open>__create_thread__\<close> walk them.
\<close>

definition threads_from :: "kstate \<Rightarrow> ptr \<Rightarrow> ptr list \<Rightarrow> bool" where
  "threads_from st a ps \<longleftrightarrow> chain (\<lambda>p. map_option th_next (threads st p)) a ps"

lemma find_thread_chain:
  "chain (\<lambda>p. map_option th_next (ths p)) a ps \<Longrightarrow>
   find_thread ths a i = Some (first_with (\<lambda>b. map_option tid (ths b) = Some i) ps)"
proof (induction ps arbitrary: a)
  case Nil
  then show ?case by (simp add: find_thread.simps)
next
  case (Cons b ps)
  then obtain t where t: "a = b" "b \<noteq> NULL" "ths b = Some t" "chain (\<lambda>p. map_option th_next (ths p)) (th_next t) ps"
    by (auto split: option.splits)
  then show ?case using Cons.IH [OF t(4)] by (subst find_thread.simps) simp
qed

text \<open>An example state with one task of pid 5 and two threads.\<close>

definition example_thread :: thread_info where
  "example_thread = \<lparr>registers = \<lparr>ri_basic = zero_basic, ri_rbp = 0, ri_rsp = 0, ri_ss = 0, ri_rip = 0,
       ri_cs = 0, ri_rflags = 0\<rparr>,
     th_state = RUNNING, th_next = NULL, th_last = NULL, free_next = NULL, th_task = 4120,
     th_count = 3, th_priority = 1, tid = 0\<rparr>"

definition example_args :: task_args where
  "example_args = \<lparr>ta_ds = 0, ta_stack_top = 65536, ta_stack_bottom = 0, ta_entry = 0, ta_cs = 0,
     ta_rflags = 0, ta_pgd = 4194304, ta_code_start = 0, ta_code_end = 0, ta_data_start = 0, ta_data_end = 0,
     ta_heap_start = 0, ta_heap_end = 0, ta_rodata_start = 0, ta_rodata_end = 0, ta_shm_start = 0,
     ta_shm_end = 0, ta_pid = 5, ta_priority = 1, ta_level = 1, ta_parent = NULL, ta_kernel_task = True\<rparr>"

definition example_task :: task_struct where
  "example_task = \<lparr>tk_threads = 1000, tk_mm_info = init_mm_info example_args, tk_ipc_info = init_ipc_info,
     tk_last = NULL, tk_next = NULL, tk_parent = NULL, tk_children = NULL, tk_bro = NULL, pid = 5, level = 1,
     cur_tid = 2, tk_cs = 0, tk_ds = 0, tk_rflags = 0, tk_priority = 1, kernel_task = True\<rparr>"

definition example_kstate :: kstate where
  "example_kstate = \<lparr>vm = example_vmem,
     threads = [1000 \<mapsto> example_thread\<lparr>th_next := 2000\<rparr>, 2000 \<mapsto> example_thread\<lparr>th_last := 1000, tid := 1\<rparr>,
       3000 \<mapsto> example_thread\<lparr>tid := 2\<rparr>],
     tasks = [4120 \<mapsto> example_task], signal_nodes = Map.empty, wtnodes = Map.empty,
     empty_task = NULL, task_list = 4120, level0_head = NULL, level0_tail = NULL, level1_head = NULL,
     level1_tail = NULL, current_thread = 1000, do_schedule = True, ticks = 0, entered_handler = False,
     signal_root = NULL, cur_id = 0, kernel_pml4 = 4194304, irq_handle_tasks = (\<lambda>_. 0), msgid_counter = 0\<rparr>"

lemma example_kstate_simps [simp]:
  "vm example_kstate = example_vmem" "tasks example_kstate = [4120 \<mapsto> example_task]"
  "threads example_kstate = [1000 \<mapsto> example_thread\<lparr>th_next := 2000\<rparr>,
     2000 \<mapsto> example_thread\<lparr>th_last := 1000, tid := 1\<rparr>, 3000 \<mapsto> example_thread\<lparr>tid := 2\<rparr>]"
  "task_list example_kstate = 4120" "level0_head example_kstate = NULL" "level0_tail example_kstate = NULL"
  "current_thread example_kstate = 1000"
  by (simp_all add: example_kstate_def)

lemma example_kstate_chain: "task_chain example_kstate [4120]"
  by (simp add: task_chain_def example_task_def)

section \<open>Properties\<close>

text \<open>
  The ready queue of level 0 is first-in first-out: threads enqueued with
  \<^verbatim>\<open>enqueue_level0_thread\<close> into the empty queue are dequeued in the same order by
  \<^verbatim>\<open>dequeue_level0_thread\<close>, which leave the queue empty.
\<close>

theorem ready_queue_fifo:
  assumes "ready0 st []" and "distinct ps" and "\<forall>p\<in>set ps. is_thread st p"
  shows "\<exists>s1 s2. enq_all enqueue_level0_thread ps st = Some s1
    \<and> deq_n dequeue_level0_thread (length ps) s1 = Some (ps, s2) \<and> ready0 s2 []"
  using ready0.first_in_first_out [OF assms] .

theorem ready_queue_fifo_witness:
  "\<exists>s1 s2. enq_all enqueue_level0_thread [2000, 1000, 3000] example_kstate = Some s1
    \<and> deq_n dequeue_level0_thread 3 s1 = Some ([2000, 1000, 3000], s2)"
  using ready_queue_fifo [of example_kstate "[2000, 1000, 3000]"]
  by (auto simp: ready0_def is_thread_def numeral_3_eq_3)

text \<open>
  \<^verbatim>\<open>enqueue_thread\<close> puts the threads of level-1 tasks into the queue of level 0 too: for a
  thread of either level the queue of level 0 grows by it at the end, and the queue of level 1
  is never used.
\<close>

theorem enqueue_thread_level1_in_level0:
  assumes "ready0 st ps" and "is_thread st p" and "p \<notin> set ps"
    and "threads st p = Some th" and "tasks st (th_task th) = Some t" and "level t \<in> {0, 1}"
  shows "\<exists>st'. enqueue_thread p st = Some st' \<and> ready0 st' (ps @ [p])
    \<and> level1_head st' = level1_head st \<and> level1_tail st' = level1_tail st"
  using enqueue_level0_ready [OF assms(1-3)] assms(4-6) by (auto simp: enqueue_thread_def)

theorem enqueue_thread_level1_in_level0_witness:
  "level example_task = 1 \<and> (\<exists>st'. enqueue_thread 1000 example_kstate = Some st'
    \<and> ready0 st' [1000] \<and> has_level0_thread st' \<and> level1_head st' = level1_head example_kstate)"
proof -
  have "\<exists>st'. enqueue_thread 1000 example_kstate = Some st' \<and> ready0 st' ([] @ [1000])
      \<and> level1_head st' = level1_head example_kstate \<and> level1_tail st' = level1_tail example_kstate"
    by (rule enqueue_thread_level1_in_level0 [of _ _ _ "example_thread\<lparr>th_next := 2000\<rparr>" example_task])
      (auto simp: ready0_def is_thread_def example_thread_def example_task_def)
  then show ?thesis
    by (auto simp: example_task_def has_level0_thread_def ready0_def split: option.splits)
qed

text \<open>
  After \<^verbatim>\<open>add_task\<close> of a task whose pid no task of the list has, \<^verbatim>\<open>get_task_by_pid\<close> finds that
  task under its pid and finds under every other pid what it found before.
\<close>

theorem get_task_after_add:
  assumes "tasks_ok st" and "get_task_by_pid p st = Some NULL" and "a \<noteq> NULL" and "has_pid st p a"
    and "add_task a st = Some st'"
  shows "tasks_ok st' \<and> get_task_by_pid p st' = Some a
    \<and> (\<forall>q. q \<noteq> p \<longrightarrow> get_task_by_pid q st' = get_task_by_pid q st)"
proof -
  have f: "pid_free p st" using assms(2) by (simp add: pid_free_def)
  have r: "register_task p a st = Some st'" using assms(3-5) by (simp add: register_task_def)
  have iff: "lookup_task q s = Some (Some b) \<longleftrightarrow> get_task_by_pid q s = Some b" if "b \<noteq> NULL" for q s b
    using that by (auto simp: lookup_task_def split: if_splits)
  have eq: "lookup_task q s = lookup_task q s' \<Longrightarrow> get_task_by_pid q s = get_task_by_pid q s'" for q s s'
    by (cases "get_task_by_pid q s"; cases "get_task_by_pid q s'") (auto simp: lookup_task_def split: if_splits)
  show ?thesis
    using task_table.ins_inv [OF assms(1) f r] task_table.lkp_ins_same [OF assms(1) f r]
      task_table.lkp_ins_other [OF assms(1) f r] iff [OF assms(3)] eq by blast
qed

theorem get_task_after_add_witness:
  "\<exists>st'. add_task 7000 (example_kstate\<lparr>tasks := [4120 \<mapsto> example_task, 7000 \<mapsto> example_task\<lparr>pid := 6\<rparr>]\<rparr>) = Some st'
    \<and> get_task_by_pid 6 st' = Some 7000 \<and> get_task_by_pid 5 st' = Some 4120"
proof -
  let ?s = "example_kstate\<lparr>tasks := [4120 \<mapsto> example_task, 7000 \<mapsto> example_task\<lparr>pid := 6\<rparr>]\<rparr>"
  have c: "task_chain ?s [4120]" by (simp add: task_chain_def example_task_def)
  have h: "has_pid ?s 6 7000" "\<not> has_pid ?s 6 4120" "has_pid ?s 5 4120"
    by (simp_all add: has_pid_def example_task_def)
  obtain st' where st': "add_task 7000 ?s = Some st'"
    using add_task_chain [OF c, of 7000] by auto
  have "get_task_by_pid 6 ?s = Some NULL" "get_task_by_pid 5 ?s = Some 4120"
    using get_task_by_pid_first [OF c] h by auto
  moreover have "tasks_ok ?s" using c unfolding tasks_ok_def by blast
  ultimately have g: "get_task_by_pid 6 st' = Some 7000"
      "\<forall>q. q \<noteq> 6 \<longrightarrow> get_task_by_pid q st' = get_task_by_pid q ?s"
    using get_task_after_add [OF _ _ _ h(1) st'] by auto
  have "get_task_by_pid 5 st' = get_task_by_pid 5 ?s" by (rule g(2) [rule_format]) simp
  with st' g(1) \<open>get_task_by_pid 5 ?s = Some 4120\<close> show ?thesis by metis
qed

text \<open>
  C25. \<^verbatim>\<open>remove_task\<close> of any task of the list, first, last or in between, returns, keeps the list
  linked in both directions without the task, and frees its block; every pid other than the
  removed task's finds what it found before.
\<close>

theorem remove_task_correct:
  assumes "task_chain st (xs @ b # ys)" and "has_pid st p b"
    and "heap_ok (km st) hs" and "(b - SEG_INFO_SZ, sz) \<in> used_blocks hs" and "SEG_INFO_SZ \<le> b"
  shows "\<exists>st' hs'. remove_task b st = Some st' \<and> task_chain st' (xs @ ys) \<and> tasks st' b = None
    \<and> heap_ok (km st') hs' \<and> used_blocks hs' = used_blocks hs - {(b - SEG_INFO_SZ, sz)}
    \<and> (\<forall>q. q \<noteq> p \<longrightarrow> get_task_by_pid q st' = get_task_by_pid q st)"
proof -
  have b: "b - SEG_INFO_SZ + SEG_INFO_SZ = b" using assms(5) by simp
  obtain h hs' where k: "kfree b (km st) = Some ((km st)\<lparr>segs := h\<rparr>)" "heap_ok ((km st)\<lparr>segs := h\<rparr>) hs'"
      "used_blocks hs' = used_blocks hs - {(b - SEG_INFO_SZ, sz)}"
    using kfree_ok [OF assms(3,4)] unfolding b by blast
  obtain st' where r: "remove_task b st = Some st'" "task_chain st' (xs @ ys)"
      "km st' = (km st)\<lparr>segs := h\<rparr>" "tasks st' b = None" "\<forall>p a. a \<noteq> b \<longrightarrow> has_pid st' p a = has_pid st p a"
    using remove_task_chain [OF assms(1) k(1)] by blast
  have d: "b \<notin> set (xs @ ys)" using dseg_distinct assms(1) by (fastforce simp: task_chain_def)
  have "get_task_by_pid q st' = get_task_by_pid q st" if "q \<noteq> p" for q
  proof -
    have "first_with (has_pid st' q) (xs @ ys) = first_with (has_pid st q) (xs @ ys)"
      by (rule first_with_cong) (use r(5) d in auto)
    moreover have "\<not> has_pid st q b" using assms(2) that by (auto simp: has_pid_def)
    ultimately show ?thesis
      using get_task_by_pid_first [OF r(2)] get_task_by_pid_first [OF assms(1)] first_with_remove by metis
  qed
  with r k show ?thesis by metis
qed

theorem remove_task_correct_witness:
  "\<exists>st'. remove_task 4120 example_kstate = Some st' \<and> task_chain st' [] \<and> tasks st' 4120 = None"
proof -
  have "heap_ok (km example_kstate) [(4096, 64, True), (4160, 65472, False)]"
    using example_pmm_inv by (simp add: example_vmem_def pmm_inv_def)
  from remove_task_correct [OF _ _ this, of "[]" 4120 "[]" 5 64] show ?thesis
    using example_kstate_chain by (auto simp: has_pid_def example_task_def SEG_INFO_SZ_def)
qed

text \<open>
  \<^verbatim>\<open>remove_thread\<close> of the first thread of a task leaves \<^verbatim>\<open>task->threads\<close> pointing at the freed
  object: the next lookup of any thread of the task reads freed memory.
\<close>

theorem remove_first_thread_dangles:
  assumes "tasks st task = Some t" and "tk_threads t = p" and "threads st p = Some th"
    and "th_last th = NULL" and "th_next th = NULL \<or> is_thread st (th_next th) \<and> th_next th \<noteq> p"
    and "kfree p (km st) = Some k" and "p \<noteq> NULL"
  shows "\<exists>st'. remove_thread p st = Some st' \<and> tasks st' task = Some t \<and> threads st' (tk_threads t) = None
    \<and> get_thread_by_tid i task st' = None"
proof -
  have "\<exists>st'. remove_thread p st = Some st' \<and> tasks st' = tasks st \<and> threads st' p = None"
    using assms(3-6)
    by (cases "th_next th = NULL") (auto simp: remove_thread_def upd_thread_def k_free_def is_thread_def)
  then obtain st' where s: "remove_thread p st = Some st'" "tasks st' = tasks st" "threads st' p = None" by blast
  moreover have "find_thread (threads st') p i = None"
    using s(3) assms(7) by (subst find_thread.simps) simp
  ultimately show ?thesis using assms(1,2) by (auto simp: get_thread_by_tid_def)
qed

theorem remove_first_thread_dangles_witness:
  "\<exists>st'. remove_thread 4120 (example_kstate\<lparr>threads := [4120 \<mapsto> example_thread\<lparr>th_next := 2000\<rparr>,
       2000 \<mapsto> example_thread\<lparr>th_last := 4120, tid := 1\<rparr>], tasks := [1 \<mapsto> example_task\<lparr>tk_threads := 4120\<rparr>]\<rparr>) = Some st'
    \<and> get_thread_by_tid 1 1 st' = None"
proof -
  let ?s = "example_kstate\<lparr>threads := [4120 \<mapsto> example_thread\<lparr>th_next := 2000\<rparr>,
       2000 \<mapsto> example_thread\<lparr>th_last := 4120, tid := 1\<rparr>], tasks := [1 \<mapsto> example_task\<lparr>tk_threads := 4120\<rparr>]\<rparr>"
  have "heap_ok (km ?s) [(4096, 64, True), (4160, 65472, False)]"
    using example_pmm_inv by (simp add: example_vmem_def pmm_inv_def)
  from kfree_ok [OF this, of 4096 64] obtain k where "kfree 4120 (km ?s) = Some k"
    by (auto simp: SEG_INFO_SZ_def)
  from remove_first_thread_dangles [OF _ _ _ _ _ this, of 1 "example_task\<lparr>tk_threads := 4120\<rparr>"
      "example_thread\<lparr>th_next := 2000\<rparr>" 1] show ?thesis
    by (auto simp: example_thread_def is_thread_def)
qed


end
