(* ===== verification/Sched.thy ===== *)
theory Sched
  imports Task
begin

text \<open>
  The scheduler, \<^verbatim>\<open>kernel/task/task_scheduler.c\<close>, and the clock interrupt of
  \<^verbatim>\<open>kernel/intterup/clock.c\<close>.  The lemmas show that a switch stores and restores the registers of
  a thread, that the ready queue rotates, so that every ready thread runs after as many switches
  as there are threads before it, and when the clock causes a switch.
\<close>

section \<open>Operations\<close>

definition get_next_run_thread :: "kstate \<Rightarrow> (ptr \<times> kstate) option" where
  "get_next_run_thread st =
     (if has_level0_thread st then dequeue_level0_thread st
      else if has_level1_thread st then dequeue_level1_thread st
      else do { t \<leftarrow> tasks st (empty_task st); Some (tk_threads t, st) })"

definition should_switch :: "kstate \<Rightarrow> bool option" where
  "should_switch st =
     (if \<not> do_schedule st then Some False
      else do {
        th \<leftarrow> threads st (current_thread st);
        t \<leftarrow> tasks st (th_task th);
        if pid t = -1 then Some True
        else if level t = 0 then Some (th_state th \<noteq> RUNNING)
        else if level t = 1 then
          (if has_level0_thread st then Some True
           else if th_state th \<noteq> RUNNING then Some True
           else if th_count th \<le> 0 then Some True
           else Some False)
        else Some True
      })"

text \<open>\<^verbatim>\<open>down_thread\<close>: the interrupted registers are stored; the thread is queued again, or removed.\<close>

definition save_regs :: "intterup_args \<Rightarrow> register_info \<Rightarrow> register_info" where
  "save_regs regs r = r\<lparr>ri_basic := ia_basic regs, ri_rbp := ia_rbp regs, ri_rsp := ia_rsp regs, ri_ss := ia_ss regs,
     ri_cs := ia_cs regs, ri_rip := ia_rip regs, ri_rflags := ia_rflags regs\<rparr>"

definition down_thread :: "intterup_args \<Rightarrow> kstate \<Rightarrow> kstate option" where
  "down_thread regs st = do {
     let cur = current_thread st;
     st \<leftarrow> upd_thread cur (\<lambda>t. t\<lparr>registers := save_regs regs (registers t)\<rparr>) st;
     th \<leftarrow> threads st cur;
     if th_state th = RUNNING then do {
       st \<leftarrow> upd_thread cur (\<lambda>t. t\<lparr>th_state := READY\<rparr>) st;
       enqueue_thread cur st
     }
     else if th_state th = TERMINATED \<or> th_state th = EXCEPTION then remove_thread cur st
     else Some st
   }"

definition load_regs :: "register_info \<Rightarrow> ptr \<Rightarrow> intterup_args \<Rightarrow> intterup_args" where
  "load_regs r dir regs = regs\<lparr>ia_basic := ri_basic r, ia_rbp := ri_rbp r, ia_rsp := ri_rsp r, ia_ss := ri_ss r,
     ia_cs := ri_cs r, ia_rip := ri_rip r, ia_rflags := ri_rflags r, ia_pgd := dir\<rparr>"

definition up_thread :: "intterup_args \<Rightarrow> kstate \<Rightarrow> (intterup_args \<times> kstate) option" where
  "up_thread regs st = do {
     let cur = current_thread st;
     th \<leftarrow> threads st cur;
     t \<leftarrow> tasks st (th_task th);
     let regs = load_regs (registers th) (pgd (tk_mm_info t)) regs;
     st \<leftarrow> upd_thread cur (\<lambda>t. t\<lparr>th_state := RUNNING\<rparr>) st;
     Some (regs, st)
   }"

definition do_switch :: "intterup_args \<Rightarrow> kstate \<Rightarrow> (intterup_args \<times> kstate) option" where
  "do_switch regs st = do {
     st \<leftarrow> down_thread regs st;
     (next_thread, st) \<leftarrow> get_next_run_thread st;
     let st = st\<lparr>current_thread := next_thread\<rparr>;
     (regs, st) \<leftarrow> up_thread regs st;
     th \<leftarrow> threads st next_thread;
     t \<leftarrow> tasks st (th_task th);
     if level t = 1
     then do { st \<leftarrow> upd_thread next_thread (\<lambda>t. t\<lparr>th_count := th_priority t * 3\<rparr>) st; Some (regs, st) }
     else Some (regs, st)
   }"

definition after_syscall :: "intterup_args \<Rightarrow> kstate \<Rightarrow> (intterup_args \<times> kstate) option" where
  "after_syscall regs st = do {
     b \<leftarrow> should_switch st;
     if b then do_switch regs st else Some (regs, st)
   }"

definition clock_int_handler :: "intterup_args \<Rightarrow> kstate \<Rightarrow> (intterup_args \<times> kstate) option" where
  "clock_int_handler regs st = do {
     let st = st\<lparr>ticks := ticks st + 1\<rparr>;
     if do_schedule st then do {
       (regs, st) \<leftarrow> after_syscall regs st;
       th \<leftarrow> threads st (current_thread st);
       t \<leftarrow> tasks st (th_task th);
       if level t = 1
       then do { st \<leftarrow> upd_thread (current_thread st) (\<lambda>t. t\<lparr>th_count := th_count t - 1\<rparr>) st; Some (regs, st) }
       else Some (regs, st)
     }
     else Some (regs, st)
   }"

definition start_schedule :: "kstate \<Rightarrow> kstate" where
  "start_schedule st = st\<lparr>do_schedule := True\<rparr>"

section \<open>The scheduling invariant\<close>

text \<open>
  \<open>sched_inv st p ps\<close>: thread \<open>p\<close> runs, \<open>ps\<close> are the ready threads in order, and the tasks of all of
  them exist and are of level 0 or 1.
\<close>

definition schedulable :: "kstate \<Rightarrow> ptr \<Rightarrow> bool" where
  "schedulable st p \<longleftrightarrow> p \<noteq> NULL \<and> (\<exists>th t. threads st p = Some th \<and> tasks st (th_task th) = Some t \<and> level t \<in> {0, 1})"

definition sched_inv :: "kstate \<Rightarrow> ptr \<Rightarrow> ptr list \<Rightarrow> bool" where
  "sched_inv st p ps \<longleftrightarrow> current_thread st = p \<and> ready0 st ps \<and> distinct (p # ps) \<and>
     (\<forall>q\<in>set (p # ps). schedulable st q) \<and> map_option th_state (threads st p) = Some RUNNING"

text \<open>What a switch may change of a thread: its state, its link, its time slice and its registers.\<close>

definition same_tasks :: "kstate \<Rightarrow> kstate \<Rightarrow> bool" where
  "same_tasks st st' \<longleftrightarrow> tasks st' = tasks st \<and>
     (\<forall>q. map_option th_task (threads st' q) = map_option th_task (threads st q))"

lemma same_tasks_refl [simp]: "same_tasks st st"
  by (simp add: same_tasks_def)

lemma same_tasks_trans: "same_tasks a b \<Longrightarrow> same_tasks b c \<Longrightarrow> same_tasks a c"
  by (simp add: same_tasks_def)

lemma same_tasks_schedulable: "same_tasks st st' \<Longrightarrow> schedulable st' p = schedulable st p"
proof -
  assume s: "same_tasks st st'"
  then have "map_option th_task (threads st' p) = map_option th_task (threads st p)"
    by (simp add: same_tasks_def)
  with s show ?thesis
    by (cases "threads st' p"; cases "threads st p") (auto simp: schedulable_def same_tasks_def)
qed

lemma same_but_ready_tasks: "same_but_ready st st' \<Longrightarrow> same_tasks st st'"
proof -
  assume s: "same_but_ready st st'"
  have "map_option th_task (threads st' q) = map_option th_task (threads st q)" for q
    using same_but_ready_threads [OF s, of q] by (cases "threads st q") auto
  with same_but_ready_fields [OF s] show ?thesis by (simp add: same_tasks_def)
qed

text \<open>Updating fields of a thread that the queues do not use.\<close>

lemma ready0_upd_thread:
  assumes "threads st p = Some t" and "free_next t' = free_next t"
  shows "ready0 (st\<lparr>threads := (threads st)(p \<mapsto> t')\<rparr>) ps = ready0 st ps"
proof -
  have "(\<lambda>q. map_option free_next (((threads st)(p \<mapsto> t')) q)) = fnext st" using assms by auto
  then show ?thesis by (simp add: ready0_def)
qed

lemma down_thread_running:
  assumes inv: "sched_inv st p ps" and th: "threads st p = Some th"
  shows "\<exists>st' n. down_thread regs st = Some st' \<and> ready0 st' (ps @ [p]) \<and> same_tasks st st'
    \<and> threads st' p = Some (th\<lparr>registers := save_regs regs (registers th), th_state := READY, free_next := n\<rparr>)
    \<and> (\<forall>q. q \<noteq> p \<longrightarrow> (\<exists>m. threads st' q = map_option (\<lambda>t. t\<lparr>free_next := m\<rparr>) (threads st q)))
    \<and> empty_task st' = empty_task st \<and> vm st' = vm st \<and> do_schedule st' = do_schedule st"
proof -
  let ?t = "th\<lparr>registers := save_regs regs (registers th), th_state := READY\<rparr>"
  let ?s = "st\<lparr>threads := (threads st)(p \<mapsto> ?t)\<rparr>"
  have I: "current_thread st = p" "ready0 st ps" "p \<notin> set ps" "th_state th = RUNNING"
    using inv th by (auto simp: sched_inv_def)
  have "schedulable st p" using inv by (simp add: sched_inv_def)
  with th obtain t where t: "p \<noteq> NULL" "tasks st (th_task th) = Some t" "level t \<in> {0, 1}"
    by (auto simp: schedulable_def)
  have r: "ready0 ?s ps" using ready0_upd_thread [OF th, of ?t] I(2) by simp
  have "is_thread ?s p" using t by (simp add: is_thread_def)
  from enqueue_level0_ready [OF r this I(3)] obtain s' where
    s': "enqueue_level0_thread p ?s = Some s'" "ready0 s' (ps @ [p])" "same_but_ready ?s s'" by blast
  have "down_thread regs st = Some s'"
    using I th t s'(1) by (auto simp: down_thread_def upd_thread_def enqueue_thread_def)
  moreover have "same_tasks st ?s" using th by (auto simp: same_tasks_def)
  then have "same_tasks st s'" using same_but_ready_tasks [OF s'(3)] same_tasks_trans by blast
  moreover have "\<exists>m. threads s' q = map_option (\<lambda>t. t\<lparr>free_next := m\<rparr>) (threads ?s q)" for q
    using same_but_ready_threads [OF s'(3), of q] by (cases "threads ?s q") auto
  note m = this
  from m [of p] obtain n where "threads s' p = Some (?t\<lparr>free_next := n\<rparr>)" by auto
  moreover have "\<exists>m. threads s' q = map_option (\<lambda>t. t\<lparr>free_next := m\<rparr>) (threads st q)" if "q \<noteq> p" for q
    using m [of q] that by simp
  moreover have "empty_task s' = empty_task st" "vm s' = vm st" "do_schedule s' = do_schedule st"
    using same_but_ready_fields [OF s'(3)] by simp_all
  ultimately show ?thesis using s'(2) by (intro exI [of _ s'] exI [of _ n]) simp
qed

text \<open>A switch with a ready thread: the queue rotates.\<close>

lemma do_switch_ready:
  assumes inv: "sched_inv st p (q # qs)" and th: "threads st p = Some th"
    and tq: "threads st q = Some thq" "tasks st (th_task thq) = Some t"
  shows "\<exists>regs' st'. do_switch regs st = Some (regs', st') \<and> sched_inv st' q (qs @ [p]) \<and> same_tasks st st'
    \<and> regs' = load_regs (registers thq) (pgd (tk_mm_info t)) regs
    \<and> map_option registers (threads st' p) = Some (save_regs regs (registers th))
    \<and> (\<forall>r. r \<noteq> p \<longrightarrow> map_option registers (threads st' r) = map_option registers (threads st r))
    \<and> empty_task st' = empty_task st \<and> do_schedule st' = do_schedule st"
proof -
  obtain s1 n where s1: "down_thread regs st = Some s1" "ready0 s1 (q # (qs @ [p]))" "same_tasks st s1"
      "threads s1 p = Some (th\<lparr>registers := save_regs regs (registers th), th_state := READY, free_next := n\<rparr>)"
      "\<forall>r. r \<noteq> p \<longrightarrow> (\<exists>m. threads s1 r = map_option (\<lambda>t. t\<lparr>free_next := m\<rparr>) (threads st r))"
      "empty_task s1 = empty_task st" "do_schedule s1 = do_schedule st"
    using down_thread_running [OF inv th, of regs] by auto
  obtain s2 where s2: "dequeue_level0_thread s1 = Some (q, s2)" "ready0 s2 (qs @ [p])" "same_but_ready s1 s2"
    using dequeue_level0_ready [OF s1(2)] by blast
  have "level0_head s1 \<noteq> NULL" using s1(2) by (auto simp: ready0_def)
  then have gn: "get_next_run_thread s1 = Some (q, s2)"
    using s2(1) by (simp add: get_next_run_thread_def has_level0_thread_def)
  have d: "distinct (p # q # qs)" and sch: "\<forall>r\<in>set (p # q # qs). schedulable st r"
    using inv by (auto simp: sched_inv_def)
  then have pq: "q \<noteq> p" by auto
  have st2: "same_tasks st s2" using s1(3) same_but_ready_tasks [OF s2(3)] same_tasks_trans by blast
  obtain m where "threads s1 q = Some (thq\<lparr>free_next := m\<rparr>)" using s1(5) pq tq by fastforce
  then obtain m where q2: "threads s2 q = Some (thq\<lparr>free_next := m\<rparr>)"
    using same_but_ready_threads(2) [OF s2(3)] by fastforce
  have t2: "tasks s2 (th_task thq) = Some t" using st2 tq(2) by (simp add: same_tasks_def)
  define u where "u = (if level t = 1 then thq\<lparr>free_next := m, th_state := RUNNING, th_count := th_priority thq * 3\<rparr>
    else thq\<lparr>free_next := m, th_state := RUNNING\<rparr>)"
  let ?s = "s2\<lparr>current_thread := q, threads := (threads s2)(q \<mapsto> u)\<rparr>"
  have "do_switch regs st = Some (load_regs (registers thq) (pgd (tk_mm_info t)) regs, ?s)"
    using s1(1) gn q2 t2 by (simp add: do_switch_def up_thread_def upd_thread_def u_def)
  moreover have sm: "same_tasks st ?s"
    using st2 q2 tq by (auto simp: same_tasks_def u_def)
  moreover have "ready0 ?s (qs @ [p])"
    using ready0_upd_thread [OF q2, of u "qs @ [p]"] s2(2) by (simp add: ready0_def u_def)
  moreover have "schedulable ?s r" if "r \<in> set (q # qs @ [p])" for r
    using same_tasks_schedulable [OF sm] sch that by auto
  moreover have "map_option registers (threads ?s p) = Some (save_regs regs (registers th))"
    using same_but_ready_threads(2) [OF s2(3) s1(4)] pq by auto
  moreover have "map_option registers (threads ?s r) = map_option registers (threads st r)" if "r \<noteq> p" for r
  proof (cases "r = q")
    case True
    then show ?thesis using tq by (simp add: u_def)
  next
    case False
    from s1(5) that obtain k where "threads s1 r = map_option (\<lambda>t. t\<lparr>free_next := k\<rparr>) (threads st r)" by blast
    with False same_but_ready_threads [OF s2(3), of r] show ?thesis by (cases "threads st r") auto
  qed
  moreover have "empty_task ?s = empty_task st" "do_schedule ?s = do_schedule st"
    using same_but_ready_fields [OF s2(3)] s1(6,7) by simp_all
  ultimately show ?thesis using d by (auto simp: sched_inv_def u_def)
qed

lemma sched_inv_threads:
  assumes "sched_inv st p (q # qs)"
  obtains th thq t where "threads st p = Some th" "threads st q = Some thq" "tasks st (th_task thq) = Some t"
  using assms by (auto simp: sched_inv_def schedulable_def)

section \<open>Turns of the clock\<close>

text \<open>A thread of level 1, where the clock ends turns; \<open>-1\<close> is the number of the idle task.\<close>

definition level_one :: "kstate \<Rightarrow> ptr \<Rightarrow> bool" where
  "level_one st p \<longleftrightarrow> (\<exists>th t. threads st p = Some th \<and> tasks st (th_task th) = Some t \<and> level t = 1 \<and> pid t \<noteq> -1)"

lemma same_tasks_level_one:
  assumes s: "same_tasks st st'"
  shows "level_one st' p = level_one st p"
proof -
  have "map_option th_task (threads st' p) = map_option th_task (threads st p)" using s by (simp add: same_tasks_def)
  with s show ?thesis by (cases "threads st' p"; cases "threads st p") (auto simp: level_one_def same_tasks_def)
qed

text \<open>Changing the time slices of a thread.\<close>

lemma sched_inv_count:
  assumes inv: "sched_inv st q qs" and th: "threads st q = Some th"
  shows "sched_inv (st\<lparr>threads := (threads st)(q \<mapsto> th\<lparr>th_count := c\<rparr>)\<rparr>) q qs"
    and "same_tasks st (st\<lparr>threads := (threads st)(q \<mapsto> th\<lparr>th_count := c\<rparr>)\<rparr>)"
proof -
  let ?s = "st\<lparr>threads := (threads st)(q \<mapsto> th\<lparr>th_count := c\<rparr>)\<rparr>"
  show sm: "same_tasks st ?s" using th by (auto simp: same_tasks_def)
  have "ready0 ?s qs = ready0 st qs" by (rule ready0_upd_thread [OF th]) simp
  moreover have "schedulable ?s r = schedulable st r" for r by (rule same_tasks_schedulable [OF sm])
  ultimately show "sched_inv ?s q qs" using inv th by (simp add: sched_inv_def)
qed

text \<open>A clock interrupt while a thread of level 1 runs and another is ready.\<close>

lemma clock_level_one:
  assumes inv: "sched_inv st p (q # qs)" and on: "do_schedule st" and p: "level_one st p"
  shows "\<exists>regs' st'. clock_int_handler regs st = Some (regs', st') \<and> sched_inv st' q (qs @ [p]) \<and> same_tasks st st'
    \<and> do_schedule st'"
proof -
  let ?s = "st\<lparr>ticks := ticks st + 1\<rparr>"
  have inv': "sched_inv ?s p (q # qs)" using inv by (simp add: sched_inv_def schedulable_def ready0_def)
  have sw: "should_switch ?s = Some True"
    using inv on p by (auto simp: level_one_def should_switch_def sched_inv_def has_level0_thread_def ready0_def)
  obtain thp thq u where u: "threads ?s p = Some thp" "threads ?s q = Some thq" "tasks ?s (th_task thq) = Some u"
    using sched_inv_threads [OF inv'] .
  obtain r1 s1 where s1: "do_switch regs ?s = Some (r1, s1)" "sched_inv s1 q (qs @ [p])" "same_tasks ?s s1" "do_schedule s1"
    using do_switch_ready [OF inv' u, of regs] on by auto
  have sm: "same_tasks st s1" using s1(3) by (simp add: same_tasks_def)
  obtain th t where t: "current_thread s1 = q" "threads s1 q = Some th" "tasks s1 (th_task th) = Some t"
    using s1(2) by (auto simp: sched_inv_def schedulable_def)
  note c = sched_inv_count [OF s1(2) t(2), of "th_count th - 1"]
  have "after_syscall regs ?s = Some (r1, s1)" using sw s1(1) by (simp add: after_syscall_def)
  then have "clock_int_handler regs st = Some (r1, if level t = 1
      then s1\<lparr>threads := (threads s1)(q \<mapsto> th\<lparr>th_count := th_count th - 1\<rparr>)\<rparr> else s1)"
    using on t by (simp add: clock_int_handler_def upd_thread_def)
  then show ?thesis using c same_tasks_trans [OF sm c(2)] sm s1(2,4) by auto
qed

text \<open>A number of clock interrupts, and the threads that run after each of them.\<close>

primrec clocks :: "nat \<Rightarrow> intterup_args \<Rightarrow> kstate \<Rightarrow> (ptr list \<times> intterup_args \<times> kstate) option" where
  "clocks 0 regs st = Some ([], regs, st)"
| "clocks (Suc n) regs st = do {
     (regs, st) \<leftarrow> clock_int_handler regs st;
     (ps, regs, st') \<leftarrow> clocks n regs st;
     Some (current_thread st # ps, regs, st')
   }"

lemma clocks_rotate:
  assumes "sched_inv st p (qs @ rs)" and "do_schedule st" and "\<forall>q\<in>set (p # qs). level_one st q"
  shows "\<exists>regs' st'. clocks (length qs) regs st = Some (qs, regs', st')
     \<and> sched_inv st' (last_or p qs) (rs @ butlast (p # qs)) \<and> same_tasks st st'"
  using assms
proof (induction qs arbitrary: st p rs regs)
  case Nil
  then show ?case by simp
next
  case (Cons q qs)
  have i: "sched_inv st p (q # (qs @ rs))" and p: "level_one st p" using Cons.prems by simp_all
  obtain regs1 s1 where s1: "clock_int_handler regs st = Some (regs1, s1)" "sched_inv s1 q (qs @ (rs @ [p]))"
      "same_tasks st s1" "do_schedule s1"
    using clock_level_one [OF i Cons.prems(2) p, of regs] by auto
  have "\<forall>r\<in>set (q # qs). level_one s1 r"
    using same_tasks_level_one [OF s1(3)] Cons.prems(3) by auto
  then obtain regs2 s2 where "clocks (length qs) regs1 s1 = Some (qs, regs2, s2)"
      "sched_inv s2 (last_or q qs) ((rs @ [p]) @ butlast (q # qs))" "same_tasks s1 s2"
    using Cons.IH [OF s1(2,4)] by blast
  moreover have "current_thread s1 = q" using s1(2) by (simp add: sched_inv_def)
  ultimately show ?case using s1(1) same_tasks_trans [OF s1(3)] by auto
qed

text \<open>
  A thread of level 0 that can go on is not interrupted by the clock, whatever threads are ready (first come, first
  served).
\<close>

lemma level0_runs_on:
  assumes "threads st (current_thread st) = Some th" and "tasks st (th_task th) = Some t" and "level t = 0"
    and "pid t \<noteq> -1" and "th_state th = RUNNING"
  shows "clock_int_handler regs st = Some (regs, st\<lparr>ticks := ticks st + 1\<rparr>)"
  using assms by (cases "do_schedule st") (simp_all add: clock_int_handler_def after_syscall_def should_switch_def)

text \<open>
  Both levels wait in one queue: after a switch the first thread of the queue runs, also when it is of level 1 and a
  thread of level 0 is ready behind it.
\<close>

lemma level1_before_level0:
  assumes "sched_inv st p (q # qs)" and "level_one st q" and "r \<in> set qs" and "\<not> level_one st r"
  shows "\<exists>regs' st'. do_switch regs st = Some (regs', st') \<and> current_thread st' = q"
proof -
  obtain th thq t where t: "threads st p = Some th" "threads st q = Some thq" "tasks st (th_task thq) = Some t"
    using sched_inv_threads [OF assms(1)] .
  show ?thesis using do_switch_ready [OF assms(1) t, of regs] by (auto simp: sched_inv_def)
qed

section \<open>Properties\<close>

lemma save_load [simp]:
  "ri_basic (save_regs regs r) = ia_basic regs" "ri_rbp (save_regs regs r) = ia_rbp regs"
  "ri_rsp (save_regs regs r) = ia_rsp regs" "ri_ss (save_regs regs r) = ia_ss regs"
  "ri_cs (save_regs regs r) = ia_cs regs" "ri_rip (save_regs regs r) = ia_rip regs"
  "ri_rflags (save_regs regs r) = ia_rflags regs"
  by (simp_all add: save_regs_def)

text \<open>
  C11. Registers survive a switch: after the running thread \<open>p\<close> was switched out with the
  registers \<open>regs\<close>, and whatever happened until \<open>p\<close> is made current again without touching its
  stored registers, \<^verbatim>\<open>up_thread\<close> restores every register of \<open>regs\<close> except the page directory, which
  becomes the one of its task; only \<^verbatim>\<open>ist\<close> keeps the value of the new interrupt.
\<close>

theorem registers_survive_switch:
  assumes "sched_inv st p (q # qs)" and "do_switch regs st = Some (r1, s1)"
    and "current_thread s2 = p" and "threads s2 p = Some th2" and "Some (registers th2) = map_option registers (threads s1 p)"
    and "tasks s2 (th_task th2) = Some t2"
  shows "\<exists>s3. up_thread regs2 s2 = Some (regs\<lparr>ia_pgd := pgd (tk_mm_info t2), ia_ist := ia_ist regs2\<rparr>, s3)
    \<and> map_option th_state (threads s3 p) = Some RUNNING"
proof -
  obtain th thq t where t: "threads st p = Some th" "threads st q = Some thq" "tasks st (th_task thq) = Some t"
    using sched_inv_threads [OF assms(1)] .
  have "registers th2 = save_regs regs (registers th)"
    using do_switch_ready [OF assms(1) t, of regs] assms(2,5) by auto
  then show ?thesis
    using assms(3,4,6) by (auto simp: up_thread_def upd_thread_def load_regs_def)
qed

text \<open>
  C12. \<^verbatim>\<open>do_switch\<close> with a ready thread: the switch completes, the thread at the front of the queue
  runs with its own registers, the thread that ran is last in the queue, all others keep their
  places, and the invariant holds again.
\<close>

theorem do_switch_round_robin:
  assumes "sched_inv st p (q # qs)"
  shows "\<exists>regs' st'. do_switch regs st = Some (regs', st') \<and> sched_inv st' q (qs @ [p]) \<and> tasks st' = tasks st
    \<and> map_option registers (threads st' q) = map_option registers (threads st q)"
proof -
  obtain th thq t where t: "threads st p = Some th" "threads st q = Some thq" "tasks st (th_task thq) = Some t"
    using sched_inv_threads [OF assms] .
  have "q \<noteq> p" using assms by (auto simp: sched_inv_def)
  with do_switch_ready [OF assms t, of regs] show ?thesis by (auto simp: same_tasks_def)
qed

text \<open>
  C13. No thread of level 1 starves: while scheduling is on and the running and the ready threads are of level 1 and
  keep running, \<open>n\<close> clock interrupts run the first \<open>n\<close> threads of the ready queue in their order, so that the thread at
  position \<open>i\<close> runs after exactly \<open>i + 1\<close> interrupts.  This is the round robin that the documents ask for, except that
  a turn is one interrupt and not the slices of the thread (lemma \<open>level1_preempted_with_slices\<close>).  Threads of level 0
  are left out: they run until they cannot (lemma \<open>level0_runs_on\<close>).
\<close>

theorem no_starvation:
  assumes "sched_inv st p qs" and "do_schedule st" and "\<forall>q\<in>set (p # qs). level_one st q" and "i < length qs"
  shows "\<exists>regs' st'. clocks (Suc i) regs st = Some (take (Suc i) qs, regs', st') \<and> current_thread st' = qs ! i
    \<and> sched_inv st' (qs ! i) (drop (Suc i) qs @ p # take i qs)"
proof -
  have "qs = take (Suc i) qs @ drop (Suc i) qs" by simp
  with assms(1) have s: "sched_inv st p (take (Suc i) qs @ drop (Suc i) qs)" by simp
  have l: "\<forall>q\<in>set (p # take (Suc i) qs). level_one st q" using assms(3) set_take_subset [of "Suc i" qs] by auto
  have "length (take (Suc i) qs) = Suc i" "last_or p (take (Suc i) qs) = qs ! i" "butlast (p # take (Suc i) qs) = p # take i qs"
    using assms(4) by (simp_all add: last_or_def take_Suc_conv_app_nth butlast_append)
  then show ?thesis using clocks_rotate [OF s assms(2) l, of regs] by (auto simp: sched_inv_def)
qed

text \<open>
  The clock and level 1: a level-1 thread that still has time slices is switched out at the
  next clock interrupt as soon as any thread is ready, whatever the level of that thread, because
  the ready threads of both levels are in the queue of level 0.
\<close>

theorem level1_preempted_with_slices:
  assumes "sched_inv st p (q # qs)" and "do_schedule st" and "threads st p = Some th"
    and "tasks st (th_task th) = Some t" and "level t = 1" and "pid t \<noteq> -1" and "0 < th_count th"
  shows "\<exists>regs' st'. clock_int_handler regs st = Some (regs', st') \<and> current_thread st' = q"
proof -
  have "level_one st p" using assms(3-6) by (auto simp: level_one_def)
  then show ?thesis using clock_level_one [OF assms(1,2), of regs] by (auto simp: sched_inv_def)
qed

section \<open>Instances\<close>

text \<open>Three threads of the level-1 task of the example state: 1000 runs, 2000 and 3000 are ready.\<close>

definition example_sched :: kstate where
  "example_sched = example_kstate\<lparr>level0_head := 2000, level0_tail := 3000,
     threads := [1000 \<mapsto> example_thread, 2000 \<mapsto> example_thread\<lparr>th_state := READY, free_next := 3000, tid := 1\<rparr>,
       3000 \<mapsto> example_thread\<lparr>th_state := READY, tid := 2\<rparr>]\<rparr>"

lemma example_sched_inv: "sched_inv example_sched 1000 [2000, 3000]"
  by (simp add: sched_inv_def example_sched_def ready0_def schedulable_def example_thread_def example_task_def)

definition example_regs :: intterup_args where
  "example_regs = \<lparr>ia_basic = zero_basic\<lparr>rax := 7\<rparr>, ia_pgd = 0, ia_rbp = 1, ia_ist = 2, ia_rip = 3, ia_cs = 4,
     ia_rflags = 5, ia_rsp = 6, ia_ss = 8\<rparr>"

theorem do_switch_round_robin_witness:
  "\<exists>regs' st'. do_switch example_regs example_sched = Some (regs', st') \<and> sched_inv st' 2000 [3000, 1000]"
  using do_switch_round_robin [OF example_sched_inv, of example_regs] by auto

theorem no_starvation_witness:
  "\<exists>regs' st'. clocks 2 example_regs example_sched = Some ([2000, 3000], regs', st') \<and> current_thread st' = 3000"
proof -
  have "\<forall>q\<in>set [1000, 2000, 3000]. level_one example_sched q" "do_schedule example_sched"
    by (simp_all add: level_one_def example_sched_def example_kstate_def example_thread_def example_task_def)
  from no_starvation [OF example_sched_inv this(2,1), of 1 example_regs] show ?thesis by (auto simp: numeral_2_eq_2)
qed

theorem registers_survive_switch_witness:
  "\<exists>s1 s3. do_switch example_regs example_sched = Some s1
    \<and> up_thread (example_regs\<lparr>ia_ist := 99, ia_rip := 0\<rparr>) ((snd s1)\<lparr>current_thread := 1000\<rparr>) =
        Some (example_regs\<lparr>ia_pgd := 4194304, ia_ist := 99\<rparr>, s3)"
proof -
  have e: "threads example_sched 1000 = Some example_thread"
    "threads example_sched 2000 = Some (example_thread\<lparr>th_state := READY, free_next := 3000, tid := 1\<rparr>)"
    "tasks example_sched (th_task (example_thread\<lparr>th_state := READY, free_next := 3000, tid := 1\<rparr>)) = Some example_task"
    by (simp_all add: example_sched_def example_thread_def)
  obtain r1 s1 where s1: "do_switch example_regs example_sched = Some (r1, s1)" "same_tasks example_sched s1"
    using do_switch_ready [OF example_sched_inv e, of example_regs] by blast
  have ts: "tasks s1 = tasks example_sched" using s1(2) by (simp add: same_tasks_def)
  have "map_option th_task (threads s1 1000) = Some 4120"
    using s1(2) by (simp add: same_tasks_def example_sched_def example_thread_def)
  then obtain th where th: "threads s1 1000 = Some th" "th_task th = 4120" by auto
  let ?s = "s1\<lparr>current_thread := 1000\<rparr>"
  have "tasks ?s (th_task th) = Some example_task" using ts th by (simp add: example_sched_def)
  then have "\<exists>s3. up_thread (example_regs\<lparr>ia_ist := 99, ia_rip := 0\<rparr>) ?s =
      Some (example_regs\<lparr>ia_pgd := pgd (tk_mm_info example_task),
        ia_ist := ia_ist (example_regs\<lparr>ia_ist := 99, ia_rip := 0\<rparr>)\<rparr>, s3)"
    using registers_survive_switch [where ?regs2.0 = "example_regs\<lparr>ia_ist := 99, ia_rip := 0\<rparr>",
        OF example_sched_inv s1(1), of ?s th] th by auto
  with s1(1) show ?thesis by (auto simp: example_task_def init_mm_info_def example_args_def)
qed

theorem level1_preempted_with_slices_witness:
  "0 < th_count example_thread \<and> level example_task = 1 \<and>
   (\<exists>regs' st'. clock_int_handler example_regs example_sched = Some (regs', st') \<and> current_thread st' = 2000)"
proof -
  have "\<exists>regs' st'. clock_int_handler example_regs example_sched = Some (regs', st') \<and> current_thread st' = 2000"
    by (rule level1_preempted_with_slices [OF example_sched_inv, of example_thread example_task])
      (simp_all add: example_sched_def example_kstate_def example_thread_def example_task_def)
  then show ?thesis by (simp add: example_thread_def example_task_def)
qed


end
