(* ===== verification/Signal.thy ===== *)
theory Signal
  imports Sched
begin

text \<open>
  Semaphores, \<^verbatim>\<open>kernel/task/signal.c\<close>: a balanced search tree of semaphores by id, in which the
  larger ids are on the left, and a queue of waiting threads per semaphore.  The lemmas show
  that the search finds a semaphore, that a rotation keeps the tree linked and ordered, and that
  up and down keep the queue as long as the semaphore's count says and serve it in order.
\<close>

section \<open>The tree\<close>

text \<open>The sizes of \<^verbatim>\<open>signal_node\<close> and \<^verbatim>\<open>wtnode_t\<close>.\<close>

definition SIZEOF_SIGNAL_NODE :: u64 where
  "SIZEOF_SIGNAL_NODE = 64"

definition SIZEOF_WTNODE :: u64 where
  "SIZEOF_WTNODE = 16"

definition upd_signal :: "ptr \<Rightarrow> (signal_node \<Rightarrow> signal_node) \<Rightarrow> kstate \<Rightarrow> kstate option" where
  "upd_signal p f st = do { n \<leftarrow> signal_nodes st p; Some (st\<lparr>signal_nodes := (signal_nodes st)(p \<mapsto> f n)\<rparr>) }"

text \<open>\<^verbatim>\<open>create_signal_node\<close>; the queue pointers are set by the caller, \<open>junk\<close> is what they held.\<close>

definition create_signal_node :: "nat \<Rightarrow> signal_node \<Rightarrow> kstate \<Rightarrow> (ptr \<times> kstate) option" where
  "create_signal_node fuel junk st = do {
     (p, st) \<leftarrow> k_alloc fuel SIZEOF_SIGNAL_NODE st;
     let n = junk\<lparr>sg_left := NULL, sg_right := NULL, sg_parent := NULL, signals := 0, max_signals := 0,
                  sg_id := 0, soft := False, factor := 0\<rparr>;
     Some (p, st\<lparr>signal_nodes := (signal_nodes st)(p \<mapsto> n)\<rparr>)
   }"

text \<open>\<^verbatim>\<open>free_signal_node\<close>, the whole subtree.\<close>

partial_function (option) free_signal_node :: "ptr \<Rightarrow> kstate \<Rightarrow> kstate option" where
  "free_signal_node node st = do {
     n \<leftarrow> signal_nodes st node;
     st \<leftarrow> (if sg_left n \<noteq> NULL then free_signal_node (sg_left n) st else Some st);
     n \<leftarrow> signal_nodes st node;
     st \<leftarrow> (if sg_right n \<noteq> NULL then free_signal_node (sg_right n) st else Some st);
     st \<leftarrow> k_free node st;
     Some (st\<lparr>signal_nodes := (signal_nodes st)(node := None)\<rparr>)
   }"

text \<open>The parent of a rotated node, or the root, is redirected to the node that takes its place.\<close>

definition replace_child :: "ptr \<Rightarrow> ptr \<Rightarrow> ptr \<Rightarrow> kstate \<Rightarrow> kstate option" where
  "replace_child parent node new st =
     (if parent = NULL then Some (st\<lparr>signal_root := new\<rparr>)
      else upd_signal parent (\<lambda>p. if node = sg_left p then p\<lparr>sg_left := new\<rparr> else p\<lparr>sg_right := new\<rparr>) st)"

definition fix_ll :: "ptr \<Rightarrow> kstate \<Rightarrow> kstate option" where
  "fix_ll node st = do {
     n \<leftarrow> signal_nodes st node;
     let subl = sg_left n;
     l \<leftarrow> signal_nodes st subl;
     let sublr = sg_right l;
     let parent = sg_parent n;
     st \<leftarrow> upd_signal node (\<lambda>n. n\<lparr>sg_left := sublr\<rparr>) st;
     st \<leftarrow> (if sublr \<noteq> NULL then upd_signal sublr (\<lambda>n. n\<lparr>sg_parent := node\<rparr>) st else Some st);
     st \<leftarrow> upd_signal subl (\<lambda>n. n\<lparr>sg_right := node\<rparr>) st;
     st \<leftarrow> upd_signal node (\<lambda>n. n\<lparr>sg_parent := subl\<rparr>) st;
     st \<leftarrow> upd_signal subl (\<lambda>n. n\<lparr>sg_parent := parent\<rparr>) st;
     st \<leftarrow> replace_child parent node subl st;
     st \<leftarrow> upd_signal subl (\<lambda>n. n\<lparr>factor := 0\<rparr>) st;
     upd_signal node (\<lambda>n. n\<lparr>factor := 0\<rparr>) st
   }"

definition fix_rr :: "ptr \<Rightarrow> kstate \<Rightarrow> kstate option" where
  "fix_rr node st = do {
     n \<leftarrow> signal_nodes st node;
     let subr = sg_right n;
     r \<leftarrow> signal_nodes st subr;
     let subrl = sg_left r;
     let parent = sg_parent n;
     st \<leftarrow> upd_signal node (\<lambda>n. n\<lparr>sg_right := subrl\<rparr>) st;
     st \<leftarrow> (if subrl \<noteq> NULL then upd_signal subrl (\<lambda>n. n\<lparr>sg_parent := node\<rparr>) st else Some st);
     st \<leftarrow> upd_signal subr (\<lambda>n. n\<lparr>sg_left := node\<rparr>) st;
     st \<leftarrow> upd_signal node (\<lambda>n. n\<lparr>sg_parent := subr\<rparr>) st;
     st \<leftarrow> upd_signal subr (\<lambda>n. n\<lparr>sg_parent := parent\<rparr>) st;
     st \<leftarrow> replace_child parent node subr st;
     st \<leftarrow> upd_signal subr (\<lambda>n. n\<lparr>factor := 0\<rparr>) st;
     upd_signal node (\<lambda>n. n\<lparr>factor := 0\<rparr>) st
   }"

definition fix_lr :: "ptr \<Rightarrow> kstate \<Rightarrow> kstate option" where
  "fix_lr node st = do {
     n \<leftarrow> signal_nodes st node;
     let subl = sg_left n;
     l \<leftarrow> signal_nodes st subl;
     lr \<leftarrow> signal_nodes st (sg_right l);
     let sublr_factor = factor lr;
     st \<leftarrow> fix_rr subl st;
     st \<leftarrow> fix_ll node st;
     if sublr_factor = 1 then upd_signal subl (\<lambda>n. n\<lparr>factor := -1\<rparr>) st
     else if sublr_factor = -1 then upd_signal node (\<lambda>n. n\<lparr>factor := 1\<rparr>) st
     else Some st
   }"

definition fix_rl :: "ptr \<Rightarrow> kstate \<Rightarrow> kstate option" where
  "fix_rl node st = do {
     n \<leftarrow> signal_nodes st node;
     st \<leftarrow> fix_ll (sg_right n) st;
     fix_rr node st
   }"

text \<open>
  \<^verbatim>\<open>__insert_signal\<close>.  The first loop finds the place; the inner \<open>None\<close> is the early return for an
  id that exists.  The second loop goes up and adjusts the balance factors.
\<close>

partial_function (option) insert_place :: "ptr \<Rightarrow> ptr \<Rightarrow> kstate \<Rightarrow> (ptr option \<times> kstate) option" where
  "insert_place parent node st =
     (if parent = NULL then Some (Some NULL, st)
      else do {
        p \<leftarrow> signal_nodes st parent;
        n \<leftarrow> signal_nodes st node;
        if sg_id n = sg_id p then Some (None, st)
        else if sg_id n > sg_id p then
          (if sg_left p = NULL then do {
             st \<leftarrow> upd_signal node (\<lambda>n. n\<lparr>sg_parent := parent\<rparr>) st;
             st \<leftarrow> upd_signal parent (\<lambda>p. p\<lparr>sg_left := node\<rparr>) st;
             Some (Some parent, st)
           } else insert_place (sg_left p) node st)
        else
          (if sg_right p = NULL then do {
             st \<leftarrow> upd_signal node (\<lambda>n. n\<lparr>sg_parent := parent\<rparr>) st;
             st \<leftarrow> upd_signal parent (\<lambda>p. p\<lparr>sg_right := node\<rparr>) st;
             Some (Some parent, st)
           } else insert_place (sg_right p) node st)
      })"

definition fix_node :: "ptr \<Rightarrow> kstate \<Rightarrow> kstate option" where
  "fix_node parent st = do {
     p \<leftarrow> signal_nodes st parent;
     if factor p = -2 then do {
       l \<leftarrow> signal_nodes st (sg_left p);
       if factor l = -1 then fix_ll parent st else fix_lr parent st
     }
     else if factor p = 2 then do {
       r \<leftarrow> signal_nodes st (sg_right p);
       if factor r = 1 then fix_rr parent st else fix_rl parent st
     }
     else Some st
   }"

partial_function (option) rebalance :: "ptr \<Rightarrow> ptr \<Rightarrow> kstate \<Rightarrow> kstate option" where
  "rebalance parent node st =
     (if parent = NULL then Some st
      else do {
        st \<leftarrow> upd_signal parent (\<lambda>p. if node = sg_left p then p\<lparr>factor := factor p - 1\<rparr>
                                     else p\<lparr>factor := factor p + 1\<rparr>) st;
        p \<leftarrow> signal_nodes st parent;
        if factor p = 0 then Some st
        else do {
          n \<leftarrow> signal_nodes st node;
          np \<leftarrow> signal_nodes st (sg_parent n);
          if factor np = 1 \<or> factor np = -1 then rebalance (sg_parent p) parent st
          else fix_node parent st
        }
      })"

definition insert_signal :: "ptr \<Rightarrow> kstate \<Rightarrow> kstate option" where
  "insert_signal node st =
     (if signal_root st = NULL then Some (st\<lparr>signal_root := node\<rparr>)
      else do {
        (place, st) \<leftarrow> insert_place (signal_root st) node st;
        case place of None \<Rightarrow> Some st | Some parent \<Rightarrow> rebalance parent node st
      })"

partial_function (option) search_signal :: "(ptr \<rightharpoonup> signal_node) \<Rightarrow> ptr \<Rightarrow> u32 \<Rightarrow> ptr option" where
  "search_signal ns node i =
     (if node = NULL then Some NULL
      else do {
        n \<leftarrow> ns node;
        if sg_id n = i then Some node
        else if i > sg_id n then search_signal ns (sg_left n) i
        else search_signal ns (sg_right n) i
      })"

definition get_signal :: "u32 \<Rightarrow> kstate \<Rightarrow> ptr option" where
  "get_signal i st = search_signal (signal_nodes st) (signal_root st) i"

section \<open>The waiting queue\<close>

definition enqueue_wt :: "nat \<Rightarrow> ptr \<Rightarrow> ptr \<Rightarrow> kstate \<Rightarrow> kstate option" where
  "enqueue_wt fuel sg thread st = do {
     (node, st) \<leftarrow> k_alloc fuel SIZEOF_WTNODE st;
     let st = st\<lparr>wtnodes := (wtnodes st)(node \<mapsto> \<lparr>wt_thread = thread, wt_next = NULL\<rparr>)\<rparr>;
     s \<leftarrow> signal_nodes st sg;
     if wttail s = NULL then upd_signal sg (\<lambda>s. s\<lparr>wthead := node, wttail := node\<rparr>) st
     else do {
       t \<leftarrow> wtnodes st (wttail s);
       let st = st\<lparr>wtnodes := (wtnodes st)(wttail s \<mapsto> t\<lparr>wt_next := node\<rparr>)\<rparr>;
       upd_signal sg (\<lambda>s. s\<lparr>wttail := node\<rparr>) st
     }
   }"

definition dequeue_wt :: "ptr \<Rightarrow> kstate \<Rightarrow> (ptr \<times> kstate) option" where
  "dequeue_wt sg st = do {
     s \<leftarrow> signal_nodes st sg;
     if wthead s = NULL then Some (NULL, st)
     else do {
       let head = wthead s;
       h \<leftarrow> wtnodes st head;
       st \<leftarrow> upd_signal sg (\<lambda>s. s\<lparr>wthead := wt_next h\<rparr>) st;
       st \<leftarrow> (if wt_next h = NULL then upd_signal sg (\<lambda>s. s\<lparr>wttail := NULL\<rparr>) st else Some st);
       st \<leftarrow> k_free head st;
       Some (wt_thread h, st\<lparr>wtnodes := (wtnodes st)(head := None)\<rparr>)
     }
   }"

section \<open>The primitives\<close>

definition create_signal :: "nat \<Rightarrow> signal_node \<Rightarrow> int \<Rightarrow> int \<Rightarrow> bool \<Rightarrow> kstate \<Rightarrow> (u32 \<times> kstate) option" where
  "create_signal fuel junk max_sig val sft st = do {
     let i = cur_id st;
     let st = st\<lparr>cur_id := cur_id st + 1\<rparr>;
     (node, st) \<leftarrow> create_signal_node fuel junk st;
     st \<leftarrow> upd_signal node (\<lambda>n. n\<lparr>sg_id := i, signals := val, max_signals := max_sig, soft := sft,
                                 wthead := NULL, wttail := NULL\<rparr>) st;
     st \<leftarrow> insert_signal node st;
     n \<leftarrow> signal_nodes st node;
     Some (sg_id n, st)
   }"

definition up_signal :: "u32 \<Rightarrow> kstate \<Rightarrow> kstate option" where
  "up_signal i st = do {
     sg \<leftarrow> get_signal i st;
     s \<leftarrow> signal_nodes st sg;
     st \<leftarrow> (if signals s < max_signals s then upd_signal sg (\<lambda>s. s\<lparr>signals := signals s + 1\<rparr>) st else Some st);
     s \<leftarrow> signal_nodes st sg;
     if \<not> soft s \<and> signals s \<le> 0 then do {
       (thread, st) \<leftarrow> dequeue_wt sg st;
       st \<leftarrow> upd_thread thread (\<lambda>t. t\<lparr>th_state := READY\<rparr>) st;
       enqueue_thread thread st
     }
     else Some st
   }"

definition down_signal :: "nat \<Rightarrow> u32 \<Rightarrow> kstate \<Rightarrow> kstate option" where
  "down_signal fuel i st = do {
     sg \<leftarrow> get_signal i st;
     st \<leftarrow> upd_signal sg (\<lambda>s. s\<lparr>signals := signals s - 1\<rparr>) st;
     s \<leftarrow> signal_nodes st sg;
     if \<not> soft s \<and> signals s < 0 then do {
       st \<leftarrow> enqueue_wt fuel sg (current_thread st) st;
       upd_thread (current_thread st) (\<lambda>t. t\<lparr>th_state := WAITING\<rparr>) st
     }
     else Some st
   }"

definition get_signals :: "u32 \<Rightarrow> kstate \<Rightarrow> int option" where
  "get_signals i st = do { sg \<leftarrow> get_signal i st; s \<leftarrow> signal_nodes st sg; Some (signals s) }"

definition is_soft_signal :: "u32 \<Rightarrow> kstate \<Rightarrow> bool option" where
  "is_soft_signal i st = do { sg \<leftarrow> get_signal i st; s \<leftarrow> signal_nodes st sg; Some (soft s) }"


section \<open>Searching\<close>

text \<open>
  \<open>sig_tree ns a par xs\<close>: the tree at \<open>a\<close>, whose parent is \<open>par\<close>; \<open>xs\<close> are its nodes from left to
  right, from the largest to the smallest id.
\<close>

datatype stree = Leaf | Node stree ptr stree

primrec sig_tree :: "(ptr \<rightharpoonup> signal_node) \<Rightarrow> ptr \<Rightarrow> ptr \<Rightarrow> stree \<Rightarrow> bool" where
  "sig_tree ns a par Leaf \<longleftrightarrow> a = NULL"
| "sig_tree ns a par (Node l b r) \<longleftrightarrow> a = b \<and> b \<noteq> NULL \<and>
     (case ns b of None \<Rightarrow> False
      | Some n \<Rightarrow> sg_parent n = par \<and> sig_tree ns (sg_left n) b l \<and> sig_tree ns (sg_right n) b r)"

primrec stree_nodes :: "stree \<Rightarrow> ptr list" where
  "stree_nodes Leaf = []"
| "stree_nodes (Node l a r) = stree_nodes l @ a # stree_nodes r"

definition id_of :: "(ptr \<rightharpoonup> signal_node) \<Rightarrow> ptr \<Rightarrow> u32" where
  "id_of ns p = (case ns p of None \<Rightarrow> 0 | Some n \<Rightarrow> sg_id n)"

definition tree_ordered :: "(ptr \<rightharpoonup> signal_node) \<Rightarrow> stree \<Rightarrow> bool" where
  "tree_ordered ns t \<longleftrightarrow> sorted_wrt (\<lambda>a b. id_of ns b < id_of ns a) (stree_nodes t)"

lemma sig_tree_cong:
  "(\<And>a. a \<in> set (stree_nodes t) \<Longrightarrow> ns a = ns' a) \<Longrightarrow> sig_tree ns a par t = sig_tree ns' a par t"
  by (induction t arbitrary: a par) (auto split: option.splits)

lemma sig_tree_frame [simp]:
  "b \<notin> set (stree_nodes t) \<Longrightarrow> sig_tree (ns(b := v)) a par t = sig_tree ns a par t"
  by (rule sig_tree_cong) auto

lemma sig_tree_dom: "sig_tree ns a par t \<Longrightarrow> b \<in> set (stree_nodes t) \<Longrightarrow> b \<noteq> NULL \<and> ns b \<noteq> None"
  by (induction t arbitrary: a par) (auto split: option.splits)

text \<open>In an ordered tree the search finds the node of an id that is there, and nothing else.\<close>

lemma search_signal_tree:
  "sig_tree ns a par t \<Longrightarrow> tree_ordered ns t \<Longrightarrow>
   search_signal ns a i = Some (first_with (\<lambda>b. id_of ns b = i) (stree_nodes t))"
proof (induction t arbitrary: a par)
  case Leaf
  then show ?case by (simp add: search_signal.simps)
next
  case (Node l b r)
  from Node.prems(1) obtain n where n: "a = b" "b \<noteq> NULL" "ns b = Some n"
      "sig_tree ns (sg_left n) b l" "sig_tree ns (sg_right n) b r" by (auto split: option.splits)
  have id: "id_of ns b = sg_id n" using n by (simp add: id_of_def)
  have o: "tree_ordered ns l" "tree_ordered ns r" "\<forall>c\<in>set (stree_nodes l). sg_id n < id_of ns c"
      "\<forall>c\<in>set (stree_nodes r). id_of ns c < sg_id n"
    using Node.prems(2) id by (auto simp: tree_ordered_def sorted_wrt_append)
  have skip: "first_with P (xs @ ys) = (if \<forall>x\<in>set xs. \<not> P x then first_with P ys else first_with P xs)" for P xs ys
    by (induction xs) auto
  have none: "(\<forall>x\<in>set xs. \<not> P x) \<Longrightarrow> first_with P xs = NULL" for P xs
    by (induction xs) auto
  consider "i = sg_id n" | "sg_id n < i" | "i < sg_id n" by fastforce
  then show ?case
  proof cases
    case 1
    with n o id show ?thesis by (subst search_signal.simps) (auto simp: skip)
  next
    case 2
    have "first_with (\<lambda>b. id_of ns b = i) (stree_nodes (Node l b r)) = first_with (\<lambda>b. id_of ns b = i) (stree_nodes l)"
    proof -
      have "\<forall>x\<in>set (stree_nodes r). id_of ns x \<noteq> i" using 2 o(4) by fastforce
      then show ?thesis
        using 2 id none [of "stree_nodes l" "\<lambda>b. id_of ns b = i"] none [of "stree_nodes r" "\<lambda>b. id_of ns b = i"]
        by (auto simp: skip)
    qed
    with 2 n Node.IH(1) [OF n(4) o(1)] show ?thesis by (subst search_signal.simps) auto
  next
    case 3
    have "first_with (\<lambda>b. id_of ns b = i) (stree_nodes (Node l b r)) = first_with (\<lambda>b. id_of ns b = i) (stree_nodes r)"
      using 3 o(3) id by (auto simp: skip)
    with 3 n Node.IH(2) [OF n(5) o(2)] show ?thesis by (subst search_signal.simps) auto
  qed
qed

definition signals_ok :: "kstate \<Rightarrow> stree \<Rightarrow> bool" where
  "signals_ok st t \<longleftrightarrow> sig_tree (signal_nodes st) (signal_root st) NULL t \<and> tree_ordered (signal_nodes st) t
     \<and> distinct (stree_nodes t)"

lemma get_signal_tree:
  "signals_ok st t \<Longrightarrow> get_signal i st = Some (first_with (\<lambda>b. id_of (signal_nodes st) b = i) (stree_nodes t))"
  using search_signal_tree unfolding signals_ok_def get_signal_def by blast

lemma get_signal_member:
  assumes "signals_ok st t" and "a \<in> set (stree_nodes t)" and "id_of (signal_nodes st) a = i"
  shows "get_signal i st = Some a"
proof -
  have "sorted_wrt (\<lambda>a b. f b < f a) xs \<Longrightarrow> a \<in> set xs \<Longrightarrow> f a = i \<Longrightarrow> first_with (\<lambda>b. f b = i) xs = a"
    for f :: "ptr \<Rightarrow> u32" and xs
    by (induction xs) auto
  with assms get_signal_tree [OF assms(1), of i] show ?thesis
    unfolding signals_ok_def tree_ordered_def by metis
qed

section \<open>Left spines\<close>

text \<open>
  The context of a subtree on the leftmost path: the nodes above it with their right subtrees, from
  the bottom up.  \<open>spine ns root c par a\<close>: \<open>a\<close> is the left child of \<open>par\<close>, the bottom node of \<open>c\<close>.
\<close>

type_synonym spine = "(ptr \<times> stree) list"

fun plug :: "spine \<Rightarrow> stree \<Rightarrow> stree" where
  "plug [] t = t"
| "plug ((b, r) # c) t = plug c (Node t b r)"

fun spine_nodes :: "spine \<Rightarrow> ptr list" where
  "spine_nodes [] = []"
| "spine_nodes ((b, r) # c) = (b # stree_nodes r) @ spine_nodes c"

fun spine :: "(ptr \<rightharpoonup> signal_node) \<Rightarrow> ptr \<Rightarrow> spine \<Rightarrow> ptr \<Rightarrow> ptr \<Rightarrow> bool" where
  "spine ns root [] par a \<longleftrightarrow> par = NULL \<and> a = root"
| "spine ns root ((b, r) # c) par a \<longleftrightarrow> par = b \<and> b \<noteq> NULL \<and>
     (case ns b of None \<Rightarrow> False
      | Some n \<Rightarrow> sg_left n = a \<and> sig_tree ns (sg_right n) b r \<and> spine ns root c (sg_parent n) b)"

lemma stree_nodes_plug: "stree_nodes (plug c t) = stree_nodes t @ spine_nodes c"
  by (induction c t rule: plug.induct) auto

lemma spine_cong:
  "(\<And>b. b \<in> set (spine_nodes c) \<Longrightarrow> ns b = ns' b) \<Longrightarrow> spine ns root c par a = spine ns' root c par a"
proof (induction c arbitrary: par a)
  case Nil
  then show ?case by simp
next
  case (Cons x c)
  obtain b r where x: "x = (b, r)" by (cases x)
  have "sig_tree ns p b r = sig_tree ns' p b r" for p by (rule sig_tree_cong) (use Cons.prems x in auto)
  with Cons x show ?case by (auto split: option.splits)
qed

lemma spine_frame [simp]:
  "b \<notin> set (spine_nodes c) \<Longrightarrow> spine (ns(b := v)) root c par a = spine ns root c par a"
  by (rule spine_cong) auto

lemma spine_plug: "spine ns root c par a \<Longrightarrow> sig_tree ns a par t \<Longrightarrow> sig_tree ns root NULL (plug c t)"
proof (induction c t arbitrary: par a rule: plug.induct)
  case (1 t)
  then show ?case by simp
next
  case (2 b r c t)
  then obtain n where "ns b = Some n" "sg_left n = a" "sig_tree ns (sg_right n) b r" "spine ns root c (sg_parent n) b"
      "par = b" "b \<noteq> NULL" by (auto split: option.splits)
  with 2 show ?case by auto
qed

text \<open>What an operation on the tree leaves of each semaphore: everything but links and factor.\<close>

definition strip_links :: "signal_node \<Rightarrow> signal_node" where
  "strip_links n = n\<lparr>sg_left := NULL, sg_right := NULL, sg_parent := NULL, factor := 0\<rparr>"

definition same_signals :: "(ptr \<rightharpoonup> signal_node) \<Rightarrow> (ptr \<rightharpoonup> signal_node) \<Rightarrow> bool" where
  "same_signals ns ns' \<longleftrightarrow> (\<forall>a. map_option strip_links (ns' a) = map_option strip_links (ns a))"

lemma strip_links_simps [simp]:
  "strip_links (n\<lparr>sg_left := x\<rparr>) = strip_links n" "strip_links (n\<lparr>sg_right := x\<rparr>) = strip_links n"
  "strip_links (n\<lparr>sg_parent := x\<rparr>) = strip_links n" "strip_links (n\<lparr>factor := k\<rparr>) = strip_links n"
  "sg_id (strip_links n) = sg_id n"
  by (simp_all add: strip_links_def)

lemma same_signals_refl [simp]: "same_signals ns ns"
  by (simp add: same_signals_def)

lemma same_signals_trans: "same_signals a b \<Longrightarrow> same_signals b c \<Longrightarrow> same_signals a c"
  by (simp add: same_signals_def)

lemma same_signals_upd: "ns a = Some n \<Longrightarrow> strip_links n' = strip_links n \<Longrightarrow> same_signals ns (ns(a \<mapsto> n'))"
  by (simp add: same_signals_def)

lemma same_signals_id: "same_signals ns ns' \<Longrightarrow> id_of ns' a = id_of ns a"
proof -
  assume "same_signals ns ns'"
  then have "map_option strip_links (ns' a) = map_option strip_links (ns a)" by (simp add: same_signals_def)
  then have "map_option sg_id (map_option strip_links (ns' a)) = map_option sg_id (map_option strip_links (ns a))"
    by simp
  then show ?thesis by (cases "ns' a"; cases "ns a") (auto simp: id_of_def)
qed

text \<open>Only the tree changes.\<close>

definition same_but_tree :: "kstate \<Rightarrow> kstate \<Rightarrow> bool" where
  "same_but_tree st st' \<longleftrightarrow> same_signals (signal_nodes st) (signal_nodes st') \<and>
     st'\<lparr>signal_nodes := Map.empty, signal_root := NULL\<rparr> = st\<lparr>signal_nodes := Map.empty, signal_root := NULL\<rparr>"

lemma same_but_tree_refl [simp]: "same_but_tree st st"
  by (simp add: same_but_tree_def)

lemma same_but_tree_trans: "same_but_tree a b \<Longrightarrow> same_but_tree b c \<Longrightarrow> same_but_tree a c"
  using same_signals_trans by (fastforce simp: same_but_tree_def)

text \<open>Heights and balance factors.\<close>

primrec stree_height :: "stree \<Rightarrow> nat" where
  "stree_height Leaf = 0"
| "stree_height (Node l a r) = Suc (max (stree_height l) (stree_height r))"

definition factor_of :: "(ptr \<rightharpoonup> signal_node) \<Rightarrow> ptr \<Rightarrow> int" where
  "factor_of ns a = (case ns a of None \<Rightarrow> 0 | Some n \<Rightarrow> factor n)"

primrec balanced :: "(ptr \<rightharpoonup> signal_node) \<Rightarrow> stree \<Rightarrow> bool" where
  "balanced ns Leaf \<longleftrightarrow> True"
| "balanced ns (Node l a r) \<longleftrightarrow> factor_of ns a = int (stree_height r) - int (stree_height l)
     \<and> \<bar>factor_of ns a\<bar> \<le> 1 \<and> balanced ns l \<and> balanced ns r"

fun spine_balanced :: "(ptr \<rightharpoonup> signal_node) \<Rightarrow> spine \<Rightarrow> nat \<Rightarrow> bool" where
  "spine_balanced ns [] h \<longleftrightarrow> True"
| "spine_balanced ns ((b, r) # c) h \<longleftrightarrow> factor_of ns b = int (stree_height r) - int h \<and> \<bar>factor_of ns b\<bar> \<le> 1
     \<and> balanced ns r \<and> spine_balanced ns c (Suc (max h (stree_height r)))"

lemma balanced_cong:
  "(\<And>a. a \<in> set (stree_nodes t) \<Longrightarrow> factor_of ns a = factor_of ns' a) \<Longrightarrow> balanced ns t = balanced ns' t"
  by (induction t) auto

lemma spine_balanced_cong:
  "(\<And>a. a \<in> set (spine_nodes c) \<Longrightarrow> factor_of ns a = factor_of ns' a) \<Longrightarrow>
   spine_balanced ns c h = spine_balanced ns' c h"
proof (induction c arbitrary: h)
  case Nil
  then show ?case by simp
next
  case (Cons x c)
  obtain b r where x: "x = (b, r)" by (cases x)
  have "balanced ns r = balanced ns' r" by (rule balanced_cong) (use Cons.prems x in auto)
  with Cons x show ?case by auto
qed

lemma factor_of_upd [simp]: "factor_of (ns(a \<mapsto> n)) b = (if b = a then factor n else factor_of ns b)"
  by (simp add: factor_of_def)

lemma balanced_frame [simp]: "a \<notin> set (stree_nodes t) \<Longrightarrow> balanced (ns(a \<mapsto> n)) t = balanced ns t"
  by (rule balanced_cong) auto

lemma spine_balanced_frame [simp]:
  "a \<notin> set (spine_nodes c) \<Longrightarrow> spine_balanced (ns(a \<mapsto> n)) c h = spine_balanced ns c h"
  by (rule spine_balanced_cong) auto

lemma balanced_plug:
  "balanced ns (plug c t) \<longleftrightarrow> balanced ns t \<and> spine_balanced ns c (stree_height t)"
  by (induction c t rule: plug.induct) auto

text \<open>The left rotation at a node of the left spine.\<close>

lemma sig_tree_new_parent:
  "sig_tree ns a par t \<Longrightarrow> a \<noteq> NULL \<Longrightarrow> distinct (stree_nodes t) \<Longrightarrow>
   \<exists>n. ns a = Some n \<and> sig_tree (ns(a \<mapsto> n\<lparr>sg_parent := q\<rparr>)) a q t"
  by (cases t) (auto split: option.splits)

lemma sig_tree_root: "sig_tree ns a par t \<Longrightarrow> a = NULL \<and> t = Leaf \<or> a \<in> set (stree_nodes t)"
  by (cases t) (auto split: option.splits)

text \<open>The step that hands the inner subtree to its new parent.\<close>

lemma adopt_subtree:
  assumes t: "sig_tree ns s a y" and d: "distinct (stree_nodes y)" and b: "b \<notin> set (stree_nodes y)"
  shows "\<exists>ns1. (if s \<noteq> NULL then upd_signal s (\<lambda>n. n\<lparr>sg_parent := b\<rparr>) (st\<lparr>signal_nodes := ns(b \<mapsto> nb)\<rparr>)
                 else Some (st\<lparr>signal_nodes := ns(b \<mapsto> nb)\<rparr>)) = Some (st\<lparr>signal_nodes := ns1(b \<mapsto> nb)\<rparr>)
     \<and> sig_tree ns1 s b y \<and> (\<forall>e. e \<notin> set (stree_nodes y) \<longrightarrow> ns1 e = ns e) \<and> factor_of ns1 = factor_of ns \<and> same_signals ns ns1"
proof (cases "s = NULL")
  case True
  with t have "y = Leaf" by (cases y) auto
  with True show ?thesis by (intro exI [of _ ns]) simp
next
  case False
  obtain n where n: "ns s = Some n" "sig_tree (ns(s \<mapsto> n\<lparr>sg_parent := b\<rparr>)) s b y"
    using sig_tree_new_parent [OF t False d] by blast
  have s: "s \<in> set (stree_nodes y)" using sig_tree_root [OF t] False by simp
  have "s \<noteq> b" using s b by auto
  with False n s show ?thesis
    by (intro exI [of _ "ns(s \<mapsto> n\<lparr>sg_parent := b\<rparr>)"])
       (auto simp: upd_signal_def fun_upd_twist same_signals_upd factor_of_def fun_eq_iff)
qed

lemma fix_ll_spine:
  assumes sp: "spine (signal_nodes st) (signal_root st) c par b"
    and tr: "sig_tree (signal_nodes st) b par (Node (Node x a y) b r)"
    and d: "distinct (stree_nodes (Node (Node x a y) b r) @ spine_nodes c)"
  shows "\<exists>st'. fix_ll b st = Some st' \<and> sig_tree (signal_nodes st') a par (Node x a (Node y b r))
     \<and> spine (signal_nodes st') (signal_root st') c par a
     \<and> (\<forall>e. factor_of (signal_nodes st') e = (if e = a \<or> e = b then 0 else factor_of (signal_nodes st) e))
     \<and> same_but_tree st st'"
proof -
  define ns where "ns = signal_nodes st"
  obtain nb where nb: "ns b = Some nb" "sg_left nb = a" "sg_parent nb = par" "sig_tree ns (sg_right nb) b r" "b \<noteq> NULL"
      "sig_tree ns a b (Node x a y)" using tr by (auto simp: ns_def split: option.splits)
  obtain na where na: "ns a = Some na" "sg_parent na = b" "sig_tree ns (sg_left na) a x" "sig_tree ns (sg_right na) a y"
      "a \<noteq> NULL" using nb(6) by (auto split: option.splits)
  define nb1 where "nb1 = nb\<lparr>sg_left := sg_right na\<rparr>"
  have ab: "a \<noteq> b" using d by auto
  obtain ns1 where ns1: "(if sg_right na \<noteq> NULL then upd_signal (sg_right na) (\<lambda>n. n\<lparr>sg_parent := b\<rparr>) (st\<lparr>signal_nodes := ns(b \<mapsto> nb1)\<rparr>)
                 else Some (st\<lparr>signal_nodes := ns(b \<mapsto> nb1)\<rparr>)) = Some (st\<lparr>signal_nodes := ns1(b \<mapsto> nb1)\<rparr>)"
     "sig_tree ns1 (sg_right na) b y" "\<forall>e. e \<notin> set (stree_nodes y) \<longrightarrow> ns1 e = ns e" "factor_of ns1 = factor_of ns"
     "same_signals ns ns1"
    using adopt_subtree [OF na(4), where b = b and st = st and nb = nb1] d by auto
  have out: "ns1 e = ns e" if "e \<in> set (stree_nodes x) \<union> set (stree_nodes r) \<union> {a, b} \<union> set (spine_nodes c)" for e
    using ns1(3) d that by auto
  have frames: "sig_tree ns1 (sg_left na) a x" "sig_tree ns1 (sg_right nb) b r" "spine ns1 (signal_root st) c par b"
    using na(3) nb(4) sp out sig_tree_cong [of x ns1 ns] sig_tree_cong [of r ns1 ns] spine_cong [of c ns1 ns]
    by (auto simp: ns_def)
  define na2 where "na2 = na\<lparr>sg_right := b, sg_parent := par, factor := 0\<rparr>"
  define nb2 where "nb2 = nb1\<lparr>sg_parent := a, factor := 0\<rparr>"
  have a1: "ns1 a = Some na" "ns1 b = Some nb" using out na(1) nb(1) by auto
  have upd1: "upd_signal b f st = Some (st\<lparr>signal_nodes := ns(b \<mapsto> f nb)\<rparr>)" for f
    using nb(1) by (simp add: upd_signal_def ns_def)
  have pre: "fix_ll b st = do {
      st \<leftarrow> upd_signal a (\<lambda>n. n\<lparr>sg_right := b\<rparr>) (st\<lparr>signal_nodes := ns1(b \<mapsto> nb1)\<rparr>);
      st \<leftarrow> upd_signal b (\<lambda>n. n\<lparr>sg_parent := a\<rparr>) st;
      st \<leftarrow> upd_signal a (\<lambda>n. n\<lparr>sg_parent := par\<rparr>) st;
      st \<leftarrow> replace_child par b a st;
      st \<leftarrow> upd_signal a (\<lambda>n. n\<lparr>factor := 0\<rparr>) st;
      upd_signal b (\<lambda>n. n\<lparr>factor := 0\<rparr>) st }"
    using nb(1,2,3) na(1) ns1(1) [unfolded nb1_def]
    by (cases "sg_right na = NULL") (simp_all add: fix_ll_def ns_def [symmetric] Let_def upd1 nb1_def)
  show ?thesis
  proof (cases c)
    case Nil
    then have root: "par = NULL" "signal_root st = b" using sp by auto
    define st' where "st' = st\<lparr>signal_nodes := ns1(a \<mapsto> na2, b \<mapsto> nb2), signal_root := a\<rparr>"
    have run: "fix_ll b st = Some st'"
      using ab a1 root by (simp add: pre upd_signal_def replace_child_def st'_def na2_def nb2_def nb1_def fun_upd_twist)
    have e1: "same_signals ns1 (signal_nodes st')"
      using a1 by (auto simp: same_signals_def st'_def na2_def nb2_def nb1_def)
    have s1: "same_but_tree st st'"
      using same_signals_trans [OF ns1(5) e1] by (simp add: same_but_tree_def ns_def st'_def)
    have t1: "sig_tree (signal_nodes st') a par (Node x a (Node y b r))"
      using frames ns1(2) d ab nb(5) na(5) by (auto simp: st'_def na2_def nb2_def nb1_def)
    have f1: "factor_of (signal_nodes st') e = (if e = a \<or> e = b then 0 else factor_of (signal_nodes st) e)" for e
      using ns1(4) by (simp add: st'_def na2_def nb2_def ns_def)
    have p1: "spine (signal_nodes st') (signal_root st') c par a" using Nil root by (simp add: st'_def)
    show ?thesis using run s1 t1 f1 p1 by blast
  next
    case (Cons q c')
    obtain p pr where q: "q = (p, pr)" by (cases q)
    obtain np where np: "ns1 p = Some np" "sg_left np = b" "sig_tree ns1 (sg_right np) p pr"
        "spine ns1 (signal_root st) c' (sg_parent np) p" "par = p" "p \<noteq> NULL"
      using frames(3) Cons q by (auto split: option.splits)
    have pab: "p \<noteq> a" "p \<noteq> b" using d Cons q by auto
    define np2 where "np2 = np\<lparr>sg_left := a\<rparr>"
    define st' where "st' = st\<lparr>signal_nodes := ns1(a \<mapsto> na2, b \<mapsto> nb2, p \<mapsto> np2)\<rparr>"
    have run: "fix_ll b st = Some st'"
      using ab a1 np pab
      by (simp add: pre upd_signal_def replace_child_def st'_def na2_def nb2_def nb1_def np2_def fun_upd_twist)
    have e1: "same_signals ns1 (signal_nodes st')"
      using a1 np(1) by (auto simp: same_signals_def st'_def na2_def nb2_def nb1_def np2_def)
    have s1: "same_but_tree st st'"
      using same_signals_trans [OF ns1(5) e1] by (simp add: same_but_tree_def ns_def st'_def)
    have t1: "sig_tree (signal_nodes st') a par (Node x a (Node y b r))"
      using frames ns1(2) d ab nb(5) na(5) pab Cons q by (auto simp: st'_def na2_def nb2_def nb1_def)
    have f1: "factor_of (signal_nodes st') e = (if e = a \<or> e = b then 0 else factor_of (signal_nodes st) e)" for e
    proof -
      have "factor_of ns1 p = factor np" using np(1) by (simp add: factor_of_def)
      then show ?thesis using ns1(4) pab by (simp add: st'_def na2_def nb2_def np2_def ns_def)
    qed
    have p1: "spine (signal_nodes st') (signal_root st') c par a"
      using Cons q np d by (auto simp: st'_def np2_def)
    show ?thesis using run s1 t1 f1 p1 by blast
  qed
qed

lemma balanced_NodeI:
  "factor_of ns a = int (stree_height r) - int (stree_height l) \<Longrightarrow> \<bar>factor_of ns a\<bar> \<le> 1 \<Longrightarrow> balanced ns l \<Longrightarrow>
   balanced ns r \<Longrightarrow> balanced ns (Node l a r)"
  by simp

text \<open>Going up the left spine after the subtree at its bottom grew by one level.\<close>

lemma rebalance_spine:
  "spine (signal_nodes st) (signal_root st) c par a \<Longrightarrow> sig_tree (signal_nodes st) a par (Node x a y) \<Longrightarrow>
   distinct (stree_nodes (Node x a y) @ spine_nodes c) \<Longrightarrow> balanced (signal_nodes st) (Node x a y) \<Longrightarrow>
   spine_balanced (signal_nodes st) c (stree_height (Node x a y) - 1) \<Longrightarrow>
   x = Leaf \<and> y = Leaf \<or> factor_of (signal_nodes st) a = -1 \<Longrightarrow>
   \<exists>st' t'. rebalance par a st = Some st' \<and> sig_tree (signal_nodes st') (signal_root st') NULL t'
     \<and> balanced (signal_nodes st') t' \<and> stree_nodes t' = stree_nodes (plug c (Node x a y)) \<and> same_but_tree st st'"
proof (induction c arbitrary: st par a x y)
  case Nil
  then have "rebalance par a st = Some st" "signal_root st = a" "par = NULL" by (simp_all add: rebalance.simps)
  with Nil show ?case by (intro exI [of _ st] exI [of _ "Node x a y"]) (simp del: sig_tree.simps balanced.simps)
next
  case (Cons q c)
  obtain b r where q: "q = (b, r)" by (cases q)
  let ?t = "Node x a y" and ?h = "stree_height (Node x a y)"
  obtain nb where nb: "signal_nodes st b = Some nb" "sg_left nb = a" "sig_tree (signal_nodes st) (sg_right nb) b r"
      "spine (signal_nodes st) (signal_root st) c (sg_parent nb) b" "par = b" "b \<noteq> NULL"
    using Cons.prems(1) q by (auto split: option.splits)
  obtain na where na: "signal_nodes st a = Some na" "sg_parent na = b" using Cons.prems(2) nb(5) by (auto split: option.splits)
  have ab: "a \<noteq> b" using Cons.prems(3) q by auto
  have sb: "factor nb = int (stree_height r) - int (?h - 1)" "\<bar>factor nb\<bar> \<le> 1" "balanced (signal_nodes st) r"
      "spine_balanced (signal_nodes st) c (Suc (max (?h - 1) (stree_height r)))"
    using Cons.prems(5) nb(1) by (auto simp: q factor_of_def)
  define nb1 where "nb1 = nb\<lparr>factor := factor nb - 1\<rparr>"
  define st1 where "st1 = st\<lparr>signal_nodes := (signal_nodes st)(b \<mapsto> nb1)\<rparr>"
  have same1: "same_but_tree st st1"
    using nb(1) by (simp add: same_but_tree_def st1_def nb1_def same_signals_upd)
  have out: "b \<notin> set (stree_nodes ?t)" "b \<notin> set (stree_nodes r)" "b \<notin> set (spine_nodes c)"
    using Cons.prems(3) q by auto
  have tree1: "sig_tree (signal_nodes st1) a b ?t" "sig_tree (signal_nodes st1) (sg_right nb) b r"
      "spine (signal_nodes st1) (signal_root st1) c (sg_parent nb) b"
    using Cons.prems(2) nb(3,4,5) out by (simp_all add: st1_def del: sig_tree.simps)
  have bal1: "balanced (signal_nodes st1) ?t" "balanced (signal_nodes st1) r"
      "spine_balanced (signal_nodes st1) c k = spine_balanced (signal_nodes st) c k" for k
    using Cons.prems(4) sb(3) out by (simp_all add: st1_def del: balanced.simps)
  have node1: "sig_tree (signal_nodes st1) b (sg_parent nb) (Node ?t b r)"
    using tree1(1,2) nb(2,6) by (simp add: st1_def nb1_def del: sig_tree.simps(2)) (simp add: st1_def)
  have up: "upd_signal b (\<lambda>p. if a = sg_left p then p\<lparr>factor := factor p - 1\<rparr> else p\<lparr>factor := factor p + 1\<rparr>) st = Some st1"
    using nb by (simp add: upd_signal_def st1_def nb1_def)
  have n1: "signal_nodes st1 b = Some nb1" "signal_nodes st1 a = Some na" using na ab by (simp_all add: st1_def)
  have step: "rebalance par a st = (if factor nb1 = 0 then Some st1
      else if factor nb1 = 1 \<or> factor nb1 = -1 then rebalance (sg_parent nb) b st1 else fix_node b st1)"
    using up nb(5,6) n1 na by (subst rebalance.simps) (simp add: nb1_def)
  have h: "0 < ?h" by simp
  consider "factor nb = 1" | "factor nb = 0" | "factor nb = -1" using sb(2) by linarith
  then show ?case
  proof cases
    case 1
    have "sig_tree (signal_nodes st1) (signal_root st1) NULL (plug c (Node ?t b r))"
      using spine_plug [OF tree1(3) node1] .
    moreover have "balanced (signal_nodes st1) (plug c (Node ?t b r))"
    proof -
      have e: "stree_height r = ?h" "Suc (max (?h - 1) (stree_height r)) = stree_height (Node ?t b r)"
        using 1 sb(1) h by simp_all
      have "factor_of (signal_nodes st1) b = 0" using 1 n1(1) by (simp add: factor_of_def nb1_def)
      then have "balanced (signal_nodes st1) (Node ?t b r)"
        using e(1) by (intro balanced_NodeI bal1) simp_all
      moreover have "spine_balanced (signal_nodes st1) c (stree_height (Node ?t b r))" using e(2) bal1(3) sb(4) by metis
      ultimately show ?thesis by (simp only: balanced_plug)
    qed
    ultimately show ?thesis
      using 1 step same1 q by (intro exI [of _ st1] exI [of _ "plug c (Node ?t b r)"]) (simp add: nb1_def stree_nodes_plug)
  next
    case 2
    have "spine_balanced (signal_nodes st1) c (stree_height (Node ?t b r) - 1)" "balanced (signal_nodes st1) (Node ?t b r)"
      "factor_of (signal_nodes st1) b = -1"
    proof -
      have e: "stree_height r + 1 = ?h" using 2 sb(1) h by simp
      then have e2: "Suc (max (?h - 1) (stree_height r)) = stree_height (Node ?t b r) - 1" by simp
      show f: "factor_of (signal_nodes st1) b = -1" using 2 n1(1) by (simp add: factor_of_def nb1_def)
      show "spine_balanced (signal_nodes st1) c (stree_height (Node ?t b r) - 1)" using sb(4) bal1(3) e2 by metis
      show "balanced (signal_nodes st1) (Node ?t b r)"
        using e f by (intro balanced_NodeI bal1) simp_all
    qed
    then obtain st' t' where r: "rebalance (sg_parent nb) b st1 = Some st'" "sig_tree (signal_nodes st') (signal_root st') NULL t'"
        "balanced (signal_nodes st') t'" "stree_nodes t' = stree_nodes (plug c (Node ?t b r))" "same_but_tree st1 st'"
      using Cons.IH [OF tree1(3) node1] Cons.prems(3) q by auto
    then show ?thesis using 2 step same_but_tree_trans [OF same1 r(5)] q
      by (intro exI [of _ st'] exI [of _ t']) (simp add: nb1_def)
  next
    case 3
    have e: "stree_height r + 2 = ?h" using 3 sb(1) h by simp
    then have fa: "factor_of (signal_nodes st) a = -1" using Cons.prems(6) by auto
    have fa1: "factor na = -1" using fa na(1) by (simp add: factor_of_def)
    have hs: "stree_height x = stree_height r + 1" "stree_height y = stree_height r"
      using fa e Cons.prems(4) by auto
    have "distinct (stree_nodes (Node ?t b r) @ spine_nodes c)" using Cons.prems(3) q by auto
    from fix_ll_spine [OF tree1(3) node1 this]
    obtain st' where f: "fix_ll b st1 = Some st'" "sig_tree (signal_nodes st') a (sg_parent nb) (Node x a (Node y b r))"
        "spine (signal_nodes st') (signal_root st') c (sg_parent nb) a"
        "\<forall>e. factor_of (signal_nodes st') e = (if e = a \<or> e = b then 0 else factor_of (signal_nodes st1) e)"
        "same_but_tree st1 st'" by blast
    have run: "rebalance par a st = Some st'"
      using 3 step f(1) n1 nb(2) fa1 by (simp add: nb1_def fix_node_def)
    have keep: "balanced (signal_nodes st') t = balanced (signal_nodes st1) t" if "a \<notin> set (stree_nodes t)" "b \<notin> set (stree_nodes t)" for t
      by (rule balanced_cong) (use f(4) that in auto)
    have keepc: "spine_balanced (signal_nodes st') c k = spine_balanced (signal_nodes st1) c k" for k
      by (rule spine_balanced_cong) (use f(4) Cons.prems(3) q in auto)
    have "balanced (signal_nodes st') (Node x a (Node y b r))"
      using keep [of x] keep [of y] keep [of r] f(4) hs bal1 Cons.prems(3) q by auto
    moreover have "spine_balanced (signal_nodes st') c (stree_height (Node x a (Node y b r)))"
    proof -
      have "stree_height (Node x a (Node y b r)) = Suc (max (?h - 1) (stree_height r))" using hs by simp
      then show ?thesis using keepc bal1(3) sb(4) by metis
    qed
    ultimately have "balanced (signal_nodes st') (plug c (Node x a (Node y b r)))" by (simp only: balanced_plug)
    moreover note spine_plug [OF f(3,2)]
    ultimately show ?thesis using run same_but_tree_trans [OF same1 f(5)] q
      by (intro exI [of _ st'] exI [of _ "plug c (Node x a (Node y b r))"]) (simp add: stree_nodes_plug)
  qed
qed

text \<open>A node with an id above all others goes to the bottom of the left spine.\<close>

lemma insert_place_leftmost:
  "spine (signal_nodes st) (signal_root st) c par a \<Longrightarrow> sig_tree (signal_nodes st) a par t \<Longrightarrow> t \<noteq> Leaf \<Longrightarrow>
   distinct (stree_nodes t @ spine_nodes c) \<Longrightarrow> signal_nodes st p = Some np \<Longrightarrow> p \<notin> set (stree_nodes t @ spine_nodes c) \<Longrightarrow>
   \<forall>b\<in>set (stree_nodes t). id_of (signal_nodes st) b < sg_id np \<Longrightarrow> p \<noteq> NULL \<Longrightarrow> sg_left np = NULL \<Longrightarrow> sg_right np = NULL \<Longrightarrow>
   \<exists>b c' st'. insert_place a p st = Some (Some b, st') \<and> spine (signal_nodes st') (signal_root st') c' b p
     \<and> sig_tree (signal_nodes st') p b (Node Leaf p Leaf) \<and> plug c' Leaf = plug c t
     \<and> same_but_tree st st' \<and> factor_of (signal_nodes st') = factor_of (signal_nodes st)"
proof (induction t arbitrary: a par c)
  case Leaf
  then show ?case by simp
next
  case (Node l b r)
  obtain nb where nb: "signal_nodes st b = Some nb" "a = b" "b \<noteq> NULL" "sg_parent nb = par"
      "sig_tree (signal_nodes st) (sg_left nb) b l" "sig_tree (signal_nodes st) (sg_right nb) b r"
    using Node.prems(2) by (auto split: option.splits)
  have lt: "sg_id nb < sg_id np" using Node.prems(7) nb(1) by (auto simp: id_of_def)
  have pb: "p \<noteq> b" using Node.prems(6) by auto
  have down: "spine (signal_nodes st) (signal_root st) ((b, r) # c) b (sg_left nb)"
    using Node.prems(1) nb by simp
  show ?case
  proof (cases "l = Leaf")
    case True
    then have l0: "sg_left nb = NULL" using nb(5) by simp
    define st' where "st' = st\<lparr>signal_nodes := (signal_nodes st)(p \<mapsto> np\<lparr>sg_parent := b\<rparr>, b \<mapsto> nb\<lparr>sg_left := p\<rparr>)\<rparr>"
    have run: "insert_place a p st = Some (Some b, st')"
      using nb(1,2,3) Node.prems(5) lt l0 pb by (subst insert_place.simps) (auto simp: upd_signal_def st'_def)
    have sp: "spine (signal_nodes st') (signal_root st') ((b, r) # c) b p"
      using Node.prems(1,4,6) nb by (simp add: st'_def)
    have tr: "sig_tree (signal_nodes st') p b (Node Leaf p Leaf)" using Node.prems(8,9,10) pb by (simp add: st'_def)
    have same: "same_but_tree st st'"
      using Node.prems(5) nb(1) pb by (auto simp: same_but_tree_def same_signals_def st'_def)
    have fac: "factor_of (signal_nodes st') = factor_of (signal_nodes st)"
      using Node.prems(5) nb(1) by (auto simp: st'_def fun_eq_iff factor_of_def)
    show ?thesis
      by (intro exI [of _ b] exI [of _ "(b, r) # c"] exI [of _ st'] conjI run sp tr same fac) (simp add: True)
  next
    case False
    have "sg_left nb \<noteq> NULL" using nb(5) False sig_tree_root by (cases l) auto
    then have step: "insert_place a p st = insert_place (sg_left nb) p st"
      using nb(1,2,3) Node.prems(5) lt by (subst insert_place.simps) auto
    obtain b' c' st' where "insert_place (sg_left nb) p st = Some (Some b', st')" "spine (signal_nodes st') (signal_root st') c' b' p"
      "sig_tree (signal_nodes st') p b' (Node Leaf p Leaf)" "plug c' Leaf = plug ((b, r) # c) l"
      "same_but_tree st st'" "factor_of (signal_nodes st') = factor_of (signal_nodes st)"
      using Node.IH(1) [OF down nb(5) False _ Node.prems(5) _ _ Node.prems(8,9,10)] Node.prems(4,6,7) by auto
    then show ?thesis using step
      by (intro exI [of _ b'] exI [of _ c'] exI [of _ st']) simp
  qed
qed

section \<open>Creating semaphores\<close>

lemma kstate_rest: "a\<lparr>signal_nodes := ns, signal_root := r\<rparr> = b\<lparr>signal_nodes := ns, signal_root := r\<rparr> \<Longrightarrow>
   vm a = vm b \<and> cur_id a = cur_id b" for a b :: kstate
  by (metis kstate.surjective kstate.update_convs(4,16) kstate.select_convs(1,17))

text \<open>
  The invariant: a heap with the segments \<open>xs\<close>, a tree \<open>t\<close> that is linked, ordered and balanced, and whose
  nodes are blocks in use with ids below the next one.
\<close>

definition signals_inv :: "kstate \<Rightarrow> seg list \<Rightarrow> stree \<Rightarrow> bool" where
  "signals_inv st xs t \<longleftrightarrow> heap_ok (km st) xs \<and> sig_tree (signal_nodes st) (signal_root st) NULL t
     \<and> tree_ordered (signal_nodes st) t \<and> balanced (signal_nodes st) t
     \<and> (\<forall>a\<in>set (stree_nodes t). id_of (signal_nodes st) a < cur_id st)
     \<and> (\<forall>a\<in>set (stree_nodes t). \<exists>b s. (b, s) \<in> used_blocks xs \<and> 0 < s \<and> a = b + SEG_INFO_SZ)"

lemma tree_ordered_distinct: "tree_ordered ns t \<Longrightarrow> distinct (stree_nodes t)"
proof -
  have "sorted_wrt (\<lambda>a b. id_of ns b < id_of ns a) xs \<Longrightarrow> distinct xs" for xs by (induction xs) auto
  then show "tree_ordered ns t \<Longrightarrow> distinct (stree_nodes t)" by (simp add: tree_ordered_def)
qed

lemma signals_inv_ok: "signals_inv st xs t \<Longrightarrow> signals_ok st t"
  by (auto simp: signals_inv_def signals_ok_def intro: tree_ordered_distinct)

lemma insert_signal_largest:
  assumes tr: "sig_tree (signal_nodes st) (signal_root st) NULL t" and o: "tree_ordered (signal_nodes st) t"
    and b: "balanced (signal_nodes st) t" and n: "signal_nodes st p = Some np" "p \<notin> set (stree_nodes t)" "p \<noteq> NULL"
      "sg_left np = NULL" "sg_right np = NULL" "sg_parent np = NULL" "factor np = 0"
    and lt: "\<forall>a\<in>set (stree_nodes t). id_of (signal_nodes st) a < sg_id np"
  shows "\<exists>st' t'. insert_signal p st = Some st' \<and> sig_tree (signal_nodes st') (signal_root st') NULL t'
     \<and> balanced (signal_nodes st') t' \<and> stree_nodes t' = p # stree_nodes t \<and> same_but_tree st st'"
proof (cases "t = Leaf")
  case True
  then have "signal_root st = NULL" using tr by simp
  then have "insert_signal p st = Some (st\<lparr>signal_root := p\<rparr>)" by (simp add: insert_signal_def)
  with True n show ?thesis
    by (intro exI [of _ "st\<lparr>signal_root := p\<rparr>"] exI [of _ "Node Leaf p Leaf"])
       (simp add: factor_of_def same_but_tree_def)
next
  case False
  then have root: "signal_root st \<noteq> NULL" using tr by (cases t) auto
  have d: "distinct (stree_nodes t)" using o by (rule tree_ordered_distinct)
  obtain bb c' st1 where st1: "insert_place (signal_root st) p st = Some (Some bb, st1)"
      "spine (signal_nodes st1) (signal_root st1) c' bb p" "sig_tree (signal_nodes st1) p bb (Node Leaf p Leaf)"
      "plug c' Leaf = plug [] t" "same_but_tree st st1" "factor_of (signal_nodes st1) = factor_of (signal_nodes st)"
    using insert_place_leftmost [of st "[]" NULL "signal_root st" t p np] tr False d n lt by auto
  have nodes: "spine_nodes c' = stree_nodes t" using stree_nodes_plug [of c' Leaf] st1(4) by simp
  have "balanced (signal_nodes st1) (plug c' Leaf)"
    using b balanced_cong [of t "signal_nodes st1" "signal_nodes st"] st1(4,6) by simp
  then have sb: "spine_balanced (signal_nodes st1) c' 0" by (simp add: balanced_plug)
  have "factor_of (signal_nodes st1) p = 0" using st1(6) n(1,7) by (simp add: factor_of_def)
  then have bl: "balanced (signal_nodes st1) (Node Leaf p Leaf)" by simp
  from rebalance_spine [OF st1(2,3) _ bl] obtain st' t' where r: "rebalance bb p st1 = Some st'"
      "sig_tree (signal_nodes st') (signal_root st') NULL t'" "balanced (signal_nodes st') t'"
      "stree_nodes t' = stree_nodes (plug c' (Node Leaf p Leaf))" "same_but_tree st1 st'"
    using sb nodes n(2) d by auto
  have "stree_nodes t' = p # stree_nodes t" using r(4) nodes by (simp add: stree_nodes_plug)
  moreover have "insert_signal p st = Some st'" using root st1(1) r(1) by (simp add: insert_signal_def)
  ultimately show ?thesis using r(2,3) same_but_tree_trans [OF st1(5) r(5)] by blast
qed

lemma next_id_less: "i + 1 \<noteq> 0 \<Longrightarrow> i < i + 1" for i :: u32
  by unat_arith

lemma create_signal_ok:
  assumes inv: "signals_inv st xs t" and room: "has_free (request SIZEOF_SIGNAL_NODE) xs" and wrap: "cur_id st + 1 \<noteq> 0"
  shows "\<exists>st' ys t' p n. create_signal (Suc f) junk mx v sft st = Some (cur_id st, st') \<and> signals_inv st' ys t'
     \<and> stree_nodes t' = p # stree_nodes t \<and> cur_id st' = cur_id st + 1
     \<and> signal_nodes st' p = Some n \<and> sg_id n = cur_id st \<and> signals n = v \<and> max_signals n = mx \<and> soft n = sft
     \<and> wthead n = NULL \<and> wttail n = NULL
     \<and> (\<forall>a. a \<noteq> p \<longrightarrow> map_option strip_links (signal_nodes st' a) = map_option strip_links (signal_nodes st a))
     \<and> used_blocks xs \<subseteq> used_blocks ys"
proof -
  have h: "heap_ok (km st) xs" using inv by (simp add: signals_inv_def)
  obtain a hp ys s where k: "kmalloc (Suc f) SIZEOF_SIGNAL_NODE (km st) = Some (a + SEG_INFO_SZ, (km st)\<lparr>segs := hp\<rparr>)"
      "heap_ok ((km st)\<lparr>segs := hp\<rparr>) ys" "used_blocks ys = insert (a, s) (used_blocks xs)"
      "unat SIZEOF_SIGNAL_NODE + SEG_INFO_SZ \<le> s" "\<forall>(b, t)\<in>used_blocks xs. b + t \<le> a \<or> a + s \<le> b"
    using kmalloc_ok [OF h _ room, of f] by (auto simp: SIZEOF_SIGNAL_NODE_def)
  define p where "p = a + SEG_INFO_SZ"
  have s0: "0 < s" using k(4) by (simp add: SEG_INFO_SZ_def)
  have p: "p \<noteq> NULL" by (simp add: p_def SEG_INFO_SZ_def)
  have fresh: "p \<notin> set (stree_nodes t)"
  proof
    assume "p \<in> set (stree_nodes t)"
    then obtain b s' where b: "(b, s') \<in> used_blocks xs" "0 < s'" "p = b + SEG_INFO_SZ"
      using inv unfolding signals_inv_def by blast
    then have "b = a" by (simp add: p_def)
    then have "a + s' \<le> a \<or> a + s \<le> a" using k(5) b(1) by fastforce
    then show False using b(2) s0 by simp
  qed
  define np where "np = junk\<lparr>sg_left := NULL, sg_right := NULL, sg_parent := NULL, factor := 0, sg_id := cur_id st,
                  signals := v, max_signals := mx, soft := sft, wthead := NULL, wttail := NULL\<rparr>"
  define st1 where "st1 = (set_km ((km st)\<lparr>segs := hp\<rparr>) (st\<lparr>cur_id := cur_id st + 1\<rparr>))\<lparr>signal_nodes := (signal_nodes st)(p \<mapsto> np)\<rparr>"
  have ids: "id_of (signal_nodes st1) b = id_of (signal_nodes st) b" if "b \<noteq> p" for b
    using that by (simp add: st1_def id_of_def)
  have facs: "factor_of (signal_nodes st1) b = factor_of (signal_nodes st) b" if "b \<noteq> p" for b
    using that by (simp add: st1_def factor_of_def)
  have idt: "id_of (signal_nodes st1) b = id_of (signal_nodes st) b" if "b \<in> set (stree_nodes t)" for b
    using that ids fresh by metis
  have ord: "tree_ordered (signal_nodes st1) t"
  proof -
    have "sorted_wrt (\<lambda>a b. id_of (signal_nodes st) b < id_of (signal_nodes st) a) (stree_nodes t)"
      using inv by (simp add: signals_inv_def tree_ordered_def)
    then show ?thesis unfolding tree_ordered_def
      by (rule sorted_wrt_mono_rel [rotated]) (use ids fresh in metis)
  qed
  have "\<exists>st' t'. insert_signal p st1 = Some st' \<and> sig_tree (signal_nodes st') (signal_root st') NULL t'
     \<and> balanced (signal_nodes st') t' \<and> stree_nodes t' = p # stree_nodes t \<and> same_but_tree st1 st'"
  proof (rule insert_signal_largest)
    show "sig_tree (signal_nodes st1) (signal_root st1) NULL t"
      using inv fresh by (simp add: signals_inv_def st1_def)
    show "balanced (signal_nodes st1) t"
    proof -
      have "balanced (signal_nodes st1) t = balanced (signal_nodes st) t"
        by (rule balanced_cong) (use facs fresh in metis)
      then show ?thesis using inv by (simp add: signals_inv_def)
    qed
    show "\<forall>a\<in>set (stree_nodes t). id_of (signal_nodes st1) a < sg_id np"
      using inv idt by (simp add: signals_inv_def np_def)
  qed (use fresh p ord in \<open>auto simp: st1_def np_def\<close>)
  then obtain st' t' where i: "insert_signal p st1 = Some st'" "sig_tree (signal_nodes st') (signal_root st') NULL t'"
      "balanced (signal_nodes st') t'" "stree_nodes t' = p # stree_nodes t" "same_but_tree st1 st'" by blast
  have same: "same_signals (signal_nodes st1) (signal_nodes st')" using i(5) by (simp add: same_but_tree_def)
  then have strip: "map_option strip_links (signal_nodes st' b) = map_option strip_links (signal_nodes st1 b)" for b
    by (simp add: same_signals_def)
  have rest: "vm st' = vm st1" "cur_id st' = cur_id st1" using kstate_rest [where a = st' and b = st1 and ns = Map.empty and r = NULL] i(5) unfolding same_but_tree_def by blast+
  obtain n where n: "signal_nodes st' p = Some n" "strip_links n = strip_links np"
    using strip [of p] by (auto simp: st1_def)
  then have nf: "sg_id n = cur_id st" "signals n = v" "max_signals n = mx" "soft n = sft" "wthead n = NULL" "wttail n = NULL"
    by (auto simp: strip_links_def np_def dest: arg_cong [where f = sg_id] arg_cong [where f = signals]
        arg_cong [where f = max_signals] arg_cong [where f = soft] arg_cong [where f = wthead] arg_cong [where f = wttail])
  have run: "create_signal (Suc f) junk mx v sft st = Some (cur_id st, st')"
    using k(1) i(1) n(1) nf(1)
    by (simp add: create_signal_def create_signal_node_def k_alloc_def upd_signal_def Let_def p_def [symmetric])
       (simp add: st1_def np_def set_km_def)
  have ids': "id_of (signal_nodes st') b = id_of (signal_nodes st1) b" for b by (rule same_signals_id [OF same])
  have "tree_ordered (signal_nodes st') t'"
  proof -
    have "id_of (signal_nodes st') p = cur_id st" using n(1) nf(1) by (simp add: id_of_def)
    moreover have "id_of (signal_nodes st') b < cur_id st" if "b \<in> set (stree_nodes t)" for b
      using that inv idt ids' by (simp add: signals_inv_def)
    moreover have "sorted_wrt (\<lambda>a b. id_of (signal_nodes st') b < id_of (signal_nodes st') a) (stree_nodes t)"
      using ord by (simp add: tree_ordered_def ids')
    ultimately show ?thesis by (simp add: tree_ordered_def i(4))
  qed
  moreover have "\<forall>b\<in>set (stree_nodes t'). id_of (signal_nodes st') b < cur_id st'"
  proof -
    have lt: "cur_id st < cur_id st'" using wrap rest next_id_less by (simp add: st1_def)
    have "id_of (signal_nodes st') p = cur_id st" using n(1) nf(1) by (simp add: id_of_def)
    moreover have "id_of (signal_nodes st') b < cur_id st" if "b \<in> set (stree_nodes t)" for b
      using that inv idt ids' by (simp add: signals_inv_def)
    ultimately show ?thesis using lt unfolding i(4) by (auto intro: less_trans)
  qed
  moreover have "\<forall>b\<in>set (stree_nodes t'). \<exists>c s. (c, s) \<in> used_blocks ys \<and> 0 < s \<and> b = c + SEG_INFO_SZ"
  proof -
    have "\<exists>c s. (c, s) \<in> used_blocks ys \<and> 0 < s \<and> b = c + SEG_INFO_SZ" if "b \<in> set (stree_nodes t)" for b
      using inv that k(3) unfolding signals_inv_def by blast
    moreover have "\<exists>c s. (c, s) \<in> used_blocks ys \<and> 0 < s \<and> p = c + SEG_INFO_SZ"
      using s0 k(3) unfolding p_def by blast
    ultimately show ?thesis unfolding i(4) by auto
  qed
  ultimately have "signals_inv st' ys t'" using i(2,3) k(2) rest unfolding signals_inv_def st1_def by simp
  moreover have "\<forall>b. b \<noteq> p \<longrightarrow> map_option strip_links (signal_nodes st' b) = map_option strip_links (signal_nodes st b)"
    using strip by (simp add: st1_def)
  moreover have "cur_id st' = cur_id st + 1" using rest by (simp add: st1_def set_km_def)
  moreover have "used_blocks xs \<subseteq> used_blocks ys" using k(3) by auto
  ultimately show ?thesis using run i(4) n(1) nf by blast
qed

section \<open>The queue of a semaphore\<close>

text \<open>
  \<open>waiting st xs s cells\<close>: on a heap with the segments \<open>xs\<close>, the queue of the semaphore \<open>s\<close> is the list
  \<open>cells\<close> of its nodes with their threads.
\<close>

definition waiting :: "kstate \<Rightarrow> seg list \<Rightarrow> signal_node \<Rightarrow> (ptr \<times> ptr) list \<Rightarrow> bool" where
  "waiting st xs s cells \<longleftrightarrow> heap_ok (km st) xs
     \<and> chain (\<lambda>p. map_option wt_next (wtnodes st p)) (wthead s) (map fst cells)
     \<and> wttail s = last_or NULL (map fst cells)
     \<and> (\<forall>(p, t)\<in>set cells. map_option wt_thread (wtnodes st p) = Some t
          \<and> (\<exists>b z. (b, z) \<in> used_blocks xs \<and> 0 < z \<and> p = b + SEG_INFO_SZ))"

lemma waiting_cell:
  assumes "waiting st xs s cells" and "(p, t) \<in> set cells"
  shows "map_option wt_thread (wtnodes st p) = Some t" and "\<exists>b z. (b, z) \<in> used_blocks xs \<and> 0 < z \<and> p = b + SEG_INFO_SZ"
proof -
  have all: "\<forall>(p, t)\<in>set cells. map_option wt_thread (wtnodes st p) = Some t
      \<and> (\<exists>b z. (b, z) \<in> used_blocks xs \<and> 0 < z \<and> p = b + SEG_INFO_SZ)"
    using assms(1) by (simp add: waiting_def)
  show "map_option wt_thread (wtnodes st p) = Some t" using bspec [OF all assms(2)] by simp
  show "\<exists>b z. (b, z) \<in> used_blocks xs \<and> 0 < z \<and> p = b + SEG_INFO_SZ" using bspec [OF all assms(2)] by simp
qed

lemma enqueue_wt_ok:
  assumes w: "waiting st xs s cells" and s: "signal_nodes st a = Some s" and room: "has_free (request SIZEOF_WTNODE) xs"
  shows "\<exists>k wn h t p ys. enqueue_wt (Suc f) a th st
        = Some ((set_km k st)\<lparr>wtnodes := wn, signal_nodes := (signal_nodes st)(a \<mapsto> s\<lparr>wthead := h, wttail := t\<rparr>)\<rparr>)
     \<and> waiting ((set_km k st)\<lparr>wtnodes := wn\<rparr>) ys (s\<lparr>wthead := h, wttail := t\<rparr>) (cells @ [(p, th)])"
proof -
  have hp: "heap_ok (km st) xs" using w by (simp add: waiting_def)
  obtain b hh ys z where k: "kmalloc (Suc f) SIZEOF_WTNODE (km st) = Some (b + SEG_INFO_SZ, (km st)\<lparr>segs := hh\<rparr>)"
      "heap_ok ((km st)\<lparr>segs := hh\<rparr>) ys" "used_blocks ys = insert (b, z) (used_blocks xs)"
      "unat SIZEOF_WTNODE + SEG_INFO_SZ \<le> z" "\<forall>(c, t)\<in>used_blocks xs. c + t \<le> b \<or> b + z \<le> c"
    using kmalloc_ok [OF hp _ room, of f] by (auto simp: SIZEOF_WTNODE_def)
  define p where "p = b + SEG_INFO_SZ"
  have p0: "p \<noteq> NULL" by (simp add: p_def SEG_INFO_SZ_def)
  have z0: "0 < z" using k(4) by (simp add: SEG_INFO_SZ_def)
  have fresh: "p \<notin> set (map fst cells)"
  proof
    assume "p \<in> set (map fst cells)"
    then obtain t where "(p, t) \<in> set cells" by auto
    then obtain c z' where c: "(c, z') \<in> used_blocks xs" "0 < z'" "p = c + SEG_INFO_SZ"
      using waiting_cell(2) [OF w] by blast
    then have "c = b" by (simp add: p_def)
    then have "b + z' \<le> b \<or> b + z \<le> b" using k(5) c(1) by fastforce
    then show False using c(2) z0 by simp
  qed
  let ?new = "\<lparr>wt_thread = th, wt_next = NULL\<rparr>"
  let ?k = "(km st)\<lparr>segs := hh\<rparr>"
  have keep: "\<exists>d z. (d, z) \<in> used_blocks ys \<and> 0 < z \<and> q = d + SEG_INFO_SZ" if "(q, t) \<in> set cells" for q t
    using waiting_cell(2) [OF w that] k(3) by blast
  have own: "\<exists>d z. (d, z) \<in> used_blocks ys \<and> 0 < z \<and> p = d + SEG_INFO_SZ" using k(3) z0 p_def by blast
  have thr: "map_option wt_thread (wtnodes st q) = Some t" if "(q, t) \<in> set cells" for q t
    by (rule waiting_cell(1) [OF w that])
  show ?thesis
  proof (cases "cells = []")
    case True
    let ?wn = "(wtnodes st)(p \<mapsto> ?new)"
    have "wttail s = NULL" using w True by (simp add: waiting_def last_or_def)
    then have "enqueue_wt (Suc f) a th st = Some ((set_km ?k st)\<lparr>wtnodes := ?wn,
        signal_nodes := (signal_nodes st)(a \<mapsto> s\<lparr>wthead := p, wttail := p\<rparr>)\<rparr>)"
      using k(1) s by (simp add: enqueue_wt_def k_alloc_def upd_signal_def p_def)
    moreover have "waiting ((set_km ?k st)\<lparr>wtnodes := ?wn\<rparr>) ys (s\<lparr>wthead := p, wttail := p\<rparr>) (cells @ [(p, th)])"
      using True k(2) p0 own by (simp add: waiting_def last_or_def)
    ultimately show ?thesis by blast
  next
    case False
    obtain ini q t0 where c: "cells = ini @ [(q, t0)]" using False by (cases cells rule: rev_cases) auto
    have q: "wttail s = q" using w c by (simp add: waiting_def last_or_def)
    have qin: "(q, t0) \<in> set cells" using c by simp
    then obtain wq where wq: "wtnodes st q = Some wq" using thr by fastforce
    have ch: "chain (\<lambda>p. map_option wt_next (wtnodes st p)) (wthead s) (map fst ini @ [q])"
      using w c by (simp add: waiting_def)
    have q0: "q \<noteq> NULL" using chain_in_dom [OF ch, of q] by simp
    have pq: "p \<noteq> q" using fresh qin by force
    let ?wn = "(wtnodes st)(p \<mapsto> ?new, q \<mapsto> wq\<lparr>wt_next := p\<rparr>)"
    have run: "enqueue_wt (Suc f) a th st = Some ((set_km ?k st)\<lparr>wtnodes := ?wn,
        signal_nodes := (signal_nodes st)(a \<mapsto> s\<lparr>wthead := wthead s, wttail := p\<rparr>)\<rparr>)"
      using k(1) s q q0 pq wq by (simp add: enqueue_wt_def k_alloc_def upd_signal_def p_def)
    have "chain ((\<lambda>p. map_option wt_next (wtnodes st p))(p \<mapsto> NULL, q \<mapsto> p)) (wthead s) (map fst ini @ [q, p])"
      by (rule chain_append_node [OF ch _ p0]) (use fresh c in auto)
    moreover have "(\<lambda>p. map_option wt_next (wtnodes st p))(p \<mapsto> NULL, q \<mapsto> p) = (\<lambda>r. map_option wt_next (?wn r))" by auto
    moreover have "map fst ini @ [q, p] = map fst (cells @ [(p, th)])" using c by simp
    ultimately have c2: "chain (\<lambda>r. map_option wt_next (?wn r)) (wthead s) (map fst (cells @ [(p, th)]))" by metis
    have th2: "map_option wt_thread (?wn r) = Some t" if "(r, t) \<in> set cells" for r t
    proof -
      have "r \<noteq> p" using that fresh by force
      then show ?thesis using thr [OF that] wq by auto
    qed
    have "waiting ((set_km ?k st)\<lparr>wtnodes := ?wn\<rparr>) ys (s\<lparr>wthead := wthead s, wttail := p\<rparr>) (cells @ [(p, th)])"
    proof -
      have "map_option wt_thread (?wn p) = Some th" using pq by simp
      then have "\<forall>(r, t)\<in>set (cells @ [(p, th)]). map_option wt_thread (?wn r) = Some t
          \<and> (\<exists>d z. (d, z) \<in> used_blocks ys \<and> 0 < z \<and> r = d + SEG_INFO_SZ)" using th2 keep own by auto
      then show ?thesis using k(2) c2 unfolding waiting_def by (simp add: last_or_def)
    qed
    with run show ?thesis by blast
  qed
qed

lemma dequeue_wt_ok:
  assumes w: "waiting st xs s ((p, th) # cells)" and s: "signal_nodes st a = Some s"
  shows "\<exists>k wn h t ys. dequeue_wt a st
        = Some (th, (set_km k st)\<lparr>wtnodes := wn, signal_nodes := (signal_nodes st)(a \<mapsto> s\<lparr>wthead := h, wttail := t\<rparr>)\<rparr>)
     \<and> waiting ((set_km k st)\<lparr>wtnodes := wn\<rparr>) ys (s\<lparr>wthead := h, wttail := t\<rparr>) cells"
proof -
  obtain n where n: "wtnodes st p = Some n" "wt_thread n = th" "wthead s = p" "p \<noteq> NULL"
      "chain (\<lambda>p. map_option wt_next (wtnodes st p)) (wt_next n) (map fst cells)"
      "wttail s = last_or NULL (p # map fst cells)"
    using w by (auto simp: waiting_def split: option.splits)
  obtain b z where b: "(b, z) \<in> used_blocks xs" "p = b + SEG_INFO_SZ" using waiting_cell(2) [OF w, of p th] by auto
  have hp: "heap_ok (km st) xs" using w by (simp add: waiting_def)
  obtain h ys where k: "kfree p (km st) = Some ((km st)\<lparr>segs := h\<rparr>)" "heap_ok ((km st)\<lparr>segs := h\<rparr>) ys"
      "used_blocks ys = used_blocks xs - {(b, z)}"
    using kfree_ok [OF hp b(1)] b(2) by auto
  let ?k = "(km st)\<lparr>segs := h\<rparr>" and ?wn = "(wtnodes st)(p := None)"
  let ?t = "if wt_next n = NULL then NULL else wttail s"
  have "chain (\<lambda>p. map_option wt_next (wtnodes st p)) (wthead s) (p # map fst cells)"
    using w unfolding waiting_def by simp
  from chain_distinct [OF this] have p: "p \<notin> set (map fst cells)" by simp
  have "dequeue_wt a st = Some (th, (set_km ?k st)\<lparr>wtnodes := ?wn,
      signal_nodes := (signal_nodes st)(a \<mapsto> s\<lparr>wthead := wt_next n, wttail := ?t\<rparr>)\<rparr>)"
  proof -
    have "s\<lparr>wthead := wt_next n\<rparr> = s\<lparr>wthead := wt_next n, wttail := wttail s\<rparr>" by simp
    then show ?thesis
      using s n(1-4) k(1) by (simp add: dequeue_wt_def upd_signal_def k_free_def set_km_def)
  qed
  moreover have "waiting ((set_km ?k st)\<lparr>wtnodes := ?wn\<rparr>) ys (s\<lparr>wthead := wt_next n, wttail := ?t\<rparr>) cells"
  proof -
    have "wt_next n = NULL \<longleftrightarrow> cells = []" using n(5) by (cases cells) auto
    then have tl: "?t = last_or NULL (map fst cells)" using n(6) by (simp add: last_or_def)
    have "chain ((\<lambda>p. map_option wt_next (wtnodes st p))(p := None)) (wt_next n) (map fst cells)"
      using n(5) p by simp
    moreover have "(\<lambda>p. map_option wt_next (wtnodes st p))(p := None) = (\<lambda>r. map_option wt_next (?wn r))" by auto
    ultimately have ch: "chain (\<lambda>r. map_option wt_next (?wn r)) (wt_next n) (map fst cells)" by simp
    have "map_option wt_thread (?wn q) = Some t \<and> (\<exists>b z. (b, z) \<in> used_blocks ys \<and> 0 < z \<and> q = b + SEG_INFO_SZ)"
      if "(q, t) \<in> set cells" for q t
    proof -
      have q: "q \<noteq> p" using that p by force
      have in2: "(q, t) \<in> set ((p, th) # cells)" using that by simp
      obtain c y where "(c, y) \<in> used_blocks xs" "0 < y" "q = c + SEG_INFO_SZ" "map_option wt_thread (wtnodes st q) = Some t"
        using waiting_cell [OF w in2] by blast
      then show ?thesis using q b(2) k(3) by auto
    qed
    then have "\<forall>(q, t)\<in>set cells. map_option wt_thread (?wn q) = Some t
        \<and> (\<exists>b z. (b, z) \<in> used_blocks ys \<and> 0 < z \<and> q = b + SEG_INFO_SZ)" by blast
    then show ?thesis using k(2) tl ch unfolding waiting_def by simp
  qed
  ultimately show ?thesis by blast
qed

section \<open>Down and up\<close>

definition tree_links :: "signal_node \<Rightarrow> u32 \<times> ptr \<times> ptr \<times> ptr" where
  "tree_links n = (sg_id n, sg_left n, sg_right n, sg_parent n)"

lemma sig_tree_links:
  "\<forall>b. map_option tree_links (ns' b) = map_option tree_links (ns b) \<Longrightarrow> sig_tree ns' a par t = sig_tree ns a par t"
proof (induction t arbitrary: a par)
  case Leaf
  then show ?case by simp
next
  case (Node l b r)
  have "map_option tree_links (ns' b) = map_option tree_links (ns b)" using Node.prems by blast
  with Node show ?case by (cases "ns' b"; cases "ns b") (auto simp: tree_links_def)
qed

lemma signals_ok_upd:
  assumes ok: "signals_ok st t" and n: "signal_nodes st a = Some s" "tree_links s' = tree_links s"
    and st': "signal_nodes st' = (signal_nodes st)(a \<mapsto> s')" "signal_root st' = signal_root st"
  shows "signals_ok st' t"
proof -
  have l: "\<forall>b. map_option tree_links (signal_nodes st' b) = map_option tree_links (signal_nodes st b)" using n st' by simp
  have "id_of (signal_nodes st') b = id_of (signal_nodes st) b" for b
    using n st' by (auto simp: id_of_def tree_links_def)
  then have "tree_ordered (signal_nodes st') t = tree_ordered (signal_nodes st) t" by (simp add: tree_ordered_def)
  then show ?thesis using ok sig_tree_links [OF l] st'(2) by (simp add: signals_ok_def)
qed

text \<open>
  A semaphore \<open>a\<close> that is in the tree under the id \<open>i\<close>, and whose queue is as long as its count is below
  zero.
\<close>

definition semaphore :: "kstate \<Rightarrow> seg list \<Rightarrow> stree \<Rightarrow> u32 \<Rightarrow> ptr \<Rightarrow> signal_node \<Rightarrow> (ptr \<times> ptr) list \<Rightarrow> bool" where
  "semaphore st xs t i a s cells \<longleftrightarrow> signals_ok st t \<and> a \<in> set (stree_nodes t) \<and> signal_nodes st a = Some s \<and> sg_id s = i
     \<and> \<not> soft s \<and> waiting st xs s cells \<and> length cells = nat (- signals s)"

lemma semaphore_get: "semaphore st xs t i a s cells \<Longrightarrow> get_signal i st = Some a"
  by (rule get_signal_member) (auto simp: semaphore_def id_of_def)

lemma waiting_cong:
  "waiting st xs s cells \<Longrightarrow> vm st' = vm st \<Longrightarrow> wtnodes st' = wtnodes st \<Longrightarrow> wthead s' = wthead s \<Longrightarrow> wttail s' = wttail s \<Longrightarrow>
   waiting st' xs s' cells"
  by (simp add: waiting_def)

lemma down_signal_ok:
  assumes sem: "semaphore st xs t i a s cells" and room: "has_free (request SIZEOF_WTNODE) xs"
    and cur: "threads st (current_thread st) = Some ct"
  shows "\<exists>st' ys s' cells'. down_signal (Suc f) i st = Some st' \<and> semaphore st' ys t i a s' cells'
     \<and> signals s' = signals s - 1 \<and> max_signals s' = max_signals s \<and> tasks st' = tasks st
     \<and> level0_head st' = level0_head st \<and> level0_tail st' = level0_tail st
     \<and> (if 0 < signals s then cells' = cells \<and> threads st' = threads st
        else map snd cells' = map snd cells @ [current_thread st]
          \<and> threads st' = (threads st)(current_thread st \<mapsto> ct\<lparr>th_state := WAITING\<rparr>))"
proof -
  note g = semaphore_get [OF sem]
  have s: "signal_nodes st a = Some s" "\<not> soft s" "waiting st xs s cells" "length cells = nat (- signals s)"
    "signals_ok st t" "a \<in> set (stree_nodes t)" "sg_id s = i" using sem by (auto simp: semaphore_def)
  define s1 where "s1 = s\<lparr>signals := signals s - 1\<rparr>"
  define st1 where "st1 = st\<lparr>signal_nodes := (signal_nodes st)(a \<mapsto> s1)\<rparr>"
  have w1: "waiting st1 xs s1 cells" by (rule waiting_cong [OF s(3)]) (simp_all add: st1_def s1_def)
  have up: "upd_signal a (\<lambda>s. s\<lparr>signals := signals s - 1\<rparr>) st = Some st1" using s(1) by (simp add: upd_signal_def st1_def s1_def)
  have n1: "signal_nodes st1 a = Some s1" by (simp add: st1_def)
  show ?thesis
  proof (cases "0 < signals s")
    case True
    have "down_signal (Suc f) i st = Some st1" using g up n1 True by (simp add: down_signal_def s1_def)
    moreover have "semaphore st1 xs t i a s1 cells"
      using s w1 n1 True signals_ok_upd [OF s(5,1), of s1 st1]
      by (simp add: semaphore_def s1_def st1_def tree_links_def)
    moreover have "signals s1 = signals s - 1" "max_signals s1 = max_signals s" "threads st1 = threads st" "tasks st1 = tasks st"
      "level0_head st1 = level0_head st" "level0_tail st1 = level0_tail st" by (simp_all add: s1_def st1_def)
    ultimately show ?thesis using True by (intro exI [of _ st1] exI [of _ xs] exI [of _ s1] exI [of _ cells]) simp
  next
    case False
    obtain k wn h t' p ys where e: "enqueue_wt (Suc f) a (current_thread st) st1
        = Some ((set_km k st1)\<lparr>wtnodes := wn, signal_nodes := (signal_nodes st1)(a \<mapsto> s1\<lparr>wthead := h, wttail := t'\<rparr>)\<rparr>)"
      "waiting ((set_km k st1)\<lparr>wtnodes := wn\<rparr>) ys (s1\<lparr>wthead := h, wttail := t'\<rparr>) (cells @ [(p, current_thread st)])"
      using enqueue_wt_ok [OF w1 n1 room, of f "current_thread st"] by blast
    define s2 where "s2 = s1\<lparr>wthead := h, wttail := t'\<rparr>"
    define st2 where "st2 = (set_km k st1)\<lparr>wtnodes := wn, signal_nodes := (signal_nodes st1)(a \<mapsto> s2)\<rparr>"
    define st3 where "st3 = st2\<lparr>threads := (threads st)(current_thread st \<mapsto> ct\<lparr>th_state := WAITING\<rparr>)\<rparr>"
    have c2: "current_thread st1 = current_thread st" "current_thread st2 = current_thread st" "threads st2 = threads st"
      by (simp_all add: st1_def st2_def)
    have "enqueue_wt (Suc f) a (current_thread st1) st1 = Some st2" using e(1) c2 by (simp add: st2_def s2_def)
    then have "down_signal (Suc f) i st = Some st3"
      using g up n1 False s(2) c2 cur by (simp add: down_signal_def s1_def upd_thread_def st3_def)
    moreover have "semaphore st3 ys t i a s2 (cells @ [(p, current_thread st)])"
    proof -
      have w3: "waiting st3 ys s2 (cells @ [(p, current_thread st)])"
        by (rule waiting_cong [OF e(2)]) (simp_all add: st3_def st2_def s2_def)
      have "signals_ok st3 t"
        by (rule signals_ok_upd [OF s(5,1), of s2]) (simp_all add: st3_def st2_def st1_def s2_def s1_def tree_links_def)
      then show ?thesis using s False w3 by (simp add: semaphore_def st3_def st2_def s2_def s1_def)
    qed
    moreover have "signals s2 = signals s - 1" "max_signals s2 = max_signals s" "tasks st3 = tasks st" "level0_head st3 = level0_head st"
      "level0_tail st3 = level0_tail st" "threads st3 = (threads st)(current_thread st \<mapsto> ct\<lparr>th_state := WAITING\<rparr>)"
      by (simp_all add: s2_def s1_def st3_def st2_def st1_def)
    ultimately show ?thesis using False
      by (intro exI [of _ st3] exI [of _ ys] exI [of _ s2] exI [of _ "cells @ [(p, current_thread st)]"]) simp
  qed
qed

lemma up_signal_wakes_ok:
  assumes sem: "semaphore st xs t i a s ((p, th) # cells)" and mx: "signals s < max_signals s"
    and r: "ready0 st ps" "is_thread st th" "th \<notin> set ps"
    and x: "threads st th = Some x" "tasks st (th_task x) = Some tk" "level tk \<in> {0, 1}"
  shows "\<exists>st' ys s'. up_signal i st = Some st' \<and> semaphore st' ys t i a s' cells \<and> signals s' = signals s + 1 \<and> max_signals s' = max_signals s
     \<and> ready0 st' (ps @ [th]) \<and> map_option th_state (threads st' th) = Some READY
     \<and> (\<forall>q. q \<noteq> th \<longrightarrow> map_option th_state (threads st' q) = map_option th_state (threads st q))"
proof -
  note g = semaphore_get [OF sem]
  have s: "signal_nodes st a = Some s" "\<not> soft s" "waiting st xs s ((p, th) # cells)" "Suc (length cells) = nat (- signals s)"
    "signals_ok st t" "a \<in> set (stree_nodes t)" "sg_id s = i" using sem by (auto simp: semaphore_def)
  define s1 where "s1 = s\<lparr>signals := signals s + 1\<rparr>"
  define st1 where "st1 = st\<lparr>signal_nodes := (signal_nodes st)(a \<mapsto> s1)\<rparr>"
  have w1: "waiting st1 xs s1 ((p, th) # cells)" by (rule waiting_cong [OF s(3)]) (simp_all add: st1_def s1_def)
  have n1: "signal_nodes st1 a = Some s1" by (simp add: st1_def)
  obtain k wn h t' ys where e: "dequeue_wt a st1
        = Some (th, (set_km k st1)\<lparr>wtnodes := wn, signal_nodes := (signal_nodes st1)(a \<mapsto> s1\<lparr>wthead := h, wttail := t'\<rparr>)\<rparr>)"
      "waiting ((set_km k st1)\<lparr>wtnodes := wn\<rparr>) ys (s1\<lparr>wthead := h, wttail := t'\<rparr>) cells"
    using dequeue_wt_ok [OF w1 n1] by blast
  define s2 where "s2 = s1\<lparr>wthead := h, wttail := t'\<rparr>"
  define st2 where "st2 = (set_km k st1)\<lparr>wtnodes := wn, signal_nodes := (signal_nodes st1)(a \<mapsto> s2)\<rparr>"
  define st3 where "st3 = st2\<lparr>threads := (threads st)(th \<mapsto> x\<lparr>th_state := READY\<rparr>)\<rparr>"
  have same3: "level0_head st3 = level0_head st" "level0_tail st3 = level0_tail st" "tasks st3 = tasks st"
    by (simp_all add: st3_def st2_def st1_def)
  have t3: "threads st3 = (threads st)(th \<mapsto> x\<lparr>th_state := READY\<rparr>)" by (simp add: st3_def)
  have "fnext st3 = fnext st" using x(1) t3 by auto
  then have r3: "ready0 st3 ps" using r(1) same3 by (simp add: ready0_def)
  have i3: "is_thread st3 th" using r(2) t3 by (simp add: is_thread_def)
  obtain st4 where q: "enqueue_level0_thread th st3 = Some st4" "ready0 st4 (ps @ [th])" "same_but_ready st3 st4"
    using enqueue_level0_ready [OF r3 i3 r(3)] by blast
  have en: "enqueue_thread th st3 = Some st4"
    using q(1) t3 x(2,3) same3 by (auto simp: enqueue_thread_def)
  have "0 < nat (- signals s)" using s(4) by linarith
  then have neg: "signals s < 0" by simp
  have "dequeue_wt a st1 = Some (th, st2)" using e(1) by (simp add: st2_def s2_def)
  moreover have "upd_thread th (\<lambda>t. t\<lparr>th_state := READY\<rparr>) st2 = Some st3"
    using x(1) by (simp add: upd_thread_def st3_def st2_def st1_def)
  moreover have "upd_signal a (\<lambda>s. s\<lparr>signals := signals s + 1\<rparr>) st = Some st1" using s(1) by (simp add: upd_signal_def st1_def s1_def)
  ultimately have run: "up_signal i st = Some st4"
    using g s(1,2) mx n1 neg en by (simp add: up_signal_def s1_def)
  note f = same_but_ready_fields [OF q(3)]
  have "semaphore st4 ys t i a s2 cells"
  proof -
    have w4: "waiting st4 ys s2 cells"
      by (rule waiting_cong [OF e(2)]) (use f in \<open>simp_all add: st3_def st2_def s2_def\<close>)
    have "signals_ok st4 t"
      by (rule signals_ok_upd [OF s(5,1), of s2])
        (use f in \<open>simp_all add: st3_def st2_def st1_def s2_def s1_def tree_links_def\<close>)
    moreover have "signal_nodes st4 a = Some s2" using f by (simp add: st3_def st2_def)
    moreover have "length cells = nat (- signals s2)" using s(4) neg by (simp add: s2_def s1_def)
    ultimately show ?thesis using s w4 by (simp add: semaphore_def s2_def s1_def)
  qed
  moreover have "map_option th_state (threads st4 th) = Some READY"
    using same_but_ready_threads(2) [OF q(3), of th] t3 by fastforce
  moreover have "map_option th_state (threads st4 b) = map_option th_state (threads st b)" if "b \<noteq> th" for b
  proof (cases "threads st3 b")
    case None
    then show ?thesis using same_but_ready_threads(1) [OF q(3), of b] t3 that by simp
  next
    case (Some y)
    then show ?thesis using same_but_ready_threads(2) [OF q(3) Some] t3 that by auto
  qed
  moreover have "signals s2 = signals s + 1" "max_signals s2 = max_signals s" by (simp_all add: s2_def s1_def)
  ultimately show ?thesis using run q(2) by blast
qed

lemma up_signal_free_ok:
  assumes sem: "semaphore st xs t i a s []" and mx: "0 < max_signals s"
  shows "\<exists>st'. up_signal i st = Some st' \<and> semaphore st' xs t i a (s\<lparr>signals := (if signals s < max_signals s then signals s + 1 else signals s)\<rparr>) []
     \<and> threads st' = threads st"
proof -
  note g = semaphore_get [OF sem]
  have s: "signal_nodes st a = Some s" "\<not> soft s" "waiting st xs s []" "0 = nat (- signals s)"
    "signals_ok st t" "a \<in> set (stree_nodes t)" "sg_id s = i" using sem by (auto simp: semaphore_def)
  have pos: "0 \<le> signals s" using s(4) by simp
  show ?thesis
  proof (cases "signals s < max_signals s")
    case True
    define s1 where "s1 = s\<lparr>signals := signals s + 1\<rparr>"
    define st1 where "st1 = st\<lparr>signal_nodes := (signal_nodes st)(a \<mapsto> s1)\<rparr>"
    have w1: "waiting st1 xs s1 []" by (rule waiting_cong [OF s(3)]) (simp_all add: st1_def s1_def)
    have "up_signal i st = Some st1"
      using g s(1,2) True pos by (simp add: up_signal_def upd_signal_def st1_def s1_def)
    moreover have "semaphore st1 xs t i a s1 []"
      using s w1 pos signals_ok_upd [OF s(5,1), of s1 st1]
      by (simp add: semaphore_def s1_def st1_def tree_links_def)
    ultimately show ?thesis using True by (intro exI [of _ st1]) (simp add: s1_def st1_def)
  next
    case False
    then have "up_signal i st = Some st" using g s(1,2) mx by (simp add: up_signal_def)
    then show ?thesis using False sem by simp
  qed
qed

section \<open>Properties\<close>

text \<open>An example semaphore of count 0 with the id 0, and one with a waiting thread.\<close>

definition example_signal :: signal_node where
  "example_signal = \<lparr>sg_id = 0, signals = 0, max_signals = 1, soft = False, wthead = NULL, wttail = NULL,
     sg_left = NULL, sg_right = NULL, sg_parent = NULL, factor = 0\<rparr>"

definition example_sem :: kstate where
  "example_sem = example_kstate\<lparr>signal_nodes := [4120 \<mapsto> example_signal], signal_root := 4120, cur_id := 1\<rparr>"

definition example_segs :: "seg list" where
  "example_segs = [(4096, 64, True), (4160, 65472, False)]"

lemma example_sem_inv: "signals_inv example_sem example_segs (Node Leaf 4120 Leaf)"
  using example_pmm_inv
  by (auto simp: signals_inv_def pmm_inv_def example_sem_def example_signal_def tree_ordered_def
      example_vmem_def example_segs_def SEG_INFO_SZ_def factor_of_def id_of_def)

lemma example_sem_semaphore: "semaphore example_sem example_segs (Node Leaf 4120 Leaf) 0 4120 example_signal []"
  using signals_inv_ok [OF example_sem_inv] example_sem_inv
  by (simp add: semaphore_def signals_inv_def waiting_def last_or_def)
     (simp add: example_sem_def example_signal_def)

lemma example_room: "has_free (request SIZEOF_SIGNAL_NODE) example_segs" "has_free (request SIZEOF_WTNODE) example_segs"
  by (simp_all add: request_eq SIZEOF_SIGNAL_NODE_def SIZEOF_WTNODE_def has_free_def example_segs_def)

lemma balanced_height: "balanced ns t \<Longrightarrow> 2 ^ (stree_height t div 2) \<le> length (stree_nodes t) + 1"
proof (induction t)
  case Leaf
  then show ?case by simp
next
  case (Node l a r)
  let ?h = "max (stree_height l) (stree_height r)"
  have b: "?h - 1 \<le> stree_height l" "?h - 1 \<le> stree_height r" using Node.prems by auto
  have IH: "2 ^ (stree_height l div 2) \<le> length (stree_nodes l) + 1" "2 ^ (stree_height r div 2) \<le> length (stree_nodes r) + 1"
    using Node by auto
  have "(2::nat) ^ ((?h - 1) div 2) \<le> 2 ^ (stree_height l div 2)" "(2::nat) ^ ((?h - 1) div 2) \<le> 2 ^ (stree_height r div 2)"
    using b by (auto intro!: power_increasing div_le_mono)
  then have two: "2 * 2 ^ ((?h - 1) div 2) \<le> length (stree_nodes l) + length (stree_nodes r) + 2" using IH by linarith
  have "Suc ?h div 2 \<le> Suc ((?h - 1) div 2)" by linarith
  then have "(2::nat) ^ (Suc ?h div 2) \<le> 2 ^ Suc ((?h - 1) div 2)" by (rule power_increasing) simp
  with two show ?case by simp
qed

text \<open>
  C14. \<^verbatim>\<open>__create_signal\<close> on a heap with room: it returns the next id, the tree stays linked, ordered and
  balanced with the new semaphore as its largest, so that its height \<open>h\<close> satisfies
  \<open>2 ^ (h div 2) \<le> n + 1\<close> for \<open>n\<close> semaphores; the new id finds a semaphore with the given count, and every
  id that was found before finds the same semaphore, of which only the tree's links may differ.
\<close>

theorem create_signal_correct:
  assumes "signals_inv st xs t" and "has_free (request SIZEOF_SIGNAL_NODE) xs" and "cur_id st + 1 \<noteq> 0"
  shows "\<exists>st' ys t' p n. create_signal (Suc f) junk mx v sft st = Some (cur_id st, st') \<and> signals_inv st' ys t'
     \<and> stree_nodes t' = p # stree_nodes t \<and> 2 ^ (stree_height t' div 2) \<le> length (stree_nodes t') + 1
     \<and> get_signal (cur_id st) st' = Some p \<and> signal_nodes st' p = Some n \<and> signals n = v \<and> max_signals n = mx \<and> soft n = sft
     \<and> (\<forall>a\<in>set (stree_nodes t). get_signal (id_of (signal_nodes st) a) st' = Some a
          \<and> map_option strip_links (signal_nodes st' a) = map_option strip_links (signal_nodes st a))"
proof -
  from create_signal_ok [OF assms] obtain st' ys t' p n where c: "create_signal (Suc f) junk mx v sft st = Some (cur_id st, st')"
      "signals_inv st' ys t'" "stree_nodes t' = p # stree_nodes t" "signal_nodes st' p = Some n" "sg_id n = cur_id st"
      "signals n = v" "max_signals n = mx" "soft n = sft"
      "\<forall>a. a \<noteq> p \<longrightarrow> map_option strip_links (signal_nodes st' a) = map_option strip_links (signal_nodes st a)"
    by metis
  note ok = signals_inv_ok [OF c(2)]
  have d: "p \<notin> set (stree_nodes t)" using ok c(3) by (simp add: signals_ok_def)
  have new: "get_signal (cur_id st) st' = Some p"
    by (rule get_signal_member [OF ok]) (simp_all add: c id_of_def)
  have old: "get_signal (id_of (signal_nodes st) a) st' = Some a
      \<and> map_option strip_links (signal_nodes st' a) = map_option strip_links (signal_nodes st a)"
    if "a \<in> set (stree_nodes t)" for a
  proof -
    have e: "map_option strip_links (signal_nodes st' a) = map_option strip_links (signal_nodes st a)"
      using c(9) that d by metis
    have "id_of (signal_nodes st') a = id_of (signal_nodes st) a"
      using e by (cases "signal_nodes st' a"; cases "signal_nodes st a")
        (auto simp: id_of_def dest: arg_cong [where f = sg_id])
    moreover have "a \<in> set (stree_nodes t')" using that c(3) by simp
    ultimately show ?thesis using get_signal_member [OF ok] e by blast
  qed
  have "2 ^ (stree_height t' div 2) \<le> length (stree_nodes t') + 1"
    by (rule balanced_height [of "signal_nodes st'"]) (use c(2) in \<open>simp add: signals_inv_def\<close>)
  then show ?thesis using c(1-4,6-8) new old by blast
qed

theorem create_signal_correct_witness:
  "\<exists>st'. create_signal 1 example_signal 5 3 False example_sem = Some (1, st') \<and> get_signal 0 st' = Some 4120
     \<and> (\<exists>p n. get_signal 1 st' = Some p \<and> signal_nodes st' p = Some n \<and> signals n = 3)"
proof -
  have "cur_id example_sem = 1" "id_of (signal_nodes example_sem) 4120 = 0"
    by (simp_all add: example_sem_def example_signal_def id_of_def)
  then show ?thesis
    using create_signal_correct [OF example_sem_inv example_room(1), of 0 example_signal 5 3 False] by auto
qed

text \<open>
  C15. \<^verbatim>\<open>down_signal\<close> on a semaphore whose queue is as long as its count is below zero: with a positive
  count it only decrements, and no thread blocks; otherwise the current thread is appended to the
  queue and is \<^verbatim>\<open>WAITING\<close>, and no other thread changes.  The queue stays as long as the count says.
\<close>

theorem down_signal_correct:
  assumes "semaphore st xs t i a s cells" and "has_free (request SIZEOF_WTNODE) xs"
    and "threads st (current_thread st) = Some ct"
  shows "\<exists>st' ys s' cells'. down_signal (Suc f) i st = Some st' \<and> semaphore st' ys t i a s' cells'
     \<and> signals s' = signals s - 1 \<and> max_signals s' = max_signals s \<and> tasks st' = tasks st
     \<and> level0_head st' = level0_head st \<and> level0_tail st' = level0_tail st
     \<and> (if 0 < signals s then cells' = cells \<and> threads st' = threads st
        else map snd cells' = map snd cells @ [current_thread st]
          \<and> threads st' = (threads st)(current_thread st \<mapsto> ct\<lparr>th_state := WAITING\<rparr>))"
  by (rule down_signal_ok [OF assms])

theorem down_signal_correct_witness:
  "\<exists>st' ys s' cells. down_signal 1 0 example_sem = Some st' \<and> semaphore st' ys (Node Leaf 4120 Leaf) 0 4120 s' cells
     \<and> signals s' = -1 \<and> map snd cells = [1000]"
proof -
  have "threads example_sem (current_thread example_sem) = Some (example_thread\<lparr>th_next := 2000\<rparr>)"
    by (simp add: example_sem_def)
  then show ?thesis
    using down_signal_correct [OF example_sem_semaphore example_room(2), of _ 0]
    by (fastforce simp: example_signal_def example_sem_def)
qed

text \<open>
  C16. \<^verbatim>\<open>up_signal\<close> with threads waiting: the thread that has waited longest leaves the queue, is \<^verbatim>\<open>READY\<close>
  and goes to the end of the ready queue; the state of every other thread is unchanged, and the
  queue stays as long as the count says.
\<close>

theorem up_signal_wakes_first:
  assumes "semaphore st xs t i a s ((p, th) # cells)" and "signals s < max_signals s"
    and "ready0 st ps" and "is_thread st th" and "th \<notin> set ps"
    and "threads st th = Some x" and "tasks st (th_task x) = Some tk" and "level tk \<in> {0, 1}"
  shows "\<exists>st' ys s'. up_signal i st = Some st' \<and> semaphore st' ys t i a s' cells \<and> signals s' = signals s + 1
     \<and> ready0 st' (ps @ [th]) \<and> map_option th_state (threads st' th) = Some READY
     \<and> (\<forall>q. q \<noteq> th \<longrightarrow> map_option th_state (threads st' q) = map_option th_state (threads st q))"
  using up_signal_wakes_ok [OF assms] by blast

theorem up_signal_wakes_first_witness:
  "\<exists>st st'. down_signal 1 0 example_sem = Some st \<and> map_option th_state (threads st 1000) = Some WAITING
     \<and> up_signal 0 st = Some st' \<and> ready0 st' [1000] \<and> map_option th_state (threads st' 1000) = Some READY"
proof -
  let ?x = "example_thread\<lparr>th_next := 2000\<rparr>"
  have cur: "threads example_sem (current_thread example_sem) = Some ?x" by (simp add: example_sem_def)
  obtain st ys s cells where d: "down_signal 1 0 example_sem = Some st"
      "semaphore st ys (Node Leaf 4120 Leaf) 0 4120 s cells" "signals s = -1" "max_signals s = 1" "tasks st = tasks example_kstate"
      "level0_head st = NULL" "level0_tail st = NULL" "map snd cells = [1000]"
      "threads st = (threads example_kstate)(1000 \<mapsto> ?x\<lparr>th_state := WAITING\<rparr>)"
    using down_signal_ok [OF example_sem_semaphore example_room(2) cur, of 0]
    by (fastforce simp: example_signal_def example_sem_def)
  obtain p where c: "cells = [(p, 1000)]" using d(8) by (cases cells) auto
  have "\<exists>st' ys' s'. up_signal 0 st = Some st' \<and> semaphore st' ys' (Node Leaf 4120 Leaf) 0 4120 s' [] \<and> signals s' = signals s + 1
     \<and> ready0 st' ([] @ [1000]) \<and> map_option th_state (threads st' 1000) = Some READY
     \<and> (\<forall>q. q \<noteq> 1000 \<longrightarrow> map_option th_state (threads st' q) = map_option th_state (threads st q))"
    by (rule up_signal_wakes_first [OF d(2) [unfolded c], of "[]" "?x\<lparr>th_state := WAITING\<rparr>" example_task])
      (use d in \<open>simp_all add: ready0_def last_or_def is_thread_def example_thread_def example_task_def\<close>)
  then show ?thesis using d(1,9) by auto
qed

text \<open>
  The operations do not check their arguments: an id that no semaphore has, or an up on a semaphore
  of maximum 0 with no thread waiting, writes through the null pointer.
\<close>

lemma unknown_id_faults:
  assumes "signals_ok st t" and "\<forall>a\<in>set (stree_nodes t). id_of (signal_nodes st) a \<noteq> i" and "signal_nodes st NULL = None"
  shows "down_signal f i st = None" and "up_signal i st = None" and "get_signals i st = None"
proof -
  have "(\<forall>x\<in>set xs. \<not> P x) \<Longrightarrow> first_with P xs = NULL" for P xs by (induction xs) auto
  then have "get_signal i st = Some NULL" using get_signal_tree [OF assms(1), of i] assms(2) by simp
  then show "down_signal f i st = None" "up_signal i st = None" "get_signals i st = None"
    using assms(3) by (simp_all add: down_signal_def up_signal_def get_signals_def upd_signal_def)
qed

lemma up_max_zero_faults:
  assumes sem: "semaphore st xs t i a s []" and "max_signals s = 0" "signals s = 0" and "threads st NULL = None"
  shows "up_signal i st = None"
proof -
  have s: "signal_nodes st a = Some s" "\<not> soft s" "wthead s = NULL" using sem by (auto simp: semaphore_def waiting_def)
  then have "dequeue_wt a st = Some (NULL, st)" by (simp add: dequeue_wt_def)
  then show ?thesis using semaphore_get [OF sem] s assms(2-4) by (simp add: up_signal_def upd_thread_def)
qed

end
