(* ===== verification/Ipc.thy ===== *)
theory Ipc
  imports Sched CString Defs
begin

text \<open>
  Messages between tasks, and the other system calls of \<^verbatim>\<open>kernel/syscall/syscalls.c\<close>.  A task has one
  mailbox, a ring buffer in its own address space, that holds each message as an 8-byte header
  followed by the body.  The lemmas show that the ring refines a first-in first-out queue of
  messages: \<^verbatim>\<open>__send_msg\<close> and \<^verbatim>\<open>dummy_send_msg\<close> append a message, \<^verbatim>\<open>__recv_msg\<close> takes the first.
\<close>

section \<open>The message header\<close>

text \<open>\<^verbatim>\<open>msgpack_struct\<close> and \<^verbatim>\<open>msgno_id\<close>.\<close>

record msgpack =
  mp_reserved :: u8
  message_no :: u8
  msg_id :: u16
  mp_length :: u16
  mp_source :: u16

record msgno =
  no_reserved :: u8
  no_message :: u8
  no_msg_id :: u16

definition SIZEOF_MSGPACK :: u64 where
  "SIZEOF_MSGPACK = 8"

definition MSG_IRQ :: u8 where
  "MSG_IRQ = 3"

text \<open>The bytes of the packed struct, and the struct in 8 bytes.\<close>

definition msgpack_bytes :: "msgpack \<Rightarrow> u8 list" where
  "msgpack_bytes p = [mp_reserved p, message_no p] @ le_bytes 2 (unat (msg_id p)) @ le_bytes 2 (unat (mp_length p))
     @ le_bytes 2 (unat (mp_source p))"

definition msgpack_of :: "u8 list \<Rightarrow> msgpack" where
  "msgpack_of bs = \<lparr>mp_reserved = bs ! 0, message_no = bs ! 1, msg_id = of_nat (le_val (take 2 (drop 2 bs))),
     mp_length = of_nat (le_val (take 2 (drop 4 bs))), mp_source = of_nat (le_val (take 2 (drop 6 bs)))\<rparr>"

lemma length_msgpack_bytes [simp]: "length (msgpack_bytes p) = 8"
  by (simp add: msgpack_bytes_def)

lemma msgpack_of_bytes [simp]: "msgpack_of (msgpack_bytes p) = p"
proof -
  have "unat (w :: u16) < 256 ^ 2" for w using unsigned_less [of w] by simp
  then show ?thesis by (simp add: msgpack_of_def msgpack_bytes_def numeral_2_eq_2 [symmetric] del: le_bytes.simps)
qed

section \<open>The ring buffer\<close>

definition increase_ptr :: "ipc_info \<Rightarrow> nat \<Rightarrow> nat" where
  "increase_ptr i p = (let p = p + 1 in if mail i + unat (mail_size i) \<le> p then mail i else p)"

text \<open>
  The two loops of \<^verbatim>\<open>write_to_buffer\<close>: the header from the kernel's memory, the body from the sender's
  address space.  Each returns the write pointer behind the last byte.
\<close>

primrec put_bytes :: "ptr \<Rightarrow> ipc_info \<Rightarrow> u8 list \<Rightarrow> nat \<Rightarrow> vmem \<Rightarrow> (nat \<times> vmem) option" where
  "put_bytes d i [] w v = Some (w, v)"
| "put_bytes d i (b # bs) w v = do {
     v \<leftarrow> v_write d w b v;
     put_bytes d i bs (increase_ptr i w) v
   }"

primrec copy_in :: "ptr \<Rightarrow> ipc_info \<Rightarrow> ptr \<Rightarrow> nat \<Rightarrow> nat \<Rightarrow> nat \<Rightarrow> vmem \<Rightarrow> (nat \<times> vmem) option" where
  "copy_in d i src_pgd 0 src w v = Some (w, v)"
| "copy_in d i src_pgd (Suc n) src w v = do {
     b \<leftarrow> v_read src_pgd src v;
     v \<leftarrow> v_write d w b v;
     copy_in d i src_pgd n (src + 1) (increase_ptr i w) v
   }"

definition write_to_buffer :: "ptr \<Rightarrow> msgpack \<Rightarrow> ptr \<Rightarrow> nat \<Rightarrow> kstate \<Rightarrow> kstate option" where
  "write_to_buffer target pack src_pgd src st = do {
     t \<leftarrow> tasks st target;
     let i = tk_ipc_info t;
     let d = pgd (tk_mm_info t);
     (w, v) \<leftarrow> put_bytes d i (msgpack_bytes pack) (write_ptr i) (vm st);
     (w, v) \<leftarrow> copy_in d i src_pgd (unat (mp_length pack)) src w v;
     upd_task target (\<lambda>t. t\<lparr>tk_ipc_info := (tk_ipc_info t)\<lparr>write_ptr := w\<rparr>\<rparr>) (st\<lparr>vm := v\<rparr>)
   }"

text \<open>The two loops of \<^verbatim>\<open>read_from_buffer\<close>, which reads the current task's mailbox.\<close>

primrec get_bytes :: "ptr \<Rightarrow> ipc_info \<Rightarrow> nat \<Rightarrow> nat \<Rightarrow> vmem \<Rightarrow> (u8 list \<times> nat) option" where
  "get_bytes d i 0 r v = Some ([], r)"
| "get_bytes d i (Suc n) r v = do {
     b \<leftarrow> v_read d r v;
     (bs, r) \<leftarrow> get_bytes d i n (increase_ptr i r) v;
     Some (b # bs, r)
   }"

primrec copy_out :: "ptr \<Rightarrow> ipc_info \<Rightarrow> nat \<Rightarrow> nat \<Rightarrow> nat \<Rightarrow> vmem \<Rightarrow> (nat \<times> vmem) option" where
  "copy_out d i 0 dst r v = Some (r, v)"
| "copy_out d i (Suc n) dst r v = do {
     b \<leftarrow> v_read d r v;
     v \<leftarrow> v_write d dst b v;
     copy_out d i n (dst + 1) (increase_ptr i r) v
   }"

definition read_from_buffer :: "nat \<Rightarrow> kstate \<Rightarrow> (msgpack \<times> kstate) option" where
  "read_from_buffer dst st = do {
     c \<leftarrow> current_task st;
     t \<leftarrow> tasks st c;
     let i = tk_ipc_info t;
     let d = pgd (tk_mm_info t);
     (bs, r) \<leftarrow> get_bytes d i 8 (read_ptr i) (vm st);
     let pack = msgpack_of bs;
     (r, v) \<leftarrow> copy_out d i (unat (mp_length pack)) dst r (vm st);
     st \<leftarrow> upd_task c (\<lambda>t. t\<lparr>tk_ipc_info := (tk_ipc_info t)\<lparr>read_ptr := r\<rparr>\<rparr>) (st\<lparr>vm := v\<rparr>);
     Some (pack, st)
   }"

section \<open>The system calls\<close>

text \<open>
  The common tail of the two sends: the message is accounted for and stored, and the thread that
  handles the target's messages is readied if it waits for one (and \<open>wake\<close> allows it).
\<close>

definition deliver :: "ptr \<Rightarrow> ipc_info \<Rightarrow> msgpack \<Rightarrow> u64 \<Rightarrow> ptr \<Rightarrow> nat \<Rightarrow> bool \<Rightarrow> kstate \<Rightarrow> (bool \<times> kstate) option" where
  "deliver target i pack sz src_pgd src wake st = do {
     st \<leftarrow> upd_task target (\<lambda>t. t\<lparr>tk_ipc_info := (tk_ipc_info t)\<lparr>
              used_size := used_size (tk_ipc_info t) + (SIZEOF_MSGPACK + sz)\<rparr>\<rparr>) st;
     st \<leftarrow> write_to_buffer target pack src_pgd src st;
     h \<leftarrow> threads st (msg_handler_thread i);
     if th_state h = WAITING_IPC \<and> wake then do {
       st \<leftarrow> upd_thread (msg_handler_thread i) (\<lambda>t. t\<lparr>th_state := READY\<rparr>) st;
       st \<leftarrow> enqueue_thread (msg_handler_thread i) st;
       Some (True, st)
     } else Some (True, st)
   }"

text \<open>\<^verbatim>\<open>__send_msg\<close>; \<open>junk\<close> is the byte of the header that the code leaves uninitialised.\<close>

definition send_msg :: "u8 \<Rightarrow> msgno \<Rightarrow> nat \<Rightarrow> u64 \<Rightarrow> int \<Rightarrow> kstate \<Rightarrow> (bool \<times> kstate) option" where
  "send_msg junk no src sz dst st = do {
     target \<leftarrow> get_task_by_pid dst st;
     if target = NULL then Some (False, st) else do {
       t \<leftarrow> tasks st target;
       cur \<leftarrow> current_task st;
       ct \<leftarrow> tasks st cur;
       let i = tk_ipc_info t;
       if used_size i + sz + SIZEOF_MSGPACK > mail_size i \<or> (allow_pid i \<noteq> pid ct \<and> allow_pid i \<noteq> ANY_TASK)
       then Some (False, st)
       else do {
         let pack = \<lparr>mp_reserved = junk, message_no = no_message no, msg_id = no_msg_id no,
                     mp_length = ucast sz, mp_source = of_int (pid ct)\<rparr>;
         deliver target i pack sz (pgd (tk_mm_info ct)) src (allow_pid i \<noteq> DUMMY_TASK) st
       }
     }
   }"

definition check_ipc :: "kstate \<Rightarrow> kstate option" where
  "check_ipc st = do {
     c \<leftarrow> current_task st;
     t \<leftarrow> tasks st c;
     if mail (tk_ipc_info t) = NULL then Some st
     else if used_size (tk_ipc_info t) > 0 then Some st
     else upd_thread (current_thread st) (\<lambda>t. t\<lparr>th_state := WAITING_IPC\<rparr>) st
   }"

text \<open>An assignment to a field of \<^verbatim>\<open>current_thread->task->ipc_info\<close>.\<close>

definition upd_ipc :: "(ipc_info \<Rightarrow> ipc_info) \<Rightarrow> kstate \<Rightarrow> kstate option" where
  "upd_ipc f st = do {
     c \<leftarrow> current_task st;
     upd_task c (\<lambda>t. t\<lparr>tk_ipc_info := f (tk_ipc_info t)\<rparr>) st
   }"

definition set_allow :: "int \<Rightarrow> kstate \<Rightarrow> kstate option" where
  "set_allow p st = upd_ipc (\<lambda>i. i\<lparr>allow_pid := p\<rparr>) st"

text \<open>\<^verbatim>\<open>__recv_msg\<close>; the failed assertion is \<open>None\<close>.\<close>

definition recv_msg :: "nat \<Rightarrow> kstate \<Rightarrow> (msgpack \<times> kstate) option" where
  "recv_msg dst st = do {
     c \<leftarrow> current_task st;
     t \<leftarrow> tasks st c;
     if used_size (tk_ipc_info t) \<le> 0
     then Some (\<lparr>mp_reserved = 0, message_no = of_int (-1), msg_id = 0, mp_length = 0, mp_source = of_int (-1)\<rparr>, st)
     else do {
       (pack, st) \<leftarrow> read_from_buffer dst st;
       t \<leftarrow> tasks st c;
       if used_size (tk_ipc_info t) \<ge> ucast (mp_length pack) + SIZEOF_MSGPACK then do {
         st \<leftarrow> upd_task c (\<lambda>t. t\<lparr>tk_ipc_info := (tk_ipc_info t)\<lparr>
                  used_size := used_size (tk_ipc_info t) - (ucast (mp_length pack) + SIZEOF_MSGPACK)\<rparr>\<rparr>) st;
         Some (pack, st)
       } else None
     }
   }"

definition test_and_lock :: "nat \<Rightarrow> kstate \<Rightarrow> (bool \<times> kstate) option" where
  "test_and_lock val st = do {
     c \<leftarrow> current_task st;
     t \<leftarrow> tasks st c;
     b \<leftarrow> v_read (pgd (tk_mm_info t)) val (vm st);
     if b \<noteq> 0 then Some (False, st)
     else do {
       v \<leftarrow> v_write (pgd (tk_mm_info t)) val 1 (vm st);
       Some (True, st\<lparr>vm := v\<rparr>)
     }
   }"

definition set_mailbuffer :: "nat \<Rightarrow> u64 \<Rightarrow> kstate \<Rightarrow> kstate option" where
  "set_mailbuffer buffer sz st = upd_ipc (\<lambda>i. i\<lparr>mail := buffer, write_ptr := buffer, read_ptr := buffer,
     mail_size := sz, used_size := 0, lastest_msg := NULL, msg_handler_thread := current_thread st\<rparr>) st"

definition clear_mail :: "kstate \<Rightarrow> kstate option" where
  "clear_mail st = upd_ipc (\<lambda>i. i\<lparr>write_ptr := mail i, read_ptr := mail i, used_size := 0, lastest_msg := NULL\<rparr>) st"

text \<open>\<^verbatim>\<open>__reg_irq\<close>: an index outside the array of 16 entries is \<open>None\<close>.\<close>

definition reg_irq :: "int \<Rightarrow> kstate \<Rightarrow> kstate option" where
  "reg_irq irq st = do {
     c \<leftarrow> current_task st;
     t \<leftarrow> tasks st c;
     if 0 \<le> irq \<and> irq < 16 then Some (st\<lparr>irq_handle_tasks := (irq_handle_tasks st)(nat irq := pid t)\<rparr>) else None
   }"

definition dummy_send_msg :: "u8 \<Rightarrow> msgno \<Rightarrow> nat \<Rightarrow> u64 \<Rightarrow> int \<Rightarrow> kstate \<Rightarrow> (bool \<times> kstate) option" where
  "dummy_send_msg junk no src sz dst st = do {
     target \<leftarrow> get_task_by_pid dst st;
     if target = NULL then Some (False, st) else do {
       t \<leftarrow> tasks st target;
       let i = tk_ipc_info t;
       if used_size i + sz + SIZEOF_MSGPACK > mail_size i \<or> (allow_pid i \<noteq> DUMMY_TASK \<and> allow_pid i \<ge> 0)
       then Some (False, st)
       else do {
         let pack = \<lparr>mp_reserved = junk, message_no = no_message no, msg_id = no_msg_id no,
                     mp_length = ucast sz, mp_source = of_int DUMMY_TASK\<rparr>;
         deliver target i pack sz (kernel_pml4 st) src True st
       }
     }
   }"

text \<open>
  \<^verbatim>\<open>normal_irq_handler\<close>: the number of the interrupt is sent from a local variable, whose address in the
  identity-mapped kernel stack is \<open>slot\<close>.
\<close>

definition normal_irq_handler :: "u8 \<Rightarrow> nat \<Rightarrow> nat \<Rightarrow> kstate \<Rightarrow> kstate option" where
  "normal_irq_handler junk slot irq st =
     (if irq_handle_tasks st irq = 0 then Some st
      else do {
        let (i, counter) = get_msgid (msgid_counter st);
        let v = (vm st)\<lparr>vm_bytes := store_bytes (vm_bytes (vm st)) slot (le_bytes 4 irq)\<rparr>;
        (_, st) \<leftarrow> dummy_send_msg junk \<lparr>no_reserved = 0, no_message = MSG_IRQ, no_msg_id = i\<rparr> slot 4
                     (irq_handle_tasks st irq) (st\<lparr>msgid_counter := counter, vm := v\<rparr>);
        Some st
      })"

definition create_thread :: "nat \<Rightarrow> u64 \<Rightarrow> u64 \<Rightarrow> kstate \<Rightarrow> (int \<times> kstate) option" where
  "create_thread fuel entry args st = do {
     c \<leftarrow> current_task st;
     (thread, st) \<leftarrow> create_thread_in fuel entry c st;
     st \<leftarrow> upd_thread thread (\<lambda>t. t\<lparr>registers := (registers t)\<lparr>ri_basic := (ri_basic (registers t))\<lparr>rdi := args\<rparr>\<rparr>\<rparr>) st;
     t \<leftarrow> threads st thread;
     Some (tid t, st)
   }"

definition exit_thread :: "kstate \<Rightarrow> kstate option" where
  "exit_thread st = upd_thread (current_thread st) (\<lambda>t. t\<lparr>th_state := TERMINATED\<rparr>) st"

section \<open>The ring as a queue of bytes\<close>

text \<open>
  \<open>phys v d m k\<close>: the physical address of byte \<open>k\<close> of the mailbox at \<open>m\<close>.  \<open>ring_ok\<close>: all \<open>M\<close> bytes of a
  mailbox are mapped, to distinct physical bytes.
\<close>

abbreviation phys :: "vmem \<Rightarrow> ptr \<Rightarrow> nat \<Rightarrow> nat \<Rightarrow> ptr" where
  "phys v d m k \<equiv> get_physical_address (vm_tables v) d (m + k)"

definition ring_ok :: "vmem \<Rightarrow> ptr \<Rightarrow> ipc_info \<Rightarrow> bool" where
  "ring_ok v d i \<longleftrightarrow> 0 < unat (mail_size i) \<and> (\<forall>k<unat (mail_size i). phys v d (mail i) k \<noteq> NULL)
     \<and> inj_on (phys v d (mail i)) {..<unat (mail_size i)}"

definition ring_mem :: "vmem \<Rightarrow> ptr \<Rightarrow> ipc_info \<Rightarrow> ptr set" where
  "ring_mem v d i = phys v d (mail i) ` {..<unat (mail_size i)}"

text \<open>The list \<open>bs\<close> is stored in the ring from offset \<open>o\<close> on.\<close>

definition ring_holds :: "vmem \<Rightarrow> ptr \<Rightarrow> ipc_info \<Rightarrow> nat \<Rightarrow> u8 list \<Rightarrow> bool" where
  "ring_holds v d i off bs \<longleftrightarrow>
     (\<forall>k<length bs. vm_bytes v (phys v d (mail i) ((off + k) mod unat (mail_size i))) = bs ! k)"

lemma increase_ptr_mod:
  "off < unat (mail_size i) \<Longrightarrow> increase_ptr i (mail i + off) = mail i + Suc off mod unat (mail_size i)"
  by (cases "Suc off = unat (mail_size i)") (simp_all add: increase_ptr_def Let_def)

lemma mod_shift: "(Suc off mod M + k) mod M = (off + Suc k) mod (M::nat)"
  by (simp add: mod_add_left_eq)

lemma put_bytes_ring:
  "ring_ok v d i \<Longrightarrow> off < unat (mail_size i) \<Longrightarrow> length bs \<le> unat (mail_size i) \<Longrightarrow>
   \<exists>B. put_bytes d i bs (mail i + off) v = Some (mail i + (off + length bs) mod unat (mail_size i), v\<lparr>vm_bytes := B\<rparr>)
     \<and> ring_holds (v\<lparr>vm_bytes := B\<rparr>) d i off bs
     \<and> (\<forall>p. (\<forall>k<length bs. p \<noteq> phys v d (mail i) ((off + k) mod unat (mail_size i))) \<longrightarrow> B p = vm_bytes v p)"
proof (induction bs arbitrary: off v)
  case Nil
  then show ?case by (intro exI [of _ "vm_bytes v"]) (simp add: ring_holds_def)
next
  case (Cons b bs)
  let ?M = "unat (mail_size i)"
  define v1 where "v1 = v\<lparr>vm_bytes := (vm_bytes v)(phys v d (mail i) off := b)\<rparr>"
  have ok1: "ring_ok v1 d i" using Cons.prems(1) by (simp add: ring_ok_def v1_def)
  have w: "v_write d (mail i + off) b v = Some v1"
    using Cons.prems(1,2) by (auto simp: v_write_def ring_ok_def v1_def Let_def)
  obtain B where B: "put_bytes d i bs (mail i + Suc off mod ?M) v1
        = Some (mail i + (Suc off mod ?M + length bs) mod ?M, v1\<lparr>vm_bytes := B\<rparr>)"
      "ring_holds (v1\<lparr>vm_bytes := B\<rparr>) d i (Suc off mod ?M) bs"
      "\<forall>p. (\<forall>k<length bs. p \<noteq> phys v1 d (mail i) ((Suc off mod ?M + k) mod ?M)) \<longrightarrow> B p = vm_bytes v1 p"
    using Cons.IH [OF ok1, of "Suc off mod ?M"] Cons.prems(2,3) by auto
  have t1: "vm_tables v1 = vm_tables v" by (simp add: v1_def)
  have apart: "phys v d (mail i) off \<noteq> phys v d (mail i) ((off + Suc k) mod ?M)" if "k < length bs" for k
  proof -
    have "(off + Suc k) mod ?M \<noteq> off"
    proof (cases "off + Suc k < ?M")
      case False
      then have "(off + Suc k) mod ?M = off + Suc k - ?M" using Cons.prems(2,3) that by (simp add: le_mod_geq)
      then show ?thesis using Cons.prems(3) that False by auto
    qed simp
    then show ?thesis using Cons.prems(1,2) unfolding ring_ok_def inj_on_def by (metis lessThan_iff mod_less_divisor)
  qed
  have B0: "B (phys v d (mail i) off) = b"
    using B(3) apart by (simp add: t1 mod_shift) (simp add: v1_def)
  have run: "put_bytes d i (b # bs) (mail i + off) v
      = Some (mail i + (off + length (b # bs)) mod ?M, v\<lparr>vm_bytes := B\<rparr>)"
    using w B(1) Cons.prems(2) by (simp add: increase_ptr_mod mod_shift) (simp add: v1_def)
  have holds: "ring_holds (v\<lparr>vm_bytes := B\<rparr>) d i off (b # bs)"
    unfolding ring_holds_def
  proof (intro allI impI)
    fix k
    assume "k < length (b # bs)"
    then show "vm_bytes (v\<lparr>vm_bytes := B\<rparr>) (phys (v\<lparr>vm_bytes := B\<rparr>) d (mail i) ((off + k) mod ?M)) = (b # bs) ! k"
      using B0 B(2) Cons.prems(2) by (cases k) (auto simp: ring_holds_def t1 mod_shift)
  qed
  have frame: "B p = vm_bytes v p" if "\<forall>k<length (b # bs). p \<noteq> phys v d (mail i) ((off + k) mod ?M)" for p
  proof -
    have "p \<noteq> phys v d (mail i) off" using that Cons.prems(2) by (metis add_0_right length_greater_0_conv list.distinct(1) mod_less)
    moreover have "\<forall>k<length bs. p \<noteq> phys v1 d (mail i) ((Suc off mod ?M + k) mod ?M)"
      using that by (auto simp: t1 mod_shift)
    ultimately show ?thesis using B(3) by (simp add: v1_def)
  qed
  show ?case using run holds frame by blast
qed

lemma all_less_Suc_split: "(\<forall>k<Suc n. P k) \<longleftrightarrow> P 0 \<and> (\<forall>k<n. P (Suc k))"
  using less_Suc_eq_0_disj by auto

text \<open>The body is written as if its bytes had been given, when the source lies outside the mailbox.\<close>

lemma copy_in_put_bytes:
  "off < unat (mail_size i) \<Longrightarrow> \<forall>k<n. phys v s src k \<noteq> NULL \<and> phys v s src k \<notin> ring_mem v d i \<Longrightarrow>
   copy_in d i s n src (mail i + off) v
     = put_bytes d i (map (\<lambda>k. vm_bytes v (phys v s src k)) [0..<n]) (mail i + off) v"
proof (induction n arbitrary: src off v)
  case 0
  then show ?case by simp
next
  case (Suc n)
  let ?M = "unat (mail_size i)"
  have r: "v_read s src v = Some (vm_bytes v (phys v s src 0))" using Suc.prems(2) by (auto simp: v_read_def)
  show ?case
  proof (cases "phys v d (mail i) off = NULL")
    case True
    then show ?thesis using r by (simp add: upt_conv_Cons v_write_def del: upt_Suc)
  next
    case False
    let ?v1 = "v\<lparr>vm_bytes := (vm_bytes v)(phys v d (mail i) off := vm_bytes v (phys v s src 0))\<rparr>"
    have in_ring: "phys v d (mail i) off \<in> ring_mem v d i" using Suc.prems(1) by (auto simp: ring_mem_def)
    have k: "phys v s (src + 1) k \<noteq> NULL \<and> phys v s (src + 1) k \<notin> ring_mem v d i" if "k < n" for k
      using Suc.prems(2) [rule_format, of "Suc k"] that by simp
    have eq: "vm_bytes ?v1 (phys v s (src + 1) k) = vm_bytes v (phys v s src (Suc k))" if "k < n" for k
    proof -
      have "phys v s (src + 1) k \<noteq> phys v d (mail i) off" using k [OF that] in_ring by metis
      then show ?thesis by simp
    qed
    have "copy_in d i s n (src + 1) (mail i + Suc off mod ?M) ?v1
        = put_bytes d i (map (\<lambda>k. vm_bytes ?v1 (phys ?v1 s (src + 1) k)) [0..<n]) (mail i + Suc off mod ?M) ?v1"
      by (rule Suc.IH) (use Suc.prems(1) k in \<open>auto simp: ring_mem_def\<close>)
    moreover have "map (\<lambda>k. vm_bytes ?v1 (phys ?v1 s (src + 1) k)) [0..<n]
        = map (\<lambda>k. vm_bytes v (phys v s src k)) [Suc 0..<Suc n]"
      unfolding map_Suc_upt [symmetric] using eq by simp
    ultimately show ?thesis
      using r False Suc.prems(1) by (simp add: upt_conv_Cons v_write_def increase_ptr_mod Let_def del: upt_Suc)
  qed
qed

lemma ring_holds_Cons:
  "off < unat (mail_size i) \<Longrightarrow> ring_holds v d i off (b # bs) \<longleftrightarrow>
   vm_bytes v (phys v d (mail i) off) = b \<and> ring_holds v d i (Suc off mod unat (mail_size i)) bs"
  unfolding ring_holds_def by (simp add: all_less_Suc_split mod_shift)

lemma ring_holds_append:
  "ring_holds v d i off (xs @ ys) \<longleftrightarrow>
   ring_holds v d i off xs \<and> ring_holds v d i ((off + length xs) mod unat (mail_size i)) ys"
  (is "?L \<longleftrightarrow> ?X \<and> ?Y")
proof
  let ?M = "unat (mail_size i)"
  assume L: ?L
  have "vm_bytes v (phys v d (mail i) (((off + length xs) mod ?M + k) mod ?M)) = ys ! k" if "k < length ys" for k
    using L that unfolding ring_holds_def by (metis add.assoc add_less_cancel_left length_append mod_add_left_eq nth_append_length_plus)
  moreover have "vm_bytes v (phys v d (mail i) ((off + k) mod ?M)) = xs ! k" if "k < length xs" for k
    using L that unfolding ring_holds_def by (metis length_append nth_append trans_less_add1)
  ultimately show "?X \<and> ?Y" by (simp add: ring_holds_def)
next
  let ?M = "unat (mail_size i)"
  assume R: "?X \<and> ?Y"
  show ?L unfolding ring_holds_def
  proof (intro allI impI)
    fix k
    assume k: "k < length (xs @ ys)"
    show "vm_bytes v (phys v d (mail i) ((off + k) mod ?M)) = (xs @ ys) ! k"
    proof (cases "k < length xs")
      case True
      then show ?thesis using R by (simp add: ring_holds_def nth_append)
    next
      case False
      then have "k - length xs < length ys" "off + k = off + length xs + (k - length xs)" using k by auto
      then show ?thesis using R False unfolding ring_holds_def by (metis mod_add_left_eq nth_append)
    qed
  qed
qed

lemma get_bytes_ring:
  "ring_ok v d i \<Longrightarrow> off < unat (mail_size i) \<Longrightarrow> ring_holds v d i off bs \<Longrightarrow>
   get_bytes d i (length bs) (mail i + off) v = Some (bs, mail i + (off + length bs) mod unat (mail_size i))"
proof (induction bs arbitrary: off)
  case Nil
  then show ?case by simp
next
  case (Cons b bs)
  have "v_read d (mail i + off) v = Some b"
    using Cons.prems by (auto simp: v_read_def ring_ok_def ring_holds_Cons Let_def)
  moreover have "get_bytes d i (length bs) (mail i + Suc off mod unat (mail_size i)) v
      = Some (bs, mail i + (Suc off mod unat (mail_size i) + length bs) mod unat (mail_size i))"
    by (rule Cons.IH) (use Cons.prems in \<open>auto simp: ring_holds_Cons\<close>)
  ultimately show ?case using Cons.prems(2) by (simp add: increase_ptr_mod mod_shift)
qed

lemma copy_out_ring:
  "ring_ok v d i \<Longrightarrow> off < unat (mail_size i) \<Longrightarrow> ring_holds v d i off bs \<Longrightarrow>
   \<forall>k<length bs. phys v d dst k \<noteq> NULL \<and> phys v d dst k \<notin> ring_mem v d i \<Longrightarrow> inj_on (phys v d dst) {..<length bs} \<Longrightarrow>
   \<exists>B. copy_out d i (length bs) dst (mail i + off) v
        = Some (mail i + (off + length bs) mod unat (mail_size i), v\<lparr>vm_bytes := B\<rparr>)
     \<and> (\<forall>k<length bs. B (phys v d dst k) = bs ! k)
     \<and> (\<forall>p. (\<forall>k<length bs. p \<noteq> phys v d dst k) \<longrightarrow> B p = vm_bytes v p)"
proof (induction bs arbitrary: off dst v)
  case Nil
  then show ?case by (intro exI [of _ "vm_bytes v"]) simp
next
  case (Cons b bs)
  let ?M = "unat (mail_size i)"
  define v1 where "v1 = v\<lparr>vm_bytes := (vm_bytes v)(phys v d dst 0 := b)\<rparr>"
  have t1: "vm_tables v1 = vm_tables v" by (simp add: v1_def)
  have r: "v_read d (mail i + off) v = Some b"
    using Cons.prems(1-3) by (auto simp: v_read_def ring_ok_def ring_holds_Cons Let_def)
  have dst0: "phys v d dst 0 \<noteq> NULL" "phys v d dst 0 \<notin> ring_mem v d i" using Cons.prems(4) by auto
  then have w: "v_write d dst b v = Some v1" by (simp add: v_write_def v1_def)
  have shift: "phys v d (dst + 1) k = phys v d dst (Suc k)" for k by simp
  have "ring_holds v d i (Suc off mod ?M) bs" using Cons.prems(2,3) by (simp add: ring_holds_Cons)
  moreover have "phys v d (mail i) (j mod ?M) \<noteq> phys v d dst 0" for j
    using dst0(2) Cons.prems(1) unfolding ring_mem_def ring_ok_def by (metis image_eqI lessThan_iff mod_less_divisor)
  ultimately have h1: "ring_holds v1 d i (Suc off mod ?M) bs"
    unfolding ring_holds_def t1 by (simp add: v1_def)
  have "\<exists>B. copy_out d i (length bs) (dst + 1) (mail i + Suc off mod ?M) v1
        = Some (mail i + (Suc off mod ?M + length bs) mod ?M, v1\<lparr>vm_bytes := B\<rparr>)
     \<and> (\<forall>k<length bs. B (phys v1 d (dst + 1) k) = bs ! k)
     \<and> (\<forall>p. (\<forall>k<length bs. p \<noteq> phys v1 d (dst + 1) k) \<longrightarrow> B p = vm_bytes v1 p)"
  proof (rule Cons.IH)
    show "ring_ok v1 d i" using Cons.prems(1) by (simp add: ring_ok_def t1)
    show "\<forall>k<length bs. phys v1 d (dst + 1) k \<noteq> NULL \<and> phys v1 d (dst + 1) k \<notin> ring_mem v1 d i"
      using Cons.prems(4) unfolding shift t1 ring_mem_def by auto
    show "inj_on (phys v1 d (dst + 1)) {..<length bs}"
    proof (rule inj_onI)
      fix x y
      assume "x \<in> {..<length bs}" "y \<in> {..<length bs}" "phys v1 d (dst + 1) x = phys v1 d (dst + 1) y"
      then show "x = y" using Cons.prems(5) inj_onD [of "phys v d dst" "{..<length (b # bs)}" "Suc x" "Suc y"]
        unfolding t1 shift by auto
    qed
  qed (use Cons.prems(2) h1 in auto)
  then obtain B where B: "copy_out d i (length bs) (dst + 1) (mail i + Suc off mod ?M) v1
        = Some (mail i + (Suc off mod ?M + length bs) mod ?M, v1\<lparr>vm_bytes := B\<rparr>)"
      "\<forall>k<length bs. B (phys v d dst (Suc k)) = bs ! k"
      "\<forall>p. (\<forall>k<length bs. p \<noteq> phys v d dst (Suc k)) \<longrightarrow> B p = vm_bytes v1 p"
    unfolding t1 shift by blast
  have inj: "phys v d dst 0 \<noteq> phys v d dst (Suc k)" if "k < length bs" for k
    using inj_onD [OF Cons.prems(5), of 0 "Suc k"] that by auto
  have "B (phys v d dst 0) = b" using B(3) inj by (simp add: v1_def)
  then have all: "B (phys v d dst k) = (b # bs) ! k" if "k < length (b # bs)" for k
    using B(2) that by (cases k) auto
  have frame: "B p = vm_bytes v p" if "\<forall>k<length (b # bs). p \<noteq> phys v d dst k" for p
    using B(3) that by (auto simp: v1_def all_less_Suc_split)
  have "copy_out d i (length (b # bs)) dst (mail i + off) v
      = Some (mail i + (off + length (b # bs)) mod ?M, v\<lparr>vm_bytes := B\<rparr>)"
    using r w B(1) Cons.prems(2) by (simp add: increase_ptr_mod mod_shift) (simp add: v1_def)
  with all frame show ?case by blast
qed

section \<open>The mailbox as a queue of messages\<close>

lemma ring_upd [simp]:
  "ring_ok v d (i\<lparr>used_size := x\<rparr>) = ring_ok v d i" "ring_ok v d (i\<lparr>write_ptr := w\<rparr>) = ring_ok v d i"
  "ring_ok v d (i\<lparr>read_ptr := w\<rparr>) = ring_ok v d i" "ring_ok (v\<lparr>vm_bytes := B\<rparr>) d i = ring_ok v d i"
  "ring_holds v d (i\<lparr>used_size := x\<rparr>) off bs = ring_holds v d i off bs"
  "ring_holds v d (i\<lparr>write_ptr := w\<rparr>) off bs = ring_holds v d i off bs"
  "ring_holds v d (i\<lparr>read_ptr := w\<rparr>) off bs = ring_holds v d i off bs"
  "ring_mem v d (i\<lparr>used_size := x\<rparr>) = ring_mem v d i" "ring_mem (v\<lparr>vm_bytes := B\<rparr>) d i = ring_mem v d i"
  by (simp_all add: ring_ok_def ring_holds_def ring_mem_def)

lemma put_bytes_append:
  "put_bytes d i (xs @ ys) w v = do { (w, v) \<leftarrow> put_bytes d i xs w v; put_bytes d i ys w v }"
  by (induction xs arbitrary: w v) (simp_all add: Option.bind_assoc)

lemma put_bytes_tables: "put_bytes d i bs w v = Some (w', v') \<Longrightarrow> vm_tables v' = vm_tables v"
  by (induction bs arbitrary: w v) (auto simp: v_write_def bind_eq_Some_iff Let_def split: if_splits)

text \<open>The body of a message, as the sender's address space holds it.\<close>

definition source_bytes :: "vmem \<Rightarrow> ptr \<Rightarrow> nat \<Rightarrow> nat \<Rightarrow> u8 list" where
  "source_bytes v s src n = map (\<lambda>k. vm_bytes v (phys v s src k)) [0..<n]"

definition source_ok :: "vmem \<Rightarrow> ptr \<Rightarrow> nat \<Rightarrow> nat \<Rightarrow> ptr set \<Rightarrow> bool" where
  "source_ok v s src n R \<longleftrightarrow> (\<forall>k<n. phys v s src k \<noteq> NULL \<and> phys v s src k \<notin> R)"

lemma ring_disjoint:
  assumes "u + n \<le> M" and "k < u" and "j < n" and "r < M"
  shows "(r + k) mod M \<noteq> ((r + u) mod M + j) mod (M::nat)"
proof
  assume e: "(r + k) mod M = ((r + u) mod M + j) mod M"
  then have "(r + k) mod M = (r + (u + j)) mod M" by (simp add: mod_add_left_eq add.assoc)
  then have "M dvd (r + (u + j)) - (r + k)"
    using assms(2) mod_eq_dvd_iff_nat [of "r + k" "r + (u + j)" M] by simp
  then have "M \<le> u + j - k" using assms(2) by (auto dest: dvd_imp_le)
  then show False using assms by linarith
qed

lemma write_to_buffer_ok:
  assumes t: "tasks st a = Some t" "tk_ipc_info t = i" "pgd (tk_mm_info t) = d"
    and ok: "ring_ok (vm st) d i" and r: "r < unat (mail_size i)"
    and w: "write_ptr i = mail i + (r + length bs) mod unat (mail_size i)"
    and h: "ring_holds (vm st) d i r bs" and n: "n = unat (mp_length pack)"
    and room: "length bs + (8 + n) \<le> unat (mail_size i)"
    and src: "source_ok (vm st) s src n (ring_mem (vm st) d i)"
  defines "new \<equiv> msgpack_bytes pack @ source_bytes (vm st) s src n"
  shows "\<exists>B. write_to_buffer a pack s src st = Some (st\<lparr>vm := (vm st)\<lparr>vm_bytes := B\<rparr>,
        tasks := (tasks st)(a \<mapsto> t\<lparr>tk_ipc_info := i\<lparr>write_ptr := mail i + (r + length (bs @ new)) mod unat (mail_size i)\<rparr>\<rparr>)\<rparr>)
     \<and> ring_holds ((vm st)\<lparr>vm_bytes := B\<rparr>) d i r (bs @ new)"
proof -
  let ?M = "unat (mail_size i)" and ?v = "vm st"
  let ?off = "(r + length bs) mod ?M"
  have M: "0 < ?M" using ok by (simp add: ring_ok_def)
  then have off: "?off < ?M" by simp
  have len: "length new = 8 + n" by (simp add: new_def source_bytes_def)
  obtain B where B: "put_bytes d i new (mail i + ?off) ?v = Some (mail i + (?off + length new) mod ?M, ?v\<lparr>vm_bytes := B\<rparr>)"
      "ring_holds (?v\<lparr>vm_bytes := B\<rparr>) d i ?off new"
      "\<forall>p. (\<forall>k<length new. p \<noteq> phys ?v d (mail i) ((?off + k) mod ?M)) \<longrightarrow> B p = vm_bytes ?v p"
    using put_bytes_ring [OF ok off, of new] room len by auto
  obtain B1 where B1: "put_bytes d i (msgpack_bytes pack) (mail i + ?off) ?v
        = Some (mail i + (?off + 8) mod ?M, ?v\<lparr>vm_bytes := B1\<rparr>)"
      "\<forall>p. (\<forall>k<8. p \<noteq> phys ?v d (mail i) ((?off + k) mod ?M)) \<longrightarrow> B1 p = vm_bytes ?v p"
    using put_bytes_ring [OF ok off, of "msgpack_bytes pack"] room by auto
  have same: "B1 (phys ?v s src k) = vm_bytes ?v (phys ?v s src k)" if "k < n" for k
  proof -
    have "phys ?v d (mail i) (j mod ?M) \<in> ring_mem ?v d i" for j using M by (auto simp: ring_mem_def)
    then have "\<forall>j<8. phys ?v s src k \<noteq> phys ?v d (mail i) ((?off + j) mod ?M)"
      using src that unfolding source_ok_def by metis
    then show ?thesis using B1(2) by blast
  qed
  have "copy_in d i s n src (mail i + (?off + 8) mod ?M) (?v\<lparr>vm_bytes := B1\<rparr>)
      = put_bytes d i (source_bytes ?v s src n) (mail i + (?off + 8) mod ?M) (?v\<lparr>vm_bytes := B1\<rparr>)"
  proof -
    have "copy_in d i s n src (mail i + (?off + 8) mod ?M) (?v\<lparr>vm_bytes := B1\<rparr>)
        = put_bytes d i (map (\<lambda>k. vm_bytes (?v\<lparr>vm_bytes := B1\<rparr>) (phys (?v\<lparr>vm_bytes := B1\<rparr>) s src k)) [0..<n])
            (mail i + (?off + 8) mod ?M) (?v\<lparr>vm_bytes := B1\<rparr>)"
      by (rule copy_in_put_bytes) (use M src in \<open>simp_all add: source_ok_def\<close>)
    moreover have "map (\<lambda>k. vm_bytes (?v\<lparr>vm_bytes := B1\<rparr>) (phys (?v\<lparr>vm_bytes := B1\<rparr>) s src k)) [0..<n] = source_bytes ?v s src n"
      using same by (simp add: source_bytes_def)
    ultimately show ?thesis by simp
  qed
  then have both: "copy_in d i s n src (mail i + (?off + 8) mod ?M) (?v\<lparr>vm_bytes := B1\<rparr>)
      = Some (mail i + (?off + length new) mod ?M, ?v\<lparr>vm_bytes := B\<rparr>)"
    using B(1) B1(1) by (simp add: new_def put_bytes_append)
  have eqw: "(?off + length new) mod ?M = (r + length (bs @ new)) mod ?M" by (simp add: mod_add_left_eq add.assoc)
  have run: "write_to_buffer a pack s src st = Some (st\<lparr>vm := ?v\<lparr>vm_bytes := B\<rparr>,
        tasks := (tasks st)(a \<mapsto> t\<lparr>tk_ipc_info := i\<lparr>write_ptr := mail i + (r + length (bs @ new)) mod ?M\<rparr>\<rparr>)\<rparr>)"
    using t w B1(1) both n eqw by (simp add: write_to_buffer_def upd_task_def Let_def)
  have old: "ring_holds (?v\<lparr>vm_bytes := B\<rparr>) d i r bs"
    unfolding ring_holds_def
  proof (intro allI impI)
    fix k
    assume k: "k < length bs"
    have "phys ?v d (mail i) ((r + k) mod ?M) \<noteq> phys ?v d (mail i) ((?off + j) mod ?M)" if "j < length new" for j
    proof -
      have "(r + k) mod ?M \<noteq> (?off + j) mod ?M" using ring_disjoint [of "length bs" "length new" ?M k j r] k that room len r by simp
      then show ?thesis using ok M unfolding ring_ok_def inj_on_def by (metis lessThan_iff mod_less_divisor)
    qed
    then have "B (phys ?v d (mail i) ((r + k) mod ?M)) = vm_bytes ?v (phys ?v d (mail i) ((r + k) mod ?M))"
      using B(3) by blast
    then show "vm_bytes (?v\<lparr>vm_bytes := B\<rparr>) (phys (?v\<lparr>vm_bytes := B\<rparr>) d (mail i) ((r + k) mod ?M)) = bs ! k"
      using h k by (simp add: ring_holds_def)
  qed
  show ?thesis using run old B(2) by (auto simp: ring_holds_append)
qed

text \<open>Readying a thread.\<close>

lemma wake_ok:
  assumes r: "ready0 st ps" "schedulable st h" "h \<notin> set ps"
  shows "\<exists>st1 st'. upd_thread h (\<lambda>t. t\<lparr>th_state := READY\<rparr>) st = Some st1 \<and> enqueue_thread h st1 = Some st'
     \<and> ready0 st' (ps @ [h]) \<and> map_option th_state (threads st' h) = Some READY
     \<and> (\<forall>q. q \<noteq> h \<longrightarrow> map_option th_state (threads st' q) = map_option th_state (threads st q))
     \<and> vm st' = vm st \<and> tasks st' = tasks st"
proof -
  obtain th tk where h: "h \<noteq> NULL" "threads st h = Some th" "tasks st (th_task th) = Some tk" "level tk \<in> {0, 1}"
    using r(2) by (auto simp: schedulable_def)
  define st1 where "st1 = st\<lparr>threads := (threads st)(h \<mapsto> th\<lparr>th_state := READY\<rparr>)\<rparr>"
  have u: "upd_thread h (\<lambda>t. t\<lparr>th_state := READY\<rparr>) st = Some st1" using h by (simp add: upd_thread_def st1_def)
  have "fnext st1 = fnext st" using h by (auto simp: st1_def)
  then have r1: "ready0 st1 ps" using r(1) by (simp add: ready0_def st1_def)
  have i1: "is_thread st1 h" using h by (simp add: is_thread_def st1_def)
  obtain st' where q: "enqueue_level0_thread h st1 = Some st'" "ready0 st' (ps @ [h])" "same_but_ready st1 st'"
    using enqueue_level0_ready [OF r1 i1 r(3)] by blast
  have e: "enqueue_thread h st1 = Some st'" using q(1) h by (auto simp: enqueue_thread_def st1_def)
  note f = same_but_ready_fields [OF q(3)]
  have s1: "map_option th_state (threads st' b) = map_option th_state (threads st1 b)" for b
  proof (cases "threads st1 b")
    case None
    then show ?thesis using same_but_ready_threads(1) [OF q(3), of b] by simp
  next
    case (Some y)
    then show ?thesis using same_but_ready_threads(2) [OF q(3) Some] by auto
  qed
  have sh: "map_option th_state (threads st' h) = Some READY"
    and so: "\<forall>q. q \<noteq> h \<longrightarrow> map_option th_state (threads st' q) = map_option th_state (threads st q)"
    using s1 by (simp_all add: st1_def)
  have "vm st' = vm st" "tasks st' = tasks st" using f by (simp_all add: st1_def)
  with u e q(2) sh so show ?thesis by blast
qed

text \<open>
  \<open>mailbox st a msgs\<close>: the mailbox of the task \<open>a\<close> is mapped and holds the messages \<open>msgs\<close>, headers
  and bodies, oldest first.
\<close>

type_synonym message = "msgpack \<times> u8 list"

definition msg_bytes :: "message \<Rightarrow> u8 list" where
  "msg_bytes m = msgpack_bytes (fst m) @ snd m"

definition msg_wf :: "message \<Rightarrow> bool" where
  "msg_wf m \<longleftrightarrow> length (snd m) = unat (mp_length (fst m))"

definition stream :: "message list \<Rightarrow> u8 list" where
  "stream msgs = concat (map msg_bytes msgs)"

lemma stream_simps [simp]:
  "stream [] = []" "stream (m # ms) = msgpack_bytes (fst m) @ snd m @ stream ms"
  "stream (ms @ ns) = stream ms @ stream ns"
  by (simp_all add: stream_def msg_bytes_def)

definition holds_msgs :: "vmem \<Rightarrow> ptr \<Rightarrow> ipc_info \<Rightarrow> message list \<Rightarrow> bool" where
  "holds_msgs v d i msgs \<longleftrightarrow> ring_ok v d i \<and> list_all msg_wf msgs \<and> unat (used_size i) = length (stream msgs)
     \<and> length (stream msgs) \<le> unat (mail_size i)
     \<and> (\<exists>r<unat (mail_size i). read_ptr i = mail i + r
          \<and> write_ptr i = mail i + (r + length (stream msgs)) mod unat (mail_size i) \<and> ring_holds v d i r (stream msgs))"

definition mailbox :: "kstate \<Rightarrow> ptr \<Rightarrow> message list \<Rightarrow> bool" where
  "mailbox st a msgs \<longleftrightarrow> (\<exists>t. tasks st a = Some t \<and> holds_msgs (vm st) (pgd (tk_mm_info t)) (tk_ipc_info t) msgs)"

lemma mailbox_cong: "mailbox st a msgs \<Longrightarrow> vm st' = vm st \<Longrightarrow> tasks st' = tasks st \<Longrightarrow> mailbox st' a msgs"
  by (simp add: mailbox_def)

lemma room_word:
  fixes u sz m :: u64
  assumes "unat u + 8 + unat sz \<le> unat m"
  shows "u + (SIZEOF_MSGPACK + sz) \<le> m" and "unat (u + (SIZEOF_MSGPACK + sz)) = unat u + 8 + unat sz"
proof -
  have le: "unat m < 2 ^ 64" using unsigned_less [of m] by simp
  have "unat (SIZEOF_MSGPACK + sz) = 8 + unat sz" using assms le by (simp add: SIZEOF_MSGPACK_def unat_word_ariths)
  then show e: "unat (u + (SIZEOF_MSGPACK + sz)) = unat u + 8 + unat sz" using assms le by (simp add: unat_word_ariths)
  then show "u + (SIZEOF_MSGPACK + sz) \<le> m" using assms by (simp add: word_le_nat_alt)
qed

lemma deliver_ok:
  assumes mb: "mailbox st a msgs" and t: "tasks st a = Some t" and i: "i = tk_ipc_info t"
    and sz: "unat sz < 65536" "mp_length pack = ucast sz"
    and room: "unat (used_size i) + 8 + unat sz \<le> unat (mail_size i)"
    and src: "source_ok (vm st) s src (unat sz) (ring_mem (vm st) (pgd (tk_mm_info t)) i)"
    and h: "threads st (msg_handler_thread i) = Some hth"
    and rdy: "th_state hth = WAITING_IPC \<and> wake \<Longrightarrow> ready0 st ps \<and> schedulable st (msg_handler_thread i) \<and> msg_handler_thread i \<notin> set ps"
  shows "\<exists>st'. deliver a i pack sz s src wake st = Some (True, st')
     \<and> mailbox st' a (msgs @ [(pack, source_bytes (vm st) s src (unat sz))])
     \<and> (if th_state hth = WAITING_IPC \<and> wake
        then map_option th_state (threads st' (msg_handler_thread i)) = Some READY \<and> ready0 st' (ps @ [msg_handler_thread i])
        else threads st' = threads st)"
proof -
  let ?d = "pgd (tk_mm_info t)" and ?M = "unat (mail_size i)" and ?h = "msg_handler_thread i"
  let ?bs = "stream msgs" and ?new = "msgpack_bytes pack @ source_bytes (vm st) s src (unat sz)"
  from mb t i have m: "ring_ok (vm st) ?d i" "list_all msg_wf msgs" "unat (used_size i) = length ?bs"
    by (auto simp: mailbox_def holds_msgs_def)
  from mb t i obtain r where r: "r < ?M" "read_ptr i = mail i + r" "write_ptr i = mail i + (r + length ?bs) mod ?M"
      "ring_holds (vm st) ?d i r ?bs" by (auto simp: mailbox_def holds_msgs_def)
  define i1 where "i1 = i\<lparr>used_size := used_size i + (SIZEOF_MSGPACK + sz)\<rparr>"
  define st1 where "st1 = st\<lparr>tasks := (tasks st)(a \<mapsto> t\<lparr>tk_ipc_info := i1\<rparr>)\<rparr>"
  have up: "upd_task a (\<lambda>t. t\<lparr>tk_ipc_info := (tk_ipc_info t)\<lparr>
              used_size := used_size (tk_ipc_info t) + (SIZEOF_MSGPACK + sz)\<rparr>\<rparr>) st = Some st1"
    using t i by (simp add: upd_task_def st1_def i1_def)
  have len: "unat (mp_length pack) = unat sz"
    using sz by (simp add: unsigned_ucast_eq take_bit_nat_eq_self)
  define i2 where "i2 = i1\<lparr>write_ptr := mail i + (r + length (?bs @ ?new)) mod ?M\<rparr>"
  have "\<exists>B. write_to_buffer a pack s src st1 = Some (st1\<lparr>vm := (vm st)\<lparr>vm_bytes := B\<rparr>,
        tasks := (tasks st1)(a \<mapsto> t\<lparr>tk_ipc_info := i2\<rparr>)\<rparr>)
     \<and> ring_holds ((vm st)\<lparr>vm_bytes := B\<rparr>) ?d i r (?bs @ ?new)"
    using write_to_buffer_ok [of st1 a "t\<lparr>tk_ipc_info := i1\<rparr>" i1 ?d r ?bs "unat sz" pack s src] m r room src len
    by (simp add: st1_def i1_def i2_def)
  then obtain B where B: "write_to_buffer a pack s src st1 = Some (st1\<lparr>vm := (vm st)\<lparr>vm_bytes := B\<rparr>,
        tasks := (tasks st1)(a \<mapsto> t\<lparr>tk_ipc_info := i2\<rparr>)\<rparr>)"
      "ring_holds ((vm st)\<lparr>vm_bytes := B\<rparr>) ?d i r (?bs @ ?new)" by blast
  define st2 where "st2 = st1\<lparr>vm := (vm st)\<lparr>vm_bytes := B\<rparr>, tasks := (tasks st1)(a \<mapsto> t\<lparr>tk_ipc_info := i2\<rparr>)\<rparr>"
  have mb2: "mailbox st2 a (msgs @ [(pack, source_bytes (vm st) s src (unat sz))])"
  proof -
    have "unat (used_size i2) = length (?bs @ ?new)"
      using room_word(2) [OF room] m(3) by (simp add: i2_def i1_def source_bytes_def)
    moreover have "length (?bs @ ?new) \<le> ?M" using room m(3) by (simp add: source_bytes_def)
    moreover have "msg_wf (pack, source_bytes (vm st) s src (unat sz))" using len by (simp add: msg_wf_def source_bytes_def)
    ultimately show ?thesis
      using r(1,2) m(1,2) B(2)
      by (simp add: mailbox_def holds_msgs_def st2_def st1_def i2_def i1_def)
  qed
  have th2: "threads st2 = threads st" by (simp add: st2_def st1_def)
  have w: "write_to_buffer a pack s src st1 = Some st2" using B(1) by (simp add: st2_def)
  show ?thesis
  proof (cases "th_state hth = WAITING_IPC \<and> wake")
    case True
    then have rd: "ready0 st ps" "schedulable st ?h" "?h \<notin> set ps" using rdy by auto
    have rd2: "ready0 st2 ps" using rd(1) by (simp add: ready0_def st2_def st1_def)
    have sc2: "schedulable st2 ?h"
      using rd(2) t unfolding schedulable_def by (auto simp: st2_def st1_def)
    obtain st3 st4 where k: "upd_thread ?h (\<lambda>t. t\<lparr>th_state := READY\<rparr>) st2 = Some st3" "enqueue_thread ?h st3 = Some st4"
        "ready0 st4 (ps @ [?h])" "map_option th_state (threads st4 ?h) = Some READY" "vm st4 = vm st2" "tasks st4 = tasks st2"
      using wake_ok [OF rd2 sc2 rd(3)] by blast
    have "deliver a i pack sz s src wake st = Some (True, st4)"
      using up w th2 h True k(1,2) by (simp add: deliver_def)
    then show ?thesis using True k(3,4) mailbox_cong [OF mb2 k(5,6)] by simp
  next
    case False
    then have "deliver a i pack sz s src wake st = Some (True, st2)"
      using up w th2 h by (auto simp: deliver_def)
    then show ?thesis unfolding if_not_P [OF False] using mb2 th2 by blast
  qed
qed

lemma recv_msg_ok:
  assumes mb: "mailbox st c ((pack, body) # msgs)" and c: "current_task st = Some c" and t: "tasks st c = Some t"
    and dst: "source_ok (vm st) (pgd (tk_mm_info t)) dst (length body) (ring_mem (vm st) (pgd (tk_mm_info t)) (tk_ipc_info t))"
      "inj_on (phys (vm st) (pgd (tk_mm_info t)) dst) {..<length body}"
  shows "\<exists>st'. recv_msg dst st = Some (pack, st') \<and> mailbox st' c msgs
     \<and> source_bytes (vm st') (pgd (tk_mm_info t)) dst (length body) = body
     \<and> threads st' = threads st \<and> current_thread st' = current_thread st"
proof -
  let ?d = "pgd (tk_mm_info t)" and ?i = "tk_ipc_info t" and ?v = "vm st"
  let ?M = "unat (mail_size ?i)" and ?all = "stream ((pack, body) # msgs)"
  from mb t have m: "ring_ok ?v ?d ?i" "list_all msg_wf ((pack, body) # msgs)" "unat (used_size ?i) = length ?all" "length ?all \<le> ?M"
    by (auto simp: mailbox_def holds_msgs_def)
  from mb t obtain r where r: "r < ?M" "read_ptr ?i = mail ?i + r" "write_ptr ?i = mail ?i + (r + length ?all) mod ?M"
      "ring_holds ?v ?d ?i r ?all" by (auto simp: mailbox_def holds_msgs_def)
  have len: "length body = unat (mp_length pack)" using m(2) by (simp add: msg_wf_def)
  have M: "0 < ?M" using r(1) by simp
  let ?r1 = "(r + 8) mod ?M" and ?r2 = "(r + 8 + length body) mod ?M"
  have h: "ring_holds ?v ?d ?i r (msgpack_bytes pack)" "ring_holds ?v ?d ?i ?r1 body" "ring_holds ?v ?d ?i ?r2 (stream msgs)"
    using r(4) by (simp_all add: ring_holds_append mod_add_left_eq)
  have g: "get_bytes ?d ?i 8 (mail ?i + r) ?v = Some (msgpack_bytes pack, mail ?i + ?r1)"
    using get_bytes_ring [OF m(1) r(1) h(1)] by simp
  have "\<exists>B. copy_out ?d ?i (length body) dst (mail ?i + ?r1) ?v
        = Some (mail ?i + (?r1 + length body) mod ?M, ?v\<lparr>vm_bytes := B\<rparr>)
     \<and> (\<forall>k<length body. B (phys ?v ?d dst k) = body ! k)
     \<and> (\<forall>p. (\<forall>k<length body. p \<noteq> phys ?v ?d dst k) \<longrightarrow> B p = vm_bytes ?v p)"
    by (rule copy_out_ring [OF m(1) _ h(2)]) (use M dst in \<open>auto simp: source_ok_def\<close>)
  then obtain B where B: "copy_out ?d ?i (length body) dst (mail ?i + ?r1) ?v = Some (mail ?i + ?r2, ?v\<lparr>vm_bytes := B\<rparr>)"
      "\<forall>k<length body. B (phys ?v ?d dst k) = body ! k"
      "\<forall>p. (\<forall>k<length body. p \<noteq> phys ?v ?d dst k) \<longrightarrow> B p = vm_bytes ?v p"
    by (auto simp: mod_add_left_eq)
  define i1 where "i1 = ?i\<lparr>read_ptr := mail ?i + ?r2\<rparr>"
  define st1 where "st1 = st\<lparr>vm := ?v\<lparr>vm_bytes := B\<rparr>, tasks := (tasks st)(c \<mapsto> t\<lparr>tk_ipc_info := i1\<rparr>)\<rparr>"
  have rd: "read_from_buffer dst st = Some (pack, st1)"
    using c t r(2) g B(1) len by (simp add: read_from_buffer_def upd_task_def st1_def i1_def Let_def)
  have le: "8 + length body \<le> unat (used_size ?i)" using m(3) by simp
  have ulen: "unat (ucast (mp_length pack) + SIZEOF_MSGPACK :: u64) = 8 + length body"
  proof -
    have "unat (mp_length pack) < 65536" using unsigned_less [of "mp_length pack"] by simp
    then show ?thesis using len by (simp add: SIZEOF_MSGPACK_def unat_word_ariths unsigned_ucast_eq take_bit_nat_eq_self)
  qed
  have enough: "ucast (mp_length pack) + SIZEOF_MSGPACK \<le> used_size ?i" using ulen le by (simp add: word_le_nat_alt)
  define i2 where "i2 = i1\<lparr>used_size := used_size ?i - (ucast (mp_length pack) + SIZEOF_MSGPACK)\<rparr>"
  define st2 where "st2 = st1\<lparr>tasks := (tasks st1)(c \<mapsto> t\<lparr>tk_ipc_info := i2\<rparr>)\<rparr>"
  have "\<not> used_size ?i \<le> 0" using le by auto
  then have run: "recv_msg dst st = Some (pack, st2)"
    using c t rd enough by (simp add: recv_msg_def upd_task_def st1_def st2_def i1_def i2_def)
  have used: "unat (used_size i2) = length (stream msgs)"
    using enough ulen m(3) by (simp add: i2_def i1_def unat_sub)
  have keep: "ring_holds (?v\<lparr>vm_bytes := B\<rparr>) ?d ?i ?r2 (stream msgs)"
    unfolding ring_holds_def
  proof (intro allI impI)
    fix k
    assume k: "k < length (stream msgs)"
    have "phys ?v ?d (mail ?i) ((?r2 + k) mod ?M) \<in> ring_mem ?v ?d ?i" using M by (auto simp: ring_mem_def)
    then have "\<forall>j<length body. phys ?v ?d (mail ?i) ((?r2 + k) mod ?M) \<noteq> phys ?v ?d dst j"
      using dst(1) unfolding source_ok_def by metis
    then have "B (phys ?v ?d (mail ?i) ((?r2 + k) mod ?M)) = vm_bytes ?v (phys ?v ?d (mail ?i) ((?r2 + k) mod ?M))"
      using B(3) by blast
    then show "vm_bytes (?v\<lparr>vm_bytes := B\<rparr>) (phys (?v\<lparr>vm_bytes := B\<rparr>) ?d (mail ?i) ((?r2 + k) mod ?M)) = stream msgs ! k"
      using h(3) k by (simp add: ring_holds_def)
  qed
  have "write_ptr ?i = mail ?i + (?r2 + length (stream msgs)) mod ?M"
    using r(3) by (simp add: mod_add_left_eq add.assoc)
  then have ptrs: "?r2 < ?M \<and> read_ptr i2 = mail ?i + ?r2 \<and> write_ptr i2 = mail ?i + (?r2 + length (stream msgs)) mod ?M
      \<and> ring_holds (?v\<lparr>vm_bytes := B\<rparr>) ?d i2 ?r2 (stream msgs)"
    using keep M by (simp add: i2_def i1_def)
  have i2: "ring_ok (?v\<lparr>vm_bytes := B\<rparr>) ?d i2" "mail_size i2 = mail_size ?i" "mail i2 = mail ?i"
    using m(1) by (simp_all add: i2_def i1_def)
  have wf: "list_all msg_wf msgs" and le2: "length (stream msgs) \<le> ?M" using m(2,4) by simp_all
  have ex: "\<exists>r<?M. read_ptr i2 = mail ?i + r \<and> write_ptr i2 = mail ?i + (r + length (stream msgs)) mod ?M
      \<and> ring_holds (?v\<lparr>vm_bytes := B\<rparr>) ?d i2 r (stream msgs)"
    by (rule exI [of _ ?r2], rule ptrs)
  have "holds_msgs (?v\<lparr>vm_bytes := B\<rparr>) ?d i2 msgs"
    unfolding holds_msgs_def i2(2,3) by (rule conjI [OF i2(1) conjI [OF wf conjI [OF used conjI [OF le2 ex]]]])
  then have "mailbox st2 c msgs" by (simp add: mailbox_def st2_def st1_def)
  moreover have "source_bytes (vm st2) ?d dst (length body) = body"
  proof -
    have v2: "vm st2 = ?v\<lparr>vm_bytes := B\<rparr>" by (simp add: st2_def st1_def)
    show ?thesis unfolding source_bytes_def v2 by (rule nth_equalityI) (use B(2) in auto)
  qed
  moreover have "threads st2 = threads st" "current_thread st2 = current_thread st" by (simp_all add: st2_def st1_def)
  ultimately show ?thesis using run by blast
qed

lemma send_msg_ok:
  assumes "mailbox st a msgs" and "get_task_by_pid dst st = Some a" and "a \<noteq> NULL" and "tasks st a = Some t"
    and "current_task st = Some c" and "tasks st c = Some ct"
    and "allow_pid (tk_ipc_info t) \<in> {pid ct, ANY_TASK}" and "allow_pid (tk_ipc_info t) \<noteq> DUMMY_TASK"
    and "unat sz < 65536" and "unat (used_size (tk_ipc_info t)) + 8 + unat sz \<le> unat (mail_size (tk_ipc_info t))"
    and "source_ok (vm st) (pgd (tk_mm_info ct)) src (unat sz) (ring_mem (vm st) (pgd (tk_mm_info t)) (tk_ipc_info t))"
    and "threads st (msg_handler_thread (tk_ipc_info t)) = Some h"
    and "th_state h = WAITING_IPC \<Longrightarrow> ready0 st ps \<and> schedulable st (msg_handler_thread (tk_ipc_info t))
           \<and> msg_handler_thread (tk_ipc_info t) \<notin> set ps"
  shows "\<exists>st'. send_msg junk no src sz dst st = Some (True, st')
     \<and> mailbox st' a (msgs @ [(\<lparr>mp_reserved = junk, message_no = no_message no, msg_id = no_msg_id no,
           mp_length = ucast sz, mp_source = of_int (pid ct)\<rparr>,
         source_bytes (vm st) (pgd (tk_mm_info ct)) src (unat sz))])
     \<and> (if th_state h = WAITING_IPC
        then map_option th_state (threads st' (msg_handler_thread (tk_ipc_info t))) = Some READY
          \<and> ready0 st' (ps @ [msg_handler_thread (tk_ipc_info t)])
        else threads st' = threads st)"
proof -
  have "\<not> used_size (tk_ipc_info t) + sz + SIZEOF_MSGPACK > mail_size (tk_ipc_info t)"
    using room_word(1) [OF assms(10)] by (simp add: ac_simps not_less)
  then have "send_msg junk no src sz dst st = deliver a (tk_ipc_info t) \<lparr>mp_reserved = junk, message_no = no_message no,
        msg_id = no_msg_id no, mp_length = ucast sz, mp_source = of_int (pid ct)\<rparr> sz (pgd (tk_mm_info ct)) src True st"
    using assms(2-8) by (auto simp: send_msg_def)
  then show ?thesis
    using deliver_ok [OF assms(1,4) refl assms(9) _ assms(10,11,12), of _ True ps] assms(13) by simp
qed

text \<open>
  A message of length 0 has an empty body: the address \<open>src\<close> is not looked at, and nothing of it is in the message.
  The documents say that the address is an immediate value then.
\<close>

lemma send_msg_empty:
  assumes "mailbox st a msgs" and "get_task_by_pid dst st = Some a" and "a \<noteq> NULL" and "tasks st a = Some t"
    and "current_task st = Some c" and "tasks st c = Some ct"
    and "allow_pid (tk_ipc_info t) \<in> {pid ct, ANY_TASK}" and "allow_pid (tk_ipc_info t) \<noteq> DUMMY_TASK"
    and "unat (used_size (tk_ipc_info t)) + 8 \<le> unat (mail_size (tk_ipc_info t))"
    and "threads st (msg_handler_thread (tk_ipc_info t)) = Some h"
    and "th_state h = WAITING_IPC \<Longrightarrow> ready0 st ps \<and> schedulable st (msg_handler_thread (tk_ipc_info t))
           \<and> msg_handler_thread (tk_ipc_info t) \<notin> set ps"
  shows "\<exists>st'. send_msg junk no src 0 dst st = Some (True, st')
     \<and> mailbox st' a (msgs @ [(\<lparr>mp_reserved = junk, message_no = no_message no, msg_id = no_msg_id no,
           mp_length = 0, mp_source = of_int (pid ct)\<rparr>, [])])"
proof -
  have "source_ok (vm st) (pgd (tk_mm_info ct)) src (unat (0::u64)) (ring_mem (vm st) (pgd (tk_mm_info t)) (tk_ipc_info t))"
    by (simp add: source_ok_def)
  then show ?thesis
    using send_msg_ok [OF assms(1-8) _ _ _ assms(10), of 0 src ps junk no] assms(9,11) by (fastforce simp: source_bytes_def)
qed

section \<open>Properties\<close>

text \<open>
  C17. \<^verbatim>\<open>__send_msg\<close> of a body of 1 byte up to less than 64 KiB to a task that allows the sender and has room:
  it returns true, the message with the sender's pid and the bytes of the source buffer is appended to
  the queue of the target's mailbox (through the wrap-around of the ring), and the handler thread is
  readied exactly when it was waiting for a message.  A length of 0, for which the documents ask for the address
  itself as an immediate value, is not part of it: the code appends an empty message then (lemma \<open>send_msg_empty\<close>).
\<close>

theorem send_msg_appends:
  assumes "mailbox st a msgs" and "get_task_by_pid dst st = Some a" and "a \<noteq> NULL" and "tasks st a = Some t"
    and "current_task st = Some c" and "tasks st c = Some ct"
    and "allow_pid (tk_ipc_info t) \<in> {pid ct, ANY_TASK}" and "allow_pid (tk_ipc_info t) \<noteq> DUMMY_TASK"
    and "0 < unat sz" and "unat sz < 65536" and "unat (used_size (tk_ipc_info t)) + 8 + unat sz \<le> unat (mail_size (tk_ipc_info t))"
    and "source_ok (vm st) (pgd (tk_mm_info ct)) src (unat sz) (ring_mem (vm st) (pgd (tk_mm_info t)) (tk_ipc_info t))"
    and "threads st (msg_handler_thread (tk_ipc_info t)) = Some h"
    and "th_state h = WAITING_IPC \<Longrightarrow> ready0 st ps \<and> schedulable st (msg_handler_thread (tk_ipc_info t))
           \<and> msg_handler_thread (tk_ipc_info t) \<notin> set ps"
  shows "\<exists>st'. send_msg junk no src sz dst st = Some (True, st')
     \<and> mailbox st' a (msgs @ [(\<lparr>mp_reserved = junk, message_no = no_message no, msg_id = no_msg_id no,
           mp_length = ucast sz, mp_source = of_int (pid ct)\<rparr>,
         source_bytes (vm st) (pgd (tk_mm_info ct)) src (unat sz))])
     \<and> (if th_state h = WAITING_IPC
        then map_option th_state (threads st' (msg_handler_thread (tk_ipc_info t))) = Some READY
          \<and> ready0 st' (ps @ [msg_handler_thread (tk_ipc_info t)])
        else threads st' = threads st)"
  using send_msg_ok [OF assms(1-8,10-13)] assms(14) by blast

text \<open>
  An example: the task of pid 5 sends to itself; its mailbox has 64 bytes at virtual address 100, and
  the next free byte is four bytes before its end.
\<close>

definition example_ipc_task :: task_struct where
  "example_ipc_task = example_task\<lparr>tk_mm_info := (tk_mm_info example_task)\<lparr>pgd := 4096\<rparr>,
     tk_ipc_info := \<lparr>mail = 100, lastest_msg = NULL, write_ptr = 160, read_ptr = 160, mail_size = 64, used_size = 0,
       allow_pid = ANY_TASK, msg_handler_thread = 1000\<rparr>\<rparr>"

definition example_ipc :: kstate where
  "example_ipc = example_kstate\<lparr>vm := example_mapped, tasks := [4120 \<mapsto> example_ipc_task]\<rparr>"

lemma example_ipc_simps [simp]:
  "tk_ipc_info example_ipc_task = \<lparr>mail = 100, lastest_msg = NULL, write_ptr = 160, read_ptr = 160, mail_size = 64,
     used_size = 0, allow_pid = ANY_TASK, msg_handler_thread = 1000\<rparr>"
  "pgd (tk_mm_info example_ipc_task) = 4096" "pid example_ipc_task = 5"
  "vm example_ipc = example_mapped" "tasks example_ipc = [4120 \<mapsto> example_ipc_task]" "current_task example_ipc = Some 4120"
  "threads example_ipc 1000 = Some (example_thread\<lparr>th_next := 2000\<rparr>)"
  by (simp_all add: example_ipc_task_def example_ipc_def example_task_def current_task_def example_thread_def)

lemma phys_example [simp]: "k < 4096 \<Longrightarrow> get_physical_address (vm_tables example_mapped) 4096 k = 20480 + k"
  by (simp add: get_physical_address_def example_mapped_def entry_base_def zero_entry_def Let_def)

lemma example_ring: "ring_ok example_mapped 4096 (tk_ipc_info example_ipc_task)"
    "ring_mem example_mapped 4096 (tk_ipc_info example_ipc_task) = {20580..<20644}"
proof -
  show "ring_ok example_mapped 4096 (tk_ipc_info example_ipc_task)"
    by (auto simp: ring_ok_def inj_on_def)
  have "(\<lambda>k. 20580 + k) ` {..<64::nat} = {20580..<20644}"
    by (simp add: lessThan_atLeast0 add.commute)
  moreover have "phys example_mapped 4096 100 ` {..<64} = (\<lambda>k. 20580 + k) ` {..<64}" by (rule image_cong) auto
  ultimately show "ring_mem example_mapped 4096 (tk_ipc_info example_ipc_task) = {20580..<20644}"
    by (simp add: ring_mem_def)
qed

lemma example_mailbox: "mailbox example_ipc 4120 []"
  using example_ring by (auto simp: mailbox_def holds_msgs_def ring_holds_def)

lemma example_source: "source_ok example_mapped 4096 1000 4 {20580..<20644}"
  by (auto simp: source_ok_def)

theorem send_msg_appends_witness:
  "\<exists>st'. send_msg 0 \<lparr>no_reserved = 0, no_message = 0, no_msg_id = 7\<rparr> 1000 4 5 example_ipc = Some (True, st')
     \<and> mailbox st' 4120 [(\<lparr>mp_reserved = 0, message_no = 0, msg_id = 7, mp_length = 4, mp_source = 5\<rparr>,
         source_bytes example_mapped 4096 1000 4)]"
proof -
  have "get_task_by_pid 5 example_ipc = Some 4120"
    by (simp add: get_task_by_pid_def find_task.simps example_ipc_def)
  from send_msg_appends [OF example_mailbox this, of example_ipc_task 4120 example_ipc_task 4 1000 _ "[]" 0
      "\<lparr>no_reserved = 0, no_message = 0, no_msg_id = 7\<rparr>"]
  show ?thesis using example_ring example_source
    by (fastforce simp: ANY_TASK_def DUMMY_TASK_def example_thread_def)
qed

text \<open>The same mailbox with a message whose body is the bytes 11 and 22.\<close>

definition example_pack :: msgpack where
  "example_pack = \<lparr>mp_reserved = 0, message_no = 0, msg_id = 0, mp_length = 2, mp_source = 0\<rparr>"

definition example_recv_task :: task_struct where
  "example_recv_task = example_ipc_task\<lparr>tk_ipc_info := (tk_ipc_info example_ipc_task)\<lparr>write_ptr := 106, used_size := 10\<rparr>\<rparr>"

definition example_recv :: kstate where
  "example_recv = example_ipc\<lparr>tasks := [4120 \<mapsto> example_recv_task],
     vm := example_mapped\<lparr>vm_bytes := (\<lambda>p. if p = 20580 then 2 else if p = 20584 then 11 else if p = 20585 then 22 else 0)\<rparr>\<rparr>"

lemma example_recv_simps [simp]:
  "current_task example_recv = Some 4120" "tasks example_recv 4120 = Some example_recv_task"
  "pgd (tk_mm_info example_recv_task) = 4096" "vm_tables (vm example_recv) = vm_tables example_mapped"
  by (simp_all add: example_recv_def example_ipc_def current_task_def example_recv_task_def example_thread_def)

lemma example_recv_ring:
  "ring_ok (vm example_recv) 4096 (tk_ipc_info example_recv_task)"
  "ring_mem (vm example_recv) 4096 (tk_ipc_info example_recv_task) = {20580..<20644}"
  using example_ring by (simp_all add: ring_ok_def ring_mem_def example_recv_task_def)

lemma all_less_10: "(\<forall>k<10. P k) \<longleftrightarrow> P 0 \<and> P 1 \<and> P 2 \<and> P 3 \<and> P 4 \<and> P 5 \<and> P 6 \<and> P 7 \<and> P 8 \<and> P (9::nat)"
  by (simp add: eval_nat_numeral all_less_Suc_split)

lemma example_recv_mailbox: "mailbox example_recv 4120 [(example_pack, [11, 22])]"
proof -
  have b: "stream [(example_pack, [11, 22])] = [0, 0, 0, 0, 2, 0, 0, 0, 11, 22]"
  proof -
    have "le_bytes 2 0 = [0, 0]" "le_bytes 2 2 = [2, 0]" by (simp_all add: numeral_2_eq_2)
    then show ?thesis by (simp add: example_pack_def msgpack_bytes_def)
  qed
  have "ring_holds (vm example_recv) 4096 (tk_ipc_info example_recv_task) 60 [0, 0, 0, 0, 2, 0, 0, 0, 11, 22]"
  proof -
    have n: "length [0::u8, 0, 0, 0, 2, 0, 0, 0, 11, 22] = 10" by simp
    show ?thesis unfolding ring_holds_def n all_less_10
      by (simp add: example_recv_task_def) (simp add: example_recv_def)
  qed
  moreover have "msg_wf (example_pack, [11, 22])" by (simp add: msg_wf_def example_pack_def)
  ultimately show ?thesis
    using example_recv_ring(1) unfolding mailbox_def holds_msgs_def b
    by (intro exI [of _ example_recv_task] conjI exI [of _ 60]) (simp_all add: example_recv_task_def)
qed

text \<open>
  C18. \<^verbatim>\<open>__recv_msg\<close> with a message in the mailbox: it returns the header of the oldest one, stores its
  body in the destination buffer (mapped outside the mailbox), and leaves the others in order.
\<close>

theorem recv_msg_takes_first:
  assumes "mailbox st c ((pack, body) # msgs)" and "current_task st = Some c" and "tasks st c = Some t"
    and "source_ok (vm st) (pgd (tk_mm_info t)) dst (length body) (ring_mem (vm st) (pgd (tk_mm_info t)) (tk_ipc_info t))"
    and "inj_on (phys (vm st) (pgd (tk_mm_info t)) dst) {..<length body}"
  shows "\<exists>st'. recv_msg dst st = Some (pack, st') \<and> mailbox st' c msgs
     \<and> source_bytes (vm st') (pgd (tk_mm_info t)) dst (length body) = body
     \<and> threads st' = threads st \<and> current_thread st' = current_thread st"
  by (rule recv_msg_ok [OF assms])

theorem recv_msg_takes_first_witness:
  "\<exists>st'. recv_msg 2000 example_recv = Some (example_pack, st') \<and> mailbox st' 4120 []
     \<and> source_bytes (vm st') 4096 2000 2 = [11, 22]"
proof -
  have "inj_on (phys (vm example_recv) 4096 2000) {..<2}" by (auto simp: inj_on_def)
  moreover have "source_ok (vm example_recv) 4096 2000 2 (ring_mem (vm example_recv) 4096 (tk_ipc_info example_recv_task))"
    using example_recv_ring(2) by (auto simp: source_ok_def)
  moreover have "length [11, 22 :: u8] = 2" by simp
  ultimately show ?thesis
    using recv_msg_takes_first [OF example_recv_mailbox example_recv_simps(1,2), of 2000]
    unfolding example_recv_simps(3) by metis
qed

text \<open>A send that is refused changes nothing.\<close>

lemma send_msg_refused:
  assumes "get_task_by_pid dst st = Some a" and "a \<noteq> NULL \<Longrightarrow> tasks st a = Some t \<and> current_task st = Some c \<and> tasks st c = Some ct"
    and "a = NULL \<or> used_size (tk_ipc_info t) + sz + SIZEOF_MSGPACK > mail_size (tk_ipc_info t)
      \<or> allow_pid (tk_ipc_info t) \<notin> {pid ct, ANY_TASK}"
  shows "send_msg junk no src sz dst st = Some (False, st)"
  using assms by (auto simp: send_msg_def)

lemma set_mailbuffer_empty:
  assumes "current_task st = Some c" and "tasks st c = Some t"
    and "ring_ok (vm st) (pgd (tk_mm_info t)) ((tk_ipc_info t)\<lparr>mail := buffer, mail_size := sz\<rparr>)"
  shows "\<exists>st'. set_mailbuffer buffer sz st = Some st' \<and> mailbox st' c []"
proof -
  let ?i = "(tk_ipc_info t)\<lparr>mail := buffer, write_ptr := buffer, read_ptr := buffer, mail_size := sz, used_size := 0,
     lastest_msg := NULL, msg_handler_thread := current_thread st\<rparr>"
  let ?st = "st\<lparr>tasks := (tasks st)(c \<mapsto> t\<lparr>tk_ipc_info := ?i\<rparr>)\<rparr>"
  have run: "set_mailbuffer buffer sz st = Some ?st"
    using assms(1,2) by (simp add: set_mailbuffer_def upd_ipc_def upd_task_def)
  have "ring_ok (vm st) (pgd (tk_mm_info t)) ?i" using assms(3) by (simp add: ring_ok_def)
  then have "mailbox ?st c []" by (auto simp: mailbox_def holds_msgs_def ring_holds_def ring_ok_def)
  then show ?thesis using run by blast
qed

lemma clear_mail_empty:
  assumes "mailbox st c msgs" and "current_task st = Some c"
  shows "\<exists>st'. clear_mail st = Some st' \<and> mailbox st' c []"
proof -
  obtain t where t: "tasks st c = Some t" "ring_ok (vm st) (pgd (tk_mm_info t)) (tk_ipc_info t)"
    using assms(1) by (auto simp: mailbox_def holds_msgs_def)
  let ?i = "(tk_ipc_info t)\<lparr>write_ptr := mail (tk_ipc_info t), read_ptr := mail (tk_ipc_info t), used_size := 0, lastest_msg := NULL\<rparr>"
  have "clear_mail st = Some (st\<lparr>tasks := (tasks st)(c \<mapsto> t\<lparr>tk_ipc_info := ?i\<rparr>)\<rparr>)"
    using assms(2) t(1) by (simp add: clear_mail_def upd_ipc_def upd_task_def)
  moreover have "mailbox (st\<lparr>tasks := (tasks st)(c \<mapsto> t\<lparr>tk_ipc_info := ?i\<rparr>)\<rparr>) c []"
    using t(2) by (auto simp: mailbox_def holds_msgs_def ring_holds_def ring_ok_def)
  ultimately show ?thesis by blast
qed

text \<open>
  A body of 64 KiB or more is accepted when the mailbox has room for it, but the header's length field
  has 16 bits: only \<open>unat sz mod 65536\<close> bytes are written after the header, while the mailbox accounts
  for all of them.  From then on the mailbox's count and its pointers disagree.
\<close>

theorem send_msg_truncates:
  assumes "mailbox st a msgs" and "get_task_by_pid dst st = Some a" and "a \<noteq> NULL" and "tasks st a = Some t"
    and "current_task st = Some c" and "tasks st c = Some ct" and "allow_pid (tk_ipc_info t) \<in> {pid ct, ANY_TASK}"
    and "unat (used_size (tk_ipc_info t)) + 8 + unat sz \<le> unat (mail_size (tk_ipc_info t))"
    and "source_ok (vm st) (pgd (tk_mm_info ct)) src (unat sz mod 65536) (ring_mem (vm st) (pgd (tk_mm_info t)) (tk_ipc_info t))"
    and "threads st (msg_handler_thread (tk_ipc_info t)) = Some h" and "th_state h \<noteq> WAITING_IPC"
  shows "\<exists>st' t'. send_msg junk no src sz dst st = Some (True, st') \<and> tasks st' a = Some t'
     \<and> unat (used_size (tk_ipc_info t')) = unat (used_size (tk_ipc_info t)) + 8 + unat sz
     \<and> read_ptr (tk_ipc_info t') = read_ptr (tk_ipc_info t)
     \<and> write_ptr (tk_ipc_info t') = mail (tk_ipc_info t)
         + (read_ptr (tk_ipc_info t) - mail (tk_ipc_info t) + unat (used_size (tk_ipc_info t)) + 8 + unat sz mod 65536) mod unat (mail_size (tk_ipc_info t))"
proof -
  define i where "i = tk_ipc_info t"
  let ?d = "pgd (tk_mm_info t)" and ?M = "unat (mail_size i)" and ?bs = "stream msgs" and ?n = "unat sz mod 65536"
  define pack where "pack = \<lparr>mp_reserved = junk, message_no = no_message no, msg_id = no_msg_id no,
                     mp_length = ucast sz, mp_source = of_int (pid ct) :: u16\<rparr>"
  have room: "unat (used_size i) + 8 + unat sz \<le> ?M" using assms(8) by (simp add: i_def)
  have ok: "ring_ok (vm st) ?d i" and ul: "unat (used_size i) = length ?bs"
    using assms(1,4) by (auto simp: mailbox_def holds_msgs_def i_def)
  obtain r where r: "r < ?M" "read_ptr i = mail i + r" "write_ptr i = mail i + (r + length ?bs) mod ?M"
      "ring_holds (vm st) ?d i r ?bs" using assms(1,4) by (auto simp: mailbox_def holds_msgs_def i_def)
  define i1 where "i1 = i\<lparr>used_size := used_size i + (SIZEOF_MSGPACK + sz)\<rparr>"
  define st1 where "st1 = st\<lparr>tasks := (tasks st)(a \<mapsto> t\<lparr>tk_ipc_info := i1\<rparr>)\<rparr>"
  have up: "upd_task a (\<lambda>t. t\<lparr>tk_ipc_info := (tk_ipc_info t)\<lparr>
              used_size := used_size (tk_ipc_info t) + (SIZEOF_MSGPACK + sz)\<rparr>\<rparr>) st = Some st1"
    using assms(4) by (simp add: upd_task_def st1_def i1_def i_def)
  have len: "?n = unat (mp_length pack)" by (simp add: pack_def unsigned_ucast_eq take_bit_eq_mod)
  have nle: "?n \<le> unat sz" by simp
  have room': "length ?bs + (8 + ?n) \<le> unat (mail_size i1)" using room ul nle by (simp add: i1_def)
  have src: "source_ok (vm st1) (pgd (tk_mm_info ct)) src ?n (ring_mem (vm st1) ?d i1)"
    using assms(9) by (simp add: st1_def i1_def i_def)
  have w1: "write_ptr i1 = mail i1 + (r + length ?bs) mod unat (mail_size i1)" "ring_ok (vm st1) ?d i1"
    "r < unat (mail_size i1)" "ring_holds (vm st1) ?d i1 r ?bs" using r ok by (simp_all add: i1_def st1_def)
  let ?t1 = "t\<lparr>tk_ipc_info := i1\<rparr>"
  have t1: "tasks st1 a = Some ?t1" "tk_ipc_info ?t1 = i1" "pgd (tk_mm_info ?t1) = ?d" by (simp_all add: st1_def)
  obtain B where B: "write_to_buffer a pack (pgd (tk_mm_info ct)) src st1 = Some (st1\<lparr>vm := (vm st1)\<lparr>vm_bytes := B\<rparr>,
      tasks := (tasks st1)(a \<mapsto> ?t1\<lparr>tk_ipc_info := i1\<lparr>write_ptr := mail i1 + (r + length (?bs @ msgpack_bytes pack
         @ source_bytes (vm st1) (pgd (tk_mm_info ct)) src ?n)) mod unat (mail_size i1)\<rparr>\<rparr>)\<rparr>)"
    using write_to_buffer_ok [OF t1 w1(2,3,1,4) len room' src] by blast
  let ?w = "mail i + (r + length ?bs + 8 + ?n) mod ?M"
  let ?i2 = "i1\<lparr>write_ptr := ?w\<rparr>"
  define st2 where "st2 = st1\<lparr>vm := (vm st1)\<lparr>vm_bytes := B\<rparr>, tasks := (tasks st1)(a \<mapsto> t\<lparr>tk_ipc_info := ?i2\<rparr>)\<rparr>"
  have w: "write_to_buffer a pack (pgd (tk_mm_info ct)) src st1 = Some st2"
    using B by (simp add: st2_def source_bytes_def i1_def add.assoc)
  have "\<not> used_size i + sz + SIZEOF_MSGPACK > mail_size i" using room_word(1) [OF room] by (simp add: ac_simps not_less)
  moreover have "deliver a i pack sz (pgd (tk_mm_info ct)) src (allow_pid i \<noteq> DUMMY_TASK) st = Some (True, st2)"
    using up w assms(10,11) by (simp add: deliver_def i_def st2_def st1_def)
  ultimately have "send_msg junk no src sz dst st = Some (True, st2)"
    using assms(2-7) by (auto simp: send_msg_def i_def pack_def)
  moreover have "tasks st2 a = Some (t\<lparr>tk_ipc_info := ?i2\<rparr>)" by (simp add: st2_def)
  moreover have "unat (used_size ?i2) = unat (used_size i) + 8 + unat sz" using room_word(2) [OF room] by (simp add: i1_def)
  moreover have "read_ptr ?i2 = mail i + r" using r(2) by (simp add: i1_def)
  ultimately show ?thesis using ul r(2)
    by (intro exI [of _ st2] exI [of _ "t\<lparr>tk_ipc_info := ?i2\<rparr>"]) (simp add: i_def)
qed

text \<open>For the instance: the first 2 MiB are mapped, and the task has a mailbox of 70000 bytes there.\<close>

definition example_big :: vmem where
  "example_big = example_mapped\<lparr>vm_tables := (\<lambda>t i.
     if t \<in> {4096, 8192, 12288} \<and> i = 0 then zero_entry\<lparr>pe_p := True, pe_address := t div 4096 + 1\<rparr>
     else if t = 16384 then zero_entry\<lparr>pe_p := True, pe_address := i + 5\<rparr> else zero_entry)\<rparr>"

definition example_big_task :: task_struct where
  "example_big_task = example_ipc_task\<lparr>tk_ipc_info := (tk_ipc_info example_ipc_task)\<lparr>mail_size := 70000, read_ptr := 100,
     write_ptr := 100\<rparr>\<rparr>"

definition example_big_state :: kstate where
  "example_big_state = example_ipc\<lparr>tasks := [4120 \<mapsto> example_big_task], vm := example_big\<rparr>"

lemma phys_big: "v < 2097152 \<Longrightarrow> get_physical_address (vm_tables example_big) 4096 v = v + 20480"
proof -
  assume v: "v < 2097152"
  then have "v div 4096 < 512" by simp
  then have i: "v div 4096 mod 512 = v div 4096" "v div 4096 div 512 = 0" by simp_all
  have e: "v div 4096 * 4096 + v mod 4096 = v" by simp
  have "(v div 4096 + 5) * 4096 = v div 4096 * 4096 + 20480" by simp
  moreover have "v div 4096 * 4096 + 20480 < 549755813888" using v e by linarith
  ultimately have "(v div 4096 + 5) * 4096 mod 2 ^ 39 + v mod 4096 = v + 20480" using e by simp
  then show ?thesis using i by (simp add: get_physical_address_def example_big_def entry_base_def zero_entry_def Let_def)
qed

lemma example_big_simps [simp]:
  "tasks example_big_state = [4120 \<mapsto> example_big_task]" "vm example_big_state = example_big"
  "current_task example_big_state = Some 4120" "pgd (tk_mm_info example_big_task) = 4096" "pid example_big_task = 5"
  "tk_ipc_info example_big_task = \<lparr>mail = 100, lastest_msg = NULL, write_ptr = 100, read_ptr = 100, mail_size = 70000,
     used_size = 0, allow_pid = ANY_TASK, msg_handler_thread = 1000\<rparr>"
  "threads example_big_state 1000 = Some (example_thread\<lparr>th_next := 2000\<rparr>)"
  by (simp_all add: example_big_state_def example_ipc_def current_task_def example_big_task_def example_thread_def)

lemma example_big_mailbox: "mailbox example_big_state 4120 []"
proof -
  have "ring_ok example_big 4096 (tk_ipc_info example_big_task)"
    by (auto simp: ring_ok_def inj_on_def phys_big)
  then show ?thesis by (auto simp: mailbox_def holds_msgs_def ring_holds_def)
qed

theorem send_msg_truncates_witness:
  "\<exists>st' t'. send_msg 0 \<lparr>no_reserved = 0, no_message = 0, no_msg_id = 7\<rparr> 1000 65536 5 example_big_state = Some (True, st')
     \<and> tasks st' 4120 = Some t' \<and> unat (used_size (tk_ipc_info t')) = 65544 \<and> write_ptr (tk_ipc_info t') = 108
     \<and> read_ptr (tk_ipc_info t') = 100"
proof -
  have p: "get_task_by_pid 5 example_big_state = Some 4120"
    by (simp add: get_task_by_pid_def find_task.simps example_big_state_def example_ipc_def)
  show ?thesis
    using send_msg_truncates [OF example_big_mailbox p, of example_big_task 4120 example_big_task 65536 1000 _ 0
        "\<lparr>no_reserved = 0, no_message = 0, no_msg_id = 7\<rparr>"]
    by (fastforce simp: source_ok_def example_thread_def)
qed

end
