(* ===== verification/Intr.thy ===== *)
theory Intr
  imports Ipc Signal
begin

text \<open>
  Interrupts: the interrupt controller and the descriptor tables of \<^verbatim>\<open>kernel/intterup/init_int.c\<close> and
  \<^verbatim>\<open>kernel/kernel.c\<close>, the common interrupt handler of \<^verbatim>\<open>kernel/intterup/irq_handler.c\<close> and the system call
  entry of \<^verbatim>\<open>kernel/syscall/syscall.c\<close>.  The lemmas show that a gate holds the address of its handler,
  that the handler masks exactly its own line while it runs, and what the dispatcher does with each number.
\<close>

section \<open>Ports\<close>

text \<open>
  The writes to ports, oldest first, are the state; what a read returns is the behaviour of the device,
  a function of that history.
\<close>

type_synonym port = u16
type_synonym history = "(port \<times> u8) list"
type_synonym device = "history \<Rightarrow> port \<Rightarrow> u8"

definition M_PIC_CONTROL :: port where "M_PIC_CONTROL = 0x20"
definition M_PIC_DATA :: port where "M_PIC_DATA = 0x21"
definition S_PIC_CONTROL :: port where "S_PIC_CONTROL = 0xA0"
definition S_PIC_DATA :: port where "S_PIC_DATA = 0xA1"
definition INT_VECTOR_IRQ0 :: u8 where "INT_VECTOR_IRQ0 = 0x20"
definition INT_VECTOR_IRQ8 :: u8 where "INT_VECTOR_IRQ8 = 0x28"
definition PIC_EOI :: u8 where "PIC_EOI = 0x20"

lemmas pic_defs = M_PIC_CONTROL_def M_PIC_DATA_def S_PIC_CONTROL_def S_PIC_DATA_def
  INT_VECTOR_IRQ0_def INT_VECTOR_IRQ8_def PIC_EOI_def

definition outb :: "port \<Rightarrow> u8 \<Rightarrow> history \<Rightarrow> history" where
  "outb p v h = h @ [(p, v)]"

text \<open>
  What the 8259 documents of one controller.  A byte at the control port with bit 4 set is ICW1: it clears the mask
  register and announces the words that follow at the data port, ICW2, ICW3 unless bit 1 of ICW1 is set, and ICW4 if
  bit 0 is set; these are not masks.  Later bytes at the data port are OCW1, the mask.  Bytes at the control port
  without bit 4 are OCW2 and OCW3 and leave the mask alone.  Before the first ICW1 nothing is said (\<open>None\<close>), nor
  after the poll command of OCW3 (bits 3 and 2), because it changes what the next read returns.
\<close>

record chip =
  mask_reg :: u8
  words_due :: nat

definition chip_step :: "port \<Rightarrow> port \<Rightarrow> chip option \<Rightarrow> port \<times> u8 \<Rightarrow> chip option" where
  "chip_step control data c = (\<lambda>(p, v).
     if p = control then
       if bit v 4 then Some \<lparr>mask_reg = 0, words_due = 1 + (if bit v 1 then 0 else 1) + (if bit v 0 then 1 else 0)\<rparr>
       else if bit v 3 \<and> bit v 2 then None
       else c
     else if p = data then
       map_option (\<lambda>c. if 0 < words_due c then c\<lparr>words_due := words_due c - 1\<rparr> else c\<lparr>mask_reg := v\<rparr>) c
     else c)"

definition chip_after :: "port \<Rightarrow> port \<Rightarrow> history \<Rightarrow> chip option" where
  "chip_after control data h = foldl (chip_step control data) None h"

text \<open>
  \<open>ready h\<close>: both controllers have got all their initialisation words.  \<open>masks_readable dev\<close>: from then on the data
  port of a controller reads as its mask register.
\<close>

definition has_mask :: "chip option \<Rightarrow> u8 \<Rightarrow> bool" where
  "has_mask c m \<longleftrightarrow> c = Some \<lparr>mask_reg = m, words_due = 0\<rparr>"

definition ready :: "history \<Rightarrow> bool" where
  "ready h \<longleftrightarrow> (\<exists>m. has_mask (chip_after M_PIC_CONTROL M_PIC_DATA h) m) \<and> (\<exists>m. has_mask (chip_after S_PIC_CONTROL S_PIC_DATA h) m)"

definition masks_readable :: "device \<Rightarrow> bool" where
  "masks_readable dev \<longleftrightarrow> (\<forall>h m. (has_mask (chip_after M_PIC_CONTROL M_PIC_DATA h) m \<longrightarrow> dev h M_PIC_DATA = m)
     \<and> (has_mask (chip_after S_PIC_CONTROL S_PIC_DATA h) m \<longrightarrow> dev h S_PIC_DATA = m))"

section \<open>The interrupt controller\<close>

definition init_pic :: "history \<Rightarrow> history" where
  "init_pic h =
     (let h = outb M_PIC_CONTROL 0x11 h;
          h = outb S_PIC_CONTROL 0x11 h;
          h = outb M_PIC_DATA INT_VECTOR_IRQ0 h;
          h = outb S_PIC_DATA INT_VECTOR_IRQ8 h;
          h = outb M_PIC_DATA 0x4 h;
          h = outb S_PIC_DATA 0x2 h;
          h = outb M_PIC_DATA 0x1 h;
          h = outb S_PIC_DATA 0x1 h;
          h = outb M_PIC_DATA 0xFF h
      in outb S_PIC_DATA 0xFF h)"

definition disable_irq :: "device \<Rightarrow> nat \<Rightarrow> history \<Rightarrow> history" where
  "disable_irq dev irq h =
     (if irq < 8 then outb M_PIC_DATA (dev h M_PIC_DATA OR push_bit irq 1) h
      else outb S_PIC_DATA (dev h S_PIC_DATA OR push_bit (irq - 8) 1) h)"

definition enable_irq :: "device \<Rightarrow> nat \<Rightarrow> history \<Rightarrow> history" where
  "enable_irq dev irq h =
     (if irq < 8 then outb M_PIC_DATA (dev h M_PIC_DATA AND NOT (push_bit irq 1)) h
      else outb S_PIC_DATA (dev h S_PIC_DATA AND NOT (push_bit (irq - 8) 1)) h)"

definition send_eoi :: "nat \<Rightarrow> history \<Rightarrow> history" where
  "send_eoi irq h =
     (let h = (if irq > 8 then outb S_PIC_CONTROL PIC_EOI h else h) in outb M_PIC_CONTROL PIC_EOI h)"

text \<open>Whether line \<open>irq\<close> is masked, as the controller would say.\<close>

definition masked :: "device \<Rightarrow> history \<Rightarrow> nat \<Rightarrow> bool" where
  "masked dev h irq = (if irq < 8 then bit (dev h M_PIC_DATA) irq else bit (dev h S_PIC_DATA) (irq - 8))"

section \<open>Descriptors\<close>

record idt_bits =
  gate_ist :: nat
  gate_zero :: nat
  gate_type :: nat
  gate_dpl :: nat
  gate_p :: bool

record gate_desc =
  offset_low :: u16
  gate_segment :: u16
  gate_bits :: idt_bits
  offset_middle :: u16
  offset_high :: u32
  gate_reserved :: u32

definition GATE_INTERRUPT :: nat where
  "GATE_INTERRUPT = 0xE"

definition IDT_SIZE :: nat where
  "IDT_SIZE = 128"

text \<open>
  \<^verbatim>\<open>init_idt_desc_ist\<close> and \<^verbatim>\<open>init_idt_desc\<close>.  The bit-fields keep 3, 5, 5 and 2 bits; \<open>cs\<close> is the code
  segment register.  A vector outside the table is \<open>None\<close>.
\<close>

type_synonym idt = "nat \<Rightarrow> gate_desc"

definition gate_of :: "u16 \<Rightarrow> u8 \<Rightarrow> u64 \<Rightarrow> u8 \<Rightarrow> u8 \<Rightarrow> gate_desc" where
  "gate_of cs type base privilege ist =
     \<lparr>offset_low = ucast base, gate_segment = cs,
      gate_bits = \<lparr>gate_ist = unat ist mod 2 ^ 3, gate_zero = 0, gate_type = unat type mod 2 ^ 5,
                   gate_dpl = unat privilege mod 2 ^ 2, gate_p = True\<rparr>,
      offset_middle = ucast (drop_bit 16 base), offset_high = ucast (drop_bit 32 base), gate_reserved = 0\<rparr>"

definition init_idt_desc_ist :: "u16 \<Rightarrow> u8 \<Rightarrow> u8 \<Rightarrow> u64 \<Rightarrow> u8 \<Rightarrow> u8 \<Rightarrow> idt \<Rightarrow> idt option" where
  "init_idt_desc_ist cs vector type handler privilege ist t =
     (if unat vector < IDT_SIZE then Some (t(unat vector := gate_of cs type handler privilege ist)) else None)"

definition init_idt_desc :: "u16 \<Rightarrow> u8 \<Rightarrow> u8 \<Rightarrow> u64 \<Rightarrow> u8 \<Rightarrow> idt \<Rightarrow> idt option" where
  "init_idt_desc cs vector type handler privilege t =
     (if unat vector < IDT_SIZE then Some (t(unat vector := gate_of cs type handler privilege 0)) else None)"

text \<open>
  \<^verbatim>\<open>__init_descs\<close>, with the addresses of the assembly entry points as arguments: \<open>exc i\<close> of the exception
  handler \<open>i\<close>, \<open>irq i\<close> of \<^verbatim>\<open>irq<i>_handler\<close> and \<open>sys\<close> of \<^verbatim>\<open>syscall_handler\<close>.
\<close>

primrec init_exceptions :: "u16 \<Rightarrow> (nat \<Rightarrow> u64) \<Rightarrow> nat list \<Rightarrow> idt \<Rightarrow> idt option" where
  "init_exceptions cs exc [] t = Some t"
| "init_exceptions cs exc (i # is) t = do {
     t \<leftarrow> init_idt_desc cs (of_nat i) (of_nat GATE_INTERRUPT) (exc i) 0 t;
     init_exceptions cs exc is t
   }"

primrec init_irqs :: "u16 \<Rightarrow> (nat \<Rightarrow> u64) \<Rightarrow> nat list \<Rightarrow> idt \<Rightarrow> idt option" where
  "init_irqs cs irq [] t = Some t"
| "init_irqs cs irq (i # is) t = do {
     t \<leftarrow> init_idt_desc_ist cs (0x20 + of_nat i) (of_nat GATE_INTERRUPT) (irq i) 0 1 t;
     init_irqs cs irq is t
   }"

definition init_descs :: "u16 \<Rightarrow> (nat \<Rightarrow> u64) \<Rightarrow> (nat \<Rightarrow> u64) \<Rightarrow> u64 \<Rightarrow> idt \<Rightarrow> idt option" where
  "init_descs cs exc irq sys t = do {
     t \<leftarrow> init_exceptions cs exc [0..<32] t;
     t \<leftarrow> init_irqs cs irq [0..<16] t;
     init_idt_desc_ist cs 0x40 (of_nat GATE_INTERRUPT) sys 3 1 t
   }"

text \<open>The segment descriptors of \<^verbatim>\<open>GDT_ENTRY\<close> and the system descriptor of \<^verbatim>\<open>set_tss\<close>.\<close>

record desc_struct =
  limit0 :: nat
  base0 :: nat
  base1 :: nat
  desc_type :: nat
  desc_s :: bool
  desc_dpl :: nat
  desc_p :: bool
  limit1 :: nat
  desc_avl :: bool
  desc_l :: bool
  desc_d :: bool
  desc_g :: bool
  base2 :: nat

definition GDT_ENTRY :: "nat \<Rightarrow> nat \<Rightarrow> nat \<Rightarrow> desc_struct" where
  "GDT_ENTRY flags base limit =
     \<lparr>limit0 = limit mod 2 ^ 16, base0 = base mod 2 ^ 16, base1 = base div 2 ^ 16 mod 2 ^ 8,
      desc_type = flags mod 16, desc_s = bit flags 4, desc_dpl = flags div 2 ^ 5 mod 4, desc_p = bit flags 7,
      limit1 = limit div 2 ^ 16 mod 16, desc_avl = bit flags 12, desc_l = bit flags 13, desc_d = bit flags 14,
      desc_g = bit flags 15, base2 = base div 2 ^ 24 mod 2 ^ 8\<rparr>"

record tss_struct =
  tss_limit0 :: nat
  tss_base0 :: nat
  tss_base1 :: nat
  tss_type :: nat
  tss_dpl :: nat
  tss_p :: bool
  tss_limit1 :: nat
  tss_zero0 :: nat
  tss_g :: bool
  tss_base2 :: nat
  tss_base3 :: nat
  tss_zero1 :: nat

definition set_tss :: "u64 \<Rightarrow> u32 \<Rightarrow> u8 \<Rightarrow> tss_struct" where
  "set_tss base limit type =
     \<lparr>tss_limit0 = unat limit mod 2 ^ 16, tss_base0 = unat base mod 2 ^ 16, tss_base1 = unat base div 2 ^ 16 mod 2 ^ 8,
      tss_type = unat type mod 2 ^ 5, tss_dpl = 0, tss_p = True, tss_limit1 = unat limit div 2 ^ 16 mod 16, tss_zero0 = 0,
      tss_g = False, tss_base2 = unat base div 2 ^ 24 mod 2 ^ 8, tss_base3 = unat base div 2 ^ 32 mod 2 ^ 32,
      tss_zero1 = 0\<rparr>"

text \<open>The table that \<^verbatim>\<open>init_gdt\<close> loads: the entries 0 and 3 to 8, and the system descriptor from entry 1 on.\<close>

definition init_gdt :: "u64 \<Rightarrow> (nat \<rightharpoonup> desc_struct) \<times> tss_struct" where
  "init_gdt tss = ([0 \<mapsto> GDT_ENTRY 0 0 0, 7 \<mapsto> GDT_ENTRY 0xA09A 0 0xFFFFF, 5 \<mapsto> GDT_ENTRY 0xA0BA 0 0xFFFFF,
     3 \<mapsto> GDT_ENTRY 0xA0FA 0 0xFFFFF, 8 \<mapsto> GDT_ENTRY 0xA092 0 0xFFFFF, 6 \<mapsto> GDT_ENTRY 0xA0B2 0 0xFFFFF,
     4 \<mapsto> GDT_ENTRY 0xA0F2 0 0xFFFFF], set_tss tss 104 9)"


section \<open>The common interrupt handler\<close>

text \<open>
  The machine: the state of the kernel, and the writes to ports.  A handler gets the line, the interrupted
  registers and the flag; the table has an entry \<open>None\<close> where the code has \<^verbatim>\<open>NULL\<close>, and only the
  lines 0 to 15 exist.
\<close>

type_synonym irq_handler = "nat \<Rightarrow> intterup_args \<Rightarrow> bool \<Rightarrow> kstate \<Rightarrow> (intterup_args \<times> kstate) option"
type_synonym irq_handlers = "nat \<rightharpoonup> irq_handler"

definition register_irq_handler :: "nat \<Rightarrow> irq_handler \<Rightarrow> irq_handlers \<Rightarrow> irq_handlers" where
  "register_irq_handler irq handler hs = hs(irq \<mapsto> handler)"

definition general_irq_handler ::
  "device \<Rightarrow> irq_handlers \<Rightarrow> nat \<Rightarrow> intterup_args \<Rightarrow> kstate \<times> history \<Rightarrow> (intterup_args \<times> kstate \<times> history) option" where
  "general_irq_handler dev hs irq args = (\<lambda>(st, h).
     if 16 \<le> irq then None
     else do {
       let flag = entered_handler st;
       let st = (if \<not> flag then st\<lparr>entered_handler := True\<rparr> else st);
       let h = disable_irq dev irq h;
       let h = send_eoi irq h;
       (args, st) \<leftarrow> (case hs irq of None \<Rightarrow> Some (args, st) | Some handler \<Rightarrow> handler irq args flag st);
       let h = enable_irq dev irq h;
       let st = (if \<not> flag then st\<lparr>entered_handler := False\<rparr> else st);
       Some (args, st, h)
     })"

text \<open>
  The table that \<^verbatim>\<open>initialize\<close> of \<^verbatim>\<open>kernel.c\<close> builds, and its last loop that opens all lines; \<open>junk\<close> and \<open>slot\<close> are
  the uninitialised byte and the stack slot of \<^verbatim>\<open>normal_irq_handler\<close>.
\<close>

primrec register_normal :: "u8 \<Rightarrow> nat \<Rightarrow> nat list \<Rightarrow> irq_handlers \<Rightarrow> irq_handlers" where
  "register_normal junk slot [] hs = hs"
| "register_normal junk slot (i # is) hs = register_normal junk slot is
     (register_irq_handler i (\<lambda>irq args flag st. map_option (Pair args) (normal_irq_handler junk slot irq st)) hs)"

definition kernel_handlers :: "u8 \<Rightarrow> nat \<Rightarrow> irq_handlers" where
  "kernel_handlers junk slot = register_normal junk slot [1..<16]
     (register_irq_handler 0 (\<lambda>irq args flag st. clock_int_handler args st) (\<lambda>i. None))"

primrec enable_all :: "device \<Rightarrow> nat list \<Rightarrow> history \<Rightarrow> history" where
  "enable_all dev [] h = h"
| "enable_all dev (i # is) h = enable_all dev is (enable_irq dev i h)"

section \<open>System calls\<close>

definition MOO_SN :: int where "MOO_SN = 0x00"
definition SEND_MSG_SN :: int where "SEND_MSG_SN = 0x01"
definition CHECK_IPC_SN :: int where "CHECK_IPC_SN = 0x02"
definition SET_ALLOW_SN :: int where "SET_ALLOW_SN = 0x03"
definition RECV_MSG_SN :: int where "RECV_MSG_SN = 0x04"
definition CLEAR_MAIL_SN :: int where "CLEAR_MAIL_SN = 0x05"
definition TEST_AND_LOCK_SN :: int where "TEST_AND_LOCK_SN = 0x06"
definition SET_MAILBUFFER_SN :: int where "SET_MAILBUFFER_SN = 0x07"
definition CREATE_SIGNAL_SN :: int where "CREATE_SIGNAL_SN = 0x08"
definition GET_SIGNALS_SN :: int where "GET_SIGNALS_SN = 0x09"
definition UP_SIGNAL_SN :: int where "UP_SIGNAL_SN = 0x0A"
definition DOWN_SIGNAL_SN :: int where "DOWN_SIGNAL_SN = 0x0B"
definition IS_SOFT_SIGNAL_SN :: int where "IS_SOFT_SIGNAL_SN = 0x0C"
definition REG_IRQ_SN :: int where "REG_IRQ_SN = 0x10"
definition CREATE_THREAD_SN :: int where "CREATE_THREAD_SN = 0x20"
definition EXIT_THREAD_SN :: int where "EXIT_THREAD_SN = 0x21"

lemmas sysno_defs = MOO_SN_def SEND_MSG_SN_def CHECK_IPC_SN_def SET_ALLOW_SN_def RECV_MSG_SN_def CLEAR_MAIL_SN_def
  TEST_AND_LOCK_SN_def SET_MAILBUFFER_SN_def CREATE_SIGNAL_SN_def GET_SIGNALS_SN_def UP_SIGNAL_SN_def
  DOWN_SIGNAL_SN_def IS_SOFT_SIGNAL_SN_def REG_IRQ_SN_def CREATE_THREAD_SN_def EXIT_THREAD_SN_def

text \<open>
  What a call finds in memory that it does not initialise: the reserved byte of a header and the fields of a new
  semaphore; and the fuel of the heap.  Conversions between the 64-bit registers and the parameters' types:
  \<open>as_int\<close> to \<^verbatim>\<open>int\<close>, \<open>of_bool\<close> back from \<^verbatim>\<open>bool\<close>.
\<close>

record sys_env =
  env_fuel :: nat
  env_junk :: u8
  env_node :: signal_node

definition as_int :: "u64 \<Rightarrow> int" where
  "as_int w = sint (ucast w :: u32)"

definition msgno_of :: "u64 \<Rightarrow> msgno" where
  "msgno_of w = \<lparr>no_reserved = ucast w, no_message = ucast (drop_bit 8 w), no_msg_id = ucast (drop_bit 16 w)\<rparr>"

definition syscall :: "sys_env \<Rightarrow> int \<Rightarrow> u64 \<Rightarrow> u64 \<Rightarrow> u64 \<Rightarrow> u64 \<Rightarrow> u64 \<Rightarrow> kstate \<Rightarrow> (u64 \<times> kstate) option" where
  "syscall env sysno counter data src dst arg1 st =
     (if sysno = MOO_SN then Some (0, st)
      else if sysno = SEND_MSG_SN then do {
        (b, st) \<leftarrow> send_msg (env_junk env) (msgno_of arg1) (unat src) counter (as_int data) st;
        Some (of_bool b, st)
      }
      else if sysno = CHECK_IPC_SN then do { st \<leftarrow> check_ipc st; Some (0, st) }
      else if sysno = SET_ALLOW_SN then do { st \<leftarrow> set_allow (as_int data) st; Some (0, st) }
      else if sysno = RECV_MSG_SN then do {
        (pack, st) \<leftarrow> recv_msg (unat dst) st;
        Some (of_nat (le_val (msgpack_bytes pack)), st)
      }
      else if sysno = TEST_AND_LOCK_SN then do { (b, st) \<leftarrow> test_and_lock (unat dst) st; Some (of_bool b, st) }
      else if sysno = SET_MAILBUFFER_SN then do { st \<leftarrow> set_mailbuffer (unat dst) counter st; Some (0, st) }
      else if sysno = CREATE_SIGNAL_SN then do {
        (i, st) \<leftarrow> create_signal (env_fuel env) (env_node env) (as_int counter) (as_int data) (arg1 \<noteq> 0) st;
        Some (ucast i, st)
      }
      else if sysno = GET_SIGNALS_SN then do { n \<leftarrow> get_signals (ucast data) st; Some (of_int n, st) }
      else if sysno = UP_SIGNAL_SN then do { st \<leftarrow> up_signal (ucast data) st; Some (0, st) }
      else if sysno = DOWN_SIGNAL_SN then do { st \<leftarrow> down_signal (env_fuel env) (ucast data) st; Some (0, st) }
      else if sysno = IS_SOFT_SIGNAL_SN then do { b \<leftarrow> is_soft_signal (ucast data) st; Some (of_bool b, st) }
      else if sysno = REG_IRQ_SN then do { st \<leftarrow> reg_irq (as_int data) st; Some (0, st) }
      else if sysno = CREATE_THREAD_SN then do {
        (n, st) \<leftarrow> create_thread (env_fuel env) src dst st;
        Some (of_int n, st)
      }
      else if sysno = EXIT_THREAD_SN then do { st \<leftarrow> exit_thread st; Some (0, st) }
      else Some (0, st))"

definition syscall_int_handler :: "sys_env \<Rightarrow> intterup_args \<Rightarrow> kstate \<Rightarrow> (intterup_args \<times> kstate) option" where
  "syscall_int_handler env regs st = do {
     let flag = entered_handler st;
     let st = (if \<not> flag then st\<lparr>entered_handler := True\<rparr> else st);
     let b = ia_basic regs;
     (v, st) \<leftarrow> syscall env (as_int (rax b)) (rcx b) (rdx b) (rsi b) (rdi b) (r8 b) st;
     let regs = regs\<lparr>ia_basic := b\<lparr>rax := v\<rparr>\<rparr>;
     if \<not> flag then do {
       let st = st\<lparr>entered_handler := False\<rparr>;
       after_syscall regs st
     }
     else Some (regs, st)
   }"

section \<open>Masks and the end of interrupt\<close>

text \<open>What the mask registers hold after writes.\<close>

lemma chip_after_outb: "chip_after c d (outb p v h) = chip_step c d (chip_after c d h) (p, v)"
  by (simp add: chip_after_def outb_def)

lemma pic_ports_distinct:
  "M_PIC_CONTROL \<noteq> M_PIC_DATA" "M_PIC_CONTROL \<noteq> S_PIC_DATA" "S_PIC_CONTROL \<noteq> M_PIC_DATA" "M_PIC_CONTROL \<noteq> S_PIC_CONTROL"
  "S_PIC_CONTROL \<noteq> S_PIC_DATA" "M_PIC_DATA \<noteq> S_PIC_DATA" "S_PIC_DATA \<noteq> M_PIC_DATA" "S_PIC_DATA \<noteq> M_PIC_CONTROL"
  "M_PIC_DATA \<noteq> S_PIC_CONTROL" "M_PIC_DATA \<noteq> M_PIC_CONTROL" "S_PIC_DATA \<noteq> S_PIC_CONTROL"
  by (simp_all add: pic_defs)

text \<open>Writes that leave both masks alone: another port, or a command that is neither ICW1 nor the poll command.\<close>

definition plain_write :: "port \<Rightarrow> u8 \<Rightarrow> bool" where
  "plain_write p v \<longleftrightarrow> p \<notin> {M_PIC_DATA, S_PIC_DATA} \<and> (p \<in> {M_PIC_CONTROL, S_PIC_CONTROL} \<longrightarrow> \<not> bit v 4 \<and> \<not> bit v 3)"

lemma chip_plain:
  assumes "plain_write p v"
  shows "chip_after M_PIC_CONTROL M_PIC_DATA (outb p v h) = chip_after M_PIC_CONTROL M_PIC_DATA h"
    and "chip_after S_PIC_CONTROL S_PIC_DATA (outb p v h) = chip_after S_PIC_CONTROL S_PIC_DATA h"
  using assms by (auto simp: plain_write_def chip_after_outb chip_step_def)

lemma chip_data:
  assumes "ready h"
  shows "has_mask (chip_after M_PIC_CONTROL M_PIC_DATA (outb M_PIC_DATA v h)) v"
    and "chip_after S_PIC_CONTROL S_PIC_DATA (outb M_PIC_DATA v h) = chip_after S_PIC_CONTROL S_PIC_DATA h"
    and "has_mask (chip_after S_PIC_CONTROL S_PIC_DATA (outb S_PIC_DATA v h)) v"
    and "chip_after M_PIC_CONTROL M_PIC_DATA (outb S_PIC_DATA v h) = chip_after M_PIC_CONTROL M_PIC_DATA h"
  using assms by (auto simp: ready_def has_mask_def chip_after_outb chip_step_def pic_ports_distinct)

lemma ready_outb:
  "plain_write p v \<Longrightarrow> ready (outb p v h) = ready h"
  "ready h \<Longrightarrow> ready (outb M_PIC_DATA v h)"
  "ready h \<Longrightarrow> ready (outb S_PIC_DATA v h)"
  using chip_data [of h v] by (auto simp: ready_def chip_plain)

lemma mask_read:
  assumes dev: "masks_readable dev" and h: "ready h"
  shows "p \<in> {M_PIC_DATA, S_PIC_DATA} \<Longrightarrow> dev (outb p v h) p = v"
    and "p \<in> {M_PIC_DATA, S_PIC_DATA} \<Longrightarrow> q \<noteq> p \<Longrightarrow> q \<in> {M_PIC_DATA, S_PIC_DATA} \<or> plain_write q v \<Longrightarrow> dev (outb q v h) p = dev h p"
proof -
  obtain m n where mn: "has_mask (chip_after M_PIC_CONTROL M_PIC_DATA h) m" "has_mask (chip_after S_PIC_CONTROL S_PIC_DATA h) n"
    using h by (auto simp: ready_def)
  have M: "has_mask (chip_after M_PIC_CONTROL M_PIC_DATA h') k \<Longrightarrow> dev h' M_PIC_DATA = k" for h' k
    using dev by (auto simp: masks_readable_def)
  have S: "has_mask (chip_after S_PIC_CONTROL S_PIC_DATA h') k \<Longrightarrow> dev h' S_PIC_DATA = k" for h' k
    using dev by (auto simp: masks_readable_def)
  show "p \<in> {M_PIC_DATA, S_PIC_DATA} \<Longrightarrow> dev (outb p v h) p = v"
    using M S chip_data [OF h] by auto
  show "dev (outb q v h) p = dev h p"
    if "p \<in> {M_PIC_DATA, S_PIC_DATA}" "q \<noteq> p" "q \<in> {M_PIC_DATA, S_PIC_DATA} \<or> plain_write q v"
    using M S chip_data [OF h] chip_plain [of q v h] mn that by auto
qed

lemma eoi_plain: "plain_write M_PIC_CONTROL PIC_EOI" "plain_write S_PIC_CONTROL PIC_EOI"
  by (simp_all add: plain_write_def pic_defs bit_numeral_rec)

lemma ready_irq [simp]:
  "ready h \<Longrightarrow> ready (disable_irq dev irq h)" "ready h \<Longrightarrow> ready (enable_irq dev irq h)"
  "ready h \<Longrightarrow> ready (send_eoi irq h)"
  by (simp_all add: disable_irq_def enable_irq_def send_eoi_def Let_def ready_outb eoi_plain)

lemma ready_enable_all [simp]: "ready h \<Longrightarrow> ready (enable_all dev is h)"
  by (induction "is" arbitrary: h) simp_all

text \<open>\<open>init_pic\<close> sends all the words that ICW1 announces, whatever was written before, and then masks all lines.\<close>

lemma init_pic_masks:
  "has_mask (chip_after M_PIC_CONTROL M_PIC_DATA (init_pic h)) 0xFF"
  "has_mask (chip_after S_PIC_CONTROL S_PIC_DATA (init_pic h)) 0xFF"
  by (simp_all add: init_pic_def Let_def chip_after_outb chip_step_def pic_ports_distinct has_mask_def
      bit_numeral_rec flip: numeral_2_eq_2)

lemma ready_init_pic [simp]: "ready (init_pic h)"
  using init_pic_masks by (auto simp: ready_def)

lemma masked_disable:
  assumes "masks_readable dev" and "irq < 16" and "i < 16" and "ready h"
  shows "masked dev (disable_irq dev irq h) i \<longleftrightarrow> i = irq \<or> masked dev h i"
  using assms(2,3) by (auto simp: masked_def disable_irq_def mask_read [OF assms(1,4)] pic_ports_distinct bit_simps)

lemma masked_enable:
  assumes "masks_readable dev" and "irq < 16" and "i < 16" and "ready h"
  shows "masked dev (enable_irq dev irq h) i \<longleftrightarrow> i \<noteq> irq \<and> masked dev h i"
  using assms(2,3) by (auto simp: masked_def enable_irq_def mask_read [OF assms(1,4)] pic_ports_distinct bit_simps)

lemma masked_plain:
  assumes "masks_readable dev" and "ready h" and "plain_write p v"
  shows "masked dev (outb p v h) i = masked dev h i"
proof -
  have "p \<notin> {M_PIC_DATA, S_PIC_DATA}" using assms(3) by (simp add: plain_write_def)
  then show ?thesis using mask_read(2) [OF assms(1,2), of _ p v] assms(3) by (auto simp: masked_def)
qed

lemma masked_eoi:
  assumes "masks_readable dev" and "ready h"
  shows "masked dev (send_eoi irq h) i = masked dev h i"
  using assms by (simp add: send_eoi_def Let_def masked_plain ready_outb eoi_plain)

lemma masked_init_pic:
  assumes "masks_readable dev" and "i < 16"
  shows "masked dev (init_pic h) i"
proof -
  have "dev (init_pic h) M_PIC_DATA = 0xFF" "dev (init_pic h) S_PIC_DATA = 0xFF"
    using assms(1) init_pic_masks by (auto simp: masks_readable_def)
  then show ?thesis using assms(2) by (auto simp: masked_def bit_simps numeral_eq_Suc less_Suc_eq)
qed

lemma masked_enable_all:
  assumes "masks_readable dev" and "\<forall>i\<in>set is. i < 16" and "j < 16" and "ready h"
  shows "masked dev (enable_all dev is h) j \<longleftrightarrow> j \<notin> set is \<and> masked dev h j"
  using assms(2,4)
proof (induction "is" arbitrary: h)
  case Nil
  then show ?case by simp
next
  case (Cons i "is")
  then show ?case using masked_enable [OF assms(1) _ assms(3), of i h] by auto
qed

text \<open>A device that answers with the mask registers.\<close>

definition example_device :: device where
  "example_device h p =
     (if p = M_PIC_DATA then case chip_after M_PIC_CONTROL M_PIC_DATA h of None \<Rightarrow> 0 | Some c \<Rightarrow> mask_reg c
      else if p = S_PIC_DATA then case chip_after S_PIC_CONTROL S_PIC_DATA h of None \<Rightarrow> 0 | Some c \<Rightarrow> mask_reg c
      else 0)"

lemma example_device_readable: "masks_readable example_device"
  by (simp add: masks_readable_def example_device_def has_mask_def pic_ports_distinct)

section \<open>The descriptor table\<close>

lemma init_exceptions_ok:
  assumes "\<forall>i\<in>set is. i < 128"
  shows "\<exists>t'. init_exceptions cs exc is t = Some t'
     \<and> (\<forall>v. t' v = (if v \<in> set is then gate_of cs (of_nat GATE_INTERRUPT) (exc v) 0 0 else t v))"
  using assms
proof (induction "is" arbitrary: t)
  case Nil
  then show ?case by simp
next
  case (Cons i "is")
  then have u: "unat (of_nat i :: u8) = i" by (simp add: unat_of_nat)
  let ?t = "t(i := gate_of cs (of_nat GATE_INTERRUPT) (exc i) 0 0)"
  have "\<forall>i\<in>set is. i < 128" using Cons.prems by simp
  from Cons.IH [OF this, of ?t] obtain t' where "init_exceptions cs exc is ?t = Some t'"
      "\<forall>v. t' v = (if v \<in> set is then gate_of cs (of_nat GATE_INTERRUPT) (exc v) 0 0 else ?t v)" by blast
  then show ?case using Cons.prems by (intro exI [of _ t'] conjI) (auto simp: init_idt_desc_def u IDT_SIZE_def)
qed

lemma init_irqs_ok:
  assumes "\<forall>i\<in>set is. i < 16"
  shows "\<exists>t'. init_irqs cs irq is t = Some t'
     \<and> (\<forall>v. t' v = (if 32 \<le> v \<and> v - 32 \<in> set is then gate_of cs (of_nat GATE_INTERRUPT) (irq (v - 32)) 0 1 else t v))"
  using assms
proof (induction "is" arbitrary: t)
  case Nil
  then show ?case by simp
next
  case (Cons i "is")
  then have "(0x20 + of_nat i :: u8) = of_nat (32 + i)" by simp
  then have u: "unat (0x20 + of_nat i :: u8) = 32 + i" using Cons.prems by (simp only: unat_of_nat) simp
  have "\<exists>t'. init_irqs cs irq is (t(32 + i := gate_of cs (of_nat GATE_INTERRUPT) (irq i) 0 1)) = Some t'
     \<and> (\<forall>v. t' v = (if 32 \<le> v \<and> v - 32 \<in> set is then gate_of cs (of_nat GATE_INTERRUPT) (irq (v - 32)) 0 1
           else (t(32 + i := gate_of cs (of_nat GATE_INTERRUPT) (irq i) 0 1)) v))"
    using Cons.IH Cons.prems by simp
  then show ?case using Cons.prems by (auto simp: init_idt_desc_ist_def u IDT_SIZE_def)
qed

text \<open>The address in a gate, as the processor puts it together.\<close>

definition gate_address :: "gate_desc \<Rightarrow> u64" where
  "gate_address g = ucast (offset_low g) OR push_bit 16 (ucast (offset_middle g)) OR push_bit 32 (ucast (offset_high g))"

lemma gate_address_of [simp]: "gate_address (gate_of cs type base p ist) = base"
proof (rule bit_word_eqI)
  fix n :: nat
  assume "n < LENGTH(64)"
  then have n: "n < 64" by simp
  show "bit (gate_address (gate_of cs type base p ist)) n = bit base n"
  proof (cases "n < 32")
    case True
    then show ?thesis using n by (cases "n < 16") (auto simp: gate_address_def gate_of_def bit_simps)
  next
    case False
    then show ?thesis using n by (auto simp: gate_address_def gate_of_def bit_simps)
  qed
qed

lemma gate_of_fields [simp]:
  "gate_dpl (gate_bits (gate_of cs type base p ist)) = unat p mod 4"
  "gate_ist (gate_bits (gate_of cs type base p ist)) = unat ist mod 8"
  "gate_p (gate_bits (gate_of cs type base p ist))"
  "gate_segment (gate_of cs type base p ist) = cs"
  "gate_type (gate_bits (gate_of cs type base p ist)) = unat type mod 32"
  "gate_zero (gate_bits (gate_of cs type base p ist)) = 0"
  by (simp_all add: gate_of_def)

text \<open>An entry of a table of zeros.\<close>

definition no_gate :: gate_desc where
  "no_gate = \<lparr>offset_low = 0, gate_segment = 0,
     gate_bits = \<lparr>gate_ist = 0, gate_zero = 0, gate_type = 0, gate_dpl = 0, gate_p = False\<rparr>,
     offset_middle = 0, offset_high = 0, gate_reserved = 0\<rparr>"

lemma init_descs_ok:
  "\<exists>t'. init_descs cs exc irq sys t = Some t'
     \<and> (\<forall>v. t' v = (if v < 32 then gate_of cs (of_nat GATE_INTERRUPT) (exc v) 0 0
          else if v < 48 then gate_of cs (of_nat GATE_INTERRUPT) (irq (v - 32)) 0 1
          else if v = 64 then gate_of cs (of_nat GATE_INTERRUPT) sys 3 1 else t v))"
proof -
  obtain t1 where t1: "init_exceptions cs exc [0..<32] t = Some t1"
    "\<forall>v. t1 v = (if v \<in> set [0..<32] then gate_of cs (of_nat GATE_INTERRUPT) (exc v) 0 0 else t v)"
    using init_exceptions_ok [of "[0..<32]" cs exc t] by auto
  obtain t2 where t2: "init_irqs cs irq [0..<16] t1 = Some t2"
    "\<forall>v. t2 v = (if 32 \<le> v \<and> v - 32 \<in> set [0..<16] then gate_of cs (of_nat GATE_INTERRUPT) (irq (v - 32)) 0 1 else t1 v)"
    using init_irqs_ok [of "[0..<16]" cs irq t1] by auto
  have "init_descs cs exc irq sys t = Some (t2(64 := gate_of cs (of_nat GATE_INTERRUPT) sys 3 1))"
    using t1(1) t2(1) by (simp add: init_descs_def init_idt_desc_ist_def IDT_SIZE_def)
  then show ?thesis using t1(2) t2(2) by (intro exI conjI) auto
qed

section \<open>A call that blocks\<close>

text \<open>
  The second half of a switch, after the current thread has been put down: the front of the ready queue runs.
\<close>

lemma switch_in:
  assumes "down_thread regs st = Some s1" and "ready0 s1 (q # qs)"
    and q: "threads s1 q = Some thq" "tasks s1 (th_task thq) = Some t"
  shows "\<exists>st'. do_switch regs st = Some (load_regs (registers thq) (pgd (tk_mm_info t)) regs, st')
     \<and> current_thread st' = q \<and> ready0 st' qs \<and> same_tasks s1 st' \<and> map_option th_state (threads st' q) = Some RUNNING
     \<and> (\<forall>p. p \<noteq> q \<longrightarrow> map_option th_state (threads st' p) = map_option th_state (threads s1 p)
          \<and> map_option registers (threads st' p) = map_option registers (threads s1 p))
     \<and> signal_nodes st' = signal_nodes s1 \<and> wtnodes st' = wtnodes s1 \<and> vm st' = vm s1 \<and> signal_root st' = signal_root s1
     \<and> (\<forall>p. map_option th_next (threads st' p) = map_option th_next (threads s1 p)
          \<and> map_option th_last (threads st' p) = map_option th_last (threads s1 p))"
proof -
  obtain s2 where s2: "dequeue_level0_thread s1 = Some (q, s2)" "ready0 s2 qs" "same_but_ready s1 s2"
    using dequeue_level0_ready [OF assms(2)] by blast
  have "level0_head s1 \<noteq> NULL" using assms(2) by (auto simp: ready0_def)
  then have gn: "get_next_run_thread s1 = Some (q, s2)"
    using s2(1) by (simp add: get_next_run_thread_def has_level0_thread_def)
  obtain m where q2: "threads s2 q = Some (thq\<lparr>free_next := m\<rparr>)"
    using same_but_ready_threads(2) [OF s2(3) q(1)] by blast
  have t2: "tasks s2 (th_task thq) = Some t" using same_but_ready_fields [OF s2(3)] q(2) by simp
  define u where "u = (if level t = 1 then thq\<lparr>free_next := m, th_state := RUNNING, th_count := th_priority thq * 3\<rparr>
    else thq\<lparr>free_next := m, th_state := RUNNING\<rparr>)"
  let ?s = "s2\<lparr>current_thread := q, threads := (threads s2)(q \<mapsto> u)\<rparr>"
  have "do_switch regs st = Some (load_regs (registers thq) (pgd (tk_mm_info t)) regs, ?s)"
    using assms(1) gn q2 t2 by (simp add: do_switch_def up_thread_def upd_thread_def u_def)
  moreover have "same_tasks s1 ?s"
  proof (rule same_tasks_trans [OF same_but_ready_tasks [OF s2(3)]])
    show "same_tasks s2 ?s" using q2 by (simp add: same_tasks_def u_def)
  qed
  moreover have "ready0 ?s qs"
    using ready0_upd_thread [OF q2, of u qs] s2(2) by (simp add: ready0_def u_def)
  moreover have "map_option th_state (threads ?s p) = map_option th_state (threads s1 p)
      \<and> map_option registers (threads ?s p) = map_option registers (threads s1 p)" if "p \<noteq> q" for p
    using same_but_ready_threads [OF s2(3), of p] that by (cases "threads s1 p") auto
  moreover have "map_option th_state (threads ?s q) = Some RUNNING" by (simp add: u_def)
  moreover have "map_option th_next (threads ?s p) = map_option th_next (threads s1 p)
      \<and> map_option th_last (threads ?s p) = map_option th_last (threads s1 p)" for p
    using same_but_ready_threads [OF s2(3), of p] q(1) q2 by (cases "threads s1 p") (auto simp: u_def)
  ultimately show ?thesis using same_but_ready_fields [OF s2(3)]
    by (intro exI [of _ ?s]) simp
qed

text \<open>What \<^verbatim>\<open>down_signal\<close> leaves alone.\<close>

definition same_run :: "kstate \<Rightarrow> kstate \<Rightarrow> bool" where
  "same_run st st' \<longleftrightarrow> current_thread st' = current_thread st \<and> do_schedule st' = do_schedule st
     \<and> entered_handler st' = entered_handler st"

lemma upd_signal_rest: "upd_signal a f st = Some st' \<Longrightarrow> same_run st st'"
  by (auto simp: upd_signal_def same_run_def bind_iff)

lemma k_alloc_rest: "k_alloc f n st = Some (p, st') \<Longrightarrow> same_run st st'"
  by (auto simp: k_alloc_Some same_run_def set_km_def)

lemma same_run_trans: "same_run a b \<Longrightarrow> same_run b c \<Longrightarrow> same_run a c"
  by (simp add: same_run_def)

lemma same_run_wtnodes [simp]: "same_run (st\<lparr>wtnodes := w\<rparr>) st' = same_run st st'"
  by (simp add: same_run_def)

lemma enqueue_wt_rest:
  assumes "enqueue_wt f sg th st = Some st'"
  shows "same_run st st'"
proof -
  obtain p s1 where a: "k_alloc f SIZEOF_WTNODE st = Some (p, s1)"
    using assms by (auto simp: enqueue_wt_def bind_iff)
  obtain x where x: "signal_nodes s1 sg = Some x"
    using assms by (auto simp: enqueue_wt_def a Let_def bind_iff)
  obtain w g where "upd_signal sg g (s1\<lparr>wtnodes := w\<rparr>) = Some st'"
  proof (cases "wttail x = NULL")
    case True
    then show ?thesis using assms that by (simp add: enqueue_wt_def a x)
  next
    case False
    then show ?thesis using assms that by (auto simp: enqueue_wt_def a x bind_iff simp del: fun_upd_apply)
  qed
  from upd_signal_rest [OF this] k_alloc_rest [OF a] show ?thesis
    by (auto intro: same_run_trans)
qed

lemma down_signal_rest:
  assumes "down_signal f i st = Some st'"
  shows "same_run st st'"
proof -
  obtain sg g s1 where u: "upd_signal sg g st = Some s1" and "s1 = st' \<or> (\<exists>s2 h. enqueue_wt f sg (current_thread s1) s1 = Some s2
      \<and> upd_thread (current_thread s2) h s2 = Some st')"
    using assms by (simp add: down_signal_def bind_iff split: if_splits) blast+
  then show ?thesis
  proof (elim disjE exE conjE)
    fix s2 h
    assume "enqueue_wt f sg (current_thread s1) s1 = Some s2" and "upd_thread (current_thread s2) h s2 = Some st'"
    then show ?thesis
      using same_run_trans [OF upd_signal_rest [OF u] enqueue_wt_rest] by (auto simp: upd_thread_Some same_run_def)
  qed (use upd_signal_rest [OF u] in simp)
qed

lemma ready0_cong:
  "level0_head st' = level0_head st \<Longrightarrow> level0_tail st' = level0_tail st \<Longrightarrow>
   (\<And>p. map_option free_next (threads st' p) = map_option free_next (threads st p)) \<Longrightarrow> ready0 st' ps = ready0 st ps"
  by (simp add: ready0_def)

lemma down_blocks_and_switches:
  assumes sem: "semaphore st xs t i a s cells" and room: "has_free (request SIZEOF_WTNODE) xs" and none: "signals s \<le> 0"
    and inv: "sched_inv st p (q # qs)" and on: "do_schedule st" "entered_handler st = False" and fuel: "0 < env_fuel env"
    and call: "as_int (rax (ia_basic regs)) = DOWN_SIGNAL_SN" "ucast (rdx (ia_basic regs)) = i"
    and tp: "threads st p = Some thp" "tasks st (th_task thp) = Some tp" "level tp = 0" "pid tp \<noteq> -1"
    and tq: "threads st q = Some thq" "tasks st (th_task thq) = Some tq"
  shows "\<exists>regs' st' cells'. syscall_int_handler env regs st = Some (regs', st')
     \<and> regs' = load_regs (registers thq) (pgd (tk_mm_info tq)) (regs\<lparr>ia_basic := (ia_basic regs)\<lparr>rax := 0\<rparr>\<rparr>)
     \<and> current_thread st' = q \<and> ready0 st' qs \<and> map_option th_state (threads st' q) = Some RUNNING
     \<and> map_option th_state (threads st' p) = Some WAITING
     \<and> map_option registers (threads st' p) = Some (save_regs (regs\<lparr>ia_basic := (ia_basic regs)\<lparr>rax := 0\<rparr>\<rparr>) (registers thp))
     \<and> (\<exists>ys s'. semaphore st' ys t i a s' cells' \<and> signals s' = signals s - 1 \<and> map snd cells' = map snd cells @ [p])"
proof -
  let ?r = "regs\<lparr>ia_basic := (ia_basic regs)\<lparr>rax := 0\<rparr>\<rparr>"
  define st0 where "st0 = st\<lparr>entered_handler := True\<rparr>"
  obtain f where f: "env_fuel env = Suc f" using fuel by (cases "env_fuel env") auto
  have cur: "current_thread st = p" using inv by (simp add: sched_inv_def)
  have sem0: "semaphore st0 xs t i a s cells"
    using sem by (simp add: semaphore_def st0_def signals_ok_def waiting_def)
  have cur0: "threads st0 (current_thread st0) = Some thp" using tp(1) cur by (simp add: st0_def)
  obtain st1 ys s1 cells1 where d: "down_signal (Suc f) i st0 = Some st1" "semaphore st1 ys t i a s1 cells1"
      "signals s1 = signals s - 1" "tasks st1 = tasks st" "level0_head st1 = level0_head st" "level0_tail st1 = level0_tail st"
      "map snd cells1 = map snd cells @ [p]" "threads st1 = (threads st)(p \<mapsto> thp\<lparr>th_state := WAITING\<rparr>)"
    using down_signal_ok [OF sem0 room cur0, of f] none cur by (auto simp: st0_def)
  have rest: "current_thread st1 = p" "do_schedule st1" using down_signal_rest [OF d(1)] on cur by (simp_all add: st0_def same_run_def)
  define st2 where "st2 = st1\<lparr>entered_handler := False\<rparr>"
  let ?x = "thp\<lparr>th_state := WAITING, registers := save_regs ?r (registers thp)\<rparr>"
  define st3 where "st3 = st2\<lparr>threads := (threads st2)(p \<mapsto> ?x)\<rparr>"
  have "should_switch st2 = Some True"
    using tp rest d(4,8) by (simp add: should_switch_def st2_def)
  have "down_thread ?r st2 = Some st3"
    using rest d(8) by (simp add: down_thread_def upd_thread_def st2_def st3_def)
  moreover have "ready0 st3 (q # qs) = ready0 st (q # qs)"
    by (rule ready0_cong) (use d(5,6,8) tp(1) in \<open>auto simp: st3_def st2_def\<close>)
  then have "ready0 st3 (q # qs)" using inv by (simp add: sched_inv_def)
  moreover have pq: "q \<noteq> p" using inv by (auto simp: sched_inv_def)
  moreover have "threads st3 q = Some thq" "tasks st3 (th_task thq) = Some tq"
    using pq tq d(4,8) by (simp_all add: st3_def st2_def)
  ultimately obtain st4 where s4: "do_switch ?r st2 = Some (load_regs (registers thq) (pgd (tk_mm_info tq)) ?r, st4)"
      "current_thread st4 = q" "ready0 st4 qs" "map_option th_state (threads st4 q) = Some RUNNING"
      "map_option th_state (threads st4 p) = map_option th_state (threads st3 p)"
      "map_option registers (threads st4 p) = map_option registers (threads st3 p)"
      "signal_nodes st4 = signal_nodes st3" "wtnodes st4 = wtnodes st3" "vm st4 = vm st3" "signal_root st4 = signal_root st3"
    using switch_in [of ?r st2 st3 q qs thq tq] by auto
  have "syscall_int_handler env regs st = Some (load_regs (registers thq) (pgd (tk_mm_info tq)) ?r, st4)"
    using d(1) f s4(1) on(2) call \<open>should_switch st2 = Some True\<close>
    by (simp add: syscall_int_handler_def syscall_def sysno_defs after_syscall_def st0_def st2_def)
  moreover have "semaphore st4 ys t i a s1 cells1"
    using d(2) s4(7-10) by (simp add: semaphore_def signals_ok_def waiting_def st3_def st2_def)
  moreover have "map_option th_state (threads st4 p) = Some WAITING"
      "map_option registers (threads st4 p) = Some (save_regs ?r (registers thp))"
    using s4(5,6) by (simp_all add: st3_def)
  ultimately show ?thesis using s4(2-4) d(3,7)
    by (intro exI [of _ "load_regs (registers thq) (pgd (tk_mm_info tq)) ?r"] exI [of _ st4] exI [of _ cells1]) auto
qed

section \<open>Properties\<close>

text \<open>
  C26. A line is masked while its handler runs, and only this line is opened afterwards: when the handler of the
  line returns, so does the common handler, its last write opens the line, the mask of every other line is as
  before, and the flag of nested interrupts is reset only by the outermost one.  It holds for controllers that behave
  as the 8259 documents and have got all their initialisation words, which \<open>init_pic\<close> sends (lemmas
  \<open>ready_init_pic\<close>, \<open>ready_irq\<close>: the operations keep it so); the state afterwards allows the next interrupt.
\<close>

theorem irq_masked_while_handled:
  assumes "masks_readable dev" and "irq < 16" and "ready h" and "hs irq = Some handler"
    and "handler irq args (entered_handler st) (st\<lparr>entered_handler := True\<rparr>) = Some (args', st')"
  shows "\<exists>h1. general_irq_handler dev hs irq args (st, h)
         = Some (args', if entered_handler st then st' else st'\<lparr>entered_handler := False\<rparr>, enable_irq dev irq h1)
     \<and> h1 = send_eoi irq (disable_irq dev irq h) \<and> masked dev h1 irq \<and> \<not> masked dev (enable_irq dev irq h1) irq
     \<and> ready (enable_irq dev irq h1)
     \<and> (\<forall>i. i < 16 \<longrightarrow> i \<noteq> irq \<longrightarrow> masked dev h1 i = masked dev h i
          \<and> masked dev (enable_irq dev irq h1) i = masked dev h i)"
proof -
  let ?h1 = "send_eoi irq (disable_irq dev irq h)"
  have e: "entered_handler st \<Longrightarrow> st\<lparr>entered_handler := True\<rparr> = st" by simp
  have "general_irq_handler dev hs irq args (st, h)
      = Some (args', if entered_handler st then st' else st'\<lparr>entered_handler := False\<rparr>, enable_irq dev irq ?h1)"
    using assms(2,4,5) e by (cases "entered_handler st") (simp_all add: general_irq_handler_def Let_def)
  then show ?thesis
    using masked_eoi [OF assms(1)] masked_disable [OF assms(1,2) _ assms(3)] masked_enable [OF assms(1,2)] assms(2,3)
    by (intro exI [of _ ?h1]) simp
qed

theorem irq_masked_while_handled_witness:
  "masked example_device (send_eoi 1 (disable_irq example_device 1 (init_pic []))) 1
   \<and> \<not> masked example_device (enable_irq example_device 1 (send_eoi 1 (disable_irq example_device 1 (init_pic [])))) 1"
  using irq_masked_while_handled [OF example_device_readable _ ready_init_pic, of 1 "[1 \<mapsto> \<lambda>irq args flag st. Some (args, st)]"
      "\<lambda>irq args flag st. Some (args, st)" example_regs example_sched]
  by auto

text \<open>
  C28. The descriptor table: \<^verbatim>\<open>__init_descs\<close> gives the exceptions, the lines and the system call, and no other
  vector, a present interrupt gate of the code segment with the address of its entry point; the lines and the system
  call run on the first interrupt stack, the exceptions on none.  The table is a static array, so no gate is present
  before; then the system call is the only present gate that user code, of privilege 3, may enter.
\<close>

theorem init_descs_gates:
  assumes "\<forall>v. \<not> gate_p (gate_bits (t v))"
  shows "\<exists>t'. init_descs cs exc irq sys t = Some t'
     \<and> (\<forall>v. gate_p (gate_bits (t' v)) \<longleftrightarrow> v < 48 \<or> v = 64)
     \<and> (\<forall>v. gate_p (gate_bits (t' v)) \<longrightarrow>
          gate_address (t' v) = (if v < 32 then exc v else if v < 48 then irq (v - 32) else sys)
          \<and> gate_segment (t' v) = cs \<and> gate_type (gate_bits (t' v)) = 0xE \<and> gate_zero (gate_bits (t' v)) = 0
          \<and> gate_ist (gate_bits (t' v)) = (if v < 32 then 0 else 1)
          \<and> gate_dpl (gate_bits (t' v)) = (if v = 64 then 3 else 0))
     \<and> (\<forall>v. gate_p (gate_bits (t' v)) \<and> 3 \<le> gate_dpl (gate_bits (t' v)) \<longleftrightarrow> v = 64)
     \<and> (\<forall>v. \<not> gate_p (gate_bits (t' v)) \<longrightarrow> t' v = t v)"
proof -
  obtain t' where t': "init_descs cs exc irq sys t = Some t'"
    "\<forall>v. t' v = (if v < 32 then gate_of cs (of_nat GATE_INTERRUPT) (exc v) 0 0
       else if v < 48 then gate_of cs (of_nat GATE_INTERRUPT) (irq (v - 32)) 0 1
       else if v = 64 then gate_of cs (of_nat GATE_INTERRUPT) sys 3 1 else t v)"
    using init_descs_ok [of cs exc irq sys t] by blast
  then show ?thesis using assms by (intro exI [of _ t']) (simp add: GATE_INTERRUPT_def)
qed

theorem init_descs_gates_witness:
  "\<exists>t'. init_descs 8 (\<lambda>i. of_nat i) (\<lambda>i. 100) 200 (\<lambda>v. no_gate) = Some t' \<and> \<not> gate_p (gate_bits (t' 50))
     \<and> gate_p (gate_bits (t' 7)) \<and> gate_address (t' 64) = 200"
proof -
  have "\<forall>v::nat. \<not> gate_p (gate_bits ((\<lambda>v. no_gate) v))" by (simp add: no_gate_def)
  from init_descs_gates [OF this, of 8 "\<lambda>i. of_nat i" "\<lambda>i. 100" 200] show ?thesis by auto
qed

text \<open>
  A \<^verbatim>\<open>down\<close> of a semaphore without units, through the system call: the calling thread is appended to the
  semaphore's queue and waits, its registers are stored with the result 0, and the first ready thread runs
  with its own registers; it leaves the ready queue, and the calling thread is not put into it.
\<close>

theorem down_call_blocks:
  assumes "semaphore st xs t i a s cells" and "has_free (request SIZEOF_WTNODE) xs" and "signals s \<le> 0"
    and "sched_inv st p (q # qs)" and "do_schedule st" and "entered_handler st = False" and "0 < env_fuel env"
    and "as_int (rax (ia_basic regs)) = DOWN_SIGNAL_SN" and "ucast (rdx (ia_basic regs)) = i"
    and "threads st p = Some thp" and "tasks st (th_task thp) = Some tp" and "level tp = 0" and "pid tp \<noteq> -1"
    and "threads st q = Some thq" and "tasks st (th_task thq) = Some tq"
  shows "\<exists>regs' st' cells'. syscall_int_handler env regs st = Some (regs', st')
     \<and> regs' = load_regs (registers thq) (pgd (tk_mm_info tq)) (regs\<lparr>ia_basic := (ia_basic regs)\<lparr>rax := 0\<rparr>\<rparr>)
     \<and> current_thread st' = q \<and> ready0 st' qs \<and> map_option th_state (threads st' q) = Some RUNNING
     \<and> map_option th_state (threads st' p) = Some WAITING
     \<and> map_option registers (threads st' p) = Some (save_regs (regs\<lparr>ia_basic := (ia_basic regs)\<lparr>rax := 0\<rparr>\<rparr>) (registers thp))
     \<and> (\<exists>ys s'. semaphore st' ys t i a s' cells' \<and> signals s' = signals s - 1 \<and> map snd cells' = map snd cells @ [p])"
  by (rule down_blocks_and_switches [OF assms])

text \<open>The threads of the scheduler's example in a task of level 0, with a semaphore without units.\<close>

definition example_call :: kstate where
  "example_call = example_sched\<lparr>tasks := [4120 \<mapsto> example_task\<lparr>level := 0\<rparr>], signal_nodes := signal_nodes example_sem,
     signal_root := signal_root example_sem\<rparr>"

lemma example_call_semaphore: "semaphore example_call example_segs (Node Leaf 4120 Leaf) 0 4120 example_signal []"
proof -
  have "vm example_call = vm example_sem" "wtnodes example_call = wtnodes example_sem"
    by (simp_all add: example_call_def example_sched_def example_sem_def)
  then show ?thesis using example_sem_semaphore
    by (simp add: semaphore_def signals_ok_def waiting_def example_call_def) (simp add: example_signal_def)
qed

lemma example_call_inv: "sched_inv example_call 1000 [2000, 3000]"
  using example_sched_inv
  by (simp add: sched_inv_def example_call_def ready0_def schedulable_def example_sched_def example_thread_def)

theorem down_call_blocks_witness:
  "\<exists>regs' st'. syscall_int_handler \<lparr>env_fuel = 1, env_junk = 0, env_node = example_signal\<rparr>
       (example_regs\<lparr>ia_basic := zero_basic\<lparr>rax := 0xB\<rparr>\<rparr>) example_call = Some (regs', st')
     \<and> current_thread st' = 2000 \<and> ready0 st' [3000] \<and> map_option th_state (threads st' 1000) = Some WAITING"
  using down_call_blocks [OF example_call_semaphore example_room(2) _ example_call_inv, where
      env = "\<lparr>env_fuel = 1, env_junk = 0, env_node = example_signal\<rparr>" and
      regs = "example_regs\<lparr>ia_basic := zero_basic\<lparr>rax := 0xB\<rparr>\<rparr>" and thp = example_thread and tp = "example_task\<lparr>level := 0\<rparr>"
      and thq = "example_thread\<lparr>th_state := READY, free_next := 3000, tid := 1\<rparr>" and tq = "example_task\<lparr>level := 0\<rparr>"]
  by (fastforce simp: example_signal_def example_call_def example_sched_def example_kstate_def example_thread_def
      example_task_def example_args_def as_int_def zero_basic_def DOWN_SIGNAL_SN_def)

text \<open>
  The dispatcher has no entry for the number of \<^verbatim>\<open>clear_mail\<close>, which the list of system calls names: the call
  returns 0 and the mailbox keeps its messages.
\<close>

theorem clear_mail_not_dispatched:
  "syscall env CLEAR_MAIL_SN counter data src dst arg1 st = Some (0, st)"
  by (simp add: syscall_def sysno_defs)

text \<open>
  The end of an interrupt on line 8, the first of the second controller: only the first controller is told.
  The second one keeps the line in service and delivers none of its lines 8 to 15 again.
\<close>

theorem irq8_no_slave_eoi:
  assumes "hs 8 = Some handler" and "handler 8 args (entered_handler st) (st\<lparr>entered_handler := True\<rparr>) = Some (args', st')"
  shows "\<exists>st'' ws. general_irq_handler dev hs 8 args (st, h) = Some (args', st'', h @ ws)
     \<and> (M_PIC_CONTROL, PIC_EOI) \<in> set ws \<and> S_PIC_CONTROL \<notin> fst ` set ws"
proof -
  have e: "entered_handler st \<Longrightarrow> st\<lparr>entered_handler := True\<rparr> = st" by simp
  show ?thesis
    using assms e by (cases "entered_handler st")
      (auto simp: general_irq_handler_def disable_irq_def enable_irq_def send_eoi_def outb_def Let_def pic_defs)
qed

theorem irq8_no_slave_eoi_witness:
  "\<exists>st'' ws. general_irq_handler example_device [8 \<mapsto> \<lambda>irq args flag st. Some (args, st)] 8 example_regs (example_sched, [])
      = Some (example_regs, st'', ws) \<and> S_PIC_CONTROL \<notin> fst ` set ws"
  using irq8_no_slave_eoi [of "[8 \<mapsto> \<lambda>irq args flag st. Some (args, st)]" "\<lambda>irq args flag st. Some (args, st)"
      example_regs example_sched example_regs _ example_device "[]"] by auto

end
