(* ===== verification/Malloc.thy ===== *)
theory Malloc
  imports Prelude
begin

text \<open>
  The heap of the module library, \<^verbatim>\<open>libs/libkmod/memory/malloc.c\<close> (\<^verbatim>\<open>module/setup/_libkmod\<close> holds a copy): a
  singly linked list of free chunks in the order of their addresses, each with a header of 16 bytes.  The
  lemmas show what a call returns and how the free list changes, and where the accounting of the headers
  fails: the size of a remainder does not count its own header, so that a chunk that was cut reaches into the
  chunk above it, or behind the end of the heap.
\<close>

section \<open>The code\<close>

text \<open>\<^verbatim>\<open>chunk_struct\<close>, whose size has 63 bits; the address of a chunk is the address of its header.\<close>

record chunk =
  ch_size :: nat
  ch_used :: bool
  ch_next :: ptr

type_synonym chunks = "ptr \<rightharpoonup> chunk"

definition SIZEOF_CHUNK :: nat where
  "SIZEOF_CHUNK = 16"

definition HEAPUNIT_SZ :: nat where
  "HEAPUNIT_SZ = 16"

definition HEAPDIV_MIN_SZ :: nat where
  "HEAPDIV_MIN_SZ = 128"

text \<open>\<^verbatim>\<open>init_heap\<close>; an assignment to a size keeps the low 63 bits, one to an \<^verbatim>\<open>int\<close> wraps.\<close>

definition to_size :: "int \<Rightarrow> nat" where
  "to_size i = nat (i mod 2 ^ 63)"

definition init_heap :: "ptr \<Rightarrow> ptr \<Rightarrow> chunks \<Rightarrow> chunks" where
  "init_heap heap_start heap_end h =
     (let heap = heap_start;
          sz = wrap32 (int heap_end - int heap);
          whole_heap = heap + SIZEOF_CHUNK
      in h(heap \<mapsto> \<lparr>ch_size = to_size (-1), ch_used = False, ch_next = whole_heap\<rparr>,
           whole_heap \<mapsto> \<lparr>ch_size = to_size (sz - int SIZEOF_CHUNK), ch_used = False, ch_next = NULL\<rparr>))"

text \<open>\<^verbatim>\<open>malloc\<close>: the rounded size, the search for the first chunk that fits, and the cut.\<close>

definition fixed_of :: "int \<Rightarrow> int" where
  "fixed_of sz = wrap32 ((sz + int SIZEOF_CHUNK + (int HEAPUNIT_SZ - 1)) div 16 * 16)"

partial_function (option) find_chunk :: "chunks \<Rightarrow> int \<Rightarrow> ptr \<Rightarrow> ptr \<Rightarrow> (ptr \<times> ptr) option" where
  "find_chunk h fixed lst cur =
     (if cur = NULL then Some (lst, cur)
      else do {
        c \<leftarrow> h cur;
        if ch_size c < to_size fixed then find_chunk h fixed cur (ch_next c) else Some (lst, cur)
      })"

definition malloc :: "ptr \<Rightarrow> int \<Rightarrow> chunks \<Rightarrow> (ptr \<times> chunks) option" where
  "malloc heap sz h =
     (if sz = 0 then Some (NULL, h)
      else do {
        let fixed = fixed_of sz;
        s \<leftarrow> h heap;
        (lst, cur) \<leftarrow> find_chunk h fixed heap (ch_next s);
        if cur = NULL then Some (NULL, h)
        else do {
          c \<leftarrow> h cur;
          l \<leftarrow> h lst;
          let remain = wrap32 (int (ch_size c) - fixed);
          let h' = (if ch_size c > HEAPDIV_MIN_SZ \<and> remain \<ge> int HEAPUNIT_SZ then
              let new = nat (int cur + int SIZEOF_CHUNK + fixed)
              in h(new \<mapsto> \<lparr>ch_size = to_size (int (ch_size c) - fixed), ch_used = False, ch_next = ch_next c\<rparr>,
                   lst \<mapsto> l\<lparr>ch_next := new\<rparr>, cur \<mapsto> c\<lparr>ch_size := to_size fixed, ch_used := True, ch_next := NULL\<rparr>)
            else h(lst \<mapsto> l\<lparr>ch_next := ch_next c\<rparr>, cur \<mapsto> c\<lparr>ch_used := True, ch_next := NULL\<rparr>));
          Some (cur + SIZEOF_CHUNK, h')
        }
      })"

text \<open>
  \<^verbatim>\<open>free\<close>: the search for the free chunk below, the insertion behind it and the two merges.  The search ends
  with \<^verbatim>\<open>last\<close> null when no free chunk lies above; the next statement then goes through the null pointer.
\<close>

partial_function (option) find_last :: "chunks \<Rightarrow> ptr \<Rightarrow> ptr \<Rightarrow> ptr option" where
  "find_last h cur lst =
     (if lst = NULL then Some lst
      else do {
        l \<leftarrow> h lst;
        if cur > lst \<and> cur < ch_next l then Some lst else find_last h cur (ch_next l)
      })"

definition free :: "ptr \<Rightarrow> ptr \<Rightarrow> chunks \<Rightarrow> chunks option" where
  "free heap addr h = do {
     let cur = addr - SIZEOF_CHUNK;
     lst \<leftarrow> find_last h cur heap;
     l \<leftarrow> h lst;
     c \<leftarrow> h cur;
     let h = h(cur \<mapsto> c\<lparr>ch_next := ch_next l\<rparr>, lst \<mapsto> l\<lparr>ch_next := cur\<rparr>);
     h \<leftarrow> (if lst + ch_size l = cur then do {
             l \<leftarrow> h lst;
             c \<leftarrow> h cur;
             Some (h(lst \<mapsto> l\<lparr>ch_size := to_size (int (ch_size l + ch_size c)), ch_next := ch_next c\<rparr>))
           } else Some h);
     l \<leftarrow> h lst;
     if lst + ch_size l = ch_next l then do {
       n \<leftarrow> h (ch_next l);
       Some (h(lst \<mapsto> l\<lparr>ch_size := to_size (int (ch_size l + ch_size n)), ch_next := ch_next n\<rparr>))
     } else Some h
   }"

section \<open>The list of free chunks\<close>

text \<open>
  \<open>free_list h s fs\<close>: from the head \<open>s\<close>, the free chunks are \<open>fs\<close> in the order of their addresses.
\<close>

abbreviation cnext :: "chunks \<Rightarrow> ptr \<rightharpoonup> ptr" where
  "cnext h \<equiv> (\<lambda>p. map_option ch_next (h p))"

definition csize :: "chunks \<Rightarrow> ptr \<Rightarrow> nat" where
  "csize h p = (case h p of None \<Rightarrow> 0 | Some c \<Rightarrow> ch_size c)"

definition free_list :: "chunks \<Rightarrow> ptr \<Rightarrow> ptr list \<Rightarrow> bool" where
  "free_list h s fs \<longleftrightarrow> chain (cnext h) s (s # fs) \<and> sorted_wrt (<) (s # fs)"

lemma chain_at:
  "chain nx p (as @ l # bs) \<Longrightarrow> l \<noteq> NULL \<and> (\<exists>q. nx l = Some q \<and> chain nx q bs)"
  by (induction as arbitrary: p) (auto split: option.splits)

lemma chain_splice:
  "chain nx p (as @ l # bs) \<Longrightarrow> \<forall>a\<in>set as. nx' a = nx a \<Longrightarrow> nx' l = Some q \<Longrightarrow> chain nx' q cs \<Longrightarrow>
   chain nx' p (as @ l # cs)"
  by (induction as arbitrary: p) (auto split: option.splits)

text \<open>The search of \<^verbatim>\<open>malloc\<close> returns the first free chunk that is large enough, and the one before it.\<close>

lemma find_chunk_chain:
  "chain (cnext h) cur (pre @ c # post) \<Longrightarrow> \<forall>a\<in>set pre. csize h a < to_size fixed \<Longrightarrow> to_size fixed \<le> csize h c \<Longrightarrow>
   find_chunk h fixed lst cur = Some (last (lst # pre), c)"
proof (induction pre arbitrary: lst cur)
  case Nil
  then show ?case by (auto simp: find_chunk.simps csize_def split: option.splits)
next
  case (Cons a pre)
  then obtain x where "cur = a" "a \<noteq> NULL" "h a = Some x" "chain (cnext h) (ch_next x) (pre @ c # post)"
    by (auto split: option.splits)
  with Cons show ?case by (subst find_chunk.simps) (auto simp: csize_def)
qed

lemma find_chunk_none:
  "chain (cnext h) cur fs \<Longrightarrow> \<forall>a\<in>set fs. csize h a < to_size fixed \<Longrightarrow> \<exists>l. find_chunk h fixed lst cur = Some (l, NULL)"
proof (induction fs arbitrary: lst cur)
  case Nil
  then show ?case by (simp add: find_chunk.simps)
next
  case (Cons a fs)
  then obtain x where "cur = a" "a \<noteq> NULL" "h a = Some x" "chain (cnext h) (ch_next x) fs"
    by (auto split: option.splits)
  with Cons show ?case by (subst find_chunk.simps) (auto simp: csize_def)
qed

lemma malloc_none:
  assumes "free_list h s fs" and "\<forall>a\<in>set fs. csize h a < to_size (fixed_of sz)"
  shows "malloc s sz h = Some (NULL, h)"
proof -
  obtain x where x: "h s = Some x" "chain (cnext h) (ch_next x) fs"
    using assms(1) by (auto simp: free_list_def split: option.splits)
  obtain l where "find_chunk h (fixed_of sz) s (ch_next x) = Some (l, NULL)"
    using find_chunk_none [OF x(2) assms(2), of s] by blast
  then show ?thesis using x(1) by (simp add: malloc_def)
qed

text \<open>The rounded size for the sizes that do not overflow.\<close>

lemma fixed_of_eq:
  assumes "0 < sz" and "sz < 2 ^ 31 - 64"
  shows "fixed_of sz = (sz + 31) div 16 * 16" and "sz + 16 \<le> fixed_of sz" and "fixed_of sz < sz + 32"
    and "to_size (fixed_of sz) = nat (fixed_of sz)"
proof -
  have "(sz + 31) div 16 * 16 \<le> sz + 31" "sz + 16 \<le> (sz + 31) div 16 * 16"
    by (simp_all add: minus_mod_eq_div_mult [symmetric])
  then show a: "fixed_of sz = (sz + 31) div 16 * 16"
    using assms by (simp add: fixed_of_def SIZEOF_CHUNK_def HEAPUNIT_SZ_def wrap32_id add.commute)
  show "sz + 16 \<le> fixed_of sz" "fixed_of sz < sz + 32"
    unfolding a using \<open>(sz + 31) div 16 * 16 \<le> sz + 31\<close> \<open>sz + 16 \<le> (sz + 31) div 16 * 16\<close> by simp_all
  then show "to_size (fixed_of sz) = nat (fixed_of sz)" using assms by (simp add: to_size_def)
qed

text \<open>\<^verbatim>\<open>free\<close> of a chunk above all free ones goes through the null pointer.\<close>

lemma find_last_above:
  "chain (cnext h) p fs \<Longrightarrow> \<forall>a\<in>set fs. a < c \<Longrightarrow> find_last h c p = Some NULL"
proof (induction fs arbitrary: p)
  case Nil
  then show ?case by (simp add: find_last.simps)
next
  case (Cons a fs)
  then obtain x where x: "p = a" "a \<noteq> NULL" "h a = Some x" "chain (cnext h) (ch_next x) fs"
    by (auto split: option.splits)
  have "\<not> c < ch_next x"
  proof (cases fs)
    case Nil
    then show ?thesis using x(4) by simp
  next
    case (Cons b bs)
    then have "ch_next x = b" using x(4) by simp
    then show ?thesis using Cons Cons.prems(2) by auto
  qed
  with Cons x show ?case by (subst find_last.simps) simp
qed

lemma free_top_faults:
  assumes "free_list h s fs" and "\<forall>a\<in>set (s # fs). a < p - SIZEOF_CHUNK" and "h NULL = None"
  shows "free s p h = None"
  using find_last_above [of h s "s # fs" "p - SIZEOF_CHUNK"] assms by (simp add: free_def free_list_def)

lemma find_last_between:
  "chain (cnext h) p (as @ l # b # bs) \<Longrightarrow> sorted_wrt (<) (as @ l # b # bs) \<Longrightarrow> l < c \<Longrightarrow> c < b \<Longrightarrow> find_last h c p = Some l"
proof (induction as arbitrary: p)
  case Nil
  then show ?case by (auto simp: find_last.simps split: option.splits)
next
  case (Cons a as)
  then obtain x where x: "p = a" "a \<noteq> NULL" "h a = Some x" "chain (cnext h) (ch_next x) (as @ l # b # bs)"
    by (auto split: option.splits)
  have "ch_next x \<le> l" using x(4) Cons.prems(2) by (cases as) auto
  then have "\<not> c < ch_next x" using Cons.prems(3) by simp
  with Cons x show ?case by (subst find_last.simps) simp
qed

text \<open>The chunk goes back between its neighbours in the list.\<close>

lemma free_between:
  assumes fl: "free_list h s fs" and f: "s # fs = as @ l # b # bs" and c: "l < c" "c < b" "h c = Some x"
    and gap: "l + csize h l \<noteq> c" "c \<noteq> NULL"
  shows "\<exists>h'. free s (c + SIZEOF_CHUNK) h = Some h' \<and> free_list h' s (tl (as @ l # c # b # bs))
     \<and> csize h' c = csize h c"
proof -
  have ch: "chain (cnext h) s (as @ l # b # bs)" "sorted_wrt (<) (as @ l # b # bs)" using fl f by (simp_all add: free_list_def)
  have fl: "find_last h c s = Some l" by (rule find_last_between [OF ch c(1,2)])
  obtain y where y: "h l = Some y" "ch_next y = b" using chain_at [OF ch(1)] by (auto split: option.splits)
  let ?h = "h(c \<mapsto> x\<lparr>ch_next := b\<rparr>, l \<mapsto> y\<lparr>ch_next := c\<rparr>)"
  have g: "l + ch_size y \<noteq> c" "l \<noteq> c" using gap y c by (auto simp: csize_def)
  have "free s (c + SIZEOF_CHUNK) h = Some ?h"
    using fl y c(3) g by (simp add: free_def)
  moreover have notin: "c \<notin> set (as @ l # b # bs)" using ch(2) c by (auto simp: sorted_wrt_append)
  moreover have "l \<notin> set as" using ch(2) by (auto simp: sorted_wrt_append)
  moreover have "chain (cnext ?h) b (b # bs)"
  proof -
    have "l \<notin> set (b # bs)" using ch(2) by (auto simp: sorted_wrt_append)
    then have "chain (cnext ?h) b (b # bs) = chain (cnext h) b (b # bs)"
      using notin by (intro chain_cong) auto
    then show ?thesis using chain_at [OF ch(1)] y by auto
  qed
  ultimately have "chain (cnext ?h) s (as @ l # c # b # bs)"
    using gap(2) g(2) by (intro chain_splice [OF ch(1), of _ c "c # b # bs"]) auto
  moreover have "sorted_wrt (<) (as @ l # c # b # bs)" using ch(2) c(1,2) by (auto simp: sorted_wrt_append)
  moreover have "as @ l # c # b # bs = s # tl (as @ l # c # b # bs)" using f by (cases as) auto
  ultimately have "free_list ?h s (tl (as @ l # c # b # bs))" unfolding free_list_def by metis
  moreover have "csize ?h c = csize h c" using c(3) g(2) by (simp add: csize_def)
  ultimately show ?thesis using \<open>free s (c + SIZEOF_CHUNK) h = Some ?h\<close> by blast
qed

section \<open>Properties\<close>

text \<open>
  Where \<^verbatim>\<open>malloc\<close> cuts: a chunk of more than 128 bytes of which at least 16 remain.  \<open>rest_of\<close> is the header
  of the remainder.
\<close>

definition cuts :: "chunks \<Rightarrow> ptr \<Rightarrow> int \<Rightarrow> bool" where
  "cuts h c sz \<longleftrightarrow> 128 < csize h c \<and> nat (fixed_of sz) + 16 \<le> csize h c"

definition rest_of :: "ptr \<Rightarrow> int \<Rightarrow> ptr" where
  "rest_of c sz = c + SIZEOF_CHUNK + nat (fixed_of sz)"

lemma malloc_first_fit_ok:
  assumes fl: "free_list h s (pre @ c # post)" and sz: "0 < sz" "sz < 2 ^ 31 - 64"
    and small: "\<forall>a\<in>set pre. csize h a < nat (fixed_of sz)" and fit: "nat (fixed_of sz) \<le> csize h c" "csize h c < 2 ^ 31"
    and room: "\<forall>b\<in>set post. c + SIZEOF_CHUNK + csize h c \<le> b" and fresh: "h (rest_of c sz) = None"
  shows "\<exists>h'. malloc s sz h = Some (c + SIZEOF_CHUNK, h')
     \<and> free_list h' s (pre @ (if cuts h c sz then [rest_of c sz] else []) @ post)
     \<and> csize h' c = (if cuts h c sz then nat (fixed_of sz) else csize h c)
     \<and> csize h' (rest_of c sz) = (if cuts h c sz then csize h c - nat (fixed_of sz) else 0)
     \<and> (\<forall>a. a \<noteq> c \<longrightarrow> a \<noteq> rest_of c sz \<longrightarrow> csize h' a = csize h a)"
proof -
  note fx = fixed_of_eq [OF sz]
  let ?f = "nat (fixed_of sz)" and ?new = "rest_of c sz"
  obtain ini l where pre: "s # pre = ini @ [l]" by (cases "s # pre" rule: rev_cases) auto
  have l: "last (s # pre) = l" unfolding pre by simp
  have ch: "chain (cnext h) s (ini @ l # c # post)" and srt: "sorted_wrt (<) (ini @ l # c # post)"
  proof -
    have "s # pre @ c # post = ini @ l # c # post" using pre by (metis append.assoc append_Cons append_Nil)
    then show "chain (cnext h) s (ini @ l # c # post)" "sorted_wrt (<) (ini @ l # c # post)"
      using fl unfolding free_list_def by metis+
  qed
  obtain x where x: "h s = Some x" "chain (cnext h) (ch_next x) (pre @ c # post)"
    using fl by (auto simp: free_list_def split: option.splits)
  have fc: "find_chunk h (fixed_of sz) s (ch_next x) = Some (l, c)"
    using find_chunk_chain [OF x(2), of "fixed_of sz" s] small fit fx(4) l by simp
  obtain y where y: "h l = Some y" "ch_next y = c" "chain (cnext h) c (c # post)"
    using chain_at [OF ch] by (auto split: option.splits)
  obtain z where z: "h c = Some z" "c \<noteq> NULL" "chain (cnext h) (ch_next z) post"
    using y(3) by (auto split: option.splits)
  have cz: "csize h c = ch_size z" using z by (simp add: csize_def)
  have f0: "0 < fixed_of sz" using fx(2) sz by simp
  have rem: "wrap32 (int (ch_size z) - fixed_of sz) = int (ch_size z) - fixed_of sz"
  proof (rule wrap32_id)
    have "fixed_of sz \<le> int (ch_size z)" using fit(1) by (simp add: cz nat_le_iff)
    then show "- (2 ^ 31) \<le> int (ch_size z) - fixed_of sz" by simp
    have "int (ch_size z) < 2 ^ 31" using fit(2) by (simp add: cz)
    then show "int (ch_size z) - fixed_of sz < 2 ^ 31" using f0 by simp
  qed
  have ne: "l \<noteq> c" "l < c" "l \<notin> set ini" "c \<notin> set ini" "l \<notin> set post" "c \<notin> set post"
    using srt by (auto simp: sorted_wrt_append)
  have whole: "s # pre @ qs = ini @ l # qs" for qs using pre by (metis append.assoc append_Cons append_Nil)
  show ?thesis
  proof (cases "cuts h c sz")
    case True
    let ?h = "h(?new \<mapsto> \<lparr>ch_size = to_size (int (ch_size z) - fixed_of sz), ch_used = False, ch_next = ch_next z\<rparr>,
       l \<mapsto> y\<lparr>ch_next := ?new\<rparr>, c \<mapsto> z\<lparr>ch_size := to_size (fixed_of sz), ch_used := True, ch_next := NULL\<rparr>)"
    have new: "?new \<noteq> c" "c < ?new" "?new \<noteq> l" using ne(2) by (simp_all add: rest_of_def SIZEOF_CHUNK_def)
    have "nat (int c + int SIZEOF_CHUNK + fixed_of sz) = ?new" using f0 by (simp add: rest_of_def nat_add_distrib)
    moreover have "16 \<le> int (ch_size z) - fixed_of sz" using True f0 cz by (auto simp: cuts_def)
    ultimately have run: "malloc s sz h = Some (c + SIZEOF_CHUNK, ?h)"
      using sz x(1) fc z y True cz rem by (simp add: malloc_def cuts_def HEAPDIV_MIN_SZ_def HEAPUNIT_SZ_def Let_def)
    have np: "?new \<notin> set post" "?new \<notin> set ini"
      using chain_in_dom [OF z(3), of ?new] chain_in_dom [OF ch, of ?new] fresh by auto
    have "chain (cnext ?h) (ch_next z) post"
      using z(3) np ne by (subst chain_cong [of post _ "cnext h"]) auto
    then have "chain (cnext ?h) s (ini @ l # ?new # post)"
      using np ne new z(2) by (intro chain_splice [OF ch, of _ ?new "?new # post"]) auto
    moreover have "sorted_wrt (<) (ini @ l # ?new # post)"
    proof -
      have "?new < b" if "b \<in> set post" for b
      proof -
        have "c + SIZEOF_CHUNK + csize h c \<le> b" using room that by blast
        moreover have "?new + 16 \<le> c + SIZEOF_CHUNK + csize h c" using True by (simp add: rest_of_def cuts_def)
        ultimately show ?thesis by simp
      qed
      then show ?thesis using srt new(2) ne(2) by (auto simp: sorted_wrt_append)
    qed
    ultimately have "free_list ?h s (pre @ ?new # post)" using whole [of "?new # post"] unfolding free_list_def by metis
    moreover have "csize ?h ?new = csize h c - ?f"
    proof -
      have "to_size (int (ch_size z) - fixed_of sz) = nat (int (ch_size z) - fixed_of sz)"
        using fit cz f0 by (simp add: to_size_def)
      then show ?thesis using new cz f0 by (simp add: csize_def)
    qed
    moreover have "csize ?h c = ?f" using fx(4) by (simp add: csize_def)
    moreover have "csize ?h a = csize h a" if "a \<noteq> c" "a \<noteq> ?new" for a using that y by (simp add: csize_def)
    ultimately show ?thesis using run True by (intro exI [of _ ?h]) simp
  next
    case False
    let ?h = "h(l \<mapsto> y\<lparr>ch_next := ch_next z\<rparr>, c \<mapsto> z\<lparr>ch_used := True, ch_next := NULL\<rparr>)"
    have "\<not> (ch_size z > HEAPDIV_MIN_SZ \<and> wrap32 (int (ch_size z) - fixed_of sz) \<ge> int HEAPUNIT_SZ)"
      unfolding rem using False cz f0 by (simp add: cuts_def HEAPDIV_MIN_SZ_def HEAPUNIT_SZ_def) linarith
    then have run: "malloc s sz h = Some (c + SIZEOF_CHUNK, ?h)"
      using sz x(1) fc z y by (auto simp: malloc_def Let_def)
    have "chain (cnext ?h) (ch_next z) post"
      using z(3) ne by (subst chain_cong [of post _ "cnext h"]) auto
    then have "chain (cnext ?h) s (ini @ l # post)"
      using ne by (intro chain_splice [OF ch, of _ "ch_next z"]) auto
    moreover have "sorted_wrt (<) (ini @ l # post)" using srt by (auto simp: sorted_wrt_append)
    ultimately have "free_list ?h s (pre @ post)" using whole [of post] unfolding free_list_def by metis
    moreover have "csize ?h c = csize h c" "csize ?h (rest_of c sz) = 0"
      using z(1) y(1) fresh by (auto simp: csize_def)
    moreover have "csize ?h a = csize h a" if "a \<noteq> c" for a using that y by (simp add: csize_def)
    ultimately show ?thesis using run False by (intro exI [of _ ?h]) simp
  qed
qed

text \<open>
  \<^verbatim>\<open>malloc\<close> takes the first free chunk that is large enough for the rounded size, and returns the address
  behind its header: the chunk leaves the free list, which stays linked and in the order of addresses; what
  remains of a large chunk takes its place, and no other chunk changes.
\<close>

theorem malloc_first_fit:
  assumes "free_list h s (pre @ c # post)" and "0 < sz" and "sz < 2 ^ 31 - 64"
    and "\<forall>a\<in>set pre. csize h a < nat (fixed_of sz)" and "nat (fixed_of sz) \<le> csize h c" and "csize h c < 2 ^ 31"
    and "\<forall>b\<in>set post. c + SIZEOF_CHUNK + csize h c \<le> b" and "h (rest_of c sz) = None"
  shows "\<exists>h'. malloc s sz h = Some (c + SIZEOF_CHUNK, h')
     \<and> free_list h' s (pre @ (if cuts h c sz then [rest_of c sz] else []) @ post)
     \<and> csize h' c = (if cuts h c sz then nat (fixed_of sz) else csize h c)
     \<and> csize h' (rest_of c sz) = (if cuts h c sz then csize h c - nat (fixed_of sz) else 0)
     \<and> (\<forall>a. a \<noteq> c \<longrightarrow> a \<noteq> rest_of c sz \<longrightarrow> csize h' a = csize h a)"
  by (rule malloc_first_fit_ok [OF assms])

text \<open>A heap of 64 KiB at 4096.\<close>

definition example_heap :: chunks where
  "example_heap = init_heap 4096 69632 Map.empty"

lemma example_heap_eq: "example_heap = [4096 \<mapsto> \<lparr>ch_size = 2 ^ 63 - 1, ch_used = False, ch_next = 4112\<rparr>,
    4112 \<mapsto> \<lparr>ch_size = 65520, ch_used = False, ch_next = NULL\<rparr>]"
  by (simp add: example_heap_def init_heap_def SIZEOF_CHUNK_def to_size_def wrap32_id Let_def)

lemma example_free_list: "free_list example_heap 4096 ([] @ 4112 # [])"
  by (simp add: free_list_def example_heap_eq)

theorem malloc_first_fit_witness:
  "\<exists>h'. malloc 4096 480 example_heap = Some (4128, h') \<and> free_list h' 4096 [4624] \<and> csize h' 4112 = 496"
proof -
  have f: "fixed_of 480 = 496" by (simp add: fixed_of_eq(1))
  have c: "cuts example_heap 4112 480" by (simp add: cuts_def f csize_def example_heap_eq)
  show ?thesis
    using malloc_first_fit [OF example_free_list, of 480] c
    by (auto simp: f rest_of_def SIZEOF_CHUNK_def csize_def example_heap_eq)
qed

lemma find_chunk_step:
  "find_chunk h fixed l NULL = Some (l, NULL)"
  "p \<noteq> NULL \<Longrightarrow> h p = Some c \<Longrightarrow> find_chunk h fixed l p
     = (if ch_size c < to_size fixed then find_chunk h fixed p (ch_next c) else Some (l, p))"
  by (subst find_chunk.simps, simp)+

lemma find_last_step:
  "p \<noteq> NULL \<Longrightarrow> h p = Some l \<Longrightarrow> find_last h c p = (if c > p \<and> c < ch_next l then Some p else find_last h c (ch_next l))"
  by (subst find_last.simps) simp

text \<open>A run of calls, and the addresses of two blocks that are in use after it.\<close>

definition overlap_run :: "(ptr \<times> ptr) option" where
  "overlap_run = do {
     (a, h) \<leftarrow> malloc 4096 480 example_heap;
     (b, h) \<leftarrow> malloc 4096 100 h;
     h \<leftarrow> free 4096 a h;
     (_, h) \<leftarrow> malloc 4096 100 h;
     (_, h) \<leftarrow> malloc 4096 100 h;
     (_, h) \<leftarrow> malloc 4096 100 h;
     (d, h) \<leftarrow> malloc 4096 96 h;
     Some (b, d)
   }"

lemma fixed_values: "fixed_of 480 = 496" "fixed_of 100 = 128" "fixed_of 96 = 112"
  by (simp_all add: fixed_of_eq(1))

text \<open>
  Blocks overlap: a chunk that was freed is cut three times, and a fourth request takes what the accounting
  says is left of it.  The result reaches 16 bytes into the data of the block above, which is still in use.
\<close>

theorem malloc_blocks_overlap:
  "\<exists>b d. overlap_run = Some (b, d) \<and> {b..<b + 100} \<inter> {d..<d + 96} = {b..<b + 16}"
proof -
  have "overlap_run = Some (4640, 4560)"
    unfolding overlap_run_def example_heap_eq
    by (simp add: malloc_def free_def find_chunk_step find_last_step fixed_values SIZEOF_CHUNK_def HEAPDIV_MIN_SZ_def
        HEAPUNIT_SZ_def to_size_def wrap32_id Let_def)
  then show ?thesis by (intro exI [of _ 4640] exI [of _ 4560]) auto
qed

end
