(* ===== verification/Fifo.thy ===== *)
theory Fifo
  imports Prelude
begin

text \<open>
  The shared byte FIFO of \<^verbatim>\<open>libs/libfifo/fifo.c\<close>: a ring in shared memory, guarded by three semaphores, that any
  number of threads write and read.  A thread's run through \<^verbatim>\<open>fifo_write_byte\<close> or \<^verbatim>\<open>fifo_read_byte\<close> is a
  sequence of steps, one per call or assignment, and the steps of the threads interleave in any order.  The
  lemmas show that no byte is lost, duplicated or reordered when the ring is as large as the count of its
  semaphores, and that \<^verbatim>\<open>create_fifo\<close> does not always make it so.
\<close>

section \<open>The semaphores\<close>

text \<open>
  A semaphore as the kernel keeps it (\<^verbatim>\<open>kernel/task/signal.c\<close>, not soft): its count, which goes below zero by
  one per waiting thread, its maximum and its queue.  A thread in the queue runs again when \<^verbatim>\<open>up\<close> takes it out.
  \<open>FifoSems\<close> shows that the operations of the kernel do this.
\<close>

record sem =
  sem_count :: int
  sem_max :: int
  sem_queue :: "nat list"

definition sem_down :: "nat \<Rightarrow> sem \<Rightarrow> sem" where
  "sem_down t s = s\<lparr>sem_count := sem_count s - 1,
     sem_queue := if sem_count s - 1 < 0 then sem_queue s @ [t] else sem_queue s\<rparr>"

definition sem_up :: "sem \<Rightarrow> sem" where
  "sem_up s = (let c = (if sem_count s < sem_max s then sem_count s + 1 else sem_count s) in
     s\<lparr>sem_count := c, sem_queue := if c \<le> 0 then tl (sem_queue s) else sem_queue s\<rparr>)"

section \<open>The FIFO\<close>

record fifo =
  mutex :: sem
  empty :: sem
  full :: sem
  write_offset :: nat
  read_offset :: nat
  fifo_size :: nat
  used_size :: nat
  buffer :: "nat \<Rightarrow> u8"

definition SIZEOF_FIFO :: nat where
  "SIZEOF_FIFO = 48"

text \<open>\<^verbatim>\<open>create_fifo\<close>; \<open>junk\<close> is what the shared pages hold.  A size that is not representable wraps.\<close>

definition fifo_pages :: "nat \<Rightarrow> nat" where
  "fifo_pages n = (n + MEMUNIT_SZ - 1) div MEMUNIT_SZ"

definition create_signal :: "nat \<Rightarrow> nat \<Rightarrow> sem" where
  "create_signal mx v = \<lparr>sem_count = wrap32 (int v), sem_max = wrap32 (int mx), sem_queue = []\<rparr>"

definition create_fifo :: "(nat \<Rightarrow> u8) \<Rightarrow> nat \<Rightarrow> fifo" where
  "create_fifo junk n = \<lparr>mutex = create_signal 1 1, empty = create_signal n n, full = create_signal n 0,
     write_offset = 0, read_offset = 0, fifo_size = (2 ^ 64 + fifo_pages n * MEMUNIT_SZ - SIZEOF_FIFO) mod 2 ^ 64,
     used_size = 0, buffer = junk\<rparr>"

text \<open>The number of pages that \<^verbatim>\<open>share_fifo\<close> shares, and the three queries.\<close>

definition share_fifo_pages :: "fifo \<Rightarrow> nat" where
  "share_fifo_pages f = (fifo_size f + SIZEOF_FIFO) mod 2 ^ 64 div MEMUNIT_SZ"

definition fifo_get_size :: "fifo \<Rightarrow> nat" where
  "fifo_get_size f = fifo_size f"

definition fifo_get_used_size :: "fifo \<Rightarrow> nat" where
  "fifo_get_used_size f = used_size f"

definition fifo_get_free_size :: "fifo \<Rightarrow> nat" where
  "fifo_get_free_size f = (2 ^ 64 + fifo_get_size f - fifo_get_used_size f) mod 2 ^ 64"

text \<open>The offset after the next byte.\<close>

definition advance :: "fifo \<Rightarrow> nat \<Rightarrow> nat" where
  "advance f off = (if off + 1 = fifo_size f then 0 else off + 1)"

section \<open>Steps\<close>

text \<open>
  Where a thread is: outside; in \<^verbatim>\<open>fifo_write_byte\<close> after the \<^verbatim>\<open>down\<close> of \<^verbatim>\<open>empty\<close>, after that of \<^verbatim>\<open>mutex\<close>, after the
  store, after the offset has moved, and after the \<^verbatim>\<open>up\<close> of \<^verbatim>\<open>mutex\<close>; likewise in \<^verbatim>\<open>fifo_read_byte\<close>, with the byte
  it has read.  \<open>sent\<close> and \<open>got\<close> record the bytes in the order in which the offsets moved.
\<close>

datatype pc = Idle | W1 u8 | W2 u8 | W3 u8 | W4 | W5 | R1 | R2 | R3 u8 | R4 u8 | R5 u8

record system =
  ring :: fifo
  pcs :: "nat \<Rightarrow> pc"
  sent :: "u8 list"
  got :: "u8 list"

definition waits :: "nat \<Rightarrow> fifo \<Rightarrow> bool" where
  "waits t f \<longleftrightarrow> t \<in> set (sem_queue (mutex f)) \<union> set (sem_queue (empty f)) \<union> set (sem_queue (full f))"

text \<open>
  The next step of thread \<open>t\<close>; a thread outside starts to write a byte or to read.  A thread in a queue has none.
\<close>

definition act :: "nat \<Rightarrow> u8 option \<Rightarrow> system \<Rightarrow> system" where
  "act t call s =
     (let f = ring s; go = (\<lambda>p f. s\<lparr>ring := f, pcs := (pcs s)(t := p)\<rparr>) in
      case pcs s t of
          Idle \<Rightarrow> (case call of Some b \<Rightarrow> go (W1 b) (f\<lparr>empty := sem_down t (empty f)\<rparr>)
                    | None \<Rightarrow> go R1 (f\<lparr>full := sem_down t (full f)\<rparr>))
        | W1 b \<Rightarrow> go (W2 b) (f\<lparr>mutex := sem_down t (mutex f)\<rparr>)
        | W2 b \<Rightarrow> go (W3 b) (f\<lparr>buffer := (buffer f)(write_offset f := b)\<rparr>)
        | W3 b \<Rightarrow> (go W4 (f\<lparr>write_offset := advance f (write_offset f)\<rparr>))\<lparr>sent := sent s @ [b]\<rparr>
        | W4 \<Rightarrow> go W5 (f\<lparr>mutex := sem_up (mutex f)\<rparr>)
        | W5 \<Rightarrow> go Idle (f\<lparr>full := sem_up (full f)\<rparr>)
        | R1 \<Rightarrow> go R2 (f\<lparr>mutex := sem_down t (mutex f)\<rparr>)
        | R2 \<Rightarrow> go (R3 (buffer f (read_offset f))) f
        | R3 d \<Rightarrow> (go (R4 d) (f\<lparr>read_offset := advance f (read_offset f)\<rparr>))\<lparr>got := got s @ [d]\<rparr>
        | R4 d \<Rightarrow> go (R5 d) (f\<lparr>mutex := sem_up (mutex f)\<rparr>)
        | R5 d \<Rightarrow> go Idle (f\<lparr>empty := sem_up (empty f)\<rparr>))"

definition step :: "nat \<Rightarrow> u8 option \<Rightarrow> system \<Rightarrow> system option" where
  "step t call s = (if waits t (ring s) then None else Some (act t call s))"

definition start :: "(nat \<Rightarrow> u8) \<Rightarrow> nat \<Rightarrow> system" where
  "start junk n = \<lparr>ring = create_fifo junk n, pcs = (\<lambda>t. Idle), sent = [], got = []\<rparr>"

inductive reachable :: "nat set \<Rightarrow> system \<Rightarrow> system \<Rightarrow> bool" for T s0 where
  init: "reachable T s0 s0"
| next_step: "reachable T s0 s \<Longrightarrow> t \<in> T \<Longrightarrow> step t call s = Some s' \<Longrightarrow> reachable T s0 s'"

text \<open>One thread alone: \<^verbatim>\<open>fifo_write_bytes\<close> and \<^verbatim>\<open>fifo_read_bytes\<close> step by step; a thread that blocks is \<open>None\<close>.\<close>

primrec steps :: "nat \<Rightarrow> nat \<Rightarrow> u8 option \<Rightarrow> system \<Rightarrow> system option" where
  "steps 0 t call s = Some s"
| "steps (Suc n) t call s = do { s \<leftarrow> step t call s; steps n t call s }"

primrec fifo_write_bytes :: "nat \<Rightarrow> u8 list \<Rightarrow> system \<Rightarrow> system option" where
  "fifo_write_bytes t [] s = Some s"
| "fifo_write_bytes t (b # bs) s = do { s \<leftarrow> steps 6 t (Some b) s; fifo_write_bytes t bs s }"

primrec fifo_read_bytes :: "nat \<Rightarrow> nat \<Rightarrow> system \<Rightarrow> (u8 list \<times> system) option" where
  "fifo_read_bytes t 0 s = Some ([], s)"
| "fifo_read_bytes t (Suc n) s = do {
     s \<leftarrow> steps 5 t None s;
     b \<leftarrow> (case pcs s t of R5 b \<Rightarrow> Some b | _ \<Rightarrow> None);
     s \<leftarrow> steps 1 t None s;
     (bs, s) \<leftarrow> fifo_read_bytes t n s;
     Some (b # bs, s)
   }"

definition fifo_read_all :: "nat \<Rightarrow> system \<Rightarrow> (u8 list \<times> system) option" where
  "fifo_read_all t s = fifo_read_bytes t (used_size (ring s)) s"

section \<open>Counting threads\<close>

text \<open>
  \<open>in_slot\<close>: the thread has claimed a free slot and its byte is not in the ring, or has taken a byte out and not
  given the slot back.  \<open>in_byte\<close>: likewise for the bytes.  \<open>inside\<close>: it holds \<^verbatim>\<open>mutex\<close>, or waits for it.
\<close>

fun in_slot :: "pc \<Rightarrow> bool" where
  "in_slot (W1 b) = True" | "in_slot (W2 b) = True" | "in_slot (W3 b) = True"
| "in_slot (R4 b) = True" | "in_slot (R5 b) = True" | "in_slot _ = False"

fun in_byte :: "pc \<Rightarrow> bool" where
  "in_byte R1 = True" | "in_byte R2 = True" | "in_byte (R3 b) = True"
| "in_byte W4 = True" | "in_byte W5 = True" | "in_byte _ = False"

fun inside :: "pc \<Rightarrow> bool" where
  "inside (W2 b) = True" | "inside (W3 b) = True" | "inside W4 = True"
| "inside R2 = True" | "inside (R3 b) = True" | "inside (R4 b) = True" | "inside _ = False"

definition total :: "nat set \<Rightarrow> (pc \<Rightarrow> bool) \<Rightarrow> (nat \<Rightarrow> pc) \<Rightarrow> int" where
  "total T P ps = (\<Sum>t\<in>T. of_bool (P (ps t)))"

lemma total_upd [simp]:
  assumes "finite T" and "t \<in> T"
  shows "total T P (ps(t := p)) = total T P ps - of_bool (P (ps t)) + of_bool (P p)"
proof -
  have "(\<Sum>x\<in>T - {t}. of_bool (P ((ps(t := p)) x))) = (\<Sum>x\<in>T - {t}. of_bool (P (ps x)) :: int)"
    by (rule sum.cong) auto
  then show ?thesis using assms by (simp add: total_def sum.remove del: sum_of_bool_eq)
qed

lemma total_ge:
  assumes "finite T" and "distinct q" and "set q \<subseteq> T" and "\<forall>t\<in>set q. P (ps t)"
  shows "int (length q) \<le> total T P ps"
proof -
  have "int (length q) = (\<Sum>t\<in>set q. of_bool (P (ps t)))"
    using assms(2,4) by (simp add: distinct_card)
  also have "\<dots> \<le> total T P ps"
    unfolding total_def using assms(1,3) by (intro sum_mono2) auto
  finally show ?thesis .
qed

section \<open>The invariant\<close>

text \<open>A queue is as long as the count is below zero, without repetition, and of threads at the right place.\<close>

definition queue_ok :: "nat set \<Rightarrow> (pc \<Rightarrow> bool) \<Rightarrow> sem \<Rightarrow> (nat \<Rightarrow> pc) \<Rightarrow> bool" where
  "queue_ok T P m ps \<longleftrightarrow> distinct (sem_queue m) \<and> set (sem_queue m) \<subseteq> T \<and> (\<forall>t\<in>set (sem_queue m). P (ps t))
     \<and> length (sem_queue m) = nat (- sem_count m)"

fun at_empty :: "pc \<Rightarrow> bool" where
  "at_empty (W1 b) = True" | "at_empty _ = False"

fun at_full :: "pc \<Rightarrow> bool" where
  "at_full R1 = True" | "at_full _ = False"

fun at_mutex :: "pc \<Rightarrow> bool" where
  "at_mutex (W2 b) = True" | "at_mutex R2 = True" | "at_mutex _ = False"

definition queues :: "nat set \<Rightarrow> system \<Rightarrow> bool" where
  "queues T s \<longleftrightarrow> finite T \<and> queue_ok T at_empty (empty (ring s)) (pcs s) \<and> queue_ok T at_full (full (ring s)) (pcs s)
     \<and> queue_ok T at_mutex (mutex (ring s)) (pcs s)"

definition tokens :: "nat set \<Rightarrow> nat \<Rightarrow> u8 list \<Rightarrow> system \<Rightarrow> bool" where
  "tokens T n pd s \<longleftrightarrow> sent s = got s @ pd
     \<and> sem_count (empty (ring s)) + total T in_slot (pcs s) + int (length pd) = int n
     \<and> sem_count (full (ring s)) + total T in_byte (pcs s) = int (length pd)
     \<and> sem_count (mutex (ring s)) + total T inside (pcs s) = 1
     \<and> sem_max (empty (ring s)) = int n \<and> sem_max (full (ring s)) = int n \<and> sem_max (mutex (ring s)) = 1"

definition contents :: "nat set \<Rightarrow> u8 list \<Rightarrow> system \<Rightarrow> bool" where
  "contents T pd s \<longleftrightarrow> (let f = ring s in read_offset f < fifo_size f
     \<and> write_offset f = (read_offset f + length pd) mod fifo_size f
     \<and> (\<forall>i<length pd. buffer f ((read_offset f + i) mod fifo_size f) = pd ! i)
     \<and> (\<forall>t\<in>T. \<forall>b. pcs s t = W3 b \<longrightarrow> buffer f (write_offset f) = b)
     \<and> (\<forall>t\<in>T. \<forall>b. pcs s t = R3 b \<longrightarrow> pd \<noteq> [] \<and> hd pd = b))"

definition fifo_inv :: "nat set \<Rightarrow> nat \<Rightarrow> u8 list \<Rightarrow> system \<Rightarrow> bool" where
  "fifo_inv T n pd s \<longleftrightarrow> queues T s \<and> tokens T n pd s \<and> contents T pd s \<and> n \<le> fifo_size (ring s)"

text \<open>A thread that does not wait has its token beside those of the queue.\<close>

lemma token_bound:
  assumes "finite T" and "queue_ok T Q m ps" and "\<forall>p. Q p \<longrightarrow> P p" and "distinct ts" and "set ts \<subseteq> T"
    and "set ts \<inter> set (sem_queue m) = {}" and "\<forall>t\<in>set ts. P (ps t)"
  shows "int (length ts) \<le> total T P ps \<and> int (length ts) - sem_count m \<le> total T P ps"
proof -
  have "int (length (ts @ sem_queue m)) \<le> total T P ps"
    using assms by (intro total_ge) (auto simp: queue_ok_def)
  moreover have "int (length (sem_queue m)) = max 0 (- sem_count m)" using assms(2) by (simp add: queue_ok_def)
  ultimately show ?thesis by (simp add: max_def split: if_splits)
qed

lemma at_subset: "\<forall>p. at_empty p \<longrightarrow> in_slot p" "\<forall>p. at_full p \<longrightarrow> in_byte p" "\<forall>p. at_mutex p \<longrightarrow> inside p"
  by (rule allI, rename_tac p, case_tac p; simp)+

text \<open>What the counts say about a thread that runs.\<close>

lemma pending_bound:
  assumes "queues T s" and "tokens T n pd s"
  shows "length pd \<le> n"
    and "t \<in> T \<Longrightarrow> \<not> waits t (ring s) \<Longrightarrow> in_slot (pcs s t) \<Longrightarrow> length pd < n"
    and "t \<in> T \<Longrightarrow> \<not> waits t (ring s) \<Longrightarrow> in_byte (pcs s t) \<Longrightarrow> sem_count (full (ring s)) < int (length pd)"
    and "t \<in> T \<Longrightarrow> \<not> waits t (ring s) \<Longrightarrow> in_byte (pcs s t) \<Longrightarrow> pd \<noteq> []"
proof -
  have q: "finite T" "queue_ok T at_empty (empty (ring s)) (pcs s)" "queue_ok T at_full (full (ring s)) (pcs s)"
    using assms(1) by (simp_all add: queues_def)
  note e = token_bound [OF q(1,2) at_subset(1)] and f = token_bound [OF q(1,3) at_subset(2)]
  show "length pd \<le> n" using e [where ts = "[]"] assms(2) by (simp add: tokens_def)
  show "length pd < n" if "t \<in> T" "\<not> waits t (ring s)" "in_slot (pcs s t)"
    using e [where ts = "[t]"] that assms(2) by (simp add: tokens_def waits_def)
  show "sem_count (full (ring s)) < int (length pd)" "pd \<noteq> []" if "t \<in> T" "\<not> waits t (ring s)" "in_byte (pcs s t)"
    using f [where ts = "[t]"] that assms(2) by (auto simp: tokens_def waits_def)
qed

lemma mutual_exclusion:
  assumes "queues T s" and "tokens T n pd s" and "t \<in> T" "u \<in> T" and "\<not> waits t (ring s)" "\<not> waits u (ring s)"
    and "inside (pcs s t)" "inside (pcs s u)"
  shows "t = u"
proof (rule ccontr)
  assume ne: "t \<noteq> u"
  have q: "finite T" "queue_ok T at_mutex (mutex (ring s)) (pcs s)" using assms(1) by (simp_all add: queues_def)
  show False
    using token_bound [OF q at_subset(3), where ts = "[t, u]"] ne assms by (simp add: tokens_def waits_def)
qed

lemma mutex_count:
  assumes "queues T s" and "tokens T n pd s" and "t \<in> T" and "\<not> waits t (ring s)" and "inside (pcs s t)"
  shows "sem_count (mutex (ring s)) < 1"
proof -
  have q: "finite T" "queue_ok T at_mutex (mutex (ring s)) (pcs s)" using assms(1) by (simp_all add: queues_def)
  show ?thesis using token_bound [OF q at_subset(3), where ts = "[t]"] assms by (simp add: tokens_def waits_def)
qed

lemma empty_count:
  assumes "queues T s" and "tokens T n pd s" and "t \<in> T" and "\<not> waits t (ring s)" and "in_slot (pcs s t)"
  shows "sem_count (empty (ring s)) < int n"
proof -
  have q: "finite T" "queue_ok T at_empty (empty (ring s)) (pcs s)" using assms(1) by (simp_all add: queues_def)
  show ?thesis using token_bound [OF q at_subset(1), where ts = "[t]"] assms by (simp add: tokens_def waits_def)
qed

lemma start_inv:
  assumes "finite T" and "0 < n" and "n < 2 ^ 31" and "n \<le> fifo_size (create_fifo junk n)"
  shows "fifo_inv T n [] (start junk n)"
  using assms wrap32_id [of "int n"] wrap32_id [of 1] wrap32_id [of 0]
  by (auto simp: fifo_inv_def queues_def queue_ok_def tokens_def contents_def start_def create_fifo_def create_signal_def
      total_def Let_def)

lemma sem_simps [simp]:
  "sem_count (sem_down t m) = sem_count m - 1" "sem_max (sem_down t m) = sem_max m"
  "sem_max (sem_up m) = sem_max m" "sem_count m < sem_max m \<Longrightarrow> sem_count (sem_up m) = sem_count m + 1"
  by (simp_all add: sem_down_def sem_up_def Let_def)

lemma queue_ok_pc [simp]: "t \<notin> set (sem_queue m) \<Longrightarrow> queue_ok T P m (ps(t := p)) = queue_ok T P m ps"
  by (auto simp: queue_ok_def)

lemma queue_ok_down:
  "queue_ok T P m ps \<Longrightarrow> t \<in> T \<Longrightarrow> t \<notin> set (sem_queue m) \<Longrightarrow> P p \<Longrightarrow> queue_ok T P (sem_down t m) (ps(t := p))"
  by (auto simp: queue_ok_def sem_down_def)

lemma queue_ok_up:
  "queue_ok T P m ps \<Longrightarrow> sem_count m < sem_max m \<Longrightarrow> queue_ok T P (sem_up m) ps"
proof -
  assume q: "queue_ok T P m ps" and c: "sem_count m < sem_max m"
  have "set (tl (sem_queue m)) \<subseteq> set (sem_queue m)" by (cases "sem_queue m") auto
  with q c show ?thesis by (auto simp: queue_ok_def sem_up_def Let_def distinct_tl)
qed

lemma waits_simps: "\<not> waits t f \<longleftrightarrow> t \<notin> set (sem_queue (mutex f)) \<and> t \<notin> set (sem_queue (empty f)) \<and> t \<notin> set (sem_queue (full f))"
  by (auto simp: waits_def)

text \<open>What a step does to the counts and the queues.\<close>

definition shift :: "pc \<Rightarrow> u8 list \<Rightarrow> u8 list" where
  "shift p pd = (case p of W3 b \<Rightarrow> pd @ [b] | R3 b \<Rightarrow> tl pd | _ \<Rightarrow> pd)"

lemma act_queues:
  assumes q: "queues T s" and tk: "tokens T n pd s" and w: "\<not> waits t (ring s)" and t: "t \<in> T"
  shows "queues T (act t call s)"
proof -
  have mx: "sem_max (mutex (ring s)) = 1" "sem_max (empty (ring s)) = int n" "sem_max (full (ring s)) = int n"
    using tk by (simp_all add: tokens_def)
  note m = mutex_count [OF q tk t w, folded mx(1)] and e = empty_count [OF q tk t w, folded mx(2)]
  have f: "in_byte (pcs s t) \<Longrightarrow> sem_count (full (ring s)) < sem_max (full (ring s))"
    using pending_bound(1) [OF q tk] pending_bound(3) [OF q tk t w] mx(3) by simp
  note nw = w [unfolded waits_simps]
  show ?thesis
    using q t nw m e f
    by (cases "pcs s t"; cases call) (simp_all add: act_def Let_def queues_def queue_ok_down queue_ok_up)
qed

lemma act_tokens:
  assumes q: "queues T s" and tk: "tokens T n pd s" and w: "\<not> waits t (ring s)" and t: "t \<in> T"
    and hd: "\<forall>b. pcs s t = R3 b \<longrightarrow> pd \<noteq> [] \<and> hd pd = b"
  shows "tokens T n (shift (pcs s t) pd) (act t call s)"
proof -
  have mx: "sem_max (mutex (ring s)) = 1" "sem_max (empty (ring s)) = int n" "sem_max (full (ring s)) = int n"
    using tk by (simp_all add: tokens_def)
  note m = mutex_count [OF q tk t w, folded mx(1)] and e = empty_count [OF q tk t w, folded mx(2)]
  have f: "in_byte (pcs s t) \<Longrightarrow> sem_count (full (ring s)) < sem_max (full (ring s))"
    using pending_bound(1) [OF q tk] pending_bound(3) [OF q tk t w] mx(3) by simp
  have fin: "finite T" using q by (simp add: queues_def)
  show ?thesis
    using tk t fin m e f hd
    by (cases "pcs s t"; cases call) (auto simp: act_def Let_def tokens_def shift_def neq_Nil_conv)
qed

text \<open>The offsets, as indices modulo the size of the ring.\<close>

lemma advance_mod: "off < fifo_size f \<Longrightarrow> advance f off = (off + 1) mod fifo_size f"
  by (auto simp: advance_def)

lemma ring_index_neq: "i < k \<Longrightarrow> k < c \<Longrightarrow> (r + i) mod c \<noteq> (r + k) mod (c::nat)"
proof
  assume a: "i < k" "k < c" "(r + i) mod c = (r + k) mod c"
  then have "c dvd (r + k) - (r + i)" by (metis mod_eq_dvd_iff_nat add_le_cancel_left less_imp_le)
  then have "c dvd k - i" by simp
  then have "c \<le> k - i" using a by (intro dvd_imp_le) simp_all
  then show False using a by simp
qed

lemma contentsI:
  assumes "read_offset (ring s) < fifo_size (ring s)"
    and "write_offset (ring s) = (read_offset (ring s) + length pd) mod fifo_size (ring s)"
    and "\<And>i. i < length pd \<Longrightarrow> buffer (ring s) ((read_offset (ring s) + i) mod fifo_size (ring s)) = pd ! i"
    and "\<And>u b. u \<in> T \<Longrightarrow> pcs s u = W3 b \<Longrightarrow> buffer (ring s) (write_offset (ring s)) = b"
    and "\<And>u b. u \<in> T \<Longrightarrow> pcs s u = R3 b \<Longrightarrow> pd \<noteq> [] \<and> hd pd = b"
  shows "contents T pd s"
  using assms by (simp add: contents_def Let_def)

lemma contentsD:
  assumes "contents T pd s"
  shows "read_offset (ring s) < fifo_size (ring s)"
    and "write_offset (ring s) = (read_offset (ring s) + length pd) mod fifo_size (ring s)"
    and "i < length pd \<Longrightarrow> buffer (ring s) ((read_offset (ring s) + i) mod fifo_size (ring s)) = pd ! i"
    and "u \<in> T \<Longrightarrow> pcs s u = W3 b \<Longrightarrow> buffer (ring s) (write_offset (ring s)) = b"
    and "u \<in> T \<Longrightarrow> pcs s u = R3 b \<Longrightarrow> pd \<noteq> [] \<and> hd pd = b"
  using assms by (auto simp: contents_def Let_def)

lemma act_contents:
  assumes q: "queues T s" and tk: "tokens T n pd s" and w: "\<not> waits t (ring s)" and t: "t \<in> T"
    and c: "contents T pd s" and n: "n \<le> fifo_size (ring s)"
  shows "contents T (shift (pcs s t) pd) (act t call s)"
proof -
  let ?f = "ring s"
  have others: "\<not> waits u ?f" if "u \<in> T" "pcs s u = W3 b \<or> pcs s u = R3 b" for u b
    using q that by (auto simp: waits_def queues_def queue_ok_def)
  have alone: "u = t" if "inside (pcs s t)" "u \<in> T" "pcs s u = W3 b \<or> pcs s u = R3 b" for u b
    using mutual_exclusion [OF q tk that(2) t others [OF that(2,3)] w] that(1,3) by auto
  have room: "in_slot (pcs s t) \<Longrightarrow> length pd < fifo_size ?f" using pending_bound(2) [OF q tk t w] n by simp
  have ne: "in_byte (pcs s t) \<Longrightarrow> pd \<noteq> []" by (rule pending_bound(4) [OF q tk t w])
  note C = contentsD [OF c]
  show ?thesis
  proof (cases "pcs s t")
    case (W2 b)
    have a: "act t call s = s\<lparr>ring := ?f\<lparr>buffer := (buffer ?f)(write_offset ?f := b)\<rparr>, pcs := (pcs s)(t := W3 b)\<rparr>"
      using W2 by (simp add: act_def Let_def)
    have no: "pcs s u \<noteq> W3 x" "pcs s u \<noteq> R3 x" if "u \<in> T" for u x
      using alone [OF _ that, of x] W2 by auto
    have lp: "length pd < fifo_size ?f" using room W2 by simp
    have i: "(read_offset ?f + i) mod fifo_size ?f \<noteq> write_offset ?f" if "i < length pd" for i
      using C(2) ring_index_neq [OF that lp] by simp
    have sh: "shift (pcs s t) pd = pd" using W2 by (simp add: shift_def)
    show ?thesis unfolding a sh
    proof (rule contentsI)
      fix u x
      assume "u \<in> T"
      then have "pcs s u \<noteq> W3 x" by (rule no)
      moreover assume "pcs (s\<lparr>ring := ?f\<lparr>buffer := (buffer ?f)(write_offset ?f := b)\<rparr>, pcs := (pcs s)(t := W3 b)\<rparr>) u = W3 x"
      ultimately show "buffer (ring (s\<lparr>ring := ?f\<lparr>buffer := (buffer ?f)(write_offset ?f := b)\<rparr>, pcs := (pcs s)(t := W3 b)\<rparr>))
          (write_offset (ring (s\<lparr>ring := ?f\<lparr>buffer := (buffer ?f)(write_offset ?f := b)\<rparr>, pcs := (pcs s)(t := W3 b)\<rparr>))) = x"
        by (simp split: if_splits)
    qed (use C(1,2) C(3) i no(2) in \<open>simp_all split: if_splits\<close>)
  next
    case (W3 b)
    have a: "act t call s = s\<lparr>ring := ?f\<lparr>write_offset := advance ?f (write_offset ?f)\<rparr>, pcs := (pcs s)(t := W4), sent := sent s @ [b]\<rparr>"
      using W3 by (simp add: act_def Let_def)
    have no: "pcs s u \<noteq> R3 x" "u \<noteq> t \<Longrightarrow> pcs s u \<noteq> W3 x" if "u \<in> T" for u x
      using alone [OF _ that, of x] W3 by auto
    have lt: "write_offset ?f < fifo_size ?f" unfolding C(2) using C(1) by (intro mod_less_divisor) linarith
    have "buffer ?f (write_offset ?f) = b" using C(4) t W3 by blast
    then have i: "buffer ?f ((read_offset ?f + i) mod fifo_size ?f) = (pd @ [b]) ! i" if "i < length (pd @ [b])" for i
      using that C(2,3) by (cases "i < length pd") (auto simp: nth_append less_Suc_eq)
    have o: "advance ?f (write_offset ?f) = (read_offset ?f + length (pd @ [b])) mod fifo_size ?f"
      unfolding advance_mod [OF lt] by (simp add: C(2) mod_Suc_eq)
    have sh: "shift (pcs s t) pd = pd @ [b]" using W3 by (simp add: shift_def)
    show ?thesis unfolding a sh
      by (rule contentsI) (use C(1) i o no in \<open>simp_all split: if_splits\<close>)
  next
    case R2
    have a: "act t call s = s\<lparr>ring := ?f, pcs := (pcs s)(t := R3 (buffer ?f (read_offset ?f)))\<rparr>"
      using R2 by (simp add: act_def Let_def)
    have p0: "pd \<noteq> []" using ne R2 by simp
    have h: "buffer ?f (read_offset ?f) = hd pd" using C(3) [of 0] C(1) p0 by (simp add: hd_conv_nth)
    have sh: "shift (pcs s t) pd = pd" using R2 by (simp add: shift_def)
    show ?thesis unfolding a sh
      by (rule contentsI) (use C h p0 in \<open>simp_all split: if_splits\<close>)
  next
    case (R3 b)
    have a: "act t call s = s\<lparr>ring := ?f\<lparr>read_offset := advance ?f (read_offset ?f)\<rparr>, pcs := (pcs s)(t := R4 b), got := got s @ [b]\<rparr>"
      using R3 by (simp add: act_def Let_def)
    have no: "pcs s u \<noteq> W3 x" "u \<noteq> t \<Longrightarrow> pcs s u \<noteq> R3 x" if "u \<in> T" for u x
      using alone [OF _ that, of x] R3 by auto
    have "pd \<noteq> []" using ne R3 by simp
    then obtain x xs where pd: "pd = x # xs" by (cases pd) auto
    have r: "advance ?f (read_offset ?f) = (read_offset ?f + 1) mod fifo_size ?f" by (rule advance_mod [OF C(1)])
    have i: "buffer ?f (((read_offset ?f + 1) mod fifo_size ?f + i) mod fifo_size ?f) = xs ! i" if "i < length xs" for i
      using C(3) [of "Suc i"] that pd by (simp add: mod_add_left_eq)
    have o: "write_offset ?f = ((read_offset ?f + 1) mod fifo_size ?f + length xs) mod fifo_size ?f"
      unfolding C(2) pd by (simp add: mod_add_left_eq)
    have l: "(read_offset ?f + 1) mod fifo_size ?f < fifo_size ?f" using C(1) by (intro mod_less_divisor) linarith
    have sh: "shift (pcs s t) pd = xs" using R3 pd by (simp add: shift_def)
    show ?thesis unfolding a sh r
      by (rule contentsI) (use i o l no in \<open>simp_all split: if_splits\<close>)
  qed (rule contentsI; use C in \<open>cases call; auto simp: act_def Let_def shift_def split: if_splits\<close>)+
qed

lemma act_ring [simp]: "fifo_size (ring (act t call s)) = fifo_size (ring s)" "used_size (ring (act t call s)) = used_size (ring s)"
  by (simp_all add: act_def Let_def split: pc.splits option.splits)

lemma act_inv:
  assumes "fifo_inv T n pd s" and "t \<in> T" and "\<not> waits t (ring s)"
  shows "fifo_inv T n (shift (pcs s t) pd) (act t call s)"
proof -
  have i: "queues T s" "tokens T n pd s" "contents T pd s" "n \<le> fifo_size (ring s)" using assms(1) by (simp_all add: fifo_inv_def)
  have "\<forall>b. pcs s t = R3 b \<longrightarrow> pd \<noteq> [] \<and> hd pd = b" using contentsD(5) [OF i(3) assms(2)] by blast
  then show ?thesis
    using act_queues [OF i(1,2) assms(3,2)] act_tokens [OF i(1,2) assms(3,2)] act_contents [OF i(1,2) assms(3,2) i(3,4)] i(4)
    by (simp add: fifo_inv_def)
qed

lemma reachable_inv:
  assumes "reachable T s0 s" and "fifo_inv T n [] s0"
  shows "\<exists>pd. fifo_inv T n pd s"
  using assms(1)
proof (induction rule: reachable.induct)
  case init
  then show ?case using assms(2) by blast
next
  case (next_step s t call s')
  then obtain pd where "fifo_inv T n pd s" by blast
  then show ?case using act_inv [of T n pd s t call] next_step by (auto simp: step_def split: if_splits)
qed

lemma reachable_steps: "steps k t call s = Some s' \<Longrightarrow> t \<in> T \<Longrightarrow> reachable T s0 s \<Longrightarrow> reachable T s0 s'"
  by (induction k arbitrary: s) (auto simp: bind_iff intro: next_step)

lemma used_size_reachable: "reachable T s0 s \<Longrightarrow> used_size (ring s) = used_size (ring s0)"
  by (induction rule: reachable.induct) (auto simp: step_def split: if_splits)

text \<open>A thread that runs alone passes through a write or a read without waiting when the counts allow it.\<close>

definition quiet :: "nat \<Rightarrow> system \<Rightarrow> bool" where
  "quiet t s \<longleftrightarrow> \<not> waits t (ring s) \<and> pcs s t = Idle \<and> sem_count (mutex (ring s)) = 1 \<and> sem_max (mutex (ring s)) = 1"

lemma write_alone:
  assumes "quiet t s" and "0 < sem_count (empty (ring s))" and "0 \<le> sem_count (full (ring s))"
    and "sem_count (full (ring s)) < sem_max (full (ring s))"
  shows "\<exists>s'. steps 6 t (Some b) s = Some s' \<and> quiet t s'
     \<and> sem_count (empty (ring s')) = sem_count (empty (ring s)) - 1 \<and> sem_max (empty (ring s')) = sem_max (empty (ring s))
     \<and> sem_count (full (ring s')) = sem_count (full (ring s)) + 1 \<and> sem_max (full (ring s')) = sem_max (full (ring s))
     \<and> buffer (ring s') = (buffer (ring s))(write_offset (ring s) := b)
     \<and> write_offset (ring s') = advance (ring s) (write_offset (ring s)) \<and> read_offset (ring s') = read_offset (ring s)
     \<and> fifo_size (ring s') = fifo_size (ring s)"
  using assms
  by (simp add: quiet_def eval_nat_numeral step_def act_def Let_def waits_def sem_down_def sem_up_def advance_def)

text \<open>Writes of one thread, until the counts are used up; the ring wraps around.\<close>

lemma writes_alone:
  assumes "quiet t s" and "int (length bs) \<le> sem_count (empty (ring s))" and "0 \<le> sem_count (full (ring s))"
    and "sem_count (full (ring s)) + int (length bs) \<le> sem_max (full (ring s))"
  shows "\<exists>s'. fifo_write_bytes t bs s = Some s' \<and> quiet t s' \<and> read_offset (ring s') = read_offset (ring s)
     \<and> sem_count (full (ring s')) = sem_count (full (ring s)) + int (length bs)
     \<and> fifo_size (ring s') = fifo_size (ring s)
     \<and> (bs \<noteq> [] \<longrightarrow> write_offset (ring s) + length bs = fifo_size (ring s) + 1 \<longrightarrow> write_offset (ring s) < fifo_size (ring s) \<longrightarrow>
          buffer (ring s') 0 = last bs)"
  using assms
proof (induction bs arbitrary: s)
  case Nil
  then show ?case by simp
next
  case (Cons b bs)
  obtain s1 where s1: "steps 6 t (Some b) s = Some s1" "quiet t s1"
    "sem_count (empty (ring s1)) = sem_count (empty (ring s)) - 1" "sem_count (full (ring s1)) = sem_count (full (ring s)) + 1"
    "sem_max (full (ring s1)) = sem_max (full (ring s))" "buffer (ring s1) = (buffer (ring s))(write_offset (ring s) := b)"
    "write_offset (ring s1) = advance (ring s) (write_offset (ring s))" "read_offset (ring s1) = read_offset (ring s)"
    "fifo_size (ring s1) = fifo_size (ring s)"
    using write_alone [of t s b] Cons.prems by auto
  then obtain s2 where s2: "fifo_write_bytes t bs s1 = Some s2" "quiet t s2" "read_offset (ring s2) = read_offset (ring s1)"
    "sem_count (full (ring s2)) = sem_count (full (ring s1)) + int (length bs)"
    "fifo_size (ring s2) = fifo_size (ring s1)"
    "bs \<noteq> [] \<longrightarrow> write_offset (ring s1) + length bs = fifo_size (ring s1) + 1 \<longrightarrow> write_offset (ring s1) < fifo_size (ring s1) \<longrightarrow>
          buffer (ring s2) 0 = last bs"
    using Cons.IH [of s1] Cons.prems by auto
  have run: "fifo_write_bytes t (b # bs) s = Some s2" using s1(1) s2(1) by simp
  have "buffer (ring s2) 0 = last (b # bs)"
    if w: "write_offset (ring s) + length (b # bs) = fifo_size (ring s) + 1" "write_offset (ring s) < fifo_size (ring s)"
  proof (cases "write_offset (ring s) + 1 = fifo_size (ring s)")
    case True
    then have "length bs = 1" using w by simp
    then obtain x where x: "bs = [x]" by (cases bs) auto
    have "write_offset (ring s1) = 0" using True s1(7) by (simp add: advance_def)
    obtain s3 where "steps 6 t (Some x) s1 = Some s3" "buffer (ring s3) = (buffer (ring s1))(write_offset (ring s1) := x)"
      using write_alone [of t s1 x] s1 Cons.prems x by auto
    then show ?thesis using s2(1) x \<open>write_offset (ring s1) = 0\<close> by simp
  next
    case False
    then have "write_offset (ring s1) = write_offset (ring s) + 1" using s1(7) by (simp add: advance_def)
    then show ?thesis using s2(6) s1(9) w False by (cases bs) auto
  qed
  then show ?case using run s2 s1(4,8,9) by auto
qed

lemma read_alone:
  assumes "quiet t s" and "0 < sem_count (full (ring s))"
  shows "\<exists>s'. fifo_read_bytes t 1 s = Some ([buffer (ring s) (read_offset (ring s))], s')"
  using assms
  by (simp add: quiet_def eval_nat_numeral step_def act_def Let_def waits_def sem_down_def sem_up_def)

lemma share_fifo_pages: "n < 2 ^ 62 \<Longrightarrow> share_fifo_pages (create_fifo junk n) = fifo_pages n"
proof -
  assume n: "n < 2 ^ 62"
  then have "fifo_pages n * 4096 \<le> n + 4095" by (simp add: fifo_pages_def)
  then have b: "fifo_pages n * 4096 < 2 ^ 64" using n by simp
  have "(2 ^ 64 + fifo_pages n * 4096 - 48) mod 2 ^ 64 + 48 = (if fifo_pages n = 0 then 2 ^ 64 else fifo_pages n * 4096)"
  proof (cases "fifo_pages n = 0")
    case True
    then show ?thesis by simp
  next
    case False
    then have "48 \<le> fifo_pages n * 4096" by simp
    then have "2 ^ 64 + fifo_pages n * 4096 - 48 = 2 ^ 64 + (fifo_pages n * 4096 - 48)" by simp
    then have "(2 ^ 64 + fifo_pages n * 4096 - 48) mod 2 ^ 64 = (fifo_pages n * 4096 - 48) mod 2 ^ 64"
      by (simp only: mod_add_self1)
    moreover have "fifo_pages n * 4096 - 48 < 2 ^ 64" using b by simp
    ultimately have "(2 ^ 64 + fifo_pages n * 4096 - 48) mod 2 ^ 64 = fifo_pages n * 4096 - 48" by (simp only: mod_less)
    then show ?thesis using False \<open>48 \<le> fifo_pages n * 4096\<close> by simp
  qed
  then show ?thesis using b by (simp add: share_fifo_pages_def create_fifo_def SIZEOF_FIFO_def split: if_splits)
qed

section \<open>Properties\<close>

text \<open>
  C29. The FIFO loses, duplicates and reorders nothing: whatever threads write and read, and however their steps
  interleave, the bytes read so far followed by the bytes in the ring, from the read offset on, are the bytes
  written so far in order, and the ring never holds more than it was created for.  The ring must be as large as
  the number its semaphores count.
\<close>

theorem fifo_preserves_bytes:
  assumes "finite T" and "0 < n" and "n < 2 ^ 31" and "n \<le> fifo_size (create_fifo junk n)" and "reachable T (start junk n) s"
  shows "\<exists>k\<le>n. sent s = got s @ map (\<lambda>i. buffer (ring s) ((read_offset (ring s) + i) mod fifo_size (ring s))) [0..<k]"
proof -
  obtain pd where inv: "fifo_inv T n pd s" using reachable_inv [OF assms(5) start_inv [OF assms(1-4)]] by blast
  have "map (\<lambda>i. buffer (ring s) ((read_offset (ring s) + i) mod fifo_size (ring s))) [0..<length pd] = pd"
    using contentsD(3) [of T pd s] inv by (intro nth_equalityI) (simp_all add: fifo_inv_def)
  moreover have "length pd \<le> n" using pending_bound(1) [of T s n pd] inv by (simp add: fifo_inv_def)
  moreover have "sent s = got s @ pd" using inv by (simp add: fifo_inv_def tokens_def)
  ultimately show ?thesis by (intro exI [of _ "length pd"]) simp
qed

lemma example_size: "fifo_size (create_fifo junk 16) = 4048" "fifo_size (create_fifo junk 8192) = 8144"
  by (simp_all add: create_fifo_def fifo_pages_def SIZEOF_FIFO_def)

lemma start_quiet: "n < 2 ^ 31 \<Longrightarrow> quiet t (start junk n)"
  by (simp add: quiet_def start_def create_fifo_def create_signal_def waits_def wrap32_id)

theorem fifo_preserves_bytes_witness:
  "\<exists>s k. steps 6 0 (Some 7) (start (\<lambda>_. 0) 16) = Some s
     \<and> sent s = got s @ map (\<lambda>i. buffer (ring s) ((read_offset (ring s) + i) mod fifo_size (ring s))) [0..<k]"
proof -
  have "0 < sem_count (empty (ring (start (\<lambda>_. 0) 16)))" "sem_count (full (ring (start (\<lambda>_. 0) 16))) = 0"
    "sem_max (full (ring (start (\<lambda>_. 0) 16))) = 16"
    by (simp_all add: start_def create_fifo_def create_signal_def wrap32_id)
  then obtain s where s: "steps 6 0 (Some 7) (start (\<lambda>_. 0) 16) = Some s"
    using write_alone [of 0 "start (\<lambda>_. 0) 16" 7] start_quiet by auto
  then show ?thesis
    using fifo_preserves_bytes [of "{0}" 16 "\<lambda>_. 0" s] reachable_steps [OF s, of "{0}"] reachable.init example_size(1) by fastforce
qed

text \<open>
  C30. No lost wake-up: when every thread is outside the FIFO or waits for a byte, and at least one waits, then
  there is no byte to read.
\<close>

theorem fifo_no_lost_wakeup:
  assumes "finite T" and "0 < n" and "n < 2 ^ 31" and "n \<le> fifo_size (create_fifo junk n)" and "reachable T (start junk n) s"
    and "\<forall>t\<in>T. pcs s t = Idle \<or> t \<in> set (sem_queue (full (ring s)))" and "sem_queue (full (ring s)) \<noteq> []"
  shows "sent s = got s"
proof -
  let ?q = "sem_queue (full (ring s))"
  obtain pd where inv: "fifo_inv T n pd s" using reachable_inv [OF assms(5) start_inv [OF assms(1-4)]] by blast
  then have q: "queue_ok T at_full (full (ring s)) (pcs s)" by (simp add: fifo_inv_def queues_def)
  have "total T in_byte (pcs s) \<le> (\<Sum>t\<in>T. of_bool (t \<in> set ?q))"
    unfolding total_def by (rule sum_mono) (use assms(6) in auto)
  also have "\<dots> = int (length ?q)"
    using q assms(1) by (simp add: queue_ok_def distinct_card Int_absorb1 Int_commute)
  finally have "total T in_byte (pcs s) \<le> int (length ?q)" .
  moreover have "0 < length ?q" using assms(7) by simp
  then have "int (length ?q) = - sem_count (full (ring s))" using q unfolding queue_ok_def by linarith
  moreover have "sem_count (full (ring s)) + total T in_byte (pcs s) = int (length pd)" "sent s = got s @ pd"
    using inv by (simp_all add: fifo_inv_def tokens_def)
  ultimately have "int (length pd) \<le> 0" by linarith
  then show ?thesis using \<open>sent s = got s @ pd\<close> by simp
qed

theorem fifo_no_lost_wakeup_witness:
  "\<exists>s. steps 1 0 None (start (\<lambda>_. 0) 16) = Some s \<and> sem_queue (full (ring s)) = [0] \<and> sent s = got s"
proof -
  define s where "s = act 0 None (start (\<lambda>_. 0) 16)"
  have s: "steps 1 0 None (start (\<lambda>_. 0) 16) = Some s"
    using start_quiet [of 16] by (simp add: step_def s_def quiet_def)
  have q: "sem_queue (full (ring s)) = [0]"
    by (simp add: s_def act_def start_def create_fifo_def create_signal_def sem_down_def wrap32_id Let_def)
  have "sent s = got s"
    using fifo_no_lost_wakeup [of "{0}" 16 "\<lambda>_. 0" s] reachable_steps [OF s, of "{0}"] reachable.init example_size(1) q by fastforce
  with s q show ?thesis by blast
qed

text \<open>
  A FIFO can be created too small: \<^verbatim>\<open>create_fifo\<close> rounds the size up to pages but takes its own header out of
  them, and its semaphores count the size that was asked for.  When the ring is smaller, a thread can write one
  byte more than the ring holds without waiting, and the next read returns this last byte instead of the first.
\<close>

theorem fifo_overwrites:
  assumes "0 < n" and "n < 2 ^ 31" and "fifo_size (create_fifo junk n) < n" and "length bs = fifo_size (create_fifo junk n) + 1"
  shows "\<exists>s s'. fifo_write_bytes 0 bs (start junk n) = Some s \<and> fifo_read_bytes 0 1 s = Some ([last bs], s')"
proof -
  let ?s = "start junk n"
  have c: "sem_count (empty (ring ?s)) = int n" "sem_count (full (ring ?s)) = 0" "sem_max (full (ring ?s)) = int n"
    "write_offset (ring ?s) = 0" "read_offset (ring ?s) = 0" "fifo_size (ring ?s) = fifo_size (create_fifo junk n)"
    using assms(2) by (simp_all add: start_def create_fifo_def create_signal_def wrap32_id)
  have "0 < fifo_size (create_fifo junk n)"
  proof -
    have "1 \<le> fifo_pages n" "fifo_pages n * 4096 \<le> n + 4095"
      using assms(1) by (simp_all add: fifo_pages_def div_le_mono [of 4096 "n + 4095" 4096, simplified])
    then have "48 < fifo_pages n * 4096" "fifo_pages n * 4096 < 2 ^ 64" using assms(2) by simp_all
    then show ?thesis by (auto simp: create_fifo_def SIZEOF_FIFO_def mod_if)
  qed
  then obtain s where s: "fifo_write_bytes 0 bs ?s = Some s" "quiet 0 s" "read_offset (ring s) = 0"
      "sem_count (full (ring s)) = int (length bs)" "buffer (ring s) 0 = last bs"
    using writes_alone [of 0 ?s bs] start_quiet [OF assms(2)] assms(3,4) c by auto
  then have "0 < sem_count (full (ring s))" using assms(4) by simp
  from read_alone [OF s(2) this] s show ?thesis by auto
qed

theorem fifo_overwrites_witness:
  "\<exists>s s'. fifo_write_bytes 0 (replicate 8144 0 @ [1]) (start (\<lambda>_. 0) 8192) = Some s \<and> fifo_read_bytes 0 1 s = Some ([1], s')"
  using fifo_overwrites [of 8192 "\<lambda>_. 0" "replicate 8144 0 @ [1]"] example_size(2) by simp

text \<open>\<^verbatim>\<open>used_size\<close> is never updated: \<^verbatim>\<open>fifo_read_all\<close> reads nothing, whatever the FIFO holds.\<close>

lemma fifo_read_all_nothing:
  assumes "reachable T (start junk n) s"
  shows "fifo_read_all t s = Some ([], s)" and "fifo_get_free_size (ring s) = fifo_size (ring s) mod 2 ^ 64"
proof -
  have "used_size (ring s) = 0" using used_size_reachable [OF assms] by (simp add: start_def create_fifo_def)
  then show "fifo_read_all t s = Some ([], s)" "fifo_get_free_size (ring s) = fifo_size (ring s) mod 2 ^ 64"
    by (simp_all add: fifo_read_all_def fifo_get_free_size_def fifo_get_size_def fifo_get_used_size_def)
qed

end
