(* ===== verification/FifoSems.thy ===== *)
theory FifoSems
  imports Fifo Signal
begin

text \<open>
  The semaphores of the FIFO are those of the kernel: seen as a count, a maximum and the queue of the waiting threads, a
  semaphore of \<^verbatim>\<open>kernel/task/signal.c\<close> is changed by its \<^verbatim>\<open>up\<close> and \<^verbatim>\<open>down\<close> as \<open>sem_up\<close> and \<open>sem_down\<close> say.
\<close>

definition kernel_sem :: "signal_node \<Rightarrow> (ptr \<times> ptr) list \<Rightarrow> sem" where
  "kernel_sem s cells = \<lparr>sem_count = signals s, sem_max = max_signals s, sem_queue = map snd cells\<rparr>"

lemma down_signal_sem:
  assumes "semaphore st xs t i a s cells" and "has_free (request SIZEOF_WTNODE) xs"
    and "threads st (current_thread st) = Some ct"
  shows "\<exists>st' ys s' cells'. down_signal (Suc f) i st = Some st' \<and> semaphore st' ys t i a s' cells'
     \<and> kernel_sem s' cells' = sem_down (current_thread st) (kernel_sem s cells)"
proof -
  obtain st' ys s' cells' where d: "down_signal (Suc f) i st = Some st'" "semaphore st' ys t i a s' cells'"
      "signals s' = signals s - 1" "max_signals s' = max_signals s"
      "if 0 < signals s then cells' = cells else map snd cells' = map snd cells @ [current_thread st]"
    using down_signal_ok [OF assms, of f] by (auto split: if_splits)
  then have "kernel_sem s' cells' = sem_down (current_thread st) (kernel_sem s cells)"
    by (auto simp: kernel_sem_def sem_down_def split: if_splits)
  with d(1,2) show ?thesis by blast
qed

text \<open>With threads waiting, the first of them goes on; the conditions are those of the ready queue.\<close>

lemma up_signal_sem:
  assumes "semaphore st xs t i a s ((p, th) # cells)" and "signals s < max_signals s"
    and "ready0 st ps" and "is_thread st th" and "th \<notin> set ps"
    and "threads st th = Some x" and "tasks st (th_task x) = Some tk" and "level tk \<in> {0, 1}"
  shows "\<exists>st' ys s'. up_signal i st = Some st' \<and> semaphore st' ys t i a s' cells
     \<and> kernel_sem s' cells = sem_up (kernel_sem s ((p, th) # cells)) \<and> ready0 st' (ps @ [th])"
proof -
  obtain st' ys s' where u: "up_signal i st = Some st'" "semaphore st' ys t i a s' cells"
      "signals s' = signals s + 1" "max_signals s' = max_signals s" "ready0 st' (ps @ [th])"
    using up_signal_wakes_ok [OF assms] by blast
  have "Suc (length cells) = nat (- signals s)" using assms(1) by (simp add: semaphore_def)
  then have "signals s < 0" by linarith
  then have "kernel_sem s' cells = sem_up (kernel_sem s ((p, th) # cells))"
    using u(3,4) assms(2) by (simp add: kernel_sem_def sem_up_def)
  with u show ?thesis by blast
qed

text \<open>With nobody waiting only the count changes.\<close>

lemma up_signal_sem_free:
  assumes sem: "semaphore st xs t i a s []" and "0 < max_signals s"
  shows "\<exists>st' s'. up_signal i st = Some st' \<and> semaphore st' xs t i a s' [] \<and> kernel_sem s' [] = sem_up (kernel_sem s [])"
proof -
  let ?s = "s\<lparr>signals := (if signals s < max_signals s then signals s + 1 else signals s)\<rparr>"
  obtain st' where u: "up_signal i st = Some st'" "semaphore st' xs t i a ?s []"
    using up_signal_free_ok [OF assms] by blast
  have "kernel_sem ?s [] = sem_up (kernel_sem s [])" by (simp add: kernel_sem_def sem_up_def Let_def)
  with u show ?thesis by blast
qed

end
