(* ===== verification/Keyboard.thy ===== *)
theory Keyboard
  imports Prelude
begin

text \<open>
  The keyboard: the key codes of \<^verbatim>\<open>libs/libkmod/export/keyboard/key_types.h\<close>, the map and the parser of scan codes of
  \<^verbatim>\<open>module/driver/keyboard/ioman\<close> (\<^verbatim>\<open>keymap.c\<close>, \<^verbatim>\<open>key_parser.c\<close>, \<^verbatim>\<open>main.c\<close>).  The lemmas show that the parser's
  state stays within its flags and its table accesses within the tables, what the sequences of the keyboard
  produce, and which sequences lose keys.
\<close>

section \<open>Keys\<close>

definition ESC :: int where "ESC = 256"
definition BACKSPACE :: int where "BACKSPACE = 257"
definition TAB :: int where "TAB = 258"
definition ENTER :: int where "ENTER = 259"
definition PAD_ENTER :: int where "PAD_ENTER = 260"
definition LCTRL :: int where "LCTRL = 261"
definition RCTRL :: int where "RCTRL = 262"
definition LSHIFT :: int where "LSHIFT = 263"
definition RSHIFT :: int where "RSHIFT = 264"
definition LALT :: int where "LALT = 265"
definition RALT :: int where "RALT = 266"
definition PAD_SLASH :: int where "PAD_SLASH = 267"
definition CAPSLOCK :: int where "CAPSLOCK = 268"
definition NUMLOCK :: int where "NUMLOCK = 269"
definition SCROLL_LOCK :: int where "SCROLL_LOCK = 270"
definition F1 :: int where "F1 = 271"
definition F2 :: int where "F2 = 272"
definition F3 :: int where "F3 = 273"
definition F4 :: int where "F4 = 274"
definition F5 :: int where "F5 = 275"
definition F6 :: int where "F6 = 276"
definition F7 :: int where "F7 = 277"
definition F8 :: int where "F8 = 278"
definition F9 :: int where "F9 = 279"
definition F10 :: int where "F10 = 280"
definition PAD_HOME :: int where "PAD_HOME = 281"
definition HOME :: int where "HOME = 282"
definition PAD_UP :: int where "PAD_UP = 283"
definition KEY_UP :: int where "KEY_UP = 284"
definition PAD_PGUP :: int where "PAD_PGUP = 285"
definition PGUP :: int where "PGUP = 286"
definition PAD_MINUS :: int where "PAD_MINUS = 287"
definition PAD_LEFT :: int where "PAD_LEFT = 288"
definition KEY_LEFT :: int where "KEY_LEFT = 289"
definition PAD_MID :: int where "PAD_MID = 290"
definition PAD_RIGHT :: int where "PAD_RIGHT = 291"
definition KEY_RIGHT :: int where "KEY_RIGHT = 292"
definition PAD_PLUS :: int where "PAD_PLUS = 293"
definition PAD_END :: int where "PAD_END = 294"
definition KEY_END :: int where "KEY_END = 295"
definition PAD_DOWN :: int where "PAD_DOWN = 296"
definition KEY_DOWN :: int where "KEY_DOWN = 297"
definition PAD_PGDOWN :: int where "PAD_PGDOWN = 298"
definition PGDOWN :: int where "PGDOWN = 299"
definition PAD_INSERT :: int where "PAD_INSERT = 300"
definition KEY_INSERT :: int where "KEY_INSERT = 301"
definition PAD_DOT :: int where "PAD_DOT = 302"
definition KEY_DELETE :: int where "KEY_DELETE = 303"
definition F11 :: int where "F11 = 304"
definition F12 :: int where "F12 = 305"
definition LGUI :: int where "LGUI = 306"
definition RGUI :: int where "RGUI = 307"
definition APPS :: int where "APPS = 308"
definition PAUSEBREAK :: int where "PAUSEBREAK = 309"

lemmas key_defs = ESC_def BACKSPACE_def TAB_def ENTER_def PAD_ENTER_def LCTRL_def RCTRL_def LSHIFT_def
  RSHIFT_def LALT_def RALT_def PAD_SLASH_def CAPSLOCK_def NUMLOCK_def SCROLL_LOCK_def F1_def F2_def F3_def
  F4_def F5_def F6_def F7_def F8_def F9_def F10_def PAD_HOME_def HOME_def PAD_UP_def KEY_UP_def PAD_PGUP_def
  PGUP_def PAD_MINUS_def PAD_LEFT_def KEY_LEFT_def PAD_MID_def PAD_RIGHT_def KEY_RIGHT_def PAD_PLUS_def
  PAD_END_def KEY_END_def PAD_DOWN_def KEY_DOWN_def PAD_PGDOWN_def PGDOWN_def PAD_INSERT_def KEY_INSERT_def
  PAD_DOT_def KEY_DELETE_def F11_def F12_def LGUI_def RGUI_def APPS_def PAUSEBREAK_def

text \<open>\<^verbatim>\<open>KEYMAP\<close>: the key without and with shift, and after \<^verbatim>\<open>0xE0\<close>.\<close>

definition asc :: "char \<Rightarrow> int" where
  "asc c = of_char c"

definition KEYMAP :: "int list list" where
  "KEYMAP =
    [[0, 0, 0],
     [ESC, ESC, 0],
     [asc CHR ''1'', asc CHR ''!'', 0],
     [asc CHR ''2'', asc CHR ''@'', 0],
     [asc CHR ''3'', asc CHR ''#'', 0],
     [asc CHR ''4'', asc CHR ''$'', 0],
     [asc CHR ''5'', asc CHR ''%'', 0],
     [asc CHR ''6'', asc CHR ''^'', 0],
     [asc CHR ''7'', asc CHR ''&'', 0],
     [asc CHR ''8'', asc CHR ''*'', 0],
     [asc CHR ''9'', asc CHR ''('', 0],
     [asc CHR ''0'', asc CHR '')'', 0],
     [asc CHR ''-'', asc CHR ''_'', 0],
     [asc CHR ''='', asc CHR ''+'', 0],
     [BACKSPACE, BACKSPACE, 0],
     [TAB, TAB, 0],
     [asc CHR ''q'', asc CHR ''Q'', 0],
     [asc CHR ''w'', asc CHR ''W'', 0],
     [asc CHR ''e'', asc CHR ''E'', 0],
     [asc CHR ''r'', asc CHR ''R'', 0],
     [asc CHR ''t'', asc CHR ''T'', 0],
     [asc CHR ''y'', asc CHR ''Y'', 0],
     [asc CHR ''u'', asc CHR ''U'', 0],
     [asc CHR ''i'', asc CHR ''I'', 0],
     [asc CHR ''o'', asc CHR ''O'', 0],
     [asc CHR ''p'', asc CHR ''P'', 0],
     [asc CHR ''['', asc CHR ''{'', 0],
     [asc CHR '']'', asc CHR ''}'', 0],
     [ENTER, ENTER, PAD_ENTER],
     [LCTRL, LCTRL, RCTRL],
     [asc CHR ''a'', asc CHR ''A'', 0],
     [asc CHR ''s'', asc CHR ''S'', 0],
     [asc CHR ''d'', asc CHR ''D'', 0],
     [asc CHR ''f'', asc CHR ''F'', 0],
     [asc CHR ''g'', asc CHR ''G'', 0],
     [asc CHR ''h'', asc CHR ''H'', 0],
     [asc CHR ''j'', asc CHR ''J'', 0],
     [asc CHR ''k'', asc CHR ''K'', 0],
     [asc CHR ''l'', asc CHR ''L'', 0],
     [asc CHR '';'', asc CHR '':'', 0],
     [asc CHR 0x27, asc CHR 0x22, 0],
     [asc CHR 0x60, asc CHR ''~'', 0],
     [LSHIFT, LSHIFT, 0],
     [asc CHR 0x5C, asc CHR ''|'', 0],
     [asc CHR ''z'', asc CHR ''Z'', 0],
     [asc CHR ''x'', asc CHR ''X'', 0],
     [asc CHR ''c'', asc CHR ''C'', 0],
     [asc CHR ''v'', asc CHR ''V'', 0],
     [asc CHR ''b'', asc CHR ''B'', 0],
     [asc CHR ''n'', asc CHR ''N'', 0],
     [asc CHR ''m'', asc CHR ''M'', 0],
     [asc CHR '','', asc CHR ''<'', 0],
     [asc CHR ''.'', asc CHR ''>'', 0],
     [asc CHR ''/'', asc CHR ''?'', PAD_SLASH],
     [RSHIFT, RSHIFT, 0],
     [asc CHR ''*'', asc CHR ''*'', 0],
     [LALT, LALT, RALT],
     [asc CHR '' '', asc CHR '' '', 0],
     [CAPSLOCK, CAPSLOCK, 0],
     [F1, F1, 0],
     [F2, F2, 0],
     [F3, F3, 0],
     [F4, F4, 0],
     [F5, F5, 0],
     [F6, F6, 0],
     [F7, F7, 0],
     [F8, F8, 0],
     [F9, F9, 0],
     [F10, F10, 0],
     [NUMLOCK, NUMLOCK, 0],
     [SCROLL_LOCK, SCROLL_LOCK, 0],
     [PAD_HOME, asc CHR ''7'', HOME],
     [PAD_UP, asc CHR ''8'', KEY_UP],
     [PAD_PGUP, asc CHR ''9'', PGUP],
     [PAD_MINUS, asc CHR ''-'', 0],
     [PAD_LEFT, asc CHR ''4'', KEY_LEFT],
     [PAD_MID, asc CHR ''5'', 0],
     [PAD_RIGHT, asc CHR ''6'', KEY_RIGHT],
     [PAD_PLUS, asc CHR ''+'', 0],
     [PAD_END, asc CHR ''1'', KEY_END],
     [PAD_DOWN, asc CHR ''2'', KEY_DOWN],
     [PAD_PGDOWN, asc CHR ''3'', PGDOWN],
     [PAD_INSERT, asc CHR ''0'', KEY_INSERT],
     [PAD_DOT, asc CHR ''.'', KEY_DELETE],
     [ENTER, ENTER, ENTER],
     [0, 0, 0],
     [0, 0, 0],
     [F11, F11, 0],
     [F12, F12, 0],
     [0, 0, 0],
     [0, 0, 0],
     [0, 0, LGUI],
     [0, 0, RGUI],
     [0, 0, APPS],
     [0, 0, 0],
     [0, 0, 0],
     [0, 0, 0],
     [0, 0, 0],
     [0, 0, 0],
     [0, 0, 0],
     [0, 0, 0],
     [0, 0, 0],
     [0, 0, 0],
     [0, 0, 0],
     [0, 0, 0],
     [0, 0, 0],
     [0, 0, 0],
     [0, 0, 0],
     [0, 0, 0],
     [0, 0, 0],
     [0, 0, 0],
     [0, 0, 0],
     [0, 0, 0],
     [0, 0, 0],
     [0, 0, 0],
     [0, 0, 0],
     [0, 0, 0],
     [0, 0, 0],
     [0, 0, 0],
     [0, 0, 0],
     [0, 0, 0],
     [0, 0, 0],
     [0, 0, 0],
     [0, 0, 0],
     [0, 0, 0],
     [0, 0, 0],
     [0, 0, 0],
     [0, 0, 0]]"

definition keymap :: "u8 \<Rightarrow> nat \<Rightarrow> int" where
  "keymap code col = KEYMAP ! unat code ! col"

section \<open>The parser\<close>

definition NORMAL :: int where "NORMAL = 0"
definition E0_XX :: int where "E0_XX = 1"
definition E1_XX :: int where "E1_XX = 2"
definition E1_STAGE_UNIT :: int where "E1_STAGE_UNIT = 4"
definition E1_STAGE_MASK :: int where "E1_STAGE_MASK = 28"
definition E1_STAGE_END :: int where "E1_STAGE_END = 20"
definition E1_FAILED :: int where "E1_FAILED = 32"
definition NUMLOCKING :: int where "NUMLOCKING = 64"
definition CAPSLOCKING :: int where "CAPSLOCKING = 128"
definition LSHIFT_PUSHED :: int where "LSHIFT_PUSHED = 1024"
definition RSHIFT_PUSHED :: int where "RSHIFT_PUSHED = 2048"

lemmas flag_defs = NORMAL_def E0_XX_def E1_XX_def E1_STAGE_UNIT_def E1_STAGE_MASK_def E1_STAGE_END_def E1_FAILED_def
  NUMLOCKING_def CAPSLOCKING_def LSHIFT_PUSHED_def RSHIFT_PUSHED_def

text \<open>Each function takes and returns the global \<^verbatim>\<open>state\<close>; a key of 0 is none.\<close>

definition do_normal :: "u8 \<Rightarrow> int \<Rightarrow> int \<times> int" where
  "do_normal code state =
     (if code = 0xE0 then (0, E0_XX)
      else if code = 0xE1 then (0, state OR E1_XX)
      else if code AND 0x80 \<noteq> 0 then (0, state)
      else
        let code = code AND 0x7F;
            key = keymap code 0
        in if key = LSHIFT then (0, state OR LSHIFT_PUSHED)
           else if key = RSHIFT then (0, state OR RSHIFT_PUSHED)
           else
             let key = (if asc CHR ''a'' \<le> key \<and> key \<le> asc CHR ''z'' \<and> state AND CAPSLOCKING \<noteq> 0 then keymap code 1 else key);
                 key = (if PAD_HOME \<le> key \<and> key \<le> PAD_DOT \<and> state AND NUMLOCKING \<noteq> 0 then keymap code 1 else key)
             in (key, state))"

definition do_e0 :: "u8 \<Rightarrow> int \<Rightarrow> int \<times> int" where
  "do_e0 code state =
     (if code AND 0x80 \<noteq> 0 then (0, state)
      else (keymap (code AND 0x7F) 2, state AND NOT E0_XX))"

definition pausebreak_codes :: "u8 list" where
  "pausebreak_codes = [0xE1, 0x1D, 0x45, 0xE1, 0x9D, 0xC5]"

definition do_e1 :: "u8 \<Rightarrow> int \<Rightarrow> int \<times> int" where
  "do_e1 code state =
     (let state = state + E1_STAGE_UNIT;
          stage = (state AND E1_STAGE_MASK) div E1_STAGE_UNIT;
          state = (if code \<noteq> pausebreak_codes ! nat stage then state OR E1_FAILED else state)
      in if state AND E1_STAGE_MASK = E1_STAGE_END then
           let state = state AND NOT E1_STAGE_MASK;
               state = state AND NOT E1_XX
           in if state AND E1_FAILED \<noteq> 0 then (0, state AND NOT E1_FAILED) else (PAUSEBREAK, state)
         else (0, state))"

definition do_shift :: "u8 \<Rightarrow> int \<Rightarrow> int \<times> int" where
  "do_shift code state =
     (if code = 0xE0 then (0, state OR E0_XX)
      else if code = 0xE1 then (0, state OR E1_XX)
      else if code AND 0x80 \<noteq> 0 then
        let key = keymap (code AND 0x7F) 0
        in if key = LSHIFT then (0, state AND NOT LSHIFT_PUSHED)
           else if key = RSHIFT then (0, state AND NOT RSHIFT_PUSHED)
           else (0, state)
      else
        let key = keymap (code AND 0x7F) 1
        in if key = LSHIFT then (0, state OR LSHIFT_PUSHED)
           else if key = RSHIFT then (0, state OR RSHIFT_PUSHED)
           else (key, state))"

text \<open>
  \<^verbatim>\<open>irq_handler\<close> of \<^verbatim>\<open>main.c\<close> for line 1 once the FIFO exists: \<open>code\<close> is the byte read from the controller; the
  result is the state and the bytes that are written to the FIFO.
\<close>

definition irq_handler :: "u8 \<Rightarrow> int \<Rightarrow> u8 list \<times> int" where
  "irq_handler code state =
     (let (key, state) = (if state AND E1_XX \<noteq> 0 then do_e1 code state
                          else if state AND E0_XX \<noteq> 0 then do_e0 code state
                          else if state AND LSHIFT_PUSHED \<noteq> 0 \<or> state AND RSHIFT_PUSHED \<noteq> 0 then do_shift code state
                          else do_normal code state)
      in if key = CAPSLOCK then
           ([], if state AND CAPSLOCKING \<noteq> 0 then state AND NOT CAPSLOCKING else state OR CAPSLOCKING)
         else if key = NUMLOCK then
           ([], if state AND NUMLOCKING \<noteq> 0 then state AND NOT NUMLOCKING else state OR NUMLOCKING)
         else if key = 0 then ([], state)
         else (le_bytes 2 (nat (key mod 2 ^ 16)), state))"

text \<open>A sequence of scan codes, each raising an interrupt, and the keys as the readers of the FIFO see them.\<close>

primrec scan :: "u8 list \<Rightarrow> int \<Rightarrow> u8 list \<times> int" where
  "scan [] state = ([], state)"
| "scan (c # cs) state = (let (bs, state) = irq_handler c state; (bs', state) = scan cs state in (bs @ bs', state))"

section \<open>The state as a record\<close>

text \<open>
  What the flags stand for: the locks, the shift keys that are down, and where a sequence is, with the number of
  codes of the pause sequence that have come after \<^verbatim>\<open>0xE1\<close> and whether one of them was wrong.
\<close>

datatype mode = Plain | Extended | Pause nat bool

record kb =
  caps :: bool
  num :: bool
  lshift :: bool
  rshift :: bool
  kmode :: mode

definition enc_mode :: "mode \<Rightarrow> int" where
  "enc_mode m = (case m of Plain \<Rightarrow> 0 | Extended \<Rightarrow> 1 | Pause s f \<Rightarrow> 2 + 4 * int s + (if f then 32 else 0))"

definition enc :: "kb \<Rightarrow> int" where
  "enc k = enc_mode (kmode k) + (if num k then 64 else 0) + (if caps k then 128 else 0)
     + (if lshift k then 1024 else 0) + (if rshift k then 2048 else 0)"

definition kb_ok :: "kb \<Rightarrow> bool" where
  "kb_ok k \<longleftrightarrow> (case kmode k of Pause s f \<Rightarrow> s \<le> 4 | _ \<Rightarrow> True)"

lemma le_4_cases: "s \<le> 4 \<longleftrightarrow> s = 0 \<or> s = 1 \<or> s = 2 \<or> s = 3 \<or> s = (4::nat)"
  by auto

lemma kb_cases:
  assumes "kb_ok k"
  obtains "kmode k = Plain" | "kmode k = Extended" | f where "kmode k = Pause 0 f" | f where "kmode k = Pause 1 f"
    | f where "kmode k = Pause 2 f" | f where "kmode k = Pause 3 f" | f where "kmode k = Pause 4 f"
  using assms by (cases "kmode k") (auto simp: kb_ok_def le_4_cases)

lemma enc_tests:
  assumes "kb_ok k"
  shows "enc k AND E1_XX \<noteq> 0 \<longleftrightarrow> (\<exists>s f. kmode k = Pause s f)" and "enc k AND E0_XX \<noteq> 0 \<longleftrightarrow> kmode k = Extended"
    and "enc k AND LSHIFT_PUSHED \<noteq> 0 \<longleftrightarrow> lshift k" and "enc k AND RSHIFT_PUSHED \<noteq> 0 \<longleftrightarrow> rshift k"
    and "enc k AND CAPSLOCKING \<noteq> 0 \<longleftrightarrow> caps k" and "enc k AND NUMLOCKING \<noteq> 0 \<longleftrightarrow> num k"
  by (rule kb_cases [OF assms]; simp add: enc_def enc_mode_def flag_defs)+

lemma enc_sets:
  assumes "kb_ok k"
  shows "enc k OR LSHIFT_PUSHED = enc (k\<lparr>lshift := True\<rparr>)" and "enc k OR RSHIFT_PUSHED = enc (k\<lparr>rshift := True\<rparr>)"
    and "enc k AND NOT LSHIFT_PUSHED = enc (k\<lparr>lshift := False\<rparr>)" and "enc k AND NOT RSHIFT_PUSHED = enc (k\<lparr>rshift := False\<rparr>)"
    and "enc k OR CAPSLOCKING = enc (k\<lparr>caps := True\<rparr>)" and "enc k AND NOT CAPSLOCKING = enc (k\<lparr>caps := False\<rparr>)"
    and "enc k OR NUMLOCKING = enc (k\<lparr>num := True\<rparr>)" and "enc k AND NOT NUMLOCKING = enc (k\<lparr>num := False\<rparr>)"
  by (rule kb_cases [OF assms]; simp add: enc_def enc_mode_def flag_defs)+

lemma enc_modes:
  "kmode k = Plain \<Longrightarrow> enc k OR E0_XX = enc (k\<lparr>kmode := Extended\<rparr>)"
  "kmode k = Plain \<Longrightarrow> enc k OR E1_XX = enc (k\<lparr>kmode := Pause 0 False\<rparr>)"
  "kmode k = Extended \<Longrightarrow> enc k AND NOT E0_XX = enc (k\<lparr>kmode := Plain\<rparr>)"
  "E0_XX = enc \<lparr>caps = False, num = False, lshift = False, rshift = False, kmode = Extended\<rparr>"
  by (simp_all add: enc_def enc_mode_def flag_defs)

section \<open>The parser on records\<close>

text \<open>The same parser, with the state as a record.\<close>

definition plain_key :: "u8 \<Rightarrow> kb \<Rightarrow> int" where
  "plain_key code k =
     (let key = keymap code 0;
          key = (if asc CHR ''a'' \<le> key \<and> key \<le> asc CHR ''z'' \<and> caps k then keymap code 1 else key)
      in if PAD_HOME \<le> key \<and> key \<le> PAD_DOT \<and> num k then keymap code 1 else key)"

definition press_shift :: "int \<Rightarrow> bool \<Rightarrow> kb \<Rightarrow> kb" where
  "press_shift key b k = (if key = LSHIFT then k\<lparr>lshift := b\<rparr> else if key = RSHIFT then k\<lparr>rshift := b\<rparr> else k)"

definition parse :: "u8 \<Rightarrow> kb \<Rightarrow> int \<times> kb" where
  "parse code k =
     (case kmode k of
        Pause s f \<Rightarrow>
          let f = (f \<or> code \<noteq> pausebreak_codes ! (s + 1))
          in if s = 4 then (if f then 0 else PAUSEBREAK, k\<lparr>kmode := Plain\<rparr>) else (0, k\<lparr>kmode := Pause (s + 1) f\<rparr>)
      | Extended \<Rightarrow> if code AND 0x80 \<noteq> 0 then (0, k) else (keymap (code AND 0x7F) 2, k\<lparr>kmode := Plain\<rparr>)
      | Plain \<Rightarrow>
          if code = 0xE0 then
            (0, if lshift k \<or> rshift k then k\<lparr>kmode := Extended\<rparr>
                else \<lparr>caps = False, num = False, lshift = False, rshift = False, kmode = Extended\<rparr>)
          else if code = 0xE1 then (0, k\<lparr>kmode := Pause 0 False\<rparr>)
          else if code AND 0x80 \<noteq> 0 then (0, if lshift k \<or> rshift k then press_shift (keymap (code AND 0x7F) 0) False k else k)
          else
            let code = code AND 0x7F; key = keymap code (if lshift k \<or> rshift k then 1 else 0)
            in if key = LSHIFT \<or> key = RSHIFT then (0, press_shift key True k)
               else (if lshift k \<or> rshift k then key else plain_key code k, k))"

definition lock_key :: "int \<times> kb \<Rightarrow> u8 list \<times> kb" where
  "lock_key = (\<lambda>(key, k).
     if key = CAPSLOCK then ([], k\<lparr>caps := \<not> caps k\<rparr>)
     else if key = NUMLOCK then ([], k\<lparr>num := \<not> num k\<rparr>)
     else if key = 0 then ([], k)
     else (le_bytes 2 (nat (key mod 2 ^ 16)), k))"

lemma parse_ok: "kb_ok k \<Longrightarrow> kb_ok (snd (parse code k))"
  by (auto simp: kb_ok_def parse_def press_shift_def Let_def split: mode.splits if_splits)

lemma lock_key_ok: "kb_ok (snd r) \<Longrightarrow> kb_ok (snd (lock_key r))"
  by (cases r) (simp add: lock_key_def kb_ok_def)

section \<open>The parser computes the same\<close>

lemma do_e1_parse:
  assumes "kb_ok k" and "kmode k = Pause s f"
  shows "do_e1 code (enc k) = apsnd enc (parse code k)"
proof -
  obtain c n l r where k: "k = \<lparr>caps = c, num = n, lshift = l, rshift = r, kmode = Pause s f\<rparr>"
    using assms(2) by (cases k) simp
  have "s = 0 \<or> s = 1 \<or> s = 2 \<or> s = 3 \<or> s = 4" using assms by (simp add: kb_ok_def le_4_cases)
  then show ?thesis unfolding k
    by (elim disjE; cases c; cases n; cases l; cases r; cases f;
        simp add: do_e1_def parse_def enc_def enc_mode_def flag_defs pausebreak_codes_def Let_def eval_nat_numeral)
qed

lemma do_e0_parse: "kmode k = Extended \<Longrightarrow> do_e0 code (enc k) = apsnd enc (parse code k)"
  by (simp add: do_e0_def parse_def enc_modes(3))

lemma do_shift_parse:
  assumes "kb_ok k" and "kmode k = Plain" and "lshift k \<or> rshift k"
  shows "do_shift code (enc k) = apsnd enc (parse code k)"
  using assms(2,3)
  by (simp add: do_shift_def parse_def enc_modes(1,2) enc_sets [OF assms(1)] press_shift_def Let_def)

lemma do_normal_parse:
  assumes "kb_ok k" and "kmode k = Plain" and "\<not> lshift k" "\<not> rshift k"
  shows "do_normal code (enc k) = apsnd enc (parse code k)"
  using assms(2-4)
  by (simp add: do_normal_def parse_def plain_key_def enc_modes(2) enc_sets [OF assms(1)] enc_tests [OF assms(1)] press_shift_def
      Let_def) (simp add: enc_modes(4))

lemma irq_handler_parse:
  assumes "kb_ok k"
  shows "irq_handler code (enc k) = apsnd enc (lock_key (parse code k))"
proof -
  have "(if enc k AND E1_XX \<noteq> 0 then do_e1 code (enc k)
         else if enc k AND E0_XX \<noteq> 0 then do_e0 code (enc k)
         else if enc k AND LSHIFT_PUSHED \<noteq> 0 \<or> enc k AND RSHIFT_PUSHED \<noteq> 0 then do_shift code (enc k)
         else do_normal code (enc k)) = apsnd enc (parse code k)"
    unfolding enc_tests [OF assms]
    using do_e1_parse [OF assms] do_e0_parse do_shift_parse [OF assms] do_normal_parse [OF assms]
    by (cases "kmode k") auto
  moreover have "kb_ok (snd (parse code k))" by (rule parse_ok [OF assms])
  ultimately show ?thesis
    by (cases "parse code k") (simp add: irq_handler_def lock_key_def enc_tests enc_sets)
qed

primrec scan_kb :: "u8 list \<Rightarrow> kb \<Rightarrow> u8 list \<times> kb" where
  "scan_kb [] k = ([], k)"
| "scan_kb (c # cs) k = (let (bs, k) = lock_key (parse c k); (bs', k) = scan_kb cs k in (bs @ bs', k))"

lemma scan_kb_ok: "kb_ok k \<Longrightarrow> scan cs (enc k) = apsnd enc (scan_kb cs k) \<and> kb_ok (snd (scan_kb cs k))"
proof (induction cs arbitrary: k)
  case Nil
  then show ?case by simp
next
  case (Cons c cs)
  obtain bs k1 where k1: "lock_key (parse c k) = (bs, k1)" by (cases "lock_key (parse c k)")
  have "kb_ok k1" using lock_key_ok [OF parse_ok [OF Cons.prems], of c] k1 by simp
  from Cons.IH [OF this] show ?case
    using irq_handler_parse [OF Cons.prems, of c] k1 by (cases "scan_kb cs k1") simp
qed

lemma NORMAL_enc: "NORMAL = enc \<lparr>caps = False, num = False, lshift = False, rshift = False, kmode = Plain\<rparr>"
  by (simp add: enc_def enc_mode_def flag_defs)

text \<open>The index into the pause sequence that \<^verbatim>\<open>do_e1\<close> uses.\<close>

definition e1_index :: "int \<Rightarrow> int" where
  "e1_index state = ((state + E1_STAGE_UNIT) AND E1_STAGE_MASK) div E1_STAGE_UNIT"

lemma e1_index_enc: "kb_ok k \<Longrightarrow> kmode k = Pause s f \<Longrightarrow> e1_index (enc k) = int s + 1"
  by (erule kb_cases) (auto simp: e1_index_def enc_def enc_mode_def flag_defs)

lemma parse_pause:
  "s < 4 \<Longrightarrow> parse c (k\<lparr>kmode := Pause s f\<rparr>) = (0, k\<lparr>kmode := Pause (s + 1) (f \<or> c \<noteq> pausebreak_codes ! (s + 1))\<rparr>)"
  "parse c (k\<lparr>kmode := Pause (Suc (Suc (Suc (Suc 0)))) f\<rparr>) = (if f \<or> c \<noteq> pausebreak_codes ! 5 then 0 else PAUSEBREAK, k\<lparr>kmode := Plain\<rparr>)"
  by (simp_all add: parse_def Let_def eval_nat_numeral)

lemma lock_key_0 [simp]: "lock_key (0, k) = ([], k)"
  by (simp add: lock_key_def key_defs)

section \<open>Properties\<close>

text \<open>
  C31. Whatever the keyboard sends, the state of the parser is the encoding of locks, shift keys and a position in
  a sequence, what is written to the FIFO is what the parser on records produces, and \<^verbatim>\<open>do_e1\<close> reads its table
  of six codes at an index from 1 to 5.
\<close>

theorem parser_bounds:
  "\<exists>k. kb_ok k \<and> scan cs NORMAL = (fst (scan_kb cs \<lparr>caps = False, num = False, lshift = False, rshift = False, kmode = Plain\<rparr>), enc k)
     \<and> (case kmode k of Pause s f \<Rightarrow> e1_index (enc k) \<in> {1..5} | _ \<Rightarrow> True) \<and> enc k \<in> {0..<4096}"
proof -
  let ?k0 = "\<lparr>caps = False, num = False, lshift = False, rshift = False, kmode = Plain\<rparr>"
  have "kb_ok ?k0" by (simp add: kb_ok_def)
  from scan_kb_ok [OF this, of cs] have r: "scan cs NORMAL = (fst (scan_kb cs ?k0), enc (snd (scan_kb cs ?k0)))"
    and ok: "kb_ok (snd (scan_kb cs ?k0))"
    by (auto simp: NORMAL_enc apsnd_def map_prod_def split: prod.splits)
  have "case kmode k of Pause s f \<Rightarrow> e1_index (enc k) \<in> {1..5} | _ \<Rightarrow> True" if "kb_ok k" for k
    using that e1_index_enc [OF that] by (cases "kmode k") (auto simp: kb_ok_def)
  moreover have "enc k \<in> {0..<4096}" if "kb_ok k" for k
    using that by (rule kb_cases) (auto simp: enc_def enc_mode_def)
  ultimately show ?thesis using r ok by blast
qed

text \<open>
  The pause key: after \<^verbatim>\<open>0xE1\<close>, outside any other sequence, the next five codes write one key, \<^verbatim>\<open>PAUSEBREAK\<close>, if
  they are the codes of the pause key, and nothing otherwise; the locks and shift keys are as before.
\<close>

theorem pause_sequence:
  assumes "kmode k = Plain" and "length cs = 5"
  shows "scan (0xE1 # cs) (enc k) = (if cs = tl pausebreak_codes then le_bytes 2 (nat PAUSEBREAK) else [], enc k)"
proof -
  obtain a b c d e where cs: "cs = [a, b, c, d, e]"
    using assms(2) by (auto simp: length_Suc_conv eval_nat_numeral)
  have ok: "kb_ok k" using assms(1) by (simp add: kb_ok_def)
  have 0: "parse 0xE1 k = (0, k\<lparr>kmode := Pause 0 False\<rparr>)" using assms(1) by (simp add: parse_def)
  have "scan_kb (0xE1 # cs) k = (if cs = tl pausebreak_codes then le_bytes 2 (nat PAUSEBREAK) else [], k\<lparr>kmode := Plain\<rparr>)"
    by (simp add: cs 0 parse_pause pausebreak_codes_def Let_def) (simp add: lock_key_def key_defs)
  moreover have "k\<lparr>kmode := Plain\<rparr> = k" using assms(1) by simp
  ultimately show ?thesis using scan_kb_ok [OF ok, of "0xE1 # cs"] by simp
qed

theorem pause_sequence_witness:
  "scan [0xE1, 0x1D, 0x45, 0xE1, 0x9D, 0xC5] NORMAL = (le_bytes 2 309, NORMAL)"
  using pause_sequence [of "\<lparr>caps = False, num = False, lshift = False, rshift = False, kmode = Plain\<rparr>" "tl pausebreak_codes"]
  by (simp add: NORMAL_enc pausebreak_codes_def PAUSEBREAK_def)

text \<open>
  Extended keys disturb the keys after them: with no shift key down, pressing and releasing the up arrow and
  then pressing \<^verbatim>\<open>a\<close> twice gives the arrow and a single small \<^verbatim>\<open>a\<close>, whatever the locks were: the release leaves
  the parser waiting for an extended code, which swallows the first \<^verbatim>\<open>a\<close>, and the prefix has cleared the locks.
\<close>

theorem extended_release_loses_key:
  "scan [0xE0, 0x48, 0xE0, 0xC8, 0x1E, 0x1E] (enc \<lparr>caps = c, num = n, lshift = False, rshift = False, kmode = Plain\<rparr>)
   = (le_bytes 2 (nat KEY_UP) @ le_bytes 2 (nat (asc CHR ''a'')), NORMAL)"
  by (induction c rule: bool.induct; induction n rule: bool.induct; code_simp)

end
