(* ===== verification/Console.thy ===== *)
theory Console
  imports Keyboard
begin

text \<open>
  The consoles of the terminal driver, \<^verbatim>\<open>module/driver/vdd/tty/console.c\<close> and \<^verbatim>\<open>main.c\<close>: a cursor and a text buffer
  each.  The lemmas show what printed text does to the buffer and the cursor, that a backspace undoes a
  character, and that nothing keeps the cursor on the screen.  Showing a console is a remote call (\<open>TtyCalls\<close>).
\<close>

section \<open>Data\<close>

text \<open>
  \<^verbatim>\<open>console_t\<close>.  Addresses are integers, so that an offset may be negative; the sums and products of \<^verbatim>\<open>int\<close>s wrap
  around.  An index outside the array is \<open>None\<close>.
\<close>

record console =
  framebuffer :: int
  framebuffer_id :: int
  console_no :: int
  pos_x :: int
  pos_y :: int
  color :: int

definition CONSOLE_NUM :: nat where "CONSOLE_NUM = 4"
definition CONSOLE_COLUMNS :: int where "CONSOLE_COLUMNS = 80"
definition CONSOLE_LINES :: int where "CONSOLE_LINES = 25"
definition CONSOLE_SIZE :: int where "CONSOLE_SIZE = CONSOLE_LINES * CONSOLE_COLUMNS * 2"

lemmas console_defs = CONSOLE_NUM_def CONSOLE_COLUMNS_def CONSOLE_LINES_def CONSOLE_SIZE_def

text \<open>
  The driver: the memory of its framebuffers, the consoles, the active one, and the units of the semaphore
  \<^verbatim>\<open>wait_enter\<close>.
\<close>

record tty =
  mem :: "int \<Rightarrow> u8"
  consoles :: "console list"
  current_active_console :: int
  wait_enter :: int

text \<open>\<^verbatim>\<open>init_consoles\<close>, with the framebuffers that the video driver returns.\<close>

definition init_consoles :: "(int \<times> int) list \<Rightarrow> tty \<Rightarrow> tty" where
  "init_consoles rets st = st\<lparr>wait_enter := 0, current_active_console := 0,
     consoles := map (\<lambda>i. \<lparr>framebuffer = fst (rets ! i), framebuffer_id = snd (rets ! i), console_no = int i, pos_x = 0, pos_y = 0,
       color = 0x0F\<rparr>) [0..<CONSOLE_NUM]\<rparr>"

definition get_console :: "int \<Rightarrow> tty \<Rightarrow> console option" where
  "get_console n st = (if 0 \<le> n \<and> nat n < length (consoles st) then Some (consoles st ! nat n) else None)"

definition set_console :: "int \<Rightarrow> console \<Rightarrow> tty \<Rightarrow> tty" where
  "set_console n c st = st\<lparr>consoles := (consoles st)[nat n := c]\<rparr>"

section \<open>Output\<close>

definition putrawchar :: "int \<Rightarrow> u8 \<Rightarrow> tty \<Rightarrow> tty option" where
  "putrawchar n ch st = do {
     c \<leftarrow> get_console n st;
     let pos = wrap32 (wrap32 (pos_y c * CONSOLE_COLUMNS) + pos_x c);
     let st = st\<lparr>mem := (mem st)(framebuffer c + wrap32 (pos * 2) := ch,
       framebuffer c + wrap32 (pos * 2) + 1 := word_of_int (color c))\<rparr>;
     let c = c\<lparr>pos_x := wrap32 (pos_x c + 1)\<rparr>;
     let c = (if pos_x c = CONSOLE_COLUMNS then c\<lparr>pos_x := 0, pos_y := wrap32 (pos_y c + 1)\<rparr> else c);
     Some (set_console n c st)
   }"

definition step_back :: "console \<Rightarrow> console" where
  "step_back c = (let c = c\<lparr>pos_x := wrap32 (pos_x c - 1)\<rparr> in
     if pos_x c < 0 then c\<lparr>pos_x := CONSOLE_COLUMNS - 1, pos_y := wrap32 (pos_y c - 1)\<rparr> else c)"

definition putchar :: "int \<Rightarrow> u8 \<Rightarrow> tty \<Rightarrow> tty option" where
  "putchar n ch st = do {
     c \<leftarrow> get_console n st;
     if ch = 13 \<or> ch = 10 then Some (set_console n (c\<lparr>pos_x := 0, pos_y := wrap32 (pos_y c + 1)\<rparr>) st)
     else if ch = 9 then Some (set_console n (c\<lparr>pos_x := wrap32 (pos_x c + 4)\<rparr>) st)
     else if ch = 11 then Some (set_console n (c\<lparr>pos_y := wrap32 (pos_y c + 1)\<rparr>) st)
     else if ch = 8 then do {
       let c = step_back c;
       let c = (if pos_y c < 0 then c\<lparr>pos_x := 0, pos_y := 0\<rparr> else c);
       st \<leftarrow> putrawchar n 32 (set_console n c st);
       c \<leftarrow> get_console n st;
       Some (set_console n (step_back c) st)
     }
     else if ch = 12 then Some (set_console n (c\<lparr>pos_x := 0, pos_y := 0\<rparr>) st)
     else putrawchar n ch st
   }"

primrec putchars :: "int \<Rightarrow> u8 list \<Rightarrow> tty \<Rightarrow> tty option" where
  "putchars n [] st = Some st"
| "putchars n (c # cs) st = do { st \<leftarrow> putchar n c st; putchars n cs st }"

text \<open>The base size of the arguments of \<^verbatim>\<open>puts\<close> is that of two \<^verbatim>\<open>int\<close>s.\<close>

definition PUTS_ARGS_BASE_SIZE :: u64 where
  "PUTS_ARGS_BASE_SIZE = 8"

section \<open>Input\<close>

definition escape_key :: "int \<Rightarrow> u8" where
  "escape_key key = word_of_int (if key = ENTER then 10 else if key = BACKSPACE then 8 else if key = TAB then 9 else key)"

text \<open>\<^verbatim>\<open>__getchar\<close>, with the key that the keyboard driver returns; a wait for \<^verbatim>\<open>wait_enter\<close> is \<open>None\<close>.\<close>

definition getchar :: "int \<Rightarrow> tty \<Rightarrow> (u8 \<times> tty) option" where
  "getchar key st =
     (if wait_enter st \<le> 0 then None
      else let st = st\<lparr>wait_enter := wait_enter st - 1\<rparr>
        in Some (escape_key key, if key \<noteq> ENTER then st\<lparr>wait_enter := min CONSOLE_LINES (wait_enter st + 1)\<rparr> else st))"

definition wrapper_getchar :: "int \<Rightarrow> int \<Rightarrow> tty \<Rightarrow> (u8 \<times> tty) option" where
  "wrapper_getchar n key st = (if n = current_active_console st then getchar key st else Some (0, st))"

section \<open>Cursor and text\<close>

definition control :: "u8 \<Rightarrow> bool" where
  "control ch \<longleftrightarrow> ch \<in> {8, 9, 10, 11, 12, 13}"

text \<open>\<open>cursor c\<close>: the cursor as an index of the buffer; \<open>in_line c\<close>: it is in a column of the screen.\<close>

definition cursor :: "console \<Rightarrow> int" where
  "cursor c = pos_y c * CONSOLE_COLUMNS + pos_x c"

definition in_line :: "console \<Rightarrow> bool" where
  "in_line c \<longleftrightarrow> 0 \<le> pos_x c \<and> pos_x c < CONSOLE_COLUMNS"

text \<open>\<open>in_reach c k\<close>: the next \<open>k\<close> cells of the buffer have offsets that an \<^verbatim>\<open>int\<close> can hold.\<close>

definition in_reach :: "console \<Rightarrow> nat \<Rightarrow> bool" where
  "in_reach c k \<longleftrightarrow> - (2 ^ 30) \<le> cursor c \<and> cursor c + int k \<le> 2 ^ 30"

definition put_text :: "(int \<Rightarrow> u8) \<Rightarrow> int \<Rightarrow> u8 \<Rightarrow> u8 list \<Rightarrow> (int \<Rightarrow> u8)" where
  "put_text m a col cs = (\<lambda>x. if a \<le> x \<and> x < a + 2 * int (length cs)
     then (if even (x - a) then cs ! nat ((x - a) div 2) else col) else m x)"

lemma put_text_Cons: "put_text (m(a := ch, a + 1 := col)) (a + 2) col cs = put_text m a col (ch # cs)"
proof
  fix x
  consider "x < a" | "x = a" | "x = a + 1" | "a + 2 \<le> x" by linarith
  then show "put_text (m(a := ch, a + 1 := col)) (a + 2) col cs x = put_text m a col (ch # cs) x"
  proof cases
    case 4
    have "nat ((x - a) div 2) = Suc (nat ((x - (a + 2)) div 2))"
      using 4 by (simp add: Suc_nat_eq_nat_zadd1 flip: diff_diff_eq)
    moreover have "even (x - (a + 2)) = even (x - a)" by simp
    ultimately show ?thesis using 4 by (simp add: put_text_def)
  qed (simp_all add: put_text_def)
qed

lemma put_text_simps [simp]:
  "put_text m a col [] = m" "put_text m a col [ch] = m(a := ch, a + 1 := col)"
proof -
  show n: "put_text m a col [] = m" for m a by (auto simp: put_text_def fun_eq_iff)
  show "put_text m a col [ch] = m(a := ch, a + 1 := col)" using put_text_Cons [of m a ch col "[]"] by (simp add: n)
qed

lemma get_set_console [simp]:
  "get_console n st = Some c \<Longrightarrow> get_console n (set_console n c' st) = Some c'"
  "get_console n st = Some c \<Longrightarrow> set_console n c'' (set_console n c' st) = set_console n c'' st"
  "mem (set_console n c' st) = mem st" "current_active_console (set_console n c' st) = current_active_console st"
  by (auto simp: get_console_def set_console_def split: if_splits)

lemma get_console_mem [simp]: "get_console n (st\<lparr>mem := m\<rparr>) = get_console n st"
  by (simp add: get_console_def)

lemma set_console_mem: "set_console n c (st\<lparr>mem := m\<rparr>) = (set_console n c st)\<lparr>mem := m\<rparr>"
  by (simp add: set_console_def)

lemma set_console_same: "get_console n st = Some c \<Longrightarrow> set_console n c st = st"
  by (auto simp: get_console_def set_console_def split: if_splits)

lemma putchar_raw: "\<not> control ch \<Longrightarrow> putchar n ch st = (case get_console n st of None \<Rightarrow> None | Some c \<Rightarrow> putrawchar n ch st)"
  by (cases "get_console n st") (simp_all add: putchar_def control_def)

text \<open>The console after one character.\<close>

definition moved :: "console \<Rightarrow> console" where
  "moved c = (if pos_x c + 1 = CONSOLE_COLUMNS then c\<lparr>pos_x := 0, pos_y := pos_y c + 1\<rparr> else c\<lparr>pos_x := pos_x c + 1\<rparr>)"

lemma moved_simps [simp]:
  "in_line c \<Longrightarrow> in_line (moved c)" "cursor (moved c) = cursor c + 1"
  "framebuffer (moved c) = framebuffer c" "color (moved c) = color c"
  by (auto simp: moved_def in_line_def cursor_def console_defs)

lemma putrawchar_eq:
  assumes "get_console n st = Some c" and l: "in_line c" and r: "in_reach c 1"
  shows "putrawchar n ch st = Some ((set_console n (moved c) st)\<lparr>mem := (mem st)(framebuffer c + cursor c * 2 := ch,
       framebuffer c + cursor c * 2 + 1 := word_of_int (color c))\<rparr>)"
proof -
  have b: "- (2 ^ 30) \<le> pos_y c * 80 + pos_x c" "pos_y c * 80 + pos_x c < 2 ^ 30" "0 \<le> pos_x c" "pos_x c < 80"
    using l r by (simp_all add: in_line_def in_reach_def cursor_def console_defs)
  then have "wrap32 (pos_y c * 80) = pos_y c * 80" by (simp add: wrap32_id)
  moreover have "wrap32 (pos_y c * 80 + pos_x c) = pos_y c * 80 + pos_x c"
    "wrap32 ((pos_y c * 80 + pos_x c) * 2) = (pos_y c * 80 + pos_x c) * 2"
    "wrap32 (pos_x c + 1) = pos_x c + 1" "wrap32 (pos_y c + 1) = pos_y c + 1"
    using b by (simp_all add: wrap32_id)
  ultimately show ?thesis using assms(1)
    by (simp add: putrawchar_def moved_def cursor_def set_console_mem Let_def CONSOLE_COLUMNS_def)
qed

lemma putchars_text:
  assumes "get_console n st = Some c" and "in_line c" and "\<forall>ch\<in>set cs. \<not> control ch" and "in_reach c (length cs)"
  shows "\<exists>st' c'. putchars n cs st = Some st' \<and> get_console n st' = Some c' \<and> in_line c' \<and> cursor c' = cursor c + int (length cs)
     \<and> framebuffer c' = framebuffer c \<and> color c' = color c
     \<and> mem st' = put_text (mem st) (framebuffer c + cursor c * 2) (word_of_int (color c)) cs"
  using assms
proof (induction cs arbitrary: st c)
  case Nil
  then show ?case by auto
next
  case (Cons ch cs)
  let ?a = "framebuffer c + cursor c * 2"
  let ?st = "(set_console n (moved c) st)\<lparr>mem := (mem st)(?a := ch, ?a + 1 := word_of_int (color c))\<rparr>"
  have h: "in_reach c 1" "in_reach (moved c) (length cs)" using Cons.prems(4) by (simp_all add: in_reach_def)
  have p: "putchar n ch st = Some ?st"
    using Cons.prems putrawchar_eq [OF Cons.prems(1,2) h(1)] by (simp add: putchar_raw)
  have g: "get_console n ?st = Some (moved c)" using Cons.prems(1) by simp
  obtain st' c' where r: "putchars n cs ?st = Some st'" "get_console n st' = Some c'" "in_line c'"
      "cursor c' = cursor (moved c) + int (length cs)" "framebuffer c' = framebuffer c" "color c' = color c"
      "mem st' = put_text (mem ?st) (framebuffer c + cursor (moved c) * 2) (word_of_int (color c)) cs"
    using Cons.IH [OF g moved_simps(1) [OF Cons.prems(2)] _ h(2)] Cons.prems(3) by (simp only: moved_simps list.set) blast
  have e: "framebuffer c + cursor (moved c) * 2 = ?a + 2" by simp
  have m: "mem st' = put_text (mem st) ?a (word_of_int (color c)) (ch # cs)"
  proof -
    have "mem ?st = (mem st)(?a := ch, ?a + 1 := word_of_int (color c))" by simp
    then show ?thesis using r(7) put_text_Cons unfolding e by metis
  qed
  show ?case using p r(1-6) m by (intro exI [of _ st'] exI [of _ c']) simp
qed

lemma moved_back:
  assumes "in_line c" and "0 \<le> pos_y c" and "in_reach c 1"
  shows "step_back (moved c) = c" and "\<not> pos_y (step_back (moved c)) < 0"
proof -
  have b: "0 \<le> pos_x c" "pos_x c < 80" "pos_y c < 2 ^ 30"
    using assms by (auto simp: in_line_def in_reach_def cursor_def console_defs)
  then have "wrap32 (pos_x c) = pos_x c" "wrap32 (pos_y c) = pos_y c" "wrap32 (- 1) = - 1" using assms(2) by (simp_all add: wrap32_id)
  then show "step_back (moved c) = c" "\<not> pos_y (step_back (moved c)) < 0"
    using b assms(2) by (auto simp: step_back_def moved_def CONSOLE_COLUMNS_def Let_def)
qed

lemma newlines:
  assumes "get_console n st = Some c" and "- (2 ^ 31) \<le> pos_y c" and "pos_y c + int k < 2 ^ 31"
  shows "putchars n (replicate k 10) st
     = Some (if k = 0 then st else set_console n (c\<lparr>pos_x := 0, pos_y := pos_y c + int k\<rparr>) st)"
  using assms
proof (induction k arbitrary: st c)
  case 0
  then show ?case by simp
next
  case (Suc k)
  let ?c = "c\<lparr>pos_x := 0, pos_y := pos_y c + 1\<rparr>"
  have "putchar n 10 st = Some (set_console n ?c st)" using Suc.prems by (simp add: putchar_def wrap32_id)
  moreover have "get_console n (set_console n ?c st) = Some ?c" using Suc.prems by simp
  ultimately show ?case using Suc.IH [of "set_console n ?c st" ?c] Suc.prems by (simp add: add.commute add.left_commute)
qed

section \<open>Properties\<close>

text \<open>
  Text without control characters, printed from a cursor on a line of the screen: its characters and the colour
  are stored alternately from the cursor's cell on, wrapping from the end of a line to the next line, nothing
  else in memory changes, and the cursor moves on by the length of the text.  The offsets must fit into an \<^verbatim>\<open>int\<close>.
\<close>

theorem console_prints_text:
  assumes "get_console n st = Some c" and "in_line c" and "\<forall>ch\<in>set cs. \<not> control ch" and "in_reach c (length cs)"
  shows "\<exists>st' c'. putchars n cs st = Some st' \<and> get_console n st' = Some c' \<and> in_line c' \<and> cursor c' = cursor c + int (length cs)
     \<and> mem st' = put_text (mem st) (framebuffer c + cursor c * 2) (word_of_int (color c)) cs"
  using putchars_text [OF assms] by blast

definition example_tty :: tty where
  "example_tty = init_consoles [(1000, 0), (10000, 1), (20000, 2), (30000, 3)]
     \<lparr>mem = (\<lambda>_. 0), consoles = [], current_active_console = 0, wait_enter = 0\<rparr>"

lemma example_console: "get_console 0 example_tty
    = Some \<lparr>framebuffer = 1000, framebuffer_id = 0, console_no = 0, pos_x = 0, pos_y = 0, color = 15\<rparr>"
  by (simp add: example_tty_def init_consoles_def get_console_def CONSOLE_NUM_def upt_rec)

theorem console_prints_text_witness:
  "\<exists>st'. putchars 0 [65, 66] example_tty = Some st' \<and> mem st' = put_text (\<lambda>_. 0) 1000 15 [65, 66]"
  using console_prints_text [OF example_console, of "[65, 66]"]
  by (auto simp: in_line_def in_reach_def console_defs control_def cursor_def example_tty_def init_consoles_def)

text \<open>
  A backspace after a printed character puts the cursor back where it was and leaves a blank in the cell, also
  when the character was the last of a line.
\<close>

theorem backspace_undoes:
  assumes "get_console n st = Some c" and "in_line c" and "0 \<le> pos_y c" and "\<not> control ch" and "in_reach c 1"
  shows "\<exists>st'. putchars n [ch, 8] st = Some st' \<and> get_console n st' = Some c
     \<and> mem st' = put_text (mem st) (framebuffer c + cursor c * 2) (word_of_int (color c)) [32]"
proof -
  let ?a = "framebuffer c + cursor c * 2"
  let ?st = "(set_console n (moved c) st)\<lparr>mem := (mem st)(?a := ch, ?a + 1 := word_of_int (color c))\<rparr>"
  have p: "putchar n ch st = Some ?st" using assms(1,4) putrawchar_eq [OF assms(1,2,5)] by (simp add: putchar_raw)
  have g: "get_console n ?st = Some (moved c)" using assms(1) by simp
  let ?s2 = "set_console n c ?st"
  have g2: "get_console n ?s2 = Some c" using g by simp
  let ?s3 = "(set_console n (moved c) ?s2)\<lparr>mem := (mem ?s2)(?a := 32, ?a + 1 := word_of_int (color c))\<rparr>"
  have "putchar n 8 ?st = Some (set_console n c ?s3)"
    using g g2 moved_back [OF assms(2,3,5)] by (simp add: putchar_def putrawchar_eq [OF g2 assms(2,5)] Let_def)
  moreover have "mem (set_console n c ?s3) = put_text (mem st) ?a (word_of_int (color c)) [32]"
    by (simp add: fun_upd_twist)
  moreover have "get_console n (set_console n c ?s3) = Some c" using g2 by simp
  ultimately show ?thesis using p by (intro exI [of _ "set_console n c ?s3"]) simp
qed

theorem backspace_undoes_witness:
  "\<exists>st'. putchars 0 [65, 8] example_tty = Some st' \<and> get_console 0 st' = get_console 0 example_tty"
  using backspace_undoes [OF example_console, of 65]
  by (auto simp: in_line_def in_reach_def cursor_def console_defs control_def example_console)

text \<open>
  Nothing keeps the cursor on the screen and nothing scrolls: on a cleared console, a character after 25 line
  breaks is stored right behind the buffer of 25 lines.
\<close>

theorem console_runs_off:
  assumes "get_console n st = Some c" and "pos_x c = 0" and "pos_y c = 0" and "\<not> control ch"
  shows "\<exists>st'. putchars n (replicate 25 10 @ [ch]) st = Some st' \<and> mem st' (framebuffer c + CONSOLE_SIZE) = ch"
proof -
  let ?c = "c\<lparr>pos_x := 0, pos_y := 25\<rparr>"
  have a: "putchars n (xs @ ys) st = Option.bind (putchars n xs st) (putchars n ys)" for xs ys
    by (induction xs arbitrary: st) (simp_all add: Option.bind_assoc)
  have "putchars n (replicate 25 10) st = Some (set_console n ?c st)" using newlines [OF assms(1), of 25] assms(3) by simp
  moreover have "get_console n (set_console n ?c st) = Some ?c" using assms(1) by simp
  moreover have "in_line ?c" "in_reach ?c 1" by (simp_all add: in_line_def in_reach_def cursor_def console_defs)
  ultimately show ?thesis using assms(4)
    by (simp add: a putchar_raw putrawchar_eq) (simp add: cursor_def console_defs)
qed

theorem console_runs_off_witness:
  "\<exists>st'. putchars 0 (replicate 25 10 @ [65]) example_tty = Some st' \<and> mem st' (1000 + 4000) = 65"
  using console_runs_off [OF example_console, of 65] by (auto simp: control_def console_defs)

end
