(* ===== verification/Rpc.thy ===== *)
theory Rpc
  imports Ipc
begin

text \<open>
  Remote procedure calls to the system task: the table of procedures and the dispatcher of \<^verbatim>\<open>kernel/syscall/rpc.c\<close>
  and the procedures and the message loop of \<^verbatim>\<open>kernel/syscall/sys_task.c\<close>.  The lemmas show that the table is a
  lookup table, which requests are served and which are dropped, that a shared range of pages is the same memory
  in both tasks, and how a caller can stop the system task.
\<close>

section \<open>Kernel memory\<close>

text \<open>The kernel reads and writes its own memory through the identity mapping.\<close>

definition kbytes :: "nat \<Rightarrow> nat \<Rightarrow> kstate \<Rightarrow> u8 list" where
  "kbytes p n st = map (vm_bytes (vm st)) [p..<p + n]"

definition kstore :: "nat \<Rightarrow> u8 list \<Rightarrow> kstate \<Rightarrow> kstate" where
  "kstore p bs st = st\<lparr>vm := (vm st)\<lparr>vm_bytes := store_bytes (vm_bytes (vm st)) p bs\<rparr>\<rparr>"

text \<open>\<^verbatim>\<open>ARG_READ\<close> and \<^verbatim>\<open>ARG_WRITE\<close>: the value of \<open>n\<close> bytes, and the pointer behind them.\<close>

definition ARG_READ :: "nat \<Rightarrow> nat \<Rightarrow> kstate \<Rightarrow> nat \<times> nat" where
  "ARG_READ args n st = (le_val (kbytes args n st), args + n)"

definition ARG_WRITE :: "nat \<Rightarrow> nat \<Rightarrow> nat \<Rightarrow> kstate \<Rightarrow> nat \<times> kstate" where
  "ARG_WRITE args n v st = (args + n, kstore args (le_bytes n v) st)"

section \<open>The table of procedures\<close>

text \<open>\<^verbatim>\<open>rpc_args_struct\<close>: an address of 44 bits and a signed size of 20 bits.\<close>

record rpc_args =
  ra_data :: nat
  ra_size :: int

definition mk_args :: "nat \<Rightarrow> int \<Rightarrow> rpc_args" where
  "mk_args data sz = \<lparr>ra_data = data mod 2 ^ 44, ra_size = signed_take_bit 19 sz\<rparr>"

type_synonym wrapper = "int \<Rightarrow> u64 \<Rightarrow> rpc_args \<Rightarrow> kstate \<Rightarrow> (rpc_args \<times> kstate) option"

record proccess_info =
  func_no :: u64
  proccess :: wrapper
  return_size :: u32
  args_size :: u32

record proccess_node =
  nd_func_no :: u64
  nd_info :: ptr
  nd_next :: ptr

record rpc_state =
  head_node :: ptr
  pinfos :: "ptr \<rightharpoonup> proccess_info"
  pnodes :: "ptr \<rightharpoonup> proccess_node"

definition SIZEOF_PROCCESS_INFO :: u64 where "SIZEOF_PROCCESS_INFO = 24"
definition SIZEOF_PROCCESS_NODE :: u64 where "SIZEOF_PROCCESS_NODE = 24"
definition SIZEOF_RPC_FUNC :: nat where "SIZEOF_RPC_FUNC = 8"
definition SIZEOF_RPC_SIZE :: nat where "SIZEOF_RPC_SIZE = 4"

text \<open>\<^verbatim>\<open>list_find_proccess\<close>: the null pointer when no node has the number.\<close>

partial_function (option) find_proccess :: "(ptr \<rightharpoonup> proccess_node) \<Rightarrow> ptr \<Rightarrow> u64 \<Rightarrow> ptr option" where
  "find_proccess ns cur f =
     (if cur = NULL then Some NULL
      else do { n \<leftarrow> ns cur; if nd_func_no n \<noteq> f then find_proccess ns (nd_next n) f else Some (nd_info n) })"

definition list_find_proccess :: "u64 \<Rightarrow> rpc_state \<Rightarrow> ptr option" where
  "list_find_proccess f r = find_proccess (pnodes r) (head_node r) f"

definition add_proccess :: "nat \<Rightarrow> u64 \<Rightarrow> ptr \<Rightarrow> kstate \<times> rpc_state \<Rightarrow> (kstate \<times> rpc_state) option" where
  "add_proccess fuel f info s = do {
     let (st, r) = s;
     (new_node, st) \<leftarrow> k_alloc fuel SIZEOF_PROCCESS_NODE st;
     Some (st, r\<lparr>head_node := new_node,
                 pnodes := (pnodes r)(new_node \<mapsto> \<lparr>nd_func_no = f, nd_info = info, nd_next = head_node r\<rparr>)\<rparr>)
   }"

definition rpc_register :: "nat \<Rightarrow> u64 \<Rightarrow> wrapper \<Rightarrow> u32 \<Rightarrow> u32 \<Rightarrow> kstate \<times> rpc_state \<Rightarrow> (kstate \<times> rpc_state) option" where
  "rpc_register fuel f process rsize asize s = do {
     let (st, r) = s;
     (info, st) \<leftarrow> k_alloc fuel SIZEOF_PROCCESS_INFO st;
     let r = r\<lparr>pinfos := (pinfos r)(info \<mapsto> \<lparr>func_no = f, proccess = process, return_size = rsize, args_size = asize\<rparr>)\<rparr>;
     add_proccess fuel f info (st, r)
   }"

section \<open>The dispatcher\<close>

definition MSG_RPC_CALL :: u8 where "MSG_RPC_CALL = 1"
definition MSG_RPC_RESULT :: u8 where "MSG_RPC_RESULT = 2"

text \<open>
  The end of \<^verbatim>\<open>deal_rpc_request\<close>, once the procedure has returned: the result is sent to the caller behind the number of
  the function.  A result of negative size, a faulting send and the failed assertion are \<open>None\<close>.
\<close>

definition send_result :: "nat \<Rightarrow> u8 \<Rightarrow> msgpack \<Rightarrow> u64 \<Rightarrow> proccess_info \<Rightarrow> rpc_args \<Rightarrow> kstate \<Rightarrow> kstate option" where
  "send_result fuel junk pack f info res st =
     (if ra_size res < 0 then None else do {
        let total = SIZEOF_RPC_FUNC + nat (ra_size res);
        (return_data, st) \<leftarrow> k_alloc fuel (of_nat total) st;
        let (data, st) = ARG_WRITE return_data SIZEOF_RPC_FUNC (unat f) st;
        let st = kstore data (kbytes (ra_data res) (nat (ra_size res)) st) st;
        st \<leftarrow> (if return_size info = of_int (ra_size res) \<or> return_size info = - 1
               then do {
                 (send_ret, st) \<leftarrow> send_msg junk \<lparr>no_reserved = 0, no_message = MSG_RPC_RESULT, no_msg_id = msg_id pack\<rparr>
                    return_data (of_nat total) (uint (mp_source pack)) st;
                 if send_ret then Some st else None
               }
               else Some st);
        st \<leftarrow> k_free (ra_data res) st;
        k_free return_data st
      })"

text \<open>\<^verbatim>\<open>deal_rpc_request\<close>; the early returns only log.\<close>

definition deal_rpc_request :: "nat \<Rightarrow> u8 \<Rightarrow> msgpack \<Rightarrow> nat \<Rightarrow> kstate \<times> rpc_state \<Rightarrow> (kstate \<times> rpc_state) option" where
  "deal_rpc_request fuel junk pack msg s = do {
     let (st, r) = s;
     let (f, msg) = ARG_READ msg SIZEOF_RPC_FUNC st;
     p \<leftarrow> list_find_proccess (of_nat f) r;
     if p = NULL then Some s else do {
       info \<leftarrow> pinfos r p;
       let (asize, msg) = ARG_READ msg SIZEOF_RPC_SIZE st;
       if of_nat asize \<noteq> args_size info \<and> args_size info \<noteq> - 1 then Some s else do {
         let (rsize, msg) = ARG_READ msg SIZEOF_RPC_SIZE st;
         if of_nat rsize \<noteq> return_size info \<and> return_size info \<noteq> - 1 then Some s else do {
           (res, st) \<leftarrow> proccess info (uint (mp_source pack)) (of_nat f) (mk_args msg (int asize)) st;
           st \<leftarrow> send_result fuel junk pack (of_nat f) info res st;
           Some (st, r)
         }
       }
     }
   }"

section \<open>The procedures of the system task\<close>

definition SHARE_MEMORY_FN :: u64 where "SHARE_MEMORY_FN = 0"
definition SHARE_MEMORY_ARGS_SIZE :: u32 where "SHARE_MEMORY_ARGS_SIZE = 16"
definition CREATE_SHARE_MEMORY_FN :: u64 where "CREATE_SHARE_MEMORY_FN = 1"
definition CREATE_SHARE_MEMORY_ARGS_SIZE :: u32 where "CREATE_SHARE_MEMORY_ARGS_SIZE = 4"
definition SIZEOF_POINTER :: nat where "SIZEOF_POINTER = 8"

text \<open>The 32-bit \<^verbatim>\<open>int\<close> that four bytes hold, and \<^verbatim>\<open>shm_ptr += pages * MEMUNIT_SZ\<close>.\<close>

definition int_of :: "nat \<Rightarrow> int" where
  "int_of v = wrap32 (int v)"

definition shm_advance :: "nat \<Rightarrow> int \<Rightarrow> nat" where
  "shm_advance p pages = nat ((int p + wrap32 (pages * int MEMUNIT_SZ)) mod 2 ^ 64)"

text \<open>
  \<^verbatim>\<open>__share_memory\<close>: an unknown pid gives the null pointer, which is dereferenced.  The result of \<^verbatim>\<open>set_mappingvv\<close> is
  ignored.
\<close>

definition share_memory :: "nat \<Rightarrow> nat \<Rightarrow> int \<Rightarrow> int \<Rightarrow> int \<Rightarrow> kstate \<Rightarrow> (nat \<times> kstate) option" where
  "share_memory fuel addr pages source_pid target_pid st = do {
     source_task \<leftarrow> get_task_by_pid source_pid st;
     target_task \<leftarrow> get_task_by_pid target_pid st;
     t \<leftarrow> tasks st target_task;
     let mapping_ptr = shm_ptr (tk_mm_info t);
     st \<leftarrow> upd_task target_task
             (\<lambda>t. t\<lparr>tk_mm_info := (tk_mm_info t)\<lparr>shm_ptr := shm_advance mapping_ptr pages\<rparr>\<rparr>) st;
     src \<leftarrow> tasks st source_task;
     (_, v) \<leftarrow> set_mappingvv fuel (pgd (tk_mm_info src)) addr (pgd (tk_mm_info t)) mapping_ptr (nat pages) True True (vm st);
     Some (mapping_ptr, st\<lparr>vm := v\<rparr>)
   }"

definition create_share_memory :: "nat \<Rightarrow> int \<Rightarrow> int \<Rightarrow> kstate \<Rightarrow> (nat \<times> kstate) option" where
  "create_share_memory fuel pages source_pid st = do {
     source_task \<leftarrow> get_task_by_pid source_pid st;
     t \<leftarrow> tasks st source_task;
     let mapping_ptr = shm_ptr (tk_mm_info t);
     st \<leftarrow> upd_task source_task
             (\<lambda>t. t\<lparr>tk_mm_info := (tk_mm_info t)\<lparr>shm_ptr := shm_advance mapping_ptr pages\<rparr>\<rparr>) st;
     v \<leftarrow> alloc_vpages fuel (pgd (tk_mm_info t)) mapping_ptr pages (vm st);
     Some (mapping_ptr, st\<lparr>vm := v\<rparr>)
   }"

definition wrapper_share_memory :: "nat \<Rightarrow> wrapper" where
  "wrapper_share_memory fuel caller f args st = do {
     let (addr, p) = ARG_READ (ra_data args) SIZEOF_POINTER st;
     let (pages, p) = ARG_READ p 4 st;
     let (target, _) = ARG_READ p 4 st;
     (dst, st) \<leftarrow> k_alloc fuel (of_nat SIZEOF_POINTER) st;
     (res, st) \<leftarrow> share_memory fuel addr (int_of pages) caller (int_of target) st;
     Some (mk_args dst (int SIZEOF_POINTER), kstore dst (le_bytes SIZEOF_POINTER res) st)
   }"

definition wrapper_create_share_memory :: "nat \<Rightarrow> wrapper" where
  "wrapper_create_share_memory fuel caller f args st = do {
     let (pages, _) = ARG_READ (ra_data args) 4 st;
     (dst, st) \<leftarrow> k_alloc fuel (of_nat SIZEOF_POINTER) st;
     (res, st) \<leftarrow> create_share_memory fuel (int_of pages) caller st;
     Some (mk_args dst (int SIZEOF_POINTER), kstore dst (le_bytes SIZEOF_POINTER res) st)
   }"

text \<open>
  \<^verbatim>\<open>sys_task\<close>: the set-up, and one round of its loop once a message has arrived.  \<open>slot\<close> is the address of the
  local variable \<^verbatim>\<open>status\<close>.
\<close>

definition MSG_LENGTH :: u64 where "MSG_LENGTH = 2048"
definition INIT_SERVICE :: int where "INIT_SERVICE = 1"
definition MSG_NORMAL_IPC :: u8 where "MSG_NORMAL_IPC = 0"

definition sys_task_init :: "nat \<Rightarrow> u8 \<Rightarrow> nat \<Rightarrow> kstate \<times> rpc_state \<Rightarrow> (nat \<times> kstate \<times> rpc_state) option" where
  "sys_task_init fuel junk slot s = do {
     let (st, r) = s;
     (mail, st) \<leftarrow> k_alloc fuel 8192 st;
     st \<leftarrow> set_mailbuffer mail 8192 st;
     s \<leftarrow> rpc_register fuel SHARE_MEMORY_FN (wrapper_share_memory fuel) (of_nat SIZEOF_POINTER) SHARE_MEMORY_ARGS_SIZE (st, r);
     s \<leftarrow> rpc_register fuel CREATE_SHARE_MEMORY_FN (wrapper_create_share_memory fuel) (of_nat SIZEOF_POINTER)
             CREATE_SHARE_MEMORY_ARGS_SIZE s;
     let (st, r) = s;
     st \<leftarrow> set_allow ANY_TASK st;
     (msg, st) \<leftarrow> k_alloc fuel MSG_LENGTH st;
     let (i, counter) = get_msgid (msgid_counter st);
     (send_ret, st) \<leftarrow> send_msg junk \<lparr>no_reserved = 0, no_message = MSG_NORMAL_IPC, no_msg_id = i\<rparr> slot 1 INIT_SERVICE
        (kstore slot [1] (st\<lparr>msgid_counter := counter\<rparr>));
     if send_ret then Some (msg, st, r) else None
   }"

definition sys_task_round :: "nat \<Rightarrow> u8 \<Rightarrow> nat \<Rightarrow> kstate \<times> rpc_state \<Rightarrow> (kstate \<times> rpc_state) option" where
  "sys_task_round fuel junk msg s = do {
     let (st, r) = s;
     (pack, st) \<leftarrow> recv_msg msg st;
     if message_no pack = MSG_RPC_CALL then deal_rpc_request fuel junk pack msg (st, r) else Some (st, r)
   }"

section \<open>Memory of the kernel and tasks\<close>

lemma kstore_simps [simp]:
  "threads (kstore p bs st) = threads st" "tasks (kstore p bs st) = tasks st" "task_list (kstore p bs st) = task_list st"
  "current_thread (kstore p bs st) = current_thread st" "km (kstore p bs st) = km st"
  by (simp_all add: kstore_def)

lemma get_task_by_pid_cong:
  "tasks st' = tasks st \<Longrightarrow> task_list st' = task_list st \<Longrightarrow> get_task_by_pid p st' = get_task_by_pid p st"
  by (simp add: get_task_by_pid_def)

lemma k_alloc_frame:
  assumes "k_alloc fuel sz st = Some (p, st')"
  shows "tasks st' = tasks st" "task_list st' = task_list st" "threads st' = threads st" "current_thread st' = current_thread st"
  using assms by (auto simp: k_alloc_Some)

section \<open>Shared memory\<close>

lemma get_physical_address_offset:
  assumes "MEMUNIT_SZ dvd v" and "off < MEMUNIT_SZ" and "get_physical_address T d v \<noteq> NULL"
  shows "get_physical_address T d (v + off) = get_physical_address T d v + off"
proof -
  have "(v + off) div 4096 = v div 4096" "(v + off) mod 4096 = off" "v mod 4096 = 0"
    using assms(1,2) by (auto elim!: dvdE)
  moreover from this have "path (v + off) = path v" "vidx 12 (v + off) = vidx 12 v"
    unfolding path_def vidx_digits by simp_all
  ultimately show ?thesis
    using assms(3) by (cases "page_of T d (path v) (vidx 12 v)") (simp_all add: get_physical_address_translate translate_def)
qed

lemma shm_advance_forward:
  assumes "n * MEMUNIT_SZ < 2 ^ 31" and "p + n * MEMUNIT_SZ < 2 ^ 64"
  shows "shm_advance p (int n) = p + n * MEMUNIT_SZ"
proof -
  have "wrap32 (int n * int MEMUNIT_SZ) = int (n * MEMUNIT_SZ)"
    using assms(1) by (subst wrap32_id) auto
  then show ?thesis
    using assms(2) by (simp add: shm_advance_def flip: of_nat_add of_nat_mult)
qed

text \<open>What \<^verbatim>\<open>__share_memory\<close> does to the tables, for source pages that may be absent.\<close>

lemma share_memory_ok:
  assumes src: "get_task_by_pid sp st = Some s" "tasks st s = Some src"
    and tgt: "get_task_by_pid tp st = Some t" "tasks st t = Some tgt"
    and inv: "vm_inv (vm st) xs A (pgd (tk_mm_info tgt))"
    and other: "other_space (vm_tables (vm st)) A (pgd (tk_mm_info tgt)) (pgd (tk_mm_info src))"
    and room: "27 * n \<le> slots xs" "3 * n \<le> npages A"
    and al: "MEMUNIT_SZ dvd addr" "MEMUNIT_SZ dvd shm_ptr (tk_mm_info tgt)"
    and small: "n * MEMUNIT_SZ < 2 ^ 31" "shm_ptr (tk_mm_info tgt) + n * MEMUNIT_SZ \<le> 2 ^ 48"
  obtains st' t' ys A' where "share_memory (Suc f) addr (int n) sp tp st = Some (shm_ptr (tk_mm_info tgt), st')"
    and "tasks st' t = Some t'" "pgd (tk_mm_info t') = pgd (tk_mm_info tgt)"
      "shm_ptr (tk_mm_info t') = shm_ptr (tk_mm_info tgt) + n * MEMUNIT_SZ"
    and "vm_inv (vm st') ys A' (pgd (tk_mm_info tgt))"
    and "\<forall>v. get_physical_address (vm_tables (vm st')) (pgd (tk_mm_info src)) v =
      get_physical_address (vm_tables (vm st)) (pgd (tk_mm_info src)) v"
    and "\<forall>k<n. \<forall>off<MEMUNIT_SZ. get_physical_address (vm_tables (vm st')) (pgd (tk_mm_info tgt))
          (shm_ptr (tk_mm_info tgt) + k * MEMUNIT_SZ + off) =
        get_physical_address (vm_tables (vm st)) (pgd (tk_mm_info src)) (addr + k * MEMUNIT_SZ) + off"
    and "\<forall>v<2 ^ 48. v < shm_ptr (tk_mm_info tgt) \<or> shm_ptr (tk_mm_info tgt) + n * MEMUNIT_SZ \<le> v \<longrightarrow>
        get_physical_address (vm_tables (vm st')) (pgd (tk_mm_info tgt)) v =
        get_physical_address (vm_tables (vm st)) (pgd (tk_mm_info tgt)) v"
proof -
  let ?p = "shm_ptr (tk_mm_info tgt)" and ?d = "pgd (tk_mm_info tgt)" and ?s = "pgd (tk_mm_info src)"
  let ?t' = "tgt\<lparr>tk_mm_info := (tk_mm_info tgt)\<lparr>shm_ptr := shm_advance ?p (int n)\<rparr>\<rparr>"
  let ?st1 = "st\<lparr>tasks := (tasks st)(t \<mapsto> ?t')\<rparr>"
  obtain q where q: "?p = MEMUNIT_SZ * q" using al(2) by (auto elim!: dvdE)
  have "?p + (0 + n) * MEMUNIT_SZ \<le> 2 ^ 48" using small(2) by simp
  note bound = this
  have "0 + n \<le> 2 ^ 19" using small(1) by simp
  from set_mappingvv_loop_ok [OF inv other room al bound this, of f True True] obtain v' ys A' where
    v': "set_mappingvv_loop (Suc f) ?s addr ?d ?p True True [0..<n] (vm st) = Some (True, v')"
      "vm_inv v' ys A' ?d" "tables_frame (vm st) v' ?d A A'"
      "\<forall>v < 2 ^ 48. translate (vm_tables v') ?d v =
        (if q \<le> v div MEMUNIT_SZ \<and> v div MEMUNIT_SZ < q + n
         then Some (get_physical_address (vm_tables (vm st)) ?s (addr + (v div MEMUNIT_SZ - q) * MEMUNIT_SZ) + v mod MEMUNIT_SZ)
         else translate (vm_tables (vm st)) ?d v)"
    by (auto simp: q)
  obtain src1 where src1: "tasks ?st1 s = Some src1" "pgd (tk_mm_info src1) = ?s"
    using src(2) tgt(2) by (cases "s = t") auto
  have al': "addr div MEMUNIT_SZ * MEMUNIT_SZ = addr" "?p div MEMUNIT_SZ * MEMUNIT_SZ = ?p"
    using al by simp_all
  have "share_memory (Suc f) addr (int n) sp tp st = Some (?p, ?st1\<lparr>vm := v'\<rparr>)"
    unfolding share_memory_def set_mappingvv_def upd_task_def
    using src(1) tgt src1 v'(1) al' by (simp add: Let_def del: fun_upd_apply)
  moreover have "shm_advance ?p (int n) = ?p + n * MEMUNIT_SZ"
    using small by (intro shm_advance_forward) auto
  moreover have "get_physical_address (vm_tables v') ?d (?p + k * MEMUNIT_SZ + off) =
      get_physical_address (vm_tables (vm st)) ?s (addr + k * MEMUNIT_SZ) + off"
    if "k < n" "off < MEMUNIT_SZ" for k off
  proof -
    have "(?p + k * MEMUNIT_SZ + off) div MEMUNIT_SZ = q + k" "(?p + k * MEMUNIT_SZ + off) mod MEMUNIT_SZ = off"
    proof -
      have e: "?p + k * MEMUNIT_SZ + off = off + (q + k) * MEMUNIT_SZ"
        by (simp add: q)
      have "(off + z * MEMUNIT_SZ) div MEMUNIT_SZ = z" "(off + z * MEMUNIT_SZ) mod MEMUNIT_SZ = off" for z
        using that(2) by simp_all
      then show "(?p + k * MEMUNIT_SZ + off) div MEMUNIT_SZ = q + k" "(?p + k * MEMUNIT_SZ + off) mod MEMUNIT_SZ = off"
        unfolding e by blast+
    qed
    moreover have "?p + k * MEMUNIT_SZ + off < 2 ^ 48"
    proof -
      have "k * MEMUNIT_SZ + MEMUNIT_SZ \<le> n * MEMUNIT_SZ" using that(1) by simp
      then show ?thesis using that(2) small(2) by linarith
    qed
    ultimately show ?thesis
      using v'(4) that(1) by (simp add: get_physical_address_translate)
  qed
  moreover have "get_physical_address (vm_tables v') ?d v = get_physical_address (vm_tables (vm st)) ?d v"
    if "v < 2 ^ 48" "v < ?p \<or> ?p + n * MEMUNIT_SZ \<le> v" for v
  proof -
    have "\<not> (q \<le> v div MEMUNIT_SZ \<and> v div MEMUNIT_SZ < q + n)"
      using that(2) unfolding q by (auto simp: less_eq_div_iff_mult_less_eq div_less_iff_less_mult algebra_simps)
    then have "translate (vm_tables v') ?d v = translate (vm_tables (vm st)) ?d v"
      using v'(4) [rule_format, OF that(1)] by (simp only: if_False)
    then show ?thesis
      by (simp add: get_physical_address_translate)
  qed
  ultimately show thesis
    using that [of "?st1\<lparr>vm := v'\<rparr>" ?t' ys A'] v'(2) other_space_frame(2) [OF v'(3) other] by simp
qed

section \<open>The table of procedures is a lookup table\<close>

text \<open>The list of nodes, and the procedure that is found in it.\<close>

definition node_next :: "rpc_state \<Rightarrow> ptr \<rightharpoonup> ptr" where
  "node_next r a = map_option nd_next (pnodes r a)"

definition table_chain :: "rpc_state \<Rightarrow> ptr list \<Rightarrow> bool" where
  "table_chain r ns \<longleftrightarrow> chain (node_next r) (head_node r) ns \<and>
     (\<forall>a\<in>set ns. \<exists>n i. pnodes r a = Some n \<and> nd_info n \<noteq> NULL \<and> pinfos r (nd_info n) = Some i)"

definition table_ok :: "rpc_state \<Rightarrow> bool" where
  "table_ok r \<longleftrightarrow> (\<exists>ns. table_chain r ns)"

definition lookup_proccess :: "u64 \<Rightarrow> rpc_state \<Rightarrow> proccess_info option option" where
  "lookup_proccess f r = do {
     p \<leftarrow> list_find_proccess f r;
     if p = NULL then Some None else map_option Some (pinfos r p)
   }"

text \<open>Registering with the blocks that the heap returned.\<close>

definition insert_proccess :: "ptr \<Rightarrow> ptr \<Rightarrow> u64 \<Rightarrow> proccess_info \<Rightarrow> rpc_state \<Rightarrow> rpc_state option" where
  "insert_proccess info node f i r =
     (if info \<noteq> NULL \<and> node \<noteq> NULL \<and> pinfos r info = None \<and> pnodes r node = None
      then Some (r\<lparr>pinfos := (pinfos r)(info \<mapsto> i), head_node := node,
                   pnodes := (pnodes r)(node \<mapsto> \<lparr>nd_func_no = f, nd_info = info, nd_next = head_node r\<rparr>)\<rparr>)
      else None)"

lemma chain_node:
  "chain (node_next r) p (a # ns) \<longleftrightarrow>
     p = a \<and> a \<noteq> NULL \<and> (\<exists>n. pnodes r a = Some n \<and> chain (node_next r) (nd_next n) ns)"
  by (auto simp: node_next_def split: option.splits)

lemma find_proccess_cong:
  assumes "chain (node_next r) p ns" and "\<And>a. a \<in> set ns \<Longrightarrow> pnodes r' a = pnodes r a"
  shows "find_proccess (pnodes r') p f = find_proccess (pnodes r) p f"
  using assms
proof (induction ns arbitrary: p)
  case Nil
  then show ?case by (simp add: find_proccess.simps [of _ NULL])
next
  case (Cons a ns)
  then obtain n where n: "p = a" "a \<noteq> NULL" "pnodes r a = Some n" "chain (node_next r) (nd_next n) ns"
    using chain_node by blast
  then have "find_proccess (pnodes r') (nd_next n) f = find_proccess (pnodes r) (nd_next n) f"
    using Cons by simp
  then show ?case
    using n Cons.prems(2) [of a] by (simp add: find_proccess.simps [of _ a])
qed

lemma find_proccess_total:
  assumes "chain (node_next r) p ns" and "\<forall>a\<in>set ns. \<exists>n i. pnodes r a = Some n \<and> nd_info n \<noteq> NULL \<and> pinfos r (nd_info n) = Some i"
  shows "\<exists>q. find_proccess (pnodes r) p f = Some q \<and> (q \<noteq> NULL \<longrightarrow> (\<exists>i. pinfos r q = Some i))"
  using assms
proof (induction ns arbitrary: p)
  case Nil
  then show ?case by (simp add: find_proccess.simps [of _ NULL])
next
  case (Cons a ns)
  then obtain n where n: "p = a" "a \<noteq> NULL" "pnodes r a = Some n" "chain (node_next r) (nd_next n) ns"
    using chain_node by blast
  then show ?case
    using Cons by (auto simp: find_proccess.simps [of _ a])
qed

lemma insert_proccess_chain:
  assumes "table_chain r ns" and "insert_proccess info node f i r = Some r'"
  shows "table_chain r' (node # ns)"
    and "lookup_proccess g r' = (if g = f then Some (Some i) else lookup_proccess g r)"
proof -
  have new: "info \<noteq> NULL" "node \<noteq> NULL" "pinfos r info = None" "pnodes r node = None"
    and r': "r' = r\<lparr>pinfos := (pinfos r)(info \<mapsto> i), head_node := node,
                   pnodes := (pnodes r)(node \<mapsto> \<lparr>nd_func_no = f, nd_info = info, nd_next = head_node r\<rparr>)\<rparr>"
    using assms(2) by (auto simp: insert_proccess_def split: if_splits)
  have c: "chain (node_next r) (head_node r) ns"
    and ns: "\<forall>a\<in>set ns. \<exists>n i. pnodes r a = Some n \<and> nd_info n \<noteq> NULL \<and> pinfos r (nd_info n) = Some i"
    using assms(1) by (auto simp: table_chain_def)
  have notin: "node \<notin> set ns"
    using ns new(4) by fastforce
  have same: "pnodes r' a = pnodes r a" if "a \<in> set ns" for a
    using that notin by (auto simp: r')
  have "chain (node_next r') (head_node r) ns"
    using c chain_cong [of ns "node_next r'" "node_next r"] same by (simp add: node_next_def)
  moreover have "\<exists>n i. pnodes r' a = Some n \<and> nd_info n \<noteq> NULL \<and> pinfos r' (nd_info n) = Some i" if "a \<in> set ns" for a
  proof -
    obtain n j where n: "pnodes r a = Some n" "nd_info n \<noteq> NULL" "pinfos r (nd_info n) = Some j"
      using ns \<open>a \<in> set ns\<close> by blast
    moreover have "nd_info n \<noteq> info" using n(3) new(3) by auto
    ultimately show ?thesis using same [OF that] by (simp add: r')
  qed
  ultimately show "table_chain r' (node # ns)"
    using new by (auto simp: table_chain_def r' node_next_def)
  have "find_proccess (pnodes r') (head_node r) g = find_proccess (pnodes r) (head_node r) g"
    by (rule find_proccess_cong [OF c same])
  then have l: "list_find_proccess g r' = (if g = f then Some info else list_find_proccess g r)"
    using new(2) by (simp add: list_find_proccess_def r' find_proccess.simps [of _ node])
  obtain q where "list_find_proccess g r = Some q" "q \<noteq> NULL \<longrightarrow> (\<exists>i. pinfos r q = Some i)"
    using find_proccess_total [OF c ns] by (auto simp: list_find_proccess_def)
  then show "lookup_proccess g r' = (if g = f then Some (Some i) else lookup_proccess g r)"
    using new by (auto simp: lookup_proccess_def l) (auto simp: r')
qed

interpretation proccess_table: lookup_table "insert_proccess info node" lookup_proccess table_ok "\<lambda>_ _. True" for info node
proof unfold_locales
  fix r f i r'
  assume "table_ok r" "insert_proccess info node f i r = Some r'"
  then show "table_ok r'" using insert_proccess_chain(1) unfolding table_ok_def by blast
next
  fix r f
  assume "table_ok r"
  then obtain ns where c: "table_chain r ns" by (auto simp: table_ok_def)
  then show "lookup_proccess f r \<noteq> None"
    using find_proccess_total [of r "head_node r" ns f] by (auto simp: table_chain_def lookup_proccess_def list_find_proccess_def)
next
  fix r f i r' g
  assume "table_ok r" "insert_proccess info node f i r = Some r'"
  then show "lookup_proccess g r' = (if g = f then Some (Some i) else lookup_proccess g r)"
    using insert_proccess_chain(2) unfolding table_ok_def by blast
qed

section \<open>Properties\<close>

text \<open>
  C19. \<^verbatim>\<open>__share_memory\<close> of mapped pages: the target sees the source's memory at the address that is returned, byte for
  byte, at the front of the target's range for shared memory, which moves on behind it; every other address of the
  target and every address of the source translates as before.
\<close>

theorem share_memory_shares:
  assumes "get_task_by_pid sp st = Some s" and "tasks st s = Some src"
    and "get_task_by_pid tp st = Some t" and "tasks st t = Some tgt"
    and "vm_inv (vm st) xs A (pgd (tk_mm_info tgt))"
    and "other_space (vm_tables (vm st)) A (pgd (tk_mm_info tgt)) (pgd (tk_mm_info src))"
    and "27 * n \<le> slots xs" and "3 * n \<le> npages A"
    and al: "MEMUNIT_SZ dvd addr" and "MEMUNIT_SZ dvd shm_ptr (tk_mm_info tgt)"
    and "n * MEMUNIT_SZ < 2 ^ 31" and "shm_ptr (tk_mm_info tgt) + n * MEMUNIT_SZ \<le> 2 ^ 48"
    and mapped: "\<forall>k<n. phys (vm st) (pgd (tk_mm_info src)) addr (k * MEMUNIT_SZ) \<noteq> NULL"
  shows "\<exists>p st'. share_memory (Suc f) addr (int n) sp tp st = Some (p, st') \<and> p = shm_ptr (tk_mm_info tgt)
    \<and> (\<exists>t'. tasks st' t = Some t' \<and> shm_ptr (tk_mm_info t') = p + n * MEMUNIT_SZ)
    \<and> (\<forall>v. phys (vm st') (pgd (tk_mm_info src)) 0 v = phys (vm st) (pgd (tk_mm_info src)) 0 v)
    \<and> (\<forall>off<n * MEMUNIT_SZ. phys (vm st') (pgd (tk_mm_info tgt)) p off = phys (vm st) (pgd (tk_mm_info src)) addr off)
    \<and> (\<forall>v<2 ^ 48. v < p \<or> p + n * MEMUNIT_SZ \<le> v \<longrightarrow>
          phys (vm st') (pgd (tk_mm_info tgt)) 0 v = phys (vm st) (pgd (tk_mm_info tgt)) 0 v)"
proof -
  let ?p = "shm_ptr (tk_mm_info tgt)" and ?T = "vm_tables (vm st)"
  obtain st' t' ys A' where r: "share_memory (Suc f) addr (int n) sp tp st = Some (?p, st')"
    and t': "tasks st' t = Some t'" "shm_ptr (tk_mm_info t') = ?p + n * MEMUNIT_SZ"
    and same: "\<forall>v. get_physical_address (vm_tables (vm st')) (pgd (tk_mm_info src)) v = get_physical_address ?T (pgd (tk_mm_info src)) v"
    and new: "\<forall>k<n. \<forall>off<MEMUNIT_SZ. get_physical_address (vm_tables (vm st')) (pgd (tk_mm_info tgt)) (?p + k * MEMUNIT_SZ + off) =
        get_physical_address ?T (pgd (tk_mm_info src)) (addr + k * MEMUNIT_SZ) + off"
    and old: "\<forall>v<2 ^ 48. v < ?p \<or> ?p + n * MEMUNIT_SZ \<le> v \<longrightarrow>
        get_physical_address (vm_tables (vm st')) (pgd (tk_mm_info tgt)) v = get_physical_address ?T (pgd (tk_mm_info tgt)) v"
    by (rule share_memory_ok [OF assms(1-12), of f]) blast
  have "phys (vm st') (pgd (tk_mm_info tgt)) ?p off = phys (vm st) (pgd (tk_mm_info src)) addr off" if "off < n * MEMUNIT_SZ" for off
  proof -
    define k where "k = off div MEMUNIT_SZ"
    define z where "z = off mod MEMUNIT_SZ"
    have kz: "off = k * MEMUNIT_SZ + z" "z < MEMUNIT_SZ" "k < n"
      using that by (auto simp: k_def z_def less_mult_imp_div_less)
    have "get_physical_address ?T (pgd (tk_mm_info src)) (addr + k * MEMUNIT_SZ + z) =
        get_physical_address ?T (pgd (tk_mm_info src)) (addr + k * MEMUNIT_SZ) + z"
      using al kz(2) mapped [rule_format, OF kz(3)] by (intro get_physical_address_offset) auto
    then show ?thesis
      using new [rule_format, OF kz(3,2)] unfolding kz(1) by (simp add: add.assoc)
  qed
  then show ?thesis
    using r t' same old by auto
qed

text \<open>Pages that the source has not mapped are given to the target too: it gets the first page of the physical memory.\<close>

lemma share_memory_unmapped:
  assumes "get_task_by_pid sp st = Some s" and "tasks st s = Some src"
    and "get_task_by_pid tp st = Some t" and "tasks st t = Some tgt"
    and "vm_inv (vm st) xs A (pgd (tk_mm_info tgt))"
    and "other_space (vm_tables (vm st)) A (pgd (tk_mm_info tgt)) (pgd (tk_mm_info src))"
    and "27 * n \<le> slots xs" and "3 * n \<le> npages A"
    and "MEMUNIT_SZ dvd addr" and "MEMUNIT_SZ dvd shm_ptr (tk_mm_info tgt)"
    and "n * MEMUNIT_SZ < 2 ^ 31" and "shm_ptr (tk_mm_info tgt) + n * MEMUNIT_SZ \<le> 2 ^ 48"
    and k: "k < n" "phys (vm st) (pgd (tk_mm_info src)) addr (k * MEMUNIT_SZ) = NULL" "off < MEMUNIT_SZ"
  shows "\<exists>st'. share_memory (Suc f) addr (int n) sp tp st = Some (shm_ptr (tk_mm_info tgt), st')
    \<and> phys (vm st') (pgd (tk_mm_info tgt)) (shm_ptr (tk_mm_info tgt)) (k * MEMUNIT_SZ + off) = off"
  by (rule share_memory_ok [OF assms(1-12), of f]) (use k in \<open>auto simp: add.assoc\<close>)

text \<open>
  A caller can stop the system task: when the result cannot be delivered, because the caller's mailbox is full
  or closed to the system task, the assertion on the send fails.
\<close>

theorem refused_result_stops_system_task:
  assumes found: "list_find_proccess (of_nat (fst (ARG_READ msg 8 st))) r = Some p" "p \<noteq> NULL" "pinfos r p = Some info"
    and asize: "of_nat (fst (ARG_READ (msg + 8) 4 st)) = args_size info"
    and rsize: "of_nat (fst (ARG_READ (msg + 12) 4 st)) = return_size info"
    and run: "proccess info (uint (mp_source pack)) (of_nat (fst (ARG_READ msg 8 st)))
        (mk_args (msg + 16) (int (fst (ARG_READ (msg + 8) 4 st)))) st = Some (res, st1)"
    and res: "return_size info = of_int (ra_size res)"
    and caller: "get_task_by_pid (uint (mp_source pack)) st1 = Some c" "tasks st1 c = Some ct"
    and closed: "current_task st1 = Some me" "tasks st1 me = Some mt"
      "allow_pid (tk_ipc_info ct) \<noteq> pid mt" "allow_pid (tk_ipc_info ct) \<noteq> ANY_TASK"
  shows "deal_rpc_request fuel junk pack msg (st, r) = None"
proof -
  let ?f = "of_nat (fst (ARG_READ msg 8 st)) :: u64"
  have refused: "send_msg junk no src sz (uint (mp_source pack)) st2 \<noteq> Some (True, st3)"
    if "tasks st2 = tasks st1" "task_list st2 = task_list st1" "threads st2 = threads st1" "current_thread st2 = current_thread st1"
    for no src sz st2 st3
    using that caller closed get_task_by_pid_cong [of st2 st1] by (auto simp: send_msg_def current_task_def Let_def)
  have "send_result fuel junk pack ?f info res st1 = None"
  proof (cases "k_alloc fuel (of_nat (SIZEOF_RPC_FUNC + nat (ra_size res))) st1")
    case (Some a)
    obtain d st2 where a: "a = (d, st2)" by force
    note fr = k_alloc_frame [OF Some [unfolded a]]
    have "send_result fuel junk pack ?f info res st1 \<noteq> Some st4" for st4
      using refused fr res Some a by (auto simp: send_result_def ARG_WRITE_def Let_def bind_iff)
    then show ?thesis
      by (metis not_Some_eq)
  next
    case None
    then show ?thesis
      by (cases "ra_size res < 0") (simp_all add: send_result_def)
  qed
  moreover have e: "msg + 12 = 12 + msg" "msg + 16 = 16 + msg"
    by simp_all
  ultimately show ?thesis
    using found asize rsize [unfolded e] run [unfolded e]
    by (simp add: deal_rpc_request_def ARG_READ_def SIZEOF_RPC_FUNC_def SIZEOF_RPC_SIZE_def Let_def)
qed


text \<open>A block for a small object, as long as the heap has a slot for it.\<close>

lemma k_alloc_slot:
  assumes h: "heap_ok (km st) xs" and room: "0 < slots xs" and req: "request sz = 64"
  shows "\<exists>a k ys z. k_alloc (Suc n) sz st = Some (a + SEG_INFO_SZ, set_km k st) \<and> heap_ok k ys \<and> Suc (slots ys) = slots xs
    \<and> used_blocks ys = insert (a, z) (used_blocks xs) \<and> (\<forall>t. (a, t) \<notin> used_blocks xs)"
proof -
  obtain a ys where f: "fit 64 xs = Some (a, ys)" "Suc (slots ys) = slots xs"
    using slots_fit [OF room] by blast
  have lx: "layout xs"
    using h by (simp add: heap_ok_def)
  obtain k where "kmalloc (Suc n) sz (km st) = Some (a + SEG_INFO_SZ, k)" "heap_ok k ys"
    using kmalloc_fast [OF h, of sz a ys n] f(1) by (auto simp: req)
  then show ?thesis
    using f(2) fit_keeps [OF f(1) lx] fit_fresh [OF f(1) lx] by (fastforce simp: k_alloc_def)
qed

text \<open>
  \<^verbatim>\<open>rpc_register\<close>, when the heap has room for the two objects: the procedure is found under its number afterwards,
  with the sizes and the function that were registered, also when the number had another procedure before; every
  other number finds what it found before.
\<close>

theorem rpc_register_found:
  assumes h: "heap_ok (km st) xs" and room: "2 \<le> slots xs" and t: "table_ok r"
    and own: "\<forall>a. pinfos r a \<noteq> None \<or> pnodes r a \<noteq> None \<longrightarrow> a \<in> (\<lambda>(b, z). b + SEG_INFO_SZ) ` used_blocks xs"
  shows "\<exists>st' r'. rpc_register (Suc n) f w rsize asize (st, r) = Some (st', r') \<and> table_ok r'
    \<and> lookup_proccess f r' = Some (Some \<lparr>func_no = f, proccess = w, return_size = rsize, args_size = asize\<rparr>)
    \<and> (\<forall>g. g \<noteq> f \<longrightarrow> lookup_proccess g r' = lookup_proccess g r)"
proof -
  let ?i = "\<lparr>func_no = f, proccess = w, return_size = rsize, args_size = asize\<rparr>"
  have req: "request 24 = 64" by (simp add: request_eq)
  have "0 < slots xs" using room by simp
  from k_alloc_slot [OF h this req, of n] obtain a k ys z where
    a: "k_alloc (Suc n) 24 st = Some (a + SEG_INFO_SZ, set_km k st)" "heap_ok k ys" "Suc (slots ys) = slots xs"
      "used_blocks ys = insert (a, z) (used_blocks xs)" "\<forall>t. (a, t) \<notin> used_blocks xs" by blast
  have h2: "heap_ok (km (set_km k st)) ys" "0 < slots ys" using a(2,3) room by simp_all
  from k_alloc_slot [OF h2 req, of n] obtain b k2 zs y where
    b: "k_alloc (Suc n) 24 (set_km k st) = Some (b + SEG_INFO_SZ, set_km k2 (set_km k st))" "\<forall>t. (b, t) \<notin> used_blocks ys"
    by blast
  have owned: "\<exists>t. (c, t) \<in> used_blocks xs" if "pinfos r (c + SEG_INFO_SZ) \<noteq> None \<or> pnodes r (c + SEG_INFO_SZ) \<noteq> None" for c
  proof -
    have "c + SEG_INFO_SZ \<in> (\<lambda>(b, z). b + SEG_INFO_SZ) ` used_blocks xs"
      using own that by blast
    then show ?thesis
      by auto
  qed
  have "pinfos r (a + SEG_INFO_SZ) = None" and "pnodes r (b + SEG_INFO_SZ) = None"
    using owned [of a] owned [of b] a(4,5) b(2) by (metis insertCI)+
  then obtain r' where r': "insert_proccess (a + SEG_INFO_SZ) (b + SEG_INFO_SZ) f ?i r = Some r'"
    by (simp add: insert_proccess_def SEG_INFO_SZ_def)
  have "rpc_register (Suc n) f w rsize asize (st, r) = Some (set_km k2 (set_km k st), r')"
    using a(1) b(1) r'
    by (simp add: rpc_register_def add_proccess_def SIZEOF_PROCCESS_INFO_def SIZEOF_PROCCESS_NODE_def insert_proccess_def Let_def
        split: if_splits)
  then show ?thesis
    using proccess_table.ins_inv [OF t TrueI r'] proccess_table.lkp_ins_same [OF t TrueI r']
      proccess_table.lkp_ins_other [OF t TrueI r'] by blast
qed


section \<open>Witnesses\<close>

text \<open>
  Two tasks: 5, with an empty address space, and 6, which has mapped its page 0 to the physical page at 8404992.
\<close>

definition demo_tables :: page_tables where
  "demo_tables t i = (if i = 0 \<and> t \<in> {8388608, 8392704, 8396800, 8400896}
     then zero_entry\<lparr>pe_p := True, pe_address := to_address (t + 4096)\<rparr> else zero_entry)"

definition demo_rpc :: kstate where
  "demo_rpc = example_kstate\<lparr>vm := example_vmem\<lparr>vm_tables := demo_tables\<rparr>,
     tasks := [4120 \<mapsto> example_task\<lparr>tk_mm_info := (tk_mm_info example_task)\<lparr>pgd := 4194304, shm_ptr := 1048576\<rparr>, tk_next := 4184\<rparr>,
       4184 \<mapsto> example_task\<lparr>pid := 6, tk_mm_info := (tk_mm_info example_task)\<lparr>pgd := 8388608\<rparr>, tk_last := 4120\<rparr>]\<rparr>"

lemma demo_entry: "pe_p (demo_tables t i) \<longleftrightarrow> i = 0 \<and> t \<in> {8388608, 8392704, 8396800, 8400896}"
  "pe_p (demo_tables t i) \<Longrightarrow> entry_base (demo_tables t i) = t + 4096"
  by (auto simp: demo_tables_def zero_entry_def entry_base_def to_address_def split: if_splits)

lemma demo_descend_empty: "descend demo_tables 4194304 p = Some t \<longleftrightarrow> p = [] \<and> t = 4194304"
  by (cases p) (auto simp: demo_entry)

lemma demo_descend_source: "descend demo_tables t p = Some u \<Longrightarrow> u = t + 4096 * length p"
  by (induction p arbitrary: t) (fastforce simp: demo_entry(2) split: if_splits)+

lemma demo_physical: "phys (vm demo_rpc) 8388608 0 0 \<noteq> NULL"
  by (simp add: demo_rpc_def get_physical_address_def demo_entry)

lemma demo_vm_inv:
  "vm_inv (vm demo_rpc) [(4096, 64, True), (4160, 65472, False)] (\<lambda>i. if i = 9 then [2097152] else []) 4194304"
  "other_space (vm_tables (vm demo_rpc)) (\<lambda>i. if i = 9 then [2097152] else []) 4194304 8388608"
proof -
  have fm: "free_mem (\<lambda>i. if i = 9 then [2097152] else []) = {2097152..<4194304}"
    by (auto simp: free_mem_def free_blocks_def block_def PAGES_def split: if_splits)
  have ts: "table_set demo_tables 4194304 = {4194304}"
    unfolding table_set_def demo_descend_empty by auto
  have vt: "vm_tables (vm demo_rpc) = demo_tables" "vm_km (vm demo_rpc) = vm_km example_vmem"
    by (simp_all add: demo_rpc_def)
  show "vm_inv (vm demo_rpc) [(4096, 64, True), (4160, 65472, False)] (\<lambda>i. if i = 9 then [2097152] else []) 4194304"
    using example_vmem_inv unfolding vm_inv_def vt ts fm by (auto simp: tree_ok_def demo_descend_empty)
  have "table_set demo_tables 8388608 \<subseteq> {8388608..}"
    unfolding table_set_def using demo_descend_source by fastforce
  then show "other_space (vm_tables (vm demo_rpc)) (\<lambda>i. if i = 9 then [2097152] else []) 4194304 8388608"
    unfolding other_space_def vt ts fm by fastforce
qed

theorem share_memory_shares_witness:
  "\<exists>st'. share_memory 1 0 1 6 5 demo_rpc = Some (1048576, st')
    \<and> phys (vm st') 4194304 1048576 42 = phys (vm demo_rpc) 8388608 0 42"
proof -
  let ?src = "example_task\<lparr>pid := 6, tk_mm_info := (tk_mm_info example_task)\<lparr>pgd := 8388608\<rparr>, tk_last := 4120\<rparr>"
  let ?tgt = "example_task\<lparr>tk_mm_info := (tk_mm_info example_task)\<lparr>pgd := 4194304, shm_ptr := 1048576\<rparr>, tk_next := 4184\<rparr>"
  have l: "get_task_by_pid 6 demo_rpc = Some 4184" "get_task_by_pid 5 demo_rpc = Some 4120"
    by (simp_all add: get_task_by_pid_def demo_rpc_def find_task.simps example_task_def)
  have t: "tasks demo_rpc 4184 = Some ?src" "tasks demo_rpc 4120 = Some ?tgt"
    by (simp_all add: demo_rpc_def)
  have room: "27 * 1 \<le> slots [(4096, 64, True), (4160, 65472, False)]" "3 * 1 \<le> npages (\<lambda>i. if i = 9 then [2097152] else [])"
    by (simp_all add: npages_example)
  have "\<exists>p st'. share_memory (Suc 0) 0 (int 1) 6 5 demo_rpc = Some (p, st') \<and> p = shm_ptr (tk_mm_info ?tgt)
    \<and> (\<exists>t'. tasks st' 4120 = Some t' \<and> shm_ptr (tk_mm_info t') = p + 1 * MEMUNIT_SZ)
    \<and> (\<forall>v. phys (vm st') (pgd (tk_mm_info ?src)) 0 v = phys (vm demo_rpc) (pgd (tk_mm_info ?src)) 0 v)
    \<and> (\<forall>off<1 * MEMUNIT_SZ. phys (vm st') (pgd (tk_mm_info ?tgt)) p off = phys (vm demo_rpc) (pgd (tk_mm_info ?src)) 0 off)
    \<and> (\<forall>v<2 ^ 48. v < p \<or> p + 1 * MEMUNIT_SZ \<le> v \<longrightarrow>
          phys (vm st') (pgd (tk_mm_info ?tgt)) 0 v = phys (vm demo_rpc) (pgd (tk_mm_info ?tgt)) 0 v)"
    by (rule share_memory_shares [OF l(1) t(1) l(2) t(2) _ _ room])
      (use demo_vm_inv demo_physical in simp_all)
  then obtain st' where "share_memory 1 0 1 6 5 demo_rpc = Some (1048576, st')"
    and m: "\<forall>off<MEMUNIT_SZ. phys (vm st') 4194304 1048576 off = phys (vm demo_rpc) 8388608 0 off"
    by (simp del: add_0) blast
  with m [rule_format, of 42] show ?thesis
    by auto
qed

theorem rpc_register_found_witness:
  "\<exists>s'. rpc_register 1 7 (wrapper_create_share_memory 1) 8 4 (example_kstate, \<lparr>head_node = 0, pinfos = Map.empty, pnodes = Map.empty\<rparr>) = Some s'
    \<and> lookup_proccess 7 (snd s') = Some (Some \<lparr>func_no = 7, proccess = wrapper_create_share_memory 1, return_size = 8, args_size = 4\<rparr>)"
proof -
  let ?r = "\<lparr>head_node = 0, pinfos = Map.empty, pnodes = Map.empty\<rparr>"
  have "heap_ok (km example_kstate) [(4096, 64, True), (4160, 65472, False)]"
    using example_pmm_inv by (simp add: example_vmem_def pmm_inv_def)
  moreover have "table_ok ?r"
    by (auto simp: table_ok_def table_chain_def intro!: exI [of _ "[]"])
  ultimately show ?thesis
    using rpc_register_found [of example_kstate "[(4096, 64, True), (4160, 65472, False)]" ?r 0 7 "wrapper_create_share_memory 1" 8 4]
    by fastforce
qed

text \<open>Task 6 asks for no pages in a message at 50000, and has closed its mailbox to all but task 3.\<close>

lemma kbytes_kstore: "i + n \<le> length bs \<Longrightarrow> kbytes (p + i) n (kstore p bs st) = take n (drop i bs)"
  by (rule nth_equalityI) (simp_all add: kbytes_def kstore_def store_bytes_inside add.assoc)

definition demo_call :: kstate where
  "demo_call = kstore 50000 (le_bytes 8 1 @ le_bytes 4 4 @ le_bytes 4 8 @ le_bytes 4 0)
     (demo_rpc\<lparr>tasks := (tasks demo_rpc)(4184 \<mapsto>
        example_task\<lparr>pid := 6, tk_ipc_info := init_ipc_info\<lparr>allow_pid := 3\<rparr>\<rparr>)\<rparr>)"

lemma demo_call_args:
  "fst (ARG_READ 50000 8 demo_call) = 1" "fst (ARG_READ 50008 4 demo_call) = 4" "fst (ARG_READ 50012 4 demo_call) = 8"
  "fst (ARG_READ 50016 4 demo_call) = 0"
proof -
  have "kbytes (50000 + 0) 8 demo_call = le_bytes 8 1" "kbytes (50000 + 8) 4 demo_call = le_bytes 4 4"
    "kbytes (50000 + 12) 4 demo_call = le_bytes 4 8" "kbytes (50000 + 16) 4 demo_call = le_bytes 4 0"
    unfolding demo_call_def by (subst kbytes_kstore; simp del: le_bytes.simps)+
  then show "fst (ARG_READ 50000 8 demo_call) = 1" "fst (ARG_READ 50008 4 demo_call) = 4"
    "fst (ARG_READ 50012 4 demo_call) = 8" "fst (ARG_READ 50016 4 demo_call) = 0"
    by (simp_all add: ARG_READ_def del: le_bytes.simps)
qed

theorem refused_result_stops_system_task_witness:
  "deal_rpc_request 1 0 \<lparr>mp_reserved = 0, message_no = MSG_RPC_CALL, msg_id = 0, mp_length = 20, mp_source = 6\<rparr> 50000
     (demo_call, \<lparr>head_node = 100, pinfos = [200 \<mapsto> \<lparr>func_no = 1, proccess = wrapper_create_share_memory 1, return_size = 8, args_size = 4\<rparr>],
        pnodes = [100 \<mapsto> \<lparr>nd_func_no = 1, nd_info = 200, nd_next = NULL\<rparr>]\<rparr>) = None"
  (is "deal_rpc_request 1 0 ?pack 50000 (demo_call, ?r) = None")
proof -
  let ?ct = "example_task\<lparr>pid := 6, tk_ipc_info := init_ipc_info\<lparr>allow_pid := 3\<rparr>\<rparr>"
  have "heap_ok (km demo_call) [(4096, 64, True), (4160, 65472, False)]"
    using example_pmm_inv by (simp add: demo_call_def demo_rpc_def example_vmem_def pmm_inv_def)
  moreover have "request 8 = 64"
    by (simp add: request_eq)
  ultimately obtain a k where a: "k_alloc 1 8 demo_call = Some (a, set_km k demo_call)"
    using k_alloc_slot [of demo_call "[(4096, 64, True), (4160, 65472, False)]" 8 0] by auto
  have t: "tasks demo_call 4184 = Some ?ct" "task_list demo_call = 4120" "tasks demo_call 4120 \<noteq> None"
    by (simp_all add: demo_call_def demo_rpc_def)
  have l: "get_task_by_pid 6 demo_call = Some 4184"
    by (simp add: get_task_by_pid_def demo_call_def demo_rpc_def find_task.simps example_task_def)
  then have l': "get_task_by_pid 6 (set_km k demo_call) = Some 4184"
    by (simp add: get_task_by_pid_def)
  have "alloc_vpages n d p 0 v = Some v" for n d p v
  proof -
    have "alloc_bits n d is p 0 v = Some (p, 0, v)" for "is"
      by (induction "is") simp_all
    then show ?thesis
      by (simp add: alloc_vpages_def)
  qed
  then obtain p st1 where c: "create_share_memory 1 0 6 (set_km k demo_call) = Some (p, st1)"
    and st1: "tasks st1 = (tasks demo_call)(4184 \<mapsto> ?ct\<lparr>tk_mm_info := (tk_mm_info ?ct)\<lparr>shm_ptr := p\<rparr>\<rparr>)"
      "task_list st1 = task_list demo_call" "threads st1 = threads demo_call" "current_thread st1 = current_thread demo_call"
    using l' t(1) by (auto simp: create_share_memory_def upd_task_def shm_advance_def wrap32_def init_mm_info_def example_task_def example_args_def Let_def)
  have run: "wrapper_create_share_memory 1 6 1 (mk_args 50016 4) demo_call = Some (mk_args a 8, kstore a (le_bytes 8 p) st1)"
    using demo_call_args(4) a c
    by (simp add: wrapper_create_share_memory_def mk_args_def ARG_READ_def SIZEOF_POINTER_def int_of_def wrap32_def)
  let ?st1 = "kstore a (le_bytes 8 p) st1" and ?i = "\<lparr>func_no = 1, proccess = wrapper_create_share_memory 1, return_size = 8, args_size = 4\<rparr>"
  have st: "threads demo_call = threads example_kstate" "current_thread demo_call = 1000"
    "tasks demo_call 4120 = Some (example_task\<lparr>tk_mm_info := (tk_mm_info example_task)\<lparr>pgd := 4194304, shm_ptr := 1048576\<rparr>, tk_next := 4184\<rparr>)"
    by (simp_all add: demo_call_def demo_rpc_def)
  have caller: "get_task_by_pid 6 ?st1 = Some 4184"
    by (simp add: get_task_by_pid_def st1 t(2) st(3) find_task.simps example_task_def)
  show ?thesis
  proof (rule refused_result_stops_system_task [where p = 200 and info = ?i and res = "mk_args a 8" and ?st1.0 = ?st1
        and c = 4184 and ct = "?ct\<lparr>tk_mm_info := (tk_mm_info ?ct)\<lparr>shm_ptr := p\<rparr>\<rparr>" and me = 4120
        and mt = "example_task\<lparr>tk_mm_info := (tk_mm_info example_task)\<lparr>pgd := 4194304, shm_ptr := 1048576\<rparr>, tk_next := 4184\<rparr>"])
    show "list_find_proccess (of_nat (fst (ARG_READ 50000 8 demo_call))) ?r = Some 200"
      by (simp add: demo_call_args list_find_proccess_def find_proccess.simps)
    show "proccess ?i (uint (mp_source ?pack)) (of_nat (fst (ARG_READ 50000 8 demo_call)))
        (mk_args (50000 + 16) (int (fst (ARG_READ (50000 + 8) 4 demo_call)))) demo_call = Some (mk_args a 8, ?st1)"
      using run by (simp add: demo_call_args)
    show "get_task_by_pid (uint (mp_source ?pack)) ?st1 = Some 4184"
      using caller by simp
    show "current_task ?st1 = Some 4120"
      by (simp add: current_task_def st1 st example_thread_def)
  qed (simp_all add: demo_call_args mk_args_def st1 st example_task_def ANY_TASK_def)
qed

end
