(* ===== verification/Kmod.thy ===== *)
theory Kmod
  imports Malloc Rpc
begin

text \<open>
  The side of the modules of a remote procedure call, \<^verbatim>\<open>libs/libkmod/syscall/ipc.c\<close> and \<^verbatim>\<open>rpc.c\<close>: how a call is put into
  a message, the list of calls that wait for their result, and the message loop.  The lemmas show that the receiver
  reads what the caller wrote, that a waiting call is found under its message number, and when the removal of a
  call from the list returns.
\<close>

section \<open>State and effects\<close>

text \<open>\<^verbatim>\<open>signal_ln\<close>, a call that waits: the semaphore it waits on and the place for its result.\<close>

record signal_ln =
  ln_msgid :: int
  ln_signal :: u32
  ln_data :: ptr
  ln_next :: ptr

record kmod =
  lib_heap :: ptr
  lib_chunks :: chunks
  lib_mem :: memory
  result_head :: ptr
  results :: "ptr \<rightharpoonup> signal_ln"
  lib_msgid :: u16
  call_buffer :: ptr
  call_buffer_sz :: int

text \<open>What the library asks of the kernel and of the module's handlers.\<close>

datatype effect =
    UpSignal u32
  | SendMsg msgno "u8 list" int
  | CreateThread ptr
  | NormalIpc int
  | Irq int

definition SIZEOF_SIGNAL_LN :: int where "SIZEOF_SIGNAL_LN = 32"

definition lib_malloc :: "int \<Rightarrow> kmod \<Rightarrow> (ptr \<times> kmod) option" where
  "lib_malloc sz s = do { (p, ch) \<leftarrow> malloc (lib_heap s) (wrap32 sz) (lib_chunks s); Some (p, s\<lparr>lib_chunks := ch\<rparr>) }"

definition lib_free :: "ptr \<Rightarrow> kmod \<Rightarrow> kmod option" where
  "lib_free p s = do { ch \<leftarrow> free (lib_heap s) p (lib_chunks s); Some (s\<lparr>lib_chunks := ch\<rparr>) }"

definition lib_bytes :: "ptr \<Rightarrow> nat \<Rightarrow> kmod \<Rightarrow> u8 list" where
  "lib_bytes p n s = map (lib_mem s) [p..<p + n]"

definition lib_store :: "ptr \<Rightarrow> u8 list \<Rightarrow> kmod \<Rightarrow> kmod" where
  "lib_store p bs s = s\<lparr>lib_mem := store_bytes (lib_mem s) p bs\<rparr>"

section \<open>The calls that wait\<close>

text \<open>\<^verbatim>\<open>set_rpc_result\<close>: the search for the last node, and the new node.  A write through a null block is \<open>None\<close>.\<close>

partial_function (option) last_result :: "(ptr \<rightharpoonup> signal_ln) \<Rightarrow> ptr \<Rightarrow> ptr option" where
  "last_result ns cur = do { c \<leftarrow> ns cur; if ln_next c \<noteq> NULL then last_result ns (ln_next c) else Some cur }"

definition new_result :: "int \<Rightarrow> u32 \<Rightarrow> ptr \<Rightarrow> kmod \<Rightarrow> (ptr \<times> kmod) option" where
  "new_result msgid sig data s = do {
     (p, s) \<leftarrow> lib_malloc SIZEOF_SIGNAL_LN s;
     if p = NULL then None
     else Some (p, s\<lparr>results := (results s)(p \<mapsto> \<lparr>ln_msgid = msgid, ln_signal = sig, ln_data = data, ln_next = NULL\<rparr>)\<rparr>)
   }"

definition set_rpc_result :: "int \<Rightarrow> u32 \<Rightarrow> ptr \<Rightarrow> kmod \<Rightarrow> kmod option" where
  "set_rpc_result msgid sig data s =
     (if result_head s = NULL
      then do { (p, s) \<leftarrow> new_result msgid sig data s; Some (s\<lparr>result_head := p\<rparr>) }
      else do {
        cur \<leftarrow> last_result (results s) (result_head s);
        c \<leftarrow> results s cur;
        if ln_msgid c = msgid
        then do {
          h \<leftarrow> results s (result_head s);
          Some (s\<lparr>results := (results s)(result_head s \<mapsto> h\<lparr>ln_signal := sig, ln_data := data\<rparr>)\<rparr>)
        }
        else do {
          (p, s) \<leftarrow> new_result msgid sig data s;
          c \<leftarrow> results s cur;
          Some (s\<lparr>results := (results s)(cur \<mapsto> c\<lparr>ln_next := p\<rparr>)\<rparr>)
        }
      })"

partial_function (option) find_result :: "(ptr \<rightharpoonup> signal_ln) \<Rightarrow> ptr \<Rightarrow> int \<Rightarrow> ptr option" where
  "find_result ns cur msgid =
     (if cur = NULL then Some NULL
      else do { c \<leftarrow> ns cur; if ln_msgid c = msgid then Some cur else find_result ns (ln_next c) msgid })"

definition get_signal :: "int \<Rightarrow> kmod \<Rightarrow> ptr option" where
  "get_signal msgid s = find_result (results s) (result_head s) msgid"

text \<open>
  The loop of \<^verbatim>\<open>remove_rpc_result\<close>.  It has no step that moves \<^verbatim>\<open>cur\<close>; running forever is \<open>None\<close>.
\<close>

partial_function (option) unlink_result ::
    "(ptr \<rightharpoonup> signal_ln) \<Rightarrow> ptr \<Rightarrow> int \<Rightarrow> (ptr \<times> (ptr \<rightharpoonup> signal_ln)) option" where
  "unlink_result ns cur msgid = do {
     c \<leftarrow> ns cur;
     if ln_next c = NULL then Some (NULL, ns)
     else do {
       nxt \<leftarrow> ns (ln_next c);
       if ln_msgid nxt = msgid
       then Some (ln_next c, ns(cur \<mapsto> c\<lparr>ln_next := ln_next nxt\<rparr>))
       else unlink_result ns cur msgid
     }
   }"

definition remove_rpc_result :: "int \<Rightarrow> kmod \<Rightarrow> kmod option" where
  "remove_rpc_result msgid s =
     (if result_head s = NULL then Some s
      else do {
        (nxt, ns) \<leftarrow> unlink_result (results s) (result_head s) msgid;
        if nxt = NULL then Some s else lib_free nxt (s\<lparr>results := ns(nxt := None)\<rparr>)
      })"

section \<open>Serving calls\<close>

text \<open>\<^verbatim>\<open>deal_rpc_request\<close>: the message is copied and handed to a thread of its own.\<close>

definition SIZEOF_MSGPACK_INT :: int where "SIZEOF_MSGPACK_INT = 8"

definition deal_request :: "msgpack \<Rightarrow> ptr \<Rightarrow> kmod \<Rightarrow> (effect list \<times> kmod) option" where
  "deal_request pack msg s = do {
     let n = unat (mp_length pack);
     (m, s) \<leftarrow> lib_malloc (int n) s;
     s \<leftarrow> (if m = NULL \<and> n > 0 then None else Some (lib_store m (lib_bytes msg n s) s));
     (args, s) \<leftarrow> lib_malloc (SIZEOF_MSGPACK_INT + int SIZEOF_POINTER) s;
     if args = NULL then None
     else Some ([CreateThread args], lib_store args (msgpack_bytes pack @ le_bytes SIZEOF_POINTER m) s)
   }"

section \<open>Calling\<close>

definition prepare_params :: "u64 \<Rightarrow> u32 \<Rightarrow> rpc_args \<Rightarrow> kmod \<Rightarrow> (ptr \<times> kmod) option" where
  "prepare_params f rsize args s =
     (if ra_size args < 0 then None
      else do {
        let n = nat (ra_size args);
        (p, s) \<leftarrow> lib_malloc (int (SIZEOF_RPC_FUNC + SIZEOF_RPC_SIZE * 2 + n)) s;
        if p = NULL then None
        else do {
          let s = lib_store p (le_bytes SIZEOF_RPC_FUNC (unat f)) s;
          let s = lib_store (p + SIZEOF_RPC_FUNC) (le_bytes SIZEOF_RPC_SIZE n) s;
          let s = lib_store (p + SIZEOF_RPC_FUNC + SIZEOF_RPC_SIZE) (le_bytes SIZEOF_RPC_SIZE (unat rsize)) s;
          Some (p, lib_store (p + SIZEOF_RPC_FUNC + SIZEOF_RPC_SIZE * 2) (lib_bytes (ra_data args) n s) s)
        }
      })"

text \<open>
  \<^verbatim>\<open>__rpc_call\<close> up to the wait for the semaphore \<open>sig\<close>, which the kernel has created, and from there on.  The first part
  gives the blocks of the result and the request.
\<close>

definition rpc_call_begin :: "int \<Rightarrow> u64 \<Rightarrow> rpc_args \<Rightarrow> u32 \<Rightarrow> u32 \<Rightarrow> kmod \<Rightarrow> (effect list \<times> ptr \<times> ptr \<times> kmod) option" where
  "rpc_call_begin service f args rsize sig s = do {
     (params, s) \<leftarrow> prepare_params f rsize args s;
     let (i, counter) = get_msgid (lib_msgid s);
     (return_data, s) \<leftarrow> lib_malloc (int (SIZEOF_RPC_FUNC + unat rsize)) (s\<lparr>lib_msgid := counter\<rparr>);
     s \<leftarrow> set_rpc_result (uint i) sig return_data s;
     let msg = lib_bytes params (SIZEOF_RPC_FUNC + SIZEOF_RPC_SIZE * 2 + nat (ra_size args)) s;
     Some ([SendMsg \<lparr>no_reserved = 0, no_message = MSG_RPC_CALL, no_msg_id = i\<rparr> msg service], return_data, params, s)
   }"

definition rpc_call_end :: "u64 \<Rightarrow> u32 \<Rightarrow> ptr \<Rightarrow> ptr \<Rightarrow> ptr \<Rightarrow> kmod \<Rightarrow> (rpc_args \<times> kmod) option" where
  "rpc_call_end f rsize res return_data params s =
     (let got_func = of_nat (le_val (lib_bytes return_data SIZEOF_RPC_FUNC s)) in
      if f \<noteq> got_func
      then do { s \<leftarrow> lib_free return_data s; s \<leftarrow> lib_free params s; Some (mk_args NULL 0, s) }
      else do {
        let s = lib_store res (lib_bytes (return_data + SIZEOF_RPC_FUNC) (unat rsize) s) s;
        s \<leftarrow> lib_free return_data s;
        s \<leftarrow> lib_free params s;
        Some (mk_args res (sint rsize), s)
      })"

text \<open>\<^verbatim>\<open>rpc_call\<close>: the static buffer for the result grows to the largest size that was asked for.\<close>

definition rpc_buffer :: "u32 \<Rightarrow> kmod \<Rightarrow> kmod option" where
  "rpc_buffer rsize s = do {
     s \<leftarrow> (if call_buffer s = NULL
           then do { (p, s) \<leftarrow> lib_malloc (int (unat rsize)) s; Some (s\<lparr>call_buffer := p, call_buffer_sz := sint rsize\<rparr>) }
           else Some s);
     if rsize > of_int (call_buffer_sz s)
     then do {
       s \<leftarrow> lib_free (call_buffer s) s;
       (p, s) \<leftarrow> lib_malloc (int (unat rsize)) s;
       Some (s\<lparr>call_buffer := p, call_buffer_sz := sint rsize\<rparr>)
     }
     else Some s
   }"

section \<open>The message loop\<close>

text \<open>
  One round of \<^verbatim>\<open>message_loop\<close>: \<open>pack\<close> has been received and its body is at \<open>msg\<close>.  The flags say whether the module has
  registered handlers.
\<close>

definition message_round :: "bool \<Rightarrow> bool \<Rightarrow> msgpack \<Rightarrow> ptr \<Rightarrow> kmod \<Rightarrow> (effect list \<times> kmod) option" where
  "message_round normal irq pack msg s =
     (if message_no pack = MSG_NORMAL_IPC then Some (if normal then [NormalIpc (uint (mp_source pack))] else [], s)
      else if message_no pack = MSG_RPC_CALL then deal_request pack msg s
      else if message_no pack = MSG_RPC_RESULT then do {
        p \<leftarrow> get_signal (uint (msg_id pack)) s;
        if p = NULL then Some ([], s)
        else do {
          d \<leftarrow> results s p;
          s \<leftarrow> remove_rpc_result (uint (msg_id pack))
                 (lib_store (ln_data d) (lib_bytes msg (unat (mp_length pack)) s) s);
          Some ([UpSignal (ln_signal d)], s)
        }
      }
      else if message_no pack = MSG_IRQ then Some (if irq then [Irq (int_of (le_val (lib_bytes msg 4 s)))] else [], s)
      else Some ([], s))"

section \<open>The list of waiting calls\<close>

definition result_next :: "(ptr \<rightharpoonup> signal_ln) \<Rightarrow> ptr \<rightharpoonup> ptr" where
  "result_next ns a = map_option ln_next (ns a)"

definition waits :: "kmod \<Rightarrow> ptr list \<Rightarrow> bool" where
  "waits s as \<longleftrightarrow> chain (result_next (results s)) (result_head s) as"

definition msgid_at :: "kmod \<Rightarrow> ptr \<Rightarrow> int option" where
  "msgid_at s a = map_option ln_msgid (results s a)"

lemma chain_result:
  "chain (result_next ns) p (a # as) \<longleftrightarrow> p = a \<and> a \<noteq> NULL \<and> (\<exists>c. ns a = Some c \<and> chain (result_next ns) (ln_next c) as)"
  by (auto simp: result_next_def split: option.splits)

text \<open>The removal loop stands still on a second call with another number.\<close>

lemma unlink_result_loops:
  assumes a: "ns a = Some ca" "ln_next ca \<noteq> NULL" "ns (ln_next ca) = Some cb" "ln_msgid cb \<noteq> i"
  shows "unlink_result ns a i = None"
proof (rule ccontr)
  assume "unlink_result ns a i \<noteq> None"
  then obtain r where r: "unlink_result ns a i = Some r" by auto
  have "\<not> (ns = ns \<and> a = a \<and> i = i)"
    by (rule unlink_result.raw_induct [OF _ r, where P = "\<lambda>ns' a' i' r'. \<not> (ns' = ns \<and> a' = a \<and> i' = i)"])
      (use a in fastforce)
  then show False by simp
qed

lemma unlink_result_single:
  "ns a = Some c \<Longrightarrow> ln_next c = NULL \<Longrightarrow> unlink_result ns a i = Some (NULL, ns)"
  by (subst unlink_result.simps) simp

lemma unlink_result_second:
  "ns a = Some ca \<Longrightarrow> ln_next ca \<noteq> NULL \<Longrightarrow> ns (ln_next ca) = Some cb \<Longrightarrow> ln_msgid cb = i \<Longrightarrow>
   unlink_result ns a i = Some (ln_next ca, ns(a \<mapsto> ca\<lparr>ln_next := ln_next cb\<rparr>))"
  by (subst unlink_result.simps) simp

section \<open>Properties\<close>

text \<open>
  C20. The loop of \<^verbatim>\<open>remove_rpc_result\<close> on a list of waiting calls returns exactly when the list has one call only, or
  when the second call of the list is the one to remove.
\<close>

theorem remove_loop_returns:
  assumes "waits s (a # as)"
  shows "(\<exists>r. unlink_result (results s) (result_head s) i = Some r) \<longleftrightarrow> as = [] \<or> msgid_at s (hd as) = Some i"
proof (cases as)
  case Nil
  then show ?thesis
    using assms unlink_result_single [of "results s" a _ i] by (auto simp: waits_def chain_result simp del: chain.simps(2))
next
  case (Cons b bs)
  then obtain ca cb where n: "result_head s = a" "results s a = Some ca" "ln_next ca = b" "b \<noteq> NULL" "results s b = Some cb"
    using assms unfolding waits_def Cons chain_result by auto
  then show ?thesis
    using unlink_result_loops [of "results s" a ca cb i] unlink_result_second [of "results s" a ca cb i] Cons
    by (cases "ln_msgid cb = i") (auto simp: msgid_at_def)
qed

lemma find_result_chain:
  "chain (result_next ns) p as \<Longrightarrow> \<exists>q. find_result ns p i = Some q \<and>
     (if \<exists>a\<in>set as. map_option ln_msgid (ns a) = Some i then q \<noteq> NULL \<and> q \<in> set as \<and> map_option ln_msgid (ns q) = Some i else q = NULL)"
proof (induction as arbitrary: p)
  case Nil
  then show ?case by (simp add: find_result.simps [of _ NULL])
next
  case (Cons a as)
  then obtain c where c: "p = a" "a \<noteq> NULL" "ns a = Some c" "chain (result_next ns) (ln_next c) as"
    unfolding chain_result by blast
  from Cons.IH [OF c(4)] show ?case
    using c by (cases "ln_msgid c = i") (auto simp: find_result.simps [of _ a] split: if_splits)
qed

text \<open>
  With two or more calls waiting, the message loop does not return from the result of any waiting call but the
  second of the list.  In particular the result of the first call must not arrive before that of the second.
\<close>

theorem early_result_hangs:
  assumes w: "waits s (a # b # as)" and r: "message_no pack = MSG_RPC_RESULT"
    and other: "msgid_at s b \<noteq> Some (uint (msg_id pack))"
    and some: "msgid_at s c = Some (uint (msg_id pack))" "c \<in> set (a # b # as)"
  shows "message_round normal irq pack msg s = None"
proof -
  let ?i = "uint (msg_id pack)"
  obtain ca cb where n: "result_head s = a" "a \<noteq> NULL" "results s a = Some ca" "ln_next ca = b" "b \<noteq> NULL" "results s b = Some cb"
    using w unfolding waits_def chain_result by auto
  obtain q where q: "get_signal ?i s = Some q" "q \<noteq> NULL" "results s q \<noteq> None"
    using find_result_chain [OF w [unfolded waits_def], of ?i] some by (auto simp: get_signal_def msgid_at_def split: if_splits)
  have "unlink_result (results s) a ?i = None"
    using unlink_result_loops [of "results s" a ca cb ?i] n other by (simp add: msgid_at_def)
  then have "remove_rpc_result ?i (lib_store d bs s) = None" for d bs
    using n by (simp add: remove_rpc_result_def lib_store_def)
  then show ?thesis
    using r q by (auto simp: message_round_def MSG_NORMAL_IPC_def MSG_RPC_CALL_def MSG_RPC_RESULT_def)
qed

section \<open>The list is a lookup table\<close>

text \<open>Adding a call with the block that \<^verbatim>\<open>malloc\<close> returned.\<close>

definition insert_result :: "ptr \<Rightarrow> int \<Rightarrow> u32 \<times> ptr \<Rightarrow> kmod \<Rightarrow> kmod option" where
  "insert_result p i v s =
     (let new = \<lparr>ln_msgid = i, ln_signal = fst v, ln_data = snd v, ln_next = NULL\<rparr> in
      if p = NULL \<or> results s p \<noteq> None then None
      else if result_head s = NULL then Some (s\<lparr>results := (results s)(p \<mapsto> new), result_head := p\<rparr>)
      else do {
        cur \<leftarrow> last_result (results s) (result_head s);
        c \<leftarrow> results s cur;
        Some (s\<lparr>results := (results s)(p \<mapsto> new, cur \<mapsto> c\<lparr>ln_next := p\<rparr>)\<rparr>)
      })"

definition lookup_result :: "int \<Rightarrow> kmod \<Rightarrow> (u32 \<times> ptr) option option" where
  "lookup_result i s = do {
     p \<leftarrow> get_signal i s;
     if p = NULL then Some None else map_option (\<lambda>n. Some (ln_signal n, ln_data n)) (results s p)
   }"

definition waits_ok :: "kmod \<Rightarrow> bool" where
  "waits_ok s \<longleftrightarrow> (\<exists>as. waits s as)"

definition msgid_free :: "int \<Rightarrow> kmod \<Rightarrow> bool" where
  "msgid_free i s \<longleftrightarrow> lookup_result i s = Some None"

lemma last_result_chain:
  "chain (result_next ns) p (as @ [t]) \<Longrightarrow> last_result ns p = Some t"
proof (induction as arbitrary: p)
  case Nil
  then show ?case by (auto simp: chain_result last_result.simps [of _ t] simp del: chain.simps(2))
next
  case (Cons a as)
  then obtain c where "p = a" "ns a = Some c" "chain (result_next ns) (ln_next c) (as @ [t])"
    by (auto simp: chain_result simp del: chain.simps(2))
  moreover from this(3) have "ln_next c \<noteq> NULL" by (cases as) auto
  ultimately show ?case using Cons.IH by (simp add: last_result.simps [of _ a])
qed

text \<open>The result of a search on a chain, as a function of the list.\<close>

fun result_in :: "(ptr \<rightharpoonup> signal_ln) \<Rightarrow> ptr list \<Rightarrow> int \<Rightarrow> (u32 \<times> ptr) option" where
  "result_in ns [] i = None"
| "result_in ns (a # as) i = (case ns a of None \<Rightarrow> None
     | Some c \<Rightarrow> if ln_msgid c = i then Some (ln_signal c, ln_data c) else result_in ns as i)"

lemma find_result_in:
  "chain (result_next ns) p as \<Longrightarrow>
   (do { q \<leftarrow> find_result ns p i; if q = NULL then Some None else map_option (\<lambda>n. Some (ln_signal n, ln_data n)) (ns q) })
     = Some (result_in ns as i)"
proof (induction as arbitrary: p)
  case Nil
  then show ?case by (simp add: find_result.simps [of _ NULL])
next
  case (Cons a as)
  then obtain c where c: "p = a" "a \<noteq> NULL" "ns a = Some c" "chain (result_next ns) (ln_next c) as"
    unfolding chain_result by blast
  then show ?case using Cons.IH [OF c(4)] by (simp add: find_result.simps [of _ a])
qed

lemma lookup_result_waits: "waits s as \<Longrightarrow> lookup_result i s = Some (result_in (results s) as i)"
  using find_result_in unfolding waits_def lookup_result_def get_signal_def by blast

lemma result_in_append:
  "\<forall>a\<in>set as. ns a \<noteq> None \<Longrightarrow> ns p = Some n \<Longrightarrow> result_in ns (as @ [p]) i =
     (case result_in ns as i of Some v \<Rightarrow> Some v | None \<Rightarrow> if ln_msgid n = i then Some (ln_signal n, ln_data n) else None)"
  by (induction as) auto

lemma result_in_cong:
  "\<forall>a\<in>set as. map_option (\<lambda>c. (ln_msgid c, ln_signal c, ln_data c)) (ns a) = map_option (\<lambda>c. (ln_msgid c, ln_signal c, ln_data c)) (ns' a)
   \<Longrightarrow> result_in ns as i = result_in ns' as i"
proof (induction as)
  case (Cons a as)
  then show ?case by (cases "ns a"; cases "ns' a") auto
qed simp

lemma insert_result_waits:
  assumes w: "waits s as" and i: "insert_result p i v s = Some s'"
  shows "waits s' (as @ [p])"
    and "result_in (results s') (as @ [p]) j = (case result_in (results s) as j of Some u \<Rightarrow> Some u | None \<Rightarrow> if i = j then Some v else None)"
proof -
  let ?n = "\<lparr>ln_msgid = i, ln_signal = fst v, ln_data = snd v, ln_next = NULL\<rparr>"
  have p: "p \<noteq> NULL" "results s p = None" using i by (auto simp: insert_result_def Let_def split: if_splits)
  have dom: "results s a \<noteq> None" if "a \<in> set as" for a
    using chain_in_dom [OF w [unfolded waits_def] that] by (simp add: result_next_def)
  have notin: "p \<notin> set as" using dom p(2) by blast
  have "waits s' (as @ [p]) \<and> (\<forall>a\<in>set as. map_option (\<lambda>c. (ln_msgid c, ln_signal c, ln_data c)) (results s' a) =
      map_option (\<lambda>c. (ln_msgid c, ln_signal c, ln_data c)) (results s a)) \<and> results s' p = Some ?n"
  proof (cases as rule: rev_cases)
    case Nil
    then have "result_head s = NULL" using w by (simp add: waits_def)
    then show ?thesis using i p Nil by (auto simp: insert_result_def waits_def Let_def chain_result simp del: chain.simps(2))
  next
    case (snoc bs t)
    then have c: "chain (result_next (results s)) (result_head s) (bs @ [t])" using w by (simp add: waits_def)
    have h: "result_head s \<noteq> NULL" using c by (cases bs) auto
    obtain tc where tc: "results s t = Some tc" using dom [of t] snoc by auto
    have s': "s' = s\<lparr>results := (results s)(p \<mapsto> ?n, t \<mapsto> tc\<lparr>ln_next := p\<rparr>)\<rparr>"
      using i p h tc last_result_chain [OF c] by (simp add: insert_result_def Let_def)
    have "result_next (results s') = (result_next (results s))(p \<mapsto> NULL, t \<mapsto> p)"
      by (auto simp: result_next_def s')
    then have "waits s' (as @ [p])"
      using chain_append_node [OF c, of p] notin p(1) snoc by (simp add: waits_def s')
    then show ?thesis using tc notin snoc by (auto simp: s')
  qed
  then have w': "waits s' (as @ [p])" and same: "\<forall>a\<in>set as. map_option (\<lambda>c. (ln_msgid c, ln_signal c, ln_data c)) (results s' a) =
      map_option (\<lambda>c. (ln_msgid c, ln_signal c, ln_data c)) (results s a)" and n: "results s' p = Some ?n"
    by blast+
  show "waits s' (as @ [p])" by (rule w')
  have "results s' a \<noteq> None" if "a \<in> set as" for a
    using same [rule_format, OF that] dom [OF that] by (cases "results s' a") auto
  then show "result_in (results s') (as @ [p]) j = (case result_in (results s) as j of Some u \<Rightarrow> Some u | None \<Rightarrow> if i = j then Some v else None)"
    using result_in_append [of as "results s'" p ?n j] n result_in_cong [OF same, of j] by (auto split: option.splits)
qed

interpretation waiting_calls: lookup_table "insert_result p" lookup_result waits_ok msgid_free for p
proof unfold_locales
  fix s i v s'
  assume "waits_ok s" "insert_result p i v s = Some s'"
  then show "waits_ok s'" using insert_result_waits(1) unfolding waits_ok_def by blast
next
  fix s i
  assume "waits_ok s"
  then show "lookup_result i s \<noteq> None" using lookup_result_waits by (auto simp: waits_ok_def)
next
  fix s i v s' j
  assume a: "waits_ok s" "msgid_free i s" "insert_result p i v s = Some s'"
  then obtain as where w: "waits s as" by (auto simp: waits_ok_def)
  have "result_in (results s) as i = None" using a(2) lookup_result_waits [OF w, of i] by (simp add: msgid_free_def)
  then show "lookup_result j s' = (if j = i then Some (Some v) else lookup_result j s)"
    using lookup_result_waits [OF insert_result_waits(1) [OF w a(3)], of j] lookup_result_waits [OF w, of j]
      insert_result_waits(2) [OF w a(3), of j] by (auto split: option.splits)
qed

text \<open>\<^verbatim>\<open>set_rpc_result\<close> of a new number allocates a block and inserts.\<close>

lemma last_result_at:
  assumes "waits s (as @ [t])"
  shows "last_result (results s) (result_head s) = Some t" and "results s t \<noteq> None"
  using last_result_chain [OF assms [unfolded waits_def]] chain_in_dom [OF assms [unfolded waits_def], of t]
  by (simp_all add: result_next_def)

lemma result_in_hit:
  "\<forall>a\<in>set as. ns a \<noteq> None \<Longrightarrow> result_in ns as i = None \<Longrightarrow> a \<in> set as \<Longrightarrow> map_option ln_msgid (ns a) \<noteq> Some i"
  by (induction as) (auto split: if_splits)

lemma set_rpc_result_new:
  assumes w: "waits_ok s" and f: "msgid_free i s"
    and m: "lib_malloc SIZEOF_SIGNAL_LN s = Some (p, s\<lparr>lib_chunks := ch\<rparr>)" "p \<noteq> NULL" "results s p = None"
  shows "\<exists>s'. set_rpc_result i sig d s = Some s' \<and> insert_result p i (sig, d) (s\<lparr>lib_chunks := ch\<rparr>) = Some s'"
proof -
  obtain as where as: "waits s as" using w by (auto simp: waits_ok_def)
  have none: "result_in (results s) as i = None" using f lookup_result_waits [OF as, of i] by (simp add: msgid_free_def)
  have dom: "results s a \<noteq> None" if "a \<in> set as" for a
    using chain_in_dom [OF as [unfolded waits_def] that] by (simp add: result_next_def)
  show ?thesis
  proof (cases as rule: rev_cases)
    case Nil
    then have "result_head s = NULL" using as by (simp add: waits_def)
    then show ?thesis using m by (simp add: set_rpc_result_def new_result_def insert_result_def)
  next
    case (snoc bs t)
    note l = last_result_at [OF as [unfolded snoc]]
    obtain c where c: "results s t = Some c" using l(2) by auto
    have "ln_msgid c \<noteq> i" using result_in_hit [of as "results s" i t] dom none c snoc by auto
    moreover have "result_head s \<noteq> NULL" using as snoc by (cases bs) (auto simp: waits_def)
    moreover have "t \<noteq> p" using c m(3) by auto
    ultimately show ?thesis
      using l(1) c m by (simp add: set_rpc_result_def new_result_def insert_result_def Let_def)
  qed
qed

text \<open>
  \<^verbatim>\<open>set_rpc_result\<close> with a message number that no waiting call has, when \<^verbatim>\<open>malloc\<close> gives a new block: the semaphore
  and the place for the result are found under the number, and the other waiting calls are found as before.
\<close>

theorem waiting_call_found:
  assumes "waits_ok s" and "msgid_free i s"
    and "lib_malloc SIZEOF_SIGNAL_LN s = Some (p, s\<lparr>lib_chunks := ch\<rparr>)" and "p \<noteq> NULL" and "results s p = None"
  shows "\<exists>s'. set_rpc_result i sig d s = Some s' \<and> waits_ok s' \<and> lookup_result i s' = Some (Some (sig, d))
    \<and> (\<forall>j. j \<noteq> i \<longrightarrow> lookup_result j s' = lookup_result j s)"
proof -
  let ?s = "s\<lparr>lib_chunks := ch\<rparr>"
  obtain s' where s': "set_rpc_result i sig d s = Some s'" "insert_result p i (sig, d) ?s = Some s'"
    using set_rpc_result_new [OF assms] by blast
  have same: "lookup_result j ?s = lookup_result j s" for j by (simp add: lookup_result_def get_signal_def cong: if_cong)
  then have f: "waits_ok ?s" "msgid_free i ?s" using assms(1,2) by (simp_all add: waits_ok_def waits_def msgid_free_def)
  show ?thesis
    using s'(1) waiting_calls.ins_inv [OF f s'(2)] waiting_calls.lkp_ins_same [OF f s'(2)]
      waiting_calls.lkp_ins_other [OF f s'(2)] same by auto
qed

section \<open>The request\<close>

lemma length_lib_bytes [simp]: "length (lib_bytes p n s) = n"
  by (simp add: lib_bytes_def)

lemma lib_store_append: "k = length xs \<Longrightarrow> lib_store (p + k) ys (lib_store p xs s) = lib_store p (xs @ ys) s"
  by (simp add: lib_store_def store_bytes_append)

lemma lib_bytes_store: "n = length xs \<Longrightarrow> lib_bytes p n (lib_store p xs s) = xs"
  by (rule nth_equalityI) (simp_all add: lib_bytes_def lib_store_def store_bytes_inside)

lemma lib_bytes_store_outside: "q + n \<le> p \<or> p + length xs \<le> q \<Longrightarrow> lib_bytes q n (lib_store p xs s) = lib_bytes q n s"
  by (auto simp: lib_bytes_def lib_store_def intro!: store_bytes_outside)

text \<open>The bytes of a request.\<close>

definition request_bytes :: "u64 \<Rightarrow> u32 \<Rightarrow> u8 list \<Rightarrow> u8 list" where
  "request_bytes f rsize bs = le_bytes 8 (unat f) @ le_bytes 4 (length bs) @ le_bytes 4 (unat rsize) @ bs"

lemma prepare_params_bytes:
  assumes prep: "prepare_params f rsize args s = Some (p, s')"
    and apart: "ra_data args + nat (ra_size args) \<le> p \<or> p + 16 \<le> ra_data args"
  shows "lib_bytes p (16 + nat (ra_size args)) s' = request_bytes f rsize (lib_bytes (ra_data args) (nat (ra_size args)) s)"
proof -
  let ?n = "nat (ra_size args)" and ?h = "le_bytes 8 (unat f) @ le_bytes 4 (nat (ra_size args)) @ le_bytes 4 (unat rsize)"
  obtain s1 where s1: "lib_malloc (int (16 + ?n)) s = Some (p, s1)"
    and s': "s' = lib_store (p + 16) (lib_bytes (ra_data args) ?n (lib_store p ?h s1)) (lib_store p ?h s1)"
    using prep by (auto simp: prepare_params_def Let_def bind_iff SIZEOF_RPC_FUNC_def SIZEOF_RPC_SIZE_def lib_store_append
        add.assoc split: if_splits)
  have m: "lib_mem s1 = lib_mem s"
    using s1 by (auto simp: lib_malloc_def bind_iff)
  have "lib_bytes (ra_data args) ?n (lib_store p ?h s1) = lib_bytes (ra_data args) ?n s"
    using apart by (subst lib_bytes_store_outside) (auto simp: lib_bytes_def m)
  then have "s' = lib_store p (?h @ lib_bytes (ra_data args) ?n s) s1"
    using s' lib_store_append [of 16 ?h p _ s1] by simp
  then show ?thesis
    by (simp add: lib_bytes_store request_bytes_def)
qed

lemma kbytes_part:
  assumes "kbytes msg (length bs) st = bs" and "i + n \<le> length bs"
  shows "kbytes (msg + i) n st = take n (drop i bs)"
proof (rule nth_equalityI)
  fix k
  assume "k < length (kbytes (msg + i) n st)"
  then have k: "k < n" by (simp add: kbytes_def)
  then have "kbytes msg (length bs) st ! (i + k) = vm_bytes (vm st) (msg + (i + k))"
    using assms(2) by (simp add: kbytes_def)
  then have "bs ! (i + k) = vm_bytes (vm st) (msg + (i + k))"
    by (simp only: assms(1))
  then show "kbytes (msg + i) n st ! k = take n (drop i bs) ! k"
    using k assms(2) by (simp add: kbytes_def add.assoc)
qed (use assms in \<open>simp add: kbytes_def\<close>)

text \<open>
  A request that \<^verbatim>\<open>prepare_params\<close> has put together is read back by the dispatcher of the receiver: when the message
  at \<open>msg\<close> has its bytes, the reads of \<^verbatim>\<open>deal_rpc_request\<close> give the number of the function, the two sizes and the
  caller's arguments.
\<close>

theorem request_round_trip:
  assumes prep: "prepare_params f rsize args s = Some (p, s')" and small: "ra_size args < 2 ^ 19"
    and apart: "ra_data args + nat (ra_size args) \<le> p \<or> p + 16 \<le> ra_data args"
    and msg: "kbytes msg (16 + nat (ra_size args)) st = lib_bytes p (16 + nat (ra_size args)) s'"
  shows "ARG_READ msg 8 st = (unat f, msg + 8) \<and> ARG_READ (msg + 8) 4 st = (nat (ra_size args), msg + 12)
    \<and> ARG_READ (msg + 12) 4 st = (unat rsize, msg + 16)
    \<and> kbytes (msg + 16) (nat (ra_size args)) st = lib_bytes (ra_data args) (nat (ra_size args)) s"
proof -
  let ?n = "nat (ra_size args)" and ?b = "lib_bytes (ra_data args) (nat (ra_size args)) s"
  have r: "kbytes msg (length (request_bytes f rsize ?b)) st = request_bytes f rsize ?b"
    using msg prepare_params_bytes [OF prep apart] by (simp add: request_bytes_def)
  note part = kbytes_part [OF r]
  have "kbytes (msg + 0) 8 st = le_bytes 8 (unat f)" "kbytes (msg + 8) 4 st = le_bytes 4 ?n"
    "kbytes (msg + 12) 4 st = le_bytes 4 (unat rsize)" "kbytes (msg + 16) ?n st = ?b"
    by (subst part; simp add: request_bytes_def del: le_bytes.simps)+
  moreover have "unat f < 256 ^ 8" "unat rsize < 256 ^ 4" "?n < 256 ^ 4"
    using unsigned_less [of f] unsigned_less [of rsize] small by simp_all
  ultimately show ?thesis
    by (simp add: ARG_READ_def del: le_bytes.simps)
qed

section \<open>Witnesses\<close>

definition demo_lib :: kmod where
  "demo_lib = \<lparr>lib_heap = 4096, lib_chunks = example_heap, lib_mem = (\<lambda>_. 0), result_head = NULL, results = Map.empty,
     lib_msgid = 0, call_buffer = NULL, call_buffer_sz = 0\<rparr>"

text \<open>Two calls wait, with the numbers 1 and 2.\<close>

definition demo_waiting :: kmod where
  "demo_waiting = demo_lib\<lparr>result_head := 100, results := [100 \<mapsto> \<lparr>ln_msgid = 1, ln_signal = 7, ln_data = 300, ln_next = 200\<rparr>,
     200 \<mapsto> \<lparr>ln_msgid = 2, ln_signal = 8, ln_data = 400, ln_next = NULL\<rparr>]\<rparr>"

lemma demo_waits: "waits demo_waiting [100, 200]" "waits demo_lib []"
  by (simp_all add: waits_def demo_waiting_def demo_lib_def result_next_def)

lemma demo_ids: "msgid_at demo_waiting 100 = Some 1" "msgid_at demo_waiting 200 = Some 2"
  by (simp_all add: msgid_at_def demo_waiting_def)

lemma demo_malloc:
  assumes "0 < sz" "sz \<le> 64"
  shows "\<exists>ch. lib_malloc sz demo_lib = Some (4128, demo_lib\<lparr>lib_chunks := ch\<rparr>)"
proof -
  have f: "0 < fixed_of sz" "fixed_of sz < 128"
    using fixed_of_eq [of sz] assms by auto
  have "wrap32 sz = sz"
    using assms by (intro wrap32_id) auto
  moreover have "nat (fixed_of sz) \<le> 65520" "csize example_heap 4112 = 65520" "example_heap (rest_of 4112 sz) = None"
    using f by (simp_all add: csize_def example_heap_eq rest_of_def SIZEOF_CHUNK_def)
  then have "\<exists>h'. malloc 4096 sz example_heap = Some (4112 + SIZEOF_CHUNK, h')"
    using malloc_first_fit_ok [OF example_free_list, of sz] assms by auto
  ultimately show ?thesis
    by (auto simp: lib_malloc_def demo_lib_def SIZEOF_CHUNK_def)
qed

lemma remove_loop_returns_witness:
  "\<not> (\<exists>r. unlink_result (results demo_waiting) (result_head demo_waiting) 1 = Some r)
   \<and> (\<exists>r. unlink_result (results demo_waiting) (result_head demo_waiting) 2 = Some r)"
  using remove_loop_returns [OF demo_waits(1), of 1] remove_loop_returns [OF demo_waits(1), of 2] demo_ids by simp

lemma early_result_hangs_witness:
  "message_round True True \<lparr>mp_reserved = 0, message_no = MSG_RPC_RESULT, msg_id = 1, mp_length = 16, mp_source = 5\<rparr> 500 demo_waiting = None"
  by (rule early_result_hangs [OF demo_waits(1), where c = 100]) (simp_all add: demo_ids)

lemma waiting_call_found_witness:
  "\<exists>s'. set_rpc_result 3 9 300 demo_lib = Some s' \<and> lookup_result 3 s' = Some (Some (9, 300))"
proof -
  obtain ch where m: "lib_malloc SIZEOF_SIGNAL_LN demo_lib = Some (4128, demo_lib\<lparr>lib_chunks := ch\<rparr>)"
    using demo_malloc [of SIZEOF_SIGNAL_LN] by (auto simp: SIZEOF_SIGNAL_LN_def)
  have w: "waits_ok demo_lib" "msgid_free 3 demo_lib" "results demo_lib 4128 = None"
    using demo_waits(2) lookup_result_waits [OF demo_waits(2), of 3] by (auto simp: waits_ok_def msgid_free_def demo_lib_def)
  show ?thesis
    using waiting_call_found [OF w(1,2) m _ w(3), of 9 300] by auto
qed

lemma request_round_trip_witness:
  "\<exists>s' st. prepare_params 7 8 (mk_args 300 3) demo_lib = Some (4128, s') \<and> ARG_READ 4136 4 st = (3, 4140)
     \<and> kbytes 4144 3 st = lib_bytes 300 3 demo_lib"
proof -
  obtain ch where m: "lib_malloc 19 demo_lib = Some (4128, demo_lib\<lparr>lib_chunks := ch\<rparr>)"
    using demo_malloc [of 19] by auto
  have a: "ra_data (mk_args 300 3) = 300" "ra_size (mk_args 300 3) = 3"
    by (simp_all add: mk_args_def)
  then obtain s' where p: "prepare_params 7 8 (mk_args 300 3) demo_lib = Some (4128, s')"
    using m by (auto simp: prepare_params_def Let_def SIZEOF_RPC_FUNC_def SIZEOF_RPC_SIZE_def)
  let ?st = "example_kstate\<lparr>vm := example_vmem\<lparr>vm_bytes := lib_mem s'\<rparr>\<rparr>"
  have k: "kbytes 4128 (16 + nat (ra_size (mk_args 300 3))) ?st = lib_bytes 4128 (16 + nat (ra_size (mk_args 300 3))) s'"
    by (simp add: kbytes_def lib_bytes_def)
  show ?thesis
    using request_round_trip [OF p _ _ k] p by (auto simp: a)
qed

end
