(* ===== verification/LibRpc.thy ===== *)
theory LibRpc
  imports Kmod
begin

text \<open>
  The procedures of a module, the remaining part of \<^verbatim>\<open>libs/libkmod/syscall/rpc.c\<close>: the table of procedures, the thread
  that serves a request, and \<^verbatim>\<open>remote_call\<close>.  A procedure works on the library's state and on that of its module.  The
  lemmas follow a call from the caller's arguments to the procedure and from its result back to the caller.
\<close>

section \<open>The table of procedures\<close>

type_synonym 'x procedure = "int \<Rightarrow> u64 \<Rightarrow> rpc_args \<Rightarrow> kmod \<times> 'x \<Rightarrow> (rpc_args \<times> kmod \<times> 'x) option"

record 'x lib_info =
  li_func_no :: u64
  li_process :: "'x procedure"
  li_return_size :: u32
  li_args_size :: u32

record 'x server =
  sv_head :: ptr
  sv_infos :: "ptr \<rightharpoonup> 'x lib_info"
  sv_nodes :: "ptr \<rightharpoonup> proccess_node"

definition SIZEOF_LIB_INFO :: int where "SIZEOF_LIB_INFO = 24"
definition SIZEOF_LIB_NODE :: int where "SIZEOF_LIB_NODE = 24"

text \<open>The nodes and their search are those of the kernel; a write through a null block is \<open>None\<close>.\<close>

definition lib_find_process :: "u64 \<Rightarrow> 'x server \<Rightarrow> ptr option" where
  "lib_find_process f sv = find_proccess (sv_nodes sv) (sv_head sv) f"

definition lib_add_process :: "u64 \<Rightarrow> ptr \<Rightarrow> kmod \<times> 'x server \<Rightarrow> (kmod \<times> 'x server) option" where
  "lib_add_process f info = (\<lambda>(k, sv). do {
     (new_node, k) \<leftarrow> lib_malloc SIZEOF_LIB_NODE k;
     if new_node = NULL then None
     else Some (k, sv\<lparr>sv_nodes := (sv_nodes sv)(new_node \<mapsto> \<lparr>nd_func_no = f, nd_info = info, nd_next = sv_head sv\<rparr>),
                      sv_head := new_node\<rparr>)
   })"

definition lib_rpc_register :: "u64 \<Rightarrow> 'x procedure \<Rightarrow> u32 \<Rightarrow> u32 \<Rightarrow> kmod \<times> 'x server \<Rightarrow> (kmod \<times> 'x server) option" where
  "lib_rpc_register f process rsize asize = (\<lambda>(k, sv). do {
     (info, k) \<leftarrow> lib_malloc SIZEOF_LIB_INFO k;
     if info = NULL then None
     else lib_add_process f info (k, sv\<lparr>sv_infos := (sv_infos sv)
        (info \<mapsto> \<lparr>li_func_no = f, li_process = process, li_return_size = rsize, li_args_size = asize\<rparr>)\<rparr>)
   })"

section \<open>Serving a request\<close>

text \<open>\<^verbatim>\<open>ARG_READ\<close> and \<^verbatim>\<open>ARG_WRITE\<close> in the memory of a module: the value, and the address behind it.\<close>

definition lib_arg_read :: "nat \<Rightarrow> nat \<Rightarrow> kmod \<Rightarrow> nat \<times> nat" where
  "lib_arg_read args n k = (le_val (lib_bytes args n k), args + n)"

definition lib_arg_write :: "nat \<Rightarrow> nat \<Rightarrow> nat \<Rightarrow> kmod \<Rightarrow> nat \<times> kmod" where
  "lib_arg_write args n v k = (args + n, lib_store args (le_bytes n v) k)"

text \<open>The answer: number of the procedure and result.  A result of negative size is an endless copy.\<close>

definition lib_answer :: "msgpack \<Rightarrow> u64 \<Rightarrow> u32 \<Rightarrow> rpc_args \<Rightarrow> kmod \<Rightarrow> (effect list \<times> kmod) option" where
  "lib_answer pack f rsize res k =
     (if ra_size res < 0 then None
      else do {
        let n = nat (ra_size res);
        (return_data, k) \<leftarrow> lib_malloc (int (SIZEOF_RPC_FUNC + n)) k;
        if return_data = NULL then None
        else do {
          let (data, k) = lib_arg_write return_data SIZEOF_RPC_FUNC (unat f) k;
          let k = lib_store data (lib_bytes (ra_data res) n k) k;
          let eff = (if rsize = of_int (ra_size res) \<or> rsize = - 1
            then [SendMsg \<lparr>no_reserved = 0, no_message = MSG_RPC_RESULT, no_msg_id = msg_id pack\<rparr>
                    (lib_bytes return_data (SIZEOF_RPC_FUNC + n) k) (uint (mp_source pack))]
            else []);
          k \<leftarrow> lib_free (ra_data res) k;
          k \<leftarrow> lib_free return_data k;
          Some (eff, k)
        }
      })"

definition lib_deal_request :: "'x server \<Rightarrow> msgpack \<Rightarrow> ptr \<Rightarrow> kmod \<times> 'x \<Rightarrow> (effect list \<times> kmod \<times> 'x) option" where
  "lib_deal_request sv pack msg = (\<lambda>(k, x). do {
     let (f, msg) = lib_arg_read msg SIZEOF_RPC_FUNC k;
     p \<leftarrow> lib_find_process (of_nat f) sv;
     if p = NULL then Some ([], k, x)
     else do {
       info \<leftarrow> sv_infos sv p;
       let (asize, msg) = lib_arg_read msg SIZEOF_RPC_SIZE k;
       if of_nat asize \<noteq> li_args_size info \<and> li_args_size info \<noteq> - 1 then Some ([], k, x)
       else do {
         let (rsize, msg) = lib_arg_read msg SIZEOF_RPC_SIZE k;
         if of_nat rsize \<noteq> li_return_size info \<and> li_return_size info \<noteq> - 1 then Some ([], k, x)
         else do {
           (res, k, x) \<leftarrow> li_process info (uint (mp_source pack)) (of_nat f) (mk_args msg (int asize)) (k, x);
           (eff, k) \<leftarrow> lib_answer pack (of_nat f) (li_return_size info) res k;
           Some (eff, k, x)
         }
       }
     }
   })"

text \<open>The thread: it reads the header and the address of the message from its argument, and releases both blocks.\<close>

definition lib_request_thread :: "'x server \<Rightarrow> ptr \<Rightarrow> kmod \<times> 'x \<Rightarrow> (effect list \<times> kmod \<times> 'x) option" where
  "lib_request_thread sv args = (\<lambda>(k, x). do {
     let pack = msgpack_of (lib_bytes args 8 k);
     let (msg, _) = lib_arg_read (args + 8) SIZEOF_POINTER k;
     (eff, k, x) \<leftarrow> lib_deal_request sv pack msg (k, x);
     k \<leftarrow> lib_free args k;
     k \<leftarrow> lib_free msg k;
     Some (eff, k, x)
   })"

section \<open>Calling\<close>

text \<open>\<^verbatim>\<open>remote_call\<close> up to the wait, and from there on: the bytes of the result.\<close>

definition remote_call :: "int \<Rightarrow> u64 \<Rightarrow> rpc_args \<Rightarrow> u32 \<Rightarrow> u32 \<Rightarrow> kmod \<Rightarrow> (effect list \<times> ptr \<times> ptr \<times> kmod) option" where
  "remote_call service f args rsize sig k = do { k \<leftarrow> rpc_buffer rsize k; rpc_call_begin service f args rsize sig k }"

definition remote_return :: "u64 \<Rightarrow> u32 \<Rightarrow> ptr \<Rightarrow> ptr \<Rightarrow> kmod \<Rightarrow> (u8 list \<times> kmod) option" where
  "remote_return f rsize return_data params k = do {
     let res = call_buffer k;
     (_, k) \<leftarrow> rpc_call_end f rsize res return_data params k;
     Some (lib_bytes res (unat rsize) k, k)
   }"

section \<open>Arguments and results\<close>

definition SIZEOF_BOOL :: u32 where "SIZEOF_BOOL = 1"

text \<open>An \<^verbatim>\<open>int\<close> as its four bytes.\<close>

definition int_arg :: "int \<Rightarrow> nat" where "int_arg i = nat (i mod 2 ^ 32)"

text \<open>The result in a block of its own.\<close>

definition give_result :: "u32 \<Rightarrow> u8 list \<Rightarrow> kmod \<times> 'x \<Rightarrow> (rpc_args \<times> kmod \<times> 'x) option" where
  "give_result n bs = (\<lambda>(k, x). do {
     (res, k) \<leftarrow> lib_malloc (int (unat n)) k;
     if res = NULL then None else Some (mk_args res (int (unat n)), lib_store res bs k, x)
   })"

section \<open>The procedure gets the arguments of the caller\<close>

lemma lib_bytes_part:
  assumes "lib_bytes msg (length bs) k = bs" and "i + n \<le> length bs"
  shows "lib_bytes (msg + i) n k = take n (drop i bs)"
proof (rule nth_equalityI)
  fix j
  assume "j < length (lib_bytes (msg + i) n k)"
  then have j: "j < n" by simp
  then have "lib_bytes msg (length bs) k ! (i + j) = lib_mem k (msg + (i + j))"
    using assms(2) by (simp add: lib_bytes_def)
  then have "bs ! (i + j) = lib_mem k (msg + (i + j))" by (simp only: assms(1))
  then show "lib_bytes (msg + i) n k ! j = take n (drop i bs) ! j"
    using j assms(2) by (simp add: lib_bytes_def add.assoc)
qed (use assms in simp)

lemma rpc_call_begin_message:
  assumes b: "rpc_call_begin service f args rsize sig c = Some (effs, rd, params, c')"
    and apart: "ra_data args + nat (ra_size args) \<le> params \<or> params + 16 \<le> ra_data args"
  shows "\<exists>i. effs = [SendMsg \<lparr>no_reserved = 0, no_message = MSG_RPC_CALL, no_msg_id = i\<rparr>
      (request_bytes f rsize (lib_bytes (ra_data args) (nat (ra_size args)) c)) service]" and "0 \<le> ra_size args"
proof -
  let ?n = "nat (ra_size args)"
  obtain q s1 where s1': "prepare_params f rsize args c = Some (q, s1)"
    using b by (cases "prepare_params f rsize args c") (auto simp: rpc_call_begin_def)
  obtain i counter where g: "get_msgid (lib_msgid s1) = (i, counter)" by fastforce
  have s1: "prepare_params f rsize args c = Some (params, s1)" using b s1' g by (auto simp: rpc_call_begin_def bind_iff)
  obtain s2 where s2: "lib_malloc (int SIZEOF_RPC_FUNC + uint rsize) (s1\<lparr>lib_msgid := counter\<rparr>) = Some (rd, s2)"
    and s3: "set_rpc_result (uint i) sig rd s2 = Some c'"
    and e: "effs = [SendMsg \<lparr>no_reserved = 0, no_message = MSG_RPC_CALL, no_msg_id = i\<rparr>
        (lib_bytes params (SIZEOF_RPC_FUNC + SIZEOF_RPC_SIZE * 2 + ?n) c') service]"
    using b s1 g by (auto simp: rpc_call_begin_def bind_iff)
  have "lib_mem s2 = lib_mem s1" using s2 by (auto simp: lib_malloc_def bind_iff)
  moreover have "lib_mem c' = lib_mem s2"
    using s3 by (auto simp: set_rpc_result_def new_result_def lib_malloc_def bind_iff split: if_splits)
  ultimately have "lib_bytes params (16 + ?n) c' = lib_bytes params (16 + ?n) s1" by (simp add: lib_bytes_def)
  then show "\<exists>i. effs = [SendMsg \<lparr>no_reserved = 0, no_message = MSG_RPC_CALL, no_msg_id = i\<rparr>
      (request_bytes f rsize (lib_bytes (ra_data args) ?n c)) service]"
    using e prepare_params_bytes [OF s1 apart] by (simp add: SIZEOF_RPC_FUNC_def SIZEOF_RPC_SIZE_def)
  show "0 \<le> ra_size args" using s1 by (auto simp: prepare_params_def split: if_splits)
qed

text \<open>A dispatcher that finds the bytes of a request runs the procedure on the arguments behind its 16 bytes.\<close>

lemma lib_deal_request_runs:
  assumes msg: "lib_bytes msg (16 + length bs) k = request_bytes f rsize bs" and small: "length bs < 2 ^ 19"
    and reg: "lib_find_process f sv = Some p" "p \<noteq> NULL" "sv_infos sv p = Some info"
    and sizes: "li_args_size info = of_nat (length bs) \<or> li_args_size info = - 1"
      "li_return_size info = rsize \<or> li_return_size info = - 1"
  shows "lib_deal_request sv pack msg (k, x) = do {
      (res, k1, x1) \<leftarrow> li_process info (uint (mp_source pack)) f (mk_args (msg + 16) (int (length bs))) (k, x);
      (eff, k2) \<leftarrow> lib_answer pack f (li_return_size info) res k1;
      Some (eff, k2, x1)
    }" and "lib_bytes (msg + 16) (length bs) k = bs"
proof -
  have r: "lib_bytes msg (length (request_bytes f rsize bs)) k = request_bytes f rsize bs"
    using msg by (simp add: request_bytes_def)
  note part = lib_bytes_part [OF r]
  have "lib_bytes (msg + 0) 8 k = le_bytes 8 (unat f)" "lib_bytes (msg + 8) 4 k = le_bytes 4 (length bs)"
    "lib_bytes (msg + 12) 4 k = le_bytes 4 (unat rsize)" and b: "lib_bytes (msg + 16) (length bs) k = bs"
    by (subst part; simp add: request_bytes_def del: le_bytes.simps)+
  moreover have "unat f < 256 ^ 8" "unat rsize < 256 ^ 4" "length bs < 256 ^ 4"
    using unsigned_less [of f] unsigned_less [of rsize] small by simp_all
  ultimately have a: "lib_arg_read msg 8 k = (unat f, msg + 8)" "lib_arg_read (msg + 8) 4 k = (length bs, msg + 12)"
    "lib_arg_read (msg + 12) 4 k = (unat rsize, msg + 16)"
    by (simp_all add: lib_arg_read_def del: le_bytes.simps)
  show "lib_deal_request sv pack msg (k, x) = do {
      (res, k1, x1) \<leftarrow> li_process info (uint (mp_source pack)) f (mk_args (msg + 16) (int (length bs))) (k, x);
      (eff, k2) \<leftarrow> lib_answer pack f (li_return_size info) res k1;
      Some (eff, k2, x1)
    }"
    using reg sizes by (auto simp: lib_deal_request_def a SIZEOF_RPC_FUNC_def SIZEOF_RPC_SIZE_def)
  show "lib_bytes (msg + 16) (length bs) k = bs" by (rule b)
qed

section \<open>The caller gets the result of the procedure\<close>

lemma lib_answer_bytes:
  assumes a: "lib_answer pack f rsize res k = Some (effs, k')"
    and ok: "rsize = of_int (ra_size res) \<or> rsize = - 1"
    and apart: "\<And>p ch. lib_malloc (int (SIZEOF_RPC_FUNC + nat (ra_size res))) k = Some (p, ch)
      \<Longrightarrow> ra_data res + nat (ra_size res) \<le> p \<or> p + 8 \<le> ra_data res"
  shows "effs = [SendMsg \<lparr>no_reserved = 0, no_message = MSG_RPC_RESULT, no_msg_id = msg_id pack\<rparr>
      (le_bytes 8 (unat f) @ lib_bytes (ra_data res) (nat (ra_size res)) k) (uint (mp_source pack))]"
proof -
  let ?n = "nat (ra_size res)" and ?h = "le_bytes 8 (unat f)"
  obtain p k1 where m: "lib_malloc (int (8 + ?n)) k = Some (p, k1)"
    and e: "effs = [SendMsg \<lparr>no_reserved = 0, no_message = MSG_RPC_RESULT, no_msg_id = msg_id pack\<rparr>
      (lib_bytes p (8 + ?n) (lib_store (p + 8) (lib_bytes (ra_data res) ?n (lib_store p ?h k1)) (lib_store p ?h k1))) (uint (mp_source pack))]"
    using a ok by (auto simp: lib_answer_def bind_iff Let_def lib_arg_write_def SIZEOF_RPC_FUNC_def split: if_splits)
  have mem: "lib_mem k1 = lib_mem k" using m by (auto simp: lib_malloc_def bind_iff)
  have "lib_bytes (ra_data res) ?n (lib_store p ?h k1) = lib_bytes (ra_data res) ?n k"
    using apart [of p k1] m by (subst lib_bytes_store_outside) (auto simp: lib_bytes_def mem SIZEOF_RPC_FUNC_def)
  moreover have "lib_bytes p (8 + ?n) (lib_store (p + 8) ys (lib_store p ?h k1)) = ?h @ ys" if "length ys = ?n" for ys
    using that by (simp add: lib_store_append lib_bytes_store)
  ultimately show ?thesis using e by simp
qed

text \<open>Blocks released one after the other.\<close>

primrec release :: "ptr list \<Rightarrow> kmod \<Rightarrow> kmod option" where
  "release [] k = Some k"
| "release (p # ps) k = do { k \<leftarrow> lib_free p k; release ps k }"

text \<open>Releasing changes the chunks only, and depends on nothing else.\<close>

lemma lib_free_frame:
  assumes "lib_free p k = Some k'" and "lib_heap s = lib_heap k" and "lib_chunks s = lib_chunks k"
  shows "lib_free p s = Some (s\<lparr>lib_chunks := lib_chunks k'\<rparr>)" and "lib_heap k' = lib_heap k"
  using assms by (auto simp: lib_free_def bind_iff)

lemma lib_store_simps [simp]:
  "lib_heap (lib_store p bs k) = lib_heap k" "lib_chunks (lib_store p bs k) = lib_chunks k"
  "results (lib_store p bs k) = results k" "result_head (lib_store p bs k) = result_head k"
  "call_buffer (lib_store p bs k) = call_buffer k" "lib_msgid (lib_store p bs k) = lib_msgid k"
  by (simp_all add: lib_store_def)

lemma lib_bytes_cong: "lib_mem k' = lib_mem k \<Longrightarrow> lib_bytes p n k' = lib_bytes p n k"
  by (simp add: lib_bytes_def)

lemma remove_ok:
  assumes w: "waits s (h # as)" and snd: "as = [] \<or> msgid_at s (hd as) = Some i"
    and rel: "release (take 1 as @ ps) k = Some kf" and same: "lib_heap s = lib_heap k" "lib_chunks s = lib_chunks k"
  shows "\<exists>s' k'. remove_rpc_result i s = Some s' \<and> lib_mem s' = lib_mem s \<and> call_buffer s' = call_buffer s
    \<and> release ps k' = Some kf \<and> lib_heap s' = lib_heap k' \<and> lib_chunks s' = lib_chunks k'"
proof (cases as)
  case Nil
  then obtain c where "result_head s = h" "h \<noteq> NULL" "results s h = Some c" "ln_next c = NULL"
    using w by (auto simp: waits_def chain_result simp del: chain.simps(2))
  then have "remove_rpc_result i s = Some s" by (simp add: remove_rpc_result_def unlink_result_single)
  then show ?thesis using Nil rel same by auto
next
  case (Cons b bs)
  then obtain ca cb where n: "result_head s = h" "h \<noteq> NULL" "results s h = Some ca" "ln_next ca = b" "b \<noteq> NULL" "results s b = Some cb"
    using w unfolding waits_def Cons chain_result by auto
  have "ln_msgid cb = i" using snd Cons n(6) by (simp add: msgid_at_def)
  then have u: "unlink_result (results s) h i = Some (b, (results s)(h \<mapsto> ca\<lparr>ln_next := ln_next cb\<rparr>))"
    using n unlink_result_second [of "results s" h ca cb i] by simp
  obtain k1 where k1: "lib_free b k = Some k1" "release ps k1 = Some kf" using rel Cons by (auto simp: bind_iff)
  let ?s = "s\<lparr>results := ((results s)(h \<mapsto> ca\<lparr>ln_next := ln_next cb\<rparr>))(b := None)\<rparr>"
  have "lib_free b ?s = Some (?s\<lparr>lib_chunks := lib_chunks k1\<rparr>)"
    using lib_free_frame(1) [OF k1(1), of ?s] same by simp
  then have "remove_rpc_result i s = Some (?s\<lparr>lib_chunks := lib_chunks k1\<rparr>)"
    using u n by (simp add: remove_rpc_result_def)
  then show ?thesis using k1(2) same lib_free_frame(2) [OF k1(1) refl refl] by auto
qed

lemma result_returned:
  assumes w: "waits c (h # as)" and fnd: "lookup_result (uint i) c = Some (Some (sig, rd))"
    and snd: "as = [] \<or> msgid_at c (hd as) = Some (uint i)"
    and pack: "message_no pack = MSG_RPC_RESULT" "msg_id pack = i" "unat (mp_length pack) = 8 + length rs"
    and reply: "lib_bytes m (8 + length rs) c = le_bytes 8 (unat f) @ rs" and len: "length rs = unat rsize"
    and rel: "release (take 1 as @ [rd, params]) c = Some cf"
  shows "\<exists>c1 c2. message_round normal irq pack m c = Some ([UpSignal sig], c1) \<and> remote_return f rsize rd params c1 = Some (rs, c2)"
proof -
  obtain p d where p: "get_signal (uint i) c = Some p" "p \<noteq> NULL" "results c p = Some d" "ln_signal d = sig" "ln_data d = rd"
    using fnd by (auto simp: lookup_result_def bind_iff split: if_splits)
  let ?bs = "le_bytes 8 (unat f) @ rs" and ?c = "lib_store rd (le_bytes 8 (unat f) @ rs) c"
  have "waits ?c (h # as)" "as = [] \<or> msgid_at ?c (hd as) = Some (uint i)"
    using w snd by (simp_all add: waits_def msgid_at_def)
  from remove_ok [OF this rel] obtain c1 k1 where c1: "remove_rpc_result (uint i) ?c = Some c1" "lib_mem c1 = lib_mem ?c"
      "call_buffer c1 = call_buffer c" "release [rd, params] k1 = Some cf" "lib_heap c1 = lib_heap k1" "lib_chunks c1 = lib_chunks k1"
    by auto
  have "message_round normal irq pack m c = Some ([UpSignal sig], c1)"
    using p pack reply c1(1) by (simp add: message_round_def MSG_NORMAL_IPC_def MSG_RPC_CALL_def MSG_RPC_RESULT_def)
  moreover have r: "lib_bytes rd (length ?bs) c1 = ?bs"
    using lib_bytes_cong [OF c1(2)] by (simp add: lib_bytes_store del: append.simps)
  have h: "lib_bytes rd 8 c1 = le_bytes 8 (unat f)" "lib_bytes (rd + 8) (unat rsize) c1 = rs"
    using lib_bytes_part [OF r, of 0 8] lib_bytes_part [OF r, of 8 "unat rsize"] len by (simp_all del: le_bytes.simps)
  have "unat f < 256 ^ 8" using unsigned_less [of f] by simp
  then have f: "of_nat (le_val (lib_bytes rd 8 c1)) = f"
    by (simp add: h(1) del: le_bytes.simps)
  obtain k2 k3 where k: "lib_free rd k1 = Some k2" "lib_free params k2 = Some k3" using c1(4) by (auto simp: bind_iff)
  let ?res = "call_buffer c" and ?s = "lib_store (call_buffer c) rs c1"
  have "lib_free rd ?s = Some (?s\<lparr>lib_chunks := lib_chunks k2\<rparr>)"
    using lib_free_frame(1) [OF k(1), of ?s] c1(5,6) by simp
  moreover have "lib_free params (?s\<lparr>lib_chunks := lib_chunks k2\<rparr>) = Some (?s\<lparr>lib_chunks := lib_chunks k2\<rparr>\<lparr>lib_chunks := lib_chunks k3\<rparr>)"
    using lib_free_frame(2) [OF k(1) refl refl] c1(5) by (intro lib_free_frame(1) [OF k(2)]) simp_all
  moreover have "lib_bytes ?res (unat rsize) (?s\<lparr>lib_chunks := lib_chunks k2\<rparr>\<lparr>lib_chunks := lib_chunks k3\<rparr>) = rs"
    using lib_bytes_store [of "unat rsize" rs ?res c1] len by (simp add: lib_bytes_def)
  ultimately have "\<exists>c2. remote_return f rsize rd params c1 = Some (rs, c2)"
    using f h(2) c1(3) by (simp add: remote_return_def rpc_call_end_def SIZEOF_RPC_FUNC_def)
  with \<open>message_round normal irq pack m c = Some ([UpSignal sig], c1)\<close> show ?thesis by blast
qed

lemma lib_answer_ok:
  assumes m: "lib_malloc (int (8 + n)) k = Some (q, k1)" "q \<noteq> NULL" and r: "ra_size res = int n" "rsize = of_nat n"
    and apart: "ra_data res + n \<le> q \<or> q + 8 \<le> ra_data res" and rel: "release [ra_data res, q] k1 = Some kf"
  shows "\<exists>k'. lib_answer pack f rsize res k = Some ([SendMsg \<lparr>no_reserved = 0, no_message = MSG_RPC_RESULT, no_msg_id = msg_id pack\<rparr>
      (le_bytes 8 (unat f) @ lib_bytes (ra_data res) n k) (uint (mp_source pack))], k')
    \<and> lib_mem k' = store_bytes (lib_mem k) q (le_bytes 8 (unat f) @ lib_bytes (ra_data res) n k)"
proof -
  let ?h = "le_bytes 8 (unat f)" and ?b = "lib_bytes (ra_data res) n k"
  have mem: "lib_mem k1 = lib_mem k" using m by (auto simp: lib_malloc_def bind_iff)
  have "lib_bytes (ra_data res) n (lib_store q ?h k1) = ?b"
    using apart by (subst lib_bytes_store_outside) (auto simp: lib_bytes_def mem)
  then have s: "lib_store (q + 8) (lib_bytes (ra_data res) n (lib_store q ?h k1)) (lib_store q ?h k1) = lib_store q (?h @ ?b) k1"
    using lib_store_append [of 8 ?h q ?b k1] by simp
  let ?s = "lib_store q (?h @ ?b) k1"
  obtain k2 k3 where k: "lib_free (ra_data res) k1 = Some k2" "lib_free q k2 = Some k3" using rel by (auto simp: bind_iff)
  have f1: "lib_free (ra_data res) ?s = Some (?s\<lparr>lib_chunks := lib_chunks k2\<rparr>)"
    using lib_free_frame(1) [OF k(1), of ?s] by simp
  have f2: "lib_free q (?s\<lparr>lib_chunks := lib_chunks k2\<rparr>) = Some (?s\<lparr>lib_chunks := lib_chunks k3\<rparr>)"
    using lib_free_frame(1) [OF k(2), of "?s\<lparr>lib_chunks := lib_chunks k2\<rparr>"] lib_free_frame(2) [OF k(1) refl refl] by simp
  have b: "lib_bytes q (8 + n) ?s = ?h @ ?b" by (rule lib_bytes_store) simp
  have "lib_answer pack f rsize res k = Some ([SendMsg \<lparr>no_reserved = 0, no_message = MSG_RPC_RESULT, no_msg_id = msg_id pack\<rparr>
      (?h @ ?b) (uint (mp_source pack))], ?s\<lparr>lib_chunks := lib_chunks k3\<rparr>)"
    using m r by (simp add: lib_answer_def SIZEOF_RPC_FUNC_def lib_arg_write_def s b f1 f2 del: le_bytes.simps)
  moreover have "lib_mem (?s\<lparr>lib_chunks := lib_chunks k3\<rparr>) = store_bytes (lib_mem k) q (?h @ ?b)"
    by (simp add: lib_store_def mem)
  ultimately show ?thesis by blast
qed

section \<open>Steps of stubs and procedures\<close>

lemma int_of_arg: "- (2 ^ 31) \<le> i \<Longrightarrow> i < 2 ^ 31 \<Longrightarrow> int_of (int_arg i) = i"
proof -
  assume i: "- (2 ^ 31) \<le> i" "i < 2 ^ 31"
  have "int (int_arg i) = take_bit 32 i" by (simp add: int_arg_def take_bit_eq_mod)
  then have "int_of (int_arg i) = wrap32 i" by (simp add: int_of_def wrap32_def signed_take_bit_take_bit)
  then show ?thesis using wrap32_id [OF i] by simp
qed

lemma int_arg_less: "int_arg i < 256 ^ 4"
  by (simp add: int_arg_def nat_less_iff)

text \<open>Arguments written one behind the other.\<close>

lemma lib_arg_write_first: "lib_arg_write p n v k = (p + n, lib_store p (le_bytes n v) k)"
  by (simp add: lib_arg_write_def)

lemma lib_arg_write_next:
  "b = p + length xs \<Longrightarrow> lib_arg_write b n v (lib_store p xs k) = (p + length (xs @ le_bytes n v), lib_store p (xs @ le_bytes n v) k)"
  by (simp add: lib_arg_write_def lib_store_append)

lemma le_bytes_1: "le_bytes 1 (unat b) = [b]" for b :: u8
proof -
  have "unat b < 256" using unsigned_less [of b] by simp
  then show ?thesis by simp
qed

text \<open>Arguments read one behind the other.\<close>

lemma lib_arg_read_part:
  assumes "lib_bytes p (length bs) k = bs" and "i + n \<le> length bs"
  shows "lib_arg_read (p + i) n k = (le_val (take n (drop i bs)), p + (i + n))"
  using lib_bytes_part [OF assms] by (simp add: lib_arg_read_def)

lemma lib_malloc_frame:
  assumes "lib_malloc n k = Some (p, k')" and "lib_heap s = lib_heap k" "lib_chunks s = lib_chunks k"
  shows "lib_malloc n s = Some (p, s\<lparr>lib_chunks := lib_chunks k'\<rparr>)" and "lib_heap k' = lib_heap k"
  using assms by (auto simp: lib_malloc_def bind_iff)

lemma release_frame:
  assumes "release ps k = Some kf" and "lib_heap s = lib_heap k" "lib_chunks s = lib_chunks k"
  shows "\<exists>sf. release ps s = Some sf"
  using assms
proof (induction ps arbitrary: k s)
  case (Cons p ps)
  then obtain k1 where k1: "lib_free p k = Some k1" "release ps k1 = Some kf" by (auto simp: bind_iff)
  have f: "lib_free p s = Some (s\<lparr>lib_chunks := lib_chunks k1\<rparr>)" "lib_heap k1 = lib_heap k"
    using lib_free_frame [OF k1(1)] Cons.prems by auto
  then show ?case using Cons.IH [OF k1(2), of "s\<lparr>lib_chunks := lib_chunks k1\<rparr>"] Cons.prems(2) by auto
qed simp

lemma give_result_ok:
  assumes m: "lib_malloc (int (unat n)) k = Some (r, k1)" "r \<noteq> NULL" and s: "lib_heap s = lib_heap k" "lib_chunks s = lib_chunks k"
  shows "give_result n bs (s, x) = Some (mk_args r (int (unat n)), lib_store r bs (s\<lparr>lib_chunks := lib_chunks k1\<rparr>), x)"
  using lib_malloc_frame(1) [OF m(1) s] m(2) by (simp add: give_result_def)

lemma rpc_buffer_mem: "rpc_buffer n k = Some k' \<Longrightarrow> lib_mem k' = lib_mem k"
  by (auto simp: rpc_buffer_def lib_malloc_def lib_free_def bind_iff split: if_splits)

lemma remote_call_runs:
  assumes "remote_call service f args rsize sig c = Some ([SendMsg no body dst], rd, params, c')"
    and "ra_data args + nat (ra_size args) \<le> params \<or> params + 16 \<le> ra_data args" and "ra_size args < 2 ^ 19"
    and "lib_bytes msg (length body) k = body"
    and "lib_find_process f sv = Some p" and "p \<noteq> NULL" and "sv_infos sv p = Some info"
    and "li_args_size info = of_int (ra_size args) \<or> li_args_size info = - 1"
    and "li_return_size info = rsize \<or> li_return_size info = - 1"
  shows "dst = service" and "lib_bytes (msg + 16) (nat (ra_size args)) k = lib_bytes (ra_data args) (nat (ra_size args)) c"
    and "lib_deal_request sv pack msg (k, x) = do {
        (res, k1, x1) \<leftarrow> li_process info (uint (mp_source pack)) f (mk_args (msg + 16) (ra_size args)) (k, x);
        (eff, k2) \<leftarrow> lib_answer pack f (li_return_size info) res k1;
        Some (eff, k2, x1)
      }"
proof -
  obtain c1 where c1: "rpc_buffer rsize c = Some c1" "rpc_call_begin service f args rsize sig c1 = Some ([SendMsg no body dst], rd, params, c')"
    using assms(1) by (auto simp: remote_call_def bind_iff)
  let ?bs = "lib_bytes (ra_data args) (nat (ra_size args)) c1"
  note m = rpc_call_begin_message [OF c1(2) assms(2)]
  have b: "dst = service" "body = request_bytes f rsize ?bs" using m(1) by auto
  have "lib_bytes msg (16 + length ?bs) k = request_bytes f rsize ?bs" using assms(4) b(2) by (simp add: request_bytes_def)
  note r = lib_deal_request_runs [OF this, where sv = sv and p = p and info = info]
  show "dst = service" by (rule b(1))
  show "lib_bytes (msg + 16) (nat (ra_size args)) k = lib_bytes (ra_data args) (nat (ra_size args)) c"
    using r(2) assms m(2) lib_bytes_cong [OF rpc_buffer_mem [OF c1(1)]] by simp
  show "lib_deal_request sv pack msg (k, x) = do {
        (res, k1, x1) \<leftarrow> li_process info (uint (mp_source pack)) f (mk_args (msg + 16) (ra_size args)) (k, x);
        (eff, k2) \<leftarrow> lib_answer pack f (li_return_size info) res k1;
        Some (eff, k2, x1)
      }"
    using r(1) assms m(2) by simp
qed

text \<open>A table in which a function of the driver is registered.\<close>

definition registered :: "'x server \<Rightarrow> u64 \<Rightarrow> 'x procedure \<Rightarrow> u32 \<Rightarrow> u32 \<Rightarrow> bool" where
  "registered sv f w rsize asize \<longleftrightarrow> (\<exists>p info. lib_find_process f sv = Some p \<and> p \<noteq> NULL \<and> sv_infos sv p = Some info
     \<and> li_process info = w \<and> li_return_size info = rsize \<and> li_args_size info = asize)"

section \<open>A call and its answer\<close>

text \<open>
  C34. A procedure gets the arguments of its caller.  A call that is sent goes to its service as a request; when the
  bytes of the message arrive at a module where the function is registered with the sizes of the call, the dispatcher
  runs its procedure, with the sender as caller, on an area that holds exactly the bytes of the caller's arguments, and
  answers with its result.
\<close>

theorem procedure_gets_arguments:
  assumes "rpc_call_begin service f args rsize sig c = Some (effs, rd, params, c')" and "effs = [SendMsg no body dst]"
    and "ra_data args + nat (ra_size args) \<le> params \<or> params + 16 \<le> ra_data args" and "ra_size args < 2 ^ 19"
    and "lib_bytes msg (length body) k = body"
    and "lib_find_process f sv = Some p" and "p \<noteq> NULL" and "sv_infos sv p = Some info"
    and "li_args_size info = of_int (ra_size args) \<or> li_args_size info = - 1"
    and "li_return_size info = rsize \<or> li_return_size info = - 1"
  shows "no_message no = MSG_RPC_CALL \<and> dst = service
    \<and> lib_bytes (msg + 16) (nat (ra_size args)) k = lib_bytes (ra_data args) (nat (ra_size args)) c
    \<and> lib_deal_request sv pack msg (k, x) = do {
        (res, k1, x1) \<leftarrow> li_process info (uint (mp_source pack)) f (mk_args (msg + 16) (ra_size args)) (k, x);
        (eff, k2) \<leftarrow> lib_answer pack f (li_return_size info) res k1;
        Some (eff, k2, x1)
      }"
proof -
  let ?bs = "lib_bytes (ra_data args) (nat (ra_size args)) c"
  note m = rpc_call_begin_message [OF assms(1,3)]
  have b: "no_message no = MSG_RPC_CALL" "dst = service" "body = request_bytes f rsize ?bs" using m(1) assms(2) by auto
  have "lib_bytes msg (16 + length ?bs) k = request_bytes f rsize ?bs" using assms(5) b(3) by (simp add: request_bytes_def)
  from lib_deal_request_runs [OF this, where sv = sv and p = p and info = info] show ?thesis using assms b m(2) by simp
qed

text \<open>
  C35. A caller gets the result of the procedure.  The answer of a procedure goes to the sender of the request under the
  number of the request; when its bytes arrive at the module that waits for them, as the only call or as the second of
  the list, and the blocks of the call can be released, the caller is woken and the call returns the bytes of the result.
\<close>

theorem caller_gets_result:
  assumes "lib_answer pack f rsz res k = Some (effs, k')" and "effs = [SendMsg no body dst]"
    and "rsz = of_int (ra_size res) \<or> rsz = - 1" and "ra_size res = int (unat rsize)"
    and "\<forall>p k1. lib_malloc (int (SIZEOF_RPC_FUNC + nat (ra_size res))) k = Some (p, k1)
      \<longrightarrow> ra_data res + nat (ra_size res) \<le> p \<or> p + 8 \<le> ra_data res"
    and "waits c (h # as)" and "as = [] \<or> msgid_at c (hd as) = Some (uint (msg_id pack))"
    and "lookup_result (uint (msg_id pack)) c = Some (Some (sig, rd))"
    and "lib_bytes m (length body) c = body" and "message_no pack' = no_message no" and "msg_id pack' = no_msg_id no"
    and "unat (mp_length pack') = length body"
    and "release (take 1 as @ [rd, params]) c = Some cf"
  shows "dst = uint (mp_source pack) \<and> (\<exists>c1 c2. message_round normal irq pack' m c = Some ([UpSignal sig], c1)
    \<and> remote_return f rsize rd params c1 = Some (lib_bytes (ra_data res) (unat rsize) k, c2))"
proof -
  let ?rs = "lib_bytes (ra_data res) (nat (ra_size res)) k"
  have "effs = [SendMsg \<lparr>no_reserved = 0, no_message = MSG_RPC_RESULT, no_msg_id = msg_id pack\<rparr>
      (le_bytes 8 (unat f) @ ?rs) (uint (mp_source pack))]"
    using assms(5) by (intro lib_answer_bytes [OF assms(1,3)]) blast
  then have b: "no_message no = MSG_RPC_RESULT" "no_msg_id no = msg_id pack" "body = le_bytes 8 (unat f) @ ?rs" "dst = uint (mp_source pack)"
    using assms(2) by auto
  from result_returned [OF assms(6,8,7) _ _ _ _ _ assms(13), where pack = pack' and rs = ?rs and m = m and f = f and rsize = rsize] show ?thesis
    using assms b by simp
qed

section \<open>Witnesses\<close>

text \<open>A procedure that gives back its first argument byte in a block of its own, and a table with it.\<close>

definition demo_procedure :: "unit procedure" where
  "demo_procedure caller f args = (\<lambda>(k, x). do {
     let (v, _) = lib_arg_read (ra_data args) 1 k;
     (p, k) \<leftarrow> lib_malloc 1 k;
     Some (mk_args p 1, lib_store p [of_nat v] k, x)
   })"

definition demo_server :: "unit server" where
  "demo_server = \<lparr>sv_head = 60, sv_infos = [50 \<mapsto> \<lparr>li_func_no = 7, li_process = demo_procedure, li_return_size = 1, li_args_size = - 1\<rparr>],
     sv_nodes = [60 \<mapsto> \<lparr>nd_func_no = 7, nd_info = 50, nd_next = NULL\<rparr>]\<rparr>"

lemma demo_args: "ra_data (mk_args 300 3) = 300" "ra_size (mk_args 300 3) = 3"
  by (simp_all add: mk_args_def)

lemmas malloc_eval = lib_malloc_def lib_free_def wrap32_id malloc_def free_def find_chunk_step find_last_step example_heap_eq to_size_def
  HEAPDIV_MIN_SZ_def HEAPUNIT_SZ_def SIZEOF_CHUNK_def

lemma demo_call_begin:
  "\<exists>effs c'. rpc_call_begin 4 7 (mk_args 300 3) 1 5 (lib_store 300 [9, 8, 7] demo_lib) = Some (effs, 4192, 4128, c')"
proof -
  have f: "fixed_of 19 = 48" "fixed_of 9 = 32" "fixed_of 32 = 48" by (simp_all add: fixed_of_eq(1))
  show ?thesis
    by (simp add: rpc_call_begin_def prepare_params_def Let_def demo_args SIZEOF_RPC_FUNC_def SIZEOF_RPC_SIZE_def malloc_eval
     demo_lib_def f get_msgid_def set_rpc_result_def new_result_def SIZEOF_SIGNAL_LN_def)
qed

lemma demo_find: "lib_find_process 7 demo_server = Some 50"
  by (simp add: lib_find_process_def demo_server_def find_proccess.simps [of _ 60])

theorem procedure_gets_arguments_witness:
  "\<exists>no body c' k. rpc_call_begin 4 7 (mk_args 300 3) 1 5 (lib_store 300 [9, 8, 7] demo_lib) = Some ([SendMsg no body 4], 4192, 4128, c')
     \<and> lib_bytes 500 (length body) k = body \<and> lib_bytes 516 3 k = [9, 8, 7]"
proof -
  let ?c = "lib_store 300 [9, 8, 7] demo_lib"
  obtain effs c' where b: "rpc_call_begin 4 7 (mk_args 300 3) 1 5 ?c = Some (effs, 4192, 4128, c')" using demo_call_begin by blast
  then obtain i where e: "effs = [SendMsg \<lparr>no_reserved = 0, no_message = MSG_RPC_CALL, no_msg_id = i\<rparr>
      (request_bytes 7 1 (lib_bytes 300 3 ?c)) 4]"
    using rpc_call_begin_message(1) [OF b] by (auto simp: demo_args)
  let ?body = "request_bytes 7 1 (lib_bytes 300 3 ?c)"
  have m: "lib_bytes 500 (length ?body) (lib_store 500 ?body demo_lib) = ?body" by (rule lib_bytes_store) (rule refl)
  have "lib_bytes 516 3 (lib_store 500 ?body demo_lib) = lib_bytes 300 3 ?c"
    using procedure_gets_arguments [OF b e _ _ m demo_find]
    by (auto simp: demo_args demo_server_def)
  moreover have "lib_bytes 300 3 ?c = [9, 8, 7]" by (rule lib_bytes_store) simp
  ultimately show ?thesis using b m unfolding e by metis
qed

definition demo_result :: kmod where
  "demo_result = lib_store 4128 [9] (demo_lib\<lparr>lib_chunks := [4096 \<mapsto> \<lparr>ch_size = 2 ^ 63 - 1, ch_used = False, ch_next = 4160\<rparr>,
     4112 \<mapsto> \<lparr>ch_size = 32, ch_used = True, ch_next = NULL\<rparr>, 4160 \<mapsto> \<lparr>ch_size = 65488, ch_used = False, ch_next = NULL\<rparr>]\<rparr>)"

definition demo_caller :: kmod where
  "demo_caller = demo_lib\<lparr>lib_chunks := [4096 \<mapsto> \<lparr>ch_size = 2 ^ 63 - 1, ch_used = False, ch_next = 4224\<rparr>,
     4112 \<mapsto> \<lparr>ch_size = 48, ch_used = True, ch_next = NULL\<rparr>, 4176 \<mapsto> \<lparr>ch_size = 32, ch_used = True, ch_next = NULL\<rparr>,
     4224 \<mapsto> \<lparr>ch_size = 65440, ch_used = False, ch_next = NULL\<rparr>],
     result_head := 100, results := [100 \<mapsto> \<lparr>ln_msgid = 3, ln_signal = 5, ln_data = 4192, ln_next = NULL\<rparr>], call_buffer := 700\<rparr>"

definition demo_pack :: msgpack where
  "demo_pack = \<lparr>mp_reserved = 0, message_no = MSG_RPC_RESULT, msg_id = 3, mp_length = 9, mp_source = 12\<rparr>"

lemma demo_answer: "\<exists>effs k'. lib_answer demo_pack 7 1 (mk_args 4128 1) demo_result = Some (effs, k')"
  "lib_malloc 9 demo_result = Some (q, k1) \<Longrightarrow> q = 4176"
proof -
  have f: "fixed_of 9 = 32" by (simp add: fixed_of_eq(1))
  have a: "ra_data (mk_args 4128 1) = 4128" "ra_size (mk_args 4128 1) = 1" by (simp_all add: mk_args_def)
  show "lib_malloc 9 demo_result = Some (q, k1) \<Longrightarrow> q = 4176"
    by (simp add: demo_result_def malloc_eval f demo_lib_def Let_def)
  show "\<exists>effs k'. lib_answer demo_pack 7 1 (mk_args 4128 1) demo_result = Some (effs, k')"
    by (simp add: lib_answer_def a SIZEOF_RPC_FUNC_def lib_arg_write_def malloc_eval demo_result_def demo_lib_def f Let_def)
qed

lemma demo_release: "\<exists>cf. release [4192, 4128] (lib_store 500 bs demo_caller) = Some cf"
  by (simp add: malloc_eval demo_caller_def demo_lib_def Let_def)

theorem caller_gets_result_witness:
  "\<exists>c1 c2. message_round True True demo_pack 500 (lib_store 500 (le_bytes 8 7 @ [9]) demo_caller) = Some ([UpSignal 5], c1)
     \<and> remote_return 7 1 4192 4128 c1 = Some ([9], c2)"
proof -
  have a: "ra_data (mk_args 4128 1) = 4128" "ra_size (mk_args 4128 1) = 1" by (simp_all add: mk_args_def)
  have r: "lib_bytes 4128 1 demo_result = [9]" unfolding demo_result_def by (rule lib_bytes_store) simp
  obtain effs k' where b: "lib_answer demo_pack 7 1 (mk_args 4128 1) demo_result = Some (effs, k')" using demo_answer(1) by blast
  have ap: "\<forall>p k1. lib_malloc (int (SIZEOF_RPC_FUNC + nat (ra_size (mk_args 4128 1)))) demo_result = Some (p, k1)
      \<longrightarrow> ra_data (mk_args 4128 1) + nat (ra_size (mk_args 4128 1)) \<le> p \<or> p + 8 \<le> ra_data (mk_args 4128 1)"
    by (auto simp: a SIZEOF_RPC_FUNC_def dest: demo_answer(2))
  have e: "effs = [SendMsg \<lparr>no_reserved = 0, no_message = MSG_RPC_RESULT, no_msg_id = msg_id demo_pack\<rparr>
      (le_bytes 8 7 @ [9]) (uint (mp_source demo_pack))]"
    using lib_answer_bytes [OF b _ ap [rule_format]] r by (simp add: a del: le_bytes.simps)
  let ?c = "lib_store 500 (le_bytes 8 7 @ [9]) demo_caller"
  have w: "waits ?c [100]" by (simp add: waits_def demo_caller_def demo_lib_def result_next_def)
  have l: "lookup_result (uint (msg_id demo_pack)) ?c = Some (Some (5, 4192))"
    using lookup_result_waits [OF w] by (simp add: demo_caller_def demo_pack_def)
  have m: "lib_bytes 500 (length (le_bytes 8 7 @ [9])) ?c = le_bytes 8 7 @ [9]" by (rule lib_bytes_store) (rule refl)
  obtain cf where "release [4192, 4128] ?c = Some cf" using demo_release by blast
  then have "release (take 1 [] @ [4192, 4128]) ?c = Some cf" by simp
  from caller_gets_result [OF b e _ _ ap w _ l m _ _ _ this, where rsize = 1 and normal = True and irq = True and pack' = demo_pack]
  show ?thesis
    using r by (simp add: a demo_pack_def del: le_bytes.simps)
qed

text \<open>A call with a heap that has one free chunk: the buffer of results, the request, the answer and the waiting call.\<close>

lemma demo_remote_call:
  assumes "n \<in> {4, 10}" and "lib_heap k = lib_heap demo_lib" "lib_chunks k = lib_chunks demo_lib" "result_head k = NULL" "call_buffer k = NULL"
  shows "\<exists>effs rd c'. remote_call service f (mk_args 300 n) 1 sig k = Some (effs, rd, 4176, c')"
proof -
  have f: "fixed_of 1 = 32" "fixed_of 26 = 48" "fixed_of 20 = 48" "fixed_of 9 = 32" "fixed_of 32 = 48" by (simp_all add: fixed_of_eq(1))
  have a: "ra_size (mk_args 300 4) = 4" "ra_size (mk_args 300 10) = 10" by (simp_all add: mk_args_def)
  show ?thesis
    using assms
    by (auto simp: remote_call_def rpc_buffer_def rpc_call_begin_def prepare_params_def Let_def a SIZEOF_RPC_FUNC_def SIZEOF_RPC_SIZE_def
      malloc_eval demo_lib_def f get_msgid_def set_rpc_result_def new_result_def SIZEOF_SIGNAL_LN_def)
qed

lemma demo_server_heap:
  "\<exists>k1 k2 kf. lib_malloc 1 (lib_store p bs demo_lib) = Some (4128, k1) \<and> lib_malloc 9 k1 = Some (4176, k2) \<and> release [4128, 4176] k2 = Some kf"
proof -
  have f: "fixed_of 1 = 32" "fixed_of 9 = 32" by (simp_all add: fixed_of_eq(1))
  show ?thesis by (simp add: malloc_eval demo_lib_def f Let_def)
qed

end
