(* ===== verification/VideoStubs.thy ===== *)
theory VideoStubs
  imports LibRpc
begin

text \<open>
  The stubs of the video driver in \<^verbatim>\<open>libs/libkmod/export/video\<close>, which its clients run: a client program, the terminal,
  and the driver itself; and remote calls in the middle of a procedure.
\<close>

section \<open>The stubs\<close>

definition TEXT_WRITE_CHAR_FN :: u64 where "TEXT_WRITE_CHAR_FN = 0"
definition TEXT_WRITE_CHAR_ARGS_SIZE :: nat where "TEXT_WRITE_CHAR_ARGS_SIZE = 10"
definition TEXT_WRITE_STRING_FN :: u64 where "TEXT_WRITE_STRING_FN = 1"
definition CREATE_FRAMEBUFFER_FN :: u64 where "CREATE_FRAMEBUFFER_FN = 2"
definition CREATE_FRAMEBUFFER_ARGS_SIZE :: nat where "CREATE_FRAMEBUFFER_ARGS_SIZE = 16"
definition SWAP_FRAMEBUFFER_FN :: u64 where "SWAP_FRAMEBUFFER_FN = 3"
definition SWAP_FRAMEBUFFER_ARGS_SIZE :: nat where "SWAP_FRAMEBUFFER_ARGS_SIZE = 4"
definition TEXT_WRITE_STRING_ARGS_BASE_SIZE :: u64 where "TEXT_WRITE_STRING_ARGS_BASE_SIZE = 13"
definition VIDEO_SERVICE :: int where "VIDEO_SERVICE = 0x8003"

definition SIZEOF_CREATE_RESULT :: u32 where "SIZEOF_CREATE_RESULT = 16"

text \<open>The stubs write their arguments into a local array at \<open>buffer\<close>.\<close>

definition write_char_args :: "nat \<Rightarrow> int \<Rightarrow> int \<Rightarrow> u8 \<Rightarrow> u8 \<Rightarrow> kmod \<Rightarrow> kmod" where
  "write_char_args buffer col ln clr ch k =
     (let (buf, k) = lib_arg_write buffer 4 (int_arg col) k;
          (buf, k) = lib_arg_write buf 4 (int_arg ln) k;
          (buf, k) = lib_arg_write buf 1 (unat clr) k;
          (buf, k) = lib_arg_write buf 1 (unat ch) k
      in k)"

definition call_write_char :: "nat \<Rightarrow> int \<Rightarrow> int \<Rightarrow> u8 \<Rightarrow> u8 \<Rightarrow> u32 \<Rightarrow> kmod \<Rightarrow> (effect list \<times> ptr \<times> ptr \<times> kmod) option" where
  "call_write_char buffer col ln clr ch sig k =
     remote_call VIDEO_SERVICE TEXT_WRITE_CHAR_FN (mk_args buffer (int TEXT_WRITE_CHAR_ARGS_SIZE)) SIZEOF_BOOL sig
       (write_char_args buffer col ln clr ch k)"

text \<open>
  \<^verbatim>\<open>write_string\<close>: the address of the block goes through a variable of type \<^verbatim>\<open>char\<close>, which keeps its low byte, with its
  sign.  A write through null, or to the upper half of the addresses, where nothing is mapped, is \<open>None\<close>.
\<close>

definition string_buffer :: "ptr \<Rightarrow> ptr" where
  "string_buffer p = unat (scast (of_nat p :: u8) :: u64)"

definition call_write_string :: "int \<Rightarrow> int \<Rightarrow> u8 \<Rightarrow> nat \<Rightarrow> u32 \<Rightarrow> kmod \<Rightarrow> (effect list \<times> ptr \<times> ptr \<times> kmod) option" where
  "call_write_string col ln clr str sig k = do {
     let num = strlen (lib_mem k) str;
     let sz = num + int (unat TEXT_WRITE_STRING_ARGS_BASE_SIZE);
     (p, k) \<leftarrow> lib_malloc sz k;
     let buffer = string_buffer p;
     if buffer = NULL \<or> buffer \<ge> 2 ^ 63 then None
     else do {
       let (buf, k) = lib_arg_write buffer 4 (int_arg col) k;
       let (buf, k) = lib_arg_write buf 4 (int_arg ln) k;
       let (buf, k) = lib_arg_write buf 1 (unat clr) k;
       let (buf, k) = lib_arg_write buf 4 (int_arg num) k;
       let k = lib_store buf (lib_bytes str (nat num) k) k;
       remote_call VIDEO_SERVICE TEXT_WRITE_STRING_FN (mk_args buffer sz) SIZEOF_BOOL sig k
     }
   }"

definition call_create_framebuffer :: "nat \<Rightarrow> int \<Rightarrow> int \<Rightarrow> int \<Rightarrow> int \<Rightarrow> u32 \<Rightarrow> kmod \<Rightarrow> (effect list \<times> ptr \<times> ptr \<times> kmod) option" where
  "call_create_framebuffer buffer col ln w h sig k =
     (let (buf, k) = lib_arg_write buffer 4 (int_arg col) k;
          (buf, k) = lib_arg_write buf 4 (int_arg ln) k;
          (buf, k) = lib_arg_write buf 4 (int_arg w) k;
          (buf, k) = lib_arg_write buf 4 (int_arg h) k
      in remote_call VIDEO_SERVICE CREATE_FRAMEBUFFER_FN (mk_args buffer (int CREATE_FRAMEBUFFER_ARGS_SIZE)) SIZEOF_CREATE_RESULT sig k)"

text \<open>\<^verbatim>\<open>swap_framebuffer\<close> writes its number as a \<^verbatim>\<open>bool\<close>: one byte, 0 or 1.\<close>

definition call_swap_framebuffer :: "nat \<Rightarrow> int \<Rightarrow> u32 \<Rightarrow> kmod \<Rightarrow> (effect list \<times> ptr \<times> ptr \<times> kmod) option" where
  "call_swap_framebuffer buffer i sig k =
     (let (buf, k) = lib_arg_write buffer 1 (of_bool (i \<noteq> 0)) k
      in remote_call VIDEO_SERVICE SWAP_FRAMEBUFFER_FN (mk_args buffer (int SWAP_FRAMEBUFFER_ARGS_SIZE)) SIZEOF_BOOL sig k)"

section \<open>Calls within a procedure\<close>

text \<open>
  A procedure that makes a remote call waits for its result.  What the other threads of the module and the other tasks
  do until the waiting thread goes on is an argument, the \<open>world\<close>: from the messages that are sent and the state at the
  beginning of the wait it gives the state at its end, or \<open>None\<close> when no result arrives.  The block for the result is the
  one that was there when the call began.
\<close>

type_synonym 'x world = "effect list \<Rightarrow> kmod \<times> 'x \<Rightarrow> (kmod \<times> 'x) option"

definition nested_call :: "'x world \<Rightarrow> (kmod \<Rightarrow> (effect list \<times> ptr \<times> ptr \<times> kmod) option) \<Rightarrow> u64 \<Rightarrow> u32 \<Rightarrow> kmod \<times> 'x \<Rightarrow>
    (u8 list \<times> kmod \<times> 'x) option" where
  "nested_call w begin_call f rsize = (\<lambda>(k, x). do {
     (effs, rd, params, k) \<leftarrow> begin_call k;
     let res = call_buffer k;
     (k, x) \<leftarrow> w effs (k, x);
     (_, k) \<leftarrow> rpc_call_end f rsize res rd params k;
     Some (lib_bytes (call_buffer k) (unat rsize) k, k, x)
   })"

section \<open>What the stubs send\<close>

lemma write_char_args_eq:
  "write_char_args buffer col ln clr ch k = lib_store buffer (le_bytes 4 (int_arg col) @ le_bytes 4 (int_arg ln) @ [clr, ch]) k"
  by (simp only: write_char_args_def Let_def lib_arg_write_first [of buffer] prod.case lib_arg_write_next length_append length_le_bytes
      le_bytes_1 append_assoc append.simps)

text \<open>The stub of \<open>swap_framebuffer\<close> sets the first of its four bytes only, to 0 or 1.\<close>

lemma swap_message:
  assumes call: "call_swap_framebuffer buffer i sig c = Some (effs, rd, params, c')"
    and apart: "buffer + 4 \<le> params \<or> params + 16 \<le> buffer" and buffer: "buffer < 2 ^ 44"
  shows "\<exists>m. effs = [SendMsg \<lparr>no_reserved = 0, no_message = MSG_RPC_CALL, no_msg_id = m\<rparr>
      (request_bytes SWAP_FRAMEBUFFER_FN SIZEOF_BOOL (of_bool (i \<noteq> 0) # lib_bytes (buffer + 1) 3 c)) VIDEO_SERVICE]"
proof -
  let ?a = "mk_args buffer (int SWAP_FRAMEBUFFER_ARGS_SIZE)" and ?b = "[of_bool (i \<noteq> 0)] :: u8 list"
  have a: "ra_data ?a = buffer" "ra_size ?a = 4" using buffer by (simp_all add: mk_args_def SWAP_FRAMEBUFFER_ARGS_SIZE_def)
  obtain c1 where b: "rpc_buffer SIZEOF_BOOL (lib_store buffer ?b c) = Some c1"
      "rpc_call_begin VIDEO_SERVICE SWAP_FRAMEBUFFER_FN ?a SIZEOF_BOOL sig c1 = Some (effs, rd, params, c')"
    using call by (auto simp: call_swap_framebuffer_def lib_arg_write_def remote_call_def bind_iff)
  have "lib_mem c1 = lib_mem (lib_store buffer ?b c)"
    using b(1) by (auto simp: rpc_buffer_def bind_iff lib_malloc_def lib_free_def split: if_splits)
  then have "lib_bytes buffer 4 c1 = lib_bytes buffer 4 (lib_store buffer ?b c)" by (rule lib_bytes_cong)
  also have "\<dots> = ?b @ lib_bytes (buffer + 1) 3 c"
    by (rule nth_equalityI) (auto simp: lib_bytes_def lib_store_def nth_Cons store_bytes_outside split: nat.splits)
  finally show ?thesis using rpc_call_begin_message(1) [OF b(2)] apart a by simp
qed

text \<open>The call does not depend on the number, but on whether it is zero.\<close>

lemma swap_call_cong: "(i \<noteq> 0) = (j \<noteq> 0) \<Longrightarrow> call_swap_framebuffer buffer i sig c = call_swap_framebuffer buffer j sig c"
  by (simp add: call_swap_framebuffer_def)

end
