(* ===== verification/Video.thy ===== *)
theory Video
  imports VideoStubs ToString
begin

text \<open>
  The video driver, \<^verbatim>\<open>module/driver/video\<close>: the list of framebuffers of \<^verbatim>\<open>framebuffers.c\<close> and the text output of
  \<^verbatim>\<open>text.c\<close>.  The list is a lookup table as long as nothing is removed from it; the lemmas also show what a
  removal does.  Showing a framebuffer takes remote calls (\<open>VideoCalls\<close>).
\<close>

section \<open>The list of framebuffers\<close>

record frame =
  framebuffer :: nat
  column :: int
  line :: int
  width :: int
  height :: int

record fbnode =
  fb_id :: int
  fb_frame :: ptr
  fb_next :: ptr

record frames =
  list_head :: ptr
  fbnodes :: "ptr \<rightharpoonup> fbnode"
  fb_frames :: "ptr \<rightharpoonup> frame"

text \<open>The loop that \<^verbatim>\<open>get_framebuffer\<close>, \<^verbatim>\<open>set_framebuffer\<close> and \<^verbatim>\<open>has_framebuffer\<close> share: it stops at the node or the last one.\<close>

partial_function (option) find_node :: "(ptr \<rightharpoonup> fbnode) \<Rightarrow> int \<Rightarrow> ptr \<Rightarrow> ptr option" where
  "find_node h i p = do {
     n \<leftarrow> h p;
     if fb_next n \<noteq> NULL \<and> fb_id n \<noteq> i then find_node h i (fb_next n) else Some p
   }"

definition get_framebuffer :: "int \<Rightarrow> frames \<Rightarrow> ptr option" where
  "get_framebuffer i s =
     (if list_head s = NULL then Some NULL
      else do {
        p \<leftarrow> find_node (fbnodes s) i (list_head s);
        n \<leftarrow> fbnodes s p;
        if fb_id n \<noteq> i then Some NULL else Some (fb_frame n)
      })"

definition has_framebuffer :: "int \<Rightarrow> frames \<Rightarrow> bool option" where
  "has_framebuffer i s =
     (if list_head s = NULL then Some False
      else do {
        p \<leftarrow> find_node (fbnodes s) i (list_head s);
        n \<leftarrow> fbnodes s p;
        Some (fb_id n = i)
      })"

text \<open>
  \<^verbatim>\<open>create_frame\<close>, \<^verbatim>\<open>add_node\<close> and \<^verbatim>\<open>set_framebuffer\<close>; \<open>np\<close> and \<open>fp\<close> are the addresses that \<^verbatim>\<open>malloc\<close> returns for the node
  and the frame.  For an id that exists, the code stores the buffer where the frame belongs.
\<close>

definition create_frame :: "ptr \<Rightarrow> frame \<Rightarrow> frames \<Rightarrow> frames" where
  "create_frame fp f s = s\<lparr>fb_frames := (fb_frames s)(fp \<mapsto> f)\<rparr>"

definition add_node :: "ptr \<Rightarrow> int \<Rightarrow> ptr \<Rightarrow> frames \<Rightarrow> frames" where
  "add_node np i fp s = s\<lparr>fbnodes := (fbnodes s)(np \<mapsto> \<lparr>fb_id = i, fb_frame = fp, fb_next = list_head s\<rparr>), list_head := np\<rparr>"

definition set_framebuffer :: "ptr \<Rightarrow> ptr \<Rightarrow> int \<Rightarrow> frame \<Rightarrow> frames \<Rightarrow> frames option" where
  "set_framebuffer np fp i f s =
     (if list_head s = NULL then Some (add_node np i fp (create_frame fp f s))
      else do {
        p \<leftarrow> find_node (fbnodes s) i (list_head s);
        n \<leftarrow> fbnodes s p;
        if fb_id n \<noteq> i then Some (add_node np i fp (create_frame fp f s))
        else Some (s\<lparr>fbnodes := (fbnodes s)(p \<mapsto> n\<lparr>fb_id := i, fb_frame := framebuffer f\<rparr>)\<rparr>)
      })"

text \<open>\<^verbatim>\<open>remove_framebuffer\<close>, whose two branches are the wrong way round: a write through \<^verbatim>\<open>last\<close> when it is null.\<close>

partial_function (option) find_with_last :: "(ptr \<rightharpoonup> fbnode) \<Rightarrow> int \<Rightarrow> ptr \<Rightarrow> ptr \<Rightarrow> (ptr \<times> ptr) option" where
  "find_with_last h i lst p = do {
     n \<leftarrow> h p;
     if fb_next n \<noteq> NULL \<and> fb_id n \<noteq> i then find_with_last h i p (fb_next n) else Some (lst, p)
   }"

definition remove_framebuffer :: "int \<Rightarrow> frames \<Rightarrow> frames option" where
  "remove_framebuffer i s =
     (if list_head s = NULL then Some s
      else do {
        (lst, p) \<leftarrow> find_with_last (fbnodes s) i NULL (list_head s);
        n \<leftarrow> fbnodes s p;
        if fb_id n \<noteq> i then Some s
        else do {
          s \<leftarrow> (if lst = NULL then do {
                  l \<leftarrow> fbnodes s lst;
                  Some (s\<lparr>fbnodes := (fbnodes s)(lst \<mapsto> l\<lparr>fb_next := fb_next n\<rparr>)\<rparr>)
                } else Some (s\<lparr>list_head := fb_next n\<rparr>));
          Some (s\<lparr>fb_frames := (fb_frames s)(fb_frame n := None), fbnodes := (fbnodes s)(p := None)\<rparr>)
        }
      })"

section \<open>Text output\<close>

text \<open>
  \<^verbatim>\<open>video_info_struct\<close> and the screen: a byte of the character and one of the colour per cell.  The offset of a cell is
  computed with \<^verbatim>\<open>int\<close>s, which wrap around, and added to the address of the screen.
\<close>

record video_info =
  vi_framebuffer :: int
  vi_width :: int
  vi_height :: int
  is_graphic_mode :: bool

type_synonym memory = "int \<Rightarrow> u8"

definition cell_offset :: "int \<Rightarrow> int \<Rightarrow> int \<Rightarrow> int" where
  "cell_offset w col ln = wrap32 (wrap32 (wrap32 (ln * w) + col) * 2)"

definition write_char :: "video_info \<Rightarrow> int \<Rightarrow> int \<Rightarrow> u8 \<Rightarrow> u8 \<Rightarrow> memory \<Rightarrow> memory" where
  "write_char vi col ln clr ch m =
     m(vi_framebuffer vi + cell_offset (vi_width vi) col ln + 0 := ch,
       vi_framebuffer vi + cell_offset (vi_width vi) col ln + 1 := clr)"

text \<open>The request \<^verbatim>\<open>write_string\<close>: its size, the place, the colour, the claimed length and the characters.\<close>

primrec write_chars :: "video_info \<Rightarrow> int \<Rightarrow> int \<Rightarrow> u8 \<Rightarrow> u8 list \<Rightarrow> memory \<Rightarrow> memory" where
  "write_chars vi col ln clr [] m = m"
| "write_chars vi col ln clr (ch # chs) m = write_chars vi (wrap32 (col + 1)) ln clr chs (write_char vi col ln clr ch m)"

definition write_string :: "video_info \<Rightarrow> int \<Rightarrow> int \<Rightarrow> int \<Rightarrow> u8 \<Rightarrow> int \<Rightarrow> u8 list \<Rightarrow> memory \<Rightarrow> bool \<times> memory" where
  "write_string vi sz col ln clr num chs m =
     (if word_of_int sz < TEXT_WRITE_STRING_ARGS_BASE_SIZE then (False, m)
      else if word_of_int sz \<noteq> TEXT_WRITE_STRING_ARGS_BASE_SIZE + word_of_int num then (False, m)
      else (True, write_chars vi col ln clr (take (nat num) chs) m))"

text \<open>
  \<^verbatim>\<open>__create_framebuffer\<close>: the checks and the number of pages that it asks the system task for; then the new id
  is stored with \<^verbatim>\<open>set_framebuffer\<close> (\<open>buf\<close> is the address in the driver, \<open>shared\<close> the one in the caller).
\<close>

definition framebuffer_pages :: "video_info \<Rightarrow> int \<Rightarrow> int \<Rightarrow> int" where
  "framebuffer_pages vi w h = (let bpp = (if is_graphic_mode vi then 2 else 4);
     size = wrap32 (wrap32 (w * h) * bpp) in c_div (wrap32 (wrap32 (size + 4096) - 1)) 4096)"

definition create_framebuffer ::
  "video_info \<Rightarrow> int \<Rightarrow> int \<Rightarrow> int \<Rightarrow> int \<Rightarrow> nat \<Rightarrow> nat \<Rightarrow> ptr \<Rightarrow> ptr \<Rightarrow> int \<times> frames \<Rightarrow> ((nat \<times> int) \<times> int \<times> frames) option" where
  "create_framebuffer vi col ln w h buf shared np fp = (\<lambda>(cur_id, s).
     if w < 0 \<or> w > vi_width vi then Some ((NULL, -1), cur_id, s)
     else if h < 0 \<or> h > vi_height vi then Some ((NULL, -1), cur_id, s)
     else do {
       s \<leftarrow> set_framebuffer np fp cur_id \<lparr>framebuffer = buf, column = col, line = ln, width = w, height = h\<rparr> s;
       Some ((shared, cur_id), wrap32 (cur_id + 1), s)
     })"

text \<open>
  \<^verbatim>\<open>__swap_framebuffer\<close>: one copy for a frame of the whole screen; otherwise the cells are sent one by one to the driver
  itself.
\<close>

definition full_screen :: "video_info \<Rightarrow> frame \<Rightarrow> bool" where
  "full_screen vi f \<longleftrightarrow> column f = 0 \<and> line f = 0 \<and> width f = vi_width vi \<and> height f = vi_height vi"

primrec copy_bytes :: "nat \<Rightarrow> int \<Rightarrow> int \<Rightarrow> memory \<Rightarrow> memory" where
  "copy_bytes 0 dst src m = m"
| "copy_bytes (Suc n) dst src m = copy_bytes n (dst + 1) (src + 1) (m(dst := m src))"

text \<open>The cells of a frame, as column and line, in the order of the two loops, and where the frame keeps one.\<close>

definition cells_of :: "frame \<Rightarrow> (int \<times> int) list" where
  "cells_of f = concat (map (\<lambda>l. map (\<lambda>c. (c, l)) [0..width f - 1]) [0..height f - 1])"

definition cell_in :: "frame \<Rightarrow> int \<times> int \<Rightarrow> int" where
  "cell_in f = (\<lambda>(c, l). int (framebuffer f) + cell_offset (width f) c l)"

section \<open>Lookups\<close>

abbreviation nnext :: "(ptr \<rightharpoonup> fbnode) \<Rightarrow> ptr \<rightharpoonup> ptr" where
  "nnext h \<equiv> (\<lambda>p. map_option fb_next (h p))"

definition nid :: "(ptr \<rightharpoonup> fbnode) \<Rightarrow> ptr \<Rightarrow> int option" where
  "nid h p = map_option fb_id (h p)"

lemma find_node_hit:
  "chain (nnext h) p (as @ x # bs) \<Longrightarrow> \<forall>a\<in>set as. nid h a \<noteq> Some i \<Longrightarrow> nid h x = Some i \<Longrightarrow> find_node h i p = Some x"
proof (induction as arbitrary: p)
  case Nil
  then show ?case by (auto simp: find_node.simps nid_def split: option.splits)
next
  case (Cons a as)
  then obtain n where n: "p = a" "a \<noteq> NULL" "h a = Some n" "chain (nnext h) (fb_next n) (as @ x # bs)"
    by (auto split: option.splits)
  have "fb_next n \<noteq> NULL" using n(4) by (cases as) auto
  with Cons n show ?case by (subst find_node.simps) (auto simp: nid_def)
qed

lemma find_node_miss:
  "chain (nnext h) p (a # as) \<Longrightarrow> \<forall>b\<in>set (a # as). nid h b \<noteq> Some i \<Longrightarrow>
   \<exists>x n. find_node h i p = Some x \<and> h x = Some n \<and> fb_id n \<noteq> i"
proof (induction as arbitrary: p a)
  case Nil
  then show ?case by (auto simp: find_node.simps nid_def split: option.splits)
next
  case (Cons b as)
  then obtain n where n: "p = a" "a \<noteq> NULL" "h a = Some n" "chain (nnext h) (fb_next n) (b # as)"
    by (auto split: option.splits)
  have "fb_next n \<noteq> NULL" using n(4) by auto
  moreover have "fb_id n \<noteq> i" using Cons.prems(2) n(3) by (simp add: nid_def)
  ultimately show ?case using Cons.IH [OF n(4)] Cons.prems(2) n by (subst find_node.simps) auto
qed

definition frame_at :: "(ptr \<rightharpoonup> fbnode) \<Rightarrow> ptr \<Rightarrow> ptr" where
  "frame_at h p = (case h p of None \<Rightarrow> NULL | Some n \<Rightarrow> fb_frame n)"

definition first_frame :: "(ptr \<rightharpoonup> fbnode) \<Rightarrow> int \<Rightarrow> ptr list \<Rightarrow> ptr" where
  "first_frame h i xs = (case filter (\<lambda>a. nid h a = Some i) xs of [] \<Rightarrow> NULL | a # _ \<Rightarrow> frame_at h a)"

lemma filter_first_mem: "filter P xs = b # bs \<Longrightarrow> b \<in> set xs"
  by (induction xs) (auto split: if_splits)

lemma get_framebuffer_chain:
  assumes c: "chain (nnext (fbnodes s)) (list_head s) xs"
  shows "get_framebuffer i s = Some (first_frame (fbnodes s) i xs)"
proof (cases "\<exists>a\<in>set xs. nid (fbnodes s) a = Some i")
  case True
  then obtain as x bs where x: "xs = as @ x # bs" "nid (fbnodes s) x = Some i" "\<forall>a\<in>set as. nid (fbnodes s) a \<noteq> Some i"
    using True by (elim split_list_first_propE)
  have "filter (\<lambda>a. nid (fbnodes s) a = Some i) as = []" using x(3) by (simp add: filter_empty_conv)
  then have f: "first_frame (fbnodes s) i xs = frame_at (fbnodes s) x" using x by (simp add: first_frame_def)
  have "list_head s \<noteq> NULL" using c x(1) by (cases as) auto
  then show ?thesis
    using find_node_hit [OF c [unfolded x(1)] x(3,2)] x(2) f by (auto simp: get_framebuffer_def nid_def frame_at_def)
next
  case False
  then have f: "first_frame (fbnodes s) i xs = NULL" by (simp add: first_frame_def filter_empty_conv)
  show ?thesis
  proof (cases xs)
    case Nil
    then show ?thesis using c f by (simp add: get_framebuffer_def)
  next
    case (Cons a as)
    then have "list_head s \<noteq> NULL" using c by auto
    then show ?thesis using find_node_miss [OF c [unfolded Cons]] False Cons f by (fastforce simp: get_framebuffer_def)
  qed
qed

text \<open>A well-formed list: every node has a frame of its own.\<close>

definition frames_list :: "frames \<Rightarrow> ptr list \<Rightarrow> bool" where
  "frames_list s xs \<longleftrightarrow> chain (nnext (fbnodes s)) (list_head s) xs
     \<and> (\<forall>a\<in>set xs. frame_at (fbnodes s) a \<noteq> NULL \<and> fb_frames s (frame_at (fbnodes s) a) \<noteq> None)"

definition frames_ok :: "frames \<Rightarrow> bool" where
  "frames_ok s \<longleftrightarrow> (\<exists>xs. frames_list s xs)"

definition id_free :: "int \<Rightarrow> frames \<Rightarrow> bool" where
  "id_free i s \<longleftrightarrow> get_framebuffer i s = Some NULL"

definition lookup_frame :: "int \<Rightarrow> frames \<Rightarrow> frame option option" where
  "lookup_frame i s = do { p \<leftarrow> get_framebuffer i s; if p = NULL then Some None else map_option Some (fb_frames s p) }"

definition insert_frame :: "ptr \<Rightarrow> ptr \<Rightarrow> int \<Rightarrow> frame \<Rightarrow> frames \<Rightarrow> frames option" where
  "insert_frame np fp i f s = (if np \<noteq> NULL \<and> fp \<noteq> NULL \<and> fbnodes s np = None \<and> fb_frames s fp = None
     then set_framebuffer np fp i f s else None)"

lemma first_frame_cong: "\<forall>a\<in>set xs. h' a = h a \<Longrightarrow> first_frame h' i xs = first_frame h i xs"
proof -
  assume a: "\<forall>a\<in>set xs. h' a = h a"
  then have f: "filter (\<lambda>a. nid h' a = Some i) xs = filter (\<lambda>a. nid h a = Some i) xs"
    by (intro filter_cong) (auto simp: nid_def)
  show ?thesis
  proof (cases "filter (\<lambda>a. nid h a = Some i) xs")
    case (Cons b bs)
    then have "b \<in> set xs" by (rule filter_first_mem)
    then show ?thesis using a f Cons by (simp add: first_frame_def frame_at_def)
  qed (use f in \<open>simp add: first_frame_def\<close>)
qed

lemma insert_frame_list:
  assumes l: "frames_list s xs" and free: "id_free i s" and ins: "insert_frame np fp i f s = Some s'"
  shows "frames_list s' (np # xs)"
    and "get_framebuffer j s' = Some (if j = i then fp else first_frame (fbnodes s) j xs)"
    and "fb_frames s' = (fb_frames s)(fp \<mapsto> f)" and "fp \<noteq> NULL" and "fb_frames s fp = None"
proof -
  have c: "chain (nnext (fbnodes s)) (list_head s) xs" using l by (simp add: frames_list_def)
  have new: "np \<noteq> NULL" "fp \<noteq> NULL" "fbnodes s np = None" "fb_frames s fp = None" "set_framebuffer np fp i f s = Some s'"
    using ins by (auto simp: insert_frame_def split: if_splits)
  have none: "first_frame (fbnodes s) i xs = NULL" using free get_framebuffer_chain [OF c] by (simp add: id_free_def)
  have no: "\<forall>a\<in>set xs. nid (fbnodes s) a \<noteq> Some i"
  proof (rule ccontr)
    assume "\<not> ?thesis"
    then obtain b bs where b: "filter (\<lambda>a. nid (fbnodes s) a = Some i) xs = b # bs"
      by (cases "filter (\<lambda>a. nid (fbnodes s) a = Some i) xs") (auto simp: filter_empty_conv)
    then have "b \<in> set xs" by (rule filter_first_mem)
    then have "frame_at (fbnodes s) b \<noteq> NULL" using l unfolding frames_list_def by blast
    then show False using none b by (simp add: first_frame_def)
  qed
  have s': "s' = add_node np i fp (create_frame fp f s)"
  proof (cases xs)
    case Nil
    then have "list_head s = NULL" using c by simp
    then show ?thesis using new(5) by (simp add: set_framebuffer_def)
  next
    case (Cons a as)
    then have h: "list_head s \<noteq> NULL" using c by auto
    obtain x n where "find_node (fbnodes s) i (list_head s) = Some x" "fbnodes s x = Some n" "fb_id n \<noteq> i"
      using find_node_miss [OF c [unfolded Cons]] no Cons by blast
    then show ?thesis using h new(5) by (simp add: set_framebuffer_def)
  qed
  have nx: "np \<notin> set xs" using chain_in_dom [OF c, of np] new(3) by auto
  have c': "chain (nnext (fbnodes s')) (list_head s') (np # xs)"
  proof -
    have "chain (nnext (fbnodes s')) (list_head s) xs = chain (nnext (fbnodes s)) (list_head s) xs"
      using nx by (intro chain_cong) (auto simp: s' add_node_def create_frame_def)
    then show ?thesis using c new(1) by (simp add: s' add_node_def create_frame_def)
  qed
  have same: "\<forall>a\<in>set xs. fbnodes s' a = fbnodes s a" using nx by (auto simp: s' add_node_def create_frame_def)
  have fr: "fb_frames s' = (fb_frames s)(fp \<mapsto> f)" "frame_at (fbnodes s') np = fp" "nid (fbnodes s') np = Some i"
    by (simp_all add: s' add_node_def create_frame_def frame_at_def nid_def)
  show "frames_list s' (np # xs)"
    using l c' same fr new(2) by (auto simp: frames_list_def frame_at_def)
  show "get_framebuffer j s' = Some (if j = i then fp else first_frame (fbnodes s) j xs)"
    using get_framebuffer_chain [OF c', of j] first_frame_cong [OF same, of j] fr by (simp add: first_frame_def)
  show "fb_frames s' = (fb_frames s)(fp \<mapsto> f)" "fp \<noteq> NULL" "fb_frames s fp = None" using fr new by simp_all
qed

lemma first_frame_ok: "frames_list s xs \<Longrightarrow> first_frame (fbnodes s) i xs = NULL \<or> fb_frames s (first_frame (fbnodes s) i xs) \<noteq> None"
proof (cases "filter (\<lambda>a. nid (fbnodes s) a = Some i) xs")
  case (Cons b bs)
  assume "frames_list s xs"
  moreover have "b \<in> set xs" using Cons by (rule filter_first_mem)
  ultimately have "fb_frames s (frame_at (fbnodes s) b) \<noteq> None" unfolding frames_list_def by blast
  then show ?thesis using Cons by (simp add: first_frame_def)
qed (simp add: first_frame_def)

interpretation fb_table: lookup_table "insert_frame np fp" lookup_frame frames_ok id_free for np fp
proof unfold_locales
  fix s k v s'
  assume "frames_ok s" "id_free k s" "insert_frame np fp k v s = Some s'"
  then show "frames_ok s'" using insert_frame_list(1) unfolding frames_ok_def by blast
next
  fix s k
  assume "frames_ok s"
  then obtain xs where l: "frames_list s xs" by (auto simp: frames_ok_def)
  then have "get_framebuffer k s = Some (first_frame (fbnodes s) k xs)" by (simp add: frames_list_def get_framebuffer_chain)
  then show "lookup_frame k s \<noteq> None" using first_frame_ok [OF l, of k] by (auto simp: lookup_frame_def)
next
  fix s k v s' k'
  assume a: "frames_ok s" "id_free k s" "insert_frame np fp k v s = Some s'"
  then obtain xs where l: "frames_list s xs" by (auto simp: frames_ok_def)
  note r = insert_frame_list [OF l a(2,3)]
  have g: "get_framebuffer k' s = Some (first_frame (fbnodes s) k' xs)" using l by (simp add: frames_list_def get_framebuffer_chain)
  have "first_frame (fbnodes s) k' xs \<noteq> fp" using first_frame_ok [OF l, of k'] r(4,5) by auto
  then show "lookup_frame k' s' = (if k' = k then Some (Some v) else lookup_frame k' s)"
    using r(2) [of k'] r(3,4) g by (simp add: lookup_frame_def)
qed

section \<open>Removal\<close>

lemma find_with_last_hit:
  "chain (nnext h) p (as @ x # bs) \<Longrightarrow> \<forall>a\<in>set as. nid h a \<noteq> Some i \<Longrightarrow> nid h x = Some i \<Longrightarrow>
   find_with_last h i lst p = Some (last (lst # as), x)"
proof (induction as arbitrary: p lst)
  case Nil
  then show ?case by (auto simp: find_with_last.simps nid_def split: option.splits)
next
  case (Cons a as)
  then obtain n where n: "p = a" "a \<noteq> NULL" "h a = Some n" "chain (nnext h) (fb_next n) (as @ x # bs)"
    by (auto split: option.splits)
  have "fb_next n \<noteq> NULL" using n(4) by (cases as) auto
  with Cons n show ?case by (subst find_with_last.simps) (auto simp: nid_def)
qed

lemma chain_drop: "chain nx p (as @ x # bs) \<Longrightarrow> \<exists>q. nx x = Some q \<and> chain nx q bs \<and> x \<notin> set bs"
proof -
  assume c: "chain nx p (as @ x # bs)"
  have d: "x \<notin> set bs" using chain_distinct [OF c] by simp
  show ?thesis using c d by (induction as arbitrary: p) (auto split: option.splits)
qed

section \<open>Properties\<close>

text \<open>
  A framebuffer that is stored under a new id is found under it, with the place and size it was stored with,
  and what every other id finds is unchanged.
\<close>

theorem framebuffer_found:
  assumes "frames_ok s" and "id_free i s" and "insert_frame np fp i f s = Some s'"
  shows "lookup_frame j s' = (if j = i then Some (Some f) else lookup_frame j s) \<and> frames_ok s'"
  using fb_table.lkp_ins [OF assms] fb_table.ins_inv [OF assms] by simp_all

definition example_frames :: frames where
  "example_frames = \<lparr>list_head = 100, fbnodes = [100 \<mapsto> \<lparr>fb_id = 0, fb_frame = 200, fb_next = NULL\<rparr>],
     fb_frames = [200 \<mapsto> \<lparr>framebuffer = 4096, column = 0, line = 0, width = 80, height = 25\<rparr>]\<rparr>"

lemma example_frames_list: "frames_list example_frames [100]"
  by (simp add: frames_list_def example_frames_def frame_at_def)

theorem framebuffer_found_witness:
  "\<exists>s'. insert_frame 300 400 1 \<lparr>framebuffer = 8192, column = 1, line = 2, width = 3, height = 4\<rparr> example_frames = Some s'
     \<and> map_option (map_option column) (lookup_frame 1 s') = Some (Some 1) \<and> lookup_frame 0 s' = lookup_frame 0 example_frames"
proof -
  have ok: "frames_ok example_frames" using example_frames_list by (auto simp: frames_ok_def)
  have "get_framebuffer 1 example_frames = Some (first_frame (fbnodes example_frames) 1 [100])"
    by (rule get_framebuffer_chain) (use example_frames_list in \<open>simp add: frames_list_def\<close>)
  then have free: "id_free 1 example_frames" by (simp add: id_free_def first_frame_def nid_def example_frames_def)
  let ?f = "\<lparr>framebuffer = 8192, column = 1, line = 2, width = 3, height = 4\<rparr>"
  obtain s' where s': "insert_frame 300 400 1 ?f example_frames = Some s'"
    by (simp add: insert_frame_def set_framebuffer_def example_frames_def find_node.simps)
  show ?thesis using framebuffer_found [OF ok free s', of 1] framebuffer_found [OF ok free s', of 0] s' by auto
qed

text \<open>
  A removal does not remove one framebuffer: for the first of the list it writes through the null pointer, and
  for any other it drops all that stand before it as well.
\<close>

theorem remove_drops_prefix:
  assumes "frames_list s (as @ x # bs)" and "\<forall>a\<in>set as. nid (fbnodes s) a \<noteq> Some i" and "nid (fbnodes s) x = Some i"
    and "fbnodes s NULL = None"
  shows "if as = [] then remove_framebuffer i s = None
    else \<exists>s'. remove_framebuffer i s = Some s' \<and> chain (nnext (fbnodes s')) (list_head s') bs"
proof -
  have c: "chain (nnext (fbnodes s)) (list_head s) (as @ x # bs)" using assms(1) by (simp add: frames_list_def)
  then have h: "list_head s \<noteq> NULL" by (cases as) auto
  have f: "find_with_last (fbnodes s) i NULL (list_head s) = Some (last (NULL # as), x)"
    by (rule find_with_last_hit [OF c assms(2,3)])
  obtain n where n: "fbnodes s x = Some n" "fb_id n = i" using assms(3) by (auto simp: nid_def)
  show ?thesis
  proof (cases "as = []")
    case True
    then show ?thesis using h f n assms(4) by (simp add: remove_framebuffer_def)
  next
    case False
    have "last as \<noteq> NULL" using chain_in_dom [OF c, of "last as"] False by simp
    then have r: "remove_framebuffer i s = Some (s\<lparr>list_head := fb_next n, fb_frames := (fb_frames s)(fb_frame n := None),
        fbnodes := (fbnodes s)(x := None)\<rparr>)"
      using h f n False by (simp add: remove_framebuffer_def)
    have d: "chain (nnext (fbnodes s)) (fb_next n) bs" "x \<notin> set bs" using chain_drop [OF c] n by auto
    have "chain (nnext ((fbnodes s)(x := None))) (fb_next n) bs = chain (nnext (fbnodes s)) (fb_next n) bs"
      using d(2) by (intro chain_cong) auto
    then show ?thesis using r d(1) False by simp
  qed
qed

theorem remove_drops_prefix_witness:
  "remove_framebuffer 0 example_frames = None"
  using remove_drops_prefix [of example_frames "[]" 100 "[]" 0] example_frames_list
  by (simp add: nid_def) (simp add: example_frames_def)

end
