(* ===== verification/Fat32.thy ===== *)
theory Fat32
  imports CString
begin

text \<open>
  Files from disk: the sector reads of \<^verbatim>\<open>module/setup/disk.c\<close> and the FAT32 reader of \<^verbatim>\<open>module/setup/fs\<close> (\<^verbatim>\<open>fat32.c\<close>,
  \<^verbatim>\<open>common.c\<close>).  The lemmas show that a file is read cluster by cluster along its chain as long as the chain does
  not go back in the allocation table, what happens when it does, and how names are converted.
\<close>

section \<open>The disk\<close>

text \<open>
  A disk is a function from a sector number and an offset to a byte.  The selector's low bits choose the
  controller and the drive; a read goes through registers that hold 28 bits of the sector number.
\<close>

type_synonym disk = "nat \<Rightarrow> nat \<Rightarrow> u8"
type_synonym disks = "bool \<Rightarrow> bool \<Rightarrow> disk"

definition IDE_MASK :: nat where "IDE_MASK = 0x1"
definition SLAVE_MASK :: nat where "SLAVE_MASK = 0x2"

definition MAKE_DEVICE_REG :: "u32 \<Rightarrow> u32 \<Rightarrow> u32 \<Rightarrow> u8" where
  "MAKE_DEVICE_REG mode device lba = ucast (push_bit 6 mode OR push_bit 4 device OR (lba AND 0xF) OR 0xA0)"

text \<open>The registers that \<^verbatim>\<open>read_ide0_sector\<close> and \<^verbatim>\<open>read_ide1_sector\<close> write, and the sector the drive reads then.\<close>

record ide_regs =
  ide_device :: u8
  ide_low :: u8
  ide_mid :: u8
  ide_high :: u8

definition sector_regs :: "u32 \<Rightarrow> bool \<Rightarrow> ide_regs" where
  "sector_regs lba slave = \<lparr>ide_device = MAKE_DEVICE_REG 1 (of_bool slave) (drop_bit 24 lba), ide_low = ucast (lba AND 0xFF),
     ide_mid = ucast (drop_bit 8 lba AND 0xFF), ide_high = ucast (drop_bit 16 lba AND 0xFF)\<rparr>"

definition addressed :: "ide_regs \<Rightarrow> nat" where
  "addressed r = unat (ide_low r) + 2 ^ 8 * unat (ide_mid r) + 2 ^ 16 * unat (ide_high r) + 2 ^ 24 * (unat (ide_device r) mod 16)"

definition drive :: "ide_regs \<Rightarrow> bool" where
  "drive r = bit (ide_device r) 4"

definition read_ide_sector :: "disks \<Rightarrow> bool \<Rightarrow> u32 \<Rightarrow> bool \<Rightarrow> u8 list" where
  "read_ide_sector ds second lba slave = (let r = sector_regs lba slave in map (ds second (drive r) (addressed r)) [0..<512])"

definition read_sector :: "disks \<Rightarrow> u32 \<Rightarrow> nat \<Rightarrow> nat \<Rightarrow> u8 list" where
  "read_sector ds lba num selector =
     concat (map (\<lambda>i. read_ide_sector ds (selector AND IDE_MASK \<noteq> 0) (lba + of_nat i) (selector AND SLAVE_MASK \<noteq> 0)) [0..<num])"

text \<open>Little-endian fields of a block.\<close>

definition bytes_at :: "u8 list \<Rightarrow> nat \<Rightarrow> nat \<Rightarrow> u8 list" where
  "bytes_at bs off n = take n (drop off bs)"

definition field :: "u8 list \<Rightarrow> nat \<Rightarrow> nat \<Rightarrow> nat" where
  "field bs off n = le_val (bytes_at bs off n)"

section \<open>The file system\<close>

record fat32_info =
  oem_name :: "u8 list"
  bytes_per_sector :: nat
  sectors_per_clus :: nat
  reversed_sectors :: nat
  num_fats :: nat
  media :: nat
  sectors_per_track :: nat
  heads :: nat
  hidden_sectors :: nat
  total_sectors :: nat
  fat_sectors :: nat
  version :: nat
  root_directory_start_clus :: nat
  fsinfo_sectors :: nat
  backup_boot_sectors :: nat
  drive_no :: nat
  boot_sig :: nat
  volumn_id :: nat
  volumn_label :: "u8 list"
  file_system :: "u8 list"

text \<open>The copy of the superblock into \<^verbatim>\<open>struct fat32_info_struct\<close>, which is packed.\<close>

definition info_of :: "u8 list \<Rightarrow> fat32_info" where
  "info_of b = \<lparr>oem_name = bytes_at b 0x03 8, bytes_per_sector = field b 0x0B 2, sectors_per_clus = field b 0x0D 1,
     reversed_sectors = field b 0x0E 2, num_fats = field b 0x10 1, media = field b 0x15 1, sectors_per_track = field b 0x18 2,
     heads = field b 0x1A 2, hidden_sectors = field b 0x1C 4, total_sectors = field b 0x20 4, fat_sectors = field b 0x24 4,
     version = field b 0x2A 2, root_directory_start_clus = field b 0x2C 4, fsinfo_sectors = field b 0x30 2,
     backup_boot_sectors = field b 0x32 2, drive_no = field b 0x40 1, boot_sig = field b 0x42 1, volumn_id = field b 0x43 4,
     volumn_label = bytes_at b 0x47 11, file_system = bytes_at b 0x52 8\<rparr>"

record fat32_context =
  selector :: nat
  start_lba :: u32
  info :: fat32_info
  fat1_start :: u32
  data_start :: u32
  root_directory :: nat
  fat_buffer :: "u8 list"
  buffer_start :: int

definition FAT32_FILE_ENTRY_SIZE :: nat where "FAT32_FILE_ENTRY_SIZE = 0x20"
definition FAT32_FILE_ENTRIES_PER_SECTOR :: nat where "FAT32_FILE_ENTRIES_PER_SECTOR = 0x200 div FAT32_FILE_ENTRY_SIZE"
definition FAT32_ENTRY_SIZE :: nat where "FAT32_ENTRY_SIZE = 4"
definition FAT32_ENTRIES_PER_SECTOR :: nat where "FAT32_ENTRIES_PER_SECTOR = 0x200 div FAT32_ENTRY_SIZE"
definition FAT_BUFFER_SECTORS :: nat where "FAT_BUFFER_SECTORS = 4"

lemmas fat_defs = FAT32_FILE_ENTRY_SIZE_def FAT32_FILE_ENTRIES_PER_SECTOR_def FAT32_ENTRY_SIZE_def
  FAT32_ENTRIES_PER_SECTOR_def FAT_BUFFER_SECTORS_def

text \<open>
  \<^verbatim>\<open>get_fat32_entry\<close>.  The buffer holds four sectors of the table from \<^verbatim>\<open>buffer_start\<close> on; a read outside the
  buffer is \<open>None\<close>.
\<close>

definition get_fat32_entry :: "disks \<Rightarrow> u32 \<Rightarrow> fat32_context \<Rightarrow> (u32 \<times> fat32_context) option" where
  "get_fat32_entry ds lst c =
     (let num = int (unat lst div FAT32_ENTRIES_PER_SECTOR);
          sector = of_int num + fat1_start c;
          off = unat lst mod FAT32_ENTRIES_PER_SECTOR;
          c = (if num \<ge> buffer_start c + int FAT_BUFFER_SECTORS
               then c\<lparr>fat_buffer := read_sector ds sector 4 (selector c), buffer_start := num\<rparr> else c);
          num_off = num - buffer_start c;
          offset = num_off * int (bytes_per_sector (info c)) + int off * 4
      in if 0 \<le> offset \<and> nat offset + 4 \<le> length (fat_buffer c)
         then Some (of_nat (field (fat_buffer c) (nat offset) 4), c) else None)"

text \<open>
  \<^verbatim>\<open>__load_file\<close>: every cluster is read to the destination, which moves on by a cluster.  A chain that does
  not end is \<open>None\<close>.
\<close>

definition cluster :: "disks \<Rightarrow> fat32_context \<Rightarrow> u32 \<Rightarrow> u8 list" where
  "cluster ds c clus = read_sector ds (data_start c + (clus - 2) * of_nat (sectors_per_clus (info c)))
     (sectors_per_clus (info c)) (selector c)"

partial_function (option) load_clusters :: "disks \<Rightarrow> u32 \<Rightarrow> nat \<Rightarrow> memory \<Rightarrow> fat32_context \<Rightarrow> (memory \<times> fat32_context) option" where
  "load_clusters ds clus dst m c =
     (if \<not> clus < 0x0FFFFFF0 then Some (m, c)
      else do {
        let m = store_bytes m dst (cluster ds c clus);
        (clus, c) \<leftarrow> get_fat32_entry ds clus c;
        load_clusters ds clus (dst + sectors_per_clus (info c) * bytes_per_sector (info c)) m c
      })"

text \<open>\<^verbatim>\<open>get_partition\<close>: the start of a partition in the table of sector 0.\<close>

definition PARTITION_TABLE_OFFSET :: nat where
  "PARTITION_TABLE_OFFSET = 0x1BE"

definition get_partition :: "disks \<Rightarrow> nat \<Rightarrow> nat \<Rightarrow> u32" where
  "get_partition ds sel number =
     of_nat (field (bytes_at (read_sector ds 0 1 sel) (PARTITION_TABLE_OFFSET + number * 16) 16) 8 4)"

text \<open>\<^verbatim>\<open>load_fat32_fs\<close>; \<open>root\<close> is the block that \<^verbatim>\<open>malloc\<close> returned for the root directory.\<close>

definition load_fat32_fs :: "disks \<Rightarrow> nat \<Rightarrow> u32 \<Rightarrow> nat \<Rightarrow> memory \<Rightarrow> (memory \<times> fat32_context) option" where
  "load_fat32_fs ds sel lba root m =
     (let i = info_of (read_sector ds lba 1 sel);
          fat1 = of_nat (reversed_sectors i) + lba
      in load_clusters ds (of_nat (root_directory_start_clus i)) root m
           \<lparr>selector = sel, start_lba = lba, info = i, fat1_start = fat1,
            data_start = fat1 + of_nat (num_fats i) * of_nat (fat_sectors i), root_directory = root,
            fat_buffer = read_sector ds fat1 4 sel, buffer_start = 0\<rparr>)"

text \<open>
  \<^verbatim>\<open>get_file_start_clus\<close>: a name of eleven characters is compared with the bytes of the root directory.  The loop
  goes on by the size of an entry of the allocation table, four bytes, and not by that of a directory entry.
\<close>

definition file_entry :: "memory \<Rightarrow> nat \<Rightarrow> u8 list" where
  "file_entry m e = map m [e..<e + FAT32_FILE_ENTRY_SIZE]"

primrec find_entry :: "memory \<Rightarrow> nat \<Rightarrow> u8 list \<Rightarrow> nat list \<Rightarrow> u32" where
  "find_entry m root name [] = - 1"
| "find_entry m root name (i # is) =
     (let e = file_entry m (root + i * FAT32_ENTRY_SIZE) in
      if bytes_at e 0 11 = name then push_bit 16 (of_nat (field e 0x14 2)) + of_nat (field e 0x1A 2)
      else find_entry m root name is)"

definition get_file_start_clus :: "memory \<Rightarrow> fat32_context \<Rightarrow> u8 list \<Rightarrow> u32" where
  "get_file_start_clus m c name =
     (if length name \<noteq> 11 then - 1 else find_entry m (root_directory c) name [0..<16 * FAT32_ENTRIES_PER_SECTOR])"

text \<open>
  \<^verbatim>\<open>convert\<close>: the part before the dot is stored before its length is tested, so the loop can leave the buffer of
  twelve bytes (\<open>None\<close>); \<open>Some None\<close> is the null pointer.
\<close>

definition upper :: "u8 \<Rightarrow> u8" where
  "upper ch = of_int (toupper (sint ch))"

primrec convert_base :: "memory \<Rightarrow> nat \<Rightarrow> nat \<Rightarrow> (u8 list \<times> nat) option" where
  "convert_base m 0 name = (if char_at m name = 46 then Some ([], name) else None)"
| "convert_base m (Suc room) name =
     (if char_at m name = 46 then Some ([], name)
      else do { (xs, p) \<leftarrow> convert_base m room (name + 1); Some (upper (m name) # xs, p) })"

definition convert :: "memory \<Rightarrow> nat \<Rightarrow> u8 list option option" where
  "convert m name = do {
     (base, dot) \<leftarrow> convert_base m 12 name;
     Some (if length base > 8 then None
           else Some (base @ replicate (8 - length base) 32 @ map (\<lambda>i. upper (m (dot + 1 + i))) [0..<3]))
   }"

text \<open>\<^verbatim>\<open>load_fat32_file\<close>, with the converted name up to its terminator.\<close>

definition load_fat32_file :: "disks \<Rightarrow> nat \<Rightarrow> nat \<Rightarrow> memory \<Rightarrow> fat32_context \<Rightarrow> (bool \<times> memory \<times> fat32_context) option" where
  "load_fat32_file ds name dst m c = do {
     r \<leftarrow> convert m name;
     (case r of None \<Rightarrow> Some (False, m, c)
      | Some n \<Rightarrow>
          let clus = get_file_start_clus m c (takeWhile (\<lambda>b. b \<noteq> 0) n) in
          if clus = - 1 then Some (False, m, c)
          else do { (m, c) \<leftarrow> load_clusters ds clus dst m c; Some (True, m, c) })
   }"

text \<open>\<^verbatim>\<open>get_fs_type\<close> and \<^verbatim>\<open>load_fs\<close> of \<^verbatim>\<open>common.c\<close>; the inner \<open>None\<close> is the null pointer.\<close>

datatype FS_TYPES = FS_UNKNOWN | FS_FAT32 | FS_NTFS | FS_EXT2

definition get_fs_type :: "disks \<Rightarrow> nat \<Rightarrow> nat \<Rightarrow> FS_TYPES \<times> u32" where
  "get_fs_type ds sel number =
     (let lba = get_partition ds sel number;
          bpb_filesystem = takeWhile (\<lambda>b. b \<noteq> 0) (bytes_at (read_sector ds lba 1 sel) 0x36 8)
      in (if bpb_filesystem \<noteq> [0x66, 0x61, 0x74, 0x33, 0x32] then FS_FAT32 else FS_UNKNOWN, lba))"

definition load_fs :: "disks \<Rightarrow> nat \<Rightarrow> nat \<Rightarrow> nat \<Rightarrow> memory \<Rightarrow> (memory \<times> fat32_context) option option" where
  "load_fs ds sel number root m =
     (let (type, lba) = get_fs_type ds sel number in
      if type = FS_FAT32 then (case load_fat32_fs ds sel lba root m of None \<Rightarrow> None | Some r \<Rightarrow> Some (Some r))
      else Some None)"

section \<open>Properties\<close>

subsection \<open>Sectors\<close>

lemma mask_numerals: "(0xFF :: u32) = mask 8" "(0xF :: u32) = mask 4" "(0xA0 :: u32) = push_bit 5 5"
  by (simp_all add: mask_eq_exp_minus_1)

lemma low_byte: "unat (ucast ((w :: u32) AND 0xFF) :: u8) = unat w mod 256"
proof -
  have "(ucast (w AND 0xFF) :: u8) = ucast w"
    unfolding mask_numerals by (rule bit_word_eqI) (auto simp: bit_simps)
  then show ?thesis
    by (simp add: unsigned_ucast_eq take_bit_eq_mod)
qed

lemma small_bits:
  assumes "n < 4" shows "\<not> bit (64 :: u32) n" "\<not> bit (160 :: u32) n" "\<not> bit (64 :: int) n" "\<not> bit (160 :: int) n"
    "\<not> bit (64 :: nat) n" "\<not> bit (160 :: nat) n"
proof -
  have "n = 0 \<or> n = 1 \<or> n = 2 \<or> n = 3"
    using assms by arith
  then show "\<not> bit (64 :: u32) n" "\<not> bit (160 :: u32) n" "\<not> bit (64 :: int) n" "\<not> bit (160 :: int) n"
    "\<not> bit (64 :: nat) n" "\<not> bit (160 :: nat) n"
    by auto
qed

lemma device_bits:
  fixes x :: u32
  shows "take_bit 4 (MAKE_DEVICE_REG 1 (of_bool s) x) = ucast (take_bit 4 x)"
  and "bit (MAKE_DEVICE_REG 1 (of_bool s) x) 4 = s"
  unfolding MAKE_DEVICE_REG_def mask_numerals
  by (rule bit_word_eqI) (auto simp: bit_simps bit_1_iff small_bits)

lemma addressed_sector: "addressed (sector_regs lba slave) = unat lba mod 2 ^ 28"
proof -
  let ?n = "unat lba"
  have drop: "unat (drop_bit n lba) = ?n div 2 ^ n" for n
    by (subst unat_drop_bit_eq) (rule drop_bit_eq_div)
  have dev: "unat (ide_device (sector_regs lba slave)) mod 16 = ?n div 2 ^ 24 mod 16"
  proof -
    have "unat (take_bit 4 (ide_device (sector_regs lba slave))) = unat (ucast (take_bit 4 (drop_bit 24 lba)) :: u8)"
      by (simp only: sector_regs_def ide_regs.simps device_bits(1))
    moreover have "take_bit 4 n = n mod 16" for n :: nat
      by (simp add: take_bit_eq_mod)
    ultimately show ?thesis
      by (simp add: unsigned_ucast_eq unsigned_take_bit_eq drop)
  qed
  have "addressed (sector_regs lba slave) = ?n mod 256 + 256 * (?n div 256 mod 256) + 65536 * (?n div 65536 mod 256)
      + 16777216 * (?n div 16777216 mod 16)"
    using dev by (simp add: addressed_def sector_regs_def low_byte drop)
  also have "\<dots> = ?n mod (256 * (256 * (256 * 16)))"
    by (simp only: mod_mult2_eq div_mult2_eq [symmetric]) simp
  finally show ?thesis
    by simp
qed

lemma drive_sector: "drive (sector_regs lba slave) = slave"
  by (simp add: drive_def sector_regs_def device_bits(2))


lemma read_ide_sector_linear:
  "unat lba < 2 ^ 28 \<Longrightarrow> read_ide_sector ds second lba slave = map (ds second slave (unat lba)) [0..<512]"
  by (simp add: read_ide_sector_def Let_def drive_sector addressed_sector)

lemma length_read_ide_sector [simp]: "length (read_ide_sector ds second lba slave) = 512"
  by (simp add: read_ide_sector_def Let_def)

lemma length_concat_blocks:
  "(\<And>x. x \<in> set xs \<Longrightarrow> length (f x) = k) \<Longrightarrow> length (concat (map f xs)) = k * length xs"
  by (induction xs) auto

lemma length_read_sector [simp]: "length (read_sector ds lba num sel) = 512 * num"
  by (simp add: read_sector_def length_concat_blocks [where k = 512])

lemma read_sector_1: "read_sector ds lba 1 sel = read_ide_sector ds (sel AND IDE_MASK \<noteq> 0) lba (sel AND SLAVE_MASK \<noteq> 0)"
  by (simp add: read_sector_def)

lemma drop_blocks:
  assumes "\<And>x. length (f x) = k"
  shows "drop (k * i) (concat (map f xs)) = concat (map f (drop i xs))"
proof (induction i arbitrary: xs)
  case (Suc i)
  then show ?case
    using assms by (cases xs) (auto simp: drop_append)
qed simp

lemma field_in_sector:
  assumes "i < num" and "off + n \<le> 512"
  shows "field (read_sector ds lba num sel) (512 * i + off) n = field (read_sector ds (lba + of_nat i) 1 sel) off n"
proof -
  let ?f = "\<lambda>i. read_ide_sector ds (sel AND IDE_MASK \<noteq> 0) (lba + of_nat i) (sel AND SLAVE_MASK \<noteq> 0)"
  have "drop (512 * i) (read_sector ds lba num sel) = concat (map ?f [i..<num])"
    unfolding read_sector_def by (subst drop_blocks) simp_all
  also have "\<dots> = ?f i @ concat (map ?f [Suc i..<num])"
    using assms(1) by (simp add: upt_conv_Cons)
  finally have "drop (512 * i + off) (read_sector ds lba num sel) = drop off (?f i) @ concat (map ?f [Suc i..<num])"
    using assms(2) by (simp add: add.commute flip: drop_drop)
  then show ?thesis
    using assms(2) by (simp add: field_def bytes_at_def read_sector_1 del: One_nat_def)
qed


lemma field_sector:
  assumes "unat lba < 2 ^ 28" and "off + n \<le> 512"
  shows "field (read_sector ds lba 1 sel) off n =
    le_val (map (ds (sel AND IDE_MASK \<noteq> 0) (sel AND SLAVE_MASK \<noteq> 0) (unat lba)) [off..<off + n])"
  using assms by (simp add: field_def bytes_at_def read_sector_1 read_ide_sector_linear drop_map take_map drop_upt del: One_nat_def)

subsection \<open>The allocation table\<close>

text \<open>The entry of a cluster as it stands on the disk, and the buffer as a window of the table.\<close>

definition fat_next :: "disks \<Rightarrow> fat32_context \<Rightarrow> u32 \<Rightarrow> u32" where
  "fat_next ds c clus = of_nat (field (read_sector ds (fat1_start c + of_nat (unat clus div 128)) 1 (selector c)) (unat clus mod 128 * 4) 4)"

definition window :: "disks \<Rightarrow> fat32_context \<Rightarrow> nat \<Rightarrow> bool" where
  "window ds c b \<longleftrightarrow> bytes_per_sector (info c) = 512 \<and> buffer_start c = int b \<and>
     fat_buffer c = read_sector ds (fat1_start c + of_nat b) 4 (selector c)"

definition same_disk :: "fat32_context \<Rightarrow> fat32_context \<Rightarrow> bool" where
  "same_disk c c' \<longleftrightarrow> (\<exists>buf start. c' = c\<lparr>fat_buffer := buf, buffer_start := start\<rparr>)"

lemma same_disk_refl [simp]: "same_disk c c"
  unfolding same_disk_def by (rule exI [where x = "fat_buffer c"], rule exI [where x = "buffer_start c"]) simp

lemma same_disk_trans [trans]: "same_disk a b \<Longrightarrow> same_disk b c \<Longrightarrow> same_disk a c"
  unfolding same_disk_def by clarsimp blast

lemma same_disk_simps:
  assumes "same_disk c c'"
  shows "selector c' = selector c" "info c' = info c" "fat1_start c' = fat1_start c" "data_start c' = data_start c"
    "root_directory c' = root_directory c" "cluster ds c' = cluster ds c" "fat_next ds c' = fat_next ds c"
  using assms by (auto simp: same_disk_def cluster_def fat_next_def fun_eq_iff)

lemma get_fat32_entry_window:
  assumes w: "window ds c b" and b: "b \<le> unat clus div 128"
  obtains c' b' where "get_fat32_entry ds clus c = Some (fat_next ds c clus, c')" and "window ds c' b'"
    and "b' \<le> unat clus div 128" and "unat clus div 128 < b' + 4" and "same_disk c c'"
proof -
  define num where "num = unat clus div 128"
  define off where "off = unat clus mod 128"
  have off: "off < 128" and bn: "b \<le> num"
    using b by (simp_all add: off_def num_def)
  show ?thesis
  proof (cases "b + 4 \<le> num")
    case True
    let ?c = "c\<lparr>fat_buffer := read_sector ds (of_nat num + fat1_start c) 4 (selector c), buffer_start := int num\<rparr>"
    have "get_fat32_entry ds clus c = Some (of_nat (field (read_sector ds (of_nat num + fat1_start c) 4 (selector c)) (off * 4) 4), ?c)"
      using True off w by (simp add: get_fat32_entry_def Let_def window_def fat_defs num_def [symmetric] off_def [symmetric] nat_mult_distrib)
    also have "field (read_sector ds (of_nat num + fat1_start c) 4 (selector c)) (off * 4) 4
        = field (read_sector ds (of_nat num + fat1_start c) 1 (selector c)) (off * 4) 4"
      using field_in_sector [of 0 4 "off * 4" 4 ds "of_nat num + fat1_start c" "selector c"] off by simp
    finally have "get_fat32_entry ds clus c = Some (fat_next ds c clus, ?c)"
      by (simp add: fat_next_def num_def off_def add.commute)
    moreover have "window ds ?c num"
      using w by (simp add: window_def add.commute)
    moreover have "same_disk c ?c"
      by (auto simp: same_disk_def)
    ultimately show ?thesis
      using that [of ?c num] by (simp add: num_def)
  next
    case False
    define i where "i = num - b"
    have i: "i < 4" "num = b + i"
      using False bn by (simp_all add: i_def)
    have "get_fat32_entry ds clus c = Some (of_nat (field (fat_buffer c) (512 * i + off * 4) 4), c)"
    proof -
      have "nat (int i * 512 + int off * 4) = 512 * i + off * 4"
        by (simp add: nat_eq_iff)
      then show ?thesis
        using i off w by (simp add: get_fat32_entry_def Let_def window_def fat_defs num_def [symmetric] off_def [symmetric])
    qed
    also have "field (fat_buffer c) (512 * i + off * 4) 4
        = field (read_sector ds (fat1_start c + of_nat b + of_nat i) 1 (selector c)) (off * 4) 4"
      using w i(1) off by (simp only: window_def field_in_sector)
    finally have "get_fat32_entry ds clus c = Some (fat_next ds c clus, c)"
      by (simp add: fat_next_def num_def [symmetric] off_def i(2) add.assoc)
    then show ?thesis
      using that [of c b] w b False by (simp add: num_def)
  qed
qed


text \<open>A cluster below the window is not found: the buffer only moves up.\<close>

lemma get_fat32_entry_below:
  assumes "window ds c b" and "unat clus div 128 < b"
  shows "get_fat32_entry ds clus c = None"
proof -
  have "int (unat clus div 128) - int b \<le> - 1"
    using assms(2) by linarith
  moreover have "int (unat clus mod 128) < 128"
    by (simp add: zmod_int)
  moreover have "a * 512 + r * 4 < 0" if "a \<le> - 1" and "r < 128" for a r :: int
    using that by linarith
  ultimately have "(int (unat clus div 128) - int b) * 512 + int (unat clus mod 128) * 4 < 0"
    by blast
  then show ?thesis
    using assms by (simp add: get_fat32_entry_def Let_def window_def fat_defs not_le)
qed

subsection \<open>Files\<close>

text \<open>The clusters of a file, from the disk.\<close>

fun file_clusters :: "disks \<Rightarrow> fat32_context \<Rightarrow> u32 list \<Rightarrow> bool" where
  "file_clusters ds c [] \<longleftrightarrow> False"
| "file_clusters ds c [k] \<longleftrightarrow> k < 0x0FFFFFF0 \<and> \<not> fat_next ds c k < 0x0FFFFFF0"
| "file_clusters ds c (k # l # ks) \<longleftrightarrow> k < 0x0FFFFFF0 \<and> fat_next ds c k = l \<and> file_clusters ds c (l # ks)"

definition file_bytes :: "disks \<Rightarrow> fat32_context \<Rightarrow> u32 list \<Rightarrow> u8 list" where
  "file_bytes ds c ks = concat (map (cluster ds c) ks)"

lemma file_clusters_cong: "same_disk c c' \<Longrightarrow> file_clusters ds c' ks = file_clusters ds c ks"
  by (induction ds c ks rule: file_clusters.induct) (simp_all add: same_disk_simps)

lemma length_cluster [simp]: "length (cluster ds c k) = sectors_per_clus (info c) * 512"
  by (simp add: cluster_def)

lemma load_clusters_chain:
  assumes "file_clusters ds c ks" and "window ds c b"
    and "sorted (b # map (\<lambda>k. unat k div 128) ks)"
  shows "\<exists>c' b'. load_clusters ds (hd ks) dst m c = Some (store_bytes m dst (file_bytes ds c ks), c') \<and>
    window ds c' b' \<and> unat (last ks) div 128 < b' + 4 \<and> same_disk c c'"
  using assms
proof (induction ks arbitrary: dst m c b)
  case (Cons k ks)
  have k: "k < 0x0FFFFFF0"
    using Cons.prems(1) by (cases ks) auto
  obtain c1 b1 where e: "get_fat32_entry ds k c = Some (fat_next ds c k, c1)" and w: "window ds c1 b1"
    and b1: "b1 \<le> unat k div 128" "unat k div 128 < b1 + 4" and sd: "same_disk c c1"
    using get_fat32_entry_window [OF Cons.prems(2), of k] Cons.prems(3) by auto
  have bps: "bytes_per_sector (info c) = 512"
    using Cons.prems(2) by (simp add: window_def)
  have step: "load_clusters ds k dst m c = load_clusters ds (fat_next ds c k) (dst + sectors_per_clus (info c) * 512)
      (store_bytes m dst (cluster ds c k)) c1"
    using k bps by (subst load_clusters.simps) (simp add: e same_disk_simps [OF sd])
  show ?case
  proof (cases ks)
    case Nil
    then have "load_clusters ds k dst m c = Some (store_bytes m dst (cluster ds c k), c1)"
      using Cons.prems(1) step by (simp add: load_clusters.simps [of ds "fat_next ds c k"])
    then show ?thesis
      using w b1 sd Nil by (auto simp: file_bytes_def)
  next
    case (Cons l ks')
    have "file_clusters ds c1 ks" and "fat_next ds c k = hd ks"
      using Cons.prems(1) Cons by (auto simp: file_clusters_cong [OF sd])
    moreover have "sorted (b1 # map (\<lambda>k. unat k div 128) ks)"
      using Cons.prems(3) b1 Cons by auto
    ultimately obtain c' b' where "load_clusters ds (fat_next ds c k) (dst + sectors_per_clus (info c) * 512)
        (store_bytes m dst (cluster ds c k)) c1 =
        Some (store_bytes (store_bytes m dst (cluster ds c k)) (dst + sectors_per_clus (info c) * 512) (file_bytes ds c1 ks), c')"
      and "window ds c' b'" and "unat (last ks) div 128 < b' + 4" and "same_disk c1 c'"
      using Cons.IH [OF _ w] by metis
    moreover have "file_bytes ds c1 ks = file_bytes ds c ks" and "file_bytes ds c (k # ks) = cluster ds c k @ file_bytes ds c ks"
      by (simp_all add: file_bytes_def same_disk_simps [OF sd])
    ultimately show ?thesis
      using step Cons same_disk_trans [OF sd] by (auto simp: store_bytes_append)
  qed
qed simp


subsection \<open>The directory\<close>

text \<open>The bytes the search compares with a name in round \<open>i\<close>, and the cluster it reads there.\<close>

definition name_at :: "memory \<Rightarrow> nat \<Rightarrow> nat \<Rightarrow> u8 list" where
  "name_at m root i = map m [root + 4 * i..<root + 4 * i + 11]"

definition clus_at :: "memory \<Rightarrow> nat \<Rightarrow> nat \<Rightarrow> u32" where
  "clus_at m root i = push_bit 16 (of_nat (le_val (map m [root + 4 * i + 20..<root + 4 * i + 22])))
     + of_nat (le_val (map m [root + 4 * i + 26..<root + 4 * i + 28]))"

lemma find_entry_step:
  "find_entry m root name (i # is) = (if name_at m root i = name then clus_at m root i else find_entry m root name is)"
  by (simp add: Let_def file_entry_def field_def bytes_at_def fat_defs take_map drop_map drop_upt take_upt name_at_def
      clus_at_def add.commute mult.commute)

lemma find_entry_first:
  assumes "name_at m root j = name" and "\<forall>i\<in>set is. name_at m root i \<noteq> name"
  shows "find_entry m root name (is @ j # js) = clus_at m root j"
  using assms(2) by (induction "is") (simp_all add: find_entry_step assms(1) del: find_entry.simps(2))

text \<open>
  An entry of the directory is found when no window of eleven bytes at a multiple of four before it shows the name.
\<close>

lemma get_file_start_clus_first:
  assumes "name_at m (root_directory c) j = name" and "\<forall>i<j. name_at m (root_directory c) i \<noteq> name" and "j < 2048"
  shows "get_file_start_clus m c name = clus_at m (root_directory c) j"
proof -
  obtain d where d: "16 * FAT32_ENTRIES_PER_SECTOR = j + Suc d"
    using less_imp_Suc_add [OF assms(3)] by (auto simp: fat_defs)
  have "[0..<16 * FAT32_ENTRIES_PER_SECTOR] = [0..<j] @ j # [Suc j..<j + Suc d]"
    unfolding d by (subst upt_add_eq_append) (simp_all add: upt_conv_Cons)
  moreover have "length name = 11" using assms(1) by (auto simp: name_at_def)
  ultimately show ?thesis using assms(1,2) by (simp add: get_file_start_clus_def find_entry_first)
qed

subsection \<open>Names\<close>

lemma convert_base_dot:
  assumes "cstring m name (base @ 46 # ext)" and "46 \<notin> set base"
  shows "convert_base m room name = (if length base \<le> room then Some (map upper base, name + length base) else None)"
  using assms
proof (induction base arbitrary: name room)
  case Nil
  then show ?case
    by (cases room) simp_all
next
  case (Cons b base)
  have b: "sint b \<noteq> 46"
    using Cons.prems(2) sint_eq_iff [of b 46] by (auto simp del: sint_eq_iff)
  show ?case
    using Cons.prems b Cons.IH [of "name + 1"] by (cases room) auto
qed

lemma convert_dot:
  assumes "cstring m name (base @ 46 # ext)" and "46 \<notin> set base" and "length base \<le> 8"
  shows "convert m name = Some (Some (map upper base @ replicate (8 - length base) 32 @
    map (\<lambda>i. upper (m (name + length base + 1 + i))) [0..<3]))"
  using assms by (simp add: convert_def convert_base_dot)


lemma upper_0 [simp]: "upper b = 0 \<longleftrightarrow> b = 0"
proof (cases "islower (sint b)")
  case True
  then have l: "97 \<le> sint b" "sint b \<le> 122"
    by (simp_all add: islower_def)
  then have "upper b \<noteq> 0"
    using True by (auto simp: upper_def toupper_def)
  then show ?thesis
    using l by auto
next
  case False
  then show ?thesis
    by (simp add: upper_def toupper_def)
qed

lemma cstring_append:
  "cstring m p (xs @ ys) \<longleftrightarrow> (\<forall>i<length xs. m (p + i) = xs ! i \<and> xs ! i \<noteq> 0) \<and> cstring m (p + length xs) ys"
  by (induction xs arbitrary: p) (auto simp: less_Suc_eq_0_disj)

lemma convert_name:
  assumes c: "cstring m name (base @ 46 # ext)" and "46 \<notin> set base" and "length base \<le> 8" and e: "length ext = 3"
  shows "convert m name = Some (Some (map upper base @ replicate (8 - length base) 32 @ map upper ext))"
    "0 \<notin> set (map upper base @ replicate (8 - length base) 32 @ map upper ext)"
proof -
  have x: "cstring m (name + length base + 1) ext"
    using c by (simp add: cstring_append)
  have "map (\<lambda>i. m (name + length base + 1 + i)) [0..<3] = ext"
    by (rule nth_equalityI) (use x e in \<open>simp_all add: cstring_def\<close>)
  moreover have "map (\<lambda>i. upper (m (name + length base + 1 + i))) [0..<3] =
      map upper (map (\<lambda>i. m (name + length base + 1 + i)) [0..<3])"
    by simp
  ultimately show "convert m name = Some (Some (map upper base @ replicate (8 - length base) 32 @ map upper ext))"
    by (simp only: convert_dot [OF assms(1-3)])
  have "0 \<notin> set base"
    using c by (auto simp only: cstring_append in_set_conv_nth)
  moreover have "0 \<notin> set ext"
    using x by (auto simp only: cstring_def in_set_conv_nth)
  ultimately show "0 \<notin> set (map upper base @ replicate (8 - length base) 32 @ map upper ext)"
    by auto
qed

text \<open>
  C32. \<^verbatim>\<open>load_file\<close> of a name in the directory stores the clusters of the file, one behind the other, at the
  destination and changes nothing else in memory, when the chain of the file goes upwards in the allocation table
  from the sector on that the buffer starts with.
\<close>

theorem file_loaded:
  assumes name: "cstring m name (base @ 46 # ext)" "46 \<notin> set base" "length base \<le> 8" "length ext = 3"
    and dir: "get_file_start_clus m c (map upper base @ replicate (8 - length base) 32 @ map upper ext) = hd ks"
    and chain: "file_clusters ds c ks" and w: "window ds c b" and up: "sorted (b # map (\<lambda>k. unat k div 128) ks)"
  shows "\<exists>c'. load_fat32_file ds name dst m c = Some (True, store_bytes m dst (file_bytes ds c ks), c') \<and> same_disk c c'"
proof -
  have tw: "takeWhile (\<lambda>b. b \<noteq> 0) n = n" if "0 \<notin> set n" for n :: "u8 list"
    using that by (induction n) auto
  have "hd ks < 0x0FFFFFF0"
    using chain by (cases "(ds, c, ks)" rule: file_clusters.cases) auto
  then have "hd ks \<noteq> - 1"
    by auto
  then show ?thesis
    using load_clusters_chain [OF chain w up, of dst m] dir
    by (auto simp: load_fat32_file_def convert_name(1) [OF name] tw [OF convert_name(2) [OF name]])
qed

text \<open>
  After a file has been read, the buffer of the allocation table stays where the chain of that file ended: a file
  that starts four or more sectors of the table below is not read.
\<close>

theorem lower_file_lost:
  assumes chain: "file_clusters ds c ks" and w: "window ds c b" and up: "sorted (b # map (\<lambda>k. unat k div 128) ks)"
    and low: "unat k div 128 + 4 \<le> unat (last ks) div 128"
  shows "\<exists>m' c'. load_clusters ds (hd ks) dst m c = Some (m', c') \<and> load_clusters ds k dst' m' c' = None"
proof -
  obtain c' b' where l: "load_clusters ds (hd ks) dst m c = Some (store_bytes m dst (file_bytes ds c ks), c')"
    and w': "window ds c' b'" and b': "unat (last ks) div 128 < b' + 4"
    using load_clusters_chain [OF chain w up] by blast
  have "last ks < 0x0FFFFFF0"
    using chain by (induction ds c ks rule: file_clusters.induct) auto
  then have "unat (last ks) < 0x0FFFFFF0"
    by (simp add: word_less_nat_alt)
  then have k: "unat k < 0x0FFFFFF0"
    using low by linarith
  then have "load_clusters ds k dst' (store_bytes m dst (file_bytes ds c ks)) c' = None"
    using get_fat32_entry_below [OF w', of k] low b'
    by (subst load_clusters.simps) (simp add: word_less_nat_alt)
  then show ?thesis
    using l by blast
qed

section \<open>Witnesses\<close>

text \<open>
  A disk with one sector per cluster: the table starts at sector 1, the data at sector 1600.  Cluster 2 is followed
  by 3, and 700, in the sixth sector of the table, ends a chain.
\<close>

definition demo_disks :: disks where
  "demo_disks second slave lba i =
     (if lba = 1 then (if i = 8 then 3 else if 12 \<le> i \<and> i < 16 then (if i = 15 then 0x0F else 0xFF) else 0)
      else if lba = 6 then (if i < 240 then 0 else 0xFF)
      else of_nat lba)"

definition demo_fs :: fat32_context where
  "demo_fs = \<lparr>selector = 0, start_lba = 0, info = (info_of (replicate 90 0))\<lparr>bytes_per_sector := 512, sectors_per_clus := 1\<rparr>,
     fat1_start = 1, data_start = 1600, root_directory = 200, fat_buffer = read_sector demo_disks 1 4 0, buffer_start = 0\<rparr>"

definition demo_memory :: memory where
  "demo_memory = store_bytes (store_bytes (\<lambda>_. 0) 100 [97, 46, 116, 120, 116])
     200 ([65] @ replicate 7 32 @ [84, 88, 84] @ replicate 15 0 @ [2] @ replicate 5 0)"

lemma demo_window: "window demo_disks demo_fs 0"
  by (simp add: window_def demo_fs_def)

lemma demo_entries:
  "map (demo_disks False False 1) [8..<12] = [3, 0, 0, 0]"
  "map (demo_disks False False 1) [12..<16] = [0xFF, 0xFF, 0xFF, 0x0F]"
  "map (demo_disks False False 6) [240..<244] = [0xFF, 0xFF, 0xFF, 0xFF]"
  by (simp_all add: upt_rec demo_disks_def)

lemma demo_values:
  "le_val [3, 0, 0, 0] = 3" "le_val [0xFF, 0xFF, 0xFF, 0x0F] = 0x0FFFFFFF" "le_val [0xFF, 0xFF, 0xFF, 0xFF] = 0xFFFFFFFF"
  by simp_all

lemma demo_next:
  "fat_next demo_disks demo_fs 2 = 3" "fat_next demo_disks demo_fs 3 = 0x0FFFFFFF" "fat_next demo_disks demo_fs 700 = 0xFFFFFFFF"
  by (simp_all add: fat_next_def demo_fs_def field_sector demo_entries demo_values del: One_nat_def upt_rec_numeral list.map le_val.simps)

lemma demo_chains: "file_clusters demo_disks demo_fs [2, 3]" "file_clusters demo_disks demo_fs [700]"
  by (simp_all add: demo_next)

lemma demo_name:
  "demo_memory 100 = 97" "demo_memory 101 = 46" "demo_memory 102 = 116" "demo_memory 103 = 120" "demo_memory 104 = 116"
  "demo_memory 105 = 0"
  by code_simp+

lemma demo_directory: "get_file_start_clus demo_memory demo_fs [65, 32, 32, 32, 32, 32, 32, 32, 84, 88, 84] = 2"
proof -
  have "name_at demo_memory 200 0 = [65, 32, 32, 32, 32, 32, 32, 32, 84, 88, 84]" and "clus_at demo_memory 200 0 = 2"
    by code_simp+
  moreover have "root_directory demo_fs = 200" by (simp add: demo_fs_def)
  ultimately show ?thesis
    using get_file_start_clus_first [of demo_memory demo_fs 0] by simp
qed

lemma file_loaded_witness:
  "\<exists>c'. load_fat32_file demo_disks 100 5000 demo_memory demo_fs =
     Some (True, store_bytes demo_memory 5000 (file_bytes demo_disks demo_fs [2, 3]), c') \<and> same_disk demo_fs c'"
proof (rule file_loaded [where base = "[97]" and ext = "[116, 120, 116]" and b = 0])
  show "cstring demo_memory 100 ([97] @ 46 # [116, 120, 116])"
    using demo_name by simp
  have "upper 97 = 65" "upper 116 = 84" "upper 120 = 88"
    by code_simp+
  then show "get_file_start_clus demo_memory demo_fs
      (map upper [97] @ replicate (8 - length [97 :: u8]) 32 @ map upper [116, 120, 116]) = hd [2, 3]"
    using demo_directory by (simp add: numeral_eq_Suc)
qed (simp_all add: demo_window demo_chains del: file_clusters.simps)

lemma lower_file_lost_witness:
  "\<exists>m' c'. load_clusters demo_disks (hd [700]) 5000 demo_memory demo_fs = Some (m', c') \<and>
     load_clusters demo_disks 2 7000 m' c' = None"
  by (rule lower_file_lost [where b = 0]) (simp_all add: demo_window demo_chains del: file_clusters.simps)

end
