(* ===== verification/Loader.thy ===== *)
theory Loader
  imports Paging
begin

text \<open>
  The loader: its heap, \<^verbatim>\<open>loader/grub_loader/lheap.c\<close>, and the page tables it builds before it enters long mode,
  \<^verbatim>\<open>setup_paging\<close> of \<^verbatim>\<open>lm/setup_lm.c\<close>.  The lemmas show that blocks of at least two bytes never overlap, that the
  end of the heap is not respected, and that the tables map the memory to itself.
\<close>

section \<open>The heap\<close>

text \<open>\<^verbatim>\<open>lh_seg\<close>: the field called size holds the address of the last byte.  The table has 8192 entries.\<close>

record lh_seg =
  lh_start :: ptr
  lh_size :: ptr

record lheap =
  segments :: "lh_seg list"
  lheap_top :: ptr
  lheap_bottom :: ptr

definition LHEAP_BASE :: ptr where "LHEAP_BASE = 0x2200000"
definition LH_SEG_NUM :: nat where "LH_SEG_NUM = 8192"
definition SIZEOF_LH_SEG :: nat where "SIZEOF_LH_SEG = 8"

definition init_lheap :: "nat \<Rightarrow> lheap" where
  "init_lheap lheap_size = \<lparr>segments = replicate LH_SEG_NUM \<lparr>lh_start = NULL, lh_size = NULL\<rparr>,
     lheap_top = LHEAP_BASE + lheap_size - SIZEOF_LH_SEG * LH_SEG_NUM, lheap_bottom = LHEAP_BASE\<rparr>"

text \<open>\<^verbatim>\<open>__get_segment_size\<close>: the last byte of the first block in the way, or the null pointer.\<close>

definition in_the_way :: "ptr \<Rightarrow> nat \<Rightarrow> lh_seg \<Rightarrow> bool" where
  "in_the_way base sz s \<longleftrightarrow> max (lh_start s) base < min (lh_size s) (base + sz)"

definition get_segment_size :: "lh_seg list \<Rightarrow> ptr \<Rightarrow> nat \<Rightarrow> ptr" where
  "get_segment_size tbl base sz = (case find (in_the_way base sz) tbl of None \<Rightarrow> NULL | Some s \<Rightarrow> lh_size s)"

lemma get_segment_size_above: "get_segment_size tbl base sz \<noteq> NULL \<Longrightarrow> base < get_segment_size tbl base sz"
  by (auto simp: get_segment_size_def in_the_way_def find_Some_iff split: option.splits)

text \<open>\<^verbatim>\<open>__lookup_free_mem\<close>: the loop moves up behind the block that is in the way.\<close>

function lookup_free_mem :: "lh_seg list \<Rightarrow> ptr \<Rightarrow> nat \<Rightarrow> ptr \<Rightarrow> ptr" where
  "lookup_free_mem tbl lim sz i =
     (if i < lim
      then let e = get_segment_size tbl i sz in if e = NULL then i else lookup_free_mem tbl lim sz (e + 1)
      else NULL)"
  by pat_completeness auto
termination
  by (relation "measure (\<lambda>(tbl, lim, sz, i). lim - i)") (use get_segment_size_above in \<open>fastforce+\<close>)

declare lookup_free_mem.simps [simp del]

text \<open>\<^verbatim>\<open>__lookup_free_lh_seg\<close>, with \<open>None\<close> for \<^verbatim>\<open>-1\<close>, \<^verbatim>\<open>__insert_lh_seg\<close> and \<^verbatim>\<open>__delete_lh_seg\<close>.\<close>

definition lookup_free_lh_seg :: "lh_seg list \<Rightarrow> nat option" where
  "lookup_free_lh_seg tbl = find (\<lambda>i. lh_start (tbl ! i) = NULL \<and> lh_size (tbl ! i) = NULL) [0..<length tbl]"

definition insert_lh_seg :: "ptr \<Rightarrow> ptr \<Rightarrow> lheap \<Rightarrow> bool \<times> lheap" where
  "insert_lh_seg start e h = (case lookup_free_lh_seg (segments h) of
      None \<Rightarrow> (False, h)
    | Some i \<Rightarrow> (True, h\<lparr>segments := (segments h)[i := \<lparr>lh_start = start, lh_size = e\<rparr>]\<rparr>))"

definition delete_lh_seg :: "ptr \<Rightarrow> lheap \<Rightarrow> lheap" where
  "delete_lh_seg start h = (case find (\<lambda>i. lh_start (segments h ! i) = start) [0..<length (segments h)] of
      None \<Rightarrow> h
    | Some i \<Rightarrow> h\<lparr>segments := (segments h)[i := \<lparr>lh_start = NULL, lh_size = NULL\<rparr>]\<rparr>)"

definition lmalloc :: "nat \<Rightarrow> lheap \<Rightarrow> ptr \<times> lheap" where
  "lmalloc sz h =
     (let m = lookup_free_mem (segments h) (lheap_top h) sz (lheap_bottom h) in
      if m = NULL then (NULL, h)
      else case insert_lh_seg m (m + sz - 1) h of (ok, h) \<Rightarrow> if ok then (m, h) else (NULL, h))"

definition lcalloc :: "nat \<Rightarrow> nat \<Rightarrow> lheap \<Rightarrow> ptr \<times> lheap" where
  "lcalloc num sz h = lmalloc (num * sz) h"

definition lfree :: "ptr \<Rightarrow> lheap \<Rightarrow> lheap" where
  "lfree p h = delete_lh_seg p h"

section \<open>The page tables\<close>

definition PAGE_ADDRESS :: ptr where "PAGE_ADDRESS = 0x3000000"

text \<open>
  The loops that fill the tables of one level: entry \<open>no\<close> of the level is entry \<open>no mod 512\<close> of its table number
  \<open>no div 512\<close>; entries from \<open>cnt\<close> on are cleared.
\<close>

definition level_entry :: "nat \<Rightarrow> (nat \<Rightarrow> nat) \<Rightarrow> nat \<Rightarrow> page_entry" where
  "level_entry cnt addr no =
     (if no \<ge> cnt then zero_entry else zero_entry\<lparr>pe_p := True, pe_rw := True, pe_address := addr no\<rparr>)"

primrec fill_level :: "ptr \<Rightarrow> (nat \<Rightarrow> page_entry) \<Rightarrow> nat list \<Rightarrow> page_tables \<Rightarrow> page_tables" where
  "fill_level base f [] T = T"
| "fill_level base f (no # nos) T =
     (let t = base + no div 512 * MEMUNIT_SZ in fill_level base f nos (T(t := (T t)(no mod 512 := f no))))"

definition tables_for :: "nat \<Rightarrow> nat" where
  "tables_for entries = (entries + 512 - 1) div 512"

text \<open>The address of a table, from 32-bit arithmetic.\<close>

definition table_address :: "ptr \<Rightarrow> nat \<Rightarrow> nat" where
  "table_address start no = (start + no * MEMUNIT_SZ) mod 2 ^ 32 div 4096"

text \<open>
  \<^verbatim>\<open>setup_paging\<close>: the address of the top table, the limit and the tables, or \<open>None\<close> for the error.  The counts are
  \<^verbatim>\<open>int\<close>, whose range no memory below \<open>2 ^ 43\<close> bytes leaves.
\<close>

definition setup_paging :: "nat \<Rightarrow> page_tables \<Rightarrow> (ptr \<times> ptr \<times> page_tables) option" where
  "setup_paging memsz T =
     (let pte_num = (memsz + MEMUNIT_SZ - 1) div MEMUNIT_SZ;
          pt_num = tables_for pte_num;
          pd_num = tables_for pt_num;
          pdpt_num = tables_for pd_num;
          pml4_num = tables_for pdpt_num
      in if pml4_num \<noteq> 1 then None
         else let pml4_start = PAGE_ADDRESS;
                  pdpt_start = pml4_start + pml4_num * MEMUNIT_SZ;
                  pd_start = pdpt_start + pdpt_num * MEMUNIT_SZ;
                  pt_start = pd_start + pd_num * MEMUNIT_SZ;
                  T = fill_level pt_start (level_entry pte_num (\<lambda>no. no)) [0..<pt_num * 512] T;
                  T = fill_level pd_start (level_entry pt_num (table_address pt_start)) [0..<pd_num * 512] T;
                  T = fill_level pdpt_start (level_entry pd_num (table_address pd_start)) [0..<pdpt_num * 512] T;
                  T = fill_level pml4_start (level_entry pdpt_num (table_address pdpt_start)) [0..<pml4_num * 512] T
              in Some (pml4_start, pt_start + pt_num * MEMUNIT_SZ, T))"

section \<open>Blocks of the heap\<close>

text \<open>
  An entry is in use when its start is not null.  \<open>heap_sound h\<close>: blocks in use have at least two bytes, start in the
  heap and do not overlap.
\<close>

definition bytes_of :: "lh_seg \<Rightarrow> ptr set" where
  "bytes_of s = {lh_start s..lh_size s}"

definition apart :: "lh_seg list \<Rightarrow> bool" where
  "apart tbl \<longleftrightarrow> (\<forall>i<length tbl. \<forall>j<length tbl. i \<noteq> j \<longrightarrow> lh_start (tbl ! i) \<noteq> NULL \<longrightarrow> lh_start (tbl ! j) \<noteq> NULL \<longrightarrow>
     bytes_of (tbl ! i) \<inter> bytes_of (tbl ! j) = {})"

definition seg_ok :: "lheap \<Rightarrow> lh_seg \<Rightarrow> bool" where
  "seg_ok h s \<longleftrightarrow> (if lh_start s = NULL then lh_size s = NULL
     else lh_start s < lh_size s \<and> lheap_bottom h \<le> lh_start s \<and> lh_start s < lheap_top h)"

definition heap_sound :: "lheap \<Rightarrow> bool" where
  "heap_sound h \<longleftrightarrow> 0 < lheap_bottom h \<and> (\<forall>s\<in>set (segments h). seg_ok h s) \<and> apart (segments h)"

lemma apart_update:
  assumes "apart tbl" and "\<And>j. j < length tbl \<Longrightarrow> lh_start (tbl ! j) \<noteq> NULL \<Longrightarrow> lh_start s \<noteq> NULL \<Longrightarrow> bytes_of (tbl ! j) \<inter> bytes_of s = {}"
  shows "apart (tbl[i := s])"
  unfolding apart_def
proof (intro allI impI)
  fix a b
  assume ab: "a < length (tbl[i := s])" "b < length (tbl[i := s])" "a \<noteq> b" "lh_start (tbl[i := s] ! a) \<noteq> NULL"
    "lh_start (tbl[i := s] ! b) \<noteq> NULL"
  show "bytes_of (tbl[i := s] ! a) \<inter> bytes_of (tbl[i := s] ! b) = {}"
  proof (cases "a = i"; cases "b = i")
    assume "a = i" "b \<noteq> i"
    then show ?thesis using ab assms(2) [of b] by (simp add: Int_commute)
  next
    assume "a \<noteq> i" "b = i"
    then show ?thesis using ab assms(2) [of a] by simp
  next
    assume "a \<noteq> i" "b \<noteq> i"
    then show ?thesis using ab assms(1) unfolding apart_def by simp
  qed (use ab in simp)
qed

lemma apart_mem:
  assumes "apart tbl" and "s \<in> set tbl" and "t \<in> set tbl" and "lh_start s \<noteq> NULL" and "lh_start t \<noteq> NULL"
  shows "s = t \<or> bytes_of s \<inter> bytes_of t = {}"
proof -
  obtain i j where "i < length tbl" "j < length tbl" "s = tbl ! i" "t = tbl ! j"
    using assms(2,3) by (auto simp: in_set_conv_nth)
  then show ?thesis
    using assms(1,4,5) unfolding apart_def by (cases "i = j") auto
qed

lemma heap_sound_update:
  assumes "heap_sound h" and "seg_ok h s"
    and "\<And>j. j < length (segments h) \<Longrightarrow> lh_start (segments h ! j) \<noteq> NULL \<Longrightarrow> lh_start s \<noteq> NULL \<Longrightarrow> bytes_of (segments h ! j) \<inter> bytes_of s = {}"
  shows "heap_sound (h\<lparr>segments := (segments h)[i := s]\<rparr>)"
proof -
  have "seg_ok h t" if "t \<in> set ((segments h)[i := s])" for t
    using that assms(1,2) set_update_subset_insert [of "segments h" i s] by (auto simp: heap_sound_def)
  moreover have "apart ((segments h)[i := s])"
    using assms(1,3) by (intro apart_update) (auto simp: heap_sound_def)
  ultimately show ?thesis
    using assms(1) by (simp add: heap_sound_def seg_ok_def)
qed

lemma get_segment_size_NULL:
  assumes "get_segment_size tbl base sz = NULL" and "s \<in> set tbl"
  shows "\<not> in_the_way base sz s"
  using assms by (auto simp: get_segment_size_def in_the_way_def find_None_iff find_Some_iff split: option.splits)

text \<open>What the search returns: an address in the heap at which no block is in the way, reached from the bottom or behind a block.\<close>

lemma lookup_free_mem_result:
  "lookup_free_mem tbl lim sz i = p \<Longrightarrow> p \<noteq> NULL \<Longrightarrow>
     i \<le> p \<and> p < lim \<and> (\<forall>s\<in>set tbl. \<not> in_the_way p sz s) \<and> (p = i \<or> (\<exists>s\<in>set tbl. lh_size s \<noteq> NULL \<and> p = lh_size s + 1))"
proof (induction tbl lim sz i rule: lookup_free_mem.induct)
  case (1 tbl lim sz i)
  show ?case
  proof (cases "i < lim \<and> get_segment_size tbl i sz \<noteq> NULL")
    case True
    let ?e = "get_segment_size tbl i sz"
    obtain s where s: "s \<in> set tbl" "?e = lh_size s" "lh_size s \<noteq> NULL"
      using True by (auto simp: get_segment_size_def find_Some_iff split: option.splits) (use nth_mem in blast)
    have "lookup_free_mem tbl lim sz (?e + 1) = p"
      using "1.prems"(1) True by (subst (asm) lookup_free_mem.simps) (simp add: Let_def)
    moreover have "\<exists>t\<in>set tbl. lh_size t \<noteq> NULL \<and> ?e + 1 = lh_size t + 1"
      using s by auto
    ultimately show ?thesis
      using "1.IH" [of ?e] "1.prems"(2) True get_segment_size_above [of tbl i sz] by auto
  next
    case False
    then have "i < lim" "get_segment_size tbl i sz = NULL" "p = i"
      using "1.prems" by (auto simp: lookup_free_mem.simps [of tbl lim sz i] split: if_splits)
    then show ?thesis
      using get_segment_size_NULL by blast
  qed
qed

text \<open>With blocks of two bytes or more, nothing in the way means no common byte.\<close>

lemma not_in_the_way_apart:
  assumes "\<not> in_the_way p sz s" and "2 \<le> sz" and "lh_start s < lh_size s" and "p = bottom \<or> (\<exists>t\<in>T. p = lh_size t + 1)"
    and "bottom \<le> lh_start s" and "\<forall>t\<in>T. t = s \<or> bytes_of t \<inter> bytes_of s = {}" and "\<forall>t\<in>T. lh_start t < lh_size t"
  shows "bytes_of s \<inter> {p..p + sz - 1} = {}"
proof -
  have "lh_size s \<noteq> p"
  proof
    assume e: "lh_size s = p"
    then obtain t where t: "t \<in> T" "p = lh_size t + 1"
      using assms(3-5) by auto
    then have "lh_size t \<in> bytes_of t \<inter> bytes_of s"
      using assms(3,7) e by (auto simp: bytes_of_def)
    then show False
      using assms(6) t e by auto
  qed
  moreover have "lh_size s \<le> p \<or> p + sz \<le> lh_start s"
    using assms(1-3) by (auto simp: in_the_way_def max_def min_def split: if_splits)
  ultimately show ?thesis
    using assms(2) by (auto simp: bytes_of_def)
qed

lemma lmalloc_result:
  assumes "lmalloc sz h = (p, h')" and "p \<noteq> NULL"
  obtains i where "i < length (segments h)" and "segments h ! i = \<lparr>lh_start = NULL, lh_size = NULL\<rparr>"
    and "h' = h\<lparr>segments := (segments h)[i := \<lparr>lh_start = p, lh_size = p + sz - 1\<rparr>]\<rparr>"
    and "lookup_free_mem (segments h) (lheap_top h) sz (lheap_bottom h) = p"
  using assms
  by (auto simp: lmalloc_def insert_lh_seg_def lookup_free_lh_seg_def find_Some_iff Let_def split: if_splits option.splits)

lemma lmalloc_sound:
  assumes h: "heap_sound h" and sz: "2 \<le> sz" and r: "lmalloc sz h = (p, h')" "p \<noteq> NULL"
  shows "heap_sound h'" and "lheap_bottom h \<le> p" "p < lheap_top h"
    and "\<forall>s\<in>set (segments h). lh_start s \<noteq> NULL \<longrightarrow> bytes_of s \<inter> {p..p + sz - 1} = {}"
proof -
  let ?T = "{s \<in> set (segments h). lh_start s \<noteq> NULL}"
  obtain i where h': "h' = h\<lparr>segments := (segments h)[i := \<lparr>lh_start = p, lh_size = p + sz - 1\<rparr>]\<rparr>"
    and l: "lookup_free_mem (segments h) (lheap_top h) sz (lheap_bottom h) = p"
    by (rule lmalloc_result [OF r])
  note f = lookup_free_mem_result [OF l r(2)]
  show p: "lheap_bottom h \<le> p" "p < lheap_top h"
    using f by auto
  have ok: "seg_ok h s" if "s \<in> set (segments h)" for s
    using h that by (simp add: heap_sound_def)
  have "\<exists>t\<in>?T. p = lh_size t + 1" if t: "t \<in> set (segments h)" "lh_size t \<noteq> NULL" "p = lh_size t + 1" for t
    using t ok [OF t(1)] by (auto simp: seg_ok_def split: if_splits)
  then have "p = lheap_bottom h \<or> (\<exists>t\<in>?T. p = lh_size t + 1)"
    using f by blast
  moreover have "\<forall>t\<in>?T. t = s \<or> bytes_of t \<inter> bytes_of s = {}" if "s \<in> ?T" for s
    using h that apart_mem unfolding heap_sound_def by blast
  moreover have "lh_start t < lh_size t" "lheap_bottom h \<le> lh_start t" if "t \<in> ?T" for t
    using ok [of t] that by (auto simp: seg_ok_def)
  ultimately have "bytes_of s \<inter> {p..p + sz - 1} = {}" if "s \<in> ?T" for s
    using f that sz by (intro not_in_the_way_apart [where bottom = "lheap_bottom h" and T = ?T]) auto
  then show new: "\<forall>s\<in>set (segments h). lh_start s \<noteq> NULL \<longrightarrow> bytes_of s \<inter> {p..p + sz - 1} = {}"
    by blast
  have b: "bytes_of \<lparr>lh_start = p, lh_size = p + sz - 1\<rparr> = {p..p + sz - 1}"
    by (simp add: bytes_of_def)
  show "heap_sound h'"
    unfolding h'
  proof (rule heap_sound_update [OF h])
    show "seg_ok h \<lparr>lh_start = p, lh_size = p + sz - 1\<rparr>"
      using p r(2) sz by (simp add: seg_ok_def)
    show "bytes_of (segments h ! j) \<inter> bytes_of \<lparr>lh_start = p, lh_size = p + sz - 1\<rparr> = {}"
      if "j < length (segments h)" "lh_start (segments h ! j) \<noteq> NULL" for j
      unfolding b using new that nth_mem by blast
  qed
qed

lemma lfree_sound: "heap_sound h \<Longrightarrow> heap_sound (lfree p h)"
  by (auto simp: lfree_def delete_lh_seg_def seg_ok_def intro!: heap_sound_update split: option.splits)

text \<open>A run of the loader's requests.\<close>

datatype request = Alloc nat | Free ptr

definition serve :: "request \<Rightarrow> lheap \<Rightarrow> lheap" where
  "serve r h = (case r of Alloc sz \<Rightarrow> snd (lmalloc sz h) | Free p \<Rightarrow> lfree p h)"

lemma serve_sound: "heap_sound h \<Longrightarrow> (\<And>sz. r = Alloc sz \<Longrightarrow> 2 \<le> sz) \<Longrightarrow> heap_sound (serve r h)"
proof (cases r)
  case (Alloc sz)
  assume a: "heap_sound h" "\<And>sz. r = Alloc sz \<Longrightarrow> 2 \<le> sz"
  obtain p h' where l: "lmalloc sz h = (p, h')" by force
  have "heap_sound h'"
  proof (cases "p = NULL")
    case True
    then have "h' = h" using l by (auto simp: lmalloc_def insert_lh_seg_def Let_def split: if_splits option.splits prod.splits)
    then show ?thesis using a by simp
  next
    case False
    then show ?thesis using lmalloc_sound(1) [OF a(1) _ l] a(2) Alloc by blast
  qed
  then show ?thesis using l Alloc by (simp add: serve_def)
qed (simp add: serve_def lfree_sound)

lemma init_lheap_sound: "heap_sound (init_lheap n)"
  by (auto simp: heap_sound_def init_lheap_def LHEAP_BASE_def seg_ok_def apart_def)

text \<open>
  C22. However the loader interleaves allocations of at least two bytes and releases, no two blocks in use of its heap
  share a byte.
\<close>

theorem heap_never_overlaps:
  assumes "\<And>sz. Alloc sz \<in> set rs \<Longrightarrow> 2 \<le> sz"
  shows "apart (segments (fold serve rs (init_lheap n)))"
proof -
  have "heap_sound (fold serve rs h)" if "heap_sound h" for h
    using assms that by (induction rs arbitrary: h) (simp_all add: serve_sound)
  then show ?thesis
    using init_lheap_sound heap_sound_def by blast
qed

theorem heap_never_overlaps_witness:
  "apart (segments (fold serve [Alloc 512, Alloc 2, Free LHEAP_BASE, Alloc 16] (init_lheap 0x800000)))"
  by (rule heap_never_overlaps) auto

text \<open>
  A block of one byte is never in the way, because the last byte is compared as if it were the end: a second request
  for one byte gets the same byte.
\<close>

lemma find_update: "\<not> P y \<Longrightarrow> (i < length xs \<Longrightarrow> \<not> P (xs ! i)) \<Longrightarrow> find P (xs[i := y]) = find P xs"
  by (induction xs arbitrary: i) (auto split: nat.splits)

lemma lookup_free_mem_update:
  assumes "\<And>b. \<not> in_the_way b sz s" and "\<And>b. i < length tbl \<Longrightarrow> \<not> in_the_way b sz (tbl ! i)"
  shows "lookup_free_mem (tbl[i := s]) lim sz b = lookup_free_mem tbl lim sz b"
  using assms
proof (induction tbl lim sz b rule: lookup_free_mem.induct)
  case (1 tbl lim sz b)
  have "get_segment_size (tbl[i := s]) b sz = get_segment_size tbl b sz"
    using 1(2,3) by (simp add: get_segment_size_def find_update)
  then show ?case
    using 1 by (simp add: lookup_free_mem.simps [of _ _ _ b] Let_def)
qed

lemma one_byte_blocks_coincide:
  assumes "lmalloc 1 h = (p, h')" and "p \<noteq> NULL"
  shows "fst (lmalloc 1 h') = p \<or> lookup_free_lh_seg (segments h') = None"
proof -
  obtain i where i: "lookup_free_lh_seg (segments h) = Some i"
      "h' = h\<lparr>segments := (segments h)[i := \<lparr>lh_start = p, lh_size = p\<rparr>]\<rparr>"
    and p: "lookup_free_mem (segments h) (lheap_top h) 1 (lheap_bottom h) = p"
    using assms by (auto simp: lmalloc_def insert_lh_seg_def Let_def split: if_splits option.splits prod.splits)
  have "lh_start (segments h ! i) = NULL \<and> lh_size (segments h ! i) = NULL"
    using i(1) by (auto simp: lookup_free_lh_seg_def find_Some_iff)
  then have "lookup_free_mem (segments h') (lheap_top h') 1 (lheap_bottom h') = p"
    using p i(2) by (simp add: lookup_free_mem_update in_the_way_def)
  then show ?thesis
    using assms(2) by (auto simp: lmalloc_def insert_lh_seg_def Let_def split: option.splits)
qed

text \<open>Only the start of a block is compared with the end of the heap: the first block may be larger than the heap.\<close>

lemma block_past_the_top:
  assumes "65536 < n" and "2 \<le> sz"
  shows "fst (lmalloc sz (init_lheap n)) = LHEAP_BASE"
proof -
  have "\<not> in_the_way b sz s" if "s \<in> set (segments (init_lheap n))" for b s
    using that by (simp add: init_lheap_def in_the_way_def)
  then have "get_segment_size (segments (init_lheap n)) LHEAP_BASE sz = NULL"
    by (auto simp: get_segment_size_def find_Some_iff split: option.splits)
  moreover have "LHEAP_BASE < lheap_top (init_lheap n)"
    using assms(1) by (simp add: init_lheap_def LHEAP_BASE_def SIZEOF_LH_SEG_def LH_SEG_NUM_def)
  moreover have "lookup_free_lh_seg (segments (init_lheap n)) \<noteq> None"
    by (auto simp: lookup_free_lh_seg_def find_None_iff init_lheap_def LH_SEG_NUM_def intro!: exI [of _ 0])
  moreover have "LHEAP_BASE \<noteq> NULL"
    by (simp add: LHEAP_BASE_def)
  ultimately show ?thesis
    by (auto simp: lmalloc_def insert_lh_seg_def Let_def init_lheap_def lookup_free_mem.simps)
qed

section \<open>Level by level\<close>

lemma fill_level_snoc:
  "fill_level base f (nos @ [no]) T =
     (let T' = fill_level base f nos T; t = base + no div 512 * MEMUNIT_SZ in T'(t := (T' t)(no mod 512 := f no)))"
  by (induction nos arbitrary: T) (simp_all add: Let_def)

lemma fill_level_upt:
  "fill_level base f [0..<n] T t i =
     (if \<exists>no<n. t = base + no div 512 * MEMUNIT_SZ \<and> i = no mod 512
      then f ((t - base) div MEMUNIT_SZ * 512 + i) else T t i)"
proof (induction n)
  case (Suc n)
  show ?case
  proof (cases "t = base + n div 512 * MEMUNIT_SZ \<and> i = n mod 512")
    case True
    then have "(t - base) div MEMUNIT_SZ * 512 + i = n"
      by simp
    then show ?thesis
      using True by (auto simp: fill_level_snoc Let_def)
  next
    case False
    then show ?thesis
      using Suc by (auto simp: fill_level_snoc Let_def less_Suc_eq)
  qed
qed simp

lemma fill_level_entry:
  assumes "no < n"
  shows "fill_level base f [0..<n] T (base + no div 512 * MEMUNIT_SZ) (no mod 512) = f no"
  using assms by (auto simp: fill_level_upt)

lemma fill_level_outside:
  assumes "t < base \<or> base + n * MEMUNIT_SZ \<le> t"
  shows "fill_level base f [0..<n * 512] T t i = T t i"
proof -
  have "\<not> t = base + no div 512 * MEMUNIT_SZ" if "no < n * 512" for no
  proof -
    have "no div 512 < n" using that by (simp add: less_mult_imp_div_less)
    then have "no div 512 * MEMUNIT_SZ < n * MEMUNIT_SZ" by simp
    then show ?thesis using assms by linarith
  qed
  then show ?thesis by (simp add: fill_level_upt) blast
qed

text \<open>The number of tables is the number of entries divided by 512, rounded up.\<close>

lemma tables_for_less: "c < tables_for n \<longleftrightarrow> c * 512 < n"
  by (auto simp: tables_for_def less_eq_div_iff_mult_less_eq Suc_le_eq [symmetric]) 

text \<open>The four levels on top of each other.\<close>

definition paging_of :: "nat \<Rightarrow> nat \<Rightarrow> nat \<Rightarrow> nat \<Rightarrow> ptr \<Rightarrow> page_tables \<Rightarrow> page_tables" where
  "paging_of pte_num pt_num pd_num pdpt_num pm T =
     fill_level pm (level_entry pdpt_num (table_address (pm + MEMUNIT_SZ))) [0..<1 * 512]
      (fill_level (pm + MEMUNIT_SZ) (level_entry pd_num (table_address (pm + MEMUNIT_SZ + pdpt_num * MEMUNIT_SZ))) [0..<pdpt_num * 512]
       (fill_level (pm + MEMUNIT_SZ + pdpt_num * MEMUNIT_SZ)
          (level_entry pt_num (table_address (pm + MEMUNIT_SZ + pdpt_num * MEMUNIT_SZ + pd_num * MEMUNIT_SZ))) [0..<pd_num * 512]
        (fill_level (pm + MEMUNIT_SZ + pdpt_num * MEMUNIT_SZ + pd_num * MEMUNIT_SZ) (level_entry pte_num (\<lambda>no. no)) [0..<pt_num * 512] T)))"

lemma paging_of_entries:
  fixes pm pdpt_num pd_num pt_num pte_num T
  defines "pdpt \<equiv> pm + MEMUNIT_SZ" and "pd \<equiv> pm + MEMUNIT_SZ + pdpt_num * MEMUNIT_SZ"
    and "pt \<equiv> pm + MEMUNIT_SZ + pdpt_num * MEMUNIT_SZ + pd_num * MEMUNIT_SZ"
  defines "T' \<equiv> paging_of pte_num pt_num pd_num pdpt_num pm T"
  shows "no < 512 \<Longrightarrow> T' pm no = level_entry pdpt_num (table_address pdpt) no"
    and "no div 512 < pdpt_num \<Longrightarrow> T' (pdpt + no div 512 * MEMUNIT_SZ) (no mod 512) = level_entry pd_num (table_address pd) no"
    and "no div 512 < pd_num \<Longrightarrow> T' (pd + no div 512 * MEMUNIT_SZ) (no mod 512) = level_entry pt_num (table_address pt) no"
    and "no div 512 < pt_num \<Longrightarrow> T' (pt + no div 512 * MEMUNIT_SZ) (no mod 512) = level_entry pte_num (\<lambda>no. no) no"
proof -
  have less: "no < n * 512" if "no div 512 < n" for no n :: nat
    using that by (simp add: div_less_iff_less_mult)
  show "T' pm no = level_entry pdpt_num (table_address pdpt) no" if "no < 512"
    using fill_level_entry [of no "1 * 512" pm] that by (simp add: T'_def paging_of_def pdpt_def)
  show "T' (pdpt + no div 512 * MEMUNIT_SZ) (no mod 512) = level_entry pd_num (table_address pd) no" if "no div 512 < pdpt_num"
    unfolding T'_def paging_of_def pdpt_def pd_def
    by (rule trans, rule fill_level_outside, linarith, rule fill_level_entry [OF less [OF that]])
  show "T' (pd + no div 512 * MEMUNIT_SZ) (no mod 512) = level_entry pt_num (table_address pt) no" if "no div 512 < pd_num"
    unfolding T'_def paging_of_def pd_def pt_def
    by (rule trans, rule fill_level_outside, linarith, rule trans, rule fill_level_outside, linarith, rule fill_level_entry [OF less [OF that]])
  show "T' (pt + no div 512 * MEMUNIT_SZ) (no mod 512) = level_entry pte_num (\<lambda>no. no) no" if "no div 512 < pt_num"
    unfolding T'_def paging_of_def pt_def
    by (rule trans, rule fill_level_outside, linarith, rule trans, rule fill_level_outside, linarith, 
        rule trans, rule fill_level_outside, linarith, rule fill_level_entry [OF less [OF that]])
qed

lemma level_entry_simps:
  "pe_p (level_entry cnt addr no) \<longleftrightarrow> no < cnt" "no < cnt \<Longrightarrow> pe_address (level_entry cnt addr no) = addr no"
  by (simp_all add: level_entry_def zero_entry_def)

lemma table_base:
  assumes "no < cnt" and "MEMUNIT_SZ dvd start" and "start + no * MEMUNIT_SZ < 2 ^ 32"
  shows "entry_base (level_entry cnt (table_address start) no) = start + no * MEMUNIT_SZ"
proof -
  have "(start + no * MEMUNIT_SZ) div 4096 * 4096 = start + no * MEMUNIT_SZ"
    using assms(2) by simp
  then show ?thesis
    using assms by (simp add: entry_base_def level_entry_simps table_address_def)
qed

text \<open>The number of tables of each level for a memory of at most 512 GiB.\<close>

lemma tables_for_le: "n \<le> k * 512 \<Longrightarrow> tables_for n \<le> k"
  by (simp add: tables_for_def)

lemma tables_for_pos: "0 < n \<Longrightarrow> 0 < tables_for n"
  by (simp add: tables_for_def div_greater_zero_iff)

lemma tables_for_1: "0 < n \<Longrightarrow> n \<le> 512 \<Longrightarrow> tables_for n = 1"
  using tables_for_le [of n 1] tables_for_pos [of n] by simp

lemma setup_paging_eq:
  fixes memsz T
  defines "n \<equiv> (memsz + MEMUNIT_SZ - 1) div MEMUNIT_SZ"
  assumes m: "0 < memsz" "memsz \<le> 2 ^ 39"
  shows "0 < n" "n \<le> 2 ^ 27" "0 < tables_for n" "tables_for n \<le> 2 ^ 18"
    and "0 < tables_for (tables_for n)" "tables_for (tables_for n) \<le> 512" "tables_for (tables_for (tables_for n)) = 1"
    and "\<exists>lim. setup_paging memsz T =
      Some (PAGE_ADDRESS, lim, paging_of n (tables_for n) (tables_for (tables_for n)) 1 PAGE_ADDRESS T)"
proof -
  show n: "0 < n" "n \<le> 2 ^ 27"
    using m by (simp_all add: n_def div_greater_zero_iff)
  show t: "0 < tables_for n" "tables_for n \<le> 2 ^ 18"
    using tables_for_pos [of n] tables_for_le [of n "2 ^ 18"] n by simp_all
  show u: "0 < tables_for (tables_for n)" "tables_for (tables_for n) \<le> 512"
    using tables_for_pos [of "tables_for n"] tables_for_le [of "tables_for n" 512] t by simp_all
  show v: "tables_for (tables_for (tables_for n)) = 1"
    using u by (intro tables_for_1) simp_all
  have w: "tables_for 1 = 1"
    by (simp add: tables_for_def)
  show "\<exists>lim. setup_paging memsz T =
      Some (PAGE_ADDRESS, lim, paging_of n (tables_for n) (tables_for (tables_for n)) 1 PAGE_ADDRESS T)"
    unfolding setup_paging_def Let_def n_def [symmetric] v w
    by (simp only: paging_of_def mult_1 simp_thms if_False prod.inject option.inject ex_simps)
qed

lemma setup_paging_translation:
  assumes m: "0 < memsz" "memsz \<le> 2 ^ 39" and v: "v < 2 ^ 48"
  shows "\<exists>pgd lim T'. setup_paging memsz T = Some (pgd, lim, T') \<and>
    get_physical_address T' pgd v = (if v div MEMUNIT_SZ * MEMUNIT_SZ < memsz then v else NULL)"
proof -
  define n where "n = (memsz + MEMUNIT_SZ - 1) div MEMUNIT_SZ"
  define t where "t = tables_for n"
  define d where "d = tables_for t"
  note eq = setup_paging_eq [OF m, folded n_def, folded t_def, folded d_def]
  obtain lim where s: "setup_paging memsz T = Some (PAGE_ADDRESS, lim, paging_of n t d 1 PAGE_ADDRESS T)"
    using eq(8) by blast
  define T' where "T' = paging_of n t d 1 PAGE_ADDRESS T"
  define p where "p = v div MEMUNIT_SZ"
  note entries = paging_of_entries [where pte_num = n and pt_num = t and pd_num = d and pdpt_num = 1 and pm = PAGE_ADDRESS and T = T, folded T'_def]
  let ?pdpt = "PAGE_ADDRESS + MEMUNIT_SZ" and ?pd = "PAGE_ADDRESS + MEMUNIT_SZ + 1 * MEMUNIT_SZ"
  let ?pt = "PAGE_ADDRESS + MEMUNIT_SZ + 1 * MEMUNIT_SZ + d * MEMUNIT_SZ"
  have idx: "p div 512 div 512 div 512 < 512"
    using v by (simp add: p_def div_mult2_eq [symmetric] less_mult_imp_div_less)
  have up: "p div 512 < t" if "p < n" 
    using that by (simp add: t_def tables_for_less)
  have up2: "p div 512 div 512 < d" if "p div 512 < t"
    using that by (simp add: d_def tables_for_less)
  have outer: "p div 512 div 512 div 512 < 1" if "p div 512 div 512 < d"
    using that eq(6) by simp
  have base: "entry_base (level_entry cnt (table_address (PAGE_ADDRESS + c * MEMUNIT_SZ)) no) = PAGE_ADDRESS + c * MEMUNIT_SZ + no * MEMUNIT_SZ"
    if "no < cnt" "c \<le> 2 ^ 10" "no \<le> 2 ^ 18" for no cnt c
    using that by (intro table_base) (simp_all add: PAGE_ADDRESS_def)
  note base' = base [of _ _ 1] base [of _ _ 2] base [of _ _ "2 + d"]
  have page: "entry_base (level_entry n (\<lambda>no. no) p) = p * MEMUNIT_SZ" if "p < n"
    using that eq(2) by (simp add: entry_base_def level_entry_simps)
  have below: "p < n \<longleftrightarrow> p * MEMUNIT_SZ < memsz"
    by (auto simp: n_def less_eq_div_iff_mult_less_eq Suc_le_eq [symmetric])
  have four: "T' PAGE_ADDRESS (p div 512 div 512 div 512) = level_entry 1 (table_address ?pdpt) (p div 512 div 512 div 512)"
    using entries(1) idx by simp
  have three: "T' (?pdpt + p div 512 div 512 div 512 * MEMUNIT_SZ) (p div 512 div 512 mod 512) =
      level_entry d (table_address ?pd) (p div 512 div 512)" if "p div 512 div 512 div 512 < 1"
    using entries(2) [OF that] by simp
  have two: "T' (?pd + p div 512 div 512 * MEMUNIT_SZ) (p div 512 mod 512) = level_entry t (table_address ?pt) (p div 512)"
    if "p div 512 div 512 < d"
    using entries(3) [OF that] by simp
  have one: "T' (?pt + p div 512 * MEMUNIT_SZ) (p mod 512) = level_entry n (\<lambda>no. no) p" if "p div 512 < t"
    using entries(4) [OF that] by simp
  have e3: "entry_base (level_entry 1 (table_address ?pdpt) (p div 512 div 512 div 512)) = ?pdpt + p div 512 div 512 div 512 * MEMUNIT_SZ"
    if "p div 512 div 512 div 512 < 1"
    using base [of _ 1 1] that by simp
  have e2: "entry_base (level_entry d (table_address ?pd) (p div 512 div 512)) = ?pd + p div 512 div 512 * MEMUNIT_SZ"
    if "p div 512 div 512 < d"
    using base [of "p div 512 div 512" d 2] that eq(6) by (simp add: add_ac)
  have e1: "entry_base (level_entry t (table_address ?pt) (p div 512)) = ?pt + p div 512 * MEMUNIT_SZ" if "p div 512 < t"
    using base [of "p div 512" t "2 + d"] that eq(4,6) by (simp add: algebra_simps)
  have i4: "p div 512 div 512 div 512 mod 512 = p div 512 div 512 div 512"
    using idx by simp
  have "get_physical_address T' PAGE_ADDRESS v = (if p < n then p * MEMUNIT_SZ + v mod MEMUNIT_SZ else NULL)"
  proof (cases "p < n")
    case True
    note lt = True up [OF True] up2 [OF up [OF True]] outer [OF up2 [OF up [OF True]]]
    show ?thesis
      unfolding get_physical_address_def Let_def i4 p_def [symmetric] four e3 [OF lt(4)] three [OF lt(4)] e2 [OF lt(3)]
        two [OF lt(3)] e1 [OF lt(2)] one [OF lt(2)] page [OF lt(1)]
      by (simp only: level_entry_simps lt simp_thms if_True if_False)
  next
    case False
    show ?thesis
    proof (cases "p div 512 div 512 div 512 < 1")
      case l3: True
      show ?thesis
        unfolding get_physical_address_def Let_def i4 p_def [symmetric] four e3 [OF l3] three [OF l3]
        using False two e2 one e1 by (auto simp: level_entry_simps)
    qed (use False in \<open>simp add: get_physical_address_def Let_def i4 p_def [symmetric] four level_entry_simps\<close>)
  qed
  moreover have "p * MEMUNIT_SZ + v mod MEMUNIT_SZ = v"
    by (simp add: p_def)
  ultimately show ?thesis
    using s below by (simp add: T'_def p_def)
qed

text \<open>
  C21. The page tables that the loader builds map the memory to itself: for a memory of at most 512 GiB, an address of
  the 48-bit address space translates to itself when its page starts below the end of the memory, and is unmapped
  otherwise.
\<close>

theorem setup_paging_identity:
  assumes "0 < memsz" "memsz \<le> 2 ^ 39" and "v < 2 ^ 48"
  shows "\<exists>pgd lim T'. setup_paging memsz T = Some (pgd, lim, T') \<and>
    get_physical_address T' pgd v = (if v div MEMUNIT_SZ * MEMUNIT_SZ < memsz then v else NULL)"
  by (rule setup_paging_translation [OF assms])

theorem setup_paging_identity_witness:
  "\<exists>pgd lim T'. setup_paging 8193 (\<lambda>_ _. zero_entry) = Some (pgd, lim, T') \<and> get_physical_address T' pgd 4099 = 4099"
  using setup_paging_identity [of 8193 4099 "\<lambda>_ _. zero_entry"] by simp

end
