(* ===== verification/VPages.thy ===== *)
theory VPages
  imports Paging
begin

text \<open>
  \<^verbatim>\<open>alloc_vpages\<close> of \<^verbatim>\<open>kernel/memory/pmm.c\<close>, whose definition is in \<^verbatim>\<open>Paging\<close>: the pages it maps are fresh and
  distinct, and the other addresses translate as before.  The free lists are fragmented, so a number of free pages
  does not suffice for the larger blocks; \<open>reserve\<close> measures how many requests can be served for certain.
\<close>

section \<open>What can be allocated\<close>

text \<open>The blocks of the largest order in full, and the smaller blocks up to one page less than such a block.\<close>

definition reserve :: "free_lists \<Rightarrow> nat" where
  "reserve A = 512 * length (A 9) + min (npages A - 512 * length (A 9)) 511"

text \<open>What a request of an order costs at most.\<close>

definition order_cost :: "nat \<Rightarrow> nat" where
  "order_cost order = (if order = 0 then 1 else 512)"

lemma npages_top: "npages A = (\<Sum>i<9. length (A i) * 2 ^ i) + 512 * length (A 9)"
proof -
  have "{..<10::nat} = insert 9 {..<9}" by auto
  then show ?thesis by (simp add: npages_def)
qed

lemma reserve_le: "reserve A \<le> npages A"
  by (simp add: reserve_def npages_top)

lemma spec_from_append:
  "spec_from (is @ js) A = (case spec_from is A of None \<Rightarrow> spec_from js A | Some r \<Rightarrow> Some r)"
  by (induction "is") (auto split: list.splits)

lemma spec_from_top:
  assumes "spec_from [order..<10] A = Some (a, 9, A1)" and "order \<le> 9"
  shows "\<forall>i\<in>{order..<9}. A i = []"
proof -
  have "[order..<10] = [order..<9] @ [9]"
    using assms(2) upt_Suc_append [of order 9] by simp
  then have "spec_from [order..<9] A = None"
    using assms(1) spec_from_SomeD [of "[order..<9]" A] by (auto simp: spec_from_append split: option.splits)
  then show ?thesis by (simp add: spec_from_None)
qed

lemma add_areas_other: "(\<And>j b. (j, b) \<in> set bs \<Longrightarrow> j \<noteq> i) \<Longrightarrow> add_areas bs A i = A i"
proof (induction bs arbitrary: A)
  case (Cons x bs)
  obtain j b where x: "x = (j, b)" by (cases x)
  have "j \<noteq> i" using Cons.prems [of j b] by (simp add: x)
  moreover have "add_areas bs (spec_add x A) i = spec_add x A i"
    by (rule Cons.IH) (use Cons.prems in auto)
  ultimately show ?case by (simp add: spec_add_def x)
qed simp

lemma bit_areas_orders: "(j, b) \<in> set (bit_areas is s p) \<Longrightarrow> j \<in> set is"
  by (induction "is" arbitrary: s p) (auto split: if_splits)

text \<open>A block of any order can be had while a block of the largest order is free.\<close>

lemma spec_alloc_order:
  assumes "order \<le> 9" and "spec_from [order..<10] A \<noteq> None" and "aligned A"
  shows "\<exists>a A'. spec_alloc order A = Some (a, A') \<and> npages A = npages A' + 2 ^ order \<and> aligned A' \<and> MEMUNIT_SZ dvd a
    \<and> (length (A' 9) = length (A 9) \<or>
       length (A 9) = Suc (length (A' 9)) \<and> (\<forall>i\<in>{order..<9}. A i = []))"
proof -
  obtain a give A1 where s: "spec_from [order..<10] A = Some (a, give, A1)" 
    using assms(2) by (metis not_None_eq prod_cases3)
  from spec_from_SomeD [OF s] obtain as where g: "order \<le> give" "give < 10" "A give = a # as" "A1 = A(give := as)"
    by auto
  let ?bs = "bit_areas [0..<9] (a + PAGES order) (2 ^ give - 2 ^ order)"
  let ?A = "add_areas ?bs A1"
  have "(give, a) \<in> free_blocks A" using g(3) by (simp add: free_blocks_def)
  then have a: "MEMUNIT_SZ dvd a" using assms(3) unfolding aligned_def by blast
  have A1: "npages A1 + 2 ^ give = npages A" using npages_upd [of give A as] g by simp
  have le: "(2::nat) ^ order \<le> 2 ^ give" "(2::nat) ^ give \<le> 512"
    using g(1,2) by (auto intro: power_increasing pow_le_512)
  have "nat (2 ^ give - 2 ^ order) = 2 ^ give - 2 ^ order"
    using le by (simp add: nat_diff_distrib nat_power_eq)
  moreover have "(2::nat) ^ give - 2 ^ order < 512"
    using le zero_less_power [of "2::nat" order] by linarith
  moreover have "(0::int) \<le> 2 ^ give - 2 ^ order" using g(1) by (simp add: power_increasing)
  ultimately have "npages ?A = npages A1 + (2 ^ give - 2 ^ order)"
    using npages_bit_areas [of "2 ^ give - 2 ^ order" 0 9 "a + PAGES order" A1] by simp
  then have n: "npages A = npages ?A + 2 ^ order" using A1 le(1) by linarith
  have p: "MEMUNIT_SZ dvd a + PAGES order" using a by (simp add: PAGES_def)
  have "free_blocks A1 \<subseteq> free_blocks A"
    unfolding g(4) by (auto simp: free_blocks_def g(3) split: if_splits)
  then have al: "aligned ?A"
    using assms(3) bit_areas_aligned [OF p] unfolding aligned_def free_blocks_add_areas by blast
  have "?A 9 = A1 9" by (rule add_areas_other) (auto dest: bit_areas_orders)
  then have "length (?A 9) = length (A 9) \<or> length (A 9) = Suc (length (?A 9)) \<and> (\<forall>i\<in>{order..<9}. A i = [])"
    using g(3,4) spec_from_top [of order A a A1] s assms(1) by (cases "give = 9") auto
  then show ?thesis using s n al a by (auto simp: spec_alloc_def)
qed

lemma reserve_served:
  assumes "order \<le> 9" and "order_cost order \<le> reserve A"
  shows "spec_from [order..<10] A \<noteq> None"
proof
  assume "spec_from [order..<10] A = None"
  then have none: "\<forall>i\<in>{order..<10}. A i = []" by (auto simp: spec_from_None)
  then have "A 9 = []" using assms(1) by simp
  moreover from this have "order \<noteq> 0 \<or> npages A = 0" using none by (auto simp: npages_def)
  ultimately show False using assms(2) by (auto simp: reserve_def order_cost_def split: if_splits)
qed

lemma spec_alloc_reserve:
  assumes "order \<le> 9" and "order_cost order \<le> reserve A" and "aligned A"
  shows "\<exists>a A'. spec_alloc order A = Some (a, A') \<and> aligned A' \<and> MEMUNIT_SZ dvd a
    \<and> npages A = npages A' + 2 ^ order \<and> reserve A \<le> reserve A' + order_cost order"
proof -
  obtain a A' where a: "spec_alloc order A = Some (a, A')" "npages A = npages A' + 2 ^ order" "aligned A'"
      "MEMUNIT_SZ dvd a" and top: "length (A' 9) = length (A 9) \<or>
       length (A 9) = Suc (length (A' 9)) \<and> (\<forall>i\<in>{order..<9}. A i = [])"
    using spec_alloc_order [OF assms(1) reserve_served [OF assms(1,2)] assms(3)] by blast
  have le: "(2::nat) ^ order \<le> 512" using assms(1) by (rule pow_le_512)
  have "512 * length (A 9) \<le> npages A" "512 * length (A' 9) \<le> npages A'" by (simp_all add: npages_top)
  moreover have "npages A = 512 * length (A 9)" if "order = 0" "length (A 9) \<noteq> length (A' 9)"
    using top that by (auto simp: npages_top)
  ultimately have "reserve A \<le> reserve A' + order_cost order"
    using a(2) top le unfolding reserve_def order_cost_def by (cases "order = 0") (auto simp: min_def)
  then show ?thesis using a by blast
qed

text \<open>Taking single pages costs one each.\<close>

lemma page_taken_reserve:
  assumes "page_taken\<^sup>*\<^sup>* A A'" and "aligned A"
  shows "aligned A' \<and> npages A' \<le> npages A \<and> reserve A \<le> reserve A' + (npages A - npages A')"
  using assms
proof (induction rule: rtranclp_induct)
  case (step B C)
  then obtain a where a: "spec_alloc 0 B = Some (a, C)" by (auto simp: page_taken_def)
  have "spec_from [0..<10] B \<noteq> None" using a by (auto simp: spec_alloc_def)
  then have n: "npages B = Suc (npages C)" "aligned C"
    using spec_alloc_order [of 0 B] step a by auto
  then have "0 < npages B" by simp
  then have "order_cost 0 \<le> reserve B"
    by (cases "B 9") (auto simp: reserve_def order_cost_def)
  then have "reserve B \<le> reserve C + 1"
    using spec_alloc_reserve [of 0 B] step a by (auto simp: order_cost_def)
  then show ?case using step n by auto
qed simp

section \<open>Fresh ranges\<close>

text \<open>
  From \<open>st\<close> to \<open>st'\<close> the \<open>len\<close> addresses from \<open>lo\<close> on were mapped to distinct addresses that were free in \<open>A\<close> and
  neither are free in \<open>A'\<close> nor hold tables; nothing else changed for the programs.
\<close>

definition fresh_range :: "ptr \<Rightarrow> nat \<Rightarrow> nat \<Rightarrow> vmem \<Rightarrow> free_lists \<Rightarrow> vmem \<Rightarrow> free_lists \<Rightarrow> bool" where
  "fresh_range pgd lo len st A st' A' \<longleftrightarrow>
     (\<exists>f. (\<forall>v < 2 ^ 48. translate (vm_tables st') pgd v =
             (if lo \<le> v \<and> v < lo + len then Some (f v) else translate (vm_tables st) pgd v))
        \<and> inj_on f {lo..<lo + len}
        \<and> f ` {lo..<lo + len} \<subseteq> free_mem A - (free_mem A' \<union> table_set (vm_tables st') pgd))
     \<and> (\<forall>p. p \<notin> free_mem A \<longrightarrow> vm_bytes st' p = vm_bytes st p) \<and> free_mem A' \<subseteq> free_mem A
     \<and> table_set (vm_tables st') pgd \<subseteq> table_set (vm_tables st) pgd \<union> free_mem A"

lemma fresh_rangeI:
  assumes "\<And>v. v < 2 ^ 48 \<Longrightarrow> translate (vm_tables st') pgd v =
      (if lo \<le> v \<and> v < lo + len then Some (f v) else translate (vm_tables st) pgd v)"
    and "inj_on f {lo..<lo + len}" and "f ` {lo..<lo + len} \<subseteq> free_mem A - (free_mem A' \<union> table_set (vm_tables st') pgd)"
    and "\<forall>p. p \<notin> free_mem A \<longrightarrow> vm_bytes st' p = vm_bytes st p" and "free_mem A' \<subseteq> free_mem A"
    and "table_set (vm_tables st') pgd \<subseteq> table_set (vm_tables st) pgd \<union> free_mem A"
  shows "fresh_range pgd lo len st A st' A'"
  unfolding fresh_range_def using assms by (intro conjI exI [of _ f]) simp_all

lemma fresh_range_refl: "fresh_range pgd lo 0 st A st A"
  unfolding fresh_range_def by (auto intro!: exI [of _ id])

lemma fresh_range_trans:
  assumes a: "fresh_range pgd lo m st1 A1 st2 A2" and b: "fresh_range pgd (lo + m) n st2 A2 st3 A3"
  shows "fresh_range pgd lo (m + n) st1 A1 st3 A3"
proof -
  let ?t = "\<lambda>st. table_set (vm_tables st) pgd"
  obtain f where f: "\<forall>v < 2 ^ 48. translate (vm_tables st2) pgd v =
      (if lo \<le> v \<and> v < lo + m then Some (f v) else translate (vm_tables st1) pgd v)"
      "inj_on f {lo..<lo + m}" "f ` {lo..<lo + m} \<subseteq> free_mem A1 - (free_mem A2 \<union> ?t st2)"
    using a unfolding fresh_range_def by blast
  obtain g where g: "\<forall>v < 2 ^ 48. translate (vm_tables st3) pgd v =
      (if lo + m \<le> v \<and> v < lo + m + n then Some (g v) else translate (vm_tables st2) pgd v)"
      "inj_on g {lo + m..<lo + m + n}" "g ` {lo + m..<lo + m + n} \<subseteq> free_mem A2 - (free_mem A3 \<union> ?t st3)"
    using b unfolding fresh_range_def by blast
  have sub: "free_mem A2 \<subseteq> free_mem A1" "free_mem A3 \<subseteq> free_mem A2" "?t st3 \<subseteq> ?t st2 \<union> free_mem A2"
      "?t st2 \<subseteq> ?t st1 \<union> free_mem A1"
    using a b unfolding fresh_range_def by blast+
  let ?h = "\<lambda>v. if v \<in> {lo..<lo + m} then f v else g v"
  have h: "?h ` {lo..<lo + m} = f ` {lo..<lo + m}" "?h ` {lo + m..<lo + m + n} = g ` {lo + m..<lo + m + n}"
    by (rule image_cong; simp)+
  have U: "{lo..<lo + (m + n)} = {lo..<lo + m} \<union> {lo + m..<lo + m + n}" by auto
  have "f ` {lo..<lo + m} \<inter> g ` {lo + m..<lo + m + n} = {}"
    using f(3) g(3) by blast
  then have inj: "inj_on ?h {lo..<lo + (m + n)}"
    unfolding U by (rule inj_on_disjoint_Un [OF f(2) g(2)])
  have img: "?h ` {lo..<lo + (m + n)} \<subseteq> free_mem A1 - (free_mem A3 \<union> ?t st3)"
    unfolding U image_Un h using f(3) g(3) sub by blast
  show ?thesis
  proof (rule fresh_rangeI [OF _ inj img])
    fix v :: nat
    assume v: "v < 2 ^ 48"
    show "translate (vm_tables st3) pgd v =
        (if lo \<le> v \<and> v < lo + (m + n) then Some (?h v) else translate (vm_tables st1) pgd v)"
      unfolding g(1) [rule_format, OF v] f(1) [rule_format, OF v] by auto
  next
    show "\<forall>p. p \<notin> free_mem A1 \<longrightarrow> vm_bytes st3 p = vm_bytes st1 p"
      using a b unfolding fresh_range_def by (metis subset_iff)
  qed (use sub in blast)+
qed

lemma fresh_range_physical:
  assumes "fresh_range pgd lo len st A st' A'" and "lo + len \<le> 2 ^ 48"
  shows "inj_on (get_physical_address (vm_tables st') pgd) {lo..<lo + len}"
    and "get_physical_address (vm_tables st') pgd ` {lo..<lo + len} \<subseteq> free_mem A - free_mem A'"
    and "v < 2 ^ 48 \<Longrightarrow> v < lo \<or> lo + len \<le> v \<Longrightarrow>
      get_physical_address (vm_tables st') pgd v = get_physical_address (vm_tables st) pgd v"
proof -
  obtain f where f: "\<forall>v < 2 ^ 48. translate (vm_tables st') pgd v =
      (if lo \<le> v \<and> v < lo + len then Some (f v) else translate (vm_tables st) pgd v)"
      "inj_on f {lo..<lo + len}" "f ` {lo..<lo + len} \<subseteq> free_mem A - (free_mem A' \<union> table_set (vm_tables st') pgd)"
    using assms(1) unfolding fresh_range_def by blast
  have g: "get_physical_address (vm_tables st') pgd v = f v" if "v \<in> {lo..<lo + len}" for v
    using f(1) [rule_format, of v] that assms(2) by (simp add: get_physical_address_translate)
  show "inj_on (get_physical_address (vm_tables st') pgd) {lo..<lo + len}"
    using f(2) g by (simp add: inj_on_def)
  show "get_physical_address (vm_tables st') pgd ` {lo..<lo + len} \<subseteq> free_mem A - free_mem A'"
    using f(3) g by (auto simp: image_subset_iff)
  show "get_physical_address (vm_tables st') pgd v = get_physical_address (vm_tables st) pgd v"
    if "v < 2 ^ 48" "v < lo \<or> lo + len \<le> v"
    using f(1) [rule_format, OF that(1)] that(2) by (auto simp: get_physical_address_translate)
qed

section \<open>One block\<close>

lemma page_range:
  assumes "MEMUNIT_SZ dvd w" and "MEMUNIT_SZ dvd a"
  shows "(if w div MEMUNIT_SZ \<le> v div MEMUNIT_SZ \<and> v div MEMUNIT_SZ < w div MEMUNIT_SZ + 2 ^ order
       then Some ((a div MEMUNIT_SZ + (v div MEMUNIT_SZ - w div MEMUNIT_SZ)) * MEMUNIT_SZ + v mod MEMUNIT_SZ) else r) =
    (if w \<le> v \<and> v < w + PAGES order then Some (a + (v - w)) else r)"
proof -
  obtain q b where q: "w = MEMUNIT_SZ * q" "a = MEMUNIT_SZ * b" using assms unfolding dvd_def by blast
  have v: "v = v div MEMUNIT_SZ * MEMUNIT_SZ + v mod MEMUNIT_SZ" "v mod MEMUNIT_SZ < MEMUNIT_SZ" by simp_all
  have "w \<le> v \<longleftrightarrow> q \<le> v div MEMUNIT_SZ" "v < w + PAGES order \<longleftrightarrow> v div MEMUNIT_SZ < q + 2 ^ order"
    unfolding q PAGES_def by (auto simp: less_eq_div_iff_mult_less_eq div_less_iff_less_mult algebra_simps)
  moreover have "(b + (v div MEMUNIT_SZ - q)) * MEMUNIT_SZ + v mod MEMUNIT_SZ = a + (v - w)" if "q \<le> v div MEMUNIT_SZ"
    using v that unfolding q by (simp add: algebra_simps diff_mult_distrib2)
  ultimately show ?thesis using q by auto
qed

lemma leaf_tables_block: "order \<le> 9 \<Longrightarrow> leaf_tables p (2 ^ order) \<le> 2"
proof -
  assume "order \<le> 9"
  then have "(2::nat) ^ order \<le> 512" by (rule pow_le_512)
  then have "p + 2 ^ order - 1 \<le> p + 511" by simp
  then have "(p + 2 ^ order - 1) div 512 \<le> (p + 511) div 512" by (rule div_le_mono)
  then show "leaf_tables p (2 ^ order) \<le> 2" by (simp add: leaf_tables_def)
qed

lemma alloc_map_ok:
  assumes inv: "vm_inv st xs A pgd" and order: "order \<le> 9"
    and room: "63 \<le> slots xs" "order_cost order + 6 \<le> reserve A"
    and v: "MEMUNIT_SZ dvd vaddr" "vaddr + PAGES order \<le> 2 ^ 48"
  shows "\<exists>st' ys A'. alloc_map (Suc n) pgd vaddr order st = Some st' \<and> vm_inv st' ys A' pgd
    \<and> fresh_range pgd vaddr (PAGES order) st A st' A'
    \<and> slots xs \<le> slots ys + 63 \<and> reserve A \<le> reserve A' + order_cost order + 6"
proof -
  have I: "pmm_inv (vm_km st) xs A" "no_overlap A" "aligned A" "free_mem A \<subseteq> {MEMUNIT_SZ ..< 2 ^ 39}"
      "tree_ok (vm_tables st) pgd" "table_set (vm_tables st) pgd \<inter> free_mem A = {}"
    using inv by (auto simp: vm_inv_def)
  obtain a A1 where a: "spec_alloc order A = Some (a, A1)" "aligned A1" "MEMUNIT_SZ dvd a"
      "reserve A \<le> reserve A1 + order_cost order"
    using spec_alloc_reserve [OF order _ I(3)] room(2) by auto
  obtain km x1 where k: "alloc_pages (Suc n) order (vm_km st) = Some (a, km)" "pmm_inv km x1 A1" "slots xs \<le> slots x1 + 9"
    using alloc_pages_spec [OF I(1) _ a(1), of n] room(1) by auto
  note m = spec_alloc_memory [OF a(1) I(2)]
  let ?s = "st\<lparr>vm_km := km\<rparr>"
  have i1: "vm_inv ?s x1 A1 pgd"
    using I k(2) m a(2) by (auto simp: vm_inv_def)
  have "a + (PAGES order - 1) \<in> block (order, a)"
    using PAGES_pos [of order] by (simp add: block_def)
  then have "a + (PAGES order - 1) < 2 ^ 39" using m(3) I(4) by auto
  then have hi: "a + (0 + 2 ^ order) * MEMUNIT_SZ \<le> 2 ^ 39" using PAGES_pos [of order] by (simp add: PAGES_def)
  have v': "vaddr + (0 + 2 ^ order) * MEMUNIT_SZ \<le> 2 ^ 48" using v(2) by (simp add: PAGES_def)
  let ?m = "missing ?s pgd (vaddr div MEMUNIT_SZ + 0) (2 ^ order)"
  have "?m \<le> 2" using leaf_tables_block [OF order] missing_le le_trans by blast
  then have "27 * ?m \<le> slots x1" "3 * ?m \<le> npages A1"
    using room k(3) a(4) reserve_le [of A1] by linarith+
  note room = this
  have "(2 :: nat) ^ order \<le> 2 ^ 19" using order by (intro power_increasing) auto
  then have "0 + 2 ^ order \<le> (2 :: nat) ^ 19" by simp
  from set_mapping_loop_ok [OF i1 room hi v(1) v' this, of n True True] obtain st' ys A' where
    s: "set_mapping_loop (Suc n) pgd vaddr a True True [0..<2 ^ order] ?s = Some (True, st')" "vm_inv st' ys A' pgd"
      "\<forall>v < 2 ^ 48. translate (vm_tables st') pgd v =
        (if vaddr div MEMUNIT_SZ \<le> v div MEMUNIT_SZ \<and> v div MEMUNIT_SZ < vaddr div MEMUNIT_SZ + 2 ^ order
         then Some ((a div MEMUNIT_SZ + (v div MEMUNIT_SZ - vaddr div MEMUNIT_SZ)) * MEMUNIT_SZ + v mod MEMUNIT_SZ)
         else translate (vm_tables st) pgd v)"
      "tables_frame ?s st' pgd A1 A'"
      "slots x1 \<le> slots ys + 27 * ?m" "npages A1 \<le> npages A' + 3 * ?m"
    by (auto simp del: upt_conv_Nil)
  have "alloc_map (Suc n) pgd vaddr order st = Some st'"
    using k(1) s(1) v(1) by (simp add: alloc_map_def set_mapping_def)
  moreover have "fresh_range pgd vaddr (PAGES order) st A st' A'"
  proof -
    have img: "(\<lambda>v. a + (v - vaddr)) ` {vaddr..<vaddr + PAGES order} \<subseteq> block (order, a)"
      by (auto simp: block_def)
    have t: "translate (vm_tables st') pgd v = (if vaddr \<le> v \<and> v < vaddr + PAGES order then Some (a + (v - vaddr))
        else translate (vm_tables st) pgd v)" if "v < 2 ^ 48" for v
      unfolding s(3) [rule_format, OF that] by (rule page_range [OF v(1) a(3)])
    have "\<forall>p. p \<notin> free_mem A \<longrightarrow> vm_bytes st' p = vm_bytes st p"
      using s(4) m(3) unfolding tables_frame_def by auto
    note bytes = this
    have "free_mem A' \<subseteq> free_mem A1" "table_set (vm_tables st') pgd \<subseteq> table_set (vm_tables st) pgd \<union> free_mem A1"
      using s(4) by (auto simp: tables_frame_def)
    then have "(\<lambda>v. a + (v - vaddr)) ` {vaddr..<vaddr + PAGES order} \<subseteq>
        free_mem A - (free_mem A' \<union> table_set (vm_tables st') pgd)"
      using img m(2,3) I(6) by blast
    then show ?thesis
      using \<open>free_mem A' \<subseteq> free_mem A1\<close> \<open>table_set (vm_tables st') pgd \<subseteq> _\<close> m(3) bytes
      by (intro fresh_rangeI [OF t]) (auto simp: inj_on_def)
  qed
  moreover have "reserve A1 \<le> reserve A' + (npages A1 - npages A')"
    using page_taken_reserve [of A1 A'] s(4) a(2) by (auto simp: tables_frame_def)
  then have "reserve A \<le> reserve A' + order_cost order + 6"
    using a(4) s(6) \<open>?m \<le> 2\<close> by linarith
  moreover have "slots xs \<le> slots ys + 63" using k(3) s(5) \<open>?m \<le> 2\<close> by linarith
  ultimately show ?thesis using s(2) by blast
qed

section \<open>The loop over the bits and the largest blocks\<close>

text \<open>The cost of the requests for the bits of \<open>p\<close>.\<close>

fun bits_cost :: "nat list \<Rightarrow> nat \<Rightarrow> nat" where
  "bits_cost [] p = 0"
| "bits_cost (i # is) p = (if odd p then order_cost i + 6 else 0) + bits_cost is (p div 2)"

lemma alloc_bits_ok:
  assumes "vm_inv st xs A pgd" and "k + m \<le> 10"
    and "63 * m \<le> slots xs" and "bits_cost [k..<k + m] p \<le> reserve A"
    and "MEMUNIT_SZ dvd w" and "w + PAGES 0 * (2 ^ k * (p mod 2 ^ m)) \<le> 2 ^ 48"
  shows "\<exists>st' ys A'. alloc_bits (Suc n) pgd [k..<k + m] w (int p) st =
       Some (w + PAGES 0 * (2 ^ k * (p mod 2 ^ m)), int (p div 2 ^ m), st') \<and> vm_inv st' ys A' pgd
    \<and> fresh_range pgd w (PAGES 0 * (2 ^ k * (p mod 2 ^ m))) st A st' A'
    \<and> slots xs \<le> slots ys + 63 * m \<and> reserve A \<le> reserve A' + bits_cost [k..<k + m] p"
  using assms
proof (induction m arbitrary: k st xs A w p)
  case 0
  then show ?case
    by (intro exI [of _ st] exI [of _ xs] exI [of _ A]) (simp add: fresh_range_refl)
next
  case (Suc m)
  have up: "[k..<k + Suc m] = k # [Suc k..<Suc k + m]" by (simp add: upt_conv_Cons)
  have odd: "odd (int p) \<longleftrightarrow> odd p" "int p div 2 = int (p div 2)" by (simp_all add: zdiv_int)
  have split: "2 ^ k * (p mod 2 ^ Suc m) = 2 ^ Suc k * (p div 2 mod 2 ^ m) + (if odd p then 2 ^ k else 0)"
    using mod_mult2_eq [of p 2 "2 ^ m"] by (auto simp: algebra_simps odd_iff_mod_2_eq_one)
  have dv: "p div 2 ^ Suc m = p div 2 div 2 ^ m" by (simp add: div_mult2_eq)
  have pg: "PAGES k = PAGES 0 * 2 ^ k" by (simp add: PAGES_def)
  show ?case
  proof (cases "odd p")
    case True
    have w: "w + PAGES k \<le> 2 ^ 48"
      using Suc.prems(6) True unfolding split pg by (simp add: algebra_simps)
    have "63 \<le> slots xs" "order_cost k + 6 \<le> reserve A"
      using Suc.prems(3,4) True unfolding up by simp_all
    from alloc_map_ok [OF Suc.prems(1) _ this Suc.prems(5) w, of n] Suc.prems(2) obtain s1 ys A1 where
      s1: "alloc_map (Suc n) pgd w k st = Some s1" "vm_inv s1 ys A1 pgd" "fresh_range pgd w (PAGES k) st A s1 A1"
        "slots xs \<le> slots ys + 63" "reserve A \<le> reserve A1 + order_cost k + 6" by auto
    have "63 * m \<le> slots ys"
      using Suc.prems(3) s1(4) by simp
    moreover have "bits_cost [Suc k..<Suc k + m] (p div 2) \<le> reserve A1"
      using Suc.prems(4) s1(5) True unfolding up by simp
    moreover have "MEMUNIT_SZ dvd w + PAGES k" using Suc.prems(5) by (simp add: PAGES_def)
    moreover have "w + PAGES k + PAGES 0 * (2 ^ Suc k * (p div 2 mod 2 ^ m)) \<le> 2 ^ 48"
      using Suc.prems(6) True unfolding split pg by (simp add: algebra_simps)
    ultimately have IH: "Suc k + m \<le> 10" "63 * m \<le> slots ys"
        "bits_cost [Suc k..<Suc k + m] (p div 2) \<le> reserve A1"
        "MEMUNIT_SZ dvd w + PAGES k" "w + PAGES k + PAGES 0 * (2 ^ Suc k * (p div 2 mod 2 ^ m)) \<le> 2 ^ 48"
      using Suc.prems(2) by simp_all
    from Suc.IH [OF s1(2) this] obtain s2 zs A2 where
      s2: "alloc_bits (Suc n) pgd [Suc k..<Suc k + m] (w + PAGES k) (int (p div 2)) s1 =
          Some (w + PAGES k + PAGES 0 * (2 ^ Suc k * (p div 2 mod 2 ^ m)), int (p div 2 div 2 ^ m), s2)"
        "vm_inv s2 zs A2 pgd"
        "fresh_range pgd (w + PAGES k) (PAGES 0 * (2 ^ Suc k * (p div 2 mod 2 ^ m))) s1 A1 s2 A2"
        "slots ys \<le> slots zs + 63 * m"
        "reserve A1 \<le> reserve A2 + bits_cost [Suc k..<Suc k + m] (p div 2)"
      by blast
    have len: "PAGES k + PAGES 0 * (2 ^ Suc k * (p div 2 mod 2 ^ m)) = PAGES 0 * (2 ^ k * (p mod 2 ^ Suc m))"
      using True unfolding split pg by (simp add: algebra_simps)
    have "alloc_bits (Suc n) pgd [k..<k + Suc m] w (int p) st =
        Some (w + PAGES 0 * (2 ^ k * (p mod 2 ^ Suc m)), int (p div 2 ^ Suc m), s2)"
      unfolding up dv len [symmetric] using True s1(1) s2(1) by (simp add: odd add.assoc del: upt_Suc)
    moreover have "slots xs \<le> slots zs + 63 * Suc m"
      using s1(4) s2(4) True unfolding split by simp
    moreover have "reserve A \<le> reserve A2 + bits_cost [k..<k + Suc m] p"
      using s1(5) s2(5) True unfolding split up by simp
    ultimately show ?thesis
      using s2(2) fresh_range_trans [OF s1(3) s2(3)] unfolding len by blast
  next
    case False
    then have len: "2 ^ k * (p mod 2 ^ Suc m) = 2 ^ Suc k * (p div 2 mod 2 ^ m)" unfolding split by simp
    have "63 * m \<le> slots xs"
      using Suc.prems(3) unfolding len by simp
    moreover have "bits_cost [Suc k..<Suc k + m] (p div 2) \<le> reserve A"
      using Suc.prems(4) False unfolding len up by simp
    ultimately have IH: "Suc k + m \<le> 10" "63 * m \<le> slots xs"
        "bits_cost [Suc k..<Suc k + m] (p div 2) \<le> reserve A"
        "MEMUNIT_SZ dvd w" "w + PAGES 0 * (2 ^ Suc k * (p div 2 mod 2 ^ m)) \<le> 2 ^ 48"
      using Suc.prems(2,5,6) unfolding len by simp_all
    from Suc.IH [OF Suc.prems(1) this] obtain s2 zs A2 where
      s2: "alloc_bits (Suc n) pgd [Suc k..<Suc k + m] w (int (p div 2)) st =
          Some (w + PAGES 0 * (2 ^ Suc k * (p div 2 mod 2 ^ m)), int (p div 2 div 2 ^ m), s2)"
        "vm_inv s2 zs A2 pgd" "fresh_range pgd w (PAGES 0 * (2 ^ Suc k * (p div 2 mod 2 ^ m))) st A s2 A2"
        "slots xs \<le> slots zs + 63 * m"
        "reserve A \<le> reserve A2 + bits_cost [Suc k..<Suc k + m] (p div 2)"
      by blast
    have "alloc_bits (Suc n) pgd [k..<k + Suc m] w (int p) st =
        Some (w + PAGES 0 * (2 ^ k * (p mod 2 ^ Suc m)), int (p div 2 ^ Suc m), s2)"
      unfolding up dv len using False s2(1) by (simp add: odd del: upt_Suc)
    moreover have "slots xs \<le> slots zs + 63 * Suc m"
      using s2(4) unfolding len by simp
    moreover have "reserve A \<le> reserve A2 + bits_cost [k..<k + Suc m] p"
      using s2(5) False unfolding len up by simp
    ultimately show ?thesis using s2(2,3) unfolding len by blast
  qed
qed

lemma alloc_max_ok:
  assumes "vm_inv st xs A pgd" and "63 * m \<le> slots xs" and "518 * m \<le> reserve A"
    and "MEMUNIT_SZ dvd w" and "w + PAGES 9 * m \<le> 2 ^ 48"
  shows "\<exists>st' ys A'. alloc_max (Suc n) pgd m w st = Some st' \<and> vm_inv st' ys A' pgd
    \<and> fresh_range pgd w (PAGES 9 * m) st A st' A'
    \<and> slots xs \<le> slots ys + 63 * m \<and> reserve A \<le> reserve A' + 518 * m"
  using assms
proof (induction m arbitrary: st xs A w)
  case 0
  then show ?case
    by (intro exI [of _ st] exI [of _ xs] exI [of _ A]) (simp add: fresh_range_refl)
next
  case (Suc m)
  have cost: "order_cost 9 = 512" by (simp add: order_cost_def)
  have "63 \<le> slots xs" "order_cost 9 + 6 \<le> reserve A" "w + PAGES 9 \<le> 2 ^ 48"
    using Suc.prems(2,3,5) cost by simp_all
  from alloc_map_ok [OF Suc.prems(1) _ this(1,2) Suc.prems(4) this(3), of n] obtain s1 ys A1 where
    s1: "alloc_map (Suc n) pgd w 9 st = Some s1" "vm_inv s1 ys A1 pgd" "fresh_range pgd w (PAGES 9) st A s1 A1"
      "slots xs \<le> slots ys + 63" "reserve A \<le> reserve A1 + order_cost 9 + 6" by auto
  have "63 * m \<le> slots ys" "518 * m \<le> reserve A1" "MEMUNIT_SZ dvd w + PAGES 9"
      "w + PAGES 9 + PAGES 9 * m \<le> 2 ^ 48"
    using Suc.prems(2-5) s1(4,5) cost by (simp_all add: PAGES_def)
  from Suc.IH [OF s1(2) this] obtain s2 zs A2 where
    s2: "alloc_max (Suc n) pgd m (w + PAGES 9) s1 = Some s2" "vm_inv s2 zs A2 pgd"
      "fresh_range pgd (w + PAGES 9) (PAGES 9 * m) s1 A1 s2 A2"
      "slots ys \<le> slots zs + 63 * m" "reserve A1 \<le> reserve A2 + 518 * m" by blast
  have "alloc_max (Suc n) pgd (Suc m) w st = Some s2"
    using s1(1) s2(1) by (simp add: MAX_ORDER_def)
  moreover have "fresh_range pgd w (PAGES 9 * Suc m) st A s2 A2"
    using fresh_range_trans [OF s1(3) s2(3)] by simp
  moreover have "slots xs \<le> slots zs + 63 * Suc m" "reserve A \<le> reserve A2 + 518 * Suc m"
    using s1(4,5) s2(4,5) cost by simp_all
  ultimately show ?case using s2(2) by blast
qed

text \<open>What a request for \<open>pages\<close> pages takes from the reserve, and from the slots of the heap.\<close>

definition vpages_cost :: "nat \<Rightarrow> nat" where
  "vpages_cost pages = bits_cost [0..<9] pages + 518 * (pages div 512)"

definition vpages_slots :: "nat \<Rightarrow> nat" where
  "vpages_slots pages = 567 + 63 * (pages div 512)"

lemma alloc_vpages_ok:
  assumes "vm_inv st xs A pgd" and "vpages_slots pages \<le> slots xs" and "vpages_cost pages \<le> reserve A"
    and "MEMUNIT_SZ dvd addr" and "addr + pages * MEMUNIT_SZ \<le> 2 ^ 48"
  shows "\<exists>st' ys A'. alloc_vpages (Suc n) pgd addr (int pages) st = Some st' \<and> vm_inv st' ys A' pgd
    \<and> fresh_range pgd addr (pages * MEMUNIT_SZ) st A st' A'
    \<and> slots xs \<le> slots ys + vpages_slots pages \<and> reserve A \<le> reserve A' + vpages_cost pages"
proof -
  define lo where "lo = pages mod 512"
  define hi where "hi = pages div 512"
  have p: "pages = lo + 512 * hi" by (simp add: lo_def hi_def)
  have up: "[0..<9] = [0..<0 + 9]" and e: "2 ^ 0 * (pages mod 2 ^ 9) = lo" "pages div 2 ^ 9 = hi"
    by (simp_all add: lo_def hi_def)
  note costs = assms(2,3) [unfolded vpages_slots_def vpages_cost_def, folded hi_def, unfolded p]
  have a: "0 + 9 \<le> (10::nat)" "63 * 9 \<le> slots xs" "bits_cost [0..<0 + 9] pages \<le> reserve A"
      "addr + PAGES 0 * lo \<le> 2 ^ 48"
    using costs assms(5) by (simp_all add: p PAGES_def)
  from alloc_bits_ok [OF assms(1) a(1), of pages addr n, unfolded e, OF a(2,3) assms(4) a(4)] obtain s1 ys A1 where
    s1: "alloc_bits (Suc n) pgd [0..<0 + 9] addr (int pages) st = Some (addr + PAGES 0 * lo, int hi, s1)"
      "vm_inv s1 ys A1 pgd" "fresh_range pgd addr (PAGES 0 * lo) st A s1 A1" "slots xs \<le> slots ys + 63 * 9"
      "reserve A \<le> reserve A1 + bits_cost [0..<0 + 9] pages" by blast
  have b: "63 * hi \<le> slots ys" "518 * hi \<le> reserve A1" "MEMUNIT_SZ dvd addr + PAGES 0 * lo"
      "addr + PAGES 0 * lo + PAGES 9 * hi \<le> 2 ^ 48"
    using costs s1(4,5) assms(4,5) by (simp_all add: p PAGES_def)
  from alloc_max_ok [OF s1(2) b, of n] obtain s2 zs A2 where
    s2: "alloc_max (Suc n) pgd hi (addr + PAGES 0 * lo) s1 = Some s2" "vm_inv s2 zs A2 pgd"
      "fresh_range pgd (addr + PAGES 0 * lo) (PAGES 9 * hi) s1 A1 s2 A2" "slots ys \<le> slots zs + 63 * hi"
      "reserve A1 \<le> reserve A2 + 518 * hi" by blast
  have "alloc_vpages (Suc n) pgd addr (int pages) st = Some s2"
    using s1(1) s2(1) by (simp add: alloc_vpages_def MAX_ORDER_def)
  moreover have "PAGES 0 * lo + PAGES 9 * hi = pages * MEMUNIT_SZ"
    by (simp add: p PAGES_def)
  then have "fresh_range pgd addr (pages * MEMUNIT_SZ) st A s2 A2"
    using fresh_range_trans [OF s1(3) s2(3)] by simp
  moreover have "slots xs \<le> slots zs + vpages_slots pages" "reserve A \<le> reserve A2 + vpages_cost pages"
    using s1(4,5) s2(4,5) unfolding vpages_slots_def vpages_cost_def hi_def [symmetric] by (simp_all add: p)
  ultimately show ?thesis using s2(2) by blast
qed

section \<open>Properties\<close>

text \<open>The memory of the segments of the kernel's heap, headers included.\<close>

definition heap_mem :: "seg list \<Rightarrow> ptr set" where
  "heap_mem xs = (\<Union>(a, z, _)\<in>set xs. {a..<a + z})"

text \<open>
  C6. \<^verbatim>\<open>alloc_vpages\<close> at a page boundary: with the reserve and the heap slots for \<open>pages\<close> pages it returns, and every
  address of the range translates to an address of its own that was free and is no longer free, while every other
  address translates as before.  The pages taken for new tables are cleared; outside the memory that was free, the
  tables of the page directory and the heap of the kernel, every byte keeps its value (the variables of the
  allocator, such as the heads of its lists, are fields of the state and not bytes).
\<close>

theorem alloc_vpages_fresh:
  assumes "vm_inv st xs A pgd" and "vpages_slots pages \<le> slots xs" and "vpages_cost pages \<le> reserve A"
    and "4096 dvd addr" and "addr + pages * 4096 \<le> 2 ^ 48"
  shows "\<exists>st' ys A'. alloc_vpages (Suc n) pgd addr (int pages) st = Some st' \<and> vm_inv st' ys A' pgd
    \<and> inj_on (get_physical_address (vm_tables st') pgd) {addr..<addr + pages * 4096}
    \<and> get_physical_address (vm_tables st') pgd ` {addr..<addr + pages * 4096} \<subseteq> free_mem A - free_mem A'
    \<and> (\<forall>v < 2 ^ 48. v < addr \<or> addr + pages * 4096 \<le> v \<longrightarrow>
         get_physical_address (vm_tables st') pgd v = get_physical_address (vm_tables st) pgd v)
    \<and> (\<forall>p. p \<notin> free_mem A \<longrightarrow> (\<forall>t\<in>table_set (vm_tables st) pgd. p \<notin> {t..<t + 4096})
         \<longrightarrow> p \<notin> heap_mem xs \<longrightarrow> vm_bytes st' p = vm_bytes st p)"
proof -
  obtain st' ys A' where s: "alloc_vpages (Suc n) pgd addr (int pages) st = Some st'" "vm_inv st' ys A' pgd"
      "fresh_range pgd addr (pages * 4096) st A st' A'"
    using alloc_vpages_ok [OF assms, of n] by blast
  then show ?thesis using fresh_range_physical [OF s(3) assms(5)] s(3) by (auto simp: fresh_range_def)
qed

lemma reserve_example: "reserve (\<lambda>i. if i = 9 then [2097152] else []) = 512"
  by (simp add: reserve_def npages_example)

theorem alloc_vpages_fresh_witness:
  "\<exists>st'. alloc_vpages 1 4194304 8192 1 example_vmem = Some st'
    \<and> get_physical_address (vm_tables st') 4194304 ` {8192..<12288} \<subseteq> {2097152..<4194304}"
proof -
  let ?A = "\<lambda>i. if i = 9 then [2097152] else []"
  have "vpages_slots 1 \<le> slots [(4096, 64, True), (4160, 65472, False)]" "vpages_cost 1 \<le> reserve ?A"
    by (simp_all add: vpages_slots_def vpages_cost_def reserve_example upt_conv_Cons order_cost_def)
  from alloc_vpages_fresh [OF example_vmem_inv this, of 8192 0] obtain st' A' where
    s: "alloc_vpages 1 4194304 8192 1 example_vmem = Some st'"
      "get_physical_address (vm_tables st') 4194304 ` {8192..<12288} \<subseteq> free_mem ?A - free_mem A'" by auto
  have "free_mem ?A = {2097152..<4194304}"
    by (auto simp: free_mem_def free_blocks_def block_def PAGES_def split: if_splits)
  with s show ?thesis by blast
qed

end
