(* ===== verification/Elf.thy ===== *)
theory Elf
  imports VPages KState
begin

text \<open>
  Loading a module, \<^verbatim>\<open>kernel/kmod_loader.c\<close>, from an image in memory with the ELF headers of \<^verbatim>\<open>include/elf.h\<close>.
  The lemmas show that the segments of an image whose segments start at page boundaries can be read at their virtual
  addresses, padded with zeros, and what happens to a segment that does not start at a page boundary.
\<close>

section \<open>The headers\<close>

record Elf64_Ehdr =
  e_type :: nat
  e_machine :: nat
  e_version :: nat
  e_entry :: nat
  e_phoff :: nat
  e_shoff :: nat
  e_flags :: nat
  e_ehsize :: nat
  e_phentsize :: nat
  e_phnum :: nat
  e_shentsize :: nat
  e_shnum :: nat
  e_shstrndx :: nat

record Elf64_Phdr =
  p_type :: nat
  p_flags :: nat
  p_offset :: nat
  p_vaddr :: nat
  p_paddr :: nat
  p_filesz :: nat
  p_memsz :: nat
  p_align :: nat

definition PT_LOAD :: nat where "PT_LOAD = 1"

text \<open>The fields of a header at an address, in the layout the compiler gives the structs.\<close>

definition read_le :: "(ptr \<Rightarrow> u8) \<Rightarrow> ptr \<Rightarrow> nat \<Rightarrow> nat" where
  "read_le m p n = le_val (map m [p..<p + n])"

definition read_ehdr :: "(ptr \<Rightarrow> u8) \<Rightarrow> ptr \<Rightarrow> Elf64_Ehdr" where
  "read_ehdr m p = \<lparr>e_type = read_le m (p + 16) 2, e_machine = read_le m (p + 18) 2, e_version = read_le m (p + 20) 4,
     e_entry = read_le m (p + 24) 8, e_phoff = read_le m (p + 32) 8, e_shoff = read_le m (p + 40) 8,
     e_flags = read_le m (p + 48) 4, e_ehsize = read_le m (p + 52) 2, e_phentsize = read_le m (p + 54) 2,
     e_phnum = read_le m (p + 56) 2, e_shentsize = read_le m (p + 58) 2, e_shnum = read_le m (p + 60) 2,
     e_shstrndx = read_le m (p + 62) 2\<rparr>"

definition read_phdr :: "(ptr \<Rightarrow> u8) \<Rightarrow> ptr \<Rightarrow> Elf64_Phdr" where
  "read_phdr m p = \<lparr>p_type = read_le m p 4, p_flags = read_le m (p + 4) 4, p_offset = read_le m (p + 8) 8,
     p_vaddr = read_le m (p + 16) 8, p_paddr = read_le m (p + 24) 8, p_filesz = read_le m (p + 32) 8,
     p_memsz = read_le m (p + 40) 8, p_align = read_le m (p + 48) 8\<rparr>"

section \<open>Loading\<close>

text \<open>
  \<^verbatim>\<open>load_program\<close>: the start and the end of the segment are written through the last two arguments, which keep their
  values for a segment that is not loaded.
\<close>

definition load_program :: "nat \<Rightarrow> ptr \<Rightarrow> ptr \<Rightarrow> Elf64_Phdr \<Rightarrow> nat \<times> nat \<Rightarrow> vmem \<Rightarrow> ((nat \<times> nat) \<times> vmem) option" where
  "load_program fuel dir addr header se st =
     (if p_type header \<noteq> PT_LOAD then Some (se, st)
      else do {
        let pages = wrap32 (int ((p_memsz header + (MEMUNIT_SZ - 1)) mod 2 ^ 64 div MEMUNIT_SZ));
        let start_page_addr = (p_vaddr header + (MEMUNIT_SZ - 1)) mod 2 ^ 64 div MEMUNIT_SZ * MEMUNIT_SZ;
        st \<leftarrow> alloc_vpages fuel dir start_page_addr pages st;
        st \<leftarrow> pvmemcpy dir (p_vaddr header) ((addr + p_offset header) mod 2 ^ 64) (p_filesz header) st;
        st \<leftarrow> vmemset dir ((p_vaddr header + p_filesz header) mod 2 ^ 64) 0
                ((p_memsz header + 2 ^ 64 - p_filesz header) mod 2 ^ 64) st;
        Some ((p_vaddr header, (p_vaddr header + p_memsz header) mod 2 ^ 64), st)
      })"

text \<open>
  The loop of \<^verbatim>\<open>load_kmod_from_memory\<close>.  The count is read again for every round; it has 16 bits, so \<open>[0..<65536]\<close> is
  long enough.
\<close>

primrec load_segments :: "nat \<Rightarrow> ptr \<Rightarrow> ptr \<Rightarrow> nat list \<Rightarrow> nat \<times> nat \<Rightarrow> vmem \<Rightarrow> ((nat \<times> nat) \<times> vmem) option" where
  "load_segments fuel dir addr [] se st = Some (se, st)"
| "load_segments fuel dir addr (i # is) se st =
     (let header = read_ehdr (vm_bytes st) addr in
      if i < e_phnum header then do {
        let pro_header = read_phdr (vm_bytes st) ((addr + e_phoff header + i * e_phentsize header) mod 2 ^ 64);
        ((start, end), st) \<leftarrow> load_program fuel dir addr pro_header (2 ^ 64 - 1, 0) st;
        load_segments fuel dir addr is (min (fst se) start, max (snd se) end) st
      } else Some (se, st))"

record program_info =
  pi_start :: nat
  pi_end :: nat
  pi_entry :: nat
  pi_pgd :: ptr
  pi_stack_top :: nat
  pi_stack_bottom :: nat
  pi_heap_bottom :: nat
  pi_heap_top :: nat

definition KMOD_STACK_TOP :: nat where "KMOD_STACK_TOP = 0x40000000"
definition THREAD_STACK_SIZE :: nat where "THREAD_STACK_SIZE = 0x800000"
definition TASK_INIT_HEAP_SIZE :: nat where "TASK_INIT_HEAP_SIZE = 0x10000"
definition HEAP_OFFSET :: nat where "HEAP_OFFSET = 2 * MEMUNIT_SZ"
definition RESERVED_LIMIT :: nat where "RESERVED_LIMIT = 0x2000000"

text \<open>\<^verbatim>\<open>mapping_kernel\<close> of \<^verbatim>\<open>kernel.c\<close>; the result of \<^verbatim>\<open>set_mapping\<close> is ignored.\<close>

definition mapping_kernel :: "nat \<Rightarrow> ptr \<Rightarrow> vmem \<Rightarrow> vmem option" where
  "mapping_kernel fuel dir st =
     map_option snd (set_mapping fuel dir NULL NULL (RESERVED_LIMIT div MEMUNIT_SZ) True False st)"

definition load_kmod_from_memory :: "nat \<Rightarrow> ptr \<Rightarrow> vmem \<Rightarrow> (program_info \<times> vmem) option" where
  "load_kmod_from_memory fuel addr st = do {
     let entry = e_entry (read_ehdr (vm_bytes st) addr);
     (dir, st) \<leftarrow> create_pgd fuel st;
     ((start, end), st) \<leftarrow> load_segments fuel dir addr [0..<65536] (2 ^ 64 - 1, 0) st;
     let heap_bottom = (end + HEAP_OFFSET + (MEMUNIT_SZ - 1)) mod 2 ^ 64 div MEMUNIT_SZ * MEMUNIT_SZ;
     st \<leftarrow> mapping_kernel fuel dir st;
     Some (\<lparr>pi_start = start, pi_end = end, pi_entry = entry, pi_pgd = dir, pi_stack_top = KMOD_STACK_TOP,
       pi_stack_bottom = KMOD_STACK_TOP - THREAD_STACK_SIZE, pi_heap_bottom = heap_bottom,
       pi_heap_top = (heap_bottom + TASK_INIT_HEAP_SIZE) mod 2 ^ 64\<rparr>, st)
   }"

text \<open>\<^verbatim>\<open>initialize_kmod_task\<close>: the module finds its magic number, its heap and its pid in registers.\<close>

definition KMOD_MAGIC :: u64 where "KMOD_MAGIC = 0x71BA4851"

definition initialize_kmod_task :: "ptr \<Rightarrow> kstate \<Rightarrow> kstate option" where
  "initialize_kmod_task kmod_task st = do {
     t \<leftarrow> tasks st kmod_task;
     upd_thread (tk_threads t) (\<lambda>th. th\<lparr>registers := (registers th)\<lparr>ri_basic := (ri_basic (registers th))
       \<lparr>rax := KMOD_MAGIC, rbx := of_nat (heap_start (tk_mm_info t)), rcx := of_nat (heap_end (tk_mm_info t)),
        rdx := of_int (pid t)\<rparr>\<rparr>\<rparr>) st
   }"

section \<open>One segment\<close>

lemma vmemset_bytes:
  assumes "\<forall>k<n. get_physical_address (vm_tables st) dir (v + k) \<noteq> NULL"
  shows "\<exists>st'. vmemset dir v b n st = Some st' \<and> vm_tables st' = vm_tables st \<and> vm_km st' = vm_km st
    \<and> (\<forall>k<n. vm_bytes st' (get_physical_address (vm_tables st) dir (v + k)) = b)
    \<and> (\<forall>p. (\<forall>k<n. p \<noteq> get_physical_address (vm_tables st) dir (v + k)) \<longrightarrow> vm_bytes st' p = vm_bytes st p)"
  using assms
proof (induction n arbitrary: v st)
  case 0
  then show ?case by simp
next
  case (Suc n)
  let ?pa = "\<lambda>k. get_physical_address (vm_tables st) dir (v + k)"
  let ?s = "st\<lparr>vm_bytes := (vm_bytes st)(?pa 0 := b)\<rparr>"
  have w: "v_write dir v b st = Some ?s"
    using Suc.prems [rule_format, of 0] by (simp add: v_write_def Let_def)
  have "\<forall>k<n. get_physical_address (vm_tables ?s) dir (v + 1 + k) \<noteq> NULL"
  proof (intro allI impI)
    fix k
    assume "k < n"
    then show "get_physical_address (vm_tables ?s) dir (v + 1 + k) \<noteq> NULL"
      using Suc.prems [rule_format, of "Suc k"] by simp
  qed
  from Suc.IH [OF this] obtain s' where s': "vmemset dir (v + 1) b n ?s = Some s'" "vm_tables s' = vm_tables st"
      "vm_km s' = vm_km st" "\<forall>k<n. vm_bytes s' (?pa (Suc k)) = b"
      "\<forall>p. (\<forall>k<n. p \<noteq> ?pa (Suc k)) \<longrightarrow> vm_bytes s' p = vm_bytes ?s p" by auto
  have "vm_bytes s' (?pa k) = b" if k: "k < Suc n" for k
  proof (cases "\<exists>j<n. ?pa k = ?pa (Suc j)")
    case True
    then show ?thesis using s'(4) by auto
  next
    case False
    then have "k = 0" using k by (cases k) auto
    then show ?thesis using False s'(5) by (auto dest!: spec [of _ "?pa 0"])
  qed
  moreover have "vm_bytes s' p = vm_bytes st p" if "\<forall>k<Suc n. p \<noteq> ?pa k" for p
  proof -
    have "p \<noteq> ?pa 0" "\<forall>k<n. p \<noteq> ?pa (Suc k)" using that by blast+
    then show ?thesis using s'(5) by simp
  qed
  ultimately show ?case using w s'(1-3) by auto
qed

text \<open>
  A segment that fits: it starts at a page boundary, the part in the file is not longer than the segment, and the
  segment lies in the lower address space.
\<close>

definition seg_pages :: "Elf64_Phdr \<Rightarrow> nat" where
  "seg_pages h = (p_memsz h + (MEMUNIT_SZ - 1)) div MEMUNIT_SZ"

definition seg_fits :: "Elf64_Phdr \<Rightarrow> bool" where
  "seg_fits h \<longleftrightarrow> MEMUNIT_SZ dvd p_vaddr h \<and> p_filesz h \<le> p_memsz h \<and>
     p_memsz h \<le> 2 ^ 42 \<and> p_vaddr h + seg_pages h * MEMUNIT_SZ \<le> 2 ^ 48"

definition seg_range :: "Elf64_Phdr \<Rightarrow> nat set" where
  "seg_range h = {p_vaddr h..<p_vaddr h + seg_pages h * MEMUNIT_SZ}"

text \<open>The bytes that the image \<open>m\<close> at \<open>addr\<close> has for the segment are at its addresses, outside the free memory.\<close>

definition loaded :: "vmem \<Rightarrow> free_lists \<Rightarrow> ptr \<Rightarrow> (ptr \<Rightarrow> u8) \<Rightarrow> ptr \<Rightarrow> Elf64_Phdr \<Rightarrow> bool" where
  "loaded st A dir m addr h \<longleftrightarrow> (\<forall>k<p_memsz h.
     let pa = get_physical_address (vm_tables st) dir (p_vaddr h + k)
     in pa \<noteq> NULL \<and> pa \<notin> free_mem A \<and>
        vm_bytes st pa = (if k < p_filesz h then m (addr + p_offset h + k) else 0))"

text \<open>What loading a segment leaves alone.\<close>

definition load_frame :: "vmem \<Rightarrow> free_lists \<Rightarrow> ptr \<Rightarrow> vmem \<Rightarrow> free_lists \<Rightarrow> nat set \<Rightarrow> bool" where
  "load_frame st A dir st' A' R \<longleftrightarrow> free_mem A' \<subseteq> free_mem A
     \<and> (\<forall>p. p \<notin> free_mem A \<longrightarrow> vm_bytes st' p = vm_bytes st p)
     \<and> (\<forall>v < 2 ^ 48. v \<notin> R \<longrightarrow>
          get_physical_address (vm_tables st') dir v = get_physical_address (vm_tables st) dir v)"

lemma seg_pages_bounds: "p_memsz h \<le> seg_pages h * MEMUNIT_SZ"
  using round_up_bounds(1) [of MEMUNIT_SZ "p_memsz h"] by (simp add: seg_pages_def)

lemma seg_pages_wrap:
  assumes "p_memsz h \<le> 2 ^ 42"
  shows "wrap32 (int ((p_memsz h + (MEMUNIT_SZ - 1)) mod 2 ^ 64 div MEMUNIT_SZ)) = int (seg_pages h)"
proof -
  have "p_memsz h + (MEMUNIT_SZ - 1) \<le> 2 ^ 43" using assms by simp
  then have "(p_memsz h + (MEMUNIT_SZ - 1)) div MEMUNIT_SZ \<le> 2 ^ 43 div MEMUNIT_SZ" by (rule div_le_mono)
  then show ?thesis
    using assms by (simp add: seg_pages_def wrap32_id)
qed

lemma load_program_ok:
  assumes inv: "vm_inv st xs A dir" and h: "p_type h = PT_LOAD" "seg_fits h"
    and img: "addr + p_offset h + p_filesz h < 2 ^ 64" "{addr + p_offset h..<addr + p_offset h + p_filesz h} \<inter> free_mem A = {}"
    and room: "vpages_slots (seg_pages h) \<le> slots xs" "vpages_cost (seg_pages h) \<le> reserve A"
  shows "\<exists>st' ys A'. load_program (Suc n) dir addr h se st = Some ((p_vaddr h, p_vaddr h + p_memsz h), st')
    \<and> vm_inv st' ys A' dir \<and> loaded st' A' dir (vm_bytes st) addr h \<and> load_frame st A dir st' A' (seg_range h)
    \<and> slots xs \<le> slots ys + vpages_slots (seg_pages h) \<and> reserve A \<le> reserve A' + vpages_cost (seg_pages h)"
proof -
  have fit: "MEMUNIT_SZ dvd p_vaddr h" "p_filesz h \<le> p_memsz h" "p_memsz h \<le> 2 ^ 42"
      "p_vaddr h + seg_pages h * MEMUNIT_SZ \<le> 2 ^ 48"
    using h(2) by (simp_all add: seg_fits_def)
  note pages = seg_pages_wrap [OF fit(3)]
  have "(p_vaddr h + (MEMUNIT_SZ - 1)) mod 2 ^ 64 div MEMUNIT_SZ * MEMUNIT_SZ = p_vaddr h"
    using fit(1,4) by (auto elim!: dvdE)
  note start = this
  obtain s1 ys A' where s1: "alloc_vpages (Suc n) dir (p_vaddr h) (int (seg_pages h)) st = Some s1" "vm_inv s1 ys A' dir"
      "fresh_range dir (p_vaddr h) (seg_pages h * MEMUNIT_SZ) st A s1 A'"
      "slots xs \<le> slots ys + vpages_slots (seg_pages h)" "reserve A \<le> reserve A' + vpages_cost (seg_pages h)"
    using alloc_vpages_ok [OF inv room fit(1,4), of n] by blast
  note fr = fresh_range_physical [OF s1(3) fit(4)]
  let ?pa = "\<lambda>k. get_physical_address (vm_tables s1) dir (p_vaddr h + k)"
  have free: "free_mem A' \<subseteq> free_mem A" "free_mem A \<subseteq> {MEMUNIT_SZ..<2 ^ 39}" "\<forall>p. p \<notin> free_mem A \<longrightarrow> vm_bytes s1 p = vm_bytes st p"
    using s1(3) inv by (simp_all add: fresh_range_def vm_inv_def)
  have in_range: "p_vaddr h + k \<in> {p_vaddr h..<p_vaddr h + seg_pages h * MEMUNIT_SZ}" if "k < p_memsz h" for k
    using that seg_pages_bounds [of h] by auto
  have pa: "?pa k \<in> free_mem A - free_mem A'" "?pa k \<noteq> NULL" if "k < p_memsz h" for k
  proof -
    show m: "?pa k \<in> free_mem A - free_mem A'" using fr(2) in_range [OF that] by blast
    then show "?pa k \<noteq> NULL" using free(2) by auto
  qed
  have inj: "?pa k = ?pa l \<longleftrightarrow> k = l" if "k < p_memsz h" "l < p_memsz h" for k l
    using inj_on_eq_iff [OF fr(1) in_range [OF that(1)] in_range [OF that(2)]] by simp
  let ?src = "addr + p_offset h"
  have "\<exists>s2. pvmemcpy dir (p_vaddr h) ?src (p_filesz h) s1 = Some s2 \<and> vm_tables s2 = vm_tables s1 \<and> vm_km s2 = vm_km s1
    \<and> (\<forall>k<p_filesz h. vm_bytes s2 (?pa k) = vm_bytes s1 (?src + k))
    \<and> (\<forall>p. (\<forall>k<p_filesz h. p \<noteq> ?pa k) \<longrightarrow> vm_bytes s2 p = vm_bytes s1 p)"
  proof (rule pvmemcpy_bytes)
    show "\<forall>k<p_filesz h. ?pa k \<noteq> NULL" using pa(2) fit(2) by simp
    show "inj_on ?pa {..<p_filesz h}" using inj fit(2) by (auto simp: inj_on_def)
    show "\<forall>k<p_filesz h. \<forall>l<p_filesz h. ?pa k \<noteq> ?src + l"
    proof (intro allI impI)
      fix k l
      assume "k < p_filesz h" "l < p_filesz h"
      then have "?pa k \<in> free_mem A" "?src + l \<in> {?src..<?src + p_filesz h}" using pa(1) [of k] fit(2) by auto
      then show "?pa k \<noteq> ?src + l" using img(2) by (metis disjoint_iff)
    qed
  qed
  then obtain s2 where s2: "pvmemcpy dir (p_vaddr h) ?src (p_filesz h) s1 = Some s2" "vm_tables s2 = vm_tables s1"
      "vm_km s2 = vm_km s1" "\<forall>k<p_filesz h. vm_bytes s2 (?pa k) = vm_bytes s1 (?src + k)"
      "\<forall>p. (\<forall>k<p_filesz h. p \<noteq> ?pa k) \<longrightarrow> vm_bytes s2 p = vm_bytes s1 p" by blast
  let ?rest = "p_memsz h - p_filesz h"
  have "\<forall>k<?rest. get_physical_address (vm_tables s2) dir (p_vaddr h + p_filesz h + k) \<noteq> NULL"
    using pa(2) unfolding s2(2) add.assoc by auto
  from vmemset_bytes [OF this, of 0] obtain s3 where s3: "vmemset dir (p_vaddr h + p_filesz h) 0 ?rest s2 = Some s3"
      "vm_tables s3 = vm_tables s1" "vm_km s3 = vm_km s1" "\<forall>k<?rest. vm_bytes s3 (?pa (p_filesz h + k)) = 0"
      "\<forall>p. (\<forall>k<?rest. p \<noteq> ?pa (p_filesz h + k)) \<longrightarrow> vm_bytes s3 p = vm_bytes s2 p"
    unfolding s2(2,3) add.assoc by blast
  have "loaded s3 A' dir (vm_bytes st) addr h"
    unfolding loaded_def Let_def s3(2)
  proof (intro allI impI conjI)
    fix k
    assume k: "k < p_memsz h"
    show "?pa k \<noteq> NULL" "?pa k \<notin> free_mem A'" using pa [OF k] by blast+
    show "vm_bytes s3 (?pa k) = (if k < p_filesz h then vm_bytes st (addr + p_offset h + k) else 0)"
    proof (cases "k < p_filesz h")
      case True
      then have "\<forall>j<?rest. ?pa k \<noteq> ?pa (p_filesz h + j)" using inj k by auto
      then have "vm_bytes s3 (?pa k) = vm_bytes s2 (?pa k)" using s3(5) by blast
      moreover have "?src + k \<notin> free_mem A" using True img(2) by (auto simp: disjoint_iff)
      ultimately show ?thesis using True s2(4) free(3) by simp
    next
      case False
      then show ?thesis using s3(4) [rule_format, of "k - p_filesz h"] k by simp
    qed
  qed
  moreover have "load_frame st A dir s3 A' (seg_range h)"
  proof -
    have "vm_bytes s3 p = vm_bytes st p" if p: "p \<notin> free_mem A" for p
    proof -
      have n: "p \<noteq> ?pa k" if "k < p_memsz h" for k using pa(1) [OF that] p by blast
      have "vm_bytes s3 p = vm_bytes s2 p" using s3(5) n by simp
      also have "\<dots> = vm_bytes s1 p" using s2(5) n fit(2) by simp
      finally show ?thesis using free(3) p by simp
    qed
    then show ?thesis
      using free(1) fr(3) unfolding load_frame_def s3(2) seg_range_def by auto
  qed
  moreover have "vm_inv s3 ys A' dir" using s1(2) s3(2,3) by (simp add: vm_inv_def)
  moreover have "load_program (Suc n) dir addr h se st = Some ((p_vaddr h, p_vaddr h + p_memsz h), s3)"
  proof -
    have lt: "p_vaddr h + p_memsz h < 2 ^ 64" "p_memsz h < 2 ^ 64"
      using fit(3,4) seg_pages_bounds [of h] by simp_all
    have "p_memsz h + 2 ^ 64 - p_filesz h = ?rest + 2 ^ 64" using fit(2) by simp
    then have "(p_memsz h + 2 ^ 64 - p_filesz h) mod 2 ^ 64 = ?rest"
      using lt(2) by (simp only: mod_add_self2 mod_less less_imp_diff_less)
    moreover have "?src mod 2 ^ 64 = ?src" "(p_vaddr h + p_filesz h) mod 2 ^ 64 = p_vaddr h + p_filesz h"
        "(p_vaddr h + p_memsz h) mod 2 ^ 64 = p_vaddr h + p_memsz h"
      using img(1) lt(1) fit(2) by (simp_all only: mod_less)
    ultimately show ?thesis
      unfolding load_program_def Let_def pages start using h(1) s1(1) s2(1) s3(1) by simp
  qed
  ultimately show ?thesis using s1(4,5) by blast
qed

section \<open>All segments\<close>

lemma read_le_cong: "(\<And>q. q \<in> {p..<p + n} \<Longrightarrow> m q = m' q) \<Longrightarrow> read_le m p n = read_le m' p n"
  unfolding read_le_def by (intro arg_cong [of _ _ le_val] map_cong) auto

lemma read_ehdr_cong:
  assumes "\<And>q. q \<in> {p..<p + 64} \<Longrightarrow> m q = m' q"
  shows "read_ehdr m p = read_ehdr m' p"
proof -
  have "read_le m (p + k) n = read_le m' (p + k) n" if "k + n \<le> 64" for k n
    using that by (intro read_le_cong assms) auto
  then show ?thesis by (simp add: read_ehdr_def)
qed

lemma read_phdr_cong:
  assumes "\<And>q. q \<in> {p..<p + 56} \<Longrightarrow> m q = m' q"
  shows "read_phdr m p = read_phdr m' p"
proof -
  have "read_le m (p + k) n = read_le m' (p + k) n" if "k + n \<le> 56" for k n
    using that by (intro read_le_cong assms) auto
  from this [of 0] this show ?thesis by (simp add: read_phdr_def)
qed

lemma read_le_bound: "read_le m p n < 256 ^ n"
  using le_val_bound [of "map m [p..<p + n]"] by (simp add: read_le_def)

lemma e_phnum_bound: "e_phnum (read_ehdr m p) < 65536"
  using read_le_bound [of m "p + 56" 2] by (simp add: read_ehdr_def)

text \<open>The program headers of an image, those to be loaded from number \<open>i\<close> on, and the addresses they span.\<close>

definition phdr_addr :: "(ptr \<Rightarrow> u8) \<Rightarrow> ptr \<Rightarrow> nat \<Rightarrow> ptr" where
  "phdr_addr m addr i =
     (addr + e_phoff (read_ehdr m addr) + i * e_phentsize (read_ehdr m addr)) mod 2 ^ 64"

definition segment :: "(ptr \<Rightarrow> u8) \<Rightarrow> ptr \<Rightarrow> nat \<Rightarrow> Elf64_Phdr" where
  "segment m addr i = read_phdr m (phdr_addr m addr i)"

definition loadable :: "(ptr \<Rightarrow> u8) \<Rightarrow> ptr \<Rightarrow> nat \<Rightarrow> Elf64_Phdr list" where
  "loadable m addr i = filter (\<lambda>h. p_type h = PT_LOAD) (map (segment m addr) [i..<e_phnum (read_ehdr m addr)])"

definition span_step :: "Elf64_Phdr \<Rightarrow> nat \<times> nat \<Rightarrow> nat \<times> nat" where
  "span_step h se = (min (fst se) (p_vaddr h), max (snd se) (p_vaddr h + p_memsz h))"

primrec segs_apart :: "Elf64_Phdr list \<Rightarrow> bool" where
  "segs_apart [] = True"
| "segs_apart (h # hs) = ((\<forall>g\<in>set hs. seg_range h \<inter> seg_range g = {}) \<and> segs_apart hs)"

text \<open>
  An image that can be loaded: its headers and the file parts of its segments lie in \<open>I\<close>, the segments fit, and
  their pages are disjoint.
\<close>

definition image_ok :: "(ptr \<Rightarrow> u8) \<Rightarrow> ptr \<Rightarrow> ptr set \<Rightarrow> bool" where
  "image_ok m addr I \<longleftrightarrow> {addr..<addr + 64} \<subseteq> I
     \<and> (\<forall>i < e_phnum (read_ehdr m addr). {phdr_addr m addr i..<phdr_addr m addr i + 56} \<subseteq> I)
     \<and> (\<forall>h\<in>set (loadable m addr 0). seg_fits h \<and> addr + p_offset h + p_filesz h < 2 ^ 64
          \<and> {addr + p_offset h..<addr + p_offset h + p_filesz h} \<subseteq> I)
     \<and> segs_apart (loadable m addr 0)"

lemma loadable_step:
  "i < e_phnum (read_ehdr m addr) \<Longrightarrow> loadable m addr i =
     (if p_type (segment m addr i) = PT_LOAD then segment m addr i # loadable m addr (Suc i) else loadable m addr (Suc i))"
  by (simp add: loadable_def upt_conv_Cons)

lemma loadable_end: "loadable m addr (e_phnum (read_ehdr m addr)) = []"
  by (simp add: loadable_def)

lemma load_frame_refl [simp]: "load_frame st A dir st A {}"
  by (simp add: load_frame_def)

lemma load_frame_trans:
  "load_frame st A dir s1 A1 R \<Longrightarrow> load_frame s1 A1 dir s2 A2 S \<Longrightarrow> load_frame st A dir s2 A2 (R \<union> S)"
  unfolding load_frame_def by (metis UnCI subset_iff)

lemma loaded_frame:
  assumes l: "loaded st A dir m addr h" and f: "load_frame st A dir st' A' R" and "seg_fits h" and "seg_range h \<inter> R = {}"
  shows "loaded st' A' dir m addr h"
  unfolding loaded_def Let_def
proof (intro allI impI)
  fix k
  assume k: "k < p_memsz h"
  let ?v = "p_vaddr h + k"
  have "?v \<in> seg_range h" "?v < 2 ^ 48"
    using k assms(3) seg_pages_bounds [of h] by (auto simp: seg_range_def seg_fits_def)
  then have same: "get_physical_address (vm_tables st') dir ?v = get_physical_address (vm_tables st) dir ?v"
    using f assms(4) unfolding load_frame_def by blast
  show "get_physical_address (vm_tables st') dir ?v \<noteq> NULL \<and> get_physical_address (vm_tables st') dir ?v \<notin> free_mem A'
    \<and> vm_bytes st' (get_physical_address (vm_tables st') dir ?v)
      = (if k < p_filesz h then m (addr + p_offset h + k) else 0)"
    unfolding same using l k f unfolding loaded_def load_frame_def Let_def by auto
qed

lemma loaded_cong:
  assumes "\<And>q. q \<in> {addr + p_offset h..<addr + p_offset h + p_filesz h} \<Longrightarrow> m q = m' q"
  shows "loaded st A dir m addr h = loaded st A dir m' addr h"
  using assms unfolding loaded_def Let_def by (intro all_cong) auto

lemma load_segments_ok:
  assumes inv: "vm_inv st xs A dir" and I: "I \<inter> free_mem A = {}" "\<And>q. q \<in> I \<Longrightarrow> vm_bytes st q = m q"
    and heads: "{addr..<addr + 64} \<subseteq> I"
      "\<And>j. j < e_phnum (read_ehdr m addr) \<Longrightarrow> {phdr_addr m addr j..<phdr_addr m addr j + 56} \<subseteq> I"
    and segs: "\<And>h. h \<in> set (loadable m addr i) \<Longrightarrow> seg_fits h \<and> addr + p_offset h + p_filesz h < 2 ^ 64
          \<and> {addr + p_offset h..<addr + p_offset h + p_filesz h} \<subseteq> I"
      "segs_apart (loadable m addr i)"
    and i: "i + d = e_phnum (read_ehdr m addr)"
    and room: "(\<Sum>h\<leftarrow>loadable m addr i. vpages_slots (seg_pages h)) \<le> slots xs"
      "(\<Sum>h\<leftarrow>loadable m addr i. vpages_cost (seg_pages h)) \<le> reserve A"
    and se: "fst se < 2 ^ 64"
  shows "\<exists>st' ys A'. load_segments (Suc n) dir addr [i..<65536] se st = Some (fold span_step (loadable m addr i) se, st')
    \<and> vm_inv st' ys A' dir \<and> (\<forall>h\<in>set (loadable m addr i). loaded st' A' dir m addr h)
    \<and> load_frame st A dir st' A' (\<Union>h\<in>set (loadable m addr i). seg_range h)
    \<and> slots xs \<le> slots ys + (\<Sum>h\<leftarrow>loadable m addr i. vpages_slots (seg_pages h))
    \<and> reserve A \<le> reserve A' + (\<Sum>h\<leftarrow>loadable m addr i. vpages_cost (seg_pages h))"
  using inv I segs i room se
proof (induction d arbitrary: i st xs A se)
  case 0
  have "i < 65536" using e_phnum_bound [of m addr] 0(6) by simp
  then have up: "[i..<65536] = i # [Suc i..<65536]" by (simp add: upt_conv_Cons)
  have "read_ehdr (vm_bytes st) addr = read_ehdr m addr"
    using 0(3) heads(1) by (intro read_ehdr_cong) blast
  moreover have "loadable m addr i = []" using 0(6) loadable_end by auto
  ultimately show ?case
    unfolding up using 0(1,6) by (intro exI [of _ st] exI [of _ xs] exI [of _ A]) simp
next
  case (Suc d)
  let ?H = "read_ehdr m addr" and ?h = "segment m addr i"
  have lt: "i < e_phnum ?H" "i < 65536" using e_phnum_bound [of m addr] Suc.prems(6) by simp_all
  then have up: "[i..<65536] = i # [Suc i..<65536]" by (simp add: upt_conv_Cons)
  have H: "read_ehdr (vm_bytes st) addr = ?H"
    using Suc.prems(3) heads(1) by (intro read_ehdr_cong) blast
  have P: "read_phdr (vm_bytes st) (phdr_addr m addr i) = ?h"
    unfolding segment_def using Suc.prems(3) heads(2) [OF lt(1)] by (intro read_phdr_cong) blast
  note step = loadable_step [OF lt(1)]
  show ?case
  proof (cases "p_type ?h = PT_LOAD")
    case False
    have "load_segments (Suc n) dir addr [i..<65536] se st = load_segments (Suc n) dir addr [Suc i..<65536] se st"
      unfolding up using lt H P False Suc.prems(9)
      by (simp add: Let_def phdr_addr_def load_program_def min_def del: upt_Suc)
    moreover have l: "loadable m addr i = loadable m addr (Suc i)" using step False by simp
    ultimately show ?thesis
      using Suc.IH [of st xs A "Suc i" se] Suc.prems unfolding l by simp
  next
    case True
    have l: "loadable m addr i = ?h # loadable m addr (Suc i)" using step True by simp
    have h: "seg_fits ?h" "addr + p_offset ?h + p_filesz ?h < 2 ^ 64"
        "{addr + p_offset ?h..<addr + p_offset ?h + p_filesz ?h} \<subseteq> I"
      using Suc.prems(4) [of ?h] unfolding l by auto
    have "{addr + p_offset ?h..<addr + p_offset ?h + p_filesz ?h} \<inter> free_mem A = {}"
      using h(3) Suc.prems(2) by blast
    moreover have "vpages_slots (seg_pages ?h) \<le> slots xs" "vpages_cost (seg_pages ?h) \<le> reserve A"
      using Suc.prems(7,8) unfolding l by simp_all
    ultimately obtain s1 ys A1 where
      s1: "load_program (Suc n) dir addr ?h (2 ^ 64 - 1, 0) st = Some ((p_vaddr ?h, p_vaddr ?h + p_memsz ?h), s1)"
        "vm_inv s1 ys A1 dir" "loaded s1 A1 dir (vm_bytes st) addr ?h" "load_frame st A dir s1 A1 (seg_range ?h)"
        "slots xs \<le> slots ys + vpages_slots (seg_pages ?h)" "reserve A \<le> reserve A1 + vpages_cost (seg_pages ?h)"
      using load_program_ok [OF Suc.prems(1) True h(1,2)] by blast
    have fr: "free_mem A1 \<subseteq> free_mem A" "\<And>p. p \<notin> free_mem A \<Longrightarrow> vm_bytes s1 p = vm_bytes st p"
      using s1(4) by (simp_all add: load_frame_def)
    have I1: "I \<inter> free_mem A1 = {}" "\<And>q. q \<in> I \<Longrightarrow> vm_bytes s1 q = m q"
      using fr Suc.prems(2,3) by (blast, metis disjoint_iff)
    have rest: "\<And>g. g \<in> set (loadable m addr (Suc i)) \<Longrightarrow> seg_fits g \<and> addr + p_offset g + p_filesz g < 2 ^ 64
          \<and> {addr + p_offset g..<addr + p_offset g + p_filesz g} \<subseteq> I" "segs_apart (loadable m addr (Suc i))"
        "\<forall>g\<in>set (loadable m addr (Suc i)). seg_range ?h \<inter> seg_range g = {}"
      using Suc.prems(4,5) unfolding l by simp_all
    have room1: "(\<Sum>h\<leftarrow>loadable m addr (Suc i). vpages_slots (seg_pages h)) \<le> slots ys"
        "(\<Sum>h\<leftarrow>loadable m addr (Suc i). vpages_cost (seg_pages h)) \<le> reserve A1"
      using Suc.prems(7,8) s1(5,6) unfolding l by simp_all
    have se1: "fst (span_step ?h se) < 2 ^ 64" "Suc i + d = e_phnum ?H"
      using Suc.prems(6,9) by (simp_all add: span_step_def)
    from Suc.IH [OF s1(2) I1 rest(1,2) se1(2) room1 se1(1)] obtain s2 zs A2 where
      s2: "load_segments (Suc n) dir addr [Suc i..<65536] (span_step ?h se) s1 =
          Some (fold span_step (loadable m addr (Suc i)) (span_step ?h se), s2)" "vm_inv s2 zs A2 dir"
        "\<forall>g\<in>set (loadable m addr (Suc i)). loaded s2 A2 dir m addr g"
        "load_frame s1 A1 dir s2 A2 (\<Union>g\<in>set (loadable m addr (Suc i)). seg_range g)"
        "slots ys \<le> slots zs + (\<Sum>h\<leftarrow>loadable m addr (Suc i). vpages_slots (seg_pages h))"
        "reserve A1 \<le> reserve A2 + (\<Sum>h\<leftarrow>loadable m addr (Suc i). vpages_cost (seg_pages h))" by blast
    have "load_segments (Suc n) dir addr [i..<65536] se st = Some (fold span_step (loadable m addr i) se, s2)"
      unfolding up l using lt H P s1(1) s2(1)
      by (simp add: Let_def phdr_addr_def span_step_def del: upt_Suc)
    moreover have "loaded s1 A1 dir m addr ?h"
      using s1(3) loaded_cong [of addr ?h "vm_bytes st" m] h(3) Suc.prems(3) by blast
    then have "loaded s2 A2 dir m addr ?h"
      using loaded_frame [OF _ s2(4) h(1)] rest(3) by blast
    moreover have "load_frame st A dir s2 A2 (\<Union>g\<in>set (loadable m addr i). seg_range g)"
      using load_frame_trans [OF s1(4) s2(4)] unfolding l by simp
    ultimately show ?thesis
      using s2(2,3,5,6) s1(5,6) unfolding l by (intro exI [of _ s2] exI [of _ zs] exI [of _ A2]) simp
  qed
qed

section \<open>The whole module\<close>

lemma mapping_kernel_ok:
  assumes inv: "vm_inv st xs A dir" and room: "432 \<le> slots xs" "48 \<le> npages A"
  shows "\<exists>st' ys A'. mapping_kernel (Suc n) dir st = Some st' \<and> vm_inv st' ys A' dir
    \<and> (\<forall>p. p \<notin> free_mem A \<longrightarrow> vm_bytes st' p = vm_bytes st p)
    \<and> free_mem A' \<subseteq> free_mem A
    \<and> (\<forall>v < 2 ^ 48. get_physical_address (vm_tables st') dir v =
        (if v < RESERVED_LIMIT then v else get_physical_address (vm_tables st) dir v))"
proof -
  let ?n = "RESERVED_LIMIT div MEMUNIT_SZ"
  have n: "?n = 8192" by (simp add: RESERVED_LIMIT_def)
  have "leaf_tables (0 div MEMUNIT_SZ + 0) ?n = 16" unfolding n by (simp add: leaf_tables_def)
  then have "missing st dir (0 div MEMUNIT_SZ + 0) ?n \<le> 16" using missing_le [of st dir 0 ?n] by simp
  then have r: "27 * missing st dir (0 div MEMUNIT_SZ + 0) ?n \<le> slots xs"
      "3 * missing st dir (0 div MEMUNIT_SZ + 0) ?n \<le> npages A"
    using room by linarith+
  have hi: "0 + (0 + ?n) * MEMUNIT_SZ \<le> 2 ^ 39" "MEMUNIT_SZ dvd 0" "0 + (0 + ?n) * MEMUNIT_SZ \<le> 2 ^ 48"
      "0 + ?n \<le> 2 ^ 19"
    unfolding n by simp_all
  from set_mapping_loop_ok [OF inv r hi, of n True False] obtain st' ys A' where
    s: "set_mapping_loop (Suc n) dir 0 0 True False [0..<0 + ?n] st = Some (True, st')" "vm_inv st' ys A' dir"
      "\<forall>v < 2 ^ 48. translate (vm_tables st') dir v =
        (if 0 div MEMUNIT_SZ + 0 \<le> v div MEMUNIT_SZ \<and> v div MEMUNIT_SZ < 0 div MEMUNIT_SZ + 0 + ?n
         then Some ((0 div MEMUNIT_SZ + (v div MEMUNIT_SZ - 0 div MEMUNIT_SZ)) * MEMUNIT_SZ + v mod MEMUNIT_SZ)
         else translate (vm_tables st) dir v)" "\<forall>p. p \<notin> free_mem A \<longrightarrow> vm_bytes st' p = vm_bytes st p" "free_mem A' \<subseteq> free_mem A"
    unfolding tables_frame_def by blast
  have "mapping_kernel (Suc n) dir st = Some st'"
    using s(1) by (simp only: mapping_kernel_def set_mapping_def div_0 mult_0 add_0) simp
  moreover have "get_physical_address (vm_tables st') dir v =
      (if v < RESERVED_LIMIT then v else get_physical_address (vm_tables st) dir v)" if v: "v < 2 ^ 48" for v
    using s(3) [rule_format, OF v] unfolding n
    by (simp add: get_physical_address_translate RESERVED_LIMIT_def div_less_iff_less_mult)
  ultimately show ?thesis using s(2,4,5) by blast
qed

text \<open>
  C7. Loading a module whose segments start at page boundaries, are disjoint and lie above the reserved memory: the
  loader returns, every segment can be read at its virtual addresses in the new address space, the part that is not
  in the file as zeros, the reserved memory is mapped to itself, and the program information holds the entry point
  and the addresses that the segments span.
\<close>

theorem load_kmod_loads:
  fixes st addr
  defines "parts \<equiv> loadable (vm_bytes st) addr 0"
  assumes km: "pmm_inv (vm_km st) xs A" "no_overlap A" "aligned A" "free_mem A \<subseteq> {4096 ..< 2 ^ 39}"
    and image: "image_ok (vm_bytes st) addr I" "I \<inter> free_mem A = {}"
      "\<forall>h\<in>set parts. seg_range h \<inter> {..<RESERVED_LIMIT} = {}"
    and room: "441 + (\<Sum>h\<leftarrow>parts. vpages_slots (seg_pages h)) \<le> slots xs"
      "49 + (\<Sum>h\<leftarrow>parts. vpages_cost (seg_pages h)) \<le> reserve A"
  shows "\<exists>info st'. load_kmod_from_memory (Suc n) addr st = Some (info, st')
    \<and> pi_entry info = e_entry (read_ehdr (vm_bytes st) addr)
    \<and> (pi_start info, pi_end info) = fold span_step parts (2 ^ 64 - 1, 0)
    \<and> (\<forall>h\<in>set parts. \<forall>k<p_memsz h.
         let pa = get_physical_address (vm_tables st') (pi_pgd info) (p_vaddr h + k)
         in pa \<noteq> NULL \<and> vm_bytes st' pa =
              (if k < p_filesz h then vm_bytes st (addr + p_offset h + k) else 0))
    \<and> (\<forall>v<RESERVED_LIMIT. get_physical_address (vm_tables st') (pi_pgd info) v = v)"
proof -
  have "9 \<le> slots xs" "0 < npages A" using room reserve_le [of A] by linarith+
  from create_pgd_ok [OF km this, of n] obtain dir s1 x1 A1 where
    s1: "create_pgd (Suc n) st = Some (dir, s1)" "vm_inv s1 x1 A1 dir" "slots xs \<le> slots x1 + 9"
      "npages A = Suc (npages A1)" "\<forall>p. p \<notin> free_mem A \<longrightarrow> vm_bytes s1 p = vm_bytes st p" "page_taken A A1" "free_mem A1 \<subseteq> free_mem A" by blast
  have "page_taken\<^sup>*\<^sup>* A A1" using s1(6) by blast
  then have res1: "reserve A \<le> reserve A1 + 1" using page_taken_reserve [OF _ km(3), of A1] s1(4) by simp
  have I1: "I \<inter> free_mem A1 = {}" "\<And>q. q \<in> I \<Longrightarrow> vm_bytes s1 q = vm_bytes st q"
    using image(2) s1(5,7) by auto
  have img: "{addr..<addr + 64} \<subseteq> I"
      "\<And>j. j < e_phnum (read_ehdr (vm_bytes st) addr) \<Longrightarrow> {phdr_addr (vm_bytes st) addr j..<phdr_addr (vm_bytes st) addr j + 56} \<subseteq> I"
      "\<And>h. h \<in> set parts \<Longrightarrow> seg_fits h \<and> addr + p_offset h + p_filesz h < 2 ^ 64
          \<and> {addr + p_offset h..<addr + p_offset h + p_filesz h} \<subseteq> I" "segs_apart parts"
    using image(1) unfolding image_ok_def parts_def by blast+
  have "(\<Sum>h\<leftarrow>parts. vpages_slots (seg_pages h)) \<le> slots x1" "(\<Sum>h\<leftarrow>parts. vpages_cost (seg_pages h)) \<le> reserve A1"
    using room s1(3) res1 by linarith+
  note room1 = this [unfolded parts_def]
  from load_segments_ok [OF s1(2) I1 img(1,2) img(3,4) [unfolded parts_def] _ room1, of _ "(2 ^ 64 - 1, 0)" n]
  obtain s2 x2 A2 where
    s2: "load_segments (Suc n) dir addr [0..<65536] (2 ^ 64 - 1, 0) s1 = Some (fold span_step parts (2 ^ 64 - 1, 0), s2)"
      "vm_inv s2 x2 A2 dir" "\<forall>h\<in>set parts. loaded s2 A2 dir (vm_bytes st) addr h"
      "slots x1 \<le> slots x2 + (\<Sum>h\<leftarrow>parts. vpages_slots (seg_pages h))"
      "reserve A1 \<le> reserve A2 + (\<Sum>h\<leftarrow>parts. vpages_cost (seg_pages h))"
    unfolding parts_def by auto
  have "432 \<le> slots x2" "48 \<le> npages A2" using room s1(3) res1 s2(4,5) reserve_le [of A2] by linarith+
  from mapping_kernel_ok [OF s2(2) this, of n] obtain s3 where
    s3: "mapping_kernel (Suc n) dir s2 = Some s3" "\<forall>p. p \<notin> free_mem A2 \<longrightarrow> vm_bytes s3 p = vm_bytes s2 p"
      "\<forall>v < 2 ^ 48. get_physical_address (vm_tables s3) dir v =
        (if v < RESERVED_LIMIT then v else get_physical_address (vm_tables s2) dir v)" by blast
  obtain lo hi where se: "fold span_step parts (2 ^ 64 - 1, 0) = (lo, hi)" by fastforce
  have "get_physical_address (vm_tables s3) dir (p_vaddr h + k) = get_physical_address (vm_tables s2) dir (p_vaddr h + k)"
    if h: "h \<in> set parts" "k < p_memsz h" for h k
  proof -
    have "p_vaddr h + k \<in> seg_range h" "p_vaddr h + k < 2 ^ 48"
      using img(3) [OF h(1)] h(2) seg_pages_bounds [of h] by (auto simp: seg_range_def seg_fits_def)
    moreover from this have "\<not> p_vaddr h + k < RESERVED_LIMIT" using image(3) h(1) by blast
    ultimately show ?thesis using s3(3) by simp
  qed
  moreover have "RESERVED_LIMIT \<le> 2 ^ 48" by (simp add: RESERVED_LIMIT_def)
  ultimately show ?thesis
    using s1(1) s2(1,3) s3 se
    by (simp add: load_kmod_from_memory_def loaded_def Let_def del: upt_Suc)
qed

text \<open>
  A segment that does not start at a page boundary: the pages are taken from the next boundary on, so its first page
  is not mapped, and copying the file part stores through the null pointer.
\<close>

theorem load_program_unaligned_faults:
  assumes inv: "vm_inv st xs A dir" and h: "p_type h = PT_LOAD" "\<not> 4096 dvd p_vaddr h" "0 < p_filesz h" "p_memsz h \<le> 2 ^ 42"
    and fits: "p_vaddr h + seg_pages h * 4096 + 4096 \<le> 2 ^ 48"
    and unmapped: "get_physical_address (vm_tables st) dir (p_vaddr h) = NULL"
    and room: "vpages_slots (seg_pages h) \<le> slots xs" "vpages_cost (seg_pages h) \<le> reserve A"
  shows "load_program (Suc n) dir addr h se st = None"
proof -
  let ?a = "(p_vaddr h + (MEMUNIT_SZ - 1)) div MEMUNIT_SZ * MEMUNIT_SZ"
  have pages: "wrap32 (int ((p_memsz h + (MEMUNIT_SZ - 1)) mod 2 ^ 64 div MEMUNIT_SZ)) = int (seg_pages h)"
    by (rule seg_pages_wrap [OF h(4)])
  have "(p_vaddr h + (MEMUNIT_SZ - 1)) mod 2 ^ 64 div MEMUNIT_SZ * MEMUNIT_SZ = ?a"
    using fits by simp
  note start = this
  have "p_vaddr h \<le> ?a" "?a < p_vaddr h + MEMUNIT_SZ" "MEMUNIT_SZ dvd ?a"
    using round_up_bounds [of MEMUNIT_SZ "p_vaddr h"] by simp_all
  moreover have "p_vaddr h \<noteq> ?a" using h(2) by (metis dvd_triv_right)
  ultimately have a: "p_vaddr h < ?a" "?a + seg_pages h * MEMUNIT_SZ \<le> 2 ^ 48" "MEMUNIT_SZ dvd ?a" "p_vaddr h < 2 ^ 48"
    using fits by linarith+
  obtain s1 ys A' where s1: "alloc_vpages (Suc n) dir ?a (int (seg_pages h)) st = Some s1"
      "fresh_range dir ?a (seg_pages h * MEMUNIT_SZ) st A s1 A'"
    using alloc_vpages_ok [OF inv room a(3,2), of n] by blast
  have "get_physical_address (vm_tables s1) dir (p_vaddr h) = NULL"
    using fresh_range_physical(3) [OF s1(2) a(2,4)] a(1) unmapped by simp
  then have "pvmemcpy dir (p_vaddr h) src (p_filesz h) s1 = None" for src
    using h(3) by (cases "p_filesz h") (simp_all add: v_write_def)
  then show ?thesis
    unfolding load_program_def Let_def pages start using h(1) s1(1) by simp
qed

section \<open>An example\<close>

text \<open>
  An image at address 131072 with one segment of five bytes at 67108864, three of them in the file, on the example
  allocator.
\<close>

definition example_image :: "ptr \<Rightarrow> u8" where
  "example_image p = (case map_of [(131099, 4), (131104, 64), (131126, 56), (131128, 1), (131136, 1), (131144, 120),
     (131155, 4), (131168, 3), (131176, 5), (131192, 10), (131193, 20), (131194, 30)] p of None \<Rightarrow> 0 | Some b \<Rightarrow> b)"

definition example_loader :: vmem where
  "example_loader = example_vmem\<lparr>vm_bytes := example_image\<rparr>"

lemma example_ehdr:
  "e_entry (read_ehdr example_image 131072) = 67108864" "e_phoff (read_ehdr example_image 131072) = 64"
  "e_phentsize (read_ehdr example_image 131072) = 56" "e_phnum (read_ehdr example_image 131072) = 1"
  by (simp_all add: read_ehdr_def read_le_def example_image_def)

lemma example_segment:
  "segment example_image 131072 0 = \<lparr>p_type = 1, p_flags = 0, p_offset = 120, p_vaddr = 67108864, p_paddr = 0,
     p_filesz = 3, p_memsz = 5, p_align = 0\<rparr>"
  by (simp add: segment_def phdr_addr_def example_ehdr read_phdr_def read_le_def example_image_def)

lemma example_loadable: "loadable example_image 131072 0 = [segment example_image 131072 0]"
  by (simp add: loadable_def example_ehdr example_segment PT_LOAD_def)

lemma example_free: "free_mem (\<lambda>i. if i = 9 then [2097152] else []) = {2097152..<4194304}"
  by (auto simp: free_mem_def free_blocks_def block_def PAGES_def split: if_splits)

lemma example_cost: "vpages_slots 1 = 567" "vpages_cost 1 = 7"
  by (simp_all add: vpages_slots_def vpages_cost_def upt_conv_Cons order_cost_def)

lemma example_image_ok: "image_ok example_image 131072 {131072..<131195}"
  by (simp add: image_ok_def example_loadable example_ehdr phdr_addr_def)
    (simp add: example_segment seg_fits_def seg_pages_def)

theorem load_kmod_loads_witness:
  "\<exists>info st'. load_kmod_from_memory 1 131072 example_loader = Some (info, st') \<and> pi_entry info = 67108864
    \<and> pi_start info = 67108864 \<and> pi_end info = 67108869
    \<and> vm_bytes st' (get_physical_address (vm_tables st') (pi_pgd info) 67108865) = 20
    \<and> vm_bytes st' (get_physical_address (vm_tables st') (pi_pgd info) 67108868) = 0"
proof -
  let ?A = "\<lambda>i. if i = 9 then [2097152] else []"
  let ?xs = "[(4096, 64, True), (4160, 65472, False)]"
  have km: "pmm_inv (vm_km example_loader) ?xs ?A" "no_overlap ?A" "aligned ?A" "free_mem ?A \<subseteq> {4096 ..< 2 ^ 39}"
    using example_vmem_inv by (simp_all add: vm_inv_def example_loader_def)
  have b: "vm_bytes example_loader = example_image" by (simp add: example_loader_def)
  have p: "seg_pages (segment example_image 131072 0) = 1" by (simp add: example_segment seg_pages_def)
  have img: "image_ok (vm_bytes example_loader) 131072 {131072..<131195}" "{131072..<131195} \<inter> free_mem ?A = {}"
      "\<forall>h\<in>set (loadable (vm_bytes example_loader) 131072 0). seg_range h \<inter> {..<RESERVED_LIMIT} = {}"
    unfolding b example_free example_loadable using example_image_ok
    by (auto simp: seg_range_def p RESERVED_LIMIT_def) (simp add: example_segment)
  have "441 + (\<Sum>h\<leftarrow>loadable (vm_bytes example_loader) 131072 0. vpages_slots (seg_pages h)) \<le> slots ?xs"
      "49 + (\<Sum>h\<leftarrow>loadable (vm_bytes example_loader) 131072 0. vpages_cost (seg_pages h)) \<le> reserve ?A"
    unfolding b example_loadable by (simp_all add: p example_cost reserve_example del: One_nat_def)
  from load_kmod_loads [OF km img this, of 0] obtain info st' where
    r: "load_kmod_from_memory (Suc 0) 131072 example_loader = Some (info, st')"
      "pi_entry info = e_entry (read_ehdr example_image 131072)"
      "(pi_start info, pi_end info) = fold span_step [segment example_image 131072 0] (2 ^ 64 - 1, 0)"
      "\<forall>h\<in>set [segment example_image 131072 0]. \<forall>k<p_memsz h.
         let pa = get_physical_address (vm_tables st') (pi_pgd info) (p_vaddr h + k)
         in pa \<noteq> NULL \<and> vm_bytes st' pa =
              (if k < p_filesz h then example_image (131072 + p_offset h + k) else 0)"
    unfolding b example_loadable by blast
  have bytes: "vm_bytes st' (get_physical_address (vm_tables st') (pi_pgd info) (67108864 + k)) =
      (if k < 3 then example_image (131192 + k) else 0)" if "k < 5" for k
    using bspec [OF r(4), of "segment example_image 131072 0"] that by (simp add: example_segment Let_def)
  from bytes [of 1] bytes [of 4] have
    "vm_bytes st' (get_physical_address (vm_tables st') (pi_pgd info) 67108865) = 20"
    "vm_bytes st' (get_physical_address (vm_tables st') (pi_pgd info) 67108868) = 0"
    by (simp_all add: example_image_def)
  then show ?thesis
    using r(1-3) by (intro exI [of _ info] exI [of _ st']) (simp add: example_ehdr example_segment span_step_def)
qed

theorem load_program_unaligned_faults_witness:
  "load_program 1 4194304 131072 \<lparr>p_type = 1, p_flags = 0, p_offset = 120, p_vaddr = 67108865, p_paddr = 0,
     p_filesz = 3, p_memsz = 5, p_align = 0\<rparr> (0, 0) example_loader = None"
proof -
  let ?h = "\<lparr>p_type = 1, p_flags = 0, p_offset = 120, p_vaddr = 67108865, p_paddr = 0, p_filesz = 3, p_memsz = 5,
    p_align = 0\<rparr>"
  have p: "seg_pages ?h = 1" by (simp add: seg_pages_def)
  have "vm_inv example_loader [(4096, 64, True), (4160, 65472, False)] (\<lambda>i. if i = 9 then [2097152] else []) 4194304"
    using example_vmem_inv by (simp add: vm_inv_def example_loader_def)
  moreover have "get_physical_address (vm_tables example_loader) 4194304 67108865 = NULL"
    by (simp add: get_physical_address_def example_loader_def example_vmem_def zero_entry_def Let_def)
  ultimately show ?thesis
    using load_program_unaligned_faults [of example_loader "[(4096, 64, True), (4160, 65472, False)]"
        "\<lambda>i. if i = 9 then [2097152] else []" 4194304 ?h 0 131072 "(0, 0)"]
    by (simp add: p example_cost reserve_example PT_LOAD_def One_nat_def [symmetric] del: One_nat_def)
qed

end
