(* ===== verification/Boot.thy ===== *)
theory Boot
  imports Elf Loader CString
begin

text \<open>
  The way from GRUB to the kernel: the loader reads the description of the machine,
  \<^verbatim>\<open>loader/grub_loader/info_parser.c\<close>, loads the segments of the kernel into physical memory, \<^verbatim>\<open>lm/load_kernel.c\<close>, and
  fills the arguments of the kernel, \<^verbatim>\<open>init_boot_args\<close> of \<^verbatim>\<open>lm/setup_lm.c\<close>.  The loader runs in 32-bit mode, so
  addresses are reduced modulo \<open>2 ^ 32\<close> where the code converts to a pointer.
\<close>

section \<open>Copying and filling\<close>

text \<open>\<^verbatim>\<open>memcpy\<close> and \<^verbatim>\<open>memset\<close> of \<^verbatim>\<open>include/std/string.h\<close>: \<^verbatim>\<open>rep movsb\<close> and \<^verbatim>\<open>rep stosb\<close> with increasing addresses.\<close>

primrec memcpy :: "ptr \<Rightarrow> ptr \<Rightarrow> nat \<Rightarrow> memory \<Rightarrow> memory" where
  "memcpy dst src 0 m = m"
| "memcpy dst src (Suc n) m = memcpy (dst + 1) (src + 1) n (m(dst := m src))"

primrec memset :: "ptr \<Rightarrow> u8 \<Rightarrow> nat \<Rightarrow> memory \<Rightarrow> memory" where
  "memset dst val 0 m = m"
| "memset dst val (Suc n) m = memset (dst + 1) val n (m(dst := val))"

lemma memset_store: "memset dst val n m = store_bytes m dst (replicate n val)"
  by (induction n arbitrary: dst m) simp_all

lemma memcpy_store:
  "dst + n \<le> src \<or> src + n \<le> dst \<Longrightarrow> memcpy dst src n m = store_bytes m dst (map m [src..<src + n])"
proof (induction n arbitrary: dst src m)
  case (Suc n)
  let ?m = "m(dst := m src)"
  have eq: "map ?m [src + 1..<src + 1 + n] = map m [src + 1..<src + 1 + n]"
    using Suc.prems by (intro map_cong) auto
  have "memcpy (dst + 1) (src + 1) n ?m = store_bytes ?m (dst + 1) (map ?m [src + 1..<src + 1 + n])"
    using Suc.prems by (intro Suc.IH) auto
  then have "memcpy dst src (Suc n) m = store_bytes m dst (m src # map m [src + 1..<src + 1 + n])"
    unfolding eq by simp
  then show ?case by (simp add: upt_conv_Cons del: upt_Suc)
qed simp

section \<open>The description of the machine\<close>

definition MULTIBOOT_TAG_TYPE_END :: nat where "MULTIBOOT_TAG_TYPE_END = 0"
definition MULTIBOOT_TAG_TYPE_MMAP :: nat where "MULTIBOOT_TAG_TYPE_MMAP = 6"
definition MULTIBOOT_TAG_TYPE_FRAMEBUFFER :: nat where "MULTIBOOT_TAG_TYPE_FRAMEBUFFER = 8"
definition MULTIBOOT_MEMORY_AVAILABLE :: nat where "MULTIBOOT_MEMORY_AVAILABLE = 1"

record multiboot_tag =
  mt_type :: nat
  mt_size :: nat

record multiboot_mmap_entry =
  me_addr :: nat
  me_len :: nat
  me_type :: nat

record parse_result_struct =
  memsz :: nat
  is_graphic :: bool
  screen_width :: int
  screen_height :: int
  framebuffer :: ptr

definition read_tag :: "memory \<Rightarrow> ptr \<Rightarrow> multiboot_tag" where
  "read_tag m tag = \<lparr>mt_type = read_le m tag 4, mt_size = read_le m (tag + 4) 4\<rparr>"

text \<open>\<^verbatim>\<open>tag->entries[i]\<close>: the entries of a memory map follow its four words of header.\<close>

definition read_entry :: "memory \<Rightarrow> ptr \<Rightarrow> nat \<Rightarrow> multiboot_mmap_entry" where
  "read_entry m tag i = (let p = tag + 16 + 24 * i in
     \<lparr>me_addr = read_le m p 8, me_len = read_le m (p + 8) 8, me_type = read_le m (p + 16) 4\<rparr>)"

text \<open>The loop of \<^verbatim>\<open>parse_mem_info\<close>: the end of an available area is a sum of 32-bit values.\<close>

definition area_end :: "multiboot_mmap_entry \<Rightarrow> nat" where
  "area_end e = (me_addr e mod 2 ^ 32 + me_len e mod 2 ^ 32) mod 2 ^ 32"

definition mem_info_step :: "multiboot_mmap_entry \<Rightarrow> nat \<Rightarrow> nat" where
  "mem_info_step e sz = (if me_type e = MULTIBOOT_MEMORY_AVAILABLE then max sz (area_end e) else sz)"

text \<open>\<^verbatim>\<open>parse_mem_info\<close>; \<open>None\<close> is a division by an entry size of zero.\<close>

definition parse_mem_info :: "memory \<Rightarrow> ptr \<Rightarrow> nat option" where
  "parse_mem_info m tag =
     (let sz = (mt_size (read_tag m tag) + 2 ^ 32 - 16) mod 2 ^ 32;
          entry_size = read_le m (tag + 8) 4
      in if entry_size = 0 then None
         else let entry_num = wrap32 (int (sz div entry_size))
              in Some (fold (\<lambda>i. mem_info_step (read_entry m tag i)) [0..<nat entry_num] 0 + 0x20000))"

definition parse_framebuffer :: "memory \<Rightarrow> ptr \<Rightarrow> parse_result_struct \<Rightarrow> parse_result_struct" where
  "parse_framebuffer m tag r = r\<lparr>framebuffer := read_le m (tag + 8) 8 mod 2 ^ 32,
     screen_width := wrap32 (int (read_le m (tag + 20) 4)), screen_height := wrap32 (int (read_le m (tag + 24) 4))\<rparr>"

definition parse_tag :: "memory \<Rightarrow> ptr \<Rightarrow> parse_result_struct \<Rightarrow> parse_result_struct option" where
  "parse_tag m tag r =
     (if mt_type (read_tag m tag) = MULTIBOOT_TAG_TYPE_MMAP
      then do { sz \<leftarrow> parse_mem_info m tag; Some (r\<lparr>memsz := sz\<rparr>) }
      else if mt_type (read_tag m tag) = MULTIBOOT_TAG_TYPE_FRAMEBUFFER then Some (parse_framebuffer m tag r)
      else Some r)"

definition next_tag :: "memory \<Rightarrow> ptr \<Rightarrow> ptr" where
  "next_tag m tag = (tag + (mt_size (read_tag m tag) + 7) mod 2 ^ 32 div 8 * 8) mod 2 ^ 32"

partial_function (option) parse_tags :: "memory \<Rightarrow> ptr \<Rightarrow> parse_result_struct \<Rightarrow> parse_result_struct option" where
  "parse_tags m tag r =
     (if mt_type (read_tag m tag) = MULTIBOOT_TAG_TYPE_END then Some r
      else do { r \<leftarrow> parse_tag m tag r; parse_tags m (next_tag m tag) r })"

text \<open>\<^verbatim>\<open>parse_args\<close>; \<open>vbe\<close> is the build option \<^verbatim>\<open>VBE_ENABLE\<close>.\<close>

definition parse_args :: "bool \<Rightarrow> memory \<Rightarrow> ptr \<Rightarrow> parse_result_struct \<Rightarrow> parse_result_struct option" where
  "parse_args vbe m tag r = do {
     r \<leftarrow> parse_tags m ((tag + 8) mod 2 ^ 32) r;
     if vbe then Some (r\<lparr>is_graphic := True\<rparr>)
     else Some (r\<lparr>is_graphic := False, screen_width := 80, screen_height := 25, framebuffer := 0xB8000\<rparr>)
   }"

section \<open>Loading the kernel\<close>

text \<open>\<^verbatim>\<open>load_program\<close> and \<^verbatim>\<open>load_elf\<close> of \<^verbatim>\<open>load_kernel.c\<close>.\<close>

definition load_program32 :: "ptr \<Rightarrow> Elf64_Phdr \<Rightarrow> nat \<times> nat \<Rightarrow> memory \<Rightarrow> (nat \<times> nat) \<times> memory" where
  "load_program32 kernel_bin h sl m =
     (if p_type h \<noteq> PT_LOAD then (sl, m)
      else let m = memcpy (p_vaddr h mod 2 ^ 32) ((kernel_bin + p_offset h) mod 2 ^ 32) (p_filesz h mod 2 ^ 32) m;
               m = memset ((p_vaddr h + p_filesz h) mod 2 ^ 32) 0 ((p_memsz h + 2 ^ 64 - p_filesz h) mod 2 ^ 32) m
           in ((p_vaddr h mod 2 ^ 32, (p_vaddr h + p_memsz h) mod 2 ^ 32), m))"

primrec load_elf_loop :: "ptr \<Rightarrow> nat list \<Rightarrow> nat \<times> nat \<Rightarrow> memory \<Rightarrow> (nat \<times> nat) \<times> memory" where
  "load_elf_loop kernel_bin [] sl m = (sl, m)"
| "load_elf_loop kernel_bin (i # is) sl m =
     (let header = read_ehdr m kernel_bin in
      if i < e_phnum header then
        let h = read_phdr m ((kernel_bin + e_phoff header + i * e_phentsize header) mod 2 ^ 32);
            ((pstart, plimit), m) = load_program32 kernel_bin h (0xFFFFFFFF, 0) m
        in load_elf_loop kernel_bin is (min (fst sl) pstart, max (snd sl) plimit) m
      else (sl, m))"

definition load_elf :: "ptr \<Rightarrow> nat \<times> nat \<Rightarrow> memory \<Rightarrow> ptr \<times> (nat \<times> nat) \<times> memory" where
  "load_elf kernel_bin sl m =
     (let (sl, m) = load_elf_loop kernel_bin [0..<65536] sl m
      in (e_entry (read_ehdr m kernel_bin) mod 2 ^ 32, sl, m))"

section \<open>The arguments of the kernel\<close>

record boot_args =
  ba_magic :: nat
  ba_is_graphic_mode :: bool
  ba_screen_width :: int
  ba_screen_height :: int
  ba_framebuffer :: nat
  ba_memory_size :: nat
  ba_kernel_start :: nat
  ba_kernel_limit :: nat
  ba_page_start :: nat
  ba_page_limit :: nat
  ba_setup_mod_addr :: nat

definition BOOT_ARGS_MAGIC :: nat where "BOOT_ARGS_MAGIC = 0x5A71F213"

text \<open>A 32-bit pointer assigned to a field of 64 bits is sign-extended; the framebuffer and the size are masked afterwards.\<close>

definition pointer_to_qword :: "ptr \<Rightarrow> nat" where
  "pointer_to_qword p = (if p < 2 ^ 31 then p else p + (2 ^ 64 - 2 ^ 32))"

definition init_boot_args ::
    "ptr \<Rightarrow> ptr \<Rightarrow> ptr \<Rightarrow> ptr \<Rightarrow> ptr \<Rightarrow> bool \<Rightarrow> int \<Rightarrow> int \<Rightarrow> ptr \<Rightarrow> nat \<Rightarrow> boot_args" where
  "init_boot_args setup_mod page_start page_limit kernel_start kernel_limit graphic width height fb sz =
     \<lparr>ba_magic = BOOT_ARGS_MAGIC, ba_is_graphic_mode = graphic, ba_screen_width = width, ba_screen_height = height,
      ba_framebuffer = pointer_to_qword fb mod 2 ^ 32, ba_memory_size = sz mod 2 ^ 32,
      ba_kernel_start = pointer_to_qword kernel_start, ba_kernel_limit = pointer_to_qword kernel_limit,
      ba_page_start = pointer_to_qword page_start, ba_page_limit = pointer_to_qword page_limit,
      ba_setup_mod_addr = pointer_to_qword setup_mod\<rparr>"

section \<open>The kernel in memory\<close>

definition phdr_addr32 :: "memory \<Rightarrow> ptr \<Rightarrow> nat \<Rightarrow> ptr" where
  "phdr_addr32 m kernel_bin i =
     (kernel_bin + e_phoff (read_ehdr m kernel_bin) + i * e_phentsize (read_ehdr m kernel_bin)) mod 2 ^ 32"

definition segments32 :: "memory \<Rightarrow> ptr \<Rightarrow> nat \<Rightarrow> Elf64_Phdr list" where
  "segments32 m kernel_bin i = filter (\<lambda>h. p_type h = PT_LOAD)
     (map (\<lambda>i. read_phdr m (phdr_addr32 m kernel_bin i)) [i..<e_phnum (read_ehdr m kernel_bin)])"

text \<open>The bytes of a segment: the part in the file, then zeros.\<close>

definition seg_bytes :: "memory \<Rightarrow> ptr \<Rightarrow> Elf64_Phdr \<Rightarrow> u8 list" where
  "seg_bytes m kernel_bin h =
     map m [kernel_bin + p_offset h..<kernel_bin + p_offset h + p_filesz h] @ replicate (p_memsz h - p_filesz h) 0"

definition place :: "memory \<Rightarrow> ptr \<Rightarrow> Elf64_Phdr \<Rightarrow> memory \<Rightarrow> memory" where
  "place m kernel_bin h m' = store_bytes m' (p_vaddr h) (seg_bytes m kernel_bin h)"

text \<open>
  An image in \<open>I\<close> whose segments fit below \<open>2 ^ 32\<close> and do not overwrite it.
\<close>

definition seg_fits32 :: "ptr \<Rightarrow> ptr set \<Rightarrow> Elf64_Phdr \<Rightarrow> bool" where
  "seg_fits32 kernel_bin I h \<longleftrightarrow> p_filesz h \<le> p_memsz h \<and> p_vaddr h + p_memsz h < 2 ^ 32
     \<and> kernel_bin + p_offset h + p_filesz h < 2 ^ 32
     \<and> {kernel_bin + p_offset h..<kernel_bin + p_offset h + p_filesz h} \<subseteq> I
     \<and> {p_vaddr h..<p_vaddr h + p_memsz h} \<inter> I = {}"

definition image_ok32 :: "memory \<Rightarrow> ptr \<Rightarrow> ptr set \<Rightarrow> bool" where
  "image_ok32 m kernel_bin I \<longleftrightarrow> {kernel_bin..<kernel_bin + 64} \<subseteq> I
     \<and> (\<forall>i < e_phnum (read_ehdr m kernel_bin). {phdr_addr32 m kernel_bin i..<phdr_addr32 m kernel_bin i + 56} \<subseteq> I)
     \<and> (\<forall>h\<in>set (segments32 m kernel_bin 0). seg_fits32 kernel_bin I h)"

lemma length_seg_bytes: "p_filesz h \<le> p_memsz h \<Longrightarrow> length (seg_bytes m kernel_bin h) = p_memsz h"
  by (simp add: seg_bytes_def)

lemma place_outside:
  assumes "seg_fits32 kernel_bin I h" and "q \<in> I"
  shows "place m kernel_bin h m' q = m' q"
proof -
  have "q \<notin> {p_vaddr h..<p_vaddr h + p_memsz h}" "p_filesz h \<le> p_memsz h"
    using assms unfolding seg_fits32_def by blast+
  then show ?thesis unfolding place_def by (intro store_bytes_outside) (auto simp: length_seg_bytes)
qed

lemma two_pow_64_mod_32: "(2 ^ 64 :: nat) mod 2 ^ 32 = 0"
  by simp

lemma load_program32_place:
  assumes "p_type h = PT_LOAD" and "seg_fits32 kernel_bin I h" and "\<And>q. q \<in> I \<Longrightarrow> m' q = m q"
  shows "load_program32 kernel_bin h sl m' = ((p_vaddr h, p_vaddr h + p_memsz h), place m kernel_bin h m')"
proof -
  let ?src = "kernel_bin + p_offset h"
  have f: "p_filesz h \<le> p_memsz h" "p_vaddr h + p_memsz h < 2 ^ 32" "?src + p_filesz h < 2 ^ 32"
      "{?src..<?src + p_filesz h} \<subseteq> I" "{p_vaddr h..<p_vaddr h + p_memsz h} \<inter> I = {}"
    using assms(2) by (simp_all add: seg_fits32_def)
  have apart: "p_vaddr h + p_filesz h \<le> ?src \<or> ?src + p_filesz h \<le> p_vaddr h \<or> p_filesz h = 0"
  proof (rule ccontr)
    assume "\<not> ?thesis"
    then have "max ?src (p_vaddr h) \<in> {?src..<?src + p_filesz h} \<inter> {p_vaddr h..<p_vaddr h + p_memsz h}"
      using f(1) by (auto simp: max_def)
    then show False using f(4,5) by blast
  qed
  have copy: "memcpy (p_vaddr h) ?src (p_filesz h) m' = store_bytes m' (p_vaddr h) (map m' [?src..<?src + p_filesz h])"
    using apart memcpy_store by (cases "p_filesz h = 0") auto
  have "map m' [?src..<?src + p_filesz h] = map m [?src..<?src + p_filesz h]"
    using assms(3) f(4) by (intro map_cong) auto
  note bytes = this
  have "(p_memsz h + 2 ^ 64 - p_filesz h) mod 2 ^ 32 = (p_memsz h - p_filesz h + 2 ^ 64) mod 2 ^ 32"
    using f(1) by simp
  also have "\<dots> = (p_memsz h - p_filesz h) mod 2 ^ 32"
    by (metis add.right_neutral mod_add_right_eq two_pow_64_mod_32)
  also have "\<dots> = p_memsz h - p_filesz h" using f(2) by simp
  finally have rest: "(p_memsz h + 2 ^ 64 - p_filesz h) mod 2 ^ 32 = p_memsz h - p_filesz h" .
  have m: "p_vaddr h mod 2 ^ 32 = p_vaddr h" "?src mod 2 ^ 32 = ?src" "p_filesz h mod 2 ^ 32 = p_filesz h"
      "(p_vaddr h + p_filesz h) mod 2 ^ 32 = p_vaddr h + p_filesz h"
      "(p_vaddr h + p_memsz h) mod 2 ^ 32 = p_vaddr h + p_memsz h"
    using f(1-3) by (simp_all only: mod_less)
  show ?thesis
    using assms(1) unfolding load_program32_def m rest Let_def copy bytes memset_store
    by (simp add: place_def seg_bytes_def store_bytes_append)
qed

lemma segments32_step:
  assumes "i < e_phnum (read_ehdr m kernel_bin)"
  defines "h \<equiv> read_phdr m (phdr_addr32 m kernel_bin i)"
  shows "segments32 m kernel_bin i =
    (if p_type h = PT_LOAD then h # segments32 m kernel_bin (Suc i) else segments32 m kernel_bin (Suc i))"
  using assms by (simp add: segments32_def upt_conv_Cons)

lemma load_elf_loop_place:
  assumes heads: "{kernel_bin..<kernel_bin + 64} \<subseteq> I"
      "\<And>j. j < e_phnum (read_ehdr m kernel_bin) \<Longrightarrow> {phdr_addr32 m kernel_bin j..<phdr_addr32 m kernel_bin j + 56} \<subseteq> I"
    and same: "\<And>q. q \<in> I \<Longrightarrow> m' q = m q"
    and segs: "\<And>h. h \<in> set (segments32 m kernel_bin i) \<Longrightarrow> seg_fits32 kernel_bin I h"
    and i: "i + d = e_phnum (read_ehdr m kernel_bin)" and sl: "fst sl < 2 ^ 32"
  shows "load_elf_loop kernel_bin [i..<65536] sl m' =
    (fold span_step (segments32 m kernel_bin i) sl, fold (place m kernel_bin) (segments32 m kernel_bin i) m')"
  using same segs i sl
proof (induction d arbitrary: i m' sl)
  case 0
  have "i < 65536" using e_phnum_bound [of m kernel_bin] 0(3) by simp
  then have up: "[i..<65536] = i # [Suc i..<65536]" by (simp add: upt_conv_Cons)
  have "read_ehdr m' kernel_bin = read_ehdr m kernel_bin"
    using 0(1) heads(1) by (intro read_ehdr_cong) blast
  then show ?case unfolding up using 0(3) by (simp add: Let_def segments32_def)
next
  case (Suc d)
  let ?h = "read_phdr m (phdr_addr32 m kernel_bin i)"
  have lt: "i < e_phnum (read_ehdr m kernel_bin)" "i < 65536"
    using e_phnum_bound [of m kernel_bin] Suc.prems(3) by simp_all
  then have up: "[i..<65536] = i # [Suc i..<65536]" by (simp add: upt_conv_Cons)
  have H: "read_ehdr m' kernel_bin = read_ehdr m kernel_bin"
    using Suc.prems(1) heads(1) by (intro read_ehdr_cong) blast
  have P: "read_phdr m' (phdr_addr32 m kernel_bin i) = ?h"
    using Suc.prems(1) heads(2) [OF lt(1)] by (intro read_phdr_cong) blast
  note step = segments32_step [OF lt(1)]
  show ?case
  proof (cases "p_type ?h = PT_LOAD")
    case False
    have "load_elf_loop kernel_bin [i..<65536] sl m' = load_elf_loop kernel_bin [Suc i..<65536] sl m'"
      unfolding up using lt H P False Suc.prems(4)
      by (cases sl) (simp add: Let_def phdr_addr32_def load_program32_def min_def del: upt_Suc)
    then show ?thesis using Suc.IH [of m' "Suc i" sl] Suc.prems False step by simp
  next
    case True
    have l: "segments32 m kernel_bin i = ?h # segments32 m kernel_bin (Suc i)" using step True by simp
    have fits: "seg_fits32 kernel_bin I ?h" using Suc.prems(2) unfolding l by simp
    have "load_elf_loop kernel_bin [i..<65536] sl m' =
        load_elf_loop kernel_bin [Suc i..<65536] (span_step ?h sl) (place m kernel_bin ?h m')"
      unfolding up using lt H P load_program32_place [OF True fits Suc.prems(1)]
      by (simp add: Let_def phdr_addr32_def span_step_def del: upt_Suc)
    also have "\<dots> = (fold span_step (segments32 m kernel_bin (Suc i)) (span_step ?h sl),
        fold (place m kernel_bin) (segments32 m kernel_bin (Suc i)) (place m kernel_bin ?h m'))"
    proof (rule Suc.IH)
      show "place m kernel_bin ?h m' q = m q" if "q \<in> I" for q
        using place_outside [OF fits that] Suc.prems(1) [OF that] by simp
      show "seg_fits32 kernel_bin I h" if "h \<in> set (segments32 m kernel_bin (Suc i))" for h
        using Suc.prems(2) that unfolding l by simp
    qed (use Suc.prems(3,4) in \<open>simp_all add: span_step_def\<close>)
    finally show ?thesis unfolding l by simp
  qed
qed

text \<open>The bytes of disjoint segments after all of them have been placed.\<close>

definition mem_range :: "Elf64_Phdr \<Rightarrow> nat set" where
  "mem_range h = {p_vaddr h..<p_vaddr h + p_memsz h}"

primrec ranges_apart :: "Elf64_Phdr list \<Rightarrow> bool" where
  "ranges_apart [] = True"
| "ranges_apart (h # hs) = ((\<forall>g\<in>set hs. mem_range h \<inter> mem_range g = {}) \<and> ranges_apart hs)"

lemma place_untouched:
  "\<forall>h\<in>set hs. p_filesz h \<le> p_memsz h \<and> q \<notin> mem_range h \<Longrightarrow> fold (place m kernel_bin) hs m' q = m' q"
  by (induction hs arbitrary: m') (auto simp: place_def mem_range_def length_seg_bytes store_bytes_outside not_le)

lemma place_inside:
  assumes "k < p_memsz h" and "p_filesz h \<le> p_memsz h"
  shows "place m kernel_bin h m' (p_vaddr h + k) = (if k < p_filesz h then m (kernel_bin + p_offset h + k) else 0)"
  unfolding place_def using assms
  by (subst store_bytes_inside) (auto simp: length_seg_bytes seg_bytes_def nth_append)

lemma place_all:
  assumes "ranges_apart hs" and "\<forall>h\<in>set hs. p_filesz h \<le> p_memsz h" and "h \<in> set hs" and "k < p_memsz h"
  shows "fold (place m kernel_bin) hs m' (p_vaddr h + k) =
    (if k < p_filesz h then m (kernel_bin + p_offset h + k) else 0)"
  using assms
proof (induction hs arbitrary: m')
  case (Cons g hs)
  show ?case
  proof (cases "h \<in> set hs")
    case True
    then show ?thesis using Cons by simp
  next
    case False
    then have "h = g" using Cons.prems(3) by simp
    moreover have "p_vaddr h + k \<in> mem_range h" using Cons.prems(4) by (simp add: mem_range_def)
    ultimately have "\<forall>f\<in>set hs. p_filesz f \<le> p_memsz f \<and> p_vaddr h + k \<notin> mem_range f"
      using Cons.prems(1,2) by auto
    then show ?thesis using place_untouched place_inside Cons.prems(2,4) \<open>h = g\<close> by simp
  qed
qed simp

lemma load_program32_paddr: "load_program32 kernel_bin (h\<lparr>p_paddr := a\<rparr>) r m = load_program32 kernel_bin h r m"
  by (simp add: load_program32_def)

text \<open>
  C23. The loader puts the segments of the kernel at their virtual addresses.  For an ELF image whose headers and file
  parts lie in \<open>I\<close>, whose segments fit below \<open>2 ^ 32\<close>, do not overwrite the image and do not overlap each other,
  \<^verbatim>\<open>load_elf\<close> returns the entry point and the span of the segments, every byte of a segment is the byte of the file or
  zero behind its end, and memory outside the segments keeps its contents.  The loading standard
  (\<^verbatim>\<open>doc\<close>) asks for the physical address of each segment instead: the code never reads it (lemma
  \<open>load_program32_paddr\<close>), and the segments are where the standard wants them when the two addresses of a
  header agree.
\<close>

theorem load_elf_loads:
  assumes img: "image_ok32 m kernel_bin I" and apart: "ranges_apart (segments32 m kernel_bin 0)"
  shows "\<exists>m'. load_elf kernel_bin (0xFFFFFFFF, 0) m =
      (e_entry (read_ehdr m kernel_bin) mod 2 ^ 32, fold span_step (segments32 m kernel_bin 0) (0xFFFFFFFF, 0), m')
    \<and> (\<forall>h\<in>set (segments32 m kernel_bin 0). \<forall>k<p_memsz h.
         m' (p_vaddr h + k) = (if k < p_filesz h then m (kernel_bin + p_offset h + k) else 0))
    \<and> (\<forall>h\<in>set (segments32 m kernel_bin 0). p_paddr h = p_vaddr h \<longrightarrow>
         (\<forall>k<p_memsz h. m' (p_paddr h + k) = (if k < p_filesz h then m (kernel_bin + p_offset h + k) else 0)))
    \<and> (\<forall>q. (\<forall>h\<in>set (segments32 m kernel_bin 0). q \<notin> mem_range h) \<longrightarrow> m' q = m q)"
proof -
  have i: "{kernel_bin..<kernel_bin + 64} \<subseteq> I"
      "\<And>j. j < e_phnum (read_ehdr m kernel_bin) \<Longrightarrow> {phdr_addr32 m kernel_bin j..<phdr_addr32 m kernel_bin j + 56} \<subseteq> I"
      "\<And>h. h \<in> set (segments32 m kernel_bin 0) \<Longrightarrow> seg_fits32 kernel_bin I h"
    using img unfolding image_ok32_def by blast+
  let ?segs = "segments32 m kernel_bin 0"
  have loop: "load_elf_loop kernel_bin [0..<65536] (0xFFFFFFFF, 0) m =
      (fold span_step ?segs (0xFFFFFFFF, 0), fold (place m kernel_bin) ?segs m)"
    by (rule load_elf_loop_place [OF i(1,2) _ i(3)]) simp_all
  have len: "\<forall>h\<in>set ?segs. p_filesz h \<le> p_memsz h" using i(3) by (auto simp: seg_fits32_def)
  have keep: "fold (place m kernel_bin) ?segs m q = m q" if "\<forall>h\<in>set ?segs. q \<notin> mem_range h" for q
    using that len by (intro place_untouched) blast
  have "q \<notin> mem_range h" if "q \<in> {kernel_bin..<kernel_bin + 64}" "h \<in> set ?segs" for q h
    using i(1) i(3) [OF that(2)] that(1) unfolding seg_fits32_def mem_range_def by blast
  then have "read_ehdr (fold (place m kernel_bin) ?segs m) kernel_bin = read_ehdr m kernel_bin"
    using keep by (intro read_ehdr_cong) blast
  then show ?thesis
    using keep place_all [OF apart len, of _ _ m kernel_bin m]
    by (intro exI [of _ "fold (place m kernel_bin) ?segs m"]) (simp add: load_elf_def loop)
qed

section \<open>Reading the tags\<close>

text \<open>The size of the memory is the highest end of an available area, as a 32-bit sum, and 128 KiB.\<close>

lemma fold_mem_info:
  "fold mem_info_step mes sz = fold max (map area_end (filter (\<lambda>e. me_type e = MULTIBOOT_MEMORY_AVAILABLE) mes)) sz"
  by (induction mes arbitrary: sz) (simp_all add: mem_info_step_def max.commute)

lemma fold_mem_info_entries:
  "fold (\<lambda>i. mem_info_step (read_entry m tag i)) is sz = fold mem_info_step (map (read_entry m tag) is) sz"
  by (simp add: fold_map comp_def)

lemma fold_max_bound: "\<forall>x\<in>set xs. x < b \<Longrightarrow> a < b \<Longrightarrow> fold max xs a < (b :: nat)"
  by (induction xs arbitrary: a) (simp_all add: max_def)

lemma parse_mem_info_bound:
  assumes "parse_mem_info m tag = Some sz"
  shows "0x20000 \<le> sz" and "sz < 2 ^ 32 + 0x20000"
proof -
  have "fold max (map area_end (filter (\<lambda>e. me_type e = MULTIBOOT_MEMORY_AVAILABLE) mes)) 0 < 2 ^ 32" for mes
    by (rule fold_max_bound) (auto simp: area_end_def)
  then show "0x20000 \<le> sz" "sz < 2 ^ 32 + 0x20000"
    using assms
    by (auto simp: parse_mem_info_def Let_def fold_mem_info_entries fold_mem_info simp del: mult_2 split: if_splits)
qed

lemma area_end_wraps:
  assumes "me_addr e < 2 ^ 32" and "me_len e < 2 ^ 32" and "2 ^ 32 \<le> me_addr e + me_len e"
  shows "area_end e = me_addr e + me_len e - 2 ^ 32"
proof -
  have "(me_addr e + me_len e) mod 2 ^ 32 = (me_addr e + me_len e - 2 ^ 32) mod 2 ^ 32"
    using assms(3) by (simp add: le_mod_geq)
  then show ?thesis using assms by (simp add: area_end_def)
qed

text \<open>The tags of a list that ends, from \<open>p\<close> on.\<close>

fun tag_chain :: "memory \<Rightarrow> ptr \<Rightarrow> ptr list \<Rightarrow> bool" where
  "tag_chain m p [] = (mt_type (read_tag m p) = MULTIBOOT_TAG_TYPE_END)"
| "tag_chain m p (t # ts) =
     (t = p \<and> mt_type (read_tag m p) \<noteq> MULTIBOOT_TAG_TYPE_END \<and> tag_chain m (next_tag m p) ts)"

definition mmaps :: "memory \<Rightarrow> ptr list \<Rightarrow> ptr list" where
  "mmaps m ts = filter (\<lambda>t. mt_type (read_tag m t) = MULTIBOOT_TAG_TYPE_MMAP) ts"

definition fb_tags :: "memory \<Rightarrow> ptr list \<Rightarrow> ptr list" where
  "fb_tags m ts = filter (\<lambda>t. mt_type (read_tag m t) = MULTIBOOT_TAG_TYPE_FRAMEBUFFER) ts"

lemmas tag_types = MULTIBOOT_TAG_TYPE_END_def MULTIBOOT_TAG_TYPE_MMAP_def MULTIBOOT_TAG_TYPE_FRAMEBUFFER_def

definition last_mem :: "memory \<Rightarrow> ptr list \<Rightarrow> nat \<Rightarrow> nat" where
  "last_mem m ts old = (if mmaps m ts = [] then old else the (parse_mem_info m (last (mmaps m ts))))"

definition last_screen :: "memory \<Rightarrow> ptr list \<Rightarrow> parse_result_struct \<Rightarrow> parse_result_struct" where
  "last_screen m ts r = (if fb_tags m ts = [] then r else parse_framebuffer m (last (fb_tags m ts)) r)"

lemma parse_framebuffer_twice [simp]:
  "parse_framebuffer m t (parse_framebuffer m u r) = parse_framebuffer m t r"
  "parse_framebuffer m t (r\<lparr>memsz := z\<rparr>) = (parse_framebuffer m t r)\<lparr>memsz := z\<rparr>"
  "memsz (parse_framebuffer m t r) = memsz r"
  by (simp_all add: parse_framebuffer_def)

lemma last_mem_screen: "memsz (last_screen m ts r) = memsz r"
  by (simp add: last_screen_def)

lemma last_screen_memsz: "last_screen m ts (r\<lparr>memsz := z\<rparr>) = (last_screen m ts r)\<lparr>memsz := z\<rparr>"
  by (simp add: last_screen_def)

lemma parse_tags_chain:
  assumes "tag_chain m p ts" and "\<forall>t\<in>set (mmaps m ts). read_le m (t + 8) 4 \<noteq> 0"
  shows "parse_tags m p r = Some ((last_screen m ts r)\<lparr>memsz := last_mem m ts (memsz r)\<rparr>)"
  using assms
proof (induction ts arbitrary: p r)
  case Nil
  then show ?case by (subst parse_tags.simps) (simp add: last_screen_def last_mem_def mmaps_def fb_tags_def)
next
  case (Cons t ts)
  have t: "t = p" "mt_type (read_tag m p) \<noteq> MULTIBOOT_TAG_TYPE_END" "tag_chain m (next_tag m p) ts"
    using Cons.prems(1) by simp_all
  have rest: "\<forall>t\<in>set (mmaps m ts). read_le m (t + 8) 4 \<noteq> 0"
    using Cons.prems(2) by (simp add: mmaps_def split: if_splits)
  note IH = Cons.IH [OF t(3) rest]
  have unfold: "parse_tags m p r = (case parse_tag m p r of None \<Rightarrow> None | Some r \<Rightarrow> parse_tags m (next_tag m p) r)"
    using t(2) by (subst parse_tags.simps) (simp split: option.splits)
  consider (mmap) "mt_type (read_tag m p) = MULTIBOOT_TAG_TYPE_MMAP"
    | (fb) "mt_type (read_tag m p) = MULTIBOOT_TAG_TYPE_FRAMEBUFFER"
    | (other) "mt_type (read_tag m p) \<noteq> MULTIBOOT_TAG_TYPE_MMAP" "mt_type (read_tag m p) \<noteq> MULTIBOOT_TAG_TYPE_FRAMEBUFFER"
    by blast
  then show ?case
  proof cases
    case mmap
    then have "read_le m (p + 8) 4 \<noteq> 0" using Cons.prems(2) t(1) by (simp add: mmaps_def)
    then obtain sz where sz: "parse_mem_info m p = Some sz" by (simp add: parse_mem_info_def Let_def)
    have "parse_tag m p r = Some (r\<lparr>memsz := sz\<rparr>)" using mmap sz by (simp add: parse_tag_def)
    moreover have "last_screen m (p # ts) r = last_screen m ts r"
      using mmap by (simp add: last_screen_def fb_tags_def tag_types)
    moreover have "last_mem m (p # ts) (memsz r) = last_mem m ts sz"
      using mmap sz by (simp add: last_mem_def mmaps_def)
    ultimately show ?thesis unfolding unfold t(1) using IH by (simp add: last_screen_memsz)
  next
    case fb
    then have "parse_tag m p r = Some (parse_framebuffer m p r)" by (simp add: parse_tag_def tag_types)
    moreover have "last_screen m (p # ts) r = last_screen m ts (parse_framebuffer m p r)"
      using fb by (simp add: last_screen_def fb_tags_def)
    moreover have "last_mem m (p # ts) (memsz r) = last_mem m ts (memsz r)"
      using fb by (simp add: last_mem_def mmaps_def tag_types)
    ultimately show ?thesis unfolding unfold t(1) using IH by simp
  next
    case other
    then have "parse_tag m p r = Some r" by (simp add: parse_tag_def)
    moreover have "last_screen m (p # ts) r = last_screen m ts r" "last_mem m (p # ts) (memsz r) = last_mem m ts (memsz r)"
      using other by (simp_all add: last_screen_def last_mem_def mmaps_def fb_tags_def)
    ultimately show ?thesis unfolding unfold t(1) using IH by simp
  qed
qed

text \<open>A tag whose size brings the loop back to it, for example size zero, is read again and again.\<close>

lemma parse_tags_stuck:
  assumes "mt_type (read_tag m p) \<noteq> MULTIBOOT_TAG_TYPE_END" and "next_tag m p = p"
  shows "parse_tags m p r = None"
proof (rule ccontr)
  assume "parse_tags m p r \<noteq> None"
  then obtain s where s: "parse_tags m p r = Some s" by auto
  have "\<not> (m = m \<and> p = p)"
    by (rule parse_tags.raw_induct [OF _ s, where P = "\<lambda>m' p' r' s'. \<not> (m' = m \<and> p' = p)"])
      (use assms in \<open>auto simp: bind_eq_Some_conv split: if_splits\<close>)
  then show False by simp
qed

text \<open>The available areas of a memory map.\<close>

definition available_areas :: "memory \<Rightarrow> ptr \<Rightarrow> multiboot_mmap_entry list" where
  "available_areas m t = filter (\<lambda>e. me_type e = MULTIBOOT_MEMORY_AVAILABLE)
     (map (read_entry m t) [0..<(mt_size (read_tag m t) - 16) div read_le m (t + 8) 4])"

definition mmap_ok :: "memory \<Rightarrow> ptr \<Rightarrow> bool" where
  "mmap_ok m t \<longleftrightarrow> read_le m (t + 8) 4 \<noteq> 0 \<and> 16 \<le> mt_size (read_tag m t) \<and> mt_size (read_tag m t) < 2 ^ 31"

lemma parse_mem_info_max:
  assumes "mmap_ok m t"
  shows "parse_mem_info m t = Some (Max (insert 0 (area_end ` set (available_areas m t))) + 0x20000)"
proof -
  let ?s = "mt_size (read_tag m t)" and ?e = "read_le m (t + 8) 4"
  have s: "?e \<noteq> 0" "16 \<le> ?s" "?s < 2 ^ 31" using assms by (simp_all add: mmap_ok_def)
  then have sz: "(?s + 2 ^ 32 - 16) mod 2 ^ 32 = ?s - 16" by (simp add: le_mod_geq)
  have "?s - 16 < 2 ^ 31" using s(3) by simp
  with div_le_dividend have "(?s - 16) div ?e < 2 ^ 31" by (rule le_less_trans)
  then have n: "wrap32 (int ((?s - 16) div ?e)) = int ((?s - 16) div ?e)"
    by (intro wrap32_id) simp_all
  have "fold max xs 0 = Max (insert 0 (set xs))" for xs :: "nat list"
    using Max.set_eq_fold [of 0 xs] by simp
  then have "fold (\<lambda>i. mem_info_step (read_entry m t i)) [0..<(?s - 16) div ?e] 0 =
      Max (insert 0 (area_end ` set (available_areas m t)))"
    by (simp add: fold_mem_info_entries fold_mem_info available_areas_def)
  then show ?thesis using s(1) unfolding parse_mem_info_def sz Let_def n by simp
qed

text \<open>
  The loader reads the description of the machine.  For a list of tags that ends and holds one memory map,
  \<^verbatim>\<open>parse_args\<close> returns; the size of the memory is the highest end of an available area, summed in 32 bits, and 128 KiB
  more; the screen is the text screen of 80 by 25 cells at \<open>0xB8000\<close>, and with \<^verbatim>\<open>VBE_ENABLE\<close> the one of the last
  framebuffer tag.
\<close>

lemma parse_args_tags:
  assumes "tag_chain m ((tag + 8) mod 2 ^ 32) ts" and "mmaps m ts = [t]" and "mmap_ok m t"
  shows "parse_args vbe m tag r = Some ((if vbe then (last_screen m ts r)\<lparr>is_graphic := True\<rparr>
      else r\<lparr>is_graphic := False, screen_width := 80, screen_height := 25, framebuffer := 0xB8000\<rparr>)
      \<lparr>memsz := Max (insert 0 (area_end ` set (available_areas m t))) + 0x20000\<rparr>)"
proof -
  have "\<forall>t\<in>set (mmaps m ts). read_le m (t + 8) 4 \<noteq> 0" using assms(2,3) by (simp add: mmap_ok_def)
  moreover have "last_mem m ts (memsz r) = Max (insert 0 (area_end ` set (available_areas m t))) + 0x20000"
    using parse_mem_info_max [OF assms(3)] by (simp add: last_mem_def assms(2))
  ultimately show ?thesis
    using parse_tags_chain [OF assms(1), of r] by (simp add: parse_args_def last_screen_def parse_framebuffer_def)
qed

section \<open>Examples\<close>

text \<open>A list with one memory map of one area of 127 MiB from 1 MiB on.\<close>

definition example_tags :: memory where
  "example_tags p = (case map_of [(4104, 6), (4108, 40), (4112, 24), (4122, 16), (4130, 240), (4131, 7), (4136, 1)] p
     of None \<Rightarrow> 0 | Some b \<Rightarrow> b)"

lemma example_tag:
  "read_tag example_tags 4104 = \<lparr>mt_type = 6, mt_size = 40\<rparr>"
  "read_tag example_tags 4144 = \<lparr>mt_type = 0, mt_size = 0\<rparr>"
  "read_le example_tags 4112 4 = 24"
  "read_entry example_tags 4104 0 = \<lparr>me_addr = 0x100000, me_len = 0x7F00000, me_type = 1\<rparr>"
  by (simp_all add: read_tag_def read_entry_def read_le_def example_tags_def Let_def)

lemma parse_args_example:
  "parse_args False example_tags 4096 \<lparr>memsz = 0, is_graphic = True, screen_width = 0, screen_height = 0, framebuffer = 0\<rparr>
   = Some \<lparr>memsz = 0x8020000, is_graphic = False, screen_width = 80, screen_height = 25, framebuffer = 0xB8000\<rparr>"
proof -
  have "tag_chain example_tags 4104 [4104]" "mmaps example_tags [4104] = [4104]" "mmap_ok example_tags 4104"
    by (simp_all add: tag_types example_tag next_tag_def mmaps_def mmap_ok_def)
  moreover have "available_areas example_tags 4104 = [read_entry example_tags 4104 0]"
    by (simp add: available_areas_def example_tag MULTIBOOT_MEMORY_AVAILABLE_def)
  ultimately show ?thesis
    using parse_args_tags [of example_tags 4096 "[4104]" 4104 False] by (simp add: area_end_def example_tag)
qed

text \<open>The image of the module loader, with its segment at 64 MiB.\<close>

theorem load_elf_loads_witness:
  "\<exists>m'. load_elf 131072 (0xFFFFFFFF, 0) example_image = (67108864, (67108864, 67108869), m')
    \<and> m' 67108865 = 20 \<and> m' 67108868 = 0 \<and> m' 131193 = 20"
proof -
  have segs: "segments32 example_image 131072 0 = [segment example_image 131072 0]"
    by (simp add: segments32_def phdr_addr32_def example_ehdr segment_def phdr_addr_def)
      (simp add: example_segment [unfolded segment_def phdr_addr_def, simplified example_ehdr, simplified] PT_LOAD_def)
  have img: "image_ok32 example_image 131072 {131072..<131195}"
    by (simp add: image_ok32_def segs example_ehdr phdr_addr32_def) (simp add: example_segment seg_fits32_def)
  have "ranges_apart (segments32 example_image 131072 0)" by (simp add: segs)
  from load_elf_loads [OF img this] obtain m' where m':
    "load_elf 131072 (0xFFFFFFFF, 0) example_image = (67108864, (67108864, 67108869), m')"
    "\<forall>h\<in>set (segments32 example_image 131072 0). \<forall>k<p_memsz h.
       m' (p_vaddr h + k) = (if k < p_filesz h then example_image (131072 + p_offset h + k) else 0)"
    "\<forall>q. q \<notin> {67108864..<67108869} \<longrightarrow> m' q = example_image q"
    by (auto simp: segs example_segment example_ehdr span_step_def mem_range_def)
  then have bytes: "m' (67108864 + k) = (if k < 3 then example_image (131192 + k) else 0)" if "k < 5" for k
    using bspec [OF m'(2), of "segment example_image 131072 0"] that by (simp add: segs example_segment)
  have "m' 67108865 = 20" "m' 67108868 = 0" "m' 131193 = 20"
    using bytes [of 1] bytes [of 4] m'(3) [rule_format, of 131193]
    by (simp_all add: example_image_def)
  then show ?thesis using m'(1) by blast
qed

end
