(* ===== verification/LoaderFs.thy ===== *)
theory LoaderFs
  imports Boot Fat32
begin

text \<open>
  The file system of the loader, \<^verbatim>\<open>loader/grub_loader/disk.c\<close> and \<^verbatim>\<open>loader/grub_loader/fs\<close>, and \<^verbatim>\<open>load_kernel\<close>.  The
  reader has the structure of that of the setup module but addresses sectors from the start of its partition on, and
  reads several sectors with one command.  The lemmas relate the two readers, so that the loader reads the same files.
\<close>

section \<open>The disk\<close>

text \<open>One command of \<^verbatim>\<open>read_ide0_sector\<close> and \<^verbatim>\<open>read_ide1_sector\<close> reads sectors from the addressed one on.\<close>

definition l_read_ide_sector :: "disks \<Rightarrow> bool \<Rightarrow> u32 \<Rightarrow> nat \<Rightarrow> bool \<Rightarrow> u8 list" where
  "l_read_ide_sector hds second lba num slave =
     (let r = sector_regs lba slave
      in concat (map (\<lambda>i. map (hds second (drive r) (addressed r + i)) [0..<512]) [0..<num]))"

definition l_read_sector :: "disks \<Rightarrow> u32 \<Rightarrow> nat \<Rightarrow> nat \<Rightarrow> u8 list" where
  "l_read_sector hds lba num sel = l_read_ide_sector hds (sel AND IDE_MASK \<noteq> 0) lba num (sel AND SLAVE_MASK \<noteq> 0)"

definition l_get_partition :: "disks \<Rightarrow> nat \<Rightarrow> nat \<Rightarrow> u32" where
  "l_get_partition hds sel number =
     of_nat (field (bytes_at (l_read_sector hds 0 1 sel) (PARTITION_TABLE_OFFSET + number * 16) 16) 8 4)"

section \<open>The file system\<close>

text \<open>\<^verbatim>\<open>__read_sector\<close>, \<^verbatim>\<open>get_fat32_entry\<close> and \<^verbatim>\<open>__load_file\<close>.\<close>

definition fs_read_sector :: "disks \<Rightarrow> fat32_context \<Rightarrow> u32 \<Rightarrow> nat \<Rightarrow> u8 list" where
  "fs_read_sector hds c lba num = l_read_sector hds (start_lba c + lba) num (selector c)"

definition l_get_fat32_entry :: "disks \<Rightarrow> u32 \<Rightarrow> fat32_context \<Rightarrow> (u32 \<times> fat32_context) option" where
  "l_get_fat32_entry hds lst c =
     (let num = int (unat lst div FAT32_ENTRIES_PER_SECTOR);
          sector = of_int num + fat1_start c;
          off = unat lst mod FAT32_ENTRIES_PER_SECTOR;
          c = (if num \<ge> buffer_start c + int FAT_BUFFER_SECTORS
               then c\<lparr>fat_buffer := fs_read_sector hds c sector 4, buffer_start := num\<rparr> else c);
          num_off = num - buffer_start c;
          offset = num_off * int (bytes_per_sector (info c)) + int off * 4
      in if 0 \<le> offset \<and> nat offset + 4 \<le> length (fat_buffer c)
         then Some (of_nat (field (fat_buffer c) (nat offset) 4), c) else None)"

definition l_cluster :: "disks \<Rightarrow> fat32_context \<Rightarrow> u32 \<Rightarrow> u8 list" where
  "l_cluster hds c clus = fs_read_sector hds c (data_start c + (clus - 2) * of_nat (sectors_per_clus (info c)))
     (sectors_per_clus (info c))"

partial_function (option) l_load_clusters :: "disks \<Rightarrow> u32 \<Rightarrow> nat \<Rightarrow> memory \<Rightarrow> fat32_context \<Rightarrow> (memory \<times> fat32_context) option" where
  "l_load_clusters hds clus dst m c =
     (if \<not> clus < 0x0FFFFFF0 then Some (m, c)
      else do {
        let m = store_bytes m dst (l_cluster hds c clus);
        (clus, c) \<leftarrow> l_get_fat32_entry hds clus c;
        l_load_clusters hds clus (dst + sectors_per_clus (info c) * bytes_per_sector (info c)) m c
      })"

text \<open>
  The context with the blocks of the loader's heap that hold it and its buffers.  The contents of the buffers of sectors
  are values; their blocks are allocated and released as in the code, for example by \<^verbatim>\<open>get_partition\<close>.
\<close>

record loader_fs =
  lf_context :: fat32_context
  lf_address :: ptr
  lf_fat_buffer :: ptr

definition sector_block :: "lheap \<Rightarrow> lheap" where
  "sector_block h = (let (buffer, h) = lmalloc 512 h in lfree buffer h)"

definition SIZEOF_FAT32_CONTEXT :: nat where "SIZEOF_FAT32_CONTEXT = 136"

text \<open>
  \<^verbatim>\<open>load_fat32_fs\<close>.  The first sector is read before the field \<^verbatim>\<open>selector\<close> of the context is set: \<open>stale\<close> is what the
  field of the new block holds.
\<close>

definition l_load_fat32_fs :: "disks \<Rightarrow> nat \<Rightarrow> nat \<Rightarrow> nat \<Rightarrow> lheap \<Rightarrow> memory \<Rightarrow> (loader_fs \<times> lheap \<times> memory) option" where
  "l_load_fat32_fs hds stale sel number h m =
     (let (superblock, h) = lmalloc 512 h;
          (context, h) = lmalloc SIZEOF_FAT32_CONTEXT h;
          h = sector_block h;
          lba = l_get_partition hds sel number;
          i = info_of (l_read_sector hds lba 1 stale);
          fat1 = of_nat (reversed_sectors i);
          (root, h) = lmalloc (16 * bytes_per_sector i) h;
          (buffer, h) = lmalloc (FAT_BUFFER_SECTORS * bytes_per_sector i) h
      in do {
        (m, c) \<leftarrow> l_load_clusters hds (of_nat (root_directory_start_clus i)) root m
           \<lparr>selector = sel, start_lba = lba, info = i, fat1_start = fat1,
            data_start = fat1 + of_nat (num_fats i) * of_nat (fat_sectors i), root_directory = root,
            fat_buffer = l_read_sector hds (lba + fat1) 4 sel, buffer_start = 0\<rparr>;
        Some (\<lparr>lf_context = c, lf_address = context, lf_fat_buffer = buffer\<rparr>, lfree superblock h, m)
      })"

definition l_terminate_fat32_fs :: "loader_fs \<Rightarrow> lheap \<Rightarrow> lheap" where
  "l_terminate_fat32_fs f h =
     (let h = lfree (root_directory (lf_context f)) h;
          h = lfree (lf_fat_buffer f) h
      in lfree (lf_address f) h)"

text \<open>\<^verbatim>\<open>load_fat32_file\<close>; the directory and the names are treated as in the setup module.\<close>

definition l_load_fat32_file :: "disks \<Rightarrow> nat \<Rightarrow> nat \<Rightarrow> memory \<Rightarrow> fat32_context \<Rightarrow> (bool \<times> memory \<times> fat32_context) option" where
  "l_load_fat32_file hds name dst m c = do {
     r \<leftarrow> convert m name;
     (case r of None \<Rightarrow> Some (False, m, c)
      | Some n \<Rightarrow>
          let clus = get_file_start_clus m c (takeWhile (\<lambda>b. b \<noteq> 0) n) in
          if clus = - 1 then Some (False, m, c)
          else do { (m, c) \<leftarrow> l_load_clusters hds clus dst m c; Some (True, m, c) })
   }"

definition l_get_fs_type :: "disks \<Rightarrow> nat \<Rightarrow> nat \<Rightarrow> FS_TYPES" where
  "l_get_fs_type hds sel number =
     (let bpb_filesystem = takeWhile (\<lambda>b. b \<noteq> 0) (bytes_at (l_read_sector hds (l_get_partition hds sel number) 1 sel) 0x36 8)
      in if bpb_filesystem \<noteq> [0x66, 0x61, 0x74, 0x33, 0x32] then FS_FAT32 else FS_UNKNOWN)"

text \<open>\<^verbatim>\<open>load_fs\<close>: no context for another file system.\<close>

definition l_load_fs :: "disks \<Rightarrow> nat \<Rightarrow> nat \<Rightarrow> nat \<Rightarrow> lheap \<Rightarrow> memory \<Rightarrow> (loader_fs option \<times> lheap \<times> memory) option" where
  "l_load_fs hds stale sel number h m =
     (let h = sector_block (sector_block h) in
      if l_get_fs_type hds sel number = FS_FAT32
      then map_option (apfst Some) (l_load_fat32_fs hds stale sel number h m)
      else Some (None, h, m))"

definition l_load_file :: "disks \<Rightarrow> loader_fs \<Rightarrow> ptr \<Rightarrow> ptr \<Rightarrow> memory \<Rightarrow> (bool \<times> loader_fs \<times> memory) option" where
  "l_load_file hds f name dst m = do {
     (ok, m, c) \<leftarrow> l_load_fat32_file hds name dst m (lf_context f);
     Some (ok, f\<lparr>lf_context := c\<rparr>, m)
   }"

section \<open>Loading the kernel\<close>

definition KERNEL_BIN_SIZE :: nat where "KERNEL_BIN_SIZE = 256 * 1024"
definition SETUP_MOD_BUFFER_SIZE :: nat where "SETUP_MOD_BUFFER_SIZE = 256 * 1024"

record load_result_struct =
  status :: bool
  kernel_start :: ptr
  kernel_limit :: ptr
  kernel_entry :: ptr
  setup_mod :: ptr

definition no_kernel :: load_result_struct where
  "no_kernel = \<lparr>status = False, kernel_start = NULL, kernel_limit = NULL, kernel_entry = NULL, setup_mod = NULL\<rparr>"

text \<open>
  \<^verbatim>\<open>load_kernel\<close>: the partitions are tried in order until one holds both files.  \<open>names\<close> are the addresses of the two
  file names, \<open>stale i\<close> is the field \<^verbatim>\<open>selector\<close> of the block for the context of partition \<open>i\<close>.
\<close>

primrec try_partitions ::
    "disks \<Rightarrow> (nat \<Rightarrow> nat) \<Rightarrow> ptr \<times> ptr \<Rightarrow> ptr \<Rightarrow> ptr \<Rightarrow> nat list \<Rightarrow> lheap \<Rightarrow> memory
      \<Rightarrow> (load_result_struct \<times> lheap \<times> memory) option" where
  "try_partitions hds stale names kernel_bin setup [] h m = Some (no_kernel, lfree setup (lfree kernel_bin h), m)"
| "try_partitions hds stale names kernel_bin setup (i # is) h m = do {
     (r, h, m) \<leftarrow> l_load_fs hds (stale i) 0 i h m;
     (case r of None \<Rightarrow> try_partitions hds stale names kernel_bin setup is h m
      | Some f \<Rightarrow> do {
          (ok1, f, m) \<leftarrow> l_load_file hds f (fst names) kernel_bin m;
          (ok2, f, m) \<leftarrow> l_load_file hds f (snd names) setup m;
          if \<not> (ok1 \<and> ok2) then try_partitions hds stale names kernel_bin setup is (l_terminate_fat32_fs f h) m
          else let (entry, (start, limit), m) = load_elf kernel_bin (0xFFFFFFFF, NULL) m
               in Some (\<lparr>status = True, kernel_start = start, kernel_limit = limit, kernel_entry = entry, setup_mod = setup\<rparr>,
                        lfree kernel_bin (l_terminate_fat32_fs f h), m)
        })
   }"

definition load_kernel ::
    "disks \<Rightarrow> (nat \<Rightarrow> nat) \<Rightarrow> ptr \<times> ptr \<Rightarrow> lheap \<Rightarrow> memory \<Rightarrow> (load_result_struct \<times> lheap \<times> memory) option" where
  "load_kernel hds stale names h m =
     (let (kernel_bin, h) = lmalloc KERNEL_BIN_SIZE h;
          (setup, h) = lmalloc SETUP_MOD_BUFFER_SIZE h
      in try_partitions hds stale names kernel_bin setup [0..<4] h m)"

section \<open>Entering the kernel\<close>

text \<open>What the kernel is entered with: its entry point, its arguments, the page tables and the memory.\<close>

record handover =
  ho_entry :: ptr
  ho_args :: boot_args
  ho_tables :: page_tables
  ho_memory :: memory

text \<open>
  \<^verbatim>\<open>goto_longmode\<close> once the kernel is loaded; \<open>None\<close> stands for the return after a message.  The masking of the
  interrupt lines and the switch of the processor leave memory alone.
\<close>

definition enter_longmode ::
    "load_result_struct \<Rightarrow> nat \<Rightarrow> bool \<Rightarrow> int \<Rightarrow> int \<Rightarrow> ptr \<Rightarrow> memory \<Rightarrow> page_tables \<Rightarrow> handover option" where
  "enter_longmode result sz graphic width height fb m T =
     (if \<not> status result then None
      else case setup_paging sz T of
        None \<Rightarrow> None
      | Some (page_start, page_limit, T) \<Rightarrow>
          Some \<lparr>ho_entry = kernel_entry result,
            ho_args = init_boot_args (setup_mod result) page_start page_limit (kernel_start result) (kernel_limit result)
              graphic width height fb sz,
            ho_tables = T, ho_memory = m\<rparr>)"

text \<open>\<^verbatim>\<open>loader_main\<close> from \<^verbatim>\<open>init_lheap\<close> on; the outer \<open>None\<close> is a run that faults or does not end.\<close>

definition loader_main ::
    "bool \<Rightarrow> disks \<Rightarrow> (nat \<Rightarrow> nat) \<Rightarrow> ptr \<times> ptr \<Rightarrow> ptr \<Rightarrow> parse_result_struct \<Rightarrow> memory \<Rightarrow> page_tables \<Rightarrow> handover option option" where
  "loader_main vbe hds stale names multiboot_info r m T = do {
     let h = init_lheap 0x800000;
     r \<leftarrow> parse_args vbe m multiboot_info r;
     (result, h, m) \<leftarrow> load_kernel hds stale names h m;
     Some (enter_longmode result (memsz r) (is_graphic r) (screen_width r) (screen_height r) (framebuffer r) m T)
   }"

section \<open>The two readers\<close>

text \<open>Several sectors by one command are the sectors one by one, as long as the numbers stay below \<open>2 ^ 28\<close>.\<close>

definition in_drive :: "u32 \<Rightarrow> nat \<Rightarrow> bool" where
  "in_drive lba num \<longleftrightarrow> unat lba mod 2 ^ 28 + num \<le> 2 ^ 28"

lemma addressed_next:
  assumes "in_drive lba num" and "i < num"
  shows "addressed (sector_regs (lba + of_nat i) slave) = addressed (sector_regs lba slave) + i"
proof -
  have "unat (lba + of_nat i) mod 2 ^ 28 = (unat lba + i) mod 2 ^ 32 mod 2 ^ 28"
    by (simp add: unat_word_ariths unat_of_nat mod_simps)
  also have "\<dots> = (unat lba + i) mod 2 ^ 28" by (rule mod_mod_cancel) simp
  also have "\<dots> = (unat lba mod 2 ^ 28 + i) mod 2 ^ 28" by (simp only: mod_add_left_eq)
  also have "\<dots> = unat lba mod 2 ^ 28 + i" using assms by (simp add: in_drive_def)
  finally show ?thesis by (simp only: addressed_sector)
qed

lemma l_read_sector_eq:
  assumes "in_drive lba num"
  shows "l_read_sector hds lba num sel = read_sector hds lba num sel"
proof -
  have "map (hds a (drive (sector_regs lba b)) (addressed (sector_regs lba b) + i)) [0..<512] =
      read_ide_sector hds a (lba + of_nat i) b" if "i < num" for a b i
    using addressed_next [OF assms that, of b] by (simp add: read_ide_sector_def Let_def drive_sector)
  then show ?thesis
    unfolding l_read_sector_def l_read_ide_sector_def read_sector_def Let_def
    by (intro arg_cong [of _ _ concat] map_cong) simp_all
qed

text \<open>The context of the setup module for a context of the loader: sector numbers count from the start of the disk.\<close>

definition rebase :: "fat32_context \<Rightarrow> fat32_context" where
  "rebase c = c\<lparr>fat1_start := fat1_start c + start_lba c, data_start := data_start c + start_lba c\<rparr>"

definition reads_ok :: "fat32_context \<Rightarrow> u32 \<Rightarrow> bool" where
  "reads_ok c clus \<longleftrightarrow> in_drive (start_lba c + (of_nat (unat clus div 128) + fat1_start c)) 4
     \<and> in_drive (start_lba c + (data_start c + (clus - 2) * of_nat (sectors_per_clus (info c)))) (sectors_per_clus (info c))"

lemma rebase_fields [simp]:
  "selector (rebase c) = selector c" "info (rebase c) = info c" "buffer_start (rebase c) = buffer_start c"
  "fat_buffer (rebase c) = fat_buffer c" "root_directory (rebase c) = root_directory c"
  by (simp_all add: rebase_def)

lemma get_fat32_entry_rebase:
  assumes "reads_ok c clus"
  shows "get_fat32_entry hds clus (rebase c) = map_option (map_prod id rebase) (l_get_fat32_entry hds clus c)"
proof -
  let ?n = "of_nat (unat clus div 128) :: u32"
  have "fs_read_sector hds c (?n + fat1_start c) 4 = read_sector hds (?n + (fat1_start c + start_lba c)) 4 (selector c)"
    using assms l_read_sector_eq by (simp add: fs_read_sector_def reads_ok_def ac_simps)
  moreover have "map_option f (if P then Some x else None) = (if P then Some (f x) else None)" for f P and x :: "u32 \<times> fat32_context"
    by simp
  ultimately show ?thesis
    unfolding get_fat32_entry_def l_get_fat32_entry_def Let_def
    by (cases "int (unat clus div 128) \<ge> buffer_start c + 4") (simp_all add: fat_defs rebase_def del: length_read_sector)
qed

lemma l_cluster_rebase: "reads_ok c clus \<Longrightarrow> l_cluster hds c clus = cluster hds (rebase c) clus"
  using l_read_sector_eq by (simp add: l_cluster_def cluster_def fs_read_sector_def reads_ok_def rebase_def ac_simps)

lemma same_disk_buffer: "same_disk c (c\<lparr>fat_buffer := buf, buffer_start := start\<rparr>)"
  by (auto simp: same_disk_def)

lemma l_get_fat32_entry_same: "l_get_fat32_entry hds clus c = Some (n, c') \<Longrightarrow> same_disk c c'"
  by (auto simp: l_get_fat32_entry_def Let_def same_disk_buffer split: if_splits)

lemma reads_ok_same: "same_disk c c' \<Longrightarrow> reads_ok c' = reads_ok c"
  by (auto simp: same_disk_def reads_ok_def fun_eq_iff)

lemma l_load_clusters_chain:
  assumes "file_clusters hds (rebase c) ks" and "window hds (rebase c) b" and "sorted (b # map (\<lambda>k. unat k div 128) ks)"
    and "\<forall>k\<in>set ks. reads_ok c k"
  shows "\<exists>c'. l_load_clusters hds (hd ks) dst m c = Some (store_bytes m dst (file_bytes hds (rebase c) ks), c')
    \<and> load_clusters hds (hd ks) dst m (rebase c) = Some (store_bytes m dst (file_bytes hds (rebase c) ks), rebase c')"
  using assms
proof (induction ks arbitrary: dst m c b)
  case (Cons k ks)
  have k: "k < 0x0FFFFFF0" "reads_ok c k" using Cons.prems(1,4) by (cases ks; simp)+
  have bps: "bytes_per_sector (info c) = 512" using Cons.prems(2) by (simp add: window_def)
  obtain C1 b1 where C1: "get_fat32_entry hds k (rebase c) = Some (fat_next hds (rebase c) k, C1)" "window hds C1 b1"
      "b1 \<le> unat k div 128" "same_disk (rebase c) C1"
    using Cons.prems(3) by (auto intro: get_fat32_entry_window [OF Cons.prems(2), of k])
  then obtain c1 where c1: "l_get_fat32_entry hds k c = Some (fat_next hds (rebase c) k, c1)" "C1 = rebase c1"
    unfolding get_fat32_entry_rebase [OF k(2)] by auto
  note sd = same_disk_simps [OF C1(4)]
  have info: "info c1 = info c" using sd(2) c1(2) by simp
  have step: "load_clusters hds k dst m (rebase c) = load_clusters hds (fat_next hds (rebase c) k)
      (dst + sectors_per_clus (info c) * 512) (store_bytes m dst (cluster hds (rebase c) k)) (rebase c1)"
    using k(1) bps C1(1) info by (subst load_clusters.simps) (simp add: c1(2))
  have lstep: "l_load_clusters hds k dst m c = l_load_clusters hds (fat_next hds (rebase c) k)
      (dst + sectors_per_clus (info c) * 512) (store_bytes m dst (cluster hds (rebase c) k)) c1"
    using k bps info by (subst l_load_clusters.simps) (simp add: c1(1) l_cluster_rebase)
  show ?case
  proof (cases ks)
    case Nil
    then have "\<not> fat_next hds (rebase c) k < 0x0FFFFFF0" using Cons.prems(1) by simp
    then show ?thesis
      using step lstep Nil
      by (simp add: load_clusters.simps [of hds "fat_next hds (rebase c) k"]
          l_load_clusters.simps [of hds "fat_next hds (rebase c) k"] file_bytes_def)
  next
    case (Cons l ks')
    have "file_clusters hds (rebase c1) ks" "fat_next hds (rebase c) k = hd ks"
      using Cons.prems(1) Cons file_clusters_cong [OF C1(4)] by (auto simp: c1(2))
    moreover have "sorted (b1 # map (\<lambda>k. unat k div 128) ks)" using Cons.prems(3) C1(3) Cons by auto
    moreover have "\<forall>k\<in>set ks. reads_ok c1 k"
      using Cons.prems(4) reads_ok_same [OF l_get_fat32_entry_same [OF c1(1)]] by simp
    moreover have "window hds (rebase c1) b1" using C1(2) by (simp add: c1(2))
    ultimately obtain c' where
      "l_load_clusters hds (hd ks) (dst + sectors_per_clus (info c) * 512) (store_bytes m dst (cluster hds (rebase c) k)) c1 =
        Some (store_bytes (store_bytes m dst (cluster hds (rebase c) k)) (dst + sectors_per_clus (info c) * 512)
          (file_bytes hds (rebase c1) ks), c')"
      "load_clusters hds (hd ks) (dst + sectors_per_clus (info c) * 512) (store_bytes m dst (cluster hds (rebase c) k)) (rebase c1) =
        Some (store_bytes (store_bytes m dst (cluster hds (rebase c) k)) (dst + sectors_per_clus (info c) * 512)
          (file_bytes hds (rebase c1) ks), rebase c')"
      using Cons.IH [of c1 b1] by blast
    moreover have "file_bytes hds (rebase c1) ks = file_bytes hds (rebase c) ks"
      using sd(6) by (simp add: file_bytes_def c1(2))
    moreover have "file_bytes hds (rebase c) (k # ks) = cluster hds (rebase c) k @ file_bytes hds (rebase c) ks"
      by (simp add: file_bytes_def)
    ultimately show ?thesis
      using step lstep \<open>fat_next hds (rebase c) k = hd ks\<close> by (auto simp: store_bytes_append)
  qed
qed simp

section \<open>Properties\<close>

text \<open>
  C24. The loader and the setup module read the same file: for a name in the directory, and a chain that goes upwards in
  the allocation table and whose sectors lie within the \<open>2 ^ 28\<close> sectors of the drive, both copies of \<^verbatim>\<open>load_file\<close> store the
  clusters of the file at the destination and nothing else, the loader with sector numbers from the start of the
  partition, the module with numbers from the start of the disk.
\<close>

theorem loader_reads_same_file:
  assumes name: "cstring m name (base @ 46 # ext)" "46 \<notin> set base" "length base \<le> 8" "length ext = 3"
    and dir: "get_file_start_clus m c (map upper base @ replicate (8 - length base) 32 @ map upper ext) = hd ks"
    and chain: "file_clusters hds (rebase c) ks" and w: "window hds (rebase c) b"
    and up: "sorted (b # map (\<lambda>k. unat k div 128) ks)" and ok: "\<forall>k\<in>set ks. reads_ok c k"
  shows "\<exists>c'. l_load_fat32_file hds name dst m c = Some (True, store_bytes m dst (file_bytes hds (rebase c) ks), c')
    \<and> load_fat32_file hds name dst m (rebase c) = Some (True, store_bytes m dst (file_bytes hds (rebase c) ks), rebase c')"
proof -
  have tw: "takeWhile (\<lambda>b. b \<noteq> 0) n = n" if "0 \<notin> set n" for n :: "u8 list"
    using that by (induction n) auto
  have "hd ks < 0x0FFFFFF0"
    using chain by (cases "(hds, rebase c, ks)" rule: file_clusters.cases) auto
  then have "hd ks \<noteq> - 1" by auto
  moreover have "get_file_start_clus m (rebase c) n = get_file_start_clus m c n" for n
    by (simp add: get_file_start_clus_def)
  ultimately show ?thesis
    using l_load_clusters_chain [OF chain w up ok, of dst m] dir
    by (auto simp: load_fat32_file_def l_load_fat32_file_def convert_name(1) [OF name] tw [OF convert_name(2) [OF name]])
qed

section \<open>Examples\<close>

definition demo_loader_fs :: fat32_context where
  "demo_loader_fs = demo_fs\<lparr>start_lba := 1, fat1_start := 0, data_start := 1599\<rparr>"

lemma demo_rebase: "rebase demo_loader_fs = demo_fs\<lparr>start_lba := 1\<rparr>"
  by (simp add: rebase_def demo_loader_fs_def demo_fs_def)

lemma demo_cong: "fat_next hds (demo_fs\<lparr>start_lba := x\<rparr>) = fat_next hds demo_fs"
  "window hds (demo_fs\<lparr>start_lba := x\<rparr>) = window hds demo_fs"
  "cluster hds (demo_fs\<lparr>start_lba := x\<rparr>) = cluster hds demo_fs"
  by (simp_all add: fun_eq_iff fat_next_def window_def cluster_def)

theorem loader_reads_same_file_witness:
  "\<exists>c'. l_load_fat32_file demo_disks 100 5000 demo_memory demo_loader_fs =
      Some (True, store_bytes demo_memory 5000 (file_bytes demo_disks (rebase demo_loader_fs) [2, 3]), c')
    \<and> load_fat32_file demo_disks 100 5000 demo_memory (rebase demo_loader_fs) =
      Some (True, store_bytes demo_memory 5000 (file_bytes demo_disks (rebase demo_loader_fs) [2, 3]), rebase c')"
proof (rule loader_reads_same_file [where base = "[97]" and ext = "[116, 120, 116]" and b = 0])
  show "cstring demo_memory 100 ([97] @ 46 # [116, 120, 116])"
    using demo_name by simp
  have "get_file_start_clus m demo_loader_fs n = get_file_start_clus m demo_fs n" for m n
    by (simp add: get_file_start_clus_def demo_loader_fs_def)
  moreover have "upper 97 = 65" "upper 116 = 84" "upper 120 = 88"
    by code_simp+
  ultimately show "get_file_start_clus demo_memory demo_loader_fs
      (map upper [97] @ replicate (8 - length [97 :: u8]) 32 @ map upper [116, 120, 116]) = hd [2, 3]"
    using demo_directory by (simp add: numeral_eq_Suc)
  show "file_clusters demo_disks (rebase demo_loader_fs) [2, 3]"
    by (simp add: demo_rebase demo_cong demo_next)
  show "window demo_disks (rebase demo_loader_fs) 0"
    by (simp add: demo_rebase demo_cong demo_window)
  show "\<forall>k\<in>set [2, 3]. reads_ok demo_loader_fs k"
    by (simp add: reads_ok_def in_drive_def demo_loader_fs_def demo_fs_def)
qed simp_all

end
