(* ===== verification/Screen.thy ===== *)
theory Screen
  imports Printk
begin

text \<open>
  The screen of the kernel, the first part of \<^verbatim>\<open>kernel/printk.c\<close>, and \<^verbatim>\<open>printk\<close>.  The lemmas show which cells
  printed text fills and what clearing leaves.
\<close>

section \<open>Operations\<close>

definition wrap16 :: "int \<Rightarrow> int" where "wrap16 = signed_take_bit 15"

text \<open>The cells are numbered from \<^verbatim>\<open>video_address\<close> on; the position is a pair of \<^verbatim>\<open>short\<close>s.\<close>

record screen =
  cells :: "int \<Rightarrow> u16"
  video_address :: nat
  screen_width :: int
  screen_height :: int
  print_color :: int
  print_x :: int
  print_y :: int

definition init_video :: "nat \<Rightarrow> int \<Rightarrow> int \<Rightarrow> screen \<Rightarrow> screen" where
  "init_video addr w h s = s\<lparr>video_address := addr, screen_width := w, screen_height := h\<rparr>"

definition cell :: "int \<Rightarrow> u8 \<Rightarrow> u16" where
  "cell col ch = push_bit 8 (word_of_int col AND 0xFF) + ucast ch"

definition write_char :: "u8 \<Rightarrow> int \<Rightarrow> int \<Rightarrow> int \<Rightarrow> screen \<Rightarrow> screen" where
  "write_char ch col posx posy s = s\<lparr>cells := (cells s)(posx + posy * 80 := cell col ch)\<rparr>"

primrec write_cells :: "u8 list \<Rightarrow> int \<Rightarrow> int \<Rightarrow> screen \<Rightarrow> screen" where
  "write_cells [] col pos s = s"
| "write_cells (ch # str) col pos s = write_cells str col (pos + 1) (s\<lparr>cells := (cells s)(pos := cell col ch)\<rparr>)"

definition write_str :: "u8 list \<Rightarrow> int \<Rightarrow> int \<Rightarrow> int \<Rightarrow> screen \<Rightarrow> screen" where
  "write_str str col posx posy s = write_cells str col (posx + posy * 80) s"

definition change_pos :: "int \<Rightarrow> int \<Rightarrow> screen \<Rightarrow> screen" where
  "change_pos x y s = s\<lparr>print_x := wrap16 x, print_y := wrap16 y\<rparr>"

text \<open>\<^verbatim>\<open>clrscr\<close>: blanks column by column.\<close>

definition clrscr :: "screen \<Rightarrow> screen" where
  "clrscr s = (fold (\<lambda>i. fold (\<lambda>j. write_char 32 (print_color s) (int i) (int j)) [0..<nat (screen_height s)])
     [0..<nat (screen_width s)] s)\<lparr>print_x := 0, print_y := 0\<rparr>"

definition putchar :: "u8 \<Rightarrow> screen \<Rightarrow> screen" where
  "putchar ch s =
     (let s = (if ch = 13 \<or> ch = 10 then s\<lparr>print_x := 0, print_y := wrap16 (print_y s + 1)\<rparr>
               else if ch = 9 then s\<lparr>print_x := wrap16 (print_x s + 4)\<rparr>
               else if ch = 11 then s\<lparr>print_y := wrap16 (print_y s + 1)\<rparr>
               else if ch = 8 then
                 (if print_x s > 0
                  then let s = s\<lparr>print_x := wrap16 (print_x s - 1)\<rparr> in write_char 32 (print_color s) (print_x s) (print_y s) s
                  else s)
               else if ch = 12 then (clrscr s)\<lparr>print_x := 0, print_y := 0\<rparr>
               else (write_char ch (print_color s) (print_x s) (print_y s) s)\<lparr>print_x := wrap16 (print_x s + 1)\<rparr>)
      in if print_x s \<ge> screen_width s
         then s\<lparr>print_x := wrap16 (print_x s - screen_width s), print_y := wrap16 (print_y s + 1)\<rparr> else s)"

primrec puts :: "u8 list \<Rightarrow> screen \<Rightarrow> screen" where
  "puts [] s = s"
| "puts (ch # str) s = puts str (putchar ch s)"

text \<open>\<^verbatim>\<open>printk\<close>: the text and its terminator must fit into the buffer of 256 bytes.\<close>

definition printk :: "u8 list \<Rightarrow> varg list \<Rightarrow> screen \<Rightarrow> (int \<times> screen) option" where
  "printk format args s = do {
     (out, res) \<leftarrow> vsprintk format args;
     if length out < 256 then Some (res, puts (takeWhile (\<lambda>b. b \<noteq> 0) out) s) else None
   }"

section \<open>Text\<close>

text \<open>The position as the number of a cell; a screen of 80 columns with the position on it, and room for \<open>n\<close> characters.\<close>

definition position :: "screen \<Rightarrow> int" where
  "position s = print_x s + print_y s * 80"

definition room :: "screen \<Rightarrow> nat \<Rightarrow> bool" where
  "room s n \<longleftrightarrow> screen_width s = 80 \<and> 0 \<le> print_x s \<and> print_x s < 80 \<and> 0 \<le> print_y s
     \<and> position s + int n < 80 * 2 ^ 15"

definition plain :: "u8 \<Rightarrow> bool" where
  "plain ch \<longleftrightarrow> ch \<notin> {8, 9, 10, 11, 12, 13}"

lemma wrap16_id: "- (2 ^ 15) \<le> i \<Longrightarrow> i < 2 ^ 15 \<Longrightarrow> wrap16 i = i"
  by (simp add: wrap16_def signed_take_bit_int_eq_self)

lemma putchar_plain:
  assumes "plain ch" and "room s (Suc n)"
  shows "room (putchar ch s) n" and "position (putchar ch s) = position s + 1"
    and "cells (putchar ch s) = (cells s)(position s := cell (print_color s) ch)"
    and "print_color (putchar ch s) = print_color s"
proof -
  have r: "screen_width s = 80" "0 \<le> print_x s" "print_x s < 80" "0 \<le> print_y s" "position s + int (Suc n) < 80 * 2 ^ 15"
    using assms(2) by (simp_all add: room_def)
  have y: "print_y s < 2 ^ 15" using r(2,4,5) by (simp add: position_def)
  have x: "wrap16 (print_x s + 1) = print_x s + 1" "wrap16 0 = 0" using r(2,3) by (simp_all add: wrap16_id)
  have y1: "wrap16 (print_y s + 1) = print_y s + 1" if "print_x s = 79"
    using r(4,5) that by (intro wrap16_id) (simp_all add: position_def)
  have e: "putchar ch s = (if print_x s = 79
      then s\<lparr>cells := (cells s)(position s := cell (print_color s) ch), print_x := 0, print_y := print_y s + 1\<rparr>
      else s\<lparr>cells := (cells s)(position s := cell (print_color s) ch), print_x := print_x s + 1\<rparr>)"
    using assms(1) r(1-3) x y1
    by (auto simp: putchar_def plain_def write_char_def position_def Let_def)
  show "room (putchar ch s) n" "position (putchar ch s) = position s + 1"
    "cells (putchar ch s) = (cells s)(position s := cell (print_color s) ch)" "print_color (putchar ch s) = print_color s"
    unfolding e using r by (auto simp: room_def position_def)
qed

text \<open>Text fills the cells from the position on, and the position moves on by its length.\<close>

lemma puts_plain:
  assumes "\<forall>ch\<in>set str. plain ch" and "room s (length str)"
  shows "cells (puts str s) = (\<lambda>i. if position s \<le> i \<and> i < position s + int (length str)
      then cell (print_color s) (str ! nat (i - position s)) else cells s i)"
    and "position (puts str s) = position s + int (length str)"
  using assms
proof (induction str arbitrary: s)
  case (Cons ch str)
  {
    case 1
    note p = putchar_plain [of ch s "length str"] 
    have "nat (i - position s) = Suc (nat (i - (position s + 1)))" if "position s < i" for i
      using that by (simp add: nat_eq_iff)
    then show ?case
      using 1 p Cons.IH(1) [of "putchar ch s"] by (auto simp: fun_eq_iff)
  next
    case 2
    note p = putchar_plain [of ch s "length str"]
    then show ?case using 2 Cons.IH(2) [of "putchar ch s"] by simp
  }
qed (auto intro!: ext)

text \<open>
  \<^verbatim>\<open>printk\<close> of a format whose text is plain and fits into the buffer and on the screen.
\<close>

lemma printk_text:
  assumes "vsprintk format args = Some (out, res)" and "length out < 256" and "\<forall>ch\<in>set out. ch \<noteq> 0 \<and> plain ch"
    and "room s (length out)"
  shows "\<exists>s'. printk format args s = Some (res, s') \<and> position s' = position s + int (length out)
    \<and> (\<forall>k<length out. cells s' (position s + int k) = cell (print_color s) (out ! k))"
proof -
  have tw: "takeWhile (\<lambda>b. b \<noteq> 0) out = out" using assms(3) by (simp add: takeWhile_eq_all_conv)
  have "printk format args s = Some (res, puts out s)" using assms(1,2) by (simp add: printk_def) (simp only: tw)
  then show ?thesis using assms(3,4) puts_plain [of out s] by simp
qed

text \<open>Clearing a screen of 80 columns blanks its lines and nothing else.\<close>

definition blank :: "int \<Rightarrow> int set \<Rightarrow> screen \<Rightarrow> screen" where
  "blank col P s = s\<lparr>cells := (\<lambda>p. if p \<in> P then cell col 32 else cells s p)\<rparr>"

lemma blank_simps [simp]: "blank col {} s = s" "blank col P (blank col Q s) = blank col (P \<union> Q) s"
  by (auto simp: blank_def fun_eq_iff)

lemma write_blank: "write_char 32 col x y s = blank col {x + y * 80} s"
  by (auto simp: write_char_def blank_def fun_eq_iff)

lemma clear_column: "fold (\<lambda>j. write_char 32 col i (int j)) [0..<h] s = blank col ((\<lambda>j. i + int j * 80) ` {..<h}) s"
  by (induction h) (simp_all add: write_blank lessThan_Suc)

lemma clear_columns:
  "fold (\<lambda>i. blank col ((\<lambda>j. int i + int j * 80) ` {..<h})) [0..<w] s =
    blank col (\<Union>i<w. (\<lambda>j. int i + int j * 80) ` {..<h}) s"
  by (induction w) (simp_all add: lessThan_Suc)

lemma clrscr_blank:
  "clrscr s = (blank (print_color s) (\<Union>i<nat (screen_width s). (\<lambda>j. int i + int j * 80) ` {..<nat (screen_height s)}) s)
    \<lparr>print_x := 0, print_y := 0\<rparr>"
  by (simp add: clrscr_def clear_column [abs_def] clear_columns)

lemma grid_80: "(\<Union>i<80. (\<lambda>j. int i + int j * 80) ` {..<h}) = {0..<80 * int h}"
proof (intro set_eqI iffI)
  fix p
  assume p: "p \<in> {0..<80 * int h}"
  then have "0 \<le> p div 80" "p div 80 < int h" "0 \<le> p mod 80" "p mod 80 < 80" "p = p mod 80 + p div 80 * 80"
    by auto
  then have "p = int (nat (p mod 80)) + int (nat (p div 80)) * 80" "nat (p mod 80) < 80" "nat (p div 80) < h"
    by linarith+
  then show "p \<in> (\<Union>i<80. (\<lambda>j. int i + int j * 80) ` {..<h})" by blast
qed auto

lemma clrscr_clears:
  assumes "screen_width s = 80"
  shows "cells (clrscr s) = (\<lambda>p. if 0 \<le> p \<and> p < 80 * screen_height s then cell (print_color s) 32 else cells s p)"
    and "position (clrscr s) = 0"
proof -
  have "clrscr s = (blank (print_color s) {0..<80 * int (nat (screen_height s))} s)\<lparr>print_x := 0, print_y := 0\<rparr>"
    using assms by (simp add: clrscr_blank grid_80)
  then show "cells (clrscr s) = (\<lambda>p. if 0 \<le> p \<and> p < 80 * screen_height s then cell (print_color s) 32 else cells s p)"
    "position (clrscr s) = 0"
    by (auto simp: blank_def position_def fun_eq_iff)
qed

end
