(* ===== verification/Logging.thy ===== *)
theory Logging
  imports Intr Printk
begin

text \<open>
  The log of the kernel, \<^verbatim>\<open>kernel/logging.c\<close>: lines of text on the serial port.  The state is the history of
  writes to ports; waiting for the transmitter leaves no trace in it.
\<close>

section \<open>The serial port\<close>

definition SERIAL_SEND :: port where "SERIAL_SEND = 0x3F8"
definition SERIAL_INT_VALID :: port where "SERIAL_INT_VALID = 0x3F9"
definition SERIAL_INT_ID :: port where "SERIAL_INT_ID = 0x3FA"
definition SERIAL_CONTROL :: port where "SERIAL_CONTROL = 0x3FB"
definition SERIAL_MODEM_CONTROL :: port where "SERIAL_MODEM_CONTROL = 0x3FC"

definition init_serial :: "history \<Rightarrow> history" where
  "init_serial h =
     (let h = outb SERIAL_INT_VALID 0 h;
          h = outb SERIAL_CONTROL 0x80 h;
          h = outb SERIAL_SEND 0x03 h;
          h = outb SERIAL_INT_VALID 0x00 h;
          h = outb SERIAL_CONTROL 0x03 h;
          h = outb SERIAL_INT_ID 0xC7 h;
          h = outb SERIAL_MODEM_CONTROL 0x0B h;
          h = outb SERIAL_MODEM_CONTROL 0x1E h;
          h = outb SERIAL_SEND 0xAE h
      in outb SERIAL_MODEM_CONTROL 0x0F h)"

definition write_serial_char :: "u8 \<Rightarrow> history \<Rightarrow> history" where
  "write_serial_char ch h = outb SERIAL_SEND ch h"

primrec write_serial_str :: "u8 list \<Rightarrow> history \<Rightarrow> history" where
  "write_serial_str [] h = h"
| "write_serial_str (ch # str) h = write_serial_str str (write_serial_char ch h)"

section \<open>Lines\<close>

text \<open>The bytes of a string literal.\<close>

definition literal :: "string \<Rightarrow> u8 list" where
  "literal s = map of_char s"

text \<open>\<^verbatim>\<open>__log\<close>.\<close>

definition put_log :: "u8 list \<Rightarrow> u8 list \<Rightarrow> u8 list \<Rightarrow> history \<Rightarrow> history" where
  "put_log name ty msg h =
     (let h = write_serial_char 40 h;
          h = write_serial_str name h;
          h = write_serial_char 41 h;
          h = write_serial_char 91 h;
          h = write_serial_str ty h;
          h = write_serial_char 93 h;
          h = write_serial_str msg h
      in write_serial_char 10 h)"

datatype log_type = INFO | WARN | ERROR | FATAL | TIPS | ATTENTION

fun type_name :: "log_type \<Rightarrow> u8 list" where
  "type_name INFO = literal ''INFO''"
| "type_name WARN = literal ''WARN''"
| "type_name ERROR = literal ''ERROR''"
| "type_name FATAL = literal ''FATAL''"
| "type_name TIPS = literal ''TIPS''"
| "type_name ATTENTION = literal ''ATTENTION''"

text \<open>\<^verbatim>\<open>_log\<close> and \<^verbatim>\<open>log\<close>: the text and its terminator must fit into the buffer of 512 bytes.\<close>

definition format_line :: "u8 list \<Rightarrow> varg list \<Rightarrow> u8 list option" where
  "format_line fmt args = do {
     (out, _) \<leftarrow> vsprintk fmt args;
     if length out < 512 then Some (takeWhile (\<lambda>b. b \<noteq> 0) out) else None
   }"

definition log_typed :: "u8 list \<Rightarrow> log_type \<Rightarrow> u8 list \<Rightarrow> varg list \<Rightarrow> history \<Rightarrow> history option" where
  "log_typed name ty fmt args h = map_option (\<lambda>msg. put_log name (type_name ty) msg h) (format_line fmt args)"

definition log_named :: "u8 list \<Rightarrow> u8 list \<Rightarrow> u8 list \<Rightarrow> varg list \<Rightarrow> history \<Rightarrow> history option" where
  "log_named name ty fmt args h = map_option (\<lambda>msg. put_log name ty msg h) (format_line fmt args)"

definition linfo where "linfo name = log_typed name INFO"
definition lwarn where "lwarn name = log_typed name WARN"
definition lerror where "lerror name = log_typed name ERROR"
definition lfatal where "lfatal name = log_typed name FATAL"
definition ltips where "ltips name = log_typed name TIPS"
definition lattention where "lattention name = log_typed name ATTENTION"

section \<open>What a line sends\<close>

definition sent :: "u8 list \<Rightarrow> history" where
  "sent s = map (Pair SERIAL_SEND) s"

lemma write_serial_str_sent: "write_serial_str s h = h @ sent s"
  by (induction s arbitrary: h) (simp_all add: write_serial_char_def outb_def sent_def)

lemma put_log_sent: "put_log name ty msg h = h @ sent ([40] @ name @ [41, 91] @ ty @ [93] @ msg @ [10])"
  by (simp add: put_log_def write_serial_str_sent write_serial_char_def outb_def sent_def Let_def)

text \<open>The lines of the log do not disturb the masks of the interrupt controller.\<close>

lemma sent_snoc: "h @ sent (s @ [c]) = outb SERIAL_SEND c (h @ sent s)"
  by (simp add: sent_def outb_def)

lemma serial_plain: "plain_write SERIAL_SEND c"
  by (simp add: plain_write_def SERIAL_SEND_def pic_defs)

lemma ready_sent [simp]: "ready (h @ sent s) = ready h"
proof (induction s rule: rev_induct)
  case (snoc c s)
  then show ?case unfolding sent_snoc by (simp add: ready_outb serial_plain)
qed (simp add: sent_def)

lemma masked_sent:
  assumes "masks_readable dev" and "ready h"
  shows "masked dev (h @ sent s) irq = masked dev h irq"
proof (induction s rule: rev_induct)
  case (snoc c s)
  then show ?case unfolding sent_snoc using assms by (simp add: masked_plain serial_plain)
qed (simp add: sent_def)

section \<open>Formats that are always printed\<close>

text \<open>\<open>prints format args n\<close>: the text is defined and has at most \<open>n\<close> bytes.\<close>

definition prints :: "u8 list \<Rightarrow> varg list \<Rightarrow> nat \<Rightarrow> bool" where
  "prints format args n \<longleftrightarrow> (\<exists>out r. vsprintk format args = Some (out, r) \<and> length out \<le> n)"

lemma prints_character:
  assumes "prints format args n" and "c \<noteq> 37"
  shows "prints (c # format) args (Suc n)"
proof -
  have "vsprintk (c # format) args = vsprintk_loop format args ([c] @ [])"
    using assms(2) by (simp add: vsprintk_def vsprintk_loop.simps(2))
  with vsprintk_loop_out [of format args "[c]"] assms(1) show ?thesis
    by (auto simp: prints_def vsprintk_def)
qed

lemma prints_conversion:
  assumes parse: "parse_conversion format (a # args) = Some (flag, width, ty, q, a # args, c # post)" "cur format \<noteq> 37"
    and conv: "convert ty q flag (a # args) = Some (body, direct, h, off, args)"
    and len: "length (direct @ emit flag width ty body h off) \<le> k" and post: "prints post args n"
  shows "prints (37 # format) (a # args) (k + n)"
proof -
  obtain out r where o: "vsprintk post args = Some (out, r)" "length out \<le> n" using post by (auto simp: prints_def)
  have "vsprintk (37 # format) (a # args) = vsprintk_loop post args (direct @ emit flag width ty body h off)"
    using parse conv by (simp add: vsprintk_def vsprintk_loop.simps(2) no_missing_type)
  with vsprintk_loop_out [of post args "direct @ emit flag width ty body h off"] o len show ?thesis
    by (auto simp: prints_def vsprintk_def)
qed

lemma convert_hex_total:
  "\<exists>body. convert PRINT_TY_HEX q flag (IntArg w # args) = Some (body, [], False, 0, args) \<and> length body \<le> 23"
proof -
  have "\<exists>buf. ulltoa (\<lambda>_. 0) w 0 16 = Some (0, buf) \<and> length (scratch_string buf) \<le> 23"
  proof (cases "w = 0")
    case True
    then show ?thesis by (simp add: ulltoa_def scratch_put_zero)
  next
    case False
    with ulltoa_correct [of 16 w "\<lambda>_. 0" 0] obtain s where
      s: "ulltoa (\<lambda>_. 0) w 0 16 = Some (0, store_bytes (\<lambda>_. 0) 0 s)" "numeral_of 16 (uint w) s" "length s \<le> 23"
      by auto
    have "scratch_string (store_bytes (\<lambda>_. 0) 0 s) = s"
      using s by (intro scratch_string_store numeral_of_no_zero_byte) auto
    with s show ?thesis by simp
  qed
  then show ?thesis by (auto simp: convert_def convert_hex_def type_defs Let_def)
qed

lemma convert_int_total:
  "\<exists>body h. convert PRINT_TY_INT QUAL_NORMAL flag (IntArg w # args) = Some (body, [], h, 0, args) \<and> length body \<le> 12"
proof (cases "sint (ucast w :: u32) = - (2 ^ 31)")
  case True
  have "scratch_string ((\<lambda>_. 0)(0 := 45)) = [45]" using scratch_string_store [of "[45]"] by simp
  moreover have "wrap32 (2 ^ 31) = - (2 ^ 31)" by code_simp
  ultimately show ?thesis
    using True itoa_least [of "\<lambda>_. 0" 0] by (auto simp: convert_def type_defs)
next
  case False
  then show ?thesis using convert_int [of QUAL_NORMAL w flag args] by auto
qed

text \<open>The conversions of the reports: \<^verbatim>\<open>%#016X\<close>, \<^verbatim>\<open>%016d\<close> and \<^verbatim>\<open>%d\<close>.\<close>

lemma parse_hex16:
  "parse_conversion (35 # 48 # 49 # 54 # 88 # post) args =
     Some (FLAG_FILL_ZERO OR FLAG_PREFIX OR FLAG_UPPER, 16, PRINT_TY_HEX, QUAL_NORMAL, args, 88 # post)"
  by (simp add: parse_conversion_def parse_width_def parse_precision_def parse_qualifier_def parse_type_def cur_def
      isdigit_def flag_defs Let_def wrap32_id)

lemma parse_int16:
  "parse_conversion (48 # 49 # 54 # 100 # post) args =
     Some (FLAG_FILL_ZERO, 16, PRINT_TY_INT, QUAL_NORMAL, args, 100 # post)"
  by (simp add: parse_conversion_def parse_width_def parse_precision_def parse_qualifier_def parse_type_def cur_def
      isdigit_def flag_defs Let_def wrap32_id)

lemma parse_int:
  "parse_conversion (100 # post) args = Some (0, 0, PRINT_TY_INT, QUAL_NORMAL, args, 100 # post)"
  by (subst parse_conversion_plain) (auto simp: isdigit_def parse_type_def)

lemma emit_length: "length body \<le> 23 \<Longrightarrow> width \<le> 16 \<Longrightarrow> length (emit flag width ty body h 0) \<le> 27"
  by (auto simp: emit_def Let_def)

lemma prints_hex16:
  assumes "prints post args n"
  shows "prints (37 # 35 # 48 # 49 # 54 # 88 # post) (IntArg w # args) (27 + n)"
proof -
  obtain body where body: "convert PRINT_TY_HEX QUAL_NORMAL (FLAG_FILL_ZERO OR FLAG_PREFIX OR FLAG_UPPER) (IntArg w # args) =
      Some (body, [], False, 0, args)" "length body \<le> 23"
    using convert_hex_total by blast
  show ?thesis
    by (rule prints_conversion [OF parse_hex16 _ body(1) _ assms])
      (use body(2) in \<open>simp_all add: cur_def emit_length\<close>)
qed

lemma prints_int:
  assumes "prints post args n"
  shows "prints (37 # 48 # 49 # 54 # 100 # post) (IntArg w # args) (27 + n)"
    and "prints (37 # 100 # post) (IntArg w # args) (27 + n)"
proof -
  have c: "\<exists>body h. convert PRINT_TY_INT QUAL_NORMAL flag (IntArg w # args) = Some (body, [], h, 0, args) \<and> length body \<le> 12" for flag
    by (rule convert_int_total)
  obtain body h where b: "convert PRINT_TY_INT QUAL_NORMAL FLAG_FILL_ZERO (IntArg w # args) = Some (body, [], h, 0, args)"
      "length body \<le> 12"
    using c by blast
  show "prints (37 # 48 # 49 # 54 # 100 # post) (IntArg w # args) (27 + n)"
    by (rule prints_conversion [OF parse_int16 _ b(1) _ assms])
      (use b(2) in \<open>simp_all add: cur_def emit_length\<close>)
  obtain body h where b: "convert PRINT_TY_INT QUAL_NORMAL 0 (IntArg w # args) = Some (body, [], h, 0, args)"
      "length body \<le> 12"
    using c by blast
  show "prints (37 # 100 # post) (IntArg w # args) (27 + n)"
    by (rule prints_conversion [OF parse_int _ b(1) _ assms])
      (use b(2) in \<open>simp_all add: cur_def emit_length\<close>)
qed

lemma prints_string:
  assumes "prints post args n"
  shows "prints (37 # 115 # post) (StrArg s # args) (length s + n)"
proof -
  obtain out r where "vsprintk post args = Some (out, r)" "length out \<le> n" using assms by (auto simp: prints_def)
  then show ?thesis using vsprintk_string [of "[]" post args out r s] by (auto simp: prints_def)
qed

text \<open>A check of a format against its arguments and a length.\<close>

fun format_fits :: "u8 list \<Rightarrow> varg list \<Rightarrow> nat \<Rightarrow> bool" where
  "format_fits [] args n = (args = [])"
| "format_fits (c # f) [] n = (c \<noteq> 37 \<and> 0 < n \<and> format_fits f [] (n - 1))"
| "format_fits (c # f) (IntArg w # args) n =
     (if c \<noteq> 37 then 0 < n \<and> format_fits f (IntArg w # args) (n - 1)
      else 27 \<le> n \<and>
        (if take 5 f = [35, 48, 49, 54, 88] then format_fits (drop 5 f) args (n - 27)
         else if take 4 f = [48, 49, 54, 100] then format_fits (drop 4 f) args (n - 27)
         else if take 1 f = [100] then format_fits (drop 1 f) args (n - 27)
         else False))"
| "format_fits (c # f) (StrArg s # args) n =
     (if c \<noteq> 37 then 0 < n \<and> format_fits f (StrArg s # args) (n - 1)
      else take 1 f = [115] \<and> length s \<le> n \<and> format_fits (drop 1 f) args (n - length s))"
| "format_fits (c # f) (DoubleArg b # args) n = False"

lemma take_split: "take k f = xs \<Longrightarrow> f = xs @ drop k f"
  using append_take_drop_id [of k f] by simp

lemma prints_more: "prints f args n \<Longrightarrow> n \<le> m \<Longrightarrow> prints f args m"
  unfolding prints_def by (meson order_trans)

lemma fits_prints: "format_fits f args n \<Longrightarrow> prints f args n"
proof (induction f args n rule: format_fits.induct)
  case (3 c f w args n)
  show ?case
  proof (cases "c = 37")
    case False
    then show ?thesis using 3 prints_character [of f "IntArg w # args" "n - 1" c] by simp
  next
    case True
    have n: "27 \<le> n" using 3(5) True by simp
    consider "take 5 f = [35, 48, 49, 54, 88]" "format_fits (drop 5 f) args (n - 27)"
      | "take 5 f \<noteq> [35, 48, 49, 54, 88]" "take 4 f = [48, 49, 54, 100]" "format_fits (drop 4 f) args (n - 27)"
      | "take 5 f \<noteq> [35, 48, 49, 54, 88]" "take 4 f \<noteq> [48, 49, 54, 100]" "take 1 f = [100]" "format_fits (drop 1 f) args (n - 27)"
      using 3(5) True by (auto split: if_splits)
    then show ?thesis
    proof cases
      case 1
      then have "prints (drop 5 f) args (n - 27)" using 3(2) True n by simp
      then have "prints (37 # 35 # 48 # 49 # 54 # 88 # drop 5 f) (IntArg w # args) (27 + (n - 27))" by (rule prints_hex16)
      then show ?thesis using take_split [OF 1(1)] True n by simp
    next
      case 2
      then have "prints (drop 4 f) args (n - 27)" using 3(3) True n by simp
      then have "prints (37 # 48 # 49 # 54 # 100 # drop 4 f) (IntArg w # args) (27 + (n - 27))" by (rule prints_int)
      then show ?thesis using take_split [OF 2(2)] True n by simp
    next
      case 3: 3
      then have "prints (drop 1 f) args (n - 27)" using "3.IH" True n by simp
      then have "prints (37 # 100 # drop 1 f) (IntArg w # args) (27 + (n - 27))" by (rule prints_int)
      then show ?thesis using take_split [OF 3(3)] True n by simp
    qed
  qed
next
  case (4 c f s args n)
  show ?case
  proof (cases "c = 37")
    case False
    then show ?thesis using 4 prints_character [of f "StrArg s # args" "n - 1" c] by simp
  next
    case True
    then have f: "take 1 f = [115]" "length s \<le> n" "format_fits (drop 1 f) args (n - length s)" using 4(3) by auto
    then have "prints (drop 1 f) args (n - length s)" using 4(2) True by simp
    from prints_string [OF this, of s] f(2) have "prints (37 # 115 # drop 1 f) (StrArg s # args) n" by simp
    then show ?thesis using take_split [OF f(1)] True by simp
  qed
next
  case (2 c f n)
  then show ?case using prints_character [of f "[]" "n - 1" c] by simp
qed (simp_all add: prints_def vsprintk_def)

end
