(* ===== verification/Exception.thy ===== *)
theory Exception
  imports Logging
begin

text \<open>
  Processor exceptions, \<^verbatim>\<open>kernel/intterup/exception.c\<close>: the report on the serial port and the end of the thread.
\<close>

section \<open>The report\<close>

definition exception_msg :: "string list" where
  "exception_msg = [
     ''[#DE] Devide by 0 error!'', ''[#DB] Single step'', ''[None] Non-maskable interrup!'', ''[#BP] Break point'',
     ''[#OF] Overflow!'', ''[#BR] Bound range exceeded!'', ''[#UD] Invalid Opcode(Undefined Opcode)!'',
     ''[#NM] Device not available(No math coprocessor)!'', ''[#DF] Double fault!'',
     ''[None] Coprocessor segment overrun(Should be reserved)!'', ''[#TS] Invalid TSS!'', ''[#NP] Segment not present!'',
     ''[#SS] Stack segment not present!'', ''[#GP] General protection fault!'', ''[#PF] Page fault!'',
     ''[Reserved] Reserved exception!'', ''[#MF] x87 floating-point exception(Math fault)!'', ''[#AC] Alignment check!'',
     ''[#MC] Machine check!'', ''[#XF] SIMD floating-point exception!'', ''[#VE] Virtualization exception!'',
     ''[#CP] Control protection exception!'', ''[Reserved] Reserved exception!'', ''[Reserved] Reserved exception!'',
     ''[Reserved] Reserved exception!'', ''[Reserved] Reserved exception!'', ''[Reserved] Reserved exception!'',
     ''[Reserved] Reserved exception!'', ''[#HV] Hypervisor injection exception!'', ''[#VC] VMM communication exception!'',
     ''[#SX] Security exception!'', ''[Reserved] Reserved exception!'']"

text \<open>The control registers the report shows.\<close>

record control_regs =
  cr0 :: u64
  cr2 :: u64
  cr4 :: u64

text \<open>The lines of the report: a format and its arguments each.\<close>

definition report_head :: "nat \<Rightarrow> u64 \<Rightarrow> (string \<times> varg list) list" where
  "report_head vector errcode =
     [(''-------------------------------------'', []),
      (''Oops!There is a exception throwing!The followings are its information:'', [])]
     @ (if vector < 32 then [(''Message: %s'', [StrArg (literal (exception_msg ! vector))])] else [])
     @ [(''Vector = %d'', [IntArg (of_nat vector)])]
     @ (if errcode < 0xFFFFFFFFFFFFFFFF then [(''Error code = %d'', [IntArg errcode])] else [])
     @ [(''Registers:'', [])]"

definition report_regs :: "intterup_args \<Rightarrow> control_regs \<Rightarrow> int \<Rightarrow> int \<Rightarrow> (string \<times> varg list) list" where
  "report_regs regs cr p t = (let b = ia_basic regs in
     [(''cs:  %#016X;rip: %#016X;rflags:%#016X;'', [IntArg (ia_cs regs), IntArg (ia_rip regs), IntArg (ia_rflags regs)]),
      (''rax: %#016X;rbx: %#016X;rcx:   %#016X;'', [IntArg (rax b), IntArg (rbx b), IntArg (rcx b)]),
      (''rdx: %#016X;rsi: %#016X;rdi:   %#016X;'', [IntArg (rdx b), IntArg (rsi b), IntArg (rdi b)]),
      (''rsp: %#016X;rbp: %#016X;r8 :   %#016X;'', [IntArg (ia_rsp regs), IntArg (ia_rbp regs), IntArg (r8 b)]),
      (''r9 : %#016X;r10: %#016X;r11:   %#016X;'', [IntArg (r9 b), IntArg (r10 b), IntArg (r11 b)]),
      (''r12: %#016X;r13: %#016X;r14:   %#016X;'', [IntArg (r12 b), IntArg (r13 b), IntArg (r14 b)]),
      (''r15: %#016X;pgd: %#016X;pid:   %016d;'', [IntArg (r15 b), IntArg (of_nat (ia_pgd regs)), IntArg (of_int p)]),
      (''cr0: %#016X;cr2: %#016X;cr4:   %#016X;'', [IntArg (cr0 cr), IntArg (cr2 cr), IntArg (cr4 cr)]),
      (''tid: %016d;'', [IntArg (of_int t)])])"

primrec put_report :: "(string \<times> varg list) list \<Rightarrow> history \<Rightarrow> history option" where
  "put_report [] h = Some h"
| "put_report (l # ls) h = do {
     h \<leftarrow> lerror (literal ''Exception'') (literal (fst l)) (snd l) h;
     put_report ls h
   }"

text \<open>
  \<^verbatim>\<open>general_exception_handler\<close>; \<open>errcode\<close> is the value the entry code has left in the variable of that name.
\<close>

definition general_exception_handler ::
    "nat \<Rightarrow> u64 \<Rightarrow> control_regs \<Rightarrow> intterup_args \<Rightarrow> history \<Rightarrow> kstate \<Rightarrow> (intterup_args \<times> history \<times> kstate) option" where
  "general_exception_handler vector errcode cr regs h st = do {
     th \<leftarrow> threads st (current_thread st);
     t \<leftarrow> tasks st (th_task th);
     h \<leftarrow> put_report (report_head vector errcode @ report_regs regs cr (pid t) (tid th)) h;
     st \<leftarrow> upd_thread (current_thread st) (\<lambda>t. t\<lparr>th_state := EXCEPTION\<rparr>) st;
     (regs, st) \<leftarrow> after_syscall regs st;
     Some (regs, h, st)
   }"

section \<open>The report is always printed\<close>

definition line_fits :: "string \<times> varg list \<Rightarrow> bool" where
  "line_fits l \<longleftrightarrow> format_fits (literal (fst l)) (snd l) 511"

text \<open>A line as it is sent: the name and the kind in front, a line feed behind.\<close>

definition error_text :: "u8 list \<Rightarrow> u8 list" where
  "error_text s = literal ''(Exception)[ERROR]'' @ s @ [10]"

definition error_line :: "string \<times> varg list \<Rightarrow> u8 list option" where
  "error_line l = map_option error_text (format_line (literal (fst l)) (snd l))"

lemma error_text_log: "[40] @ literal ''Exception'' @ [41, 91] @ type_name ERROR @ [93] @ s @ [10] = error_text s"
  by (simp add: error_text_def literal_def)

lemma line_fits_Some: "line_fits l \<Longrightarrow> \<exists>s. error_line l = Some s"
  using fits_prints [of "literal (fst l)" "snd l" 511]
  by (auto simp: line_fits_def prints_def error_line_def format_line_def)

lemma lerror_line: "error_line l = Some s \<Longrightarrow> lerror (literal ''Exception'') (literal (fst l)) (snd l) h = Some (h @ sent s)"
  using error_text_log by (auto simp: error_line_def lerror_def log_typed_def put_log_sent)

lemma sent_append: "sent s @ sent t = sent (s @ t)"
  by (simp add: sent_def)

lemma put_report_sent: "map error_line ls = map Some ts \<Longrightarrow> put_report ls h = Some (h @ sent (concat ts))"
proof (induction ls arbitrary: h ts)
  case Nil
  then show ?case by (simp add: sent_def)
next
  case (Cons l ls)
  then obtain t us where t: "ts = t # us" "error_line l = Some t" "map error_line ls = map Some us"
    by (cases ts) auto
  then show ?case using lerror_line [OF t(2), of h] Cons.IH [OF t(3), of "h @ sent t"] by (simp flip: sent_append)
qed

lemma lines_fit: "\<forall>l\<in>set ls. line_fits l \<Longrightarrow> \<exists>ts. map error_line ls = map Some ts"
proof (induction ls)
  case (Cons l ls)
  obtain t where "error_line l = Some t" using line_fits_Some [of l] Cons.prems by auto
  moreover obtain ts where "map error_line ls = map Some ts" using Cons by auto
  ultimately show ?case by (intro exI [of _ "t # ts"]) simp
qed simp

text \<open>Lines with plain text, a string and a number.\<close>

lemma format_line_eq:
  assumes "vsprintk fmt args = Some (out, r)" and "0 \<notin> set out" and "length out < 512"
  shows "format_line fmt args = Some out"
proof -
  have "takeWhile (\<lambda>b. b \<noteq> 0) out = out" using assms(2) by (auto simp: takeWhile_eq_all_conv)
  then show ?thesis using assms by (simp add: format_line_def)
qed

lemma error_line_plain:
  assumes "37 \<notin> set (literal s)" "0 \<notin> set (literal s)" "length s < 512"
  shows "error_line (s, []) = Some (error_text (literal s))"
  using format_line_eq [OF vsprintk_plain [OF assms(1)] assms(2)] assms(3) by (simp add: error_line_def literal_def)

lemma error_line_string:
  assumes "37 \<notin> set (literal s)" "0 \<notin> set (literal s @ t)" "length s + length t < 512"
  shows "error_line (s @ ''%s'', [StrArg t]) = Some (error_text (literal s @ t))"
proof -
  have "vsprintk (literal s @ [37, 115] @ []) [StrArg t] = Some (literal s @ t @ [], int (length (literal s @ t @ [])) - 1)"
    by (rule vsprintk_string [OF assms(1), of "[]" "[]" "[]"]) (simp add: vsprintk_plain)
  moreover have "literal (s @ ''%s'') = literal s @ [37, 115]" by (simp add: literal_def)
  ultimately show ?thesis using format_line_eq [of "literal (s @ ''%s'')" "[StrArg t]" "literal s @ t"] assms(2,3)
    by (simp add: error_line_def) (simp add: literal_def)
qed

lemma error_line_decimal:
  assumes "sint (ucast w :: u32) \<noteq> - (2 ^ 31)" "37 \<notin> set (literal s)" "0 \<notin> set (literal s)"
    and fits: "line_fits (s @ ''%d'', [IntArg w])"
  shows "\<exists>d. decimal_of (sint (ucast w :: u32)) d \<and> error_line (s @ ''%d'', [IntArg w]) = Some (error_text (literal s @ d))"
proof -
  have l: "literal (s @ ''%d'') = literal s @ [37, 100]" by (simp add: literal_def)
  obtain d where d: "vsprintk (literal (s @ ''%d'')) [IntArg w] = Some (literal s @ d, int (length (literal s @ d)) - 1)"
      "decimal_of (sint (ucast w :: u32)) d"
    using vsprintk_decimal [OF assms(2,1), of "[]" "[]" "[]" "-1"] l by (auto simp: vsprintk_plain)
  have "0 \<notin> set d" using d(2) numeral_of_no_zero_byte by (auto simp: decimal_of_def split: if_splits)
  moreover have "length (literal s @ d) < 512"
    using fits_prints [of "literal (s @ ''%d'')" "[IntArg w]" 511] fits d(1) by (auto simp: line_fits_def prints_def)
  ultimately have "format_line (literal (s @ ''%d'')) [IntArg w] = Some (literal s @ d)"
    using format_line_eq [OF d(1)] assms(3) by simp
  then show ?thesis using d(2) by (intro exI [of _ d]) (simp add: error_line_def)
qed

lemma report_regs_fit: "\<forall>l\<in>set (report_regs regs cr p t). line_fits l"
  by (simp add: report_regs_def line_fits_def literal_def Let_def)

lemma exception_msg_short: "vector < 32 \<Longrightarrow> length (exception_msg ! vector) \<le> 60"
proof -
  have "\<forall>m\<in>set exception_msg. length m \<le> 60" "length exception_msg = 32" by (simp_all add: exception_msg_def)
  then show "vector < 32 \<Longrightarrow> length (exception_msg ! vector) \<le> 60" by simp
qed

lemma report_head_fit: "\<forall>l\<in>set (report_head vector errcode). line_fits l"
proof -
  have "line_fits (''Message: %s'', [StrArg (literal (exception_msg ! vector))])" if "vector < 32"
    using exception_msg_short [OF that] by (simp add: line_fits_def literal_def)
  then show ?thesis by (auto simp: report_head_def) (simp_all add: line_fits_def literal_def)
qed

section \<open>The end of a thread\<close>

text \<open>What removing a thread leaves of the others: only their links may change.\<close>

definition relinked :: "(ptr \<rightharpoonup> thread_info) \<Rightarrow> (ptr \<rightharpoonup> thread_info) \<Rightarrow> bool" where
  "relinked f g \<longleftrightarrow> (\<forall>q. \<exists>l n. g q = map_option (\<lambda>t. t\<lparr>th_last := l, th_next := n\<rparr>) (f q))"

lemma relinked_refl [simp]: "relinked f f"
proof -
  have "\<exists>l n. f q = map_option (\<lambda>t. t\<lparr>th_last := l, th_next := n\<rparr>) (f q)" for q
  proof (cases "f q")
    case (Some t)
    then show ?thesis by (intro exI [of _ "th_last t"] exI [of _ "th_next t"]) simp
  qed simp
  then show ?thesis by (simp add: relinked_def)
qed

lemma relinked_upd:
  assumes "relinked f g" and "g p = Some t"
  shows "relinked f (g(p \<mapsto> t\<lparr>th_next := n\<rparr>))" and "relinked f (g(p \<mapsto> t\<lparr>th_last := n\<rparr>))"
proof -
  obtain l m where "g p = map_option (\<lambda>t. t\<lparr>th_last := l, th_next := m\<rparr>) (f p)"
    using assms(1) unfolding relinked_def by blast
  then obtain u where "f p = Some u" "t = u\<lparr>th_last := l, th_next := m\<rparr>"
    using assms(2) by (cases "f p") auto
  then have "map_option (\<lambda>t. t\<lparr>th_last := l, th_next := n\<rparr>) (f p) = Some (t\<lparr>th_next := n\<rparr>)"
      "map_option (\<lambda>t. t\<lparr>th_last := n, th_next := m\<rparr>) (f p) = Some (t\<lparr>th_last := n\<rparr>)"
    by simp_all
  then show "relinked f (g(p \<mapsto> t\<lparr>th_next := n\<rparr>))" "relinked f (g(p \<mapsto> t\<lparr>th_last := n\<rparr>))"
    using assms(1) unfolding relinked_def by (metis fun_upd_apply)+
qed

lemma relinked_fields:
  assumes "relinked f g" and "f q = Some t"
  shows "\<exists>u. g q = Some u \<and> registers u = registers t \<and> th_task u = th_task t \<and> free_next u = free_next t
    \<and> th_state u = th_state t"
  using assms unfolding relinked_def by (fastforce dest: spec [of _ q])

text \<open>The threads of a task from \<open>a\<close> on, linked both ways.\<close>

definition thread_links :: "kstate \<Rightarrow> ptr \<Rightarrow> ptr list \<Rightarrow> bool" where
  "thread_links st a xs \<longleftrightarrow>
     dseg (\<lambda>p. map_option th_next (threads st p)) (\<lambda>p. map_option th_last (threads st p)) NULL a xs NULL"

lemma thread_links_cong:
  assumes "\<And>q. q \<in> set xs \<Longrightarrow> map_option th_next (threads st' q) = map_option th_next (threads st q)
    \<and> map_option th_last (threads st' q) = map_option th_last (threads st q)"
  shows "thread_links st' a xs = thread_links st a xs"
  unfolding thread_links_def by (rule dseg_cong) (use assms in auto)

lemma thread_links_dom: "thread_links st a xs \<Longrightarrow> q \<in> set xs \<Longrightarrow> q \<noteq> NULL \<and> threads st q \<noteq> None"
  using chain_in_dom [OF dseg_chain] unfolding thread_links_def by fastforce

lemma remove_thread_ok:
  assumes th: "threads st p = Some th" and k: "kfree p (km st) = Some k" and d: "thread_links st a (xs @ p # ys)"
  shows "\<exists>T. remove_thread p st = Some (set_km k (st\<lparr>threads := T(p := None)\<rparr>)) \<and> relinked (threads st) T
    \<and> thread_links (st\<lparr>threads := T(p := None)\<rparr>) (if th_last th = NULL then th_next th else a) (xs @ ys)"
proof -
  let ?nx = "\<lambda>q. map_option th_next (threads st q)" and ?pv = "\<lambda>q. map_option th_last (threads st q)"
  let ?l = "th_last th" and ?n = "th_next th"
  have D: "dseg ?nx ?pv NULL a (xs @ p # ys) NULL" using d by (simp add: thread_links_def)
  have dist: "distinct (xs @ p # ys)" by (rule dseg_distinct [OF D])
  have nb: "?n = NULL \<or> ?n \<in> set ys" "?l = NULL \<or> ?l \<in> set xs"
    using dseg_neighbours [OF D, of ?n ?l] th by auto
  have links: "\<forall>q\<in>{?l, ?n}. q = NULL \<or> q \<noteq> p \<and> threads st q \<noteq> None"
    using nb thread_links_dom [OF d] dist by auto
  have nl: "?n = NULL \<or> ?n \<noteq> ?l" using nb dist thread_links_dom [OF d, of ?n] by auto
  define T1 where "T1 = (if ?l \<noteq> NULL
    then (threads st)(?l \<mapsto> (the (threads st ?l))\<lparr>th_next := ?n\<rparr>) else threads st)"
  have r1: "relinked (threads st) T1" "T1 p = Some th" "T1 q = None \<longleftrightarrow> threads st q = None" for q
    using links th relinked_upd(1) [of "threads st" "threads st" "th_last th"] by (auto simp: T1_def)
  have s1: "(if ?l \<noteq> NULL then upd_thread ?l (\<lambda>l. l\<lparr>th_next := ?n\<rparr>) st else Some st) = Some (st\<lparr>threads := T1\<rparr>)"
    using links by (auto simp: T1_def upd_thread_def)
  define T2 where "T2 = (if ?n \<noteq> NULL then T1(?n \<mapsto> (the (T1 ?n))\<lparr>th_last := ?l\<rparr>) else T1)"
  have n: "?n \<noteq> NULL \<Longrightarrow> \<exists>t. T1 ?n = Some t" using links r1(3) by (metis insertCI not_None_eq)
  then have r2: "relinked (threads st) T2" using r1(1) relinked_upd(2) [OF r1(1)] by (auto simp: T2_def)
  have s2: "(if ?n \<noteq> NULL then upd_thread ?n (\<lambda>n. n\<lparr>th_last := ?l\<rparr>) (st\<lparr>threads := T1\<rparr>)
      else Some (st\<lparr>threads := T1\<rparr>)) = Some (st\<lparr>threads := T2\<rparr>)"
    using n by (auto simp: T2_def upd_thread_def)
  have "remove_thread p st = Some (set_km k (st\<lparr>threads := T2(p := None)\<rparr>))"
    unfolding remove_thread_def using th s1 r1(2) s2 k by (simp add: k_free_def set_km_def)
  moreover have "thread_links (st\<lparr>threads := T2(p := None)\<rparr>) (if ?l = NULL then ?n else a) (xs @ ys)"
  proof -
    have "dseg (if ?l \<noteq> NULL then ?nx(?l \<mapsto> ?n) else ?nx) (if ?n \<noteq> NULL then ?pv(?n \<mapsto> ?l) else ?pv)
        NULL (if ?l \<noteq> NULL then a else ?n) (xs @ ys) NULL"
      by (rule dseg_unlink [OF D]) (use th in auto)
    moreover have "(if ?l \<noteq> NULL then ?nx(?l \<mapsto> ?n) else ?nx) q = map_option th_next ((T2(p := None)) q)
        \<and> (if ?n \<noteq> NULL then ?pv(?n \<mapsto> ?l) else ?pv) q = map_option th_last ((T2(p := None)) q)"
      if "q \<in> set (xs @ ys)" for q
    proof -
      have "q \<noteq> p" using dist that by auto
      then show ?thesis using links nl by (auto simp: T2_def T1_def)
    qed
    ultimately have "dseg (\<lambda>q. map_option th_next ((T2(p := None)) q)) (\<lambda>q. map_option th_last ((T2(p := None)) q))
        NULL (if ?l \<noteq> NULL then a else ?n) (xs @ ys) NULL"
      by (subst dseg_cong [where nx' = "if ?l \<noteq> NULL then ?nx(?l \<mapsto> ?n) else ?nx"
          and lt' = "if ?n \<noteq> NULL then ?pv(?n \<mapsto> ?l) else ?pv"]) auto
    then show ?thesis by (cases "?l = NULL") (simp_all add: thread_links_def)
  qed
  ultimately show ?thesis using r2 by blast
qed

lemma down_thread_exception:
  assumes cur: "current_thread st = p" and th: "threads st p = Some th" "th_state th = EXCEPTION"
    and k: "kfree p (km st) = Some k" and d: "thread_links st a (xs @ p # ys)"
  shows "\<exists>T. down_thread regs st = Some (set_km k (st\<lparr>threads := T(p := None)\<rparr>))
    \<and> relinked ((threads st)(p \<mapsto> th\<lparr>registers := save_regs regs (registers th)\<rparr>)) T
    \<and> thread_links (st\<lparr>threads := T(p := None)\<rparr>) (if th_last th = NULL then th_next th else a) (xs @ ys)"
proof -
  let ?th = "th\<lparr>registers := save_regs regs (registers th)\<rparr>"
  let ?s = "st\<lparr>threads := (threads st)(p \<mapsto> ?th)\<rparr>"
  have s: "threads ?s p = Some ?th" "kfree p (km ?s) = Some k" using k by auto
  have "thread_links ?s a (xs @ p # ys) = thread_links st a (xs @ p # ys)"
    by (rule thread_links_cong) (use th in auto)
  with d have l: "thread_links ?s a (xs @ p # ys)" by simp
  show ?thesis
    using remove_thread_ok [OF s l] cur th by (auto simp: down_thread_def upd_thread_def)
qed

section \<open>Properties\<close>

text \<open>The lines of the report that do not depend on registers.\<close>

lemma report_lines:
  assumes "map error_line (report_head vector errcode @ report_regs regs cr i j) = map Some lines"
  shows "length lines = 13 + of_bool (vector < 32) + of_bool (errcode \<noteq> - 1)"
    and "vector < 32 \<Longrightarrow> error_text (literal (''Message: '' @ exception_msg ! vector)) \<in> set lines"
    and "vector < 2 ^ 31 \<Longrightarrow> \<exists>d. decimal_of (int vector) d \<and> error_text (literal ''Vector = '' @ d) \<in> set lines"
    and "errcode \<noteq> - 1 \<Longrightarrow> sint (ucast errcode :: u32) \<noteq> - (2 ^ 31) \<Longrightarrow>
      \<exists>d. decimal_of (sint (ucast errcode :: u32)) d \<and> error_text (literal ''Error code = '' @ d) \<in> set lines"
    and "error_text (literal ''Oops!There is a exception throwing!The followings are its information:'') \<in> set lines"
    and "error_text (literal ''Registers:'') \<in> set lines"
proof -
  let ?r = "report_head vector errcode @ report_regs regs cr i j"
  have top: "errcode < 0xFFFFFFFFFFFFFFFF \<longleftrightarrow> errcode \<noteq> - 1"
  proof -
    have "(0xFFFFFFFFFFFFFFFF :: u64) = - 1" by code_simp
    then show ?thesis using word_order.not_eq_extremum [of errcode] by metis
  qed
  have "length lines = length ?r" using map_eq_imp_length_eq [OF assms] by simp
  then show "length lines = 13 + of_bool (vector < 32) + of_bool (errcode \<noteq> - 1)"
    by (simp add: report_head_def report_regs_def Let_def top)
  have mem: "t \<in> set lines" if "l \<in> set ?r" "error_line l = Some t" for l t
  proof -
    have "Some t \<in> error_line ` set ?r" using that by force
    also have "\<dots> = Some ` set lines" using arg_cong [OF assms, of set] by (simp add: image_Un)
    finally show ?thesis by auto
  qed
  show "error_text (literal (''Message: '' @ exception_msg ! vector)) \<in> set lines" if "vector < 32"
  proof -
    have "\<forall>m\<in>set exception_msg. 0 \<notin> set (literal m)" "length exception_msg = 32"
      by (simp_all add: exception_msg_def literal_def)
    then have "0 \<notin> set (literal (exception_msg ! vector))" using that by simp
    then have "error_line (''Message: '' @ ''%s'', [StrArg (literal (exception_msg ! vector))]) =
        Some (error_text (literal ''Message: '' @ literal (exception_msg ! vector)))"
      using exception_msg_short [OF that] by (intro error_line_string) (simp_all add: literal_def)
    then show ?thesis using that by (intro mem) (auto simp: report_head_def literal_def)
  qed
  have fits: "line_fits l" if "l \<in> set (report_head vector errcode)" for l using report_head_fit that by blast
  show "\<exists>d. decimal_of (int vector) d \<and> error_text (literal ''Vector = '' @ d) \<in> set lines" if "vector < 2 ^ 31"
  proof -
    have v: "sint (ucast (of_nat vector :: u64) :: u32) = int vector"
    proof -
      have "take_bit 64 vector = vector" using that by (intro take_bit_nat_eq_self) simp
      then show ?thesis using that by (simp add: unsigned_of_nat signed_of_nat signed_take_bit_int_eq_self)
    qed
    have m: "(''Vector = '' @ ''%d'', [IntArg (of_nat vector)]) \<in> set (report_head vector errcode)"
      by (simp add: report_head_def)
    have "\<exists>d. decimal_of (int vector) d \<and> error_line (''Vector = '' @ ''%d'', [IntArg (of_nat vector)]) =
        Some (error_text (literal ''Vector = '' @ d))"
      unfolding v [symmetric] by (rule error_line_decimal [OF _ _ _ fits [OF m]]) (simp_all add: v literal_def)
    then obtain d where d: "decimal_of (int vector) d"
        "error_line (''Vector = '' @ ''%d'', [IntArg (of_nat vector)]) = Some (error_text (literal ''Vector = '' @ d))" by blast
    show ?thesis by (rule exI [of _ d], rule conjI [OF d(1)], rule mem [OF _ d(2)]) (use m in simp)
  qed
  show "\<exists>d. decimal_of (sint (ucast errcode :: u32)) d \<and> error_text (literal ''Error code = '' @ d) \<in> set lines"
    if e: "errcode \<noteq> - 1" "sint (ucast errcode :: u32) \<noteq> - (2 ^ 31)"
  proof -
    have m: "(''Error code = '' @ ''%d'', [IntArg errcode]) \<in> set (report_head vector errcode)"
      using e(1) top by (simp add: report_head_def)
    obtain d where d: "decimal_of (sint (ucast errcode :: u32)) d"
        "error_line (''Error code = '' @ ''%d'', [IntArg errcode]) = Some (error_text (literal ''Error code = '' @ d))"
      using error_line_decimal [OF e(2) _ _ fits [OF m]] by (auto simp: literal_def)
    show ?thesis by (rule exI [of _ d], rule conjI [OF d(1)], rule mem [OF _ d(2)]) (use m in simp)
  qed
  show "error_text (literal ''Oops!There is a exception throwing!The followings are its information:'') \<in> set lines"
    by (rule mem [OF _ error_line_plain]) (auto simp: report_head_def literal_def)
  show "error_text (literal ''Registers:'') \<in> set lines"
    by (rule mem [OF _ error_line_plain]) (auto simp: report_head_def literal_def)
qed

text \<open>
  C27. A thread that causes an exception is taken off its task and the first ready thread runs, whatever the exception.
  The report goes to the serial port, one line for each of its formats in order: 13 lines, one more with the message of
  a vector below 32, one more with the error code if there is one; the message, the vector and the error code can be
  read in it.  The handler returns with the registers of the next thread; of the threads of the task, linked both ways,
  the others stay linked both ways in their order, and the other ready threads stay queued in order.  When the thread
  was the first one of the task, the remaining ones start at its successor, but the task still points to the freed
  object (theorem \<open>remove_first_thread_dangles\<close>).
\<close>

theorem exception_removes_thread:
  assumes inv: "sched_inv st p (q # qs)" and on: "do_schedule st"
    and th: "threads st p = Some th" and tp: "tasks st (th_task th) = Some tp"
    and thq: "threads st q = Some thq" "tasks st (th_task thq) = Some t"
    and links: "thread_links st a (xs @ p # ys)" and k: "kfree p (km st) = Some k"
  shows "\<exists>lines st'. map error_line (report_head vector errcode @ report_regs regs cr (pid tp) (tid th)) = map Some lines
    \<and> general_exception_handler vector errcode cr regs h st =
      Some (load_regs (registers thq) (pgd (tk_mm_info t)) regs, h @ sent (concat lines), st')
    \<and> length lines = 13 + of_bool (vector < 32) + of_bool (errcode \<noteq> - 1)
    \<and> (vector < 32 \<longrightarrow> error_text (literal (''Message: '' @ exception_msg ! vector)) \<in> set lines)
    \<and> (vector < 2 ^ 31 \<longrightarrow> (\<exists>d. decimal_of (int vector) d \<and> error_text (literal ''Vector = '' @ d) \<in> set lines))
    \<and> (errcode \<noteq> - 1 \<and> sint (ucast errcode :: u32) \<noteq> - (2 ^ 31) \<longrightarrow>
        (\<exists>d. decimal_of (sint (ucast errcode :: u32)) d \<and> error_text (literal ''Error code = '' @ d) \<in> set lines))
    \<and> current_thread st' = q \<and> map_option th_state (threads st' q) = Some RUNNING \<and> ready0 st' qs
    \<and> threads st' p = None \<and> thread_links st' (if th_last th = NULL then th_next th else a) (xs @ ys)"
proof -
  have c: "current_thread st = p" and r: "ready0 st (q # qs)" and d: "distinct (p # q # qs)" and sch: "schedulable st p"
    using inv by (simp_all add: sched_inv_def)
  have lv: "level tp \<in> {0, 1}" using sch th tp by (auto simp: schedulable_def)
  obtain lines where lines: "map error_line (report_head vector errcode @ report_regs regs cr (pid tp) (tid th)) = map Some lines"
    using lines_fit [of "report_head vector errcode @ report_regs regs cr (pid tp) (tid th)"]
      report_head_fit [of vector errcode] report_regs_fit [of regs cr "pid tp" "tid th"] by (auto simp: ball_Un)
  note report = put_report_sent [OF lines, of h]
  let ?th = "th\<lparr>th_state := EXCEPTION\<rparr>"
  let ?s = "st\<lparr>threads := (threads st)(p \<mapsto> ?th)\<rparr>"
  have sw: "should_switch ?s = Some True"
    using on c th tp lv r by (auto simp: should_switch_def has_level0_thread_def ready0_def)
  have "thread_links ?s a (xs @ p # ys) = thread_links st a (xs @ p # ys)"
    by (rule thread_links_cong) (use th in auto)
  with links have l: "thread_links ?s a (xs @ p # ys)" by simp
  obtain T where T: "down_thread regs ?s = Some (set_km k (?s\<lparr>threads := T(p := None)\<rparr>))"
      "relinked ((threads ?s)(p \<mapsto> ?th\<lparr>registers := save_regs regs (registers ?th)\<rparr>)) T"
      "thread_links (?s\<lparr>threads := T(p := None)\<rparr>) (if th_last th = NULL then th_next th else a) (xs @ ys)"
  proof -
    have "current_thread ?s = p" "threads ?s p = Some ?th" "th_state ?th = EXCEPTION" "kfree p (km ?s) = Some k"
      using c k by simp_all
    from down_thread_exception [OF this l, of regs] obtain T
      where T: "down_thread regs ?s = Some (set_km k (?s\<lparr>threads := T(p := None)\<rparr>))"
        "relinked ((threads ?s)(p \<mapsto> ?th\<lparr>registers := save_regs regs (registers ?th)\<rparr>)) T"
        "thread_links (?s\<lparr>threads := T(p := None)\<rparr>) (if th_last ?th = NULL then th_next ?th else a) (xs @ ys)" by blast
    have "th_last ?th = th_last th" "th_next ?th = th_next th" by simp_all
    with T(3) show ?thesis by (intro that [OF T(1,2)]) (simp only:)
  qed
  let ?d = "set_km k (?s\<lparr>threads := T(p := None)\<rparr>)"
  have same: "\<exists>u'. T a = Some u' \<and> registers u' = registers u \<and> th_task u' = th_task u \<and> free_next u' = free_next u"
    if "threads st a = Some u" "a \<noteq> p" for a u
    using relinked_fields [OF T(2), of a] that by auto
  have "fnext ?d a = fnext st a" if "a \<in> set (q # qs)" for a
  proof -
    have "a \<noteq> p" using d that by auto
    moreover have "fnext st a \<noteq> None"
      using chain_in_dom [of "fnext st" "level0_head st" "q # qs" a] r that unfolding ready0_def by blast
    then obtain u where "threads st a = Some u" by auto
    ultimately show ?thesis using same by fastforce
  qed
  then have "chain (fnext ?d) (level0_head st) (q # qs) = chain (fnext st) (level0_head st) (q # qs)"
    by (rule chain_cong)
  then have "ready0 ?d (q # qs)"
    using r unfolding ready0_def by (simp del: chain.simps)
  moreover obtain u where u: "threads ?d q = Some u" "registers u = registers thq" "tasks ?d (th_task u) = Some t"
    using same [OF thq(1)] thq(2) d by auto
  ultimately obtain st' where
    st': "do_switch regs ?s = Some (load_regs (registers thq) (pgd (tk_mm_info t)) regs, st')" "current_thread st' = q"
      "ready0 st' qs" "same_tasks ?d st'" "map_option th_state (threads st' q) = Some RUNNING"
      "\<forall>a. map_option th_next (threads st' a) = map_option th_next (threads ?d a)
         \<and> map_option th_last (threads st' a) = map_option th_last (threads ?d a)"
    using switch_in [OF T(1) _ u(1,3), of qs] by (auto simp: u(2))
  have "map_option th_task (threads st' p) = map_option th_task (threads ?d p)"
    using st'(4) unfolding same_tasks_def by blast
  then have gone: "threads st' p = None" by simp
  have "thread_links st' (if th_last th = NULL then th_next th else a) (xs @ ys)"
    using thread_links_cong [of "xs @ ys" st' "?s\<lparr>threads := T(p := None)\<rparr>"] st'(6) T(3) by simp
  moreover have "general_exception_handler vector errcode cr regs h st =
      Some (load_regs (registers thq) (pgd (tk_mm_info t)) regs, h @ sent (concat lines), st')"
    using c th tp report sw st'(1) by (auto simp: general_exception_handler_def upd_thread_def after_syscall_def)
  ultimately show ?thesis
    using lines report_lines(1-4) [OF lines] st'(2,3,5) gone by (intro exI [of _ lines] exI [of _ st']) simp
qed

section \<open>Example\<close>

definition example_fault :: kstate where
  "example_fault = example_kstate\<lparr>level0_head := 2000, level0_tail := 2000, current_thread := 4120,
     threads := [4120 \<mapsto> example_thread, 2000 \<mapsto> example_thread\<lparr>th_state := READY, tid := 1\<rparr>]\<rparr>"

theorem exception_removes_thread_witness:
  "\<exists>regs' lines st'. general_exception_handler 14 2 \<lparr>cr0 = 0, cr2 = 5, cr4 = 0\<rparr> example_regs [] example_fault =
      Some (regs', sent (concat lines), st')
    \<and> length lines = 15 \<and> error_text (literal ''Message: [#PF] Page fault!'') \<in> set lines
    \<and> current_thread st' = 2000 \<and> threads st' 4120 = None \<and> thread_links st' 0 []"
proof -
  have "heap_ok (km example_fault) [(4096, 64, True), (4160, 65472, False)]"
    using example_pmm_inv by (simp add: example_fault_def example_kstate_def example_vmem_def pmm_inv_def)
  from kfree_ok [OF this, of 4096 64] obtain k where k: "kfree 4120 (km example_fault) = Some k"
    by (auto simp: SEG_INFO_SZ_def)
  have inv: "sched_inv example_fault 4120 [2000]"
    by (simp add: sched_inv_def example_fault_def example_kstate_def ready0_def schedulable_def example_thread_def
        example_task_def)
  have links: "thread_links example_fault 4120 ([] @ 4120 # [])"
    by (simp add: thread_links_def example_fault_def example_thread_def)
  have msg: "exception_msg ! 14 = ''[#PF] Page fault!''" by (simp add: exception_msg_def)
  show ?thesis
    using exception_removes_thread [OF inv _ _ _ _ _ links k, of example_thread example_task
      "example_thread\<lparr>th_state := READY, tid := 1\<rparr>" example_task 14 2 example_regs "\<lparr>cr0 = 0, cr2 = 5, cr4 = 0\<rparr>" "[]"]
    by (auto simp: example_fault_def example_kstate_def example_thread_def msg)
qed

end
