(* ===== verification/LPrint.thy ===== *)
theory LPrint
  imports Screen
begin

text \<open>
  The text output of the loader: \<^verbatim>\<open>loader/grub_loader/printf.c\<close> with \<^verbatim>\<open>libs/string.c\<close>.  The loader runs with 32-bit
  slots, knows fewer conversions than the kernel and prints on the text screen of the PC.  The lemmas relate it to
  \<open>Printk\<close> and \<open>Screen\<close>: on formats that both know, the two routines print the same text.
\<close>

section \<open>Strings\<close>

text \<open>The \<^verbatim>\<open>strcpy\<close> of the loader tests before it copies and stores the terminator.\<close>

partial_function (option) l_strcpy_loop :: "memory \<Rightarrow> nat \<Rightarrow> nat \<Rightarrow> (nat \<times> memory) option" where
  "l_strcpy_loop m r src =
     (if m src \<noteq> 0 then let m = m(r := m src) in l_strcpy_loop m (Suc r) (Suc src) else Some (r, m))"

definition l_strcpy :: "memory \<Rightarrow> nat \<Rightarrow> nat \<Rightarrow> (nat \<times> memory) option" where
  "l_strcpy m dst src = do { (r, m) \<leftarrow> l_strcpy_loop m dst src; Some (dst, m(r := 0)) }"

lemma l_strcpy_loop_cstring:
  assumes "cstring m src xs" and "r + length xs \<le> src \<or> src + length xs < r"
  shows "l_strcpy_loop m r src = Some (r + length xs, store_bytes m r xs)"
  using assms
proof (induction xs arbitrary: m r src)
  case Nil
  then show ?case by (subst l_strcpy_loop.simps) simp
next
  case (Cons x xs)
  have out: "r < Suc src \<or> Suc src + length xs < r" using Cons.prems(2) by auto
  have "cstring (m(r := x)) (Suc src) xs" using Cons.prems(1) cstring_upd_outside [OF out] by simp
  moreover have "Suc r + length xs \<le> Suc src \<or> Suc src + length xs < Suc r" using Cons.prems(2) by auto
  ultimately show ?case
    using Cons.prems(1) Cons.IH [of "m(r := x)" "Suc src" "Suc r"] by (subst l_strcpy_loop.simps) (simp del: fun_upd_apply)
qed

text \<open>It copies every string, the empty one too, with its terminator.\<close>

lemma l_strcpy_copies:
  assumes "cstring m src xs" and "dst + length xs < src \<or> src + length xs < dst"
  shows "\<exists>m'. l_strcpy m dst src = Some (dst, m') \<and> cstring m' dst xs
    \<and> (\<forall>a. a < dst \<or> dst + length xs < a \<longrightarrow> m' a = m a)"
proof -
  let ?m = "(store_bytes m dst xs)(dst + length xs := 0)"
  have "l_strcpy m dst src = Some (dst, ?m)"
    using l_strcpy_loop_cstring [OF assms(1), of dst] assms(2) by (auto simp: l_strcpy_def)
  moreover have "\<And>i. i < length xs \<Longrightarrow> xs ! i \<noteq> 0" using assms(1) by (simp add: cstring_def)
  then have "cstring ?m dst xs" by (simp add: cstring_def store_bytes_inside)
  moreover have "\<forall>a. a < dst \<or> dst + length xs < a \<longrightarrow> ?m a = m a" by (auto simp: store_bytes_outside)
  ultimately show ?thesis by blast
qed

section \<open>The screen\<close>

text \<open>The position of the loader and its cells, numbered from \<^verbatim>\<open>VIDEO_ADDRESS\<close> on.\<close>

definition VIDEO_ADDRESS :: nat where "VIDEO_ADDRESS = 0xB8000"
definition SCREEN_WIDTH :: int where "SCREEN_WIDTH = 80"
definition SCREEN_HEIGHT :: int where "SCREEN_HEIGHT = 25"

record text_screen =
  ts_cells :: "int \<Rightarrow> u16"
  ts_color :: int
  ts_x :: int
  ts_y :: int

definition l_write_char :: "u8 \<Rightarrow> int \<Rightarrow> int \<Rightarrow> int \<Rightarrow> text_screen \<Rightarrow> text_screen" where
  "l_write_char ch col posx posy s = s\<lparr>ts_cells := (ts_cells s)(posx + posy * 80 := cell col ch)\<rparr>"

primrec l_write_cells :: "u8 list \<Rightarrow> int \<Rightarrow> int \<Rightarrow> text_screen \<Rightarrow> text_screen" where
  "l_write_cells [] col pos s = s"
| "l_write_cells (ch # str) col pos s =
     l_write_cells str col (pos + 1) (s\<lparr>ts_cells := (ts_cells s)(pos := cell col ch)\<rparr>)"

definition l_write_str :: "u8 list \<Rightarrow> int \<Rightarrow> int \<Rightarrow> int \<Rightarrow> text_screen \<Rightarrow> text_screen" where
  "l_write_str str col posx posy s = l_write_cells str col (posx + posy * 80) s"

definition l_change_pos :: "int \<Rightarrow> int \<Rightarrow> text_screen \<Rightarrow> text_screen" where
  "l_change_pos x y s = s\<lparr>ts_x := wrap16 x, ts_y := wrap16 y\<rparr>"

definition l_clrscr :: "text_screen \<Rightarrow> text_screen" where
  "l_clrscr s = (fold (\<lambda>i. fold (\<lambda>j. l_write_char 32 (ts_color s) (int i) (int j)) [0..<nat SCREEN_HEIGHT])
     [0..<nat SCREEN_WIDTH] s)\<lparr>ts_x := 0, ts_y := 0\<rparr>"

definition l_putchar :: "u8 \<Rightarrow> text_screen \<Rightarrow> text_screen" where
  "l_putchar ch s =
     (let s = (if ch = 13 \<or> ch = 10 then s\<lparr>ts_x := 0, ts_y := wrap16 (ts_y s + 1)\<rparr>
               else if ch = 9 then s\<lparr>ts_x := wrap16 (ts_x s + 4)\<rparr>
               else if ch = 11 then s\<lparr>ts_y := wrap16 (ts_y s + 1)\<rparr>
               else if ch = 8 then
                 (if ts_x s > 0
                  then let s = s\<lparr>ts_x := wrap16 (ts_x s - 1)\<rparr> in l_write_char 32 (ts_color s) (ts_x s) (ts_y s) s
                  else s)
               else if ch = 12 then (l_clrscr s)\<lparr>ts_x := 0, ts_y := 0\<rparr>
               else (l_write_char ch (ts_color s) (ts_x s) (ts_y s) s)\<lparr>ts_x := wrap16 (ts_x s + 1)\<rparr>)
      in if ts_x s \<ge> SCREEN_WIDTH
         then s\<lparr>ts_x := wrap16 (ts_x s - SCREEN_WIDTH), ts_y := wrap16 (ts_y s + 1)\<rparr> else s)"

primrec l_puts :: "u8 list \<Rightarrow> text_screen \<Rightarrow> text_screen" where
  "l_puts [] s = s"
| "l_puts (ch # str) s = l_puts str (l_putchar ch s)"

text \<open>The screen of the loader as one of the kernel: every operation agrees.\<close>

definition as_screen :: "text_screen \<Rightarrow> screen" where
  "as_screen s = \<lparr>cells = ts_cells s, video_address = VIDEO_ADDRESS, screen_width = SCREEN_WIDTH,
     screen_height = SCREEN_HEIGHT, print_color = ts_color s, print_x = ts_x s, print_y = ts_y s\<rparr>"

lemma as_screen_simps [simp]:
  "cells (as_screen s) = ts_cells s" "screen_width (as_screen s) = SCREEN_WIDTH"
  "screen_height (as_screen s) = SCREEN_HEIGHT" "print_color (as_screen s) = ts_color s"
  "print_x (as_screen s) = ts_x s" "print_y (as_screen s) = ts_y s"
  by (simp_all add: as_screen_def)

lemma as_screen_upd:
  "as_screen (s\<lparr>ts_x := x\<rparr>) = (as_screen s)\<lparr>print_x := x\<rparr>" "as_screen (s\<lparr>ts_y := y\<rparr>) = (as_screen s)\<lparr>print_y := y\<rparr>"
  "as_screen (s\<lparr>ts_cells := c\<rparr>) = (as_screen s)\<lparr>cells := c\<rparr>"
  by (simp_all add: as_screen_def)

lemma as_screen_write: "as_screen (l_write_char ch col x y s) = write_char ch col x y (as_screen s)"
  by (simp add: l_write_char_def write_char_def as_screen_upd)

lemma as_screen_fold: "(\<And>x s. as_screen (f x s) = g x (as_screen s)) \<Longrightarrow> as_screen (fold f xs s) = fold g xs (as_screen s)"
  by (induction xs arbitrary: s) simp_all

lemma as_screen_clrscr: "as_screen (l_clrscr s) = clrscr (as_screen s)"
  by (simp add: l_clrscr_def clrscr_def as_screen_upd as_screen_fold as_screen_write)

lemma screen_fields:
  "screen_width (clrscr s) = screen_width s"
  "screen_width (write_char ch col x y s) = screen_width s" "print_x (write_char ch col x y s) = print_x s"
  "print_y (write_char ch col x y s) = print_y s" "ts_x (l_write_char ch col x y t) = ts_x t" "ts_y (l_write_char ch col x y t) = ts_y t"
  by (simp_all add: clrscr_blank blank_def write_char_def l_write_char_def)

lemma as_screen_putchar: "as_screen (l_putchar ch s) = putchar ch (as_screen s)"
  by (simp add: l_putchar_def putchar_def Let_def as_screen_upd as_screen_write as_screen_clrscr screen_fields)

lemma as_screen_puts: "as_screen (l_puts str s) = puts str (as_screen s)"
  by (induction str arbitrary: s) (simp_all add: as_screen_putchar)

section \<open>Conversions\<close>

text \<open>
  An argument is a slot of 32 bits or a string.  The flags and the loop over them are those of the kernel; the type
  codes differ, and the byte \<^verbatim>\<open>print_type\<close> again holds 255 for \<^verbatim>\<open>-1\<close>.
\<close>

datatype larg = LInt u32 | LStr "u8 list"

definition L_TY_INT :: u8 where "L_TY_INT = 0"
definition L_TY_UNSIGNED :: u8 where "L_TY_UNSIGNED = 1"
definition L_TY_OCT :: u8 where "L_TY_OCT = 2"
definition L_TY_HEX :: u8 where "L_TY_HEX = 3"
definition L_TY_CHAR :: u8 where "L_TY_CHAR = 4"
definition L_TY_STRING :: u8 where "L_TY_STRING = 5"
definition L_TY_NONE :: u8 where "L_TY_NONE = of_int (-1)"

lemmas l_type_defs = L_TY_INT_def L_TY_UNSIGNED_def L_TY_OCT_def L_TY_HEX_def L_TY_CHAR_def L_TY_STRING_def
  L_TY_NONE_def

fun l_va_int :: "larg list \<Rightarrow> (u32 \<times> larg list) option" where
  "l_va_int (LInt w # args) = Some (w, args)"
| "l_va_int _ = None"

fun l_va_str :: "larg list \<Rightarrow> (u8 list \<times> larg list) option" where
  "l_va_str (LStr s # args) = Some (s, args)"
| "l_va_str _ = None"

definition l_parse_width :: "u8 \<Rightarrow> u8 list \<Rightarrow> larg list \<Rightarrow> (u8 \<times> int \<times> u8 list \<times> larg list) option" where
  "l_parse_width flag format args =
     (if cur format = 42 then do {
        (w, args) \<leftarrow> l_va_int args;
        let width = sint w;
        let (flag, width) = (if width < 0 then (flag OR FLAG_LEFT_ALIGN, wrap32 (- width)) else (flag, width));
        Some (flag, width, tl format, args)
      }
      else (case parse_digits 0 format of (width, format) \<Rightarrow> Some (flag, width, format, args)))"

definition l_parse_precision :: "u8 list \<Rightarrow> larg list \<Rightarrow> (int \<times> u8 list \<times> larg list) option" where
  "l_parse_precision format args =
     (if cur format = 46 then
        (if cur (tl format) = 42 then do {
           (precision, args) \<leftarrow> l_va_int args;
           Some (sint precision, tl (tl format), args)
         }
         else (case parse_digits 0 (tl format) of (precision, format) \<Rightarrow> Some (precision, format, args)))
      else Some (0, format, args))"

text \<open>The qualifiers are read and have no effect: every integer is an \<^verbatim>\<open>int\<close>.\<close>

definition l_parse_qualifier :: "u8 list \<Rightarrow> qualifier \<times> u8 list" where
  "l_parse_qualifier format =
     (if cur format = 108 \<or> cur format = 76 then (QUAL_LONG, tl format)
      else if cur format = 104 then (QUAL_SHORT, tl format)
      else (QUAL_NORMAL, format))"

definition l_parse_type :: "u8 \<Rightarrow> int \<Rightarrow> u8 \<Rightarrow> u8 \<times> int \<times> u8" where
  "l_parse_type flag width c =
     (if c = 100 then (flag, width, L_TY_INT)
      else if c = 117 then (flag, width, L_TY_UNSIGNED)
      else if c = 111 then (flag, width, L_TY_OCT)
      else if c = 88 then (flag OR FLAG_UPPER, width, L_TY_HEX)
      else if c = 120 then (flag, width, L_TY_HEX)
      else if c = 99 then (flag, width, L_TY_CHAR)
      else if c = 115 then (flag, width, L_TY_STRING)
      else if c = 80 then (flag OR FLAG_UPPER OR FLAG_FILL_ZERO OR FLAG_PREFIX, 16, L_TY_HEX)
      else if c = 112 then (flag OR FLAG_FILL_ZERO OR FLAG_PREFIX, 16, L_TY_HEX)
      else (flag, width, L_TY_NONE))"

text \<open>The \<^verbatim>\<open>switch (print_type)\<close>: scratch array, characters stored directly, sign, offset and remaining arguments.\<close>

definition l_convert :: "u8 \<Rightarrow> u8 \<Rightarrow> larg list \<Rightarrow> (u8 list \<times> u8 list \<times> bool \<times> int \<times> larg list) option" where
  "l_convert print_type flag args =
     (let buf = (\<lambda>_. 0) in
      if print_type = L_TY_INT then do {
        (w, args) \<leftarrow> l_va_int args;
        let val = sint w;
        let (has_sign, val) = (if val < 0 then (True, wrap32 (- val)) else (False, val));
        (_, buf) \<leftarrow> itoa buf val 0 10;
        Some (scratch_string buf, [], has_sign, 0, args)
      }
      else if print_type = L_TY_UNSIGNED then do {
        (w, args) \<leftarrow> l_va_int args;
        (_, buf) \<leftarrow> uitoa buf w 0 10;
        Some (scratch_string buf, [], False, 0, args)
      }
      else if print_type = L_TY_OCT then do {
        (w, args) \<leftarrow> l_va_int args;
        (_, buf) \<leftarrow> uitoa buf w 0 8;
        Some (scratch_string buf, [], False, 0, args)
      }
      else if print_type = L_TY_HEX then do {
        (w, args) \<leftarrow> l_va_int args;
        (_, buf) \<leftarrow> uitoa buf w 0 16;
        let s = scratch_string buf;
        Some (if flag AND FLAG_UPPER \<noteq> 0 then map upper_byte s else s, [], False, 0, args)
      }
      else if print_type = L_TY_CHAR then do {
        (w, args) \<leftarrow> l_va_int args;
        Some ([], [ucast w], False, 1, args)
      }
      else if print_type = L_TY_STRING then do {
        (s, args) \<leftarrow> l_va_str args;
        Some ([], s, False, int (length s), args)
      }
      else Some ([], [], False, 0, args))"

definition l_emit :: "u8 \<Rightarrow> int \<Rightarrow> u8 \<Rightarrow> u8 list \<Rightarrow> bool \<Rightarrow> int \<Rightarrow> u8 list" where
  "l_emit flag width print_type body has_sign offset =
     (let plus = (if flag AND FLAG_SIGN \<noteq> 0 \<and> \<not> has_sign then [43] else []);
          minus = (if has_sign then [45] else []);
          offset = offset + int (length plus) + int (length minus);
          prefix = (if flag AND FLAG_PREFIX \<noteq> 0 then
                      (if print_type = L_TY_OCT then [48]
                       else if print_type = L_TY_HEX then [48, if flag AND FLAG_UPPER \<noteq> 0 then 88 else 120]
                       else [])
                    else []);
          pad = replicate (nat (width - (int (length body) + offset))) (if flag AND FLAG_FILL_ZERO \<noteq> 0 then 48 else 32)
      in plus @ minus @ prefix @ pad @ body)"

definition l_parse_conversion :: "u8 list \<Rightarrow> larg list \<Rightarrow> (u8 \<times> int \<times> u8 \<times> larg list \<times> u8 list) option" where
  "l_parse_conversion format args =
     (case parse_flags 0 format of (flag, format) \<Rightarrow> do {
        (flag, width, format, args) \<leftarrow> l_parse_width flag format args;
        (precision, format, args) \<leftarrow> l_parse_precision format args;
        let (qual, format) = l_parse_qualifier format;
        let (flag, width, print_type) = l_parse_type flag width (cur format);
        Some (flag, width, print_type, args, format)
      })"

lemma length_l_parse_width:
  "l_parse_width flag format args = Some (flag', w, format', args') \<Longrightarrow> length format' \<le> length format"
  using length_parse_digits [of 0 format]
  by (auto simp: l_parse_width_def bind_iff Let_def split: if_splits prod.splits)

lemma length_l_parse_precision:
  "l_parse_precision format args = Some (w, format', args') \<Longrightarrow> length format' \<le> length format"
  using length_parse_digits [of 0 "tl format"]
  by (auto simp: l_parse_precision_def bind_iff split: if_splits prod.splits)

lemma length_l_parse_conversion:
  assumes "l_parse_conversion format args = Some (flag, w, ty, args', format')"
  shows "length format' \<le> length format"
proof -
  obtain fl f1 where 1: "parse_flags 0 format = (fl, f1)" by fastforce
  with assms obtain fl2 w2 f2 a2 where 2: "l_parse_width fl f1 args = Some (fl2, w2, f2, a2)"
    by (cases "l_parse_width fl f1 args") (auto simp: l_parse_conversion_def)
  with assms 1 obtain p3 f3 a3 where 3: "l_parse_precision f2 a2 = Some (p3, f3, a3)"
    by (cases "l_parse_precision f2 a2") (auto simp: l_parse_conversion_def)
  with assms 1 2 have "format' = snd (l_parse_qualifier f3)"
    by (auto simp: l_parse_conversion_def split: prod.splits)
  then have "length format' \<le> length f3" by (auto simp: l_parse_qualifier_def)
  also have "\<dots> \<le> length f2" using 3 by (rule length_l_parse_precision)
  also have "\<dots> \<le> length f1" using 2 by (rule length_l_parse_width)
  also have "\<dots> \<le> length format" using length_parse_flags [of 0 format] by (simp add: 1)
  finally show ?thesis .
qed

text \<open>The result is the length of the text; after the terminator of the format the routine would read on.\<close>

function l_vsprintf_loop :: "u8 list \<Rightarrow> larg list \<Rightarrow> u8 list \<Rightarrow> (u8 list \<times> int) option" where
  "l_vsprintf_loop [] args out = Some (out, int (length out))"
| "l_vsprintf_loop (c # format) args out =
     (if c \<noteq> 37 then l_vsprintf_loop format args (out @ [c])
      else if cur format = 37 then l_vsprintf_loop (tl format) args (out @ [37])
      else do {
        (flag, width, print_type, args, format) \<leftarrow> l_parse_conversion format args;
        if uint print_type = -1 then Some (out, -1)
        else if format = [] then None
        else do {
          (body, direct, has_sign, offset, args) \<leftarrow> l_convert print_type flag args;
          l_vsprintf_loop (tl format) args (out @ direct @ l_emit flag width print_type body has_sign offset)
        }
      })"
  by pat_completeness auto
termination
  by (relation "measure (\<lambda>(f, _). length f)") (auto simp: length_tl_le less_Suc_eq_le dest: length_l_parse_conversion)

declare l_vsprintf_loop.simps(2) [simp del]

definition l_vsprintf :: "u8 list \<Rightarrow> larg list \<Rightarrow> (u8 list \<times> int) option" where
  "l_vsprintf format args = l_vsprintf_loop format args []"

text \<open>\<^verbatim>\<open>printf\<close>: the text and its terminator must fit into the buffer of 256 bytes.\<close>

definition l_printf :: "u8 list \<Rightarrow> larg list \<Rightarrow> text_screen \<Rightarrow> (int \<times> text_screen) option" where
  "l_printf format args s = do {
     (out, res) \<leftarrow> l_vsprintf format args;
     if length out < 256 then Some (res, l_puts (takeWhile (\<lambda>b. b \<noteq> 0) out) s) else None
   }"

section \<open>Agreement with the kernel\<close>

text \<open>The slots of the loader, extended with zeros, and its type codes as those of the kernel.\<close>

fun widen :: "larg \<Rightarrow> varg" where
  "widen (LInt w) = IntArg (ucast w)"
| "widen (LStr s) = StrArg s"

definition kernel_type :: "u8 \<Rightarrow> u8" where
  "kernel_type ty = (if ty = L_TY_OCT then PRINT_TY_OCT else if ty = L_TY_HEX then PRINT_TY_HEX
     else if ty = L_TY_CHAR then PRINT_TY_CHAR else if ty = L_TY_STRING then PRINT_TY_STRING else ty)"

lemma ucast_widen [simp]: "(ucast (ucast w :: u64) :: u32) = (w :: u32)" "(ucast (ucast (w :: u32) :: u64) :: u8) = ucast w"
  by (auto intro!: bit_word_eqI simp: bit_ucast_iff)

lemma va_int_widen: "va_int (map widen args) = map_option (\<lambda>(w, a). (sint w, map widen a)) (l_va_int args)"
  by (cases args rule: l_va_int.cases) simp_all

lemma va_slot_widen: "va_slot (map widen args) = map_option (\<lambda>(w, a). (ucast w, map widen a)) (l_va_int args)"
  by (cases args rule: l_va_int.cases) simp_all

lemma va_str_widen: "va_str (map widen args) = map_option (\<lambda>(s, a). (s, map widen a)) (l_va_str args)"
  by (cases args rule: l_va_str.cases) simp_all

lemma parse_width_widen:
  "parse_width flag format (map widen args) = map_option (\<lambda>(fl, w, f, a). (fl, w, f, map widen a)) (l_parse_width flag format args)"
  by (cases "l_va_int args") (auto simp: parse_width_def l_parse_width_def va_int_widen Let_def split: prod.splits)

lemma parse_precision_widen:
  "parse_precision format (map widen args) = map_option (\<lambda>(p, f, a). (p, f, map widen a)) (l_parse_precision format args)"
  by (cases "l_va_int args") (auto simp: parse_precision_def l_parse_precision_def va_int_widen split: prod.splits)

lemma digit_loop_more: "digit_loop n val base = Some ds \<Longrightarrow> digit_loop (n + k) val base = Some ds"
proof (induction n val base arbitrary: ds rule: digit_loop.induct)
  case (1 val base)
  then show ?case by (cases k) (auto split: if_splits)
qed (auto simp: bind_iff split: if_splits)

text \<open>Eight hexadecimal digits do for 32 bits, so the wider buffer of the kernel makes no difference.\<close>

lemma ulltoa_widen: "ulltoa m (ucast (w :: u32)) p 16 = uitoa m w p 16"
proof (cases "w = 0")
  case True
  then show ?thesis by (simp add: ulltoa_def uitoa_def)
next
  case False
  have "0 < uint w" using False by (simp add: word_neq_0_conv word_less_def)
  moreover have "uint w < 2 ^ 32" using uint_lt2p [of w] by simp
  ultimately obtain ds where ds: "digit_loop 12 (uint w) 16 = Some ds"
    using digit_loop_numeral [of 16 "uint w" 12] fits_12 [of 16 "uint w"] by auto
  then have "digit_loop 23 (uint w) 16 = Some ds" using digit_loop_more [of 12 "uint w" 16 ds 11] by simp
  moreover have u: "uint (ucast w :: u64) = uint w"
    by (simp add: uint_up_ucast is_up_def source_size_def target_size_def word_size)
  moreover have "(ucast w :: u64) \<noteq> 0" using False u by (metis uint_0_iff)
  ultimately show ?thesis using False ds by (simp add: ulltoa_def uitoa_def)
qed

lemma convert_widen:
  assumes "q \<noteq> QUAL_LONGLONG"
    and "ty \<in> {L_TY_INT, L_TY_UNSIGNED, L_TY_HEX, L_TY_CHAR, L_TY_STRING, L_TY_NONE}"
  shows "convert (kernel_type ty) q flag (map widen args) =
    map_option (\<lambda>(b, d, h, o', a). (b, d, h, o', map widen a)) (l_convert ty flag args)"
proof -
  have i: ?thesis if "ty = L_TY_INT"
    using assms(1) that
    by (cases "l_va_int args")
      (auto simp: convert_def l_convert_def kernel_type_def type_defs l_type_defs va_int_widen Let_def bind_eq_None_conv
        split: prod.splits bind_splits)
  have u: ?thesis if "ty = L_TY_UNSIGNED"
    using assms(1) that
    by (cases "l_va_int args")
      (auto simp: convert_def l_convert_def kernel_type_def type_defs l_type_defs va_slot_widen split: bind_splits)
  have x: ?thesis if "ty = L_TY_HEX"
    using that
    by (cases "l_va_int args")
      (auto simp: convert_def convert_hex_def l_convert_def kernel_type_def type_defs l_type_defs va_slot_widen ulltoa_widen
        Let_def split: bind_splits)
  have c: ?thesis if "ty = L_TY_CHAR \<or> ty = L_TY_STRING \<or> ty = L_TY_NONE"
    using that
    by (cases "l_va_int args"; cases "l_va_str args")
      (auto simp: convert_def l_convert_def kernel_type_def type_defs l_type_defs va_slot_widen va_str_widen)
  show ?thesis using assms(2) i u x c by blast
qed

lemma emit_widen: "emit flag width (kernel_type ty) body h o' = l_emit flag width ty body h o'"
  if "ty \<in> {L_TY_INT, L_TY_UNSIGNED, L_TY_HEX, L_TY_CHAR, L_TY_STRING, L_TY_NONE}"
  using that by (auto simp: emit_def l_emit_def kernel_type_def type_defs l_type_defs Let_def)

text \<open>
  The formats on which the two routines agree: the type of a conversion, which may have one qualifier, is none of
  \<^verbatim>\<open>o\<close>, \<^verbatim>\<open>f\<close>, \<^verbatim>\<open>e\<close>, \<^verbatim>\<open>E\<close> and no second \<^verbatim>\<open>l\<close>.
\<close>

definition spec_char :: "u8 \<Rightarrow> bool" where
  "spec_char c \<longleftrightarrow> c \<in> {43, 45, 32, 48, 35, 42, 46} \<or> isdigit (sint c)"

definition common_type :: "u8 list \<Rightarrow> bool" where
  "common_type f \<longleftrightarrow> cur f \<notin> {37, 108, 76, 111, 102, 69, 101}"

definition common_conv :: "u8 list \<Rightarrow> bool" where
  "common_conv f \<longleftrightarrow> (let g = dropWhile spec_char f in common_type (if cur g \<in> {108, 76, 104} then tl g else g))"

function common_format :: "u8 list \<Rightarrow> bool" where
  "common_format [] = True"
| "common_format (c # f) =
     (if c \<noteq> 37 then common_format f else if cur f = 37 then common_format (tl f) else common_conv f \<and> common_format f)"
  by pat_completeness auto
termination by (relation "measure length") (auto simp: length_tl_le less_Suc_eq_le)

definition skips :: "u8 list \<Rightarrow> u8 list \<Rightarrow> bool" where
  "skips f g \<longleftrightarrow> (\<exists>pre. f = pre @ g \<and> list_all spec_char pre)"

lemma skips_refl [simp]: "skips f f"
  by (auto simp: skips_def)

lemma skips_trans [trans]: "skips f g \<Longrightarrow> skips g h \<Longrightarrow> skips f h"
proof -
  assume "skips f g" "skips g h"
  then obtain a b where "f = a @ g" "g = b @ h" "list_all spec_char a" "list_all spec_char b" by (auto simp: skips_def)
  then have "f = (a @ b) @ h" "list_all spec_char (a @ b)" by simp_all
  then show "skips f h" unfolding skips_def by blast
qed

lemma skips_Cons: "skips f g \<Longrightarrow> spec_char c \<Longrightarrow> skips (c # f) g"
proof -
  assume "skips f g" "spec_char c"
  then obtain a where "c # f = (c # a) @ g" "list_all spec_char (c # a)" by (auto simp: skips_def)
  then show "skips (c # f) g" unfolding skips_def by blast
qed

lemma skips_flags: "skips format (snd (parse_flags flag format))"
  by (induction flag format rule: parse_flags.induct) (auto intro: skips_Cons simp: spec_char_def)

lemma skips_digits: "skips format (snd (parse_digits n format))"
  by (induction n format rule: parse_digits.induct) (auto intro: skips_Cons simp: spec_char_def)

lemma skips_tl: "cur f = c \<Longrightarrow> c \<in> {42, 46} \<Longrightarrow> skips f (tl f)"
  by (cases f) (auto simp: cur_def spec_char_def intro: skips_Cons)

lemma skips_width: "l_parse_width flag f args = Some (fl, w, f', a) \<Longrightarrow> skips f f'"
  using skips_digits [of f 0] by (auto simp: l_parse_width_def bind_iff Let_def skips_tl split: if_splits prod.splits)

lemma skips_precision: "l_parse_precision f args = Some (p, f', a) \<Longrightarrow> skips f f'"
  using skips_digits [of "tl f" 0] skips_tl [of f 46] skips_tl [of "tl f" 42]
  by (auto simp: l_parse_precision_def bind_iff split: if_splits prod.splits intro: skips_trans)

lemma skips_drop: "skips f g \<Longrightarrow> dropWhile spec_char f = dropWhile spec_char g"
  by (auto simp: skips_def list_all_iff)

lemma parse_type_widen:
  assumes "c \<notin> {111, 102, 69, 101}"
  shows "parse_type fl w c = (case l_parse_type fl w c of (fl, w, ty) \<Rightarrow> (fl, w, kernel_type ty))"
  using assms by (auto simp: parse_type_def l_parse_type_def kernel_type_def type_defs l_type_defs)

lemma l_parse_type_codes:
  "c \<noteq> 111 \<Longrightarrow> snd (snd (l_parse_type fl w c)) \<in> {L_TY_INT, L_TY_UNSIGNED, L_TY_HEX, L_TY_CHAR, L_TY_STRING, L_TY_NONE}"
  by (simp add: l_parse_type_def)

text \<open>The qualifier and the type, at the place where the flags, the width and the precision end.\<close>

lemma qualifier_widen:
  assumes "skips f g" and "common_conv f"
  obtains q g' where "parse_qualifier g = (q, g')" "l_parse_qualifier g = (q, g')" "q \<noteq> QUAL_LONGLONG"
    "cur g' \<notin> {111, 102, 69, 101}" "cur g' \<noteq> 37" "g = g' \<or> (\<exists>c. g = c # g' \<and> c \<noteq> 37)"
proof (cases "g \<noteq> [] \<and> spec_char (hd g)")
  case True
  then obtain c h where c: "g = c # h" "spec_char c" by (cases g) auto
  then have "c \<notin> {108, 76, 104, 111, 102, 69, 101, 37}" by (auto simp: spec_char_def isdigit_def)
  then show ?thesis
    using c by (intro that [of QUAL_NORMAL g]) (auto simp: parse_qualifier_def l_parse_qualifier_def cur_def)
next
  case False
  then have "dropWhile spec_char f = g" unfolding skips_drop [OF assms(1)] by (cases g) auto
  then have t: "common_type (if cur g \<in> {108, 76, 104} then tl g else g)" using assms(2) by (simp add: common_conv_def)
  show ?thesis
  proof (cases "cur g \<in> {108, 76, 104}")
    case True
    then obtain c h where "g = c # h" "c \<in> {108, 76, 104}" by (cases g) (auto simp: cur_def)
    then show ?thesis
      using t by (intro that [of "fst (l_parse_qualifier g)" h])
        (auto simp: parse_qualifier_def l_parse_qualifier_def cur_def common_type_def)
  next
    case False
    then show ?thesis
      using t by (intro that [of QUAL_NORMAL g]) (auto simp: parse_qualifier_def l_parse_qualifier_def common_type_def)
  qed
qed

lemma parse_conversion_widen:
  assumes "common_conv f"
  shows "case l_parse_conversion f args of None \<Rightarrow> parse_conversion f (map widen args) = None
    | Some (fl, w, ty, a, f') \<Rightarrow> (\<exists>q. parse_conversion f (map widen args) = Some (fl, w, kernel_type ty, q, map widen a, f')
        \<and> q \<noteq> QUAL_LONGLONG)
      \<and> ty \<in> {L_TY_INT, L_TY_UNSIGNED, L_TY_HEX, L_TY_CHAR, L_TY_STRING, L_TY_NONE}
      \<and> (\<exists>pre. f = pre @ f' \<and> 37 \<notin> set pre) \<and> cur f' \<noteq> 37"
proof -
  obtain fl f1 where 1: "parse_flags 0 f = (fl, f1)" by fastforce
  show ?thesis
  proof (cases "l_parse_width fl f1 args")
    case None
    then show ?thesis using 1 by (simp add: l_parse_conversion_def parse_conversion_def parse_width_widen)
  next
    case (Some r)
    then obtain fl2 w f2 a2 where 2: "l_parse_width fl f1 args = Some (fl2, w, f2, a2)" by (cases r) auto
    show ?thesis
    proof (cases "l_parse_precision f2 a2")
      case None
      then show ?thesis
        using 1 2 by (simp add: l_parse_conversion_def parse_conversion_def parse_width_widen parse_precision_widen)
    next
      case (Some r)
      then obtain p g a3 where 3: "l_parse_precision f2 a2 = Some (p, g, a3)" by (cases r) auto
      have "skips f f1" using skips_flags [of f 0] by (simp add: 1)
      also have "skips f1 f2" using 2 by (rule skips_width)
      also have "skips f2 g" using 3 by (rule skips_precision)
      finally have sk: "skips f g" .
      moreover have "\<not> spec_char 37" by (simp add: spec_char_def isdigit_def)
      ultimately obtain pre where pre: "f = pre @ g" "37 \<notin> set pre" by (metis skips_def list_all_iff)
      obtain q g' where q: "parse_qualifier g = (q, g')" "l_parse_qualifier g = (q, g')" "q \<noteq> QUAL_LONGLONG"
        "cur g' \<notin> {111, 102, 69, 101}" "cur g' \<noteq> 37" "g = g' \<or> (\<exists>c. g = c # g' \<and> c \<noteq> 37)"
        using qualifier_widen [OF sk assms] .
      obtain fl3 w3 ty where t: "l_parse_type fl2 w (cur g') = (fl3, w3, ty)" by (cases "l_parse_type fl2 w (cur g')") auto
      have k: "parse_type fl2 w (cur g') = (fl3, w3, kernel_type ty)" using parse_type_widen [OF q(4), of fl2 w] t by simp
      have "ty \<in> {L_TY_INT, L_TY_UNSIGNED, L_TY_HEX, L_TY_CHAR, L_TY_STRING, L_TY_NONE}"
        using l_parse_type_codes [of "cur g'" fl2 w] q(4) t by simp
      moreover have "\<exists>pre. f = pre @ g' \<and> 37 \<notin> set pre"
      proof (cases "g = g'")
        case True
        then show ?thesis using pre by blast
      next
        case False
        then obtain c where "g = c # g'" "c \<noteq> 37" using q(6) by blast
        then have "f = (pre @ [c]) @ g' \<and> 37 \<notin> set (pre @ [c])" using pre by simp
        then show ?thesis by blast
      qed
      ultimately show ?thesis
        using 1 2 3 q(1-3,5) t k
        by (simp add: l_parse_conversion_def parse_conversion_def parse_width_widen parse_precision_widen)
    qed
  qed
qed

lemma common_format_skip: "37 \<notin> set pre \<Longrightarrow> common_format (pre @ f) = common_format f"
  by (induction pre) auto

lemma common_format_tl: "common_format f \<Longrightarrow> cur f \<noteq> 37 \<Longrightarrow> common_format (tl f)"
  by (cases f) (auto simp: cur_def)

lemma vsprintf_loop_widen:
  "common_format f \<Longrightarrow>
    vsprintk_loop f (map widen args) out = map_option (\<lambda>(o', r). (o', r - 1)) (l_vsprintf_loop f args out)"
proof (induction "length f" arbitrary: f args out rule: less_induct)
  case less
  show ?case
  proof (cases f)
    case Nil
    then show ?thesis by simp
  next
    case (Cons c g)
    note steps = vsprintk_loop.simps(2) l_vsprintf_loop.simps(2)
    consider (lit) "c \<noteq> 37" | (pct) "c = 37" "cur g = 37" | (conv) "c = 37" "cur g \<noteq> 37" by blast
    then show ?thesis
    proof cases
      case lit
      then show ?thesis using less Cons by (simp add: steps)
    next
      case pct
      then have "length (tl g) < length f" using Cons by simp
      then show ?thesis using less pct Cons by (simp add: steps)
    next
      case conv
      then have cc: "common_conv g" "common_format g" using less.prems Cons by simp_all
      show ?thesis
      proof (cases "l_parse_conversion g args")
        case None
        then show ?thesis using parse_conversion_widen [OF cc(1), of args] conv Cons by (simp add: steps)
      next
        case (Some r)
        obtain fl w ty a f' where r: "l_parse_conversion g args = Some (fl, w, ty, a, f')" using Some by (cases r) auto
        obtain q pre where k: "parse_conversion g (map widen args) = Some (fl, w, kernel_type ty, q, map widen a, f')"
          "q \<noteq> QUAL_LONGLONG" "ty \<in> {L_TY_INT, L_TY_UNSIGNED, L_TY_HEX, L_TY_CHAR, L_TY_STRING, L_TY_NONE}"
          "g = pre @ f'" "37 \<notin> set pre" "cur f' \<noteq> 37"
          using parse_conversion_widen [OF cc(1), of args] r by auto
        have "common_format f'" using cc(2) k(4) common_format_skip [OF k(5)] by simp
        then have cf: "common_format (tl f')" using k(6) by (rule common_format_tl)
        have len: "length (tl f') < length f" using k(4) Cons by simp
        show ?thesis
        proof (cases "l_convert ty fl a")
          case None
          then show ?thesis
            using conv Cons r k(1) convert_widen [OF k(2,3), of fl a] by (simp add: steps no_missing_type)
        next
          case (Some d)
          then obtain b o1 h off a' where d: "l_convert ty fl a = Some (b, o1, h, off, a')" by (cases d) auto
          then have kd: "convert (kernel_type ty) q fl (map widen a) = Some (b, o1, h, off, map widen a')"
            using convert_widen [OF k(2,3), of fl a] by simp
          show ?thesis
            using conv Cons r k(1) d kd emit_widen [OF k(3)] less.hyps [OF len cf]
            by (simp add: steps no_missing_type)
        qed
      qed
    qed
  qed
qed

text \<open>
  C33. The loader and the kernel print the same.  For every format without octal, floating-point and \<^verbatim>\<open>long long\<close>
  conversions and all arguments, \<^verbatim>\<open>vsprintf\<close> of the loader stores the text that \<^verbatim>\<open>vsprintk\<close> of the kernel stores for
  the same arguments in its wider slots, faults exactly when that does, and returns the length of the text where the
  kernel returns one less.
\<close>

theorem loader_prints_as_kernel:
  assumes "common_format format"
  shows "vsprintk format (map widen args) = map_option (\<lambda>(out, r). (out, r - 1)) (l_vsprintf format args)"
  by (simp add: vsprintk_def l_vsprintf_def vsprintf_loop_widen [OF assms])

text \<open>\<^verbatim>\<open>"Vector = %d, %#08X %s"\<close> with -3, 48879 and \<^verbatim>\<open>"ok"\<close>.\<close>

theorem loader_prints_as_kernel_witness:
  "vsprintk (map char_byte ''Vector = %d, %#08X %s'') (map widen [LInt (- 3), LInt 48879, LStr [111, 107]]) =
    map_option (\<lambda>(out, r). (out, r - 1))
      (l_vsprintf (map char_byte ''Vector = %d, %#08X %s'') [LInt (- 3), LInt 48879, LStr [111, 107]])"
proof (rule loader_prints_as_kernel)
  show "common_format (map char_byte ''Vector = %d, %#08X %s'')" by code_simp
qed

text \<open>The octal conversion of the kernel goes on into the hexadecimal one and takes a second argument.\<close>

lemma octal_differs:
  "l_vsprintf [37, 111] [LInt 8] = Some ([49, 48], 2)" "vsprintk [37, 111] (map widen [LInt 8]) = None"
  by code_simp+

section \<open>Printing to the screen\<close>

lemma l_printf_screen:
  "l_printf format args s = Some (res, s') \<Longrightarrow> \<exists>out. l_vsprintf format args = Some (out, res) \<and> length out < 256
    \<and> as_screen s' = puts (takeWhile (\<lambda>b. b \<noteq> 0) out) (as_screen s)"
  by (auto simp: l_printf_def as_screen_puts bind_iff split: if_splits)

end
