(* ===== verification/LInt.thy ===== *)
theory LInt
  imports LPrint Logging
begin

text \<open>
  The interrupts of the loader: its descriptor tables and the interrupt controller (\<^verbatim>\<open>loader/grub_loader/init.c\<close>), the
  handlers of lines and exceptions (\<^verbatim>\<open>int_handlers.c\<close>) and its log (\<^verbatim>\<open>logging.c\<close>).  Port writes are recorded as in
  \<open>Intr\<close>.  The lemmas show the gates, the masking of a line while its handler runs, and that the report of an exception
  is always printed.
\<close>

section \<open>Descriptor tables\<close>

text \<open>The selectors; \<open>GDT_ENTRY\<close> is that of the kernel.  The remaining entries of the table are zero.\<close>

definition l_init_gdt :: "nat \<rightharpoonup> desc_struct" where
  "l_init_gdt = [0 \<mapsto> GDT_ENTRY 0 0 0xFFFFF, 1 \<mapsto> GDT_ENTRY 0xC09A 0 0xFFFFF, 2 \<mapsto> GDT_ENTRY 0xC093 0 0xFFFFF,
     3 \<mapsto> GDT_ENTRY 0x0089 4096 103, 7 \<mapsto> GDT_ENTRY 0xA09A 0 0xFFFFF, 8 \<mapsto> GDT_ENTRY 0xC093 0 0xFFFFF]"

text \<open>A gate of the 32-bit table.\<close>

record l_gate_desc =
  lg_offset_low :: u16
  lg_segment :: u16
  lg_bits :: idt_bits
  lg_offset_middle :: u16

definition l_init_idt_desc :: "u16 \<Rightarrow> u8 \<Rightarrow> u8 \<Rightarrow> u32 \<Rightarrow> u8 \<Rightarrow> (nat \<Rightarrow> l_gate_desc) \<Rightarrow> (nat \<Rightarrow> l_gate_desc) option" where
  "l_init_idt_desc cs vector type handler privilege t =
     (if unat vector < IDT_SIZE
      then Some (t(unat vector := \<lparr>lg_offset_low = ucast (handler AND 0xFFFF), lg_segment = cs,
             lg_bits = \<lparr>gate_ist = 0, gate_zero = 0, gate_type = unat type mod 2 ^ 5, gate_dpl = unat privilege mod 2 ^ 2,
                        gate_p = True\<rparr>,
             lg_offset_middle = ucast (drop_bit 16 handler)\<rparr>))
      else None)"

text \<open>\<^verbatim>\<open>_int_idt_descs\<close>: the gates of the exceptions and, behind them, those of the lines.\<close>

primrec l_gates :: "u16 \<Rightarrow> (nat \<Rightarrow> u8) \<Rightarrow> (nat \<Rightarrow> u32) \<Rightarrow> nat list \<Rightarrow> (nat \<Rightarrow> l_gate_desc) \<Rightarrow> (nat \<Rightarrow> l_gate_desc) option" where
  "l_gates cs vector handler [] t = Some t"
| "l_gates cs vector handler (i # is) t = do {
     t \<leftarrow> l_init_idt_desc cs (vector i) (of_nat GATE_INTERRUPT) (handler i) 0 t;
     l_gates cs vector handler is t
   }"

definition l_init_idt_descs :: "u16 \<Rightarrow> (nat \<Rightarrow> u32) \<Rightarrow> (nat \<Rightarrow> u32) \<Rightarrow> (nat \<Rightarrow> l_gate_desc) \<Rightarrow> (nat \<Rightarrow> l_gate_desc) option" where
  "l_init_idt_descs cs exc irq t = do {
     t \<leftarrow> l_gates cs of_nat exc [0..<32] t;
     l_gates cs (\<lambda>i. 0x20 + of_nat i) irq [0..<16] t
   }"

definition l_gate_address :: "l_gate_desc \<Rightarrow> u32" where
  "l_gate_address g = ucast (lg_offset_low g) OR push_bit 16 (ucast (lg_offset_middle g))"

lemma l_gates_ok:
  assumes "\<forall>i\<in>set is. unat (vector i) < IDT_SIZE" and "inj_on (\<lambda>i. unat (vector i)) (set is)"
  shows "\<exists>t'. l_gates cs vector handler is t = Some t'
    \<and> (\<forall>i\<in>set is. l_gate_address (t' (unat (vector i))) = handler i \<and> lg_segment (t' (unat (vector i))) = cs
        \<and> gate_p (lg_bits (t' (unat (vector i)))) \<and> gate_dpl (lg_bits (t' (unat (vector i)))) = 0)
    \<and> (\<forall>v. v \<notin> (\<lambda>i. unat (vector i)) ` set is \<longrightarrow> t' v = t v)"
  using assms
proof (induction "is" arbitrary: t)
  case (Cons i "is")
  obtain g where g: "l_init_idt_desc cs (vector i) (of_nat GATE_INTERRUPT) (handler i) 0 t = Some (t(unat (vector i) := g))"
      "lg_segment g = cs" "gate_p (lg_bits g)" "gate_dpl (lg_bits g) = 0"
      "lg_offset_low g = ucast (handler i AND 0xFFFF)" "lg_offset_middle g = ucast (drop_bit 16 (handler i))"
    using Cons.prems(1) by (simp add: l_init_idt_desc_def)
  have "l_gate_address g = handler i"
  proof (rule bit_word_eqI)
    fix n
    assume "n < LENGTH(32)"
    have "bit (0xFFFF :: u32) n \<longleftrightarrow> n < 16"
      using bit_mask_iff [of 16 n, where 'a = "32 word"] \<open>n < LENGTH(32)\<close> by (simp add: mask_eq_exp_minus_1)
    then show "bit (l_gate_address g) n = bit (handler i) n"
      using \<open>n < LENGTH(32)\<close> by (auto simp: l_gate_address_def g(5,6) bit_simps)
  qed
  note addr = this
  define t1 where "t1 = t(unat (vector i) := g)"
  obtain t' where t': "l_gates cs vector handler is t1 = Some t'"
    "\<forall>j\<in>set is. l_gate_address (t' (unat (vector j))) = handler j \<and> lg_segment (t' (unat (vector j))) = cs
        \<and> gate_p (lg_bits (t' (unat (vector j)))) \<and> gate_dpl (lg_bits (t' (unat (vector j)))) = 0"
    "\<forall>v. v \<notin> (\<lambda>i. unat (vector i)) ` set is \<longrightarrow> t' v = t1 v"
    using Cons.IH [of t1] Cons.prems by (auto simp: inj_on_insert)
  have "t' (unat (vector i)) = g" if "i \<notin> set is"
    using t'(3) [rule_format, of "unat (vector i)"] Cons.prems(2) that by (auto simp: inj_on_def t1_def)
  moreover have "t' v = t v" if "v \<notin> (\<lambda>i. unat (vector i)) ` set (i # is)" for v
    using t'(3) that by (simp add: t1_def)
  ultimately show ?case
    using g(1-4) addr t'(1,2) by (cases "i \<in> set is") (auto simp flip: t1_def)
qed simp

lemma l_init_idt_descs_ok:
  "\<exists>t'. l_init_idt_descs cs exc irq t = Some t'
    \<and> (\<forall>v<32. l_gate_address (t' v) = exc v \<and> gate_p (lg_bits (t' v)) \<and> gate_dpl (lg_bits (t' v)) = 0)
    \<and> (\<forall>i<16. l_gate_address (t' (32 + i)) = irq i \<and> gate_p (lg_bits (t' (32 + i))) \<and> gate_dpl (lg_bits (t' (32 + i))) = 0)"
proof -
  have e: "\<forall>i\<in>set [0..<32]. unat (of_nat i :: u8) = i" by (simp add: unat_of_nat)
  have q: "\<forall>i\<in>set [0..<16]. unat (0x20 + of_nat i :: u8) = 32 + i"
    by (auto simp: unat_word_ariths unat_of_nat)
  obtain t1 where t1: "l_gates cs of_nat exc [0..<32] t = Some t1"
      "\<forall>i\<in>set [0..<32]. l_gate_address (t1 i) = exc i \<and> gate_p (lg_bits (t1 i)) \<and> gate_dpl (lg_bits (t1 i)) = 0"
    using l_gates_ok [of "[0..<32]" "of_nat" cs exc t] e by (auto simp: IDT_SIZE_def inj_on_def)
  obtain t2 where t2: "l_gates cs (\<lambda>i. 0x20 + of_nat i) irq [0..<16] t1 = Some t2"
      "\<forall>i\<in>set [0..<16]. l_gate_address (t2 (32 + i)) = irq i \<and> gate_p (lg_bits (t2 (32 + i))) \<and> gate_dpl (lg_bits (t2 (32 + i))) = 0"
      "\<forall>v. v \<notin> (\<lambda>i. 32 + i) ` set [0..<16] \<longrightarrow> t2 v = t1 v"
    using l_gates_ok [of "[0..<16]" "\<lambda>i. 0x20 + of_nat i" cs irq t1] q by (auto simp: IDT_SIZE_def inj_on_def)
  have "t2 v = t1 v" if "v < 32" for v using t2(3) that by auto
  then show ?thesis using t1 t2(1,2) by (auto simp: l_init_idt_descs_def)
qed

section \<open>Lines\<close>

definition l_init_pic :: "history \<Rightarrow> history" where
  "l_init_pic h =
     (let h = outb M_PIC_CONTROL 0x11 h;
          h = outb S_PIC_CONTROL 0x11 h;
          h = outb M_PIC_DATA INT_VECTOR_IRQ0 h;
          h = outb S_PIC_DATA INT_VECTOR_IRQ8 h;
          h = outb M_PIC_DATA 0x4 h;
          h = outb S_PIC_DATA 0x2 h;
          h = outb M_PIC_DATA 0x1 h;
          h = outb S_PIC_DATA 0x1 h;
          h = outb M_PIC_DATA 0xFF h
      in outb S_PIC_DATA 0xFF h)"

text \<open>
  A handler of a line acts on the state of the driver and on the ports.  The table of handlers has 16 entries, empty ones
  hold the null pointer.  Writing to the delay port only takes time.
\<close>

definition DELAY_PORT :: port where "DELAY_PORT = 0x80"

type_synonym 's l_irq_handler = "nat \<Rightarrow> 's \<times> history \<Rightarrow> ('s \<times> history) option"

definition l_register_irq_handler :: "nat \<Rightarrow> 's l_irq_handler \<Rightarrow> (nat \<rightharpoonup> 's l_irq_handler) \<Rightarrow> (nat \<rightharpoonup> 's l_irq_handler) option" where
  "l_register_irq_handler irq handler hs = (if irq < 16 then Some (hs(irq \<mapsto> handler)) else None)"

definition l_enable_irq :: "device \<Rightarrow> nat \<Rightarrow> history \<Rightarrow> history" where
  "l_enable_irq dev irq h =
     (if irq < 8 then outb M_PIC_DATA (dev h M_PIC_DATA AND NOT (push_bit irq 1)) h
      else outb S_PIC_DATA (dev h S_PIC_DATA AND NOT (push_bit (irq - 8) 1)) h)"

definition l_disable_irq :: "device \<Rightarrow> nat \<Rightarrow> history \<Rightarrow> history" where
  "l_disable_irq dev irq h =
     (if irq < 8 then outb M_PIC_DATA (dev h M_PIC_DATA OR push_bit irq 1) h
      else outb S_PIC_DATA (dev h S_PIC_DATA OR push_bit (irq - 8) 1) h)"

text \<open>\<^verbatim>\<open>irq_interrup_handler\<close>: both controllers get an end of interrupt, whatever the line.\<close>

definition l_end_of_interrupt :: "history \<Rightarrow> history" where
  "l_end_of_interrupt h = outb S_PIC_CONTROL 0x20 (outb DELAY_PORT 0 (outb M_PIC_CONTROL 0x20 h))"

definition l_irq_interrup_handler ::
    "device \<Rightarrow> (nat \<rightharpoonup> 's l_irq_handler) \<Rightarrow> nat \<Rightarrow> 's \<times> history \<Rightarrow> ('s \<times> history) option" where
  "l_irq_interrup_handler dev hs irq = (\<lambda>(s, h).
     if 16 \<le> irq then None
     else do {
       let h = l_disable_irq dev irq h;
       let h = l_end_of_interrupt h;
       (s, h) \<leftarrow> (case hs irq of None \<Rightarrow> Some (s, h) | Some handler \<Rightarrow> handler irq (s, h));
       Some (s, l_enable_irq dev irq h)
     })"

lemma l_plain: "plain_write M_PIC_CONTROL 0x20" "plain_write S_PIC_CONTROL 0x20" "plain_write DELAY_PORT v"
  by (simp_all add: plain_write_def pic_defs DELAY_PORT_def bit_numeral_rec)

lemma l_ready [simp]:
  "ready (l_init_pic h)"
  "ready h \<Longrightarrow> ready (l_enable_irq dev irq h)" "ready h \<Longrightarrow> ready (l_disable_irq dev irq h)"
  "ready h \<Longrightarrow> ready (l_end_of_interrupt h)"
  using ready_init_pic [of h]
  by (simp_all add: l_init_pic_def init_pic_def l_enable_irq_def l_disable_irq_def l_end_of_interrupt_def ready_outb l_plain)

lemma l_masked:
  assumes "masks_readable dev" and "irq < 16" and "i < 16" and "ready h"
  shows "masked dev (l_disable_irq dev irq h) i \<longleftrightarrow> i = irq \<or> masked dev h i"
    and "masked dev (l_enable_irq dev irq h) i \<longleftrightarrow> i \<noteq> irq \<and> masked dev h i"
    and "masked dev (l_end_of_interrupt h) i \<longleftrightarrow> masked dev h i"
  using assms(2-4)
  by (simp_all add: l_end_of_interrupt_def masked_plain [OF assms(1)] ready_outb l_plain)
    (auto simp: masked_def l_disable_irq_def l_enable_irq_def mask_read [OF assms(1)] pic_ports_distinct bit_simps)

text \<open>
  The handler runs with its line masked and both controllers acknowledged; when it leaves the masks alone, only its
  line is open afterwards.
\<close>

lemma l_irq_masked_while_handled:
  assumes dev: "masks_readable dev" and irq: "irq < 16" and h: "ready h" and hs: "hs irq = Some handler"
    and h1: "h1 = l_end_of_interrupt (l_disable_irq dev irq h)"
    and run: "handler irq (s, h1) = Some (s', h2)" "\<forall>i<16. masked dev h2 i = masked dev h1 i" "ready h2"
  shows "\<exists>h'. l_irq_interrup_handler dev hs irq (s, h) = Some (s', h') \<and> masked dev h1 irq
    \<and> (\<forall>i<16. masked dev h' i \<longleftrightarrow> i \<noteq> irq \<and> masked dev h i)"
proof -
  have "l_irq_interrup_handler dev hs irq (s, h) = Some (s', l_enable_irq dev irq h2)"
    using irq hs run(1) by (simp add: l_irq_interrup_handler_def h1)
  moreover have "masked dev h1 i \<longleftrightarrow> i = irq \<or> masked dev h i" if "i < 16" for i
    using l_masked [OF dev irq that] h by (simp add: h1)
  ultimately show ?thesis using l_masked(2) [OF dev irq] run(2,3) irq by auto
qed

section \<open>The log\<close>

text \<open>The loader logs the message as it is; \<^verbatim>\<open>_log\<close> runs with interrupts off.\<close>

definition l_log :: "u8 list \<Rightarrow> log_type \<Rightarrow> u8 list \<Rightarrow> history \<Rightarrow> history" where
  "l_log name ty msg h = put_log name (type_name ty) msg h"

definition l_linfo where "l_linfo name = l_log name INFO"
definition l_lwarn where "l_lwarn name = l_log name WARN"
definition l_lerror where "l_lerror name = l_log name ERROR"
definition l_lfatal where "l_lfatal name = l_log name FATAL"
definition l_ltips where "l_ltips name = l_log name TIPS"
definition l_lattention where "l_lattention name = l_log name ATTENTION"

lemma l_log_sent:
  "l_log name ty msg h = h @ sent ([40] @ name @ [41, 91] @ type_name ty @ [93] @ msg @ [10])"
  by (simp add: l_log_def put_log_sent)

section \<open>The report of an exception\<close>

definition l_exception_msg :: "string list" where
  "l_exception_msg = [
     ''[#DE] Divide by 0 error!'', ''[#DB] Single step'', ''[None] Non-maskable interrup!'', ''[#BP] Break point'',
     ''[#OF] Overflow!'', ''[#BR] Bound range exceeded!'', ''[#UD] Invalid Opcode(Undefined Opcode)!'',
     ''[#NM] Device not available(No math coprocessor)!'', ''[#DF] Double fault!'',
     ''[None] Coprocessor segment overrun(Should be reserved)!'', ''[#TS] Invalid TSS!'', ''[#NP] Segment not present!'',
     ''[#SS] Stack segment not present!'', ''[#GP] General protection fault!'', ''[#PF] Page fault!'',
     ''[Reserved] Reserved exception!'', ''[#MF] x87 floating-point exception(Math fault)!'', ''[#AC] Alignment check!'',
     ''[#MC] Machine check!'', ''[#XF] SIMD floating-point exception!'', ''[#VE] Virtualization exception!'',
     ''[#CP] Control protection exception!'', ''[Reserved] Reserved exception!'', ''[Reserved] Reserved exception!'',
     ''[Reserved] Reserved exception!'', ''[Reserved] Reserved exception!'', ''[Reserved] Reserved exception!'',
     ''[Reserved] Reserved exception!'', ''[#HV] Hypervisor injection exception!'', ''[#VC] VMM communication exception!'',
     ''[#SX] Security exception!'', ''[Reserved] Reserved exception!'']"

record l_registers =
  lr_eax :: u32
  lr_ebx :: u32
  lr_ecx :: u32
  lr_edx :: u32
  lr_esi :: u32
  lr_edi :: u32
  lr_esp :: u32
  lr_ebp :: u32
  lr_ds :: u32

text \<open>The calls of \<^verbatim>\<open>printf\<close>, with the bytes 10 and 9 for a line end and a tabulator; the registers are those at the calls.\<close>

definition l_report :: "nat \<Rightarrow> u32 \<Rightarrow> u32 \<Rightarrow> u32 \<Rightarrow> u32 \<Rightarrow> l_registers \<Rightarrow> (u8 list \<times> larg list) list" where
  "l_report vector errcode eip cs eflags r =
     [(literal ''Oops!There is a exception throwing!The followings are its information:'' @ [10], [])]
     @ (if vector < 32 then [(literal ''Message: %s'', [LStr (literal (l_exception_msg ! vector) @ [10])])] else [])
     @ [(literal ''Vector = %d'', [LInt (of_nat vector)])]
     @ (if errcode \<noteq> 0xFFFFFFFF then [([59, 9] @ literal ''Error code = %d'', [LInt errcode])] else [])
     @ [([10], []), ([10], []), (literal ''Registers:'' @ [10], []),
        (literal ''eax: %#08X ; ebx: %#08X'' @ [10], [LInt (lr_eax r), LInt (lr_ebx r)]),
        (literal ''ecx: %#08X ; edx: %#08X'' @ [10], [LInt (lr_ecx r), LInt (lr_edx r)]),
        (literal ''esi: %#08X ; edi: %#08X'' @ [10], [LInt (lr_esi r), LInt (lr_edi r)]),
        (literal ''esp: %#08X ; ebp: %#08X'' @ [10], [LInt (lr_esp r), LInt (lr_ebp r)]),
        (literal ''cs:  %#04X     ;  ds: %#04X'' @ [10], [LInt cs, LInt (lr_ds r)]),
        (literal ''eip: %#08X;eflags:%#08X'' @ [10], [LInt eip, LInt eflags])]"

primrec l_printf_all :: "(u8 list \<times> larg list) list \<Rightarrow> text_screen \<Rightarrow> text_screen option" where
  "l_printf_all [] s = Some s"
| "l_printf_all (l # ls) s = do {
     (_, s) \<leftarrow> l_printf (fst l) (snd l) s;
     l_printf_all ls s
   }"

text \<open>\<^verbatim>\<open>exception_handler\<close>; the colour is kept in a byte meanwhile.\<close>

definition l_exception_handler :: "nat \<Rightarrow> u32 \<Rightarrow> u32 \<Rightarrow> u32 \<Rightarrow> u32 \<Rightarrow> l_registers \<Rightarrow> text_screen \<Rightarrow> text_screen option" where
  "l_exception_handler vector errcode eip cs eflags r s = do {
     let old_print_color = ts_color s mod 256;
     s \<leftarrow> l_printf_all (l_report vector errcode eip cs eflags r) (l_clrscr (s\<lparr>ts_color := 0xFC\<rparr>));
     Some (s\<lparr>ts_color := old_print_color\<rparr>)
   }"

text \<open>A format and its arguments that print at most \<open>n\<close> characters.\<close>

definition l_prints :: "u8 list \<Rightarrow> larg list \<Rightarrow> nat \<Rightarrow> bool" where
  "l_prints format args n \<longleftrightarrow> (\<exists>out. l_vsprintf format args = Some (out, int (length out)) \<and> length out \<le> n)"

lemma prints_widen:
  assumes "common_format f" and "prints f (map widen args) n"
  shows "l_prints f args n"
proof -
  obtain out r where "vsprintk f (map widen args) = Some (out, r)" "length out \<le> n"
    using assms(2) by (auto simp: prints_def)
  moreover from this(1) have "r = int (length out) - 1" by (rule vsprintk_result)
  moreover have "vsprintk f (map widen args) = map_option (\<lambda>(out, r). (out, r - 1)) (l_vsprintf f args)"
    using vsprintf_loop_widen [OF assms(1)] by (simp add: vsprintk_def l_vsprintf_def)
  ultimately show ?thesis by (auto simp: l_prints_def)
qed

text \<open>\<^verbatim>\<open>%#08X\<close> and \<^verbatim>\<open>%#04X\<close>.\<close>

lemma prints_hex:
  assumes "prints post args n" and d: "d \<in> {52, 56}"
  shows "prints (37 # 35 # 48 # d # 88 # post) (IntArg w # args) (27 + n)"
proof -
  obtain body where body: "convert PRINT_TY_HEX QUAL_NORMAL (FLAG_FILL_ZERO OR FLAG_PREFIX OR FLAG_UPPER) (IntArg w # args) =
      Some (body, [], False, 0, args)" "length body \<le> 23"
    using convert_hex_total by blast
  have parse: "parse_conversion (35 # 48 # d # 88 # post) (IntArg w # args) =
      Some (FLAG_FILL_ZERO OR FLAG_PREFIX OR FLAG_UPPER, sint d - 48, PRINT_TY_HEX, QUAL_NORMAL, IntArg w # args, 88 # post)"
    using d by (auto simp: parse_conversion_def parse_width_def parse_precision_def parse_qualifier_def parse_type_def cur_def
        isdigit_def flag_defs Let_def wrap32_id)
  show ?thesis
    by (rule prints_conversion [OF parse _ body(1) _ assms(1)])
      (use d body(2) in \<open>auto simp: cur_def emit_length\<close>)
qed

lemma prints_text: "37 \<notin> set s \<Longrightarrow> prints s [] (length s)"
  by (simp add: prints_def vsprintk_plain)

lemma prints_append: "37 \<notin> set s \<Longrightarrow> prints f args n \<Longrightarrow> prints (s @ f) args (length s + n)"
  by (induction s) (auto intro: prints_character)

lemma hex_line:
  assumes f: "f = a @ 37 # 35 # 48 # d # 88 # b @ 37 # 35 # 48 # d # 88 # c" and "common_format f"
    and d: "d \<in> {52, 56}" and "37 \<notin> set a \<union> set b \<union> set c" and "length a + length b + length c \<le> 100"
  shows "l_prints f [LInt v, LInt w] 255"
proof (rule prints_widen [OF assms(2)])
  have "prints c [] (length c)" using assms(4) by (intro prints_text) simp
  from prints_append [OF _ prints_hex [OF this d, of "ucast w"], of b] assms(4)
  have "prints (b @ 37 # 35 # 48 # d # 88 # c) [IntArg (ucast w)] (length b + (27 + length c))" by simp
  from prints_append [OF _ prints_hex [OF this d, of "ucast v"], of a] assms(4)
  have "prints f [IntArg (ucast v), IntArg (ucast w)] (length a + (27 + (length b + (27 + length c))))" by (simp add: f)
  then have "prints f [IntArg (ucast v), IntArg (ucast w)] 255" by (rule prints_more) (use assms(5) in simp)
  then show "prints f (map widen [LInt v, LInt w]) 255" by simp
qed

lemma fits_line: "common_format f \<Longrightarrow> format_fits f (map widen args) 255 \<Longrightarrow> l_prints f args 255"
  by (rule prints_widen) (simp, rule fits_prints)

lemma l_exception_msg_short: "vector < 32 \<Longrightarrow> length (l_exception_msg ! vector) \<le> 60"
proof -
  have "\<forall>m\<in>set l_exception_msg. length m \<le> 60" "length l_exception_msg = 32" by (simp_all add: l_exception_msg_def)
  then show "vector < 32 \<Longrightarrow> length (l_exception_msg ! vector) \<le> 60" by simp
qed

lemma report_registers:
  "l_prints (literal ''eax: %#08X ; ebx: %#08X'' @ [10]) [LInt v, LInt w] 255"
  "l_prints (literal ''ecx: %#08X ; edx: %#08X'' @ [10]) [LInt v, LInt w] 255"
  "l_prints (literal ''esi: %#08X ; edi: %#08X'' @ [10]) [LInt v, LInt w] 255"
  "l_prints (literal ''esp: %#08X ; ebp: %#08X'' @ [10]) [LInt v, LInt w] 255"
  "l_prints (literal ''cs:  %#04X     ;  ds: %#04X'' @ [10]) [LInt v, LInt w] 255"
  "l_prints (literal ''eip: %#08X;eflags:%#08X'' @ [10]) [LInt v, LInt w] 255"
proof -
  show "l_prints (literal ''eax: %#08X ; ebx: %#08X'' @ [10]) [LInt v, LInt w] 255"
    by (rule hex_line [of _ "literal ''eax: ''" 56 "literal '' ; ebx: ''" "[10]"]; code_simp)
  show "l_prints (literal ''ecx: %#08X ; edx: %#08X'' @ [10]) [LInt v, LInt w] 255"
    by (rule hex_line [of _ "literal ''ecx: ''" 56 "literal '' ; edx: ''" "[10]"]; code_simp)
  show "l_prints (literal ''esi: %#08X ; edi: %#08X'' @ [10]) [LInt v, LInt w] 255"
    by (rule hex_line [of _ "literal ''esi: ''" 56 "literal '' ; edi: ''" "[10]"]; code_simp)
  show "l_prints (literal ''esp: %#08X ; ebp: %#08X'' @ [10]) [LInt v, LInt w] 255"
    by (rule hex_line [of _ "literal ''esp: ''" 56 "literal '' ; ebp: ''" "[10]"]; code_simp)
  show "l_prints (literal ''cs:  %#04X     ;  ds: %#04X'' @ [10]) [LInt v, LInt w] 255"
    by (rule hex_line [of _ "literal ''cs:  ''" 52 "literal ''     ;  ds: ''" "[10]"]; code_simp)
  show "l_prints (literal ''eip: %#08X;eflags:%#08X'' @ [10]) [LInt v, LInt w] 255"
    by (rule hex_line [of _ "literal ''eip: ''" 56 "literal '';eflags:''" "[10]"]; code_simp)
qed

lemma l_report_prints: "\<forall>l\<in>set (l_report vector errcode eip cs eflags r). l_prints (fst l) (snd l) 255"
proof -
  have "l_prints (literal ''Message: %s'') [LStr (literal (l_exception_msg ! vector) @ [10])] 255" if "vector < 32"
    using l_exception_msg_short [OF that] by (intro fits_line) (code_simp, simp add: literal_def)
  moreover have "l_prints (literal ''Vector = %d'') [LInt v] 255" "l_prints ([59, 9] @ literal ''Error code = %d'') [LInt v] 255"
    "l_prints (literal ''Oops!There is a exception throwing!The followings are its information:'' @ [10]) [] 255"
    "l_prints [10] [] 255" "l_prints (literal ''Registers:'' @ [10]) [] 255" for v
    by (rule fits_line; code_simp)+
  ultimately show ?thesis using report_registers by (auto simp: l_report_def)
qed

lemma l_puts_append: "l_puts (s @ t) x = l_puts t (l_puts s x)"
  by (induction s arbitrary: x) simp_all

lemma l_printf_ok: "l_prints f args 255 \<Longrightarrow> \<exists>t r. l_printf f args s = Some (r, l_puts t s)"
  by (auto simp: l_prints_def l_printf_def)

lemma l_printf_all_ok: "\<forall>l\<in>set ls. l_prints (fst l) (snd l) 255 \<Longrightarrow> \<exists>t. l_printf_all ls s = Some (l_puts t s)"
proof (induction ls arbitrary: s)
  case Nil
  show ?case by (intro exI [of _ "[]"]) simp
next
  case (Cons l ls)
  then obtain t r where "l_printf (fst l) (snd l) s = Some (r, l_puts t s)" using l_printf_ok by fastforce
  moreover obtain u where "l_printf_all ls (l_puts t s) = Some (l_puts u (l_puts t s))" using Cons by fastforce
  ultimately show ?case by (intro exI [of _ "t @ u"]) (simp add: l_puts_append)
qed

text \<open>
  The handler never faults: whatever the exception, the screen is cleared, the report is printed from its top left
  corner in red on white, and the low byte of the old colour is restored.
\<close>

lemma l_exception_reports:
  "\<exists>text. l_exception_handler vector errcode eip cs eflags r s =
    Some ((l_puts text (l_clrscr (s\<lparr>ts_color := 0xFC\<rparr>)))\<lparr>ts_color := ts_color s mod 256\<rparr>)"
proof -
  obtain t where "l_printf_all (l_report vector errcode eip cs eflags r) (l_clrscr (s\<lparr>ts_color := 0xFC\<rparr>)) =
      Some (l_puts t (l_clrscr (s\<lparr>ts_color := 0xFC\<rparr>)))"
    using l_printf_all_ok [OF l_report_prints] by blast
  then show ?thesis by (auto simp: l_exception_handler_def)
qed

end
