(* ===== verification/LibOut.thy ===== *)
theory LibOut
  imports Logging
begin

text \<open>
  The output of the module library: \<^verbatim>\<open>libs/libkmod/printf.c\<close> collects characters in a command for the terminal, and
  \<^verbatim>\<open>libs/libkmod/debug/logging.c\<close> logs under the name of the module.  Sending the command is commented out in the code,
  so flushing only empties the buffer.  The lemmas show what the command holds and that 64 characters are too many.
\<close>

section \<open>The command buffer\<close>

definition NUM_MAX_CHARACTERS :: nat where "NUM_MAX_CHARACTERS = 64"
definition TTY_WRITE_STR :: u64 where "TTY_WRITE_STR = 1"

text \<open>The static variables; \<^verbatim>\<open>command\<close> has \<open>64 * 2 + 2\<close> entries.\<close>

record lib_out =
  out_color :: int
  out_tty :: int
  command :: "u64 list"
  write_pos :: nat
  logging_name :: "u8 list"

definition get_print_color :: "lib_out \<Rightarrow> int" where "get_print_color s = out_color s"
definition set_print_color :: "int \<Rightarrow> lib_out \<Rightarrow> lib_out" where "set_print_color col s = s\<lparr>out_color := col\<rparr>"
definition get_tty :: "lib_out \<Rightarrow> int" where "get_tty s = out_tty s"
definition set_tty :: "int \<Rightarrow> lib_out \<Rightarrow> lib_out" where "set_tty t s = s\<lparr>out_tty := t\<rparr>"

text \<open>The requests to the terminal; their messages are commented out, so each does nothing and each query gives 0.\<close>

definition set_active_tty :: "int \<Rightarrow> lib_out \<Rightarrow> lib_out" where "set_active_tty t s = s"
definition lib_change_pos :: "int \<Rightarrow> int \<Rightarrow> lib_out \<Rightarrow> lib_out" where "lib_change_pos x y s = s"
definition lib_get_pos_x :: "lib_out \<Rightarrow> int" where "lib_get_pos_x s = 0"
definition lib_get_pos_y :: "lib_out \<Rightarrow> int" where "lib_get_pos_y s = 0"
definition lib_get_scroll_line :: "lib_out \<Rightarrow> int" where "lib_get_scroll_line s = 0"
definition lib_set_scroll_line :: "int \<Rightarrow> lib_out \<Rightarrow> lib_out" where "lib_set_scroll_line line s = s"
definition lib_clrscr :: "lib_out \<Rightarrow> lib_out" where "lib_clrscr s = s"

text \<open>A store into \<^verbatim>\<open>command\<close>; behind its end it is \<open>None\<close>.\<close>

definition put_command :: "nat \<Rightarrow> u64 \<Rightarrow> lib_out \<Rightarrow> lib_out option" where
  "put_command i v s = (if i < length (command s) then Some (s\<lparr>command := (command s)[i := v]\<rparr>) else None)"

definition flush_to_screen :: "lib_out \<Rightarrow> lib_out option" where
  "flush_to_screen s = do {
     s \<leftarrow> put_command 0 TTY_WRITE_STR s;
     s \<leftarrow> put_command 1 (of_int (out_tty s)) s;
     s \<leftarrow> put_command 2 (of_nat (write_pos s)) s;
     Some (s\<lparr>write_pos := 0\<rparr>)
   }"

definition put_buffered :: "u8 \<Rightarrow> lib_out \<Rightarrow> lib_out option" where
  "put_buffered ch s = do {
     s \<leftarrow> (if write_pos s \<ge> NUM_MAX_CHARACTERS then flush_to_screen s else Some s);
     s \<leftarrow> put_command (write_pos s * 2 + 3) (scast ch) s;
     s \<leftarrow> put_command (write_pos s * 2 + 4) (of_int (out_color s)) s;
     Some (s\<lparr>write_pos := write_pos s + 1\<rparr>)
   }"

definition lib_putchar :: "u8 \<Rightarrow> lib_out \<Rightarrow> lib_out option" where
  "lib_putchar ch s = do { s \<leftarrow> put_buffered ch s; flush_to_screen s }"

primrec put_string :: "u8 list \<Rightarrow> lib_out \<Rightarrow> lib_out option" where
  "put_string [] s = Some s"
| "put_string (ch # str) s = do { s \<leftarrow> put_buffered ch s; put_string str s }"

definition lib_puts :: "u8 list \<Rightarrow> lib_out \<Rightarrow> lib_out option" where
  "lib_puts str s = do { s \<leftarrow> put_string str s; flush_to_screen s }"

text \<open>
  \<^verbatim>\<open>vsprintf\<close> is the same routine, line for line, as \<^verbatim>\<open>vsprintk\<close> of the kernel.  \<^verbatim>\<open>printf\<close> has a buffer of 256 bytes.
\<close>

definition lib_vsprintf :: "u8 list \<Rightarrow> varg list \<Rightarrow> (u8 list \<times> int) option" where
  "lib_vsprintf format args = vsprintk_loop format args []"

definition lib_sprintf :: "u8 list \<Rightarrow> varg list \<Rightarrow> (u8 list \<times> int) option" where
  "lib_sprintf format args = lib_vsprintf format args"

definition lib_printf :: "u8 list \<Rightarrow> varg list \<Rightarrow> lib_out \<Rightarrow> (int \<times> lib_out) option" where
  "lib_printf format args s = do {
     (out, ret) \<leftarrow> lib_vsprintf format args;
     if length out < 256 then do {
       s \<leftarrow> lib_puts (takeWhile (\<lambda>b. b \<noteq> 0) out) s;
       Some (ret, s)
     } else None
   }"

section \<open>What the buffer holds\<close>

text \<open>The characters and colours of a text, as they lie in the command.\<close>

definition cells_of :: "int \<Rightarrow> u8 list \<Rightarrow> u64 list" where
  "cells_of col str = concat (map (\<lambda>ch. [scast ch, of_int col]) str)"

lemma length_cells_of [simp]: "length (cells_of col str) = 2 * length str"
  by (induction str) (simp_all add: cells_of_def)

lemma put_buffered_step:
  assumes "length (command s) = 130" and "write_pos s < 63"
  shows "put_buffered ch s = Some (s\<lparr>command := (command s)[write_pos s * 2 + 3 := scast ch, write_pos s * 2 + 4 := of_int (out_color s)],
    write_pos := write_pos s + 1\<rparr>)"
  using assms by (simp add: put_buffered_def put_command_def NUM_MAX_CHARACTERS_def)

lemma put_buffered_faults: "length (command s) = 130 \<Longrightarrow> write_pos s = 63 \<Longrightarrow> put_buffered ch s = None"
  by (simp add: put_buffered_def put_command_def NUM_MAX_CHARACTERS_def)

lemma put_string_ok:
  assumes "length (command s) = 130" and "write_pos s + length str \<le> 63"
  shows "\<exists>c. put_string str s = Some (s\<lparr>command := c, write_pos := write_pos s + length str\<rparr>) \<and> length c = 130
    \<and> take (2 * (write_pos s + length str)) (drop 3 c) =
      take (2 * write_pos s) (drop 3 (command s)) @ cells_of (out_color s) str"
  using assms
proof (induction str arbitrary: s)
  case Nil
  then show ?case by (auto simp: cells_of_def intro!: exI [of _ "command s"])
next
  case (Cons ch str)
  let ?c = "(command s)[write_pos s * 2 + 3 := scast ch, write_pos s * 2 + 4 := of_int (out_color s)]"
  let ?s = "s\<lparr>command := ?c, write_pos := write_pos s + 1\<rparr>"
  have w: "put_buffered ch s = Some ?s" using Cons.prems by (intro put_buffered_step) simp_all
  from Cons.IH [of ?s] Cons.prems obtain c where c: "put_string str ?s = Some (?s\<lparr>command := c, write_pos := write_pos ?s + length str\<rparr>)"
    "length c = 130" "take (2 * (write_pos ?s + length str)) (drop 3 c) =
      take (2 * write_pos ?s) (drop 3 ?c) @ cells_of (out_color s) str" by auto
  have "take (2 * (write_pos s + 1)) (drop 3 ?c) = take (2 * write_pos s) (drop 3 (command s)) @ [scast ch, of_int (out_color s)]"
    using Cons.prems by (intro nth_equalityI) (auto simp: nth_append nth_list_update less_Suc_eq)
  then show ?case using w c by (auto simp: cells_of_def)
qed

lemma put_string_faults:
  assumes "length (command s) = 130" and "write_pos s \<le> 63" and "63 < write_pos s + length str"
  shows "put_string str s = None"
  using assms
proof (induction str arbitrary: s)
  case (Cons ch str)
  show ?case
  proof (cases "write_pos s = 63")
    case True
    then show ?thesis using Cons.prems(1) by (simp add: put_buffered_faults)
  next
    case False
    then show ?thesis using Cons.prems Cons.IH by (simp add: put_buffered_step)
  qed
qed simp

lemma flush_ok:
  assumes "length (command s) = 130"
  shows "flush_to_screen s =
    Some (s\<lparr>command := (command s)[0 := TTY_WRITE_STR, 1 := of_int (out_tty s), 2 := of_nat (write_pos s)], write_pos := 0\<rparr>)"
  using assms by (simp add: flush_to_screen_def put_command_def)

lemma lib_puts_cases:
  assumes "length (command s) = 130" and "write_pos s = 0"
  shows "if length str \<le> 63 then \<exists>s'. lib_puts str s = Some s' \<and> write_pos s' = 0 \<and> length (command s') = 130
      \<and> take (3 + 2 * length str) (command s') =
        [TTY_WRITE_STR, of_int (out_tty s), of_nat (length str)] @ cells_of (out_color s) str
    else lib_puts str s = None"
proof (cases "length str \<le> 63")
  case True
  obtain c where c: "put_string str s = Some (s\<lparr>command := c, write_pos := length str\<rparr>)" "length c = 130"
    "take (2 * length str) (drop 3 c) = cells_of (out_color s) str"
    using put_string_ok [of s str] assms True by simp blast
  obtain x y z d where "c = x # y # z # d" using c(2) by (cases c; cases "tl c"; cases "tl (tl c)") auto
  moreover have "take (3 + k) (u # v # w # d) = u # v # w # take k d" for k and u v w :: u64 by (simp add: numeral_3_eq_3)
  ultimately show ?thesis using True c by (simp add: lib_puts_def flush_ok)
next
  case False
  then show ?thesis using assms put_string_faults [of s str] by (simp add: lib_puts_def)
qed

text \<open>
  The limit of \<^verbatim>\<open>puts\<close>.  From an empty buffer \<^verbatim>\<open>puts\<close> builds the command for the terminal, its length and then each
  character with the colour, for every text of at most 63 characters; of a longer text the 64th colour is stored behind
  the end of the array, although the buffer is meant for 64 characters.
\<close>

theorem puts_holds_63:
  assumes "length (command s) = 130" and "write_pos s = 0"
  shows "if length str \<le> 63 then \<exists>s'. lib_puts str s = Some s' \<and> write_pos s' = 0 \<and> length (command s') = 130
      \<and> take (3 + 2 * length str) (command s') =
        [TTY_WRITE_STR, of_int (out_tty s), of_nat (length str)] @ cells_of (out_color s) str
    else lib_puts str s = None"
  by (rule lib_puts_cases [OF assms])

definition example_out :: lib_out where
  "example_out = \<lparr>out_color = 7, out_tty = -1, command = replicate 130 0, write_pos = 0, logging_name = []\<rparr>"

theorem puts_holds_63_witness:
  "(\<exists>s'. lib_puts [104, 105] example_out = Some s' \<and> take 7 (command s') = [1, -1, 2, 104, 7, 105, 7])
   \<and> lib_puts (replicate 64 104) example_out = None"
  using puts_holds_63 [of example_out "[104, 105]"] puts_holds_63 [of example_out "replicate 64 104"]
  by (auto simp: example_out_def TTY_WRITE_STR_def cells_of_def)

section \<open>Logging under the name of the module\<close>

definition set_logging_name :: "u8 list \<Rightarrow> lib_out \<Rightarrow> lib_out" where
  "set_logging_name name s = s\<lparr>logging_name := name\<rparr>"

definition lib_put_log :: "u8 list \<Rightarrow> u8 list \<Rightarrow> lib_out \<Rightarrow> history \<Rightarrow> history" where
  "lib_put_log ty msg s h =
     (let h = write_serial_char 40 h;
          h = write_serial_str (logging_name s) h;
          h = write_serial_char 41 h;
          h = write_serial_char 91 h;
          h = write_serial_str ty h;
          h = write_serial_char 93 h;
          h = write_serial_str msg h
      in write_serial_char 10 h)"

definition lib_format_line :: "u8 list \<Rightarrow> varg list \<Rightarrow> u8 list option" where
  "lib_format_line fmt args = do {
     (out, _) \<leftarrow> lib_vsprintf fmt args;
     if length out < 512 then Some (takeWhile (\<lambda>b. b \<noteq> 0) out) else None
   }"

definition lib_log_typed :: "log_type \<Rightarrow> u8 list \<Rightarrow> varg list \<Rightarrow> lib_out \<Rightarrow> history \<Rightarrow> history option" where
  "lib_log_typed ty fmt args s h = map_option (\<lambda>msg. lib_put_log (type_name ty) msg s h) (lib_format_line fmt args)"

definition lib_log_named :: "u8 list \<Rightarrow> u8 list \<Rightarrow> varg list \<Rightarrow> lib_out \<Rightarrow> history \<Rightarrow> history option" where
  "lib_log_named ty fmt args s h = map_option (\<lambda>msg. lib_put_log ty msg s h) (lib_format_line fmt args)"

definition lib_linfo where "lib_linfo = lib_log_typed INFO"
definition lib_lwarn where "lib_lwarn = lib_log_typed WARN"
definition lib_lerror where "lib_lerror = lib_log_typed ERROR"
definition lib_lfatal where "lib_lfatal = lib_log_typed FATAL"
definition lib_ltips where "lib_ltips = lib_log_typed TIPS"
definition lib_lattention where "lib_lattention = lib_log_typed ATTENTION"

text \<open>A module logs what the kernel logs under the same name.\<close>

lemma lib_log_kernel: "lib_log_typed ty fmt args s h = log_typed (logging_name s) ty fmt args h"
  by (simp add: lib_log_typed_def log_typed_def lib_put_log_def put_log_def lib_format_line_def format_line_def
      lib_vsprintf_def vsprintk_def)

end
