(* ===== verification/Kernel.thy ===== *)
theory Kernel
  imports Elf Logging Screen LoaderFs Rpc
begin

text \<open>
  The start of the kernel, \<^verbatim>\<open>kernel/kernel.c\<close>: \<^verbatim>\<open>initialize\<close> and \<^verbatim>\<open>entry\<close>, which compose the components.  The memory part
  of \<^verbatim>\<open>initialize\<close> takes over from the page tables of the loader; the lemmas show that no translation changes then, and
  that \<^verbatim>\<open>init\<close> is the first thread to run.
\<close>

section \<open>Memory\<close>

definition SETUP_MOD_BASE :: nat where "SETUP_MOD_BASE = 64 * 1024"
definition SETUP_MOD_SIZE :: nat where "SETUP_MOD_SIZE = 320 * 1024"
definition KHEAP_PRE_BASE :: nat where "KHEAP_PRE_BASE = SETUP_MOD_BASE + SETUP_MOD_SIZE"
definition KHEAP_PRE_SIZE :: nat where "KHEAP_PRE_SIZE = 640 * 1024 - KHEAP_PRE_BASE"

text \<open>
  From \<^verbatim>\<open>init_kheap\<close> to \<^verbatim>\<open>__set_cr3\<close>; \<open>fb\<close>, \<open>w\<close> and \<open>h\<close> are the framebuffer and the size of the screen.  The results of
  \<^verbatim>\<open>set_mapping\<close> are ignored.
\<close>

definition init_memory :: "nat \<Rightarrow> nat \<Rightarrow> nat \<Rightarrow> int \<Rightarrow> int \<Rightarrow> vmem \<Rightarrow> (ptr \<times> vmem) option" where
  "init_memory fuel sz fb w h st = do {
     k \<leftarrow> init_kheap KHEAP_PRE_BASE KHEAP_PRE_SIZE (vm_km st);
     k \<leftarrow> init_pmm fuel (of_nat sz) 0x2000000 k;
     (pml4, st) \<leftarrow> create_pgd fuel (st\<lparr>vm_km := k\<rparr>);
     (_, st) \<leftarrow> set_mapping fuel pml4 NULL NULL (sz div MEMUNIT_SZ) True True st;
     st \<leftarrow> mapping_kernel fuel pml4 st;
     st \<leftarrow> (if sz \<le> fb
       then map_option snd (set_mapping fuel pml4 fb fb (nat (wrap32 (w * h * 3 * 2) div int MEMUNIT_SZ)) True True st)
       else Some st);
     Some (pml4, st)
   }"

section \<open>The free memory after \<^verbatim>\<open>init_pmm\<close>\<close>

text \<open>A memory of whole blocks of the highest order: no bit below it is set, so no two areas overlap.\<close>

lemma init_bits_whole: "init_bits alloc [0..<9] start (512 * k) kmm = Some (start, k, kmm)"
  by (simp add: upt_conv_Cons)

definition top_areas :: "ptr \<Rightarrow> nat \<Rightarrow> free_lists" where
  "top_areas start k = (\<lambda>_. [])(9 := map (\<lambda>i. start + i * PAGES 9) [0..<k])"

lemma return_max_whole:
  assumes "pmm_inv kmm xs A" and "k \<le> slots xs"
  shows "\<exists>kmm' ys. return_max (kmalloc (Suc n)) k start kmm = Some kmm'
    \<and> pmm_inv kmm' ys (A(9 := A 9 @ map (\<lambda>i. start + i * PAGES 9) [0..<k])) \<and> slots xs = slots ys + k"
  using assms
proof (induction k arbitrary: start kmm xs A)
  case 0
  then show ?case by (auto simp: fun_upd_idem)
next
  case (Suc k)
  then have "0 < slots xs" by simp
  then obtain kmm1 a ys where s: "add_free_area (kmalloc (Suc n)) MAX_ORDER start kmm = Some kmm1"
      "pmm_inv kmm1 ys (spec_add (MAX_ORDER, start) A)" "Suc (slots ys) = slots xs"
    using add_free_area_slot [OF Suc.prems(1)] by metis
  have "k \<le> slots ys" using Suc.prems(2) s(3) by simp
  from Suc.IH [OF s(2) this, of "start + PAGES MAX_ORDER"] obtain kmm' zs where
    r: "return_max (kmalloc (Suc n)) k (start + PAGES MAX_ORDER) kmm1 = Some kmm'"
      "pmm_inv kmm' zs ((spec_add (MAX_ORDER, start) A)(9 := spec_add (MAX_ORDER, start) A 9 @
         map (\<lambda>i. start + PAGES MAX_ORDER + i * PAGES 9) [0..<k]))" "slots ys = slots zs + k" by blast
  have "map (\<lambda>i. start + i * PAGES 9) [0..<Suc k] = start # map (\<lambda>i. start + PAGES 9 + i * PAGES 9) [0..<k]"
    by (simp add: upt_conv_Cons map_Suc_upt [symmetric] del: upt_Suc)
  then have "(spec_add (MAX_ORDER, start) A)(9 := spec_add (MAX_ORDER, start) A 9 @
      map (\<lambda>i. start + PAGES MAX_ORDER + i * PAGES 9) [0..<k]) = A(9 := A 9 @ map (\<lambda>i. start + i * PAGES 9) [0..<Suc k])"
    by (simp add: spec_add_def MAX_ORDER_def fun_eq_iff del: upt_Suc)
  note lists = this
  show ?case
  proof (intro exI conjI)
    show "pmm_inv kmm' zs (A(9 := A 9 @ map (\<lambda>i. start + i * PAGES 9) [0..<Suc k]))"
      using r(2) unfolding lists .
    show "return_max (kmalloc (Suc n)) (Suc k) start kmm = Some kmm'" using s(1) r(1) by simp
    show "slots xs = slots zs + Suc k" using s(3) r(3) by simp
  qed
qed

lemma top_areas_blocks: "free_blocks (top_areas start k) = (\<lambda>i. (9, start + i * PAGES 9)) ` {..<k}"
  by (auto simp: free_blocks_def top_areas_def split: if_splits)

lemma top_areas_free: "free_mem (top_areas start k) = {start..<start + k * PAGES 9}"
proof -
  have "free_mem (top_areas start k) = (\<Union>i<k. {start + i * PAGES 9..<start + i * PAGES 9 + PAGES 9})"
    by (simp add: free_mem_def top_areas_blocks block_def)
  also have "\<dots> = {start..<start + k * PAGES 9}"
  proof (induction k)
    case (Suc k)
    then show ?case by (auto simp: lessThan_Suc)
  qed simp
  finally show ?thesis .
qed

lemma top_blocks_apart:
  assumes "i < j"
  shows "block (9, start + i * PAGES 9) \<inter> block (9, start + j * PAGES 9) = {}"
proof -
  have "Suc i * PAGES 9 \<le> j * PAGES 9" using assms by (intro mult_le_mono1) simp
  then show ?thesis by (auto simp: block_def)
qed

lemma top_areas_ok:
  assumes "MEMUNIT_SZ dvd start"
  shows "no_overlap (top_areas start k)" and "aligned (top_areas start k)" and "npages (top_areas start k) = 512 * k"
proof -
  have "block x \<inter> block y = {}" if x: "x \<in> free_blocks (top_areas start k)" "y \<in> free_blocks (top_areas start k)" "x \<noteq> y" for x y
  proof -
    obtain i j where ij: "x = (9, start + i * PAGES 9)" "y = (9, start + j * PAGES 9)"
      using x(1,2) unfolding top_areas_blocks by blast
    then have "i \<noteq> j" using x(3) by blast
    then show ?thesis
      using top_blocks_apart [of i j start] top_blocks_apart [of j i start] ij by (cases i j rule: linorder_cases) blast+
  qed
  moreover have "distinct (map (\<lambda>i. start + i * PAGES 9) [0..<k])"
    by (simp add: distinct_map inj_on_def PAGES_def)
  then have "distinct (top_areas start k i)" for i by (simp add: top_areas_def)
  ultimately show "no_overlap (top_areas start k)" unfolding no_overlap_def by blast
  have "MEMUNIT_SZ dvd PAGES 9" by (simp only: PAGES_def dvd_triv_left)
  then show "aligned (top_areas start k)"
    using assms by (auto simp only: aligned_def top_areas_blocks dvd_add dvd_mult)
  show "npages (top_areas start k) = 512 * k"
    using npages_upd [of 9 "\<lambda>_. []" "map (\<lambda>i. start + i * PAGES 9) [0..<k]"]
    by (simp add: top_areas_def npages_def [of "\<lambda>_. []"])
qed

section \<open>Starting the memory\<close>

lemma init_kheap_ok:
  assumes "list_head kmm = (\<lambda>_. NULL)" and "list_tail kmm = (\<lambda>_. NULL)"
  shows "\<exists>kmm'. init_kheap KHEAP_PRE_BASE KHEAP_PRE_SIZE kmm = Some kmm'
    \<and> pmm_inv kmm' [(KHEAP_PRE_BASE, KHEAP_PRE_SIZE, False)] (\<lambda>_. [])"
  using assms
  by (auto simp: init_kheap_def pmm_inv_def heap_ok_def layout_def nodes_ok_def nodes_in_def KHEAP_PRE_BASE_def
      KHEAP_PRE_SIZE_def SETUP_MOD_BASE_def SETUP_MOD_SIZE_def intro!: exI [of _ "\<lambda>_. []"])

lemma whole_pages:
  assumes "16 \<le> m" and "m < 2 ^ 40"
  shows "unat (TO2POW (of_nat (m * PAGES 9)) 4096 div 4096 - TO2POW 0x2000000 4096 div 4096) = 512 * (m - 16)"
proof -
  let ?w = "of_nat (m * PAGES 9) :: u64"
  have sz: "m * PAGES 9 = 512 * m * 4096" by (simp add: PAGES_def)
  have w: "unat ?w = 512 * m * 4096" unfolding sz using assms(2) by (simp only: unat_of_nat) simp
  have "unat (TO2POW ?w (2 ^ 12)) = (512 * m * 4096 + 2 ^ 12 - 1) div 2 ^ 12 * 2 ^ 12"
    unfolding w [symmetric] by (rule unat_TO2POW) (use w assms(2) in simp)
  also have "\<dots> = 512 * m * 4096" by simp
  finally have "unat (TO2POW ?w 4096 div 4096) = 512 * m" by (simp add: unat_div)
  moreover have "TO2POW 0x2000000 4096 div 4096 = (8192 :: u64)" by (simp add: TO2POW_def)
  moreover have "(8192 :: u64) \<le> TO2POW ?w 4096 div 4096"
    using calculation(1) assms(1) by (simp add: word_le_nat_alt)
  ultimately show ?thesis by (simp add: unat_sub)
qed

lemma init_pmm_whole:
  assumes inv: "pmm_inv kmm xs (\<lambda>_. [])" and m: "16 \<le> m" "m < 2 ^ 40" and room: "m - 16 \<le> slots xs"
  shows "\<exists>kmm' ys. init_pmm (Suc n) (of_nat (m * PAGES 9)) 0x2000000 kmm = Some kmm'
    \<and> pmm_inv kmm' ys (top_areas 0x2000000 (m - 16)) \<and> slots xs = slots ys + (m - 16)"
proof -
  obtain kmm' ys where r: "return_max (kmalloc (Suc n)) (m - 16) 0x2000000 kmm = Some kmm'"
      "pmm_inv kmm' ys ((\<lambda>_. [])(9 := [] @ map (\<lambda>i. 0x2000000 + i * PAGES 9) [0..<m - 16]))"
      "slots xs = slots ys + (m - 16)"
    using return_max_whole [OF inv room, where n = n and start = "0x2000000"] by auto
  have "unat (0x2000000 :: u64) = 0x2000000" by simp
  then have "init_pmm (Suc n) (of_nat (m * PAGES 9)) 0x2000000 kmm = Some kmm'"
    using r(1) whole_pages [OF m] init_bits_whole [of "kmalloc (Suc n)" "0x2000000" "m - 16" kmm]
    by (simp add: init_pmm_def MAX_ORDER_def Let_def del: upt_rec_numeral of_nat_mult)
  then show ?thesis using r(2,3) by (auto simp: top_areas_def)
qed

lemma init_memory_maps:
  assumes boot: "list_head (vm_km st) = (\<lambda>_. NULL)" "list_tail (vm_km st) = (\<lambda>_. NULL)"
    and m: "17 \<le> m" "m \<le> 128" and fb: "fb < m * 0x200000"
  shows "\<exists>pml4 st' xs A. init_memory (Suc n) (m * 0x200000) fb w h st = Some (pml4, st') \<and> vm_inv st' xs A pml4
    \<and> free_mem A \<subseteq> {0x2000000..<m * 0x200000}
    \<and> (\<forall>v < 2 ^ 48. get_physical_address (vm_tables st') pml4 v = (if v < m * 0x200000 then v else NULL))"
proof -
  have P: "PAGES 9 = 0x200000" by (simp add: PAGES_def)
  let ?xs = "[(KHEAP_PRE_BASE, KHEAP_PRE_SIZE, False)]"
  have room: "slots ?xs = 4096"
    by (simp add: KHEAP_PRE_BASE_def KHEAP_PRE_SIZE_def SETUP_MOD_BASE_def SETUP_MOD_SIZE_def)
  obtain k where k: "init_kheap KHEAP_PRE_BASE KHEAP_PRE_SIZE (vm_km st) = Some k" "pmm_inv k ?xs (\<lambda>_. [])"
    using init_kheap_ok [OF boot] by blast
  let ?A = "top_areas 0x2000000 (m - 16)"
  have "m - 16 \<le> slots ?xs" "m < 2 ^ 40" "16 \<le> m" using room m by simp_all
  from init_pmm_whole [OF k(2) this(3,2,1), of n] obtain k1 ys where
    k1: "init_pmm (Suc n) (of_nat (m * 0x200000)) 0x2000000 k = Some k1" "pmm_inv k1 ys ?A" "slots ys + (m - 16) = 4096"
    unfolding room P by auto
  have "MEMUNIT_SZ dvd (0x2000000 :: nat)" by simp
  note A = top_areas_ok [OF this, of "m - 16"]
  have top: "0x2000000 + (m - 16) * PAGES 9 = m * 0x200000" using m(1) by (simp add: P diff_mult_distrib)
  then have free: "free_mem ?A = {0x2000000..<m * 0x200000}" unfolding top_areas_free by simp
  then have "free_mem ?A \<subseteq> {MEMUNIT_SZ..<2 ^ 39}" using m(2) by auto
  moreover have "9 \<le> slots ys" "0 < npages ?A" using k1(3) m A(3) by simp_all
  ultimately obtain pml4 s1 y1 A1 where
    s1: "create_pgd (Suc n) (st\<lparr>vm_km := k1\<rparr>) = Some (pml4, s1)" "vm_inv s1 y1 A1 pml4" "slots ys \<le> slots y1 + 9"
      "npages ?A = Suc (npages A1)" "free_mem A1 \<subseteq> free_mem ?A"
      "\<forall>v. get_physical_address (vm_tables s1) pml4 v = NULL"
    using create_pgd_ok [of "st\<lparr>vm_km := k1\<rparr>" ys ?A n] k1(2) A(1,2) by auto
  let ?p = "512 * m"
  have leaf: "missing s1 pml4 (0 div MEMUNIT_SZ + 0) ?p \<le> m"
    using missing_le [of s1 pml4 0 ?p] m(1) by (simp add: leaf_tables_def)
  have r: "27 * missing s1 pml4 (0 div MEMUNIT_SZ + 0) ?p \<le> slots y1"
      "3 * missing s1 pml4 (0 div MEMUNIT_SZ + 0) ?p \<le> npages A1"
    using leaf s1(3,4) k1(3) A(3) m by linarith+
  have hi: "0 + (0 + ?p) * MEMUNIT_SZ \<le> 2 ^ 39" "MEMUNIT_SZ dvd 0" "0 + (0 + ?p) * MEMUNIT_SZ \<le> 2 ^ 48"
      "0 + ?p \<le> 2 ^ 19"
    using m(2) by simp_all
  from set_mapping_loop_ok [OF s1(2) r hi, of n True True] obtain s2 y2 A2 where
    s2: "set_mapping_loop (Suc n) pml4 0 0 True True [0..<0 + ?p] s1 = Some (True, s2)" "vm_inv s2 y2 A2 pml4"
      "\<forall>v < 2 ^ 48. translate (vm_tables s2) pml4 v =
        (if 0 div MEMUNIT_SZ + 0 \<le> v div MEMUNIT_SZ \<and> v div MEMUNIT_SZ < 0 div MEMUNIT_SZ + 0 + ?p
         then Some ((0 div MEMUNIT_SZ + (v div MEMUNIT_SZ - 0 div MEMUNIT_SZ)) * MEMUNIT_SZ + v mod MEMUNIT_SZ)
         else translate (vm_tables s1) pml4 v)" "free_mem A2 \<subseteq> free_mem A1"
      "slots y1 \<le> slots y2 + 27 * missing s1 pml4 (0 div MEMUNIT_SZ + 0) ?p"
      "npages A1 \<le> npages A2 + 3 * missing s1 pml4 (0 div MEMUNIT_SZ + 0) ?p"
    unfolding tables_frame_def by blast
  have "432 \<le> slots y2" "48 \<le> npages A2"
    using leaf s2(5,6) s1(3,4) k1(3) A(3) m by linarith+
  from mapping_kernel_ok [OF s2(2) this, of n] obtain s3 y3 A3 where
    s3: "mapping_kernel (Suc n) pml4 s2 = Some s3" "vm_inv s3 y3 A3 pml4" "free_mem A3 \<subseteq> free_mem A2"
      "\<forall>v < 2 ^ 48. get_physical_address (vm_tables s3) pml4 v =
        (if v < RESERVED_LIMIT then v else get_physical_address (vm_tables s2) pml4 v)" by blast
  have "m * 0x200000 div MEMUNIT_SZ = ?p" by simp
  then have "init_memory (Suc n) (m * 0x200000) fb w h st = Some (pml4, s3)"
    using k(1) k1(1) s1(1) s2(1) s3(1) fb
    by (simp add: init_memory_def set_mapping_def del: of_nat_mult)
  moreover have "get_physical_address (vm_tables s3) pml4 v = (if v < m * 0x200000 then v else NULL)" if v: "v < 2 ^ 48" for v
  proof -
    have "v div MEMUNIT_SZ < ?p \<longleftrightarrow> v < m * 0x200000" by (simp add: div_less_iff_less_mult mult.commute)
    then have "get_physical_address (vm_tables s2) pml4 v = (if v < m * 0x200000 then v else NULL)"
      using s2(3) [rule_format, OF v] s1(6) by (simp add: get_physical_address_translate)
    moreover have "RESERVED_LIMIT \<le> m * 0x200000" using m(1) by (simp add: RESERVED_LIMIT_def)
    ultimately show ?thesis using s3(4) [rule_format, OF v] by simp
  qed
  moreover have "free_mem A3 \<subseteq> {0x2000000..<m * 0x200000}" using s3(3) s2(4) s1(5) free by blast
  ultimately show ?thesis using s3(2) by blast
qed

text \<open>
  C9. The kernel maps its memory onto itself: for a memory of \<open>m\<close> blocks of 2 MiB, from 34 MiB to 256 MiB, and a
  framebuffer inside it, the memory part of \<^verbatim>\<open>initialize\<close> succeeds, every address of the memory translates to itself in
  the directory of the kernel and no other address is mapped, and the pages that the allocator can hand out lie above
  the reserved 32 MiB.
\<close>

theorem init_memory_identity:
  assumes "list_head (vm_km st) = (\<lambda>_. NULL)" "list_tail (vm_km st) = (\<lambda>_. NULL)"
    and "17 \<le> m" "m \<le> 128" and "fb < m * 0x200000"
  shows "\<exists>pml4 st' xs A. init_memory (Suc n) (m * 0x200000) fb w h st = Some (pml4, st') \<and> vm_inv st' xs A pml4
    \<and> free_mem A \<subseteq> {0x2000000..<m * 0x200000}
    \<and> (\<forall>v < 2 ^ 48. get_physical_address (vm_tables st') pml4 v = (if v < m * 0x200000 then v else NULL))"
  by (rule init_memory_maps [OF assms])

text \<open>64 MiB and the text screen.\<close>

definition example_bios :: vmem where
  "example_bios = \<lparr>vm_km = example_kmem, vm_tables = (\<lambda>_ _. zero_entry), vm_bytes = (\<lambda>_. 0)\<rparr>"

theorem init_memory_identity_witness:
  "\<exists>pml4 st'. init_memory 1 0x4000000 0xB8000 80 25 example_bios = Some (pml4, st')
    \<and> get_physical_address (vm_tables st') pml4 0x3FFFFFF = 0x3FFFFFF
    \<and> get_physical_address (vm_tables st') pml4 0x4000000 = NULL"
proof -
  have "list_head (vm_km example_bios) = (\<lambda>_. NULL)" "list_tail (vm_km example_bios) = (\<lambda>_. NULL)"
    by (simp_all add: example_bios_def example_kmem_def)
  from init_memory_identity [OF this, of 32 "0xB8000" 0 80 25] obtain pml4 st' where
    r: "init_memory (Suc 0) (32 * 0x200000) 0xB8000 80 25 example_bios = Some (pml4, st')"
      "\<forall>v < 2 ^ 48. get_physical_address (vm_tables st') pml4 v = (if v < 32 * 0x200000 then v else NULL)" by auto
  show ?thesis
    using r(1) r(2) [rule_format, of "0x3FFFFFF"] r(2) [rule_format, of "0x4000000"] by (intro exI [of _ pml4] exI [of _ st']) simp
qed

section \<open>Taking over from the loader\<close>

text \<open>
  C8. No translation changes when the kernel replaces the page tables of the loader.  When the memory map that GRUB passes
  ends 128 KiB below \<open>n\<close> blocks of 2 MiB, \<open>n\<close> from 17 to 128, and the kernel is loaded, the loader enters the kernel with
  arguments whose magic number the kernel accepts; with the memory size in these arguments the memory part of
  \<^verbatim>\<open>initialize\<close> succeeds, and every virtual address translates through the directory that the kernel then loads as
  through the one the loader has passed.
\<close>

theorem boot_keeps_translation:
  assumes tags: "tag_chain m ((tag + 8) mod 2 ^ 32) ts" "mmaps m ts = [t]" "mmap_ok m t"
    and mem: "Max (insert 0 (area_end ` set (available_areas m t))) + 0x20000 = n * 0x200000" "17 \<le> n" "n \<le> 128"
    and loaded: "status result"
    and boot: "list_head (vm_km st) = (\<lambda>_. NULL)" "list_tail (vm_km st) = (\<lambda>_. NULL)"
  shows "\<exists>r ho pml4 st'. parse_args False m tag r0 = Some r
    \<and> enter_longmode result (memsz r) (is_graphic r) (Boot.screen_width r) (Boot.screen_height r) (framebuffer r) m' T = Some ho
    \<and> ba_magic (ho_args ho) = BOOT_ARGS_MAGIC
    \<and> init_memory (Suc k) (ba_memory_size (ho_args ho)) (ba_framebuffer (ho_args ho)) (ba_screen_width (ho_args ho))
        (ba_screen_height (ho_args ho)) st = Some (pml4, st')
    \<and> (\<forall>v < 2 ^ 48. get_physical_address (vm_tables st') pml4 v =
        get_physical_address (ho_tables ho) (ba_page_start (ho_args ho)) v)"
proof -
  let ?sz = "n * 0x200000"
  obtain r where r: "parse_args False m tag r0 = Some r" "memsz r = ?sz" "framebuffer r = 0xB8000"
      "Boot.screen_width r = 80" "Boot.screen_height r = 25"
    using parse_args_tags [OF tags, of False r0] mem(1) by auto
  have sz: "0 < ?sz" "?sz \<le> 2 ^ 39" "?sz < 2 ^ 32" "(0xB8000 :: nat) < ?sz" using mem(2,3) by simp_all
  obtain lim T' where T': "setup_paging ?sz T = Some (PAGE_ADDRESS, lim, T')"
    using setup_paging_eq(8) [OF sz(1,2)] by blast
  have loader: "get_physical_address T' PAGE_ADDRESS v = (if v < ?sz then v else NULL)" if "v < 2 ^ 48" for v
  proof -
    have "v div MEMUNIT_SZ * MEMUNIT_SZ < ?sz \<longleftrightarrow> v div MEMUNIT_SZ < n * 512" by (simp add: mult.commute)
    also have "\<dots> \<longleftrightarrow> v < ?sz" by (simp add: div_less_iff_less_mult mult.commute)
    finally show ?thesis using setup_paging_translation [OF sz(1,2) that, of T] T' by simp
  qed
  have "0xB8000 < n * 0x200000" using mem(2) by simp
  from init_memory_maps [OF boot mem(2,3) this, of k 80 25] obtain pml4 st' where
    i: "init_memory (Suc k) ?sz 0xB8000 80 25 st = Some (pml4, st')"
      "\<forall>v < 2 ^ 48. get_physical_address (vm_tables st') pml4 v = (if v < ?sz then v else NULL)" by blast
  have "?sz mod 2 ^ 32 = ?sz" using sz(3) by (rule mod_less)
  then show ?thesis
    using r loaded T' i loader
    by (auto simp: enter_longmode_def init_boot_args_def pointer_to_qword_def PAGE_ADDRESS_def simp del: mult_mod_right)
qed

text \<open>A memory map with one area from 1 MiB to 128 KiB below 128 MiB.\<close>

definition boot_tags :: memory where
  "boot_tags = example_tags(4130 := 238)"

theorem boot_keeps_translation_witness:
  "\<exists>r ho pml4 st'. parse_args False boot_tags 4096
      \<lparr>memsz = 0, is_graphic = True, screen_width = 0, screen_height = 0, framebuffer = 0\<rparr> = Some r
    \<and> enter_longmode (no_kernel\<lparr>status := True\<rparr>) (memsz r) (is_graphic r) (Boot.screen_width r) (Boot.screen_height r)
        (framebuffer r) boot_tags (\<lambda>_ _. zero_entry) = Some ho
    \<and> init_memory 1 (ba_memory_size (ho_args ho)) (ba_framebuffer (ho_args ho)) (ba_screen_width (ho_args ho))
        (ba_screen_height (ho_args ho)) example_bios = Some (pml4, st')
    \<and> get_physical_address (vm_tables st') pml4 4096 =
        get_physical_address (ho_tables ho) (ba_page_start (ho_args ho)) 4096"
proof -
  have tag: "read_tag boot_tags 4104 = \<lparr>mt_type = 6, mt_size = 40\<rparr>" "read_tag boot_tags 4144 = \<lparr>mt_type = 0, mt_size = 0\<rparr>"
    "read_le boot_tags 4112 4 = 24" "read_entry boot_tags 4104 0 = \<lparr>me_addr = 0x100000, me_len = 0x7EE0000, me_type = 1\<rparr>"
    by (simp_all add: read_tag_def read_entry_def read_le_def boot_tags_def example_tags_def Let_def)
  have c: "tag_chain boot_tags ((4096 + 8) mod 2 ^ 32) [4104]" "mmaps boot_tags [4104] = [4104]" "mmap_ok boot_tags 4104"
    by (simp_all add: tag_types tag next_tag_def mmaps_def mmap_ok_def)
  have m: "Max (insert 0 (area_end ` set (available_areas boot_tags 4104))) + 0x20000 = 64 * 0x200000"
    by (simp add: available_areas_def tag MULTIBOOT_MEMORY_AVAILABLE_def area_end_def)
  have l: "status (no_kernel\<lparr>status := True\<rparr>)" by simp
  have b: "list_head (vm_km example_bios) = (\<lambda>_. NULL)" "list_tail (vm_km example_bios) = (\<lambda>_. NULL)"
    by (simp_all add: example_bios_def example_kmem_def)
  show ?thesis
    using boot_keeps_translation [OF c m _ _ l b,
        of "\<lparr>memsz = 0, is_graphic = True, screen_width = 0, screen_height = 0, framebuffer = 0\<rparr>" boot_tags "\<lambda>_ _. zero_entry" 0]
    by fastforce
qed

section \<open>The first task\<close>

definition RING0_STACKTOP :: nat where "RING0_STACKTOP = 0x1400000"
definition RING0_T1STACKBOTTOM :: nat where "RING0_T1STACKBOTTOM = 0x13C0000"

text \<open>The arguments of \<^verbatim>\<open>__create_task\<close> for \<^verbatim>\<open>init\<close>, with the address of the function.\<close>

definition init_task_args :: "u64 \<Rightarrow> ptr \<Rightarrow> task_args" where
  "init_task_args entry pml4 = \<lparr>ta_ds = 49, ta_stack_top = RING0_STACKTOP, ta_stack_bottom = RING0_T1STACKBOTTOM,
     ta_entry = entry, ta_cs = 41, ta_rflags = 4608, ta_pgd = pml4, ta_code_start = 0, ta_code_end = 0,
     ta_data_start = 0, ta_data_end = 0, ta_heap_start = 0, ta_heap_end = 0, ta_rodata_start = 0,
     ta_rodata_end = 0, ta_shm_start = 0, ta_shm_end = 0, ta_pid = INIT_SERVICE, ta_priority = 1, ta_level = 0,
     ta_parent = NULL, ta_kernel_task = True\<rparr>"

text \<open>\<^verbatim>\<open>entry\<close> after \<^verbatim>\<open>initialize\<close>: \<^verbatim>\<open>init\<close> is created and runs.\<close>

definition enter_init :: "nat \<Rightarrow> task_struct \<Rightarrow> u64 \<Rightarrow> kstate \<Rightarrow> kstate option" where
  "enter_init fuel junk init st = do {
     (task, st) \<leftarrow> create_task_low fuel junk (init_task_args init (kernel_pml4 st)) st;
     t \<leftarrow> tasks st task;
     let st = st\<lparr>current_thread := tk_threads t\<rparr>;
     th \<leftarrow> threads st (current_thread st);
     st \<leftarrow> add_task (th_task th) st;
     upd_thread (current_thread st) (\<lambda>t. t\<lparr>th_state := RUNNING\<rparr>) st
   }"

text \<open>Room on the heap is left behind by an allocation.\<close>

lemma fit_leaves:
  assumes "fit n xs = Some (a, ys)" and "has_free (m + n) xs" and "64 \<le> m"
  shows "has_free m ys"
proof -
  obtain pre sz post where x: "xs = pre @ (a, sz, False) # post" "ys = pre @ carve n a sz @ post"
    using fit_SomeD [OF assms(1)] by blast
  from assms(2) x(1) obtain b s where b: "(b, s, False) \<in> set pre \<union> {(a, sz, False)} \<union> set post" "m + n \<le> s"
    by (auto simp: has_free_def)
  show ?thesis
  proof (cases "(b, s, False) = (a, sz, False)")
    case False
    with b have "(b, s, False) \<in> set ys" using x by auto
    with b show ?thesis unfolding has_free_def by (intro exI [of _ b] exI [of _ s]) simp
  next
    case True
    with b assms(3) have "(a + n, sz - n, False) \<in> set ys" "m \<le> sz - n"
      by (auto simp: x(2) carve_def MIN_SEG_SIZE_def)
    then show ?thesis unfolding has_free_def by blast
  qed
qed

lemma k_alloc_leaves:
  assumes h: "heap_ok (km st) xs" and room: "has_free (m + request sz) xs" and m: "64 \<le> m" and sz: "0 < request sz"
  shows "\<exists>a k ys z. k_alloc (Suc n) sz st = Some (a + SEG_INFO_SZ, set_km k st) \<and> heap_ok k ys \<and> has_free m ys
    \<and> used_blocks ys = insert (a, z) (used_blocks xs) \<and> (\<forall>t. (a, t) \<notin> used_blocks xs)"
proof -
  have "has_free (request sz) xs" using room unfolding has_free_def by fastforce
  then obtain a ys where f: "fit (request sz) xs = Some (a, ys)" using has_free_fit by fastforce
  obtain k where k: "kmalloc (Suc n) sz (km st) = Some (a + SEG_INFO_SZ, k)" "heap_ok k ys"
    using kmalloc_fast [OF h f sz] by blast
  have lx: "layout xs" using h by (simp add: heap_ok_def)
  obtain z where "used_blocks ys = insert (a, z) (used_blocks xs)" "\<forall>t. (a, t) \<notin> used_blocks xs"
    using fit_keeps [OF f lx sz] fit_fresh [OF f lx] by blast
  then show ?thesis
    using k fit_leaves [OF f room m] by (auto simp: k_alloc_Some)
qed

text \<open>What the creation of a task of the kernel leaves, when its two objects fit into the heap.\<close>

lemma create_kernel_task:
  assumes kt: "ta_kernel_task a" and h: "heap_ok (km st) xs" and room: "has_free (m + 640) xs" and m: "64 \<le> m"
  obtains task thread st' ys zt zh t th where "create_task_low (Suc n) junk a st = Some (task + SEG_INFO_SZ, st')"
    and "heap_ok (km st') ys" and "has_free m ys"
    and "used_blocks ys = insert (thread, zh) (insert (task, zt) (used_blocks xs))"
    and "\<forall>z. (task, z) \<notin> used_blocks xs" and "\<forall>z. (thread, z) \<notin> used_blocks xs"
    and "tasks st' = (tasks st)(task + SEG_INFO_SZ \<mapsto> t)" and "threads st' = (threads st)(thread + SEG_INFO_SZ \<mapsto> th)"
    and "tk_threads t = thread + SEG_INFO_SZ" and "pid t = ta_pid a" and "level t = ta_level a" and "tk_next t = NULL"
    and "th_task th = task + SEG_INFO_SZ" and "ri_rip (registers th) = ta_entry a" and "ri_rsp (registers th) = of_nat (ta_stack_top a)"
    and "th_state th = SUBBMITED"
    and "task_list st' = task_list st" and "empty_task st' = empty_task st" and "kernel_pml4 st' = kernel_pml4 st"
proof -
  have rq: "request SIZEOF_TASK_STRUCT = 320" "request SIZEOF_THREAD_INFO = 320"
    by (simp_all add: request_eq SIZEOF_TASK_STRUCT_def SIZEOF_THREAD_INFO_def)
  have "has_free ((m + 320) + request SIZEOF_TASK_STRUCT) xs" "64 \<le> m + 320" using room m rq by (simp_all add: add.assoc)
  from k_alloc_leaves [OF h this, of n] obtain p k1 ys1 z1 where
    p: "k_alloc (Suc n) SIZEOF_TASK_STRUCT st = Some (p + SEG_INFO_SZ, set_km k1 st)" "heap_ok k1 ys1" "has_free (m + 320) ys1"
      "used_blocks ys1 = insert (p, z1) (used_blocks xs)" "\<forall>t. (p, t) \<notin> used_blocks xs"
    using rq by auto
  let ?s1 = "(set_km k1 st)\<lparr>tasks := (tasks st)(p + SEG_INFO_SZ \<mapsto> junk\<lparr>cur_tid := 0\<rparr>)\<rparr>"
  have "heap_ok (km ?s1) ys1" "has_free (m + request SIZEOF_THREAD_INFO) ys1" using p(2,3) rq by (simp_all add: set_km_def)
  from k_alloc_leaves [OF this m, of n] obtain q k2 ys2 z2 where
    q: "k_alloc (Suc n) SIZEOF_THREAD_INFO ?s1 = Some (q + SEG_INFO_SZ, set_km k2 ?s1)" "heap_ok k2 ys2" "has_free m ys2"
      "used_blocks ys2 = insert (q, z2) (used_blocks ys1)" "\<forall>t. (q, t) \<notin> used_blocks ys1"
    using rq by auto
  let ?th = "\<lparr>registers = \<lparr>ri_basic = zero_basic\<lparr>gs := ucast (ta_ds a), fs := ucast (ta_ds a), es := ucast (ta_ds a), ds := ucast (ta_ds a)\<rparr>,
      ri_rbp = of_nat (ta_stack_bottom a), ri_rsp = of_nat (ta_stack_top a), ri_ss = ucast (ta_ds a),
      ri_rip = ta_entry a, ri_cs = ucast (ta_cs a), ri_rflags = ta_rflags a\<rparr>,
    th_state = SUBBMITED, th_next = NULL, th_last = NULL, free_next = NULL, th_task = p + SEG_INFO_SZ,
    th_count = ta_priority a * 3, th_priority = ta_priority a, tid = 0\<rparr>"
  let ?t = "junk\<lparr>cur_tid := 1, tk_threads := q + SEG_INFO_SZ, tk_mm_info := init_mm_info a, tk_ipc_info := init_ipc_info,
    tk_last := NULL, tk_next := NULL, pid := ta_pid a, level := ta_level a, tk_parent := ta_parent a, tk_children := NULL,
    tk_ds := ta_ds a, tk_cs := ta_cs a, tk_rflags := ta_rflags a, tk_priority := ta_priority a, kernel_task := True\<rparr>"
  let ?s2 = "(set_km k2 st)\<lparr>tasks := (tasks st)(p + SEG_INFO_SZ \<mapsto> ?t), threads := (threads st)(q + SEG_INFO_SZ \<mapsto> ?th)\<rparr>"
  have "create_task_low (Suc n) junk a st = Some (p + SEG_INFO_SZ, ?s2)"
    using kt p(1) q(1) by (simp add: create_task_low_def create_thread_info_def upd_task_def set_km_def)
  then show ?thesis
    by (rule that [of p ?s2 ys2 q z2 z1 ?t ?th]) (use kt p q in \<open>auto simp: set_km_def\<close>)
qed

lemma first_thread:
  assumes h: "heap_ok (km st) xs" and room: "has_free 1344 xs" and none: "task_list st = NULL"
  shows "\<exists>s st' th t e i. create_empty_task (Suc n) junk idle st = Some s \<and> enter_init (Suc n) junk' init s = Some st'
    \<and> threads st' (current_thread st') = Some th \<and> th_state th = RUNNING \<and> ri_rip (registers th) = init
    \<and> task_list st' = th_task th \<and> tasks st' (th_task th) = Some t \<and> pid t = INIT_SERVICE \<and> level t = 0
    \<and> tk_next t = NULL \<and> tk_threads t = current_thread st'
    \<and> empty_task st' \<noteq> th_task th \<and> tasks st' (empty_task st') = Some e
    \<and> tk_threads e \<noteq> current_thread st' \<and> threads st' (tk_threads e) = Some i \<and> ri_rip (registers i) = idle"
proof -
  have k: "ta_kernel_task (empty_task_args idle (kernel_pml4 st))" by (simp add: empty_task_args_def)
  have "has_free (704 + 640) xs" "(64 :: nat) \<le> 704" using room by simp_all
  then obtain q1 h1 s1 ys1 z1 y1 t1 th1 where c1:
    "create_task_low (Suc n) junk (empty_task_args idle (kernel_pml4 st)) st = Some (q1 + SEG_INFO_SZ, s1)"
    "heap_ok (km s1) ys1" "has_free 704 ys1" "used_blocks ys1 = insert (h1, y1) (insert (q1, z1) (used_blocks xs))"
    "tasks s1 = (tasks st)(q1 + SEG_INFO_SZ \<mapsto> t1)" "threads s1 = (threads st)(h1 + SEG_INFO_SZ \<mapsto> th1)"
    "tk_threads t1 = h1 + SEG_INFO_SZ" "ri_rip (registers th1) = idle" "task_list s1 = NULL"
    by (rule create_kernel_task [OF k h, where n = n and junk = junk]) (rule that, (assumption | simp add: empty_task_args_def none)+)
  define s where "s = s1\<lparr>empty_task := q1 + SEG_INFO_SZ\<rparr>"
  have k2: "ta_kernel_task (init_task_args init (kernel_pml4 s))" by (simp add: init_task_args_def)
  have "heap_ok (km s) ys1" "has_free (64 + 640) ys1" "(64 :: nat) \<le> 64" using c1(2,3) by (simp_all add: s_def)
  then obtain q2 h2 s2 ys2 z2 y2 t2 th2 where c2:
    "create_task_low (Suc n) junk' (init_task_args init (kernel_pml4 s)) s = Some (q2 + SEG_INFO_SZ, s2)"
    "\<forall>z. (q2, z) \<notin> used_blocks ys1" "\<forall>z. (h2, z) \<notin> used_blocks ys1"
    "tasks s2 = (tasks s)(q2 + SEG_INFO_SZ \<mapsto> t2)" "threads s2 = (threads s)(h2 + SEG_INFO_SZ \<mapsto> th2)"
    "tk_threads t2 = h2 + SEG_INFO_SZ" "pid t2 = INIT_SERVICE" "level t2 = 0" "tk_next t2 = NULL" "th_task th2 = q2 + SEG_INFO_SZ"
    "ri_rip (registers th2) = init" "task_list s2 = task_list s" "empty_task s2 = empty_task s"
    by (rule create_kernel_task [OF k2, where n = n and junk = junk']) (rule that, (assumption | simp add: init_task_args_def)+)
  have d: "q2 \<noteq> q1" "h2 \<noteq> h1" using c2(2,3) c1(4) by auto
  have "create_empty_task (Suc n) junk idle st = Some s" using c1(1) by (simp add: create_empty_task_def s_def)
  moreover
  let ?t = "t2\<lparr>tk_next := NULL, tk_last := NULL\<rparr>" and ?th = "th2\<lparr>th_state := RUNNING\<rparr>"
  let ?st = "s2\<lparr>current_thread := h2 + SEG_INFO_SZ, tasks := (tasks s)(q2 + SEG_INFO_SZ \<mapsto> ?t), task_list := q2 + SEG_INFO_SZ,
    threads := (threads s)(h2 + SEG_INFO_SZ \<mapsto> ?th)\<rparr>"
  have "enter_init (Suc n) junk' init s = Some ?st"
    using c1(9) c2 by (simp add: enter_init_def add_task_def upd_task_def upd_thread_def s_def)
  ultimately show ?thesis
    using c1 c2 d
    by (intro exI [of _ s] exI [of _ ?st] exI [of _ ?th] exI [of _ ?t] exI [of _ t1] exI [of _ th1] conjI)
      (simp_all add: s_def)
qed

text \<open>
  C10. \<^verbatim>\<open>init\<close> is the first thread to run.  When the heap has room for the two tasks, \<^verbatim>\<open>create_empty_task\<close> and the end of
  \<^verbatim>\<open>entry\<close> succeed: the current thread is running, starts at \<^verbatim>\<open>init\<close> and belongs to the only task of the list, whose
  number is that of the init service; the idle task is another one, is not in the list, and its thread starts at the
  idle function.
\<close>

theorem init_runs_first:
  assumes "heap_ok (km st) xs" and "has_free 1344 xs" and "task_list st = NULL"
  shows "\<exists>s st' th t e i. create_empty_task (Suc n) junk idle st = Some s \<and> enter_init (Suc n) junk' init s = Some st'
    \<and> threads st' (current_thread st') = Some th \<and> th_state th = RUNNING \<and> ri_rip (registers th) = init
    \<and> task_list st' = th_task th \<and> tasks st' (th_task th) = Some t \<and> pid t = INIT_SERVICE \<and> level t = 0
    \<and> tk_next t = NULL \<and> tk_threads t = current_thread st'
    \<and> empty_task st' \<noteq> th_task th \<and> tasks st' (empty_task st') = Some e
    \<and> tk_threads e \<noteq> current_thread st' \<and> threads st' (tk_threads e) = Some i \<and> ri_rip (registers i) = idle"
  by (rule first_thread [OF assms])

definition example_start :: kstate where
  "example_start = example_kstate\<lparr>vm := example_bios, threads := Map.empty, tasks := Map.empty, task_list := NULL\<rparr>"

theorem init_runs_first_witness:
  "\<exists>s st' th. create_empty_task 1 example_task 0x300000 example_start = Some s
    \<and> enter_init 1 example_task 0x301000 s = Some st' \<and> threads st' (current_thread st') = Some th \<and> th_state th = RUNNING
    \<and> ri_rip (registers th) = 0x301000"
proof -
  have "heap_ok (km example_start) [(4096, 65536, False)]"
    using example_kmem_inv by (simp add: pmm_inv_def example_bios_def example_start_def)
  moreover have "has_free 1344 [(4096, 65536, False)]" by (simp add: has_free_def)
  moreover have "task_list example_start = NULL" by (simp add: example_start_def)
  ultimately have "\<exists>s st' th t e i. create_empty_task (Suc 0) example_task 0x300000 example_start = Some s
    \<and> enter_init (Suc 0) example_task 0x301000 s = Some st' \<and> threads st' (current_thread st') = Some th \<and> th_state th = RUNNING
    \<and> ri_rip (registers th) = 0x301000 \<and> task_list st' = th_task th \<and> tasks st' (th_task th) = Some t \<and> pid t = INIT_SERVICE
    \<and> level t = 0 \<and> tk_next t = NULL \<and> tk_threads t = current_thread st'
    \<and> empty_task st' \<noteq> th_task th \<and> tasks st' (empty_task st') = Some e
    \<and> tk_threads e \<noteq> current_thread st' \<and> threads st' (tk_threads e) = Some i \<and> ri_rip (registers i) = 0x300000"
    by (rule init_runs_first)
  then show ?thesis by (simp only: One_nat_def) blast
qed

section \<open>The whole start\<close>

definition PIT_CHANNEL0 :: port where "PIT_CHANNEL0 = 0x40"

text \<open>The writes of \<^verbatim>\<open>init_pit\<close>; \<open>count\<close> is the divisor, which the code computes in floating point.\<close>

definition init_pit :: "nat \<Rightarrow> history \<Rightarrow> history" where
  "init_pit count h =
     (if count \<ge> 65535 then h
      else let h = outb PIT_CHANNEL0 (of_nat count) h in outb PIT_CHANNEL0 (of_nat (count div 2 ^ 8)) h)"

text \<open>The stack of the first interrupt stack entry; the one of privilege 0 is that of \<^verbatim>\<open>init\<close>.\<close>

definition IST0_STACKTOP :: nat where "IST0_STACKTOP = 0x1100000"

text \<open>What \<^verbatim>\<open>initialize\<close> sets up, and what it finds: the addresses of functions and of the task state segment, the code
  segment, the devices, the divisor of the clock and the contents of new objects.\<close>

record machine =
  mc_state :: kstate
  mc_ports :: history
  mc_screen :: screen
  mc_gdt :: "(nat \<rightharpoonup> desc_struct) \<times> tss_struct"
  mc_idt :: idt
  mc_cur_pid :: int
  mc_ist1 :: nat
  mc_rsp0 :: nat
  mc_handlers :: irq_handlers

record boot_env =
  be_device :: device
  be_tss :: u64
  be_cs :: u16
  be_exceptions :: "nat \<Rightarrow> u64"
  be_irqs :: "nat \<Rightarrow> u64"
  be_syscall :: u64
  be_idle :: u64
  be_init :: u64
  be_count :: nat
  be_object :: task_struct
  be_byte :: u8
  be_slot :: nat

definition initialize :: "nat \<Rightarrow> boot_env \<Rightarrow> boot_args \<Rightarrow> machine \<Rightarrow> machine option" where
  "initialize fuel e args mc = do {
     let h = init_serial (mc_ports mc);
     let scr = init_video (ba_framebuffer args) (ba_screen_width args) (ba_screen_height args) (mc_screen mc);
     t \<leftarrow> init_descs (be_cs e) (be_exceptions e) (be_irqs e) (be_syscall e) (mc_idt mc);
     let h = init_pic h;
     let h = init_pit (be_count e) h;
     let st = mc_state mc;
     let v = (vm st)\<lparr>vm_bytes := memcpy SETUP_MOD_BASE (ba_setup_mod_addr args) SETUP_MOD_SIZE (vm_bytes (vm st))\<rparr>;
     (pml4, v) \<leftarrow> init_memory fuel (ba_memory_size args) (ba_framebuffer args) (ba_screen_width args) (ba_screen_height args) v;
     st \<leftarrow> create_empty_task fuel (be_object e) (be_idle e) (st\<lparr>vm := v, kernel_pml4 := pml4\<rparr>);
     Some \<lparr>mc_state = st, mc_ports = enable_all (be_device e) [0..<16] h, mc_screen = scr, mc_gdt = init_gdt (be_tss e),
       mc_idt = t, mc_cur_pid = 2, mc_ist1 = IST0_STACKTOP, mc_rsp0 = RING0_STACKTOP,
       mc_handlers = kernel_handlers (be_byte e) (be_slot e)\<rparr>
   }"

text \<open>\<^verbatim>\<open>entry\<close>, up to the jump to \<^verbatim>\<open>init\<close>; with a wrong magic number it does not return.\<close>

definition entry :: "nat \<Rightarrow> boot_env \<Rightarrow> boot_args \<Rightarrow> machine \<Rightarrow> machine option" where
  "entry fuel e args mc =
     (if ba_magic args \<noteq> BOOT_ARGS_MAGIC then None
      else do {
        mc \<leftarrow> initialize fuel e args mc;
        h \<leftarrow> linfo (literal ''Kernel'') (literal ''Hello, I'' @ [39] @ literal ''m TayhuangOS Kernel!'') [] (mc_ports mc);
        st \<leftarrow> enter_init fuel (be_object e) (be_init e) (mc_state mc);
        Some (mc\<lparr>mc_state := st, mc_ports := h\<rparr>)
      })"

lemma linfo_hello: "\<exists>s. linfo name (literal ''Hello, I'' @ [39] @ literal ''m TayhuangOS Kernel!'') [] h = Some (h @ sent s)"
proof -
  have "format_fits (literal ''Hello, I'' @ [39] @ literal ''m TayhuangOS Kernel!'') [] 511" by code_simp
  from fits_prints [OF this] show ?thesis
    by (auto simp: prints_def linfo_def log_typed_def format_line_def put_log_sent)
qed

lemma ready_init_pit [simp]: "ready h \<Longrightarrow> ready (init_pit n h)"
proof -
  have "plain_write PIT_CHANNEL0 v" for v by (simp add: plain_write_def PIT_CHANNEL0_def pic_defs)
  then show "ready h \<Longrightarrow> ready (init_pit n h)" by (simp add: init_pit_def Let_def ready_outb)
qed

text \<open>
  When the memory can be started and leaves room for two tasks, \<^verbatim>\<open>entry\<close> succeeds and ends with \<^verbatim>\<open>init\<close> running, all
  lines open, and the clock handler on line 0.
\<close>

lemma entry_starts:
  assumes dev: "masks_readable (be_device e)" and magic: "ba_magic args = BOOT_ARGS_MAGIC" and none: "task_list (mc_state mc) = NULL"
    and mem: "init_memory (Suc n) (ba_memory_size args) (ba_framebuffer args) (ba_screen_width args) (ba_screen_height args)
      ((vm (mc_state mc))\<lparr>vm_bytes := memcpy SETUP_MOD_BASE (ba_setup_mod_addr args) SETUP_MOD_SIZE
         (vm_bytes (vm (mc_state mc)))\<rparr>) = Some (pml4, v)"
    and room: "heap_ok (vm_km v) xs" "has_free 1344 xs"
  shows "\<exists>mc' th. entry (Suc n) e args mc = Some mc'
    \<and> threads (mc_state mc') (current_thread (mc_state mc')) = Some th \<and> th_state th = RUNNING
    \<and> ri_rip (registers th) = be_init e \<and> (\<forall>i < 16. \<not> masked (be_device e) (mc_ports mc') i)
    \<and> mc_handlers mc' = kernel_handlers (be_byte e) (be_slot e)"
proof -
  obtain t where t: "init_descs (be_cs e) (be_exceptions e) (be_irqs e) (be_syscall e) (mc_idt mc) = Some t"
    using init_descs_ok [of "be_cs e" "be_exceptions e" "be_irqs e" "be_syscall e" "mc_idt mc"] by blast
  let ?st = "(mc_state mc)\<lparr>vm := v, kernel_pml4 := pml4\<rparr>"
  have "heap_ok (km ?st) xs" "task_list ?st = NULL" using room(1) none by simp_all
  from first_thread [OF this(1) room(2) this(2), of n "be_object e" "be_idle e" "be_object e" "be_init e"]
  obtain s st' th where f: "create_empty_task (Suc n) (be_object e) (be_idle e) ?st = Some s"
      "enter_init (Suc n) (be_object e) (be_init e) s = Some st'" "threads st' (current_thread st') = Some th"
      "th_state th = RUNNING" "ri_rip (registers th) = be_init e" by blast
  let ?h = "init_pit (be_count e) (init_pic (init_serial (mc_ports mc)))"
  obtain l where h: "initialize (Suc n) e args mc = Some \<lparr>mc_state = s, mc_ports = enable_all (be_device e) [0..<16] ?h,
      mc_screen = init_video (ba_framebuffer args) (ba_screen_width args) (ba_screen_height args) (mc_screen mc),
      mc_gdt = init_gdt (be_tss e), mc_idt = t, mc_cur_pid = 2, mc_ist1 = IST0_STACKTOP, mc_rsp0 = RING0_STACKTOP,
      mc_handlers = kernel_handlers (be_byte e) (be_slot e)\<rparr>"
    "linfo (literal ''Kernel'') (literal ''Hello, I'' @ [39] @ literal ''m TayhuangOS Kernel!'') [] (enable_all (be_device e) [0..<16] ?h) =
      Some (enable_all (be_device e) [0..<16] ?h @ sent l)"
    using t mem f(1) linfo_hello by (simp add: initialize_def Let_def) blast
  have ready: "ready ?h" by simp
  have "\<not> masked (be_device e) (enable_all (be_device e) [0..<16] ?h @ sent l) i" if "i < 16" for i
    using masked_sent [OF dev] ready masked_enable_all [OF dev _ that, of "[0..<16]" ?h] that by simp
  then show ?thesis
    using magic f h by (simp add: entry_def)
qed

end
