(* ===== verification/Startup.thy ===== *)
theory Startup
  imports Kernel
begin

text \<open>
  The first task, \<^verbatim>\<open>init\<close> of \<^verbatim>\<open>kernel/kernel.c\<close>: it starts the system task and the setup module and then has the setup
  module load the drivers, which it turns into tasks.  \<^verbatim>\<open>init\<close> waits for a message at every \<^verbatim>\<open>check_ipc\<close>, and other tasks
  run there; a step of the model is the code from one wait to the next.  The lemmas show what the setup module is sent and
  how a module starts.
\<close>

section \<open>Loading a module with the help of the setup module\<close>

definition MOD_SIZE :: nat where "MOD_SIZE = 64 * 1024"
definition SETUP_SERVICE :: int where "SETUP_SERVICE = 0x8000"
definition SYSTASK_SERVICE :: int where "SYSTASK_SERVICE = 0x8001"
definition VIDEO_DRIVER_SERVICE :: int where "VIDEO_DRIVER_SERVICE = 0x8003"
definition TTY_DRIVER_SERVICE :: int where "TTY_DRIVER_SERVICE = 0x8004"
definition KEYBOARD_DRIVER_SERVICE :: int where "KEYBOARD_DRIVER_SERVICE = 0x8005"
definition KEYBOARD_IOMAN_SERVICE :: int where "KEYBOARD_IOMAN_SERVICE = 0x8006"

text \<open>
  What \<^verbatim>\<open>init\<close> finds: the addresses of its local variables, of the strings with the names of the modules and of
  \<^verbatim>\<open>sys_task\<close>, and the contents of new objects.  \<^verbatim>\<open>init\<close> runs in the directory of the kernel, where they are mapped to
  themselves.
\<close>

record init_env =
  ie_fuel :: nat
  ie_byte :: u8
  ie_object :: task_struct
  ie_status :: nat
  ie_slot :: nat
  ie_names :: "nat \<Rightarrow> nat"
  ie_sys_task :: u64

definition init_send :: "init_env \<Rightarrow> nat \<Rightarrow> nat \<Rightarrow> int \<Rightarrow> kstate \<Rightarrow> (bool \<times> kstate) option" where
  "init_send e src n dst st =
     (let (i, counter) = get_msgid (msgid_counter st) in
      send_msg (ie_byte e) \<lparr>no_reserved = 0, no_message = MSG_NORMAL_IPC, no_msg_id = i\<rparr> src (of_nat n) dst
        (st\<lparr>msgid_counter := counter\<rparr>))"

text \<open>\<^verbatim>\<open>load_mod_by_setup\<close> up to its wait: a failed assertion and a message that is not sent are \<open>None\<close>.\<close>

definition send_request :: "init_env \<Rightarrow> nat \<Rightarrow> nat \<Rightarrow> kstate \<Rightarrow> kstate option" where
  "send_request e name mod_addr st = do {
     (send_ret, st) \<leftarrow> init_send e name (nat (strlen (vm_bytes (vm st)) name + 1)) SETUP_SERVICE st;
     if \<not> send_ret then None else do {
       (send_ret, st) \<leftarrow> init_send e (ie_slot e) 8 SETUP_SERVICE (kstore (ie_slot e) (le_bytes 8 mod_addr) st);
       if send_ret then Some st else None
     }
   }"

definition map_buffer :: "init_env \<Rightarrow> nat \<Rightarrow> kstate \<Rightarrow> kstate option" where
  "map_buffer e mod_addr st = do {
     task \<leftarrow> get_task_by_pid SETUP_SERVICE st;
     t \<leftarrow> tasks st task;
     (_, v) \<leftarrow> set_mapping (ie_fuel e) (pgd (tk_mm_info t)) mod_addr mod_addr (MOD_SIZE div MEMUNIT_SZ) True False (vm st);
     Some (st\<lparr>vm := v\<rparr>)
   }"

definition request_file :: "init_env \<Rightarrow> nat \<Rightarrow> nat \<Rightarrow> kstate \<Rightarrow> kstate option" where
  "request_file e name mod_addr st = do {
     st \<leftarrow> send_request e name mod_addr st;
     st \<leftarrow> map_buffer e mod_addr st;
     st \<leftarrow> set_allow SETUP_SERVICE st;
     check_ipc st
   }"

definition load_mod_request :: "init_env \<Rightarrow> nat \<Rightarrow> kstate \<Rightarrow> (nat \<times> kstate) option" where
  "load_mod_request e name st = do {
     (mod_addr, st) \<leftarrow> k_alloc (ie_fuel e) (of_nat MOD_SIZE) st;
     st \<leftarrow> request_file e name mod_addr st;
     Some (mod_addr, st)
   }"

text \<open>The answer of the task waited for; without success \<^verbatim>\<open>init\<close> logs an error and loops.\<close>

definition await_status :: "init_env \<Rightarrow> kstate \<Rightarrow> kstate option" where
  "await_status e st = do {
     (_, st) \<leftarrow> recv_msg (ie_status e) st;
     if kbytes (ie_status e) 1 st = [0] then None else Some st
   }"

definition load_mod_finish :: "init_env \<Rightarrow> nat \<Rightarrow> kstate \<Rightarrow> (program_info \<times> kstate) option" where
  "load_mod_finish e mod_addr st = do {
     st \<leftarrow> await_status e st;
     (mod_info, v) \<leftarrow> load_kmod_from_memory (ie_fuel e) mod_addr (vm st);
     st \<leftarrow> k_free mod_addr (st\<lparr>vm := v\<rparr>);
     Some (mod_info, st)
   }"

section \<open>Starting a task\<close>

definition DEFAULT_SHM_START :: nat where "DEFAULT_SHM_START = 0x100000000"
definition DEFAULT_SHM_END :: nat where "DEFAULT_SHM_END = 0x200000000"

definition mod_task_args :: "program_info \<Rightarrow> int \<Rightarrow> int \<Rightarrow> ptr \<Rightarrow> task_args" where
  "mod_task_args i p lvl parent = \<lparr>ta_ds = 49, ta_stack_top = pi_stack_top i, ta_stack_bottom = pi_stack_bottom i,
     ta_entry = of_nat (pi_entry i), ta_cs = 41, ta_rflags = 4608, ta_pgd = pi_pgd i, ta_code_start = pi_start i,
     ta_code_end = pi_end i, ta_data_start = pi_start i, ta_data_end = pi_end i, ta_heap_start = pi_heap_bottom i,
     ta_heap_end = pi_heap_top i, ta_rodata_start = pi_start i, ta_rodata_end = pi_end i, ta_shm_start = DEFAULT_SHM_START,
     ta_shm_end = DEFAULT_SHM_END, ta_pid = p, ta_priority = 1, ta_level = lvl, ta_parent = parent, ta_kernel_task = False\<rparr>"

text \<open>\<^verbatim>\<open>create_task\<close> and \<^verbatim>\<open>initialize_kmod_task\<close> as \<^verbatim>\<open>init\<close> calls them, and the wait for the module.\<close>

definition start_mod :: "init_env \<Rightarrow> program_info \<Rightarrow> int \<Rightarrow> int \<Rightarrow> kstate \<Rightarrow> kstate option" where
  "start_mod e i p lvl st = do {
     parent \<leftarrow> current_task st;
     (task, st) \<leftarrow> create_task (ie_fuel e) (ie_object e) (mod_task_args i p lvl parent) st;
     st \<leftarrow> initialize_kmod_task task st;
     st \<leftarrow> set_allow p st;
     check_ipc st
   }"

definition RING0_STACKTOP2 :: nat where "RING0_STACKTOP2 = 0x1300000"
definition RING0_STACKBOTTOM2 :: nat where "RING0_STACKBOTTOM2 = 0x1200000"

definition sys_task_args :: "u64 \<Rightarrow> ptr \<Rightarrow> ptr \<Rightarrow> task_args" where
  "sys_task_args ent pml4 parent = \<lparr>ta_ds = 49, ta_stack_top = RING0_STACKTOP2, ta_stack_bottom = RING0_STACKBOTTOM2,
     ta_entry = ent, ta_cs = 41, ta_rflags = 4608, ta_pgd = pml4, ta_code_start = 0, ta_code_end = 0,
     ta_data_start = 0, ta_data_end = 0, ta_heap_start = 0, ta_heap_end = 0, ta_rodata_start = 0,
     ta_rodata_end = 0, ta_shm_start = 0, ta_shm_end = 0, ta_pid = SYSTASK_SERVICE, ta_priority = 1, ta_level = 0,
     ta_parent = parent, ta_kernel_task = True\<rparr>"

text \<open>The start of \<^verbatim>\<open>init\<close>: its mailbox, the scheduler and the system task.\<close>

definition init_begin :: "init_env \<Rightarrow> kstate \<times> history \<Rightarrow> (kstate \<times> history) option" where
  "init_begin e = (\<lambda>(st, h). do {
     (mail, st) \<leftarrow> k_alloc (ie_fuel e) 8192 st;
     st \<leftarrow> set_mailbuffer mail 8192 st;
     h \<leftarrow> linfo (literal ''Init'') (literal ''Hi!I'' @ [39] @ literal ''m Init!'') [] h;
     let st = start_schedule st;
     parent \<leftarrow> current_task st;
     (task, st) \<leftarrow> create_task (ie_fuel e) (ie_object e) (sys_task_args (ie_sys_task e) (kernel_pml4 st) parent) st;
     st \<leftarrow> set_allow SYSTASK_SERVICE st;
     st \<leftarrow> check_ipc st;
     Some (st, h)
   })"

text \<open>The screen for the video driver: the framebuffer is mapped and described in a message.\<close>

definition send_video_info :: "init_env \<Rightarrow> boot_args \<Rightarrow> program_info \<Rightarrow> kstate \<Rightarrow> kstate option" where
  "send_video_info e args i st = do {
     (_, v) \<leftarrow> set_mapping (ie_fuel e) (pi_pgd i) (ba_framebuffer args) (ba_framebuffer args)
       ((if ba_is_graphic_mode args then 0x6000000 else 0x8000) div MEMUNIT_SZ) True False (vm st);
     let st = st\<lparr>vm := v\<rparr>;
     let st = kstore (ie_slot e) (le_bytes 8 (ba_framebuffer args)) st;
     let st = kstore (ie_slot e + 12) (le_bytes 4 (nat (ba_screen_height args mod 2 ^ 32))) st;
     let st = kstore (ie_slot e + 8) (le_bytes 4 (nat (ba_screen_width args mod 2 ^ 32))) st;
     let st = kstore (ie_slot e + 16) [of_bool (ba_is_graphic_mode args)] st;
     (_, st) \<leftarrow> init_send e (ie_slot e) 24 VIDEO_DRIVER_SERVICE st;
     Some st
   }"

section \<open>The steps of \<^verbatim>\<open>init\<close>\<close>

text \<open>
  Where \<^verbatim>\<open>init\<close> waits: for the system task, for the setup module, for the file of a module or for the module itself.
  The modules are numbered in the order in which they are started.
\<close>

datatype init_pc = At_Start | Await_Sys_Task | Await_Setup | Await_File nat | Await_Mod nat | At_End

record init_state =
  is_pc :: init_pc
  is_addr :: nat
  is_pid :: int
  is_info :: program_info
  is_cur_pid :: int

text \<open>The numbers of the modules; the test benches get theirs from \<^verbatim>\<open>alloc_pid\<close>, when their file is asked for.\<close>

definition alloc_pid :: "init_state \<Rightarrow> int \<times> init_state" where
  "alloc_pid s = (is_cur_pid s, s\<lparr>is_cur_pid := is_cur_pid s + 1\<rparr>)"

definition mod_pid :: "nat \<Rightarrow> init_state \<Rightarrow> int \<times> init_state" where
  "mod_pid i s =
     (if i = 0 then (VIDEO_DRIVER_SERVICE, s)
      else if i = 1 then (KEYBOARD_IOMAN_SERVICE, s)
      else if i = 2 then (KEYBOARD_DRIVER_SERVICE, s)
      else if i = 3 then (TTY_DRIVER_SERVICE, s)
      else alloc_pid s)"

definition mod_level :: "nat \<Rightarrow> int" where
  "mod_level i = (if i < 4 then 0 else 1)"

definition ask_for :: "init_env \<Rightarrow> nat \<Rightarrow> init_state \<Rightarrow> kstate \<Rightarrow> (init_state \<times> kstate) option" where
  "ask_for e i s st = do {
     let (p, s) = mod_pid i s;
     (addr, st) \<leftarrow> load_mod_request e (ie_names e i) st;
     Some (s\<lparr>is_pc := Await_File i, is_addr := addr, is_pid := p\<rparr>, st)
   }"

fun init_step :: "init_env \<Rightarrow> boot_args \<Rightarrow> init_state \<times> kstate \<times> history \<Rightarrow> (init_state \<times> kstate \<times> history) option" where
  "init_step e args (s, st, h) = (case is_pc s of
     At_Start \<Rightarrow> do {
       (st, h) \<leftarrow> init_begin e (st, h);
       Some (s\<lparr>is_pc := Await_Sys_Task\<rparr>, st, h)
     }
   | Await_Sys_Task \<Rightarrow> do {
       st \<leftarrow> await_status e st;
       (info, v) \<leftarrow> load_kmod_from_memory (ie_fuel e) SETUP_MOD_BASE (vm st);
       st \<leftarrow> start_mod e info SETUP_SERVICE 0 (st\<lparr>vm := v\<rparr>);
       Some (s\<lparr>is_pc := Await_Setup\<rparr>, st, h)
     }
   | Await_Setup \<Rightarrow> do {
       st \<leftarrow> await_status e st;
       (s, st) \<leftarrow> ask_for e 0 s st;
       Some (s, st, h)
     }
   | Await_File i \<Rightarrow> do {
       (info, st) \<leftarrow> load_mod_finish e (is_addr s) st;
       st \<leftarrow> start_mod e info (is_pid s) (mod_level i) st;
       Some (s\<lparr>is_pc := Await_Mod i, is_info := info\<rparr>, st, h)
     }
   | Await_Mod i \<Rightarrow> do {
       st \<leftarrow> await_status e st;
       st \<leftarrow> (if i = 0 then send_video_info e args (is_info s) st else Some st);
       if i < 5 then do {
         (s, st) \<leftarrow> ask_for e (i + 1) s st;
         Some (s, st, h)
       } else do {
         st \<leftarrow> check_ipc st;
         h \<leftarrow> linfo (literal ''Init'') (literal ''Init End'') [] h;
         Some (s\<lparr>is_pc := At_End\<rparr>, st, h)
       }
     }
   | At_End \<Rightarrow> Some (s, st, h))"

section \<open>What a message changes\<close>

lemma v_write_frame: "v_write d w b v = Some v' \<Longrightarrow> vm_tables v' = vm_tables v \<and> vm_km v' = vm_km v"
  by (auto simp: v_write_def Let_def split: if_splits)

lemma put_bytes_frame: "put_bytes d i bs w v = Some (w', v') \<Longrightarrow> vm_tables v' = vm_tables v \<and> vm_km v' = vm_km v"
  by (induction bs arbitrary: w v) (auto simp: bind_eq_Some_iff dest!: v_write_frame)

lemma copy_in_frame: "copy_in d i s n src w v = Some (w', v') \<Longrightarrow> vm_tables v' = vm_tables v \<and> vm_km v' = vm_km v"
  by (induction n arbitrary: src w v) (auto simp: bind_eq_Some_iff dest!: v_write_frame)

lemma write_to_buffer_frame:
  assumes "write_to_buffer a pack s src st = Some st'" and "tasks st a = Some t"
  shows "\<exists>v w. st' = st\<lparr>vm := v, tasks := (tasks st)(a \<mapsto> t\<lparr>tk_ipc_info := (tk_ipc_info t)\<lparr>write_ptr := w\<rparr>\<rparr>)\<rparr>
    \<and> vm_tables v = vm_tables (vm st) \<and> vm_km v = vm_km (vm st)"
  using assms
  by (auto simp: write_to_buffer_def upd_task_def Let_def bind_eq_Some_iff dest!: put_bytes_frame copy_in_frame)

lemma enqueue_thread_frame:
  assumes "enqueue_thread h st = Some st'"
  shows "tasks st' = tasks st \<and> vm st' = vm st \<and> current_thread st' = current_thread st \<and> task_list st' = task_list st
    \<and> msgid_counter st' = msgid_counter st
    \<and> (\<forall>q. map_option th_task (threads st' q) = map_option th_task (threads st q)
        \<and> map_option th_state (threads st' q) = map_option th_state (threads st q))"
  using assms
  by (auto simp: enqueue_thread_def enqueue_level0_thread_def upd_thread_def bind_eq_Some_iff split: if_splits)

text \<open>A delivery touches the mailbox of the target, the bytes of the memory and the state of one thread.\<close>

definition delivered :: "ptr \<Rightarrow> task_struct \<Rightarrow> kstate \<Rightarrow> kstate \<Rightarrow> bool" where
  "delivered a t st st' \<longleftrightarrow> vm_tables (vm st') = vm_tables (vm st) \<and> vm_km (vm st') = vm_km (vm st)
     \<and> current_thread st' = current_thread st \<and> task_list st' = task_list st \<and> msgid_counter st' = msgid_counter st
     \<and> (\<forall>q. map_option th_task (threads st' q) = map_option th_task (threads st q))
     \<and> (\<exists>u w. tasks st' = (tasks st)(a \<mapsto> t\<lparr>tk_ipc_info := (tk_ipc_info t)\<lparr>used_size := u, write_ptr := w\<rparr>\<rparr>))"

lemma deliver_frame:
  assumes "deliver a i pack sz s src wake st = Some (b, st')" and t: "tasks st a = Some t"
  shows "delivered a t st st'"
proof -
  let ?i = "(tk_ipc_info t)\<lparr>used_size := used_size (tk_ipc_info t) + (SIZEOF_MSGPACK + sz)\<rparr>"
  define st1 where "st1 = st\<lparr>tasks := (tasks st)(a \<mapsto> t\<lparr>tk_ipc_info := ?i\<rparr>)\<rparr>"
  have "upd_task a (\<lambda>t. t\<lparr>tk_ipc_info := (tk_ipc_info t)\<lparr>
              used_size := used_size (tk_ipc_info t) + (SIZEOF_MSGPACK + sz)\<rparr>\<rparr>) st = Some st1"
    using t by (simp add: upd_task_def st1_def)
  with assms(1) obtain st2 h where 2: "write_to_buffer a pack s src st1 = Some st2" "threads st2 (msg_handler_thread i) = Some h"
    and r: "if th_state h = WAITING_IPC \<and> wake then
        \<exists>st3. upd_thread (msg_handler_thread i) (\<lambda>t. t\<lparr>th_state := READY\<rparr>) st2 = Some st3
          \<and> enqueue_thread (msg_handler_thread i) st3 = Some st'
      else st' = st2"
    by (auto simp: deliver_def bind_eq_Some_iff split: if_splits)
  have "tasks st1 a = Some (t\<lparr>tk_ipc_info := ?i\<rparr>)" by (simp add: st1_def)
  from write_to_buffer_frame [OF 2(1) this] obtain v w where
    v: "st2 = st1\<lparr>vm := v, tasks := (tasks st1)(a \<mapsto> t\<lparr>tk_ipc_info := ?i\<lparr>write_ptr := w\<rparr>\<rparr>)\<rparr>"
      "vm_tables v = vm_tables (vm st)" "vm_km v = vm_km (vm st)"
    by (auto simp: st1_def)
  then have d2: "delivered a t st st2"
    unfolding delivered_def by (auto simp: st1_def intro!: exI [of _ "used_size (tk_ipc_info t) + (SIZEOF_MSGPACK + sz)"] exI [of _ w])
  show ?thesis
  proof (cases "th_state h = WAITING_IPC \<and> wake")
    case True
    then obtain st3 where 3: "upd_thread (msg_handler_thread i) (\<lambda>t. t\<lparr>th_state := READY\<rparr>) st2 = Some st3"
        "enqueue_thread (msg_handler_thread i) st3 = Some st'" using r by auto
    have st3: "st3 = st2\<lparr>threads := (threads st2)(msg_handler_thread i \<mapsto> h\<lparr>th_state := READY\<rparr>)\<rparr>"
      using 3(1) 2(2) by (auto simp: upd_thread_def)
    have "map_option th_task (threads st3 q) = map_option th_task (threads st2 q)" for q using 2(2) by (simp add: st3)
    then have "map_option th_task (threads st' q) = map_option th_task (threads st q)" for q
      using enqueue_thread_frame [OF 3(2)] d2 by (simp add: delivered_def)
    then show ?thesis
      using d2 enqueue_thread_frame [OF 3(2)] unfolding delivered_def by (simp add: st3)
  next
    case False
    then show ?thesis using d2 r by (simp split: if_splits)
  qed
qed

text \<open>The tasks are found as before.\<close>

lemma delivered_task: "delivered a t st st' \<Longrightarrow> q \<noteq> a \<Longrightarrow> tasks st' q = tasks st q"
  by (auto simp: delivered_def)

lemma delivered_find:
  assumes d: "delivered a t st st'" and t: "tasks st a = Some t" and c: "task_chain st ts"
  shows "task_chain st' ts" and "get_task_by_pid p st' = get_task_by_pid p st"
proof -
  have m: "map_option tk_next (tasks st' q) = map_option tk_next (tasks st q)"
    "map_option tk_last (tasks st' q) = map_option tk_last (tasks st q)"
    "map_option pid (tasks st' q) = map_option pid (tasks st q)" for q
    using d t by (auto simp: delivered_def)
  then have "tnext st' = tnext st" "tlast st' = tlast st" "task_list st' = task_list st"
    using d by (auto simp: delivered_def)
  then show ch: "task_chain st' ts" using c by (simp add: task_chain_def)
  have "has_pid st' p = has_pid st p" unfolding has_pid_def fun_eq_iff m(3) by (rule allI) (rule refl)
  then show "get_task_by_pid p st' = get_task_by_pid p st"
    by (simp only: get_task_by_pid_first [OF ch] get_task_by_pid_first [OF c])
qed

lemma delivered_current:
  assumes "delivered a t st st'" and "current_task st = Some c"
  shows "current_task st' = Some c"
proof -
  have "map_option th_task (threads st' (current_thread st)) = map_option th_task (threads st (current_thread st))"
    using assms(1) by (simp add: delivered_def)
  then show ?thesis using assms by (simp add: current_task_def delivered_def)
qed

text \<open>
  A thread that is ready to receive: it exists, and if it waits for a message it can be queued behind the ready threads.
\<close>

definition receptive :: "kstate \<Rightarrow> ptr \<Rightarrow> ptr list \<Rightarrow> bool" where
  "receptive st h ps \<longleftrightarrow> (\<exists>th. threads st h = Some th
     \<and> (th_state th = WAITING_IPC \<longrightarrow> ready0 st ps \<and> schedulable st h \<and> h \<notin> set ps))"

lemma send_ok:
  assumes mb: "mailbox st a msgs" and find: "get_task_by_pid dst st = Some a" "a \<noteq> NULL" and t: "tasks st a = Some t"
    and c: "current_task st = Some c" "tasks st c = Some ct"
    and allow: "allow_pid (tk_ipc_info t) = pid ct" "pid ct \<noteq> DUMMY_TASK"
    and sz: "n < 65536" "unat (used_size (tk_ipc_info t)) + 8 + n \<le> unat (mail_size (tk_ipc_info t))"
    and src: "source_ok (vm st) (pgd (tk_mm_info ct)) src n (ring_mem (vm st) (pgd (tk_mm_info t)) (tk_ipc_info t))"
    and h: "receptive st (msg_handler_thread (tk_ipc_info t)) ps"
  shows "\<exists>st'. send_msg junk no src (of_nat n) dst st = Some (True, st') \<and> delivered a t st st'
     \<and> mailbox st' a (msgs @ [(\<lparr>mp_reserved = junk, message_no = no_message no, msg_id = no_msg_id no,
           mp_length = of_nat n, mp_source = of_int (pid ct)\<rparr>, source_bytes (vm st) (pgd (tk_mm_info ct)) src n)])
     \<and> (\<exists>qs. receptive st' (msg_handler_thread (tk_ipc_info t)) qs)
     \<and> map_option th_state (threads st' (msg_handler_thread (tk_ipc_info t))) \<noteq> Some WAITING_IPC"
proof -
  let ?i = "tk_ipc_info t" and ?h = "msg_handler_thread (tk_ipc_info t)"
  obtain th where th: "threads st ?h = Some th"
    "th_state th = WAITING_IPC \<and> True \<Longrightarrow> ready0 st ps \<and> schedulable st ?h \<and> ?h \<notin> set ps"
    using h by (auto simp: receptive_def)
  have n: "unat (of_nat n :: u64) = n" using sz(1) by (simp add: unat_of_nat take_bit_nat_eq_self)
  have room: "unat (used_size ?i) + 8 + unat (of_nat n :: u64) \<le> unat (mail_size ?i)" using sz(2) by (simp add: n)
  have len: "(of_nat n :: u16) = ucast (of_nat n :: u64)"
    using sz(1) by (simp add: word_unat_eq_iff unsigned_ucast_eq unat_of_nat take_bit_nat_eq_self)
  have "\<not> used_size ?i + of_nat n + SIZEOF_MSGPACK > mail_size ?i"
    using room_word(1) [OF room] by (simp add: ac_simps not_less)
  then have e: "send_msg junk no src (of_nat n) dst st = deliver a ?i \<lparr>mp_reserved = junk, message_no = no_message no,
        msg_id = no_msg_id no, mp_length = of_nat n, mp_source = of_int (pid ct)\<rparr> (of_nat n) (pgd (tk_mm_info ct)) src True st"
    using find t c allow by (auto simp: send_msg_def len)
  obtain st' where d: "deliver a ?i \<lparr>mp_reserved = junk, message_no = no_message no,
        msg_id = no_msg_id no, mp_length = of_nat n, mp_source = of_int (pid ct)\<rparr> (of_nat n) (pgd (tk_mm_info ct)) src True st = Some (True, st')"
    and m: "mailbox st' a (msgs @ [(\<lparr>mp_reserved = junk, message_no = no_message no, msg_id = no_msg_id no,
           mp_length = of_nat n, mp_source = of_int (pid ct)\<rparr>, source_bytes (vm st) (pgd (tk_mm_info ct)) src n)])"
    and w: "if th_state th = WAITING_IPC \<and> True
        then map_option th_state (threads st' ?h) = Some READY \<and> ready0 st' (ps @ [?h]) else threads st' = threads st"
    using deliver_ok [OF mb t refl, of "of_nat n" "\<lparr>mp_reserved = junk, message_no = no_message no,
        msg_id = no_msg_id no, mp_length = of_nat n, mp_source = of_int (pid ct)\<rparr>" "pgd (tk_mm_info ct)" src th True ps] sz(1) room src th
    by (auto simp: n len)
  have "map_option th_state (threads st' ?h) \<noteq> Some WAITING_IPC" using w th(1) by (auto split: if_splits)
  moreover have "threads st' ?h \<noteq> None" using w th(1) by (auto split: if_splits)
  ultimately have "receptive st' ?h []" by (auto simp: receptive_def)
  then show ?thesis
    using e d m deliver_frame [OF d t] \<open>map_option th_state (threads st' ?h) \<noteq> Some WAITING_IPC\<close> by auto
qed

text \<open>A change of memory and tables that leaves the mailbox of a task alone.\<close>

lemma mailbox_frame:
  assumes mb: "mailbox st a msgs" and t: "tasks st a = Some t" and same: "tasks st' a = Some t"
    and tabs: "\<forall>k<unat (mail_size (tk_ipc_info t)).
      phys (vm st') (pgd (tk_mm_info t)) (mail (tk_ipc_info t)) k = phys (vm st) (pgd (tk_mm_info t)) (mail (tk_ipc_info t)) k"
    and bytes: "\<forall>p\<in>ring_mem (vm st) (pgd (tk_mm_info t)) (tk_ipc_info t). vm_bytes (vm st') p = vm_bytes (vm st) p"
  shows "mailbox st' a msgs"
proof -
  let ?i = "tk_ipc_info t" and ?d = "pgd (tk_mm_info t)" and ?M = "unat (mail_size (tk_ipc_info t))"
  have h: "holds_msgs (vm st) ?d ?i msgs" using mb t by (simp add: mailbox_def)
  have ring: "ring_ok (vm st) ?d ?i" using h by (simp add: holds_msgs_def)
  then have M: "0 < ?M" by (simp add: ring_ok_def)
  have "inj_on (phys (vm st') ?d (mail ?i)) {..<?M}"
    using ring tabs by (simp add: ring_ok_def inj_on_def)
  then have "ring_ok (vm st') ?d ?i" using ring tabs by (auto simp: ring_ok_def)
  moreover have "ring_holds (vm st') ?d ?i r bs" if r: "ring_holds (vm st) ?d ?i r bs" for r bs
  proof -
    have "vm_bytes (vm st') (phys (vm st') ?d (mail ?i) ((r + k) mod ?M)) = vm_bytes (vm st) (phys (vm st) ?d (mail ?i) ((r + k) mod ?M))" for k
    proof -
      have j: "(r + k) mod ?M < ?M" using M by simp
      then have "phys (vm st) ?d (mail ?i) ((r + k) mod ?M) \<in> ring_mem (vm st) ?d ?i" by (auto simp: ring_mem_def)
      then show ?thesis using tabs [rule_format, OF j] bytes by simp
    qed
    then show ?thesis using r by (simp add: ring_holds_def)
  qed
  ultimately have "holds_msgs (vm st') ?d ?i msgs" using h unfolding holds_msgs_def by blast
  then show ?thesis using same by (simp add: mailbox_def)
qed

section \<open>The request\<close>

lemma init_send_ok:
  assumes "mailbox st a msgs" and "get_task_by_pid dst st = Some a" "a \<noteq> NULL" and "tasks st a = Some t"
    and "current_task st = Some c" "tasks st c = Some ct"
    and "allow_pid (tk_ipc_info t) = pid ct" "pid ct \<noteq> DUMMY_TASK"
    and "n < 65536" "unat (used_size (tk_ipc_info t)) + 8 + n \<le> unat (mail_size (tk_ipc_info t))"
    and "source_ok (vm st) (pgd (tk_mm_info ct)) src n (ring_mem (vm st) (pgd (tk_mm_info t)) (tk_ipc_info t))"
    and "receptive st (msg_handler_thread (tk_ipc_info t)) ps"
  shows "\<exists>st' st1 pack k. init_send e src n dst st = Some (True, st') \<and> st1 = st\<lparr>msgid_counter := k\<rparr> \<and> delivered a t st1 st'
     \<and> message_no pack = MSG_NORMAL_IPC \<and> mp_source pack = of_int (pid ct)
     \<and> mailbox st' a (msgs @ [(pack, source_bytes (vm st) (pgd (tk_mm_info ct)) src n)])
     \<and> (\<exists>qs. receptive st' (msg_handler_thread (tk_ipc_info t)) qs)
     \<and> map_option th_state (threads st' (msg_handler_thread (tk_ipc_info t))) \<noteq> Some WAITING_IPC"
proof -
  obtain i k where k: "get_msgid (msgid_counter st) = (i, k)" by fastforce
  let ?s = "st\<lparr>msgid_counter := k\<rparr>"
  have r: "receptive ?s (msg_handler_thread (tk_ipc_info t)) ps"
    using assms(12) by (simp add: receptive_def ready0_def schedulable_def)
  have "mailbox ?s a msgs" using assms(1) by (simp add: mailbox_def)
  from send_ok [OF this _ assms(3), of dst t c ct n src ps "ie_byte e" "\<lparr>no_reserved = 0, no_message = MSG_NORMAL_IPC, no_msg_id = i\<rparr>"]
  obtain st' where "send_msg (ie_byte e) \<lparr>no_reserved = 0, no_message = MSG_NORMAL_IPC, no_msg_id = i\<rparr> src (of_nat n) dst ?s = Some (True, st')"
    "delivered a t ?s st'"
    "mailbox st' a (msgs @ [(\<lparr>mp_reserved = ie_byte e, message_no = MSG_NORMAL_IPC, msg_id = i, mp_length = of_nat n,
        mp_source = of_int (pid ct)\<rparr>, source_bytes (vm st) (pgd (tk_mm_info ct)) src n)])"
    "\<exists>qs. receptive st' (msg_handler_thread (tk_ipc_info t)) qs"
    "map_option th_state (threads st' (msg_handler_thread (tk_ipc_info t))) \<noteq> Some WAITING_IPC"
    using assms r by (auto simp: get_task_by_pid_def current_task_def)
  then show ?thesis
    using k by (intro exI [of _ st'] exI [of _ ?s] exI [of _ "\<lparr>mp_reserved = ie_byte e, message_no = MSG_NORMAL_IPC, msg_id = i,
        mp_length = of_nat n, mp_source = of_int (pid ct)\<rparr>"] exI [of _ k]) (simp add: init_send_def)
qed

lemma source_bytes_identity:
  assumes "\<forall>v<hi. get_physical_address (vm_tables v0) d v = v" and "src + n \<le> hi"
  shows "source_bytes v0 d src n = map (vm_bytes v0) [src..<src + n]"
proof (rule nth_equalityI)
  fix k
  assume "k < length (source_bytes v0 d src n)"
  then have "k < n" by (simp add: source_bytes_def)
  moreover from this have "phys v0 d src k = src + k" using assms by simp
  ultimately show "source_bytes v0 d src n ! k = map (vm_bytes v0) [src..<src + n] ! k"
    by (simp add: source_bytes_def)
qed (simp add: source_bytes_def)

lemma source_ok_identity:
  assumes "\<forall>v<hi. get_physical_address (vm_tables v0) d v = v" and "src + n \<le> hi" "0 < src" and "{src..<src + n} \<inter> R = {}"
  shows "source_ok v0 d src n R"
  unfolding source_ok_def
proof (intro allI impI)
  fix k
  assume "k < n"
  then have e: "phys v0 d src k = src + k" "src + k \<in> {src..<src + n}" using assms(1,2) by simp_all
  then have "src + k \<notin> R" using assms(4) by blast
  then show "phys v0 d src k \<noteq> NULL \<and> phys v0 d src k \<notin> R" using e(1) assms(3) by simp
qed

lemma cstring_bytes: "cstring m p xs \<Longrightarrow> map m [p..<p + (length xs + 1)] = xs @ [0]"
  by (rule nth_equalityI) (auto simp: cstring_def nth_append less_Suc_eq)

text \<open>The buffer, mapped to itself; \<^verbatim>\<open>set_mapping\<close> rounds the address down to a page.\<close>

lemma map_buffer_ok:
  assumes "vm_inv v ss A dir" and "54 \<le> slots ss" "6 \<le> npages A" and "mod_addr + 0x10000 \<le> 2 ^ 31"
  shows "\<exists>v' ss' A'. set_mapping (Suc f) dir mod_addr mod_addr (MOD_SIZE div MEMUNIT_SZ) True False v = Some (True, v')
    \<and> vm_inv v' ss' A' dir \<and> (\<forall>p. p \<notin> free_mem A \<longrightarrow> vm_bytes v' p = vm_bytes v p)
    \<and> (\<forall>w < 2 ^ 48. get_physical_address (vm_tables v') dir w =
        (if mod_addr div MEMUNIT_SZ \<le> w div MEMUNIT_SZ \<and> w div MEMUNIT_SZ < mod_addr div MEMUNIT_SZ + 16 then w
         else get_physical_address (vm_tables v) dir w))"
proof -
  define w where "w = mod_addr div MEMUNIT_SZ * MEMUNIT_SZ"
  have wa: "w \<le> mod_addr" by (simp add: w_def div_mult_le_self)
  have w: "MEMUNIT_SZ dvd w" "w div MEMUNIT_SZ = mod_addr div MEMUNIT_SZ" "w + (0 + 16) * MEMUNIT_SZ \<le> 2 ^ 48"
      "mod_addr + (0 + 16) * MEMUNIT_SZ \<le> 2 ^ 39" "0 + 16 \<le> (2 :: nat) ^ 19"
    using assms(4) wa by (simp_all add: w_def)
  have "missing v dir (w div MEMUNIT_SZ + 0) 16 \<le> 2"
    using missing_le [of v dir "w div MEMUNIT_SZ + 0" 16] leaf_tables_le(2) [of "w div MEMUNIT_SZ + 0" 16] by simp
  then have "27 * missing v dir (w div MEMUNIT_SZ + 0) 16 \<le> slots ss" "3 * missing v dir (w div MEMUNIT_SZ + 0) 16 \<le> npages A"
    using assms(2,3) by linarith+
  from set_mapping_loop_ok [OF assms(1) this w(4,1,3,5), of f True False] obtain v' ss' A' where
    s: "set_mapping_loop (Suc f) dir w mod_addr True False [0..<0 + 16] v = Some (True, v')" "vm_inv v' ss' A' dir"
      "\<forall>u < 2 ^ 48. translate (vm_tables v') dir u =
        (if w div MEMUNIT_SZ + 0 \<le> u div MEMUNIT_SZ \<and> u div MEMUNIT_SZ < w div MEMUNIT_SZ + 0 + 16
         then Some ((mod_addr div MEMUNIT_SZ + (u div MEMUNIT_SZ - w div MEMUNIT_SZ)) * MEMUNIT_SZ + u mod MEMUNIT_SZ)
         else translate (vm_tables v) dir u)" "\<forall>p. p \<notin> free_mem A \<longrightarrow> vm_bytes v' p = vm_bytes v p"
    unfolding tables_frame_def by blast
  have "MOD_SIZE div MEMUNIT_SZ = 16" by (simp add: MOD_SIZE_def)
  then have "set_mapping (Suc f) dir mod_addr mod_addr (MOD_SIZE div MEMUNIT_SZ) True False v = Some (True, v')"
    using s(1) by (simp add: set_mapping_def w_def)
  moreover have "\<forall>u < 2 ^ 48. get_physical_address (vm_tables v') dir u =
        (if mod_addr div MEMUNIT_SZ \<le> u div MEMUNIT_SZ \<and> u div MEMUNIT_SZ < mod_addr div MEMUNIT_SZ + 16 then u
         else get_physical_address (vm_tables v) dir u)"
    using s(3) by (simp add: get_physical_address_translate w(2))
  ultimately show ?thesis using s(2,4) by blast
qed

text \<open>
  \<open>awaits st a t c ct msgs\<close>: \<^verbatim>\<open>init\<close>, the task \<open>ct\<close> at \<open>c\<close>, is running, and the setup module, the task \<open>t\<close> at \<open>a\<close>, receives from
  it; the mailbox of the module holds \<open>msgs\<close>.
\<close>

definition awaits :: "kstate \<Rightarrow> ptr \<Rightarrow> task_struct \<Rightarrow> ptr \<Rightarrow> task_struct \<Rightarrow> message list \<Rightarrow> bool" where
  "awaits st a t c ct msgs \<longleftrightarrow> tasks_ok st \<and> get_task_by_pid SETUP_SERVICE st = Some a \<and> a \<noteq> NULL \<and> tasks st a = Some t
     \<and> current_task st = Some c \<and> tasks st c = Some ct \<and> c \<noteq> a \<and> pid ct = INIT_SERVICE \<and> allow_pid (tk_ipc_info t) = INIT_SERVICE
     \<and> mailbox st a msgs \<and> (\<exists>ps. receptive st (msg_handler_thread (tk_ipc_info t)) ps)"

definition same_box :: "task_struct \<Rightarrow> task_struct \<Rightarrow> bool" where
  "same_box t t' \<longleftrightarrow> tk_mm_info t' = tk_mm_info t \<and> mail (tk_ipc_info t') = mail (tk_ipc_info t)
     \<and> mail_size (tk_ipc_info t') = mail_size (tk_ipc_info t)"

lemma ring_mem_same: "same_box t t' \<Longrightarrow> vm_tables v' = vm_tables v \<Longrightarrow>
  ring_mem v' (pgd (tk_mm_info t')) (tk_ipc_info t') = ring_mem v (pgd (tk_mm_info t)) (tk_ipc_info t)"
  by (simp add: same_box_def ring_mem_def)

lemma mailbox_used: "mailbox st a msgs \<Longrightarrow> tasks st a = Some t \<Longrightarrow> unat (used_size (tk_ipc_info t)) = length (stream msgs)"
  by (auto simp: mailbox_def holds_msgs_def)

lemma INIT_not_dummy: "INIT_SERVICE \<noteq> DUMMY_TASK"
  by (simp add: INIT_SERVICE_def DUMMY_TASK_def)

lemma awaits_send:
  assumes w: "awaits st a t c ct msgs" and n: "n < 65536"
    and room: "length (stream msgs) + 8 + n \<le> unat (mail_size (tk_ipc_info t))"
    and src: "source_ok (vm st) (pgd (tk_mm_info ct)) src n (ring_mem (vm st) (pgd (tk_mm_info t)) (tk_ipc_info t))"
  shows "\<exists>st' t' pack. init_send e src n SETUP_SERVICE st = Some (True, st')
    \<and> awaits st' a t' c ct (msgs @ [(pack, source_bytes (vm st) (pgd (tk_mm_info ct)) src n)]) \<and> same_box t t'
    \<and> message_no pack = MSG_NORMAL_IPC \<and> mp_source pack = of_int INIT_SERVICE
    \<and> vm_tables (vm st') = vm_tables (vm st) \<and> vm_km (vm st') = vm_km (vm st)"
proof -
  obtain ts ps where u: "task_chain st ts" "get_task_by_pid SETUP_SERVICE st = Some a" "a \<noteq> NULL" "tasks st a = Some t"
      "current_task st = Some c" "tasks st c = Some ct" "c \<noteq> a" "pid ct = INIT_SERVICE" "allow_pid (tk_ipc_info t) = INIT_SERVICE"
      "mailbox st a msgs" "receptive st (msg_handler_thread (tk_ipc_info t)) ps"
    using w by (auto simp: awaits_def tasks_ok_def)
  have "unat (used_size (tk_ipc_info t)) + 8 + n \<le> unat (mail_size (tk_ipc_info t))"
    using room mailbox_used [OF u(10,4)] by simp
  moreover have "allow_pid (tk_ipc_info t) = pid ct" "pid ct \<noteq> DUMMY_TASK" using u(8,9) INIT_not_dummy by simp_all
  ultimately obtain st' st1 pack k where s0: "init_send e src n SETUP_SERVICE st = Some (True, st')" "st1 = st\<lparr>msgid_counter := k\<rparr>"
      "delivered a t st1 st'" "message_no pack = MSG_NORMAL_IPC" "mp_source pack = of_int (pid ct)"
      "mailbox st' a (msgs @ [(pack, source_bytes (vm st) (pgd (tk_mm_info ct)) src n)])"
      "\<exists>qs. receptive st' (msg_handler_thread (tk_ipc_info t)) qs"
    using init_send_ok [OF u(10,2,3,4,5,6) _ _ n _ src u(11), of e] by blast
  then have s: "init_send e src n SETUP_SERVICE st = Some (True, st')" "delivered a t (st\<lparr>msgid_counter := k\<rparr>) st'"
      "message_no pack = MSG_NORMAL_IPC" "mp_source pack = of_int INIT_SERVICE"
      "mailbox st' a (msgs @ [(pack, source_bytes (vm st) (pgd (tk_mm_info ct)) src n)])"
      "\<exists>qs. receptive st' (msg_handler_thread (tk_ipc_info t)) qs"
    using u(8) by simp_all
  let ?s = "st\<lparr>msgid_counter := k\<rparr>"
  have c: "task_chain ?s ts" "tasks ?s a = Some t" "current_task ?s = Some c" "get_task_by_pid SETUP_SERVICE ?s = Some a"
    using u by (simp_all add: task_chain_def current_task_def get_task_by_pid_def)
  obtain x y where t': "tasks st' = (tasks st)(a \<mapsto> t\<lparr>tk_ipc_info := (tk_ipc_info t)\<lparr>used_size := x, write_ptr := y\<rparr>\<rparr>)"
    using s(2) by (auto simp: delivered_def)
  let ?t = "t\<lparr>tk_ipc_info := (tk_ipc_info t)\<lparr>used_size := x, write_ptr := y\<rparr>\<rparr>"
  have "awaits st' a ?t c ct (msgs @ [(pack, source_bytes (vm st) (pgd (tk_mm_info ct)) src n)])"
    using delivered_find(1) [OF s(2) c(2,1)] delivered_find(2) [OF s(2) c(2,1), of SETUP_SERVICE] delivered_current [OF s(2) c(3)] c(4) u t' s(5,6)
    by (auto simp: awaits_def tasks_ok_def)
  moreover have "same_box t ?t" by (simp add: same_box_def)
  ultimately show ?thesis using s unfolding delivered_def by (intro exI [of _ st'] exI [of _ ?t] exI [of _ pack]) simp
qed

lemma awaits_store:
  assumes w: "awaits st a t c ct msgs" and d: "{p..<p + length bs} \<inter> ring_mem (vm st) (pgd (tk_mm_info t)) (tk_ipc_info t) = {}"
  shows "awaits (kstore p bs st) a t c ct msgs"
proof -
  have f: "tasks (kstore p bs st) = tasks st" "threads (kstore p bs st) = threads st" "task_list (kstore p bs st) = task_list st"
    "current_thread (kstore p bs st) = current_thread st" "vm_tables (vm (kstore p bs st)) = vm_tables (vm st)"
    "level0_head (kstore p bs st) = level0_head st" "level0_tail (kstore p bs st) = level0_tail st"
    by (simp_all add: kstore_def)
  have m: "mailbox st a msgs" "tasks st a = Some t" using w by (simp_all add: awaits_def)
  have "vm_bytes (vm (kstore p bs st)) r = vm_bytes (vm st) r" if "r \<in> ring_mem (vm st) (pgd (tk_mm_info t)) (tk_ipc_info t)" for r
  proof -
    have "r \<notin> {p..<p + length bs}" using d that by blast
    then show ?thesis by (simp add: kstore_def store_bytes_outside not_le not_less)
  qed
  then have "mailbox (kstore p bs st) a msgs" by (intro mailbox_frame [OF m]) (simp_all add: f m(2))
  then show ?thesis
    using w by (simp add: awaits_def tasks_ok_def task_chain_def get_task_by_pid_def current_task_def receptive_def ready0_def schedulable_def f)
qed

lemma stream_msg: "length (stream [(pack, bs)]) = 8 + length bs"
  by (simp add: msgpack_bytes_def)

lemma send_request_ok:
  assumes w: "awaits st a t c ct msgs" and name: "cstring (vm_bytes (vm st)) name xs" "length xs + 1 < 65536"
    and ident: "\<forall>v<hi. get_physical_address (vm_tables (vm st)) (pgd (tk_mm_info ct)) v = v"
    and r1: "0 < name" "name + (length xs + 1) \<le> hi"
      "{name..<name + (length xs + 1)} \<inter> ring_mem (vm st) (pgd (tk_mm_info t)) (tk_ipc_info t) = {}"
    and r2: "0 < ie_slot e" "ie_slot e + 8 \<le> hi" "{ie_slot e..<ie_slot e + 8} \<inter> ring_mem (vm st) (pgd (tk_mm_info t)) (tk_ipc_info t) = {}"
    and room: "length (stream msgs) + length xs + 25 \<le> unat (mail_size (tk_ipc_info t))"
  shows "\<exists>st' t' p q. send_request e name mod_addr st = Some st'
    \<and> awaits st' a t' c ct (msgs @ [(p, xs @ [0]), (q, le_bytes 8 mod_addr)]) \<and> same_box t t'
    \<and> message_no p = MSG_NORMAL_IPC \<and> mp_source p = of_int INIT_SERVICE \<and> message_no q = MSG_NORMAL_IPC \<and> mp_source q = of_int INIT_SERVICE
    \<and> vm_tables (vm st') = vm_tables (vm st) \<and> vm_km (vm st') = vm_km (vm st)"
proof -
  let ?n = "length xs + 1"
  have len: "nat (strlen (vm_bytes (vm st)) name + 1) = ?n" using strlen_cstring [OF name(1)] name(2) by simp
  have "source_ok (vm st) (pgd (tk_mm_info ct)) name ?n (ring_mem (vm st) (pgd (tk_mm_info t)) (tk_ipc_info t))"
    by (rule source_ok_identity [OF ident r1(2,1,3)])
  from awaits_send [OF w name(2) _ this, of e] room obtain st1 t1 p where s1: "init_send e name ?n SETUP_SERVICE st = Some (True, st1)"
      "awaits st1 a t1 c ct (msgs @ [(p, source_bytes (vm st) (pgd (tk_mm_info ct)) name ?n)])" "same_box t t1"
      "message_no p = MSG_NORMAL_IPC" "mp_source p = of_int INIT_SERVICE" "vm_tables (vm st1) = vm_tables (vm st)" "vm_km (vm st1) = vm_km (vm st)"
    by auto
  have b: "source_bytes (vm st) (pgd (tk_mm_info ct)) name ?n = xs @ [0]"
    using source_bytes_identity [OF ident r1(2)] cstring_bytes [OF name(1)] by simp
  note ring = ring_mem_same [OF s1(3,6)]
  let ?s = "kstore (ie_slot e) (le_bytes 8 mod_addr) st1"
  have w2: "awaits ?s a t1 c ct (msgs @ [(p, xs @ [0])])"
    using awaits_store [OF s1(2) [unfolded b], of "ie_slot e" "le_bytes 8 mod_addr"] r2(3) ring by (simp del: le_bytes.simps)
  have v: "vm_tables (vm ?s) = vm_tables (vm st)" "vm_km (vm ?s) = vm_km (vm st)" using s1(6,7) by (simp_all add: kstore_def)
  have ring2: "ring_mem (vm ?s) (pgd (tk_mm_info t1)) (tk_ipc_info t1) = ring_mem (vm st) (pgd (tk_mm_info t)) (tk_ipc_info t)"
    by (rule ring_mem_same [OF s1(3) v(1)])
  have ident2: "\<forall>u<hi. get_physical_address (vm_tables (vm ?s)) (pgd (tk_mm_info ct)) u = u" using ident v(1) by simp
  have src2: "source_ok (vm ?s) (pgd (tk_mm_info ct)) (ie_slot e) 8 (ring_mem (vm ?s) (pgd (tk_mm_info t1)) (tk_ipc_info t1))"
    unfolding ring2 by (rule source_ok_identity [OF ident2 r2(2,1,3)])
  have room2: "length (stream (msgs @ [(p, xs @ [0])])) + 8 + 8 \<le> unat (mail_size (tk_ipc_info t1))"
    using room s1(3) stream_msg [of p "xs @ [0]"] by (simp add: same_box_def del: stream_simps(2))
  from awaits_send [OF w2 _ room2 src2, of e] obtain st2 t2 q where s2: "init_send e (ie_slot e) 8 SETUP_SERVICE ?s = Some (True, st2)"
      "awaits st2 a t2 c ct ((msgs @ [(p, xs @ [0])]) @ [(q, source_bytes (vm ?s) (pgd (tk_mm_info ct)) (ie_slot e) 8)])" "same_box t1 t2"
      "message_no q = MSG_NORMAL_IPC" "mp_source q = of_int INIT_SERVICE" "vm_tables (vm st2) = vm_tables (vm ?s)" "vm_km (vm st2) = vm_km (vm ?s)"
    by auto
  have "map (vm_bytes (vm ?s)) [ie_slot e..<ie_slot e + 8] = le_bytes 8 mod_addr"
    by (rule nth_equalityI) (simp_all add: kstore_def store_bytes_inside del: le_bytes.simps)
  then have b2: "source_bytes (vm ?s) (pgd (tk_mm_info ct)) (ie_slot e) 8 = le_bytes 8 mod_addr"
    using source_bytes_identity [OF ident2 r2(2)] by simp
  have "send_request e name mod_addr st = Some st2"
    using s1(1) s2(1) by (simp add: send_request_def len)
  moreover have "same_box t t2" using s1(3) s2(3) by (simp add: same_box_def)
  moreover have "awaits st2 a t2 c ct (msgs @ [(p, xs @ [0]), (q, le_bytes 8 mod_addr)])"
    using s2(2) by (simp add: b2 del: le_bytes.simps)
  ultimately show ?thesis
    using s1(4,5) s2(4-7) v by (intro exI [of _ st2] exI [of _ t2] exI [of _ p] exI [of _ q]) (simp del: le_bytes.simps)
qed

lemma awaits_map:
  assumes w: "awaits st a t c ct msgs"
    and v: "\<forall>p\<in>ring_mem (vm st) (pgd (tk_mm_info t)) (tk_ipc_info t). vm_bytes v p = vm_bytes (vm st) p"
    and tabs: "\<forall>k<unat (mail_size (tk_ipc_info t)).
      phys v (pgd (tk_mm_info t)) (mail (tk_ipc_info t)) k = phys (vm st) (pgd (tk_mm_info t)) (mail (tk_ipc_info t)) k"
  shows "awaits (st\<lparr>vm := v\<rparr>) a t c ct msgs"
proof -
  have m: "mailbox st a msgs" "tasks st a = Some t" using w by (simp_all add: awaits_def)
  have "mailbox (st\<lparr>vm := v\<rparr>) a msgs" by (rule mailbox_frame [OF m]) (simp_all add: m(2) tabs v)
  then show ?thesis
    using w by (simp add: awaits_def tasks_ok_def task_chain_def get_task_by_pid_def current_task_def receptive_def ready0_def schedulable_def)
qed

text \<open>Waiting changes the waiting thread only, and the choice of the sender the waiting task only.\<close>

lemma await_answer:
  assumes w: "awaits st a t c ct msgs"
  shows "\<exists>st' ct'. do { st \<leftarrow> set_allow p st; check_ipc st } = Some st' \<and> vm st' = vm st \<and> tasks st' a = Some t
    \<and> mailbox st' a msgs \<and> tasks st' c = Some ct' \<and> allow_pid (tk_ipc_info ct') = p"
proof -
  let ?t = "ct\<lparr>tk_ipc_info := (tk_ipc_info ct)\<lparr>allow_pid := p\<rparr>\<rparr>"
  let ?s = "st\<lparr>tasks := (tasks st)(c \<mapsto> ?t)\<rparr>"
  have u: "tasks st a = Some t" "current_task st = Some c" "tasks st c = Some ct" "c \<noteq> a" "mailbox st a msgs"
    using w by (simp_all add: awaits_def)
  have s: "set_allow p st = Some ?s" using u by (simp add: set_allow_def upd_ipc_def upd_task_def)
  have m: "mailbox ?s a msgs" using u by (simp add: mailbox_def)
  obtain th where th: "threads st (current_thread st) = Some th" using u(2) by (auto simp: current_task_def)
  then have "\<exists>st'. check_ipc ?s = Some st' \<and> vm st' = vm ?s \<and> tasks st' = tasks ?s"
    using u(2) by (simp add: check_ipc_def current_task_def upd_thread_def)
  then obtain st' where "check_ipc ?s = Some st'" "vm st' = vm ?s" "tasks st' = tasks ?s" by blast
  then show ?thesis using s mailbox_cong [OF m] u by (intro exI [of _ st'] exI [of _ ?t]) simp
qed

lemma vm_inv_cong: "vm_km v' = vm_km v \<Longrightarrow> vm_tables v' = vm_tables v \<Longrightarrow> vm_inv v' ss A dir = vm_inv v ss A dir"
  by (simp add: vm_inv_def)

lemma request_file_ok:
  assumes w: "awaits st a t c ct msgs" and name: "cstring (vm_bytes (vm st)) name xs" "length xs + 1 < 65536"
    and ident: "\<forall>v<hi. get_physical_address (vm_tables (vm st)) (pgd (tk_mm_info ct)) v = v"
    and r1: "0 < name" "name + (length xs + 1) \<le> hi"
      "{name..<name + (length xs + 1)} \<inter> ring_mem (vm st) (pgd (tk_mm_info t)) (tk_ipc_info t) = {}"
    and r2: "0 < ie_slot e" "ie_slot e + 8 \<le> hi" "{ie_slot e..<ie_slot e + 8} \<inter> ring_mem (vm st) (pgd (tk_mm_info t)) (tk_ipc_info t) = {}"
    and room: "length (stream msgs) + length xs + 25 \<le> unat (mail_size (tk_ipc_info t))"
    and inv: "vm_inv (vm st) ss A (pgd (tk_mm_info t))" "54 \<le> slots ss" "6 \<le> npages A"
      "ring_mem (vm st) (pgd (tk_mm_info t)) (tk_ipc_info t) \<inter> free_mem A = {}" and f: "ie_fuel e = Suc f"
    and buf: "mod_addr + 0x10000 \<le> 2 ^ 31" and box: "mail (tk_ipc_info t) + unat (mail_size (tk_ipc_info t)) \<le> 2 ^ 48"
      "\<forall>k<unat (mail_size (tk_ipc_info t)). (mail (tk_ipc_info t) + k) div MEMUNIT_SZ \<notin> {mod_addr div MEMUNIT_SZ..<mod_addr div MEMUNIT_SZ + 16}"
  shows "\<exists>st' ct' p q. request_file e name mod_addr st = Some st'
    \<and> mailbox st' a (msgs @ [(p, xs @ [0]), (q, le_bytes 8 mod_addr)])
    \<and> message_no p = MSG_NORMAL_IPC \<and> mp_source p = of_int INIT_SERVICE \<and> message_no q = MSG_NORMAL_IPC \<and> mp_source q = of_int INIT_SERVICE
    \<and> tasks st' c = Some ct' \<and> allow_pid (tk_ipc_info ct') = SETUP_SERVICE
    \<and> (\<forall>w < 2 ^ 48. get_physical_address (vm_tables (vm st')) (pgd (tk_mm_info t)) w =
        (if mod_addr div MEMUNIT_SZ \<le> w div MEMUNIT_SZ \<and> w div MEMUNIT_SZ < mod_addr div MEMUNIT_SZ + 16 then w
         else get_physical_address (vm_tables (vm st)) (pgd (tk_mm_info t)) w))"
proof -
  obtain st1 t1 p q where s1: "send_request e name mod_addr st = Some st1"
      "awaits st1 a t1 c ct (msgs @ [(p, xs @ [0]), (q, le_bytes 8 mod_addr)])" "same_box t t1"
      "message_no p = MSG_NORMAL_IPC" "mp_source p = of_int INIT_SERVICE" "message_no q = MSG_NORMAL_IPC" "mp_source q = of_int INIT_SERVICE"
      "vm_tables (vm st1) = vm_tables (vm st)" "vm_km (vm st1) = vm_km (vm st)"
    using send_request_ok [OF w name ident r1 r2 room] by blast
  have same: "pgd (tk_mm_info t1) = pgd (tk_mm_info t)" "mail (tk_ipc_info t1) = mail (tk_ipc_info t)"
    "mail_size (tk_ipc_info t1) = mail_size (tk_ipc_info t)" using s1(3) by (simp_all add: same_box_def)
  have "vm_inv (vm st1) ss A (pgd (tk_mm_info t))" using inv(1) vm_inv_cong [OF s1(9,8)] by simp
  from map_buffer_ok [OF this inv(2,3) buf, of f] obtain v where
    v: "set_mapping (Suc f) (pgd (tk_mm_info t)) mod_addr mod_addr (MOD_SIZE div MEMUNIT_SZ) True False (vm st1) = Some (True, v)"
      "\<forall>p. p \<notin> free_mem A \<longrightarrow> vm_bytes v p = vm_bytes (vm st1) p"
      "\<forall>w < 2 ^ 48. get_physical_address (vm_tables v) (pgd (tk_mm_info t)) w =
        (if mod_addr div MEMUNIT_SZ \<le> w div MEMUNIT_SZ \<and> w div MEMUNIT_SZ < mod_addr div MEMUNIT_SZ + 16 then w
         else get_physical_address (vm_tables (vm st1)) (pgd (tk_mm_info t)) w)" by blast
  have "get_task_by_pid SETUP_SERVICE st1 = Some a" "tasks st1 a = Some t1" using s1(2) by (simp_all add: awaits_def)
  then have m: "map_buffer e mod_addr st1 = Some (st1\<lparr>vm := v\<rparr>)" using v(1) by (simp add: map_buffer_def f same)
  have "phys v (pgd (tk_mm_info t1)) (mail (tk_ipc_info t1)) k = phys (vm st1) (pgd (tk_mm_info t1)) (mail (tk_ipc_info t1)) k"
    if "k < unat (mail_size (tk_ipc_info t1))" for k
  proof -
    have "mail (tk_ipc_info t) + k < 2 ^ 48" using that box(1) same(3) by simp
    then show ?thesis using v(3) box(2) that by (auto simp: same)
  qed
  note phys = this
  have "ring_mem (vm st1) (pgd (tk_mm_info t1)) (tk_ipc_info t1) = ring_mem (vm st) (pgd (tk_mm_info t)) (tk_ipc_info t)"
    unfolding ring_mem_def by (simp add: same s1(8))
  then have keep: "\<forall>p\<in>ring_mem (vm st1) (pgd (tk_mm_info t1)) (tk_ipc_info t1). vm_bytes v p = vm_bytes (vm st1) p"
    using v(2) inv(4) by auto
  from phys have w2: "awaits (st1\<lparr>vm := v\<rparr>) a t1 c ct (msgs @ [(p, xs @ [0]), (q, le_bytes 8 mod_addr)])"
    by (intro awaits_map [OF s1(2) keep]) blast
  obtain st' ct' where s': "do { st \<leftarrow> set_allow SETUP_SERVICE (st1\<lparr>vm := v\<rparr>); check_ipc st } = Some st'"
      "vm st' = vm (st1\<lparr>vm := v\<rparr>)" "mailbox st' a (msgs @ [(p, xs @ [0]), (q, le_bytes 8 mod_addr)])"
      "tasks st' c = Some ct'" "allow_pid (tk_ipc_info ct') = SETUP_SERVICE"
    using await_answer [OF w2, of SETUP_SERVICE] by blast
  have "request_file e name mod_addr st = Some st'" using s1(1) m s'(1) by (simp add: request_file_def)
  then show ?thesis
    using s1(4-7) s'(2-5) v(3) s1(8) by (intro exI [of _ st'] exI [of _ ct'] exI [of _ p] exI [of _ q]) simp
qed

end
