(* ===== verification/VideoCalls.thy ===== *)
theory VideoCalls
  imports Video
begin

text \<open>
  The procedures of the video driver in \<^verbatim>\<open>module/driver/video/text.c\<close> behind the stubs of \<open>VideoStubs\<close>, and the handler of
  \<^verbatim>\<open>main.c\<close>.  The lemmas follow a call of \<^verbatim>\<open>write_char\<close> to the screen, and show which framebuffer a client can ask for.
\<close>

section \<open>The procedures\<close>

text \<open>The variables of the driver.  Its memory is that of the library; the operations of \<open>Video\<close> count addresses as integers.\<close>

record driver =
  dr_info :: video_info
  dr_frames :: frames
  dr_cur_id :: int

definition on_memory :: "((int \<Rightarrow> u8) \<Rightarrow> (int \<Rightarrow> u8)) \<Rightarrow> kmod \<Rightarrow> kmod" where
  "on_memory f k = k\<lparr>lib_mem := (\<lambda>p. f (\<lambda>a. lib_mem k (nat a)) (int p))\<rparr>"

definition wrapper_write_char :: "driver procedure" where
  "wrapper_write_char caller f args = (\<lambda>(k, x).
     let (col, p) = lib_arg_read (ra_data args) 4 k;
         (ln, p) = lib_arg_read p 4 k;
         (clr, p) = lib_arg_read p 1 k;
         (ch, p) = lib_arg_read p 1 k;
         k = on_memory (write_char (dr_info x) (int_of col) (int_of ln) (of_nat clr) (of_nat ch)) k
     in give_result SIZEOF_BOOL [1] (k, x))"

definition wrapper_write_string :: "driver procedure" where
  "wrapper_write_string caller f args = (\<lambda>(k, x). do {
     (res, k) \<leftarrow> lib_malloc (int (unat SIZEOF_BOOL)) k;
     if res = NULL then None
     else do {
       let (col, p) = lib_arg_read (ra_data args) 4 k;
       let (ln, p) = lib_arg_read p 4 k;
       let (clr, p) = lib_arg_read p 1 k;
       let (num, p) = lib_arg_read p 4 k;
       let draw = write_string (dr_info x) (ra_size args) (int_of col) (int_of ln) (of_nat clr) (int_of num)
                    (lib_bytes p (nat (int_of num)) k);
       let ok = fst (draw (\<lambda>a. lib_mem k (nat a)));
       let k = on_memory (\<lambda>m. snd (draw m)) k;
       Some (mk_args res (int (unat SIZEOF_BOOL)), lib_store res [of_bool ok] k, x)
     }
   })"

text \<open>
  \<^verbatim>\<open>wrapper_create_framebuffer\<close>: \<open>shm\<close> gives the results of \<^verbatim>\<open>create_share_memory\<close> and \<^verbatim>\<open>share_memory\<close>, which the system
  task answers, and \<open>np\<close> and \<open>fp\<close> the blocks of the node and the frame.
\<close>

definition wrapper_create_framebuffer :: "nat \<times> nat \<Rightarrow> ptr \<Rightarrow> ptr \<Rightarrow> driver procedure" where
  "wrapper_create_framebuffer shm np fp caller f args = (\<lambda>(k, x). do {
     let (col, p) = lib_arg_read (ra_data args) 4 k;
     let (ln, p) = lib_arg_read p 4 k;
     let (w, p) = lib_arg_read p 4 k;
     let (h, p) = lib_arg_read p 4 k;
     ((fb, i), cur_id, s) \<leftarrow> create_framebuffer (dr_info x) (int_of col) (int_of ln) (int_of w) (int_of h) (fst shm) (snd shm) np fp
       (dr_cur_id x, dr_frames x);
     give_result SIZEOF_CREATE_RESULT (le_bytes 8 fb @ le_bytes 4 (int_arg i)) (k, x\<lparr>dr_cur_id := cur_id, dr_frames := s\<rparr>)
   })"

text \<open>
  \<^verbatim>\<open>__swap_framebuffer\<close>.  A frame of the whole screen is copied.  The cells of any other frame go through the stub
  \<^verbatim>\<open>write_char\<close>, each a remote call to the driver itself, which another thread of the driver serves while this one waits;
  \<open>buffer\<close> is the array of the stub and \<open>sig p\<close> the semaphore of the call for the cell \<open>p\<close>.  A cell is read when its call is
  made; the frame itself is not changed once it is stored.
\<close>

primrec swap_cells :: "driver world \<Rightarrow> nat \<Rightarrow> (int \<times> int \<Rightarrow> u32) \<Rightarrow> frame \<Rightarrow> (int \<times> int) list \<Rightarrow> kmod \<times> driver \<Rightarrow>
    (kmod \<times> driver) option" where
  "swap_cells w buffer sig f [] s = Some s"
| "swap_cells w buffer sig f (p # ps) s = do {
     let ch = lib_mem (fst s) (nat (cell_in f p));
     let clr = lib_mem (fst s) (nat (cell_in f p + 1));
     (_, s) \<leftarrow> nested_call w (call_write_char buffer (wrap32 (column f + fst p)) (wrap32 (line f + snd p)) clr ch (sig p))
       TEXT_WRITE_CHAR_FN SIZEOF_BOOL s;
     swap_cells w buffer sig f ps s
   }"

definition swap_framebuffer :: "driver world \<Rightarrow> nat \<Rightarrow> (int \<times> int \<Rightarrow> u32) \<Rightarrow> int \<Rightarrow> kmod \<times> driver \<Rightarrow> (kmod \<times> driver) option" where
  "swap_framebuffer w buffer sig i = (\<lambda>(k, x). do {
     p \<leftarrow> get_framebuffer i (dr_frames x);
     f \<leftarrow> fb_frames (dr_frames x) p;
     if full_screen (dr_info x) f
     then (let n = wrap32 (wrap32 (width f * height f) * 2) in
       if n < 0 then None
       else Some (on_memory (copy_bytes (nat n) (vi_framebuffer (dr_info x)) (int (framebuffer f))) k, x))
     else swap_cells w buffer sig f (cells_of f) (k, x)
   })"

definition wrapper_swap_framebuffer :: "driver world \<Rightarrow> nat \<Rightarrow> (int \<times> int \<Rightarrow> u32) \<Rightarrow> driver procedure" where
  "wrapper_swap_framebuffer w buffer sig caller f args = (\<lambda>(k, x). do {
     let (i, p) = lib_arg_read (ra_data args) 4 k;
     s \<leftarrow> swap_framebuffer w buffer sig (int_of i) (k, x);
     give_result SIZEOF_BOOL [1] s
   })"

section \<open>Starting\<close>

definition ANY_SENDER :: int where "ANY_SENDER = -1"

text \<open>The message of \<^verbatim>\<open>init\<close> with the screen; the driver then receives from every task.\<close>

definition video_ipc_handler :: "int \<Rightarrow> ptr \<Rightarrow> kmod \<times> driver \<Rightarrow> int \<times> kmod \<times> driver" where
  "video_ipc_handler caller msg = (\<lambda>(k, x).
     (ANY_SENDER, k, x\<lparr>dr_info := \<lparr>vi_framebuffer = int (le_val (lib_bytes msg 8 k)), vi_width = int_of (le_val (lib_bytes (msg + 8) 4 k)),
        vi_height = int_of (le_val (lib_bytes (msg + 12) 4 k)), is_graphic_mode = lib_bytes (msg + 16) 1 k \<noteq> [0]\<rparr>\<rparr>))"

definition text_register_rpc_functions :: "nat \<times> nat \<Rightarrow> ptr \<Rightarrow> ptr \<Rightarrow> driver world \<Rightarrow> nat \<Rightarrow> (int \<times> int \<Rightarrow> u32) \<Rightarrow> kmod \<times> driver server \<Rightarrow> (kmod \<times> driver server) option" where
  "text_register_rpc_functions shm np fp w buffer sig s = do {
     s \<leftarrow> lib_rpc_register TEXT_WRITE_CHAR_FN wrapper_write_char SIZEOF_BOOL (of_nat TEXT_WRITE_CHAR_ARGS_SIZE) s;
     s \<leftarrow> lib_rpc_register TEXT_WRITE_STRING_FN wrapper_write_string SIZEOF_BOOL (- 1) s;
     s \<leftarrow> lib_rpc_register CREATE_FRAMEBUFFER_FN (wrapper_create_framebuffer shm np fp) SIZEOF_CREATE_RESULT
            (of_nat CREATE_FRAMEBUFFER_ARGS_SIZE) s;
     lib_rpc_register SWAP_FRAMEBUFFER_FN (wrapper_swap_framebuffer w buffer sig) SIZEOF_BOOL (of_nat SWAP_FRAMEBUFFER_ARGS_SIZE) s
   }"

section \<open>A character on the screen\<close>

lemma write_char_args_read:
  assumes "lib_bytes p 10 k = le_bytes 4 c @ le_bytes 4 l @ [clr, ch]" and "c < 256 ^ 4" "l < 256 ^ 4"
  shows "lib_arg_read p 4 k = (c, p + 4)" "lib_arg_read (p + 4) 4 k = (l, p + 8)"
    "lib_arg_read (p + 8) 1 k = (unat clr, p + 9)" "lib_arg_read (p + 9) 1 k = (unat ch, p + 10)"
proof -
  have b: "lib_bytes p (length (le_bytes 4 c @ le_bytes 4 l @ [clr, ch])) k = le_bytes 4 c @ le_bytes 4 l @ [clr, ch]"
    using assms(1) by simp
  note r = lib_arg_read_part [OF b]
  show "lib_arg_read p 4 k = (c, p + 4)" "lib_arg_read (p + 4) 4 k = (l, p + 8)"
    "lib_arg_read (p + 8) 1 k = (unat clr, p + 9)" "lib_arg_read (p + 9) 1 k = (unat ch, p + 10)"
    using r [of 0 4] r [of 4 4] r [of 8 1] r [of 9 1] assms(2,3) by (simp_all del: le_bytes.simps)
qed

lemma wrapper_write_char_eq:
  assumes "lib_bytes (ra_data args) 10 k = le_bytes 4 (int_arg col) @ le_bytes 4 (int_arg ln) @ [clr, ch]"
    and "- (2 ^ 31) \<le> col" "col < 2 ^ 31" "- (2 ^ 31) \<le> ln" "ln < 2 ^ 31"
  shows "wrapper_write_char caller f args (k, x) =
    give_result SIZEOF_BOOL [1] (on_memory (write_char (dr_info x) col ln clr ch) k, x)"
  using write_char_args_read [OF assms(1) int_arg_less int_arg_less] int_of_arg [OF assms(2,3)] int_of_arg [OF assms(4,5)]
  by (simp add: wrapper_write_char_def)

text \<open>The address of a cell of the screen, and the positions that are on the screen.\<close>

definition cell_at :: "video_info \<Rightarrow> int \<Rightarrow> int \<Rightarrow> int" where
  "cell_at vi col ln = vi_framebuffer vi + (ln * vi_width vi + col) * 2"

definition on_screen :: "video_info \<Rightarrow> int \<Rightarrow> int \<Rightarrow> bool" where
  "on_screen vi col ln \<longleftrightarrow> 0 \<le> col \<and> col < vi_width vi \<and> 0 \<le> ln \<and> ln < vi_height vi
     \<and> 0 \<le> vi_framebuffer vi \<and> vi_width vi * vi_height vi * 2 < 2 ^ 31"

lemma on_screen_cell:
  assumes "on_screen vi col ln"
  shows "0 \<le> cell_at vi col ln" and "vi_framebuffer vi + cell_offset (vi_width vi) col ln = cell_at vi col ln"
    and "col < 2 ^ 31" "ln < 2 ^ 31"
proof -
  let ?w = "vi_width vi" and ?h = "vi_height vi"
  have a: "0 \<le> col" "col < ?w" "0 \<le> ln" "ln < ?h" "0 \<le> vi_framebuffer vi" "?w * ?h * 2 < 2 ^ 31"
    using assms by (simp_all add: on_screen_def)
  have "ln * ?w + ?w \<le> ?h * ?w" using mult_right_mono [of "ln + 1" ?h ?w] a by (simp add: algebra_simps)
  then have b: "(ln * ?w + col) * 2 < 2 ^ 31" "0 \<le> ln * ?w" using a by (simp_all add: mult.commute)
  then show "vi_framebuffer vi + cell_offset ?w col ln = cell_at vi col ln"
    using a(1) by (simp add: cell_offset_def cell_at_def wrap32_id)
  show "0 \<le> cell_at vi col ln" using a b(2) by (simp add: cell_at_def)
  have "?w * 1 \<le> ?w * ?h" "1 * ?h \<le> ?w * ?h" using a by (intro mult_left_mono mult_right_mono; simp)+
  moreover have "?w * ?h < 1073741824" using a(6) by (simp add: mult.commute)
  ultimately have "col < 1073741824" "ln < 1073741824" using a(1-4) by linarith+
  then show "col < 2 ^ 31" "ln < 2 ^ 31" by simp_all
qed

lemma on_memory_write_char:
  assumes "on_screen vi col ln"
  shows "lib_mem (on_memory (write_char vi col ln clr ch) k) =
    (lib_mem k)(nat (cell_at vi col ln) := ch, nat (cell_at vi col ln) + 1 := clr)"
proof
  fix p
  have "int p = cell_at vi col ln \<longleftrightarrow> p = nat (cell_at vi col ln)"
    "int p = cell_at vi col ln + 1 \<longleftrightarrow> p = nat (cell_at vi col ln) + 1" using on_screen_cell(1) [OF assms] by auto
  then show "lib_mem (on_memory (write_char vi col ln clr ch) k) p =
      ((lib_mem k)(nat (cell_at vi col ln) := ch, nat (cell_at vi col ln) + 1 := clr)) p"
    by (simp add: on_memory_def write_char_def on_screen_cell(2) [OF assms])
qed

lemma on_memory_frame [simp]: "lib_heap (on_memory g k) = lib_heap k" "lib_chunks (on_memory g k) = lib_chunks k"
  by (simp_all add: on_memory_def)

text \<open>The end of a procedure: the result \<open>true\<close> in a block of its own, and the answer to the client.\<close>

lemma result_answered:
  assumes mr: "lib_malloc 1 k = Some (r, k1)" "r \<noteq> NULL" "r < 2 ^ 44"
    and mq: "lib_malloc 9 k1 = Some (q, k2)" "q \<noteq> NULL" and apart: "q + 9 \<le> r \<or> r + 1 \<le> q"
    and rel: "release [r, q] k2 = Some kf" and s: "lib_heap s = lib_heap k" "lib_chunks s = lib_chunks k"
  shows "\<exists>k3 k'. give_result SIZEOF_BOOL [1] (s, x) = Some (mk_args r 1, k3, x)
    \<and> lib_answer pack f SIZEOF_BOOL (mk_args r 1) k3 = Some ([SendMsg \<lparr>no_reserved = 0, no_message = MSG_RPC_RESULT,
        no_msg_id = msg_id pack\<rparr> (le_bytes 8 (unat f) @ [1]) (uint (mp_source pack))], k')
    \<and> lib_mem k' = store_bytes ((lib_mem s)(r := 1)) q (le_bytes 8 (unat f) @ [1])"
proof -
  let ?k3 = "lib_store r [1] (s\<lparr>lib_chunks := lib_chunks k1\<rparr>)"
  have g: "give_result SIZEOF_BOOL [1] (s, x) = Some (mk_args r 1, ?k3, x)"
    using give_result_ok [of SIZEOF_BOOL k r k1 s "[1]" x] mr s by (simp add: SIZEOF_BOOL_def)
  have a: "ra_data (mk_args r 1) = r" "ra_size (mk_args r 1) = 1" using mr(3) by (simp_all add: mk_args_def)
  have h: "lib_heap ?k3 = lib_heap k1" "lib_chunks ?k3 = lib_chunks k1"
    using lib_malloc_frame(2) [OF mr(1) refl refl] s by simp_all
  have m: "lib_malloc (int (8 + 1)) ?k3 = Some (q, ?k3\<lparr>lib_chunks := lib_chunks k2\<rparr>)"
    using lib_malloc_frame(1) [OF mq(1) h] by simp
  have "\<exists>sf. release [ra_data (mk_args r 1), q] (?k3\<lparr>lib_chunks := lib_chunks k2\<rparr>) = Some sf"
    using release_frame [OF rel, of "?k3\<lparr>lib_chunks := lib_chunks k2\<rparr>"] h lib_malloc_frame(2) [OF mq(1) refl refl] a by simp
  then obtain sf where sf: "release [ra_data (mk_args r 1), q] (?k3\<lparr>lib_chunks := lib_chunks k2\<rparr>) = Some sf" by blast
  have b: "lib_bytes r 1 ?k3 = [1]" by (rule lib_bytes_store) simp
  have mem: "lib_mem ?k3 = (lib_mem s)(r := 1)" by (simp add: lib_store_def)
  show ?thesis
    using g lib_answer_ok [OF m mq(2) _ _ _ sf, of SIZEOF_BOOL pack f] apart b mem by (auto simp: a SIZEOF_BOOL_def simp del: le_bytes.simps)
qed

section \<open>Calls\<close>

lemma call_write_char_ok:
  assumes call: "call_write_char buffer col ln clr ch sig c = Some ([SendMsg no body dst], rd, params, c')"
    and buffer: "buffer + 10 \<le> params \<or> params + 16 \<le> buffer" "buffer < 2 ^ 44"
    and msg: "lib_bytes msg (length body) k = body" "msg + 16 < 2 ^ 44"
    and reg: "registered sv TEXT_WRITE_CHAR_FN wrapper_write_char SIZEOF_BOOL (of_nat TEXT_WRITE_CHAR_ARGS_SIZE)"
    and cell: "on_screen (dr_info x) col ln"
    and mr: "lib_malloc 1 k = Some (r, k1)" "r \<noteq> NULL" "r < 2 ^ 44"
    and mq: "lib_malloc 9 k1 = Some (q, k2)" "q \<noteq> NULL" and apart: "q + 9 \<le> r \<or> r + 1 \<le> q"
    and rel: "release [r, q] k2 = Some kf"
  shows "dst = VIDEO_SERVICE \<and> (\<exists>k'. lib_deal_request sv pack msg (k, x) =
      Some ([SendMsg \<lparr>no_reserved = 0, no_message = MSG_RPC_RESULT, no_msg_id = msg_id pack\<rparr>
        (le_bytes 8 (unat TEXT_WRITE_CHAR_FN) @ [1]) (uint (mp_source pack))], k', x)
    \<and> (\<forall>a. a \<noteq> r \<longrightarrow> a \<notin> {q..<q + 9} \<longrightarrow> lib_mem k' a =
        ((lib_mem k)(nat (cell_at (dr_info x) col ln) := ch, nat (cell_at (dr_info x) col ln) + 1 := clr)) a))"
proof -
  let ?a = "mk_args buffer (int TEXT_WRITE_CHAR_ARGS_SIZE)" and ?c = "write_char_args buffer col ln clr ch c"
  have a: "ra_data ?a = buffer" "ra_size ?a = 10" using buffer(2) by (simp_all add: mk_args_def TEXT_WRITE_CHAR_ARGS_SIZE_def)
  obtain p info where i: "lib_find_process TEXT_WRITE_CHAR_FN sv = Some p" "p \<noteq> NULL" "sv_infos sv p = Some info"
      "li_process info = wrapper_write_char" "li_return_size info = SIZEOF_BOOL" "li_args_size info = of_int (ra_size ?a)"
    using reg a(2) by (auto simp: registered_def TEXT_WRITE_CHAR_ARGS_SIZE_def)
  have "ra_data ?a + nat (ra_size ?a) \<le> params \<or> params + 16 \<le> ra_data ?a" "ra_size ?a < 2 ^ 19" using buffer(1) a by simp_all
  note run = remote_call_runs [OF call [unfolded call_write_char_def] this msg(1) i(1-3), OF disjI1 [OF i(6)] disjI1 [OF i(5)]]
  have "lib_bytes (ra_data (mk_args (msg + 16) 10)) 10 k = le_bytes 4 (int_arg col) @ le_bytes 4 (int_arg ln) @ [clr, ch]"
    using run(2) msg(2) by (simp add: a write_char_args_eq lib_bytes_store del: le_bytes.simps) (simp add: mk_args_def)
  note bytes = this
  let ?s = "on_memory (write_char (dr_info x) col ln clr ch) k"
  have "0 \<le> col" "0 \<le> ln" using cell by (simp_all add: on_screen_def)
  then have proc: "wrapper_write_char (uint (mp_source pack)) TEXT_WRITE_CHAR_FN (mk_args (msg + 16) 10) (k, x) =
      give_result SIZEOF_BOOL [1] (?s, x)"
    using wrapper_write_char_eq [OF bytes] on_screen_cell(3,4) [OF cell] by simp
  obtain k3 k' where w: "wrapper_write_char (uint (mp_source pack)) TEXT_WRITE_CHAR_FN (mk_args (msg + 16) 10) (k, x) = Some (mk_args r 1, k3, x)"
    and ans: "lib_answer pack TEXT_WRITE_CHAR_FN SIZEOF_BOOL (mk_args r 1) k3 = Some ([SendMsg \<lparr>no_reserved = 0, no_message = MSG_RPC_RESULT,
        no_msg_id = msg_id pack\<rparr> (le_bytes 8 (unat TEXT_WRITE_CHAR_FN) @ [1]) (uint (mp_source pack))], k')"
    and mem: "lib_mem k' = store_bytes (((lib_mem k)(nat (cell_at (dr_info x) col ln) := ch,
        nat (cell_at (dr_info x) col ln) + 1 := clr))(r := 1)) q (le_bytes 8 (unat TEXT_WRITE_CHAR_FN) @ [1])"
    using result_answered [OF mr mq apart rel, of ?s x pack TEXT_WRITE_CHAR_FN] unfolding proc on_memory_write_char [OF cell] by auto
  have "lib_deal_request sv pack msg (k, x) = Some ([SendMsg \<lparr>no_reserved = 0, no_message = MSG_RPC_RESULT, no_msg_id = msg_id pack\<rparr>
        (le_bytes 8 (unat TEXT_WRITE_CHAR_FN) @ [1]) (uint (mp_source pack))], k', x)"
    using run(3) [of pack x] w ans i(4,5) by (simp add: a)
  moreover have "lib_mem k' b = ((lib_mem k)(nat (cell_at (dr_info x) col ln) := ch, nat (cell_at (dr_info x) col ln) + 1 := clr)) b"
    if "b \<noteq> r" "b \<notin> {q..<q + 9}" for b
  proof -
    have "b < q \<or> q + length (le_bytes 8 (unat TEXT_WRITE_CHAR_FN) @ [1]) \<le> b" using that(2) by auto
    then show ?thesis unfolding mem using that(1) by (subst store_bytes_outside) simp_all
  qed
  ultimately show ?thesis using run(1) by blast
qed

text \<open>
  C36. A character goes from a client to the screen.  A client has called \<^verbatim>\<open>write_char\<close> for a position on the screen, whose
  cells have offsets that an \<^verbatim>\<open>int\<close> can hold; when its message has arrived at the driver, where the procedure is
  registered, the driver stores the character and its colour at the position of the screen, writes otherwise only to the two blocks it takes from its heap for the answer, and answers the client with
  \<open>true\<close>.
\<close>

theorem write_char_reaches_screen:
  assumes "call_write_char buffer col ln clr ch sig c = Some ([SendMsg no body dst], rd, params, c')"
    and "buffer + 10 \<le> params \<or> params + 16 \<le> buffer" "buffer < 2 ^ 44"
    and "lib_bytes msg (length body) k = body" "msg + 16 < 2 ^ 44"
    and "registered sv TEXT_WRITE_CHAR_FN wrapper_write_char SIZEOF_BOOL (of_nat TEXT_WRITE_CHAR_ARGS_SIZE)"
    and "on_screen (dr_info x) col ln"
    and "lib_malloc 1 k = Some (r, k1)" "r \<noteq> NULL" "r < 2 ^ 44"
    and "lib_malloc 9 k1 = Some (q, k2)" "q \<noteq> NULL" and "q + 9 \<le> r \<or> r + 1 \<le> q"
    and "release [r, q] k2 = Some kf"
  shows "dst = VIDEO_SERVICE \<and> (\<exists>k'. lib_deal_request sv pack msg (k, x) =
      Some ([SendMsg \<lparr>no_reserved = 0, no_message = MSG_RPC_RESULT, no_msg_id = msg_id pack\<rparr>
        (le_bytes 8 (unat TEXT_WRITE_CHAR_FN) @ [1]) (uint (mp_source pack))], k', x)
    \<and> (\<forall>a. a \<noteq> r \<longrightarrow> a \<notin> {q..<q + 9} \<longrightarrow> lib_mem k' a =
        ((lib_mem k)(nat (cell_at (dr_info x) col ln) := ch, nat (cell_at (dr_info x) col ln) + 1 := clr)) a))"
  by (rule call_write_char_ok [OF assms])

definition demo_driver :: driver where
  "demo_driver = \<lparr>dr_info = \<lparr>vi_framebuffer = 0xB8000, vi_width = 80, vi_height = 25, is_graphic_mode = False\<rparr>,
     dr_frames = example_frames, dr_cur_id = 1\<rparr>"

definition demo_video_server :: "driver server" where
  "demo_video_server = \<lparr>sv_head = 60, sv_infos = [50 \<mapsto> \<lparr>li_func_no = 0, li_process = wrapper_write_char, li_return_size = 1, li_args_size = 10\<rparr>,
       51 \<mapsto> \<lparr>li_func_no = 3, li_process = wrapper_swap_framebuffer (\<lambda>effs s. None) 600 (\<lambda>p. 9), li_return_size = 1, li_args_size = 4\<rparr>],
     sv_nodes = [60 \<mapsto> \<lparr>nd_func_no = 0, nd_info = 50, nd_next = 61\<rparr>, 61 \<mapsto> \<lparr>nd_func_no = 3, nd_info = 51, nd_next = NULL\<rparr>]\<rparr>"

lemma demo_registered:
  "registered demo_video_server TEXT_WRITE_CHAR_FN wrapper_write_char SIZEOF_BOOL (of_nat TEXT_WRITE_CHAR_ARGS_SIZE)"
  "registered demo_video_server SWAP_FRAMEBUFFER_FN (wrapper_swap_framebuffer (\<lambda>effs s. None) 600 (\<lambda>p. 9)) SIZEOF_BOOL
     (of_nat SWAP_FRAMEBUFFER_ARGS_SIZE)"
  by (simp_all add: registered_def lib_find_process_def demo_video_server_def find_proccess.simps [of _ 60] find_proccess.simps [of _ 61]
      TEXT_WRITE_CHAR_FN_def SWAP_FRAMEBUFFER_FN_def SIZEOF_BOOL_def TEXT_WRITE_CHAR_ARGS_SIZE_def SWAP_FRAMEBUFFER_ARGS_SIZE_def)

theorem write_char_reaches_screen_witness:
  "\<exists>no body params c' k'. call_write_char 300 2 1 7 65 5 demo_lib = Some ([SendMsg no body VIDEO_SERVICE], params, 4176, c')
    \<and> lib_deal_request demo_video_server demo_pack 500 (lib_store 500 body demo_lib, demo_driver) =
      Some ([SendMsg \<lparr>no_reserved = 0, no_message = MSG_RPC_RESULT, no_msg_id = 3\<rparr> (le_bytes 8 0 @ [1]) 12], k', demo_driver)
    \<and> lib_mem k' 0xB80A4 = 65"
proof -
  have c: "lib_heap (write_char_args 300 2 1 7 65 demo_lib) = lib_heap demo_lib" "lib_chunks (write_char_args 300 2 1 7 65 demo_lib) = lib_chunks demo_lib"
    "result_head (write_char_args 300 2 1 7 65 demo_lib) = NULL" "call_buffer (write_char_args 300 2 1 7 65 demo_lib) = NULL"
    by (simp_all only: write_char_args_eq lib_store_simps) (simp_all add: demo_lib_def)
  have ex: "\<exists>effs rd c'. remote_call VIDEO_SERVICE TEXT_WRITE_CHAR_FN (mk_args 300 10) 1 5 (write_char_args 300 2 1 7 65 demo_lib) =
      Some (effs, rd, 4176, c')"
    by (rule demo_remote_call [OF _ c]) simp
  obtain effs rd c' where call: "call_write_char 300 2 1 7 65 5 demo_lib = Some (effs, rd, 4176, c')"
    using ex by (auto simp: call_write_char_def SIZEOF_BOOL_def TEXT_WRITE_CHAR_ARGS_SIZE_def)
  then obtain c1 where b: "rpc_call_begin VIDEO_SERVICE TEXT_WRITE_CHAR_FN (mk_args 300 10) SIZEOF_BOOL 5 c1 = Some (effs, rd, 4176, c')"
    by (auto simp: call_write_char_def remote_call_def bind_iff TEXT_WRITE_CHAR_ARGS_SIZE_def)
  have a: "ra_data (mk_args 300 10) = 300" "ra_size (mk_args 300 10) = 10" by (simp_all add: mk_args_def)
  obtain no body where e: "effs = [SendMsg no body VIDEO_SERVICE]" using rpc_call_begin_message(1) [OF b] a by auto
  obtain k1 k2 kf where h: "lib_malloc 1 (lib_store 500 body demo_lib) = Some (4128, k1)" "lib_malloc 9 k1 = Some (4176, k2)"
      "release [4128, 4176] k2 = Some kf" using demo_server_heap by blast
  have m: "lib_bytes 500 (length body) (lib_store 500 body demo_lib) = body" by (rule lib_bytes_store) (rule refl)
  have cell: "cell_at (dr_info demo_driver) 2 1 = 0xB80A4" "on_screen (dr_info demo_driver) 2 1"
    by (simp_all add: cell_at_def on_screen_def demo_driver_def)
  from write_char_reaches_screen [OF call [unfolded e] _ _ m _ demo_registered(1) cell(2) h(1) _ _ h(2) _ _ h(3), where pack = demo_pack]
  show ?thesis using call e by (auto simp: cell demo_pack_def TEXT_WRITE_CHAR_FN_def simp del: le_bytes.simps)
qed

text \<open>
  C37. A client cannot say which framebuffer it wants to be shown.  The stub of \<^verbatim>\<open>swap_framebuffer\<close> turns the number into a
  truth value and stores that into the first byte of an array of four that it leaves unset otherwise.  The driver shows
  the framebuffer whose number these four bytes make: its low byte is 0 or 1, whatever the client asked for, so no
  framebuffer from 2 to 255 is ever shown; two numbers other than 0 lead to the same message; and the number is the truth
  value itself when the other three bytes are zero.
\<close>

theorem swap_number_lost:
  assumes "call_swap_framebuffer buffer i sig c = Some ([SendMsg no body dst], rd, params, c')"
    and "buffer + 4 \<le> params \<or> params + 16 \<le> buffer" "buffer < 2 ^ 44"
    and "lib_bytes msg (length body) k = body" "msg + 16 < 2 ^ 44"
    and "registered sv SWAP_FRAMEBUFFER_FN (wrapper_swap_framebuffer w array sigs) SIZEOF_BOOL (of_nat SWAP_FRAMEBUFFER_ARGS_SIZE)"
  shows "\<exists>n. lib_deal_request sv pack msg (k, x) = do {
      s \<leftarrow> swap_framebuffer w array sigs n (k, x);
      (res, k1, x1) \<leftarrow> give_result SIZEOF_BOOL [1] s;
      (eff, k2) \<leftarrow> lib_answer pack SWAP_FRAMEBUFFER_FN SIZEOF_BOOL res k1;
      Some (eff, k2, x1)
    } \<and> n = int_of (le_val (of_bool (i \<noteq> 0) # lib_bytes (buffer + 1) 3 c))
    \<and> n mod 256 = of_bool (i \<noteq> 0) \<and> n \<notin> {2..255}
    \<and> (\<forall>j. (j \<noteq> 0) = (i \<noteq> 0) \<longrightarrow> call_swap_framebuffer buffer j sig c = call_swap_framebuffer buffer i sig c)
    \<and> (lib_bytes (buffer + 1) 3 c = [0, 0, 0] \<longrightarrow> n = of_bool (i \<noteq> 0))"
proof -
  let ?b = "of_bool (i \<noteq> 0) # lib_bytes (buffer + 1) 3 c"
  obtain m where "[SendMsg no body dst] = [SendMsg \<lparr>no_reserved = 0, no_message = MSG_RPC_CALL, no_msg_id = m\<rparr>
      (request_bytes SWAP_FRAMEBUFFER_FN SIZEOF_BOOL ?b) VIDEO_SERVICE]"
    using swap_message [OF assms(1-3)] by blast
  then have body: "body = request_bytes SWAP_FRAMEBUFFER_FN SIZEOF_BOOL ?b" by simp
  have l: "length ?b = 4" by simp
  obtain p info where j: "lib_find_process SWAP_FRAMEBUFFER_FN sv = Some p" "p \<noteq> NULL" "sv_infos sv p = Some info"
      "li_process info = wrapper_swap_framebuffer w array sigs" "li_return_size info = SIZEOF_BOOL" "li_args_size info = of_nat (length ?b)"
    using assms(6) unfolding registered_def SWAP_FRAMEBUFFER_ARGS_SIZE_def l by blast
  have r: "lib_bytes msg (16 + length ?b) k = request_bytes SWAP_FRAMEBUFFER_FN SIZEOF_BOOL ?b"
    using assms(4) by (simp add: body request_bytes_def)
  have short: "length ?b < 2 ^ 19" by simp
  note run = lib_deal_request_runs [OF r short j(1-3) disjI1 [OF j(6)] disjI1 [OF j(5)]]
  let ?n = "int_of (le_val ?b)"
  have "ra_data (mk_args (msg + 16) 4) = msg + 16" using assms(5) by (simp add: mk_args_def)
  then have "lib_arg_read (ra_data (mk_args (msg + 16) 4)) 4 k = (le_val ?b, msg + 20)"
    using run(2) unfolding l by (simp add: lib_arg_read_def)
  then have deal: "lib_deal_request sv pack msg (k, x) = do {
      s \<leftarrow> swap_framebuffer w array sigs ?n (k, x);
      (res, k1, x1) \<leftarrow> give_result SIZEOF_BOOL [1] s;
      (eff, k2) \<leftarrow> lib_answer pack SWAP_FRAMEBUFFER_FN SIZEOF_BOOL res k1;
      Some (eff, k2, x1)
    }"
    using run(1) [of pack x] j(4,5) by (simp add: wrapper_swap_framebuffer_def)
  have low: "?n mod 256 = of_bool (i \<noteq> 0)"
  proof -
    have "int (le_val ?b) mod 256 = of_bool (i \<noteq> 0)" by simp
    moreover have "wrap32 a mod 256 = a mod 256" for a
    proof -
      have "take_bit 8 (wrap32 a) = take_bit 8 a" by (simp add: wrap32_def take_bit_signed_take_bit)
      then show ?thesis by (simp add: take_bit_eq_mod)
    qed
    ultimately show ?thesis by (simp only: int_of_def)
  qed
  have out: "?n \<notin> {2..255}"
  proof
    assume a: "?n \<in> {2..255}"
    then have "?n mod 256 = ?n" by (intro mod_pos_pos_trivial) auto
    then show False using low a by (auto simp: of_bool_def split: if_splits)
  qed
  have zero: "?n = of_bool (i \<noteq> 0)" if "lib_bytes (buffer + 1) 3 c = [0, 0, 0]"
    using that by (simp add: int_of_def wrap32_id)
  show ?thesis using deal low out zero swap_call_cong [of _ i] by (intro exI [of _ ?n]) blast
qed

text \<open>A driver with a screen of two cells and a frame of that size under the number 1, with the letters A and B in it.\<close>

definition demo_frames :: frames where
  "demo_frames = \<lparr>list_head = 100, fbnodes = [100 \<mapsto> \<lparr>fb_id = 1, fb_frame = 200, fb_next = NULL\<rparr>],
     fb_frames = [200 \<mapsto> \<lparr>framebuffer = 700, column = 0, line = 0, width = 2, height = 1\<rparr>]\<rparr>"

definition demo_small_driver :: driver where
  "demo_small_driver = \<lparr>dr_info = \<lparr>vi_framebuffer = 2000, vi_width = 2, vi_height = 1, is_graphic_mode = False\<rparr>,
     dr_frames = demo_frames, dr_cur_id = 2\<rparr>"

theorem swap_number_lost_witness:
  "\<exists>no body params c' k'. call_swap_framebuffer 300 2 5 demo_lib = Some ([SendMsg no body VIDEO_SERVICE], params, 4176, c')
    \<and> lib_deal_request demo_video_server demo_pack 500 (lib_store 500 body (lib_store 700 [65, 7, 66, 7] demo_lib), demo_small_driver) =
      Some ([SendMsg \<lparr>no_reserved = 0, no_message = MSG_RPC_RESULT, no_msg_id = 3\<rparr> (le_bytes 8 3 @ [1]) 12], k', demo_small_driver)
    \<and> lib_mem k' 2000 = 65 \<and> lib_mem k' 2002 = 66"
proof -
  let ?c = "lib_store 300 [1] demo_lib"
  have c: "lib_heap ?c = lib_heap demo_lib" "lib_chunks ?c = lib_chunks demo_lib" "result_head ?c = NULL" "call_buffer ?c = NULL"
    by (simp_all only: lib_store_simps) (simp_all add: demo_lib_def)
  have ex: "\<exists>effs rd c'. remote_call VIDEO_SERVICE SWAP_FRAMEBUFFER_FN (mk_args 300 4) 1 5 ?c = Some (effs, rd, 4176, c')"
    by (rule demo_remote_call [OF _ c]) simp
  obtain effs rd c' where call: "call_swap_framebuffer 300 2 5 demo_lib = Some (effs, rd, 4176, c')"
    using ex by (auto simp: call_swap_framebuffer_def lib_arg_write_def SIZEOF_BOOL_def SWAP_FRAMEBUFFER_ARGS_SIZE_def)
  obtain no where e: "effs = [SendMsg no (request_bytes SWAP_FRAMEBUFFER_FN SIZEOF_BOOL (1 # lib_bytes 301 3 demo_lib)) VIDEO_SERVICE]"
    using swap_message [OF call] by auto
  define body where "body = request_bytes SWAP_FRAMEBUFFER_FN SIZEOF_BOOL (1 # lib_bytes 301 3 demo_lib)"
  have len: "length body = 20" by (simp add: body_def request_bytes_def)
  define k where "k = lib_store 500 body (lib_store 700 [65, 7, 66, 7] demo_lib)"
  have m: "lib_bytes 500 (length body) k = body" unfolding k_def by (rule lib_bytes_store) (rule refl)
  have z: "lib_bytes (300 + 1) 3 demo_lib = [0, 0, 0]" by (simp add: lib_bytes_def demo_lib_def upt_rec)
  obtain n where deal: "lib_deal_request demo_video_server demo_pack 500 (k, demo_small_driver) = do {
      s \<leftarrow> swap_framebuffer (\<lambda>effs s. None) 600 (\<lambda>p. 9) n (k, demo_small_driver);
      (res, k1, x1) \<leftarrow> give_result SIZEOF_BOOL [1] s;
      (eff, k2) \<leftarrow> lib_answer demo_pack SWAP_FRAMEBUFFER_FN SIZEOF_BOOL res k1;
      Some (eff, k2, x1)
    }" and n: "n = 1"
    using swap_number_lost [OF call [unfolded e] _ _ m [unfolded body_def] _ demo_registered(2), of demo_pack demo_small_driver] z
    by auto
  have cp: "copy_bytes 4 2000 700 m0 = m0(2000 := m0 700, 2001 := m0 701, 2002 := m0 702, 2003 := m0 703)" for m0
    by (simp add: eval_nat_numeral)
  let ?s = "on_memory (copy_bytes 4 2000 700) k"
  have sw: "swap_framebuffer (\<lambda>effs s. None) 600 (\<lambda>p. 9) 1 (k, demo_small_driver) = Some (?s, demo_small_driver)"
    by (simp add: swap_framebuffer_def demo_small_driver_def demo_frames_def get_framebuffer_def find_node.simps full_screen_def wrap32_id)
  have st: "lib_heap ?s = lib_heap (lib_store 500 body demo_lib)" "lib_chunks ?s = lib_chunks (lib_store 500 body demo_lib)"
    by (simp_all add: k_def)
  obtain k1 k2 kf where h: "lib_malloc 1 (lib_store 500 body demo_lib) = Some (4128, k1)" "lib_malloc 9 k1 = Some (4176, k2)"
      "release [4128, 4176] k2 = Some kf" using demo_server_heap by blast
  obtain k3 k' where a: "give_result SIZEOF_BOOL [1] (?s, demo_small_driver) = Some (mk_args 4128 1, k3, demo_small_driver)"
      "lib_answer demo_pack SWAP_FRAMEBUFFER_FN SIZEOF_BOOL (mk_args 4128 1) k3 = Some ([SendMsg \<lparr>no_reserved = 0, no_message = MSG_RPC_RESULT,
        no_msg_id = msg_id demo_pack\<rparr> (le_bytes 8 (unat SWAP_FRAMEBUFFER_FN) @ [1]) (uint (mp_source demo_pack))], k')"
      "lib_mem k' = store_bytes ((lib_mem ?s)(4128 := 1)) 4176 (le_bytes 8 (unat SWAP_FRAMEBUFFER_FN) @ [1])"
    using result_answered [OF h(1) _ _ h(2) _ _ h(3) st, of demo_small_driver demo_pack SWAP_FRAMEBUFFER_FN] by auto
  have km: "lib_mem k 700 = 65" "lib_mem k 702 = 66"
  proof -
    have "lib_mem k q = lib_mem (lib_store 700 [65, 7, 66, 7] demo_lib) q" if "520 \<le> q" for q
      unfolding k_def using that len by (simp add: lib_store_def store_bytes_outside)
    then show "lib_mem k 700 = 65" "lib_mem k 702 = 66" by (simp_all add: lib_store_def)
  qed
  have "lib_mem k' 2000 = 65" "lib_mem k' 2002 = 66"
    unfolding a(3) by (simp_all add: store_bytes_outside on_memory_def cp km del: le_bytes.simps store_bytes.simps)
  moreover have "lib_deal_request demo_video_server demo_pack 500 (k, demo_small_driver) =
      Some ([SendMsg \<lparr>no_reserved = 0, no_message = MSG_RPC_RESULT, no_msg_id = 3\<rparr> (le_bytes 8 3 @ [1]) 12], k', demo_small_driver)"
    using a(1,2) sw unfolding deal n by (simp add: demo_pack_def SWAP_FRAMEBUFFER_FN_def del: le_bytes.simps)
  ultimately show ?thesis using call e unfolding k_def body_def by blast
qed

text \<open>
  The address that \<^verbatim>\<open>write_string\<close> uses is the low byte of the block it has allocated, with its sign: the arguments are
  stored in the lowest 128 bytes of the memory, or not at all.
\<close>

lemma string_buffer_low:
  "string_buffer p = (if p mod 256 < 128 then p mod 256 else 2 ^ 64 - 256 + p mod 256)"
proof -
  have "sint (of_nat p :: u8) = signed_take_bit 7 (int p)" by transfer simp
  then have s: "sint (of_nat p :: u8) = (int p mod 256 + 128) mod 256 - 128"
    by (simp add: signed_take_bit_eq_take_bit_shift take_bit_eq_mod mod_simps)
  have u: "unat (scast w :: u64) = nat (sint w mod 2 ^ 64)" for w :: u8
    by transfer (simp add: take_bit_eq_mod)
  show ?thesis
  proof (cases "p mod 256 < 128")
    case True
    then have "(int (p mod 256) + 128) mod 256 = int (p mod 256) + 128" by (intro mod_pos_pos_trivial) auto
    then have "sint (of_nat p :: u8) = int (p mod 256)" unfolding s by (simp add: zmod_int)
    then show ?thesis using True by (simp add: string_buffer_def u)
  next
    case False
    then have "(int (p mod 256) - 128) mod 256 = int (p mod 256) - 128" by (intro mod_pos_pos_trivial) auto
    then have "(int (p mod 256) + 128) mod 256 = int (p mod 256) - 128"
      using mod_add_self2 [of "int (p mod 256) - 128" 256] by (simp add: add.commute)
    then have "sint (of_nat p :: u8) = int (p mod 256) - 256" unfolding s by (simp add: zmod_int)
    moreover have "(int (p mod 256) - 256 + 2 ^ 64) mod 2 ^ 64 = int (p mod 256) - 256 + 2 ^ 64"
      using False by (intro mod_pos_pos_trivial) auto
    then have "(int (p mod 256) - 256) mod 2 ^ 64 = int (p mod 256) - 256 + 2 ^ 64" by (simp only: mod_add_self2)
    ultimately show ?thesis using False by (simp add: string_buffer_def u)
  qed
qed

end
