(* ===== verification/TtyCalls.thy ===== *)
theory TtyCalls
  imports VideoStubs Console
begin

text \<open>
  The calls of the terminal: the stubs in \<^verbatim>\<open>libs/libkmod/export/tty\<close> and \<^verbatim>\<open>keyboard\<close>, the procedures of
  \<^verbatim>\<open>module/driver/vdd/tty/console.c\<close> with their arguments, and \<^verbatim>\<open>main.c\<close>, where messages with keys and the echo
  thread interleave.  The lemmas follow a text from a client to the console, and show which keys are echoed.
\<close>

section \<open>The stubs\<close>

definition FLUSH_CONSOLE_FN :: u64 where "FLUSH_CONSOLE_FN = 1"
definition FLUSH_CONSOLE_ARGS_SIZE :: nat where "FLUSH_CONSOLE_ARGS_SIZE = 4"
definition PUTCHAR_FN :: u64 where "PUTCHAR_FN = 0"
definition PUTCHAR_ARGS_SIZE :: nat where "PUTCHAR_ARGS_SIZE = 5"
definition PUTS_FN :: u64 where "PUTS_FN = 2"
definition GETCHAR_FN :: u64 where "GETCHAR_FN = 3"
definition GETCHAR_ARGS_SIZE :: nat where "GETCHAR_ARGS_SIZE = 4"
definition GETKEY_FN :: u64 where "GETKEY_FN = 0"
definition GETKEY_ARGS_SIZE :: nat where "GETKEY_ARGS_SIZE = 1"
definition TTY_SERVICE :: int where "TTY_SERVICE = 0x8004"
definition KEYBOARD_SERVICE :: int where "KEYBOARD_SERVICE = 0x8005"
definition SIZEOF_KEY :: u32 where "SIZEOF_KEY = 2"

definition call_flush_console :: "nat \<Rightarrow> int \<Rightarrow> u32 \<Rightarrow> kmod \<Rightarrow> (effect list \<times> ptr \<times> ptr \<times> kmod) option" where
  "call_flush_console array n sig k =
     (let (buf, k) = lib_arg_write array 4 (int_arg n) k
      in remote_call TTY_SERVICE FLUSH_CONSOLE_FN (mk_args array (int FLUSH_CONSOLE_ARGS_SIZE)) SIZEOF_BOOL sig k)"

definition call_putchar :: "nat \<Rightarrow> int \<Rightarrow> u8 \<Rightarrow> u32 \<Rightarrow> kmod \<Rightarrow> (effect list \<times> ptr \<times> ptr \<times> kmod) option" where
  "call_putchar array n ch sig k =
     (let (buf, k) = lib_arg_write array 4 (int_arg n) k;
          (buf, k) = lib_arg_write buf 1 (unat ch) k
      in remote_call TTY_SERVICE PUTCHAR_FN (mk_args array (int PUTCHAR_ARGS_SIZE)) SIZEOF_BOOL sig k)"

text \<open>\<^verbatim>\<open>tty_puts\<close>: the arguments with the text are put into a block of their own, which is not released.\<close>

definition puts_args :: "ptr \<Rightarrow> int \<Rightarrow> nat \<Rightarrow> int \<Rightarrow> kmod \<Rightarrow> kmod" where
  "puts_args array n str cnt k =
     (let (buf, k) = lib_arg_write array 4 (int_arg n) k;
          (buf, k) = lib_arg_write buf 4 (int_arg cnt) k
      in lib_store buf (lib_bytes str (nat cnt) k) k)"

definition call_puts :: "int \<Rightarrow> nat \<Rightarrow> u32 \<Rightarrow> kmod \<Rightarrow> (effect list \<times> ptr \<times> ptr \<times> kmod) option" where
  "call_puts n str sig k = do {
     let cnt = strlen (lib_mem k) str;
     let sz = cnt + int (unat PUTS_ARGS_BASE_SIZE);
     (array, k) \<leftarrow> lib_malloc sz k;
     if array = NULL then None
     else remote_call TTY_SERVICE PUTS_FN (mk_args array sz) SIZEOF_BOOL sig (puts_args array n str cnt k)
   }"

definition call_getchar :: "nat \<Rightarrow> int \<Rightarrow> u32 \<Rightarrow> kmod \<Rightarrow> (effect list \<times> ptr \<times> ptr \<times> kmod) option" where
  "call_getchar array n sig k =
     (let (buf, k) = lib_arg_write array 4 (int_arg n) k
      in remote_call TTY_SERVICE GETCHAR_FN (mk_args array (int GETCHAR_ARGS_SIZE)) 1 sig k)"

definition call_getkey :: "nat \<Rightarrow> u32 \<Rightarrow> kmod \<Rightarrow> (effect list \<times> ptr \<times> ptr \<times> kmod) option" where
  "call_getkey array sig k =
     (let (buf, k) = lib_arg_write array 1 0 k
      in remote_call KEYBOARD_SERVICE GETKEY_FN (mk_args array (int GETKEY_ARGS_SIZE)) SIZEOF_KEY sig k)"

section \<open>The procedures\<close>

text \<open>
  The consoles lie in shared pages of their own, outside the memory of the library.  \<^verbatim>\<open>__flush_console\<close> of the active
  console makes a remote call to the video driver; \<open>array\<close> is the array of the stub, \<open>sig\<close> the semaphore of the call and
  \<open>w\<close> what happens while it waits.
\<close>

definition flush_console :: "tty world \<Rightarrow> nat \<Rightarrow> u32 \<Rightarrow> int \<Rightarrow> kmod \<times> tty \<Rightarrow> (kmod \<times> tty) option" where
  "flush_console w array sig n = (\<lambda>(k, x).
     if n = current_active_console x then do {
       c \<leftarrow> get_console n x;
       (_, s) \<leftarrow> nested_call w (call_swap_framebuffer array (framebuffer_id c) sig) SWAP_FRAMEBUFFER_FN SIZEOF_BOOL (k, x);
       Some s
     } else Some (k, x))"

definition serve_flush_console :: "tty world \<Rightarrow> nat \<Rightarrow> u32 \<Rightarrow> tty procedure" where
  "serve_flush_console w array sig caller f args = (\<lambda>(k, x). do {
     let (n, p) = lib_arg_read (ra_data args) 4 k;
     s \<leftarrow> flush_console w array sig (int_of n) (k, x);
     give_result SIZEOF_BOOL [1] s
   })"

definition serve_putchar :: "tty world \<Rightarrow> nat \<Rightarrow> u32 \<Rightarrow> tty procedure" where
  "serve_putchar w array sig caller f args = (\<lambda>(k, x). do {
     let (n, p) = lib_arg_read (ra_data args) 4 k;
     let (ch, p) = lib_arg_read p 1 k;
     x \<leftarrow> putchar (int_of n) (of_nat ch) x;
     s \<leftarrow> flush_console w array sig (int_of n) (k, x);
     give_result SIZEOF_BOOL [1] s
   })"

text \<open>\<^verbatim>\<open>wrapper_puts\<close>: the size of the arguments is checked before and after the numbers are read, as a 64-bit number.\<close>

definition serve_puts :: "tty world \<Rightarrow> nat \<Rightarrow> u32 \<Rightarrow> tty procedure" where
  "serve_puts w array sig caller f args = (\<lambda>(k, x). do {
     (res, k) \<leftarrow> lib_malloc (int (unat SIZEOF_BOOL)) k;
     if res = NULL then None
     else if word_of_int (ra_size args) < PUTS_ARGS_BASE_SIZE
     then Some (mk_args res (int (unat SIZEOF_BOOL)), lib_store res [0] k, x)
     else do {
       let (n, p) = lib_arg_read (ra_data args) 4 k;
       let (cnt, p) = lib_arg_read p 4 k;
       if word_of_int (ra_size args) \<noteq> PUTS_ARGS_BASE_SIZE + word_of_int (int_of cnt)
       then Some (mk_args res (int (unat SIZEOF_BOOL)), lib_store res [0] k, x)
       else do {
         x \<leftarrow> putchars (int_of n) (lib_bytes p (nat (int_of cnt)) k) x;
         (k, x) \<leftarrow> flush_console w array sig (int_of n) (k, x);
         Some (mk_args res (int (unat SIZEOF_BOOL)), lib_store res [1] k, x)
       }
     }
   })"

text \<open>\<^verbatim>\<open>wrapper_getchar\<close>, with the key that \<^verbatim>\<open>getkey\<close> returns.\<close>

definition serve_getchar :: "int \<Rightarrow> tty procedure" where
  "serve_getchar key caller f args = (\<lambda>(k, x). do {
     let (n, p) = lib_arg_read (ra_data args) 4 k;
     (res, k) \<leftarrow> lib_malloc 1 k;
     if res = NULL then None
     else do {
       (ch, x) \<leftarrow> wrapper_getchar (int_of n) key x;
       Some (mk_args res (int (unat SIZEOF_BOOL)), lib_store res [ch] k, x)
     }
   })"

definition console_register_rpc_functions :: "int \<Rightarrow> tty world \<Rightarrow> nat \<Rightarrow> u32 \<Rightarrow> kmod \<times> tty server \<Rightarrow> (kmod \<times> tty server) option" where
  "console_register_rpc_functions key w array sig s = do {
     s \<leftarrow> lib_rpc_register FLUSH_CONSOLE_FN (serve_flush_console w array sig) SIZEOF_BOOL (of_nat FLUSH_CONSOLE_ARGS_SIZE) s;
     s \<leftarrow> lib_rpc_register PUTCHAR_FN (serve_putchar w array sig) SIZEOF_BOOL (of_nat PUTCHAR_ARGS_SIZE) s;
     s \<leftarrow> lib_rpc_register PUTS_FN (serve_puts w array sig) SIZEOF_BOOL (- 1) s;
     lib_rpc_register GETCHAR_FN (serve_getchar key) 1 (of_nat GETCHAR_ARGS_SIZE) s
   }"

section \<open>Keys\<close>

text \<open>
  \<^verbatim>\<open>main.c\<close>: the variable with the last key, the units of the semaphore that wakes the echo thread (it has room for one),
  the place of that thread, the state of the library and the consoles.  The thread sleeps, has been woken, waits for the
  result of a call of the video driver, with the semaphore and the blocks of the call, or has got the result.
\<close>

datatype echo_place = Asleep | Woken | Showing u32 ptr ptr ptr | Shown ptr ptr ptr

record tty_main =
  tm_key :: int
  tm_signal :: int
  tm_place :: echo_place
  tm_lib :: kmod
  tm_tty :: tty

definition normal_ipc_handler :: "int \<Rightarrow> int \<Rightarrow> tty_main \<Rightarrow> tty_main" where
  "normal_ipc_handler caller key s =
     (if caller = KEYBOARD_SERVICE
      then s\<lparr>tm_key := key, tm_signal := min 1 (tm_signal s + 1),
             tm_tty := (if key = ENTER then (tm_tty s)\<lparr>wait_enter := min CONSOLE_LINES (wait_enter (tm_tty s) + 1)\<rparr> else tm_tty s)\<rparr>
      else s)"

text \<open>
  The echo thread takes a unit; later it puts the key that the variable holds then on the active console and calls the
  video driver (\<^verbatim>\<open>echo_key\<close>); the result wakes it, and it finishes the call.
\<close>

definition echo_down :: "tty_main \<Rightarrow> tty_main option" where
  "echo_down s = (if tm_place s = Asleep \<and> 0 < tm_signal s then Some (s\<lparr>tm_signal := tm_signal s - 1, tm_place := Woken\<rparr>) else None)"

definition echo_key :: "nat \<Rightarrow> u32 \<Rightarrow> tty_main \<Rightarrow> (effect list \<times> tty_main) option" where
  "echo_key array sig s = (if tm_place s = Woken then do {
     let n = current_active_console (tm_tty s);
     x \<leftarrow> putchar n (escape_key (tm_key s)) (tm_tty s);
     c \<leftarrow> get_console n x;
     (effs, rd, params, k) \<leftarrow> call_swap_framebuffer array (framebuffer_id c) sig (tm_lib s);
     Some (effs, s\<lparr>tm_tty := x, tm_lib := k, tm_place := Showing sig (call_buffer k) rd params\<rparr>)
   } else None)"

definition echo_return :: "tty_main \<Rightarrow> tty_main option" where
  "echo_return s = (case tm_place s of
     Shown res rd params \<Rightarrow> do {
       (_, k) \<leftarrow> rpc_call_end SWAP_FRAMEBUFFER_FN SIZEOF_BOOL res rd params (tm_lib s);
       Some (s\<lparr>tm_lib := k, tm_place := Asleep\<rparr>)
     }
   | _ \<Rightarrow> None)"

inductive tty_step :: "tty_main \<Rightarrow> tty_main \<Rightarrow> bool" where
  message: "tty_step s (normal_ipc_handler caller key s)"
| down: "echo_down s = Some s' \<Longrightarrow> tty_step s s'"
| run: "echo_key array sig s = Some (effs, s') \<Longrightarrow> tty_step s s'"
| result: "tm_place s = Showing sig res rd params \<Longrightarrow>
    message_round normal irq pack m (tm_lib s) = Some ([UpSignal sig], k) \<Longrightarrow>
    tty_step s (s\<lparr>tm_lib := k, tm_place := Shown res rd params\<rparr>)"
| returned: "echo_return s = Some s' \<Longrightarrow> tty_step s s'"

inductive_cases tty_stepE: "tty_step s s'"

section \<open>A text on the console\<close>

lemma lib_malloc_mem: "lib_malloc n k = Some (p, k') \<Longrightarrow> lib_mem k' = lib_mem k"
  by (auto simp: lib_malloc_def bind_iff)

lemma puts_args_eq:
  assumes "cstring (lib_mem k) str xs" and "length xs < 2 ^ 31" and "str + length xs \<le> array \<or> array + 8 \<le> str"
  shows "puts_args array n str (int (length xs)) k = lib_store array (le_bytes 4 (int_arg n) @ le_bytes 4 (length xs) @ xs) k"
proof -
  let ?h = "le_bytes 4 (int_arg n) @ le_bytes 4 (int_arg (int (length xs)))"
  have i: "int_arg (int (length xs)) = length xs" using assms(2) by (simp add: int_arg_def)
  have "lib_bytes str (length xs) (lib_store array ?h k) = lib_bytes str (length xs) k"
    by (rule lib_bytes_store_outside) (use assms(3) in auto)
  also have "\<dots> = xs" using assms(1) by (intro nth_equalityI) (auto simp: lib_bytes_def cstring_def)
  finally have "puts_args array n str (int (length xs)) k = lib_store (array + 8) xs (lib_store array ?h k)"
    by (simp add: puts_args_def lib_arg_write_def lib_store_append del: le_bytes.simps)
  also have "\<dots> = lib_store array (?h @ xs) k" by (rule lib_store_append) simp
  finally show ?thesis by (simp add: i)
qed

lemma puts_args_bytes:
  assumes "cstring (lib_mem k) str xs" and "length xs < 2 ^ 31" and "str + length xs \<le> array \<or> array + 8 \<le> str"
  shows "lib_bytes array (8 + length xs) (puts_args array n str (int (length xs)) k) = le_bytes 4 (int_arg n) @ le_bytes 4 (length xs) @ xs"
  unfolding puts_args_eq [OF assms] by (rule lib_bytes_store) simp

text \<open>The size of the arguments passes both checks.\<close>

lemma puts_size:
  assumes "n < 2 ^ 19"
  shows "\<not> (word_of_int (int (8 + n)) :: u64) < PUTS_ARGS_BASE_SIZE"
    and "word_of_int (int (8 + n)) = PUTS_ARGS_BASE_SIZE + word_of_int (int n)"
proof -
  have "unat (of_nat (8 + n) :: u64) = 8 + n" by (subst unat_of_nat) (use assms in simp)
  then have "unat (word_of_int (int (8 + n)) :: u64) = 8 + n" by (simp only: of_int_of_nat_eq)
  moreover have "unat (8 :: u64) = 8" by simp
  ultimately show "\<not> (word_of_int (int (8 + n)) :: u64) < PUTS_ARGS_BASE_SIZE"
    unfolding word_less_nat_alt PUTS_ARGS_BASE_SIZE_def by linarith
qed (simp add: PUTS_ARGS_BASE_SIZE_def)

text \<open>
  The procedure reads the console, the number of characters and the characters, and puts them on the console; a console
  that is not the active one is not shown.
\<close>

lemma serve_puts_eq:
  assumes bs: "lib_bytes (ra_data args) (8 + length xs) k = le_bytes 4 (int_arg n) @ le_bytes 4 (length xs) @ xs"
    and sz: "ra_size args = int (8 + length xs)" and len: "length xs < 2 ^ 19" and n: "- (2 ^ 31) \<le> n" "n < 2 ^ 31"
    and m: "lib_malloc 1 k = Some (r, k1)" "r \<noteq> NULL"
    and p: "putchars n xs x = Some x'" and off: "n \<noteq> current_active_console x'"
  shows "serve_puts w array sig caller f args (k, x) = Some (mk_args r 1, lib_store r [1] k1, x')"
proof -
  have mem: "lib_mem k1 = lib_mem k" by (rule lib_malloc_mem [OF m(1)])
  let ?bs = "le_bytes 4 (int_arg n) @ le_bytes 4 (length xs) @ xs"
  have b: "lib_bytes (ra_data args) (length ?bs) k1 = ?bs" using bs lib_bytes_cong [OF mem] by simp
  have "length xs < 256 ^ 4" using len by simp
  then have r: "lib_arg_read (ra_data args) 4 k1 = (int_arg n, ra_data args + 4)"
    "lib_arg_read (ra_data args + 4) 4 k1 = (length xs, ra_data args + 8)"
    using lib_arg_read_part [OF b, of 0 4] lib_arg_read_part [OF b, of 4 4] int_arg_less [of n] by (simp_all del: le_bytes.simps)
  have t: "lib_bytes (ra_data args + 8) (length xs) k1 = xs"
    using lib_bytes_part [OF b, of 8 "length xs"] by (simp del: le_bytes.simps)
  have i: "int_of (length xs) = int (length xs)" using len by (simp add: int_of_def wrap32_id)
  have fl: "flush_console w array sig n (k1, x') = Some (k1, x')" using off by (simp add: flush_console_def)
  show ?thesis
    using m p fl puts_size [OF len] by (simp add: serve_puts_def SIZEOF_BOOL_def r t i sz int_of_arg [OF n])
qed

lemma putchar_frame: "putchar n ch st = Some st' \<Longrightarrow> current_active_console st' = current_active_console st"
  by (auto simp: putchar_def putrawchar_def set_console_def bind_iff Let_def split: if_splits)

lemma putchars_frame: "putchars n cs st = Some st' \<Longrightarrow> current_active_console st' = current_active_console st"
  by (induction cs arbitrary: st) (auto simp: bind_iff dest!: putchar_frame)

text \<open>
  Showing the active console: the message to the video driver holds the number of its framebuffer as a truth value and
  three bytes of the stack.
\<close>

lemma flush_sends:
  assumes "n = current_active_console x" and "get_console n x = Some c"
    and call: "call_swap_framebuffer array (framebuffer_id c) sig k = Some (effs, rd, params, k')"
    and apart: "array + 4 \<le> params \<or> params + 16 \<le> array" "array < 2 ^ 44"
  shows "\<exists>m. flush_console w array sig n (k, x) = do {
      (k2, x2) \<leftarrow> w [SendMsg \<lparr>no_reserved = 0, no_message = MSG_RPC_CALL, no_msg_id = m\<rparr>
        (request_bytes SWAP_FRAMEBUFFER_FN SIZEOF_BOOL (of_bool (framebuffer_id c \<noteq> 0) # lib_bytes (array + 1) 3 k)) VIDEO_SERVICE] (k', x);
      (_, k3) \<leftarrow> rpc_call_end SWAP_FRAMEBUFFER_FN SIZEOF_BOOL (call_buffer k') rd params k2;
      Some (k3, x2)
    }"
proof -
  obtain m where "effs = [SendMsg \<lparr>no_reserved = 0, no_message = MSG_RPC_CALL, no_msg_id = m\<rparr>
      (request_bytes SWAP_FRAMEBUFFER_FN SIZEOF_BOOL (of_bool (framebuffer_id c \<noteq> 0) # lib_bytes (array + 1) 3 k)) VIDEO_SERVICE]"
    using swap_message [OF call apart] by blast
  then show ?thesis using assms(1,2) call
    by (intro exI [of _ m]) (simp add: flush_console_def nested_call_def case_prod_beta' Option.bind_assoc)
qed

lemma call_puts_served:
  assumes call: "call_puts n str sig c = Some ([SendMsg no body dst], rd, params, c')"
    and str: "cstring (lib_mem c) str xs" "length xs < 2 ^ 18" and n: "- (2 ^ 31) \<le> n" "n < 2 ^ 31"
    and arr: "lib_malloc (int (length xs) + 8) c = Some (array, c1)" "array < 2 ^ 44"
    and apart: "array + (8 + length xs) \<le> params \<or> params + 16 \<le> array" "str + length xs \<le> array \<or> array + 8 \<le> str"
    and msg: "lib_bytes msg (length body) k = body" "msg + 16 < 2 ^ 44"
    and reg: "registered sv PUTS_FN (serve_puts w stack sg) SIZEOF_BOOL (- 1)"
    and con: "get_console n x = Some cc" "in_line cc" "\<forall>ch\<in>set xs. \<not> control ch" "in_reach cc (length xs)"
    and off: "n \<noteq> current_active_console x"
    and mr: "lib_malloc 1 k = Some (r, k1)" "r \<noteq> NULL" "r < 2 ^ 44"
    and mq: "lib_malloc 9 k1 = Some (q, k2)" "q \<noteq> NULL" "q + 9 \<le> r \<or> r + 1 \<le> q" and rel: "release [r, q] k2 = Some kf"
  shows "dst = TTY_SERVICE \<and> (\<exists>k' x' cc'. lib_deal_request sv pack msg (k, x) =
      Some ([SendMsg \<lparr>no_reserved = 0, no_message = MSG_RPC_RESULT, no_msg_id = msg_id pack\<rparr>
        (le_bytes 8 (unat PUTS_FN) @ [1]) (uint (mp_source pack))], k', x')
    \<and> mem x' = put_text (mem x) (framebuffer cc + cursor cc * 2) (word_of_int (color cc)) xs
    \<and> get_console n x' = Some cc' \<and> cursor cc' = cursor cc + int (length xs))"
proof -
  let ?l = "length xs" and ?a = "mk_args array (int (8 + length xs))"
  have l: "strlen (lib_mem c) str = int ?l" using strlen_cstring [OF str(1)] str(2) by simp
  have b: "unat PUTS_ARGS_BASE_SIZE = 8" by (simp add: PUTS_ARGS_BASE_SIZE_def)
  have rc: "remote_call TTY_SERVICE PUTS_FN ?a SIZEOF_BOOL sig (puts_args array n str (int ?l) c1) = Some ([SendMsg no body dst], rd, params, c')"
    using call arr(1) by (auto simp: call_puts_def l b Let_def add.commute [of 8] split: if_splits)
  have a: "ra_data ?a = array" "ra_size ?a = int (8 + ?l)"
    using arr(2) str(2) by (simp_all add: mk_args_def signed_take_bit_int_eq_self)
  obtain p info where i: "lib_find_process PUTS_FN sv = Some p" "p \<noteq> NULL" "sv_infos sv p = Some info"
      "li_process info = serve_puts w stack sg" "li_return_size info = SIZEOF_BOOL" "li_args_size info = - 1"
    using reg by (auto simp: registered_def)
  have "ra_data ?a + nat (ra_size ?a) \<le> params \<or> params + 16 \<le> ra_data ?a" "ra_size ?a < 2 ^ 19"
    using apart(1) str(2) by (simp_all only: a nat_int) simp_all
  note run = remote_call_runs [OF rc this msg(1) i(1-3), OF disjI2 [OF i(6)] disjI1 [OF i(5)]]
  have cs: "cstring (lib_mem c1) str xs" using str(1) lib_malloc_mem [OF arr(1)] by simp
  let ?bs = "le_bytes 4 (int_arg n) @ le_bytes 4 ?l @ xs" and ?m = "mk_args (msg + 16) (int (8 + ?l))"
  have m: "ra_data ?m = msg + 16" "ra_size ?m = int (8 + ?l)"
    using msg(2) str(2) by (simp_all add: mk_args_def signed_take_bit_int_eq_self)
  have "lib_bytes array (8 + ?l) (puts_args array n str (int ?l) c1) = ?bs"
    by (rule puts_args_bytes [OF cs _ apart(2)]) (use str(2) in simp)
  then have bs: "lib_bytes (ra_data ?m) (8 + ?l) k = ?bs" using run(2) unfolding a m by (simp only: nat_int)
  obtain x' cc' where t: "putchars n xs x = Some x'" "get_console n x' = Some cc'" "cursor cc' = cursor cc + int ?l"
      "mem x' = put_text (mem x) (framebuffer cc + cursor cc * 2) (word_of_int (color cc)) xs" "n \<noteq> current_active_console x'"
    using putchars_text [OF con] putchars_frame off by metis
  have ra: "ra_data (mk_args r 1) = r" "ra_size (mk_args r 1) = 1" using mr(3) by (simp_all add: mk_args_def)
  let ?k3 = "lib_store r [1] k1"
  have s: "serve_puts w stack sg (uint (mp_source pack)) PUTS_FN ?m (k, x) = Some (mk_args r 1, ?k3, x')"
    using serve_puts_eq [OF bs m(2) _ n mr(1,2) t(1,5)] str(2) by simp
  have mq': "lib_malloc (int (8 + 1)) ?k3 = Some (q, ?k3\<lparr>lib_chunks := lib_chunks k2\<rparr>)"
    using lib_malloc_frame(1) [OF mq(1), of ?k3] by simp
  obtain sf where sf: "release [ra_data (mk_args r 1), q] (?k3\<lparr>lib_chunks := lib_chunks k2\<rparr>) = Some sf"
    using release_frame [OF rel, of "?k3\<lparr>lib_chunks := lib_chunks k2\<rparr>"] lib_malloc_frame(2) [OF mq(1) refl refl] ra by auto
  have "lib_bytes r 1 ?k3 = [1]" by (rule lib_bytes_store) simp
  then obtain k' where "lib_answer pack PUTS_FN SIZEOF_BOOL (mk_args r 1) ?k3 =
      Some ([SendMsg \<lparr>no_reserved = 0, no_message = MSG_RPC_RESULT, no_msg_id = msg_id pack\<rparr>
        (le_bytes 8 (unat PUTS_FN) @ [1]) (uint (mp_source pack))], k')"
    using lib_answer_ok [OF mq' mq(2) _ _ _ sf, of SIZEOF_BOOL pack PUTS_FN] mq(3) by (auto simp: ra SIZEOF_BOOL_def simp del: le_bytes.simps)
  then have "lib_deal_request sv pack msg (k, x) =
      Some ([SendMsg \<lparr>no_reserved = 0, no_message = MSG_RPC_RESULT, no_msg_id = msg_id pack\<rparr>
        (le_bytes 8 (unat PUTS_FN) @ [1]) (uint (mp_source pack))], k', x')"
    using run(3) [of pack x, unfolded a(2) i(4) i(5)] unfolding s by simp
  then show ?thesis using run(1) t by auto
qed

text \<open>
  C38. A text goes from a client to a console in the background.  A client has called \<^verbatim>\<open>tty_puts\<close> with a text without
  control characters for a console that is not the active one; when its message has arrived at the terminal, where the
  procedure is registered, the terminal stores the characters with the colour of the console from the cursor on, moves
  the cursor by the length of the text, and answers the client with \<open>true\<close>.  The offsets of the cells must fit into an
  \<^verbatim>\<open>int\<close>.  For the active console the text is stored in the same way, but then the terminal waits for the video driver
  (lemma \<open>flush_sends\<close>).
\<close>

theorem puts_reaches_console:
  assumes "call_puts n str sig c = Some ([SendMsg no body dst], rd, params, c')"
    and "cstring (lib_mem c) str xs" "length xs < 2 ^ 18" and "- (2 ^ 31) \<le> n" "n < 2 ^ 31"
    and "lib_malloc (int (length xs) + 8) c = Some (array, c1)" "array < 2 ^ 44"
    and "array + (8 + length xs) \<le> params \<or> params + 16 \<le> array" "str + length xs \<le> array \<or> array + 8 \<le> str"
    and "lib_bytes msg (length body) k = body" "msg + 16 < 2 ^ 44"
    and "registered sv PUTS_FN (serve_puts w stack sg) SIZEOF_BOOL (- 1)"
    and "get_console n x = Some cc" "in_line cc" "\<forall>ch\<in>set xs. \<not> control ch" "in_reach cc (length xs)"
    and "n \<noteq> current_active_console x"
    and "lib_malloc 1 k = Some (r, k1)" "r \<noteq> NULL" "r < 2 ^ 44"
    and "lib_malloc 9 k1 = Some (q, k2)" "q \<noteq> NULL" "q + 9 \<le> r \<or> r + 1 \<le> q" and "release [r, q] k2 = Some kf"
  shows "dst = TTY_SERVICE \<and> (\<exists>k' x' cc'. lib_deal_request sv pack msg (k, x) =
      Some ([SendMsg \<lparr>no_reserved = 0, no_message = MSG_RPC_RESULT, no_msg_id = msg_id pack\<rparr>
        (le_bytes 8 (unat PUTS_FN) @ [1]) (uint (mp_source pack))], k', x')
    \<and> mem x' = put_text (mem x) (framebuffer cc + cursor cc * 2) (word_of_int (color cc)) xs
    \<and> get_console n x' = Some cc' \<and> cursor cc' = cursor cc + int (length xs))"
  by (rule call_puts_served [OF assms])

definition demo_tty_server :: "tty server" where
  "demo_tty_server = \<lparr>sv_head = 60, sv_infos = [50 \<mapsto> \<lparr>li_func_no = 2, li_process = serve_puts (\<lambda>effs s. None) 600 9, li_return_size = 1, li_args_size = - 1\<rparr>],
     sv_nodes = [60 \<mapsto> \<lparr>nd_func_no = 2, nd_info = 50, nd_next = NULL\<rparr>]\<rparr>"

lemma demo_puts_registered: "registered demo_tty_server PUTS_FN (serve_puts (\<lambda>effs s. None) 600 9) SIZEOF_BOOL (- 1)"
  by (simp add: registered_def lib_find_process_def demo_tty_server_def find_proccess.simps [of _ 60] PUTS_FN_def SIZEOF_BOOL_def)

lemma demo_puts_begin:
  "\<exists>c1. lib_malloc 10 (lib_store 800 [65, 66] demo_lib) = Some (4128, c1) \<and>
     (\<forall>mm. \<exists>effs rd c'. remote_call service f (mk_args 4128 10) 1 sig (lib_store 4128 mm c1) = Some (effs, rd, 4224, c'))"
proof -
  have f: "fixed_of 1 = 32" "fixed_of 10 = 32" "fixed_of 26 = 48" "fixed_of 9 = 32" "fixed_of 32 = 48" by (simp_all add: fixed_of_eq(1))
  have a: "ra_size (mk_args 4128 10) = 10" by (simp add: mk_args_def)
  show ?thesis
    by (simp add: remote_call_def rpc_buffer_def rpc_call_begin_def prepare_params_def Let_def a SIZEOF_RPC_FUNC_def SIZEOF_RPC_SIZE_def
      malloc_eval demo_lib_def f get_msgid_def set_rpc_result_def new_result_def SIZEOF_SIGNAL_LN_def)
qed

theorem puts_reaches_console_witness:
  "\<exists>no body rd c' k' x'. call_puts 1 800 5 (lib_store 800 [65, 66] demo_lib) = Some ([SendMsg no body TTY_SERVICE], rd, 4224, c')
     \<and> lib_deal_request demo_tty_server demo_pack 500 (lib_store 500 body demo_lib, example_tty) =
      Some ([SendMsg \<lparr>no_reserved = 0, no_message = MSG_RPC_RESULT, no_msg_id = 3\<rparr> (le_bytes 8 2 @ [1]) 12], k', x')
     \<and> mem x' = put_text (\<lambda>_. 0) 10000 15 [65, 66]"
proof -
  let ?c = "lib_store 800 [65, 66] demo_lib"
  have cs: "cstring (lib_mem ?c) 800 [65, 66]"
    by (simp add: cstring_def lib_store_def demo_lib_def All_less_Suc)
  obtain c1 where c1: "lib_malloc 10 ?c = Some (4128, c1)"
      "\<forall>mm. \<exists>effs rd c'. remote_call TTY_SERVICE PUTS_FN (mk_args 4128 10) 1 5 (lib_store 4128 mm c1) = Some (effs, rd, 4224, c')"
    using demo_puts_begin by blast
  have l: "strlen (lib_mem ?c) 800 = 2" using strlen_cstring [OF cs] by simp
  obtain mm where pa: "puts_args 4128 1 800 2 c1 = lib_store 4128 mm c1"
    using puts_args_eq [of c1 800 "[65, 66]" 4128 1] cs lib_malloc_mem [OF c1(1)] by auto
  obtain effs rd c' where rc: "remote_call TTY_SERVICE PUTS_FN (mk_args 4128 10) 1 5 (lib_store 4128 mm c1) = Some (effs, rd, 4224, c')"
    using c1(2) by blast
  then have call: "call_puts 1 800 5 ?c = Some (effs, rd, 4224, c')"
    using c1(1) pa by (simp add: call_puts_def l PUTS_ARGS_BASE_SIZE_def SIZEOF_BOOL_def)
  then obtain c2 where b: "rpc_call_begin TTY_SERVICE PUTS_FN (mk_args 4128 10) SIZEOF_BOOL 5 c2 = Some (effs, rd, 4224, c')"
    using c1(1) by (auto simp: call_puts_def l PUTS_ARGS_BASE_SIZE_def remote_call_def bind_iff)
  have a: "ra_data (mk_args 4128 10) = 4128" "ra_size (mk_args 4128 10) = 10" by (simp_all add: mk_args_def)
  obtain no body where e: "effs = [SendMsg no body TTY_SERVICE]" using rpc_call_begin_message(1) [OF b] a by auto
  obtain k1 k2 kf where h: "lib_malloc 1 (lib_store 500 body demo_lib) = Some (4128, k1)" "lib_malloc 9 k1 = Some (4176, k2)"
      "release [4128, 4176] k2 = Some kf" using demo_server_heap by blast
  have m: "lib_bytes 500 (length body) (lib_store 500 body demo_lib) = body" by (rule lib_bytes_store) (rule refl)
  have arr: "lib_malloc (int (length [65, 66 :: u8]) + 8) ?c = Some (4128, c1)" using c1(1) by simp
  have t: "mem example_tty = (\<lambda>_. 0)" "current_active_console example_tty = 0"
    by (simp_all add: example_tty_def init_consoles_def)
  have con: "get_console 1 example_tty
      = Some \<lparr>framebuffer = 10000, framebuffer_id = 1, console_no = 1, pos_x = 0, pos_y = 0, color = 15\<rparr>"
    by (simp add: example_tty_def init_consoles_def get_console_def CONSOLE_NUM_def upt_rec)
  from puts_reaches_console [OF call [unfolded e] cs _ _ _ arr _ _ _ m _ demo_puts_registered con _ _ _ _ h(1) _ _ h(2) _ _ h(3), of demo_pack]
  obtain k' x' cc' where r: "lib_deal_request demo_tty_server demo_pack 500 (lib_store 500 body demo_lib, example_tty) =
      Some ([SendMsg \<lparr>no_reserved = 0, no_message = MSG_RPC_RESULT, no_msg_id = 3\<rparr> (le_bytes 8 2 @ [1]) 12], k', x')"
    "mem x' = put_text (\<lambda>_. 0) 10000 15 [65, 66]"
    by (auto simp: in_line_def in_reach_def console_defs control_def cursor_def t demo_pack_def PUTS_FN_def simp del: le_bytes.simps)
  then show ?thesis using call e by blast
qed

section \<open>Which keys are echoed\<close>

text \<open>A key that is echoed before the next one arrives is put on the active console once.\<close>

lemma key_echoed:
  assumes "tm_signal s = 0" and "tm_place s = Asleep"
    and "echo_key array sig ((normal_ipc_handler KEYBOARD_SERVICE key s)\<lparr>tm_signal := 0, tm_place := Woken\<rparr>) = Some (effs, s')"
  shows "do { s \<leftarrow> echo_down (normal_ipc_handler KEYBOARD_SERVICE key s); echo_key array sig s } = Some (effs, s')"
    and "putchar (current_active_console (tm_tty s)) (escape_key key) (tm_tty (normal_ipc_handler KEYBOARD_SERVICE key s)) = Some (tm_tty s')"
    and "echo_down s' = None"
  using assms by (auto simp: normal_ipc_handler_def echo_down_def echo_key_def bind_iff Let_def)

text \<open>Of two keys that arrive before the echo the first is lost.\<close>

lemma key_lost:
  assumes "tm_signal s = 0" and "key1 \<noteq> ENTER"
  shows "normal_ipc_handler KEYBOARD_SERVICE key2 (normal_ipc_handler KEYBOARD_SERVICE key1 s) = normal_ipc_handler KEYBOARD_SERVICE key2 s"
  using assms by (simp add: normal_ipc_handler_def)

text \<open>
  A key that arrives after the echo thread was woken for an earlier one, and before it reads the variable, is echoed now,
  and a unit is left for which the thread will echo it again.
\<close>

lemma key_twice:
  assumes "tm_signal s = 0" and "tm_place s = Woken"
    and "echo_key array sig (normal_ipc_handler KEYBOARD_SERVICE key s) = Some (effs, s')"
  shows "putchar (current_active_console (tm_tty s)) (escape_key key) (tm_tty (normal_ipc_handler KEYBOARD_SERVICE key s)) = Some (tm_tty s')"
    and "\<exists>s''. echo_down (s'\<lparr>tm_lib := k, tm_place := Asleep\<rparr>) = Some s'' \<and> tm_place s'' = Woken \<and> tm_key s'' = key"
  using assms by (auto simp: normal_ipc_handler_def echo_down_def echo_key_def bind_iff Let_def)

end
