(* ===== verification/X86.thy ===== *)
theory X86
  imports CString
begin

text \<open>
  The instructions of the inline assembly in \<^verbatim>\<open>include/std/string.h\<close>: the string instructions of the x86 with their
  repeat prefixes, and the few others that the routines use.  A routine is the list of its instructions, in the order
  and with the local labels of the source.  Registers and addresses are words, of 32 bits in the loader and of 64 bits
  elsewhere; memory is a function from addresses to bytes.
\<close>

section \<open>The machine\<close>

datatype reg = AX | BX | CX | DX | SI | DI

text \<open>The flags: zero, sign, what \<^verbatim>\<open>jl\<close> tests (sign and overflow differ), and the direction of the string instructions.\<close>

record 'v machine =
  regs :: "reg \<Rightarrow> 'v"
  bytes :: "'v \<Rightarrow> u8"
  zero :: bool
  sign :: bool
  less_than :: bool
  backward :: bool

text \<open>The source of a move: a register, or a value, which stands for a constant or for an operand of the statement.\<close>

datatype 'v source = R reg | V 'v

datatype 'v instr =
    Cld | Std
  | Lodsb | Stosb | Rep_stosb | Rep_movsb | Repne_scasb | Repe_cmpsb | Scasb
  | Mov "'v source" reg | Movb_al_ah | Movb_0 reg
  | Cmpb_ah_al | Cmpb_0 reg | Testb_al | Test reg
  | Inc reg | Dec reg | Neg reg | Notl reg | Xor reg
  | Jmp nat | Je nat | Jne nat | Jl nat | Js nat
  | Label nat

abbreviation set_reg :: "reg \<Rightarrow> 'v \<Rightarrow> 'v machine \<Rightarrow> 'v machine" where
  "set_reg r v s \<equiv> s\<lparr>regs := (regs s)(r := v)\<rparr>"

text \<open>The two low bytes of a register.\<close>

definition low8 :: "'w::len word \<Rightarrow> u8" where
  "low8 v = ucast v"

definition high8 :: "'w::len word \<Rightarrow> u8" where
  "high8 v = ucast (drop_bit 8 v)"

definition set_low8 :: "u8 \<Rightarrow> 'w::len word \<Rightarrow> 'w word" where
  "set_low8 b v = push_bit 8 (drop_bit 8 v) OR ucast b"

definition set_high8 :: "u8 \<Rightarrow> 'w::len word \<Rightarrow> 'w word" where
  "set_high8 b v = push_bit 16 (drop_bit 16 v) OR push_bit 8 (ucast b) OR ucast (low8 v)"

text \<open>Where the string instructions go next.\<close>

definition advance :: "reg \<Rightarrow> 'w::len word machine \<Rightarrow> 'w word machine" where
  "advance r s = set_reg r (if backward s then regs s r - 1 else regs s r + 1) s"

section \<open>The effects of the instructions\<close>

text \<open>The flags of a subtraction of bytes, and those of a value that has been computed.\<close>

definition compare8 :: "u8 \<Rightarrow> u8 \<Rightarrow> 'v machine \<Rightarrow> 'v machine" where
  "compare8 a b s = s\<lparr>zero := a = b, sign := sint (a - b) < 0, less_than := sint a < sint b\<rparr>"

definition test8 :: "u8 \<Rightarrow> 'v machine \<Rightarrow> 'v machine" where
  "test8 a s = s\<lparr>zero := a = 0, sign := sint a < 0, less_than := sint a < 0\<rparr>"

definition arith_flags :: "'w::len word \<Rightarrow> bool \<Rightarrow> 'v machine \<Rightarrow> 'v machine" where
  "arith_flags v lt s = s\<lparr>zero := v = 0, sign := sint v < 0, less_than := lt\<rparr>"

definition lodsb :: "'w::len word machine \<Rightarrow> 'w word machine" where
  "lodsb s = advance SI (set_reg AX (set_low8 (bytes s (regs s SI)) (regs s AX)) s)"

definition stosb :: "'w::len word machine \<Rightarrow> 'w word machine" where
  "stosb s = advance DI (s\<lparr>bytes := (bytes s)(regs s DI := low8 (regs s AX))\<rparr>)"

definition movsb :: "'w::len word machine \<Rightarrow> 'w word machine" where
  "movsb s = advance DI (advance SI (s\<lparr>bytes := (bytes s)(regs s DI := bytes s (regs s SI))\<rparr>))"

definition scasb :: "'w::len word machine \<Rightarrow> 'w word machine" where
  "scasb s = advance DI (compare8 (low8 (regs s AX)) (bytes s (regs s DI)) s)"

definition cmpsb :: "'w::len word machine \<Rightarrow> 'w word machine" where
  "cmpsb s = advance DI (advance SI (compare8 (bytes s (regs s SI)) (bytes s (regs s DI)) s))"

text \<open>The prefixes: repeat as often as \<^verbatim>\<open>cx\<close> says; repeat until the zero flag is \<open>stop\<close>, at most so often.\<close>

definition rep :: "('w::len word machine \<Rightarrow> 'w word machine) \<Rightarrow> 'w word machine \<Rightarrow> 'w word machine" where
  "rep f s = set_reg CX 0 ((f ^^ unat (regs s CX)) s)"

primrec rep_until :: "bool \<Rightarrow> ('v machine \<Rightarrow> 'v machine) \<Rightarrow> nat \<Rightarrow> 'v machine \<Rightarrow> nat \<times> 'v machine" where
  "rep_until stop f 0 s = (0, s)"
| "rep_until stop f (Suc n) s = (let s = f s in if zero s = stop then (n, s) else rep_until stop f n s)"

definition rep_zero :: "bool \<Rightarrow> ('w::len word machine \<Rightarrow> 'w word machine) \<Rightarrow> 'w word machine \<Rightarrow> 'w word machine" where
  "rep_zero stop f s = (let (n, s') = rep_until stop f (unat (regs s CX)) s in set_reg CX (of_nat n) s')"

fun operand :: "'v source \<Rightarrow> 'v machine \<Rightarrow> 'v" where
  "operand (R r) s = regs s r"
| "operand (V v) s = v"

fun effect :: "'w::len word instr \<Rightarrow> 'w word machine \<Rightarrow> 'w word machine" where
  "effect Cld s = s\<lparr>backward := False\<rparr>"
| "effect Std s = s\<lparr>backward := True\<rparr>"
| "effect Lodsb s = lodsb s"
| "effect Stosb s = stosb s"
| "effect Rep_stosb s = rep stosb s"
| "effect Rep_movsb s = rep movsb s"
| "effect Repne_scasb s = rep_zero True scasb s"
| "effect Repe_cmpsb s = rep_zero False cmpsb s"
| "effect Scasb s = scasb s"
| "effect (Mov v r) s = set_reg r (operand v s) s"
| "effect Movb_al_ah s = set_reg AX (set_high8 (low8 (regs s AX)) (regs s AX)) s"
| "effect (Movb_0 r) s = s\<lparr>bytes := (bytes s)(regs s r := 0)\<rparr>"
| "effect Cmpb_ah_al s = compare8 (low8 (regs s AX)) (high8 (regs s AX)) s"
| "effect (Cmpb_0 r) s = compare8 (bytes s (regs s r)) 0 s"
| "effect Testb_al s = test8 (low8 (regs s AX)) s"
| "effect (Test r) s = arith_flags (regs s r) (sint (regs s r) < 0) s"
| "effect (Inc r) s = (let v = regs s r in arith_flags (v + 1) (sint v + 1 < 0) (set_reg r (v + 1) s))"
| "effect (Dec r) s = (let v = regs s r in arith_flags (v - 1) (sint v - 1 < 0) (set_reg r (v - 1) s))"
| "effect (Neg r) s = (let v = regs s r in arith_flags (- v) (0 < sint v) (set_reg r (- v) s))"
| "effect (Notl r) s = set_reg r (NOT (regs s r)) s"
| "effect (Xor r) s = arith_flags (0 :: 'w word) False (set_reg r 0 s)"
| "effect _ s = s"

section \<open>Control\<close>

text \<open>Where a jump goes when it is taken.  Each label of a routine is defined once.\<close>

fun jump :: "'v instr \<Rightarrow> 'v machine \<Rightarrow> nat option" where
  "jump (Jmp l) s = Some l"
| "jump (Je l) s = (if zero s then Some l else None)"
| "jump (Jne l) s = (if zero s then None else Some l)"
| "jump (Jl l) s = (if less_than s then Some l else None)"
| "jump (Js l) s = (if sign s then Some l else None)"
| "jump _ s = None"

fun behind :: "nat \<Rightarrow> 'v instr list \<Rightarrow> 'v instr list" where
  "behind l [] = []"
| "behind l (i # is) = (if i = Label l then is else behind l is)"

text \<open>The rest of a routine, and the whole routine.  \<open>None\<close> is a routine that does not end.\<close>

partial_function (option) exec :: "'w::len word instr list \<Rightarrow> 'w word instr list \<Rightarrow> 'w word machine \<Rightarrow> 'w word machine option" where
  "exec code rest s = (case rest of
     [] \<Rightarrow> Some s
   | i # is \<Rightarrow> (case jump i s of
       Some l \<Rightarrow> exec code (behind l code) s
     | None \<Rightarrow> exec code is (effect i s)))"

definition run :: "'w::len word instr list \<Rightarrow> 'w word machine \<Rightarrow> 'w word machine option" where
  "run code s = exec code code s"

lemma exec_Nil [simp]: "exec code [] s = Some s"
  by (subst exec.simps) simp

lemma exec_Cons [simp]:
  "exec code (i # is) s = (case jump i s of Some l \<Rightarrow> exec code (behind l code) s | None \<Rightarrow> exec code is (effect i s))"
  by (subst exec.simps) simp

lemmas x86 = Let_def advance_def compare8_def test8_def arith_flags_def lodsb_def stosb_def movsb_def scasb_def cmpsb_def

section \<open>Registers\<close>

lemma low8_set_low8 [simp]: "8 \<le> LENGTH('w) \<Longrightarrow> low8 (set_low8 b v :: 'w::len word) = b"
  unfolding low8_def set_low8_def by (rule bit_eqI) (auto simp: bit_simps)

lemma high8_set_low8 [simp]: "16 \<le> LENGTH('w) \<Longrightarrow> high8 (set_low8 b v :: 'w::len word) = high8 v"
  unfolding high8_def set_low8_def by (rule bit_eqI) (auto simp: bit_simps dest: bit_imp_le_length)

lemma high8_set_high8 [simp]: "16 \<le> LENGTH('w) \<Longrightarrow> high8 (set_high8 b v :: 'w::len word) = b"
  unfolding high8_def set_high8_def low8_def by (rule bit_eqI) (auto simp: bit_simps dest: bit_imp_le_length)

lemma low8_0 [simp]: "low8 0 = 0"
  by (simp add: low8_def)

end
