(* ===== verification/StrAsm.thy ===== *)
theory StrAsm
  imports X86
begin

text \<open>
  The string routines of \<^verbatim>\<open>include/std/string.h\<close>, which are inline assembly.  Each is the list of its instructions,
  and a function that puts the operands into their registers, runs it and reads the result.  The lemmas show what each
  computes on strings in memory, by the functions of the list library.
\<close>

type_synonym x86 = "u32 machine"

section \<open>Strings and areas\<close>

fun area_at :: "('w::len word \<Rightarrow> u8) \<Rightarrow> 'w word \<Rightarrow> u8 list \<Rightarrow> bool" where
  "area_at m a [] \<longleftrightarrow> True"
| "area_at m a (x # xs) \<longleftrightarrow> m a = x \<and> area_at m (a + 1) xs"

fun string_at :: "('w::len word \<Rightarrow> u8) \<Rightarrow> 'w word \<Rightarrow> u8 list \<Rightarrow> bool" where
  "string_at m a [] \<longleftrightarrow> m a = 0"
| "string_at m a (x # xs) \<longleftrightarrow> m a = x \<and> x \<noteq> 0 \<and> string_at m (a + 1) xs"

lemma area_of_string: "string_at m a xs \<Longrightarrow> area_at m a xs"
  by (induction xs arbitrary: a) auto

text \<open>The memory with an area replaced.\<close>

definition put :: "('w::len word \<Rightarrow> u8) \<Rightarrow> 'w word \<Rightarrow> u8 list \<Rightarrow> 'w word \<Rightarrow> u8" where
  "put m a bs = (\<lambda>x. if unat (x - a) < length bs then bs ! unat (x - a) else m x)"

lemma unat_diff_next:
  fixes x :: "'w::len word"
  shows "x \<noteq> a \<Longrightarrow> unat (x - a) = Suc (unat (x - (a + 1)))"
proof -
  assume "x \<noteq> a"
  then have n: "x - a \<noteq> 0" by simp
  then have "0 < unat (x - a)" by (simp add: unat_gt_0)
  moreover have "unat (x - a - 1) = unat (x - a) - 1" using n by (rule unat_minus_one)
  ultimately show ?thesis by (simp add: diff_diff_eq)
qed

lemma put_Nil [simp]: "put m a [] = m"
  by (simp add: put_def)

lemma put_Cons:
  fixes a :: "'w::len word"
  assumes "length bs < 2 ^ LENGTH('w)"
  shows "put (m(a := b)) (a + 1) bs = put m a (b # bs)"
proof
  fix x
  show "put (m(a := b)) (a + 1) bs x = put m a (b # bs) x"
  proof (cases "x = a")
    case True
    have "unat (- 1 :: 'w word) = 2 ^ LENGTH('w) - 1" by (simp add: unsigned_minus_1_eq_mask mask_eq_exp_minus_1)
    then have "\<not> unat (- 1 :: 'w word) < length bs" using assms by linarith
    then show ?thesis using True by (simp add: put_def)
  next
    case False
    then show ?thesis by (simp add: put_def unat_diff_next [of x a])
  qed
qed

section \<open>Repeated string instructions\<close>

text \<open>Filling, and copying upwards: no byte is overwritten before it is read.\<close>

lemma stosb_power:
  fixes st :: "'w::len word machine"
  assumes "\<not> backward st" and "n \<le> 2 ^ LENGTH('w)"
  shows "(stosb ^^ n) st = st\<lparr>regs := (regs st)(DI := regs st DI + of_nat n),
     bytes := put (bytes st) (regs st DI) (replicate n (low8 (regs st AX)))\<rparr>"
  using assms
proof (induction n arbitrary: st)
  case 0
  then show ?case by simp
next
  case (Suc n)
  let ?s = "stosb st"
  have s: "?s = st\<lparr>regs := (regs st)(DI := regs st DI + 1), bytes := (bytes st)(regs st DI := low8 (regs st AX))\<rparr>"
    using Suc.prems by (simp add: x86)
  have "(stosb ^^ Suc n) st = (stosb ^^ n) ?s" by (simp add: funpow_Suc_right del: funpow.simps)
  also have "\<dots> = ?s\<lparr>regs := (regs ?s)(DI := regs ?s DI + of_nat n),
      bytes := put (bytes ?s) (regs ?s DI) (replicate n (low8 (regs ?s AX)))\<rparr>"
    using Suc.prems by (intro Suc.IH) (simp_all add: s)
  also have "\<dots> = st\<lparr>regs := (regs st)(DI := regs st DI + of_nat (Suc n)),
     bytes := put (bytes st) (regs st DI) (replicate (Suc n) (low8 (regs st AX)))\<rparr>"
    using Suc.prems by (simp add: s put_Cons add.assoc)
  finally show ?case .
qed

definition bytes_from :: "('w::len word \<Rightarrow> u8) \<Rightarrow> 'w word \<Rightarrow> nat \<Rightarrow> u8 list" where
  "bytes_from m a n = map (\<lambda>i. m (a + of_nat i)) [0..<n]"

lemma length_bytes_from [simp]: "length (bytes_from m a n) = n"
  by (simp add: bytes_from_def)

lemma movsb_power:
  fixes st :: "'w::len word machine"
  assumes "\<not> backward st" and "n \<le> 2 ^ LENGTH('w)"
    and "\<forall>i<n. i \<le> unat (regs st SI + of_nat i - regs st DI)"
  shows "(movsb ^^ n) st = st\<lparr>regs := (regs st)(SI := regs st SI + of_nat n, DI := regs st DI + of_nat n),
     bytes := put (bytes st) (regs st DI) (bytes_from (bytes st) (regs st SI) n)\<rparr>"
  using assms(2,3)
proof (induction n)
  case 0
  then show ?case by (simp add: bytes_from_def)
next
  case (Suc n)
  let ?m = "bytes st" and ?s = "regs st SI" and ?d = "regs st DI"
  have src: "put ?m ?d (bytes_from ?m ?s n) (?s + of_nat n) = ?m (?s + of_nat n)"
    using Suc.prems(2) by (force simp: put_def)
  have n: "unat (of_nat n :: 'w word) = n" using Suc.prems(1) by (simp add: unat_of_nat)
  have "((put ?m ?d (bytes_from ?m ?s n))(?d + of_nat n := ?m (?s + of_nat n))) x = put ?m ?d (bytes_from ?m ?s (Suc n)) x" for x
  proof (cases "x = ?d + of_nat n")
    case True
    then show ?thesis using n by (simp add: put_def bytes_from_def nth_append)
  next
    case False
    then have "x - ?d \<noteq> of_nat n" by (metis add.commute diff_add_cancel)
    then have "unat (x - ?d) \<noteq> n" using n by (simp add: word_unat_eq_iff)
    then show ?thesis using False by (auto simp: put_def bytes_from_def nth_append less_Suc_eq)
  qed
  then have b: "(put ?m ?d (bytes_from ?m ?s n))(?d + of_nat n := ?m (?s + of_nat n)) = put ?m ?d (bytes_from ?m ?s (Suc n))" by blast
  have e: "a + of_nat n + 1 = a + (1 + of_nat n)" for a :: "'w word" by (simp add: add.commute)
  have "(movsb ^^ Suc n) st = movsb ((movsb ^^ n) st)" by simp
  also have "(movsb ^^ n) st = st\<lparr>regs := (regs st)(SI := ?s + of_nat n, DI := ?d + of_nat n), bytes := put ?m ?d (bytes_from ?m ?s n)\<rparr>"
    by (rule Suc.IH) (use Suc.prems in simp_all)
  also have "movsb (st\<lparr>regs := (regs st)(SI := ?s + of_nat n, DI := ?d + of_nat n), bytes := put ?m ?d (bytes_from ?m ?s n)\<rparr>)
      = st\<lparr>regs := (regs st)(SI := ?s + of_nat (Suc n), DI := ?d + of_nat (Suc n)), bytes := put ?m ?d (bytes_from ?m ?s (Suc n))\<rparr>"
    using assms(1) by (simp add: movsb_def advance_def src b e fun_upd_twist)
  finally show ?case .
qed

text \<open>The search for a byte, and the search for the end of a string.\<close>

lemma rep_scasb:
  assumes "area_at (bytes st) (regs st DI) ys" and "\<not> backward st"
  shows "\<exists>n t. rep_until True scasb (length ys) st = (n, t) \<and> bytes t = bytes st \<and> \<not> backward t
    \<and> (\<forall>r. r \<noteq> DI \<longrightarrow> regs t r = regs st r) \<and> zero t = (if ys = [] then zero st else low8 (regs st AX) \<in> set ys)
    \<and> (low8 (regs st AX) \<in> set ys \<longrightarrow> regs t DI = regs st DI + of_nat (length (takeWhile (\<lambda>y. y \<noteq> low8 (regs st AX)) ys)) + 1)"
  using assms
proof (induction ys arbitrary: st)
  case Nil
  then show ?case by simp
next
  case (Cons y ys)
  let ?c = "low8 (regs st AX)"
  show ?case
  proof (cases "y = ?c")
    case True
    then show ?thesis using Cons.prems by (simp add: x86)
  next
    case False
    let ?s = "scasb st"
    have s: "bytes ?s = bytes st" "\<not> backward ?s" "\<And>r. r \<noteq> DI \<Longrightarrow> regs ?s r = regs st r" "regs ?s DI = regs st DI + 1" "\<not> zero ?s"
      using Cons.prems False by (simp_all add: x86)
    have "area_at (bytes ?s) (regs ?s DI) ys" using Cons.prems s by simp
    note ih = Cons.IH [OF this s(2), unfolded s(1,4) s(3) [of AX, simplified]]
    obtain n t where "rep_until True scasb (length ys) ?s = (n, t)" "bytes t = bytes st" "\<not> backward t"
      "\<forall>r. r \<noteq> DI \<longrightarrow> regs t r = regs ?s r" "zero t = (if ys = [] then zero ?s else ?c \<in> set ys)"
      "?c \<in> set ys \<longrightarrow> regs t DI = regs st DI + 1 + of_nat (length (takeWhile (\<lambda>y. y \<noteq> ?c) ys)) + 1"
      using ih by blast
    then show ?thesis using False s(3,5) by (intro exI [of _ n] exI [of _ t]) (simp add: add.assoc)
  qed
qed

lemma repne_scasb:
  fixes st :: "'w::len word machine"
  assumes "area_at (bytes st) (regs st DI) ys" and "\<not> backward st" and "\<not> zero st" and "unat (regs st CX) = length ys"
  shows "\<exists>t. rep_zero True scasb st = t \<and> bytes t = bytes st \<and> \<not> backward t
    \<and> (\<forall>r. r \<notin> {CX, DI} \<longrightarrow> regs t r = regs st r) \<and> (zero t \<longleftrightarrow> low8 (regs st AX) \<in> set ys)"
  using rep_scasb [OF assms(1,2)] assms(3,4) by (auto simp: rep_zero_def split: if_splits)

lemma rep_scasb_end:
  assumes "string_at (bytes st) (regs st DI) ys" and "\<not> backward st" and "low8 (regs st AX) = 0" and "length ys < k"
  shows "\<exists>t. rep_until True scasb k st = (k - Suc (length ys), t) \<and> bytes t = bytes st \<and> \<not> backward t
    \<and> (\<forall>r. r \<noteq> DI \<longrightarrow> regs t r = regs st r) \<and> regs t DI = regs st DI + of_nat (length ys) + 1"
  using assms
proof (induction ys arbitrary: st k)
  case Nil
  then show ?case by (cases k) (auto simp: x86)
next
  case (Cons y ys)
  then obtain n where k: "k = Suc n" by (cases k) auto
  then show ?case using Cons.prems Cons.IH [of "scasb st" n] by (auto simp: x86 ac_simps)
qed

lemma repne_scasb_end:
  fixes st :: x86
  assumes "string_at (bytes st) (regs st DI) ys" and "\<not> backward st" and "low8 (regs st AX) = 0"
    and "regs st CX = 0xFFFFFFFF" and "length ys < 2 ^ 32 - 1"
  shows "\<exists>t. rep_zero True scasb st = t \<and> bytes t = bytes st \<and> \<not> backward t
    \<and> (\<forall>r. r \<notin> {CX, DI} \<longrightarrow> regs t r = regs st r) \<and> regs t DI = regs st DI + of_nat (length ys) + 1
    \<and> NOT (regs t CX) - 1 = of_nat (length ys)"
proof -
  have c: "unat (regs st CX) = 2 ^ 32 - 1" using assms(4) by simp
  from rep_scasb_end [OF assms(1-3,5)] obtain t where t: "rep_until True scasb (2 ^ 32 - 1) st = (2 ^ 32 - 1 - Suc (length ys), t)"
    "bytes t = bytes st" "\<not> backward t" "\<forall>r. r \<noteq> DI \<longrightarrow> regs t r = regs st r" "regs t DI = regs st DI + of_nat (length ys) + 1" by blast
  have "(of_nat (2 ^ 32 - 1 - Suc (length ys)) :: u32) = - 1 - of_nat (Suc (length ys))"
    using assms(5) by (simp add: of_nat_diff)
  then have "NOT (of_nat (2 ^ 32 - 1 - Suc (length ys)) :: u32) - 1 = of_nat (length ys)"
    by (simp add: not_eq_complement)
  then show ?thesis using t c by (simp add: rep_zero_def)
qed

text \<open>A run as far as a label.\<close>

lemma run_from: "code = pre @ rest \<Longrightarrow> run code st = exec code (pre @ rest) st"
  unfolding run_def by metis

section \<open>Filling and copying\<close>

text \<open>\<^verbatim>\<open>memset\<close> and \<^verbatim>\<open>memcpy\<close>; the loader has the same instructions with registers of 32 bits.\<close>

definition memset_code :: "'w word \<Rightarrow> 'w word \<Rightarrow> 'w word \<Rightarrow> 'w::len word instr list" where
  "memset_code sz val dst = [Mov (V sz) CX, Mov (V val) AX, Mov (V dst) DI, Cld, Rep_stosb]"

definition memcpy_code :: "'w word \<Rightarrow> 'w word \<Rightarrow> 'w word \<Rightarrow> 'w::len word instr list" where
  "memcpy_code sz src dst = [Mov (V sz) CX, Mov (V src) SI, Mov (V dst) DI, Cld, Rep_movsb]"

definition memset :: "u64 \<Rightarrow> u64 \<Rightarrow> u64 \<Rightarrow> u64 machine \<Rightarrow> u64 machine option" where
  "memset dst val sz = run (memset_code sz val dst)"

definition memcpy :: "u64 \<Rightarrow> u64 \<Rightarrow> u64 \<Rightarrow> u64 machine \<Rightarrow> u64 machine option" where
  "memcpy dst src sz = run (memcpy_code sz src dst)"

definition memset_32 :: "u32 \<Rightarrow> u32 \<Rightarrow> u32 \<Rightarrow> x86 \<Rightarrow> x86 option" where
  "memset_32 dst val sz = run (memset_code sz val dst)"

definition memcpy_32 :: "u32 \<Rightarrow> u32 \<Rightarrow> u32 \<Rightarrow> x86 \<Rightarrow> x86 option" where
  "memcpy_32 dst src sz = run (memcpy_code sz src dst)"

lemma memset_code_fills:
  fixes dst :: "'w::len word"
  shows "\<exists>t. run (memset_code sz val dst) st = Some t \<and> bytes t = put (bytes st) dst (replicate (unat sz) (low8 val))"
proof -
  let ?s = "set_reg DI dst (set_reg AX val (set_reg CX sz st))\<lparr>backward := False\<rparr>"
  have "unat sz \<le> 2 ^ LENGTH('w)" by (rule less_imp_le) (rule unsigned_less)
  then have "(stosb ^^ unat sz) ?s = ?s\<lparr>regs := (regs ?s)(DI := dst + sz), bytes := put (bytes st) dst (replicate (unat sz) (low8 val))\<rparr>"
    by (subst stosb_power) simp_all
  then show ?thesis by (simp add: run_def memset_code_def rep_def)
qed

text \<open>A copy is right when no byte is overwritten before it is read.\<close>

lemma memcpy_code_copies:
  fixes dst :: "'w::len word"
  assumes "\<forall>i<unat sz. i \<le> unat (src + of_nat i - dst)"
  shows "\<exists>t. run (memcpy_code sz src dst) st = Some t \<and> bytes t = put (bytes st) dst (bytes_from (bytes st) src (unat sz))"
proof -
  let ?s = "set_reg DI dst (set_reg SI src (set_reg CX sz st))\<lparr>backward := False\<rparr>"
  have "unat sz \<le> 2 ^ LENGTH('w)" by (rule less_imp_le) (rule unsigned_less)
  then have "(movsb ^^ unat sz) ?s = ?s\<lparr>regs := (regs ?s)(SI := src + sz, DI := dst + sz),
      bytes := put (bytes st) dst (bytes_from (bytes st) src (unat sz))\<rparr>"
    using assms by (subst movsb_power) simp_all
  then show ?thesis by (simp add: run_def memcpy_code_def rep_def)
qed

section \<open>Searching a character\<close>

definition strchr_code :: "u32 instr list" where
  "strchr_code = [Cld, Movb_al_ah, Label 1, Lodsb, Cmpb_ah_al, Je 2, Testb_al, Jne 1, Mov (V 1) SI, Label 2, Mov (R SI) AX, Dec AX]"

definition strchr :: "u32 \<Rightarrow> u8 \<Rightarrow> x86 \<Rightarrow> (u32 \<times> x86) option" where
  "strchr s c st = do {
     st \<leftarrow> run strchr_code (set_reg SI s (set_reg AX (set_low8 c (regs st AX)) st));
     Some (regs st AX, st)
   }"

lemma strchr_loop:
  assumes "string_at (bytes st) (regs st SI) xs" and "\<not> backward st" and "high8 (regs st AX) = c"
  shows "\<exists>st'. exec strchr_code (behind 1 strchr_code) st = Some st' \<and> bytes st' = bytes st
    \<and> regs st' AX = (if c \<in> set (xs @ [0]) then regs st SI + of_nat (length (takeWhile (\<lambda>x. x \<noteq> c) (xs @ [0]))) else 0)"
  using assms
proof (induction xs arbitrary: st)
  case Nil
  then show ?case by (auto simp: strchr_code_def x86)
next
  case (Cons x xs)
  let ?t = "test8 x (compare8 x c (lodsb st))"
  show ?case
  proof (cases "x = c")
    case True
    then show ?thesis using Cons.prems by (auto simp: strchr_code_def x86)
  next
    case False
    then have "exec strchr_code (behind 1 strchr_code) st = exec strchr_code (behind 1 strchr_code) ?t"
      using Cons.prems by (simp add: strchr_code_def x86)
    then show ?thesis using False Cons.prems Cons.IH [of ?t] by (auto simp: x86)
  qed
qed

text \<open>The first occurrence of the character; the terminator counts.\<close>

lemma strchr_first:
  assumes "string_at (bytes st) s xs"
  shows "\<exists>t. strchr s c st = Some (if c \<in> set (xs @ [0]) then s + of_nat (length (takeWhile (\<lambda>x. x \<noteq> c) (xs @ [0]))) else 0, t)
    \<and> bytes t = bytes st"
proof -
  let ?a = "set_low8 c (regs st AX)"
  let ?s = "set_reg AX (set_high8 c ?a) ((set_reg SI s (set_reg AX ?a st))\<lparr>backward := False\<rparr>)"
  have c: "strchr_code = [Cld, Movb_al_ah, Label 1] @ behind 1 strchr_code" by (simp add: strchr_code_def)
  have r: "run strchr_code (set_reg SI s (set_reg AX ?a st)) = exec strchr_code (behind 1 strchr_code) ?s"
    by (simp add: run_from [OF c])
  have "string_at (bytes ?s) (regs ?s SI) xs" "\<not> backward ?s" "high8 (regs ?s AX) = c" using assms by simp_all
  from strchr_loop [OF this] obtain t where "exec strchr_code (behind 1 strchr_code) ?s = Some t" "bytes t = bytes ?s"
    "regs t AX = (if c \<in> set (xs @ [0]) then regs ?s SI + of_nat (length (takeWhile (\<lambda>x. x \<noteq> c) (xs @ [0]))) else 0)" by blast
  then show ?thesis unfolding strchr_def r by simp
qed

definition strrchr_code :: "u32 instr list" where
  "strrchr_code = [Cld, Movb_al_ah, Label 1, Lodsb, Cmpb_ah_al, Jne 2, Mov (R SI) DX, Dec DX, Label 2, Testb_al, Jne 1]"

definition strrchr :: "u32 \<Rightarrow> u8 \<Rightarrow> x86 \<Rightarrow> (u32 \<times> x86) option" where
  "strrchr s c st = do {
     st \<leftarrow> run strrchr_code (set_reg SI s (set_reg DX 0 (set_reg AX (set_low8 c (regs st AX)) st)));
     Some (regs st DX, st)
   }"

text \<open>The last occurrence.\<close>

fun last_at :: "u8 \<Rightarrow> u8 list \<Rightarrow> u32 \<Rightarrow> u32 \<Rightarrow> u32" where
  "last_at c [] a res = res"
| "last_at c (x # xs) a res = last_at c xs (a + 1) (if x = c then a else res)"

lemma last_at_split: "c \<notin> set zs \<Longrightarrow> last_at c (ys @ c # zs) a res = a + of_nat (length ys)"
proof -
  have n: "c \<notin> set zs \<Longrightarrow> last_at c zs a res = res" for a res by (induction zs arbitrary: a) auto
  show "c \<notin> set zs \<Longrightarrow> last_at c (ys @ c # zs) a res = a + of_nat (length ys)"
    by (induction ys arbitrary: a res) (auto simp: n add.assoc)
qed

lemma last_at_none: "c \<notin> set xs \<Longrightarrow> last_at c xs a res = res"
  by (induction xs arbitrary: a) auto

lemma strrchr_loop:
  assumes "string_at (bytes st) (regs st SI) xs" and "\<not> backward st" and "high8 (regs st AX) = c"
  shows "\<exists>st'. exec strrchr_code (behind 1 strrchr_code) st = Some st' \<and> bytes st' = bytes st
    \<and> regs st' DX = last_at c (xs @ [0]) (regs st SI) (regs st DX)"
  using assms
proof (induction xs arbitrary: st)
  case Nil
  then show ?case by (auto simp: strrchr_code_def x86)
next
  case (Cons x xs)
  let ?t = "compare8 x c (lodsb st)"
  let ?t = "test8 x (if x = c then effect (Dec DX) (effect (Mov (R SI) DX) ?t) else ?t)"
  have "exec strrchr_code (behind 1 strrchr_code) st = exec strrchr_code (behind 1 strrchr_code) ?t"
    using Cons.prems by (simp add: strrchr_code_def x86)
  then show ?case using Cons.prems Cons.IH [of ?t] by (cases "x = c") (auto simp: x86)
qed

lemma strrchr_last:
  assumes "string_at (bytes st) s xs"
  shows "\<exists>t. strrchr s c st = Some (last_at c (xs @ [0]) s 0, t) \<and> bytes t = bytes st"
proof -
  let ?a = "set_low8 c (regs st AX)"
  let ?i = "set_reg SI s (set_reg DX 0 (set_reg AX ?a st))"
  let ?s = "set_reg AX (set_high8 c ?a) (?i\<lparr>backward := False\<rparr>)"
  have c: "strrchr_code = [Cld, Movb_al_ah, Label 1] @ behind 1 strrchr_code" by (simp add: strrchr_code_def)
  have r: "run strrchr_code ?i = exec strrchr_code (behind 1 strrchr_code) ?s"
    by (simp add: run_from [OF c])
  have "string_at (bytes ?s) (regs ?s SI) xs" "\<not> backward ?s" "high8 (regs ?s AX) = c" using assms by simp_all
  from strrchr_loop [OF this] obtain t where "exec strrchr_code (behind 1 strrchr_code) ?s = Some t" "bytes t = bytes ?s"
    "regs t DX = last_at c (xs @ [0]) (regs ?s SI) (regs ?s DX)" by blast
  then show ?thesis unfolding strrchr_def r by simp
qed

section \<open>Sets of characters\<close>

text \<open>The length of the set is computed first; then each character is searched in it.  \<open>ct\<close> is the operand \<^verbatim>\<open>%4\<close>.\<close>

lemma set_length:
  assumes "code = [Cld, Mov (V ct) DI, Repne_scasb, Notl CX, Dec CX, Mov (R CX) DX, Label 1] @ behind 1 code"
    and "string_at (bytes st) ct ys" and "length ys < 2 ^ 32 - 1"
  shows "\<exists>t. run code (set_reg SI cs (set_reg CX 0xFFFFFFFF (set_reg AX 0 st))) = exec code (behind 1 code) t
    \<and> bytes t = bytes st \<and> \<not> backward t \<and> regs t SI = cs \<and> regs t DX = (of_nat (length ys) :: u32)"
proof -
  let ?u = "set_reg DI ct ((set_reg SI cs (set_reg CX 0xFFFFFFFF (set_reg AX 0 st)))\<lparr>backward := False\<rparr>)"
  have "string_at (bytes ?u) (regs ?u DI) ys" "\<not> backward ?u" "low8 (regs ?u AX) = 0" "regs ?u CX = 0xFFFFFFFF"
    using assms(2) by simp_all
  from repne_scasb_end [OF this assms(3)] obtain t where t: "rep_zero True scasb ?u = t" "bytes t = bytes ?u" "\<not> backward t"
    "\<forall>r. r \<notin> {CX, DI} \<longrightarrow> regs t r = regs ?u r" "NOT (regs t CX) - 1 = of_nat (length ys)" by blast
  let ?t = "effect (Mov (R CX) DX) (effect (Dec CX) (effect (Notl CX) t))"
  have "run code (set_reg SI cs (set_reg CX 0xFFFFFFFF (set_reg AX 0 st))) = exec code (behind 1 code) ?t"
    using t(1) by (simp add: run_from [OF assms(1)])
  then show ?thesis using t by (intro exI [of _ ?t]) (simp add: arith_flags_def Let_def)
qed

lemma set_search:
  assumes "behind l code = [Lodsb, Testb_al, Je k, Mov (V ct) DI, Mov (R DX) CX, Repne_scasb] @ rest"
    and "area_at (bytes st) ct ys" and "\<not> backward st" and "regs st DX = of_nat (length ys)" and "length ys < 2 ^ 32"
    and "bytes st (regs st SI) = x" and "x \<noteq> 0"
  shows "\<exists>t. exec code (behind l code) st = exec code rest t \<and> bytes t = bytes st \<and> \<not> backward t
    \<and> regs t SI = regs st SI + (1 :: u32) \<and> regs t DX = regs st DX \<and> regs t BX = regs st BX \<and> (zero t \<longleftrightarrow> x \<in> set ys)"
proof -
  let ?u = "set_reg CX (regs st DX) (set_reg DI ct (test8 x (lodsb st)))"
  have l: "unat (of_nat (length ys) :: u32) = length ys" using assms(5) by (simp add: unat_of_nat)
  have "area_at (bytes ?u) (regs ?u DI) ys" "\<not> backward ?u" "\<not> zero ?u" "unat (regs ?u CX) = length ys" "low8 (regs ?u AX) = x"
    "bytes ?u = bytes st" "regs ?u SI = regs st SI + 1" "regs ?u DX = regs st DX" "regs ?u BX = regs st BX"
    using assms l by (simp_all add: x86)
  note u = this
  from repne_scasb [OF u(1-4)] obtain t where t: "rep_zero True scasb ?u = t" "bytes t = bytes ?u" "\<not> backward t"
    "\<forall>r. r \<notin> {CX, DI} \<longrightarrow> regs t r = regs ?u r" "zero t \<longleftrightarrow> x \<in> set ys" unfolding u(5) by blast
  have "exec code (behind l code) st = exec code rest (rep_zero True scasb ?u)"
    using assms by (simp add: lodsb_def test8_def advance_def)
  then show ?thesis using t u(6-9) by (intro exI [of _ t]) simp
qed

lemma set_search_end:
  assumes "behind l code = [Lodsb, Testb_al, Je k] @ rest" and "\<not> backward st" and "bytes st (regs st SI) = 0"
  shows "\<exists>t. exec code (behind l code) st = exec code (behind k code) t \<and> bytes t = bytes st \<and> \<not> backward t
    \<and> regs t SI = regs st SI + (1 :: u32) \<and> regs t DX = regs st DX \<and> regs t BX = regs st BX"
  using assms by (intro exI [of _ "test8 0 (lodsb st)"]) (simp add: x86)

definition strspn_code :: "u32 \<Rightarrow> u32 instr list" where
  "strspn_code ct = [Cld, Mov (V ct) DI, Repne_scasb, Notl CX, Dec CX, Mov (R CX) DX, Label 1, Lodsb, Testb_al, Je 2,
     Mov (V ct) DI, Mov (R DX) CX, Repne_scasb, Je 1, Label 2, Dec SI]"

definition strspn :: "u32 \<Rightarrow> u32 \<Rightarrow> x86 \<Rightarrow> (u32 \<times> x86) option" where
  "strspn cs ct st = do {
     st \<leftarrow> run (strspn_code ct) (set_reg SI cs (set_reg CX 0xFFFFFFFF (set_reg AX 0 st)));
     Some (regs st SI - cs, st)
   }"

lemma strspn_loop:
  assumes "string_at (bytes st) (regs st SI) xs" and "area_at (bytes st) ct ys" and "\<not> backward st"
    and "regs st DX = of_nat (length ys)" and "length ys < 2 ^ 32"
  shows "\<exists>t. exec (strspn_code ct) (behind 1 (strspn_code ct)) st = Some t \<and> bytes t = bytes st
    \<and> regs t SI = regs st SI + of_nat (length (takeWhile (\<lambda>x. x \<in> set ys) xs))"
  using assms(1-4)
proof (induction xs arbitrary: st)
  case Nil
  have "behind 1 (strspn_code ct) = [Lodsb, Testb_al, Je 2] @ drop 10 (strspn_code ct)" by (simp add: strspn_code_def)
  moreover have "behind 2 (strspn_code ct) = [Dec SI]" by (simp add: strspn_code_def)
  ultimately show ?case using set_search_end [of 1 "strspn_code ct" 2 _ st] Nil by (auto simp: arith_flags_def)
next
  case (Cons x xs)
  have b: "behind 1 (strspn_code ct) = [Lodsb, Testb_al, Je 2, Mov (V ct) DI, Mov (R DX) CX, Repne_scasb] @ [Je 1, Label 2, Dec SI]"
    by (simp add: strspn_code_def)
  from set_search [OF b Cons.prems(2-4) assms(5), of x] Cons.prems(1) obtain t where
    t: "exec (strspn_code ct) (behind 1 (strspn_code ct)) st = exec (strspn_code ct) [Je 1, Label 2, Dec SI] t"
      "bytes t = bytes st" "\<not> backward t" "regs t SI = regs st SI + 1" "regs t DX = regs st DX" "zero t \<longleftrightarrow> x \<in> set ys"
    by auto
  show ?case
  proof (cases "x \<in> set ys")
    case True
    have "string_at (bytes t) (regs t SI) xs" using t Cons.prems(1) by simp
    from Cons.IH [OF this] t Cons.prems True show ?thesis by (auto simp: add.assoc)
  next
    case False
    then show ?thesis using t by (simp add: x86)
  qed
qed

text \<open>The length of the longest prefix of characters of the set.\<close>

lemma strspn_prefix:
  assumes "string_at (bytes st) cs xs" and "string_at (bytes st) ct ys" and "length ys < 2 ^ 32 - 1"
  shows "\<exists>t. strspn cs ct st = Some (of_nat (length (takeWhile (\<lambda>x. x \<in> set ys) xs)), t) \<and> bytes t = bytes st"
proof -
  have c: "strspn_code ct = [Cld, Mov (V ct) DI, Repne_scasb, Notl CX, Dec CX, Mov (R CX) DX, Label 1] @ behind 1 (strspn_code ct)"
    by (simp add: strspn_code_def)
  from set_length [OF c assms(2,3), of cs] obtain t where t: "run (strspn_code ct) (set_reg SI cs (set_reg CX 0xFFFFFFFF (set_reg AX 0 st)))
      = exec (strspn_code ct) (behind 1 (strspn_code ct)) t" "bytes t = bytes st" "\<not> backward t" "regs t SI = cs" "regs t DX = of_nat (length ys)"
    by blast
  have "string_at (bytes t) (regs t SI) xs" "area_at (bytes t) ct ys" using assms(1,2) t area_of_string by simp_all
  from strspn_loop [OF this t(3,5)] assms(3) t(1,2,4) show ?thesis by (auto simp: strspn_def)
qed

definition strcspn_code :: "u32 \<Rightarrow> u32 instr list" where
  "strcspn_code ct = [Cld, Mov (V ct) DI, Repne_scasb, Notl CX, Dec CX, Mov (R CX) DX, Label 1, Lodsb, Testb_al, Je 2,
     Mov (V ct) DI, Mov (R DX) CX, Repne_scasb, Jne 1, Label 2, Dec SI]"

definition strcspn :: "u32 \<Rightarrow> u32 \<Rightarrow> x86 \<Rightarrow> (u32 \<times> x86) option" where
  "strcspn cs ct st = do {
     st \<leftarrow> run (strcspn_code ct) (set_reg SI cs (set_reg CX 0xFFFFFFFF (set_reg AX 0 st)));
     Some (regs st SI - cs, st)
   }"

lemma strcspn_loop:
  assumes "string_at (bytes st) (regs st SI) xs" and "area_at (bytes st) ct ys" and "\<not> backward st"
    and "regs st DX = of_nat (length ys)" and "length ys < 2 ^ 32"
  shows "\<exists>t. exec (strcspn_code ct) (behind 1 (strcspn_code ct)) st = Some t \<and> bytes t = bytes st
    \<and> regs t SI = regs st SI + of_nat (length (takeWhile (\<lambda>x. x \<notin> set ys) xs))"
  using assms(1-4)
proof (induction xs arbitrary: st)
  case Nil
  have "behind 1 (strcspn_code ct) = [Lodsb, Testb_al, Je 2] @ drop 10 (strcspn_code ct)" by (simp add: strcspn_code_def)
  moreover have "behind 2 (strcspn_code ct) = [Dec SI]" by (simp add: strcspn_code_def)
  ultimately show ?case using set_search_end [of 1 "strcspn_code ct" 2 _ st] Nil by (auto simp: arith_flags_def)
next
  case (Cons x xs)
  have b: "behind 1 (strcspn_code ct) = [Lodsb, Testb_al, Je 2, Mov (V ct) DI, Mov (R DX) CX, Repne_scasb] @ [Jne 1, Label 2, Dec SI]"
    by (simp add: strcspn_code_def)
  from set_search [OF b Cons.prems(2-4) assms(5), of x] Cons.prems(1) obtain t where
    t: "exec (strcspn_code ct) (behind 1 (strcspn_code ct)) st = exec (strcspn_code ct) [Jne 1, Label 2, Dec SI] t"
      "bytes t = bytes st" "\<not> backward t" "regs t SI = regs st SI + 1" "regs t DX = regs st DX" "zero t \<longleftrightarrow> x \<in> set ys"
    by auto
  show ?case
  proof (cases "x \<in> set ys")
    case False
    have "string_at (bytes t) (regs t SI) xs" using t Cons.prems(1) by simp
    from Cons.IH [OF this] t Cons.prems False show ?thesis by (auto simp: add.assoc)
  next
    case True
    then show ?thesis using t by (simp add: x86)
  qed
qed

text \<open>The length of the longest prefix without a character of the set.\<close>

lemma strcspn_prefix:
  assumes "string_at (bytes st) cs xs" and "string_at (bytes st) ct ys" and "length ys < 2 ^ 32 - 1"
  shows "\<exists>t. strcspn cs ct st = Some (of_nat (length (takeWhile (\<lambda>x. x \<notin> set ys) xs)), t) \<and> bytes t = bytes st"
proof -
  have c: "strcspn_code ct = [Cld, Mov (V ct) DI, Repne_scasb, Notl CX, Dec CX, Mov (R CX) DX, Label 1] @ behind 1 (strcspn_code ct)"
    by (simp add: strcspn_code_def)
  from set_length [OF c assms(2,3), of cs] obtain t where t: "run (strcspn_code ct) (set_reg SI cs (set_reg CX 0xFFFFFFFF (set_reg AX 0 st)))
      = exec (strcspn_code ct) (behind 1 (strcspn_code ct)) t" "bytes t = bytes st" "\<not> backward t" "regs t SI = cs" "regs t DX = of_nat (length ys)"
    by blast
  have "string_at (bytes t) (regs t SI) xs" "area_at (bytes t) ct ys" using assms(1,2) t area_of_string by simp_all
  from strcspn_loop [OF this t(3,5)] assms(3) t(1,2,4) show ?thesis by (auto simp: strcspn_def)
qed

definition strpbrk_code :: "u32 \<Rightarrow> u32 instr list" where
  "strpbrk_code ct = [Cld, Mov (V ct) DI, Repne_scasb, Notl CX, Dec CX, Mov (R CX) DX, Label 1, Lodsb, Testb_al, Je 2,
     Mov (V ct) DI, Mov (R DX) CX, Repne_scasb, Jne 1, Dec SI, Jmp 3, Label 2, Xor SI, Label 3]"

definition strpbrk :: "u32 \<Rightarrow> u32 \<Rightarrow> x86 \<Rightarrow> (u32 \<times> x86) option" where
  "strpbrk cs ct st = do {
     st \<leftarrow> run (strpbrk_code ct) (set_reg SI cs (set_reg CX 0xFFFFFFFF (set_reg AX 0 st)));
     Some (regs st SI, st)
   }"

lemma strpbrk_loop:
  assumes "string_at (bytes st) (regs st SI) xs" and "area_at (bytes st) ct ys" and "\<not> backward st"
    and "regs st DX = of_nat (length ys)" and "length ys < 2 ^ 32"
  shows "\<exists>t. exec (strpbrk_code ct) (behind 1 (strpbrk_code ct)) st = Some t \<and> bytes t = bytes st
    \<and> regs t SI = (if \<exists>x\<in>set xs. x \<in> set ys then regs st SI + of_nat (length (takeWhile (\<lambda>x. x \<notin> set ys) xs)) else 0)"
  using assms(1-4)
proof (induction xs arbitrary: st)
  case Nil
  have "behind 1 (strpbrk_code ct) = [Lodsb, Testb_al, Je 2] @ drop 10 (strpbrk_code ct)" by (simp add: strpbrk_code_def)
  moreover have "behind 2 (strpbrk_code ct) = [Xor SI, Label 3]" by (simp add: strpbrk_code_def)
  ultimately show ?case using Nil by (simp add: x86)
next
  case (Cons x xs)
  let ?r = "[Jne 1, Dec SI, Jmp 3, Label 2, Xor SI, Label 3]"
  have b: "behind 1 (strpbrk_code ct) = [Lodsb, Testb_al, Je 2, Mov (V ct) DI, Mov (R DX) CX, Repne_scasb] @ ?r"
    "behind 3 (strpbrk_code ct) = []"
    by (simp_all add: strpbrk_code_def)
  from set_search [OF b(1) Cons.prems(2-4) assms(5), of x] Cons.prems(1) obtain t where
    t: "exec (strpbrk_code ct) (behind 1 (strpbrk_code ct)) st = exec (strpbrk_code ct) ?r t"
      "bytes t = bytes st" "\<not> backward t" "regs t SI = regs st SI + 1" "regs t DX = regs st DX" "zero t \<longleftrightarrow> x \<in> set ys"
    by auto
  show ?case
  proof (cases "x \<in> set ys")
    case False
    have "string_at (bytes t) (regs t SI) xs" using t Cons.prems(1) by simp
    from Cons.IH [OF this] t Cons.prems False show ?thesis by (auto simp: add.assoc)
  next
    case True
    then show ?thesis using t b(2) by (simp add: x86)
  qed
qed

text \<open>The first character of the set.\<close>

lemma strpbrk_first:
  assumes "string_at (bytes st) cs xs" and "string_at (bytes st) ct ys" and "length ys < 2 ^ 32 - 1"
  shows "\<exists>t. strpbrk cs ct st =
      Some (if \<exists>x\<in>set xs. x \<in> set ys then cs + of_nat (length (takeWhile (\<lambda>x. x \<notin> set ys) xs)) else 0, t) \<and> bytes t = bytes st"
proof -
  have c: "strpbrk_code ct = [Cld, Mov (V ct) DI, Repne_scasb, Notl CX, Dec CX, Mov (R CX) DX, Label 1] @ behind 1 (strpbrk_code ct)"
    by (simp add: strpbrk_code_def)
  from set_length [OF c assms(2,3), of cs] obtain t where t: "run (strpbrk_code ct) (set_reg SI cs (set_reg CX 0xFFFFFFFF (set_reg AX 0 st)))
      = exec (strpbrk_code ct) (behind 1 (strpbrk_code ct)) t" "bytes t = bytes st" "\<not> backward t" "regs t SI = cs" "regs t DX = of_nat (length ys)"
    by blast
  have "string_at (bytes t) (regs t SI) xs" "area_at (bytes t) ct ys" using assms(1,2) t area_of_string by simp_all
  from strpbrk_loop [OF this t(3,5)] assms(3) t(1,2,4) show ?thesis by (auto simp: strpbrk_def)
qed

section \<open>Comparing\<close>

definition strncmp_code :: "u32 instr list" where
  "strncmp_code = [Cld, Label 1, Dec CX, Js 2, Lodsb, Scasb, Jne 3, Testb_al, Jne 1, Label 2, Xor AX, Jmp 4, Label 3,
     Mov (V 1) AX, Jl 4, Neg AX, Label 4]"

definition strncmp :: "u32 \<Rightarrow> u32 \<Rightarrow> u32 \<Rightarrow> x86 \<Rightarrow> (int \<times> x86) option" where
  "strncmp cs ct cnt st = do {
     st \<leftarrow> run strncmp_code (set_reg DI cs (set_reg SI ct (set_reg CX cnt st)));
     Some (sint (regs st AX), st)
   }"

text \<open>The sign of the first difference among the first \<open>n\<close> characters, which are signed.\<close>

fun compare_first :: "nat \<Rightarrow> u8 list \<Rightarrow> u8 list \<Rightarrow> int" where
  "compare_first (Suc n) (x # xs) (y # ys) = (if x = y then compare_first n xs ys else if sint x < sint y then - 1 else 1)"
| "compare_first (Suc n) [] (y # ys) = (if sint y < 0 then 1 else - 1)"
| "compare_first (Suc n) (x # xs) [] = (if sint x < 0 then - 1 else 1)"
| "compare_first n xs ys = 0"

lemma compare_first_0:
  assumes "0 \<notin> set xs" and "0 \<notin> set ys"
  shows "compare_first n xs ys = 0 \<longleftrightarrow> take n xs = take n ys"
  using assms by (induction n xs ys rule: compare_first.induct) auto

lemma sint_small: "n < 2 ^ 31 \<Longrightarrow> sint (of_nat n :: u32) = int n"
  by (simp add: signed_of_nat signed_take_bit_int_eq_self)

lemma dec_count:
  assumes "n < 2 ^ 31"
  shows "sint (of_nat n - 1 :: u32) < 0 \<longleftrightarrow> n = 0"
proof (cases n)
  case (Suc m)
  then show ?thesis using assms sint_small [of m] by simp
qed simp

lemma strncmp_loop:
  assumes "string_at (bytes st) (regs st DI) xs" and "string_at (bytes st) (regs st SI) ys" and "\<not> backward st"
    and "regs st CX = of_nat n" and "n < 2 ^ 31"
  shows "\<exists>t. exec strncmp_code (behind 1 strncmp_code) st = Some t \<and> bytes t = bytes st
    \<and> sint (regs t AX) = compare_first n xs ys"
  using assms
proof (induction xs arbitrary: st ys n)
  case Nil
  note Nil1 = this
  show ?case
  proof (cases "n = 0")
    case True
    then show ?thesis using Nil by (simp add: strncmp_code_def x86)
  next
    case False
    then have "\<not> sint (of_nat n - 1 :: u32) < 0" using dec_count [of n] Nil.prems by blast
    then show ?thesis using Nil False by (cases n; cases ys) (auto simp: strncmp_code_def x86)
  qed
next
  case (Cons x xs)
  let ?t = "test8 x (scasb (lodsb (effect (Dec CX) st)))"
  show ?case
  proof (cases n)
    case 0
    then show ?thesis using Cons.prems by (simp add: strncmp_code_def x86)
  next
    case (Suc k)
    then have s: "\<not> sint (of_nat n - 1 :: u32) < 0" using dec_count [of n] Cons.prems by blast
    show ?thesis
    proof (cases ys)
      case Nil
      then show ?thesis using Cons.prems Suc s by (auto simp: strncmp_code_def x86 signed_eq_0_iff)
    next
      case c: (Cons y zs)
      show ?thesis
      proof (cases "x = y")
        case True
        then have "exec strncmp_code (behind 1 strncmp_code) st = exec strncmp_code (behind 1 strncmp_code) ?t"
          using Cons.prems c s by (simp add: strncmp_code_def x86)
        moreover have "string_at (bytes ?t) (regs ?t DI) xs" "string_at (bytes ?t) (regs ?t SI) zs" "\<not> backward ?t"
          "regs ?t CX = of_nat k" "k < 2 ^ 31" "bytes ?t = bytes st"
          using Cons.prems c Suc by (auto simp: x86)
        ultimately show ?thesis using Cons.IH [of ?t zs k] True Suc c by simp
      next
        case False
        then show ?thesis using Cons.prems c Suc s by (auto simp: strncmp_code_def x86)
      qed
    qed
  qed
qed

lemma strncmp_first_difference:
  assumes "string_at (bytes st) cs xs" and "string_at (bytes st) ct ys" and "n < 2 ^ 31"
  shows "\<exists>t. strncmp cs ct (of_nat n) st = Some (compare_first n xs ys, t) \<and> bytes t = bytes st"
proof -
  let ?i = "set_reg DI cs (set_reg SI ct (set_reg CX (of_nat n) st))"
  let ?s = "?i\<lparr>backward := False\<rparr>"
  have c: "strncmp_code = [Cld, Label 1] @ behind 1 strncmp_code" by (simp add: strncmp_code_def)
  have r: "run strncmp_code ?i = exec strncmp_code (behind 1 strncmp_code) ?s" by (simp add: run_from [OF c])
  have "string_at (bytes ?s) (regs ?s DI) xs" "string_at (bytes ?s) (regs ?s SI) ys" "\<not> backward ?s" "regs ?s CX = of_nat n"
    using assms by simp_all
  from strncmp_loop [OF this assms(3)] obtain t where "exec strncmp_code (behind 1 strncmp_code) ?s = Some t" "bytes t = bytes ?s"
    "sint (regs t AX) = compare_first n xs ys" by blast
  then show ?thesis unfolding strncmp_def r by simp
qed

definition memcmp_code :: "u32 instr list" where
  "memcmp_code = [Cld, Repe_cmpsb, Je 1, Mov (V 1) AX, Jl 1, Neg AX, Label 1]"

definition memcmp :: "u32 \<Rightarrow> u32 \<Rightarrow> u32 \<Rightarrow> x86 \<Rightarrow> (int \<times> x86) option" where
  "memcmp cs ct cnt st = do {
     st \<leftarrow> run memcmp_code (set_reg DI cs (set_reg SI ct (set_reg CX cnt (set_reg AX 0 st))));
     Some (sint (regs st AX), st)
   }"

text \<open>The same for areas.\<close>

lemma rep_cmpsb:
  assumes "area_at (bytes st) (regs st DI) xs" and "area_at (bytes st) (regs st SI) ys" and "length ys = length xs"
    and "\<not> backward st"
  shows "\<exists>n t. rep_until False cmpsb (length xs) st = (n, t) \<and> bytes t = bytes st \<and> regs t AX = regs st AX
    \<and> zero t = (if xs = [] then zero st else xs = ys) \<and> (xs \<noteq> ys \<longrightarrow> less_than t = (compare_first (length xs) xs ys = 1))"
  using assms
proof (induction xs arbitrary: ys st)
  case Nil
  then show ?case by simp
next
  case (Cons x xs)
  then obtain y zs where ys: "ys = y # zs" by (cases ys) auto
  let ?s = "cmpsb st"
  have s: "bytes ?s = bytes st" "\<not> backward ?s" "regs ?s AX = regs st AX" "regs ?s DI = regs st DI + 1" "regs ?s SI = regs st SI + 1"
    "zero ?s \<longleftrightarrow> x = y" "less_than ?s \<longleftrightarrow> sint y < sint x"
    using Cons.prems ys by (auto simp: x86)
  show ?case
  proof (cases "x = y")
    case True
    have "area_at (bytes ?s) (regs ?s DI) xs" "area_at (bytes ?s) (regs ?s SI) zs" "length zs = length xs" using Cons.prems ys s by simp_all
    from Cons.IH [OF this s(2)] obtain n t where t: "rep_until False cmpsb (length xs) ?s = (n, t)" "bytes t = bytes st" "regs t AX = regs st AX"
      "zero t = (if xs = [] then zero ?s else xs = zs)" "xs \<noteq> zs \<longrightarrow> less_than t = (compare_first (length xs) xs zs = 1)"
      unfolding s(1,3) by blast
    have "zero ?s" using s(6) True by simp
    moreover have "zero t = (xs = zs)" using t(4) calculation \<open>length zs = length xs\<close> by (cases "xs = []") simp_all
    ultimately show ?thesis using t(1-3,5) ys True by (intro exI [of _ n] exI [of _ t]) simp
  next
    case False
    then have "sint x \<noteq> sint y" by (simp add: signed_word_eqI)
    then show ?thesis using False s ys by auto
  qed
qed

lemma memcmp_first_difference:
  assumes "area_at (bytes st) cs xs" and "area_at (bytes st) ct ys" and "length ys = length xs" and "xs \<noteq> []" and "length xs < 2 ^ 32"
  shows "\<exists>t. memcmp cs ct (of_nat (length xs)) st = Some (if xs = ys then 0 else if compare_first (length xs) xs ys = 1 then 1 else - 1, t)
    \<and> bytes t = bytes st"
proof -
  let ?s = "(set_reg DI cs (set_reg SI ct (set_reg CX (of_nat (length xs)) (set_reg AX 0 st))))\<lparr>backward := False\<rparr>"
  have u: "unat (of_nat (length xs) :: u32) = length xs" using assms(5) by (simp add: unat_of_nat)
  have "area_at (bytes ?s) (regs ?s DI) xs" "area_at (bytes ?s) (regs ?s SI) ys" "\<not> backward ?s" using assms(1,2) by simp_all
  from rep_cmpsb [OF this(1,2) assms(3) this(3)] obtain n t where "rep_until False cmpsb (length xs) ?s = (n, t)" "bytes t = bytes ?s"
    "regs t AX = regs ?s AX" "zero t = (if xs = [] then zero ?s else xs = ys)"
    "xs \<noteq> ys \<longrightarrow> less_than t = (compare_first (length xs) xs ys = 1)" by blast
  then show ?thesis using u assms(4) by (auto simp: memcmp_def run_def memcmp_code_def rep_zero_def arith_flags_def)
qed

text \<open>With a count of 0 no byte is compared, and the result depends on flags that the routine does not set.\<close>

lemma memcmp_0:
  "\<exists>t. memcmp cs ct 0 st = Some (if zero st then 0 else if less_than st then 1 else - 1, t) \<and> bytes t = bytes st"
  by (cases "zero st"; cases "less_than st") (auto simp: memcmp_def run_def memcmp_code_def rep_zero_def arith_flags_def)

definition memchr_code :: "u32 instr list" where
  "memchr_code = [Cld, Repne_scasb, Je 1, Mov (V 1) DI, Label 1, Dec DI]"

definition memchr :: "u32 \<Rightarrow> u8 \<Rightarrow> u32 \<Rightarrow> x86 \<Rightarrow> (u32 \<times> x86) option" where
  "memchr cs c cnt st =
     (if cnt = 0 then Some (0, st)
      else do {
        st \<leftarrow> run memchr_code (set_reg DI cs (set_reg AX (set_low8 c (regs st AX)) (set_reg CX cnt st)));
        Some (regs st DI, st)
      })"

lemma memchr_first:
  assumes "area_at (bytes st) cs xs" and "length xs < 2 ^ 32"
  shows "\<exists>t. memchr cs c (of_nat (length xs)) st = Some (if c \<in> set xs then cs + of_nat (length (takeWhile (\<lambda>x. x \<noteq> c) xs)) else 0, t)
    \<and> bytes t = bytes st"
proof (cases "xs = []")
  case False
  let ?s = "(set_reg DI cs (set_reg AX (set_low8 c (regs st AX)) (set_reg CX (of_nat (length xs)) st)))\<lparr>backward := False\<rparr>"
  have u: "unat (of_nat (length xs) :: u32) = length xs" using assms(2) by (simp add: unat_of_nat)
  then have z: "(of_nat (length xs) :: u32) \<noteq> 0" using False by (metis length_0_conv unat_0)
  have l: "low8 (regs ?s AX) = c" by simp
  have "area_at (bytes ?s) (regs ?s DI) xs" "\<not> backward ?s" using assms(1) by simp_all
  from rep_scasb [OF this, unfolded l] False obtain n t where t: "rep_until True scasb (length xs) ?s = (n, t)" "bytes t = bytes ?s"
    "zero t = (c \<in> set xs)" "c \<in> set xs \<longrightarrow> regs t DI = regs ?s DI + of_nat (length (takeWhile (\<lambda>x. x \<noteq> c) xs)) + 1" by auto
  then show ?thesis using u z by (simp add: memchr_def run_def memchr_code_def rep_zero_def arith_flags_def Let_def)
qed (simp add: memchr_def)

section \<open>Copying strings\<close>

text \<open>The source, of \<open>k + 1\<close> bytes, lies outside of the \<open>n\<close> bytes that are written.\<close>

definition apart :: "u32 \<Rightarrow> nat \<Rightarrow> u32 \<Rightarrow> nat \<Rightarrow> bool" where
  "apart s k d n \<longleftrightarrow> (\<forall>i\<le>k. n \<le> unat (s + of_nat i - d))"

lemma apart_next: "apart s (Suc k) d (Suc n) \<Longrightarrow> apart (s + 1) k (d + 1) n"
  unfolding apart_def
proof (intro allI impI)
  fix i assume a: "\<forall>i\<le>Suc k. Suc n \<le> unat (s + of_nat i - d)" and i: "i \<le> k"
  have "Suc n \<le> unat (s + of_nat i - d)" using a i by simp
  moreover have e: "s + 1 + of_nat i - (d + 1) = s + of_nat i - d" by simp
  ultimately show "n \<le> unat (s + 1 + of_nat i - (d + 1))" unfolding e by linarith
qed

lemma apart_le: "apart s k d n \<Longrightarrow> m \<le> n \<Longrightarrow> apart s k d m"
  by (auto simp: apart_def)

lemma string_at_upd:
  assumes "string_at m s xs" and "apart s (length xs) d (Suc n)"
  shows "string_at (m(d := b)) s xs"
proof -
  have "string_at (m(d := b)) s xs" if "string_at m s xs" "\<forall>i\<le>length xs. s + of_nat i \<noteq> d" for s
    using that
  proof (induction xs arbitrary: s)
    case (Cons x xs)
    have "\<forall>i\<le>length xs. s + 1 + of_nat i \<noteq> d" using Cons.prems(2) by (auto simp: add.assoc dest: spec [of _ "Suc _"])
    moreover have "s \<noteq> d" using Cons.prems(2) by (auto dest: spec [of _ 0])
    ultimately show ?case using Cons by simp
  qed auto
  moreover have "\<forall>i\<le>length xs. s + of_nat i \<noteq> d" using assms(2) by (auto simp: apart_def)
  ultimately show ?thesis using assms(1) by blast
qed

definition strncpy_code :: "u32 instr list" where
  "strncpy_code = [Cld, Label 1, Dec CX, Js 2, Lodsb, Stosb, Testb_al, Jne 1, Rep_stosb, Label 2]"

definition strncpy :: "u32 \<Rightarrow> u32 \<Rightarrow> u32 \<Rightarrow> x86 \<Rightarrow> (u32 \<times> x86) option" where
  "strncpy dest src cnt st = do {
     st \<leftarrow> run strncpy_code (set_reg SI src (set_reg DI dest (set_reg CX cnt st)));
     Some (dest, st)
   }"

lemma strncpy_loop:
  assumes "string_at (bytes st) (regs st SI) xs" and "\<not> backward st" and "regs st CX = of_nat n" and "n < 2 ^ 31"
    and "apart (regs st SI) (length xs) (regs st DI) n"
  shows "\<exists>t. exec strncpy_code (behind 1 strncpy_code) st = Some t
    \<and> bytes t = put (bytes st) (regs st DI) (take n (xs @ replicate n 0))"
  using assms
proof (induction n arbitrary: st xs)
  case 0
  then show ?case by (simp add: strncpy_code_def x86)
next
  case (Suc n)
  have s: "\<not> sint (of_nat (Suc n) - 1 :: u32) < 0" using dec_count [of "Suc n"] Suc.prems(4) by blast
  have u: "unat (of_nat n :: u32) = n" using Suc.prems(4) by (simp add: unat_of_nat)
  let ?x = "bytes st (regs st SI)"
  let ?t = "test8 ?x (stosb (lodsb (effect (Dec CX) st)))"
  show ?case
  proof (cases xs)
    case Nil
    then have "exec strncpy_code (behind 1 strncpy_code) st = Some (rep stosb ?t)"
      using Suc.prems s by (simp add: strncpy_code_def lodsb_def stosb_def test8_def advance_def arith_flags_def Let_def)
    moreover have "\<not> backward ?t" "n \<le> 2 ^ LENGTH(32)" using Suc.prems by (auto simp: x86)
    note stosb_power [OF this]
    moreover have "regs ?t CX = of_nat n" "low8 (regs ?t AX) = 0" "regs ?t DI = regs st DI + 1" "bytes ?t = (bytes st)(regs st DI := 0)"
      using Suc.prems Nil by (simp_all add: x86)
    moreover have "length (replicate n (0 :: u8)) < 2 ^ LENGTH(32)" using Suc.prems(4) by simp
    note put_Cons [OF this, of "bytes st" "regs st DI" 0]
    ultimately show ?thesis using u Nil by (simp add: rep_def)
  next
    case (Cons y ys)
    then have e: "exec strncpy_code (behind 1 strncpy_code) st = exec strncpy_code (behind 1 strncpy_code) ?t"
      using Suc.prems s by (simp add: strncpy_code_def x86)
    have t: "bytes ?t = (bytes st)(regs st DI := y)" "regs ?t SI = regs st SI + 1" "regs ?t DI = regs st DI + 1" "regs ?t CX = of_nat n"
      "\<not> backward ?t" using Suc.prems Cons by (simp_all add: x86)
    have "apart (regs st SI + 1) (length ys) (regs st DI) (Suc n)" using Suc.prems(5) Cons unfolding apart_def
      by (auto simp: add.assoc dest: spec [of _ "Suc _"])
    then have "string_at (bytes ?t) (regs ?t SI) ys" unfolding t(1,2) by (rule string_at_upd [rotated]) (use Suc.prems Cons in simp)
    moreover have "apart (regs ?t SI) (length ys) (regs ?t DI) n" unfolding t(2,3) by (rule apart_next) (use Suc.prems(5) Cons in simp)
    ultimately obtain r where r: "exec strncpy_code (behind 1 strncpy_code) ?t = Some r"
      "bytes r = put (bytes ?t) (regs ?t DI) (take n (ys @ replicate n 0))" using Suc.IH [of ?t ys] t(4,5) Suc.prems(4) by auto
    have "put ((bytes st)(regs st DI := y)) (regs st DI + 1) (take n (ys @ replicate n 0)) = put (bytes st) (regs st DI) (y # take n (ys @ replicate n 0))"
      by (rule put_Cons) (use Suc.prems(4) in auto)
    moreover have "take (Suc n) (xs @ replicate (Suc n) 0) = y # take n (ys @ replicate n 0)" using Cons by (simp add: take_replicate min_def del: replicate_Suc)
    ultimately show ?thesis using e r t(1,3) by simp
  qed
qed

text \<open>The first characters, padded with zeros.\<close>

lemma strncpy_pads:
  assumes "string_at (bytes st) src xs" and "n < 2 ^ 31" and "apart src (length xs) dest n"
  shows "\<exists>t. strncpy dest src (of_nat n) st = Some (dest, t) \<and> bytes t = put (bytes st) dest (take n (xs @ replicate n 0))"
proof -
  let ?i = "set_reg SI src (set_reg DI dest (set_reg CX (of_nat n) st))"
  let ?s = "?i\<lparr>backward := False\<rparr>"
  have c: "strncpy_code = [Cld, Label 1] @ behind 1 strncpy_code" by (simp add: strncpy_code_def)
  have r: "run strncpy_code ?i = exec strncpy_code (behind 1 strncpy_code) ?s" by (simp add: run_from [OF c])
  have "string_at (bytes ?s) (regs ?s SI) xs" "\<not> backward ?s" "regs ?s CX = of_nat n" "apart (regs ?s SI) (length xs) (regs ?s DI) n"
    using assms by simp_all
  from strncpy_loop [OF this(1-3) assms(2) this(4)] show ?thesis unfolding strncpy_def r by auto
qed

definition strcat_code :: "u32 instr list" where
  "strcat_code = [Cld, Repne_scasb, Dec DI, Label 1, Lodsb, Stosb, Testb_al, Jne 1]"

definition strcat :: "u32 \<Rightarrow> u32 \<Rightarrow> x86 \<Rightarrow> (u32 \<times> x86) option" where
  "strcat dest src st = do {
     st \<leftarrow> run strcat_code (set_reg SI src (set_reg DI dest (set_reg AX 0 (set_reg CX 0xFFFFFFFF st))));
     Some (dest, st)
   }"

text \<open>The body of the copying loops: one character.\<close>

lemma copy_step:
  assumes "string_at (bytes st) (regs st SI) (y # ys)" and "apart (regs st SI) (length (y # ys)) (regs st DI) (Suc n)" and "\<not> backward st"
  shows "string_at (bytes (stosb (lodsb st))) (regs (stosb (lodsb st)) SI) ys"
    and "apart (regs (stosb (lodsb st)) SI) (length ys) (regs (stosb (lodsb st)) DI) n"
    and "bytes (stosb (lodsb st)) = (bytes st)(regs st DI := y)" and "regs (stosb (lodsb st)) DI = regs st DI + (1 :: u32)"
    and "\<not> backward (stosb (lodsb st))" and "low8 (regs (stosb (lodsb st)) AX) = y"
    and "regs (stosb (lodsb st)) CX = regs st CX"
proof -
  let ?t = "stosb (lodsb st)"
  have t: "bytes ?t = (bytes st)(regs st DI := y)" "regs ?t SI = regs st SI + 1" "regs ?t DI = regs st DI + 1" "\<not> backward ?t"
    "low8 (regs ?t AX) = y" "regs ?t CX = regs st CX" using assms by (simp_all add: x86)
  then show "bytes ?t = (bytes st)(regs st DI := y)" "regs ?t DI = regs st DI + 1" "\<not> backward ?t" "low8 (regs ?t AX) = y"
    "regs ?t CX = regs st CX" by simp_all
  have "apart (regs st SI + 1) (length ys) (regs st DI) (Suc n)" using assms(2) unfolding apart_def
    by (auto simp: add.assoc dest: spec [of _ "Suc _"])
  then show "string_at (bytes ?t) (regs ?t SI) ys" unfolding t(1,2) by (rule string_at_upd [rotated]) (use assms in simp)
  show "apart (regs ?t SI) (length ys) (regs ?t DI) n" unfolding t(2,3) by (rule apart_next) (use assms(2) in simp)
qed

lemma strcat_loop:
  assumes "string_at (bytes st) (regs st SI) xs" and "\<not> backward st" and "length xs < 2 ^ 32 - 1"
    and "apart (regs st SI) (length xs) (regs st DI) (Suc (length xs))"
  shows "\<exists>t. exec strcat_code (behind 1 strcat_code) st = Some t \<and> bytes t = put (bytes st) (regs st DI) (xs @ [0])"
  using assms
proof (induction xs arbitrary: st)
  case Nil
  then show ?case using put_Cons [of "[]" "bytes st" "regs st DI" 0] by (simp add: strcat_code_def x86)
next
  case (Cons y ys)
  let ?t = "test8 y (stosb (lodsb st))"
  have e: "exec strcat_code (behind 1 strcat_code) st = exec strcat_code (behind 1 strcat_code) ?t"
    using Cons.prems by (simp add: strcat_code_def x86)
  note c = copy_step [OF Cons.prems(1) Cons.prems(4) Cons.prems(2)]
  have t: "bytes ?t = bytes (stosb (lodsb st))" "regs ?t = regs (stosb (lodsb st))" "\<not> backward ?t" using c(5) by (simp_all add: test8_def)
  have "string_at (bytes ?t) (regs ?t SI) ys" "apart (regs ?t SI) (length ys) (regs ?t DI) (Suc (length ys))" using c(1,2) t(1,2) by simp_all
  from Cons.IH [OF this(1) t(3) _ this(2)] Cons.prems(3) obtain r where "exec strcat_code (behind 1 strcat_code) ?t = Some r"
    "bytes r = put (bytes ?t) (regs ?t DI) (ys @ [0])" by auto
  moreover have "put ((bytes st)(regs st DI := y)) (regs st DI + 1) (ys @ [0]) = put (bytes st) (regs st DI) (y # ys @ [0])"
    by (rule put_Cons) (use Cons.prems(3) in simp)
  ultimately show ?case using e t c(3,4) by simp
qed

text \<open>The second string goes behind the first one.\<close>

lemma strcat_appends:
  assumes "string_at (bytes st) dest ys" and "string_at (bytes st) src xs" and "length ys < 2 ^ 32 - 1" and "length xs < 2 ^ 32 - 1"
    and "apart src (length xs) (dest + of_nat (length ys)) (Suc (length xs))"
  shows "\<exists>t. strcat dest src st = Some (dest, t) \<and> bytes t = put (bytes st) (dest + of_nat (length ys)) (xs @ [0])"
proof -
  let ?i = "set_reg SI src (set_reg DI dest (set_reg AX 0 (set_reg CX 0xFFFFFFFF st)))"
  let ?s = "?i\<lparr>backward := False\<rparr>"
  have c: "strcat_code = [Cld, Repne_scasb, Dec DI, Label 1] @ behind 1 strcat_code" by (simp add: strcat_code_def)
  have "string_at (bytes ?s) (regs ?s DI) ys" "\<not> backward ?s" "low8 (regs ?s AX) = 0" "regs ?s CX = 0xFFFFFFFF" using assms(1) by simp_all
  from repne_scasb_end [OF this assms(3)] obtain u where u: "rep_zero True scasb ?s = u" "bytes u = bytes ?s" "\<not> backward u"
    "\<forall>r. r \<notin> {CX, DI} \<longrightarrow> regs u r = regs ?s r" "regs u DI = regs ?s DI + of_nat (length ys) + 1" by blast
  let ?u = "effect (Dec DI) u"
  have r: "run strcat_code ?i = exec strcat_code (behind 1 strcat_code) ?u" using u(1) by (simp add: run_from [OF c])
  have v: "bytes ?u = bytes st" "\<not> backward ?u" "regs ?u SI = src" "regs ?u DI = dest + of_nat (length ys)"
    using u by (simp_all add: arith_flags_def Let_def)
  have "string_at (bytes ?u) (regs ?u SI) xs" "apart (regs ?u SI) (length xs) (regs ?u DI) (Suc (length xs))"
    unfolding v(1,3,4) by (rule assms)+
  from strcat_loop [OF this(1) v(2) assms(4) this(2)] show ?thesis unfolding strcat_def r v(1,4) by auto
qed

definition strncat_code :: "u32 \<Rightarrow> u32 instr list" where
  "strncat_code cnt = [Cld, Repne_scasb, Dec DI, Mov (V cnt) CX, Label 1, Dec CX, Js 2, Lodsb, Stosb, Testb_al, Jne 1,
     Label 2, Xor AX, Stosb]"

definition strncat :: "u32 \<Rightarrow> u32 \<Rightarrow> u32 \<Rightarrow> x86 \<Rightarrow> (u32 \<times> x86) option" where
  "strncat dest src cnt st = do {
     st \<leftarrow> run (strncat_code cnt) (set_reg SI src (set_reg DI dest (set_reg AX 0 (set_reg CX 0xFFFFFFFF st))));
     Some (dest, st)
   }"

text \<open>What \<^verbatim>\<open>strncat\<close> writes: it adds a terminator even when it has copied that of the source.\<close>

definition strncat_bytes :: "nat \<Rightarrow> u8 list \<Rightarrow> u8 list" where
  "strncat_bytes n xs = (if length xs < n then xs @ [0, 0] else take n xs @ [0])"

lemma length_strncat_bytes: "length (strncat_bytes n xs) \<le> n + 1"
  by (auto simp: strncat_bytes_def)

lemma strncat_loop:
  assumes "string_at (bytes st) (regs st SI) xs" and "\<not> backward st" and "regs st CX = of_nat n" and "n < 2 ^ 31"
    and "apart (regs st SI) (length xs) (regs st DI) (Suc n)"
  shows "\<exists>t. exec (strncat_code cnt) (behind 1 (strncat_code cnt)) st = Some t
    \<and> bytes t = put (bytes st) (regs st DI) (strncat_bytes n xs)"
  using assms
proof (induction n arbitrary: st xs)
  case 0
  then show ?case using put_Cons [of "[]" "bytes st" "regs st DI" 0] by (simp add: strncat_code_def x86 strncat_bytes_def)
next
  case (Suc n)
  have s: "\<not> sint (of_nat (Suc n) - 1 :: u32) < 0" using dec_count [of "Suc n"] Suc.prems(4) by blast
  show ?case
  proof (cases xs)
    case Nil
    have "put ((bytes st)(regs st DI := 0, regs st DI + 1 := 0)) (regs st DI + 1 + 1) [] = put (bytes st) (regs st DI) [0, 0]"
      by (subst put_Cons, simp, subst put_Cons, simp, simp)
    then show ?thesis using Suc.prems Nil s by (simp add: strncat_code_def x86 strncat_bytes_def)
  next
    case (Cons y ys)
    let ?d = "effect (Dec CX) st"
    let ?t = "test8 y (stosb (lodsb ?d))"
    have e: "exec (strncat_code cnt) (behind 1 (strncat_code cnt)) st = exec (strncat_code cnt) (behind 1 (strncat_code cnt)) ?t"
      using Suc.prems Cons s by (simp add: strncat_code_def x86)
    have d: "bytes ?d = bytes st" "regs ?d SI = regs st SI" "regs ?d DI = regs st DI" "\<not> backward ?d" "regs ?d CX = of_nat n"
      using Suc.prems by (simp_all add: arith_flags_def Let_def)
    have "string_at (bytes ?d) (regs ?d SI) (y # ys)" "apart (regs ?d SI) (length (y # ys)) (regs ?d DI) (Suc (Suc n))"
      unfolding d(1-3) using Suc.prems Cons by simp_all
    note c = copy_step [OF this d(4)]
    have t: "bytes ?t = bytes (stosb (lodsb ?d))" "regs ?t = regs (stosb (lodsb ?d))" "\<not> backward ?t" using c(5) by (simp_all add: test8_def)
    have "string_at (bytes ?t) (regs ?t SI) ys" "apart (regs ?t SI) (length ys) (regs ?t DI) (Suc n)" "regs ?t CX = of_nat n"
      using c(1,2,7) d(5) unfolding t(1,2) by simp_all
    from Suc.IH [OF this(1) t(3) this(3) _ this(2)] Suc.prems(4) obtain r where "exec (strncat_code cnt) (behind 1 (strncat_code cnt)) ?t = Some r"
      "bytes r = put (bytes ?t) (regs ?t DI) (strncat_bytes n ys)" by auto
    moreover have "put ((bytes st)(regs st DI := y)) (regs st DI + 1) (strncat_bytes n ys) = put (bytes st) (regs st DI) (y # strncat_bytes n ys)"
      by (rule put_Cons) (use Suc.prems(4) length_strncat_bytes [of n ys] in simp)
    ultimately show ?thesis using e Cons c(3,4) unfolding t(1,2) d(1,3) by (simp add: strncat_bytes_def)
  qed
qed

lemma strncat_appends:
  assumes "string_at (bytes st) dest ys" and "string_at (bytes st) src xs" and "length ys < 2 ^ 32 - 1" and "n < 2 ^ 31"
    and "apart src (length xs) (dest + of_nat (length ys)) (Suc n)"
  shows "\<exists>t. strncat dest src (of_nat n) st = Some (dest, t) \<and> bytes t = put (bytes st) (dest + of_nat (length ys)) (strncat_bytes n xs)"
proof -
  let ?i = "set_reg SI src (set_reg DI dest (set_reg AX 0 (set_reg CX 0xFFFFFFFF st)))"
  let ?s = "?i\<lparr>backward := False\<rparr>" and ?c = "strncat_code (of_nat n)"
  have c: "?c = [Cld, Repne_scasb, Dec DI, Mov (V (of_nat n)) CX, Label 1] @ behind 1 ?c" by (simp add: strncat_code_def)
  have "string_at (bytes ?s) (regs ?s DI) ys" "\<not> backward ?s" "low8 (regs ?s AX) = 0" "regs ?s CX = 0xFFFFFFFF" using assms(1) by simp_all
  from repne_scasb_end [OF this assms(3)] obtain u where u: "rep_zero True scasb ?s = u" "bytes u = bytes ?s" "\<not> backward u"
    "\<forall>r. r \<notin> {CX, DI} \<longrightarrow> regs u r = regs ?s r" "regs u DI = regs ?s DI + of_nat (length ys) + 1" by blast
  let ?u = "set_reg CX (of_nat n) (effect (Dec DI) u)"
  have r: "run ?c ?i = exec ?c (behind 1 ?c) ?u" using u(1) by (simp add: run_from [OF c])
  have v: "bytes ?u = bytes st" "\<not> backward ?u" "regs ?u SI = src" "regs ?u DI = dest + of_nat (length ys)" "regs ?u CX = of_nat n"
    using u by (simp_all add: arith_flags_def Let_def)
  have "string_at (bytes ?u) (regs ?u SI) xs" "apart (regs ?u SI) (length xs) (regs ?u DI) (Suc n)"
    unfolding v(1,3,4) by (rule assms)+
  from strncat_loop [OF this(1) v(2,5) assms(4) this(2), of "of_nat n"] show ?thesis unfolding strncat_def r v(1,4) by auto
qed

section \<open>Moving an area\<close>

definition memmove :: "u32 \<Rightarrow> u32 \<Rightarrow> u32 \<Rightarrow> x86 \<Rightarrow> (u32 \<times> x86) option" where
  "memmove dest src n st = do {
     st \<leftarrow> (if dest < src then run [Cld, Rep_movsb] (set_reg CX n (set_reg SI src (set_reg DI dest st)))
           else run [Std, Rep_movsb] (set_reg CX n (set_reg SI (src + n - 1) (set_reg DI (dest + n - 1) st))));
     Some (dest, st)
   }"

text \<open>Copying downwards.\<close>

lemma movsb_down:
  fixes st :: "'w::len word machine"
  assumes "backward st" and "n \<le> 2 ^ LENGTH('w)" and "regs st SI = src + of_nat n - 1" and "regs st DI = dst + of_nat n - 1"
    and "\<forall>i<n. unat (src + of_nat i - dst) \<le> i \<or> n \<le> unat (src + of_nat i - dst)" and "k \<le> n"
  shows "(movsb ^^ k) st = st\<lparr>regs := (regs st)(SI := src + of_nat n - 1 - of_nat k, DI := dst + of_nat n - 1 - of_nat k),
     bytes := (\<lambda>x. if n - k \<le> unat (x - dst) \<and> unat (x - dst) < n then bytes st (src + (x - dst)) else bytes st x)\<rparr>"
  using assms(6)
proof (induction k)
  case 0
  have "(regs st)(SI := src + of_nat n - 1, DI := dst + of_nat n - 1) = regs st" using assms(3,4) by (auto simp: fun_eq_iff)
  moreover have "(\<lambda>x. if n - 0 \<le> unat (x - dst) \<and> unat (x - dst) < n then bytes st (src + (x - dst)) else bytes st x) = bytes st"
    by (auto simp: fun_eq_iff)
  ultimately show ?case by (simp del: fun_upd_apply)
next
  case (Suc k)
  let ?m = "bytes st" and ?b = "\<lambda>k x. if n - k \<le> unat (x - dst) \<and> unat (x - dst) < n then bytes st (src + (x - dst)) else bytes st x"
  define i where "i = n - Suc k"
  have i: "i < n" "n - k = Suc i" "n = Suc (i + k)" "n - Suc k = i" using Suc.prems by (simp_all add: i_def)
  have u: "unat (of_nat i :: 'w word) = i" using i(1) assms(2) by (simp add: unat_of_nat)
  have a: "a + of_nat n - 1 - of_nat k = a + (of_nat i :: 'w word)" "a + of_nat i - 1 = a + of_nat n - 1 - of_nat (Suc k)" for a :: "'w word"
    using i(3) by simp_all
  have src: "?b k (src + of_nat i) = ?m (src + of_nat i)" by (rule if_not_P) (use assms(5) [rule_format, OF i(1)] i(2) in linarith)
  have "((?b k)(dst + of_nat i := ?m (src + of_nat i))) x = ?b (Suc k) x" for x
  proof (cases "x = dst + of_nat i")
    case True
    then show ?thesis using u i by simp
  next
    case False
    then have "x - dst \<noteq> of_nat i" by (metis add.commute diff_add_cancel)
    then have "unat (x - dst) \<noteq> i" using u by (simp add: word_unat_eq_iff)
    then show ?thesis using False i by auto
  qed
  then have b: "(?b k)(dst + of_nat i := ?m (src + of_nat i)) = ?b (Suc k)" by blast
  have "(movsb ^^ Suc k) st = movsb ((movsb ^^ k) st)" by simp
  also have "(movsb ^^ k) st = st\<lparr>regs := (regs st)(SI := src + of_nat i, DI := dst + of_nat i), bytes := ?b k\<rparr>"
    using Suc.IH Suc.prems unfolding a(1) by (simp del: fun_upd_apply)
  also have "movsb (st\<lparr>regs := (regs st)(SI := src + of_nat i, DI := dst + of_nat i), bytes := ?b k\<rparr>)
      = st\<lparr>regs := (regs st)(SI := src + of_nat i - 1, DI := dst + of_nat i - 1), bytes := ?b (Suc k)\<rparr>"
    using assms(1) src b by (simp add: movsb_def advance_def fun_upd_twist del: of_nat_Suc)
  finally show ?case unfolding a(2) .
qed

lemma put_bytes_from:
  fixes d :: "'w::len word"
  shows "put m d (bytes_from m s n) = (\<lambda>x. if unat (x - d) < n then m (s + (x - d)) else m x)"
  by (auto simp: put_def bytes_from_def fun_eq_iff)

lemma unat_neg:
  fixes w :: u32
  assumes "w \<noteq> 0"
  shows "unat (- w) = 2 ^ 32 - unat w"
proof -
  have l: "unat w < 2 ^ 32" using unsigned_less [of w] by simp
  have e: "- w = of_nat (2 ^ 32 - unat w)" using l by (simp add: of_nat_diff)
  have "0 < unat w" using assms by (simp add: unat_gt_0)
  then show ?thesis unfolding e by (subst unat_of_nat) (use l in simp)
qed

text \<open>
  C40. \<^verbatim>\<open>memmove\<close> moves areas that overlap.  For areas that do not wrap around the end of the address space it ends, puts
  the bytes that the source has at the start into the destination and changes no other byte; where the destination is
  not below the source it leaves the direction flag set, which callers expect to be clear.
\<close>

theorem memmove_moves:
  assumes "unat src + unat n \<le> 2 ^ 32" and "unat dest + unat n \<le> 2 ^ 32"
  shows "\<exists>t. memmove dest src n st = Some (dest, t) \<and> bytes t = put (bytes st) dest (bytes_from (bytes st) src (unat n))
    \<and> (backward t \<longleftrightarrow> src \<le> dest)"
proof -
  have off: "unat (src + of_nat i) = unat src + i" if "i < unat n" for i
    using that assms(1) by (simp add: unat_word_ariths unat_of_nat)
  show ?thesis
  proof (cases "dest < src")
    case True
    let ?s = "(set_reg CX n (set_reg SI src (set_reg DI dest st)))\<lparr>backward := False\<rparr>"
    have "i \<le> unat (src + of_nat i - dest)" if "i < unat n" for i
    proof -
      have "unat dest < unat src" using True by (simp add: word_less_nat_alt)
      moreover then have "dest \<le> src + of_nat i" using off [OF that] by (simp add: word_le_nat_alt)
      ultimately show ?thesis using off [OF that] by (simp add: unat_sub)
    qed
    then have "(movsb ^^ unat n) ?s = ?s\<lparr>regs := (regs ?s)(SI := src + n, DI := dest + n),
        bytes := put (bytes st) dest (bytes_from (bytes st) src (unat n))\<rparr>"
      using assms by (subst movsb_power) simp_all
    then show ?thesis using True by (simp add: memmove_def run_def rep_def)
  next
    case False
    then have le: "src \<le> dest" by simp
    let ?s = "(set_reg CX n (set_reg SI (src + n - 1) (set_reg DI (dest + n - 1) st)))\<lparr>backward := True\<rparr>"
    have "unat (src + of_nat i - dest) \<le> i \<or> unat n \<le> unat (src + of_nat i - dest)" if "i < unat n" for i
    proof (cases "dest \<le> src + of_nat i")
      case True
      then have "unat (src + of_nat i - dest) = unat src + i - unat dest" using off [OF that] by (simp add: unat_sub)
      moreover have "unat src \<le> unat dest" using le by (simp add: word_le_nat_alt)
      ultimately show ?thesis by linarith
    next
      case False
      then have "unat (dest - (src + of_nat i)) = unat dest - (unat src + i)" using off [OF that] by (simp add: unat_sub)
      moreover have "dest - (src + of_nat i) \<noteq> 0" using False by auto
      then have "unat (- (dest - (src + of_nat i))) = 2 ^ 32 - unat (dest - (src + of_nat i))" by (rule unat_neg)
      moreover have "unat n \<le> 2 ^ 32 - (unat dest - (unat src + i))" using assms(2) by linarith
      ultimately show ?thesis by simp
    qed
    then have "(movsb ^^ unat n) ?s = ?s\<lparr>regs := (regs ?s)(SI := src + of_nat (unat n) - 1 - of_nat (unat n),
        DI := dest + of_nat (unat n) - 1 - of_nat (unat n)),
        bytes := (\<lambda>x. if unat n - unat n \<le> unat (x - dest) \<and> unat (x - dest) < unat n then bytes ?s (src + (x - dest)) else bytes ?s x)\<rparr>"
      using assms by (intro movsb_down) simp_all
    then show ?thesis using False le by (simp add: memmove_def run_def rep_def put_bytes_from cong: if_cong)
  qed
qed

definition demo_machine :: x86 where
  "demo_machine = \<lparr>regs = (\<lambda>_. 0), bytes = (\<lambda>x. if x = 100 \<or> x = 103 \<or> x = 200 then 44 else if x = 101 then 97
     else if x = 102 then 98 else if x = 104 then 99 else 0), zero = False, sign = False, less_than = False, backward = False\<rparr>"

theorem memmove_moves_witness:
  "\<exists>t. memmove 101 100 4 demo_machine = Some (101, t) \<and> backward t
    \<and> bytes t 100 = 44 \<and> bytes t 101 = 44 \<and> bytes t 102 = 97 \<and> bytes t 103 = 98 \<and> bytes t 104 = 44 \<and> bytes t 105 = 0"
proof -
  from memmove_moves [of 100 4 101 demo_machine] obtain t where "memmove 101 100 4 demo_machine = Some (101, t)" "backward t"
    "bytes t = put (bytes demo_machine) 101 (bytes_from (bytes demo_machine) 100 4)" by auto
  then show ?thesis by (simp add: put_bytes_from demo_machine_def unsigned_minus_1_eq_mask mask_eq_exp_minus_1)
qed

section \<open>Tokens\<close>

text \<open>\<^verbatim>\<open>strtok\<close>: its variable for the rest of the string is a local one, whose value at the start, \<open>old\<close>, is indeterminate.\<close>

definition strtok_code :: "u32 \<Rightarrow> u32 instr list" where
  "strtok_code ct = [Test SI, Jne 1, Test BX, Je 8, Mov (R BX) SI, Label 1, Xor BX, Mov (V (- 1)) CX, Xor AX, Cld,
     Mov (V ct) DI, Repne_scasb, Notl CX, Dec CX, Je 7, Mov (R CX) DX,
     Label 2, Lodsb, Testb_al, Je 7, Mov (V ct) DI, Mov (R DX) CX, Repne_scasb, Je 2, Dec SI, Cmpb_0 SI, Je 7, Mov (R SI) BX,
     Label 3, Lodsb, Testb_al, Je 5, Mov (V ct) DI, Mov (R DX) CX, Repne_scasb, Jne 3, Dec SI, Cmpb_0 SI, Je 5, Movb_0 SI, Inc SI, Jmp 6,
     Label 5, Xor SI, Label 6, Cmpb_0 BX, Jne 7, Xor BX, Label 7, Test BX, Jne 8, Mov (R BX) SI, Label 8]"

definition strtok :: "u32 \<Rightarrow> u32 \<Rightarrow> u32 \<Rightarrow> x86 \<Rightarrow> (u32 \<times> x86) option" where
  "strtok old s ct st = do {
     st \<leftarrow> run (strtok_code ct) (set_reg BX old (set_reg SI s st));
     Some (regs st BX, st)
   }"

text \<open>Skipping the separators.\<close>

lemma strtok_skip:
  assumes "string_at (bytes st) (regs st SI) xs" and "area_at (bytes st) ct ys" and "\<not> backward st"
    and "regs st DX = of_nat (length ys)" and "length ys < 2 ^ 32" and "zs = dropWhile (\<lambda>x. x \<in> set ys) xs"
    and "a = regs st SI + of_nat (length (takeWhile (\<lambda>x. x \<in> set ys) xs))"
  shows "\<exists>t. exec (strtok_code ct) (behind 2 (strtok_code ct)) st =
      exec (strtok_code ct) (behind (if zs = [] then 7 else 3) (strtok_code ct)) t \<and> bytes t = bytes st \<and> \<not> backward t
    \<and> regs t BX = (if zs = [] then regs st BX else a) \<and> (zs \<noteq> [] \<longrightarrow> regs t SI = a \<and> regs t DX = regs st DX)"
  using assms(1-4,6,7)
proof (induction xs arbitrary: st)
  case Nil
  have b: "behind 2 (strtok_code ct) = [Lodsb, Testb_al, Je 7] @ drop 20 (strtok_code ct)" by (simp add: strtok_code_def)
  from set_search_end [OF b Nil.prems(3)] Nil show ?case by auto
next
  case (Cons x xs)
  let ?c = "strtok_code ct" and ?r = "[Je 2, Dec SI, Cmpb_0 SI, Je 7, Mov (R SI) BX] @ Label 3 # behind 3 (strtok_code ct)"
  have b: "behind 2 ?c = [Lodsb, Testb_al, Je 7, Mov (V ct) DI, Mov (R DX) CX, Repne_scasb] @ ?r" by (simp add: strtok_code_def)
  from set_search [OF b Cons.prems(2-4) assms(5), of x] Cons.prems(1) obtain t where
    t: "exec ?c (behind 2 ?c) st = exec ?c ?r t" "bytes t = bytes st" "\<not> backward t" "regs t SI = regs st SI + 1"
      "regs t DX = regs st DX" "regs t BX = regs st BX" "zero t \<longleftrightarrow> x \<in> set ys" by auto
  show ?case
  proof (cases "x \<in> set ys")
    case True
    have e: "exec ?c (behind 2 ?c) st = exec ?c (behind 2 ?c) t" using t(1,7) True by simp
    have "string_at (bytes t) (regs t SI) xs" "area_at (bytes t) ct ys" "\<not> backward t" "regs t DX = of_nat (length ys)"
      "zs = dropWhile (\<lambda>x. x \<in> set ys) xs" "a = regs t SI + of_nat (length (takeWhile (\<lambda>x. x \<in> set ys) xs))"
      using t Cons.prems True by (simp_all add: add.assoc)
    from Cons.IH [OF this] show ?thesis unfolding e t(2,5,6) .
  next
    case False
    let ?t = "set_reg BX (regs st SI) (compare8 x 0 (effect (Dec SI) t))"
    have "exec ?c (behind 2 ?c) st = exec ?c (behind 3 ?c) ?t" using False t Cons.prems(1) by (simp add: x86)
    then show ?thesis using False t Cons.prems by (intro exI [of _ ?t]) (simp add: x86)
  qed
qed

text \<open>Finding the end of the token, which is overwritten.\<close>

lemma strtok_end:
  assumes "string_at (bytes st) (regs st SI) xs" and "area_at (bytes st) ct ys" and "\<not> backward st"
    and "regs st DX = of_nat (length ys)" and "length ys < 2 ^ 32" and "zs = dropWhile (\<lambda>x. x \<notin> set ys) xs"
    and "a = regs st SI + of_nat (length (takeWhile (\<lambda>x. x \<notin> set ys) xs))"
  shows "\<exists>t. exec (strtok_code ct) (behind 3 (strtok_code ct)) st = exec (strtok_code ct) (behind 6 (strtok_code ct)) t
    \<and> bytes t = (if zs = [] then bytes st else (bytes st)(a := 0)) \<and> regs t BX = regs st BX"
  using assms(1-4,6,7)
proof (induction xs arbitrary: st)
  case Nil
  have b: "behind 3 (strtok_code ct) = [Lodsb, Testb_al, Je 5] @ drop 32 (strtok_code ct)"
    "behind 5 (strtok_code ct) = [Xor SI] @ Label 6 # behind 6 (strtok_code ct)" by (simp_all add: strtok_code_def)
  from set_search_end [OF b(1) Nil.prems(3)] Nil.prems(1) obtain t where
    t: "exec (strtok_code ct) (behind 3 (strtok_code ct)) st = exec (strtok_code ct) (behind 5 (strtok_code ct)) t" "bytes t = bytes st"
      "regs t BX = regs st BX" by auto
  have "exec (strtok_code ct) (behind 5 (strtok_code ct)) t = exec (strtok_code ct) (behind 6 (strtok_code ct)) (effect (Xor SI) t)"
    by (simp add: b(2))
  then show ?case using t Nil.prems(5) by (intro exI [of _ "effect (Xor SI) t"]) (simp add: arith_flags_def)
next
  case (Cons x xs)
  let ?c = "strtok_code ct" and ?r = "[Jne 3, Dec SI, Cmpb_0 SI, Je 5, Movb_0 SI, Inc SI, Jmp 6] @ Label 5 # behind 5 (strtok_code ct)"
  have b: "behind 3 ?c = [Lodsb, Testb_al, Je 5, Mov (V ct) DI, Mov (R DX) CX, Repne_scasb] @ ?r" by (simp add: strtok_code_def)
  from set_search [OF b Cons.prems(2-4) assms(5), of x] Cons.prems(1) obtain t where
    t: "exec ?c (behind 3 ?c) st = exec ?c ?r t" "bytes t = bytes st" "\<not> backward t" "regs t SI = regs st SI + 1"
      "regs t DX = regs st DX" "regs t BX = regs st BX" "zero t \<longleftrightarrow> x \<in> set ys" by auto
  show ?case
  proof (cases "x \<in> set ys")
    case False
    have e: "exec ?c (behind 3 ?c) st = exec ?c (behind 3 ?c) t" using t(1,7) False by simp
    have "string_at (bytes t) (regs t SI) xs" "area_at (bytes t) ct ys" "\<not> backward t" "regs t DX = of_nat (length ys)"
      "zs = dropWhile (\<lambda>x. x \<notin> set ys) xs" "a = regs t SI + of_nat (length (takeWhile (\<lambda>x. x \<notin> set ys) xs))"
      using t Cons.prems False by (simp_all add: add.assoc)
    from Cons.IH [OF this] show ?thesis unfolding e t(2,5,6) .
  next
    case True
    let ?t = "effect (Inc SI) (effect (Movb_0 SI) (compare8 x 0 (effect (Dec SI) t)))"
    have "exec ?c (behind 3 ?c) st = exec ?c (behind 6 ?c) ?t" using True t Cons.prems(1) by (simp add: x86)
    then show ?thesis using True t Cons.prems by (intro exI [of _ ?t]) (simp add: x86)
  qed
qed

lemma string_at_drop: "string_at m a (us @ zs) \<Longrightarrow> string_at m (a + of_nat (length us)) zs"
proof (induction us arbitrary: a)
  case (Cons u us)
  then show ?case using Cons.IH [of "a + 1"] by (simp add: add.assoc)
qed simp

text \<open>
  C39. \<^verbatim>\<open>strtok\<close> finds the first token.  For a string at an address other than null and a non-empty set of separators it
  ends, returns the address of the first character that is not in the set, or null when there is none, overwrites the
  separator behind the token, when there is one, with a terminator, and changes no other byte.
\<close>

theorem strtok_token:
  assumes "string_at (bytes st) s xs" and "string_at (bytes st) ct ys" and "ys \<noteq> []" and "length ys < 2 ^ 32 - 1"
    and "s \<noteq> 0" and "unat s + length xs < 2 ^ 32"
    and zs: "zs = dropWhile (\<lambda>x. x \<in> set ys) xs" and tok: "tok = takeWhile (\<lambda>x. x \<notin> set ys) zs"
    and a: "a = s + of_nat (length (takeWhile (\<lambda>x. x \<in> set ys) xs))"
  shows "\<exists>t. strtok old s ct st = Some (if zs = [] then 0 else a, t)
    \<and> bytes t = (if tok = zs then bytes st else (bytes st)(a + of_nat (length tok) := 0))"
proof -
  let ?c = "strtok_code ct" and ?p = "\<lambda>x. x \<in> set ys"
  let ?i = "set_reg BX old (set_reg SI s st)"
  let ?s = "effect (Mov (V ct) DI) (effect Cld (effect (Xor AX) (effect (Mov (V (- 1)) CX) (effect (Xor BX) (effect (Test SI) ?i)))))"
  have code: "?c = [Test SI, Jne 1] @ drop 2 ?c"
    "behind 1 ?c = [Xor BX, Mov (V (- 1)) CX, Xor AX, Cld, Mov (V ct) DI, Repne_scasb, Notl CX, Dec CX, Je 7, Mov (R CX) DX, Label 2] @ behind 2 ?c"
    "behind 6 ?c = [Cmpb_0 BX, Jne 7, Xor BX, Label 7] @ behind 7 ?c" "behind 7 ?c = [Test BX, Jne 8, Mov (R BX) SI, Label 8]" "behind 8 ?c = []"
    by (simp_all add: strtok_code_def)
  have "string_at (bytes ?s) (regs ?s DI) ys" "\<not> backward ?s" "low8 (regs ?s AX) = 0" "regs ?s CX = 0xFFFFFFFF"
    using assms(2) by (simp_all add: arith_flags_def)
  from repne_scasb_end [OF this assms(4)] obtain u where u: "rep_zero True scasb ?s = u" "bytes u = bytes ?s" "\<not> backward u"
    "\<forall>r. r \<notin> {CX, DI} \<longrightarrow> regs u r = regs ?s r" "NOT (regs u CX) - 1 = of_nat (length ys)" by blast
  let ?u = "effect (Mov (R CX) DX) (effect (Dec CX) (effect (Notl CX) u))"
  have "unat (of_nat (length ys) :: u32) = length ys" using assms(4) by (simp add: unat_of_nat)
  then have "(of_nat (length ys) :: u32) \<noteq> 0" using assms(3) by (metis length_0_conv unat_0)
  then have n: "NOT (regs u CX) - 1 \<noteq> 0" using u(5) by simp
  have "run ?c ?i = exec ?c (behind 1 ?c) (effect (Test SI) ?i)"
    using assms(5) by (simp add: run_from [OF code(1)] arith_flags_def)
  also have "\<dots> = exec ?c (behind 2 ?c) ?u"
    unfolding code(2) using u(1) n by (simp add: arith_flags_def Let_def)
  finally have r: "run ?c ?i = exec ?c (behind 2 ?c) ?u" .
  have v: "bytes ?u = bytes st" "\<not> backward ?u" "regs ?u SI = s" "regs ?u DX = of_nat (length ys)" "regs ?u BX = 0"
    using u by (simp_all add: arith_flags_def Let_def)
  have "string_at (bytes ?u) (regs ?u SI) xs" "area_at (bytes ?u) ct ys" "length ys < 2 ^ 32" "a = regs ?u SI + of_nat (length (takeWhile ?p xs))"
    unfolding v using assms(1,2,4) a area_of_string by simp_all
  from strtok_skip [OF this(1,2) v(2,4) this(3) zs this(4)] obtain w where
    w: "exec ?c (behind 2 ?c) ?u = exec ?c (behind (if zs = [] then 7 else 3) ?c) w" "bytes w = bytes st" "\<not> backward w"
      "regs w BX = (if zs = [] then 0 else a)" "zs \<noteq> [] \<longrightarrow> regs w SI = a \<and> regs w DX = of_nat (length ys)"
    unfolding v by blast
  show ?thesis
  proof (cases "zs = []")
    case True
    have "run ?c ?i = Some (effect (Mov (R BX) SI) (effect (Test BX) w))"
      unfolding r w(1) using True w(4) code(4) by (simp add: arith_flags_def)
    then show ?thesis unfolding strtok_def using w True tok by (simp add: arith_flags_def)
  next
    case False
    have "takeWhile ?p xs @ zs = xs" using zs by simp
    then have sz: "string_at (bytes w) a zs" using string_at_drop [of "bytes st" s "takeWhile ?p xs" zs] assms(1) w(2) a by simp
    have "string_at (bytes w) (regs w SI) zs" "area_at (bytes w) ct ys" "regs w DX = of_nat (length ys)" "length ys < 2 ^ 32"
      "dropWhile (\<lambda>x. \<not> ?p x) zs = dropWhile (\<lambda>x. \<not> ?p x) zs" "a + of_nat (length tok) = regs w SI + of_nat (length (takeWhile (\<lambda>x. \<not> ?p x) zs))"
      using sz w False assms(2,4) area_of_string tok by simp_all
    from strtok_end [OF this(1,2) w(3) this(3-6)] obtain t where
      t: "exec ?c (behind 3 ?c) w = exec ?c (behind 6 ?c) t" "regs t BX = a"
        "bytes t = (if dropWhile (\<lambda>x. \<not> ?p x) zs = [] then bytes st else (bytes st)(a + of_nat (length tok) := 0))"
      using w False by auto
    have split: "tok @ dropWhile (\<lambda>x. \<not> ?p x) zs = zs" using tok by simp
    then have e: "dropWhile (\<lambda>x. \<not> ?p x) zs = [] \<longleftrightarrow> tok = zs" by (metis append.right_neutral append_self_conv)
    have "\<not> ?p (hd zs)" using False zs by (metis hd_dropWhile)
    then have l: "0 < length tok" using False tok by (cases zs) auto
    have b: "length tok + length (takeWhile ?p xs) \<le> length xs" 
    proof -
      have "length (takeWhile ?p xs) + length zs = length xs" using arg_cong [OF \<open>takeWhile ?p xs @ zs = xs\<close>, of length] by simp
      moreover have "length tok \<le> length zs" unfolding tok by (rule length_takeWhile_le)
      ultimately show ?thesis by linarith
    qed
    have "unat (of_nat (length tok) :: u32) = length tok" using b assms(6) by (simp add: unat_of_nat)
    then have "(of_nat (length tok) :: u32) \<noteq> 0" using l by (metis less_numeral_extra(3) unat_0)
    then have "bytes t a = bytes st a" using t(3) by simp
    then have nz: "bytes t a \<noteq> 0" using sz w(2) False by (cases zs) auto
    have "unat a = unat s + length (takeWhile ?p xs)" using a b assms(6) by (simp add: unat_word_ariths unat_of_nat)
    then have "a \<noteq> 0" using assms(5) by (metis add_is_0 unat_0 unat_eq_zero)
    then have f: "exec ?c (behind 6 ?c) t = Some (effect (Test BX) (compare8 (bytes t a) 0 t))"
      unfolding code(3) using t(2) nz code(4,5) by (simp add: compare8_def arith_flags_def)
    have "run ?c ?i = exec ?c (behind 3 ?c) w" unfolding r w(1) using False by simp
    then have "run ?c ?i = Some (effect (Test BX) (compare8 (bytes t a) 0 t))" unfolding t(1) f .
    then have q: "strtok old s ct st = Some (a, effect (Test BX) (compare8 (bytes t a) 0 t))"
      unfolding strtok_def using t(2) by (simp add: arith_flags_def compare8_def)
    have q2: "bytes (effect (Test BX) (compare8 (bytes t a) 0 t)) = (if tok = zs then bytes st else (bytes st)(a + of_nat (length tok) := 0))"
      using t(3) unfolding e by (simp add: arith_flags_def compare8_def)
    show ?thesis unfolding q if_not_P [OF False] by (rule exI, rule conjI, rule refl, rule q2)
  qed
qed

theorem strtok_token_witness:
  "\<exists>t. strtok 7 100 200 demo_machine = Some (101, t) \<and> bytes t = (bytes demo_machine)(103 := 0)"
proof -
  have "string_at (bytes demo_machine) 100 [44, 97, 98, 44, 99]" "string_at (bytes demo_machine) 200 [44]"
    by (simp_all add: demo_machine_def)
  from strtok_token [OF this, of "[97, 98, 44, 99]" "[97, 98]" 101 7] show ?thesis by simp
qed

text \<open>Going on with the null pointer takes the rest from the variable, whatever it holds.\<close>

lemma strtok_rest: "strtok old 0 ct st = (if old = 0 then Some (0, effect (Test BX) (set_reg BX 0 (set_reg SI 0 st))) else strtok old old ct st)"
proof -
  have code: "strtok_code ct = [Test SI, Jne 1, Test BX, Je 8, Mov (R BX) SI, Label 1] @ behind 1 (strtok_code ct)" "behind 8 (strtok_code ct) = []"
    by (simp_all add: strtok_code_def)
  show ?thesis by (cases st) (auto simp: strtok_def run_from [OF code(1)] code(2) arith_flags_def fun_upd_twist [of SI BX])
qed

end
