(* ===== verification/Spec2Isabelle.thy ===== *)
theory Spec2Isabelle
  imports Defs CString Printk Sched Signal Ipc Intr Malloc FifoSems Keyboard Console Video Fat32 Rpc Kmod Loader VPages Elf
    Boot LoaderFs Screen Logging Exception LPrint LInt LibOut Kernel Startup LibRpc VideoStubs VideoCalls TtyCalls X86 StrAsm
begin

text \<open>
  TayhuangOS: a micro-kernel for x86-64 with drivers and services in separate address spaces.

  \<^bold>\<open>The program.\<close>  The loader (\<^verbatim>\<open>loader/grub_loader\<close>) is started by GRUB; it reads the kernel and the setup
  module from a FAT32 partition, builds page tables that map the memory to itself and enters long mode.  The kernel
  (\<^verbatim>\<open>kernel\<close>) owns the memory, the tasks and threads, the clock and interrupt lines, semaphores and messages.  Modules
  (\<^verbatim>\<open>module\<close>) are tasks linked with the library \<^verbatim>\<open>libs/libkmod\<close>; they talk to each other and to the system task of
  the kernel by messages, and most of these messages are remote procedure calls.  A thread enters the kernel by an
  interrupt or by the system call interrupt; when the handler returns, the scheduler may have chosen another thread,
  whose registers are then loaded.

  \<^bold>\<open>Conventions.\<close>  A pointer is a natural number and \<open>0\<close> is the null pointer.  Objects live in stores: partial maps from
  pointers to records that mirror the C structs.  An operation of type \<open>\<dots> option\<close> returns \<open>None\<close> exactly when the C
  code reads or writes through a pointer without an object, fails an assertion or never ends; a theorem with
  \<open>= Some \<dots>\<close> states that none of this happens.  Integers whose width matters are words, or natural numbers with the
  reduction written out.  Loops over bounded ranges are structural recursions over the range; loops along pointers
  are \<open>partial_function (option)\<close>.  The only fuel is the first argument of the operations that allocate pages: the
  page allocator stores its lists in the kernel heap, which takes pages from the page allocator when it is full, so
  \<open>kmalloc\<close> and \<open>alloc_pages\<close> call each other.  The depth the theorems need is stated with them: \<open>1\<close> when the heap has
  room, \<open>2\<close> when it has to grow; \<open>None\<close> for \<open>0\<close> is a computation that has not ended yet.

  \<^bold>\<open>Theories.\<close>
  \<^item> \<open>Prelude\<close>: types, rounding, little-endian bytes, singly and doubly linked lists in a store.  \<open>Interfaces\<close>: the
    contracts of queues and lookup tables as locales; each is interpreted on the definitions of the components.
  \<^item> \<open>Defs\<close> (\<^verbatim>\<open>include/tayhuang/defs.h\<close>, \<^verbatim>\<open>kernel/global.h\<close>), \<open>CString\<close> (\<^verbatim>\<open>kernel/libs/ctype.c\<close>, \<^verbatim>\<open>string.c\<close>),
    \<open>ToString\<close> (\<^verbatim>\<open>kernel/libs/tostring.c\<close>), \<open>Printk\<close> (\<^verbatim>\<open>vsprintk\<close> of \<^verbatim>\<open>kernel/printk.c\<close>): the macros and the
    library functions.
  \<^item> \<open>Kheap\<close> (\<^verbatim>\<open>kernel/memory/kheap.c\<close>), \<open>Pmm\<close> (\<^verbatim>\<open>pmm.c\<close>), \<open>Paging\<close> (\<^verbatim>\<open>paging.c\<close>, \<^verbatim>\<open>shared_memory.c\<close> and the copies
    between address spaces of \<^verbatim>\<open>pmm.c\<close>): the lists of the heap and of the page allocator are refined by abstract
    lists of blocks, and the page tables by the function from virtual to physical addresses that they describe.  The
    bytes of the memory are a field of their own (\<open>vm_bytes\<close>): clearing a page and the copies change them, while the
    entries of the tables, the headers of the heap and the variables of the kernel are typed fields and not bytes.
  \<^item> \<open>KState\<close>, \<open>Task\<close> (\<^verbatim>\<open>kernel/task/task_manager.c\<close>, \<^verbatim>\<open>thread.c\<close>), \<open>Sched\<close> (\<^verbatim>\<open>task_scheduler.c\<close>, \<^verbatim>\<open>clock.c\<close>): the state
    of the kernel, the list of tasks, the ready queues, the switch of threads and the clock tick.
  \<^item> \<open>Signal\<close> (\<^verbatim>\<open>kernel/task/signal.c\<close>): the semaphores, in a height-balanced tree, with their waiting queues.
  \<^item> \<open>Ipc\<close> (\<^verbatim>\<open>kernel/syscall/syscalls.c\<close>), \<open>Intr\<close> (\<^verbatim>\<open>kernel/intterup\<close>, \<^verbatim>\<open>kernel/syscall/syscall.c\<close>), \<open>Rpc\<close>
    (\<^verbatim>\<open>kernel/syscall/rpc.c\<close>, \<^verbatim>\<open>sys_task.c\<close>): mailboxes as rings of bytes refined by lists of messages, the interrupt
    controller and the dispatch of interrupts and system calls, the system task and its procedures.
  \<^item> \<open>Malloc\<close>, \<open>Kmod\<close> (\<^verbatim>\<open>libs/libkmod\<close>): the heap, the calls in flight and the message loop of a module.  \<open>Fifo\<close>
    (\<^verbatim>\<open>libs/libfifo/fifo.c\<close>): the byte queue between two modules as a step relation of interleaved threads; its
    semaphores are linked to those of the kernel in \<open>FifoSems\<close>.
  \<^item> \<open>Keyboard\<close> (\<^verbatim>\<open>module/driver/keyboard/ioman\<close>), \<open>Console\<close> (\<^verbatim>\<open>module/driver/vdd/tty\<close>), \<open>Video\<close>
    (\<^verbatim>\<open>module/driver/video\<close>), \<open>Fat32\<close> (\<^verbatim>\<open>module/setup\<close>): the modules.
  \<^item> \<open>VPages\<close> (\<^verbatim>\<open>alloc_vpages\<close> of \<^verbatim>\<open>pmm.c\<close>) refines the allocation of virtual pages, \<open>Elf\<close>
    (\<^verbatim>\<open>kernel/kmod_loader.c\<close>) loads modules into their address space.
  \<^item> \<open>Loader\<close> (\<^verbatim>\<open>loader/grub_loader/lheap.c\<close>, \<^verbatim>\<open>lm/setup_lm.c\<close>): the heap and the page tables of the loader.  \<open>Boot\<close>
    (\<^verbatim>\<open>info_parser.c\<close>, \<^verbatim>\<open>lm/load_kernel.c\<close>): the tags of GRUB, the image of the kernel and its arguments.  \<open>LoaderFs\<close>
    (\<^verbatim>\<open>disk.c\<close>, \<^verbatim>\<open>fs\<close>, \<^verbatim>\<open>main.c\<close>): the file reader of the loader, compared with that of the setup module, and
    \<^verbatim>\<open>loader_main\<close>, which composes the loader.
  \<^item> \<open>Screen\<close> (the screen part of \<^verbatim>\<open>kernel/printk.c\<close>), \<open>Logging\<close> (\<^verbatim>\<open>kernel/logging.c\<close>), \<open>Exception\<close>
    (\<^verbatim>\<open>kernel/intterup/exception.c\<close>): output, and the end of a thread by an exception.
  \<^item> \<open>LPrint\<close> (\<^verbatim>\<open>loader/grub_loader/printf.c\<close>), \<open>LInt\<close> (\<^verbatim>\<open>init.c\<close>, \<^verbatim>\<open>int_handlers.c\<close>, \<^verbatim>\<open>logging.c\<close> of the loader),
    \<open>LibOut\<close> (\<^verbatim>\<open>libs/libkmod/printf.c\<close>, \<^verbatim>\<open>debug/logging.c\<close>): the output and the interrupts of the loader and the output of
    the modules, where they differ from the kernel.
  \<^item> \<open>Kernel\<close> (\<^verbatim>\<open>kernel/kernel.c\<close>): \<^verbatim>\<open>initialize\<close> and \<^verbatim>\<open>entry\<close>, which compose the components of the kernel and take
    over from the loader.  \<open>Startup\<close> (\<^verbatim>\<open>init\<close>): the first task, which starts the system task and the modules, as a
    function from one wait for a message to the next.
  \<^item> \<open>LibRpc\<close> (\<^verbatim>\<open>libs/libkmod/syscall/rpc.c\<close>): the table of procedures of a module and its dispatcher; a call is followed
    from the caller to the procedure and its result back.  \<open>VideoStubs\<close> (\<^verbatim>\<open>export/video\<close>): the stubs of the video
    driver, and remote calls within a procedure, where what the rest of the system does during the wait is an argument,
    the \<open>world\<close>.  \<open>VideoCalls\<close> (\<^verbatim>\<open>module/driver/video/text.c\<close>) and \<open>TtyCalls\<close> (\<^verbatim>\<open>export/tty\<close>, \<^verbatim>\<open>export/keyboard\<close>,
    \<^verbatim>\<open>module/driver/vdd/tty\<close>): the procedures of the video driver and of the terminal, their calls of the video driver
    included, the stubs of the terminal and the steps of its echo thread between the messages that carry keys.
  \<^item> \<open>X86\<close>, \<open>StrAsm\<close> (\<^verbatim>\<open>include/std/string.h\<close>): the string instructions of the processor, and the routines in inline
    assembly as lists of instructions, which are compared with functions on lists.

  \<^bold>\<open>What is shown.\<close>  Memory: allocation returns memory that nobody else has, release gives back exactly that memory, the
  page allocator takes the oldest smallest block that suffices, mapping changes the translation at the mapped pages
  only.  Threads: registers survive a switch, the ready queue is served in order, and at level 1 every clock
  interrupt runs the next ready thread.  Semaphores: the tree
  stays ordered and balanced, \<open>up\<close> wakes the thread that has waited longest.  Messages: what is sent is appended, what
  is received is the oldest, a procedure reads the arguments its caller wrote and the caller gets its result, and so a
  character of a client reaches the screen and a text a console in the background.  Interrupts: a line is masked while
  its handler runs, for controllers that behave as the 8259 documents, a hypothesis stated as an automaton over the
  writes to their ports, which a concrete device satisfies.  The FIFO neither loses nor
  invents bytes under any interleaving and no wake-up is lost.  Files are read along their chain, and by the
  loader and the setup module alike.  The start: the loader puts the kernel at the virtual addresses of its headers, no address translates
  differently when the kernel replaces the page tables of the loader, and \<^verbatim>\<open>init\<close> is the first thread to run.  Where the code
  departs from its purpose the theorems of kind error state what it does instead, at a concrete input or in general.

  \<^bold>\<open>Not modelled\<close>, and why.  Assembly and port access (\<^verbatim>\<open>entry.S\<close>, \<^verbatim>\<open>int_handlers.S\<close>, \<^verbatim>\<open>io.h\<close>,
  \<^verbatim>\<open>control_registers.h\<close>): machine state below the C program; the addresses of the entry points are arguments, and
  writes to ports are recorded in a history.  The divisor of the clock is computed in floating point and is an argument.
  The copies of \<^verbatim>\<open>ctype.c\<close>, \<^verbatim>\<open>string.c\<close> and \<^verbatim>\<open>tostring.c\<close> in the loader and in the module libraries, and those of the
  module library in \<^verbatim>\<open>module/setup/_libkmod\<close>, repeat the code modelled here.  The stubs of the
  system task, the main functions that only register procedures, and the test benches hold no state.  \<^verbatim>\<open>identify_disk\<close>, the
  icon and the printing of a file system context are output only.
\<close>

end
